(* ===== verification/Rtt_Prelude.thy ===== *)
theory Rtt_Prelude
  imports Main "HOL-Library.Word" "HOL-Library.Monad_Syntax"
begin

text \<open>
  The vocabulary the whole development shares: the machine integer types of
  \<^verbatim>\<open>rt-thread/include/rtdef.h\<close>, the error codes and flag values that file defines,
  the collections of rewrite rules the component theories extend, and a few facts on lists,
  options and words that HOL-Library does not state in the shape used here.

  A model function of type \<open>\<dots> \<Rightarrow> 'a option\<close> returns \<open>None\<close> where the C code has no
  defined result: an \<^verbatim>\<open>RT_ASSERT\<close> that fails (the handler spins forever), a loop
  that does not end, or an access the C standard leaves undefined (a null owner that is
  dereferenced, a list head used as a thread, a node linked twice).
\<close>

unbundle bit_operations_syntax

subsection \<open>Integer types of rtdef.h\<close>

type_synonym rt_uint8 = "8 word"
type_synonym rt_uint16 = "16 word"
type_synonym rt_uint32 = "32 word"
type_synonym rt_tick = "32 word"
type_synonym rt_err = int

text \<open>Error codes; the code returns their negations.\<close>

abbreviation (input) RT_EOK :: rt_err where "RT_EOK \<equiv> 0"
abbreviation (input) RT_ERROR :: rt_err where "RT_ERROR \<equiv> 1"
abbreviation (input) RT_ETIMEOUT :: rt_err where "RT_ETIMEOUT \<equiv> 2"
abbreviation (input) RT_EFULL :: rt_err where "RT_EFULL \<equiv> 3"
abbreviation (input) RT_EEMPTY :: rt_err where "RT_EEMPTY \<equiv> 4"
abbreviation (input) RT_ENOMEM :: rt_err where "RT_ENOMEM \<equiv> 5"
abbreviation (input) RT_ENOSYS :: rt_err where "RT_ENOSYS \<equiv> 6"
abbreviation (input) RT_EBUSY :: rt_err where "RT_EBUSY \<equiv> 7"
abbreviation (input) RT_EINTR :: rt_err where "RT_EINTR \<equiv> 9"

text \<open>\<^verbatim>\<open>RT_TICK_MAX / 2\<close>, the half window in which ticks are compared.\<close>

abbreviation (input) RT_TICK_MAX :: rt_tick where "RT_TICK_MAX \<equiv> 0xffffffff"
abbreviation (input) RT_TICK_HALF :: rt_tick where "RT_TICK_HALF \<equiv> 0x7fffffff"

text \<open>\<^verbatim>\<open>RT_ALIGN\<close> and \<^verbatim>\<open>RT_ALIGN_DOWN\<close> for any width.\<close>

definition RT_ALIGN :: "'a::len word \<Rightarrow> 'a word \<Rightarrow> 'a word" where
  "RT_ALIGN sz align = ((sz + align - 1) AND (NOT (align - 1)))"

definition RT_ALIGN_DOWN :: "'a::len word \<Rightarrow> 'a word \<Rightarrow> 'a word" where
  "RT_ALIGN_DOWN sz align = (sz AND (NOT (align - 1)))"

text \<open>A failed assertion has no result.\<close>

definition RT_ASSERT :: "bool \<Rightarrow> unit option" where
  "RT_ASSERT b = (if b then Some () else None)"

subsection \<open>Collections\<close>

named_theorems lstore_simps \<open>rewriting of the list store operations\<close>
named_theorems inv_intro \<open>an operation keeps an invariant\<close>
named_theorems frame_simps \<open>fields of the state an operation leaves alone\<close>
named_theorems op_defs \<open>definitions of operations, for evaluation of concrete runs\<close>

subsection \<open>Lists\<close>

fun insert_before_elem :: "'a \<Rightarrow> 'a \<Rightarrow> 'a list \<Rightarrow> 'a list" where
  "insert_before_elem x n [] = [n]"
| "insert_before_elem x n (y # ys) = (if y = x then n # y # ys else y # insert_before_elem x n ys)"

lemma set_insert_before_elem [simp]: "set (insert_before_elem x n xs) = insert n (set xs)"
  by (induction xs) auto

lemma distinct_insert_before_elem [simp]:
  "n \<notin> set xs \<Longrightarrow> distinct (insert_before_elem x n xs) = distinct xs"
  by (induction xs) auto

lemma insert_before_elem_split:
  "x \<notin> set ps \<Longrightarrow> insert_before_elem x n (ps @ x # qs) = ps @ n # x # qs"
  by (induction ps) auto

fun insert_after_elem :: "'a \<Rightarrow> 'a \<Rightarrow> 'a list \<Rightarrow> 'a list" where
  "insert_after_elem x n [] = [n]"
| "insert_after_elem x n (y # ys) = (if y = x then y # n # ys else y # insert_after_elem x n ys)"

lemma set_insert_after_elem [simp]: "set (insert_after_elem x n xs) = insert n (set xs)"
  by (induction xs) auto

lemma distinct_insert_after_elem [simp]:
  "n \<notin> set xs \<Longrightarrow> distinct (insert_after_elem x n xs) = distinct xs"
  by (induction xs) auto

lemma insert_after_elem_split:
  "x \<notin> set ps \<Longrightarrow> insert_after_elem x n (ps @ x # qs) = (ps @ [x]) @ n # qs"
  by (induction ps) auto

lemma remove1_split: "x \<notin> set ps \<Longrightarrow> remove1 x (ps @ x # qs) = ps @ qs"
  by (induction ps) auto

lemma length_insert_before_elem [simp]:
  "length (insert_before_elem x n xs) = Suc (length xs)"
  by (induction xs) auto

lemma in_list_split:
  assumes "x \<in> set xs" and "distinct xs"
  obtains ps qs where "xs = ps @ x # qs" and "x \<notin> set ps" and "x \<notin> set qs"
  using assms by (metis split_list distinct_append distinct.simps(2) disjoint_iff list.set_intros(1))

subsection \<open>Options\<close>

lemma bind_eq_Some [simp]:
  "(Option.bind m f = Some y) = (\<exists>x. m = Some x \<and> f x = Some y)"
  by (cases m) auto

lemma bind_Some_map [simp]: "Option.bind m (\<lambda>x. Some (f x)) = map_option f m"
  by (cases m) auto

lemma RT_ASSERT_Some [simp]: "RT_ASSERT b = Some u \<longleftrightarrow> b"
  and RT_ASSERT_True [simp]: "RT_ASSERT True = Some ()"
  and RT_ASSERT_False [simp]: "RT_ASSERT False = None"
  by (simp_all add: RT_ASSERT_def)

subsection \<open>Bits\<close>

lemma bit_0xff [simp]: "bit (0xff :: int) j \<longleftrightarrow> j < 8"
  using bit_mask_iff[of 8 j, where 'a = int] by (auto simp: mask_eq_exp_minus_1)

lemma unat32_less: "unat (w :: rt_uint32) < 2 ^ 32"
  using unsigned_less[of w] by simp

lemma unat32_minus_1: "unat (- 1 :: rt_uint32) = 4294967295"
  by (simp add: unsigned_minus_1_eq_mask mask_eq_exp_minus_1)

lemma word_eq_of_unat: "unat (x :: 'a::len word) = n \<Longrightarrow> x = of_nat n"
  by auto

end
