(* ===== verification/Rtt_List.thy ===== *)
theory Rtt_List
  imports Rtt_Prelude
begin

text \<open>
  The intrusive doubly linked list of \<^verbatim>\<open>rt-thread/include/rtservice.h\<close>, twice.

  \<^item> The pointer level: a memory of \<^verbatim>\<open>next\<close>/\<^verbatim>\<open>prev\<close> fields
    (\<open>lmem\<close>) over the addresses of list heads and of the nodes embedded in objects, with the
    inline functions as the sequence of assignments they are.
  \<^item> The list store: for every head the list of its nodes, for every node the head it hangs
    on. The kernel model is written over this store (\<open>lstore\<close>). A node that is linked while
    it already hangs on a list would corrupt both rings in C; the store operations return
    \<open>None\<close> there.

  The locale \<open>list_impl\<close> is the contract between them, interpreted on the pointer functions:
  every C operation simulates its store operation, so any sequence of them does.
\<close>

section \<open>Pointer level\<close>

datatype ('h, 'n) addr = Head 'h | Node 'n

record ('h, 'n) lmem =
  nxt :: "('h, 'n) addr \<Rightarrow> ('h, 'n) addr"
  prv :: "('h, 'n) addr \<Rightarrow> ('h, 'n) addr"

definition set_nxt :: "('h, 'n) addr \<Rightarrow> ('h, 'n) addr \<Rightarrow> ('h, 'n) lmem \<Rightarrow> ('h, 'n) lmem" where
  "set_nxt a b m = m\<lparr>nxt := (nxt m)(a := b)\<rparr>"

definition set_prv :: "('h, 'n) addr \<Rightarrow> ('h, 'n) addr \<Rightarrow> ('h, 'n) lmem \<Rightarrow> ('h, 'n) lmem" where
  "set_prv a b m = m\<lparr>prv := (prv m)(a := b)\<rparr>"

definition rt_list_init :: "('h, 'n) addr \<Rightarrow> ('h, 'n) lmem \<Rightarrow> ('h, 'n) lmem" where
  "rt_list_init l m = set_nxt l l (set_prv l l m)"

definition rt_list_insert_after ::
  "('h, 'n) addr \<Rightarrow> ('h, 'n) addr \<Rightarrow> ('h, 'n) lmem \<Rightarrow> ('h, 'n) lmem" where
  "rt_list_insert_after l n m =
     (let m = set_prv (nxt m l) n m;
          m = set_nxt n (nxt m l) m;
          m = set_nxt l n m
      in set_prv n l m)"

definition rt_list_insert_before ::
  "('h, 'n) addr \<Rightarrow> ('h, 'n) addr \<Rightarrow> ('h, 'n) lmem \<Rightarrow> ('h, 'n) lmem" where
  "rt_list_insert_before l n m =
     (let m = set_nxt (prv m l) n m;
          m = set_prv n (prv m l) m;
          m = set_prv l n m
      in set_nxt n l m)"

definition rt_list_remove :: "('h, 'n) addr \<Rightarrow> ('h, 'n) lmem \<Rightarrow> ('h, 'n) lmem" where
  "rt_list_remove n m =
     (let m = set_prv (nxt m n) (prv m n) m;
          m = set_nxt (prv m n) (nxt m n) m;
          m = set_prv n n m
      in set_nxt n n m)"

definition rt_list_isempty :: "('h, 'n) addr \<Rightarrow> ('h, 'n) lmem \<Rightarrow> bool" where
  "rt_list_isempty l m \<longleftrightarrow> nxt m l = l"

text \<open>The loop of \<^verbatim>\<open>rt_list_len\<close> ends only when it meets the head again.\<close>

partial_function (option) rt_list_len_from ::
  "('h, 'n) addr \<Rightarrow> ('h, 'n) addr \<Rightarrow> nat \<Rightarrow> ('h, 'n) lmem \<Rightarrow> nat option" where
  "rt_list_len_from l p len m =
     (if nxt m p \<noteq> l then rt_list_len_from l (nxt m p) (Suc len) m else Some len)"

definition rt_list_len :: "('h, 'n) addr \<Rightarrow> ('h, 'n) lmem \<Rightarrow> nat option" where
  "rt_list_len l m = rt_list_len_from l l 0 m"

lemmas ptr_defs = rt_list_init_def rt_list_insert_after_def rt_list_insert_before_def
  rt_list_remove_def set_nxt_def set_prv_def Let_def

section \<open>The list store\<close>

record ('h, 'n) lstore =
  ls_nodes :: "'h \<Rightarrow> 'n list"
  ls_on :: "'n \<Rightarrow> 'h option"

definition ls_empty :: "('h, 'n) lstore" where
  "ls_empty = \<lparr>ls_nodes = (\<lambda>_. []), ls_on = (\<lambda>_. None)\<rparr>"

definition ls_wf :: "('h, 'n) lstore \<Rightarrow> bool" where
  "ls_wf L \<longleftrightarrow> (\<forall>h. distinct (ls_nodes L h)) \<and>
     (\<forall>n h. ls_on L n = Some h \<longleftrightarrow> n \<in> set (ls_nodes L h))"

text \<open>\<open>rt_list_insert_after(head, n)\<close>, \<open>rt_list_insert_before(head, n)\<close>, and
  \<open>rt_list_insert_before(x, n)\<close>, \<open>rt_list_insert_after(x, n)\<close> for a node \<open>x\<close> on a list.\<close>

definition ls_insert_after_head :: "'h \<Rightarrow> 'n \<Rightarrow> ('h, 'n) lstore \<Rightarrow> ('h, 'n) lstore option" where
  "ls_insert_after_head h n L =
     (if ls_on L n \<noteq> None then None
      else Some \<lparr>ls_nodes = (ls_nodes L)(h := n # ls_nodes L h), ls_on = (ls_on L)(n \<mapsto> h)\<rparr>)"

definition ls_insert_before_head :: "'h \<Rightarrow> 'n \<Rightarrow> ('h, 'n) lstore \<Rightarrow> ('h, 'n) lstore option" where
  "ls_insert_before_head h n L =
     (if ls_on L n \<noteq> None then None
      else Some \<lparr>ls_nodes = (ls_nodes L)(h := ls_nodes L h @ [n]), ls_on = (ls_on L)(n \<mapsto> h)\<rparr>)"

definition ls_insert_before_node :: "'n \<Rightarrow> 'n \<Rightarrow> ('h, 'n) lstore \<Rightarrow> ('h, 'n) lstore option" where
  "ls_insert_before_node x n L =
     (case ls_on L x of None \<Rightarrow> None
      | Some h \<Rightarrow>
          if ls_on L n \<noteq> None then None
          else Some \<lparr>ls_nodes = (ls_nodes L)(h := insert_before_elem x n (ls_nodes L h)),
                     ls_on = (ls_on L)(n \<mapsto> h)\<rparr>)"

definition ls_insert_after_node :: "'n \<Rightarrow> 'n \<Rightarrow> ('h, 'n) lstore \<Rightarrow> ('h, 'n) lstore option" where
  "ls_insert_after_node x n L =
     (case ls_on L x of None \<Rightarrow> None
      | Some h \<Rightarrow>
          if ls_on L n \<noteq> None then None
          else Some \<lparr>ls_nodes = (ls_nodes L)(h := insert_after_elem x n (ls_nodes L h)),
                     ls_on = (ls_on L)(n \<mapsto> h)\<rparr>)"

definition ls_remove :: "'n \<Rightarrow> ('h, 'n) lstore \<Rightarrow> ('h, 'n) lstore" where
  "ls_remove n L =
     (case ls_on L n of None \<Rightarrow> L
      | Some h \<Rightarrow> \<lparr>ls_nodes = (ls_nodes L)(h := remove1 n (ls_nodes L h)),
                  ls_on = (ls_on L)(n := None)\<rparr>)"

lemmas ls_op_defs = ls_insert_after_head_def ls_insert_before_head_def ls_insert_before_node_def
  ls_insert_after_node_def ls_remove_def

declare ls_op_defs [op_defs] ls_empty_def [op_defs]

subsection \<open>What the store operations keep\<close>

lemma ls_wf_empty [simp]: "ls_wf ls_empty"
  by (simp add: ls_wf_def ls_empty_def)

lemma ls_wf_on: "ls_wf L \<Longrightarrow> ls_on L n = Some h \<longleftrightarrow> n \<in> set (ls_nodes L h)"
  by (simp add: ls_wf_def)

lemma ls_wf_distinct: "ls_wf L \<Longrightarrow> distinct (ls_nodes L h)"
  by (simp add: ls_wf_def)

lemma ls_wf_unlinked: "ls_wf L \<Longrightarrow> ls_on L n = None \<Longrightarrow> n \<notin> set (ls_nodes L h)"
  by (metis ls_wf_on option.distinct(1))

lemma ls_wf_head_unique:
  "ls_wf L \<Longrightarrow> n \<in> set (ls_nodes L h) \<Longrightarrow> n \<in> set (ls_nodes L h') \<Longrightarrow> h = h'"
  by (metis ls_wf_on option.inject)

lemma ls_wf_insert:
  assumes "ls_wf L" "ls_on L n = None" "set xs = insert n (set (ls_nodes L h))" "distinct xs"
  shows "ls_wf \<lparr>ls_nodes = (ls_nodes L)(h := xs), ls_on = (ls_on L)(n \<mapsto> h)\<rparr>"
proof -
  have "n \<notin> set (ls_nodes L h')" for h'
    using assms(1,2) by (rule ls_wf_unlinked)
  with assms show ?thesis by (auto simp: ls_wf_def)
qed

lemma ls_insert_after_head_wf:
  "ls_wf L \<Longrightarrow> ls_insert_after_head h n L = Some L' \<Longrightarrow> ls_wf L'"
  by (auto simp: ls_insert_after_head_def ls_wf_unlinked ls_wf_distinct
      intro!: ls_wf_insert split: if_splits)

lemma ls_insert_before_head_wf:
  "ls_wf L \<Longrightarrow> ls_insert_before_head h n L = Some L' \<Longrightarrow> ls_wf L'"
  by (auto simp: ls_insert_before_head_def ls_wf_unlinked ls_wf_distinct
      intro!: ls_wf_insert split: if_splits)

lemma ls_insert_before_node_wf:
  "ls_wf L \<Longrightarrow> ls_insert_before_node x n L = Some L' \<Longrightarrow> ls_wf L'"
  by (auto simp: ls_insert_before_node_def ls_wf_unlinked ls_wf_distinct
      intro!: ls_wf_insert split: if_splits option.splits)

lemma ls_insert_after_node_wf:
  "ls_wf L \<Longrightarrow> ls_insert_after_node x n L = Some L' \<Longrightarrow> ls_wf L'"
  by (auto simp: ls_insert_after_node_def ls_wf_unlinked ls_wf_distinct
      intro!: ls_wf_insert split: if_splits option.splits)

lemma ls_remove_wf: "ls_wf L \<Longrightarrow> ls_wf (ls_remove n L)"
proof (cases "ls_on L n")
  case (Some h)
  moreover assume "ls_wf L"
  ultimately have "n \<notin> set (ls_nodes L h')" if "h' \<noteq> h" for h'
    using that by (metis ls_wf_on option.inject)
  moreover have "ls_remove n L = \<lparr>ls_nodes = (ls_nodes L)(h := remove1 n (ls_nodes L h)),
      ls_on = (ls_on L)(n := None)\<rparr>"
    using Some by (simp add: ls_remove_def)
  ultimately show ?thesis
    using \<open>ls_wf L\<close> by (auto simp: ls_wf_def)
qed (simp add: ls_remove_def)

lemmas ls_wf_intros = ls_insert_after_head_wf ls_insert_before_head_wf ls_insert_before_node_wf
  ls_insert_after_node_wf ls_remove_wf

declare ls_remove_wf [simp, inv_intro]

lemma ls_on_remove [simp, lstore_simps]: "ls_on (ls_remove n L) = (ls_on L)(n := None)"
  by (auto simp: ls_remove_def split: option.splits)

lemma ls_nodes_remove:
  "ls_wf L \<Longrightarrow> ls_nodes (ls_remove n L) h = remove1 n (ls_nodes L h)"
  by (auto simp: ls_remove_def split: option.splits)
    (metis ls_wf_unlinked remove1_idem, metis ls_wf_on option.inject remove1_idem)

lemma set_ls_nodes_remove:
  "ls_wf L \<Longrightarrow> set (ls_nodes (ls_remove n L) h) = set (ls_nodes L h) - {n}"
  by (simp add: ls_nodes_remove ls_wf_distinct)

lemma ls_remove_unlinked [simp]: "ls_on L n = None \<Longrightarrow> ls_remove n L = L"
  by (simp add: ls_remove_def)

lemma ls_insert_before_head_unlinked [lstore_simps]:
  "ls_on L n = None \<Longrightarrow> ls_insert_before_head h n L =
     Some \<lparr>ls_nodes = (ls_nodes L)(h := ls_nodes L h @ [n]), ls_on = (ls_on L)(n \<mapsto> h)\<rparr>"
  by (simp add: ls_insert_before_head_def)


section \<open>Rings in memory\<close>

text \<open>\<open>seg m a xs b\<close>: following \<open>nxt\<close> from \<open>a\<close> visits \<open>xs\<close> and then reaches \<open>b\<close>, and
  \<open>prv\<close> leads back the same way.\<close>

fun seg :: "('h, 'n) lmem \<Rightarrow> ('h, 'n) addr \<Rightarrow> ('h, 'n) addr list \<Rightarrow> ('h, 'n) addr \<Rightarrow> bool" where
  "seg m a [] b \<longleftrightarrow> nxt m a = b \<and> prv m b = a"
| "seg m a (x # xs) b \<longleftrightarrow> nxt m a = x \<and> prv m x = a \<and> seg m x xs b"

definition ring :: "('h, 'n) lmem \<Rightarrow> 'h \<Rightarrow> 'n list \<Rightarrow> bool" where
  "ring m h xs \<longleftrightarrow> seg m (Head h) (map Node xs) (Head h)"

definition self_linked :: "('h, 'n) lmem \<Rightarrow> 'n \<Rightarrow> bool" where
  "self_linked m n \<longleftrightarrow> nxt m (Node n) = Node n \<and> prv m (Node n) = Node n"

text \<open>The memory represents the store: one ring for every head, unlinked nodes point at themselves.\<close>

definition rep :: "('h, 'n) lmem \<Rightarrow> ('h, 'n) lstore \<Rightarrow> bool" where
  "rep m L \<longleftrightarrow> ls_wf L \<and> (\<forall>h. ring m h (ls_nodes L h)) \<and>
     (\<forall>n. ls_on L n = None \<longrightarrow> self_linked m n)"

lemma seg_append:
  "seg m a (xs @ y # ys) b \<longleftrightarrow> seg m a xs y \<and> seg m y ys b"
  by (induction xs arbitrary: a) auto

lemma seg_cong:
  "(\<And>x. x \<in> insert a (set xs) \<Longrightarrow> nxt m' x = nxt m x) \<Longrightarrow>
   (\<And>x. x \<in> insert b (set xs) \<Longrightarrow> prv m' x = prv m x) \<Longrightarrow>
   seg m' a xs b = seg m a xs b"
  by (induction xs arbitrary: a) auto

lemma seg_nxt_last: "seg m a xs b \<Longrightarrow> prv m b = last (a # xs)"
  by (induction xs arbitrary: a) auto

lemma seg_nxt_first: "seg m a xs b \<Longrightarrow> nxt m a = hd (xs @ [b])"
  by (cases xs) auto

lemma ring_isempty: "ring m h xs \<Longrightarrow> rt_list_isempty (Head h) m \<longleftrightarrow> xs = []"
  by (cases xs) (auto simp: ring_def rt_list_isempty_def)

lemma rt_list_len_seg:
  "seg m a (map Node xs) (Head h) \<Longrightarrow> rt_list_len_from (Head h) a k m = Some (k + length xs)"
  by (induction xs arbitrary: a k) (auto simp: rt_list_len_from.simps)

lemma ring_len: "ring m h xs \<Longrightarrow> rt_list_len (Head h) m = Some (length xs)"
  by (simp add: ring_def rt_list_len_def rt_list_len_seg)

subsection \<open>One pointer operation on one segment\<close>

lemma insert_after_nxt_prv:
  assumes "nxt m l \<noteq> n" "n \<noteq> l"
  shows "nxt (rt_list_insert_after l n m) = (nxt m)(n := nxt m l, l := n)"
    and "prv (rt_list_insert_after l n m) = (prv m)(nxt m l := n, n := l)"
  using assms by (auto simp: ptr_defs fun_eq_iff)

lemma insert_before_nxt_prv:
  assumes "prv m l \<noteq> n" "n \<noteq> l"
  shows "nxt (rt_list_insert_before l n m) = (nxt m)(prv m l := n, n := l)"
    and "prv (rt_list_insert_before l n m) = (prv m)(n := prv m l, l := n)"
  using assms by (auto simp: ptr_defs fun_eq_iff)

lemma remove_nxt_prv:
  assumes "prv m n \<noteq> n" "nxt m n \<noteq> n"
  shows "nxt (rt_list_remove n m) = (nxt m)(prv m n := nxt m n, n := n)"
    and "prv (rt_list_remove n m) = (prv m)(nxt m n := prv m n, n := n)"
  using assms by (auto simp: ptr_defs fun_eq_iff)

lemma remove_self_linked: "self_linked m n \<Longrightarrow> rt_list_remove (Node n) m = m"
  by (cases m) (auto simp: self_linked_def ptr_defs)

text \<open>Inserting before \<open>l\<close> is inserting after its predecessor.\<close>

lemma insert_before_as_after:
  assumes "nxt m (prv m l) = l" "prv m l \<noteq> n" "n \<noteq> l"
  shows "rt_list_insert_before l n m = rt_list_insert_after (prv m l) n m"
proof -
  have "nxt (rt_list_insert_before l n m) = nxt (rt_list_insert_after (prv m l) n m)"
    "prv (rt_list_insert_before l n m) = prv (rt_list_insert_after (prv m l) n m)"
    using assms by (auto simp: insert_before_nxt_prv insert_after_nxt_prv)
  then show ?thesis by simp
qed

lemma seg_insert_after:
  assumes "seg m a ys b" "n \<noteq> a" "n \<noteq> b" "n \<notin> set ys" "a \<notin> set ys" "b \<notin> set ys" "distinct ys"
  shows "seg (rt_list_insert_after a n m) a (n # ys) b"
proof (cases ys)
  case Nil
  with assms show ?thesis by (auto simp: insert_after_nxt_prv)
next
  case (Cons y zs)
  with assms have "nxt m a = y" "prv m y = a" "seg m y zs b" "n \<noteq> y" by auto
  moreover have "seg (rt_list_insert_after a n m) y zs b = seg m y zs b"
    using assms Cons \<open>nxt m a = y\<close> by (intro seg_cong) (auto simp: insert_after_nxt_prv)
  ultimately show ?thesis
    using assms Cons by (auto simp: insert_after_nxt_prv)
qed

lemma seg_remove:
  assumes "seg m a (xs @ n # ys) b" "a \<notin> set (xs @ n # ys)" "b \<notin> set (xs @ n # ys)"
    "distinct (xs @ n # ys)"
  shows "seg (rt_list_remove n m) a (xs @ ys) b"
  using assms
proof (induction xs arbitrary: a)
  case Nil
  show ?case
  proof (cases ys)
    case Nil
    with Nil.prems show ?thesis by (auto simp: remove_nxt_prv)
  next
    case (Cons y zs)
    with Nil.prems have eqs: "nxt m a = n" "prv m n = a" "nxt m n = y" "prv m y = n" "seg m y zs b"
      by auto
    have "seg (rt_list_remove n m) y zs b = seg m y zs b"
      using Nil.prems Cons eqs by (intro seg_cong) (auto simp: remove_nxt_prv)
    with Nil.prems Cons eqs show ?thesis by (auto simp: remove_nxt_prv)
  qed
next
  case (Cons x zs)
  then have IH: "seg (rt_list_remove n m) x (zs @ ys) b"
    by auto
  have s: "seg m x zs n" "seg m n ys b"
    using Cons.prems(1) by (auto simp: seg_append)
  have p: "prv m n = last (x # zs)" and q: "nxt m n = hd (ys @ [b])"
    using seg_nxt_last[OF s(1)] seg_nxt_first[OF s(2)] by auto
  have p_in: "prv m n \<in> set (x # zs)"
    unfolding p by (rule last_in_set) simp
  have q_in: "nxt m n \<in> insert b (set ys)"
    unfolding q by (cases ys) auto
  from p_in q_in Cons.prems have "prv m n \<noteq> n" "nxt m n \<noteq> n" "a \<noteq> prv m n" "a \<noteq> n" "x \<noteq> nxt m n" "x \<noteq> n"
    by auto
  with Cons.prems(1) IH show ?case by (auto simp: remove_nxt_prv)
qed

text \<open>A segment whose addresses the operation does not touch.\<close>

lemma seg_insert_after_frame:
  assumes "nxt m l \<noteq> n" "n \<noteq> l" "l \<noteq> a" "l \<notin> set xs" "n \<noteq> a" "n \<noteq> b" "n \<notin> set xs"
    "nxt m l \<noteq> b" "nxt m l \<notin> set xs"
  shows "seg (rt_list_insert_after l n m) a xs b = seg m a xs b"
  using assms by (intro seg_cong) (auto simp: insert_after_nxt_prv)

lemma seg_remove_frame:
  assumes "prv m n \<noteq> n" "nxt m n \<noteq> n" "n \<noteq> a" "n \<noteq> b" "n \<notin> set xs"
    "prv m n \<noteq> a" "prv m n \<notin> set xs" "nxt m n \<noteq> b" "nxt m n \<notin> set xs"
  shows "seg (rt_list_remove n m) a xs b = seg m a xs b"
  using assms by (intro seg_cong) (auto simp: remove_nxt_prv)

subsection \<open>One pointer operation on the rings\<close>

text \<open>The address after which a node inserted behind the prefix \<open>ps\<close> goes.\<close>

definition at_end :: "'h \<Rightarrow> 'n list \<Rightarrow> ('h, 'n) addr" where
  "at_end h ps = (if ps = [] then Head h else Node (last ps))"

lemma at_end_snoc [simp]: "at_end h (ps @ [x]) = Node x"
  and at_end_Nil [simp]: "at_end h [] = Head h"
  by (auto simp: at_end_def)

lemma ring_split:
  "ring m h (ps @ x # qs) \<longleftrightarrow>
     seg m (Head h) (map Node ps) (Node x) \<and> seg m (Node x) (map Node qs) (Head h)"
  by (simp add: ring_def seg_append)

lemma ring_nxt_at_end:
  "ring m h (ps @ qs) \<Longrightarrow> nxt m (at_end h ps) = (if qs = [] then Head h else Node (hd qs))"
proof (cases ps rule: rev_cases)
  case Nil
  moreover assume "ring m h (ps @ qs)"
  ultimately show ?thesis by (cases qs) (auto simp: ring_def)
next
  case (snoc zs x)
  moreover assume "ring m h (ps @ qs)"
  ultimately show ?thesis by (cases qs) (auto simp: ring_split)
qed

lemma ring_insert_after:
  assumes "ring m h (ps @ qs)" "n \<notin> set (ps @ qs)" "distinct (ps @ qs)"
  shows "ring (rt_list_insert_after (at_end h ps) (Node n) m) h (ps @ n # qs)"
proof (cases ps rule: rev_cases)
  case Nil
  with assms have "seg (rt_list_insert_after (Head h) (Node n) m) (Head h) (Node n # map Node qs) (Head h)"
    by (intro seg_insert_after) (auto simp: ring_def distinct_map inj_on_def)
  with Nil show ?thesis by (simp add: ring_def)
next
  case (snoc zs x)
  with assms have s: "seg m (Head h) (map Node zs) (Node x)" "seg m (Node x) (map Node qs) (Head h)"
    by (auto simp: ring_split)
  have nx: "nxt m (Node x) = (if qs = [] then Head h else Node (hd qs))"
    using ring_nxt_at_end[OF assms(1)] snoc by simp
  have hd_notin: "qs \<noteq> [] \<Longrightarrow> hd qs \<noteq> n \<and> hd qs \<notin> set zs \<and> hd qs \<noteq> x"
    using assms snoc by (cases qs) auto
  have "seg (rt_list_insert_after (Node x) (Node n) m) (Node x) (Node n # map Node qs) (Head h)"
    using s(2) assms snoc by (intro seg_insert_after) (auto simp: distinct_map inj_on_def)
  moreover have "seg (rt_list_insert_after (Node x) (Node n) m) (Head h) (map Node zs) (Node x)
      = seg m (Head h) (map Node zs) (Node x)"
    using assms snoc nx hd_notin by (intro seg_insert_after_frame) (auto split: if_splits)
  ultimately show ?thesis
    using s(1) snoc by (simp add: ring_split)
qed

lemma ring_remove:
  assumes "ring m h (ps @ n # qs)" "distinct (ps @ n # qs)"
  shows "ring (rt_list_remove (Node n) m) h (ps @ qs)"
  using assms unfolding ring_def map_append list.map
  by (intro seg_remove) (auto simp: distinct_map inj_on_def)

lemma ring_nbrs:
  assumes "ring m h xs" "n \<in> set xs" "distinct xs"
  shows "prv m (Node n) \<in> insert (Head h) (Node ` (set xs - {n}))"
    and "nxt m (Node n) \<in> insert (Head h) (Node ` (set xs - {n}))"
proof -
  obtain ps qs where xs: "xs = ps @ n # qs" "n \<notin> set ps" "n \<notin> set qs"
    by (rule in_list_split[OF assms(2,3)])
  then have s: "seg m (Head h) (map Node ps) (Node n)" "seg m (Node n) (map Node qs) (Head h)"
    using assms(1) by (auto simp: ring_split)
  have "prv m (Node n) \<in> set (Head h # map Node ps)"
    unfolding seg_nxt_last[OF s(1)] by (rule last_in_set) simp
  then show "prv m (Node n) \<in> insert (Head h) (Node ` (set xs - {n}))"
    using xs by auto
  have "nxt m (Node n) \<in> set (map Node qs @ [Head h])"
    unfolding seg_nxt_first[OF s(2)] by (rule hd_in_set) simp
  then show "nxt m (Node n) \<in> insert (Head h) (Node ` (set xs - {n}))"
    using xs by auto
qed

subsection \<open>Simulation of the store operations\<close>

lemma rep_wf: "rep m L \<Longrightarrow> ls_wf L"
  and rep_ring: "rep m L \<Longrightarrow> ring m h (ls_nodes L h)"
  and rep_self: "rep m L \<Longrightarrow> ls_on L n = None \<Longrightarrow> self_linked m n"
  by (auto simp: rep_def)

lemma rep_insert_after:
  assumes r: "rep m L" and n: "ls_on L n = None" and xs: "ls_nodes L h = ps @ qs"
  shows "rep (rt_list_insert_after (at_end h ps) (Node n) m)
     \<lparr>ls_nodes = (ls_nodes L)(h := ps @ n # qs), ls_on = (ls_on L)(n \<mapsto> h)\<rparr>"
    (is "rep ?m' ?L'")
proof -
  let ?l = "at_end h ps"
  have wf: "ls_wf L" by (rule rep_wf[OF r])
  have n_out: "n \<notin> set (ls_nodes L h')" for h' using wf n by (rule ls_wf_unlinked)
  have rg: "ring m h (ps @ qs)" using rep_ring[OF r, of h] xs by simp
  have d: "distinct (ps @ qs)" using ls_wf_distinct[OF wf, of h] xs by simp
  have l_in: "?l = Head h \<or> ?l \<in> Node ` set (ls_nodes L h)"
    using xs by (auto simp: at_end_def)
  have q_in: "nxt m ?l = Head h \<or> nxt m ?l \<in> Node ` set (ls_nodes L h)"
    using ring_nxt_at_end[OF rg] xs by auto
  have ne: "nxt m ?l \<noteq> Node n" "Node n \<noteq> ?l"
    using l_in q_in n_out by auto
  have wf': "ls_wf ?L'"
    using wf n n_out[of h] d xs by (intro ls_wf_insert) auto
  have "ring ?m' h' (ls_nodes L h')" if "h' \<noteq> h" for h'
  proof -
    have dis: "set (ls_nodes L h') \<inter> set (ls_nodes L h) = {}"
      using ls_wf_head_unique[OF wf] that by blast
    have "seg ?m' (Head h') (map Node (ls_nodes L h')) (Head h')
        = seg m (Head h') (map Node (ls_nodes L h')) (Head h')"
      using ne l_in q_in that dis n_out[of h'] by (intro seg_insert_after_frame) auto
    then show ?thesis using rep_ring[OF r, of h'] by (simp add: ring_def)
  qed
  moreover have "ring ?m' h (ps @ n # qs)"
    using ring_insert_after[OF rg _ d] n_out[of h] xs by simp
  moreover have "self_linked ?m' x" if "ls_on L x = None" "x \<noteq> n" for x
  proof -
    have "x \<notin> set (ls_nodes L h)" using wf that(1) by (rule ls_wf_unlinked)
    then have "Node x \<noteq> ?l" "Node x \<noteq> nxt m ?l" using l_in q_in by auto
    then show ?thesis
      using rep_self[OF r that(1)] that(2) ne by (auto simp: self_linked_def insert_after_nxt_prv)
  qed
  ultimately show ?thesis
    using wf' by (auto simp: rep_def)
qed

lemma rep_remove:
  assumes r: "rep m L"
  shows "rep (rt_list_remove (Node n) m) (ls_remove n L)"
proof (cases "ls_on L n")
  case None
  then show ?thesis using r rep_self[OF r None] by (simp add: remove_self_linked)
next
  case (Some h)
  let ?m' = "rt_list_remove (Node n) m"
  have wf: "ls_wf L" by (rule rep_wf[OF r])
  have n_in: "n \<in> set (ls_nodes L h)" using wf Some by (simp add: ls_wf_on)
  have d: "distinct (ls_nodes L h)" using wf by (rule ls_wf_distinct)
  obtain ps qs where xs: "ls_nodes L h = ps @ n # qs" "n \<notin> set ps" "n \<notin> set qs"
    by (rule in_list_split[OF n_in d])
  note nb = ring_nbrs[OF rep_ring[OF r] n_in d]
  have ne: "prv m (Node n) \<noteq> Node n" "nxt m (Node n) \<noteq> Node n" using nb by auto
  have "ring ?m' h' (ls_nodes L h')" if "h' \<noteq> h" for h'
  proof -
    have dis: "set (ls_nodes L h') \<inter> set (ls_nodes L h) = {}"
      using ls_wf_head_unique[OF wf] that by blast
    have "seg ?m' (Head h') (map Node (ls_nodes L h')) (Head h')
        = seg m (Head h') (map Node (ls_nodes L h')) (Head h')"
      using ne nb n_in that dis by (intro seg_remove_frame) auto
    then show ?thesis using rep_ring[OF r, of h'] by (simp add: ring_def)
  qed
  moreover have "ring ?m' h (ps @ qs)"
    using ring_remove[of m h ps n qs] rep_ring[OF r, of h] xs d by simp
  moreover have "self_linked ?m' x" if "ls_on L x = None \<or> x = n" for x
  proof (cases "x = n")
    case True
    then show ?thesis using ne by (simp add: self_linked_def remove_nxt_prv)
  next
    case False
    with that have "x \<notin> set (ls_nodes L h)" "self_linked m x"
      using ls_wf_unlinked[OF wf] rep_self[OF r] by auto
    then show ?thesis using nb ne False by (auto simp: self_linked_def remove_nxt_prv)
  qed
  moreover have "ls_nodes (ls_remove n L) = (ls_nodes L)(h := ps @ qs)"
    using Some xs by (simp add: ls_remove_def remove1_split)
  ultimately show ?thesis
    using wf by (auto simp: rep_def)
qed

lemma rep_insert_after_head:
  assumes "rep m L" "ls_insert_after_head h n L = Some L'"
  shows "rep (rt_list_insert_after (Head h) (Node n) m) L'"
proof -
  have n: "ls_on L n = None" and L': "L' = \<lparr>ls_nodes = (ls_nodes L)(h := n # ls_nodes L h), ls_on = (ls_on L)(n \<mapsto> h)\<rparr>"
    using assms(2) by (auto simp: ls_insert_after_head_def split: if_splits)
  show ?thesis
    using rep_insert_after[OF assms(1) n, of h "[]" "ls_nodes L h"] L' by simp
qed

text \<open>Every address is the successor of its predecessor.\<close>

lemma ring_prv_head:
  assumes "ring m h xs"
  shows "prv m (Head h) = at_end h xs" and "nxt m (at_end h xs) = Head h"
proof -
  have "prv m (Head h) = last (Head h # map Node xs)"
    using assms unfolding ring_def by (rule seg_nxt_last)
  then show "prv m (Head h) = at_end h xs"
    by (auto simp: at_end_def last_map)
  show "nxt m (at_end h xs) = Head h"
    using ring_nxt_at_end[of m h xs "[]"] assms by simp
qed

lemma ring_prv_node:
  assumes "ring m h (ps @ x # qs)"
  shows "prv m (Node x) = at_end h ps" and "nxt m (at_end h ps) = Node x"
proof -
  have "prv m (Node x) = last (Head h # map Node ps)"
    using assms by (intro seg_nxt_last) (simp add: ring_split)
  then show "prv m (Node x) = at_end h ps"
    by (auto simp: at_end_def last_map)
  show "nxt m (at_end h ps) = Node x"
    using ring_nxt_at_end[OF assms] by simp
qed

lemma rep_insert_before_head:
  assumes "rep m L" "ls_insert_before_head h n L = Some L'"
  shows "rep (rt_list_insert_before (Head h) (Node n) m) L'"
proof -
  have n: "ls_on L n = None" and L': "L' = \<lparr>ls_nodes = (ls_nodes L)(h := ls_nodes L h @ [n]), ls_on = (ls_on L)(n \<mapsto> h)\<rparr>"
    using assms(2) by (auto simp: ls_insert_before_head_def split: if_splits)
  have "n \<notin> set (ls_nodes L h)"
    using rep_wf[OF assms(1)] n by (rule ls_wf_unlinked)
  then have "at_end h (ls_nodes L h) \<noteq> Node n"
    by (auto simp: at_end_def)
  moreover note p = ring_prv_head[OF rep_ring[OF assms(1), of h]]
  ultimately have "rt_list_insert_before (Head h) (Node n) m
      = rt_list_insert_after (at_end h (ls_nodes L h)) (Node n) m"
    using insert_before_as_after[of m "Head h" "Node n"] by (simp add: p)
  then show ?thesis
    using rep_insert_after[OF assms(1) n, of h "ls_nodes L h" "[]"] L' by simp
qed

lemma rep_insert_before_node:
  assumes r: "rep m L" and op: "ls_insert_before_node x n L = Some L'"
  shows "rep (rt_list_insert_before (Node x) (Node n) m) L'"
proof -
  obtain h where x: "ls_on L x = Some h"
    using op by (cases "ls_on L x") (simp_all add: ls_insert_before_node_def)
  have n: "ls_on L n = None"
    using op x by (cases "ls_on L n") (simp_all add: ls_insert_before_node_def)
  have L': "L' = \<lparr>ls_nodes = (ls_nodes L)(h := insert_before_elem x n (ls_nodes L h)), ls_on = (ls_on L)(n \<mapsto> h)\<rparr>"
    using op x n by (simp add: ls_insert_before_node_def)
  have wf: "ls_wf L" by (rule rep_wf[OF r])
  have x_in: "x \<in> set (ls_nodes L h)" using wf x by (simp add: ls_wf_on)
  obtain ps qs where xs: "ls_nodes L h = ps @ x # qs" "x \<notin> set ps" "x \<notin> set qs"
    by (rule in_list_split[OF x_in ls_wf_distinct[OF wf]])
  have "n \<notin> set (ls_nodes L h)" using wf n by (rule ls_wf_unlinked)
  then have "at_end h ps \<noteq> Node n" "x \<noteq> n" using xs by (auto simp: at_end_def)
  moreover have rg: "ring m h (ps @ x # qs)" using rep_ring[OF r, of h] xs(1) by simp
  note p = ring_prv_node[OF rg]
  ultimately have "rt_list_insert_before (Node x) (Node n) m = rt_list_insert_after (at_end h ps) (Node n) m"
    using insert_before_as_after[of m "Node x" "Node n"] by (simp add: p)
  then show ?thesis
    using rep_insert_after[OF r n xs(1)] L' xs by (simp add: insert_before_elem_split)
qed

lemma rep_insert_after_node:
  assumes r: "rep m L" and op: "ls_insert_after_node x n L = Some L'"
  shows "rep (rt_list_insert_after (Node x) (Node n) m) L'"
proof -
  obtain h where x: "ls_on L x = Some h"
    using op by (cases "ls_on L x") (simp_all add: ls_insert_after_node_def)
  have n: "ls_on L n = None"
    using op x by (cases "ls_on L n") (simp_all add: ls_insert_after_node_def)
  have L': "L' = \<lparr>ls_nodes = (ls_nodes L)(h := insert_after_elem x n (ls_nodes L h)), ls_on = (ls_on L)(n \<mapsto> h)\<rparr>"
    using op x n by (simp add: ls_insert_after_node_def)
  have wf: "ls_wf L" by (rule rep_wf[OF r])
  have x_in: "x \<in> set (ls_nodes L h)" using wf x by (simp add: ls_wf_on)
  obtain ps qs where xs: "ls_nodes L h = ps @ x # qs" "x \<notin> set ps" "x \<notin> set qs"
    by (rule in_list_split[OF x_in ls_wf_distinct[OF wf]])
  have "insert_after_elem x n (ls_nodes L h) = (ps @ [x]) @ n # qs"
    unfolding xs(1) using xs(2) by (rule insert_after_elem_split)
  then show ?thesis
    using rep_insert_after[OF r n, of h "ps @ [x]" qs] L' xs(1) by simp
qed

section \<open>The contract of the lists\<close>

datatype ('h, 'n) list_op =
  InsertAfterHead 'h 'n | InsertBeforeHead 'h 'n | InsertBeforeNode 'n 'n
| InsertAfterNode 'n 'n | Remove 'n

fun ls_apply :: "('h, 'n) list_op \<Rightarrow> ('h, 'n) lstore \<Rightarrow> ('h, 'n) lstore option" where
  "ls_apply (InsertAfterHead h n) L = ls_insert_after_head h n L"
| "ls_apply (InsertBeforeHead h n) L = ls_insert_before_head h n L"
| "ls_apply (InsertBeforeNode x n) L = ls_insert_before_node x n L"
| "ls_apply (InsertAfterNode x n) L = ls_insert_after_node x n L"
| "ls_apply (Remove n) L = Some (ls_remove n L)"

fun ls_run :: "('h, 'n) list_op list \<Rightarrow> ('h, 'n) lstore \<Rightarrow> ('h, 'n) lstore option" where
  "ls_run [] L = Some L"
| "ls_run (op # ops) L = Option.bind (ls_apply op L) (ls_run ops)"

fun ptr_apply :: "('h, 'n) list_op \<Rightarrow> ('h, 'n) lmem \<Rightarrow> ('h, 'n) lmem" where
  "ptr_apply (InsertAfterHead h n) m = rt_list_insert_after (Head h) (Node n) m"
| "ptr_apply (InsertBeforeHead h n) m = rt_list_insert_before (Head h) (Node n) m"
| "ptr_apply (InsertBeforeNode x n) m = rt_list_insert_before (Node x) (Node n) m"
| "ptr_apply (InsertAfterNode x n) m = rt_list_insert_after (Node x) (Node n) m"
| "ptr_apply (Remove n) m = rt_list_remove (Node n) m"

locale list_impl =
  fixes R :: "'s \<Rightarrow> ('h, 'n) lstore \<Rightarrow> bool"
    and app :: "('h, 'n) list_op \<Rightarrow> 's \<Rightarrow> 's"
    and isempty :: "'h \<Rightarrow> 's \<Rightarrow> bool"
  assumes step_sim: "R s L \<Longrightarrow> ls_apply op L = Some L' \<Longrightarrow> R (app op s) L'"
    and isempty_sim: "R s L \<Longrightarrow> isempty h s \<longleftrightarrow> ls_nodes L h = []"
begin

lemma run_sim: "R s L \<Longrightarrow> ls_run ops L = Some L' \<Longrightarrow> R (fold app ops s) L'"
  by (induction ops arbitrary: s L) (auto intro: step_sim)

lemma run_isempty:
  "R s L \<Longrightarrow> ls_run ops L = Some L' \<Longrightarrow> isempty h (fold app ops s) \<longleftrightarrow> ls_nodes L' h = []"
  by (rule isempty_sim[OF run_sim])

end

lemma ptr_apply_sim: "rep m L \<Longrightarrow> ls_apply op L = Some L' \<Longrightarrow> rep (ptr_apply op m) L'"
  by (cases op) (simp_all add: rep_insert_after_head rep_insert_before_head
      rep_insert_before_node rep_insert_after_node rep_remove del: Option.option.inject,
      clarsimp simp: rep_remove)

interpretation ptr: list_impl rep ptr_apply "\<lambda>h. rt_list_isempty (Head h)"
  by unfold_locales (simp_all add: ptr_apply_sim ring_isempty[OF rep_ring])

text \<open>A memory in which every head and node is initialised represents the empty store.\<close>

definition lmem_init :: "('h, 'n) lmem" where
  "lmem_init = \<lparr>nxt = (\<lambda>a. a), prv = (\<lambda>a. a)\<rparr>"

lemma rep_init: "rep lmem_init ls_empty"
  by (auto simp: rep_def lmem_init_def ls_empty_def ls_wf_def ring_def self_linked_def)

lemma rt_list_init_self: "rt_list_init a lmem_init = lmem_init"
  by (simp add: ptr_defs lmem_init_def fun_eq_iff)

end
