(* ===== verification/Rtt_State.thy ===== *)
theory Rtt_State
  imports Rtt_List
begin

text \<open>
  The state of the kernel: one record for everything the functions of
  \<^verbatim>\<open>rt-thread/src\<close> share, with the structures of \<^verbatim>\<open>rt-thread/include/rtdef.h\<close>.
  Objects are named by references instead of addresses; the list nodes embedded in them hang on
  three list stores (\<^verbatim>\<open>tlist\<close> of threads, \<^verbatim>\<open>row[0]\<close> of timers,
  \<^verbatim>\<open>list\<close> of objects). The configuration is that of
  \<^verbatim>\<open>config/rtconfig/rtconfig_bk7231n.h\<close>: 32 priorities, hooks unset, one skip list
  level, software timers, no signals and no modules.
\<close>

subsection \<open>References\<close>

type_synonym tid = nat

datatype timer_ref = ThreadTimer tid | Timer nat

datatype oref =
  OThread tid | OSem nat | OMutex nat | OEvent nat | OMailBox nat | OMsgQueue nat
| OMemHeap nat | OMemPool nat | ODevice nat | OTimer timer_ref

text \<open>The heads a thread can hang on, and the heads a timer can hang on.\<close>

datatype qhead =
  ReadyQ nat | SuspendQ oref | SenderQ nat | DefunctQ | CompletionQ nat | PushQ nat | PopQ nat

datatype thead = HardTimers | SoftTimers

subsection \<open>Objects\<close>

datatype obj_class =
  RT_Object_Class_Thread | RT_Object_Class_Semaphore | RT_Object_Class_Mutex
| RT_Object_Class_Event | RT_Object_Class_MailBox | RT_Object_Class_MessageQueue
| RT_Object_Class_MemHeap | RT_Object_Class_MemPool | RT_Object_Class_Device
| RT_Object_Class_Timer | RT_Object_Class_Module | RT_Object_Class_Unknown

fun class_code :: "obj_class \<Rightarrow> rt_uint8" where
  "class_code RT_Object_Class_Thread = 0"
| "class_code RT_Object_Class_Semaphore = 1"
| "class_code RT_Object_Class_Mutex = 2"
| "class_code RT_Object_Class_Event = 3"
| "class_code RT_Object_Class_MailBox = 4"
| "class_code RT_Object_Class_MessageQueue = 5"
| "class_code RT_Object_Class_MemHeap = 6"
| "class_code RT_Object_Class_MemPool = 7"
| "class_code RT_Object_Class_Device = 8"
| "class_code RT_Object_Class_Timer = 9"
| "class_code RT_Object_Class_Module = 10"
| "class_code RT_Object_Class_Unknown = 11"

abbreviation (input) RT_Object_Class_Static :: rt_uint8 where "RT_Object_Class_Static \<equiv> 0x80"

record rt_object =
  obj_name :: "rt_uint8 list"
  obj_type :: rt_uint8
  obj_flag :: rt_uint8

subsection \<open>Timers\<close>

abbreviation (input) RT_TIMER_FLAG_ACTIVATED :: rt_uint8 where "RT_TIMER_FLAG_ACTIVATED \<equiv> 0x01"
abbreviation (input) RT_TIMER_FLAG_PERIODIC :: rt_uint8 where "RT_TIMER_FLAG_PERIODIC \<equiv> 0x02"
abbreviation (input) RT_TIMER_FLAG_SOFT_TIMER :: rt_uint8 where "RT_TIMER_FLAG_SOFT_TIMER \<equiv> 0x04"
abbreviation (input) RT_TIMER_FLAG_RUNNING :: rt_uint8 where "RT_TIMER_FLAG_RUNNING \<equiv> 0x10"
abbreviation (input) RT_TIMER_FLAG_FREE_PENDING :: rt_uint8 where "RT_TIMER_FLAG_FREE_PENDING \<equiv> 0x20"

text \<open>The timeout function: \<^verbatim>\<open>rt_thread_timeout\<close> with its thread, or the
  callback of a user timer, which is code outside the kernel and named by a number.\<close>

datatype timeout_func = ThreadTimeout tid | UserTimeout nat

record rt_timer =
  timeout_func :: timeout_func
  tm_init_tick :: rt_tick
  timeout_tick :: rt_tick

subsection \<open>Threads\<close>

abbreviation (input) RT_THREAD_INIT :: rt_uint8 where "RT_THREAD_INIT \<equiv> 0x00"
abbreviation (input) RT_THREAD_READY :: rt_uint8 where "RT_THREAD_READY \<equiv> 0x01"
abbreviation (input) RT_THREAD_SUSPEND :: rt_uint8 where "RT_THREAD_SUSPEND \<equiv> 0x02"
abbreviation (input) RT_THREAD_CLOSE :: rt_uint8 where "RT_THREAD_CLOSE \<equiv> 0x04"
abbreviation (input) RT_THREAD_STAT_MASK :: rt_uint8 where "RT_THREAD_STAT_MASK \<equiv> 0x0f"
abbreviation (input) RT_THREAD_PRIORITY_MAX :: nat where "RT_THREAD_PRIORITY_MAX \<equiv> 32"

record rt_thread =
  th_error :: rt_err
  stat :: rt_uint8
  current_priority :: rt_uint8
  init_priority :: rt_uint8
  number_mask :: rt_uint32
  event_set :: rt_uint32
  event_info :: rt_uint8
  init_tick :: rt_uint32
  remaining_tick :: rt_uint32
  cleanup :: bool

subsection \<open>IPC objects\<close>

abbreviation (input) RT_IPC_FLAG_FIFO :: rt_uint8 where "RT_IPC_FLAG_FIFO \<equiv> 0x00"
abbreviation (input) RT_IPC_FLAG_PRIO :: rt_uint8 where "RT_IPC_FLAG_PRIO \<equiv> 0x01"

record rt_mutex =
  mx_value :: rt_uint16
  original_priority :: rt_uint8
  hold :: rt_uint8
  owner :: "tid option"

record rt_mailbox =
  msg_pool :: "rt_uint32 list"
  mb_size :: rt_uint16
  mb_entry :: rt_uint16
  in_offset :: rt_uint16
  out_offset :: rt_uint16

text \<open>Message blocks are numbered; \<open>mq_next\<close> is the \<^verbatim>\<open>next\<close> field of each block,
  \<open>mq_data\<close> its payload.\<close>

record rt_messagequeue =
  mq_msg_size :: rt_uint16
  mq_max_msgs :: rt_uint16
  mq_entry :: rt_uint16
  mq_head :: "nat option"
  mq_tail :: "nat option"
  mq_free :: "nat option"
  mq_next :: "nat \<Rightarrow> nat option"
  mq_data :: "nat \<Rightarrow> rt_uint8 list"

subsection \<open>Kernel\<close>

record kernel =
  k_tlist :: "(qhead, tid) lstore"
  k_rows :: "(thead, timer_ref) lstore"
  k_containers :: "(obj_class, oref) lstore"
  k_object :: "oref \<Rightarrow> rt_object"
  k_thread :: "tid \<Rightarrow> rt_thread"
  k_timer :: "timer_ref \<Rightarrow> rt_timer"
  k_sem :: "nat \<Rightarrow> rt_uint16"
  k_mutex :: "nat \<Rightarrow> rt_mutex"
  k_event :: "nat \<Rightarrow> rt_uint32"
  k_mb :: "nat \<Rightarrow> rt_mailbox"
  k_mq :: "nat \<Rightarrow> rt_messagequeue"
  rt_current_thread :: "tid option"
  rt_current_priority :: rt_uint8
  rt_thread_ready_priority_group :: rt_uint32
  rt_scheduler_lock_nest :: "16 word"
  rt_interrupt_nest :: rt_uint8
  rt_tick :: rt_tick
  rt_errno_global :: rt_err

subsection \<open>Updating one structure\<close>

definition upd_thread :: "tid \<Rightarrow> (rt_thread \<Rightarrow> rt_thread) \<Rightarrow> kernel \<Rightarrow> kernel" where
  "upd_thread t f k = k\<lparr>k_thread := (k_thread k)(t := f (k_thread k t))\<rparr>"

definition upd_timer :: "timer_ref \<Rightarrow> (rt_timer \<Rightarrow> rt_timer) \<Rightarrow> kernel \<Rightarrow> kernel" where
  "upd_timer t f k = k\<lparr>k_timer := (k_timer k)(t := f (k_timer k t))\<rparr>"

definition upd_flag :: "oref \<Rightarrow> (rt_uint8 \<Rightarrow> rt_uint8) \<Rightarrow> kernel \<Rightarrow> kernel" where
  "upd_flag ob f k = k\<lparr>k_object := (k_object k)(ob := (k_object k ob)\<lparr>obj_flag := f (obj_flag (k_object k ob))\<rparr>)\<rparr>"

definition upd_mutex :: "nat \<Rightarrow> (rt_mutex \<Rightarrow> rt_mutex) \<Rightarrow> kernel \<Rightarrow> kernel" where
  "upd_mutex i f k = k\<lparr>k_mutex := (k_mutex k)(i := f (k_mutex k i))\<rparr>"

definition upd_mb :: "nat \<Rightarrow> (rt_mailbox \<Rightarrow> rt_mailbox) \<Rightarrow> kernel \<Rightarrow> kernel" where
  "upd_mb i f k = k\<lparr>k_mb := (k_mb k)(i := f (k_mb k i))\<rparr>"

definition upd_mq :: "nat \<Rightarrow> (rt_messagequeue \<Rightarrow> rt_messagequeue) \<Rightarrow> kernel \<Rightarrow> kernel" where
  "upd_mq i f k = k\<lparr>k_mq := (k_mq k)(i := f (k_mq k i))\<rparr>"

lemmas upd_defs = upd_thread_def upd_timer_def upd_flag_def upd_mutex_def upd_mb_def upd_mq_def

declare upd_defs [op_defs, simp]

abbreviation thread_state :: "rt_thread \<Rightarrow> rt_uint8" where
  "thread_state th \<equiv> stat th AND RT_THREAD_STAT_MASK"

abbreviation tlist_of :: "kernel \<Rightarrow> qhead \<Rightarrow> tid list" where
  "tlist_of k h \<equiv> ls_nodes (k_tlist k) h"

text \<open>Linking and unlinking a thread's \<^verbatim>\<open>tlist\<close> node.\<close>

definition tlist_insert_before :: "qhead \<Rightarrow> tid \<Rightarrow> kernel \<Rightarrow> kernel option" where
  "tlist_insert_before h t k =
     map_option (\<lambda>L. k\<lparr>k_tlist := L\<rparr>) (ls_insert_before_head h t (k_tlist k))"

definition tlist_insert_after :: "qhead \<Rightarrow> tid \<Rightarrow> kernel \<Rightarrow> kernel option" where
  "tlist_insert_after h t k =
     map_option (\<lambda>L. k\<lparr>k_tlist := L\<rparr>) (ls_insert_after_head h t (k_tlist k))"

definition tlist_insert_before_thread :: "tid \<Rightarrow> tid \<Rightarrow> kernel \<Rightarrow> kernel option" where
  "tlist_insert_before_thread s t k =
     map_option (\<lambda>L. k\<lparr>k_tlist := L\<rparr>) (ls_insert_before_node s t (k_tlist k))"

definition tlist_remove :: "tid \<Rightarrow> kernel \<Rightarrow> kernel" where
  "tlist_remove t k = k\<lparr>k_tlist := ls_remove t (k_tlist k)\<rparr>"

definition row_remove :: "timer_ref \<Rightarrow> kernel \<Rightarrow> kernel" where
  "row_remove t k = k\<lparr>k_rows := ls_remove t (k_rows k)\<rparr>"

lemmas link_defs = tlist_insert_before_def tlist_insert_after_def tlist_insert_before_thread_def
  tlist_remove_def row_remove_def

declare link_defs [op_defs]

subsection \<open>Flag and status words\<close>

lemma stat_set [simp]:
  "((v :: rt_uint8) OR (s AND NOT RT_THREAD_STAT_MASK)) AND RT_THREAD_STAT_MASK = v AND RT_THREAD_STAT_MASK"
  by (rule bit_word_eqI) (auto simp: bit_simps)

lemma flag_clear [simp]: "(f AND NOT b) AND b = (0 :: rt_uint8)"
  by (rule bit_word_eqI) (auto simp: bit_simps)

lemma flag_set [simp]: "((f OR b) AND b) = (b :: rt_uint8)"
  by (rule bit_word_eqI) (auto simp: bit_simps)

lemma and_and_numeral [simp]:
  "(f AND - 2) AND 1 = (0 :: rt_uint8)" "(f AND - 2) AND 2 = f AND 2" "(f AND - 2) AND 4 = f AND 4"
  "(f AND - 2) AND 16 = f AND 16" "(f AND - 2) AND 32 = f AND 32"
  by (simp_all add: and.assoc)

lemma or_and_numeral [simp]:
  "(f OR 1) AND 1 = (1 :: rt_uint8)" "(f OR 1) AND 2 = f AND 2" "(f OR 1) AND 4 = f AND 4"
  "(f OR 1) AND 16 = f AND 16" "(f OR 1) AND 32 = f AND 32"
  by (simp_all add: bit.conj_disj_distrib2)

lemma stat_set_numeral [simp]:
  "(1 OR (s AND - 16)) AND 15 = (1 :: rt_uint8)" "(2 OR (s AND - 16)) AND 15 = (2 :: rt_uint8)"
  by (simp_all add: bit.conj_disj_distrib2 and.assoc)

end
