(* ===== verification/Rtt_Object.thy ===== *)
theory Rtt_Object
  imports Rtt_State
begin

text \<open>
  The object registry of \<^verbatim>\<open>rt-thread/src/object.c\<close>: one container per class, objects
  linked into the container of their class when they are initialised or allocated and unlinked
  when they are detached or deleted. Names are the \<^verbatim>\<open>RT_NAME_MAX\<close> = 8 bytes
  \<^verbatim>\<open>rt_strncpy\<close> leaves in the object. Whether \<^verbatim>\<open>RT_KERNEL_MALLOC\<close>
  finds memory, and for which object, is an argument. The two lookups that lock the scheduler
  are in \<open>Rtt_Thread\<close>.
\<close>

abbreviation (input) RT_NAME_MAX :: nat where "RT_NAME_MAX \<equiv> 8"

text \<open>\<^verbatim>\<open>rt_object_container\<close>, in the order of the array for this configuration.\<close>

definition rt_object_container :: "obj_class list" where
  "rt_object_container =
     [RT_Object_Class_Thread, RT_Object_Class_Semaphore, RT_Object_Class_Mutex,
      RT_Object_Class_Event, RT_Object_Class_MailBox, RT_Object_Class_MessageQueue,
      RT_Object_Class_MemHeap, RT_Object_Class_MemPool, RT_Object_Class_Device,
      RT_Object_Class_Timer]"

definition rt_object_get_information :: "rt_uint8 \<Rightarrow> obj_class option" where
  "rt_object_get_information ty = find (\<lambda>c. class_code c = ty) rt_object_container"

text \<open>What \<^verbatim>\<open>rt_strncpy(object->name, name, RT_NAME_MAX)\<close> writes for a C string
  whose bytes before the terminator are \<open>nm\<close>.\<close>

definition copy_name :: "rt_uint8 list \<Rightarrow> rt_uint8 list" where
  "copy_name nm = take RT_NAME_MAX (nm @ replicate RT_NAME_MAX 0)"

definition container_insert :: "obj_class \<Rightarrow> oref \<Rightarrow> kernel \<Rightarrow> kernel option" where
  "container_insert c ob k =
     map_option (\<lambda>L. k\<lparr>k_containers := L\<rparr>) (ls_insert_after_head c ob (k_containers k))"

definition rt_object_init :: "oref \<Rightarrow> rt_uint8 \<Rightarrow> rt_uint8 list \<Rightarrow> kernel \<Rightarrow> kernel option" where
  "rt_object_init ob ty nm k =
     (case rt_object_get_information ty of
        None \<Rightarrow> None
      | Some c \<Rightarrow>
          container_insert c ob
            (k\<lparr>k_object := (k_object k)(ob := (k_object k ob)
                 \<lparr>obj_type := ty OR RT_Object_Class_Static, obj_name := copy_name nm\<rparr>)\<rparr>))"

definition rt_object_detach :: "oref \<Rightarrow> kernel \<Rightarrow> kernel" where
  "rt_object_detach ob k = k\<lparr>k_containers := ls_remove ob (k_containers k)\<rparr>"

definition rt_object_allocate ::
  "rt_uint8 \<Rightarrow> rt_uint8 list \<Rightarrow> oref option \<Rightarrow> kernel \<Rightarrow> (kernel \<times> oref option) option" where
  "rt_object_allocate ty nm mem k =
     (if rt_interrupt_nest k \<noteq> 0 then None
      else case rt_object_get_information ty of
        None \<Rightarrow> None
      | Some c \<Rightarrow>
          (case mem of
             None \<Rightarrow> Some (k, None)
           | Some ob \<Rightarrow>
               map_option (\<lambda>k. (k, Some ob))
                 (container_insert c ob
                    (k\<lparr>k_object := (k_object k)(ob :=
                        \<lparr>obj_name = copy_name nm, obj_type = ty, obj_flag = 0\<rparr>)\<rparr>))))"

definition rt_object_is_systemobject :: "oref \<Rightarrow> kernel \<Rightarrow> bool" where
  "rt_object_is_systemobject ob k \<longleftrightarrow> obj_type (k_object k ob) AND RT_Object_Class_Static \<noteq> 0"

definition rt_object_delete :: "oref \<Rightarrow> kernel \<Rightarrow> kernel option" where
  "rt_object_delete ob k =
     (if obj_type (k_object k ob) AND RT_Object_Class_Static \<noteq> 0 then None
      else Some (k\<lparr>k_containers := ls_remove ob (k_containers k)\<rparr>))"

lemmas object_defs = container_insert_def rt_object_init_def rt_object_detach_def
  rt_object_allocate_def rt_object_is_systemobject_def rt_object_delete_def

declare object_defs [op_defs] rt_object_get_information_def [op_defs]
  rt_object_container_def [op_defs] copy_name_def [op_defs]

subsection \<open>The registry invariant\<close>

text \<open>An object hangs on the container of the class its type names, the static bit aside.\<close>

definition registry_inv :: "kernel \<Rightarrow> bool" where
  "registry_inv k \<longleftrightarrow> ls_wf (k_containers k) \<and>
     (\<forall>ob c. ls_on (k_containers k) ob = Some c \<longrightarrow>
        obj_type (k_object k ob) AND 0x7f = class_code c)"

lemma get_information_Some:
  "rt_object_get_information ty = Some c \<Longrightarrow> class_code c = ty \<and> c \<in> set rt_object_container"
  by (auto simp: rt_object_get_information_def find_Some_iff)

lemma class_code_small [simp]: "class_code c AND 0x7f = class_code c"
  by (cases c) auto

lemma or_static_class [simp]: "(class_code c OR 0x80) AND 0x7f = class_code c"
  by (cases c) auto

lemma container_insert_inv:
  assumes "registry_inv k" "container_insert c ob (k\<lparr>k_object := (k_object k)(ob := x)\<rparr>) = Some k'"
    "obj_type x AND 0x7f = class_code c"
  shows "registry_inv k'"
proof -
  obtain L where L: "ls_insert_after_head c ob (k_containers k) = Some L"
    and k': "k' = k\<lparr>k_object := (k_object k)(ob := x), k_containers := L\<rparr>"
    using assms(2) by (auto simp: container_insert_def)
  have "ls_wf L" using assms(1) L by (auto simp: registry_inv_def intro: ls_insert_after_head_wf)
  moreover have "ls_on L = (ls_on (k_containers k))(ob \<mapsto> c)"
    using L by (auto simp: ls_insert_after_head_def split: if_splits)
  ultimately show ?thesis
    using assms(1,3) unfolding registry_inv_def k' by auto
qed

lemma rt_object_init_inv [inv_intro]:
  "registry_inv k \<Longrightarrow> rt_object_init ob ty nm k = Some k' \<Longrightarrow> registry_inv k'"
  unfolding rt_object_init_def
  by (auto split: option.splits dest!: get_information_Some elim!: container_insert_inv)

lemma rt_object_allocate_inv [inv_intro]:
  "registry_inv k \<Longrightarrow> rt_object_allocate ty nm mem k = Some (k', r) \<Longrightarrow> registry_inv k'"
  unfolding rt_object_allocate_def
  by (auto split: option.splits if_splits dest!: get_information_Some elim!: container_insert_inv)

lemma registry_inv_remove:
  "registry_inv k \<Longrightarrow> registry_inv (k\<lparr>k_containers := ls_remove ob (k_containers k)\<rparr>)"
  unfolding registry_inv_def by auto

lemma rt_object_detach_inv [inv_intro]: "registry_inv k \<Longrightarrow> registry_inv (rt_object_detach ob k)"
  by (simp add: rt_object_detach_def registry_inv_remove)

lemma rt_object_delete_inv [inv_intro]:
  "registry_inv k \<Longrightarrow> rt_object_delete ob k = Some k' \<Longrightarrow> registry_inv k'"
  by (auto simp: rt_object_delete_def registry_inv_remove split: if_splits)

end
