(* ===== verification/Rtt_Timer.thy ===== *)
theory Rtt_Timer
  imports Rtt_Object
begin

text \<open>
  The timers of \<^verbatim>\<open>rt-thread/src/timer.c\<close>: the two timer lists (hard and soft, one skip
  list level), kept sorted by the time left in wrapping 32-bit tick arithmetic, and the
  operations on one timer. \<open>timer_enqueue\<close> is \<^verbatim>\<open>rt_timer_start\<close> up to the
  point where a soft timer wakes the timer thread; \<open>rt_timer_start\<close> itself is in
  \<open>Rtt_Thread\<close>, the expiry loop in \<open>Rtt_Clock\<close>.
\<close>

definition row_init :: "timer_ref \<Rightarrow> kernel \<Rightarrow> kernel option" where
  "row_init t k = (if ls_on (k_rows k) t \<noteq> None then None else Some k)"

definition timer_setup ::
  "timer_ref \<Rightarrow> timeout_func \<Rightarrow> rt_tick \<Rightarrow> rt_uint8 \<Rightarrow> kernel \<Rightarrow> kernel option" where
  "timer_setup t fn time flag k = do {
     let k = upd_flag (OTimer t) (\<lambda>_. flag) k;
     let k = upd_flag (OTimer t) (\<lambda>f. f AND NOT RT_TIMER_FLAG_ACTIVATED) k;
     let k = upd_timer t (\<lambda>_. \<lparr>timeout_func = fn, tm_init_tick = time, timeout_tick = 0\<rparr>) k;
     row_init t k
   }"

definition rt_timer_list_next_timeout :: "thead \<Rightarrow> kernel \<Rightarrow> rt_tick" where
  "rt_timer_list_next_timeout h k =
     (case ls_nodes (k_rows k) h of [] \<Rightarrow> RT_TICK_MAX | t # _ \<Rightarrow> timeout_tick (k_timer k t))"

definition rt_timer_init ::
  "timer_ref \<Rightarrow> rt_uint8 list \<Rightarrow> timeout_func \<Rightarrow> rt_tick \<Rightarrow> rt_uint8 \<Rightarrow> kernel \<Rightarrow> kernel option" where
  "rt_timer_init t nm fn time flag k =
     Option.bind (rt_object_init (OTimer t) (class_code RT_Object_Class_Timer) nm k)
       (timer_setup t fn time flag)"

definition rt_timer_detach :: "timer_ref \<Rightarrow> kernel \<Rightarrow> kernel \<times> rt_err" where
  "rt_timer_detach t k = (rt_object_detach (OTimer t) (row_remove t k), - RT_EOK)"

definition rt_timer_create ::
  "rt_uint8 list \<Rightarrow> timeout_func \<Rightarrow> rt_tick \<Rightarrow> rt_uint8 \<Rightarrow> timer_ref option \<Rightarrow> kernel \<Rightarrow>
     (kernel \<times> timer_ref option) option" where
  "rt_timer_create nm fn time flag mem k =
     Option.bind (rt_object_allocate (class_code RT_Object_Class_Timer) nm (map_option OTimer mem) k)
       (\<lambda>(k, _). case mem of
          None \<Rightarrow> Some (k, None)
        | Some t \<Rightarrow> map_option (\<lambda>k. (k, Some t)) (timer_setup t fn time flag k))"

definition rt_timer_delete :: "timer_ref \<Rightarrow> kernel \<Rightarrow> (kernel \<times> rt_err) option" where
  "rt_timer_delete t k = map_option (\<lambda>k. (k, - RT_EOK)) (rt_object_delete (OTimer t) (row_remove t k))"

text \<open>The search loop of \<^verbatim>\<open>rt_timer_start\<close>: \<open>rh\<close> is \<^verbatim>\<open>row_head[0]\<close>
  (\<open>None\<close>: the list head), the list is what follows it.\<close>

fun timer_scan ::
  "(timer_ref \<Rightarrow> rt_tick) \<Rightarrow> rt_tick \<Rightarrow> timer_ref option \<Rightarrow> timer_ref list \<Rightarrow> timer_ref option" where
  "timer_scan tmo new rh [] = rh"
| "timer_scan tmo new rh (t # ts) =
     (if tmo t - new = 0 then timer_scan tmo new (Some t) ts
      else if tmo t - new < RT_TICK_HALF then rh
      else timer_scan tmo new (Some t) ts)"

definition row_insert_after :: "thead \<Rightarrow> timer_ref option \<Rightarrow> timer_ref \<Rightarrow> kernel \<Rightarrow> kernel option" where
  "row_insert_after h rh t k = map_option (\<lambda>L. k\<lparr>k_rows := L\<rparr>)
     (case rh of None \<Rightarrow> ls_insert_after_head h t (k_rows k)
      | Some x \<Rightarrow> ls_insert_after_node x t (k_rows k))"

definition timer_enqueue :: "timer_ref \<Rightarrow> kernel \<Rightarrow> kernel option" where
  "timer_enqueue t k = do {
     let k = row_remove t k;
     let k = upd_flag (OTimer t) (\<lambda>f. f AND NOT RT_TIMER_FLAG_ACTIVATED) k;
     RT_ASSERT (tm_init_tick (k_timer k t) < RT_TICK_HALF);
     let k = upd_timer t (\<lambda>tm. tm\<lparr>timeout_tick := rt_tick k + tm_init_tick tm\<rparr>) k;
     let h = (if obj_flag (k_object k (OTimer t)) AND RT_TIMER_FLAG_SOFT_TIMER \<noteq> 0
              then SoftTimers else HardTimers);
     let rh = timer_scan (\<lambda>x. timeout_tick (k_timer k x)) (timeout_tick (k_timer k t)) None
                (ls_nodes (k_rows k) h);
     k \<leftarrow> row_insert_after h rh t k;
     Some (upd_flag (OTimer t) (\<lambda>f. f OR RT_TIMER_FLAG_ACTIVATED) k)
   }"

definition rt_timer_stop :: "timer_ref \<Rightarrow> kernel \<Rightarrow> kernel \<times> rt_err" where
  "rt_timer_stop t k =
     (if obj_flag (k_object k (OTimer t)) AND RT_TIMER_FLAG_ACTIVATED = 0 then (k, - RT_ERROR)
      else (upd_flag (OTimer t) (\<lambda>f. f AND NOT RT_TIMER_FLAG_ACTIVATED) (row_remove t k), RT_EOK))"

datatype timer_cmd =
  RT_TIMER_CTRL_SET_TIME rt_tick | RT_TIMER_CTRL_GET_TIME
| RT_TIMER_CTRL_SET_ONESHOT | RT_TIMER_CTRL_SET_PERIODIC | TimerCmdOther nat

text \<open>The second component is what \<^verbatim>\<open>*arg\<close> receives.\<close>

fun rt_timer_control :: "timer_ref \<Rightarrow> timer_cmd \<Rightarrow> kernel \<Rightarrow> kernel \<times> rt_tick option \<times> rt_err" where
  "rt_timer_control t RT_TIMER_CTRL_GET_TIME k = (k, Some (tm_init_tick (k_timer k t)), RT_EOK)"
| "rt_timer_control t (RT_TIMER_CTRL_SET_TIME v) k =
     (upd_timer t (\<lambda>tm. tm\<lparr>tm_init_tick := v\<rparr>) k, None, RT_EOK)"
| "rt_timer_control t RT_TIMER_CTRL_SET_ONESHOT k =
     (upd_flag (OTimer t) (\<lambda>f. f AND NOT RT_TIMER_FLAG_PERIODIC) k, None, RT_EOK)"
| "rt_timer_control t RT_TIMER_CTRL_SET_PERIODIC k =
     (upd_flag (OTimer t) (\<lambda>f. f OR RT_TIMER_FLAG_PERIODIC) k, None, RT_EOK)"
| "rt_timer_control t (TimerCmdOther _) k = (k, None, RT_EOK)"

definition rt_timer_next_timeout_tick :: "kernel \<Rightarrow> rt_tick" where
  "rt_timer_next_timeout_tick k = rt_timer_list_next_timeout HardTimers k"

text \<open>Initialising the list heads (the kernel starts with nothing linked).\<close>

definition rt_system_timer_init :: "kernel \<Rightarrow> kernel" where
  "rt_system_timer_init k = k\<lparr>k_rows := (k_rows k)\<lparr>ls_nodes := (ls_nodes (k_rows k))(HardTimers := [])\<rparr>\<rparr>"

lemmas timer_defs = row_init_def timer_setup_def rt_timer_list_next_timeout_def rt_timer_init_def
  rt_timer_detach_def rt_timer_create_def rt_timer_delete_def row_insert_after_def
  timer_enqueue_def rt_timer_stop_def rt_timer_next_timeout_tick_def

declare timer_defs [op_defs]

subsection \<open>Where the search stops\<close>

definition timer_before :: "(timer_ref \<Rightarrow> rt_tick) \<Rightarrow> rt_tick \<Rightarrow> timer_ref \<Rightarrow> bool" where
  "timer_before tmo new t \<longleftrightarrow> tmo t - new = 0 \<or> \<not> tmo t - new < RT_TICK_HALF"

lemma timer_scan_spec:
  "timer_scan tmo new rh ts =
     (case rev (takeWhile (timer_before tmo new) ts) of [] \<Rightarrow> rh | t # _ \<Rightarrow> Some t)"
proof (induction ts arbitrary: rh)
  case (Cons t ts)
  then show ?case
    by (auto simp: timer_before_def split: list.splits)
qed simp

lemma row_insert_scan:
  assumes "ls_wf (k_rows k)" "ls_on (k_rows k) t = None"
    "rh = timer_scan tmo new None (ls_nodes (k_rows k) h)"
  shows "row_insert_after h rh t k = Some (k\<lparr>k_rows :=
     \<lparr>ls_nodes = (ls_nodes (k_rows k))(h := takeWhile (timer_before tmo new) (ls_nodes (k_rows k) h)
         @ t # dropWhile (timer_before tmo new) (ls_nodes (k_rows k) h)),
      ls_on = (ls_on (k_rows k))(t \<mapsto> h)\<rparr>\<rparr>)"
proof -
  let ?xs = "ls_nodes (k_rows k) h" and ?P = "timer_before tmo new"
  show ?thesis
  proof (cases "takeWhile ?P ?xs" rule: rev_cases)
    case Nil
    have "rh = None" using assms(3) Nil by (simp add: timer_scan_spec)
    moreover have "dropWhile ?P ?xs = ?xs"
      using takeWhile_dropWhile_id[of ?P ?xs] Nil by simp
    ultimately show ?thesis using assms(2) Nil by (simp add: row_insert_after_def ls_insert_after_head_def)
  next
    case (snoc ps x)
    then have rh: "rh = Some x" using assms(3) by (simp add: timer_scan_spec)
    have xs: "?xs = ps @ x # dropWhile ?P ?xs"
      using takeWhile_dropWhile_id[of ?P ?xs] snoc by simp
    have "distinct ?xs" using assms(1) by (rule ls_wf_distinct)
    then have "x \<notin> set ps" by (subst (asm) xs) auto
    then have "insert_after_elem x t ?xs = (ps @ [x]) @ t # dropWhile ?P ?xs"
      by (subst xs) (rule insert_after_elem_split)
    moreover have "x \<in> set ?xs" by (subst xs) simp
    then have "ls_on (k_rows k) x = Some h" using assms(1) by (simp add: ls_wf_on)
    ultimately show ?thesis
      using rh snoc assms(2) by (simp add: row_insert_after_def ls_insert_after_node_def)
  qed
qed

subsection \<open>The order of the timer lists\<close>

text \<open>Ticks left until a timer is due, plus one, modulo the wrap of the tick counter: 1 on the
  tick it is due, 0 when it was due on the tick before.\<close>

definition timer_key :: "kernel \<Rightarrow> timer_ref \<Rightarrow> nat" where
  "timer_key k t = unat (timeout_tick (k_timer k t) - rt_tick k + 1)"

definition rows_inv :: "kernel \<Rightarrow> bool" where
  "rows_inv k \<longleftrightarrow> ls_wf (k_rows k) \<and>
     (\<forall>h. \<forall>t \<in> set (ls_nodes (k_rows k) h).
        obj_flag (k_object k (OTimer t)) AND RT_TIMER_FLAG_ACTIVATED \<noteq> 0)"

definition timers_sorted :: "thead \<Rightarrow> kernel \<Rightarrow> bool" where
  "timers_sorted h k \<longleftrightarrow> sorted (map (timer_key k) (ls_nodes (k_rows k) h)) \<and>
     (\<forall>t \<in> set (ls_nodes (k_rows k) h). timer_key k t \<le> unat RT_TICK_HALF)"

lemma key_compare:
  fixes a b now :: rt_tick
  assumes "unat (a - now + 1) \<le> unat RT_TICK_HALF"
    "0 < unat (b - now + 1)" "unat (b - now + 1) \<le> unat RT_TICK_HALF"
  shows "(a - b = 0 \<or> \<not> a - b < RT_TICK_HALF) \<longleftrightarrow> unat (a - now + 1) \<le> unat (b - now + 1)"
proof -
  define x where "x = a - now + 1"
  define y where "y = b - now + 1"
  have ab: "a - b = x - y" by (simp add: x_def y_def)
  have x: "unat x \<le> 2147483647" and y: "0 < unat y" "unat y \<le> 2147483647"
    using assms unfolding x_def y_def by simp_all
  show ?thesis
    unfolding ab x_def[symmetric] y_def[symmetric]
  proof (cases "y \<le> x")
    case True
    then have "unat (x - y) = unat x - unat y" by (rule unat_sub)
    then have "x - y < RT_TICK_HALF" using x y by (simp add: word_less_nat_alt)
    then show "(x - y = 0 \<or> \<not> x - y < RT_TICK_HALF) = (unat x \<le> unat y)"
      using True by (auto simp: word_le_nat_alt intro: word_unat_eq_iff[THEN iffD2])
  next
    case False
    then have lt: "unat x < unat y" by (simp add: word_le_nat_alt)
    have "unat (x - y) = 2 ^ 32 + unat x - unat y"
      using lt unat_sub_if'[of x y] by (simp add: word_le_nat_alt)
    then have "\<not> x - y < RT_TICK_HALF" using lt y by (simp add: word_less_nat_alt)
    then show "(x - y = 0 \<or> \<not> x - y < RT_TICK_HALF) = (unat x \<le> unat y)"
      using lt by simp
  qed
qed

lemma sorted_insert_while:
  fixes f :: "'a \<Rightarrow> nat"
  assumes "sorted (map f xs)" "\<And>x. x \<in> set xs \<Longrightarrow> P x \<longleftrightarrow> f x \<le> f n"
  shows "sorted (map f (takeWhile P xs @ n # dropWhile P xs))"
  using assms
proof (induction xs)
  case (Cons x xs)
  show ?case
  proof (cases "P x")
    case True
    have "sorted (map f (takeWhile P xs @ n # dropWhile P xs))"
      using Cons by auto
    moreover have "\<forall>y \<in> set (takeWhile P xs @ n # dropWhile P xs). f x \<le> f y"
      using Cons.prems True by (auto dest: set_takeWhileD set_dropWhileD)
    ultimately show ?thesis using True by auto
  next
    case False
    then show ?thesis using Cons.prems by fastforce
  qed
qed simp

lemma distinct_insert_while:
  "distinct xs \<Longrightarrow> t \<notin> set xs \<Longrightarrow> distinct (takeWhile P xs @ t # dropWhile P xs)"
  by (induction xs) (auto dest: set_takeWhileD set_dropWhileD)

text \<open>What \<open>timer_enqueue\<close> does when it returns.\<close>

definition timer_thead :: "timer_ref \<Rightarrow> kernel \<Rightarrow> thead" where
  "timer_thead t k = (if obj_flag (k_object k (OTimer t)) AND RT_TIMER_FLAG_SOFT_TIMER \<noteq> 0
     then SoftTimers else HardTimers)"

text \<open>The state when the search starts: unlinked, deactivated, due time set.\<close>

definition timer_armed :: "timer_ref \<Rightarrow> kernel \<Rightarrow> kernel" where
  "timer_armed t k = k\<lparr>k_rows := ls_remove t (k_rows k),
     k_object := (k_object k)(OTimer t := (k_object k (OTimer t))
       \<lparr>obj_flag := obj_flag (k_object k (OTimer t)) AND NOT RT_TIMER_FLAG_ACTIVATED\<rparr>),
     k_timer := (k_timer k)(t := (k_timer k t)\<lparr>timeout_tick := rt_tick k + tm_init_tick (k_timer k t)\<rparr>)\<rparr>"

lemma timer_enqueue_alt:
  "timer_enqueue t k = (if tm_init_tick (k_timer k t) < RT_TICK_HALF then
     map_option (upd_flag (OTimer t) (\<lambda>f. f OR RT_TIMER_FLAG_ACTIVATED))
       (row_insert_after (timer_thead t k)
         (timer_scan (\<lambda>x. timeout_tick (k_timer (timer_armed t k) x))
            (timeout_tick (k_timer (timer_armed t k) t)) None
            (ls_nodes (k_rows (timer_armed t k)) (timer_thead t k))) t (timer_armed t k))
     else None)"
  by (simp add: timer_enqueue_def row_remove_def Let_def timer_armed_def timer_thead_def
      RT_ASSERT_def upd_flag_def[abs_def] cong: if_cong)

lemma timer_enqueue_result:
  assumes "ls_wf (k_rows k)" "tm_init_tick (k_timer k t) < RT_TICK_HALF"
  shows "timer_enqueue t k = Some (let k1 = timer_armed t k; h = timer_thead t k;
       P = timer_before (\<lambda>x. timeout_tick (k_timer k1 x)) (timeout_tick (k_timer k1 t)) in
     upd_flag (OTimer t) (\<lambda>f. f OR RT_TIMER_FLAG_ACTIVATED) (k1\<lparr>k_rows :=
     \<lparr>ls_nodes = (ls_nodes (k_rows k1))(h := takeWhile P (ls_nodes (k_rows k1) h)
         @ t # dropWhile P (ls_nodes (k_rows k1) h)),
      ls_on = (ls_on (k_rows k1))(t \<mapsto> h)\<rparr>\<rparr>))"
proof -
  let ?k1 = "timer_armed t k"
  have "ls_wf (k_rows ?k1)" "ls_on (k_rows ?k1) t = None"
    using assms(1) by (simp_all add: timer_armed_def)
  from row_insert_scan[OF this, of _ "\<lambda>x. timeout_tick (k_timer ?k1 x)"
      "timeout_tick (k_timer ?k1 t)" "timer_thead t k", OF refl]
  show ?thesis
    using assms(2) by (simp add: timer_enqueue_alt Let_def)
qed

subsection \<open>What the operations keep\<close>

text \<open>The timer operations touch the timer lists, the timers and their flags, nothing else.\<close>

lemma row_insert_after_frame:
  "row_insert_after h rh t k = Some k' \<Longrightarrow> \<exists>R. k' = k\<lparr>k_rows := R\<rparr>"
  by (auto simp: row_insert_after_def)

lemma timer_enqueue_frame:
  assumes "timer_enqueue t k = Some k'"
  shows "\<exists>R b T. k' = k\<lparr>k_rows := R, k_object := b, k_timer := T\<rparr>"
proof -
  obtain k1 where k1: "row_insert_after (timer_thead t k)
      (timer_scan (\<lambda>x. timeout_tick (k_timer (timer_armed t k) x))
         (timeout_tick (k_timer (timer_armed t k) t)) None
         (ls_nodes (k_rows (timer_armed t k)) (timer_thead t k))) t (timer_armed t k) = Some k1"
    and k': "k' = upd_flag (OTimer t) (\<lambda>f. f OR RT_TIMER_FLAG_ACTIVATED) k1"
    using assms by (auto simp: timer_enqueue_alt simp del: upd_flag_def split: if_splits)
  obtain R where "k1 = (timer_armed t k)\<lparr>k_rows := R\<rparr>"
    using row_insert_after_frame[OF k1] by blast
  then have "k' = k\<lparr>k_rows := R, k_object := (k_object k')\<rparr>\<lparr>k_timer := k_timer k'\<rparr>"
    using k' by (simp add: timer_armed_def)
  then show ?thesis by blast
qed

lemma timer_enqueue_assert:
  "timer_enqueue t k = Some k' \<Longrightarrow> tm_init_tick (k_timer k t) < RT_TICK_HALF"
  by (auto simp: timer_enqueue_alt split: if_splits)

lemma timer_enqueue_total:
  "ls_wf (k_rows k) \<Longrightarrow> tm_init_tick (k_timer k t) < RT_TICK_HALF \<Longrightarrow> \<exists>k'. timer_enqueue t k = Some k'"
  by (simp add: timer_enqueue_result)

lemma rt_timer_stop_frame: "\<exists>R b. fst (rt_timer_stop t k) = k\<lparr>k_rows := R, k_object := b\<rparr>"
proof (cases "obj_flag (k_object k (OTimer t)) AND RT_TIMER_FLAG_ACTIVATED = 0")
  case True
  then have "fst (rt_timer_stop t k) = k\<lparr>k_rows := k_rows k, k_object := k_object k\<rparr>"
    by (simp add: rt_timer_stop_def)
  then show ?thesis by blast
qed (auto simp: rt_timer_stop_def row_remove_def)

lemma rows_inv_remove:
  "rows_inv k \<Longrightarrow> rows_inv (row_remove t k)"
  unfolding rows_inv_def row_remove_def by (auto simp: set_ls_nodes_remove)

lemma rt_timer_stop_rows_inv [inv_intro]: "rows_inv k \<Longrightarrow> rows_inv (fst (rt_timer_stop t k))"
  unfolding rt_timer_stop_def rows_inv_def row_remove_def
  by (auto simp: set_ls_nodes_remove)

lemma rt_timer_stop_unlinks:
  "rows_inv k \<Longrightarrow> ls_on (k_rows (fst (rt_timer_stop t k))) t = None"
  unfolding rt_timer_stop_def rows_inv_def row_remove_def
  by (auto simp: ls_wf_on) (metis ls_wf_on not_None_eq)

lemma rt_timer_control_rows_inv [inv_intro]:
  "rows_inv k \<Longrightarrow> rows_inv (fst (rt_timer_control t c k))"
  by (cases c) (auto simp: rows_inv_def and.assoc bit.conj_disj_distrib2)

lemma timer_enqueue_rows:
  assumes "ls_wf (k_rows k)" "timer_enqueue t k = Some k'"
  shows "ls_on (k_rows k') = (ls_on (k_rows k))(t \<mapsto> timer_thead t k)"
    and "ls_nodes (k_rows k') h = (let xs = remove1 t (ls_nodes (k_rows k) h);
      P = timer_before (\<lambda>x. timeout_tick (k_timer k' x)) (timeout_tick (k_timer k' t))
      in if h = timer_thead t k then takeWhile P xs @ t # dropWhile P xs else xs)"
    and "ls_wf (k_rows k')"
    and "k_timer k' = (k_timer k)(t := (k_timer k t)\<lparr>timeout_tick := rt_tick k + tm_init_tick (k_timer k t)\<rparr>)"
    and "obj_flag (k_object k' ob) = (if ob = OTimer t
      then (obj_flag (k_object k ob) AND NOT RT_TIMER_FLAG_ACTIVATED) OR RT_TIMER_FLAG_ACTIVATED
      else obj_flag (k_object k ob))"
proof -
  let ?k1 = "timer_armed t k"
  let ?P = "timer_before (\<lambda>x. timeout_tick (k_timer ?k1 x)) (timeout_tick (k_timer ?k1 t))"
  let ?R = "k_rows ?k1"
  let ?xs = "ls_nodes ?R (timer_thead t k)"
  have k': "k' = upd_flag (OTimer t) (\<lambda>f. f OR RT_TIMER_FLAG_ACTIVATED) (?k1\<lparr>k_rows :=
     \<lparr>ls_nodes = (ls_nodes ?R)(timer_thead t k := takeWhile ?P ?xs @ t # dropWhile ?P ?xs),
      ls_on = (ls_on ?R)(t \<mapsto> timer_thead t k)\<rparr>\<rparr>)"
    using timer_enqueue_result[OF assms(1) timer_enqueue_assert[OF assms(2)]] assms(2)
    by (simp add: Let_def del: upd_flag_def)
  have R: "?R = ls_remove t (k_rows k)" by (simp add: timer_armed_def)
  have wfR: "ls_wf ?R" "ls_on ?R t = None" using assms(1) by (simp_all add: R)
  have tm: "k_timer k' = k_timer ?k1" by (simp add: k')
  show "ls_on (k_rows k') = (ls_on (k_rows k))(t \<mapsto> timer_thead t k)"
    by (simp add: k' R)
  show "ls_nodes (k_rows k') h = (let xs = remove1 t (ls_nodes (k_rows k) h);
      P = timer_before (\<lambda>x. timeout_tick (k_timer k' x)) (timeout_tick (k_timer k' t))
      in if h = timer_thead t k then takeWhile P xs @ t # dropWhile P xs else xs)"
    unfolding tm Let_def by (simp add: k' R ls_nodes_remove[OF assms(1)])
  show "ls_wf (k_rows k')"
  proof -
    have "set (takeWhile ?P ?xs @ t # dropWhile ?P ?xs) = insert t (set ?xs)"
      using takeWhile_dropWhile_id[of ?P ?xs] by (metis Un_insert_right list.simps(15) set_append)
    moreover have "distinct (takeWhile ?P ?xs @ t # dropWhile ?P ?xs)"
      using ls_wf_distinct[OF wfR(1)] ls_wf_unlinked[OF wfR] by (rule distinct_insert_while)
    ultimately show ?thesis
      using ls_wf_insert[OF wfR] by (simp add: k')
  qed
  show "k_timer k' = (k_timer k)(t := (k_timer k t)\<lparr>timeout_tick := rt_tick k + tm_init_tick (k_timer k t)\<rparr>)"
    by (simp add: k' timer_armed_def)
  show "obj_flag (k_object k' ob) = (if ob = OTimer t
      then (obj_flag (k_object k ob) AND NOT RT_TIMER_FLAG_ACTIVATED) OR RT_TIMER_FLAG_ACTIVATED
      else obj_flag (k_object k ob))"
    by (simp add: k' timer_armed_def)
qed

lemma set_timer_enqueue:
  assumes "ls_wf (k_rows k)" "timer_enqueue t k = Some k'"
  shows "set (ls_nodes (k_rows k') h)
    = (set (ls_nodes (k_rows k) h) - {t}) \<union> (if h = timer_thead t k then {t} else {})"
proof (rule set_eqI)
  fix x
  have "x \<in> set (ls_nodes (k_rows k') h) \<longleftrightarrow> ls_on (k_rows k') x = Some h"
    by (rule ls_wf_on[OF timer_enqueue_rows(3)[OF assms], symmetric])
  also have "\<dots> \<longleftrightarrow> (if x = t then h = timer_thead t k else ls_on (k_rows k) x = Some h)"
    unfolding timer_enqueue_rows(1)[OF assms] by auto
  also have "\<dots> \<longleftrightarrow> x \<in> (set (ls_nodes (k_rows k) h) - {t}) \<union> (if h = timer_thead t k then {t} else {})"
    unfolding ls_wf_on[OF assms(1)] by auto
  finally show "x \<in> set (ls_nodes (k_rows k') h) \<longleftrightarrow>
    x \<in> (set (ls_nodes (k_rows k) h) - {t}) \<union> (if h = timer_thead t k then {t} else {})" .
qed

lemma timer_enqueue_rows_inv [inv_intro]:
  assumes "rows_inv k" "timer_enqueue t k = Some k'"
  shows "rows_inv k'"
proof -
  have wf: "ls_wf (k_rows k)" using assms(1) by (simp add: rows_inv_def)
  note r = timer_enqueue_rows[OF wf assms(2)]
  show ?thesis
    using assms(1) r(3) unfolding rows_inv_def r(5)
    by (auto simp: set_timer_enqueue[OF wf assms(2)] split: if_splits)
qed

lemma timers_sorted_remove1:
  "sorted (map f xs) \<Longrightarrow> sorted (map f (remove1 t xs))" for f :: "'a \<Rightarrow> nat"
  by (induction xs) (auto dest: notin_set_remove1 set_remove1_subset[THEN subsetD])

lemma timer_enqueue_sorted:
  assumes "rows_inv k" "timers_sorted h k" "timer_enqueue t k = Some k'"
  shows "timers_sorted h k'"
proof -
  have wf: "ls_wf (k_rows k)" using assms(1) by (simp add: rows_inv_def)
  note r = timer_enqueue_rows[OF wf assms(3)]
  have tick: "rt_tick k' = rt_tick k" using timer_enqueue_frame[OF assms(3)] by auto
  have key_t: "timer_key k' t = Suc (unat (tm_init_tick (k_timer k t)))"
    using timer_enqueue_assert[OF assms(3)]
    by (simp add: timer_key_def r(4) tick unat_word_ariths word_less_nat_alt)
  have small_t: "0 < timer_key k' t" "timer_key k' t \<le> unat RT_TICK_HALF"
    using timer_enqueue_assert[OF assms(3)] unfolding key_t by (simp_all add: word_less_nat_alt)
  have key: "timer_key k' x = timer_key k x" if "x \<noteq> t" for x
    using that by (simp add: timer_key_def r(4) tick)
  let ?xs = "remove1 t (ls_nodes (k_rows k) h)"
  let ?P = "timer_before (\<lambda>x. timeout_tick (k_timer k' x)) (timeout_tick (k_timer k' t))"
  have no_t: "t \<notin> set ?xs" using ls_wf_distinct[OF wf] by simp
  have xs_small: "timer_key k' x \<le> unat RT_TICK_HALF" if "x \<in> set ?xs" for x
    using that no_t assms(2) key[of x] unfolding timers_sorted_def
    by (metis notin_set_remove1)
  have "map (timer_key k') ?xs = map (timer_key k) ?xs"
    using key no_t by (intro map_cong refl) metis
  moreover have "sorted (map (timer_key k) ?xs)"
    by (rule timers_sorted_remove1) (use assms(2) in \<open>simp add: timers_sorted_def\<close>)
  ultimately have sorted_xs: "sorted (map (timer_key k') ?xs)" by metis
  have P: "?P x \<longleftrightarrow> timer_key k' x \<le> timer_key k' t" if "x \<in> set ?xs" for x
    using key_compare[of "timeout_tick (k_timer k' x)" "rt_tick k'" "timeout_tick (k_timer k' t)"]
      xs_small[OF that] small_t by (simp add: timer_before_def timer_key_def)
  have "sorted (map (timer_key k') (ls_nodes (k_rows k') h))"
    using sorted_insert_while[OF sorted_xs P] sorted_xs
    by (cases "h = timer_thead t k") (simp_all add: r(2) Let_def)
  moreover have "timer_key k' x \<le> unat RT_TICK_HALF" if "x \<in> set (ls_nodes (k_rows k') h)" for x
    using that small_t assms(2) key[of x] unfolding set_timer_enqueue[OF wf assms(3)]
    by (cases "x = t") (auto simp: timers_sorted_def split: if_splits)
  ultimately show ?thesis by (simp add: timers_sorted_def)
qed

lemma timers_sorted_row_remove:
  "ls_wf (k_rows k) \<Longrightarrow> timers_sorted h k \<Longrightarrow> timers_sorted h (row_remove t k)"
  unfolding timers_sorted_def row_remove_def timer_key_def
  by (auto simp: ls_nodes_remove intro: timers_sorted_remove1 dest: notin_set_remove1)

lemma timers_sorted_upd_flag [simp]: "timers_sorted h (upd_flag ob f k) = timers_sorted h k"
  by (simp add: timers_sorted_def timer_key_def[abs_def])

lemma rt_timer_stop_sorted:
  "rows_inv k \<Longrightarrow> timers_sorted h k \<Longrightarrow> timers_sorted h (fst (rt_timer_stop t k))"
  using timers_sorted_row_remove[of k h t]
  by (simp add: rt_timer_stop_def rows_inv_def del: upd_flag_def)

end
