(* ===== verification/Rtt_Ffs.thy ===== *)
theory Rtt_Ffs
  imports Rtt_Prelude
begin

text \<open>
  Find first set, the primitive the scheduler picks the highest priority with. Two versions of
  the repository: the table lookup of \<^verbatim>\<open>rt-thread/src/kservice.c\<close>, used when no
  \<^verbatim>\<open>RT_USING_CPU_FFS\<close> is configured, and the negate/and/count-leading-zeros
  sequence of \<^verbatim>\<open>libcpu/cpuport.c\<close> for the ARM compiler. Both are shown to return
  the number (from 1) of the least significant set bit, which is what the third version, GNU's
  \<^verbatim>\<open>__builtin_ffs\<close>, is documented to return.
\<close>

definition lowest_bit_bitmap :: "nat list" where
  "lowest_bit_bitmap =
     (let r0 = [0, 0, 1, 0, 2, 0, 1, 0, 3, 0, 1, 0, 2, 0, 1, 0];
          r4 = [4, 0, 1, 0, 2, 0, 1, 0, 3, 0, 1, 0, 2, 0, 1, 0];
          r5 = [5, 0, 1, 0, 2, 0, 1, 0, 3, 0, 1, 0, 2, 0, 1, 0];
          r6 = [6, 0, 1, 0, 2, 0, 1, 0, 3, 0, 1, 0, 2, 0, 1, 0];
          r7 = [7, 0, 1, 0, 2, 0, 1, 0, 3, 0, 1, 0, 2, 0, 1, 0]
      in r0 @ r4 @ r5 @ r4 @ r6 @ r4 @ r5 @ r4 @ r7 @ r4 @ r5 @ r4 @ r6 @ r4 @ r5 @ r4)"

definition rt_ffs :: "rt_uint32 \<Rightarrow> nat" where
  "rt_ffs v =
     (if v = 0 then 0
      else if v AND 0xff \<noteq> 0 then lowest_bit_bitmap ! unat (v AND 0xff) + 1
      else if v AND 0xff00 \<noteq> 0 then lowest_bit_bitmap ! unat (drop_bit 8 (v AND 0xff00)) + 9
      else if v AND 0xff0000 \<noteq> 0 then lowest_bit_bitmap ! unat (drop_bit 16 (v AND 0xff0000)) + 17
      else lowest_bit_bitmap ! unat (drop_bit 24 (v AND 0xff000000)) + 25)"

text \<open>The \<^verbatim>\<open>clz\<close> instruction: the number of zero bits above the highest set bit.\<close>

definition clz :: "rt_uint32 \<Rightarrow> nat" where
  "clz x = length (takeWhile (\<lambda>i. \<not> bit x i) (rev [0..<32]))"

definition rt_ffs_arm :: "rt_uint32 \<Rightarrow> nat" where
  "rt_ffs_arm v = (if v = 0 then 0 else 32 - clz ((0 - v) AND v))"

declare lowest_bit_bitmap_def [op_defs] rt_ffs_def [op_defs]

text \<open>The specification: the least set bit.\<close>

definition is_ffs :: "rt_uint32 \<Rightarrow> nat \<Rightarrow> bool" where
  "is_ffs v n \<longleftrightarrow> (if v = 0 then n = 0
     else 0 < n \<and> n \<le> 32 \<and> bit v (n - 1) \<and> (\<forall>i < n - 1. \<not> bit v i))"

lemma is_ffs_unique: "is_ffs v m \<Longrightarrow> is_ffs v n \<Longrightarrow> m = n"
  unfolding is_ffs_def
  by (auto split: if_splits) (metis Suc_pred linorder_neqE_nat)

subsection \<open>The table\<close>

fun table_from :: "int \<Rightarrow> nat list \<Rightarrow> bool" where
  "table_from b [] \<longleftrightarrow> True"
| "table_from b (x # xs) \<longleftrightarrow> (b = 0 \<or> (x < 8 \<and> 2 ^ x dvd b \<and> odd (b div 2 ^ x))) \<and> table_from (b + 1) xs"

lemma table_all: "table_from 0 lowest_bit_bitmap"
  unfolding lowest_bit_bitmap_def Let_def by simp

lemma length_bitmap: "length lowest_bit_bitmap = 256"
  unfolding lowest_bit_bitmap_def Let_def by simp

lemma table_from_nth:
  "table_from b xs \<Longrightarrow> i < length xs \<Longrightarrow> 0 \<le> b \<Longrightarrow> 0 < b + int i \<Longrightarrow>
     xs ! i < 8 \<and> 2 ^ (xs ! i) dvd (b + int i) \<and> odd ((b + int i) div 2 ^ (xs ! i))"
proof (induction xs arbitrary: b i)
  case (Cons x xs)
  show ?case
  proof (cases i)
    case 0
    with Cons.prems show ?thesis by auto
  next
    case (Suc j)
    with Cons.prems have "xs ! j < 8 \<and> 2 ^ (xs ! j) dvd ((b + 1) + int j) \<and>
        odd (((b + 1) + int j) div 2 ^ (xs ! j))"
      by (intro Cons.IH) auto
    with Suc show ?thesis by (simp add: algebra_simps)
  qed
qed simp

lemma table_bits:
  assumes "0 < b" "b < 256"
  shows "lowest_bit_bitmap ! b < 8" "bit b (lowest_bit_bitmap ! b)"
    "j < lowest_bit_bitmap ! b \<Longrightarrow> \<not> bit b j"
proof -
  have t: "lowest_bit_bitmap ! b < 8" "2 ^ (lowest_bit_bitmap ! b) dvd int b"
    "odd (int b div 2 ^ (lowest_bit_bitmap ! b))"
    using table_from_nth[OF table_all, of b] length_bitmap assms by simp_all
  have d: "2 ^ (lowest_bit_bitmap ! b) dvd b"
    using t(2) by (metis int_dvd_int_iff of_nat_numeral of_nat_power)
  show "lowest_bit_bitmap ! b < 8" by (rule t(1))
  have "int b div 2 ^ (lowest_bit_bitmap ! b) = int (b div 2 ^ (lowest_bit_bitmap ! b))"
    by (simp add: zdiv_int)
  then show "bit b (lowest_bit_bitmap ! b)"
    using t(3) by (simp add: bit_iff_odd)
  have "take_bit (lowest_bit_bitmap ! b) b = 0"
    using d by (simp add: take_bit_eq_0_iff)
  then show "j < lowest_bit_bitmap ! b \<Longrightarrow> \<not> bit b j"
    by (metis bit_take_bit_iff bit_0_eq bot_apply bot_bool_def)
qed

lemma byte_step:
  fixes v :: rt_uint32
  assumes m: "m = push_bit s 0xff" and s: "s \<le> 24" and nz: "v AND m \<noteq> 0"
    and low: "\<forall>j < s. \<not> bit v j"
  shows "is_ffs v (lowest_bit_bitmap ! unat (drop_bit s (v AND m)) + (s + 1))"
proof -
  define b where "b = drop_bit s (v AND m)"
  have bits: "bit b j \<longleftrightarrow> j < 8 \<and> bit v (s + j)" for j
    using s unfolding b_def by (auto simp: m bit_simps)
  have "take_bit 8 b = b"
    by (rule bit_eqI) (auto simp only: bits bit_take_bit_iff)
  then have "unat b = take_bit 8 (unat b)" by (metis unsigned_take_bit_eq)
  then have lt: "unat b < 256" using take_bit_nat_less_exp[of 8 "unat b"] by simp
  obtain i where "bit (v AND m) i" using nz by (metis bit_eq_iff bit_0_eq bot_apply bot_bool_def)
  then have "bit b (i - s)" "s \<le> i"
    unfolding b_def by (auto simp: m bit_simps)
  then have "b \<noteq> 0" by auto
  then have pos: "0 < unat b" by (simp add: unat_gt_0)
  have ub: "bit (unat b) j \<longleftrightarrow> bit b j" for j using bit_imp_le_length[of b j] by (auto simp: bit_unsigned_iff)
  note t = table_bits[OF pos lt]
  have "bit v (s + lowest_bit_bitmap ! unat b)"
    using t(2) by (simp add: ub bits)
  moreover have "\<not> bit v j" if "j < s + lowest_bit_bitmap ! unat b" for j
  proof (cases "j < s")
    case False
    then have "\<not> bit b (j - s)" using that t(3)[of "j - s"] by (simp add: ub)
    then show ?thesis using False that t(1) by (simp add: bits)
  qed (use low in simp)
  ultimately show ?thesis
    using t(1) s unfolding is_ffs_def b_def[symmetric] by (auto simp: add.commute)
qed

lemma and_byte_zero:
  fixes v :: rt_uint32
  assumes "v AND push_bit s 0xff = 0" "s \<le> 24" "s \<le> j" "j < s + 8"
  shows "\<not> bit v j"
proof -
  have "\<not> bit (v AND push_bit s 0xff) j" using assms(1) by simp
  then show ?thesis using assms(2-4) by (auto simp: bit_simps)
qed

lemma rt_ffs_is_ffs: "is_ffs v (rt_ffs v)"
proof -
  have m1: "(0xff :: rt_uint32) = push_bit 0 0xff" "(0xff00 :: rt_uint32) = push_bit 8 0xff"
    "(0xff0000 :: rt_uint32) = push_bit 16 0xff" "(0xff000000 :: rt_uint32) = push_bit 24 0xff"
    by simp_all
  have z: "v AND 0xff = 0 \<Longrightarrow> j < 8 \<Longrightarrow> \<not> bit v j"
    "v AND 0xff00 = 0 \<Longrightarrow> 8 \<le> j \<Longrightarrow> j < 16 \<Longrightarrow> \<not> bit v j"
    "v AND 0xff0000 = 0 \<Longrightarrow> 16 \<le> j \<Longrightarrow> j < 24 \<Longrightarrow> \<not> bit v j"
    "v AND 0xff000000 = 0 \<Longrightarrow> 24 \<le> j \<Longrightarrow> j < 32 \<Longrightarrow> \<not> bit v j" for j
    using and_byte_zero[of v 0 j] and_byte_zero[of v 8 j] and_byte_zero[of v 16 j]
      and_byte_zero[of v 24 j] by simp_all
  consider "v = 0" | "v \<noteq> 0" "v AND 0xff \<noteq> 0"
    | "v AND 0xff = 0" "v AND 0xff00 \<noteq> 0"
    | "v AND 0xff = 0" "v AND 0xff00 = 0" "v AND 0xff0000 \<noteq> 0"
    | "v \<noteq> 0" "v AND 0xff = 0" "v AND 0xff00 = 0" "v AND 0xff0000 = 0" by blast
  then show ?thesis
  proof cases
    case 1 then show ?thesis by (simp add: is_ffs_def rt_ffs_def)
  next
    case 2 then show ?thesis using byte_step[OF m1(1), of v] by (simp add: rt_ffs_def)
  next
    case 3
    then have "v \<noteq> 0" by auto
    then show ?thesis using byte_step[OF m1(2), of v] z(1) 3 by (simp add: rt_ffs_def)
  next
    case 4
    then have "v \<noteq> 0" by auto
    moreover have "\<not> bit v j" if "j < 16" for j
      using z(1,2)[of j] 4 that by (cases "j < 8") auto
    ultimately show ?thesis using byte_step[OF m1(3), of v] 4 by (simp add: rt_ffs_def)
  next
    case 5
    have low: "\<not> bit v j" if "j < 24" for j
      using z(1,2,3)[of j] 5 that by (cases "j < 8"; cases "j < 16") auto
    have "v AND 0xff000000 \<noteq> 0"
    proof
      assume "v AND 0xff000000 = 0"
      then have "\<not> bit v j" for j
        using z(4)[of j] low[of j] bit_imp_le_length[of v j] by (cases "j < 24") auto
      then show False using 5(1) by (metis bit_eq_iff bit_0_eq bot_apply bot_bool_def)
    qed
    then show ?thesis using byte_step[OF m1(4), of v] low 5 by (simp add: rt_ffs_def)
  qed
qed

lemma rt_ffs_0 [simp]: "rt_ffs 0 = 0"
  by (simp add: rt_ffs_def)

lemma rt_ffs_SucD:
  assumes "rt_ffs v = Suc p"
  shows "p < 32" "bit v p" "\<forall>j < p. \<not> bit v j"
  using rt_ffs_is_ffs[of v] assms by (auto simp: is_ffs_def split: if_splits)

lemma rt_ffs_ex:
  assumes "bit v p"
  shows "\<exists>n \<le> p. rt_ffs v = Suc n"
proof -
  have "v \<noteq> 0" using assms by auto
  then obtain n where n: "rt_ffs v = Suc n"
    using rt_ffs_is_ffs[of v] by (cases "rt_ffs v") (auto simp: is_ffs_def)
  then have "n \<le> p" using rt_ffs_SucD(3)[OF n] assms by (meson leI)
  then show ?thesis using n by blast
qed

lemma rt_ffs_bounds:
  "v \<noteq> 0 \<Longrightarrow> 0 < rt_ffs v" "v \<noteq> 0 \<Longrightarrow> rt_ffs v \<le> 32" "v \<noteq> 0 \<Longrightarrow> bit v (rt_ffs v - 1)"
  "v \<noteq> 0 \<Longrightarrow> i < rt_ffs v - 1 \<Longrightarrow> \<not> bit v i"
  using rt_ffs_is_ffs[of v] by (auto simp: is_ffs_def)

subsection \<open>The ARM instruction sequence\<close>

lemma odd_and_minus: "odd w \<Longrightarrow> w AND (- w) = (1 :: rt_uint32)"
proof -
  assume "odd w"
  then have "bit w 0" by (simp add: bit_0)
  have "- w = NOT w + 1" by (simp add: minus_eq_not_plus_1)
  also have "\<dots> = NOT w OR 1"
  proof (rule disjunctive_add)
    fix n show "\<not> bit (NOT w) n \<or> \<not> bit (1 :: rt_uint32) n"
      using \<open>bit w 0\<close> by (cases n) (auto simp: bit_simps)
  qed
  finally have m: "- w = NOT w OR 1" .
  show ?thesis
    unfolding m using \<open>bit w 0\<close>
    by (intro bit_eqI) (auto simp: bit_simps)
qed

lemma isolate_lowest:
  fixes v :: rt_uint32
  assumes "v \<noteq> 0"
  shows "(0 - v) AND v = push_bit (rt_ffs v - 1) 1"
proof -
  define i where "i = rt_ffs v - 1"
  define w where "w = drop_bit i v"
  have b: "bit v i" and l: "\<And>j. j < i \<Longrightarrow> \<not> bit v j"
    using rt_ffs_bounds[OF assms] by (auto simp: i_def)
  have v: "v = push_bit i w"
  proof (rule bit_eqI)
    fix n show "bit v n \<longleftrightarrow> bit (push_bit i w) n"
      using l[of n] by (cases "n < i") (auto simp: w_def bit_simps dest: bit_imp_le_length)
  qed
  have "odd w" using b by (simp add: w_def bit_drop_bit_eq flip: bit_0)
  then have "w AND - w = 1" by (rule odd_and_minus)
  moreover have "- v = push_bit i (- w)" unfolding v by (simp add: push_bit_minus)
  ultimately show ?thesis
    unfolding i_def[symmetric] using v by (metis and.commute diff_0 push_bit_and)
qed

lemma clz_exp: "\<forall>i \<in> set [0..<32]. clz (push_bit i 1) = 31 - i"
  unfolding clz_def by code_simp

lemma rt_ffs_arm_eq: "rt_ffs_arm v = rt_ffs v"
proof (cases "v = 0")
  case False
  have "clz (push_bit (rt_ffs v - 1) 1) = 31 - (rt_ffs v - 1)"
    using clz_exp rt_ffs_bounds[OF False] by simp
  then show ?thesis
    using False rt_ffs_bounds(1,2)[OF False]
    by (simp add: rt_ffs_arm_def isolate_lowest[OF False, simplified])
qed (simp add: rt_ffs_arm_def)

end
