(* ===== verification/Rtt_Scheduler.thy ===== *)
theory Rtt_Scheduler
  imports Rtt_Timer Rtt_Ffs
begin

text \<open>
  The scheduler of \<^verbatim>\<open>rt-thread/src/scheduler.c\<close>: one ready list per priority, a 32-bit
  word with one bit per non-empty list, and the lock that suspends switching. A switch is the
  assignment of \<open>rt_current_thread\<close>; registers and stacks are not modelled.
\<close>

text \<open>\<^verbatim>\<open>rt_list_init\<close> of the heads of the ready lists and of the defunct list.\<close>

definition rt_system_scheduler_init :: "kernel \<Rightarrow> kernel" where
  "rt_system_scheduler_init k = k\<lparr>
     rt_scheduler_lock_nest := 0,
     k_tlist := (k_tlist k)\<lparr>ls_nodes := (\<lambda>h. case h of
        ReadyQ p \<Rightarrow> if p < RT_THREAD_PRIORITY_MAX then [] else ls_nodes (k_tlist k) h
      | DefunctQ \<Rightarrow> [] | _ \<Rightarrow> ls_nodes (k_tlist k) h)\<rparr>,
     rt_current_priority := of_nat RT_THREAD_PRIORITY_MAX - 1,
     rt_current_thread := None,
     rt_thread_ready_priority_group := 0\<rparr>"

text \<open>The first thread of the highest priority that has its bit set, with that priority. The
  code has no check that a bit is set: with none it reads outside the table.\<close>

definition highest_ready :: "kernel \<Rightarrow> (nat \<times> tid) option" where
  "highest_ready k =
     (case rt_ffs (rt_thread_ready_priority_group k) of
        0 \<Rightarrow> None
      | Suc p \<Rightarrow> (case tlist_of k (ReadyQ p) of [] \<Rightarrow> None | t # _ \<Rightarrow> Some (p, t)))"

definition rt_system_scheduler_start :: "kernel \<Rightarrow> kernel option" where
  "rt_system_scheduler_start k =
     map_option (\<lambda>(p, t). k\<lparr>rt_current_thread := Some t\<rparr>) (highest_ready k)"

definition rt_schedule :: "kernel \<Rightarrow> kernel option" where
  "rt_schedule k =
     (if rt_scheduler_lock_nest k = 0 then
        (case highest_ready k of
           None \<Rightarrow> None
         | Some (p, to) \<Rightarrow>
             (if rt_current_thread k \<noteq> Some to then
                (case rt_current_thread k of
                   None \<Rightarrow> None
                 | Some _ \<Rightarrow> Some (k\<lparr>rt_current_priority := of_nat p, rt_current_thread := Some to\<rparr>))
              else Some k))
      else Some k)"

definition rt_schedule_insert_thread :: "tid \<Rightarrow> kernel \<Rightarrow> kernel option" where
  "rt_schedule_insert_thread t k = do {
     let k = upd_thread t (\<lambda>th. th\<lparr>stat := RT_THREAD_READY OR (stat th AND NOT RT_THREAD_STAT_MASK)\<rparr>) k;
     RT_ASSERT (unat (current_priority (k_thread k t)) < RT_THREAD_PRIORITY_MAX);
     k \<leftarrow> tlist_insert_before (ReadyQ (unat (current_priority (k_thread k t)))) t k;
     Some (k\<lparr>rt_thread_ready_priority_group :=
               rt_thread_ready_priority_group k OR number_mask (k_thread k t)\<rparr>)
   }"

definition rt_schedule_remove_thread :: "tid \<Rightarrow> kernel \<Rightarrow> kernel option" where
  "rt_schedule_remove_thread t k = do {
     let k = tlist_remove t k;
     RT_ASSERT (unat (current_priority (k_thread k t)) < RT_THREAD_PRIORITY_MAX);
     if tlist_of k (ReadyQ (unat (current_priority (k_thread k t)))) = []
     then Some (k\<lparr>rt_thread_ready_priority_group :=
                    rt_thread_ready_priority_group k AND NOT (number_mask (k_thread k t))\<rparr>)
     else Some k
   }"

definition rt_enter_critical :: "kernel \<Rightarrow> kernel" where
  "rt_enter_critical k = k\<lparr>rt_scheduler_lock_nest := rt_scheduler_lock_nest k + 1\<rparr>"

definition rt_exit_critical :: "kernel \<Rightarrow> kernel option" where
  "rt_exit_critical k = (
     let k = k\<lparr>rt_scheduler_lock_nest := rt_scheduler_lock_nest k - 1\<rparr> in
     if rt_scheduler_lock_nest k \<le>s 0
     then rt_schedule (k\<lparr>rt_scheduler_lock_nest := 0\<rparr>)
     else Some k)"

definition rt_critical_level :: "kernel \<Rightarrow> rt_uint16" where
  "rt_critical_level k = rt_scheduler_lock_nest k"

lemmas scheduler_defs = highest_ready_def rt_schedule_def rt_schedule_insert_thread_def
  rt_schedule_remove_thread_def rt_enter_critical_def rt_exit_critical_def
  rt_system_scheduler_init_def rt_system_scheduler_start_def

declare scheduler_defs [op_defs]

subsection \<open>The scheduler invariant\<close>

text \<open>What the place of a thread's \<^verbatim>\<open>tlist\<close> node says about the thread: on a ready
  list exactly when READY and then on the list of its priority; on the list of an object only
  when SUSPEND; on the defunct list only when CLOSE.\<close>

definition prio_mask :: "rt_uint8 \<Rightarrow> rt_uint32" where
  "prio_mask p = push_bit (unat p) 1"

fun place_ok :: "rt_thread \<Rightarrow> qhead option \<Rightarrow> bool" where
  "place_ok th None \<longleftrightarrow> thread_state th \<noteq> RT_THREAD_READY"
| "place_ok th (Some (ReadyQ p)) \<longleftrightarrow>
     thread_state th = RT_THREAD_READY \<and> p = unat (current_priority th)"
| "place_ok th (Some DefunctQ) \<longleftrightarrow> thread_state th = RT_THREAD_CLOSE"
| "place_ok th (Some _) \<longleftrightarrow> thread_state th = RT_THREAD_SUSPEND"

definition prio_ok :: "rt_thread \<Rightarrow> bool" where
  "prio_ok th \<longleftrightarrow> unat (current_priority th) < RT_THREAD_PRIORITY_MAX \<and>
     unat (init_priority th) < RT_THREAD_PRIORITY_MAX \<and>
     number_mask th \<in> {0, prio_mask (current_priority th)} \<and>
     (thread_state th = RT_THREAD_READY \<or> thread_state th = RT_THREAD_SUSPEND \<longrightarrow>
        number_mask th = prio_mask (current_priority th))"

definition bitmap_ok :: "kernel \<Rightarrow> bool" where
  "bitmap_ok k \<longleftrightarrow> (\<forall>p < RT_THREAD_PRIORITY_MAX.
     bit (rt_thread_ready_priority_group k) p \<longleftrightarrow> tlist_of k (ReadyQ p) \<noteq> [])"

definition sched_inv_but :: "tid set \<Rightarrow> kernel \<Rightarrow> bool" where
  "sched_inv_but X k \<longleftrightarrow> ls_wf (k_tlist k) \<and> bitmap_ok k \<and>
     (\<forall>t. prio_ok (k_thread k t) \<and> (t \<notin> X \<longrightarrow> place_ok (k_thread k t) (ls_on (k_tlist k) t)))"

abbreviation sched_inv :: "kernel \<Rightarrow> bool" where
  "sched_inv \<equiv> sched_inv_but {}"

lemma bit_prio_mask [simp]:
  "unat p < 32 \<Longrightarrow> bit (prio_mask p) q \<longleftrightarrow> q = unat p"
  by (auto simp: prio_mask_def bit_simps)

lemma sched_inv_mono: "sched_inv_but X k \<Longrightarrow> X \<subseteq> Y \<Longrightarrow> sched_inv_but Y k"
  by (auto simp: sched_inv_but_def)

lemma sched_inv_close:
  "sched_inv_but {t} k \<Longrightarrow> place_ok (k_thread k t) (ls_on (k_tlist k) t) \<Longrightarrow> sched_inv k"
  by (auto simp: sched_inv_but_def)

lemma sched_inv_cong:
  "k_tlist k' = k_tlist k \<Longrightarrow> k_thread k' = k_thread k \<Longrightarrow>
   rt_thread_ready_priority_group k' = rt_thread_ready_priority_group k \<Longrightarrow>
   sched_inv_but X k' = sched_inv_but X k"
  by (simp add: sched_inv_but_def bitmap_ok_def)

lemma sched_inv_prio: "sched_inv_but X k \<Longrightarrow> prio_ok (k_thread k t)"
  by (auto simp: sched_inv_but_def)

lemma sched_inv_wf: "sched_inv_but X k \<Longrightarrow> ls_wf (k_tlist k)"
  by (simp add: sched_inv_but_def)

lemma sched_inv_place:
  "sched_inv_but X k \<Longrightarrow> t \<notin> X \<Longrightarrow> place_ok (k_thread k t) (ls_on (k_tlist k) t)"
  by (simp add: sched_inv_but_def)

text \<open>Changing fields of a thread that the invariant does not read, or its state while it is
  left out.\<close>

lemma sched_inv_upd_thread:
  assumes "sched_inv_but X k" "t \<in> X" "prio_ok (f (k_thread k t))"
  shows "sched_inv_but X (upd_thread t f k)"
  using assms by (auto simp: sched_inv_but_def bitmap_ok_def)

lemma sched_inv_upd_thread_same:
  assumes "sched_inv_but X k"
    and "current_priority (f (k_thread k t)) = current_priority (k_thread k t)"
    and "init_priority (f (k_thread k t)) = init_priority (k_thread k t)"
    and "number_mask (f (k_thread k t)) = number_mask (k_thread k t)"
    and "stat (f (k_thread k t)) = stat (k_thread k t)"
  shows "sched_inv_but X (upd_thread t f k)"
proof -
  have "place_ok (f (k_thread k t)) q = place_ok (k_thread k t) q" for q
    using assms(2-5) by (cases "(k_thread k t, q)" rule: place_ok.cases) auto
  moreover have "prio_ok (f (k_thread k t)) = prio_ok (k_thread k t)"
    using assms(2-5) by (simp add: prio_ok_def)
  ultimately show ?thesis
    using assms(1) by (auto simp: sched_inv_but_def bitmap_ok_def)
qed

subsection \<open>Removing a thread from where it hangs\<close>

definition unlink_ready_ok :: "tid \<Rightarrow> kernel \<Rightarrow> bool" where
  "unlink_ready_ok t k \<longleftrightarrow> (\<forall>p. ls_on (k_tlist k) t = Some (ReadyQ p) \<longrightarrow>
     p = unat (current_priority (k_thread k t)) \<and>
     number_mask (k_thread k t) = prio_mask (current_priority (k_thread k t)))"

lemma unlink_ready_okI:
  assumes "sched_inv_but X k" "t \<notin> X"
  shows "unlink_ready_ok t k"
  using sched_inv_place[OF assms] sched_inv_prio[OF assms(1), of t]
  by (auto simp: unlink_ready_ok_def prio_ok_def)

lemma bitmap_remove:
  assumes wf: "ls_wf (k_tlist k)" and bm: "bitmap_ok k" and u: "unlink_ready_ok t k"
    and pr: "prio_ok (k_thread k t)" and q: "q < RT_THREAD_PRIORITY_MAX"
  defines "p \<equiv> unat (current_priority (k_thread k t))"
  shows "(bit (rt_thread_ready_priority_group k) q \<and>
      \<not> (remove1 t (tlist_of k (ReadyQ p)) = [] \<and> bit (number_mask (k_thread k t)) q))
    \<longleftrightarrow> remove1 t (tlist_of k (ReadyQ q)) \<noteq> []"
proof -
  have p32: "p < 32" and mask: "number_mask (k_thread k t) = 0 \<or> number_mask (k_thread k t) = prio_mask (current_priority (k_thread k t))"
    using pr by (auto simp: prio_ok_def p_def)
  have b: "bit (rt_thread_ready_priority_group k) r \<longleftrightarrow> tlist_of k (ReadyQ r) \<noteq> []" if "r < 32" for r
    using bm that by (simp add: bitmap_ok_def)
  have on: "r = p \<and> number_mask (k_thread k t) = prio_mask (current_priority (k_thread k t))"
    if "t \<in> set (tlist_of k (ReadyQ r))" for r
    using u that wf by (simp add: unlink_ready_ok_def ls_wf_on p_def)
  show ?thesis
  proof (cases "t \<in> set (tlist_of k (ReadyQ q))")
    case True
    then have "q = p" "bit (number_mask (k_thread k t)) q"
      using on[OF True] p32 by (auto simp: p_def)
    then show ?thesis using True q b by (auto simp del: bit_prio_mask)
  next
    case False
    then have r: "remove1 t (tlist_of k (ReadyQ q)) = tlist_of k (ReadyQ q)"
      by (rule remove1_idem)
    have "\<not> (remove1 t (tlist_of k (ReadyQ p)) = [] \<and> bit (number_mask (k_thread k t)) q)"
      if ne: "tlist_of k (ReadyQ q) \<noteq> []"
    proof
      assume a: "remove1 t (tlist_of k (ReadyQ p)) = [] \<and> bit (number_mask (k_thread k t)) q"
      then have "q = p" using mask p32 by (auto simp: p_def)
      then show False using a r ne by simp
    qed
    then show ?thesis using q by (auto simp: b r)
  qed
qed

lemma remove_thread_spec:
  assumes inv: "sched_inv_but X k" and u: "unlink_ready_ok t k"
  obtains k' where "rt_schedule_remove_thread t k = Some k'"
    and "sched_inv_but (insert t X) k'"
    and "ls_on (k_tlist k') = (ls_on (k_tlist k))(t := None)"
    and "\<And>h. tlist_of k' h = remove1 t (tlist_of k h)"
    and "k' = k\<lparr>k_tlist := k_tlist k', rt_thread_ready_priority_group := rt_thread_ready_priority_group k'\<rparr>"
proof -
  let ?p = "unat (current_priority (k_thread k t))"
  let ?g = "if remove1 t (tlist_of k (ReadyQ ?p)) = []
    then rt_thread_ready_priority_group k AND NOT (number_mask (k_thread k t))
    else rt_thread_ready_priority_group k"
  let ?k' = "k\<lparr>k_tlist := ls_remove t (k_tlist k), rt_thread_ready_priority_group := ?g\<rparr>"
  note wf = sched_inv_wf[OF inv] and pr = sched_inv_prio[OF inv, of t]
  have p32: "?p < 32" using pr by (simp add: prio_ok_def)
  have "rt_schedule_remove_thread t k = Some ?k'"
    using p32 by (simp add: rt_schedule_remove_thread_def tlist_remove_def Let_def ls_nodes_remove[OF wf])
  moreover have "bitmap_ok ?k'"
    unfolding bitmap_ok_def
  proof (intro allI impI)
    fix q :: nat assume q: "q < RT_THREAD_PRIORITY_MAX"
    have "bit ?g q \<longleftrightarrow> bit (rt_thread_ready_priority_group k) q \<and>
      \<not> (remove1 t (tlist_of k (ReadyQ ?p)) = [] \<and> bit (number_mask (k_thread k t)) q)"
      using q by (auto simp: bit_simps)
    then show "bit (rt_thread_ready_priority_group ?k') q \<longleftrightarrow> tlist_of ?k' (ReadyQ q) \<noteq> []"
      using bitmap_remove[OF wf _ u pr q] inv by (simp add: ls_nodes_remove[OF wf] sched_inv_but_def)
  qed
  then have "sched_inv_but (insert t X) ?k'"
    using inv by (auto simp: sched_inv_but_def)
  ultimately show ?thesis
    by (rule that[of ?k'])
      (simp_all add: ls_nodes_remove[OF wf])
qed

subsection \<open>Making a thread ready\<close>

lemma insert_thread_spec:
  assumes inv: "sched_inv_but X k" and off: "ls_on (k_tlist k) t = None"
    and mask: "number_mask (k_thread k t) = prio_mask (current_priority (k_thread k t))"
  defines "p \<equiv> unat (current_priority (k_thread k t))"
  obtains k' where "rt_schedule_insert_thread t k = Some k'"
    and "sched_inv_but (X - {t}) k'"
    and "ls_on (k_tlist k') = (ls_on (k_tlist k))(t \<mapsto> ReadyQ p)"
    and "\<And>h. tlist_of k' h = (if h = ReadyQ p then tlist_of k h @ [t] else tlist_of k h)"
    and "k_thread k' = (k_thread k)(t := (k_thread k t)
           \<lparr>stat := RT_THREAD_READY OR (stat (k_thread k t) AND NOT RT_THREAD_STAT_MASK)\<rparr>)"
    and "k' = k\<lparr>k_tlist := k_tlist k', k_thread := k_thread k',
           rt_thread_ready_priority_group := rt_thread_ready_priority_group k'\<rparr>"
proof -
  let ?th = "(k_thread k t)\<lparr>stat := RT_THREAD_READY OR (stat (k_thread k t) AND NOT RT_THREAD_STAT_MASK)\<rparr>"
  let ?L = "\<lparr>ls_nodes = (ls_nodes (k_tlist k))(ReadyQ p := tlist_of k (ReadyQ p) @ [t]),
     ls_on = (ls_on (k_tlist k))(t \<mapsto> ReadyQ p)\<rparr>"
  let ?k' = "k\<lparr>k_tlist := ?L, k_thread := (k_thread k)(t := ?th),
    rt_thread_ready_priority_group := rt_thread_ready_priority_group k OR number_mask (k_thread k t)\<rparr>"
  note wf = sched_inv_wf[OF inv] and pr = sched_inv_prio[OF inv, of t]
  have p32: "p < 32" using pr by (simp add: prio_ok_def p_def)
  have run: "rt_schedule_insert_thread t k = Some ?k'"
    using p32 off by (simp add: rt_schedule_insert_thread_def tlist_insert_before_def
        ls_insert_before_head_def Let_def p_def)
  have L: "ls_insert_before_head (ReadyQ p) t (k_tlist k) = Some ?L"
    using off by (simp add: ls_insert_before_head_def)
  have wfL: "ls_wf ?L" by (rule ls_insert_before_head_wf[OF wf L])
  have bits: "bitmap_ok ?k'"
    using inv p32 by (auto simp: bitmap_ok_def sched_inv_but_def bit_simps mask p_def)
  have "prio_ok ?th" using pr mask by (auto simp: prio_ok_def)
  moreover have "place_ok ?th (Some (ReadyQ p))" by (simp add: p_def)
  ultimately have "sched_inv_but (X - {t}) ?k'"
    using inv wfL bits by (auto simp: sched_inv_but_def)
  then show ?thesis using run
    by (intro that[of ?k']) auto
qed

subsection \<open>Choosing the thread to run\<close>

lemma highest_ready_Some:
  assumes "bitmap_ok k" "highest_ready k = Some (p, t)"
  shows "p < RT_THREAD_PRIORITY_MAX" "\<exists>ts. tlist_of k (ReadyQ p) = t # ts"
    "\<forall>q < p. tlist_of k (ReadyQ q) = []"
proof -
  obtain ts where f: "rt_ffs (rt_thread_ready_priority_group k) = Suc p"
    and ts: "tlist_of k (ReadyQ p) = t # ts"
    using assms(2) by (auto simp: highest_ready_def split: nat.splits list.splits)
  note d = rt_ffs_SucD[OF f]
  show "p < RT_THREAD_PRIORITY_MAX" by (rule d(1))
  show "\<exists>ts. tlist_of k (ReadyQ p) = t # ts" using ts by simp
  show "\<forall>q < p. tlist_of k (ReadyQ q) = []"
    using d assms(1) by (auto simp: bitmap_ok_def)
qed

lemma highest_ready_total:
  assumes "bitmap_ok k" "p < RT_THREAD_PRIORITY_MAX" "tlist_of k (ReadyQ p) \<noteq> []"
  shows "\<exists>q t. highest_ready k = Some (q, t) \<and> q \<le> p"
proof -
  have "bit (rt_thread_ready_priority_group k) p" using assms by (simp add: bitmap_ok_def)
  then obtain n where n: "n \<le> p" "rt_ffs (rt_thread_ready_priority_group k) = Suc n"
    using rt_ffs_ex by blast
  have "tlist_of k (ReadyQ n) \<noteq> []"
    using rt_ffs_SucD[OF n(2)] assms(1) by (simp add: bitmap_ok_def)
  then show ?thesis
    using n by (auto simp: highest_ready_def neq_Nil_conv)
qed

text \<open>The running thread is the first of the highest non-empty ready list.\<close>

definition highest_runs :: "kernel \<Rightarrow> bool" where
  "highest_runs k \<longleftrightarrow> (\<exists>p < RT_THREAD_PRIORITY_MAX. \<exists>t ts.
     rt_current_thread k = Some t \<and> tlist_of k (ReadyQ p) = t # ts \<and>
     (\<forall>q < p. tlist_of k (ReadyQ q) = []))"

definition some_ready :: "kernel \<Rightarrow> bool" where
  "some_ready k \<longleftrightarrow> (\<exists>p < RT_THREAD_PRIORITY_MAX. tlist_of k (ReadyQ p) \<noteq> [])"

lemma rt_schedule_frame:
  "rt_schedule k = Some k' \<Longrightarrow> \<exists>p t. k' = k\<lparr>rt_current_priority := p, rt_current_thread := t\<rparr>"
  by (rule exI[of _ "rt_current_priority k'"], rule exI[of _ "rt_current_thread k'"])
    (auto simp: rt_schedule_def split: if_splits option.splits)

lemma rt_schedule_inv [inv_intro]:
  "sched_inv_but X k \<Longrightarrow> rt_schedule k = Some k' \<Longrightarrow> sched_inv_but X k'"
  using rt_schedule_frame sched_inv_cong[of k' k X] by fastforce

lemma rt_schedule_total:
  assumes "sched_inv_but X k" "some_ready k" "rt_current_thread k \<noteq> None"
  shows "\<exists>k'. rt_schedule k = Some k'"
proof -
  have "\<exists>p t. highest_ready k = Some (p, t)"
    using assms highest_ready_total by (fastforce simp: some_ready_def sched_inv_but_def)
  then show ?thesis using assms(3) by (auto simp: rt_schedule_def)
qed

lemma rt_schedule_runs:
  assumes "bitmap_ok k" "rt_schedule k = Some k'" "rt_scheduler_lock_nest k = 0"
  shows "highest_runs k'"
proof -
  obtain p t where h: "highest_ready k = Some (p, t)"
    using assms(2,3) by (auto simp: rt_schedule_def split: option.splits)
  have c: "rt_current_thread k' = Some t \<and> k_tlist k' = k_tlist k"
    using assms(2,3) h by (auto simp: rt_schedule_def split: option.splits if_splits)
  then show ?thesis
    using highest_ready_Some[OF assms(1) h] unfolding highest_runs_def by (intro exI[of _ p]) auto
qed

end
