(* ===== verification/Rtt_Kservice.thy ===== *)
theory Rtt_Kservice
  imports Rtt_Prelude
begin

text \<open>
  The memory and string routines of \<^verbatim>\<open>rt-thread/src/kservice.c\<close>, for the
  configuration without \<^verbatim>\<open>RT_USING_TINY_SIZE\<close>: the routines that work a word at a
  time when the pointers are aligned, on a byte-addressed little-endian memory with 32-bit
  addresses that wrap, and their specifications. A C string is read through the function from
  offsets to bytes at its address; plain \<^verbatim>\<open>char\<close> is unsigned on this target.
\<close>

type_synonym mem = "rt_uint32 \<Rightarrow> rt_uint8"
type_synonym cstring = "nat \<Rightarrow> rt_uint8"

definition load32 :: "mem \<Rightarrow> rt_uint32 \<Rightarrow> rt_uint32" where
  "load32 m p = ucast (m p) OR push_bit 8 (ucast (m (p + 1))) OR
     push_bit 16 (ucast (m (p + 2))) OR push_bit 24 (ucast (m (p + 3)))"

definition store32 :: "rt_uint32 \<Rightarrow> rt_uint32 \<Rightarrow> mem \<Rightarrow> mem" where
  "store32 p w m = m(p := ucast w, p + 1 := ucast (drop_bit 8 w),
     p + 2 := ucast (drop_bit 16 w), p + 3 := ucast (drop_bit 24 w))"

section \<open>Memory\<close>

subsection \<open>rt_memset\<close>

text \<open>The byte loop, the word loop and the loop unrolled four times.\<close>

fun memset_bytes :: "rt_uint32 \<Rightarrow> rt_uint8 \<Rightarrow> nat \<Rightarrow> mem \<Rightarrow> mem" where
  "memset_bytes p d 0 m = m"
| "memset_bytes p d (Suc n) m = memset_bytes (p + 1) d n (m(p := d))"

fun memset_words :: "rt_uint32 \<Rightarrow> rt_uint32 \<Rightarrow> nat \<Rightarrow> mem \<Rightarrow> rt_uint32 \<times> nat \<times> mem" where
  "memset_words p buffer count m =
     (if 4 \<le> count then memset_words (p + 4) buffer (count - 4) (store32 p buffer m)
      else (p, count, m))"

fun memset_blocks :: "rt_uint32 \<Rightarrow> rt_uint32 \<Rightarrow> nat \<Rightarrow> mem \<Rightarrow> rt_uint32 \<times> nat \<times> mem" where
  "memset_blocks p buffer count m =
     (if 16 \<le> count then
        memset_blocks (p + 16) buffer (count - 16)
          (store32 (p + 12) buffer (store32 (p + 8) buffer (store32 (p + 4) buffer (store32 p buffer m))))
      else (p, count, m))"

declare memset_words.simps [simp del] memset_blocks.simps [simp del]

definition rt_memset :: "rt_uint32 \<Rightarrow> rt_uint32 \<Rightarrow> rt_uint32 \<Rightarrow> mem \<Rightarrow> mem" where
  "rt_memset s c count m = (
     let d = c AND 0xff in
     if \<not> count < 4 \<and> s AND 3 = 0 then
       (let buffer = push_bit 8 d OR d;
            buffer = buffer OR push_bit 16 buffer;
            (p, n, m) = memset_blocks s buffer (unat count) m;
            (p, n, m) = memset_words p buffer n m
        in memset_bytes p (ucast d) n m)
     else memset_bytes s (ucast d) (unat count) m)"

text \<open>The specification: the bytes at distance less than \<open>n\<close> from \<open>s\<close>.\<close>

definition mem_fill :: "rt_uint32 \<Rightarrow> rt_uint8 \<Rightarrow> nat \<Rightarrow> mem \<Rightarrow> mem" where
  "mem_fill s d n m = (\<lambda>a. if unat (a - s) < n then d else m a)"

lemma unat_minus_one_pos: "(a :: rt_uint32) \<noteq> s \<Longrightarrow> unat (a - s) = Suc (unat (a - (s + 1)))"
proof -
  assume "a \<noteq> s"
  then have "a - s \<noteq> 0" by simp
  then have "unat (a - s) = Suc (unat (a - s - 1))"
    using unat_minus_one[of "a - s"] by (simp add: unat_gt_0)
  then show ?thesis by (simp add: diff_diff_eq)
qed

lemma mem_fill_step:
  assumes "n < 2 ^ 32"
  shows "mem_fill (s + 1) d n (m(s := d)) = mem_fill s d (Suc n) m"
proof
  fix a
  show "mem_fill (s + 1) d n (m(s := d)) a = mem_fill s d (Suc n) m a"
    by (cases "a = s") (simp_all add: mem_fill_def unat_minus_one_pos)
qed

lemma memset_bytes_spec: "n \<le> 2 ^ 32 \<Longrightarrow> memset_bytes s d n m = mem_fill s d n m"
proof (induction n arbitrary: s m)
  case 0
  show ?case by (simp add: mem_fill_def)
next
  case (Suc n)
  then show ?case using mem_fill_step[of n s d m] by simp
qed

text \<open>Storing a word of four equal bytes is storing them one by one.\<close>

lemma store32_same:
  assumes "\<And>k. k < 4 \<Longrightarrow> ucast (drop_bit (8 * k) w) = d"
  shows "store32 p w m = memset_bytes p d 4 m"
  using assms[of 0] assms[of 1] assms[of 2] assms[of 3]
  by (simp add: store32_def numeral_eq_Suc add.assoc)

lemma memset_bytes_add:
  "memset_bytes p d (a + b) m = memset_bytes (p + of_nat a) d b (memset_bytes p d a m)"
  by (induction a arbitrary: p m) (simp_all add: algebra_simps)

text \<open>Finishing with the byte loop after the word loops is the byte loop.\<close>

lemma memset_words_spec:
  assumes w: "\<And>k. k < 4 \<Longrightarrow> ucast (drop_bit (8 * k) w) = d"
    and "memset_words p w n m = (q, r, m')"
  shows "memset_bytes q d r m' = memset_bytes p d n m"
  using assms(2)
proof (induction n arbitrary: p m rule: less_induct)
  case (less n)
  show ?case
  proof (cases "4 \<le> n")
    case True
    then obtain k where n: "n = 4 + k" using le_Suc_ex by blast
    then have "memset_bytes q d r m' = memset_bytes (p + 4) d k (store32 p w m)"
      using less.prems by (intro less.IH) (simp_all add: memset_words.simps[of p w "4 + k" m])
    then show ?thesis by (simp only: n store32_same[OF w] memset_bytes_add) simp
  qed (use less.prems in \<open>simp add: memset_words.simps[of p w n m]\<close>)
qed

lemma memset_blocks_spec:
  assumes w: "\<And>k. k < 4 \<Longrightarrow> ucast (drop_bit (8 * k) w) = d"
    and "memset_blocks p w n m = (q, r, m')"
  shows "memset_bytes q d r m' = memset_bytes p d n m"
  using assms(2)
proof (induction n arbitrary: p m rule: less_induct)
  case (less n)
  show ?case
  proof (cases "16 \<le> n")
    case True
    then obtain k where n: "n = 4 + (4 + (4 + (4 + k)))" using le_Suc_ex[of 16 n] by auto
    then have "memset_bytes q d r m' = memset_bytes (p + 16) d k
        (store32 (p + 12) w (store32 (p + 8) w (store32 (p + 4) w (store32 p w m))))"
      using less.prems by (intro less.IH) (simp_all add: memset_blocks.simps[of p w "16 + k" m])
    then show ?thesis by (simp only: n store32_same[OF w] memset_bytes_add) (simp add: add.assoc)
  qed (use less.prems in \<open>simp add: memset_blocks.simps[of p w n m]\<close>)
qed

lemma memset_buffer:
  fixes c :: rt_uint32
  defines "d \<equiv> c AND 0xff"
  assumes "k < 4"
  shows "ucast (drop_bit (8 * k) ((push_bit 8 d OR d) OR push_bit 16 (push_bit 8 d OR d))) = (ucast c :: rt_uint8)"
proof -
  have "k \<in> {0, 1, 2, 3}" using assms(2) by auto
  then show ?thesis
    unfolding d_def
    by (auto intro!: bit_word_eqI simp: bit_simps)
qed

lemma rt_memset_fill: "rt_memset s c n m = mem_fill s (ucast c) (unat n) m"
proof -
  have d: "ucast (c AND 0xff) = (ucast c :: rt_uint8)"
    by (rule bit_word_eqI) (auto simp: bit_simps)
  have "rt_memset s c n m = memset_bytes s (ucast c) (unat n) m"
    unfolding rt_memset_def Let_def d
    by (auto split: prod.splits simp: memset_words_spec[OF memset_buffer] memset_blocks_spec[OF memset_buffer])
  then show ?thesis using unat32_less[of n] by (simp add: memset_bytes_spec)
qed

subsection \<open>rt_memcpy and rt_memmove\<close>

fun memcpy_bytes :: "rt_uint32 \<Rightarrow> rt_uint32 \<Rightarrow> nat \<Rightarrow> mem \<Rightarrow> mem" where
  "memcpy_bytes d s 0 m = m"
| "memcpy_bytes d s (Suc n) m = memcpy_bytes (d + 1) (s + 1) n (m(d := m s))"

definition copy_word :: "rt_uint32 \<Rightarrow> rt_uint32 \<Rightarrow> mem \<Rightarrow> mem" where
  "copy_word d s m = store32 d (load32 m s) m"

fun memcpy_words ::
  "rt_uint32 \<Rightarrow> rt_uint32 \<Rightarrow> nat \<Rightarrow> mem \<Rightarrow> rt_uint32 \<times> rt_uint32 \<times> nat \<times> mem" where
  "memcpy_words d s len m =
     (if 4 \<le> len then memcpy_words (d + 4) (s + 4) (len - 4) (copy_word d s m) else (d, s, len, m))"

fun memcpy_blocks ::
  "rt_uint32 \<Rightarrow> rt_uint32 \<Rightarrow> nat \<Rightarrow> mem \<Rightarrow> rt_uint32 \<times> rt_uint32 \<times> nat \<times> mem" where
  "memcpy_blocks d s len m =
     (if 16 \<le> len then memcpy_blocks (d + 16) (s + 16) (len - 16)
        (copy_word (d + 12) (s + 12) (copy_word (d + 8) (s + 8) (copy_word (d + 4) (s + 4) (copy_word d s m))))
      else (d, s, len, m))"

declare memcpy_words.simps [simp del] memcpy_blocks.simps [simp del]

text \<open>\<^verbatim>\<open>len\<close> is an \<^verbatim>\<open>int\<close>, but every comparison converts it to
  unsigned, so it is the 32-bit count throughout.\<close>

definition rt_memcpy :: "rt_uint32 \<Rightarrow> rt_uint32 \<Rightarrow> rt_uint32 \<Rightarrow> mem \<Rightarrow> mem" where
  "rt_memcpy dst src count m =
     (if \<not> count < 16 \<and> (src AND 3) OR (dst AND 3) = 0 then
        (let (d, s, n, m) = memcpy_blocks dst src (unat count) m;
             (d, s, n, m) = memcpy_words d s n m
         in memcpy_bytes d s n m)
      else memcpy_bytes dst src (unat count) m)"

text \<open>\<^verbatim>\<open>while (n--) *(--tmp) = *(--s)\<close> from the ends of the two areas.\<close>

fun memmove_down :: "rt_uint32 \<Rightarrow> rt_uint32 \<Rightarrow> nat \<Rightarrow> mem \<Rightarrow> mem" where
  "memmove_down tmp s 0 m = m"
| "memmove_down tmp s (Suc n) m = memmove_down (tmp - 1) (s - 1) n (m(tmp - 1 := m (s - 1)))"

definition rt_memmove :: "rt_uint32 \<Rightarrow> rt_uint32 \<Rightarrow> rt_uint32 \<Rightarrow> mem \<Rightarrow> mem" where
  "rt_memmove dest src n m =
     (if src < dest \<and> dest < src + n then memmove_down (dest + n) (src + n) (unat n) m
      else memcpy_bytes dest src (unat n) m)"

text \<open>The specification: the bytes of the source area as they were before the call.\<close>

definition mem_copy :: "rt_uint32 \<Rightarrow> rt_uint32 \<Rightarrow> nat \<Rightarrow> mem \<Rightarrow> mem" where
  "mem_copy d s n m = (\<lambda>a. if unat (a - d) < n then m (s + (a - d)) else m a)"

lemma memcpy_bytes_spec:
  assumes "n < 2 ^ 32" "d = s \<or> n \<le> unat (d - s)"
  shows "memcpy_bytes d s n m = mem_copy d s n m"
  using assms
proof (induction n arbitrary: d s m)
  case 0
  show ?case by (simp add: mem_copy_def)
next
  case (Suc n)
  have IH: "memcpy_bytes (d + 1) (s + 1) n (m(d := m s)) = mem_copy (d + 1) (s + 1) n (m(d := m s))"
    using Suc.prems by (intro Suc.IH) auto
  have "mem_copy (d + 1) (s + 1) n (m(d := m s)) a = mem_copy d s (Suc n) m a" for a
  proof (cases "a = d")
    case True
    have "unat (d - (d + 1)) = 2 ^ 32 - 1" by (simp add: unat32_minus_1)
    then show ?thesis using True Suc.prems(1) by (simp add: mem_copy_def)
  next
    case False
    have addr: "s + 1 + (a - (d + 1)) = s + (a - d)" by simp
    have ne: "s + (a - d) \<noteq> d" if "unat (a - d) < Suc n"
    proof
      assume e: "s + (a - d) = d"
      then have "a - d = d - s" by (metis add_diff_cancel_left')
      then show False using Suc.prems(2) that False e by auto
    qed
    have "mem_copy (d + 1) (s + 1) n (m(d := m s)) a
        = (if unat (a - d) < Suc n then (m(d := m s)) (s + (a - d)) else m a)"
      unfolding mem_copy_def addr using unat_minus_one_pos[OF False] False by simp
    also have "\<dots> = mem_copy d s (Suc n) m a"
      unfolding mem_copy_def using ne fun_upd_other by metis
    finally show ?thesis .
  qed
  then show ?case using IH by (simp add: fun_eq_iff)
qed

lemma memmove_down_spec:
  assumes "n < 2 ^ 32" "n \<le> unat (s - d)"
  shows "memmove_down (d + of_nat n) (s + of_nat n) n m = mem_copy d s n m"
  using assms
proof (induction n arbitrary: m)
  case 0
  show ?case by (simp add: mem_copy_def)
next
  case (Suc n)
  have IH: "memmove_down (d + of_nat n) (s + of_nat n) n (m(d + of_nat n := m (s + of_nat n)))
      = mem_copy d s n (m(d + of_nat n := m (s + of_nat n)))"
    using Suc.prems by (intro Suc.IH) auto
  have n: "unat (of_nat n :: rt_uint32) = n" using Suc.prems(1) by (simp add: unat_of_nat)
  have "mem_copy d s n (m(d + of_nat n := m (s + of_nat n))) a = mem_copy d s (Suc n) m a" for a
  proof (cases "a = d + of_nat n")
    case True
    then show ?thesis using n by (simp add: mem_copy_def)
  next
    case False
    then have ne: "unat (a - d) \<noteq> n"
      using word_eq_of_unat[of "a - d" n] by (auto simp: diff_eq_eq add.commute)
    have "s + (a - d) \<noteq> d + of_nat n" if "unat (a - d) < n"
    proof
      assume e: "s + (a - d) = d + of_nat n"
      then have "s - d = of_nat n - (a - d)" by (simp add: algebra_simps)
      moreover have "unat (of_nat n - (a - d)) = n - unat (a - d)"
        using that n by (subst unat_sub) (simp_all add: word_le_nat_alt)
      ultimately have "unat (s - d) = n - unat (a - d)" by metis
      then show False using Suc.prems(2) by linarith
    qed
    then show ?thesis using ne False by (auto simp: mem_copy_def)
  qed
  then show ?case using IH by (simp add: fun_eq_iff algebra_simps)
qed

lemma bit_byte_high [simp]: "8 \<le> i \<Longrightarrow> \<not> bit (w :: rt_uint8) i"
  using bit_imp_le_length[of w i] by auto

lemma copy_word_bytes:
  assumes "4 \<le> unat (d - s)"
  shows "copy_word d s m = memcpy_bytes d s 4 m"
proof -
  have ne: "s + of_nat i \<noteq> d + of_nat j" if "j < i" "i < 4" for i j
  proof
    assume e: "s + of_nat i = d + of_nat j"
    then have "d - s = of_nat i - of_nat j" by (simp add: algebra_simps)
    also have "\<dots> = of_nat (i - j)" using that by (simp add: of_nat_diff)
    finally have "d - s = of_nat (i - j)" .
    then have "unat (d - s) = i - j" using that by (simp only:) (simp add: unat_of_nat del: of_nat_diff)
    then show False using assms that by simp
  qed
  have b: "ucast (load32 m s) = m s" "ucast (drop_bit 8 (load32 m s)) = m (s + 1)"
    "ucast (drop_bit 16 (load32 m s)) = m (s + 2)" "ucast (drop_bit 24 (load32 m s)) = m (s + 3)"
    by (auto intro!: bit_word_eqI simp: load32_def bit_simps)
  have "copy_word d s m = m(d := m s, d + 1 := m (s + 1), d + 2 := m (s + 2), d + 3 := m (s + 3))"
    by (simp add: copy_word_def store32_def b)
  also have "\<dots> = memcpy_bytes d s 4 m"
    using ne[of 0 1] ne[of 0 2] ne[of 0 3] ne[of 1 2] ne[of 1 3] ne[of 2 3]
    by (simp add: numeral_eq_Suc add.assoc)
  finally show ?thesis .
qed

lemma memcpy_bytes_add:
  "memcpy_bytes d s (a + b) m = memcpy_bytes (d + of_nat a) (s + of_nat a) b (memcpy_bytes d s a m)"
  by (induction a arbitrary: d s m) (simp_all add: algebra_simps)

lemma memcpy_words_spec:
  assumes "memcpy_words d s n m = (d', s', r, m')" "n \<le> unat (d - s)"
  shows "memcpy_bytes d' s' r m' = memcpy_bytes d s n m"
  using assms
proof (induction n arbitrary: d s m rule: less_induct)
  case (less n)
  show ?case
  proof (cases "4 \<le> n")
    case True
    then obtain k where n: "n = 4 + k" using le_Suc_ex by blast
    then have "memcpy_bytes d' s' r m' = memcpy_bytes (d + 4) (s + 4) k (copy_word d s m)"
      using less.prems by (intro less.IH) (simp_all add: memcpy_words.simps[of d s "4 + k" m])
    moreover have "4 \<le> unat (d - s)" using less.prems(2) n by simp
    ultimately show ?thesis by (simp only: n copy_word_bytes memcpy_bytes_add) simp
  qed (use less.prems in \<open>simp add: memcpy_words.simps[of d s n m]\<close>)
qed

lemma memcpy_blocks_spec:
  assumes "memcpy_blocks d s n m = (d', s', r, m')" "n \<le> unat (d - s)"
  shows "memcpy_bytes d' s' r m' = memcpy_bytes d s n m \<and> d' - s' = d - s \<and> r \<le> n"
  using assms
proof (induction n arbitrary: d s m rule: less_induct)
  case (less n)
  show ?case
  proof (cases "16 \<le> n")
    case True
    then obtain k where n: "n = 4 + (4 + (4 + (4 + k)))" using le_Suc_ex[of 16 n] by auto
    let ?m = "copy_word (d + 12) (s + 12) (copy_word (d + 8) (s + 8) (copy_word (d + 4) (s + 4) (copy_word d s m)))"
    have "memcpy_bytes d' s' r m' = memcpy_bytes (d + 16) (s + 16) k ?m \<and> d' - s' = (d + 16) - (s + 16) \<and> r \<le> k"
      using less.prems n by (intro less.IH) (simp_all add: memcpy_blocks.simps[of d s "16 + k" m])
    moreover have "memcpy_bytes d s n m = memcpy_bytes (d + 16) (s + 16) k ?m"
      using less.prems(2) n by (simp only: n copy_word_bytes memcpy_bytes_add) (simp add: copy_word_bytes add.assoc)
    ultimately show ?thesis using n by simp
  qed (use less.prems in \<open>simp add: memcpy_blocks.simps[of d s n m]\<close>)
qed

text \<open>Copying is right when the destination does not start inside the source area.\<close>

lemma rt_memcpy_copy:
  assumes "unat n \<le> unat (dst - src)"
  shows "rt_memcpy dst src n m = mem_copy dst src (unat n) m"
proof -
  have "rt_memcpy dst src n m = memcpy_bytes dst src (unat n) m"
  proof -
    have "memcpy_bytes d' s' r' m' = memcpy_bytes dst src (unat n) m"
      if b: "memcpy_blocks dst src (unat n) m = (d, s, r, m1)"
        and w: "memcpy_words d s r m1 = (d', s', r', m')" for d s r m1 d' s' r' m'
      using memcpy_blocks_spec[OF b assms] memcpy_words_spec[OF w] assms by simp
    then show ?thesis
      by (auto simp: rt_memcpy_def split: prod.splits)
  qed
  then show ?thesis
    using unat32_less[of n] assms by (simp add: memcpy_bytes_spec)
qed

lemma rt_memmove_copy:
  assumes "unat src + unat n < 2 ^ 32" "unat dest + unat n < 2 ^ 32"
  shows "rt_memmove dest src n m = mem_copy dest src (unat n) m"
proof -
  have n: "unat n < 2 ^ 32" using unat32_less[of n] by simp
  have sum: "unat (src + n) = unat src + unat n"
    using assms(1) by (simp add: unat_word_ariths)
  show ?thesis
  proof (cases "src < dest \<and> dest < src + n")
    case True
    then have "unat (src - dest) = 2 ^ 32 + unat src - unat dest"
      using unat_sub_if'[of src dest] by (simp add: word_less_nat_alt)
    then have "unat n \<le> unat (src - dest)" using assms(2) by simp
    from memmove_down_spec[OF n this] show ?thesis
      using True by (simp add: rt_memmove_def)
  next
    case False
    have "dest = src \<or> unat n \<le> unat (dest - src)"
    proof (cases "dest \<le> src")
      case True
      then have "dest \<noteq> src \<Longrightarrow> unat (dest - src) = 2 ^ 32 + unat dest - unat src"
        using unat_sub_if'[of dest src] by (auto simp: word_le_nat_alt word_unat_eq_iff)
      then show ?thesis using assms(1) by (cases "dest = src") auto
    next
      case gt: False
      then have "src + n \<le> dest" using False by auto
      then have "unat src + unat n \<le> unat dest" using sum by (simp add: word_le_nat_alt)
      moreover have "unat (dest - src) = unat dest - unat src"
        using gt by (intro unat_sub) simp
      ultimately have "unat n \<le> unat (dest - src)" by linarith
      then show ?thesis ..
    qed
    then have "memcpy_bytes dest src (unat n) m = mem_copy dest src (unat n) m"
      by (rule memcpy_bytes_spec[OF n])
    then show ?thesis using False unfolding rt_memmove_def by (simp only: if_False)
  qed
qed

section \<open>Comparing and searching\<close>

abbreviation tail_from :: "nat \<Rightarrow> cstring \<Rightarrow> cstring" where
  "tail_from k s \<equiv> (\<lambda>i. s (k + i))"

fun rt_memcmp :: "cstring \<Rightarrow> cstring \<Rightarrow> nat \<Rightarrow> int" where
  "rt_memcmp su1 su2 0 = 0"
| "rt_memcmp su1 su2 (Suc count) =
     (let res = uint (su1 0) - uint (su2 0) in
      if res \<noteq> 0 then res else rt_memcmp (tail_from 1 su1) (tail_from 1 su2) count)"

lemma rt_memcmp_zero: "rt_memcmp s t n = 0 \<longleftrightarrow> (\<forall>i < n. s i = t i)"
proof (induction n arbitrary: s t)
  case (Suc n)
  show ?case
    by (auto simp: Let_def Suc All_less_Suc2 word_uint_eq_iff)
qed simp

text \<open>Plain characters are subtracted as \<^verbatim>\<open>int\<close> and the difference kept in a
  \<^verbatim>\<open>signed char\<close>.\<close>

fun strncmp_loop :: "cstring \<Rightarrow> cstring \<Rightarrow> nat \<Rightarrow> rt_uint8" where
  "strncmp_loop cs ct 0 = 0"
| "strncmp_loop cs ct (Suc count) =
     (let res = cs 0 - ct 0 in
      if res \<noteq> 0 \<or> cs 0 = 0 then res
      else strncmp_loop (tail_from 1 cs) (tail_from 1 ct) count)"

definition rt_strncmp :: "cstring \<Rightarrow> cstring \<Rightarrow> nat \<Rightarrow> int" where
  "rt_strncmp cs ct count = sint (strncmp_loop cs ct count)"

text \<open>Equal up to the first \<open>n\<close> bytes or the terminator, whichever comes first.\<close>

definition same_upto :: "nat \<Rightarrow> cstring \<Rightarrow> cstring \<Rightarrow> bool" where
  "same_upto n s t \<longleftrightarrow> (\<forall>i < n. (\<forall>j < i. s j \<noteq> 0) \<longrightarrow> s i = t i)"

lemma same_upto_Suc:
  "same_upto (Suc n) s t \<longleftrightarrow> s 0 = t 0 \<and> (s 0 \<noteq> 0 \<longrightarrow> same_upto n (tail_from 1 s) (tail_from 1 t))"
  unfolding same_upto_def by (auto simp: All_less_Suc2)

lemma rt_strncmp_zero: "rt_strncmp s t n = 0 \<longleftrightarrow> same_upto n s t"
proof -
  have "strncmp_loop s t n = 0 \<longleftrightarrow> same_upto n s t"
  proof (induction n arbitrary: s t)
    case 0
    show ?case by (simp add: same_upto_def)
  next
    case (Suc n)
    then show ?case by (auto simp: same_upto_Suc Let_def)
  qed
  then show ?thesis by (simp add: rt_strncmp_def signed_eq_0_iff)
qed

text \<open>The loops without a bound end only at a difference or a terminator.\<close>

partial_function (option) rt_strcmp :: "cstring \<Rightarrow> cstring \<Rightarrow> int option" where
  "rt_strcmp cs ct =
     (if cs 0 \<noteq> 0 \<and> cs 0 = ct 0 then rt_strcmp (tail_from 1 cs) (tail_from 1 ct)
      else Some (uint (cs 0) - uint (ct 0)))"

definition lower :: "rt_uint8 \<Rightarrow> int" where
  "lower c = (let c = uint c in if 65 \<le> c \<and> c \<le> 90 then c + 32 else c)"

partial_function (option) rt_strcasecmp :: "cstring \<Rightarrow> cstring \<Rightarrow> rt_uint32 option" where
  "rt_strcasecmp a b =
     (if lower (a 0) = lower (b 0) \<and> lower (a 0) \<noteq> 0
      then rt_strcasecmp (tail_from 1 a) (tail_from 1 b)
      else Some (of_int (lower (a 0) - lower (b 0))))"

partial_function (option) strlen_from :: "cstring \<Rightarrow> nat \<Rightarrow> nat option" where
  "strlen_from s sc = (if s sc \<noteq> 0 then strlen_from s (Suc sc) else Some sc)"

definition rt_strlen :: "cstring \<Rightarrow> nat option" where
  "rt_strlen s = strlen_from s 0"

fun strnlen_from :: "cstring \<Rightarrow> nat \<Rightarrow> nat \<Rightarrow> nat" where
  "strnlen_from s sc 0 = sc"
| "strnlen_from s sc (Suc left) = (if s sc \<noteq> 0 then strnlen_from s (Suc sc) left else sc)"

definition rt_strnlen :: "cstring \<Rightarrow> nat \<Rightarrow> nat" where
  "rt_strnlen s maxlen = strnlen_from s 0 maxlen"

text \<open>The result is the offset of the match in \<open>s1\<close>.\<close>

fun strstr_loop :: "cstring \<Rightarrow> cstring \<Rightarrow> nat \<Rightarrow> nat \<Rightarrow> nat \<Rightarrow> nat option" where
  "strstr_loop s1 s2 l1 l2 off =
     (if l2 \<le> l1 \<and> 0 < l1 then
        (if rt_memcmp (tail_from off s1) s2 l2 = 0 then Some off
         else strstr_loop s1 s2 (l1 - 1) l2 (Suc off))
      else None)"

declare strstr_loop.simps [simp del]

definition rt_strstr :: "cstring \<Rightarrow> cstring \<Rightarrow> nat option option" where
  "rt_strstr s1 s2 = do {
     l2 \<leftarrow> rt_strlen s2;
     (if l2 = 0 then Some (Some 0)
      else map_option (\<lambda>l1. strstr_loop s1 s2 l1 l2 0) (rt_strlen s1))
   }"

lemma strlen_from_add:
  "(\<And>i. i < n \<Longrightarrow> s (k + i) \<noteq> 0) \<Longrightarrow> strlen_from s k = strlen_from s (k + n)"
proof (induction n arbitrary: k)
  case (Suc n)
  have "strlen_from s k = strlen_from s (Suc k)"
    using Suc.prems[of 0] by (subst strlen_from.simps) simp
  also have "\<dots> = strlen_from s (Suc k + n)"
  proof (rule Suc.IH)
    fix i assume "i < n"
    then show "s (Suc k + i) \<noteq> 0" using Suc.prems[of "Suc i"] by simp
  qed
  finally show ?case by simp
qed simp

text \<open>The length is the offset of the first terminator; a string without one has none.\<close>

lemma strlen_from_stops: "strlen_from s k = Some n \<Longrightarrow> s n = 0"
  by (rule strlen_from.raw_induct[of "\<lambda>s k n. s n = 0"]) (auto split: if_splits)

lemma rt_strlen_Some: "rt_strlen s = Some n \<longleftrightarrow> s n = 0 \<and> (\<forall>i < n. s i \<noteq> 0)"
proof
  assume r: "s n = 0 \<and> (\<forall>i < n. s i \<noteq> 0)"
  then have "strlen_from s 0 = strlen_from s (0 + n)" by (intro strlen_from_add) simp
  then show "rt_strlen s = Some n"
    using r by (simp add: rt_strlen_def strlen_from.simps)
next
  assume r: "rt_strlen s = Some n"
  have "\<exists>i. s i = 0" using strlen_from_stops r by (auto simp: rt_strlen_def)
  then obtain m where m: "s m = 0" "\<forall>i < m. s i \<noteq> 0"
    using exists_least_iff[of "\<lambda>i. s i = 0"] by auto
  then have "strlen_from s 0 = strlen_from s (0 + m)" by (intro strlen_from_add) simp
  then have "rt_strlen s = Some m"
    using m by (simp add: rt_strlen_def strlen_from.simps)
  then show "s n = 0 \<and> (\<forall>i < n. s i \<noteq> 0)" using r m by simp
qed

lemma strnlen_from_spec:
  "strnlen_from s k m = k + (LEAST i. i = m \<or> s (k + i) = 0)"
proof (induction m arbitrary: k)
  case 0
  have "(LEAST i. i = 0 \<or> s (k + i) = 0) = 0" by (rule Least_eq_0) simp
  then show ?case by simp
next
  case (Suc m)
  show ?case
  proof (cases "s k = 0")
    case True
    have "(LEAST i. i = Suc m \<or> s (k + i) = 0) = 0" by (rule Least_eq_0) (use True in simp)
    then show ?thesis using True by simp
  next
    case False
    have "(LEAST i. i = Suc m \<or> s (k + i) = 0) = Suc (LEAST i. Suc i = Suc m \<or> s (k + Suc i) = 0)"
      by (rule Least_Suc[of _ "Suc m"]) (use False in simp_all)
    then show ?thesis using False Suc by simp
  qed
qed

lemma rt_strnlen_le: "rt_strnlen s n \<le> n"
  using Least_le[of "\<lambda>i. i = n \<or> s (0 + i) = 0" n] by (simp add: rt_strnlen_def strnlen_from_spec)

text \<open>The search returns the first match.\<close>

lemma strstr_loop_spec:
  assumes "0 < l2"
  shows "strstr_loop s1 s2 l1 l2 off = (case find (\<lambda>i. \<forall>j < l2. s1 (off + i + j) = s2 j) [0..<Suc l1 - l2]
     of None \<Rightarrow> None | Some i \<Rightarrow> Some (off + i))"
proof (induction l1 arbitrary: off)
  case 0
  show ?case using assms by (simp add: strstr_loop.simps)
next
  case (Suc l1)
  let ?P = "\<lambda>off i. \<forall>j < l2. s1 (off + i + j) = s2 j"
  show ?case
  proof (cases "l2 \<le> Suc l1")
    case True
    have map: "find (?P off) (map Suc xs) = map_option Suc (find (?P (Suc off)) xs)" for xs
      by (induction xs) auto
    have "[0..<Suc (Suc l1) - l2] = 0 # map Suc [0..<Suc l1 - l2]"
      using True by (simp add: map_Suc_upt upt_conv_Cons Suc_diff_le)
    then show ?thesis
      using True Suc[of "Suc off"]
      by (simp add: strstr_loop.simps[of s1 s2 "Suc l1"] rt_memcmp_zero map split: option.splits)
  next
    case False
    then show ?thesis by (simp add: strstr_loop.simps)
  qed
qed

section \<open>Copying a string\<close>

fun strncpy_loop :: "rt_uint32 \<Rightarrow> rt_uint32 \<Rightarrow> nat \<Rightarrow> mem \<Rightarrow> mem" where
  "strncpy_loop d s 0 m = m"
| "strncpy_loop d s (Suc n) m = (
     let c = m s; m = m(d := c) in
     if c = 0 then memset_bytes (d + 1) 0 n m else strncpy_loop (d + 1) (s + 1) n m)"

definition rt_strncpy :: "rt_uint32 \<Rightarrow> rt_uint32 \<Rightarrow> rt_uint32 \<Rightarrow> mem \<Rightarrow> mem" where
  "rt_strncpy dst src n m = (if n \<noteq> 0 then strncpy_loop dst src (unat n) m else m)"

end
