(* ===== verification/Rtt_Thread.thy ===== *)
theory Rtt_Thread
  imports Rtt_Scheduler Rtt_Kservice
begin

text \<open>
  Threads (\<^verbatim>\<open>rt-thread/src/thread.c\<close>), with the two functions of
  \<^verbatim>\<open>timer.c\<close> and \<^verbatim>\<open>object.c\<close> that need them:
  \<open>rt_timer_start\<close>, which wakes the timer thread for a software timer, and the lookups
  that lock the scheduler. A call that may put its caller to sleep is split where the C code
  calls \<^verbatim>\<open>rt_schedule()\<close>: what runs up to the switch, and what runs when the
  caller is scheduled again (\<open>_leave\<close>).
\<close>

abbreviation (input) idle_thread :: tid where "idle_thread \<equiv> 0"
abbreviation (input) timer_thread :: tid where "timer_thread \<equiv> 1"

datatype outcome = Done rt_err | Wait

definition rt_thread_self :: "kernel \<Rightarrow> tid option" where
  "rt_thread_self k = rt_current_thread k"

subsection \<open>Suspending and resuming\<close>

definition rt_thread_suspend :: "tid \<Rightarrow> kernel \<Rightarrow> (kernel \<times> rt_err) option" where
  "rt_thread_suspend t k =
     (if thread_state (k_thread k t) \<noteq> RT_THREAD_READY then Some (k, - RT_ERROR)
      else do {
        let k = upd_thread t (\<lambda>th. th\<lparr>stat := RT_THREAD_SUSPEND OR (stat th AND NOT RT_THREAD_STAT_MASK)\<rparr>) k;
        k \<leftarrow> rt_schedule_remove_thread t k;
        Some (fst (rt_timer_stop (ThreadTimer t) k), RT_EOK)
      })"

definition rt_thread_resume :: "tid \<Rightarrow> kernel \<Rightarrow> (kernel \<times> rt_err) option" where
  "rt_thread_resume t k =
     (if thread_state (k_thread k t) \<noteq> RT_THREAD_SUSPEND then Some (k, - RT_ERROR)
      else do {
        let k = tlist_remove t k;
        let k = fst (rt_timer_stop (ThreadTimer t) k);
        k \<leftarrow> rt_schedule_insert_thread t k;
        Some (k, RT_EOK)
      })"

definition rt_thread_timeout :: "tid \<Rightarrow> kernel \<Rightarrow> kernel option" where
  "rt_thread_timeout t k = do {
     RT_ASSERT (thread_state (k_thread k t) = RT_THREAD_SUSPEND);
     let k = upd_thread t (\<lambda>th. th\<lparr>th_error := - RT_ETIMEOUT\<rparr>) k;
     let k = tlist_remove t k;
     k \<leftarrow> rt_schedule_insert_thread t k;
     rt_schedule k
   }"

definition rt_timer_start :: "timer_ref \<Rightarrow> kernel \<Rightarrow> (kernel \<times> rt_err) option" where
  "rt_timer_start tm k = do {
     k \<leftarrow> timer_enqueue tm k;
     (if obj_flag (k_object k (OTimer tm)) AND RT_TIMER_FLAG_SOFT_TIMER \<noteq> 0 \<and>
         thread_state (k_thread k timer_thread) \<noteq> RT_THREAD_READY
      then do {
        (k, _) \<leftarrow> rt_thread_resume timer_thread k;
        k \<leftarrow> rt_schedule k;
        Some (k, - RT_EOK)
      }
      else Some (k, - RT_EOK))
   }"

subsection \<open>Life of a thread\<close>

text \<open>\<^verbatim>\<open>1 << p\<close> is defined for \<open>p\<close> below 32 only.\<close>

definition set_priority :: "tid \<Rightarrow> rt_uint8 \<Rightarrow> kernel \<Rightarrow> kernel option" where
  "set_priority t p k =
     (if unat p < 32
      then Some (upd_thread t (\<lambda>th. th\<lparr>current_priority := p, number_mask := push_bit (unat p) 1\<rparr>) k)
      else None)"

definition tlist_init :: "tid \<Rightarrow> kernel \<Rightarrow> kernel option" where
  "tlist_init t k = (if ls_on (k_tlist k) t \<noteq> None then None else Some k)"

definition rt_thread_init' :: "tid \<Rightarrow> rt_uint8 \<Rightarrow> rt_uint32 \<Rightarrow> kernel \<Rightarrow> kernel option" where
  "rt_thread_init' t priority tick k = do {
     k \<leftarrow> tlist_init t k;
     RT_ASSERT (unat priority < RT_THREAD_PRIORITY_MAX);
     let k = upd_thread t (\<lambda>th. th\<lparr>init_priority := priority, current_priority := priority,
               number_mask := 0, init_tick := tick, remaining_tick := tick,
               th_error := RT_EOK, stat := RT_THREAD_INIT, cleanup := False\<rparr>) k;
     rt_timer_init (ThreadTimer t) (takeWhile (\<lambda>c. c \<noteq> 0) (obj_name (k_object k (OThread t))))
       (ThreadTimeout t) 0 0 k
   }"

definition rt_thread_init :: "tid \<Rightarrow> rt_uint8 list \<Rightarrow> rt_uint8 \<Rightarrow> rt_uint32 \<Rightarrow> kernel \<Rightarrow> (kernel \<times> rt_err) option" where
  "rt_thread_init t nm priority tick k = do {
     k \<leftarrow> rt_object_init (OThread t) (class_code RT_Object_Class_Thread) nm k;
     k \<leftarrow> rt_thread_init' t priority tick k;
     Some (k, RT_EOK)
   }"

text \<open>\<open>mem\<close>: the object \<^verbatim>\<open>RT_KERNEL_MALLOC\<close> gives, \<open>stack\<close>: whether it
  then finds the stack.\<close>

definition rt_thread_create ::
  "rt_uint8 list \<Rightarrow> rt_uint8 \<Rightarrow> rt_uint32 \<Rightarrow> tid option \<Rightarrow> bool \<Rightarrow> kernel \<Rightarrow> (kernel \<times> tid option) option" where
  "rt_thread_create nm priority tick mem stack k = do {
     (k, _) \<leftarrow> rt_object_allocate (class_code RT_Object_Class_Thread) nm (map_option OThread mem) k;
     (case mem of
        None \<Rightarrow> Some (k, None)
      | Some t \<Rightarrow>
          if \<not> stack then map_option (\<lambda>k. (k, None)) (rt_object_delete (OThread t) k)
          else map_option (\<lambda>k. (k, Some t)) (rt_thread_init' t priority tick k))
   }"

definition rt_thread_startup :: "tid \<Rightarrow> kernel \<Rightarrow> (kernel \<times> rt_err) option" where
  "rt_thread_startup t k = do {
     RT_ASSERT (thread_state (k_thread k t) = RT_THREAD_INIT);
     k \<leftarrow> set_priority t (init_priority (k_thread k t)) k;
     let k = upd_thread t (\<lambda>th. th\<lparr>stat := RT_THREAD_SUSPEND\<rparr>) k;
     (k, _) \<leftarrow> rt_thread_resume t k;
     (if rt_thread_self k \<noteq> None
      then map_option (\<lambda>k. (k, RT_EOK)) (rt_schedule k)
      else Some (k, RT_EOK))
   }"

definition thread_unready :: "tid \<Rightarrow> kernel \<Rightarrow> kernel option" where
  "thread_unready t k =
     (if thread_state (k_thread k t) \<noteq> RT_THREAD_INIT then rt_schedule_remove_thread t k else Some k)"

definition rt_thread_detach :: "tid \<Rightarrow> kernel \<Rightarrow> (kernel \<times> rt_err) option" where
  "rt_thread_detach t k = do {
     k \<leftarrow> thread_unready t k;
     let k = fst (rt_timer_detach (ThreadTimer t) k);
     let k = upd_thread t (\<lambda>th. th\<lparr>stat := RT_THREAD_CLOSE\<rparr>) k;
     let k = rt_object_detach (OThread t) k;
     (if cleanup (k_thread k t)
      then map_option (\<lambda>k. (k, RT_EOK)) (tlist_insert_after DefunctQ t k)
      else Some (k, RT_EOK))
   }"

definition rt_thread_delete :: "tid \<Rightarrow> kernel \<Rightarrow> (kernel \<times> rt_err) option" where
  "rt_thread_delete t k = do {
     k \<leftarrow> thread_unready t k;
     let k = fst (rt_timer_detach (ThreadTimer t) k);
     let k = upd_thread t (\<lambda>th. th\<lparr>stat := RT_THREAD_CLOSE\<rparr>) k;
     k \<leftarrow> tlist_insert_after DefunctQ t k;
     Some (k, RT_EOK)
   }"

definition rt_thread_exit :: "kernel \<Rightarrow> kernel option" where
  "rt_thread_exit k = do {
     t \<leftarrow> rt_current_thread k;
     k \<leftarrow> rt_schedule_remove_thread t k;
     let k = upd_thread t (\<lambda>th. th\<lparr>stat := RT_THREAD_CLOSE\<rparr>) k;
     let k = fst (rt_timer_detach (ThreadTimer t) k);
     k \<leftarrow> (if rt_object_is_systemobject (OThread t) k \<and> \<not> cleanup (k_thread k t)
           then Some (rt_object_detach (OThread t) k)
           else tlist_insert_after DefunctQ t k);
     rt_schedule k
   }"

subsection \<open>Giving up the processor\<close>

text \<open>\<^verbatim>\<open>tlist.next != tlist.prev\<close>: the node is linked and not alone
  (\<open>yield_test\<close> in \<open>Rtt_List\<close> shows this for the pointers).\<close>

definition has_neighbour :: "tid \<Rightarrow> kernel \<Rightarrow> bool" where
  "has_neighbour t k = (case ls_on (k_tlist k) t of None \<Rightarrow> False | Some h \<Rightarrow> 2 \<le> length (tlist_of k h))"

definition rt_thread_yield :: "kernel \<Rightarrow> (kernel \<times> rt_err) option" where
  "rt_thread_yield k = do {
     t \<leftarrow> rt_current_thread k;
     (if thread_state (k_thread k t) = RT_THREAD_READY \<and> has_neighbour t k
      then do {
        let k = tlist_remove t k;
        k \<leftarrow> tlist_insert_before (ReadyQ (unat (current_priority (k_thread k t)))) t k;
        k \<leftarrow> rt_schedule k;
        Some (k, RT_EOK)
      }
      else Some (k, RT_EOK))
   }"

definition rt_thread_sleep :: "rt_tick \<Rightarrow> kernel \<Rightarrow> (kernel \<times> outcome) option" where
  "rt_thread_sleep tick k = do {
     t \<leftarrow> rt_current_thread k;
     (k, _) \<leftarrow> rt_thread_suspend t k;
     let k = fst (rt_timer_control (ThreadTimer t) (RT_TIMER_CTRL_SET_TIME tick) k);
     (k, _) \<leftarrow> rt_timer_start (ThreadTimer t) k;
     k \<leftarrow> rt_schedule k;
     Some (k, Wait)
   }"

definition rt_thread_sleep_leave :: "tid \<Rightarrow> kernel \<Rightarrow> kernel \<times> rt_err" where
  "rt_thread_sleep_leave t k =
     (if th_error (k_thread k t) = - RT_ETIMEOUT
      then (upd_thread t (\<lambda>th. th\<lparr>th_error := RT_EOK\<rparr>) k, RT_EOK) else (k, RT_EOK))"

definition rt_thread_delay :: "rt_tick \<Rightarrow> kernel \<Rightarrow> (kernel \<times> outcome) option" where
  "rt_thread_delay tick k = rt_thread_sleep tick k"

text \<open>\<^verbatim>\<open>rt_tick_from_millisecond\<close> of \<^verbatim>\<open>clock.c\<close>: 1000 ticks a second,
  computed in a 32-bit \<^verbatim>\<open>int\<close>, whose overflow is undefined.\<close>

definition rt_tick_from_millisecond :: "int \<Rightarrow> int option" where
  "rt_tick_from_millisecond ms =
     (if ms < 0 then Some (- 1)
      else if 1000 * ms + 999 < 2 ^ 31 then Some ((1000 * ms + 999) div 1000)
      else None)"

definition rt_thread_mdelay :: "int \<Rightarrow> kernel \<Rightarrow> (kernel \<times> outcome) option" where
  "rt_thread_mdelay ms k = do {
     tick \<leftarrow> rt_tick_from_millisecond ms;
     rt_thread_sleep (of_int tick) k
   }"

subsection \<open>Control\<close>

datatype thread_cmd =
  RT_THREAD_CTRL_CHANGE_PRIORITY rt_uint8 | RT_THREAD_CTRL_STARTUP | RT_THREAD_CTRL_CLOSE
| ThreadCmdOther nat

definition change_priority :: "tid \<Rightarrow> rt_uint8 \<Rightarrow> kernel \<Rightarrow> kernel option" where
  "change_priority t p k =
     (if thread_state (k_thread k t) = RT_THREAD_READY then do {
        k \<leftarrow> rt_schedule_remove_thread t k;
        k \<leftarrow> set_priority t p k;
        rt_schedule_insert_thread t k
      }
      else set_priority t p k)"

fun rt_thread_control :: "tid \<Rightarrow> thread_cmd \<Rightarrow> kernel \<Rightarrow> (kernel \<times> rt_err) option" where
  "rt_thread_control t (RT_THREAD_CTRL_CHANGE_PRIORITY p) k =
     map_option (\<lambda>k. (k, RT_EOK)) (change_priority t p k)"
| "rt_thread_control t RT_THREAD_CTRL_STARTUP k = rt_thread_startup t k"
| "rt_thread_control t RT_THREAD_CTRL_CLOSE k = rt_thread_delete t k"
| "rt_thread_control t (ThreadCmdOther _) k = Some (k, RT_EOK)"

subsection \<open>Lookup by name\<close>

definition cstr :: "rt_uint8 list \<Rightarrow> cstring" where
  "cstr xs = (\<lambda>i. if i < length xs then xs ! i else 0)"

definition container_find :: "obj_class \<Rightarrow> cstring \<Rightarrow> kernel \<Rightarrow> oref option" where
  "container_find c nm k =
     find (\<lambda>ob. rt_strncmp (cstr (obj_name (k_object k ob))) nm RT_NAME_MAX = 0)
       (ls_nodes (k_containers k) c)"

definition rt_object_find :: "cstring option \<Rightarrow> rt_uint8 \<Rightarrow> kernel \<Rightarrow> (kernel \<times> oref option) option" where
  "rt_object_find nm ty k =
     (case nm of
        None \<Rightarrow> Some (k, None)
      | Some nm \<Rightarrow>
          if class_code RT_Object_Class_Unknown < ty then Some (k, None)
          else if rt_interrupt_nest k \<noteq> 0 then None
          else do {
            let k = rt_enter_critical k;
            c \<leftarrow> rt_object_get_information ty;
            let r = container_find c nm k;
            map_option (\<lambda>k. (k, r)) (rt_exit_critical k)
          })"

definition rt_thread_find :: "cstring \<Rightarrow> kernel \<Rightarrow> (kernel \<times> oref option) option" where
  "rt_thread_find nm k = do {
     let k = (if rt_thread_self k \<noteq> None then rt_enter_critical k else k);
     c \<leftarrow> rt_object_get_information (class_code RT_Object_Class_Thread);
     let r = container_find c nm k;
     map_option (\<lambda>k. (k, r)) (if rt_thread_self k \<noteq> None then rt_exit_critical k else Some k)
   }"

lemmas thread_defs = rt_thread_suspend_def rt_thread_resume_def rt_thread_timeout_def
  rt_timer_start_def set_priority_def tlist_init_def rt_thread_init'_def rt_thread_init_def
  rt_thread_create_def rt_thread_startup_def thread_unready_def rt_thread_detach_def
  rt_thread_delete_def rt_thread_exit_def has_neighbour_def rt_thread_yield_def
  rt_thread_sleep_def rt_thread_sleep_leave_def rt_thread_mdelay_def change_priority_def
  rt_thread_self_def rt_object_find_def rt_thread_find_def container_find_def cstr_def

declare thread_defs [op_defs]

subsection \<open>What the thread operations leave alone\<close>

text \<open>The IPC objects, the tick and the nesting counters.\<close>

definition keeps :: "kernel \<Rightarrow> kernel \<Rightarrow> bool" where
  "keeps k k' \<longleftrightarrow> k_sem k' = k_sem k \<and> k_mutex k' = k_mutex k \<and> k_event k' = k_event k \<and>
     k_mb k' = k_mb k \<and> k_mq k' = k_mq k \<and> rt_tick k' = rt_tick k \<and>
     rt_scheduler_lock_nest k' = rt_scheduler_lock_nest k \<and> rt_interrupt_nest k' = rt_interrupt_nest k"

lemma keeps_refl [simp, intro]: "keeps k k"
  by (simp add: keeps_def)

lemma keeps_trans [trans]: "keeps k k' \<Longrightarrow> keeps k' k'' \<Longrightarrow> keeps k k''"
  by (simp add: keeps_def)

lemma keeps_simps [simp]:
  "keeps (k\<lparr>k_tlist := L\<rparr>) k' = keeps k k'" "keeps k (k'\<lparr>k_tlist := L\<rparr>) = keeps k k'"
  "keeps (k\<lparr>k_rows := R\<rparr>) k' = keeps k k'" "keeps k (k'\<lparr>k_rows := R\<rparr>) = keeps k k'"
  "keeps (k\<lparr>k_thread := T\<rparr>) k' = keeps k k'" "keeps k (k'\<lparr>k_thread := T\<rparr>) = keeps k k'"
  "keeps (k\<lparr>k_timer := M\<rparr>) k' = keeps k k'" "keeps k (k'\<lparr>k_timer := M\<rparr>) = keeps k k'"
  "keeps (k\<lparr>k_object := b\<rparr>) k' = keeps k k'" "keeps k (k'\<lparr>k_object := b\<rparr>) = keeps k k'"
  "keeps (k\<lparr>k_containers := C\<rparr>) k' = keeps k k'" "keeps k (k'\<lparr>k_containers := C\<rparr>) = keeps k k'"
  "keeps (k\<lparr>rt_thread_ready_priority_group := g\<rparr>) k' = keeps k k'"
  "keeps k (k'\<lparr>rt_thread_ready_priority_group := g\<rparr>) = keeps k k'"
  "keeps (k\<lparr>rt_current_thread := c\<rparr>) k' = keeps k k'" "keeps k (k'\<lparr>rt_current_thread := c\<rparr>) = keeps k k'"
  "keeps (k\<lparr>rt_current_priority := p\<rparr>) k' = keeps k k'" "keeps k (k'\<lparr>rt_current_priority := p\<rparr>) = keeps k k'"
  by (simp_all add: keeps_def)

lemma keeps_schedule [frame_simps]: "rt_schedule k = Some k' \<Longrightarrow> keeps k k'"
  using rt_schedule_frame by fastforce

lemma keeps_timer_stop [frame_simps]: "keeps k (fst (rt_timer_stop t k))"
  using rt_timer_stop_frame[of t k] by auto

lemma keeps_timer_enqueue [frame_simps]: "timer_enqueue t k = Some k' \<Longrightarrow> keeps k k'"
  using timer_enqueue_frame by fastforce

lemma keeps_remove [frame_simps]: "rt_schedule_remove_thread t k = Some k' \<Longrightarrow> keeps k k'"
  by (auto simp: rt_schedule_remove_thread_def tlist_remove_def Let_def split: if_splits)

lemma keeps_insert [frame_simps]: "rt_schedule_insert_thread t k = Some k' \<Longrightarrow> keeps k k'"
  by (auto simp: rt_schedule_insert_thread_def tlist_insert_before_def Let_def)

subsection \<open>The invariant of threads and their timers\<close>

text \<open>A thread's timer runs \<open>rt_thread_timeout\<close> on its own thread, once, from the hard
  list, and is linked only while the thread is suspended.\<close>

definition timer_link_ok :: "kernel \<Rightarrow> tid \<Rightarrow> bool" where
  "timer_link_ok k t \<longleftrightarrow> ls_on (k_rows k) (ThreadTimer t) = None \<or>
     ls_on (k_rows k) (ThreadTimer t) = Some HardTimers \<and>
     thread_state (k_thread k t) = RT_THREAD_SUSPEND"

definition thread_timers_ok :: "tid set \<Rightarrow> kernel \<Rightarrow> bool" where
  "thread_timers_ok X k \<longleftrightarrow> (\<forall>t. timeout_func (k_timer k (ThreadTimer t)) = ThreadTimeout t \<and>
     obj_flag (k_object k (OTimer (ThreadTimer t))) AND RT_TIMER_FLAG_PERIODIC = 0 \<and>
     obj_flag (k_object k (OTimer (ThreadTimer t))) AND RT_TIMER_FLAG_SOFT_TIMER = 0 \<and>
     (t \<notin> X \<longrightarrow> timer_link_ok k t))"

definition kinv_but :: "tid set \<Rightarrow> kernel \<Rightarrow> bool" where
  "kinv_but X k \<longleftrightarrow> sched_inv_but X k \<and> rows_inv k \<and> thread_timers_ok X k"

abbreviation kinv :: "kernel \<Rightarrow> bool" where "kinv \<equiv> kinv_but {}"

lemma kinvD:
  "kinv_but X k \<Longrightarrow> sched_inv_but X k" "kinv_but X k \<Longrightarrow> rows_inv k" "kinv_but X k \<Longrightarrow> thread_timers_ok X k"
  by (simp_all add: kinv_but_def)

lemma rows_inv_cong:
  "k_rows k' = k_rows k \<Longrightarrow> k_object k' = k_object k \<Longrightarrow> rows_inv k' = rows_inv k"
  by (simp add: rows_inv_def)

lemma thread_timers_cong:
  "k_rows k' = k_rows k \<Longrightarrow> k_object k' = k_object k \<Longrightarrow> k_timer k' = k_timer k \<Longrightarrow>
   (\<And>t. t \<notin> X \<Longrightarrow> thread_state (k_thread k' t) = thread_state (k_thread k t)) \<Longrightarrow>
   thread_timers_ok X k' = thread_timers_ok X k"
  by (auto simp: thread_timers_ok_def timer_link_ok_def)

lemma rt_timer_stop_fields:
  "k_tlist (fst (rt_timer_stop t k)) = k_tlist k" "k_thread (fst (rt_timer_stop t k)) = k_thread k"
  "rt_thread_ready_priority_group (fst (rt_timer_stop t k)) = rt_thread_ready_priority_group k"
  "k_timer (fst (rt_timer_stop t k)) = k_timer k" "rt_current_thread (fst (rt_timer_stop t k)) = rt_current_thread k"
  "k_containers (fst (rt_timer_stop t k)) = k_containers k"
  using rt_timer_stop_frame[of t k] by auto

lemma rt_timer_stop_rows:
  "rows_inv k \<Longrightarrow> ls_on (k_rows (fst (rt_timer_stop t k))) = (ls_on (k_rows k))(t := None)"
  using rt_timer_stop_unlinks[of k t]
  by (auto simp: rt_timer_stop_def row_remove_def fun_eq_iff split: if_splits)

lemma rt_timer_stop_flag:
  "obj_flag (k_object (fst (rt_timer_stop t k)) ob) AND RT_TIMER_FLAG_PERIODIC
     = obj_flag (k_object k ob) AND RT_TIMER_FLAG_PERIODIC"
  "obj_flag (k_object (fst (rt_timer_stop t k)) ob) AND RT_TIMER_FLAG_SOFT_TIMER
     = obj_flag (k_object k ob) AND RT_TIMER_FLAG_SOFT_TIMER"
  by (auto simp: rt_timer_stop_def row_remove_def)

text \<open>Stopping a thread's timer completes the invariant of its thread.\<close>

lemma kinv_timer_stop:
  assumes "kinv_but X k"
  shows "kinv_but X (fst (rt_timer_stop tm k))"
proof -
  have "sched_inv_but X (fst (rt_timer_stop tm k))"
    using kinvD(1)[OF assms] sched_inv_cong[OF rt_timer_stop_fields(1,2,3)] by blast
  moreover have "thread_timers_ok X (fst (rt_timer_stop tm k))"
    using kinvD(3)[OF assms]
    by (auto simp: thread_timers_ok_def timer_link_ok_def rt_timer_stop_rows[OF kinvD(2)[OF assms]]
        rt_timer_stop_fields rt_timer_stop_flag)
  ultimately show ?thesis
    using rt_timer_stop_rows_inv[OF kinvD(2)[OF assms]] by (simp add: kinv_but_def)
qed

lemma kinv_close:
  assumes "kinv_but {t} k" "place_ok (k_thread k t) (ls_on (k_tlist k) t)"
    "ls_on (k_rows k) (ThreadTimer t) = None"
  shows "kinv k"
proof -
  have "timer_link_ok k s" for s
    using kinvD(3)[OF assms(1)] assms(3)
    by (cases "s = t") (auto simp: thread_timers_ok_def timer_link_ok_def)
  then have "thread_timers_ok {} k"
    using kinvD(3)[OF assms(1)] by (auto simp: thread_timers_ok_def)
  then show ?thesis
    using sched_inv_close[OF kinvD(1)[OF assms(1)] assms(2)] kinvD(2)[OF assms(1)]
    by (simp add: kinv_but_def)
qed

lemma kinv_mono: "kinv_but X k \<Longrightarrow> X \<subseteq> Y \<Longrightarrow> kinv_but Y k"
  by (auto simp: kinv_but_def thread_timers_ok_def intro: sched_inv_mono)

text \<open>The two scheduler operations at this level.\<close>

lemma kinv_remove_thread:
  assumes inv: "kinv_but X k" and u: "unlink_ready_ok t k"
  obtains k' where "rt_schedule_remove_thread t k = Some k'"
    and "kinv_but (insert t X) k'"
    and "ls_on (k_tlist k') = (ls_on (k_tlist k))(t := None)"
    and "\<And>h. tlist_of k' h = remove1 t (tlist_of k h)"
    and "k' = k\<lparr>k_tlist := k_tlist k', rt_thread_ready_priority_group := rt_thread_ready_priority_group k'\<rparr>"
proof (rule remove_thread_spec[OF kinvD(1)[OF inv] u])
  fix k'
  assume r: "rt_schedule_remove_thread t k = Some k'" "sched_inv_but (insert t X) k'"
    "ls_on (k_tlist k') = (ls_on (k_tlist k))(t := None)"
    "\<And>h. tlist_of k' h = remove1 t (tlist_of k h)"
    and f: "k' = k\<lparr>k_tlist := k_tlist k', rt_thread_ready_priority_group := rt_thread_ready_priority_group k'\<rparr>"
  have e: "k_rows k' = k_rows k" "k_object k' = k_object k" "k_timer k' = k_timer k" "k_thread k' = k_thread k"
    by (subst f, simp)+
  have "rows_inv k'" "thread_timers_ok X k'"
    using kinvD(2,3)[OF inv] rows_inv_cong[OF e(1,2)] thread_timers_cong[OF e(1,2,3)] e(4) by simp_all
  then have "kinv_but (insert t X) k'"
    using r(2) by (auto simp: kinv_but_def thread_timers_ok_def)
  with r f show ?thesis using that by blast
qed

lemma kinv_insert_thread:
  assumes inv: "kinv_but X k" and off: "ls_on (k_tlist k) t = None"
    and mask: "number_mask (k_thread k t) = prio_mask (current_priority (k_thread k t))"
    and tm: "ls_on (k_rows k) (ThreadTimer t) = None"
  defines "p \<equiv> unat (current_priority (k_thread k t))"
  obtains k' where "rt_schedule_insert_thread t k = Some k'"
    and "kinv_but (X - {t}) k'"
    and "ls_on (k_tlist k') = (ls_on (k_tlist k))(t \<mapsto> ReadyQ p)"
    and "\<And>h. tlist_of k' h = (if h = ReadyQ p then tlist_of k h @ [t] else tlist_of k h)"
    and "k_thread k' = (k_thread k)(t := (k_thread k t)
           \<lparr>stat := RT_THREAD_READY OR (stat (k_thread k t) AND NOT RT_THREAD_STAT_MASK)\<rparr>)"
    and "k' = k\<lparr>k_tlist := k_tlist k', k_thread := k_thread k',
           rt_thread_ready_priority_group := rt_thread_ready_priority_group k'\<rparr>"
proof (rule insert_thread_spec[OF kinvD(1)[OF inv] off mask])
  fix k'
  assume r: "rt_schedule_insert_thread t k = Some k'" "sched_inv_but (X - {t}) k'"
    "ls_on (k_tlist k') = (ls_on (k_tlist k))(t \<mapsto> ReadyQ (unat (current_priority (k_thread k t))))"
    "\<And>h. tlist_of k' h = (if h = ReadyQ (unat (current_priority (k_thread k t))) then tlist_of k h @ [t] else tlist_of k h)"
    "k_thread k' = (k_thread k)(t := (k_thread k t)
           \<lparr>stat := RT_THREAD_READY OR (stat (k_thread k t) AND NOT RT_THREAD_STAT_MASK)\<rparr>)"
    and f: "k' = k\<lparr>k_tlist := k_tlist k', k_thread := k_thread k',
           rt_thread_ready_priority_group := rt_thread_ready_priority_group k'\<rparr>"
  have e: "k_rows k' = k_rows k" "k_object k' = k_object k" "k_timer k' = k_timer k"
    by (subst f, simp)+
  have "timer_link_ok k' s" if "s \<notin> X - {t}" for s
    using that kinvD(3)[OF inv] tm by (cases "s = t") (auto simp: timer_link_ok_def e r(5) thread_timers_ok_def)
  then have "thread_timers_ok (X - {t}) k'"
    using kinvD(3)[OF inv] by (auto simp: thread_timers_ok_def e)
  moreover have "rows_inv k'" using kinvD(2)[OF inv] rows_inv_cong[OF e(1,2)] by simp
  ultimately have "kinv_but (X - {t}) k'" using r(2) by (simp add: kinv_but_def)
  with r f show ?thesis using that by (auto simp: p_def)
qed

lemma kinv_upd_thread:
  assumes "kinv_but X k" "prio_ok (f (k_thread k t))"
  shows "kinv_but (insert t X) (upd_thread t f k)"
proof -
  have "sched_inv_but (insert t X) (upd_thread t f k)"
    using sched_inv_mono[OF kinvD(1)[OF assms(1)]] assms(2) by (intro sched_inv_upd_thread) auto
  moreover have "thread_timers_ok (insert t X) (upd_thread t f k)"
    using kinvD(3)[OF assms(1)] by (auto simp: thread_timers_ok_def timer_link_ok_def)
  ultimately show ?thesis
    using kinvD(2)[OF assms(1)] by (simp add: kinv_but_def rows_inv_def)
qed

text \<open>Changing fields no invariant reads.\<close>

lemma kinv_upd_thread_same:
  assumes "kinv_but X k"
    and "current_priority (f (k_thread k t)) = current_priority (k_thread k t)"
    and "init_priority (f (k_thread k t)) = init_priority (k_thread k t)"
    and "number_mask (f (k_thread k t)) = number_mask (k_thread k t)"
    and "stat (f (k_thread k t)) = stat (k_thread k t)"
  shows "kinv_but X (upd_thread t f k)"
  using kinvD[OF assms(1)] sched_inv_upd_thread_same[where f = f and t = t, OF kinvD(1)[OF assms(1)] assms(2-5)] assms(5)
  by (simp add: kinv_but_def rows_inv_def thread_timers_ok_def timer_link_ok_def)

lemma unlink_ready_ok_cong:
  "k_tlist k' = k_tlist k \<Longrightarrow> current_priority (k_thread k' t) = current_priority (k_thread k t) \<Longrightarrow>
   number_mask (k_thread k' t) = number_mask (k_thread k t) \<Longrightarrow> unlink_ready_ok t k' = unlink_ready_ok t k"
  by (simp add: unlink_ready_ok_def)

text \<open>Unlinking a thread that is not on a ready list.\<close>

lemma kinv_tlist_remove:
  assumes inv: "kinv_but X k" and off: "\<And>q. t \<notin> set (tlist_of k (ReadyQ q))"
  shows "kinv_but (insert t X) (tlist_remove t k)"
proof -
  note wf = sched_inv_wf[OF kinvD(1)[OF inv]]
  have "bitmap_ok (tlist_remove t k)"
    using kinvD(1)[OF inv] off
    by (simp add: bitmap_ok_def tlist_remove_def ls_nodes_remove[OF wf] sched_inv_but_def remove1_idem)
  then show ?thesis
    using inv by (auto simp: kinv_but_def sched_inv_but_def tlist_remove_def rows_inv_def
        thread_timers_ok_def timer_link_ok_def)
qed

lemma not_on_ready:
  assumes "sched_inv_but X k" "t \<notin> X" "thread_state (k_thread k t) \<noteq> RT_THREAD_READY"
  shows "t \<notin> set (tlist_of k (ReadyQ q))"
proof
  assume "t \<in> set (tlist_of k (ReadyQ q))"
  then have "ls_on (k_tlist k) t = Some (ReadyQ q)"
    using ls_wf_on[OF sched_inv_wf[OF assms(1)]] by simp
  then show False using sched_inv_place[OF assms(1,2)] assms(3) by simp
qed

subsection \<open>Suspend, resume and timeout\<close>

text \<open>A suspended thread is off every list and its timer is stopped.\<close>

lemma suspend_ready:
  assumes inv: "kinv k" and st: "thread_state (k_thread k t) = RT_THREAD_READY"
  obtains k' where "rt_thread_suspend t k = Some (k', RT_EOK)"
    and "kinv k'"
    and "ls_on (k_tlist k') = (ls_on (k_tlist k))(t := None)"
    and "\<And>h. tlist_of k' h = remove1 t (tlist_of k h)"
    and "k_thread k' = (k_thread k)(t := (k_thread k t)
           \<lparr>stat := RT_THREAD_SUSPEND OR (stat (k_thread k t) AND NOT RT_THREAD_STAT_MASK)\<rparr>)"
    and "ls_on (k_rows k') = (ls_on (k_rows k))(ThreadTimer t := None)"
    and "k_timer k' = k_timer k" and "keeps k k'"
    and "rt_current_thread k' = rt_current_thread k" and "k_containers k' = k_containers k"
proof -
  let ?f = "\<lambda>th. th\<lparr>stat := RT_THREAD_SUSPEND OR (stat th AND NOT RT_THREAD_STAT_MASK)\<rparr>"
  let ?k1 = "upd_thread t ?f k"
  have pr: "prio_ok (?f (k_thread k t))"
    using sched_inv_prio[OF kinvD(1)[OF inv], of t] st by (auto simp: prio_ok_def)
  have k1: "kinv_but {t} ?k1" using kinv_upd_thread[where f = ?f, OF inv pr] by simp
  have "unlink_ready_ok t ?k1"
    using unlink_ready_okI[OF kinvD(1)[OF inv], of t] by (simp add: unlink_ready_ok_def)
  then obtain k2 where k2: "rt_schedule_remove_thread t ?k1 = Some k2" "kinv_but {t} k2"
    "ls_on (k_tlist k2) = (ls_on (k_tlist k))(t := None)" "\<And>h. tlist_of k2 h = remove1 t (tlist_of k h)"
    and f: "k2 = ?k1\<lparr>k_tlist := k_tlist k2, rt_thread_ready_priority_group := rt_thread_ready_priority_group k2\<rparr>"
    by (rule kinv_remove_thread[OF k1]) simp
  have e: "k_thread k2 = (k_thread k)(t := ?f (k_thread k t))" "k_rows k2 = k_rows k" "k_timer k2 = k_timer k"
    "rt_current_thread k2 = rt_current_thread k" "k_containers k2 = k_containers k" "keeps k k2"
    by (subst f, simp)+
  let ?k3 = "fst (rt_timer_stop (ThreadTimer t) k2)"
  note r3 = rt_timer_stop_rows[OF kinvD(2)[OF k2(2)], of "ThreadTimer t"]
  have "kinv ?k3"
  proof (rule kinv_close)
    show "kinv_but {t} ?k3" by (rule kinv_timer_stop[OF k2(2)])
    show "place_ok (k_thread ?k3 t) (ls_on (k_tlist ?k3) t)"
      by (simp add: rt_timer_stop_fields k2(3) e(1))
    show "ls_on (k_rows ?k3) (ThreadTimer t) = None" by (simp add: r3)
  qed
  moreover have "rt_thread_suspend t k = Some (?k3, RT_EOK)"
    using st k2(1) by (simp add: rt_thread_suspend_def Let_def del: upd_thread_def)
  moreover have "keeps k ?k3" using keeps_trans[OF e(6) keeps_timer_stop] .
  ultimately show ?thesis
    by (intro that[of ?k3]) (simp_all add: rt_timer_stop_fields k2 e r3)
qed

lemma suspend_not_ready:
  "thread_state (k_thread k t) \<noteq> RT_THREAD_READY \<Longrightarrow> rt_thread_suspend t k = Some (k, - RT_ERROR)"
  by (simp add: rt_thread_suspend_def)

text \<open>A resumed thread is the last of the ready list of its priority and its timer is stopped.\<close>

lemma resume_suspended:
  assumes inv: "kinv k" and st: "thread_state (k_thread k t) = RT_THREAD_SUSPEND"
  defines "p \<equiv> unat (current_priority (k_thread k t))"
  obtains k' where "rt_thread_resume t k = Some (k', RT_EOK)"
    and "kinv k'"
    and "ls_on (k_tlist k') = (ls_on (k_tlist k))(t \<mapsto> ReadyQ p)"
    and "\<And>h. tlist_of k' h = (if h = ReadyQ p then tlist_of k h @ [t] else remove1 t (tlist_of k h))"
    and "k_thread k' = (k_thread k)(t := (k_thread k t)
           \<lparr>stat := RT_THREAD_READY OR (stat (k_thread k t) AND NOT RT_THREAD_STAT_MASK)\<rparr>)"
    and "ls_on (k_rows k') = (ls_on (k_rows k))(ThreadTimer t := None)"
    and "k_timer k' = k_timer k" and "keeps k k'"
    and "rt_current_thread k' = rt_current_thread k" and "k_containers k' = k_containers k"
proof -
  let ?k1 = "tlist_remove t k"
  let ?k2 = "fst (rt_timer_stop (ThreadTimer t) ?k1)"
  note wf = sched_inv_wf[OF kinvD(1)[OF inv]]
  have k1: "kinv_but {t} ?k1"
    by (rule kinv_tlist_remove[OF inv]) (rule not_on_ready[OF kinvD(1)[OF inv]], simp_all add: st)
  have k2: "kinv_but {t} ?k2" by (rule kinv_timer_stop[OF k1])
  have r2: "ls_on (k_rows ?k2) = (ls_on (k_rows k))(ThreadTimer t := None)"
    using rt_timer_stop_rows[OF kinvD(2)[OF k1]] by (simp add: tlist_remove_def)
  have e2: "k_thread ?k2 = k_thread k" "k_tlist ?k2 = ls_remove t (k_tlist k)" "k_timer ?k2 = k_timer k"
    "rt_current_thread ?k2 = rt_current_thread k" "k_containers ?k2 = k_containers k"
    by (simp_all add: rt_timer_stop_fields tlist_remove_def)
  have kp: "keeps k ?k2" using keeps_timer_stop[of ?k1] by (simp add: tlist_remove_def)
  have mask: "number_mask (k_thread ?k2 t) = prio_mask (current_priority (k_thread ?k2 t))"
    using sched_inv_prio[OF kinvD(1)[OF inv], of t] st by (simp add: e2 prio_ok_def)
  let ?q = "unat (current_priority (k_thread ?k2 t))"
  have p2: "p = unat (current_priority (k_thread ?k2 t))" by (simp add: p_def e2)
  have off2: "ls_on (k_tlist ?k2) t = None" and tm2: "ls_on (k_rows ?k2) (ThreadTimer t) = None"
    by (simp_all add: e2 r2)
  obtain k' where k': "rt_schedule_insert_thread t ?k2 = Some k'" "kinv_but ({t} - {t}) k'"
    "ls_on (k_tlist k') = (ls_on (k_tlist ?k2))(t \<mapsto> ReadyQ ?q)"
    "\<And>h. tlist_of k' h = (if h = ReadyQ ?q then tlist_of ?k2 h @ [t] else tlist_of ?k2 h)"
    "k_thread k' = (k_thread ?k2)(t := (k_thread ?k2 t)
           \<lparr>stat := RT_THREAD_READY OR (stat (k_thread ?k2 t) AND NOT RT_THREAD_STAT_MASK)\<rparr>)"
    and f: "k' = ?k2\<lparr>k_tlist := k_tlist k', k_thread := k_thread k',
           rt_thread_ready_priority_group := rt_thread_ready_priority_group k'\<rparr>"
    by (rule kinv_insert_thread[OF k2 off2 mask tm2]) (rule that)
  have e: "k_rows k' = k_rows ?k2" "k_timer k' = k_timer ?k2"
    "rt_current_thread k' = rt_current_thread ?k2" "k_containers k' = k_containers ?k2" "keeps ?k2 k'"
    by (subst f, simp)+
  have "t \<notin> set (tlist_of k (ReadyQ p))"
    by (rule not_on_ready[OF kinvD(1)[OF inv]]) (simp_all add: st)
  then have nodes: "tlist_of k' h = (if h = ReadyQ p then tlist_of k h @ [t] else remove1 t (tlist_of k h))" for h
    by (simp add: k'(4)[folded p2] e2(2) ls_nodes_remove[OF wf] remove1_idem)
  have "rt_thread_resume t k = Some (k', RT_EOK)"
    using st k'(1) by (simp add: rt_thread_resume_def Let_def)
  moreover have "keeps k k'" using keeps_trans[OF kp e(5)] .
  ultimately show ?thesis
    using k'(2) nodes by (intro that[of k']) (simp_all add: k'(3)[folded p2] k'(5) e e2 r2)
qed

lemma kinv_schedule [inv_intro]:
  assumes "kinv_but X k" "rt_schedule k = Some k'"
  shows "kinv_but X k'"
proof -
  obtain p c where k': "k' = k\<lparr>rt_current_priority := p, rt_current_thread := c\<rparr>"
    using rt_schedule_frame[OF assms(2)] by blast
  show ?thesis
    using assms(1) unfolding k' kinv_but_def sched_inv_but_def bitmap_ok_def rows_inv_def
      thread_timers_ok_def timer_link_ok_def by simp
qed

lemma schedule_fields:
  assumes "rt_schedule k = Some k'"
  shows "k_tlist k' = k_tlist k" "k_thread k' = k_thread k" "k_rows k' = k_rows k"
    "k_timer k' = k_timer k" "k_object k' = k_object k" "k_containers k' = k_containers k"
  using rt_schedule_frame[OF assms] by auto

lemma schedule_current:
  "rt_schedule k = Some k' \<Longrightarrow> rt_current_thread k \<noteq> None \<Longrightarrow> rt_current_thread k' \<noteq> None"
  by (auto simp: rt_schedule_def split: if_splits option.splits)

lemma ready_place:
  assumes "sched_inv k" "thread_state (k_thread k t) = RT_THREAD_READY"
  shows "ls_on (k_tlist k) t = Some (ReadyQ (unat (current_priority (k_thread k t))))"
proof -
  have "place_ok (k_thread k t) (ls_on (k_tlist k) t)" using sched_inv_place[OF assms(1)] by simp
  then show ?thesis using assms(2)
    by (cases "(k_thread k t, ls_on (k_tlist k) t)" rule: place_ok.cases) auto
qed

lemma ready_some_ready:
  assumes "sched_inv k" "thread_state (k_thread k t) = RT_THREAD_READY"
  shows "some_ready k"
proof -
  have "t \<in> set (tlist_of k (ReadyQ (unat (current_priority (k_thread k t)))))"
    using ready_place[OF assms] ls_wf_on[OF sched_inv_wf[OF assms(1)]] by simp
  moreover have "unat (current_priority (k_thread k t)) < 32"
    using sched_inv_prio[OF assms(1)] by (simp add: prio_ok_def)
  ultimately show ?thesis by (auto simp: some_ready_def)
qed

lemma schedule_ready:
  assumes "kinv k" "thread_state (k_thread k s) = RT_THREAD_READY" "rt_current_thread k \<noteq> None"
  obtains k' where "rt_schedule k = Some k'" "kinv k'" "keeps k k'" "rt_current_thread k' \<noteq> None"
    "k_tlist k' = k_tlist k" "k_thread k' = k_thread k" "k_rows k' = k_rows k"
    "k_timer k' = k_timer k" "k_object k' = k_object k" "k_containers k' = k_containers k"
    "rt_scheduler_lock_nest k = 0 \<Longrightarrow> highest_runs k'"
proof -
  obtain k' where k': "rt_schedule k = Some k'"
    using rt_schedule_total[OF kinvD(1)[OF assms(1)] ready_some_ready[OF kinvD(1)[OF assms(1)] assms(2)] assms(3)]
    by blast
  have "bitmap_ok k" using kinvD(1)[OF assms(1)] by (simp add: sched_inv_but_def)
  then show ?thesis
    using that[OF k' kinv_schedule[OF assms(1) k'] keeps_schedule[OF k'] schedule_current[OF k' assms(3)]
        schedule_fields[OF k']] rt_schedule_runs[OF _ k'] by blast
qed

text \<open>A wait that times out: the timer has already been taken off its list.\<close>

lemma timeout_suspended:
  assumes inv: "kinv k" and st: "thread_state (k_thread k t) = RT_THREAD_SUSPEND"
    and tm: "ls_on (k_rows k) (ThreadTimer t) = None" and cur: "rt_current_thread k \<noteq> None"
  defines "p \<equiv> unat (current_priority (k_thread k t))"
  obtains k' where "rt_thread_timeout t k = Some k'" "kinv k'" "keeps k k'"
    "rt_current_thread k' \<noteq> None" "k_rows k' = k_rows k" "k_timer k' = k_timer k" "k_object k' = k_object k"
    "k_containers k' = k_containers k"
    "ls_on (k_tlist k') = (ls_on (k_tlist k))(t \<mapsto> ReadyQ p)"
    "\<And>h. tlist_of k' h = (if h = ReadyQ p then tlist_of k h @ [t] else remove1 t (tlist_of k h))"
    "k_thread k' = (k_thread k)(t := (k_thread k t)\<lparr>th_error := - RT_ETIMEOUT,
       stat := RT_THREAD_READY OR (stat (k_thread k t) AND NOT RT_THREAD_STAT_MASK)\<rparr>)"
proof -
  let ?k1 = "upd_thread t (\<lambda>th. th\<lparr>th_error := - RT_ETIMEOUT\<rparr>) k"
  let ?k2 = "tlist_remove t ?k1"
  note wf = sched_inv_wf[OF kinvD(1)[OF inv]]
  have off: "t \<notin> set (tlist_of k (ReadyQ q))" for q
    by (rule not_on_ready[OF kinvD(1)[OF inv]]) (simp_all add: st)
  have k1: "kinv ?k1" by (rule kinv_upd_thread_same[OF inv]) simp_all
  have k2: "kinv_but {t} ?k2" by (rule kinv_tlist_remove[OF k1]) (use off in simp)
  have e2: "k_thread ?k2 = (k_thread k)(t := (k_thread k t)\<lparr>th_error := - RT_ETIMEOUT\<rparr>)"
    "k_tlist ?k2 = ls_remove t (k_tlist k)" "k_rows ?k2 = k_rows k" "k_timer ?k2 = k_timer k"
    "k_object ?k2 = k_object k" "k_containers ?k2 = k_containers k"
    "rt_current_thread ?k2 = rt_current_thread k" "keeps k ?k2"
    by (simp_all add: tlist_remove_def)
  let ?q = "unat (current_priority (k_thread ?k2 t))"
  have p2: "p = ?q" by (simp add: p_def tlist_remove_def)
  have mask: "number_mask (k_thread ?k2 t) = prio_mask (current_priority (k_thread ?k2 t))"
    using sched_inv_prio[OF kinvD(1)[OF inv], of t] st by (simp add: tlist_remove_def prio_ok_def)
  have off2: "ls_on (k_tlist ?k2) t = None" and tm2: "ls_on (k_rows ?k2) (ThreadTimer t) = None"
    by (simp_all add: tlist_remove_def tm)
  obtain k3 where k3: "rt_schedule_insert_thread t ?k2 = Some k3" "kinv_but ({t} - {t}) k3"
    "ls_on (k_tlist k3) = (ls_on (k_tlist ?k2))(t \<mapsto> ReadyQ ?q)"
    "\<And>h. tlist_of k3 h = (if h = ReadyQ ?q then tlist_of ?k2 h @ [t] else tlist_of ?k2 h)"
    "k_thread k3 = (k_thread ?k2)(t := (k_thread ?k2 t)
           \<lparr>stat := RT_THREAD_READY OR (stat (k_thread ?k2 t) AND NOT RT_THREAD_STAT_MASK)\<rparr>)"
    and f: "k3 = ?k2\<lparr>k_tlist := k_tlist k3, k_thread := k_thread k3,
           rt_thread_ready_priority_group := rt_thread_ready_priority_group k3\<rparr>"
    by (rule kinv_insert_thread[OF k2 off2 mask tm2]) (rule that)
  have e3: "k_rows k3 = k_rows ?k2" "k_timer k3 = k_timer ?k2" "k_object k3 = k_object ?k2"
    "rt_current_thread k3 = rt_current_thread ?k2" "k_containers k3 = k_containers ?k2" "keeps ?k2 k3"
    by (subst f, simp)+
  have inv3: "kinv k3" using k3(2) by simp
  have nodes: "tlist_of k3 h = (if h = ReadyQ p then tlist_of k h @ [t] else remove1 t (tlist_of k h))" for h
    by (simp add: k3(4)[folded p2] tlist_remove_def ls_nodes_remove[OF wf] remove1_idem off)
  have st3: "thread_state (k_thread k3 t) = RT_THREAD_READY" and cur3: "rt_current_thread k3 \<noteq> None"
    using cur by (simp_all add: k3(5) e3 tlist_remove_def)
  obtain k' where k': "rt_schedule k3 = Some k'" "kinv k'" "keeps k3 k'" "rt_current_thread k' \<noteq> None"
    "k_tlist k' = k_tlist k3" "k_thread k' = k_thread k3" "k_rows k' = k_rows k3"
    "k_timer k' = k_timer k3" "k_object k' = k_object k3" "k_containers k' = k_containers k3"
    by (rule schedule_ready[OF inv3 st3 cur3])
  have "rt_thread_timeout t k = Some k'"
    using st k3(1) k'(1) by (simp add: rt_thread_timeout_def Let_def del: upd_thread_def)
  moreover have "keeps k k'" using keeps_trans[OF keeps_trans[OF e2(8) e3(6)] k'(3)] .
  ultimately show ?thesis
    by (rule that[OF _ k'(2) _ k'(4)])
      (simp_all add: k' e3 tlist_remove_def k3(3)[folded p2] k3(5) nodes)
qed

end
