(* ===== verification/Rtt_Thread_Inv.thy ===== *)
theory Rtt_Thread_Inv
  imports Rtt_Thread
begin

text \<open>
  The thread operations keep the invariant \<open>kinv\<close> and return: for each operation of
  \<open>Rtt_Thread\<close>, what it does to the place of the threads and to their timers.
\<close>

subsection \<open>Starting a thread's timer\<close>

lemma timer_thead_thread:
  "thread_timers_ok X k \<Longrightarrow> timer_thead (ThreadTimer t) k = HardTimers"
  by (simp add: timer_thead_def thread_timers_ok_def)

lemma or_and_flags:
  "((f AND NOT 1) OR 1) AND 2 = f AND (2 :: rt_uint8)" "((f AND NOT 1) OR 1) AND 4 = f AND (4 :: rt_uint8)"
  by (simp_all add: bit.conj_disj_distrib2 and.assoc)

lemma timer_enqueue_flags:
  assumes "ls_wf (k_rows k)" "timer_enqueue tm k = Some k'"
  shows "obj_flag (k_object k' ob) AND RT_TIMER_FLAG_PERIODIC = obj_flag (k_object k ob) AND RT_TIMER_FLAG_PERIODIC"
    and "obj_flag (k_object k' ob) AND RT_TIMER_FLAG_SOFT_TIMER = obj_flag (k_object k ob) AND RT_TIMER_FLAG_SOFT_TIMER"
  unfolding timer_enqueue_rows(5)[OF assms] by (cases "ob = OTimer tm"; simp only: or_and_flags if_True if_False)+

lemma timer_enqueue_fields:
  assumes "timer_enqueue tm k = Some k'"
  shows "k_tlist k' = k_tlist k" "k_thread k' = k_thread k" "rt_current_thread k' = rt_current_thread k"
    "k_containers k' = k_containers k" "rt_thread_ready_priority_group k' = rt_thread_ready_priority_group k"
    "keeps k k'"
  using timer_enqueue_frame[OF assms] keeps_timer_enqueue[OF assms] by auto

text \<open>Linking a timer keeps the invariant when a thread's timer is started only for a suspended
  thread.\<close>

lemma kinv_timer_enqueue:
  assumes inv: "kinv k" and run: "timer_enqueue tm k = Some k'"
    and own: "\<And>t. tm = ThreadTimer t \<Longrightarrow> thread_state (k_thread k t) = RT_THREAD_SUSPEND"
  shows "kinv k'"
proof -
  have wf: "ls_wf (k_rows k)" using kinvD(2)[OF inv] by (simp add: rows_inv_def)
  note f = timer_enqueue_fields[OF run] and r = timer_enqueue_rows[OF wf run]
  have "sched_inv k'" using kinvD(1)[OF inv] sched_inv_cong[OF f(1,2,5)] by simp
  moreover have "rows_inv k'" by (rule timer_enqueue_rows_inv[OF kinvD(2)[OF inv] run])
  moreover have "thread_timers_ok {} k'"
    unfolding thread_timers_ok_def
  proof (intro allI conjI impI)
    fix t
    note ok = kinvD(3)[OF inv, unfolded thread_timers_ok_def, rule_format, of t]
    show "timeout_func (k_timer k' (ThreadTimer t)) = ThreadTimeout t" using ok by (auto simp: r(4))
    show "obj_flag (k_object k' (OTimer (ThreadTimer t))) AND RT_TIMER_FLAG_PERIODIC = 0"
      using ok timer_enqueue_flags(1)[OF wf run] by simp
    show "obj_flag (k_object k' (OTimer (ThreadTimer t))) AND RT_TIMER_FLAG_SOFT_TIMER = 0"
      using ok timer_enqueue_flags(2)[OF wf run] by simp
    show "timer_link_ok k' t"
      using ok own[of t] timer_thead_thread[OF kinvD(3)[OF inv]]
      by (auto simp: timer_link_ok_def r(1) f(2))
  qed
  ultimately show ?thesis by (simp add: kinv_but_def)
qed

lemma start_thread_timer:
  assumes inv: "kinv k" and st: "thread_state (k_thread k t) = RT_THREAD_SUSPEND"
    and small: "tm_init_tick (k_timer k (ThreadTimer t)) < RT_TICK_HALF"
  obtains k' where "rt_timer_start (ThreadTimer t) k = Some (k', RT_EOK)" "kinv k'" "keeps k k'"
    "k_tlist k' = k_tlist k" "k_thread k' = k_thread k" "rt_current_thread k' = rt_current_thread k"
    "k_containers k' = k_containers k"
    "ls_on (k_rows k') = (ls_on (k_rows k))(ThreadTimer t \<mapsto> HardTimers)"
    "timeout_tick (k_timer k' (ThreadTimer t)) = rt_tick k + tm_init_tick (k_timer k (ThreadTimer t))"
proof -
  have wf: "ls_wf (k_rows k)" using kinvD(2)[OF inv] by (simp add: rows_inv_def)
  obtain k' where k': "timer_enqueue (ThreadTimer t) k = Some k'"
    using timer_enqueue_total[OF wf small] by blast
  note f = timer_enqueue_fields[OF k'] and r = timer_enqueue_rows[OF wf k']
  have inv': "kinv k'" by (rule kinv_timer_enqueue[OF inv k']) (use st in auto)
  have soft: "obj_flag (k_object k' (OTimer (ThreadTimer t))) AND RT_TIMER_FLAG_SOFT_TIMER = 0"
    using kinvD(3)[OF inv'] by (simp add: thread_timers_ok_def)
  have run: "rt_timer_start (ThreadTimer t) k = Some (k', RT_EOK)"
    using k' soft by (simp add: rt_timer_start_def)
  show ?thesis
    by (rule that[OF run inv' f(6) f(1) f(2) f(3) f(4)])
      (simp_all add: r(1,4) timer_thead_thread[OF kinvD(3)[OF inv]])
qed

lemma kinv_set_timer:
  assumes "kinv_but X k" "timeout_func (f (k_timer k tm)) = timeout_func (k_timer k tm)"
  shows "kinv_but X (upd_timer tm f k)"
  using assms by (auto simp: kinv_but_def sched_inv_but_def bitmap_ok_def rows_inv_def
      thread_timers_ok_def timer_link_ok_def)

subsection \<open>Sleeping\<close>

lemma sleep_spec:
  assumes inv: "kinv k" and cur: "rt_current_thread k = Some t"
    and st: "thread_state (k_thread k t) = RT_THREAD_READY"
    and idle: "thread_state (k_thread k s) = RT_THREAD_READY" "s \<noteq> t"
    and small: "tick < RT_TICK_HALF"
  obtains k' where "rt_thread_sleep tick k = Some (k', Wait)" "kinv k'" "keeps k k'"
    "ls_on (k_tlist k') t = None" "thread_state (k_thread k' t) = RT_THREAD_SUSPEND"
    "ls_on (k_rows k') (ThreadTimer t) = Some HardTimers"
    "timeout_tick (k_timer k' (ThreadTimer t)) = rt_tick k + tick"
    "rt_scheduler_lock_nest k = 0 \<Longrightarrow> highest_runs k'"
    "k_thread k' = (k_thread k)(t := (k_thread k t)
       \<lparr>stat := RT_THREAD_SUSPEND OR (stat (k_thread k t) AND NOT RT_THREAD_STAT_MASK)\<rparr>)"
    "rt_current_thread k' \<noteq> None"
proof -
  obtain k1 where k1: "rt_thread_suspend t k = Some (k1, RT_EOK)" "kinv k1"
    "ls_on (k_tlist k1) = (ls_on (k_tlist k))(t := None)"
    "k_thread k1 = (k_thread k)(t := (k_thread k t)
       \<lparr>stat := RT_THREAD_SUSPEND OR (stat (k_thread k t) AND NOT RT_THREAD_STAT_MASK)\<rparr>)"
    "keeps k k1" "rt_current_thread k1 = rt_current_thread k"
    by (rule suspend_ready[OF inv st])
  let ?k2 = "upd_timer (ThreadTimer t) (\<lambda>tm. tm\<lparr>tm_init_tick := tick\<rparr>) k1"
  have k2: "kinv ?k2" by (rule kinv_set_timer[OF k1(2)]) simp
  have st2: "thread_state (k_thread ?k2 t) = RT_THREAD_SUSPEND" by (simp add: k1(4))
  have small2: "tm_init_tick (k_timer ?k2 (ThreadTimer t)) < RT_TICK_HALF" using small by simp
  obtain k3 where k3: "rt_timer_start (ThreadTimer t) ?k2 = Some (k3, RT_EOK)" "kinv k3" "keeps ?k2 k3"
    "k_tlist k3 = k_tlist ?k2" "k_thread k3 = k_thread ?k2" "rt_current_thread k3 = rt_current_thread ?k2"
    "ls_on (k_rows k3) = (ls_on (k_rows ?k2))(ThreadTimer t \<mapsto> HardTimers)"
    "timeout_tick (k_timer k3 (ThreadTimer t)) = rt_tick ?k2 + tm_init_tick (k_timer ?k2 (ThreadTimer t))"
    by (rule start_thread_timer[OF k2 st2 small2])
  have st3: "thread_state (k_thread k3 s) = RT_THREAD_READY" using idle by (simp add: k3(5) k1(4))
  have cur3: "rt_current_thread k3 \<noteq> None" using cur by (simp add: k3(6) k1(6))
  obtain k4 where k4: "rt_schedule k3 = Some k4" "kinv k4" "keeps k3 k4" "rt_current_thread k4 \<noteq> None"
    "k_tlist k4 = k_tlist k3" "k_thread k4 = k_thread k3" "k_rows k4 = k_rows k3" "k_timer k4 = k_timer k3"
    "rt_scheduler_lock_nest k3 = 0 \<Longrightarrow> highest_runs k4"
    by (rule schedule_ready[OF k3(2) st3 cur3]) (rule that; assumption)
  have kp: "keeps k k3" using k1(5) k3(3) by (simp add: keeps_def)
  have "rt_thread_sleep tick k = Some (k4, Wait)"
    using cur k1(1) k3(1) k4(1) by (simp add: rt_thread_sleep_def)
  then show ?thesis
    by (rule that[OF _ k4(2) keeps_trans[OF kp k4(3)]])
      (use kp k1(5) k4(4,9) in \<open>simp_all add: k4(5-8) k3(4-8) k1(3,4) keeps_def\<close>)
qed

text \<open>After the switch back the timeout is not an error.\<close>

lemma sleep_leave_inv [inv_intro]: "kinv k \<Longrightarrow> kinv (fst (rt_thread_sleep_leave t k))"
  unfolding rt_thread_sleep_leave_def
  using kinv_upd_thread_same[of "{}" k "\<lambda>th. th\<lparr>th_error := RT_EOK\<rparr>" t] by auto

subsection \<open>Yielding\<close>

lemma has_neighbour_alone:
  assumes "kinv k" "thread_state (k_thread k t) = RT_THREAD_READY"
  defines "p \<equiv> unat (current_priority (k_thread k t))"
  shows "has_neighbour t k \<longleftrightarrow> tlist_of k (ReadyQ p) \<noteq> [t]"
proof -
  have on: "ls_on (k_tlist k) t = Some (ReadyQ p)"
    unfolding p_def by (rule ready_place[OF kinvD(1)[OF assms(1)] assms(2)])
  then have "t \<in> set (tlist_of k (ReadyQ p))"
    using ls_wf_on[OF sched_inv_wf[OF kinvD(1)[OF assms(1)]]] by simp
  then have "2 \<le> length (tlist_of k (ReadyQ p)) \<longleftrightarrow> tlist_of k (ReadyQ p) \<noteq> [t]"
    by (cases "tlist_of k (ReadyQ p)"; cases "tl (tlist_of k (ReadyQ p))") auto
  then show ?thesis by (simp add: has_neighbour_def on)
qed

text \<open>Moving a ready thread to the end of its list.\<close>

definition ready_rotated :: "tid \<Rightarrow> kernel \<Rightarrow> (qhead, tid) lstore" where
  "ready_rotated t k = (let h = ReadyQ (unat (current_priority (k_thread k t))) in
     \<lparr>ls_nodes = (ls_nodes (k_tlist k))(h := remove1 t (tlist_of k h) @ [t]),
      ls_on = ls_on (k_tlist k)\<rparr>)"

lemma rotate_run:
  assumes inv: "kinv k" and st: "thread_state (k_thread k t) = RT_THREAD_READY"
  shows "tlist_insert_before (ReadyQ (unat (current_priority (k_thread k t)))) t (tlist_remove t k)
    = Some (k\<lparr>k_tlist := ready_rotated t k\<rparr>)"
proof -
  let ?h = "ReadyQ (unat (current_priority (k_thread k t)))"
  have on: "ls_on (k_tlist k) t = Some ?h" by (rule ready_place[OF kinvD(1)[OF inv] st])
  have "ls_insert_before_head ?h t (ls_remove t (k_tlist k)) = Some (ready_rotated t k)"
    using on by (simp add: ls_insert_before_head_def ls_remove_def ready_rotated_def Let_def fun_upd_idem)
  then show ?thesis by (simp add: tlist_insert_before_def tlist_remove_def)
qed

lemma kinv_rotate:
  assumes inv: "kinv k" and st: "thread_state (k_thread k t) = RT_THREAD_READY"
  shows "kinv (k\<lparr>k_tlist := ready_rotated t k\<rparr>)"
proof -
  let ?h = "ReadyQ (unat (current_priority (k_thread k t)))"
  note wf = sched_inv_wf[OF kinvD(1)[OF inv]]
  have on: "ls_on (k_tlist k) t = Some ?h" by (rule ready_place[OF kinvD(1)[OF inv] st])
  then have t: "t \<in> set (tlist_of k ?h)" using wf by (simp add: ls_wf_on)
  have set: "set (remove1 t (tlist_of k ?h) @ [t]) = set (tlist_of k ?h)"
    using t ls_wf_distinct[OF wf, of ?h] by auto
  have "ls_wf (ready_rotated t k)"
    using wf set ls_wf_distinct[OF wf] unfolding ls_wf_def ready_rotated_def by (auto simp: Let_def)
  moreover have "bitmap_ok (k\<lparr>k_tlist := ready_rotated t k\<rparr>)"
    using kinvD(1)[OF inv] t unfolding sched_inv_but_def bitmap_ok_def
    by (auto simp: ready_rotated_def Let_def)
  ultimately show ?thesis
    using inv by (simp add: kinv_but_def sched_inv_but_def rows_inv_def thread_timers_ok_def
        timer_link_ok_def ready_rotated_def Let_def)
qed

lemma yield_spec:
  assumes inv: "kinv k" and cur: "rt_current_thread k = Some t"
    and rdy: "thread_state (k_thread k s) = RT_THREAD_READY"
  obtains k' where "rt_thread_yield k = Some (k', RT_EOK)" "kinv k'" "keeps k k'"
    "rt_current_thread k' \<noteq> None" "k_thread k' = k_thread k" "k_rows k' = k_rows k"
    "k_timer k' = k_timer k" "k_object k' = k_object k" "k_containers k' = k_containers k"
    "ls_on (k_tlist k') = ls_on (k_tlist k)"
    "thread_state (k_thread k t) = RT_THREAD_READY \<Longrightarrow> has_neighbour t k \<Longrightarrow> rt_scheduler_lock_nest k = 0 \<Longrightarrow> highest_runs k'"
    "thread_state (k_thread k t) = RT_THREAD_READY \<Longrightarrow> k_tlist k' = ready_rotated t k"
proof (cases "thread_state (k_thread k t) = RT_THREAD_READY \<and> has_neighbour t k")
  case True
  let ?k1 = "k\<lparr>k_tlist := ready_rotated t k\<rparr>"
  have inv1: "kinv ?k1" using True by (intro kinv_rotate[OF inv]) simp
  have rdy1: "thread_state (k_thread ?k1 s) = RT_THREAD_READY" and cur1: "rt_current_thread ?k1 \<noteq> None"
    using rdy cur by simp_all
  obtain k' where k': "rt_schedule ?k1 = Some k'" "kinv k'" "keeps ?k1 k'" "rt_current_thread k' \<noteq> None"
    "k_tlist k' = k_tlist ?k1" "k_thread k' = k_thread ?k1" "k_rows k' = k_rows ?k1"
    "k_timer k' = k_timer ?k1" "k_object k' = k_object ?k1" "k_containers k' = k_containers ?k1"
    "rt_scheduler_lock_nest ?k1 = 0 \<Longrightarrow> highest_runs k'"
    by (rule schedule_ready[OF inv1 rdy1 cur1]) (rule that; assumption)
  have "rt_thread_yield k = Some (k', RT_EOK)"
    using True cur rotate_run[OF inv, of t] k'(1)
    by (simp add: rt_thread_yield_def Let_def tlist_remove_def)
  then show ?thesis
    by (rule that[OF _ k'(2) _ k'(4)])
      (use k'(3,11) in \<open>simp_all add: k'(5-10) ready_rotated_def Let_def\<close>)
next
  case False
  then have run: "rt_thread_yield k = Some (k, RT_EOK)" using cur by (auto simp: rt_thread_yield_def)
  have rot: "k_tlist k = ready_rotated t k" if "thread_state (k_thread k t) = RT_THREAD_READY"
  proof -
    let ?h = "ReadyQ (unat (current_priority (k_thread k t)))"
    have "tlist_of k ?h = [t]" using False that has_neighbour_alone[OF inv that] by simp
    then show ?thesis by (simp add: ready_rotated_def Let_def fun_upd_idem)
  qed
  show ?thesis
    by (rule that[OF run inv]) (use cur False rot in auto)
qed

subsection \<open>Starting, closing and changing priority\<close>

lemma place_ok_same_state:
  assumes "place_ok th q" "thread_state th' = thread_state th"
    "\<And>p. q \<noteq> Some (ReadyQ p)"
  shows "place_ok th' q"
  using assms by (cases "(th, q)" rule: place_ok.cases) auto

lemma kinv_timer_link: "kinv k \<Longrightarrow> timer_link_ok k t"
  by (simp add: kinv_but_def thread_timers_ok_def)

lemma kinv_set_state:
  assumes inv: "kinv k" and f: "prio_ok (f (k_thread k t))"
    and "place_ok (f (k_thread k t)) (ls_on (k_tlist k) t)"
    and "ls_on (k_rows k) (ThreadTimer t) = None \<or> thread_state (f (k_thread k t)) = thread_state (k_thread k t)"
  shows "kinv (upd_thread t f k)"
proof -
  have "sched_inv (upd_thread t f k)"
    using kinvD(1)[OF inv] assms(2,3) by (auto simp: sched_inv_but_def bitmap_ok_def)
  moreover have "timer_link_ok (upd_thread t f k) s" for s
    using kinv_timer_link[OF inv, of s] assms(4) by (cases "s = t") (auto simp: timer_link_ok_def)
  then have "thread_timers_ok {} (upd_thread t f k)"
    using kinvD(3)[OF inv] by (simp add: thread_timers_ok_def)
  ultimately show ?thesis using kinvD(2)[OF inv] by (simp add: kinv_but_def rows_inv_def)
qed

text \<open>The thread moves to the end of the ready list of its initial priority and the scheduler
  runs.\<close>

lemma startup_spec:
  assumes inv: "kinv k" and st: "thread_state (k_thread k t) = RT_THREAD_INIT"
    and tm: "ls_on (k_rows k) (ThreadTimer t) = None"
  obtains k' where "rt_thread_startup t k = Some (k', RT_EOK)" "kinv k'" "keeps k k'"
    "thread_state (k_thread k' t) = RT_THREAD_READY"
    "current_priority (k_thread k' t) = init_priority (k_thread k t)"
    "\<forall>s. s \<noteq> t \<longrightarrow> k_thread k' s = k_thread k s"
    "k_containers k' = k_containers k"
    "rt_current_thread k \<noteq> None \<and> rt_scheduler_lock_nest k = 0 \<longrightarrow> highest_runs k'"
    "rt_current_thread k = None \<longleftrightarrow> rt_current_thread k' = None"
    "ls_on (k_rows k') = (ls_on (k_rows k))(ThreadTimer t := None)"
proof -
  let ?p = "init_priority (k_thread k t)"
  let ?f = "\<lambda>th. th\<lparr>current_priority := ?p, number_mask := push_bit (unat ?p) 1, stat := RT_THREAD_SUSPEND\<rparr>"
  let ?k1 = "upd_thread t ?f k"
  have pr: "prio_ok (k_thread k t)" by (rule sched_inv_prio[OF kinvD(1)[OF inv]])
  then have p32: "unat ?p < 32" by (simp add: prio_ok_def)
  have off: "ls_on (k_tlist k) t = None"
    using sched_inv_place[OF kinvD(1)[OF inv], of t] st
    by (cases "(k_thread k t, ls_on (k_tlist k) t)" rule: place_ok.cases) auto
  have inv1: "kinv ?k1"
    by (rule kinv_set_state[OF inv]) (use pr off tm in \<open>simp_all add: prio_ok_def prio_mask_def\<close>)
  have st1: "thread_state (k_thread ?k1 t) = RT_THREAD_SUSPEND" by simp
  obtain k2 where k2: "rt_thread_resume t ?k1 = Some (k2, RT_EOK)" "kinv k2"
    "k_thread k2 = (k_thread ?k1)(t := (k_thread ?k1 t)
           \<lparr>stat := RT_THREAD_READY OR (stat (k_thread ?k1 t) AND NOT RT_THREAD_STAT_MASK)\<rparr>)"
    "keeps ?k1 k2" "rt_current_thread k2 = rt_current_thread ?k1" "k_containers k2 = k_containers ?k1"
    "ls_on (k_rows k2) = (ls_on (k_rows ?k1))(ThreadTimer t := None)"
    by (rule resume_suspended[OF inv1 st1])
  have run: "rt_thread_startup t k = (if rt_current_thread k2 \<noteq> None
      then map_option (\<lambda>k. (k, RT_EOK)) (rt_schedule k2) else Some (k2, RT_EOK))"
    using st p32 k2(1) by (simp add: rt_thread_startup_def set_priority_def rt_thread_self_def Let_def)
  have rdy: "thread_state (k_thread k2 t) = RT_THREAD_READY" by (simp add: k2(3))
  have kp: "keeps k k2" using k2(4) by simp
  show ?thesis
  proof (cases "rt_current_thread k2 = None")
    case True
    with run have "rt_thread_startup t k = Some (k2, RT_EOK)" by simp
    then show ?thesis
      by (rule that[OF _ k2(2) kp rdy]) (use True in \<open>simp_all add: k2(3,5,6,7)\<close>)
  next
    case False
    obtain k3 where k3: "rt_schedule k2 = Some k3" "kinv k3" "keeps k2 k3" "rt_current_thread k3 \<noteq> None"
      "k_thread k3 = k_thread k2" "k_containers k3 = k_containers k2" "k_rows k3 = k_rows k2"
      "rt_scheduler_lock_nest k2 = 0 \<Longrightarrow> highest_runs k3"
      by (rule schedule_ready[OF k2(2) rdy False]) (rule that; assumption)
    have "rt_thread_startup t k = Some (k3, RT_EOK)" using run False k3(1) by simp
    then show ?thesis
      by (rule that[OF _ k3(2) keeps_trans[OF kp k3(3)]])
        (use False k2(5) k3(4,8) kp in \<open>auto simp: k3(5-7) k2(3,6,7) keeps_def\<close>)
  qed
qed

text \<open>Linking a closed thread to the defunct list.\<close>

lemma kinv_defunct:
  assumes inv: "kinv k" and st: "thread_state (k_thread k t) = RT_THREAD_CLOSE"
    and off: "ls_on (k_tlist k) t = None"
  obtains k' where "tlist_insert_after DefunctQ t k = Some k'" "kinv k'"
    "k' = k\<lparr>k_tlist := k_tlist k'\<rparr>" "tlist_of k' DefunctQ = t # tlist_of k DefunctQ"
    "\<And>p. tlist_of k' (ReadyQ p) = tlist_of k (ReadyQ p)"
proof -
  let ?L = "\<lparr>ls_nodes = (ls_nodes (k_tlist k))(DefunctQ := t # tlist_of k DefunctQ),
      ls_on = (ls_on (k_tlist k))(t \<mapsto> DefunctQ)\<rparr>"
  have L: "ls_insert_after_head DefunctQ t (k_tlist k) = Some ?L"
    using off by (simp add: ls_insert_after_head_def)
  have wfL: "ls_wf ?L" by (rule ls_insert_after_head_wf[OF sched_inv_wf[OF kinvD(1)[OF inv]] L])
  have "kinv (k\<lparr>k_tlist := ?L\<rparr>)"
    using inv wfL st by (auto simp: kinv_but_def sched_inv_but_def bitmap_ok_def rows_inv_def
        thread_timers_ok_def timer_link_ok_def)
  moreover have "tlist_insert_after DefunctQ t k = Some (k\<lparr>k_tlist := ?L\<rparr>)"
    by (simp add: tlist_insert_after_def L)
  ultimately show ?thesis by (intro that[of "k\<lparr>k_tlist := ?L\<rparr>"]) simp_all
qed

text \<open>Taking a thread that is not in its initial state off whatever it hangs on.\<close>

lemma unready_spec:
  assumes inv: "kinv k"
  obtains k' where "thread_unready t k = Some k'" "kinv_but {t} k'" "keeps k k'"
    "ls_on (k_tlist k') t = None" "k_thread k' = k_thread k" "k_rows k' = k_rows k"
    "rt_current_thread k' = rt_current_thread k" "k_containers k' = k_containers k"
    "\<And>h. tlist_of k' h = remove1 t (tlist_of k h)"
proof (cases "thread_state (k_thread k t) = RT_THREAD_INIT")
  case True
  have off: "ls_on (k_tlist k) t = None"
    using sched_inv_place[OF kinvD(1)[OF inv], of t] True
    by (cases "(k_thread k t, ls_on (k_tlist k) t)" rule: place_ok.cases) auto
  then have "t \<notin> set (tlist_of k h)" for h
    using ls_wf_unlinked[OF sched_inv_wf[OF kinvD(1)[OF inv]]] by simp
  moreover have "thread_unready t k = Some k" using True by (simp add: thread_unready_def)
  ultimately show ?thesis
    using that[of k] kinv_mono[OF inv, of "{t}"] off by (simp add: remove1_idem)
next
  case False
  have u: "unlink_ready_ok t k" by (rule unlink_ready_okI[OF kinvD(1)[OF inv]]) simp
  obtain k' where k': "rt_schedule_remove_thread t k = Some k'" "kinv_but {t} k'"
    "ls_on (k_tlist k') = (ls_on (k_tlist k))(t := None)" "\<And>h. tlist_of k' h = remove1 t (tlist_of k h)"
    and f: "k' = k\<lparr>k_tlist := k_tlist k', rt_thread_ready_priority_group := rt_thread_ready_priority_group k'\<rparr>"
    by (rule kinv_remove_thread[OF inv u]) (rule that)
  have "k_thread k' = k_thread k" "k_rows k' = k_rows k" "rt_current_thread k' = rt_current_thread k"
    "k_containers k' = k_containers k" "keeps k k'"
    by (subst f, simp)+
  moreover have "thread_unready t k = Some k'" using False k'(1) by (simp add: thread_unready_def)
  ultimately show ?thesis using that[of k'] k' by simp
qed

definition closing :: "tid \<Rightarrow> kernel \<Rightarrow> kernel" where
  "closing t k = upd_thread t (\<lambda>th. th\<lparr>stat := RT_THREAD_CLOSE\<rparr>) (fst (rt_timer_detach (ThreadTimer t) k))"

lemma closing_fields:
  "k_tlist (closing t k) = k_tlist k" "rt_current_thread (closing t k) = rt_current_thread k"
  "k_thread (closing t k) = (k_thread k)(t := (k_thread k t)\<lparr>stat := RT_THREAD_CLOSE\<rparr>)"
  "k_rows (closing t k) = ls_remove (ThreadTimer t) (k_rows k)" "keeps k (closing t k)"
  "k_containers (closing t k) = ls_remove (OTimer (ThreadTimer t)) (k_containers k)"
  by (simp_all add: closing_def rt_timer_detach_def rt_object_detach_def row_remove_def)

lemma kinv_closing:
  assumes "kinv_but {t} k" "ls_on (k_tlist k) t = None"
  shows "kinv (closing t k)"
proof (rule kinv_close)
  let ?k1 = "fst (rt_timer_detach (ThreadTimer t) k)"
  have "kinv_but {t} ?k1"
    using assms rows_inv_remove[OF kinvD(2)[OF assms(1)], of "ThreadTimer t"]
    by (auto simp: rt_timer_detach_def rt_object_detach_def row_remove_def kinv_but_def
        sched_inv_but_def bitmap_ok_def rows_inv_def thread_timers_ok_def timer_link_ok_def)
  moreover have "prio_ok ((k_thread ?k1 t)\<lparr>stat := RT_THREAD_CLOSE\<rparr>)"
    using sched_inv_prio[OF kinvD(1)[OF \<open>kinv_but {t} ?k1\<close>], of t] by (auto simp: prio_ok_def)
  ultimately show "kinv_but {t} (closing t k)"
    unfolding closing_def using kinv_upd_thread[of "{t}" ?k1 "\<lambda>th. th\<lparr>stat := RT_THREAD_CLOSE\<rparr>" t] by simp
qed (simp_all add: closing_fields assms)

text \<open>A deleted thread is closed and waits on the defunct list for the idle thread.\<close>

lemma delete_spec:
  assumes inv: "kinv k"
  obtains k' where "rt_thread_delete t k = Some (k', RT_EOK)" "kinv k'" "keeps k k'"
    "ls_on (k_tlist k') t = Some DefunctQ" "thread_state (k_thread k' t) = RT_THREAD_CLOSE"
    "\<forall>s. s \<noteq> t \<longrightarrow> k_thread k' s = k_thread k s" "rt_current_thread k' = rt_current_thread k"
proof -
  obtain k1 where k1: "thread_unready t k = Some k1" "kinv_but {t} k1" "keeps k k1"
    "ls_on (k_tlist k1) t = None" "k_thread k1 = k_thread k" "k_rows k1 = k_rows k"
    "rt_current_thread k1 = rt_current_thread k" "k_containers k1 = k_containers k"
    by (rule unready_spec[OF inv]) (rule that; assumption)
  let ?k2 = "closing t k1"
  have k2: "kinv ?k2" by (rule kinv_closing[OF k1(2,4)])
  have st2: "thread_state (k_thread ?k2 t) = RT_THREAD_CLOSE" and off2: "ls_on (k_tlist ?k2) t = None"
    by (simp_all add: closing_fields k1(4))
  obtain k3 where k3: "tlist_insert_after DefunctQ t ?k2 = Some k3" "kinv k3"
    and f: "k3 = ?k2\<lparr>k_tlist := k_tlist k3\<rparr>" and n: "tlist_of k3 DefunctQ = t # tlist_of ?k2 DefunctQ"
    by (rule kinv_defunct[OF k2 st2 off2]) (rule that; assumption)
  have e: "k_thread k3 = k_thread ?k2" "keeps ?k2 k3" "rt_current_thread k3 = rt_current_thread ?k2"
    by (subst f, simp)+
  have "ls_on (k_tlist k3) t = Some DefunctQ"
    using n sched_inv_wf[OF kinvD(1)[OF k3(2)]] by (simp add: ls_wf_on)
  moreover have "rt_thread_delete t k = Some (k3, RT_EOK)"
    using k1(1) k3(1) by (simp add: rt_thread_delete_def Let_def closing_def)
  moreover have "keeps k k3" using k1(3) closing_fields(5)[of k1 t] e(2) by (simp add: keeps_def)
  ultimately show ?thesis
    by (intro that[of k3]) (simp_all add: k3(2) e closing_fields k1)
qed

lemma kinv_object_detach [inv_intro]: "kinv_but X k \<Longrightarrow> kinv_but X (rt_object_detach ob k)"
  by (simp add: rt_object_detach_def kinv_but_def sched_inv_but_def bitmap_ok_def rows_inv_def
      thread_timers_ok_def timer_link_ok_def)

lemma detach_spec:
  assumes inv: "kinv k"
  obtains k' where "rt_thread_detach t k = Some (k', RT_EOK)" "kinv k'" "keeps k k'"
    "thread_state (k_thread k' t) = RT_THREAD_CLOSE"
    "\<forall>s. s \<noteq> t \<longrightarrow> k_thread k' s = k_thread k s" "rt_current_thread k' = rt_current_thread k"
    "ls_on (k_tlist k') t = (if cleanup (k_thread k t) then Some DefunctQ else None)"
    "ls_on (k_containers k') (OThread t) = None"
proof -
  obtain k1 where k1: "thread_unready t k = Some k1" "kinv_but {t} k1" "keeps k k1"
    "ls_on (k_tlist k1) t = None" "k_thread k1 = k_thread k" "k_rows k1 = k_rows k"
    "rt_current_thread k1 = rt_current_thread k" "k_containers k1 = k_containers k"
    by (rule unready_spec[OF inv]) (rule that; assumption)
  let ?k2 = "rt_object_detach (OThread t) (closing t k1)"
  have k2: "kinv ?k2" by (rule kinv_object_detach[OF kinv_closing[OF k1(2,4)]])
  have e2: "k_tlist ?k2 = k_tlist k1" "rt_current_thread ?k2 = rt_current_thread k1" "keeps k1 ?k2"
    "k_thread ?k2 = (k_thread k1)(t := (k_thread k1 t)\<lparr>stat := RT_THREAD_CLOSE\<rparr>)"
    "ls_on (k_containers ?k2) (OThread t) = None"
    using closing_fields(5)[of k1 t] by (simp_all add: rt_object_detach_def closing_fields)
  have run: "rt_thread_detach t k = (if cleanup (k_thread k t)
      then map_option (\<lambda>k. (k, RT_EOK)) (tlist_insert_after DefunctQ t ?k2) else Some (?k2, RT_EOK))"
    using k1(1) by (simp add: rt_thread_detach_def Let_def closing_def rt_object_detach_def
        rt_timer_detach_def row_remove_def k1(5))
  have st2: "thread_state (k_thread ?k2 t) = RT_THREAD_CLOSE" and off2: "ls_on (k_tlist ?k2) t = None"
    by (simp_all add: e2 k1(4))
  show ?thesis
  proof (cases "cleanup (k_thread k t)")
    case True
    obtain k3 where k3: "tlist_insert_after DefunctQ t ?k2 = Some k3" "kinv k3"
      and f: "k3 = ?k2\<lparr>k_tlist := k_tlist k3\<rparr>" and n: "tlist_of k3 DefunctQ = t # tlist_of ?k2 DefunctQ"
      by (rule kinv_defunct[OF k2 st2 off2]) (rule that; assumption)
    have e: "k_thread k3 = k_thread ?k2" "keeps ?k2 k3" "rt_current_thread k3 = rt_current_thread ?k2"
      "k_containers k3 = k_containers ?k2"
      by (subst f, simp)+
    have on: "ls_on (k_tlist k3) t = Some DefunctQ"
      using n sched_inv_wf[OF kinvD(1)[OF k3(2)]] by (simp add: ls_wf_on)
    have "rt_thread_detach t k = Some (k3, RT_EOK)" using run True k3(1) by simp
    then show ?thesis
      by (rule that[OF _ k3(2) keeps_trans[OF keeps_trans[OF k1(3) e2(3)] e(2)]])
        (simp_all add: e e2 k1 on True)
  next
    case False
    then have "rt_thread_detach t k = Some (?k2, RT_EOK)" using run by simp
    then show ?thesis
      by (rule that[OF _ k2 keeps_trans[OF k1(3) e2(3)]]) (simp_all add: e2 k1 False)
  qed
qed

lemma exit_spec:
  assumes inv: "kinv k" and cur: "rt_current_thread k = Some t"
    and st: "thread_state (k_thread k t) = RT_THREAD_READY"
    and other: "thread_state (k_thread k s) = RT_THREAD_READY" "s \<noteq> t"
  obtains k' where "rt_thread_exit k = Some k'" "kinv k'" "keeps k k'"
    "thread_state (k_thread k' t) = RT_THREAD_CLOSE" "rt_current_thread k' \<noteq> None"
    "\<forall>r. r \<noteq> t \<longrightarrow> k_thread k' r = k_thread k r"
    "rt_scheduler_lock_nest k = 0 \<longrightarrow> highest_runs k'"
    "ls_on (k_tlist k') t = (if rt_object_is_systemobject (OThread t) k \<and> \<not> cleanup (k_thread k t)
       then None else Some DefunctQ)"
proof -
  obtain k1 where k1: "thread_unready t k = Some k1" "kinv_but {t} k1" "keeps k k1"
    "ls_on (k_tlist k1) t = None" "k_thread k1 = k_thread k" "k_rows k1 = k_rows k"
    "rt_current_thread k1 = rt_current_thread k" "k_containers k1 = k_containers k"
    by (rule unready_spec[OF inv]) (rule that; assumption)
  have rm: "rt_schedule_remove_thread t k = Some k1" using k1(1) st by (simp add: thread_unready_def)
  have ob: "k_object k1 = k_object k"
    using rm by (auto simp: rt_schedule_remove_thread_def tlist_remove_def Let_def split: if_splits)
  let ?k2 = "closing t k1"
  have k2: "kinv ?k2" by (rule kinv_closing[OF k1(2,4)])
  have st2: "thread_state (k_thread ?k2 t) = RT_THREAD_CLOSE" and off2: "ls_on (k_tlist ?k2) t = None"
    and kp2: "keeps k ?k2"
    using k1(3) closing_fields(5)[of k1 t] by (simp_all add: closing_fields k1(4) keeps_def)
  let ?sys = "rt_object_is_systemobject (OThread t) k \<and> \<not> cleanup (k_thread k t)"
  have swap: "fst (rt_timer_detach (ThreadTimer t) (upd_thread t (\<lambda>th. th\<lparr>stat := RT_THREAD_CLOSE\<rparr>) k1)) = ?k2"
    by (simp add: closing_def rt_timer_detach_def rt_object_detach_def row_remove_def)
  obtain k3 where k3: "(if ?sys then Some (rt_object_detach (OThread t) ?k2)
      else tlist_insert_after DefunctQ t ?k2) = Some k3" "kinv k3" "keeps ?k2 k3"
    "k_thread k3 = k_thread ?k2" "rt_current_thread k3 = rt_current_thread ?k2"
    "ls_on (k_tlist k3) t = (if ?sys then None else Some DefunctQ)"
  proof (cases ?sys)
    case True
    then show ?thesis
      using that[of "rt_object_detach (OThread t) ?k2"] kinv_object_detach[OF k2] off2
      by (simp add: rt_object_detach_def)
  next
    case False
    obtain k3 where k3: "tlist_insert_after DefunctQ t ?k2 = Some k3" "kinv k3"
      and f: "k3 = ?k2\<lparr>k_tlist := k_tlist k3\<rparr>" and n: "tlist_of k3 DefunctQ = t # tlist_of ?k2 DefunctQ"
      by (rule kinv_defunct[OF k2 st2 off2]) (rule that; assumption)
    have "k_thread k3 = k_thread ?k2" "keeps ?k2 k3" "rt_current_thread k3 = rt_current_thread ?k2"
      by (subst f, simp)+
    moreover have "ls_on (k_tlist k3) t = Some DefunctQ"
      using n sched_inv_wf[OF kinvD(1)[OF k3(2)]] by (simp add: ls_wf_on)
    ultimately show ?thesis using that[of k3] k3 False by auto
  qed
  have rdy3: "thread_state (k_thread k3 s) = RT_THREAD_READY" using other by (simp add: k3(4) closing_fields k1(5))
  have cur3: "rt_current_thread k3 \<noteq> None" by (simp add: k3(5) closing_fields k1(7) cur)
  obtain k4 where k4: "rt_schedule k3 = Some k4" "kinv k4" "keeps k3 k4" "rt_current_thread k4 \<noteq> None"
    "k_tlist k4 = k_tlist k3" "k_thread k4 = k_thread k3"
    "rt_scheduler_lock_nest k3 = 0 \<Longrightarrow> highest_runs k4"
    by (rule schedule_ready[OF k3(2) rdy3 cur3]) (rule that; assumption)
  have "rt_object_is_systemobject (OThread t) ?k2 = rt_object_is_systemobject (OThread t) k"
    "cleanup (k_thread ?k2 t) = cleanup (k_thread k t)"
    by (simp_all add: rt_object_is_systemobject_def closing_def rt_timer_detach_def rt_object_detach_def
        row_remove_def ob k1(5))
  then have run: "rt_thread_exit k = Some k4"
    using cur rm k3(1) k4(1) swap
    by (auto simp: rt_thread_exit_def Let_def simp del: upd_thread_def split: if_splits)
  have lock: "rt_scheduler_lock_nest k3 = rt_scheduler_lock_nest k"
    using kp2 k3(3) by (simp add: keeps_def)
  show ?thesis
    by (rule that[OF run k4(2) keeps_trans[OF keeps_trans[OF kp2 k3(3)] k4(3)] _ k4(4)])
      (use k4(7) lock in \<open>simp_all add: k4(5,6) k3(4,6) closing_fields k1(5)\<close>)
qed

text \<open>The register and a thread's priority.\<close>

lemma rt_object_init_frame:
  assumes "rt_object_init ob ty nm k = Some k'"
  shows "k' = k\<lparr>k_containers := k_containers k', k_object := k_object k'\<rparr>"
    and "obj_flag (k_object k' o') = obj_flag (k_object k o')"
  using assms by (auto simp: rt_object_init_def container_insert_def split: option.splits)

lemma kinv_frame_objects:
  assumes "kinv_but X k" "k' = k\<lparr>k_containers := k_containers k', k_object := k_object k'\<rparr>"
    "\<And>ob. obj_flag (k_object k' ob) = obj_flag (k_object k ob)"
  shows "kinv_but X k'"
proof -
  have "k_tlist k' = k_tlist k" "k_thread k' = k_thread k" "k_rows k' = k_rows k" "k_timer k' = k_timer k"
    "rt_thread_ready_priority_group k' = rt_thread_ready_priority_group k"
    by (subst assms(2), simp)+
  then show ?thesis
    using assms(1,3) by (simp add: kinv_but_def sched_inv_but_def bitmap_ok_def rows_inv_def
        thread_timers_ok_def timer_link_ok_def)
qed

lemma kinv_timer_setup:
  assumes inv: "kinv k" and run: "timer_setup tm fn time flag k = Some k'"
    and own: "\<And>t. tm = ThreadTimer t \<Longrightarrow> fn = ThreadTimeout t \<and> flag = 0"
  shows "kinv k'"
proof -
  have off: "ls_on (k_rows k) tm = None"
    using run by (auto simp: timer_setup_def row_init_def Let_def split: if_splits)
  then have out: "tm \<notin> set (ls_nodes (k_rows k) h)" for h
    using kinvD(2)[OF inv] by (simp add: rows_inv_def ls_wf_unlinked)
  have k': "k' = k\<lparr>k_object := (k_object k)(OTimer tm := (k_object k (OTimer tm))\<lparr>obj_flag := flag AND NOT 1\<rparr>),
    k_timer := (k_timer k)(tm := \<lparr>timeout_func = fn, tm_init_tick = time, timeout_tick = 0\<rparr>)\<rparr>"
    using run off by (simp add: timer_setup_def row_init_def Let_def)
  have "sched_inv k'" using kinvD(1)[OF inv] by (simp add: k' sched_inv_but_def bitmap_ok_def)
  moreover have "rows_inv k'"
    using kinvD(2)[OF inv] out unfolding rows_inv_def k' by auto
  moreover have "thread_timers_ok {} k'"
    unfolding thread_timers_ok_def
  proof (intro allI conjI impI)
    fix t
    note ok = kinvD(3)[OF inv, unfolded thread_timers_ok_def, rule_format, of t]
    show "timeout_func (k_timer k' (ThreadTimer t)) = ThreadTimeout t"
      "obj_flag (k_object k' (OTimer (ThreadTimer t))) AND RT_TIMER_FLAG_PERIODIC = 0"
      "obj_flag (k_object k' (OTimer (ThreadTimer t))) AND RT_TIMER_FLAG_SOFT_TIMER = 0"
      using ok own[of t] by (cases "tm = ThreadTimer t"; simp add: k')+
    show "timer_link_ok k' t" using ok by (simp add: timer_link_ok_def k')
  qed
  ultimately show ?thesis by (simp add: kinv_but_def)
qed

lemma kinv_timer_init:
  assumes "kinv k" "rt_timer_init tm nm fn time flag k = Some k'"
    "\<And>t. tm = ThreadTimer t \<Longrightarrow> fn = ThreadTimeout t \<and> flag = 0"
  shows "kinv k'"
proof -
  obtain k1 where k1: "rt_object_init (OTimer tm) (class_code RT_Object_Class_Timer) nm k = Some k1"
    "timer_setup tm fn time flag k1 = Some k'"
    using assms(2) by (auto simp: rt_timer_init_def)
  have "kinv k1" by (rule kinv_frame_objects[OF assms(1) rt_object_init_frame[OF k1(1)]])
  then show ?thesis using kinv_timer_setup[OF _ k1(2)] assms(3) by blast
qed

text \<open>Initialising an unlinked thread, whatever its control block held before.\<close>

lemma kinv_thread_init':
  assumes inv: "kinv k" and run: "rt_thread_init' t priority tick k = Some k'"
  shows "kinv k'"
proof -
  let ?f = "\<lambda>th. th\<lparr>init_priority := priority, current_priority := priority,
               number_mask := 0, init_tick := tick, remaining_tick := tick,
               th_error := RT_EOK, stat := RT_THREAD_INIT, cleanup := False\<rparr>"
  let ?k1 = "upd_thread t ?f k"
  have off: "ls_on (k_tlist k) t = None" and p: "unat priority < 32"
    and init: "rt_timer_init (ThreadTimer t) (takeWhile (\<lambda>c. c \<noteq> 0) (obj_name (k_object ?k1 (OThread t))))
       (ThreadTimeout t) 0 0 ?k1 = Some k'"
    using run by (auto simp: rt_thread_init'_def tlist_init_def Let_def split: if_splits)
  have "ls_on (k_rows k) (ThreadTimer t) = None"
    using init by (auto simp: rt_timer_init_def timer_setup_def row_init_def rt_object_init_def
        container_insert_def Let_def split: if_splits option.splits)
  then have "kinv ?k1"
    by (intro kinv_set_state[OF inv]) (use p off in \<open>simp_all add: prio_ok_def\<close>)
  then show ?thesis by (rule kinv_timer_init[OF _ init]) simp
qed

lemma change_priority_spec:
  assumes inv: "kinv k" and p: "unat p < 32"
  obtains k' where "change_priority t p k = Some k'" "kinv k'" "keeps k k'"
    "current_priority (k_thread k' t) = p" "\<forall>s. s \<noteq> t \<longrightarrow> k_thread k' s = k_thread k s"
    "thread_state (k_thread k' t) = thread_state (k_thread k t)"
    "init_priority (k_thread k' t) = init_priority (k_thread k t)"
    "th_error (k_thread k' t) = th_error (k_thread k t)"
    "rt_current_thread k' = rt_current_thread k" "k_rows k' = k_rows k" "k_timer k' = k_timer k"
    "thread_state (k_thread k t) \<noteq> RT_THREAD_READY \<longrightarrow> k_tlist k' = k_tlist k"
    "\<forall>h. (\<forall>q. h \<noteq> ReadyQ q) \<longrightarrow> tlist_of k' h = tlist_of k h"
proof (cases "thread_state (k_thread k t) = RT_THREAD_READY")
  case False
  let ?f = "\<lambda>th. th\<lparr>current_priority := p, number_mask := push_bit (unat p) 1\<rparr>"
  have pr: "prio_ok (k_thread k t)" by (rule sched_inv_prio[OF kinvD(1)[OF inv]])
  have nr: "ls_on (k_tlist k) t \<noteq> Some (ReadyQ q)" for q
    using sched_inv_place[OF kinvD(1)[OF inv], of t] False by auto
  have "place_ok (?f (k_thread k t)) (ls_on (k_tlist k) t)"
    by (rule place_ok_same_state[OF sched_inv_place[OF kinvD(1)[OF inv]]]) (use nr in auto)
  then have "kinv (upd_thread t ?f k)"
    by (intro kinv_set_state[OF inv]) (use pr p in \<open>simp_all add: prio_ok_def prio_mask_def\<close>)
  then show ?thesis
    by (intro that[of "upd_thread t ?f k"]) (use False p in \<open>auto simp: change_priority_def set_priority_def\<close>)
next
  case True
  have u: "unlink_ready_ok t k" by (rule unlink_ready_okI[OF kinvD(1)[OF inv]]) simp
  obtain k1 where k1: "rt_schedule_remove_thread t k = Some k1" "kinv_but {t} k1"
    "ls_on (k_tlist k1) = (ls_on (k_tlist k))(t := None)" "\<And>h. tlist_of k1 h = remove1 t (tlist_of k h)"
    and f1: "k1 = k\<lparr>k_tlist := k_tlist k1, rt_thread_ready_priority_group := rt_thread_ready_priority_group k1\<rparr>"
    by (rule kinv_remove_thread[OF inv u]) (rule that)
  have e1: "k_thread k1 = k_thread k" "k_rows k1 = k_rows k" "k_timer k1 = k_timer k"
    "rt_current_thread k1 = rt_current_thread k" "keeps k k1"
    by (subst f1, simp)+
  let ?f = "\<lambda>th. th\<lparr>current_priority := p, number_mask := push_bit (unat p) 1\<rparr>"
  let ?k2 = "upd_thread t ?f k1"
  have pr: "prio_ok (k_thread k t)" by (rule sched_inv_prio[OF kinvD(1)[OF inv]])
  have k2: "kinv_but {t} ?k2"
    using kinv_upd_thread[OF k1(2), of ?f t] pr p by (auto simp: e1 prio_ok_def prio_mask_def)
  have off2: "ls_on (k_tlist ?k2) t = None"
    and mask2: "number_mask (k_thread ?k2 t) = prio_mask (current_priority (k_thread ?k2 t))"
    and tm2: "ls_on (k_rows ?k2) (ThreadTimer t) = None"
    using kinv_timer_link[OF inv, of t] True by (simp_all add: k1(3) prio_mask_def e1 timer_link_ok_def)
  obtain k3 where k3: "rt_schedule_insert_thread t ?k2 = Some k3" "kinv_but ({t} - {t}) k3"
    "\<And>h. tlist_of k3 h = (if h = ReadyQ (unat (current_priority (k_thread ?k2 t)))
       then tlist_of ?k2 h @ [t] else tlist_of ?k2 h)"
    "k_thread k3 = (k_thread ?k2)(t := (k_thread ?k2 t)
           \<lparr>stat := RT_THREAD_READY OR (stat (k_thread ?k2 t) AND NOT RT_THREAD_STAT_MASK)\<rparr>)"
    and f3: "k3 = ?k2\<lparr>k_tlist := k_tlist k3, k_thread := k_thread k3,
           rt_thread_ready_priority_group := rt_thread_ready_priority_group k3\<rparr>"
    by (rule kinv_insert_thread[OF k2 off2 mask2 tm2]) (rule that)
  have e3: "k_rows k3 = k_rows ?k2" "k_timer k3 = k_timer ?k2" "rt_current_thread k3 = rt_current_thread ?k2"
    "keeps ?k2 k3"
    by (subst f3, simp)+
  have t_off: "t \<notin> set (tlist_of k h)" if "\<forall>q. h \<noteq> ReadyQ q" for h
    using that ready_place[OF kinvD(1)[OF inv] True] ls_wf_on[OF sched_inv_wf[OF kinvD(1)[OF inv]], of t h] by auto
  have "change_priority t p k = Some k3"
    using True k1(1) k3(1) p by (simp add: change_priority_def set_priority_def)
  moreover have "keeps k k3" using e1(5) e3(4) by (simp add: keeps_def)
  ultimately show ?thesis
    by (intro that[of k3]) (use k3(2) True t_off in \<open>auto simp: k3(3,4) e3 e1 k1(4) remove1_idem\<close>)
qed

end
