(* ===== verification/Rtt_Clock.thy ===== *)
theory Rtt_Clock
  imports Rtt_Thread_Inv
begin

text \<open>
  The system tick (\<^verbatim>\<open>clock.c\<close>), the expiry loops and the timer thread
  (\<^verbatim>\<open>timer.c\<close>), the idle thread (\<^verbatim>\<open>idle.c\<close>) and the start of the
  kernel (\<^verbatim>\<open>components.c\<close>). The callbacks of user timers and the cleanup functions
  of threads are code outside the kernel: \<open>ucb n\<close> is what callback \<open>n\<close> does to
  the kernel, \<open>None\<close> when it does not return. The loops are partial functions, so that a
  loop that never ends is \<open>None\<close>.
\<close>

type_synonym callbacks = "nat \<Rightarrow> kernel \<Rightarrow> kernel option"

subsection \<open>Expired timers\<close>

definition rt_tick_get :: "kernel \<Rightarrow> rt_tick" where
  "rt_tick_get k = rt_tick k"

definition rt_tick_set :: "rt_tick \<Rightarrow> kernel \<Rightarrow> kernel" where
  "rt_tick_set tick k = k\<lparr>rt_tick := tick\<rparr>"

definition run_timeout :: "callbacks \<Rightarrow> timer_ref \<Rightarrow> kernel \<Rightarrow> kernel option" where
  "run_timeout ucb t k = (case timeout_func (k_timer k t) of
     ThreadTimeout th \<Rightarrow> rt_thread_timeout th k | UserTimeout n \<Rightarrow> ucb n k)"

definition deactivate :: "timer_ref \<Rightarrow> kernel \<Rightarrow> kernel" where
  "deactivate t k = upd_flag (OTimer t) (\<lambda>f. f AND NOT RT_TIMER_FLAG_ACTIVATED) k"

definition has_flag :: "rt_uint8 \<Rightarrow> timer_ref \<Rightarrow> kernel \<Rightarrow> bool" where
  "has_flag fl t k \<longleftrightarrow> obj_flag (k_object k (OTimer t)) AND fl \<noteq> 0"

text \<open>Restart a periodic timer that is still active, stop any other.\<close>

definition rearm :: "timer_ref \<Rightarrow> kernel \<Rightarrow> kernel option" where
  "rearm t k =
     (if has_flag RT_TIMER_FLAG_PERIODIC t k \<and> has_flag RT_TIMER_FLAG_ACTIVATED t k
      then map_option fst (rt_timer_start t (deactivate t k))
      else Some (deactivate t k))"

definition timer_due :: "rt_tick \<Rightarrow> timer_ref \<Rightarrow> kernel \<Rightarrow> bool" where
  "timer_due current_tick t k \<longleftrightarrow> current_tick - timeout_tick (k_timer k t) < RT_TICK_HALF"

partial_function (option) timer_check_loop :: "callbacks \<Rightarrow> rt_tick \<Rightarrow> kernel \<Rightarrow> kernel option" where
  "timer_check_loop ucb current_tick k =
     (case ls_nodes (k_rows k) HardTimers of
        [] \<Rightarrow> Some k
      | t # _ \<Rightarrow>
          (if timer_due current_tick t k then
             Option.bind (run_timeout ucb t (row_remove t k)) (\<lambda>k.
             let current_tick = rt_tick_get k in
             Option.bind (rearm t k) (\<lambda>k. timer_check_loop ucb current_tick k))
           else Some k))"

definition rt_timer_check :: "callbacks \<Rightarrow> kernel \<Rightarrow> kernel option" where
  "rt_timer_check ucb k = timer_check_loop ucb (rt_tick_get k) k"

text \<open>The software timers: the callback runs with the scheduler unlocked and the timer marked
  running. \<open>None\<close> also when a timer asks to be freed and is a static object
  (\<^verbatim>\<open>rt_object_delete\<close> asserts).\<close>

definition set_flag :: "rt_uint8 \<Rightarrow> timer_ref \<Rightarrow> kernel \<Rightarrow> kernel" where
  "set_flag fl t k = upd_flag (OTimer t) (\<lambda>f. f OR fl) k"

definition clear_flag :: "rt_uint8 \<Rightarrow> timer_ref \<Rightarrow> kernel \<Rightarrow> kernel" where
  "clear_flag fl t k = upd_flag (OTimer t) (\<lambda>f. f AND NOT fl) k"

definition soft_timer_finish :: "timer_ref \<Rightarrow> kernel \<Rightarrow> kernel option" where
  "soft_timer_finish t k =
     (if has_flag RT_TIMER_FLAG_FREE_PENDING t k
      then rt_object_delete (OTimer t)
             (clear_flag (RT_TIMER_FLAG_FREE_PENDING OR RT_TIMER_FLAG_ACTIVATED) t k)
      else rearm t k)"

definition soft_timer_expire :: "callbacks \<Rightarrow> timer_ref \<Rightarrow> kernel \<Rightarrow> (rt_tick \<times> kernel) option" where
  "soft_timer_expire ucb t k = do {
     let k = row_remove t k;
     let k = set_flag RT_TIMER_FLAG_RUNNING t k;
     k \<leftarrow> rt_exit_critical k;
     k \<leftarrow> run_timeout ucb t k;
     let current_tick = rt_tick_get k;
     let k = rt_enter_critical k;
     let k = clear_flag RT_TIMER_FLAG_RUNNING t k;
     k \<leftarrow> soft_timer_finish t k;
     Some (current_tick, k)
   }"

partial_function (option) soft_timer_loop :: "callbacks \<Rightarrow> rt_tick \<Rightarrow> kernel \<Rightarrow> kernel option" where
  "soft_timer_loop ucb current_tick k =
     (case ls_nodes (k_rows k) SoftTimers of
        [] \<Rightarrow> Some k
      | t # _ \<Rightarrow>
          (if timer_due current_tick t k then
             Option.bind (soft_timer_expire ucb t k) (\<lambda>(current_tick, k).
             soft_timer_loop ucb current_tick k)
           else Some k))"

definition rt_soft_timer_check :: "callbacks \<Rightarrow> kernel \<Rightarrow> kernel option" where
  "rt_soft_timer_check ucb k = do {
     let current_tick = rt_tick_get k;
     let k = rt_enter_critical k;
     k \<leftarrow> soft_timer_loop ucb current_tick k;
     rt_exit_critical k
   }"

text \<open>One pass of the timer thread up to the point where it waits, and what it does then.\<close>

definition rt_thread_timer_entry :: "kernel \<Rightarrow> (kernel \<times> outcome) option" where
  "rt_thread_timer_entry k = do {
     let next_timeout = rt_timer_list_next_timeout SoftTimers k;
     (if next_timeout = RT_TICK_MAX then do {
        t \<leftarrow> rt_thread_self k;
        (k, _) \<leftarrow> rt_thread_suspend t k;
        k \<leftarrow> rt_schedule k;
        Some (k, Wait)
      }
      else (let current_tick = rt_tick_get k in
        if next_timeout - current_tick < RT_TICK_HALF
        then rt_thread_delay (next_timeout - current_tick) k
        else Some (k, Done RT_EOK)))
   }"

text \<open>\<^verbatim>\<open>rt_tick_increase\<close>, in the clock interrupt. The watchdog is not modelled.\<close>

definition rt_tick_increase :: "callbacks \<Rightarrow> kernel \<Rightarrow> kernel option" where
  "rt_tick_increase ucb k = do {
     let k = k\<lparr>rt_tick := rt_tick k + 1\<rparr>;
     t \<leftarrow> rt_thread_self k;
     let k = upd_thread t (\<lambda>th. th\<lparr>remaining_tick := remaining_tick th - 1\<rparr>) k;
     k \<leftarrow> (if remaining_tick (k_thread k t) = 0
           then map_option fst (rt_thread_yield
             (upd_thread t (\<lambda>th. th\<lparr>remaining_tick := init_tick th\<rparr>) k))
           else Some k);
     rt_timer_check ucb k
   }"

subsection \<open>The idle thread\<close>

text \<open>\<^verbatim>\<open>rt_thread_idle_excute\<close>: release closed threads until the defunct list is
  empty, or return after one that is a static object. \<open>cl t\<close> is the cleanup function of
  thread \<open>t\<close>; the stack and the object go back to the heap.\<close>

partial_function (option) rt_thread_idle_excute ::
  "(tid \<Rightarrow> kernel \<Rightarrow> kernel option) \<Rightarrow> kernel \<Rightarrow> kernel option" where
  "rt_thread_idle_excute cl k =
     (case tlist_of k DefunctQ of
        [] \<Rightarrow> Some k
      | t # _ \<Rightarrow>
          (if rt_interrupt_nest k \<noteq> 0 then None
           else
             Option.bind (if cleanup (k_thread k t) then cl t (rt_enter_critical (tlist_remove t k))
                          else Some (rt_enter_critical (tlist_remove t k))) (\<lambda>k.
             Option.bind (rt_exit_critical k) (\<lambda>k'.
             (if rt_object_is_systemobject (OThread t) k then Some k'
              else Option.bind (rt_object_delete (OThread t) k') (rt_thread_idle_excute cl))))))"

definition rt_thread_idle_init :: "kernel \<Rightarrow> kernel option" where
  "rt_thread_idle_init k = do {
     (k, _) \<leftarrow> rt_thread_init idle_thread [116, 105, 100, 108, 101] (of_nat RT_THREAD_PRIORITY_MAX - 1) 32 k;
     (k, _) \<leftarrow> rt_thread_startup idle_thread k;
     Some k
   }"

definition rt_system_timer_thread_init :: "kernel \<Rightarrow> kernel option" where
  "rt_system_timer_thread_init k = do {
     let k = k\<lparr>k_rows := (k_rows k)\<lparr>ls_nodes := (ls_nodes (k_rows k))(SoftTimers := [])\<rparr>\<rparr>;
     (k, _) \<leftarrow> rt_thread_init timer_thread [116, 105, 109, 101, 114] 6 10 k;
     (k, _) \<leftarrow> rt_thread_startup timer_thread k;
     Some k
   }"

text \<open>\<^verbatim>\<open>rt_application_init\<close> with the thread object the heap gives, and the
  kernel's part of \<^verbatim>\<open>rtthread_startup\<close>.\<close>

definition rt_application_init :: "tid option \<Rightarrow> bool \<Rightarrow> kernel \<Rightarrow> kernel option" where
  "rt_application_init mem stack k = do {
     (k, tid) \<leftarrow> rt_thread_create [109, 97, 105, 110] (of_nat (RT_THREAD_PRIORITY_MAX div 3)) 20 mem stack k;
     t \<leftarrow> tid;
     map_option fst (rt_thread_startup t k)
   }"

definition rtthread_startup :: "tid option \<Rightarrow> bool \<Rightarrow> kernel \<Rightarrow> kernel option" where
  "rtthread_startup mem stack k = do {
     let k = rt_system_timer_init k;
     let k = rt_system_scheduler_init k;
     k \<leftarrow> rt_application_init mem stack k;
     k \<leftarrow> rt_system_timer_thread_init k;
     k \<leftarrow> rt_thread_idle_init k;
     rt_system_scheduler_start k
   }"

lemmas clock_defs = rt_tick_get_def run_timeout_def deactivate_def has_flag_def rearm_def timer_due_def
  rt_timer_check_def set_flag_def clear_flag_def soft_timer_finish_def soft_timer_expire_def
  rt_soft_timer_check_def rt_thread_timer_entry_def rt_tick_increase_def rt_thread_idle_init_def
  rt_system_timer_thread_init_def rt_application_init_def rtthread_startup_def

declare clock_defs [op_defs]

subsection \<open>The state before the kernel starts\<close>

text \<open>Nothing linked, every structure zero; the timers hold the function they will be
  initialised with.\<close>

definition kernel_zero :: kernel where
  "kernel_zero = \<lparr>k_tlist = ls_empty, k_rows = ls_empty, k_containers = ls_empty,
     k_object = (\<lambda>_. \<lparr>obj_name = replicate RT_NAME_MAX 0, obj_type = 0, obj_flag = 0\<rparr>),
     k_thread = (\<lambda>_. \<lparr>th_error = 0, stat = 0, current_priority = 0, init_priority = 0, number_mask = 0,
       event_set = 0, event_info = 0, init_tick = 0, remaining_tick = 0, cleanup = False\<rparr>),
     k_timer = (\<lambda>t. \<lparr>timeout_func = (case t of ThreadTimer th \<Rightarrow> ThreadTimeout th | Timer n \<Rightarrow> UserTimeout n),
       tm_init_tick = 0, timeout_tick = 0\<rparr>),
     k_sem = (\<lambda>_. 0),
     k_mutex = (\<lambda>_. \<lparr>mx_value = 0, original_priority = 0, hold = 0, owner = None\<rparr>),
     k_event = (\<lambda>_. 0),
     k_mb = (\<lambda>_. \<lparr>msg_pool = [], mb_size = 0, mb_entry = 0, in_offset = 0, out_offset = 0\<rparr>),
     k_mq = (\<lambda>_. \<lparr>mq_msg_size = 0, mq_max_msgs = 0, mq_entry = 0, mq_head = None, mq_tail = None,
       mq_free = None, mq_next = (\<lambda>_. None), mq_data = (\<lambda>_. [])\<rparr>),
     rt_current_thread = None, rt_current_priority = 0, rt_thread_ready_priority_group = 0,
     rt_scheduler_lock_nest = 0, rt_interrupt_nest = 0, rt_tick = 0,
     rt_errno_global = 0\<rparr>"

lemma kernel_zero_simps [simp]:
  "k_tlist kernel_zero = ls_empty" "k_rows kernel_zero = ls_empty" "k_containers kernel_zero = ls_empty"
  "rt_scheduler_lock_nest kernel_zero = 0" "rt_interrupt_nest kernel_zero = 0" "rt_tick kernel_zero = 0"
  "rt_current_thread kernel_zero = None" "rt_thread_ready_priority_group kernel_zero = 0"
  by (simp_all add: kernel_zero_def)

lemma kinv_zero: "kinv kernel_zero"
  by (simp add: kinv_but_def sched_inv_but_def bitmap_ok_def rows_inv_def thread_timers_ok_def
      timer_link_ok_def ls_empty_def prio_ok_def kernel_zero_def ls_wf_def)

end
