(* ===== verification/Rtt_Clock_Inv.thy ===== *)
theory Rtt_Clock_Inv
  imports Rtt_Clock
begin

text \<open>
  The clock interrupt returns, keeps the kernel invariant and leaves no hard timer due, for every
  callback that keeps the same invariant, does not make a timer due and does not restart a
  one-shot timer from its own callback.
\<close>

definition hard_due :: "kernel \<Rightarrow> timer_ref set" where
  "hard_due k = {t \<in> set (ls_nodes (k_rows k) HardTimers). timer_due (rt_tick k) t k}"

text \<open>The invariant during the interrupt: beside \<open>kinv\<close>, the hard list is sorted, a
  periodic timer has a period, user timers have user callbacks, some thread runs and the idle
  thread is ready.\<close>

definition clock_ok :: "kernel \<Rightarrow> bool" where
  "clock_ok k \<longleftrightarrow> kinv k \<and> timers_sorted HardTimers k \<and>
     (\<forall>t. has_flag RT_TIMER_FLAG_PERIODIC t k \<longrightarrow>
        0 < tm_init_tick (k_timer k t) \<and> tm_init_tick (k_timer k t) < RT_TICK_HALF) \<and>
     (\<forall>n. \<exists>m. timeout_func (k_timer k (Timer n)) = UserTimeout m) \<and>
     rt_current_thread k \<noteq> None \<and> thread_state (k_thread k idle_thread) = RT_THREAD_READY"

definition callbacks_ok :: "callbacks \<Rightarrow> bool" where
  "callbacks_ok ucb \<longleftrightarrow> (\<forall>n k. clock_ok k \<longrightarrow> (\<exists>k'. ucb n k = Some k' \<and> clock_ok k' \<and>
     rt_tick k' = rt_tick k \<and> hard_due k' \<subseteq> hard_due k \<and>
     (\<forall>t. timeout_func (k_timer k t) = UserTimeout n \<longrightarrow> ls_on (k_rows k) t = None \<longrightarrow>
        ls_on (k_rows k') t = None \<or> has_flag RT_TIMER_FLAG_PERIODIC t k')))"

lemma clock_okD:
  assumes "clock_ok k"
  shows "kinv k" "timers_sorted HardTimers k" "ls_wf (k_rows k)" "rt_current_thread k \<noteq> None"
    "thread_state (k_thread k idle_thread) = RT_THREAD_READY"
  using assms by (simp_all add: clock_ok_def kinv_but_def rows_inv_def)

subsection \<open>Taking an expired timer off the list\<close>

lemma kinv_row_remove [inv_intro]:
  assumes "kinv k" shows "kinv (row_remove t k)"
proof -
  have "timer_link_ok (row_remove t k) s" for s
    using kinv_timer_link[OF assms, of s] by (auto simp: timer_link_ok_def row_remove_def)
  then show ?thesis
    using assms rows_inv_remove[OF kinvD(2)[OF assms], of t]
    by (simp add: kinv_but_def sched_inv_but_def bitmap_ok_def thread_timers_ok_def row_remove_def)
qed

lemma clock_ok_row_remove:
  assumes "clock_ok k" shows "clock_ok (row_remove t k)"
proof -
  note c = clock_okD[OF assms]
  have "kinv (row_remove t k)" "timers_sorted HardTimers (row_remove t k)"
    by (rule kinv_row_remove[OF c(1)], rule timers_sorted_row_remove[OF c(3,2)])
  moreover have "has_flag fl s (row_remove t k) = has_flag fl s k" "k_timer (row_remove t k) = k_timer k"
    "rt_current_thread (row_remove t k) = rt_current_thread k" "k_thread (row_remove t k) = k_thread k" for fl s
    by (simp_all add: has_flag_def row_remove_def)
  ultimately show ?thesis using assms by (simp add: clock_ok_def)
qed

lemma hard_due_row_remove: "ls_wf (k_rows k) \<Longrightarrow> hard_due (row_remove t k) = hard_due k - {t}"
  by (auto simp: hard_due_def row_remove_def timer_due_def set_ls_nodes_remove)

subsection \<open>Running the timeout function\<close>

lemma run_timeout_spec:
  assumes cb: "callbacks_ok ucb" and ok: "clock_ok k" and t: "t \<in> set (ls_nodes (k_rows k) HardTimers)"
  obtains k1 where "run_timeout ucb t (row_remove t k) = Some k1" "clock_ok k1"
    "rt_tick k1 = rt_tick k" "hard_due k1 \<subseteq> hard_due k - {t}"
    "ls_on (k_rows k1) t = None \<or> has_flag RT_TIMER_FLAG_PERIODIC t k1"
proof (cases t)
  case (ThreadTimer th)
  let ?k0 = "row_remove t k"
  note c = clock_okD[OF ok] and c0 = clock_okD[OF clock_ok_row_remove[OF ok, of t]]
  have "ls_on (k_rows k) t = Some HardTimers" using t c(3) by (simp add: ls_wf_on)
  then have st: "thread_state (k_thread ?k0 th) = RT_THREAD_SUSPEND"
    using kinv_timer_link[OF c(1), of th] ThreadTimer by (simp add: timer_link_ok_def row_remove_def)
  have off: "ls_on (k_rows ?k0) (ThreadTimer th) = None" by (simp add: row_remove_def ThreadTimer)
  have fn: "timeout_func (k_timer ?k0 t) = ThreadTimeout th"
    using kinvD(3)[OF c(1)] by (simp add: ThreadTimer row_remove_def thread_timers_ok_def)
  obtain k1 where k1: "rt_thread_timeout th ?k0 = Some k1" "kinv k1" "keeps ?k0 k1"
    "rt_current_thread k1 \<noteq> None" "k_rows k1 = k_rows ?k0" "k_timer k1 = k_timer ?k0"
    "k_object k1 = k_object ?k0"
    "k_thread k1 = (k_thread ?k0)(th := (k_thread ?k0 th)\<lparr>th_error := - RT_ETIMEOUT,
       stat := RT_THREAD_READY OR (stat (k_thread ?k0 th) AND NOT RT_THREAD_STAT_MASK)\<rparr>)"
    by (rule timeout_suspended[OF c0(1) st off c0(4)]) (rule that; assumption)
  have tick: "rt_tick k1 = rt_tick ?k0" using k1(3) by (simp add: keeps_def)
  have "timers_sorted HardTimers k1"
    using c0(2) by (simp add: timers_sorted_def timer_key_def[abs_def] k1(5,6) tick)
  moreover have "thread_state (k_thread k1 idle_thread) = RT_THREAD_READY"
    using c0(5) by (simp add: k1(8))
  ultimately have "clock_ok k1"
    using clock_ok_row_remove[OF ok, of t] k1(2,4)
    by (simp add: clock_ok_def has_flag_def k1(6,7))
  moreover have "hard_due k1 = hard_due k - {t}"
    using hard_due_row_remove[OF c(3), of t] by (simp add: hard_due_def timer_due_def k1(5,6) tick)
  moreover have "run_timeout ucb t ?k0 = Some k1" using k1(1) fn by (simp add: run_timeout_def)
  ultimately show ?thesis
    by (intro that[of k1]) (simp_all add: tick row_remove_def k1(5))
next
  case (Timer n)
  let ?k0 = "row_remove t k"
  note c = clock_okD[OF ok] and ok0 = clock_ok_row_remove[OF ok, of t]
  obtain m where m: "timeout_func (k_timer ?k0 t) = UserTimeout m"
    using ok Timer by (auto simp: clock_ok_def row_remove_def)
  obtain k1 where k1: "ucb m ?k0 = Some k1" "clock_ok k1" "rt_tick k1 = rt_tick ?k0"
    "hard_due k1 \<subseteq> hard_due ?k0"
    "ls_on (k_rows ?k0) t = None \<longrightarrow> ls_on (k_rows k1) t = None \<or> has_flag RT_TIMER_FLAG_PERIODIC t k1"
    using cb ok0 m unfolding callbacks_ok_def by meson
  then show ?thesis
    using that[of k1] m hard_due_row_remove[OF c(3), of t] by (simp add: run_timeout_def row_remove_def)
qed

subsection \<open>Starting any timer\<close>

lemma rt_timer_stop_tlist:
  "k_rows (fst (rt_timer_stop tm (k\<lparr>k_tlist := L\<rparr>))) = k_rows (fst (rt_timer_stop tm k))"
  "k_object (fst (rt_timer_stop tm (k\<lparr>k_tlist := L\<rparr>))) = k_object (fst (rt_timer_stop tm k))"
  by (simp_all add: rt_timer_stop_def row_remove_def)

lemma insert_thread_fields:
  "rt_schedule_insert_thread t k = Some k' \<Longrightarrow> k_rows k' = k_rows k"
  "rt_schedule_insert_thread t k = Some k' \<Longrightarrow> k_object k' = k_object k"
  "rt_schedule_insert_thread t k = Some k' \<Longrightarrow> k_timer k' = k_timer k"
  by (auto simp: rt_schedule_insert_thread_def tlist_insert_before_def Let_def)

lemma resume_rows:
  assumes "rt_thread_resume t k = Some (k', e)"
  shows "k_rows k' = k_rows k \<and> k_object k' = k_object k \<or>
    k_rows k' = k_rows (fst (rt_timer_stop (ThreadTimer t) k)) \<and>
    k_object k' = k_object (fst (rt_timer_stop (ThreadTimer t) k))"
proof (cases "thread_state (k_thread k t) = RT_THREAD_SUSPEND")
  case True
  then have "rt_schedule_insert_thread t (fst (rt_timer_stop (ThreadTimer t) (tlist_remove t k))) = Some k'"
    using assms by (auto simp: rt_thread_resume_def Let_def)
  then show ?thesis
    using insert_thread_fields(1,2) by (fastforce simp: tlist_remove_def rt_timer_stop_tlist)
qed (use assms in \<open>simp add: rt_thread_resume_def\<close>)

lemma rt_timer_stop_subset:
  "ls_wf (k_rows k) \<Longrightarrow> set (ls_nodes (k_rows (fst (rt_timer_stop tm k))) h) \<subseteq> set (ls_nodes (k_rows k) h)"
  by (auto simp: rt_timer_stop_def row_remove_def set_ls_nodes_remove)

lemma timers_sorted_cong:
  "k_rows k' = k_rows k \<Longrightarrow> k_timer k' = k_timer k \<Longrightarrow> rt_tick k' = rt_tick k \<Longrightarrow>
   timers_sorted h k' = timers_sorted h k"
  by (simp add: timers_sorted_def timer_key_def[abs_def])

text \<open>Waking a thread for the timer code: whatever state it is in, the timers stay sorted.\<close>

lemma resume_any:
  assumes inv: "kinv k"
  obtains k' e where "rt_thread_resume t k = Some (k', e)" "kinv k'" "keeps k k'"
    "rt_current_thread k' = rt_current_thread k" "k_timer k' = k_timer k"
    "\<And>s. thread_state (k_thread k s) = RT_THREAD_READY \<Longrightarrow> thread_state (k_thread k' s) = RT_THREAD_READY"
    "\<And>h. set (ls_nodes (k_rows k') h) \<subseteq> set (ls_nodes (k_rows k) h)"
    "timers_sorted HardTimers k \<Longrightarrow> timers_sorted HardTimers k'"
    "\<And>s. has_flag RT_TIMER_FLAG_PERIODIC s k' = has_flag RT_TIMER_FLAG_PERIODIC s k"
proof (cases "thread_state (k_thread k t) = RT_THREAD_SUSPEND")
  case False
  then have "rt_thread_resume t k = Some (k, - RT_ERROR)" by (simp add: rt_thread_resume_def)
  then show ?thesis using that[of k] inv by auto
next
  case True
  let ?s = "fst (rt_timer_stop (ThreadTimer t) k)"
  obtain k' where k': "rt_thread_resume t k = Some (k', RT_EOK)" "kinv k'"
    "k_thread k' = (k_thread k)(t := (k_thread k t)
           \<lparr>stat := RT_THREAD_READY OR (stat (k_thread k t) AND NOT RT_THREAD_STAT_MASK)\<rparr>)"
    "k_timer k' = k_timer k" "keeps k k'" "rt_current_thread k' = rt_current_thread k"
    by (rule resume_suspended[OF inv True])
  have tick: "rt_tick k' = rt_tick k" using k'(5) by (simp add: keeps_def)
  have wf: "ls_wf (k_rows k)" using kinvD(2)[OF inv] by (simp add: rows_inv_def)
  note rows = resume_rows[OF k'(1)]
  have "timers_sorted HardTimers k'" if srt: "timers_sorted HardTimers k"
    using rows
  proof (elim disjE conjE)
    assume "k_rows k' = k_rows k" then show ?thesis using srt timers_sorted_cong k'(4) tick by blast
  next
    assume "k_rows k' = k_rows ?s"
    moreover have "k_timer k' = k_timer ?s" "rt_tick k' = rt_tick ?s"
      using k'(4) tick keeps_timer_stop[of k "ThreadTimer t"] by (simp_all add: rt_timer_stop_fields keeps_def)
    moreover have "timers_sorted HardTimers ?s" by (rule rt_timer_stop_sorted[OF kinvD(2)[OF inv] srt])
    ultimately show ?thesis using timers_sorted_cong by blast
  qed
  moreover have "set (ls_nodes (k_rows k') h) \<subseteq> set (ls_nodes (k_rows k) h)" for h
    using rows rt_timer_stop_subset[OF wf, of "ThreadTimer t" h] by auto
  moreover have "has_flag RT_TIMER_FLAG_PERIODIC s k' = has_flag RT_TIMER_FLAG_PERIODIC s k" for s
    using rows rt_timer_stop_flag(1)[of "ThreadTimer t" k "OTimer s"] by (auto simp: has_flag_def)
  ultimately show ?thesis
    using that[of k' RT_EOK] k' by simp
qed

lemma timer_start_spec:
  assumes inv: "kinv k" and cur: "rt_current_thread k \<noteq> None"
    and idle: "thread_state (k_thread k s) = RT_THREAD_READY"
    and small: "tm_init_tick (k_timer k tm) < RT_TICK_HALF"
    and own: "\<And>t. tm = ThreadTimer t \<Longrightarrow> thread_state (k_thread k t) = RT_THREAD_SUSPEND"
  obtains k1 k' where "timer_enqueue tm k = Some k1" "rt_timer_start tm k = Some (k', RT_EOK)" "kinv k'"
    "keeps k k'" "rt_current_thread k' \<noteq> None" "k_timer k' = k_timer k1"
    "\<And>h. set (ls_nodes (k_rows k') h) \<subseteq> set (ls_nodes (k_rows k1) h)"
    "timers_sorted HardTimers k \<Longrightarrow> timers_sorted HardTimers k'"
    "\<And>t. has_flag RT_TIMER_FLAG_PERIODIC t k' = has_flag RT_TIMER_FLAG_PERIODIC t k"
    "\<And>t. thread_state (k_thread k t) = RT_THREAD_READY \<Longrightarrow> thread_state (k_thread k' t) = RT_THREAD_READY"
proof -
  note wf = kinvD(2)[OF inv, unfolded rows_inv_def, THEN conjunct1]
  obtain k1 where k1: "timer_enqueue tm k = Some k1"
    using timer_enqueue_total[OF wf small] by blast
  have inv1: "kinv k1" by (rule kinv_timer_enqueue[OF inv k1]) (use own in auto)
  note f1 = timer_enqueue_fields[OF k1]
  have srt1: "timers_sorted HardTimers k \<Longrightarrow> timers_sorted HardTimers k1"
    using timer_enqueue_sorted[OF kinvD(2)[OF inv] _ k1] by blast
  have fl1: "has_flag RT_TIMER_FLAG_PERIODIC t k1 = has_flag RT_TIMER_FLAG_PERIODIC t k" for t
    using timer_enqueue_flags(1)[OF wf k1] by (simp add: has_flag_def)
  show ?thesis
  proof (cases "obj_flag (k_object k1 (OTimer tm)) AND RT_TIMER_FLAG_SOFT_TIMER \<noteq> 0 \<and>
         thread_state (k_thread k1 timer_thread) \<noteq> RT_THREAD_READY")
    case False
    then have "rt_timer_start tm k = Some (k1, RT_EOK)"
      using k1 by (auto simp: rt_timer_start_def)
    then show ?thesis
      by (rule that[OF k1 _ inv1 f1(6)]) (use cur srt1 fl1 in \<open>simp_all add: f1\<close>)
  next
    case True
    obtain k2 e where k2: "rt_thread_resume timer_thread k1 = Some (k2, e)" "kinv k2" "keeps k1 k2"
      "rt_current_thread k2 = rt_current_thread k1" "k_timer k2 = k_timer k1"
      "\<And>s. thread_state (k_thread k1 s) = RT_THREAD_READY \<Longrightarrow> thread_state (k_thread k2 s) = RT_THREAD_READY"
      "\<And>h. set (ls_nodes (k_rows k2) h) \<subseteq> set (ls_nodes (k_rows k1) h)"
      "timers_sorted HardTimers k1 \<Longrightarrow> timers_sorted HardTimers k2"
      "\<And>s. has_flag RT_TIMER_FLAG_PERIODIC s k2 = has_flag RT_TIMER_FLAG_PERIODIC s k1"
      by (rule resume_any[OF inv1, of timer_thread]) (rule that)
    have rdy2: "thread_state (k_thread k2 s) = RT_THREAD_READY" and cur2: "rt_current_thread k2 \<noteq> None"
      using idle k2(6)[of s] cur by (simp_all add: f1 k2(4))
    obtain k3 where k3: "rt_schedule k2 = Some k3" "kinv k3" "keeps k2 k3" "rt_current_thread k3 \<noteq> None"
      "k_thread k3 = k_thread k2" "k_rows k3 = k_rows k2" "k_timer k3 = k_timer k2" "k_object k3 = k_object k2"
      by (rule schedule_ready[OF k2(2) rdy2 cur2]) (rule that; assumption)
    have tick: "rt_tick k3 = rt_tick k2" using k3(3) by (simp add: keeps_def)
    have "rt_timer_start tm k = Some (k3, RT_EOK)"
      using True k1 k2(1) k3(1) by (auto simp: rt_timer_start_def)
    then show ?thesis
      by (rule that[OF k1 _ k3(2) keeps_trans[OF keeps_trans[OF f1(6) k2(3)] k3(3)] k3(4)])
        (use k2(6-9) srt1 fl1 timers_sorted_cong[OF k3(6,7) tick, of HardTimers]
          in \<open>simp_all add: k3(5-8) k2(5) f1(2) has_flag_def\<close>)
  qed
qed

subsection \<open>Restarting or stopping the expired timer\<close>

lemma timer_enqueue_deactivate: "timer_enqueue t (deactivate t k) = timer_enqueue t k"
proof -
  have "timer_armed t (deactivate t k) = timer_armed t k"
    by (simp add: timer_armed_def deactivate_def and.assoc)
  moreover have "timer_thead t (deactivate t k) = timer_thead t k"
    by (simp add: timer_thead_def deactivate_def and.assoc)
  moreover have "k_timer (deactivate t k) = k_timer k" by (simp add: deactivate_def)
  ultimately show ?thesis by (simp add: timer_enqueue_alt)
qed

lemma rt_timer_start_deactivate: "rt_timer_start t (deactivate t k) = rt_timer_start t k"
  by (simp add: rt_timer_start_def timer_enqueue_deactivate)

text \<open>A timer started for a positive time below the limit is not due.\<close>

lemma not_due_after:
  fixes now d :: rt_tick
  assumes "0 < d" "d < RT_TICK_HALF"
  shows "\<not> now - (now + d) < RT_TICK_HALF"
proof -
  have d: "0 < unat d" "unat d < 2147483647"
    using assms by (simp_all add: word_less_nat_alt unat_gt_0)
  have "now - (now + d) = - d" by simp
  moreover have "unat (- d) = 2 ^ 32 - unat d"
    using d unat_sub_if'[of 0 d] by (simp add: word_le_nat_alt)
  ultimately show ?thesis using d by (simp add: word_less_nat_alt)
qed

lemma clock_ok_deactivate:
  assumes ok: "clock_ok k" and off: "ls_on (k_rows k) t = None"
  shows "clock_ok (deactivate t k)" "hard_due (deactivate t k) = hard_due k"
    "rt_tick (deactivate t k) = rt_tick k"
proof -
  note c = clock_okD[OF ok]
  have out: "t \<notin> set (ls_nodes (k_rows k) h)" for h using off c(3) by (simp add: ls_wf_unlinked)
  have "rows_inv (deactivate t k)"
    using kinvD(2)[OF c(1)] out by (auto simp: rows_inv_def deactivate_def)
  moreover have "thread_timers_ok {} (deactivate t k)"
    using kinvD(3)[OF c(1)] by (auto simp: thread_timers_ok_def timer_link_ok_def deactivate_def)
  moreover have "sched_inv (deactivate t k)"
    using kinvD(1)[OF c(1)] by (simp add: sched_inv_but_def bitmap_ok_def deactivate_def)
  moreover have "has_flag RT_TIMER_FLAG_PERIODIC s (deactivate t k) = has_flag RT_TIMER_FLAG_PERIODIC s k" for s
    by (simp add: has_flag_def deactivate_def)
  moreover have "timers_sorted HardTimers (deactivate t k)"
    using c(2) by (simp add: timers_sorted_def timer_key_def[abs_def] deactivate_def)
  ultimately show "clock_ok (deactivate t k)"
    using ok by (simp add: clock_ok_def kinv_but_def) (simp add: deactivate_def)
  show "hard_due (deactivate t k) = hard_due k" "rt_tick (deactivate t k) = rt_tick k"
    by (simp_all add: hard_due_def timer_due_def deactivate_def)
qed

lemma rearm_spec:
  assumes ok: "clock_ok k" and l: "ls_on (k_rows k) t = None \<or> has_flag RT_TIMER_FLAG_PERIODIC t k"
  obtains k' where "rearm t k = Some k'" "clock_ok k'" "rt_tick k' = rt_tick k" "hard_due k' \<subseteq> hard_due k"
proof (cases "has_flag RT_TIMER_FLAG_PERIODIC t k \<and> has_flag RT_TIMER_FLAG_ACTIVATED t k")
  case False
  note c = clock_okD[OF ok]
  have "ls_on (k_rows k) t = None"
  proof (rule ccontr)
    assume "ls_on (k_rows k) t \<noteq> None"
    then obtain h where "t \<in> set (ls_nodes (k_rows k) h)" using c(3) by (auto simp: ls_wf_on)
    then have "has_flag RT_TIMER_FLAG_ACTIVATED t k"
      using kinvD(2)[OF c(1)] by (auto simp: rows_inv_def has_flag_def)
    then show False using l False \<open>ls_on (k_rows k) t \<noteq> None\<close> by simp
  qed
  moreover have "rearm t k = Some (deactivate t k)" using False by (auto simp: rearm_def)
  ultimately show ?thesis using that clock_ok_deactivate[OF ok] by auto
next
  case True
  note c = clock_okD[OF ok]
  have per: "0 < tm_init_tick (k_timer k t)" "tm_init_tick (k_timer k t) < RT_TICK_HALF"
    using ok True by (auto simp: clock_ok_def)
  have own: "thread_state (k_thread k th) = RT_THREAD_SUSPEND" if "t = ThreadTimer th" for th
    using kinvD(3)[OF c(1)] True that by (simp add: thread_timers_ok_def has_flag_def)
  obtain k1 k' where k1: "timer_enqueue t k = Some k1" and k': "rt_timer_start t k = Some (k', RT_EOK)"
    "kinv k'" "keeps k k'" "rt_current_thread k' \<noteq> None" "k_timer k' = k_timer k1"
    "\<And>h. set (ls_nodes (k_rows k') h) \<subseteq> set (ls_nodes (k_rows k1) h)"
    "timers_sorted HardTimers k \<Longrightarrow> timers_sorted HardTimers k'"
    "\<And>s. has_flag RT_TIMER_FLAG_PERIODIC s k' = has_flag RT_TIMER_FLAG_PERIODIC s k"
    "\<And>s. thread_state (k_thread k s) = RT_THREAD_READY \<Longrightarrow> thread_state (k_thread k' s) = RT_THREAD_READY"
    by (rule timer_start_spec[OF c(1,4,5) per(2) own]) (assumption, rule that)
  note r = timer_enqueue_rows[OF c(3) k1]
  have tick: "rt_tick k' = rt_tick k" using k'(3) by (simp add: keeps_def)
  have tms: "k_timer k' = (k_timer k)(t := (k_timer k t)\<lparr>timeout_tick := rt_tick k + tm_init_tick (k_timer k t)\<rparr>)"
    by (simp add: k'(5) r(4))
  have "clock_ok k'"
    using ok k'(2,4) k'(7)[OF c(2)] k'(8) k'(9)[OF c(5)]
    by (auto simp: clock_ok_def tms)
  moreover have "hard_due k' \<subseteq> hard_due k"
  proof
    fix x assume x: "x \<in> hard_due k'"
    then have "x \<in> set (ls_nodes (k_rows k1) HardTimers)" and due: "timer_due (rt_tick k) x k'"
      using k'(6)[of HardTimers] by (auto simp: hard_due_def tick)
    moreover have "x \<noteq> t"
      using due not_due_after[OF per, of "rt_tick k"] by (auto simp: timer_due_def tms)
    ultimately show "x \<in> hard_due k"
      using set_timer_enqueue[OF c(3) k1, of HardTimers]
      by (auto simp: hard_due_def timer_due_def tms split: if_splits)
  qed
  moreover have "rearm t k = Some k'" using True k'(1) by (simp add: rearm_def rt_timer_start_deactivate)
  ultimately show ?thesis using that tick by blast
qed

subsection \<open>The expiry loop\<close>

lemma timer_due_key:
  assumes "timer_key k x \<le> unat RT_TICK_HALF"
  shows "timer_due (rt_tick k) x k \<longleftrightarrow> timer_key k x \<le> 1"
proof -
  define w where "w = timeout_tick (k_timer k x) - rt_tick k + 1"
  have e: "rt_tick k - timeout_tick (k_timer k x) = 1 - w" by (simp add: w_def)
  have w: "unat w \<le> 2147483647" using assms by (simp add: timer_key_def w_def)
  show ?thesis
  proof (cases "w \<le> 1")
    case True
    then have "unat (1 - w) = 1 - unat w" by (subst unat_sub) simp_all
    then show ?thesis using True
      by (simp add: timer_due_def e timer_key_def w_def[symmetric] word_less_nat_alt word_le_nat_alt)
  next
    case False
    then have "unat (1 - w) = 2 ^ 32 + 1 - unat w" using unat_sub_if'[of 1 w] by (simp add: word_le_nat_alt)
    then show ?thesis using False w
      by (simp add: timer_due_def e timer_key_def w_def[symmetric] word_less_nat_alt word_le_nat_alt)
  qed
qed

lemma sorted_none_due:
  assumes "timers_sorted HardTimers k" "ls_nodes (k_rows k) HardTimers = t # ts" "\<not> timer_due (rt_tick k) t k"
  shows "hard_due k = {}"
proof -
  have small: "timer_key k x \<le> unat RT_TICK_HALF" "timer_key k t \<le> timer_key k x"
    if "x \<in> set (t # ts)" for x
    using assms(1,2) that by (auto simp: timers_sorted_def)
  have "\<not> timer_due (rt_tick k) x k" if "x \<in> set (t # ts)" for x
    using small[OF that] timer_due_key[of k x] timer_due_key[of k t] assms(3) small[of t] by auto
  then show ?thesis using assms(2) by (auto simp: hard_due_def)
qed

lemma timer_check_loop_spec:
  assumes cb: "callbacks_ok ucb" and "clock_ok k"
  shows "\<exists>k'. timer_check_loop ucb (rt_tick k) k = Some k' \<and> clock_ok k' \<and> rt_tick k' = rt_tick k \<and>
    hard_due k' = {}"
  using assms(2)
proof (induction "card (hard_due k)" arbitrary: k rule: less_induct)
  case less
  note c = clock_okD[OF less.prems]
  show ?case
  proof (cases "ls_nodes (k_rows k) HardTimers")
    case Nil
    then have "timer_check_loop ucb (rt_tick k) k = Some k" by (simp add: timer_check_loop.simps)
    then show ?thesis using Nil less.prems by (simp add: hard_due_def)
  next
    case (Cons t ts)
    show ?thesis
    proof (cases "timer_due (rt_tick k) t k")
      case False
      then have "timer_check_loop ucb (rt_tick k) k = Some k"
        using Cons by (simp add: timer_check_loop.simps)
      then show ?thesis using sorted_none_due[OF c(2) Cons False] less.prems by simp
    next
      case True
      have t: "t \<in> set (ls_nodes (k_rows k) HardTimers)" using Cons by simp
      obtain k1 where k1: "run_timeout ucb t (row_remove t k) = Some k1" "clock_ok k1"
        "rt_tick k1 = rt_tick k" "hard_due k1 \<subseteq> hard_due k - {t}"
        "ls_on (k_rows k1) t = None \<or> has_flag RT_TIMER_FLAG_PERIODIC t k1"
        by (rule run_timeout_spec[OF cb less.prems t])
      obtain k2 where k2: "rearm t k1 = Some k2" "clock_ok k2" "rt_tick k2 = rt_tick k1"
        "hard_due k2 \<subseteq> hard_due k1"
        by (rule rearm_spec[OF k1(2,5)])
      have "t \<in> hard_due k" using t True by (simp add: hard_due_def)
      then have "card (hard_due k2) < card (hard_due k)"
        using k1(4) k2(4) by (intro psubset_card_mono) (auto simp: hard_due_def)
      from less.hyps[OF this k2(2)] obtain k' where k': "timer_check_loop ucb (rt_tick k2) k2 = Some k'"
        "clock_ok k'" "rt_tick k' = rt_tick k2" "hard_due k' = {}" by blast
      have "timer_check_loop ucb (rt_tick k) k = Some k'"
        using Cons True k1(1,3) k2(1,3) k'(1)
        by (subst timer_check_loop.simps) (simp add: rt_tick_get_def Let_def)
      then show ?thesis using k' k2(3) k1(3) by simp
    qed
  qed
qed

subsection \<open>The clock interrupt\<close>

text \<open>Between two interrupts no hard timer is overdue.\<close>

definition clock_inv :: "kernel \<Rightarrow> bool" where
  "clock_inv k \<longleftrightarrow> clock_ok k \<and> (\<forall>t \<in> set (ls_nodes (k_rows k) HardTimers). 0 < timer_key k t)"

lemma timer_key_tick:
  assumes "0 < timer_key k t"
  shows "timer_key (k\<lparr>rt_tick := rt_tick k + 1\<rparr>) t = timer_key k t - 1"
proof -
  define w where "w = timeout_tick (k_timer k t) - rt_tick k + 1"
  have "timeout_tick (k_timer k t) - (rt_tick k + 1) + 1 = w - 1" by (simp add: w_def)
  moreover have "w \<noteq> 0" using assms by (auto simp: timer_key_def w_def)
  then have "unat (w - 1) = unat w - 1" by (simp add: unat_minus_one)
  ultimately show ?thesis by (simp add: timer_key_def w_def)
qed

lemma clock_ok_tick:
  assumes "clock_inv k"
  shows "clock_ok (k\<lparr>rt_tick := rt_tick k + 1\<rparr>)"
proof -
  let ?k = "k\<lparr>rt_tick := rt_tick k + 1\<rparr>" and ?xs = "ls_nodes (k_rows k) HardTimers"
  have ok: "clock_ok k" and pos: "\<And>t. t \<in> set ?xs \<Longrightarrow> 0 < timer_key k t"
    using assms by (auto simp: clock_inv_def)
  have key: "timer_key ?k t = timer_key k t - 1" if "t \<in> set ?xs" for t
    by (rule timer_key_tick[OF pos[OF that]])
  have "map (timer_key ?k) ?xs = map (\<lambda>n. n - 1) (map (timer_key k) ?xs)"
    using key by simp
  moreover have "sorted (map (\<lambda>n. n - 1) ns)" if "sorted ns" for ns :: "nat list"
    using that by (induction ns) auto
  ultimately have "sorted (map (timer_key ?k) ?xs)"
    using clock_okD(2)[OF ok] unfolding timers_sorted_def by metis
  then have "timers_sorted HardTimers ?k"
    using clock_okD(2)[OF ok] key by (fastforce simp: timers_sorted_def)
  moreover have "kinv ?k"
    using clock_okD(1)[OF ok] by (simp add: kinv_but_def sched_inv_but_def bitmap_ok_def rows_inv_def
        thread_timers_ok_def timer_link_ok_def)
  ultimately show ?thesis using ok by (simp add: clock_ok_def has_flag_def)
qed

lemma clock_ok_thread:
  assumes ok: "clock_ok k" and "stat (f (k_thread k t)) = stat (k_thread k t)"
    "current_priority (f (k_thread k t)) = current_priority (k_thread k t)"
    "init_priority (f (k_thread k t)) = init_priority (k_thread k t)"
    "number_mask (f (k_thread k t)) = number_mask (k_thread k t)"
  shows "clock_ok (upd_thread t f k)"
proof -
  have "kinv (upd_thread t f k)"
    by (rule kinv_upd_thread_same[OF clock_okD(1)[OF ok]]) (use assms in simp_all)
  moreover have "timers_sorted HardTimers (upd_thread t f k)"
    using clock_okD(2)[OF ok] by (simp add: timers_sorted_def timer_key_def[abs_def])
  ultimately show ?thesis
    using ok assms(2) by (auto simp: clock_ok_def has_flag_def)
qed

lemma clock_ok_yield:
  assumes ok: "clock_ok k"
  obtains k' where "rt_thread_yield k = Some (k', RT_EOK)" "clock_ok k'" "rt_tick k' = rt_tick k"
proof -
  note c = clock_okD[OF ok]
  obtain t where t: "rt_current_thread k = Some t" using c(4) by blast
  obtain k' where k': "rt_thread_yield k = Some (k', RT_EOK)" "kinv k'" "keeps k k'"
    "rt_current_thread k' \<noteq> None" "k_thread k' = k_thread k" "k_rows k' = k_rows k"
    "k_timer k' = k_timer k" "k_object k' = k_object k"
    by (rule yield_spec[OF c(1) t c(5)]) (rule that; assumption)
  have tick: "rt_tick k' = rt_tick k" using k'(3) by (simp add: keeps_def)
  have "clock_ok k'"
    using ok k'(2,4) timers_sorted_cong[OF k'(6,7) tick] by (simp add: clock_ok_def has_flag_def k'(5-8))
  then show ?thesis using that k'(1) tick by blast
qed

lemma tick_increase_spec:
  assumes cb: "callbacks_ok ucb" and inv: "clock_inv k"
  shows "\<exists>k'. rt_tick_increase ucb k = Some k' \<and> clock_inv k' \<and> rt_tick k' = rt_tick k + 1 \<and> hard_due k' = {}"
proof -
  let ?k1 = "k\<lparr>rt_tick := rt_tick k + 1\<rparr>"
  have ok1: "clock_ok ?k1" by (rule clock_ok_tick[OF inv])
  obtain t where t: "rt_current_thread ?k1 = Some t" using clock_okD(4)[OF ok1] by blast
  let ?k2 = "upd_thread t (\<lambda>th. th\<lparr>remaining_tick := remaining_tick th - 1\<rparr>) ?k1"
  have ok2: "clock_ok ?k2" by (rule clock_ok_thread[OF ok1]) simp_all
  let ?k3 = "upd_thread t (\<lambda>th. th\<lparr>remaining_tick := init_tick th\<rparr>) ?k2"
  have ok3: "clock_ok ?k3" by (rule clock_ok_thread[OF ok2]) simp_all
  obtain k4 where k4: "(if remaining_tick (k_thread ?k2 t) = 0 then map_option fst (rt_thread_yield ?k3)
      else Some ?k2) = Some k4" "clock_ok k4" "rt_tick k4 = rt_tick k + 1"
  proof (cases "remaining_tick (k_thread ?k2 t) = 0")
    case True
    obtain k' where "rt_thread_yield ?k3 = Some (k', RT_EOK)" "clock_ok k'" "rt_tick k' = rt_tick ?k3"
      by (rule clock_ok_yield[OF ok3])
    then show ?thesis using that[of k'] True by simp
  next
    case False
    then show ?thesis using that[of ?k2] ok2 by simp
  qed
  obtain k' where k': "timer_check_loop ucb (rt_tick k4) k4 = Some k'" "clock_ok k'" "rt_tick k' = rt_tick k4"
    "hard_due k' = {}"
    using timer_check_loop_spec[OF cb k4(2)] by blast
  have "rt_tick_increase ucb k = Some k'"
    using t k4(1) k'(1)
    by (simp add: rt_tick_increase_def rt_thread_self_def Let_def rt_timer_check_def rt_tick_get_def cong: if_cong)
  moreover have "0 < timer_key k' x" if "x \<in> set (ls_nodes (k_rows k') HardTimers)" for x
    using that k'(4) timer_due_key[of k' x] clock_okD(2)[OF k'(2)]
    by (auto simp: hard_due_def timers_sorted_def)
  ultimately show ?thesis using k' k4(3) by (auto simp: clock_inv_def)
qed

end
