(* ===== verification/Rtt_Boot.thy ===== *)
theory Rtt_Boot
  imports Rtt_Clock_Inv
begin

text \<open>
  The kernel starts: initialising the first threads, and the state
  \<^verbatim>\<open>rtthread_startup\<close> reaches from a kernel with nothing linked.
\<close>

definition fresh_thread :: "rt_uint8 \<Rightarrow> rt_uint32 \<Rightarrow> rt_thread \<Rightarrow> rt_thread" where
  "fresh_thread priority tick th = th\<lparr>init_priority := priority, current_priority := priority,
     number_mask := 0, init_tick := tick, remaining_tick := tick,
     th_error := RT_EOK, stat := RT_THREAD_INIT, cleanup := False\<rparr>"

lemma fresh_thread_simps [simp]:
  "stat (fresh_thread p tick th) = 0" "init_priority (fresh_thread p tick th) = p"
  "current_priority (fresh_thread p tick th) = p" "number_mask (fresh_thread p tick th) = 0"
  by (simp_all add: fresh_thread_def)

lemma timer_information [simp]: "rt_object_get_information 9 = Some RT_Object_Class_Timer"
  and thread_information [simp]: "rt_object_get_information 0 = Some RT_Object_Class_Thread"
  by code_simp+

lemma thread_init'_spec:
  assumes inv: "kinv k" and off: "ls_on (k_tlist k) t = None" and p: "unat priority < 32"
    and rows: "ls_on (k_rows k) (ThreadTimer t) = None"
    and cont: "ls_on (k_containers k) (OTimer (ThreadTimer t)) = None"
  obtains k' where "rt_thread_init' t priority tick k = Some k'" "kinv k'" "keeps k k'"
    "k_thread k' = (k_thread k)(t := fresh_thread priority tick (k_thread k t))"
    "k_tlist k' = k_tlist k" "k_rows k' = k_rows k"
    "ls_on (k_containers k') = (ls_on (k_containers k))(OTimer (ThreadTimer t) \<mapsto> RT_Object_Class_Timer)"
    "rt_current_thread k' = rt_current_thread k"
    "\<And>n. obj_flag (k_object k' (OTimer (Timer n))) = obj_flag (k_object k (OTimer (Timer n)))"
    "\<And>n. k_timer k' (Timer n) = k_timer k (Timer n)"
    "obj_flag (k_object k' (OTimer (ThreadTimer t))) AND RT_TIMER_FLAG_PERIODIC = 0"
proof -
  obtain k' where k': "rt_thread_init' t priority tick k = Some k'"
    using assms by (simp add: rt_thread_init'_def tlist_init_def Let_def rt_timer_init_def rt_object_init_def
        container_insert_def ls_insert_after_head_def timer_setup_def row_init_def)
  have inv': "kinv k'" by (rule kinv_thread_init'[OF inv k'])
  show ?thesis
    by (rule that[OF k' inv'])
      (use assms k' kinvD(3)[OF inv'] in \<open>auto simp: rt_thread_init'_def tlist_init_def Let_def rt_timer_init_def rt_object_init_def
        container_insert_def ls_insert_after_head_def timer_setup_def row_init_def fresh_thread_def keeps_def
        thread_timers_ok_def\<close>)
qed

text \<open>The objects a thread consists of are new.\<close>

definition unused_thread :: "tid \<Rightarrow> kernel \<Rightarrow> bool" where
  "unused_thread t k \<longleftrightarrow> ls_on (k_tlist k) t = None \<and> ls_on (k_rows k) (ThreadTimer t) = None \<and>
     ls_on (k_containers k) (OTimer (ThreadTimer t)) = None \<and> ls_on (k_containers k) (OThread t) = None"

lemma object_init_thread:
  assumes "kinv k" "ls_on (k_containers k) (OThread t) = None"
  obtains k' where "rt_object_init (OThread t) (class_code RT_Object_Class_Thread) nm k = Some k'" "kinv k'"
    "k_tlist k' = k_tlist k" "k_thread k' = k_thread k" "k_rows k' = k_rows k" "k_timer k' = k_timer k" "keeps k k'"
    "rt_current_thread k' = rt_current_thread k"
    "ls_on (k_containers k') = (ls_on (k_containers k))(OThread t \<mapsto> RT_Object_Class_Thread)"
    "\<And>tm. obj_flag (k_object k' (OTimer tm)) = obj_flag (k_object k (OTimer tm))"
proof -
  obtain k' where k': "rt_object_init (OThread t) (class_code RT_Object_Class_Thread) nm k = Some k'"
    using assms(2) by (simp add: rt_object_init_def container_insert_def ls_insert_after_head_def)
  have inv': "kinv k'" by (rule kinv_frame_objects[OF assms(1) rt_object_init_frame[OF k']])
  show ?thesis
    by (rule that[OF k' inv'])
      (use assms k' in \<open>auto simp: rt_object_init_def container_insert_def ls_insert_after_head_def keeps_def\<close>)
qed

lemma thread_init_spec:
  assumes inv: "kinv k" and new: "unused_thread t k" and p: "unat priority < 32"
  obtains k' where "rt_thread_init t nm priority tick k = Some (k', RT_EOK)" "kinv k'" "keeps k k'"
    "k_thread k' = (k_thread k)(t := fresh_thread priority tick (k_thread k t))"
    "k_tlist k' = k_tlist k" "k_rows k' = k_rows k"
    "ls_on (k_containers k') = (ls_on (k_containers k))(OThread t \<mapsto> RT_Object_Class_Thread,
       OTimer (ThreadTimer t) \<mapsto> RT_Object_Class_Timer)"
    "rt_current_thread k' = rt_current_thread k"
    "\<And>n. obj_flag (k_object k' (OTimer (Timer n))) = obj_flag (k_object k (OTimer (Timer n)))"
    "\<And>n. k_timer k' (Timer n) = k_timer k (Timer n)"
proof -
  obtain k1 where k1: "rt_object_init (OThread t) (class_code RT_Object_Class_Thread) nm k = Some k1" "kinv k1"
    "k_tlist k1 = k_tlist k" "k_thread k1 = k_thread k" "k_rows k1 = k_rows k" "k_timer k1 = k_timer k" "keeps k k1"
    "rt_current_thread k1 = rt_current_thread k"
    "ls_on (k_containers k1) = (ls_on (k_containers k))(OThread t \<mapsto> RT_Object_Class_Thread)"
    "\<And>tm. obj_flag (k_object k1 (OTimer tm)) = obj_flag (k_object k (OTimer tm))"
    by (rule object_init_thread[OF inv, of t]) (use new in \<open>simp add: unused_thread_def\<close>, rule that)
  have off1: "ls_on (k_tlist k1) t = None" "ls_on (k_rows k1) (ThreadTimer t) = None"
    "ls_on (k_containers k1) (OTimer (ThreadTimer t)) = None"
    using new by (simp_all add: unused_thread_def k1)
  obtain k2 where k2: "rt_thread_init' t priority tick k1 = Some k2" "kinv k2" "keeps k1 k2"
    "k_thread k2 = (k_thread k1)(t := fresh_thread priority tick (k_thread k1 t))"
    "k_tlist k2 = k_tlist k1" "k_rows k2 = k_rows k1"
    "ls_on (k_containers k2) = (ls_on (k_containers k1))(OTimer (ThreadTimer t) \<mapsto> RT_Object_Class_Timer)"
    "rt_current_thread k2 = rt_current_thread k1"
    "\<And>n. obj_flag (k_object k2 (OTimer (Timer n))) = obj_flag (k_object k1 (OTimer (Timer n)))"
    "\<And>n. k_timer k2 (Timer n) = k_timer k1 (Timer n)"
    by (rule thread_init'_spec[OF k1(2) off1(1) p off1(2,3)]) (rule that)
  have "rt_thread_init t nm priority tick k = Some (k2, RT_EOK)"
    using k1(1) k2(1) by (simp add: rt_thread_init_def)
  then show ?thesis
    by (rule that[OF _ k2(2) keeps_trans[OF k1(7) k2(3)]]) (simp_all add: k1 k2)
qed

text \<open>A thread that was never initialised, in a kernel that keeps the invariant.\<close>

lemma unused_threadI:
  assumes "kinv k" "thread_state (k_thread k t) = RT_THREAD_INIT"
    "ls_on (k_containers k) (OTimer (ThreadTimer t)) = None" "ls_on (k_containers k) (OThread t) = None"
  shows "unused_thread t k"
proof -
  have "ls_on (k_tlist k) t = None"
    using sched_inv_place[OF kinvD(1)[OF assms(1)], of t] assms(2)
    by (cases "(k_thread k t, ls_on (k_tlist k) t)" rule: place_ok.cases) auto
  moreover have "ls_on (k_rows k) (ThreadTimer t) = None"
    using kinv_timer_link[OF assms(1), of t] assms(2) by (auto simp: timer_link_ok_def)
  ultimately show ?thesis using assms(3,4) by (simp add: unused_thread_def)
qed

text \<open>Initialising and starting a thread.\<close>

lemma init_startup:
  assumes inv: "kinv k" and new: "unused_thread t k" and p: "unat priority < 32"
  obtains k1 k' where "rt_thread_init t nm priority tick k = Some (k1, RT_EOK)"
    "rt_thread_startup t k1 = Some (k', RT_EOK)" "kinv k'"
    "thread_state (k_thread k' t) = RT_THREAD_READY" "\<And>s. s \<noteq> t \<Longrightarrow> k_thread k' s = k_thread k s"
    "ls_on (k_containers k') = (ls_on (k_containers k))(OThread t \<mapsto> RT_Object_Class_Thread,
       OTimer (ThreadTimer t) \<mapsto> RT_Object_Class_Timer)"
    "rt_current_thread k' = None \<longleftrightarrow> rt_current_thread k = None" "keeps k k'"
    "current_priority (k_thread k' t) = priority"
proof -
  obtain k1 where k1: "rt_thread_init t nm priority tick k = Some (k1, RT_EOK)" "kinv k1" "keeps k k1"
    "k_thread k1 = (k_thread k)(t := fresh_thread priority tick (k_thread k t))"
    "k_tlist k1 = k_tlist k" "k_rows k1 = k_rows k"
    "ls_on (k_containers k1) = (ls_on (k_containers k))(OThread t \<mapsto> RT_Object_Class_Thread,
       OTimer (ThreadTimer t) \<mapsto> RT_Object_Class_Timer)"
    "rt_current_thread k1 = rt_current_thread k"
    by (rule thread_init_spec[OF inv new p]) (rule that; assumption)
  have st1: "thread_state (k_thread k1 t) = RT_THREAD_INIT" and tm1: "ls_on (k_rows k1) (ThreadTimer t) = None"
    using new by (simp_all add: k1 unused_thread_def)
  obtain k' where k': "rt_thread_startup t k1 = Some (k', RT_EOK)" "kinv k'" "keeps k1 k'"
    "thread_state (k_thread k' t) = RT_THREAD_READY"
    "current_priority (k_thread k' t) = init_priority (k_thread k1 t)"
    "\<forall>s. s \<noteq> t \<longrightarrow> k_thread k' s = k_thread k1 s" "k_containers k' = k_containers k1"
    "rt_current_thread k1 = None \<longleftrightarrow> rt_current_thread k' = None"
    by (rule startup_spec[OF k1(2) st1 tm1]) (rule that; assumption)
  show ?thesis
    by (rule that[OF k1(1) k'(1,2,4)]) (use k' k1 keeps_trans[OF k1(3) k'(3)] in auto)
qed

text \<open>Starting from nothing linked: the first thread comes from the heap.\<close>

lemma create_zero:
  assumes inv: "kinv k" and new: "unused_thread t k" and isr: "rt_interrupt_nest k = 0" and p: "unat priority < 32"
  obtains k' where "rt_thread_create nm priority tick (Some t) True k = Some (k', Some t)" "kinv k'" "keeps k k'"
    "k_thread k' = (k_thread k)(t := fresh_thread priority tick (k_thread k t))"
    "k_tlist k' = k_tlist k" "k_rows k' = k_rows k"
    "ls_on (k_containers k') = (ls_on (k_containers k))(OThread t \<mapsto> RT_Object_Class_Thread,
       OTimer (ThreadTimer t) \<mapsto> RT_Object_Class_Timer)"
    "rt_current_thread k' = rt_current_thread k"
proof -
  obtain k1 where k1: "rt_object_allocate 0 nm (Some (OThread t)) k = Some (k1, Some (OThread t))"
    and e: "k_tlist k1 = k_tlist k" "k_thread k1 = k_thread k" "k_rows k1 = k_rows k" "k_timer k1 = k_timer k" "keeps k k1"
    "rt_current_thread k1 = rt_current_thread k"
    "ls_on (k_containers k1) = (ls_on (k_containers k))(OThread t \<mapsto> RT_Object_Class_Thread)"
    "\<And>tm. obj_flag (k_object k1 (OTimer tm)) = obj_flag (k_object k (OTimer tm))"
    "rt_thread_ready_priority_group k1 = rt_thread_ready_priority_group k"
    using new isr by (auto simp: rt_object_allocate_def container_insert_def ls_insert_after_head_def
        unused_thread_def keeps_def)
  have k1inv: "kinv k1"
    using inv by (simp add: kinv_but_def sched_inv_but_def bitmap_ok_def rows_inv_def
        thread_timers_ok_def timer_link_ok_def e)
  have off1: "ls_on (k_tlist k1) t = None" "ls_on (k_rows k1) (ThreadTimer t) = None"
    "ls_on (k_containers k1) (OTimer (ThreadTimer t)) = None"
    using new by (simp_all add: unused_thread_def e)
  obtain k2 where k2: "rt_thread_init' t priority tick k1 = Some k2" "kinv k2" "keeps k1 k2"
    "k_thread k2 = (k_thread k1)(t := fresh_thread priority tick (k_thread k1 t))"
    "k_tlist k2 = k_tlist k1" "k_rows k2 = k_rows k1"
    "ls_on (k_containers k2) = (ls_on (k_containers k1))(OTimer (ThreadTimer t) \<mapsto> RT_Object_Class_Timer)"
    "rt_current_thread k2 = rt_current_thread k1"
    by (rule thread_init'_spec[OF k1inv off1(1) p off1(2,3)]) (rule that; assumption)
  have "rt_thread_create nm priority tick (Some t) True k = Some (k2, Some t)"
    using k1 k2(1) by (simp add: rt_thread_create_def)
  then show ?thesis
    by (rule that[OF _ k2(2) keeps_trans[OF e(5) k2(3)]]) (simp_all add: e k2)
qed

lemma boot_spec:
  assumes t: "2 \<le> t"
  shows "\<exists>k. rtthread_startup (Some t) True kernel_zero = Some k \<and> kinv k \<and> highest_runs k \<and>
    (\<forall>s \<in> {idle_thread, timer_thread, t}. thread_state (k_thread k s) = RT_THREAD_READY) \<and>
    rt_tick k = 0 \<and> rt_scheduler_lock_nest k = 0"
proof -
  let ?k0 = "rt_system_scheduler_init (rt_system_timer_init kernel_zero)"
  have e0: "k_tlist ?k0 = ls_empty" "k_rows ?k0 = ls_empty" "k_containers ?k0 = ls_empty"
    "k_thread ?k0 = k_thread kernel_zero" "rt_interrupt_nest ?k0 = 0" "rt_current_thread ?k0 = None" "rt_tick ?k0 = 0"
    "rt_scheduler_lock_nest ?k0 = 0"
    by (simp_all add: rt_system_scheduler_init_def rt_system_timer_init_def ls_empty_def fun_eq_iff split: qhead.splits)
  have inv0: "kinv ?k0"
    using kinv_zero by (simp add: kinv_but_def sched_inv_but_def bitmap_ok_def rows_inv_def thread_timers_ok_def
        timer_link_ok_def e0) (simp add: rt_system_scheduler_init_def rt_system_timer_init_def ls_empty_def)
  have st0: "thread_state (k_thread ?k0 s) = RT_THREAD_INIT" for s
    unfolding e0(4) by (simp add: kernel_zero_def)
  have new0: "unused_thread s ?k0" for s
    by (rule unused_threadI[OF inv0 st0]) (simp_all add: e0 ls_empty_def)
  let ?p = "of_nat (RT_THREAD_PRIORITY_MAX div 3) :: rt_uint8"
  have p10: "unat ?p < 32" by simp
  obtain k1 where k1: "rt_thread_create [109, 97, 105, 110] ?p 20 (Some t) True ?k0 = Some (k1, Some t)"
    "kinv k1" "keeps ?k0 k1" "k_thread k1 = (k_thread ?k0)(t := fresh_thread ?p 20 (k_thread ?k0 t))"
    "k_tlist k1 = k_tlist ?k0" "k_rows k1 = k_rows ?k0"
    "ls_on (k_containers k1) = (ls_on (k_containers ?k0))(OThread t \<mapsto> RT_Object_Class_Thread,
       OTimer (ThreadTimer t) \<mapsto> RT_Object_Class_Timer)" "rt_current_thread k1 = rt_current_thread ?k0"
    by (rule create_zero[OF inv0 new0 e0(5) p10])
  have st1: "thread_state (k_thread k1 t) = RT_THREAD_INIT" and tm1: "ls_on (k_rows k1) (ThreadTimer t) = None"
    by (simp_all add: k1(4,6) e0 ls_empty_def)
  obtain k2 where k2: "rt_thread_startup t k1 = Some (k2, RT_EOK)" "kinv k2" "keeps k1 k2"
    "thread_state (k_thread k2 t) = RT_THREAD_READY"
    "\<forall>s. s \<noteq> t \<longrightarrow> k_thread k2 s = k_thread k1 s" "k_containers k2 = k_containers k1"
    "rt_current_thread k1 = None \<longleftrightarrow> rt_current_thread k2 = None"
    "ls_on (k_rows k2) = (ls_on (k_rows k1))(ThreadTimer t := None)"
    by (rule startup_spec[OF k1(2) st1 tm1]) (rule that; assumption)
  have soft: "ls_nodes (k_rows k2) h = []" for h
  proof -
    have "ls_wf (k_rows k2)" using kinvD(2)[OF k2(2)] by (simp add: rows_inv_def)
    then have "x \<notin> set (ls_nodes (k_rows k2) h)" for x
      using ls_wf_on[of "k_rows k2" x h] by (simp add: k2(8) k1(6) e0 ls_empty_def split: if_splits)
    then show ?thesis by (meson list.set_sel(1))
  qed
  then have clear: "k2\<lparr>k_rows := (k_rows k2)\<lparr>ls_nodes := (ls_nodes (k_rows k2))(SoftTimers := [])\<rparr>\<rparr> = k2"
    by (simp add: fun_upd_idem)
  have new2: "unused_thread timer_thread k2"
    by (rule unused_threadI[OF k2(2)]) (use t st0 in \<open>simp_all add: k2(5,6) k1(4,7) e0(3) ls_empty_def\<close>)
  have p6: "unat (6 :: rt_uint8) < 32" and p31: "unat (of_nat RT_THREAD_PRIORITY_MAX - 1 :: rt_uint8) < 32" by simp_all
  obtain k3 k4 where k4: "rt_thread_init timer_thread [116, 105, 109, 101, 114] 6 10 k2 = Some (k3, RT_EOK)"
    "rt_thread_startup timer_thread k3 = Some (k4, RT_EOK)" "kinv k4"
    "thread_state (k_thread k4 timer_thread) = RT_THREAD_READY"
    "\<And>s. s \<noteq> timer_thread \<Longrightarrow> k_thread k4 s = k_thread k2 s"
    "ls_on (k_containers k4) = (ls_on (k_containers k2))(OThread timer_thread \<mapsto> RT_Object_Class_Thread,
       OTimer (ThreadTimer timer_thread) \<mapsto> RT_Object_Class_Timer)"
    "rt_current_thread k4 = None \<longleftrightarrow> rt_current_thread k2 = None" "keeps k2 k4"
    by (rule init_startup[OF k2(2) new2 p6]) (rule that; assumption)
  have new4: "unused_thread idle_thread k4"
    by (rule unused_threadI[OF k4(3)]) (use t st0 in \<open>simp_all add: k4(5,6) k2(5,6) k1(4,7) e0(3) ls_empty_def\<close>)
  obtain k5 k6 where k6: "rt_thread_init idle_thread [116, 105, 100, 108, 101] (of_nat RT_THREAD_PRIORITY_MAX - 1) 32 k4 = Some (k5, RT_EOK)"
    "rt_thread_startup idle_thread k5 = Some (k6, RT_EOK)" "kinv k6"
    "thread_state (k_thread k6 idle_thread) = RT_THREAD_READY"
    "\<And>s. s \<noteq> idle_thread \<Longrightarrow> k_thread k6 s = k_thread k4 s" "keeps k4 k6"
    by (rule init_startup[OF k4(3) new4 p31]) (rule that; assumption)
  have bm: "bitmap_ok k6" using kinvD(1)[OF k6(3)] by (simp add: sched_inv_but_def)
  obtain p where p: "p < RT_THREAD_PRIORITY_MAX" "tlist_of k6 (ReadyQ p) \<noteq> []"
    using ready_some_ready[OF kinvD(1)[OF k6(3)] k6(4)] by (auto simp: some_ready_def)
  obtain q r where h: "highest_ready k6 = Some (q, r)" using highest_ready_total[OF bm p] by blast
  let ?k = "k6\<lparr>rt_current_thread := Some r\<rparr>"
  have run: "rtthread_startup (Some t) True kernel_zero = Some ?k"
    using k1(1) k2(1) k4(1,2) k6(1,2) h clear
    by (simp add: rtthread_startup_def rt_application_init_def rt_system_timer_thread_init_def
        rt_thread_idle_init_def rt_system_scheduler_start_def Let_def)
  have "kinv ?k"
    using k6(3) by (simp add: kinv_but_def sched_inv_but_def bitmap_ok_def rows_inv_def thread_timers_ok_def
        timer_link_ok_def)
  moreover have "highest_runs ?k"
    using highest_ready_Some[OF bm h] unfolding highest_runs_def by (intro exI[of _ q]) auto
  moreover have "thread_state (k_thread ?k s) = RT_THREAD_READY" if "s \<in> {idle_thread, timer_thread, t}" for s
    using that t k6(4,5) k4(4,5) k2(4) by auto
  moreover have "rt_tick ?k = 0 \<and> rt_scheduler_lock_nest ?k = 0"
    using k1(3) k2(3) k4(8) k6(6) e0(7,8) by (simp add: keeps_def)
  ultimately show ?thesis using run by blast
qed

subsection \<open>A small running kernel\<close>

text \<open>The idle thread and one thread of priority 10, which runs; the concrete state the
  examples start from.\<close>

definition running_thread :: "rt_uint8 \<Rightarrow> rt_thread" where
  "running_thread p = \<lparr>th_error = 0, stat = RT_THREAD_READY, current_priority = p, init_priority = p,
     number_mask = push_bit (unat p) 1, event_set = 0, event_info = 0, init_tick = 10, remaining_tick = 10,
     cleanup = False\<rparr>"

definition kernel_two :: kernel where
  "kernel_two = kernel_zero\<lparr>
     k_tlist := \<lparr>ls_nodes = (\<lambda>_. [])(ReadyQ 31 := [0], ReadyQ 10 := [2]),
       ls_on = [0 \<mapsto> ReadyQ 31, 2 \<mapsto> ReadyQ 10]\<rparr>,
     k_thread := (k_thread kernel_zero)(0 := running_thread 31, 2 := running_thread 10),
     rt_thread_ready_priority_group := 0x80000400,
     rt_current_thread := Some 2, rt_current_priority := 10\<rparr>"

lemma kernel_two_bits: "\<forall>p \<in> set [0..<32]. bit (0x80000400 :: rt_uint32) p \<longleftrightarrow> p = 10 \<or> p = 31"
  by code_simp

lemma clock_inv_two: "clock_inv kernel_two"
proof -
  have "ls_wf (k_tlist kernel_two)" by (auto simp: ls_wf_def kernel_two_def)
  moreover have "bitmap_ok kernel_two"
    using kernel_two_bits by (auto simp: bitmap_ok_def kernel_two_def split: if_splits)
  moreover have "prio_ok (k_thread kernel_two t) \<and> place_ok (k_thread kernel_two t) (ls_on (k_tlist kernel_two) t)" for t
    by (cases "t = 0"; cases "t = 2")
      (simp_all add: kernel_two_def running_thread_def prio_ok_def prio_mask_def kernel_zero_def)
  ultimately have "sched_inv kernel_two" by (simp add: sched_inv_but_def)
  moreover have "rows_inv kernel_two" by (simp add: rows_inv_def kernel_two_def ls_empty_def ls_wf_def)
  moreover have "thread_timers_ok {} kernel_two"
    by (simp add: thread_timers_ok_def timer_link_ok_def kernel_two_def ls_empty_def) (simp add: kernel_zero_def)
  moreover have "timers_sorted HardTimers kernel_two"
    by (simp add: timers_sorted_def kernel_two_def ls_empty_def)
  ultimately show ?thesis
    by (simp add: clock_inv_def clock_ok_def kinv_but_def)
      (simp add: kernel_two_def kernel_zero_def has_flag_def running_thread_def ls_empty_def)
qed

lemma kinv_two: "kinv kernel_two"
  using clock_inv_two by (simp add: clock_inv_def clock_ok_def)

end
