(* ===== verification/Rtt_Ipc.thy ===== *)
theory Rtt_Ipc
  imports Rtt_Thread_Inv
begin

text \<open>
  The waiting lists all IPC objects share (first part of
  \<^verbatim>\<open>rt-thread/src/ipc.c\<close>): suspending the caller in arrival or priority order,
  resuming the first or all waiters. \<open>ipc_wait\<close> is the sequence every blocking call runs
  between its check and its \<^verbatim>\<open>rt_schedule()\<close>.
\<close>

definition rt_ipc_list_suspend :: "qhead \<Rightarrow> tid \<Rightarrow> rt_uint8 \<Rightarrow> kernel \<Rightarrow> kernel option" where
  "rt_ipc_list_suspend h t flag k = do {
     (k, _) \<leftarrow> rt_thread_suspend t k;
     (if flag = RT_IPC_FLAG_FIFO then tlist_insert_before h t k
      else if flag = RT_IPC_FLAG_PRIO then
        (case find (\<lambda>s. current_priority (k_thread k t) < current_priority (k_thread k s)) (tlist_of k h) of
           Some s \<Rightarrow> tlist_insert_before_thread s t k
         | None \<Rightarrow> tlist_insert_before h t k)
      else Some k)
   }"

text \<open>\<open>None\<close>: the list is empty, and its head is used as a thread.\<close>

definition rt_ipc_list_resume :: "qhead \<Rightarrow> kernel \<Rightarrow> kernel option" where
  "rt_ipc_list_resume h k =
     (case tlist_of k h of [] \<Rightarrow> None | t # _ \<Rightarrow> map_option fst (rt_thread_resume t k))"

partial_function (option) rt_ipc_list_resume_all :: "qhead \<Rightarrow> kernel \<Rightarrow> kernel option" where
  "rt_ipc_list_resume_all h k =
     (case tlist_of k h of
        [] \<Rightarrow> Some k
      | t # _ \<Rightarrow> Option.bind (rt_thread_resume t (upd_thread t (\<lambda>th. th\<lparr>th_error := - RT_ERROR\<rparr>) k))
                  (\<lambda>(k, _). rt_ipc_list_resume_all h k))"

text \<open>\<^verbatim>\<open>RT_DEBUG_IN_THREAD_CONTEXT\<close>.\<close>

definition in_thread_context :: "kernel \<Rightarrow> tid option" where
  "in_thread_context k = (if rt_interrupt_nest k \<noteq> 0 then None else rt_thread_self k)"

text \<open>\<^verbatim>\<open>rt_set_errno\<close> and \<^verbatim>\<open>_rt_errno\<close>: the error of the running
  thread, or the global one in interrupts and before the first thread.\<close>

definition rt_set_errno :: "rt_err \<Rightarrow> kernel \<Rightarrow> kernel" where
  "rt_set_errno e k =
     (case in_thread_context k of
        None \<Rightarrow> k\<lparr>rt_errno_global := e\<rparr>
      | Some t \<Rightarrow> upd_thread t (\<lambda>th. th\<lparr>th_error := e\<rparr>) k)"

definition rt_errno :: "kernel \<Rightarrow> rt_err" where
  "rt_errno k = (case in_thread_context k of None \<Rightarrow> rt_errno_global k | Some t \<Rightarrow> th_error (k_thread k t))"

definition start_wait_timer :: "tid \<Rightarrow> int \<Rightarrow> kernel \<Rightarrow> kernel option" where
  "start_wait_timer t time k =
     (if 0 < time then
        map_option fst (rt_timer_start (ThreadTimer t)
          (fst (rt_timer_control (ThreadTimer t) (RT_TIMER_CTRL_SET_TIME (of_int time)) k)))
      else Some k)"

definition ipc_wait :: "qhead \<Rightarrow> rt_uint8 \<Rightarrow> int \<Rightarrow> tid \<Rightarrow> kernel \<Rightarrow> kernel option" where
  "ipc_wait h flag time t k = do {
     k \<leftarrow> rt_ipc_list_suspend h t flag k;
     k \<leftarrow> start_wait_timer t time k;
     rt_schedule k
   }"

abbreviation set_error :: "tid \<Rightarrow> rt_err \<Rightarrow> kernel \<Rightarrow> kernel" where
  "set_error t e \<equiv> upd_thread t (\<lambda>th. th\<lparr>th_error := e\<rparr>)"

lemmas ipc_defs = rt_ipc_list_suspend_def rt_ipc_list_resume_def in_thread_context_def
  start_wait_timer_def ipc_wait_def

declare ipc_defs [op_defs]

subsection \<open>Where a waiter goes\<close>

text \<open>At the end, or before the first waiter of lower urgency.\<close>

definition wait_list :: "rt_uint8 \<Rightarrow> (tid \<Rightarrow> rt_uint8) \<Rightarrow> tid \<Rightarrow> tid list \<Rightarrow> tid list" where
  "wait_list flag prio t xs =
     (if flag = RT_IPC_FLAG_FIFO then xs @ [t]
      else takeWhile (\<lambda>s. \<not> prio t < prio s) xs @ t # dropWhile (\<lambda>s. \<not> prio t < prio s) xs)"

lemma set_wait_list [simp]: "set (wait_list flag prio t xs) = insert t (set xs)"
proof -
  have "set (takeWhile P xs) \<union> set (dropWhile P xs) = set xs" for P
    by (metis set_append takeWhile_dropWhile_id)
  then show ?thesis by (auto simp: wait_list_def)
qed

lemma insert_before_first:
  assumes "find (\<lambda>s. \<not> P s) xs = Some s" "distinct xs"
  shows "insert_before_elem s t xs = takeWhile P xs @ t # dropWhile P xs"
  using assms
proof (induction xs)
  case (Cons x xs)
  then show ?case
  proof (cases "P x")
    case True
    then have f: "find (\<lambda>s. \<not> P s) xs = Some s" using Cons.prems(1) by simp
    then have "s \<in> set xs" by (auto simp: find_Some_iff)
    then have "x \<noteq> s" using Cons.prems(2) by auto
    then show ?thesis using True Cons.IH[OF f] Cons.prems(2) by simp
  qed simp
qed simp

text \<open>Waiting lists in priority order stay in it.\<close>

lemma wait_list_sorted:
  assumes "sorted (map prio xs)" "flag \<noteq> RT_IPC_FLAG_FIFO"
  shows "sorted (map prio (wait_list flag prio t xs))"
proof -
  let ?f = "\<lambda>s. unat (prio s)"
  have "sorted (map ?f xs)" using assms(1) by (simp add: sorted_map word_le_nat_alt)
  then have "sorted (map ?f (takeWhile (\<lambda>s. \<not> prio t < prio s) xs @ t # dropWhile (\<lambda>s. \<not> prio t < prio s) xs))"
    by (rule sorted_insert_while) (auto simp: word_less_nat_alt)
  then show ?thesis using assms(2)
    by (simp only: wait_list_def if_False) (simp add: sorted_map word_le_nat_alt sorted_wrt_append)
qed

text \<open>Only the lists of objects are used for waiting.\<close>

fun wait_head :: "qhead \<Rightarrow> bool" where
  "wait_head (ReadyQ _) = False" | "wait_head DefunctQ = False" | "wait_head _ = True"

lemma wait_head_place: "wait_head h \<Longrightarrow> place_ok th (Some h) \<longleftrightarrow> thread_state th = RT_THREAD_SUSPEND"
  by (cases h) auto

text \<open>Linking a suspended thread to a waiting list.\<close>

lemma kinv_link_waiter:
  assumes inv: "kinv k" and st: "thread_state (k_thread k t) = RT_THREAD_SUSPEND"
    and off: "ls_on (k_tlist k) t = None" and h: "wait_head h"
    and set: "set xs = insert t (set (tlist_of k h))" and dist: "distinct xs"
  shows "kinv (k\<lparr>k_tlist := \<lparr>ls_nodes = (ls_nodes (k_tlist k))(h := xs), ls_on = (ls_on (k_tlist k))(t \<mapsto> h)\<rparr>\<rparr>)"
proof -
  let ?L = "\<lparr>ls_nodes = (ls_nodes (k_tlist k))(h := xs), ls_on = (ls_on (k_tlist k))(t \<mapsto> h)\<rparr>"
  have wf: "ls_wf ?L" by (rule ls_wf_insert[OF sched_inv_wf[OF kinvD(1)[OF inv]] off set dist])
  have "place_ok (k_thread k s) (ls_on ?L s)" for s
    using sched_inv_place[OF kinvD(1)[OF inv], of s] st wait_head_place[OF h] by simp
  moreover have "bitmap_ok (k\<lparr>k_tlist := ?L\<rparr>)"
    using kinvD(1)[OF inv] h by (auto simp: bitmap_ok_def sched_inv_but_def)
  ultimately show ?thesis
    using inv wf by (simp add: kinv_but_def sched_inv_but_def rows_inv_def thread_timers_ok_def timer_link_ok_def)
qed

lemma distinct_wait_list:
  assumes "distinct xs" "t \<notin> set xs" shows "distinct (wait_list flag prio t xs)"
  unfolding wait_list_def using assms distinct_insert_while[OF assms] by simp

text \<open>Suspending a ready thread on a waiting list.\<close>

lemma list_suspend_spec:
  assumes inv: "kinv k" and st: "thread_state (k_thread k t) = RT_THREAD_READY"
    and h: "wait_head h" and fl: "flag = RT_IPC_FLAG_FIFO \<or> flag = RT_IPC_FLAG_PRIO"
  obtains k' where "rt_ipc_list_suspend h t flag k = Some k'" "kinv k'" "keeps k k'"
    "ls_on (k_tlist k') = (ls_on (k_tlist k))(t \<mapsto> h)"
    "tlist_of k' h = wait_list flag (\<lambda>s. current_priority (k_thread k s)) t (tlist_of k h)"
    "\<And>g. g \<noteq> h \<Longrightarrow> tlist_of k' g = remove1 t (tlist_of k g)"
    "k_thread k' = (k_thread k)(t := (k_thread k t)
       \<lparr>stat := RT_THREAD_SUSPEND OR (stat (k_thread k t) AND NOT RT_THREAD_STAT_MASK)\<rparr>)"
    "ls_on (k_rows k') = (ls_on (k_rows k))(ThreadTimer t := None)"
    "rt_current_thread k' = rt_current_thread k" "k_timer k' = k_timer k" "k_containers k' = k_containers k"
proof -
  obtain k1 where k1: "rt_thread_suspend t k = Some (k1, RT_EOK)" "kinv k1"
    "ls_on (k_tlist k1) = (ls_on (k_tlist k))(t := None)" "\<And>h. tlist_of k1 h = remove1 t (tlist_of k h)"
    "k_thread k1 = (k_thread k)(t := (k_thread k t)
       \<lparr>stat := RT_THREAD_SUSPEND OR (stat (k_thread k t) AND NOT RT_THREAD_STAT_MASK)\<rparr>)"
    "ls_on (k_rows k1) = (ls_on (k_rows k))(ThreadTimer t := None)" "k_timer k1 = k_timer k" "keeps k k1"
    "rt_current_thread k1 = rt_current_thread k" "k_containers k1 = k_containers k"
    by (rule suspend_ready[OF inv st]) (rule that)
  note wf = sched_inv_wf[OF kinvD(1)[OF inv]] and wf1 = sched_inv_wf[OF kinvD(1)[OF k1(2)]]
  have notin: "t \<notin> set (tlist_of k h)"
    using ready_place[OF kinvD(1)[OF inv] st] h ls_wf_on[OF wf, of t h] by auto
  then have xs: "tlist_of k1 h = tlist_of k h" by (simp add: k1(4) remove1_idem)
  have off1: "ls_on (k_tlist k1) t = None" by (simp add: k1(3))
  let ?prio = "\<lambda>s. current_priority (k_thread k s)"
  let ?xs = "wait_list flag ?prio t (tlist_of k h)"
  let ?L = "\<lparr>ls_nodes = (ls_nodes (k_tlist k1))(h := ?xs), ls_on = (ls_on (k_tlist k1))(t \<mapsto> h)\<rparr>"
  have prio1: "current_priority (k_thread k1 s) = ?prio s" for s by (simp add: k1(5))
  have run: "rt_ipc_list_suspend h t flag k = Some (k1\<lparr>k_tlist := ?L\<rparr>)"
  proof (cases "flag = RT_IPC_FLAG_FIFO")
    case True
    then show ?thesis using k1(1) off1 xs
      by (simp add: rt_ipc_list_suspend_def tlist_insert_before_def ls_insert_before_head_def wait_list_def)
  next
    case False
    then have prio: "flag = RT_IPC_FLAG_PRIO" using fl by simp
    show ?thesis
    proof (cases "find (\<lambda>s. ?prio t < ?prio s) (tlist_of k h)")
      case None
      then have "\<forall>s \<in> set (tlist_of k h). \<not> ?prio t < ?prio s" by (auto simp: find_None_iff)
      then have "takeWhile (\<lambda>s. \<not> ?prio t < ?prio s) (tlist_of k h) = tlist_of k h"
        "dropWhile (\<lambda>s. \<not> ?prio t < ?prio s) (tlist_of k h) = []"
        by (auto simp: takeWhile_eq_all_conv dropWhile_eq_Nil_conv)
      then have "?xs = tlist_of k h @ [t]" using prio by (simp add: wait_list_def)
      then show ?thesis using k1(1) off1 xs prio None
        by (simp add: rt_ipc_list_suspend_def prio1 tlist_insert_before_def ls_insert_before_head_def)
    next
      case (Some s)
      then have "s \<in> set (tlist_of k1 h)" unfolding xs by (auto simp: find_Some_iff)
      then have on: "ls_on (k_tlist k1) s = Some h" using ls_wf_on[OF wf1] by blast
      have "insert_before_elem s t (tlist_of k h) = ?xs"
        using insert_before_first[of "\<lambda>s. \<not> ?prio t < ?prio s", simplified, OF Some ls_wf_distinct[OF wf]] prio
        by (simp add: wait_list_def)
      then show ?thesis using k1(1) off1 xs prio Some on
        by (simp add: rt_ipc_list_suspend_def prio1 tlist_insert_before_thread_def ls_insert_before_node_def)
    qed
  qed
  have "kinv (k1\<lparr>k_tlist := ?L\<rparr>)"
    by (rule kinv_link_waiter[OF k1(2) _ off1 h])
      (simp_all add: k1(5) xs distinct_wait_list ls_wf_distinct[OF wf] notin)
  then show ?thesis
    by (rule that[OF run]) (use k1(8) in \<open>simp_all add: k1(3-7,9,10)\<close>)
qed

text \<open>Starting the timer of a suspended thread, if the call has a timeout.\<close>

lemma start_wait_timer_spec:
  assumes inv: "kinv k1" and st1: "thread_state (k_thread k1 t) = RT_THREAD_SUSPEND"
    and off: "ls_on (k_rows k1) (ThreadTimer t) = None" and time: "time < 2 ^ 31 - 1"
  obtains k2 where "start_wait_timer t time k1 = Some k2" "kinv k2" "keeps k1 k2"
    "k_tlist k2 = k_tlist k1" "k_thread k2 = k_thread k1" "rt_current_thread k2 = rt_current_thread k1"
    "k_containers k2 = k_containers k1"
    "ls_on (k_rows k2) = (ls_on (k_rows k1))(ThreadTimer t := if 0 < time then Some HardTimers else None)"
    "0 < time \<Longrightarrow> timeout_tick (k_timer k2 (ThreadTimer t)) = rt_tick k1 + of_int time"
proof (cases "0 < time")
  case False
  then show ?thesis using that[of k1] inv off by (simp add: start_wait_timer_def fun_eq_iff)
next
  case True
  let ?k = "upd_timer (ThreadTimer t) (\<lambda>tm. tm\<lparr>tm_init_tick := of_int time\<rparr>) k1"
  have k: "kinv ?k" by (rule kinv_set_timer[OF inv]) simp
  have st': "thread_state (k_thread ?k t) = RT_THREAD_SUSPEND" using st1 by simp
  have "unat (of_int time :: rt_tick) = nat time"
    using True time by (simp add: unsigned_of_int take_bit_int_eq_self)
  then have small: "tm_init_tick (k_timer ?k (ThreadTimer t)) < RT_TICK_HALF"
    using True time by (simp add: word_less_nat_alt)
  obtain k2 where "rt_timer_start (ThreadTimer t) ?k = Some (k2, RT_EOK)" "kinv k2" "keeps ?k k2"
    "k_tlist k2 = k_tlist ?k" "k_thread k2 = k_thread ?k" "rt_current_thread k2 = rt_current_thread ?k"
    "k_containers k2 = k_containers ?k"
    "ls_on (k_rows k2) = (ls_on (k_rows ?k))(ThreadTimer t \<mapsto> HardTimers)"
    "timeout_tick (k_timer k2 (ThreadTimer t)) = rt_tick ?k + tm_init_tick (k_timer ?k (ThreadTimer t))"
    by (rule start_thread_timer[OF k st' small])
  then show ?thesis using that[of k2] True by (simp add: start_wait_timer_def)
qed

text \<open>A blocking call up to the point where its caller runs again.\<close>

lemma ipc_wait_spec:
  assumes inv: "kinv k" and st: "thread_state (k_thread k t) = RT_THREAD_READY"
    and h: "wait_head h" and fl: "flag = RT_IPC_FLAG_FIFO \<or> flag = RT_IPC_FLAG_PRIO"
    and cur: "rt_current_thread k \<noteq> None"
    and other: "thread_state (k_thread k s) = RT_THREAD_READY" "s \<noteq> t"
    and time: "time < 2 ^ 31 - 1"
  obtains k' where "ipc_wait h flag time t k = Some k'" "kinv k'" "keeps k k'"
    "ls_on (k_tlist k') = (ls_on (k_tlist k))(t \<mapsto> h)"
    "tlist_of k' h = wait_list flag (\<lambda>s. current_priority (k_thread k s)) t (tlist_of k h)"
    "\<And>g. g \<noteq> h \<Longrightarrow> tlist_of k' g = remove1 t (tlist_of k g)"
    "k_thread k' = (k_thread k)(t := (k_thread k t)
       \<lparr>stat := RT_THREAD_SUSPEND OR (stat (k_thread k t) AND NOT RT_THREAD_STAT_MASK)\<rparr>)"
    "ls_on (k_rows k') = (ls_on (k_rows k))(ThreadTimer t := if 0 < time then Some HardTimers else None)"
    "0 < time \<Longrightarrow> timeout_tick (k_timer k' (ThreadTimer t)) = rt_tick k + of_int time"
    "rt_current_thread k' \<noteq> None" "k_containers k' = k_containers k"
    "rt_scheduler_lock_nest k = 0 \<Longrightarrow> highest_runs k'"
proof -
  obtain k1 where k1: "rt_ipc_list_suspend h t flag k = Some k1" "kinv k1" "keeps k k1"
    "ls_on (k_tlist k1) = (ls_on (k_tlist k))(t \<mapsto> h)"
    "tlist_of k1 h = wait_list flag (\<lambda>s. current_priority (k_thread k s)) t (tlist_of k h)"
    "\<And>g. g \<noteq> h \<Longrightarrow> tlist_of k1 g = remove1 t (tlist_of k g)"
    "k_thread k1 = (k_thread k)(t := (k_thread k t)
       \<lparr>stat := RT_THREAD_SUSPEND OR (stat (k_thread k t) AND NOT RT_THREAD_STAT_MASK)\<rparr>)"
    "ls_on (k_rows k1) = (ls_on (k_rows k))(ThreadTimer t := None)"
    "rt_current_thread k1 = rt_current_thread k" "k_containers k1 = k_containers k"
    by (rule list_suspend_spec[OF inv st h fl]) (rule that)
  have st1: "thread_state (k_thread k1 t) = RT_THREAD_SUSPEND" by (simp add: k1(7))
  have off1: "ls_on (k_rows k1) (ThreadTimer t) = None" by (simp add: k1(8))
  obtain k2 where k2: "start_wait_timer t time k1 = Some k2" "kinv k2" "keeps k1 k2"
    "k_tlist k2 = k_tlist k1" "k_thread k2 = k_thread k1" "rt_current_thread k2 = rt_current_thread k1"
    "k_containers k2 = k_containers k1"
    "ls_on (k_rows k2) = (ls_on (k_rows k1))(ThreadTimer t := if 0 < time then Some HardTimers else None)"
    "0 < time \<Longrightarrow> timeout_tick (k_timer k2 (ThreadTimer t)) = rt_tick k1 + of_int time"
    by (rule start_wait_timer_spec[OF k1(2) st1 off1 time]) (rule that)
  have st2: "thread_state (k_thread k2 s) = RT_THREAD_READY" and cur2: "rt_current_thread k2 \<noteq> None"
    using other cur by (simp_all add: k2(5,6) k1(7,9))
  obtain k3 where k3: "rt_schedule k2 = Some k3" "kinv k3" "keeps k2 k3" "rt_current_thread k3 \<noteq> None"
    "k_tlist k3 = k_tlist k2" "k_thread k3 = k_thread k2" "k_rows k3 = k_rows k2" "k_timer k3 = k_timer k2"
    "k_containers k3 = k_containers k2" "rt_scheduler_lock_nest k2 = 0 \<Longrightarrow> highest_runs k3"
    by (rule schedule_ready[OF k2(2) st2 cur2]) (rule that; assumption)
  have kp: "keeps k k2" using k1(3) k2(3) by (rule keeps_trans)
  have tick: "rt_tick k1 = rt_tick k" and lock: "rt_scheduler_lock_nest k2 = rt_scheduler_lock_nest k"
    using k1(3) kp by (simp_all add: keeps_def)
  have run: "ipc_wait h flag time t k = Some k3"
    using k1(1) k2(1) k3(1) by (simp add: ipc_wait_def)
  show ?thesis
    by (rule that[OF run k3(2) keeps_trans[OF kp k3(3)] _ _ _ _ _ _ k3(4)])
      (use k2(9) k3(10) lock in \<open>simp_all add: k3(5-9) k2(4-8) k1(4-10) tick\<close>)
qed

text \<open>Waking the first waiter.\<close>

lemma waiter_suspended:
  assumes "kinv k" "wait_head h" "t \<in> set (tlist_of k h)"
  shows "thread_state (k_thread k t) = RT_THREAD_SUSPEND" "ls_on (k_tlist k) t = Some h"
proof -
  show on: "ls_on (k_tlist k) t = Some h"
    using assms(3) ls_wf_on[OF sched_inv_wf[OF kinvD(1)[OF assms(1)]]] by simp
  show "thread_state (k_thread k t) = RT_THREAD_SUSPEND"
    using sched_inv_place[OF kinvD(1)[OF assms(1)], of t] on wait_head_place[OF assms(2)] by simp
qed

lemma list_resume_spec:
  assumes inv: "kinv k" and h: "wait_head h" and q: "tlist_of k h = t # ts"
  obtains k' where "rt_ipc_list_resume h k = Some k'" "kinv k'" "keeps k k'"
    "ls_on (k_tlist k') = (ls_on (k_tlist k))(t \<mapsto> ReadyQ (unat (current_priority (k_thread k t))))"
    "tlist_of k' h = ts" "\<And>g. wait_head g \<Longrightarrow> g \<noteq> h \<Longrightarrow> tlist_of k' g = tlist_of k g"
    "k_thread k' = (k_thread k)(t := (k_thread k t)
           \<lparr>stat := RT_THREAD_READY OR (stat (k_thread k t) AND NOT RT_THREAD_STAT_MASK)\<rparr>)"
    "ls_on (k_rows k') = (ls_on (k_rows k))(ThreadTimer t := None)"
    "k_timer k' = k_timer k"
    "rt_current_thread k' = rt_current_thread k" "k_containers k' = k_containers k"
proof -
  have t: "t \<in> set (tlist_of k h)" using q by simp
  note w = waiter_suspended[OF inv h t]
  note wf = sched_inv_wf[OF kinvD(1)[OF inv]]
  obtain k' where k': "rt_thread_resume t k = Some (k', RT_EOK)" "kinv k'"
    "ls_on (k_tlist k') = (ls_on (k_tlist k))(t \<mapsto> ReadyQ (unat (current_priority (k_thread k t))))"
    "\<And>g. tlist_of k' g = (if g = ReadyQ (unat (current_priority (k_thread k t)))
       then tlist_of k g @ [t] else remove1 t (tlist_of k g))"
    "k_thread k' = (k_thread k)(t := (k_thread k t)
           \<lparr>stat := RT_THREAD_READY OR (stat (k_thread k t) AND NOT RT_THREAD_STAT_MASK)\<rparr>)"
    "ls_on (k_rows k') = (ls_on (k_rows k))(ThreadTimer t := None)"
    "k_timer k' = k_timer k" "keeps k k'" "rt_current_thread k' = rt_current_thread k" "k_containers k' = k_containers k"
    by (rule resume_suspended[OF inv w(1)]) (rule that)
  have "t \<notin> set (tlist_of k g)" if "g \<noteq> h" for g
    using ls_wf_head_unique[OF wf t] that by blast
  then have other: "tlist_of k' g = tlist_of k g" if "wait_head g" "g \<noteq> h" for g
    using that by (auto simp: k'(4) remove1_idem)
  have "tlist_of k' h = ts" using h q by (auto simp: k'(4))
  then show ?thesis
    using that[of k'] k' other q by (simp add: rt_ipc_list_resume_def)
qed

text \<open>Waking all waiters with an error.\<close>

lemma resume_all_spec:
  assumes "kinv k" and h: "wait_head h"
  shows "\<exists>k'. rt_ipc_list_resume_all h k = Some k' \<and> kinv k' \<and> keeps k k' \<and> tlist_of k' h = [] \<and>
    (\<forall>g. wait_head g \<longrightarrow> g \<noteq> h \<longrightarrow> tlist_of k' g = tlist_of k g) \<and>
    (\<forall>t \<in> set (tlist_of k h). thread_state (k_thread k' t) = RT_THREAD_READY \<and>
       th_error (k_thread k' t) = - RT_ERROR) \<and>
    (\<forall>t. t \<notin> set (tlist_of k h) \<longrightarrow> k_thread k' t = k_thread k t) \<and>
    rt_current_thread k' = rt_current_thread k \<and> k_containers k' = k_containers k"
  using assms(1)
proof (induction "tlist_of k h" arbitrary: k)
  case Nil
  then have "rt_ipc_list_resume_all h k = Some k" by (simp add: rt_ipc_list_resume_all.simps)
  then show ?case using Nil by simp
next
  case (Cons t ts)
  let ?k1 = "set_error t (- RT_ERROR) k"
  have k1: "kinv ?k1" by (rule kinv_upd_thread_same[OF Cons.prems]) simp_all
  have q1: "tlist_of ?k1 h = t # ts" using Cons.hyps(2) by simp
  obtain k2 where k2: "rt_ipc_list_resume h ?k1 = Some k2" "kinv k2" "keeps ?k1 k2"
    "tlist_of k2 h = ts" "\<And>g. wait_head g \<Longrightarrow> g \<noteq> h \<Longrightarrow> tlist_of k2 g = tlist_of ?k1 g"
    "k_thread k2 = (k_thread ?k1)(t := (k_thread ?k1 t)
           \<lparr>stat := RT_THREAD_READY OR (stat (k_thread ?k1 t) AND NOT RT_THREAD_STAT_MASK)\<rparr>)"
    "rt_current_thread k2 = rt_current_thread ?k1" "k_containers k2 = k_containers ?k1"
    by (rule list_resume_spec[OF k1 h q1]) (rule that)
  obtain e where res: "rt_thread_resume t ?k1 = Some (k2, e)"
    using k2(1) q1 by (auto simp: rt_ipc_list_resume_def)
  obtain k' where k': "rt_ipc_list_resume_all h k2 = Some k'" "kinv k'" "keeps k2 k'" "tlist_of k' h = []"
    "\<forall>g. wait_head g \<longrightarrow> g \<noteq> h \<longrightarrow> tlist_of k' g = tlist_of k2 g"
    "\<forall>t \<in> set ts. thread_state (k_thread k' t) = RT_THREAD_READY \<and> th_error (k_thread k' t) = - RT_ERROR"
    "\<forall>t. t \<notin> set ts \<longrightarrow> k_thread k' t = k_thread k2 t"
    "rt_current_thread k' = rt_current_thread k2" "k_containers k' = k_containers k2"
    using Cons.hyps(1)[of k2] k2(2,4) by (auto simp: k2(4))
  have t: "t \<notin> set ts"
    using ls_wf_distinct[OF sched_inv_wf[OF kinvD(1)[OF Cons.prems]], of h] Cons.hyps(2)[symmetric] by simp
  have "rt_ipc_list_resume_all h k = Some k'"
    using Cons.hyps(2)[symmetric] res k'(1) by (subst rt_ipc_list_resume_all.simps) simp
  moreover have "keeps k k'" using k2(3) k'(3) by (simp add: keeps_def)
  moreover have "thread_state (k_thread k' t) = RT_THREAD_READY \<and> th_error (k_thread k' t) = - RT_ERROR"
    using k'(7) t by (simp add: k2(6))
  moreover have "k_thread k' x = k_thread k x" if "x \<notin> set (t # ts)" for x
    using that k'(7) by (simp add: k2(6))
  ultimately show ?case
    using k' k2(5,7,8) Cons.hyps(2)[symmetric] by simp
qed

subsection \<open>What the IPC objects share\<close>

text \<open>The data of an object is not read by the invariant.\<close>

lemma kinv_objects [simp]:
  "kinv_but X (k\<lparr>k_sem := a\<rparr>) = kinv_but X k" "kinv_but X (k\<lparr>k_mutex := b\<rparr>) = kinv_but X k"
  "kinv_but X (k\<lparr>k_event := c\<rparr>) = kinv_but X k" "kinv_but X (k\<lparr>k_mb := d\<rparr>) = kinv_but X k"
  "kinv_but X (k\<lparr>k_mq := e\<rparr>) = kinv_but X k" "kinv_but X (k\<lparr>rt_errno_global := f\<rparr>) = kinv_but X k"
  "kinv_but X (k\<lparr>rt_scheduler_lock_nest := g\<rparr>) = kinv_but X k"
  by (simp_all add: kinv_but_def sched_inv_but_def bitmap_ok_def rows_inv_def thread_timers_ok_def
      timer_link_ok_def)

text \<open>\<open>rt_ipc_object_init\<close> of a list with waiters would lose them.\<close>

definition rt_ipc_object_init :: "qhead \<Rightarrow> kernel \<Rightarrow> kernel option" where
  "rt_ipc_object_init h k = (if tlist_of k h \<noteq> [] then None else Some k)"

definition obj_ipc_flag :: "oref \<Rightarrow> kernel \<Rightarrow> rt_uint8" where
  "obj_ipc_flag ob k = obj_flag (k_object k ob)"

definition set_obj_flag :: "oref \<Rightarrow> rt_uint8 \<Rightarrow> kernel \<Rightarrow> kernel" where
  "set_obj_flag ob fl k = upd_flag ob (\<lambda>_. fl) k"

declare rt_ipc_object_init_def [op_defs] obj_ipc_flag_def [op_defs] set_obj_flag_def [op_defs]

datatype ipc_cmd = RT_IPC_CMD_RESET rt_uint32 | IpcCmdOther nat

text \<open>An object that is not a timer may get any flag.\<close>

lemma kinv_obj_flag: "kinv k \<Longrightarrow> (\<And>t. ob \<noteq> OTimer t) \<Longrightarrow> kinv (set_obj_flag ob fl k)"
  by (auto simp: set_obj_flag_def kinv_but_def sched_inv_but_def bitmap_ok_def rows_inv_def thread_timers_ok_def
      timer_link_ok_def)

lemma kinv_object_init: "kinv k \<Longrightarrow> rt_object_init ob ty nm k = Some k' \<Longrightarrow> kinv k'"
  by (rule kinv_frame_objects[OF _ rt_object_init_frame(1) rt_object_init_frame(2)])

lemma kinv_set_error: "kinv_but X k \<Longrightarrow> kinv_but X (set_error t e k)"
  by (rule kinv_upd_thread_same) simp_all

lemma rt_errno_set [simp]: "rt_errno (rt_set_errno e k) = e"
  by (auto simp: rt_errno_def rt_set_errno_def in_thread_context_def rt_thread_self_def split: option.split)

lemma kinv_set_errno: "kinv k \<Longrightarrow> kinv (rt_set_errno e k)"
  unfolding rt_set_errno_def
  by (cases "in_thread_context k") (simp_all del: upd_thread_def add: kinv_set_error)

text \<open>What a thread that blocks on list \<open>h\<close> has to find.\<close>

definition can_block :: "tid \<Rightarrow> kernel \<Rightarrow> bool" where
  "can_block t k \<longleftrightarrow> rt_current_thread k = Some t \<and> rt_interrupt_nest k = 0 \<and>
     thread_state (k_thread k t) = RT_THREAD_READY \<and> t \<noteq> idle_thread \<and>
     thread_state (k_thread k idle_thread) = RT_THREAD_READY"

definition valid_flag :: "oref \<Rightarrow> kernel \<Rightarrow> bool" where
  "valid_flag ob k \<longleftrightarrow> obj_ipc_flag ob k = RT_IPC_FLAG_FIFO \<or> obj_ipc_flag ob k = RT_IPC_FLAG_PRIO"

lemma can_blockD:
  assumes "can_block t k"
  shows "rt_current_thread k = Some t" "rt_interrupt_nest k = 0" "thread_state (k_thread k t) = RT_THREAD_READY"
    "idle_thread \<noteq> t" "thread_state (k_thread k idle_thread) = RT_THREAD_READY" "in_thread_context k = Some t"
  using assms by (auto simp: can_block_def in_thread_context_def rt_thread_self_def)

lemma can_block_set_error [simp]: "can_block t (set_error s e k) = can_block t k"
  by (auto simp: can_block_def)

lemma wait_list_not_Nil [simp]: "wait_list flag prio t xs \<noteq> []"
  by (simp add: wait_list_def)

text \<open>The running thread blocks on \<open>h\<close>.\<close>

abbreviation suspended :: "rt_thread \<Rightarrow> rt_thread" where
  "suspended th \<equiv> th\<lparr>stat := RT_THREAD_SUSPEND OR (stat th AND NOT RT_THREAD_STAT_MASK)\<rparr>"

abbreviation readied :: "rt_thread \<Rightarrow> rt_thread" where
  "readied th \<equiv> th\<lparr>stat := RT_THREAD_READY OR (stat th AND NOT RT_THREAD_STAT_MASK)\<rparr>"

lemma block_spec:
  assumes inv: "kinv k" and cb: "can_block t k" and h: "wait_head h"
    and fl: "flag = RT_IPC_FLAG_FIFO \<or> flag = RT_IPC_FLAG_PRIO" and tm: "time < 2 ^ 31 - 1"
  obtains k' where "ipc_wait h flag time t k = Some k'" "kinv k'" "keeps k k'"
    "tlist_of k' h = wait_list flag (\<lambda>s. current_priority (k_thread k s)) t (tlist_of k h)"
    "\<And>g. wait_head g \<Longrightarrow> g \<noteq> h \<Longrightarrow> tlist_of k' g = tlist_of k g"
    "k_thread k' = (k_thread k)(t := suspended (k_thread k t))"
    "ls_on (k_rows k') (ThreadTimer t) = (if 0 < time then Some HardTimers else None)"
    "rt_current_thread k' \<noteq> None" "rt_scheduler_lock_nest k = 0 \<Longrightarrow> highest_runs k'"
    "k_containers k' = k_containers k" "ls_on (k_tlist k') t = Some h"
proof -
  note c = can_blockD[OF cb]
  have cur: "rt_current_thread k \<noteq> None" using c(1) by simp
  obtain k' where k': "ipc_wait h flag time t k = Some k'" "kinv k'" "keeps k k'"
    "ls_on (k_tlist k') = (ls_on (k_tlist k))(t \<mapsto> h)"
    "tlist_of k' h = wait_list flag (\<lambda>s. current_priority (k_thread k s)) t (tlist_of k h)"
    "\<And>g. g \<noteq> h \<Longrightarrow> tlist_of k' g = remove1 t (tlist_of k g)"
    "k_thread k' = (k_thread k)(t := suspended (k_thread k t))"
    "ls_on (k_rows k') = (ls_on (k_rows k))(ThreadTimer t := if 0 < time then Some HardTimers else None)"
    "0 < time \<Longrightarrow> timeout_tick (k_timer k' (ThreadTimer t)) = rt_tick k + of_int time"
    "rt_current_thread k' \<noteq> None" "k_containers k' = k_containers k"
    "rt_scheduler_lock_nest k = 0 \<Longrightarrow> highest_runs k'"
    by (rule ipc_wait_spec[OF inv c(3) h fl cur c(5,4) tm]) (rule that)
  have "t \<notin> set (tlist_of k g)" if "wait_head g" for g
    using waiter_suspended[OF inv that, of t] c(3) by auto
  then have others: "tlist_of k' g = tlist_of k g" if "wait_head g" "g \<noteq> h" for g
    using that by (simp add: k'(6) remove1_idem)
  have on: "ls_on (k_tlist k') t = Some h" and row: "ls_on (k_rows k') (ThreadTimer t) = (if 0 < time then Some HardTimers else None)"
    by (simp_all add: k'(4,8))
  show ?thesis
    by (rule that[OF k'(1-3) k'(5) others k'(7) row k'(10) k'(12) k'(11) on])
qed

subsection \<open>Messages: a waiter is woken for each\<close>

text \<open>What the sends and receives of mailboxes and message queues do last: if a thread waits on
  the other side, resume the first one and schedule.\<close>

definition wake_waiter :: "qhead \<Rightarrow> kernel \<Rightarrow> kernel option" where
  "wake_waiter h k =
     (if tlist_of k h \<noteq> [] then do {
        k \<leftarrow> rt_ipc_list_resume h k;
        rt_schedule k
      }
      else Some k)"

text \<open>A blocking call of these objects either finishes or waits; then it remembers the timeout
  it used and the tick at which its timer was started, and goes on from there when it runs
  again.\<close>

datatype msg_outcome = MDone rt_err | MWait int rt_uint32

text \<open>\<^verbatim>\<open>timeout -= rt_tick_get() - tick_delta\<close> in 32-bit arithmetic, not below 0.\<close>

definition recalc_timeout :: "int \<Rightarrow> rt_uint32 \<Rightarrow> int" where
  "recalc_timeout timeout delta =
     (let t = sint (word_of_int timeout - delta :: rt_uint32) in if t < 0 then 0 else t)"

declare wake_waiter_def [op_defs] recalc_timeout_def [op_defs]

lemma recalc_timeout:
  assumes "0 < timeout" "timeout < 2147483648" "uint delta < 2147483648"
  shows "recalc_timeout timeout delta = (if timeout \<le> uint delta then 0 else timeout - uint delta)"
proof -
  have "word_of_int timeout - delta = (word_of_int (timeout - uint delta) :: rt_uint32)" by simp
  moreover have "sint (word_of_int (timeout - uint delta) :: rt_uint32) = timeout - uint delta"
  proof -
    have ge: "0 \<le> uint delta" by simp
    have "- 2147483648 \<le> timeout - uint delta" "timeout - uint delta < 2147483648"
      using assms ge by linarith+
    then have b: "- (2 ^ 31) \<le> timeout - uint delta" "timeout - uint delta < 2 ^ 31" by simp_all
    have "sint (word_of_int (timeout - uint delta) :: rt_uint32) = signed_take_bit 31 (timeout - uint delta)"
      by (simp add: signed_of_int del: of_int_diff)
    also have "\<dots> = timeout - uint delta" by (rule signed_take_bit_int_eq_self[OF b])
    finally show ?thesis .
  qed
  ultimately show ?thesis unfolding recalc_timeout_def Let_def by auto
qed

lemma wake_waiter_spec:
  assumes inv: "kinv k" and h: "wait_head h" and cur: "rt_current_thread k \<noteq> None"
  obtains k' where "wake_waiter h k = Some k'" "kinv k'" "keeps k k'" "tlist_of k' h = tl (tlist_of k h)"
    "\<And>g. wait_head g \<Longrightarrow> g \<noteq> h \<Longrightarrow> tlist_of k' g = tlist_of k g"
    "k_thread k' = (case tlist_of k h of [] \<Rightarrow> k_thread k | t # _ \<Rightarrow> (k_thread k)(t := readied (k_thread k t)))"
    "rt_current_thread k' \<noteq> None"
    "tlist_of k h \<noteq> [] \<Longrightarrow> rt_scheduler_lock_nest k = 0 \<Longrightarrow> highest_runs k'"
proof (cases "tlist_of k h")
  case Nil
  then show ?thesis using that[of k] inv cur by (simp add: wake_waiter_def)
next
  case (Cons t ts)
  obtain k1 where k1: "rt_ipc_list_resume h k = Some k1" "kinv k1" "keeps k k1"
    "tlist_of k1 h = ts" "\<And>g. wait_head g \<Longrightarrow> g \<noteq> h \<Longrightarrow> tlist_of k1 g = tlist_of k g"
    "k_thread k1 = (k_thread k)(t := readied (k_thread k t))"
    "rt_current_thread k1 = rt_current_thread k"
    by (rule list_resume_spec[OF inv h Cons]) (rule that; assumption)
  have st: "thread_state (k_thread k1 t) = RT_THREAD_READY" and cur1: "rt_current_thread k1 \<noteq> None"
    using cur by (simp_all add: k1(6,7))
  obtain k2 where k2: "rt_schedule k1 = Some k2" "kinv k2" "keeps k1 k2" "rt_current_thread k2 \<noteq> None"
    "k_tlist k2 = k_tlist k1" "k_thread k2 = k_thread k1"
    "rt_scheduler_lock_nest k1 = 0 \<Longrightarrow> highest_runs k2"
    by (rule schedule_ready[OF k1(2) st cur1]) (rule that; assumption)
  have lock: "rt_scheduler_lock_nest k1 = rt_scheduler_lock_nest k" using k1(3) by (simp add: keeps_def)
  have "wake_waiter h k = Some k2" using Cons k1(1) k2(1) by (simp add: wake_waiter_def)
  then show ?thesis
    by (rule that[OF _ k2(2) keeps_trans[OF k1(3) k2(3)] _ _ _ k2(4)])
      (use k1(5) k2(7) lock Cons in \<open>simp_all add: k2(5,6) k1(4,6)\<close>)
qed

text \<open>One wait inside such a call.\<close>

definition msg_wait :: "oref \<Rightarrow> qhead \<Rightarrow> int \<Rightarrow> rt_uint32 \<Rightarrow> tid \<Rightarrow> kernel \<Rightarrow> (kernel \<times> msg_outcome) option" where
  "msg_wait ob h timeout delta t k = do {
     _ \<leftarrow> in_thread_context k;
     let delta = (if 0 < timeout then rt_tick k else delta);
     k \<leftarrow> ipc_wait h (obj_ipc_flag ob k) timeout t k;
     Some (k, MWait timeout delta)
   }"

declare msg_wait_def [op_defs]

text \<open>A call that has to wait and may: its thread goes to the waiting list.\<close>

lemma msg_wait_spec:
  assumes inv: "kinv k" and cb: "can_block t k" and fl: "valid_flag ob k" and h: "wait_head h"
    and tm: "timeout < 2 ^ 31 - 1"
  obtains k' where "msg_wait ob h timeout delta t (set_error t RT_EOK k) = Some (k', MWait timeout (if 0 < timeout then rt_tick k else delta))"
    "kinv k'" "keeps k k'"
    "tlist_of k' h = wait_list (obj_ipc_flag ob k) (\<lambda>s. current_priority (k_thread k s)) t (tlist_of k h)"
    "\<And>g. wait_head g \<Longrightarrow> g \<noteq> h \<Longrightarrow> tlist_of k' g = tlist_of k g"
    "k_thread k' = (k_thread k)(t := suspended ((k_thread k t)\<lparr>th_error := RT_EOK\<rparr>))"
    "ls_on (k_rows k') (ThreadTimer t) = (if 0 < timeout then Some HardTimers else None)"
    "rt_current_thread k' \<noteq> None" "rt_scheduler_lock_nest k = 0 \<Longrightarrow> highest_runs k'"
proof -
  let ?k = "set_error t RT_EOK k"
  have f: "obj_ipc_flag ob ?k = RT_IPC_FLAG_FIFO \<or> obj_ipc_flag ob ?k = RT_IPC_FLAG_PRIO"
    using fl by (simp add: valid_flag_def obj_ipc_flag_def)
  have cb': "can_block t ?k" by (simp only: can_block_set_error cb)
  have prio: "(\<lambda>s. current_priority (k_thread ?k s)) = (\<lambda>s. current_priority (k_thread k s))" by auto
  obtain k' where k': "ipc_wait h (obj_ipc_flag ob ?k) timeout t ?k = Some k'" "kinv k'" "keeps ?k k'"
    "tlist_of k' h = wait_list (obj_ipc_flag ob ?k) (\<lambda>s. current_priority (k_thread ?k s)) t (tlist_of ?k h)"
    "\<And>g. wait_head g \<Longrightarrow> g \<noteq> h \<Longrightarrow> tlist_of k' g = tlist_of ?k g"
    "k_thread k' = (k_thread ?k)(t := suspended (k_thread ?k t))"
    "ls_on (k_rows k') (ThreadTimer t) = (if 0 < timeout then Some HardTimers else None)"
    "rt_current_thread k' \<noteq> None" "rt_scheduler_lock_nest ?k = 0 \<Longrightarrow> highest_runs k'"
    by (rule block_spec[OF kinv_set_error[OF inv] cb' h f tm]) (rule that; assumption)
  have "msg_wait ob h timeout delta t ?k = Some (k', MWait timeout (if 0 < timeout then rt_tick k else delta))"
    using can_blockD(6)[OF cb'] k'(1) by (simp add: msg_wait_def)
  then show ?thesis
    by (rule that[OF _ k'(2) _ _ _ _ k'(7) k'(8)])
      (use k'(3,5,9) in \<open>simp_all add: k'(4)[unfolded prio] k'(6) obj_ipc_flag_def\<close>)
qed

end
