(* ===== verification/Rtt_Sem.thy ===== *)
theory Rtt_Sem
  imports Rtt_Ipc
begin

text \<open>Semaphores (\<^verbatim>\<open>ipc.c\<close>, \<^verbatim>\<open>rt_sem_*\<close>).\<close>

abbreviation sem_queue :: "nat \<Rightarrow> qhead" where "sem_queue i \<equiv> SuspendQ (OSem i)"

definition set_sem :: "nat \<Rightarrow> rt_uint16 \<Rightarrow> kernel \<Rightarrow> kernel" where
  "set_sem i v k = k\<lparr>k_sem := (k_sem k)(i := v)\<rparr>"

definition rt_sem_init :: "nat \<Rightarrow> rt_uint8 list \<Rightarrow> rt_uint32 \<Rightarrow> rt_uint8 \<Rightarrow> kernel \<Rightarrow> (kernel \<times> rt_err) option" where
  "rt_sem_init i nm value flag k = do {
     k \<leftarrow> rt_object_init (OSem i) (class_code RT_Object_Class_Semaphore) nm k;
     k \<leftarrow> rt_ipc_object_init (sem_queue i) k;
     let k = set_sem i (ucast value) k;
     Some (set_obj_flag (OSem i) flag k, RT_EOK)
   }"

definition rt_sem_detach :: "nat \<Rightarrow> kernel \<Rightarrow> (kernel \<times> rt_err) option" where
  "rt_sem_detach i k = do {
     k \<leftarrow> rt_ipc_list_resume_all (sem_queue i) k;
     Some (rt_object_detach (OSem i) k, RT_EOK)
   }"

definition rt_sem_create ::
  "rt_uint8 list \<Rightarrow> rt_uint32 \<Rightarrow> rt_uint8 \<Rightarrow> nat option \<Rightarrow> kernel \<Rightarrow> (kernel \<times> nat option) option" where
  "rt_sem_create nm value flag mem k = do {
     RT_ASSERT (rt_interrupt_nest k = 0);
     (k, _) \<leftarrow> rt_object_allocate (class_code RT_Object_Class_Semaphore) nm (map_option OSem mem) k;
     (case mem of
        None \<Rightarrow> Some (k, None)
      | Some i \<Rightarrow> do {
          k \<leftarrow> rt_ipc_object_init (sem_queue i) k;
          let k = set_sem i (ucast value) k;
          Some (set_obj_flag (OSem i) flag k, Some i)
        })
   }"

definition rt_sem_delete :: "nat \<Rightarrow> kernel \<Rightarrow> (kernel \<times> rt_err) option" where
  "rt_sem_delete i k = do {
     RT_ASSERT (rt_interrupt_nest k = 0);
     k \<leftarrow> rt_ipc_list_resume_all (sem_queue i) k;
     map_option (\<lambda>k. (k, RT_EOK)) (rt_object_delete (OSem i) k)
   }"

definition rt_sem_take :: "nat \<Rightarrow> int \<Rightarrow> kernel \<Rightarrow> (kernel \<times> outcome) option" where
  "rt_sem_take i time k =
     (if 0 < k_sem k i then Some (set_sem i (k_sem k i - 1) k, Done RT_EOK)
      else if time = 0 then Some (k, Done (- RT_ETIMEOUT))
      else do {
        t \<leftarrow> in_thread_context k;
        let k = set_error t RT_EOK k;
        k \<leftarrow> ipc_wait (sem_queue i) (obj_ipc_flag (OSem i) k) time t k;
        Some (k, Wait)
      })"

definition rt_sem_take_leave :: "tid \<Rightarrow> kernel \<Rightarrow> rt_err" where
  "rt_sem_take_leave t k = (if th_error (k_thread k t) \<noteq> RT_EOK then th_error (k_thread k t) else RT_EOK)"

definition rt_sem_trytake :: "nat \<Rightarrow> kernel \<Rightarrow> (kernel \<times> outcome) option" where
  "rt_sem_trytake i k = rt_sem_take i 0 k"

definition rt_sem_release :: "nat \<Rightarrow> kernel \<Rightarrow> (kernel \<times> rt_err) option" where
  "rt_sem_release i k =
     (if tlist_of k (sem_queue i) \<noteq> [] then do {
        k \<leftarrow> rt_ipc_list_resume (sem_queue i) k;
        k \<leftarrow> rt_schedule k;
        Some (k, RT_EOK)
      }
      else Some (set_sem i (k_sem k i + 1) k, RT_EOK))"

fun rt_sem_control :: "nat \<Rightarrow> ipc_cmd \<Rightarrow> kernel \<Rightarrow> (kernel \<times> rt_err) option" where
  "rt_sem_control i (RT_IPC_CMD_RESET value) k = do {
     k \<leftarrow> rt_ipc_list_resume_all (sem_queue i) k;
     let k = set_sem i (ucast value) k;
     k \<leftarrow> rt_schedule k;
     Some (k, RT_EOK)
   }"
| "rt_sem_control i (IpcCmdOther _) k = Some (k, - RT_ERROR)"

lemmas sem_defs = set_sem_def rt_sem_init_def rt_sem_detach_def rt_sem_create_def rt_sem_delete_def
  rt_sem_take_def rt_sem_take_leave_def rt_sem_trytake_def rt_sem_release_def

declare sem_defs [op_defs]

subsection \<open>No thread waits on a semaphore that is available\<close>

definition sem_inv :: "kernel \<Rightarrow> bool" where
  "sem_inv k \<longleftrightarrow> (\<forall>i. 0 < k_sem k i \<longrightarrow> tlist_of k (sem_queue i) = [])"

lemma kinv_set_sem [simp]: "kinv_but X (set_sem i v k) = kinv_but X k"
  by (simp add: set_sem_def)

lemma sem_take_available:
  assumes "0 < k_sem k i"
  shows "rt_sem_take i time k = Some (set_sem i (k_sem k i - 1) k, Done RT_EOK)"
  using assms by (simp add: rt_sem_take_def)

lemma sem_take_poll:
  "k_sem k i = 0 \<Longrightarrow> rt_sem_take i 0 k = Some (k, Done (- RT_ETIMEOUT))"
  by (simp add: rt_sem_take_def)

lemma sem_take_block:
  assumes inv: "kinv k" and cb: "can_block t k" and empty: "k_sem k i = 0" and tm: "time \<noteq> 0" "time < 2 ^ 31 - 1"
    and fl: "valid_flag (OSem i) k"
  obtains k' where "rt_sem_take i time k = Some (k', Wait)" "kinv k'" "keeps k k'"
    "tlist_of k' (sem_queue i)
       = wait_list (obj_ipc_flag (OSem i) k) (\<lambda>s. current_priority (k_thread k s)) t (tlist_of k (sem_queue i))"
    "\<And>g. wait_head g \<Longrightarrow> g \<noteq> sem_queue i \<Longrightarrow> tlist_of k' g = tlist_of k g"
    "k_thread k' = (k_thread k)(t := suspended ((k_thread k t)\<lparr>th_error := RT_EOK\<rparr>))"
    "ls_on (k_rows k') (ThreadTimer t) = (if 0 < time then Some HardTimers else None)"
    "rt_current_thread k' \<noteq> None" "rt_scheduler_lock_nest k = 0 \<Longrightarrow> highest_runs k'"
proof -
  let ?k = "set_error t RT_EOK k"
  have f: "obj_ipc_flag (OSem i) ?k = RT_IPC_FLAG_FIFO \<or> obj_ipc_flag (OSem i) ?k = RT_IPC_FLAG_PRIO"
    using fl by (simp add: valid_flag_def obj_ipc_flag_def)
  have cb': "can_block t ?k" by (simp only: can_block_set_error cb)
  have prio: "(\<lambda>s. current_priority (k_thread ?k s)) = (\<lambda>s. current_priority (k_thread k s))" by auto
  obtain k' where k': "ipc_wait (sem_queue i) (obj_ipc_flag (OSem i) ?k) time t ?k = Some k'" "kinv k'" "keeps ?k k'"
    "tlist_of k' (sem_queue i) = wait_list (obj_ipc_flag (OSem i) ?k) (\<lambda>s. current_priority (k_thread ?k s)) t (tlist_of ?k (sem_queue i))"
    "\<And>g. wait_head g \<Longrightarrow> g \<noteq> sem_queue i \<Longrightarrow> tlist_of k' g = tlist_of ?k g"
    "k_thread k' = (k_thread ?k)(t := suspended (k_thread ?k t))"
    "ls_on (k_rows k') (ThreadTimer t) = (if 0 < time then Some HardTimers else None)"
    "rt_current_thread k' \<noteq> None" "rt_scheduler_lock_nest ?k = 0 \<Longrightarrow> highest_runs k'"
    by (rule block_spec[OF kinv_set_error[OF inv] cb' _ f tm(2), where h = "sem_queue i"]) (simp, rule that)
  have "rt_sem_take i time k = Some (k', Wait)"
    using empty tm can_blockD(6)[OF cb] k'(1) by (simp add: rt_sem_take_def)
  then show ?thesis
    by (rule that[OF _ k'(2) _ _ _ _ k'(7) k'(8)])
      (use k'(3,5,9) in \<open>simp_all add: k'(4)[unfolded prio] k'(6) obj_ipc_flag_def\<close>)
qed

lemma sem_release_wake:
  assumes inv: "kinv k" and q: "tlist_of k (sem_queue i) = t # ts" and cur: "rt_current_thread k \<noteq> None"
  obtains k' where "rt_sem_release i k = Some (k', RT_EOK)" "kinv k'" "keeps k k'"
    "tlist_of k' (sem_queue i) = ts" "\<And>g. wait_head g \<Longrightarrow> g \<noteq> sem_queue i \<Longrightarrow> tlist_of k' g = tlist_of k g"
    "k_thread k' = (k_thread k)(t := readied (k_thread k t))"
    "ls_on (k_rows k') (ThreadTimer t) = None" "rt_current_thread k' \<noteq> None"
    "rt_scheduler_lock_nest k = 0 \<Longrightarrow> highest_runs k'"
proof -
  have h: "wait_head (sem_queue i)" by simp
  obtain k1 where k1: "rt_ipc_list_resume (sem_queue i) k = Some k1" "kinv k1" "keeps k k1"
    "tlist_of k1 (sem_queue i) = ts" "\<And>g. wait_head g \<Longrightarrow> g \<noteq> sem_queue i \<Longrightarrow> tlist_of k1 g = tlist_of k g"
    "k_thread k1 = (k_thread k)(t := readied (k_thread k t))"
    "ls_on (k_rows k1) = (ls_on (k_rows k))(ThreadTimer t := None)" "rt_current_thread k1 = rt_current_thread k"
    by (rule list_resume_spec[OF inv h q]) (rule that)
  have st: "thread_state (k_thread k1 t) = RT_THREAD_READY" and cur1: "rt_current_thread k1 \<noteq> None"
    using cur by (simp_all add: k1(6,8))
  obtain k2 where k2: "rt_schedule k1 = Some k2" "kinv k2" "keeps k1 k2" "rt_current_thread k2 \<noteq> None"
    "k_tlist k2 = k_tlist k1" "k_thread k2 = k_thread k1" "k_rows k2 = k_rows k1"
    "rt_scheduler_lock_nest k1 = 0 \<Longrightarrow> highest_runs k2"
    by (rule schedule_ready[OF k1(2) st cur1]) (rule that; assumption)
  have lock: "rt_scheduler_lock_nest k1 = rt_scheduler_lock_nest k" using k1(3) by (simp add: keeps_def)
  have "rt_sem_release i k = Some (k2, RT_EOK)"
    using q k1(1) k2(1) by (simp add: rt_sem_release_def)
  then show ?thesis
    by (rule that[OF _ k2(2) keeps_trans[OF k1(3) k2(3)] _ _ _ _ k2(4)])
      (use k1(5) k2(8) lock in \<open>simp_all add: k2(5-7) k1(4,6,7)\<close>)
qed

lemma sem_release_post:
  "tlist_of k (sem_queue i) = [] \<Longrightarrow> rt_sem_release i k = Some (set_sem i (k_sem k i + 1) k, RT_EOK)"
  by (simp add: rt_sem_release_def)

text \<open>Every operation on a semaphore keeps the property.\<close>

lemma sem_inv_set: "sem_inv k \<Longrightarrow> tlist_of k (sem_queue i) = [] \<or> v = 0 \<Longrightarrow> sem_inv (set_sem i v k)"
  by (auto simp: sem_inv_def set_sem_def)

lemma sem_inv_block:
  assumes "sem_inv k" "k_sem k' = k_sem k" "k_sem k i = 0"
    "\<And>g. wait_head g \<Longrightarrow> g \<noteq> sem_queue i \<Longrightarrow> tlist_of k' g = tlist_of k g"
  shows "sem_inv k'"
  unfolding sem_inv_def
proof (intro allI impI)
  fix j assume "0 < k_sem k' j"
  then have "j \<noteq> i" "0 < k_sem k j" using assms(2,3) by auto
  then show "tlist_of k' (sem_queue j) = []"
    using assms(1) assms(4)[of "sem_queue j"] by (auto simp: sem_inv_def word_gt_0)
qed

lemma sem_take_inv:
  assumes inv: "kinv k" "sem_inv k" and cb: "can_block t k" and fl: "valid_flag (OSem i) k" and tm: "time < 2 ^ 31 - 1"
  shows "\<exists>k' r. rt_sem_take i time k = Some (k', r) \<and> kinv k' \<and> sem_inv k' \<and> rt_current_thread k' \<noteq> None \<and>
    (r = Wait \<longrightarrow> k_sem k i = 0 \<and> thread_state (k_thread k' t) = RT_THREAD_SUSPEND) \<and>
    (r = Done RT_EOK \<longrightarrow> k_sem k' i = k_sem k i - 1 \<and> 0 < k_sem k i)"
proof (cases "0 < k_sem k i")
  case True
  then have q: "tlist_of k (sem_queue i) = []" using inv(2) by (simp add: sem_inv_def)
  show ?thesis
    using sem_take_available[OF True] inv(1) sem_inv_set[OF inv(2), of i] q can_blockD(1)[OF cb] True
    by (intro exI[of _ "set_sem i (k_sem k i - 1) k"] exI[of _ "Done RT_EOK"]) (auto simp: set_sem_def)
next
  case False
  then have z: "k_sem k i = 0" by (simp add: word_gt_0)
  show ?thesis
  proof (cases "time = 0")
    case True
    then show ?thesis using sem_take_poll[OF z] inv can_blockD(1)[OF cb] by auto
  next
    case False
    obtain k' where k': "rt_sem_take i time k = Some (k', Wait)" "kinv k'" "keeps k k'"
      "\<And>g. wait_head g \<Longrightarrow> g \<noteq> sem_queue i \<Longrightarrow> tlist_of k' g = tlist_of k g"
      "k_thread k' = (k_thread k)(t := suspended ((k_thread k t)\<lparr>th_error := RT_EOK\<rparr>))"
      "rt_current_thread k' \<noteq> None"
      by (rule sem_take_block[OF inv(1) cb z False tm fl]) (rule that; assumption)
    have "k_sem k' = k_sem k" using k'(3) by (simp add: keeps_def)
    then have "sem_inv k'" using sem_inv_block[OF inv(2) _ z k'(4)] by blast
    then show ?thesis using k' z by (intro exI[of _ k'] exI[of _ Wait]) simp
  qed
qed

lemma sem_release_inv:
  assumes inv: "kinv k" "sem_inv k" and cur: "rt_current_thread k \<noteq> None"
  shows "\<exists>k'. rt_sem_release i k = Some (k', RT_EOK) \<and> kinv k' \<and> sem_inv k' \<and> rt_current_thread k' \<noteq> None"
proof (cases "tlist_of k (sem_queue i)")
  case Nil
  then show ?thesis
    using sem_release_post[OF Nil] inv sem_inv_set[OF inv(2), of i] cur by (auto simp: set_sem_def)
next
  case (Cons t ts)
  obtain k' where k': "rt_sem_release i k = Some (k', RT_EOK)" "kinv k'" "keeps k k'"
    "\<And>g. wait_head g \<Longrightarrow> g \<noteq> sem_queue i \<Longrightarrow> tlist_of k' g = tlist_of k g" "rt_current_thread k' \<noteq> None"
    by (rule sem_release_wake[OF inv(1) Cons cur]) (rule that; assumption)
  have z: "k_sem k i = 0" using inv(2) Cons by (cases "0 < k_sem k i") (auto simp: sem_inv_def word_gt_0)
  have "k_sem k' = k_sem k" using k'(3) by (simp add: keeps_def)
  then have "sem_inv k'" using sem_inv_block[OF inv(2) _ z k'(4)] by blast
  then show ?thesis using k' by auto
qed

lemma sem_control_inv:
  assumes inv: "kinv k" "sem_inv k" and cur: "rt_current_thread k \<noteq> None"
    and idle: "thread_state (k_thread k idle_thread) = RT_THREAD_READY"
  shows "\<exists>k' e. rt_sem_control i c k = Some (k', e) \<and> kinv k' \<and> sem_inv k'"
proof (cases c)
  case (RT_IPC_CMD_RESET v)
  obtain k1 where k1: "rt_ipc_list_resume_all (sem_queue i) k = Some k1" "kinv k1" "keeps k k1"
    "tlist_of k1 (sem_queue i) = []" "\<forall>g. wait_head g \<longrightarrow> g \<noteq> sem_queue i \<longrightarrow> tlist_of k1 g = tlist_of k g"
    "\<forall>t \<in> set (tlist_of k (sem_queue i)). thread_state (k_thread k1 t) = RT_THREAD_READY \<and>
       th_error (k_thread k1 t) = - RT_ERROR"
    "\<forall>t. t \<notin> set (tlist_of k (sem_queue i)) \<longrightarrow> k_thread k1 t = k_thread k t"
    "rt_current_thread k1 = rt_current_thread k"
    using resume_all_spec[OF inv(1), of "sem_queue i"] by auto
  let ?k2 = "set_sem i (ucast v) k1"
  have s2: "sem_inv ?k2"
    unfolding sem_inv_def
  proof (intro allI impI)
    fix j assume a: "0 < k_sem ?k2 j"
    have "k_sem k1 = k_sem k" using k1(3) by (simp add: keeps_def)
    then show "tlist_of ?k2 (sem_queue j) = []"
      using a k1(4,5) inv(2) by (cases "j = i") (auto simp: set_sem_def sem_inv_def)
  qed
  have idle2: "thread_state (k_thread ?k2 idle_thread) = RT_THREAD_READY"
    using k1(6,7) idle by (cases "idle_thread \<in> set (tlist_of k (sem_queue i))") (auto simp: set_sem_def)
  have cur2: "rt_current_thread ?k2 \<noteq> None" using cur k1(8) by (simp add: set_sem_def)
  have inv2: "kinv ?k2" using k1(2) by simp
  obtain k3 where k3: "rt_schedule ?k2 = Some k3" "kinv k3" "keeps ?k2 k3" "k_tlist k3 = k_tlist ?k2"
    by (rule schedule_ready[OF inv2 idle2 cur2]) (rule that; assumption)
  have "sem_inv k3" using s2 k3(3,4) by (simp add: sem_inv_def keeps_def)
  then show ?thesis using RT_IPC_CMD_RESET k1(1) k3(1,2) by simp
qed (use inv in simp)

end
