(* ===== verification/Rtt_Mutex.thy ===== *)
theory Rtt_Mutex
  imports Rtt_Ipc
begin

text \<open>
  Mutexes with ownership, nesting and priority inheritance (\<^verbatim>\<open>ipc.c\<close>,
  \<^verbatim>\<open>rt_mutex_*\<close>). \<open>mutex_try\<close> is the code from the label
  \<^verbatim>\<open>__again\<close> on; a null owner that is dereferenced is \<open>None\<close>.
\<close>

abbreviation mutex_queue :: "nat \<Rightarrow> qhead" where "mutex_queue i \<equiv> SuspendQ (OMutex i)"

definition fresh_mutex :: rt_mutex where
  "fresh_mutex = \<lparr>mx_value = 1, original_priority = 0xff, hold = 0, owner = None\<rparr>"

definition rt_mutex_init :: "nat \<Rightarrow> rt_uint8 list \<Rightarrow> rt_uint8 \<Rightarrow> kernel \<Rightarrow> (kernel \<times> rt_err) option" where
  "rt_mutex_init i nm flag k = do {
     k \<leftarrow> rt_object_init (OMutex i) (class_code RT_Object_Class_Mutex) nm k;
     k \<leftarrow> rt_ipc_object_init (mutex_queue i) k;
     let k = upd_mutex i (\<lambda>_. fresh_mutex) k;
     Some (set_obj_flag (OMutex i) flag k, RT_EOK)
   }"

definition rt_mutex_detach :: "nat \<Rightarrow> kernel \<Rightarrow> (kernel \<times> rt_err) option" where
  "rt_mutex_detach i k = do {
     k \<leftarrow> rt_ipc_list_resume_all (mutex_queue i) k;
     Some (rt_object_detach (OMutex i) k, RT_EOK)
   }"

definition rt_mutex_create :: "rt_uint8 list \<Rightarrow> rt_uint8 \<Rightarrow> nat option \<Rightarrow> kernel \<Rightarrow> (kernel \<times> nat option) option" where
  "rt_mutex_create nm flag mem k = do {
     RT_ASSERT (rt_interrupt_nest k = 0);
     (k, _) \<leftarrow> rt_object_allocate (class_code RT_Object_Class_Mutex) nm (map_option OMutex mem) k;
     (case mem of
        None \<Rightarrow> Some (k, None)
      | Some i \<Rightarrow> do {
          k \<leftarrow> rt_ipc_object_init (mutex_queue i) k;
          let k = upd_mutex i (\<lambda>_. fresh_mutex) k;
          Some (set_obj_flag (OMutex i) flag k, Some i)
        })
   }"

definition rt_mutex_delete :: "nat \<Rightarrow> kernel \<Rightarrow> (kernel \<times> rt_err) option" where
  "rt_mutex_delete i k = do {
     RT_ASSERT (rt_interrupt_nest k = 0);
     k \<leftarrow> rt_ipc_list_resume_all (mutex_queue i) k;
     map_option (\<lambda>k. (k, RT_EOK)) (rt_object_delete (OMutex i) k)
   }"

definition acquire :: "tid \<Rightarrow> rt_uint8 \<Rightarrow> rt_mutex \<Rightarrow> rt_mutex" where
  "acquire t p m = m\<lparr>owner := Some t, original_priority := p, hold := hold m + 1\<rparr>"

text \<open>The two calls of \<^verbatim>\<open>rt_thread_control\<close> with their guards.\<close>

definition raise_owner :: "tid \<Rightarrow> rt_uint8 \<Rightarrow> kernel \<Rightarrow> kernel option" where
  "raise_owner ow p k =
     (if p < current_priority (k_thread k ow)
      then map_option fst (rt_thread_control ow (RT_THREAD_CTRL_CHANGE_PRIORITY p) k) else Some k)"

definition restore_priority :: "tid \<Rightarrow> rt_uint8 \<Rightarrow> kernel \<Rightarrow> kernel option" where
  "restore_priority t p k =
     (if p \<noteq> current_priority (k_thread k t)
      then map_option fst (rt_thread_control t (RT_THREAD_CTRL_CHANGE_PRIORITY p) k) else Some k)"

definition mutex_try :: "nat \<Rightarrow> int \<Rightarrow> tid \<Rightarrow> kernel \<Rightarrow> (kernel \<times> outcome) option" where
  "mutex_try i time t k =
     (let m = k_mutex k i; p = current_priority (k_thread k t) in
      if 0 < mx_value m then
        Some (upd_mutex i (\<lambda>m. acquire t p (m\<lparr>mx_value := mx_value m - 1\<rparr>)) k, Done RT_EOK)
      else if time = 0 then Some (set_error t (- RT_ETIMEOUT) k, Done (- RT_ETIMEOUT))
      else do {
        ow \<leftarrow> owner m;
        k \<leftarrow> raise_owner ow p k;
        k \<leftarrow> ipc_wait (mutex_queue i) (obj_ipc_flag (OMutex i) k) time t k;
        Some (k, Wait)
      })"

definition rt_mutex_take :: "nat \<Rightarrow> int \<Rightarrow> kernel \<Rightarrow> (kernel \<times> outcome) option" where
  "rt_mutex_take i time k = do {
     t \<leftarrow> in_thread_context k;
     let k = set_error t RT_EOK k;
     (if owner (k_mutex k i) = Some t
      then Some (upd_mutex i (\<lambda>m. m\<lparr>hold := hold m + 1\<rparr>) k, Done RT_EOK)
      else mutex_try i time t k)
   }"

definition rt_mutex_take_leave :: "nat \<Rightarrow> int \<Rightarrow> tid \<Rightarrow> kernel \<Rightarrow> (kernel \<times> outcome) option" where
  "rt_mutex_take_leave i time t k =
     (let e = th_error (k_thread k t) in
      if e \<noteq> RT_EOK then (if e = - RT_EINTR then mutex_try i time t k else Some (k, Done e))
      else Some (k, Done RT_EOK))"

definition rt_mutex_release :: "nat \<Rightarrow> kernel \<Rightarrow> (kernel \<times> rt_err) option" where
  "rt_mutex_release i k = do {
     t \<leftarrow> in_thread_context k;
     (if owner (k_mutex k i) \<noteq> Some t then Some (set_error t (- RT_ERROR) k, - RT_ERROR)
      else do {
        let k = upd_mutex i (\<lambda>m. m\<lparr>hold := hold m - 1\<rparr>) k;
        (if hold (k_mutex k i) = 0 then do {
           k \<leftarrow> restore_priority t (original_priority (k_mutex k i)) k;
           (case tlist_of k (mutex_queue i) of
              w # _ \<Rightarrow> do {
                let k = upd_mutex i (acquire w (current_priority (k_thread k w))) k;
                k \<leftarrow> rt_ipc_list_resume (mutex_queue i) k;
                k \<leftarrow> rt_schedule k;
                Some (k, RT_EOK)
              }
            | [] \<Rightarrow> Some (upd_mutex i (\<lambda>m. m\<lparr>mx_value := mx_value m + 1, owner := None,
                            original_priority := 0xff\<rparr>) k, RT_EOK))
         }
         else Some (k, RT_EOK))
      })
   }"

definition rt_mutex_control :: "nat \<Rightarrow> nat \<Rightarrow> kernel \<Rightarrow> kernel \<times> rt_err" where
  "rt_mutex_control i cmd k = (k, - RT_ERROR)"

lemmas mutex_defs = fresh_mutex_def rt_mutex_init_def rt_mutex_detach_def rt_mutex_create_def
  rt_mutex_delete_def acquire_def raise_owner_def restore_priority_def mutex_try_def rt_mutex_take_def rt_mutex_take_leave_def
  rt_mutex_release_def

declare mutex_defs [op_defs]

subsection \<open>The mutex invariant\<close>

text \<open>A mutex is held exactly when it has an owner; only a held mutex has waiters, and its
  owner is not one of them.\<close>

definition mutex_ok :: "rt_mutex \<Rightarrow> tid list \<Rightarrow> bool" where
  "mutex_ok m q \<longleftrightarrow> mx_value m \<le> 1 \<and>
     (case owner m of
        None \<Rightarrow> hold m = 0 \<and> q = []
      | Some t \<Rightarrow> 0 < hold m \<and> mx_value m = 0 \<and> t \<notin> set q \<and>
                  unat (original_priority m) < RT_THREAD_PRIORITY_MAX)"

definition mutex_inv :: "kernel \<Rightarrow> bool" where
  "mutex_inv k \<longleftrightarrow> (\<forall>i. mutex_ok (k_mutex k i) (tlist_of k (mutex_queue i)))"

lemma kinv_upd_mutex [simp]: "kinv_but X (upd_mutex i f k) = kinv_but X k"
  by simp

lemma mutex_inv_step:
  assumes "mutex_inv k" "\<And>j. j \<noteq> i \<Longrightarrow> k_mutex k' j = k_mutex k j"
    "\<And>g. wait_head g \<Longrightarrow> g \<noteq> mutex_queue i \<Longrightarrow> tlist_of k' g = tlist_of k g"
    "mutex_ok (k_mutex k' i) (tlist_of k' (mutex_queue i))"
  shows "mutex_inv k'"
  unfolding mutex_inv_def
proof
  fix j show "mutex_ok (k_mutex k' j) (tlist_of k' (mutex_queue j))"
    using assms(1) assms(2)[of j] assms(3)[of "mutex_queue j"] assms(4)
    by (cases "j = i") (auto simp: mutex_inv_def)
qed

subsection \<open>Taking a mutex\<close>

text \<open>Taking a free mutex makes the caller its owner; the owner may nest 255 times.\<close>

lemma mutex_take_free:
  assumes "can_block t k" "0 < mx_value (k_mutex k i)" "owner (k_mutex k i) = None"
  shows "rt_mutex_take i time k = Some (upd_mutex i
     (\<lambda>m. acquire t (current_priority (k_thread k t)) (m\<lparr>mx_value := mx_value m - 1\<rparr>)) (set_error t RT_EOK k), Done RT_EOK)"
  using assms(2,3) can_blockD(6)[OF assms(1)] by (simp add: rt_mutex_take_def mutex_try_def Let_def)

lemma mutex_take_nested:
  assumes "can_block t k" "owner (k_mutex k i) = Some t"
  shows "rt_mutex_take i time k
    = Some (upd_mutex i (\<lambda>m. m\<lparr>hold := hold m + 1\<rparr>) (set_error t RT_EOK k), Done RT_EOK)"
  using assms(2) can_blockD(6)[OF assms(1)] by (simp add: rt_mutex_take_def)

lemma mutex_take_poll:
  assumes "can_block t k" "mx_value (k_mutex k i) = 0" "owner (k_mutex k i) \<noteq> Some t"
  shows "rt_mutex_take i 0 k = Some (set_error t (- RT_ETIMEOUT) (set_error t RT_EOK k), Done (- RT_ETIMEOUT))"
  using assms(2,3) can_blockD(6)[OF assms(1)] by (simp add: rt_mutex_take_def mutex_try_def Let_def)

text \<open>Raising the owner to the priority of the caller.\<close>

lemma inherit_spec:
  assumes inv: "kinv k" and cb: "can_block t k" and ow: "ow \<noteq> t"
  defines "p \<equiv> current_priority (k_thread k t)"
  obtains k' where "raise_owner ow p k = Some k'"
    "kinv k'" "keeps k k'" "can_block t k'"
    "current_priority (k_thread k' ow) = min p (current_priority (k_thread k ow))"
    "\<forall>s. s \<noteq> ow \<longrightarrow> k_thread k' s = k_thread k s"
    "\<forall>g. wait_head g \<longrightarrow> tlist_of k' g = tlist_of k g"
    "thread_state (k_thread k' ow) = thread_state (k_thread k ow)"
    "k_object k' = k_object k"
proof (cases "p < current_priority (k_thread k ow)")
  case False
  then show ?thesis using that[of k] inv cb by (simp add: min_def raise_owner_def)
next
  case True
  have p32: "unat p < 32" using sched_inv_prio[OF kinvD(1)[OF inv], of t] by (simp add: p_def prio_ok_def)
  obtain k' where k': "change_priority ow p k = Some k'" "kinv k'" "keeps k k'"
    "current_priority (k_thread k' ow) = p" "\<forall>s. s \<noteq> ow \<longrightarrow> k_thread k' s = k_thread k s"
    "thread_state (k_thread k' ow) = thread_state (k_thread k ow)"
    "rt_current_thread k' = rt_current_thread k"
    "\<forall>h. (\<forall>q. h \<noteq> ReadyQ q) \<longrightarrow> tlist_of k' h = tlist_of k h"
    by (rule change_priority_spec[OF inv p32]) (rule that; assumption)
  have ob: "k_object k' = k_object k"
    using k'(1) by (auto simp: change_priority_def set_priority_def rt_schedule_remove_thread_def
        rt_schedule_insert_thread_def tlist_remove_def tlist_insert_before_def Let_def split: if_splits)
  have idle: "thread_state (k_thread k' idle_thread) = thread_state (k_thread k idle_thread)"
    using k'(5,6) by (cases "ow = idle_thread") auto
  have "can_block t k'"
    using cb k'(3,5,7) ow idle by (auto simp: can_block_def keeps_def)
  moreover have "tlist_of k' g = tlist_of k g" if "wait_head g" for g
    using k'(8) that by (cases g) auto
  ultimately show ?thesis
    using that[of k'] k' True ob by (auto simp: min_def raise_owner_def)
qed

text \<open>Blocking on a held mutex: the caller waits and the owner runs at least at its priority.\<close>

lemma mutex_take_block:
  assumes inv: "kinv k" and cb: "can_block t k" and m: "mx_value (k_mutex k i) = 0" "owner (k_mutex k i) = Some ow" "ow \<noteq> t"
    and tm: "time \<noteq> 0" "time < 2 ^ 31 - 1" and fl: "valid_flag (OMutex i) k"
  obtains k' where "rt_mutex_take i time k = Some (k', Wait)" "kinv k'" "keeps k k'"
    "set (tlist_of k' (mutex_queue i)) = insert t (set (tlist_of k (mutex_queue i)))"
    "\<And>g. wait_head g \<Longrightarrow> g \<noteq> mutex_queue i \<Longrightarrow> tlist_of k' g = tlist_of k g"
    "current_priority (k_thread k' ow) = min (current_priority (k_thread k t)) (current_priority (k_thread k ow))"
    "thread_state (k_thread k' t) = RT_THREAD_SUSPEND" "th_error (k_thread k' t) = RT_EOK"
    "\<And>s. s \<noteq> t \<Longrightarrow> s \<noteq> ow \<Longrightarrow> k_thread k' s = k_thread k s"
    "rt_current_thread k' \<noteq> None" "rt_scheduler_lock_nest k = 0 \<Longrightarrow> highest_runs k'"
    "current_priority (k_thread k' t) = current_priority (k_thread k t)"
proof -
  let ?k = "set_error t RT_EOK k"
  have cb0: "can_block t ?k" by (simp only: can_block_set_error cb)
  obtain k1 where k1: "raise_owner ow (current_priority (k_thread ?k t)) ?k = Some k1" "kinv k1" "keeps ?k k1" "can_block t k1"
    "current_priority (k_thread k1 ow) = min (current_priority (k_thread ?k t)) (current_priority (k_thread ?k ow))"
    "\<forall>s. s \<noteq> ow \<longrightarrow> k_thread k1 s = k_thread ?k s" "\<forall>g. wait_head g \<longrightarrow> tlist_of k1 g = tlist_of ?k g"
    "thread_state (k_thread k1 ow) = thread_state (k_thread ?k ow)" "k_object k1 = k_object ?k"
    by (rule inherit_spec[OF kinv_set_error[OF inv] cb0 m(3)])
  have wh: "wait_head (mutex_queue i)" by simp
  have f: "obj_ipc_flag (OMutex i) k1 = RT_IPC_FLAG_FIFO \<or> obj_ipc_flag (OMutex i) k1 = RT_IPC_FLAG_PRIO"
    using fl by (simp add: valid_flag_def obj_ipc_flag_def k1(9))
  obtain k2 where k2: "ipc_wait (mutex_queue i) (obj_ipc_flag (OMutex i) k1) time t k1 = Some k2" "kinv k2" "keeps k1 k2"
    "tlist_of k2 (mutex_queue i) = wait_list (obj_ipc_flag (OMutex i) k1) (\<lambda>s. current_priority (k_thread k1 s)) t (tlist_of k1 (mutex_queue i))"
    "\<And>g. wait_head g \<Longrightarrow> g \<noteq> mutex_queue i \<Longrightarrow> tlist_of k2 g = tlist_of k1 g"
    "k_thread k2 = (k_thread k1)(t := suspended (k_thread k1 t))"
    "rt_current_thread k2 \<noteq> None" "rt_scheduler_lock_nest k1 = 0 \<Longrightarrow> highest_runs k2"
    by (rule block_spec[OF k1(2,4) wh f tm(2)]) (rule that; assumption)
  have kp: "keeps k k1" using k1(3) by simp
  then have lock: "rt_scheduler_lock_nest k1 = rt_scheduler_lock_nest k" by (simp add: keeps_def)
  have run: "rt_mutex_take i time k = Some (k2, Wait)"
    using m tm can_blockD(6)[OF cb] k1(1) k2(1)
    by (simp add: rt_mutex_take_def mutex_try_def Let_def)
  have t1: "k_thread k1 t = (k_thread k t)\<lparr>th_error := RT_EOK\<rparr>" using k1(6) m(3) by auto
  show ?thesis
    by (rule that[OF run k2(2) keeps_trans[OF kp k2(3)] _ _ _ _ _ _ k2(7)])
      (use k1(5-7) k2(5,8) lock m(3) in \<open>simp_all add: k2(4,6) t1\<close>)
qed

text \<open>Taking keeps the mutex invariant; the caller owns the mutex exactly when the call
  returned success at once.\<close>

lemma mutex_take_inv:
  assumes inv: "kinv k" "mutex_inv k" and cb: "can_block t k" and fl: "valid_flag (OMutex i) k"
    and tm: "time < 2 ^ 31 - 1" and init: "mx_value (k_mutex k i) = 1 \<or> owner (k_mutex k i) \<noteq> None"
    and nest: "hold (k_mutex k i) < 255"
  shows "\<exists>k' r. rt_mutex_take i time k = Some (k', r) \<and> kinv k' \<and> mutex_inv k' \<and>
    (r = Done RT_EOK \<longrightarrow> owner (k_mutex k' i) = Some t \<and> hold (k_mutex k' i) = hold (k_mutex k i) + 1) \<and>
    (r \<noteq> Done RT_EOK \<longrightarrow> owner (k_mutex k' i) = owner (k_mutex k i) \<and> owner (k_mutex k i) \<noteq> Some t)"
proof -
  let ?m = "k_mutex k i" and ?q = "tlist_of k (mutex_queue i)"
  have ok: "mutex_ok ?m ?q" using inv(2) by (simp add: mutex_inv_def)
  have p32: "unat (current_priority (k_thread k t)) < 32"
    using sched_inv_prio[OF kinvD(1)[OF inv(1)], of t] by (simp add: prio_ok_def)
  have hold: "0 < hold ?m + 1"
    using nest by (simp add: word_less_nat_alt unat_word_ariths)
  have tq: "t \<notin> set ?q"
    using waiter_suspended(1)[OF inv(1), of "mutex_queue i" t] can_blockD(3)[OF cb] by auto
  show ?thesis
  proof (cases "owner ?m")
    case None
    then have v: "mx_value ?m = 1" using init by simp
    let ?k' = "upd_mutex i (\<lambda>m. acquire t (current_priority (k_thread k t)) (m\<lparr>mx_value := mx_value m - 1\<rparr>)) (set_error t RT_EOK k)"
    have run: "rt_mutex_take i time k = Some (?k', Done RT_EOK)"
      by (rule mutex_take_free[OF cb]) (simp_all add: v None)
    have "mutex_inv ?k'"
      by (rule mutex_inv_step[OF inv(2), of i])
        (use ok None hold p32 v in \<open>simp_all add: mutex_ok_def acquire_def\<close>)
    moreover have "kinv ?k'" using kinv_set_error[OF inv(1)] by simp
    ultimately show ?thesis using run by (auto simp: acquire_def)
  next
    case (Some ow)
    note ow = Some
    show ?thesis
    proof (cases "ow = t")
      case True
      let ?k' = "upd_mutex i (\<lambda>m. m\<lparr>hold := hold m + 1\<rparr>) (set_error t RT_EOK k)"
      have run: "rt_mutex_take i time k = Some (?k', Done RT_EOK)"
        by (rule mutex_take_nested[OF cb]) (simp add: Some True)
      have "mutex_inv ?k'"
        by (rule mutex_inv_step[OF inv(2), of i])
          (use ok Some hold in \<open>simp_all add: mutex_ok_def\<close>)
      moreover have "kinv ?k'" using kinv_set_error[OF inv(1)] by simp
      ultimately show ?thesis using run Some True by auto
    next
      case False
      have v: "mx_value ?m = 0" using ok Some by (simp add: mutex_ok_def)
      show ?thesis
      proof (cases "time = 0")
        case True
        let ?k' = "set_error t (- RT_ETIMEOUT) (set_error t RT_EOK k)"
        have run: "rt_mutex_take i time k = Some (?k', Done (- RT_ETIMEOUT))"
          unfolding True by (rule mutex_take_poll[OF cb v]) (simp add: Some False)
        have "kinv ?k'" by (intro kinv_set_error inv(1))
        moreover have "mutex_inv ?k'" using inv(2) by (simp add: mutex_inv_def)
        ultimately show ?thesis using run Some False by auto
      next
        case nz: False
        obtain k' where k': "rt_mutex_take i time k = Some (k', Wait)" "kinv k'" "keeps k k'"
          "set (tlist_of k' (mutex_queue i)) = insert t (set ?q)"
          "\<And>g. wait_head g \<Longrightarrow> g \<noteq> mutex_queue i \<Longrightarrow> tlist_of k' g = tlist_of k g"
          by (rule mutex_take_block[OF inv(1) cb v ow False nz tm fl]) (rule that; assumption)
        have km: "k_mutex k' = k_mutex k" using k'(3) by (simp add: keeps_def)
        have "mutex_inv k'"
          by (rule mutex_inv_step[OF inv(2) _ k'(5), of i]) (use ok ow False in \<open>simp_all add: km mutex_ok_def k'(4)\<close>)
        then show ?thesis using k'(1,2) ow False by (simp add: km)
      qed
    qed
  qed
qed

subsection \<open>Releasing a mutex\<close>

lemma mutex_release_not_owner:
  assumes "can_block t k" "owner (k_mutex k i) \<noteq> Some t"
  shows "rt_mutex_release i k = Some (set_error t (- RT_ERROR) k, - RT_ERROR)"
  using assms(2) can_blockD(6)[OF assms(1)] by (simp add: rt_mutex_release_def)

lemma mutex_release_nested:
  assumes "can_block t k" "owner (k_mutex k i) = Some t" "hold (k_mutex k i) \<noteq> 1"
  shows "rt_mutex_release i k = Some (upd_mutex i (\<lambda>m. m\<lparr>hold := hold m - 1\<rparr>) k, RT_EOK)"
  using assms(2,3) can_blockD(6)[OF assms(1)] by (simp add: rt_mutex_release_def Let_def)

text \<open>The last release gives the owner its own priority back and hands the mutex to the first
  waiter, or frees it.\<close>

lemma mutex_release_last:
  assumes inv: "kinv k" "mutex_inv k" and cb: "can_block t k"
    and ow: "owner (k_mutex k i) = Some t" and last: "hold (k_mutex k i) = 1"
  obtains k' where "rt_mutex_release i k = Some (k', RT_EOK)" "kinv k'" "mutex_inv k'"
    "current_priority (k_thread k' t) = original_priority (k_mutex k i)"
    "case tlist_of k (mutex_queue i) of
       [] \<Rightarrow> owner (k_mutex k' i) = None \<and> mx_value (k_mutex k' i) = 1
     | w # ws \<Rightarrow> owner (k_mutex k' i) = Some w \<and> hold (k_mutex k' i) = 1 \<and>
         tlist_of k' (mutex_queue i) = ws \<and> thread_state (k_thread k' w) = RT_THREAD_READY \<and>
         original_priority (k_mutex k' i) = current_priority (k_thread k' w)"
proof -
  let ?m = "k_mutex k i" and ?q = "tlist_of k (mutex_queue i)"
  let ?k1 = "upd_mutex i (\<lambda>m. m\<lparr>hold := hold m - 1\<rparr>) k"
  have ok: "mutex_ok ?m ?q" using inv(2) by (simp add: mutex_inv_def)
  let ?p = "original_priority ?m"
  have p32: "unat ?p < 32" using ok ow by (simp add: mutex_ok_def)
  have inv1: "kinv ?k1" using inv(1) by simp
  obtain k2 where k2: "restore_priority t ?p ?k1 = Some k2"
    "kinv k2" "keeps ?k1 k2" "current_priority (k_thread k2 t) = ?p" "\<forall>s. s \<noteq> t \<longrightarrow> k_thread k2 s = k_thread k s"
    "thread_state (k_thread k2 t) = RT_THREAD_READY" "rt_current_thread k2 \<noteq> None"
    "\<forall>g. wait_head g \<longrightarrow> tlist_of k2 g = tlist_of k g"
  proof (cases "?p = current_priority (k_thread k t)")
    case True
    then show ?thesis using that[of ?k1] inv1 can_blockD(1,3)[OF cb] by (simp add: restore_priority_def)
  next
    case False
    obtain k' where k': "change_priority t ?p ?k1 = Some k'" "kinv k'" "keeps ?k1 k'"
      "current_priority (k_thread k' t) = ?p" "\<forall>s. s \<noteq> t \<longrightarrow> k_thread k' s = k_thread ?k1 s"
      "thread_state (k_thread k' t) = thread_state (k_thread ?k1 t)"
      "rt_current_thread k' = rt_current_thread ?k1"
      "\<forall>h. (\<forall>q. h \<noteq> ReadyQ q) \<longrightarrow> tlist_of k' h = tlist_of ?k1 h"
      by (rule change_priority_spec[OF inv1 p32]) (rule that; assumption)
    have "tlist_of k' g = tlist_of k g" if "wait_head g" for g
      using k'(8) that by (cases g) auto
    then show ?thesis using that[of k'] k' False can_blockD(1,3)[OF cb] by (simp add: restore_priority_def)
  qed
  have km2: "k_mutex k2 = k_mutex ?k1" using k2(3) by (simp add: keeps_def)
  have run: "rt_mutex_release i k = (case ?q of
       w # _ \<Rightarrow> Option.bind (rt_ipc_list_resume (mutex_queue i) (upd_mutex i (acquire w (current_priority (k_thread k2 w))) k2))
         (\<lambda>k. Option.bind (rt_schedule k) (\<lambda>k. Some (k, RT_EOK)))
     | [] \<Rightarrow> Some (upd_mutex i (\<lambda>m. m\<lparr>mx_value := mx_value m + 1, owner := None, original_priority := 0xff\<rparr>) k2, RT_EOK))"
    using ow last can_blockD(6)[OF cb] k2(1,8)
    by (simp add: rt_mutex_release_def Let_def cong: list.case_cong)
  show ?thesis
  proof (cases ?q)
    case Nil
    let ?k3 = "upd_mutex i (\<lambda>m. m\<lparr>mx_value := mx_value m + 1, owner := None, original_priority := 0xff\<rparr>) k2"
    have v: "mx_value ?m = 0" using ok ow by (simp add: mutex_ok_def)
    have "mutex_inv ?k3"
      by (rule mutex_inv_step[OF inv(2), of i])
        (use k2(8) Nil last v in \<open>simp_all add: km2 mutex_ok_def\<close>)
    moreover have "rt_mutex_release i k = Some (?k3, RT_EOK)" using run Nil by simp
    moreover have "kinv ?k3" using k2(2) by simp
    ultimately show ?thesis
      by (intro that[of ?k3]) (use Nil k2(4) v in \<open>simp_all add: km2\<close>)
  next
    case (Cons w ws)
    let ?k3 = "upd_mutex i (acquire w (current_priority (k_thread k2 w))) k2"
    have inv3: "kinv ?k3" using k2(2) by simp
    have h: "wait_head (mutex_queue i)" by simp
    have q3: "tlist_of ?k3 (mutex_queue i) = w # ws" using k2(8) Cons by simp
    obtain k4 where k4: "rt_ipc_list_resume (mutex_queue i) ?k3 = Some k4" "kinv k4" "keeps ?k3 k4"
      "tlist_of k4 (mutex_queue i) = ws"
      "\<And>g. wait_head g \<Longrightarrow> g \<noteq> mutex_queue i \<Longrightarrow> tlist_of k4 g = tlist_of ?k3 g"
      "k_thread k4 = (k_thread ?k3)(w := readied (k_thread ?k3 w))"
      "rt_current_thread k4 = rt_current_thread ?k3"
      by (rule list_resume_spec[OF inv3 h q3]) (rule that; assumption)
    have st4: "thread_state (k_thread k4 w) = RT_THREAD_READY" and cur4: "rt_current_thread k4 \<noteq> None"
      using k2(7) by (simp_all add: k4(6,7))
    obtain k5 where k5: "rt_schedule k4 = Some k5" "kinv k5" "keeps k4 k5" "k_tlist k5 = k_tlist k4"
      "k_thread k5 = k_thread k4"
      by (rule schedule_ready[OF k4(2) st4 cur4]) (rule that; assumption)
    have km5: "k_mutex k5 = k_mutex ?k3" using k4(3) k5(3) by (simp add: keeps_def)
    have w: "w \<noteq> t" "w \<notin> set ws"
      using ok ow Cons ls_wf_distinct[OF sched_inv_wf[OF kinvD(1)[OF inv(1)]], of "mutex_queue i"]
      by (auto simp: mutex_ok_def)
    have pw: "unat (current_priority (k_thread k2 w)) < 32"
      using sched_inv_prio[OF kinvD(1)[OF k2(2)], of w] by (simp add: prio_ok_def)
    have m5: "k_mutex k5 i = acquire w (current_priority (k_thread k2 w)) (?m\<lparr>hold := hold ?m - 1\<rparr>)"
      by (simp add: km5 km2)
    have "mutex_inv k5"
    proof (rule mutex_inv_step[OF inv(2), of i])
      show "k_mutex k5 j = k_mutex k j" if "j \<noteq> i" for j using that by (simp add: km5 km2)
      show "tlist_of k5 g = tlist_of k g" if "wait_head g" "g \<noteq> mutex_queue i" for g
        using that k4(5)[OF that] k2(8) by (simp add: k5(4))
      show "mutex_ok (k_mutex k5 i) (tlist_of k5 (mutex_queue i))"
        using ok ow last w pw by (simp add: m5 k5(4) k4(4) mutex_ok_def acquire_def)
    qed
    moreover have "rt_mutex_release i k = Some (k5, RT_EOK)" using run Cons k4(1) k5(1) by simp
    moreover have "current_priority (k_thread k5 t) = ?p" using k2(4) w(1) by (simp add: k5(5) k4(6))
    ultimately show ?thesis
      by (intro that[of k5]) (use k5(2) Cons last in \<open>simp_all add: m5 acquire_def k5(4,5) k4(4,6)\<close>)
  qed
qed

end
