(* ===== verification/Rtt_Event.thy ===== *)
theory Rtt_Event
  imports Rtt_Ipc
begin

text \<open>
  Event sets (\<^verbatim>\<open>ipc.c\<close>, \<^verbatim>\<open>rt_event_*\<close>): 32 flags, waiters for all or any of
  a set, with or without clearing what was received.
\<close>

abbreviation event_queue :: "nat \<Rightarrow> qhead" where "event_queue i \<equiv> SuspendQ (OEvent i)"

abbreviation (input) RT_EVENT_FLAG_AND :: rt_uint8 where "RT_EVENT_FLAG_AND \<equiv> 0x01"
abbreviation (input) RT_EVENT_FLAG_OR :: rt_uint8 where "RT_EVENT_FLAG_OR \<equiv> 0x02"
abbreviation (input) RT_EVENT_FLAG_CLEAR :: rt_uint8 where "RT_EVENT_FLAG_CLEAR \<equiv> 0x04"

definition set_event :: "nat \<Rightarrow> rt_uint32 \<Rightarrow> kernel \<Rightarrow> kernel" where
  "set_event i v k = k\<lparr>k_event := (k_event k)(i := v)\<rparr>"

definition rt_event_init :: "nat \<Rightarrow> rt_uint8 list \<Rightarrow> rt_uint8 \<Rightarrow> kernel \<Rightarrow> (kernel \<times> rt_err) option" where
  "rt_event_init i nm flag k = do {
     k \<leftarrow> rt_object_init (OEvent i) (class_code RT_Object_Class_Event) nm k;
     let k = set_obj_flag (OEvent i) flag k;
     k \<leftarrow> rt_ipc_object_init (event_queue i) k;
     Some (set_event i 0 k, RT_EOK)
   }"

definition rt_event_detach :: "nat \<Rightarrow> kernel \<Rightarrow> (kernel \<times> rt_err) option" where
  "rt_event_detach i k = do {
     k \<leftarrow> rt_ipc_list_resume_all (event_queue i) k;
     Some (rt_object_detach (OEvent i) k, RT_EOK)
   }"

definition rt_event_create :: "rt_uint8 list \<Rightarrow> rt_uint8 \<Rightarrow> nat option \<Rightarrow> kernel \<Rightarrow> (kernel \<times> nat option) option" where
  "rt_event_create nm flag mem k = do {
     RT_ASSERT (rt_interrupt_nest k = 0);
     (k, _) \<leftarrow> rt_object_allocate (class_code RT_Object_Class_Event) nm (map_option OEvent mem) k;
     (case mem of
        None \<Rightarrow> Some (k, None)
      | Some i \<Rightarrow> do {
          let k = set_obj_flag (OEvent i) flag k;
          k \<leftarrow> rt_ipc_object_init (event_queue i) k;
          Some (set_event i 0 k, Some i)
        })
   }"

definition rt_event_delete :: "nat \<Rightarrow> kernel \<Rightarrow> (kernel \<times> rt_err) option" where
  "rt_event_delete i k = do {
     RT_ASSERT (rt_interrupt_nest k = 0);
     k \<leftarrow> rt_ipc_list_resume_all (event_queue i) k;
     map_option (\<lambda>k. (k, RT_EOK)) (rt_object_delete (OEvent i) k)
   }"

text \<open>The test of one waiter in \<^verbatim>\<open>rt_event_send\<close>: whether it is satisfied, and the
  \<^verbatim>\<open>event_set\<close> it is left with.\<close>

definition event_match :: "rt_uint8 \<Rightarrow> rt_uint32 \<Rightarrow> rt_uint32 \<Rightarrow> bool \<times> rt_uint32" where
  "event_match info want ev =
     (if info AND RT_EVENT_FLAG_AND \<noteq> 0 then (want AND ev = want, want)
      else if info AND RT_EVENT_FLAG_OR \<noteq> 0 then
        (if want AND ev \<noteq> 0 then (True, want AND ev) else (False, want))
      else (False, want))"

fun event_scan :: "nat \<Rightarrow> tid list \<Rightarrow> bool \<Rightarrow> kernel \<Rightarrow> (bool \<times> kernel) option" where
  "event_scan i [] need k = Some (need, k)"
| "event_scan i (t # ts) need k =
     (let th = k_thread k t; (ok, got) = event_match (event_info th) (event_set th) (k_event k i) in
      if ok then do {
        let k = upd_thread t (\<lambda>th. th\<lparr>event_set := got\<rparr>) k;
        let k = (if event_info th AND RT_EVENT_FLAG_CLEAR \<noteq> 0
                 then set_event i (k_event k i AND NOT got) k else k);
        (k, _) \<leftarrow> rt_thread_resume t k;
        event_scan i ts True k
      }
      else event_scan i ts need k)"

definition rt_event_send :: "nat \<Rightarrow> rt_uint32 \<Rightarrow> kernel \<Rightarrow> (kernel \<times> rt_err) option" where
  "rt_event_send i flags k =
     (if flags = 0 then Some (k, - RT_ERROR)
      else do {
        let k = set_event i (k_event k i OR flags) k;
        (need, k) \<leftarrow> event_scan i (tlist_of k (event_queue i)) False k;
        (if need then map_option (\<lambda>k. (k, RT_EOK)) (rt_schedule k) else Some (k, RT_EOK))
      })"

text \<open>The third component is what \<^verbatim>\<open>*recved\<close> receives.\<close>

definition rt_event_recv ::
  "nat \<Rightarrow> rt_uint32 \<Rightarrow> rt_uint8 \<Rightarrow> int \<Rightarrow> kernel \<Rightarrow> (kernel \<times> outcome \<times> rt_uint32 option) option" where
  "rt_event_recv i want opt timeout k = do {
     t \<leftarrow> in_thread_context k;
     (if want = 0 then Some (k, Done (- RT_ERROR), None)
      else do {
        let k = set_error t RT_EOK k;
        let ev = k_event k i;
        status \<leftarrow> (if opt AND RT_EVENT_FLAG_AND \<noteq> 0 then Some (ev AND want = want)
                  else if opt AND RT_EVENT_FLAG_OR \<noteq> 0 then Some (ev AND want \<noteq> 0)
                  else None);
        (if status then
           (let k = (if opt AND RT_EVENT_FLAG_CLEAR \<noteq> 0 then set_event i (ev AND NOT want) k else k) in
            Some (k, Done (th_error (k_thread k t)), Some (ev AND want)))
         else if timeout = 0 then
           (let k = set_error t (- RT_ETIMEOUT) k in Some (k, Done (th_error (k_thread k t)), None))
         else do {
           let k = upd_thread t (\<lambda>th. th\<lparr>event_set := want, event_info := opt\<rparr>) k;
           k \<leftarrow> ipc_wait (event_queue i) (obj_ipc_flag (OEvent i) k) timeout t k;
           Some (k, Wait, None)
         })
      })
   }"

definition rt_event_recv_leave :: "tid \<Rightarrow> kernel \<Rightarrow> rt_err \<times> rt_uint32 option" where
  "rt_event_recv_leave t k =
     (let th = k_thread k t in
      if th_error th \<noteq> RT_EOK then (th_error th, None) else (th_error th, Some (event_set th)))"

fun rt_event_control :: "nat \<Rightarrow> ipc_cmd \<Rightarrow> kernel \<Rightarrow> (kernel \<times> rt_err) option" where
  "rt_event_control i (RT_IPC_CMD_RESET _) k = do {
     k \<leftarrow> rt_ipc_list_resume_all (event_queue i) k;
     let k = set_event i 0 k;
     k \<leftarrow> rt_schedule k;
     Some (k, RT_EOK)
   }"
| "rt_event_control i (IpcCmdOther _) k = Some (k, - RT_ERROR)"

lemmas event_defs = set_event_def rt_event_init_def rt_event_detach_def rt_event_create_def
  rt_event_delete_def event_match_def rt_event_send_def rt_event_recv_def rt_event_recv_leave_def

declare event_defs [op_defs]

subsection \<open>No waiter is satisfied\<close>

abbreviation satisfied :: "rt_thread \<Rightarrow> rt_uint32 \<Rightarrow> bool" where
  "satisfied th ev \<equiv> fst (event_match (event_info th) (event_set th) ev)"

definition event_inv :: "kernel \<Rightarrow> bool" where
  "event_inv k \<longleftrightarrow> (\<forall>i. \<forall>t \<in> set (tlist_of k (event_queue i)). \<not> satisfied (k_thread k t) (k_event k i))"

text \<open>Clearing flags satisfies nobody.\<close>

lemma satisfied_clear: "satisfied th (ev AND m) \<Longrightarrow> satisfied th ev"
proof -
  assume s: "satisfied th (ev AND m)"
  have a: "event_set th AND ev = event_set th" if "event_set th AND (ev AND m) = event_set th"
  proof (rule bit_word_eqI)
    fix n :: nat assume "n < LENGTH(32)"
    show "bit (event_set th AND ev) n \<longleftrightarrow> bit (event_set th) n"
      using arg_cong[OF that, of "\<lambda>w. bit w n"] by (auto simp: bit_simps)
  qed
  have o: "event_set th AND ev \<noteq> 0" if "event_set th AND (ev AND m) \<noteq> 0"
  proof
    assume z: "event_set th AND ev = 0"
    have "event_set th AND (ev AND m) = (event_set th AND ev) AND m" by (simp add: and.assoc)
    then show False using that z by simp
  qed
  show ?thesis using s a o by (auto simp: event_match_def split: if_splits)
qed

definition event_frame :: "nat \<Rightarrow> kernel \<Rightarrow> kernel \<Rightarrow> bool" where
  "event_frame i k k' \<longleftrightarrow> keeps (k\<lparr>k_event := k_event k'\<rparr>) k' \<and> (\<forall>j. j \<noteq> i \<longrightarrow> k_event k' j = k_event k j) \<and>
     (\<exists>m. k_event k' i = k_event k i AND m) \<and>
     (\<forall>g. wait_head g \<longrightarrow> g \<noteq> event_queue i \<longrightarrow> tlist_of k' g = tlist_of k g) \<and>
     rt_current_thread k' = rt_current_thread k"

lemma event_frame_refl: "event_frame i k k"
  by (auto simp: event_frame_def intro!: exI[of _ "- 1"])

lemma event_frame_trans: "event_frame i k k' \<Longrightarrow> event_frame i k' k'' \<Longrightarrow> event_frame i k k''"
  unfolding event_frame_def
proof (elim conjE exE, intro conjI)
  fix m n assume "k_event k' i = k_event k i AND m" "k_event k'' i = k_event k' i AND n"
  then show "\<exists>m. k_event k'' i = k_event k i AND m" by (intro exI[of _ "m AND n"]) (simp add: and.assoc)
qed (auto simp: keeps_def)

text \<open>One satisfied waiter: it becomes ready and leaves the list.\<close>

lemma event_wake:
  assumes inv: "kinv k" and t: "t \<in> set (tlist_of k (event_queue i))"
    and m: "event_match (event_info (k_thread k t)) (event_set (k_thread k t)) (k_event k i) = (True, got)"
  defines "k0 \<equiv> (if event_info (k_thread k t) AND RT_EVENT_FLAG_CLEAR \<noteq> 0
      then set_event i (k_event k i AND NOT got) (upd_thread t (\<lambda>th. th\<lparr>event_set := got\<rparr>) k)
      else upd_thread t (\<lambda>th. th\<lparr>event_set := got\<rparr>) k)"
  obtains k' where "rt_thread_resume t k0 = Some (k', RT_EOK)" "kinv k'" "event_frame i k k'"
    "tlist_of k' (event_queue i) = remove1 t (tlist_of k (event_queue i))"
    "\<And>s. s \<noteq> t \<Longrightarrow> k_thread k' s = k_thread k s"
    "thread_state (k_thread k' t) = RT_THREAD_READY" "event_set (k_thread k' t) = got"
    "k_event k' i = (if event_info (k_thread k t) AND RT_EVENT_FLAG_CLEAR \<noteq> 0 then k_event k i AND NOT got else k_event k i)"
proof -
  have h: "wait_head (event_queue i)" by simp
  note w = waiter_suspended[OF inv h t] and wf = sched_inv_wf[OF kinvD(1)[OF inv]]
  have u: "kinv (upd_thread t (\<lambda>th. th\<lparr>event_set := got\<rparr>) k)" by (rule kinv_upd_thread_same[OF inv]) simp_all
  have k0: "kinv k0" using u by (simp add: k0_def set_event_def)
  have st: "thread_state (k_thread k0 t) = RT_THREAD_SUSPEND" using w(1) by (simp add: k0_def set_event_def)
  obtain k' where k': "rt_thread_resume t k0 = Some (k', RT_EOK)" "kinv k'"
    "\<And>g. tlist_of k' g = (if g = ReadyQ (unat (current_priority (k_thread k0 t)))
       then tlist_of k0 g @ [t] else remove1 t (tlist_of k0 g))"
    "k_thread k' = (k_thread k0)(t := readied (k_thread k0 t))" "keeps k0 k'"
    "rt_current_thread k' = rt_current_thread k0"
    by (rule resume_suspended[OF k0 st]) (rule that; assumption)
  have off: "t \<notin> set (tlist_of k g)" if "g \<noteq> event_queue i" for g
    using ls_wf_head_unique[OF wf t] that by blast
  have others: "tlist_of k' g = tlist_of k g" if "wait_head g" "g \<noteq> event_queue i" for g
    using that off[OF that(2)] by (auto simp: k'(3) k0_def set_event_def remove1_idem)
  have ev: "k_event k' = k_event k0" using k'(5) by (simp add: keeps_def)
  have "\<exists>m. k_event k' i = k_event k i AND m"
    unfolding ev by (simp add: k0_def set_event_def) (metis and.right_neutral)
  then have fr: "event_frame i k k'"
    using k'(5,6) others by (auto simp: event_frame_def ev keeps_def k0_def set_event_def)
  show ?thesis
    by (rule that[OF k'(1,2) fr]) (auto simp: k'(3,4) ev k0_def set_event_def)
qed

text \<open>The scan: who is still on the list afterwards was not satisfied when it was looked at.\<close>

lemma event_scan_spec:
  assumes "kinv k" "set ts \<subseteq> set (tlist_of k (event_queue i))" "distinct ts"
  shows "\<exists>need' k'. event_scan i ts need k = Some (need', k') \<and> kinv k' \<and> event_frame i k k' \<and>
    set (tlist_of k' (event_queue i)) \<subseteq> set (tlist_of k (event_queue i)) \<and>
    (\<forall>t \<in> set ts \<inter> set (tlist_of k' (event_queue i)).
       k_thread k' t = k_thread k t \<and> \<not> satisfied (k_thread k' t) (k_event k' i)) \<and>
    (\<forall>t \<in> set (tlist_of k (event_queue i)) - set ts. t \<in> set (tlist_of k' (event_queue i)) \<and> k_thread k' t = k_thread k t) \<and>
    (\<forall>t \<in> set ts - set (tlist_of k' (event_queue i)). thread_state (k_thread k' t) = RT_THREAD_READY) \<and>
    (\<forall>t. t \<notin> set ts \<longrightarrow> k_thread k' t = k_thread k t) \<and>
    (need' \<longleftrightarrow> need \<or> (\<exists>t \<in> set ts. t \<notin> set (tlist_of k' (event_queue i))))"
  using assms
proof (induction ts arbitrary: k need)
  case Nil
  then show ?case using event_frame_refl by auto
next
  case (Cons t ts)
  let ?q = "tlist_of k (event_queue i)" and ?th = "k_thread k t"
  have t: "t \<in> set ?q" "t \<notin> set ts" and sub0: "set ts \<subseteq> set ?q" and d0: "distinct ts" using Cons.prems by auto
  obtain ok got where m: "event_match (event_info ?th) (event_set ?th) (k_event k i) = (ok, got)" by fastforce
  show ?case
  proof (cases ok)
    case False
    obtain need' k' where IH: "event_scan i ts need k = Some (need', k')" "kinv k'" "event_frame i k k'"
      "set (tlist_of k' (event_queue i)) \<subseteq> set ?q"
      "\<forall>t \<in> set ts \<inter> set (tlist_of k' (event_queue i)).
         k_thread k' t = k_thread k t \<and> \<not> satisfied (k_thread k' t) (k_event k' i)"
      "\<forall>t \<in> set ?q - set ts. t \<in> set (tlist_of k' (event_queue i)) \<and> k_thread k' t = k_thread k t"
      "\<forall>t \<in> set ts - set (tlist_of k' (event_queue i)). thread_state (k_thread k' t) = RT_THREAD_READY"
      "\<forall>t. t \<notin> set ts \<longrightarrow> k_thread k' t = k_thread k t"
      "need' \<longleftrightarrow> need \<or> (\<exists>t \<in> set ts. t \<notin> set (tlist_of k' (event_queue i)))"
      using Cons.IH[OF Cons.prems(1) sub0 d0, of need] by (elim exE conjE) (rule that)
    have run: "event_scan i (t # ts) need k = Some (need', k')" using m False IH(1) by simp
    have tk: "t \<in> set (tlist_of k' (event_queue i))" "k_thread k' t = ?th" using IH(6) t by auto
    obtain n where "k_event k' i = k_event k i AND n" using IH(3) by (auto simp: event_frame_def)
    then have ns: "\<not> satisfied (k_thread k' t) (k_event k' i)"
      using satisfied_clear[of ?th "k_event k i" n] m False tk(2) by auto
    show ?thesis
    proof (intro exI[of _ need'] exI[of _ k'] conjI ballI)
      fix s assume "s \<in> set (t # ts) \<inter> set (tlist_of k' (event_queue i))"
      then show "k_thread k' s = k_thread k s" "\<not> satisfied (k_thread k' s) (k_event k' i)"
        using IH(5) ns tk(2) by auto
    next
      show "need' \<longleftrightarrow> need \<or> (\<exists>s \<in> set (t # ts). s \<notin> set (tlist_of k' (event_queue i)))"
        using IH(9) tk(1) by simp
    qed (use run IH tk in auto)
  next
    case True
    obtain k1 where k1: "rt_thread_resume t (if event_info ?th AND RT_EVENT_FLAG_CLEAR \<noteq> 0
      then set_event i (k_event k i AND NOT got) (upd_thread t (\<lambda>th. th\<lparr>event_set := got\<rparr>) k)
      else upd_thread t (\<lambda>th. th\<lparr>event_set := got\<rparr>) k) = Some (k1, RT_EOK)" "kinv k1" "event_frame i k k1"
      "tlist_of k1 (event_queue i) = remove1 t ?q" "\<And>s. s \<noteq> t \<Longrightarrow> k_thread k1 s = k_thread k s"
      "thread_state (k_thread k1 t) = RT_THREAD_READY" "event_set (k_thread k1 t) = got"
      by (rule event_wake[OF Cons.prems(1) t(1) m[unfolded eqTrueI[OF True]]]) (rule that)
    have dq: "distinct ?q" by (rule ls_wf_distinct[OF sched_inv_wf[OF kinvD(1)[OF Cons.prems(1)]]])
    have q1: "set (tlist_of k1 (event_queue i)) = set ?q - {t}" by (simp add: k1(4) dq)
    have sub: "set ts \<subseteq> set (tlist_of k1 (event_queue i))" using Cons.prems t by (auto simp: q1)
    obtain need' k' where IH: "event_scan i ts True k1 = Some (need', k')" "kinv k'" "event_frame i k1 k'"
      "set (tlist_of k' (event_queue i)) \<subseteq> set (tlist_of k1 (event_queue i))"
      "\<forall>t \<in> set ts \<inter> set (tlist_of k' (event_queue i)).
         k_thread k' t = k_thread k1 t \<and> \<not> satisfied (k_thread k' t) (k_event k' i)"
      "\<forall>t \<in> set (tlist_of k1 (event_queue i)) - set ts. t \<in> set (tlist_of k' (event_queue i)) \<and> k_thread k' t = k_thread k1 t"
      "\<forall>t \<in> set ts - set (tlist_of k' (event_queue i)). thread_state (k_thread k' t) = RT_THREAD_READY"
      "\<forall>t. t \<notin> set ts \<longrightarrow> k_thread k' t = k_thread k1 t"
      "need' \<longleftrightarrow> True \<or> (\<exists>t \<in> set ts. t \<notin> set (tlist_of k' (event_queue i)))"
      using Cons.IH[OF k1(2) sub d0, of True] by (elim exE conjE) (rule that)
    have run: "event_scan i (t # ts) need k = Some (need', k')"
      using m True IH(1) k1(1) by (simp add: Let_def cong: if_cong)
    have tr: "t \<notin> set (tlist_of k' (event_queue i))" using IH(4) q1 by auto
    have tst: "thread_state (k_thread k' t) = RT_THREAD_READY" using IH(8) t(2) k1(6) by simp
    show ?thesis
    proof (intro exI[of _ need'] exI[of _ k'] conjI ballI)
      fix s assume "s \<in> set (t # ts) \<inter> set (tlist_of k' (event_queue i))"
      then have s: "s \<in> set ts \<inter> set (tlist_of k' (event_queue i))" "s \<noteq> t" using tr t(2) by auto
      show "k_thread k' s = k_thread k s" using IH(5) s k1(5) by simp
      show "\<not> satisfied (k_thread k' s) (k_event k' i)" using IH(5) s(1) by blast
    next
      fix s assume "s \<in> set ?q - set (t # ts)"
      then have s: "s \<in> set (tlist_of k1 (event_queue i)) - set ts" "s \<noteq> t" using q1 by auto
      show "s \<in> set (tlist_of k' (event_queue i))" "k_thread k' s = k_thread k s"
        using IH(6) s k1(5) by auto
    next
      fix s assume "s \<in> set (t # ts) - set (tlist_of k' (event_queue i))"
      then show "thread_state (k_thread k' s) = RT_THREAD_READY" using IH(7) tst by auto
    next
      show "\<forall>s. s \<notin> set (t # ts) \<longrightarrow> k_thread k' s = k_thread k s" using IH(8) k1(5) by simp
      show "need' \<longleftrightarrow> need \<or> (\<exists>s \<in> set (t # ts). s \<notin> set (tlist_of k' (event_queue i)))"
        using IH(9) tr by simp
      show "set (tlist_of k' (event_queue i)) \<subseteq> set ?q" using IH(4) q1 by blast
      show "event_frame i k k'" by (rule event_frame_trans[OF k1(3) IH(3)])
    qed (rule run IH(2))+
  qed
qed

subsection \<open>Whom a send serves\<close>

text \<open>The flags as a set of numbers; when a waiter's wish is met and what it receives; and the
  waiters of a list that are served one after the other, with the flags that are left, those taken by a waiter
  that asked to clear them being gone for the ones behind it.\<close>

definition flag_set :: "rt_uint32 \<Rightarrow> nat set" where
  "flag_set v = {n. bit v n}"

definition wish_met :: "rt_thread \<Rightarrow> nat set \<Rightarrow> bool" where
  "wish_met th F \<longleftrightarrow>
     (if event_info th AND RT_EVENT_FLAG_AND \<noteq> 0 then flag_set (event_set th) \<subseteq> F
      else event_info th AND RT_EVENT_FLAG_OR \<noteq> 0 \<and> flag_set (event_set th) \<inter> F \<noteq> {})"

fun serve :: "(tid \<Rightarrow> rt_thread) \<Rightarrow> nat set \<Rightarrow> tid list \<Rightarrow> nat set \<times> (tid \<times> nat set) list" where
  "serve T F [] = (F, [])"
| "serve T F (t # ts) =
     (if wish_met (T t) F then
        (let got = flag_set (event_set (T t)) \<inter> F;
             (left, ws) = serve T (if event_info (T t) AND RT_EVENT_FLAG_CLEAR \<noteq> 0 then F - got else F) ts
         in (left, (t, got) # ws))
      else serve T F ts)"

lemma flag_set_simps:
  "flag_set 0 = {}" "flag_set (a AND b) = flag_set a \<inter> flag_set b" "flag_set (a OR b) = flag_set a \<union> flag_set b"
  "flag_set (a AND NOT b) = flag_set a - flag_set b"
  by (auto simp: flag_set_def bit_simps dest: bit_imp_le_length)

lemma flag_set_eq: "flag_set a = flag_set b \<longleftrightarrow> a = b"
  unfolding flag_set_def set_eq_iff mem_Collect_eq by (metis bit_eqI)

lemma flag_set_empty: "flag_set w = {} \<longleftrightarrow> w = 0"
  using flag_set_eq[of w 0] by (simp only: flag_set_simps(1))

lemma event_match_flags:
  assumes "event_match (event_info th) (event_set th) ev = (ok, got)"
  shows "ok \<longleftrightarrow> wish_met th (flag_set ev)" "ok \<Longrightarrow> flag_set got = flag_set (event_set th) \<inter> flag_set ev"
proof -
  have s: "event_set th AND ev = event_set th \<longleftrightarrow> flag_set (event_set th) \<subseteq> flag_set ev"
    by (simp only: flag_set_eq[symmetric] flag_set_simps Int_absorb2 le_iff_inf)
  have z: "event_set th AND ev \<noteq> 0 \<longleftrightarrow> flag_set (event_set th) \<inter> flag_set ev \<noteq> {}"
    by (simp only: flag_set_eq[symmetric] flag_set_simps)
  show "ok \<longleftrightarrow> wish_met th (flag_set ev)"
    using assms s z by (auto simp: event_match_def wish_met_def split: if_splits)
  assume ok
  show "flag_set got = flag_set (event_set th) \<inter> flag_set ev"
  proof (cases "event_info th AND RT_EVENT_FLAG_AND \<noteq> 0")
    case True
    then have "(event_set th AND ev = event_set th, event_set th) = (ok, got)"
      using assms by (simp only: event_match_def if_True simp_thms)
    then have "event_set th AND ev = event_set th \<and> event_set th = got" using \<open>ok\<close> by blast
    then have "got = event_set th" "flag_set (event_set th) \<subseteq> flag_set ev" using s by blast+
    then show ?thesis by blast
  next
    case False
    then have "got = event_set th AND ev" using assms \<open>ok\<close> by (simp add: event_match_def split: if_splits)
    then show ?thesis by (simp only: flag_set_simps)
  qed
qed

lemma serve_cong: "(\<And>t. t \<in> set ts \<Longrightarrow> T t = T' t) \<Longrightarrow> serve T F ts = serve T' F ts"
proof (induction ts arbitrary: F)
  case (Cons t ts)
  then have "T t = T' t" "\<And>G. serve T G ts = serve T' G ts" by simp_all
  then show ?case by simp
qed simp

lemma serve_sub: "fst ` set (snd (serve T F ts)) \<subseteq> set ts"
proof (induction ts arbitrary: F)
  case (Cons t ts)
  have "fst ` set (snd (serve T G ts)) \<subseteq> insert t (set ts)" for G using Cons.IH[of G] by blast
  then show ?case by (simp add: Let_def case_prod_beta)
qed simp

lemma event_scan_serves:
  assumes "kinv k" "set ts \<subseteq> set (tlist_of k (event_queue i))" "distinct ts"
    "serve (k_thread k) (flag_set (k_event k i)) ts = (lft, ws)"
  shows "\<exists>k'. event_scan i ts need k = Some (need \<or> ws \<noteq> [], k') \<and> kinv k' \<and> event_frame i k k' \<and>
    flag_set (k_event k' i) = lft \<and>
    tlist_of k' (event_queue i) = filter (\<lambda>t. t \<notin> fst ` set ws) (tlist_of k (event_queue i)) \<and>
    (\<forall>(t, got) \<in> set ws. thread_state (k_thread k' t) = RT_THREAD_READY \<and> flag_set (event_set (k_thread k' t)) = got) \<and>
    (\<forall>t. t \<notin> fst ` set ws \<longrightarrow> k_thread k' t = k_thread k t)"
  using assms
proof (induction ts arbitrary: k need ws)
  case Nil
  then show ?case using event_frame_refl by auto
next
  case (Cons t ts)
  let ?q = "tlist_of k (event_queue i)" and ?th = "k_thread k t" and ?F = "flag_set (k_event k i)"
  have t: "t \<in> set ?q" "t \<notin> set ts" and sub0: "set ts \<subseteq> set ?q" and d0: "distinct ts" using Cons.prems by auto
  obtain ok got where m: "event_match (event_info ?th) (event_set ?th) (k_event k i) = (ok, got)" by fastforce
  show ?case
  proof (cases ok)
    case False
    then have s: "serve (k_thread k) ?F ts = (lft, ws)" using Cons.prems(4) event_match_flags(1)[OF m] by simp
    have run: "event_scan i (t # ts) need k = event_scan i ts need k" using m False by simp
    show ?thesis unfolding run by (rule Cons.IH[OF Cons.prems(1) sub0 d0 s])
  next
    case True
    let ?got = "flag_set (event_set ?th) \<inter> ?F"
    obtain k1 where k1: "rt_thread_resume t (if event_info ?th AND RT_EVENT_FLAG_CLEAR \<noteq> 0
      then set_event i (k_event k i AND NOT got) (upd_thread t (\<lambda>th. th\<lparr>event_set := got\<rparr>) k)
      else upd_thread t (\<lambda>th. th\<lparr>event_set := got\<rparr>) k) = Some (k1, RT_EOK)" "kinv k1" "event_frame i k k1"
      "tlist_of k1 (event_queue i) = remove1 t ?q" "\<And>s. s \<noteq> t \<Longrightarrow> k_thread k1 s = k_thread k s"
      "thread_state (k_thread k1 t) = RT_THREAD_READY" "event_set (k_thread k1 t) = got"
      "k_event k1 i = (if event_info ?th AND RT_EVENT_FLAG_CLEAR \<noteq> 0 then k_event k i AND NOT got else k_event k i)"
      by (rule event_wake[OF Cons.prems(1) t(1) m[unfolded eqTrueI[OF True]]]) (rule that)
    have g: "flag_set got = ?got" using event_match_flags(2)[OF m] True by simp
    have dq: "distinct ?q" by (rule ls_wf_distinct[OF sched_inv_wf[OF kinvD(1)[OF Cons.prems(1)]]])
    have sub: "set ts \<subseteq> set (tlist_of k1 (event_queue i))" using Cons.prems t by (auto simp: k1(4) dq)
    have F1: "flag_set (k_event k1 i) = (if event_info ?th AND RT_EVENT_FLAG_CLEAR \<noteq> 0 then ?F - ?got else ?F)"
      by (simp add: k1(8) flag_set_simps(4) g)
    have "serve (k_thread k1) (flag_set (k_event k1 i)) ts = serve (k_thread k) (flag_set (k_event k1 i)) ts"
      by (rule serve_cong) (use t(2) k1(5) in metis)
    then obtain ws1 where s1: "serve (k_thread k1) (flag_set (k_event k1 i)) ts = (lft, ws1)" "ws = (t, ?got) # ws1"
      using Cons.prems(4) event_match_flags(1)[OF m] True
      by (auto simp: F1 Let_def split: prod.splits)
    have tn: "t \<notin> fst ` set ws1" using serve_sub[of "k_thread k1" "flag_set (k_event k1 i)" ts] s1(1) t(2) by auto
    obtain k' where IH: "event_scan i ts True k1 = Some (True \<or> ws1 \<noteq> [], k')" "kinv k'" "event_frame i k1 k'"
      "flag_set (k_event k' i) = lft"
      "tlist_of k' (event_queue i) = filter (\<lambda>t. t \<notin> fst ` set ws1) (tlist_of k1 (event_queue i))"
      "\<forall>(t, got) \<in> set ws1. thread_state (k_thread k' t) = RT_THREAD_READY \<and> flag_set (event_set (k_thread k' t)) = got"
      "\<forall>t. t \<notin> fst ` set ws1 \<longrightarrow> k_thread k' t = k_thread k1 t"
      using Cons.IH[OF k1(2) sub d0 s1(1), of True] by blast
    have run: "event_scan i (t # ts) need k = Some (need \<or> ws \<noteq> [], k')"
      using m True IH(1) k1(1) s1(2) by (simp add: Let_def cong: if_cong)
    have tl: "tlist_of k' (event_queue i) = filter (\<lambda>t. t \<notin> fst ` set ws) ?q"
      using dq by (auto simp: IH(5) k1(4) s1(2) distinct_remove1_removeAll removeAll_filter_not_eq intro: filter_cong)
    have thr: "k_thread k' t = k_thread k1 t" using IH(7) tn by blast
    show ?thesis
    proof (rule exI[of _ k'], intro conjI)
      show "\<forall>(s, gs) \<in> set ws. thread_state (k_thread k' s) = RT_THREAD_READY \<and> flag_set (event_set (k_thread k' s)) = gs"
        using IH(6) thr k1(6,7) g s1(2) by auto
      show "\<forall>s. s \<notin> fst ` set ws \<longrightarrow> k_thread k' s = k_thread k s" using IH(7) k1(5) s1(2) by auto
      show "event_frame i k k'" by (rule event_frame_trans[OF k1(3) IH(3)])
    qed (rule run IH(2) IH(4) tl)+
  qed
qed

subsection \<open>Sending\<close>

lemma kinv_set_event [simp]: "kinv_but X (set_event i v k) = kinv_but X k"
  by (simp add: set_event_def)

text \<open>After a send every waiter whose wish was met is ready, and no other thread was touched.\<close>

lemma event_send_spec:
  assumes inv: "kinv k" and ev: "event_inv k" and cur: "rt_current_thread k \<noteq> None" and fl: "flags \<noteq> 0"
  obtains k' where "rt_event_send i flags k = Some (k', RT_EOK)" "kinv k'" "event_inv k'"
    "rt_current_thread k' \<noteq> None"
    "\<And>t. t \<in> set (tlist_of k (event_queue i)) \<Longrightarrow> t \<notin> set (tlist_of k' (event_queue i)) \<Longrightarrow>
       thread_state (k_thread k' t) = RT_THREAD_READY"
    "\<And>t. t \<notin> set (tlist_of k (event_queue i)) \<Longrightarrow> k_thread k' t = k_thread k t"
    "\<And>g. wait_head g \<Longrightarrow> g \<noteq> event_queue i \<Longrightarrow> tlist_of k' g = tlist_of k g"
    "set (tlist_of k' (event_queue i)) \<subseteq> set (tlist_of k (event_queue i))"
proof -
  let ?k0 = "set_event i (k_event k i OR flags) k"
  let ?q = "tlist_of k (event_queue i)"
  have k0: "kinv ?k0" using inv by simp
  have q0: "tlist_of ?k0 g = tlist_of k g" "k_thread ?k0 = k_thread k" for g by (simp_all add: set_event_def)
  have d: "distinct ?q" by (rule ls_wf_distinct[OF sched_inv_wf[OF kinvD(1)[OF inv]]])
  have sub: "set ?q \<subseteq> set (tlist_of ?k0 (event_queue i))" by (simp add: q0)
  obtain need k1 where k1: "event_scan i ?q False ?k0 = Some (need, k1)" "kinv k1" "event_frame i ?k0 k1"
    "set (tlist_of k1 (event_queue i)) \<subseteq> set (tlist_of ?k0 (event_queue i))"
    "\<forall>t \<in> set ?q \<inter> set (tlist_of k1 (event_queue i)).
       k_thread k1 t = k_thread ?k0 t \<and> \<not> satisfied (k_thread k1 t) (k_event k1 i)"
    "\<forall>t \<in> set (tlist_of ?k0 (event_queue i)) - set ?q. t \<in> set (tlist_of k1 (event_queue i)) \<and> k_thread k1 t = k_thread ?k0 t"
    "\<forall>t \<in> set ?q - set (tlist_of k1 (event_queue i)). thread_state (k_thread k1 t) = RT_THREAD_READY"
    "\<forall>t. t \<notin> set ?q \<longrightarrow> k_thread k1 t = k_thread ?k0 t"
    "need \<longleftrightarrow> False \<or> (\<exists>t \<in> set ?q. t \<notin> set (tlist_of k1 (event_queue i)))"
    using event_scan_spec[OF k0 sub d, of False] by (elim exE conjE) (rule that)
  have others: "tlist_of k1 g = tlist_of k g" if "wait_head g" "g \<noteq> event_queue i" for g
    using k1(3) that by (simp add: event_frame_def q0)
  have ev1: "event_inv k1"
    unfolding event_inv_def
  proof (intro allI ballI)
    fix j t assume t: "t \<in> set (tlist_of k1 (event_queue j))"
    show "\<not> satisfied (k_thread k1 t) (k_event k1 j)"
    proof (cases "j = i")
      case True
      then have "t \<in> set ?q \<inter> set (tlist_of k1 (event_queue i))" using t k1(4) by (auto simp: q0)
      then show ?thesis using k1(5) True by blast
    next
      case False
      then have tj: "t \<in> set (tlist_of k (event_queue j))" using t others by simp
      then have "t \<notin> set ?q"
        using ls_wf_head_unique[OF sched_inv_wf[OF kinvD(1)[OF inv]] tj] False by blast
      then have "k_thread k1 t = k_thread k t" using k1(8) by (simp add: q0)
      moreover have "k_event k1 j = k_event k j" using k1(3) False by (simp add: event_frame_def set_event_def)
      ultimately show ?thesis using ev tj unfolding event_inv_def by simp
    qed
  qed
  have cur1: "rt_current_thread k1 \<noteq> None" using k1(3) cur by (simp add: event_frame_def set_event_def)
  obtain k2 where k2: "(if need then map_option (\<lambda>k. (k, RT_EOK)) (rt_schedule k1) else Some (k1, RT_EOK)) = Some (k2, RT_EOK)"
    "kinv k2" "event_inv k2" "rt_current_thread k2 \<noteq> None" "k_tlist k2 = k_tlist k1" "k_thread k2 = k_thread k1"
  proof (cases need)
    case False
    then show ?thesis using that[of k1] k1(2) ev1 cur1 by simp
  next
    case True
    then obtain t where st: "thread_state (k_thread k1 t) = RT_THREAD_READY" using k1(7,9) by auto
    obtain k2 where k2: "rt_schedule k1 = Some k2" "kinv k2" "keeps k1 k2" "rt_current_thread k2 \<noteq> None"
      "k_tlist k2 = k_tlist k1" "k_thread k2 = k_thread k1"
      by (rule schedule_ready[OF k1(2) st cur1]) (rule that; assumption)
    have "event_inv k2" using ev1 k2(3,5,6) by (simp add: event_inv_def keeps_def)
    then show ?thesis using that[of k2] k2 True by simp
  qed
  have run: "rt_event_send i flags k = Some (k2, RT_EOK)"
    using fl k1(1) k2(1) by (simp add: rt_event_send_def Let_def q0)
  show ?thesis
    by (rule that[OF run k2(2-4)])
      (use k1(4,7,8) others in \<open>auto simp: k2(5,6) q0\<close>)
qed

text \<open>Exactly the waiters that can be served from the flags are, in their order.\<close>

lemma event_send_exact:
  assumes inv: "kinv k" "event_inv k" and cur: "rt_current_thread k \<noteq> None" and fl: "flags \<noteq> 0"
    and sv: "serve (k_thread k) (flag_set (k_event k i) \<union> flag_set flags) (tlist_of k (event_queue i)) = (lft, ws)"
  shows "\<exists>k'. rt_event_send i flags k = Some (k', RT_EOK) \<and> kinv k' \<and> event_inv k' \<and>
    flag_set (k_event k' i) = lft \<and>
    tlist_of k' (event_queue i) = filter (\<lambda>t. t \<notin> fst ` set ws) (tlist_of k (event_queue i)) \<and>
    (\<forall>(t, got) \<in> set ws. thread_state (k_thread k' t) = RT_THREAD_READY \<and> flag_set (event_set (k_thread k' t)) = got) \<and>
    (\<forall>t. t \<notin> fst ` set ws \<longrightarrow> k_thread k' t = k_thread k t) \<and>
    (ws \<noteq> [] \<and> rt_scheduler_lock_nest k = 0 \<longrightarrow> highest_runs k')"
proof -
  let ?k0 = "set_event i (k_event k i OR flags) k" and ?q = "tlist_of k (event_queue i)"
  have k0: "kinv ?k0" using inv(1) by simp
  have q0: "tlist_of ?k0 (event_queue i) = ?q" "k_thread ?k0 = k_thread k" by (simp_all add: set_event_def)
  have sub: "set ?q \<subseteq> set (tlist_of ?k0 (event_queue i))" and d: "distinct ?q"
    by (simp_all add: q0 ls_wf_distinct[OF sched_inv_wf[OF kinvD(1)[OF inv(1)]]])
  have sv0: "serve (k_thread ?k0) (flag_set (k_event ?k0 i)) ?q = (lft, ws)"
    using sv by (simp add: set_event_def flag_set_simps)
  obtain k1 where k1: "event_scan i ?q False ?k0 = Some (ws \<noteq> [], k1)" "kinv k1" "event_frame i ?k0 k1"
    "flag_set (k_event k1 i) = lft" "tlist_of k1 (event_queue i) = filter (\<lambda>t. t \<notin> fst ` set ws) ?q"
    "\<forall>(t, got) \<in> set ws. thread_state (k_thread k1 t) = RT_THREAD_READY \<and> flag_set (event_set (k_thread k1 t)) = got"
    "\<forall>t. t \<notin> fst ` set ws \<longrightarrow> k_thread k1 t = k_thread k t"
    using event_scan_serves[OF k0 sub d sv0, of False] by (auto simp: q0)
  have cur1: "rt_current_thread k1 \<noteq> None" and lock1: "rt_scheduler_lock_nest k1 = rt_scheduler_lock_nest k"
    using k1(3) cur by (simp_all add: event_frame_def keeps_def set_event_def)
  obtain k2 where k2: "(if ws \<noteq> [] then map_option (\<lambda>k. (k, RT_EOK)) (rt_schedule k1) else Some (k1, RT_EOK)) = Some (k2, RT_EOK)"
    "k_tlist k2 = k_tlist k1" "k_thread k2 = k_thread k1" "k_event k2 = k_event k1"
    "ws \<noteq> [] \<and> rt_scheduler_lock_nest k = 0 \<longrightarrow> highest_runs k2"
  proof (cases "ws = []")
    case True
    then show ?thesis using that[of k1] by simp
  next
    case False
    then obtain t where st: "thread_state (k_thread k1 t) = RT_THREAD_READY" using k1(6) by (cases ws) auto
    obtain k2 where "rt_schedule k1 = Some k2" "keeps k1 k2" "k_tlist k2 = k_tlist k1" "k_thread k2 = k_thread k1"
      "rt_scheduler_lock_nest k1 = 0 \<Longrightarrow> highest_runs k2"
      by (rule schedule_ready[OF k1(2) st cur1]) (rule that; assumption)
    then show ?thesis using that[of k2] False lock1 by (simp add: keeps_def)
  qed
  have run: "rt_event_send i flags k = Some (k2, RT_EOK)"
    using fl k1(1) k2(1) by (simp add: rt_event_send_def Let_def q0)
  obtain k3 where "rt_event_send i flags k = Some (k3, RT_EOK)" "kinv k3" "event_inv k3"
    by (rule event_send_spec[OF inv cur fl, of i]) (rule that; assumption)
  then have "kinv k2" "event_inv k2" using run by simp_all
  then show ?thesis using run k1(4-7) k2(2-5) by (intro exI[of _ k2]) simp
qed

subsection \<open>Receiving\<close>

text \<open>What the options ask of the event value.\<close>

definition event_ready :: "rt_uint32 \<Rightarrow> rt_uint8 \<Rightarrow> rt_uint32 \<Rightarrow> bool" where
  "event_ready want opt ev = (if opt AND RT_EVENT_FLAG_AND \<noteq> 0 then ev AND want = want else ev AND want \<noteq> 0)"

definition valid_event_opt :: "rt_uint8 \<Rightarrow> bool" where
  "valid_event_opt opt \<longleftrightarrow> opt AND RT_EVENT_FLAG_AND \<noteq> 0 \<or> opt AND RT_EVENT_FLAG_OR \<noteq> 0"

lemma event_ready_match: "valid_event_opt opt \<Longrightarrow> event_ready want opt ev = fst (event_match opt want ev)"
  by (auto simp: event_ready_def valid_event_opt_def event_match_def and.commute)

lemma event_recv_ready:
  assumes "in_thread_context k = Some t" "want \<noteq> 0" "valid_event_opt opt" "event_ready want opt (k_event k i)"
  shows "rt_event_recv i want opt timeout k =
    Some (if opt AND RT_EVENT_FLAG_CLEAR \<noteq> 0 then set_event i (k_event k i AND NOT want) (set_error t RT_EOK k)
          else set_error t RT_EOK k, Done RT_EOK, Some (k_event k i AND want))"
  using assms by (auto simp: rt_event_recv_def event_ready_def valid_event_opt_def set_event_def Let_def split: if_splits)

lemma event_recv_poll:
  assumes "in_thread_context k = Some t" "want \<noteq> 0" "valid_event_opt opt" "\<not> event_ready want opt (k_event k i)"
  shows "rt_event_recv i want opt 0 k =
    Some (set_error t (- RT_ETIMEOUT) (set_error t RT_EOK k), Done (- RT_ETIMEOUT), None)"
  using assms by (auto simp: rt_event_recv_def event_ready_def valid_event_opt_def split: if_splits)

lemma event_recv_block:
  assumes inv: "kinv k" and cb: "can_block t k" and want: "want \<noteq> 0" and opt: "valid_event_opt opt"
    and no: "\<not> event_ready want opt (k_event k i)" and tm: "timeout \<noteq> 0" "timeout < 2 ^ 31 - 1"
    and fl: "valid_flag (OEvent i) k"
  obtains k' where "rt_event_recv i want opt timeout k = Some (k', Wait, None)" "kinv k'" "keeps k k'"
    "tlist_of k' (event_queue i)
       = wait_list (obj_ipc_flag (OEvent i) k) (\<lambda>s. current_priority (k_thread k s)) t (tlist_of k (event_queue i))"
    "\<And>g. wait_head g \<Longrightarrow> g \<noteq> event_queue i \<Longrightarrow> tlist_of k' g = tlist_of k g"
    "k_thread k' = (k_thread k)(t := suspended ((k_thread k t)\<lparr>th_error := RT_EOK, event_set := want, event_info := opt\<rparr>))"
    "ls_on (k_rows k') (ThreadTimer t) = (if 0 < timeout then Some HardTimers else None)"
    "rt_current_thread k' \<noteq> None" "rt_scheduler_lock_nest k = 0 \<Longrightarrow> highest_runs k'"
proof -
  let ?k = "upd_thread t (\<lambda>th. th\<lparr>event_set := want, event_info := opt\<rparr>) (set_error t RT_EOK k)"
  have f: "obj_ipc_flag (OEvent i) ?k = RT_IPC_FLAG_FIFO \<or> obj_ipc_flag (OEvent i) ?k = RT_IPC_FLAG_PRIO"
    using fl by (simp add: valid_flag_def obj_ipc_flag_def)
  have cb': "can_block t ?k" using cb by (auto simp: can_block_def)
  have k0: "kinv ?k" by (rule kinv_upd_thread_same[OF kinv_set_error[OF inv]]) simp_all
  have prio: "(\<lambda>s. current_priority (k_thread ?k s)) = (\<lambda>s. current_priority (k_thread k s))" by auto
  obtain k' where k': "ipc_wait (event_queue i) (obj_ipc_flag (OEvent i) ?k) timeout t ?k = Some k'" "kinv k'" "keeps ?k k'"
    "tlist_of k' (event_queue i) = wait_list (obj_ipc_flag (OEvent i) ?k) (\<lambda>s. current_priority (k_thread ?k s)) t (tlist_of ?k (event_queue i))"
    "\<And>g. wait_head g \<Longrightarrow> g \<noteq> event_queue i \<Longrightarrow> tlist_of k' g = tlist_of ?k g"
    "k_thread k' = (k_thread ?k)(t := suspended (k_thread ?k t))"
    "ls_on (k_rows k') (ThreadTimer t) = (if 0 < timeout then Some HardTimers else None)"
    "rt_current_thread k' \<noteq> None" "rt_scheduler_lock_nest ?k = 0 \<Longrightarrow> highest_runs k'"
    by (rule block_spec[OF k0 cb' _ f tm(2), where h = "event_queue i"]) (simp, rule that)
  have "rt_event_recv i want opt timeout k = Some (k', Wait, None)"
    using want opt no tm can_blockD(6)[OF cb] k'(1)
    by (auto simp: rt_event_recv_def event_ready_def valid_event_opt_def split: if_splits)
  then show ?thesis
    by (rule that[OF _ k'(2) _ _ _ _ k'(7) k'(8)])
      (use k'(3,5,9) in \<open>simp_all add: k'(4)[unfolded prio] k'(6) obj_ipc_flag_def\<close>)
qed

text \<open>A blocked receiver is not satisfied: nothing is lost between the check and the wait.\<close>

lemma event_recv_inv:
  assumes inv: "kinv k" "event_inv k" and cb: "can_block t k" and opt: "valid_event_opt opt"
    and fl: "valid_flag (OEvent i) k" and tm: "timeout < 2 ^ 31 - 1"
  shows "\<exists>k' r v. rt_event_recv i want opt timeout k = Some (k', r, v) \<and> kinv k' \<and> event_inv k' \<and>
    rt_current_thread k' \<noteq> None \<and>
    (r = Wait \<longrightarrow> \<not> event_ready want opt (k_event k i) \<and> t \<in> set (tlist_of k' (event_queue i))) \<and>
    (r = Done RT_EOK \<longrightarrow> v = Some (k_event k i AND want) \<and> event_ready want opt (k_event k i))"
proof -
  note c = can_blockD[OF cb]
  have nt: "t \<notin> set (tlist_of k g)" if "wait_head g" for g
    using waiter_suspended[OF inv(1) that, of t] c(3) by auto
  have upd: "event_inv (set_error t e k)" for e
    using inv(2) by (auto simp: event_inv_def)
  show ?thesis
  proof (cases "want = 0")
    case True
    then show ?thesis using inv c by (auto simp: rt_event_recv_def)
  next
    case want: False
    show ?thesis
    proof (cases "event_ready want opt (k_event k i)")
      case True
      have "event_inv (set_event i (k_event k i AND NOT want) (set_error t RT_EOK k))"
        unfolding event_inv_def
      proof (intro allI ballI)
        fix j s assume s: "s \<in> set (tlist_of (set_event i (k_event k i AND NOT want) (set_error t RT_EOK k)) (event_queue j))"
        then have "\<not> satisfied (k_thread k s) (k_event k j)" "s \<noteq> t"
          using inv(2) nt[of "event_queue j"] by (auto simp: event_inv_def set_event_def)
        then show "\<not> satisfied (k_thread (set_event i (k_event k i AND NOT want) (set_error t RT_EOK k)) s)
            (k_event (set_event i (k_event k i AND NOT want) (set_error t RT_EOK k)) j)"
          using satisfied_clear[of "k_thread k s" "k_event k i" "NOT want"] by (auto simp: set_event_def)
      qed
      then show ?thesis
        using event_recv_ready[OF c(6) want opt True, of timeout] upd[of RT_EOK] True want kinv_set_error[OF inv(1)] c(1)
        by (auto simp: set_event_def)
    next
      case no: False
      show ?thesis
      proof (cases "timeout = 0")
        case True
        have "event_inv (set_error t (- RT_ETIMEOUT) (set_error t RT_EOK k))"
          using inv(2) by (auto simp: event_inv_def)
        moreover have "kinv (set_error t (- RT_ETIMEOUT) (set_error t RT_EOK k))"
          by (rule kinv_set_error[OF kinv_set_error[OF inv(1)]])
        ultimately show ?thesis
          using event_recv_poll[OF c(6) want opt no] c(1) True by auto
      next
        case False
        obtain k' where k': "rt_event_recv i want opt timeout k = Some (k', Wait, None)" "kinv k'" "keeps k k'"
          "tlist_of k' (event_queue i)
             = wait_list (obj_ipc_flag (OEvent i) k) (\<lambda>s. current_priority (k_thread k s)) t (tlist_of k (event_queue i))"
          "\<And>g. wait_head g \<Longrightarrow> g \<noteq> event_queue i \<Longrightarrow> tlist_of k' g = tlist_of k g"
          "k_thread k' = (k_thread k)(t := suspended ((k_thread k t)\<lparr>th_error := RT_EOK, event_set := want, event_info := opt\<rparr>))"
          "rt_current_thread k' \<noteq> None"
          by (rule event_recv_block[OF inv(1) cb want opt no False tm fl]) (rule that; assumption)
        have e: "k_event k' = k_event k" using k'(3) by (simp add: keeps_def)
        have mem: "set (tlist_of k' (event_queue j)) \<subseteq> insert t (set (tlist_of k (event_queue j)))"
          "t \<in> set (tlist_of k' (event_queue j)) \<Longrightarrow> j = i" for j
          using k'(4,5) nt[of "event_queue j"] by (cases "j = i", auto)+
        have "event_inv k'"
          unfolding event_inv_def
        proof (intro allI ballI)
          fix j s assume s: "s \<in> set (tlist_of k' (event_queue j))"
          show "\<not> satisfied (k_thread k' s) (k_event k' j)"
          proof (cases "s = t")
            case True
            then show ?thesis using mem(2) s no event_ready_match[OF opt] by (auto simp: k'(6) e)
          next
            case False
            then show ?thesis using mem(1) s inv(2) by (auto simp: k'(6) e event_inv_def)
          qed
        qed
        then show ?thesis using k' no by (intro exI[of _ k'] exI[of _ Wait] exI[of _ None]) simp
      qed
    qed
  qed
qed

end
