(* ===== verification/Rtt_Fifo.thy ===== *)
theory Rtt_Fifo
  imports Rtt_Prelude
begin

text \<open>
  The contract of a bounded first-in first-out buffer, which the ring buffers and the mailbox
  of the repository provide, and the cyclic arrays they are built on: positions that wrap at the size of the array, and the block copy that is
  split in two at its end.
\<close>

section \<open>The contract\<close>

datatype 'a fifo_op = Put 'a | Get

text \<open>A run of operations: what was accepted, what came out, and the final state.\<close>

fun fifo_run ::
  "('a \<Rightarrow> 's \<Rightarrow> 's \<times> bool) \<Rightarrow> ('s \<Rightarrow> 's \<times> 'a option) \<Rightarrow> 'a fifo_op list \<Rightarrow> 's \<Rightarrow> 'a list \<times> 'a list \<times> 's" where
  "fifo_run put get [] s = ([], [], s)"
| "fifo_run put get (Put x # ops) s =
     (let (s, ok) = put x s; (ins, outs, s) = fifo_run put get ops s
      in (if ok then x # ins else ins, outs, s))"
| "fifo_run put get (Get # ops) s =
     (let (s, r) = get s; (ins, outs, s) = fifo_run put get ops s
      in (ins, (case r of None \<Rightarrow> outs | Some x \<Rightarrow> x # outs), s))"

locale fifo =
  fixes inv :: "'s \<Rightarrow> bool" and cap :: "'s \<Rightarrow> nat" and contents :: "'s \<Rightarrow> 'a list"
    and put :: "'a \<Rightarrow> 's \<Rightarrow> 's \<times> bool" and get :: "'s \<Rightarrow> 's \<times> 'a option"
  assumes bound: "inv s \<Longrightarrow> length (contents s) \<le> cap s"
    and put_ok: "inv s \<Longrightarrow> length (contents s) < cap s \<Longrightarrow>
       \<exists>s'. put x s = (s', True) \<and> inv s' \<and> cap s' = cap s \<and> contents s' = contents s @ [x]"
    and put_full: "inv s \<Longrightarrow> length (contents s) = cap s \<Longrightarrow>
       \<exists>s'. put x s = (s', False) \<and> inv s' \<and> cap s' = cap s \<and> contents s' = contents s"
    and get_ok: "inv s \<Longrightarrow> contents s = x # xs \<Longrightarrow>
       \<exists>s'. get s = (s', Some x) \<and> inv s' \<and> cap s' = cap s \<and> contents s' = xs"
    and get_empty: "inv s \<Longrightarrow> contents s = [] \<Longrightarrow>
       \<exists>s'. get s = (s', None) \<and> inv s' \<and> cap s' = cap s \<and> contents s' = []"
begin

lemma put_cases:
  assumes "inv s"
  obtains s' where "put x s = (s', True)" "inv s'" "cap s' = cap s" "contents s' = contents s @ [x]"
    "length (contents s) < cap s"
  | s' where "put x s = (s', False)" "inv s'" "cap s' = cap s" "contents s' = contents s" "length (contents s) = cap s"
proof (cases "length (contents s) = cap s")
  case True
  then show ?thesis using that(2) put_full[OF assms, of x] by blast
next
  case False
  then have "length (contents s) < cap s" using bound[OF assms] by simp
  then show ?thesis using that(1) put_ok[OF assms, of x] by blast
qed

lemma get_cases:
  assumes "inv s"
  obtains s' x where "get s = (s', Some x)" "inv s'" "cap s' = cap s" "contents s = x # contents s'"
  | s' where "get s = (s', None)" "inv s'" "cap s' = cap s" "contents s' = []" "contents s = []"
proof (cases "contents s")
  case Nil
  then show ?thesis using that(2) get_empty[OF assms] by blast
next
  case (Cons x xs)
  then show ?thesis using that(1) get_ok[OF assms Cons] by metis
qed

text \<open>Whatever the order of the calls, what comes out is what went in, in order.\<close>

theorem run_order:
  assumes "inv s" "fifo_run put get ops s = (ins, outs, s')"
  shows "inv s' \<and> cap s' = cap s \<and> contents s @ ins = outs @ contents s'"
  using assms
proof (induction ops arbitrary: s ins outs s')
  case (Cons op ops)
  show ?case
  proof (cases op)
    case (Put x)
    obtain i o' s1 where r: "fifo_run put get ops (fst (put x s)) = (i, o', s1)" by (metis surj_pair)
    show ?thesis
      by (rule put_cases[OF Cons.prems(1), of x])
        (use Cons.IH[OF _ r] Cons.prems(2) Put r in \<open>auto simp: Cons.prems(1)\<close>)
  next
    case Get
    obtain i o' s1 where r: "fifo_run put get ops (fst (get s)) = (i, o', s1)" by (metis surj_pair)
    show ?thesis
      by (rule get_cases[OF Cons.prems(1)])
        (use Cons.IH[OF _ r] Cons.prems(2) Get r in \<open>auto simp: Cons.prems(1)\<close>)
  qed
qed simp

text \<open>Nothing is refused while there is room.\<close>

lemma puts_accepted:
  assumes "inv s" "length (contents s) + length xs \<le> cap s"
  shows "fst (fifo_run put get (map Put xs) s) = xs"
  using assms
proof (induction xs arbitrary: s)
  case (Cons x xs)
  have lt: "length (contents s) < cap s" using Cons.prems(2) by simp
  obtain s' where s': "put x s = (s', True)" "inv s'" "cap s' = cap s" "contents s' = contents s @ [x]"
    using put_ok[OF Cons.prems(1) lt, of x] by blast
  show ?case using Cons.IH[OF s'(2)] Cons.prems(2) s' by (auto simp: split_beta)
qed simp

end

text \<open>A buffer whose state stays as it is when nothing goes in or out.\<close>

locale bounded_fifo = fifo +
  assumes refused: "inv s \<Longrightarrow> put x s = (s', False) \<Longrightarrow> s' = s"
    and missed: "inv s \<Longrightarrow> get s = (s', None) \<Longrightarrow> s' = s"
begin

theorem idle_run:
  assumes "inv s" "fifo_run put get ops s = ([], [], s')"
  shows "s' = s"
  using assms
proof (induction ops arbitrary: s s')
  case (Cons op ops)
  show ?case
  proof (cases op)
    case (Put x)
    obtain s1 ok where p: "put x s = (s1, ok)" by (metis surj_pair)
    obtain i o' s2 where r: "fifo_run put get ops s1 = (i, o', s2)" by (metis surj_pair)
    have "\<not> ok" and e: "i = []" "o' = []" "s2 = s'" using Cons.prems(2) p r Put by (auto split: if_splits)
    then have "s1 = s" using refused[OF Cons.prems(1)] p by simp
    then show ?thesis using Cons.IH[OF Cons.prems(1)] r e by simp
  next
    case Get
    obtain s1 v where p: "get s = (s1, v)" by (metis surj_pair)
    obtain i o' s2 where r: "fifo_run put get ops s1 = (i, o', s2)" by (metis surj_pair)
    have "v = None" and e: "i = []" "o' = []" "s2 = s'" using Cons.prems(2) p r Get by (auto split: option.splits)
    then have "s1 = s" using missed[OF Cons.prems(1)] p by simp
    then show ?thesis using Cons.IH[OF Cons.prems(1)] r e by simp
  qed
qed simp

end

section \<open>Cyclic arrays\<close>

text \<open>The position \<open>i\<close> steps after \<open>r\<close>, and how far \<open>j\<close> is behind \<open>w\<close>, in an
  array of \<open>n\<close> cells.\<close>

definition cyc :: "nat \<Rightarrow> nat \<Rightarrow> nat \<Rightarrow> nat" where
  "cyc n r i = (if r + i < n then r + i else r + i - n)"

definition cyc_list :: "nat \<Rightarrow> nat \<Rightarrow> nat \<Rightarrow> 'a list \<Rightarrow> 'a list" where
  "cyc_list n r len pool = map (\<lambda>i. pool ! cyc n r i) [0..<len]"

lemma cyc_less: "r < n \<Longrightarrow> i \<le> n \<Longrightarrow> cyc n r i < n"
  by (auto simp: cyc_def)

lemma length_cyc_list [simp]: "length (cyc_list n r len pool) = len"
  by (simp add: cyc_list_def)

lemma cyc_list_Nil [simp]: "cyc_list n r 0 pool = []"
  by (simp add: cyc_list_def)

lemma cyc_list_nth [simp]: "i < len \<Longrightarrow> cyc_list n r len pool ! i = pool ! cyc n r i"
  by (simp add: cyc_list_def)

lemma cyc_cyc: "r < n \<Longrightarrow> i + j \<le> n \<Longrightarrow> cyc n (cyc n r i) j = cyc n r (i + j)"
  by (auto simp: cyc_def)

lemma cyc_mod: "r < n \<Longrightarrow> i \<le> n \<Longrightarrow> cyc n r i = (r + i) mod n"
  by (simp add: cyc_def le_mod_geq)

lemma cyc_wrap:
  assumes "r < n" "i \<le> n" "j \<le> n" "n \<le> i + j"
  shows "cyc n (cyc n r i) j = cyc n r (i + j - n)"
proof -
  have c: "cyc n r i < n" by (rule cyc_less[OF assms(1,2)])
  have "cyc n (cyc n r i) j = ((r + i) mod n + j) mod n"
    using cyc_mod[OF c assms(3)] cyc_mod[OF assms(1,2)] by simp
  also have "\<dots> = (r + i + j) mod n" by (simp add: mod_add_left_eq)
  also have "\<dots> = (r + i + j - n) mod n" using assms(4) by (simp add: le_mod_geq)
  also have "\<dots> = (r + (i + j - n)) mod n" using assms(4) by (simp add: add.assoc)
  also have "\<dots> = cyc n r (i + j - n)" using cyc_mod[OF assms(1), of "i + j - n"] assms by simp
  finally show ?thesis .
qed

lemma cyc_inj: "r < n \<Longrightarrow> i < n \<Longrightarrow> j < n \<Longrightarrow> cyc n r i = cyc n r j \<longleftrightarrow> i = j"
  by (auto simp: cyc_def split: if_splits)

lemma cyc_list_take: "k \<le> len \<Longrightarrow> take k (cyc_list n r len pool) = cyc_list n r k pool"
  by (rule nth_equalityI) auto

lemma cyc_list_drop:
  assumes "r < n" "k \<le> len" "len \<le> n"
  shows "drop k (cyc_list n r len pool) = cyc_list n (cyc n r k) (len - k) pool"
  using assms by (intro nth_equalityI) (auto simp: cyc_cyc)

lemma cyc_list_Cons:
  assumes "r < n" "len < n"
  shows "cyc_list n r (Suc len) pool = pool ! r # cyc_list n (cyc n r 1) len pool"
  using cyc_list_drop[of r n 1 "Suc len" pool] assms
  by (auto simp: cyc_list_def upt_rec[of 0] cyc_def intro!: nth_equalityI)

text \<open>\<^verbatim>\<open>memcpy(&pool[i], src, length src)\<close>.\<close>

definition blit :: "nat \<Rightarrow> 'a list \<Rightarrow> 'a list \<Rightarrow> 'a list" where
  "blit i src pool = take i pool @ src @ drop (i + length src) pool"

lemma length_blit [simp]: "i + length src \<le> length pool \<Longrightarrow> length (blit i src pool) = length pool"
  by (simp add: blit_def)

lemma nth_blit:
  assumes "i + length src \<le> length pool" "j < length pool"
  shows "blit i src pool ! j = (if i \<le> j \<and> j < i + length src then src ! (j - i) else pool ! j)"
  using assms by (auto simp: blit_def nth_append min_def)

text \<open>A block written from position \<open>w\<close>, split at the end of the array.\<close>

definition cyc_write :: "nat \<Rightarrow> nat \<Rightarrow> 'a list \<Rightarrow> 'a list \<Rightarrow> 'a list" where
  "cyc_write n w src pool =
     (if length src < n - w then blit w src pool
      else blit 0 (drop (n - w) src) (blit w (take (n - w) src) pool))"

lemma length_cyc_write [simp]:
  assumes "w < n" "length src \<le> n" "n \<le> length pool"
  shows "length (cyc_write n w src pool) = length pool"
  using assms by (auto simp: cyc_write_def)

lemma nth_cyc_write:
  assumes "w < n" "length src \<le> n" "n \<le> length pool" "j < n"
  shows "cyc_write n w src pool ! j =
    (let d = (if w \<le> j then j - w else n + j - w) in if d < length src then src ! d else pool ! j)"
  using assms by (auto simp: cyc_write_def nth_blit Let_def)

lemma nth_cyc_write_cyc:
  assumes "r < n" "len \<le> n" "length src \<le> n" "n \<le> length pool" "i < n"
  shows "cyc_write n (cyc n r len) src pool ! cyc n r i =
    (if len \<le> i then (if i - len < length src then src ! (i - len) else pool ! cyc n r i)
     else if n + i - len < length src then src ! (n + i - len) else pool ! cyc n r i)"
proof -
  let ?w = "cyc n r len" and ?j = "cyc n r i"
  have wj: "?w < n" "?j < n" using assms by (auto intro: cyc_less)
  have d: "(if ?w \<le> ?j then ?j - ?w else n + ?j - ?w) = (if len \<le> i then i - len else n + i - len)"
    using assms by (auto simp: cyc_def)
  show ?thesis unfolding nth_cyc_write[OF wj(1) assms(3,4) wj(2)] d Let_def by simp
qed

lemma cyc_write_one:
  "w < n \<Longrightarrow> n \<le> length pool \<Longrightarrow> cyc_write n w [x] pool = pool[w := x]"
  by (intro nth_equalityI) (auto simp: cyc_write_def nth_blit nth_list_update)

lemma blit_one: "i < length pool \<Longrightarrow> blit i [x] pool = pool[i := x]"
  by (intro nth_equalityI) (auto simp: nth_blit nth_list_update)

lemma blit_Nil [simp]: "blit i [] pool = pool"
  by (simp add: blit_def)

text \<open>Appending a block that fits.\<close>

lemma cyc_list_write:
  assumes "r < n" "len + length src \<le> n" "n \<le> length pool"
  shows "cyc_list n r (len + length src) (cyc_write n (cyc n r len) src pool) = cyc_list n r len pool @ src"
  using assms by (intro nth_equalityI) (auto simp: nth_cyc_write_cyc nth_append)

text \<open>Writing over the oldest cells: the last \<open>n\<close> of old and new remain.\<close>

lemma cyc_list_overwrite:
  assumes "r < n" "len \<le> n" "length src \<le> n" "n < len + length src" "n \<le> length pool"
  shows "cyc_list n (cyc n (cyc n r len) (length src)) n (cyc_write n (cyc n r len) src pool)
    = drop (len + length src - n) (cyc_list n r len pool) @ src"
proof -
  let ?k = "len + length src - n"
  have k: "?k \<le> len" "?k \<le> n" using assms by auto
  have e: "cyc n (cyc n r len) (length src) = cyc n r ?k"
    using assms by (intro cyc_wrap) auto
  have w: "cyc n r len < n" using assms by (intro cyc_less) auto
  show ?thesis
    unfolding e
  proof (rule nth_equalityI)
    fix i assume "i < length (cyc_list n (cyc n r ?k) n (cyc_write n (cyc n r len) src pool))"
    then have i: "i < n" by simp
    show "cyc_list n (cyc n r ?k) n (cyc_write n (cyc n r len) src pool) ! i
      = (drop ?k (cyc_list n r len pool) @ src) ! i"
    proof (cases "?k + i < n")
      case True
      then have c: "cyc n (cyc n r ?k) i = cyc n r (?k + i)" using assms i by (intro cyc_cyc) auto
      show ?thesis
        using assms i True k unfolding cyc_list_nth[OF i] c
        by (subst nth_cyc_write_cyc) (auto simp: nth_append add.commute)
    next
      case False
      have c: "cyc n (cyc n r ?k) i = cyc n r (?k + i - n)"
        using assms(1) i k False by (intro cyc_wrap) auto
      have "\<not> len \<le> ?k + i - n" "?k + i - n + n - len = i - (len - ?k)" "len - ?k \<le> i"
        "i - (len - ?k) < length src" using assms i k False by auto
      then show ?thesis
        using assms i False k unfolding cyc_list_nth[OF i] c
        by (subst nth_cyc_write_cyc) (simp_all add: nth_append add.commute)
    qed
  qed (use assms in auto)
qed

end
