(* ===== verification/Rtt_Mailbox.thy ===== *)
theory Rtt_Mailbox
  imports Rtt_Ipc Rtt_Fifo
begin

text \<open>
  Mailboxes (\<^verbatim>\<open>ipc.c\<close>, \<^verbatim>\<open>rt_mb_*\<close>): a ring of 32-bit mails with a
  waiting list for receivers and one for senders. A blocking call goes around its loop once per
  wake-up: \<open>rt_mb_send_wait\<close> and \<open>rt_mb_recv\<close> are the call up to the point
  where it finishes or waits, the \<open>_leave\<close> functions what the caller does when it runs
  again, with the timeout it has left.
\<close>

abbreviation mb_queue :: "nat \<Rightarrow> qhead" where "mb_queue i \<equiv> SuspendQ (OMailBox i)"
abbreviation mb_senders :: "nat \<Rightarrow> qhead" where "mb_senders i \<equiv> SenderQ i"

section \<open>Model\<close>

definition mb_fresh :: "rt_uint32 list \<Rightarrow> rt_uint16 \<Rightarrow> rt_mailbox" where
  "mb_fresh pool sz = \<lparr>msg_pool = pool, mb_size = sz, mb_entry = 0, in_offset = 0, out_offset = 0\<rparr>"

definition mb_setup :: "nat \<Rightarrow> rt_uint32 list \<Rightarrow> rt_uint32 \<Rightarrow> rt_uint8 \<Rightarrow> kernel \<Rightarrow> kernel option" where
  "mb_setup i pool sz flag k = do {
     let k = set_obj_flag (OMailBox i) flag k;
     k \<leftarrow> rt_ipc_object_init (mb_queue i) k;
     let k = upd_mb i (\<lambda>_. mb_fresh pool (ucast sz)) k;
     rt_ipc_object_init (mb_senders i) k
   }"

definition rt_mb_init ::
  "nat \<Rightarrow> rt_uint8 list \<Rightarrow> rt_uint32 list \<Rightarrow> rt_uint32 \<Rightarrow> rt_uint8 \<Rightarrow> kernel \<Rightarrow> (kernel \<times> rt_err) option" where
  "rt_mb_init i nm pool sz flag k = do {
     k \<leftarrow> rt_object_init (OMailBox i) (class_code RT_Object_Class_MailBox) nm k;
     k \<leftarrow> mb_setup i pool sz flag k;
     Some (k, RT_EOK)
   }"

definition mb_resume_all :: "nat \<Rightarrow> kernel \<Rightarrow> kernel option" where
  "mb_resume_all i k = do {
     k \<leftarrow> rt_ipc_list_resume_all (mb_queue i) k;
     rt_ipc_list_resume_all (mb_senders i) k
   }"

definition rt_mb_detach :: "nat \<Rightarrow> kernel \<Rightarrow> (kernel \<times> rt_err) option" where
  "rt_mb_detach i k = do {
     k \<leftarrow> mb_resume_all i k;
     Some (rt_object_detach (OMailBox i) k, RT_EOK)
   }"

text \<open>\<open>mem\<close> and \<open>pool\<close>: what the two allocations return.\<close>

definition rt_mb_create ::
  "rt_uint8 list \<Rightarrow> rt_uint32 \<Rightarrow> rt_uint8 \<Rightarrow> nat option \<Rightarrow> rt_uint32 list option \<Rightarrow> kernel \<Rightarrow>
     (kernel \<times> nat option) option" where
  "rt_mb_create nm sz flag mem pool k = do {
     RT_ASSERT (rt_interrupt_nest k = 0);
     (k, _) \<leftarrow> rt_object_allocate (class_code RT_Object_Class_MailBox) nm (map_option OMailBox mem) k;
     (case mem of
        None \<Rightarrow> Some (k, None)
      | Some i \<Rightarrow>
          (case pool of
             None \<Rightarrow> map_option (\<lambda>k. (k, None)) (rt_object_delete (OMailBox i) k)
           | Some p \<Rightarrow> map_option (\<lambda>k. (k, Some i)) (mb_setup i p sz flag k)))
   }"

definition rt_mb_delete :: "nat \<Rightarrow> kernel \<Rightarrow> (kernel \<times> rt_err) option" where
  "rt_mb_delete i k = do {
     RT_ASSERT (rt_interrupt_nest k = 0);
     k \<leftarrow> mb_resume_all i k;
     map_option (\<lambda>k. (k, RT_EOK)) (rt_object_delete (OMailBox i) k)
   }"

text \<open>The ring itself; the offsets are below the size of the pool by the invariant below.\<close>

definition mb_advance :: "rt_uint16 \<Rightarrow> rt_uint16 \<Rightarrow> rt_uint16" where
  "mb_advance off sz = (if sz \<le> off + 1 then 0 else off + 1)"

definition mb_put :: "rt_uint32 \<Rightarrow> rt_mailbox \<Rightarrow> rt_mailbox" where
  "mb_put value m = m\<lparr>msg_pool := (msg_pool m)[unat (in_offset m) := value],
     in_offset := mb_advance (in_offset m) (mb_size m), mb_entry := mb_entry m + 1\<rparr>"

definition mb_get :: "rt_mailbox \<Rightarrow> rt_mailbox \<times> rt_uint32" where
  "mb_get m = (m\<lparr>out_offset := mb_advance (out_offset m) (mb_size m), mb_entry := mb_entry m - 1\<rparr>,
     msg_pool m ! unat (out_offset m))"

text \<open>From the head of the loop to its end or to the next wait.\<close>

definition mb_send_loop ::
  "nat \<Rightarrow> rt_uint32 \<Rightarrow> int \<Rightarrow> rt_uint32 \<Rightarrow> tid option \<Rightarrow> kernel \<Rightarrow> (kernel \<times> msg_outcome) option" where
  "mb_send_loop i value timeout delta self k =
     (if mb_entry (k_mb k i) = mb_size (k_mb k i) then do {
        t \<leftarrow> self;
        let k = set_error t RT_EOK k;
        (if timeout = 0 then Some (k, MDone (- RT_EFULL))
         else msg_wait (OMailBox i) (mb_senders i) timeout delta t k)
      }
      else do {
        let k = upd_mb i (mb_put value) k;
        k \<leftarrow> wake_waiter (mb_queue i) k;
        Some (k, MDone RT_EOK)
      })"

definition rt_mb_send_wait :: "nat \<Rightarrow> rt_uint32 \<Rightarrow> int \<Rightarrow> kernel \<Rightarrow> (kernel \<times> msg_outcome) option" where
  "rt_mb_send_wait i value timeout k =
     (if mb_entry (k_mb k i) = mb_size (k_mb k i) \<and> timeout = 0 then Some (k, MDone (- RT_EFULL))
      else mb_send_loop i value timeout 0 (rt_thread_self k) k)"

definition rt_mb_send_leave ::
  "nat \<Rightarrow> rt_uint32 \<Rightarrow> int \<Rightarrow> rt_uint32 \<Rightarrow> tid \<Rightarrow> kernel \<Rightarrow> (kernel \<times> msg_outcome) option" where
  "rt_mb_send_leave i value timeout delta t k =
     (if th_error (k_thread k t) \<noteq> RT_EOK then Some (k, MDone (th_error (k_thread k t)))
      else if 0 < timeout then
        (let delta = rt_tick k - delta
         in mb_send_loop i value (recalc_timeout timeout delta) delta (Some t) k)
      else mb_send_loop i value timeout delta (Some t) k)"

definition rt_mb_send :: "nat \<Rightarrow> rt_uint32 \<Rightarrow> kernel \<Rightarrow> (kernel \<times> msg_outcome) option" where
  "rt_mb_send i value k = rt_mb_send_wait i value 0 k"

text \<open>The third component is what \<^verbatim>\<open>*value\<close> receives.\<close>

definition mb_recv_loop ::
  "nat \<Rightarrow> int \<Rightarrow> rt_uint32 \<Rightarrow> tid option \<Rightarrow> kernel \<Rightarrow> (kernel \<times> msg_outcome \<times> rt_uint32 option) option" where
  "mb_recv_loop i timeout delta self k =
     (if mb_entry (k_mb k i) = 0 then do {
        t \<leftarrow> self;
        let k = set_error t RT_EOK k;
        (if timeout = 0 then Some (set_error t (- RT_ETIMEOUT) k, MDone (- RT_ETIMEOUT), None)
         else map_option (\<lambda>(k, r). (k, r, None)) (msg_wait (OMailBox i) (mb_queue i) timeout delta t k))
      }
      else do {
        let (m, value) = mb_get (k_mb k i);
        let k = upd_mb i (\<lambda>_. m) k;
        k \<leftarrow> wake_waiter (mb_senders i) k;
        Some (k, MDone RT_EOK, Some value)
      })"

definition rt_mb_recv :: "nat \<Rightarrow> int \<Rightarrow> kernel \<Rightarrow> (kernel \<times> msg_outcome \<times> rt_uint32 option) option" where
  "rt_mb_recv i timeout k =
     (if mb_entry (k_mb k i) = 0 \<and> timeout = 0 then Some (k, MDone (- RT_ETIMEOUT), None)
      else mb_recv_loop i timeout 0 (rt_thread_self k) k)"

definition rt_mb_recv_leave ::
  "nat \<Rightarrow> int \<Rightarrow> rt_uint32 \<Rightarrow> tid \<Rightarrow> kernel \<Rightarrow> (kernel \<times> msg_outcome \<times> rt_uint32 option) option" where
  "rt_mb_recv_leave i timeout delta t k =
     (if th_error (k_thread k t) \<noteq> RT_EOK then Some (k, MDone (th_error (k_thread k t)), None)
      else if 0 < timeout then
        (let delta = rt_tick k - delta
         in mb_recv_loop i (recalc_timeout timeout delta) delta (Some t) k)
      else mb_recv_loop i timeout delta (Some t) k)"

fun rt_mb_control :: "nat \<Rightarrow> ipc_cmd \<Rightarrow> kernel \<Rightarrow> (kernel \<times> rt_err) option" where
  "rt_mb_control i (RT_IPC_CMD_RESET _) k = do {
     k \<leftarrow> mb_resume_all i k;
     let k = upd_mb i (\<lambda>m. m\<lparr>mb_entry := 0, in_offset := 0, out_offset := 0\<rparr>) k;
     k \<leftarrow> rt_schedule k;
     Some (k, RT_EOK)
   }"
| "rt_mb_control i (IpcCmdOther _) k = Some (k, - RT_ERROR)"

lemmas mb_defs = mb_fresh_def mb_setup_def rt_mb_init_def mb_resume_all_def rt_mb_detach_def rt_mb_create_def
  rt_mb_delete_def mb_advance_def mb_put_def mb_get_def mb_send_loop_def rt_mb_send_wait_def
  rt_mb_send_leave_def rt_mb_send_def mb_recv_loop_def rt_mb_recv_def rt_mb_recv_leave_def

declare mb_defs [op_defs]

section \<open>The ring of mails\<close>

definition mb_ok :: "rt_mailbox \<Rightarrow> bool" where
  "mb_ok m \<longleftrightarrow> 0 < mb_size m \<and> unat (mb_size m) \<le> length (msg_pool m) \<and> mb_entry m \<le> mb_size m \<and>
     out_offset m < mb_size m \<and>
     unat (in_offset m) = cyc (unat (mb_size m)) (unat (out_offset m)) (unat (mb_entry m))"

definition mb_contents :: "rt_mailbox \<Rightarrow> rt_uint32 list" where
  "mb_contents m = cyc_list (unat (mb_size m)) (unat (out_offset m)) (unat (mb_entry m)) (msg_pool m)"

lemma length_mb_contents [simp]: "length (mb_contents m) = unat (mb_entry m)"
  by (simp add: mb_contents_def)

lemma mb_okD:
  assumes "mb_ok m"
  shows "unat (out_offset m) < unat (mb_size m)" "unat (mb_entry m) \<le> unat (mb_size m)"
    "unat (mb_size m) \<le> length (msg_pool m)" "unat (mb_size m) < 65536"
    "unat (in_offset m) = cyc (unat (mb_size m)) (unat (out_offset m)) (unat (mb_entry m))"
    "unat (in_offset m) < unat (mb_size m)"
  using assms unsigned_less[of "mb_size m", where 'a = nat] cyc_less
  by (auto simp: mb_ok_def word_less_nat_alt word_le_nat_alt)

lemma mb_advance:
  assumes "unat off < unat sz"
  shows "unat (mb_advance off sz) = cyc (unat sz) (unat off) 1"
proof -
  have "unat (off + 1) = unat off + 1"
    using assms unsigned_less[of sz, where 'a = nat] by (simp add: unat_word_ariths)
  then show ?thesis using assms by (auto simp: mb_advance_def cyc_def word_le_nat_alt)
qed

lemma mb_put_spec:
  assumes ok: "mb_ok m" and room: "mb_entry m \<noteq> mb_size m"
  shows "mb_ok (mb_put v m)" "mb_contents (mb_put v m) = mb_contents m @ [v]" "mb_size (mb_put v m) = mb_size m"
proof -
  let ?n = "unat (mb_size m)" and ?r = "unat (out_offset m)" and ?c = "unat (mb_entry m)"
  note d = mb_okD[OF ok]
  have c: "?c < ?n" using room d(2) by (simp add: word_unat_eq_iff)
  have e: "unat (mb_entry m + 1) = ?c + 1" using c d(4) by (simp add: unat_word_ariths)
  have i: "unat (mb_advance (in_offset m) (mb_size m)) = cyc ?n ?r (?c + 1)"
    unfolding mb_advance[OF d(6)] d(5) using d(1) c by (intro cyc_cyc) auto
  show "mb_size (mb_put v m) = mb_size m" by (simp add: mb_put_def)
  show "mb_ok (mb_put v m)"
    using ok c e i by (simp add: mb_ok_def mb_put_def word_le_nat_alt)
  have w: "(msg_pool m)[cyc ?n ?r ?c := v] = cyc_write ?n (cyc ?n ?r ?c) [v] (msg_pool m)"
    using d(3,5,6) by (simp add: cyc_write_one)
  show "mb_contents (mb_put v m) = mb_contents m @ [v]"
    using cyc_list_write[of ?r ?n ?c "[v]" "msg_pool m"] d(1,3) c
    by (simp add: mb_contents_def mb_put_def e d(5) w)
qed

lemma mb_get_spec:
  assumes ok: "mb_ok m" and ne: "mb_entry m \<noteq> 0"
  shows "mb_ok (fst (mb_get m))" "mb_contents m = snd (mb_get m) # mb_contents (fst (mb_get m))"
    "mb_size (fst (mb_get m)) = mb_size m"
proof -
  let ?n = "unat (mb_size m)" and ?r = "unat (out_offset m)" and ?c = "unat (mb_entry m)"
  note d = mb_okD[OF ok]
  have c: "0 < ?c" using ne by (simp add: unat_gt_0)
  have e: "unat (mb_entry m - 1) = ?c - 1" using ne by (simp add: unat_minus_one)
  have i: "unat (mb_advance (out_offset m) (mb_size m)) = cyc ?n ?r 1" by (rule mb_advance[OF d(1)])
  have lt: "cyc ?n ?r 1 < ?n" using d(1) by (intro cyc_less) auto
  show "mb_size (fst (mb_get m)) = mb_size m" by (simp add: mb_get_def)
  have "cyc ?n (cyc ?n ?r 1) (?c - 1) = cyc ?n ?r ?c" using cyc_cyc[of ?r ?n 1 "?c - 1"] d(1,2) c by simp
  then show "mb_ok (fst (mb_get m))"
    using ok e i lt d(2,5) by (simp add: mb_ok_def mb_get_def word_le_nat_alt word_less_nat_alt)
  show "mb_contents m = snd (mb_get m) # mb_contents (fst (mb_get m))"
    using cyc_list_Cons[of ?r ?n "?c - 1" "msg_pool m"] d(1,2) c
    by (simp add: mb_contents_def mb_get_def e i)
qed

text \<open>A mailbox is a bounded FIFO.\<close>

definition mb_offer :: "rt_uint32 \<Rightarrow> rt_mailbox \<Rightarrow> rt_mailbox \<times> bool" where
  "mb_offer v m = (if mb_entry m = mb_size m then (m, False) else (mb_put v m, True))"

definition mb_poll :: "rt_mailbox \<Rightarrow> rt_mailbox \<times> rt_uint32 option" where
  "mb_poll m = (if mb_entry m = 0 then (m, None) else (let (m', v) = mb_get m in (m', Some v)))"

interpretation mb: bounded_fifo mb_ok "\<lambda>m. unat (mb_size m)" mb_contents mb_offer mb_poll
proof unfold_locales
  fix m v xs assume ok: "mb_ok m"
  show "length (mb_contents m) \<le> unat (mb_size m)" using mb_okD(2)[OF ok] by simp
  show "length (mb_contents m) = unat (mb_size m) \<Longrightarrow> \<exists>m'. mb_offer v m = (m', False) \<and> mb_ok m' \<and>
      unat (mb_size m') = unat (mb_size m) \<and> mb_contents m' = mb_contents m"
    using ok by (simp add: mb_offer_def word_unat_eq_iff)
  show "mb_contents m = [] \<Longrightarrow> \<exists>m'. mb_poll m = (m', None) \<and> mb_ok m' \<and>
      unat (mb_size m') = unat (mb_size m) \<and> mb_contents m' = []"
    using length_mb_contents[of m] ok by (simp add: mb_poll_def unat_eq_zero del: length_mb_contents)
  show "mb_offer v m = (m', False) \<Longrightarrow> m' = m" "mb_poll m = (m', None) \<Longrightarrow> m' = m" for m'
    by (auto simp: mb_offer_def mb_poll_def split_beta split: if_splits)
  show "\<exists>m'. mb_offer v m = (m', True) \<and> mb_ok m' \<and> unat (mb_size m') = unat (mb_size m) \<and>
      mb_contents m' = mb_contents m @ [v]" if "length (mb_contents m) < unat (mb_size m)"
    using that mb_put_spec[OF ok] by (auto simp: mb_offer_def)
  show "\<exists>m'. mb_poll m = (m', Some v) \<and> mb_ok m' \<and> unat (mb_size m') = unat (mb_size m) \<and>
      mb_contents m' = xs" if "mb_contents m = v # xs"
  proof -
    have "mb_entry m \<noteq> 0" using that length_mb_contents[of m] by auto
    then show ?thesis using mb_get_spec[OF ok] that by (auto simp: mb_poll_def split_beta)
  qed
qed

section \<open>Sending and receiving\<close>

lemma kinv_upd_mb [simp]: "kinv_but X (upd_mb i f k) = kinv_but X k"
  by simp

definition mb_inv :: "kernel \<Rightarrow> bool" where
  "mb_inv k \<longleftrightarrow> (\<forall>i. mb_size (k_mb k i) \<noteq> 0 \<longrightarrow> mb_ok (k_mb k i))"

lemma mb_inv_upd: "mb_inv k \<Longrightarrow> k_mb k' = (k_mb k)(i := m) \<Longrightarrow> mb_ok m \<Longrightarrow> mb_inv k'"
  by (auto simp: mb_inv_def)

text \<open>A mail is stored at the end of the mailbox and the first waiting receiver made ready.\<close>

lemma mb_send_room:
  assumes inv: "kinv k" and ok: "mb_ok (k_mb k i)" and room: "mb_entry (k_mb k i) \<noteq> mb_size (k_mb k i)"
    and cur: "rt_current_thread k \<noteq> None"
  obtains k' where "mb_send_loop i v timeout delta self k = Some (k', MDone RT_EOK)" "kinv k'"
    "k_mb k' = (k_mb k)(i := mb_put v (k_mb k i))"
    "tlist_of k' (mb_queue i) = tl (tlist_of k (mb_queue i))"
    "\<And>g. wait_head g \<Longrightarrow> g \<noteq> mb_queue i \<Longrightarrow> tlist_of k' g = tlist_of k g"
    "k_thread k' = (case tlist_of k (mb_queue i) of [] \<Rightarrow> k_thread k | t # _ \<Rightarrow> (k_thread k)(t := readied (k_thread k t)))"
    "rt_current_thread k' \<noteq> None"
    "tlist_of k (mb_queue i) \<noteq> [] \<Longrightarrow> rt_scheduler_lock_nest k = 0 \<Longrightarrow> highest_runs k'"
    "keeps (upd_mb i (mb_put v) k) k'"
proof -
  let ?k = "upd_mb i (mb_put v) k"
  have k: "kinv ?k" "rt_current_thread ?k \<noteq> None" and h: "wait_head (mb_queue i)" using inv cur by simp_all
  obtain k' where k': "wake_waiter (mb_queue i) ?k = Some k'" "kinv k'" "keeps ?k k'"
    "tlist_of k' (mb_queue i) = tl (tlist_of ?k (mb_queue i))"
    "\<And>g. wait_head g \<Longrightarrow> g \<noteq> mb_queue i \<Longrightarrow> tlist_of k' g = tlist_of ?k g"
    "k_thread k' = (case tlist_of ?k (mb_queue i) of [] \<Rightarrow> k_thread ?k | t # _ \<Rightarrow> (k_thread ?k)(t := readied (k_thread ?k t)))"
    "rt_current_thread k' \<noteq> None"
    "tlist_of ?k (mb_queue i) \<noteq> [] \<Longrightarrow> rt_scheduler_lock_nest ?k = 0 \<Longrightarrow> highest_runs k'"
    by (rule wake_waiter_spec[OF k(1) h k(2)]) (rule that)
  have "mb_send_loop i v timeout delta self k = Some (k', MDone RT_EOK)"
    using room k'(1) by (simp add: mb_send_loop_def)
  then show ?thesis
    by (rule that[OF _ k'(2)]) (use k'(3-8) in \<open>simp_all add: keeps_def cong: list.case_cong\<close>)
qed

lemma mb_recv_mail:
  assumes inv: "kinv k" and ok: "mb_ok (k_mb k i)" and ne: "mb_entry (k_mb k i) \<noteq> 0"
    and cur: "rt_current_thread k \<noteq> None"
  obtains k' where "mb_recv_loop i timeout delta self k = Some (k', MDone RT_EOK, Some (hd (mb_contents (k_mb k i))))" "kinv k'"
    "k_mb k' = (k_mb k)(i := fst (mb_get (k_mb k i)))"
    "tlist_of k' (mb_senders i) = tl (tlist_of k (mb_senders i))"
    "\<And>g. wait_head g \<Longrightarrow> g \<noteq> mb_senders i \<Longrightarrow> tlist_of k' g = tlist_of k g"
    "k_thread k' = (case tlist_of k (mb_senders i) of [] \<Rightarrow> k_thread k | t # _ \<Rightarrow> (k_thread k)(t := readied (k_thread k t)))"
    "rt_current_thread k' \<noteq> None"
    "tlist_of k (mb_senders i) \<noteq> [] \<Longrightarrow> rt_scheduler_lock_nest k = 0 \<Longrightarrow> highest_runs k'"
proof -
  obtain m v where m: "mb_get (k_mb k i) = (m, v)" by fastforce
  let ?k = "upd_mb i (\<lambda>_. m) k"
  have v: "hd (mb_contents (k_mb k i)) = v" using mb_get_spec(2)[OF ok ne] m by simp
  have k: "kinv ?k" "rt_current_thread ?k \<noteq> None" and h: "wait_head (mb_senders i)" using inv cur by simp_all
  obtain k' where k': "wake_waiter (mb_senders i) ?k = Some k'" "kinv k'" "keeps ?k k'"
    "tlist_of k' (mb_senders i) = tl (tlist_of ?k (mb_senders i))"
    "\<And>g. wait_head g \<Longrightarrow> g \<noteq> mb_senders i \<Longrightarrow> tlist_of k' g = tlist_of ?k g"
    "k_thread k' = (case tlist_of ?k (mb_senders i) of [] \<Rightarrow> k_thread ?k | t # _ \<Rightarrow> (k_thread ?k)(t := readied (k_thread ?k t)))"
    "rt_current_thread k' \<noteq> None"
    "tlist_of ?k (mb_senders i) \<noteq> [] \<Longrightarrow> rt_scheduler_lock_nest ?k = 0 \<Longrightarrow> highest_runs k'"
    by (rule wake_waiter_spec[OF k(1) h k(2)]) (rule that)
  have "mb_recv_loop i timeout delta self k = Some (k', MDone RT_EOK, Some v)"
    using ne k'(1) by (simp add: mb_recv_loop_def m)
  then show ?thesis
    by (intro that[OF _ k'(2)]) (use k'(3-8) v m in \<open>simp_all add: keeps_def cong: list.case_cong\<close>)
qed

text \<open>Every send and receive keeps the invariants; an unsuccessful one leaves the mails alone.\<close>

lemma mb_send_loop_inv:
  assumes inv: "kinv k" "mb_inv k" and cb: "can_block t k" and fl: "valid_flag (OMailBox i) k"
    and tm: "timeout < 2 ^ 31 - 1" and init: "mb_size (k_mb k i) \<noteq> 0"
  shows "\<exists>k' r. mb_send_loop i v timeout delta (Some t) k = Some (k', r) \<and> kinv k' \<and> mb_inv k' \<and>
    (case r of MDone e \<Rightarrow> e = RT_EOK \<and> mb_contents (k_mb k' i) = mb_contents (k_mb k i) @ [v] \<or>
        e = - RT_EFULL \<and> timeout = 0 \<and> k_mb k' = k_mb k \<and> mb_entry (k_mb k i) = mb_size (k_mb k i)
      | MWait tmo d \<Rightarrow> tmo = timeout \<and> k_mb k' = k_mb k \<and> mb_entry (k_mb k i) = mb_size (k_mb k i) \<and>
          t \<in> set (tlist_of k' (mb_senders i)))"
proof -
  have ok: "mb_ok (k_mb k i)" using inv(2) init by (simp add: mb_inv_def)
  note c = can_blockD[OF cb]
  have cur: "rt_current_thread k \<noteq> None" using c(1) by simp
  show ?thesis
  proof (cases "mb_entry (k_mb k i) = mb_size (k_mb k i)")
    case False
    obtain k' where k': "mb_send_loop i v timeout delta (Some t) k = Some (k', MDone RT_EOK)" "kinv k'"
      "k_mb k' = (k_mb k)(i := mb_put v (k_mb k i))"
      by (rule mb_send_room[OF inv(1) ok False cur]) (rule that; assumption)
    have "mb_inv k'" by (rule mb_inv_upd[OF inv(2) k'(3) mb_put_spec(1)[OF ok False]])
    then show ?thesis using k' mb_put_spec(2)[OF ok False] by (intro exI[of _ k'] exI[of _ "MDone RT_EOK"]) simp
  next
    case True
    note full = True
    show ?thesis
    proof (cases "timeout = 0")
      case True
      have "mb_inv (set_error t RT_EOK k)" using inv(2) by (simp add: mb_inv_def)
      then show ?thesis
        using True full kinv_set_error[OF inv(1), of t RT_EOK]
        by (intro exI[of _ "set_error t RT_EOK k"] exI[of _ "MDone (- RT_EFULL)"]) (simp add: mb_send_loop_def)
    next
      case False
      have h: "wait_head (mb_senders i)" by simp
      obtain k' where k': "msg_wait (OMailBox i) (mb_senders i) timeout delta t (set_error t RT_EOK k)
          = Some (k', MWait timeout (if 0 < timeout then rt_tick k else delta))" "kinv k'" "keeps k k'"
        "tlist_of k' (mb_senders i) = wait_list (obj_ipc_flag (OMailBox i) k)
           (\<lambda>s. current_priority (k_thread k s)) t (tlist_of k (mb_senders i))"
        by (rule msg_wait_spec[OF inv(1) cb fl h tm, of delta]) (rule that; assumption)
      have e: "k_mb k' = k_mb k" using k'(3) by (simp add: keeps_def)
      have "mb_inv k'" using inv(2) by (simp add: mb_inv_def e)
      then show ?thesis
        using k' False full e
        by (intro exI[of _ k'] exI[of _ "MWait timeout (if 0 < timeout then rt_tick k else delta)"])
          (simp add: mb_send_loop_def)
    qed
  qed
qed

lemma mb_recv_loop_inv:
  assumes inv: "kinv k" "mb_inv k" and cb: "can_block t k" and fl: "valid_flag (OMailBox i) k"
    and tm: "timeout < 2 ^ 31 - 1" and init: "mb_size (k_mb k i) \<noteq> 0"
  shows "\<exists>k' r x. mb_recv_loop i timeout delta (Some t) k = Some (k', r, x) \<and> kinv k' \<and> mb_inv k' \<and>
    (case r of MDone e \<Rightarrow> e = RT_EOK \<and> (\<exists>v. x = Some v \<and> mb_contents (k_mb k i) = v # mb_contents (k_mb k' i)) \<or>
        e = - RT_ETIMEOUT \<and> x = None \<and> timeout = 0 \<and> k_mb k' = k_mb k \<and> mb_contents (k_mb k i) = []
      | MWait tmo d \<Rightarrow> x = None \<and> tmo = timeout \<and> k_mb k' = k_mb k \<and> mb_contents (k_mb k i) = [] \<and>
          t \<in> set (tlist_of k' (mb_queue i)))"
proof -
  have ok: "mb_ok (k_mb k i)" using inv(2) init by (simp add: mb_inv_def)
  note c = can_blockD[OF cb]
  have cur: "rt_current_thread k \<noteq> None" using c(1) by simp
  show ?thesis
  proof (cases "mb_entry (k_mb k i) = 0")
    case False
    obtain k' where k': "mb_recv_loop i timeout delta (Some t) k
        = Some (k', MDone RT_EOK, Some (hd (mb_contents (k_mb k i))))" "kinv k'"
      "k_mb k' = (k_mb k)(i := fst (mb_get (k_mb k i)))"
      by (rule mb_recv_mail[OF inv(1) ok False cur]) (rule that; assumption)
    have "mb_inv k'" by (rule mb_inv_upd[OF inv(2) k'(3) mb_get_spec(1)[OF ok False]])
    then show ?thesis using k' mb_get_spec(2)[OF ok False]
      by (intro exI[of _ k'] exI[of _ "MDone RT_EOK"] exI[of _ "Some (hd (mb_contents (k_mb k i)))"]) simp
  next
    case True
    then have empty: "mb_contents (k_mb k i) = []" by (simp add: mb_contents_def)
    note zero = True
    show ?thesis
    proof (cases "timeout = 0")
      case True
      let ?k = "set_error t (- RT_ETIMEOUT) (set_error t RT_EOK k)"
      have "kinv ?k" by (rule kinv_set_error[OF kinv_set_error[OF inv(1)]])
      moreover have "mb_inv ?k" using inv(2) by (simp add: mb_inv_def)
      ultimately show ?thesis
        using True zero empty
        by (intro exI[of _ ?k] exI[of _ "MDone (- RT_ETIMEOUT)"] exI[of _ None]) (simp add: mb_recv_loop_def)
    next
      case False
      have h: "wait_head (mb_queue i)" by simp
      obtain k' where k': "msg_wait (OMailBox i) (mb_queue i) timeout delta t (set_error t RT_EOK k)
          = Some (k', MWait timeout (if 0 < timeout then rt_tick k else delta))" "kinv k'" "keeps k k'"
        "tlist_of k' (mb_queue i) = wait_list (obj_ipc_flag (OMailBox i) k)
           (\<lambda>s. current_priority (k_thread k s)) t (tlist_of k (mb_queue i))"
        by (rule msg_wait_spec[OF inv(1) cb fl h tm, of delta]) (rule that; assumption)
      have e: "k_mb k' = k_mb k" using k'(3) by (simp add: keeps_def)
      have "mb_inv k'" using inv(2) by (simp add: mb_inv_def e)
      then show ?thesis
        using k' False zero e empty
        by (intro exI[of _ k'] exI[of _ "MWait timeout (if 0 < timeout then rt_tick k else delta)"] exI[of _ None])
          (simp add: mb_recv_loop_def)
    qed
  qed
qed

text \<open>A fresh mailbox satisfies the invariant.\<close>

lemma mb_fresh_ok:
  "0 < sz \<Longrightarrow> unat sz \<le> length pool \<Longrightarrow> mb_ok (mb_fresh pool sz) \<and> mb_contents (mb_fresh pool sz) = []"
  by (simp add: mb_ok_def mb_fresh_def mb_contents_def cyc_def word_less_nat_alt)

end
