(* ===== verification/Rtt_Align.thy ===== *)
theory Rtt_Align
  imports Rtt_Prelude
begin

text \<open>
  \<^verbatim>\<open>RT_ALIGN\<close> and \<^verbatim>\<open>RT_ALIGN_DOWN\<close> on words, read as numbers: rounding
  down is exact, rounding up wraps to a small number at the top of the range.
\<close>

lemma and_not_mask_push: "(w :: 'a::len word) AND NOT (mask n) = push_bit n (drop_bit n w)"
  by (rule bit_word_eqI) (auto simp: bit_simps)

lemma unat_and_not_mask: "unat ((w :: 'a::len word) AND NOT (mask n)) = unat w div 2 ^ n * 2 ^ n"
proof -
  have "unat w div 2 ^ n * 2 ^ n \<le> unat w" by (rule div_times_less_eq_dividend)
  also have "\<dots> < 2 ^ LENGTH('a)" by (rule unsigned_less)
  finally show ?thesis
    unfolding and_not_mask_push
    by (simp add: unsigned_push_bit_eq unsigned_drop_bit_eq take_bit_nat_eq_self push_bit_nat_def drop_bit_nat_def)
qed

lemma unat_RT_ALIGN_DOWN:
  fixes w a :: "'a::len word"
  assumes "a - 1 = mask n"
  shows "unat (RT_ALIGN_DOWN w a) = unat w div 2 ^ n * 2 ^ n"
  unfolding RT_ALIGN_DOWN_def assms by (rule unat_and_not_mask)

lemma unat_RT_ALIGN:
  fixes w a :: "'a::len word"
  assumes "a - 1 = mask n" "n < LENGTH('a)"
  shows "unat (RT_ALIGN w a) = ((unat w + (2 ^ n - 1)) mod 2 ^ LENGTH('a)) div 2 ^ n * 2 ^ n"
proof -
  have lt: "(2 :: nat) ^ n - 1 < 2 ^ LENGTH('a)"
    by (rule less_imp_diff_less) (use assms(2) in simp)
  have "(mask n :: 'a word) = of_nat (2 ^ n - 1)" by (simp add: mask_eq_exp_minus_1 of_nat_diff)
  then have m: "unat (mask n :: 'a word) = 2 ^ n - 1" using lt by (simp only: unat_of_nat mod_less)
  have e: "RT_ALIGN w a = (w + mask n) AND NOT (mask n)"
    unfolding RT_ALIGN_def assms(1)[symmetric] by (simp only: add_diff_eq)
  show ?thesis unfolding e unat_and_not_mask unat_word_ariths m ..
qed

text \<open>The alignment of this target is 4.\<close>

lemma align4_mask: "(4 :: 16 word) - 1 = mask 2" "(4 :: 32 word) - 1 = mask 2"
  by (simp_all add: mask_eq_exp_minus_1)

lemma unat_RT_ALIGN_4_mod: "unat (RT_ALIGN (w :: rt_uint32) 4) = ((unat w + 3) mod 2 ^ 32) div 4 * 4"
  by (subst unat_RT_ALIGN[OF align4_mask(2)]) simp_all

lemma unat_RT_ALIGN_4:
  assumes "unat (w :: rt_uint32) + 3 < 2 ^ 32"
  shows "unat (RT_ALIGN w 4) = (unat w + 3) div 4 * 4"
  unfolding unat_RT_ALIGN_4_mod using assms by simp

text \<open>Rounding up the last three values wraps to 0.\<close>

lemma RT_ALIGN_4_overflow:
  assumes "2 ^ 32 \<le> unat (w :: rt_uint32) + 3"
  shows "RT_ALIGN w 4 = 0"
proof -
  have l: "unat w < 2 ^ 32" by (rule unat32_less)
  have "(unat w + 3) mod 2 ^ 32 = unat w + 3 - 2 ^ 32" using assms l by (simp add: le_mod_geq)
  then have "(unat w + 3) mod 2 ^ 32 < 4" using l by simp
  then have "unat (RT_ALIGN w 4) = 0" unfolding unat_RT_ALIGN_4_mod by simp
  then show ?thesis by (simp add: unat_eq_zero)
qed

end
