(* ===== verification/Rtt_Chain.thy ===== *)
theory Rtt_Chain
  imports Rtt_Prelude
begin

text \<open>
  Singly linked lists in a pool of numbered blocks (\<open>chain next first blocks\<close>), and the
  contract of an allocator of equal blocks, which memory pools keep: a block handed out is not in
  use, nothing is refused while a block is free, and a block given back can be handed out again.
\<close>

section \<open>Chains\<close>

fun chain :: "('a \<Rightarrow> 'a option) \<Rightarrow> 'a option \<Rightarrow> 'a list \<Rightarrow> bool" where
  "chain nx p [] \<longleftrightarrow> p = None"
| "chain nx p (b # bs) \<longleftrightarrow> p = Some b \<and> chain nx (nx b) bs"

lemma chain_upd [simp]: "b \<notin> set bs \<Longrightarrow> chain (nx(b := v)) p bs = chain nx p bs"
  by (induction bs arbitrary: p) auto

lemma chain_snoc:
  "chain nx p bs \<Longrightarrow> bs \<noteq> [] \<Longrightarrow> distinct bs \<Longrightarrow> b \<notin> set bs \<Longrightarrow> nx b = None \<Longrightarrow>
     chain (nx(last bs := Some b)) p (bs @ [b])"
proof (induction bs arbitrary: p)
  case (Cons a bs)
  then show ?case by (cases "bs = []") auto
qed simp

lemma chain_None: "chain nx p bs \<Longrightarrow> p = None \<longleftrightarrow> bs = []"
  by (cases bs) auto

lemma chain_unique: "chain nx p bs \<Longrightarrow> chain nx p cs \<Longrightarrow> bs = cs"
  by (induction bs arbitrary: p cs) (case_tac cs; auto)+

section \<open>The contract of a block allocator\<close>

datatype 'b alloc_op = Alloc | Release 'b

text \<open>A run: the blocks handed out by the allocations that succeeded, in order. A block that is
  not in use is not released.\<close>

fun alloc_run ::
  "('s \<Rightarrow> ('b \<times> 's) option) \<Rightarrow> ('b \<Rightarrow> 's \<Rightarrow> 's) \<Rightarrow> ('b \<Rightarrow> 's \<Rightarrow> bool) \<Rightarrow> 'b alloc_op list \<Rightarrow> 's \<Rightarrow> 'b list \<times> 's" where
  "alloc_run al re inuse [] s = ([], s)"
| "alloc_run al re inuse (Alloc # ops) s =
     (case al s of
        None \<Rightarrow> alloc_run al re inuse ops s
      | Some (b, s) \<Rightarrow> (let (bs, s) = alloc_run al re inuse ops s in (b # bs, s)))"
| "alloc_run al re inuse (Release b # ops) s =
     (if inuse b s then alloc_run al re inuse ops (re b s) else alloc_run al re inuse ops s)"

locale block_alloc =
  fixes inv :: "'s \<Rightarrow> bool" and used :: "'s \<Rightarrow> 'b set" and cap :: "'s \<Rightarrow> nat"
    and al :: "'s \<Rightarrow> ('b \<times> 's) option" and re :: "'b \<Rightarrow> 's \<Rightarrow> 's"
  assumes bound: "inv s \<Longrightarrow> finite (used s) \<and> card (used s) \<le> cap s"
    and alloc_Some: "inv s \<Longrightarrow> al s = Some (b, s') \<Longrightarrow>
       inv s' \<and> b \<notin> used s \<and> used s' = insert b (used s) \<and> cap s' = cap s"
    and alloc_None: "inv s \<Longrightarrow> al s = None \<longleftrightarrow> card (used s) = cap s"
    and release: "inv s \<Longrightarrow> b \<in> used s \<Longrightarrow>
       inv (re b s) \<and> used (re b s) = used s - {b} \<and> cap (re b s) = cap s"
begin

lemma run_inv:
  assumes "inv s" "alloc_run al re (\<lambda>b s. b \<in> used s) ops s = (bs, s')"
  shows "inv s' \<and> cap s' = cap s \<and> used s' \<subseteq> used s \<union> set bs"
  using assms
proof (induction ops arbitrary: s bs s')
  case (Cons op ops)
  show ?case
  proof (cases op)
    case Alloc
    show ?thesis
    proof (cases "al s")
      case None
      then show ?thesis using Cons Alloc by simp
    next
      case (Some p)
      obtain b s1 where p: "p = (b, s1)" by fastforce
      obtain bs1 s2 where r: "alloc_run al re (\<lambda>b s. b \<in> used s) ops s1 = (bs1, s2)" by fastforce
      have a: "inv s1 \<and> b \<notin> used s \<and> used s1 = insert b (used s) \<and> cap s1 = cap s"
        using alloc_Some[OF Cons.prems(1)] Some p by blast
      then have "inv s2 \<and> cap s2 = cap s1 \<and> used s2 \<subseteq> used s1 \<union> set bs1" using Cons.IH[OF _ r] by blast
      then show ?thesis using Cons.prems(2) Alloc Some p r a by auto
    qed
  next
    case (Release b)
    show ?thesis
    proof (cases "b \<in> used s")
      case True
      note rel = release[OF Cons.prems(1) True]
      then show ?thesis using Cons.IH[of "re b s" bs] Cons.prems(2) Release True by auto
    next
      case False
      then show ?thesis using Cons Release by simp
    qed
  qed
qed simp

text \<open>Allocations without releases in between hand out different blocks, all that were free.\<close>

lemma allocs_distinct:
  assumes "inv s"
  shows "distinct (fst (alloc_run al re (\<lambda>b s. b \<in> used s) (replicate n Alloc) s)) \<and>
    set (fst (alloc_run al re (\<lambda>b s. b \<in> used s) (replicate n Alloc) s)) \<inter> used s = {} \<and>
    length (fst (alloc_run al re (\<lambda>b s. b \<in> used s) (replicate n Alloc) s)) = min n (cap s - card (used s))"
  using assms
proof (induction n arbitrary: s)
  case (Suc n)
  show ?case
  proof (cases "al s")
    case None
    then have z: "cap s - card (used s) = 0" using alloc_None[OF Suc.prems] by simp
    then show ?thesis using Suc.IH[OF Suc.prems] None by simp
  next
    case (Some p)
    obtain b s1 where p: "p = (b, s1)" by fastforce
    have a: "inv s1" "b \<notin> used s" "used s1 = insert b (used s)" "cap s1 = cap s"
      using alloc_Some[OF Suc.prems] Some p by blast+
    have c: "card (used s) < cap s"
      using alloc_None[OF Suc.prems] bound[OF Suc.prems] Some by auto
    have "card (used s1) = Suc (card (used s))" using a(2,3) bound[OF Suc.prems] by simp
    then show ?thesis using Suc.IH[OF a(1)] Some p a c by (auto simp: split_beta)
  qed
qed simp

end

end
