(* ===== verification/Rtt_Mqueue.thy ===== *)
theory Rtt_Mqueue
  imports Rtt_Ipc Rtt_Align Rtt_Chain
begin

text \<open>
  Message queues (\<^verbatim>\<open>ipc.c\<close>, \<^verbatim>\<open>rt_mq_*\<close>): a pool of blocks on two
  singly linked lists, the free one and the queue. A send takes a block with interrupts off,
  fills it with interrupts on and links it with interrupts off again; each of these steps is a
  function of its own, and the invariant allows blocks that are in flight between them. Blocks
  are numbered by their position in the pool; \<open>mq_data\<close> is the payload behind the
  header of a block.
\<close>

abbreviation mq_queue :: "nat \<Rightarrow> qhead" where "mq_queue i \<equiv> SuspendQ (OMsgQueue i)"

section \<open>Model\<close>

text \<open>The loop that puts every block on the free list.\<close>

fun mq_free_blocks :: "nat \<Rightarrow> rt_messagequeue \<Rightarrow> rt_messagequeue" where
  "mq_free_blocks 0 m = m"
| "mq_free_blocks (Suc n) m =
     (let m = mq_free_blocks n m
      in m\<lparr>mq_next := (mq_next m)(n := mq_free m), mq_free := Some n\<rparr>)"

definition mq_fresh :: "rt_uint16 \<Rightarrow> rt_uint16 \<Rightarrow> (nat \<Rightarrow> rt_uint8 list) \<Rightarrow> rt_messagequeue" where
  "mq_fresh msize maxm payload = mq_free_blocks (unat maxm)
     \<lparr>mq_msg_size = msize, mq_max_msgs = maxm, mq_entry = 0, mq_head = None, mq_tail = None,
      mq_free = None, mq_next = (\<lambda>_. None), mq_data = payload\<rparr>"

text \<open>\<open>payload\<close> is what the pool holds; the sizes are truncated to the 16-bit fields.\<close>

definition rt_mq_init ::
  "nat \<Rightarrow> rt_uint8 list \<Rightarrow> (nat \<Rightarrow> rt_uint8 list) \<Rightarrow> rt_uint32 \<Rightarrow> rt_uint32 \<Rightarrow> rt_uint8 \<Rightarrow> kernel \<Rightarrow>
     (kernel \<times> rt_err) option" where
  "rt_mq_init i nm payload msg_size pool_size flag k = do {
     k \<leftarrow> rt_object_init (OMsgQueue i) (class_code RT_Object_Class_MessageQueue) nm k;
     let k = set_obj_flag (OMsgQueue i) flag k;
     k \<leftarrow> rt_ipc_object_init (mq_queue i) k;
     let msize = ucast (RT_ALIGN msg_size 4);
     let maxm = ucast (pool_size div (ucast msize + 4));
     Some (upd_mq i (\<lambda>_. mq_fresh msize maxm payload) k, RT_EOK)
   }"

definition rt_mq_detach :: "nat \<Rightarrow> kernel \<Rightarrow> (kernel \<times> rt_err) option" where
  "rt_mq_detach i k = do {
     k \<leftarrow> rt_ipc_list_resume_all (mq_queue i) k;
     Some (rt_object_detach (OMsgQueue i) k, RT_EOK)
   }"

definition rt_mq_delete :: "nat \<Rightarrow> kernel \<Rightarrow> (kernel \<times> rt_err) option" where
  "rt_mq_delete i k = do {
     RT_ASSERT (rt_interrupt_nest k = 0);
     k \<leftarrow> rt_ipc_list_resume_all (mq_queue i) k;
     map_option (\<lambda>k. (k, RT_EOK)) (rt_object_delete (OMsgQueue i) k)
   }"

definition rt_mq_create ::
  "rt_uint8 list \<Rightarrow> rt_uint32 \<Rightarrow> rt_uint32 \<Rightarrow> rt_uint8 \<Rightarrow> nat option \<Rightarrow> (nat \<Rightarrow> rt_uint8 list) option \<Rightarrow> kernel \<Rightarrow>
     (kernel \<times> nat option) option" where
  "rt_mq_create nm msg_size max_msgs flag mem pool k = do {
     RT_ASSERT (rt_interrupt_nest k = 0);
     (k, _) \<leftarrow> rt_object_allocate (class_code RT_Object_Class_MessageQueue) nm (map_option OMsgQueue mem) k;
     (case mem of
        None \<Rightarrow> Some (k, None)
      | Some i \<Rightarrow> do {
          let k = set_obj_flag (OMsgQueue i) flag k;
          k \<leftarrow> rt_ipc_object_init (mq_queue i) k;
          (case pool of
             None \<Rightarrow> map_option (\<lambda>(k, _). (k, None)) (rt_mq_delete i k)
           | Some payload \<Rightarrow>
               Some (upd_mq i (\<lambda>_. mq_fresh (ucast (RT_ALIGN msg_size 4)) (ucast max_msgs) payload) k, Some i))
        })
   }"

text \<open>The steps on the two lists.\<close>

definition mq_take_block :: "rt_messagequeue \<Rightarrow> (nat \<times> rt_messagequeue) option" where
  "mq_take_block m = (case mq_free m of None \<Rightarrow> None | Some b \<Rightarrow> Some (b, m\<lparr>mq_free := mq_next m b\<rparr>))"

definition mq_fill :: "nat \<Rightarrow> rt_uint8 list \<Rightarrow> rt_uint32 \<Rightarrow> rt_messagequeue \<Rightarrow> rt_messagequeue" where
  "mq_fill b buffer sz m =
     m\<lparr>mq_data := (mq_data m)(b := take (unat sz) buffer @ drop (unat sz) (mq_data m b))\<rparr>"

definition mq_clear_next :: "nat \<Rightarrow> rt_messagequeue \<Rightarrow> rt_messagequeue" where
  "mq_clear_next b m = m\<lparr>mq_next := (mq_next m)(b := None)\<rparr>"

definition mq_link_tail :: "nat \<Rightarrow> rt_messagequeue \<Rightarrow> rt_messagequeue" where
  "mq_link_tail b m =
     (let m = (case mq_tail m of None \<Rightarrow> m | Some t \<Rightarrow> m\<lparr>mq_next := (mq_next m)(t := Some b)\<rparr>);
          m = m\<lparr>mq_tail := Some b\<rparr>;
          m = (if mq_head m = None then m\<lparr>mq_head := Some b\<rparr> else m)
      in m\<lparr>mq_entry := mq_entry m + 1\<rparr>)"

definition mq_link_head :: "nat \<Rightarrow> rt_messagequeue \<Rightarrow> rt_messagequeue" where
  "mq_link_head b m =
     (let m = m\<lparr>mq_next := (mq_next m)(b := mq_head m), mq_head := Some b\<rparr>;
          m = (if mq_tail m = None then m\<lparr>mq_tail := Some b\<rparr> else m)
      in m\<lparr>mq_entry := mq_entry m + 1\<rparr>)"

definition mq_unlink :: "rt_messagequeue \<Rightarrow> (nat \<times> rt_messagequeue) option" where
  "mq_unlink m = (case mq_head m of
     None \<Rightarrow> None
   | Some b \<Rightarrow>
       (let m = m\<lparr>mq_head := mq_next m b\<rparr>;
            m = (if mq_tail m = Some b then m\<lparr>mq_tail := None\<rparr> else m)
        in Some (b, m\<lparr>mq_entry := mq_entry m - 1\<rparr>)))"

definition mq_release :: "nat \<Rightarrow> rt_messagequeue \<Rightarrow> rt_messagequeue" where
  "mq_release b m = m\<lparr>mq_next := (mq_next m)(b := mq_free m), mq_free := Some b\<rparr>"

text \<open>\<open>buffer\<close> is what the caller's pointer points to, at least \<open>sz\<close> bytes.\<close>

definition rt_mq_send :: "nat \<Rightarrow> rt_uint8 list \<Rightarrow> rt_uint32 \<Rightarrow> kernel \<Rightarrow> (kernel \<times> rt_err) option" where
  "rt_mq_send i buffer sz k = do {
     RT_ASSERT (sz \<noteq> 0);
     (if ucast (mq_msg_size (k_mq k i)) < sz then Some (k, - RT_ERROR)
      else case mq_take_block (k_mq k i) of
        None \<Rightarrow> Some (k, - RT_EFULL)
      | Some (b, m) \<Rightarrow> do {
          let m = mq_clear_next b m;
          let m = mq_fill b buffer sz m;
          let m = mq_link_tail b m;
          k \<leftarrow> wake_waiter (mq_queue i) (upd_mq i (\<lambda>_. m) k);
          Some (k, RT_EOK)
        })
   }"

definition rt_mq_urgent :: "nat \<Rightarrow> rt_uint8 list \<Rightarrow> rt_uint32 \<Rightarrow> kernel \<Rightarrow> (kernel \<times> rt_err) option" where
  "rt_mq_urgent i buffer sz k = do {
     RT_ASSERT (sz \<noteq> 0);
     (if ucast (mq_msg_size (k_mq k i)) < sz then Some (k, - RT_ERROR)
      else case mq_take_block (k_mq k i) of
        None \<Rightarrow> Some (k, - RT_EFULL)
      | Some (b, m) \<Rightarrow> do {
          let m = mq_fill b buffer sz m;
          let m = mq_link_head b m;
          k \<leftarrow> wake_waiter (mq_queue i) (upd_mq i (\<lambda>_. m) k);
          Some (k, RT_EOK)
        })
   }"

text \<open>What \<^verbatim>\<open>rt_mq_recv\<close> copies of a message.\<close>

definition mq_copy_len :: "rt_uint32 \<Rightarrow> rt_messagequeue \<Rightarrow> nat" where
  "mq_copy_len sz m = (if ucast (mq_msg_size m) < sz then unat (mq_msg_size m) else unat sz)"

text \<open>The third component is what is written to \<^verbatim>\<open>buffer\<close>.\<close>

definition mq_recv_loop ::
  "nat \<Rightarrow> rt_uint32 \<Rightarrow> int \<Rightarrow> rt_uint32 \<Rightarrow> tid option \<Rightarrow> kernel \<Rightarrow> (kernel \<times> msg_outcome \<times> rt_uint8 list option) option" where
  "mq_recv_loop i sz timeout delta self k =
     (if mq_entry (k_mq k i) = 0 then do {
        _ \<leftarrow> in_thread_context k;
        t \<leftarrow> self;
        let k = set_error t RT_EOK k;
        (if timeout = 0 then Some (set_error t (- RT_ETIMEOUT) k, MDone (- RT_ETIMEOUT), None)
         else map_option (\<lambda>(k, r). (k, r, None)) (msg_wait (OMsgQueue i) (mq_queue i) timeout delta t k))
      }
      else do {
        (b, m) \<leftarrow> mq_unlink (k_mq k i);
        let msg = take (mq_copy_len sz m) (mq_data m b);
        let m = mq_release b m;
        Some (upd_mq i (\<lambda>_. m) k, MDone RT_EOK, Some msg)
      })"

definition rt_mq_recv ::
  "nat \<Rightarrow> rt_uint32 \<Rightarrow> int \<Rightarrow> kernel \<Rightarrow> (kernel \<times> msg_outcome \<times> rt_uint8 list option) option" where
  "rt_mq_recv i sz timeout k = do {
     RT_ASSERT (sz \<noteq> 0);
     (if mq_entry (k_mq k i) = 0 \<and> timeout = 0 then Some (k, MDone (- RT_ETIMEOUT), None)
      else mq_recv_loop i sz timeout 0 (rt_thread_self k) k)
   }"

definition rt_mq_recv_leave ::
  "nat \<Rightarrow> rt_uint32 \<Rightarrow> int \<Rightarrow> rt_uint32 \<Rightarrow> tid \<Rightarrow> kernel \<Rightarrow> (kernel \<times> msg_outcome \<times> rt_uint8 list option) option" where
  "rt_mq_recv_leave i sz timeout delta t k =
     (if th_error (k_thread k t) \<noteq> RT_EOK then Some (k, MDone (th_error (k_thread k t)), None)
      else if 0 < timeout then
        (let delta = rt_tick k - delta
         in mq_recv_loop i sz (recalc_timeout timeout delta) delta (Some t) k)
      else mq_recv_loop i sz timeout delta (Some t) k)"

text \<open>The loop of \<^verbatim>\<open>RT_IPC_CMD_RESET\<close>.\<close>

partial_function (option) mq_flush :: "rt_messagequeue \<Rightarrow> rt_messagequeue option" where
  "mq_flush m = (case mq_head m of
     None \<Rightarrow> Some m
   | Some b \<Rightarrow>
       (let m = m\<lparr>mq_head := mq_next m b\<rparr>;
            m = (if mq_tail m = Some b then m\<lparr>mq_tail := None\<rparr> else m)
        in mq_flush (mq_release b m)))"

fun rt_mq_control :: "nat \<Rightarrow> ipc_cmd \<Rightarrow> kernel \<Rightarrow> (kernel \<times> rt_err) option" where
  "rt_mq_control i (RT_IPC_CMD_RESET _) k = do {
     k \<leftarrow> rt_ipc_list_resume_all (mq_queue i) k;
     m \<leftarrow> mq_flush (k_mq k i);
     k \<leftarrow> rt_schedule (upd_mq i (\<lambda>_. m\<lparr>mq_entry := 0\<rparr>) k);
     Some (k, RT_EOK)
   }"
| "rt_mq_control i (IpcCmdOther _) k = Some (k, - RT_ERROR)"

lemmas mq_step_defs = mq_take_block_def mq_fill_def mq_clear_next_def mq_link_tail_def mq_link_head_def
  mq_unlink_def mq_release_def

lemmas mq_defs = mq_step_defs mq_fresh_def rt_mq_init_def rt_mq_detach_def rt_mq_create_def rt_mq_delete_def
  rt_mq_send_def rt_mq_urgent_def mq_copy_len_def mq_recv_loop_def rt_mq_recv_def rt_mq_recv_leave_def

declare mq_defs [op_defs]

section \<open>The lists of blocks\<close>

text \<open>\<open>us\<close> is the queue, \<open>fs\<close> the free list, \<open>ws\<close> the blocks in flight; together they are
  all blocks of the pool.\<close>

definition mq_rep :: "rt_messagequeue \<Rightarrow> nat list \<Rightarrow> nat list \<Rightarrow> nat list \<Rightarrow> bool" where
  "mq_rep m us fs ws \<longleftrightarrow> chain (mq_next m) (mq_head m) us \<and> chain (mq_next m) (mq_free m) fs \<and>
     mq_tail m = (if us = [] then None else Some (last us)) \<and>
     distinct (us @ fs @ ws) \<and> set (us @ fs @ ws) = {..<unat (mq_max_msgs m)} \<and>
     mq_entry m = of_nat (length us) \<and>
     (\<forall>b < unat (mq_max_msgs m). length (mq_data m b) = unat (mq_msg_size m))"

text \<open>The messages in the queue, in order.\<close>

definition mq_msgs :: "rt_messagequeue \<Rightarrow> nat list \<Rightarrow> rt_uint8 list list" where
  "mq_msgs m us = map (mq_data m) us"

lemma mq_rep_length:
  assumes "mq_rep m us fs ws"
  shows "length us + length fs + length ws = unat (mq_max_msgs m)" "unat (mq_entry m) = length us"
proof -
  have "length (us @ fs @ ws) = card (set (us @ fs @ ws))"
    using assms unfolding mq_rep_def by (metis distinct_card)
  also have "\<dots> = unat (mq_max_msgs m)" using assms unfolding mq_rep_def by simp
  finally show l: "length us + length fs + length ws = unat (mq_max_msgs m)" by simp
  have "length us < 2 ^ 16" using l unsigned_less[of "mq_max_msgs m", where 'a = nat] by simp
  then show "unat (mq_entry m) = length us"
    using assms unfolding mq_rep_def by (simp add: unat_of_nat)
qed

lemma mq_rep_disj:
  assumes "mq_rep m us fs ws"
  shows "distinct us" "distinct fs" "distinct ws" "set us \<inter> set fs = {}" "set us \<inter> set ws = {}" "set fs \<inter> set ws = {}"
proof -
  have "distinct (us @ fs @ ws)" using assms unfolding mq_rep_def by (elim conjE)
  then show "distinct us" "distinct fs" "distinct ws" "set us \<inter> set fs = {}" "set us \<inter> set ws = {}" "set fs \<inter> set ws = {}"
    by auto
qed

lemma mq_take_block_spec:
  assumes "mq_rep m us fs ws"
  shows "fs = [] \<Longrightarrow> mq_take_block m = None"
    "fs = b # fs' \<Longrightarrow> \<exists>m'. mq_take_block m = Some (b, m') \<and> mq_rep m' us fs' (b # ws) \<and>
       mq_data m' = mq_data m \<and> mq_msg_size m' = mq_msg_size m \<and> mq_max_msgs m' = mq_max_msgs m"
  using assms by (auto simp: mq_take_block_def mq_rep_def)

lemma mq_fill_spec:
  assumes "mq_rep m us fs ws" "b \<in> set ws" "unat sz \<le> length buf" "unat sz \<le> unat (mq_msg_size m)"
  shows "mq_rep (mq_fill b buf sz m) us fs ws"
    "mq_msgs (mq_fill b buf sz m) us = mq_msgs m us"
    "mq_data (mq_fill b buf sz m) b = take (unat sz) buf @ drop (unat sz) (mq_data m b)"
  using assms by (auto simp: mq_rep_def mq_fill_def mq_msgs_def)

lemma mq_clear_next_spec:
  assumes "mq_rep m us fs ws" "b \<in> set ws"
  shows "mq_rep (mq_clear_next b m) us fs ws" "mq_next (mq_clear_next b m) b = None"
proof -
  have "b \<notin> set us" "b \<notin> set fs" using mq_rep_disj[OF assms(1)] assms(2) by auto
  then show "mq_rep (mq_clear_next b m) us fs ws" "mq_next (mq_clear_next b m) b = None"
    using assms by (auto simp: mq_rep_def mq_clear_next_def)
qed

text \<open>Linking a block in flight at the end or at the front.\<close>

lemma mq_link_tail_spec:
  assumes rep: "mq_rep m us fs ws" and b: "b \<in> set ws" and nx: "mq_next m b = None"
  shows "mq_rep (mq_link_tail b m) (us @ [b]) fs (remove1 b ws)" "mq_data (mq_link_tail b m) = mq_data m"
    "mq_msg_size (mq_link_tail b m) = mq_msg_size m"
proof -
  have d: "distinct us" "distinct ws" "b \<notin> set us" "b \<notin> set fs" using mq_rep_disj[OF rep] b by auto
  have fs: "us \<noteq> [] \<Longrightarrow> last us \<notin> set fs" using mq_rep_disj(4)[OF rep] last_in_set[of us] by blast
  have set: "insert b (set (remove1 b ws)) = set ws" using b d(2) by auto
  show "mq_rep (mq_link_tail b m) (us @ [b]) fs (remove1 b ws)"
  proof (cases "us = []")
    case True
    note r = rep[unfolded mq_rep_def True]
    have e: "mq_link_tail b m = m\<lparr>mq_tail := Some b, mq_head := Some b, mq_entry := mq_entry m + 1\<rparr>"
      using r by (simp add: mq_link_tail_def Let_def)
    have ds: "distinct (([] @ [b]) @ fs @ remove1 b ws)" "set (([] @ [b]) @ fs @ remove1 b ws) = set ([] @ fs @ ws)"
      using r d b by auto
    show ?thesis unfolding mq_rep_def e True ds(2) using r ds(1) nx by simp
  next
    case False
    note r = rep[unfolded mq_rep_def]
    obtain h where hd: "mq_head m = Some h" using r False chain_None by blast
    have tl: "mq_tail m = Some (last us)" using r False by simp
    have e: "mq_link_tail b m = m\<lparr>mq_next := (mq_next m)(last us := Some b), mq_tail := Some b, mq_entry := mq_entry m + 1\<rparr>"
      using hd tl by (simp add: mq_link_tail_def Let_def)
    have c: "chain ((mq_next m)(last us := Some b)) (mq_head m) (us @ [b])"
      using chain_snoc[of "mq_next m" "mq_head m" us b] r False d nx by blast
    have f: "chain ((mq_next m)(last us := Some b)) (mq_free m) fs" using r fs[OF False] by simp
    have ds: "distinct ((us @ [b]) @ fs @ remove1 b ws)" "set ((us @ [b]) @ fs @ remove1 b ws) = set (us @ fs @ ws)"
      using r d b by auto
    show ?thesis
      unfolding mq_rep_def e ds(2) using c f ds(1) r by simp
  qed
  show "mq_data (mq_link_tail b m) = mq_data m" "mq_msg_size (mq_link_tail b m) = mq_msg_size m"
    by (auto simp: mq_link_tail_def Let_def split: option.split)
qed

lemma mq_link_head_spec:
  assumes rep: "mq_rep m us fs ws" and b: "b \<in> set ws"
  shows "mq_rep (mq_link_head b m) (b # us) fs (remove1 b ws)" "mq_data (mq_link_head b m) = mq_data m"
    "mq_msg_size (mq_link_head b m) = mq_msg_size m"
proof -
  have d: "distinct us" "distinct ws" "b \<notin> set us" "b \<notin> set fs" using mq_rep_disj[OF rep] b by auto
  have set: "insert b (set (remove1 b ws)) = set ws" using b d(2) by auto
  show "mq_rep (mq_link_head b m) (b # us) fs (remove1 b ws)"
  proof -
    note r = rep[unfolded mq_rep_def]
    have e: "mq_link_head b m = m\<lparr>mq_next := (mq_next m)(b := mq_head m), mq_head := Some b,
        mq_tail := (if us = [] then Some b else mq_tail m), mq_entry := mq_entry m + 1\<rparr>"
      using r by (simp add: mq_link_head_def Let_def)
    have ds: "distinct ((b # us) @ fs @ remove1 b ws)" "set ((b # us) @ fs @ remove1 b ws) = set (us @ fs @ ws)"
      using r d b by auto
    show ?thesis unfolding mq_rep_def e ds(2) using r ds(1) d by simp
  qed
  show "mq_data (mq_link_head b m) = mq_data m" "mq_msg_size (mq_link_head b m) = mq_msg_size m"
    by (auto simp: mq_link_head_def Let_def)
qed

lemma mq_unlink_spec:
  assumes rep: "mq_rep m (b # us) fs ws"
  shows "\<exists>m'. mq_unlink m = Some (b, m') \<and> mq_rep m' us fs (b # ws) \<and> mq_data m' = mq_data m \<and>
    mq_msg_size m' = mq_msg_size m"
proof -
  note r = rep[unfolded mq_rep_def]
  let ?m = "m\<lparr>mq_head := mq_next m b, mq_tail := (if us = [] then None else mq_tail m), mq_entry := mq_entry m - 1\<rparr>"
  have hd: "mq_head m = Some b" using r by simp
  have "us \<noteq> [] \<Longrightarrow> last us \<noteq> b" using mq_rep_disj(1)[OF rep] last_in_set[of us] by auto
  then have tl: "mq_tail m = Some b \<longleftrightarrow> us = []" using r by auto
  have "mq_unlink m = Some (b, ?m)" using hd tl by (simp add: mq_unlink_def)
  moreover have "mq_rep ?m us fs (b # ws)"
  proof -
    have "distinct (us @ fs @ b # ws)" using r by auto
    moreover have "set (us @ fs @ b # ws) = set ((b # us) @ fs @ ws)" by auto
    moreover have "us \<noteq> [] \<Longrightarrow> last (b # us) = last us" by simp
    ultimately show ?thesis using r unfolding mq_rep_def by (cases "us = []") simp_all
  qed
  ultimately show ?thesis by simp
qed

lemma mq_release_spec:
  assumes rep: "mq_rep m us fs ws" and b: "b \<in> set ws"
  shows "mq_rep (mq_release b m) us (b # fs) (remove1 b ws)" "mq_data (mq_release b m) = mq_data m"
proof -
  have d: "distinct ws" "b \<notin> set us" "b \<notin> set fs" using mq_rep_disj[OF rep] b by auto
  have "insert b (set (remove1 b ws)) = set ws" using b d(1) by auto
  then show "mq_rep (mq_release b m) us (b # fs) (remove1 b ws)"
    using rep d b by (auto simp: mq_rep_def mq_release_def)
  show "mq_data (mq_release b m) = mq_data m" by (simp add: mq_release_def)
qed

section \<open>The operations\<close>

lemma kinv_upd_mq [simp]: "kinv_but X (upd_mq i f k) = kinv_but X k"
  by simp

text \<open>Between calls nothing is in flight. The messages are those of the one chain from the head.\<close>

definition mq_ok :: "rt_messagequeue \<Rightarrow> bool" where
  "mq_ok m \<longleftrightarrow> (\<exists>us fs. mq_rep m us fs [])"

fun mq_walk :: "nat \<Rightarrow> (nat \<Rightarrow> nat option) \<Rightarrow> nat option \<Rightarrow> nat list" where
  "mq_walk (Suc n) nx (Some b) = b # mq_walk n nx (nx b)"
| "mq_walk _ _ _ = []"

definition mq_contents :: "rt_messagequeue \<Rightarrow> rt_uint8 list list" where
  "mq_contents m = map (mq_data m) (mq_walk (unat (mq_entry m)) (mq_next m) (mq_head m))"

lemma mq_walk_chain: "chain nx p bs \<Longrightarrow> mq_walk (length bs) nx p = bs"
  by (induction bs arbitrary: p) auto

lemma mq_contents_rep: "mq_rep m us fs ws \<Longrightarrow> mq_contents m = map (mq_data m) us"
  using mq_rep_length(2)[of m us fs ws] mq_walk_chain[of "mq_next m" "mq_head m" us]
  by (simp add: mq_contents_def mq_rep_def)

text \<open>The message a send leaves in the queue: the new bytes, then what the block held before.\<close>

definition mq_padded :: "rt_uint32 \<Rightarrow> rt_uint8 list \<Rightarrow> rt_uint8 list \<Rightarrow> bool" where
  "mq_padded sz buf msg \<longleftrightarrow> take (unat sz) msg = take (unat sz) buf"

lemma mq_post:
  assumes rep: "mq_rep m us (b # fs) []" and sz: "unat sz \<le> length buf" "unat sz \<le> unat (mq_msg_size m)"
  shows "\<exists>m1. mq_take_block m = Some (b, m1) \<and>
    (let m2 = mq_link_tail b (mq_fill b buf sz (mq_clear_next b m1)) in
       mq_rep m2 (us @ [b]) fs [] \<and> mq_msg_size m2 = mq_msg_size m \<and>
       (\<exists>msg. mq_contents m2 = mq_contents m @ [msg] \<and> mq_padded sz buf msg)) \<and>
    (let m3 = mq_link_head b (mq_fill b buf sz m1) in
       mq_rep m3 (b # us) fs [] \<and> mq_msg_size m3 = mq_msg_size m \<and>
       (\<exists>msg. mq_contents m3 = msg # mq_contents m \<and> mq_padded sz buf msg))"
proof -
  obtain m1 where m1: "mq_take_block m = Some (b, m1)" "mq_rep m1 us fs [b]" "mq_data m1 = mq_data m"
    "mq_msg_size m1 = mq_msg_size m"
    using mq_take_block_spec(2)[OF rep] by auto
  have bw: "b \<in> set [b]" by simp
  have bu: "b \<notin> set us" using mq_rep_disj(5)[OF m1(2)] by auto
  have sz1: "unat sz \<le> unat (mq_msg_size m1)" "unat sz \<le> unat (mq_msg_size (mq_clear_next b m1))"
    using sz(2) by (simp_all add: m1(4) mq_clear_next_def)
  let ?f = "\<lambda>m. mq_fill b buf sz m"
  have cf: "mq_clear_next b (?f m1) = ?f (mq_clear_next b m1)" by (simp add: mq_clear_next_def mq_fill_def)
  note c = mq_clear_next_spec[OF m1(2) bw]
  note f = mq_fill_spec(1)[OF m1(2) bw sz(1) sz1(1)] and g = mq_fill_spec(1)[OF c(1) bw sz(1) sz1(2)]
  have nx: "mq_next (?f (mq_clear_next b m1)) b = None" using c(2) by (simp add: mq_fill_def)
  note t = mq_link_tail_spec[OF g bw nx] and h = mq_link_head_spec[OF f bw]
  have dat: "mq_data (?f (mq_clear_next b m1)) = mq_data (?f m1)" by (simp add: mq_clear_next_def mq_fill_def)
  have us: "map (mq_data (?f m1)) us = mq_contents m"
    unfolding mq_contents_rep[OF rep] using bu by (simp add: mq_fill_def m1(3))
  have msg: "mq_padded sz buf (mq_data (?f m1) b)" using sz(1) by (simp add: mq_padded_def mq_fill_def)
  have r: "remove1 b [b] = []" by simp
  have "mq_contents (mq_link_tail b (?f (mq_clear_next b m1))) = mq_contents m @ [mq_data (?f m1) b]"
    unfolding mq_contents_rep[OF t(1)] t(2) dat using us by simp
  moreover have "mq_contents (mq_link_head b (?f m1)) = mq_data (?f m1) b # mq_contents m"
    unfolding mq_contents_rep[OF h(1)] h(2) using us by simp
  moreover have "mq_msg_size (?f (mq_clear_next b m1)) = mq_msg_size m" "mq_msg_size (?f m1) = mq_msg_size m"
    by (simp_all add: mq_fill_def mq_clear_next_def m1(4))
  ultimately show ?thesis
    using m1(1) t(1,3) h(1,3) msg unfolding r Let_def by auto
qed

text \<open>A full queue, a message too long, and the two ways to send.\<close>

lemma mq_full_iff:
  assumes "mq_rep m us fs []"
  shows "length (mq_contents m) = unat (mq_max_msgs m) \<longleftrightarrow> fs = []"
  using mq_rep_length(1)[OF assms] mq_contents_rep[OF assms] by auto

lemma mq_wake:
  assumes inv: "kinv k" and cur: "rt_current_thread k \<noteq> None"
  obtains k' where "wake_waiter (mq_queue i) (upd_mq i (\<lambda>_. m) k) = Some k'" "kinv k'" "k_mq k' = (k_mq k)(i := m)"
    "tlist_of k' (mq_queue i) = tl (tlist_of k (mq_queue i))"
    "\<And>t ts. tlist_of k (mq_queue i) = t # ts \<Longrightarrow> thread_state (k_thread k' t) = RT_THREAD_READY"
    "rt_current_thread k' \<noteq> None"
proof -
  let ?k = "upd_mq i (\<lambda>_. m) k"
  have k: "kinv ?k" "rt_current_thread ?k \<noteq> None" and h: "wait_head (mq_queue i)" using inv cur by simp_all
  obtain k' where k': "wake_waiter (mq_queue i) ?k = Some k'" "kinv k'" "keeps ?k k'"
    "tlist_of k' (mq_queue i) = tl (tlist_of ?k (mq_queue i))"
    "k_thread k' = (case tlist_of ?k (mq_queue i) of [] \<Rightarrow> k_thread ?k | t # _ \<Rightarrow> (k_thread ?k)(t := readied (k_thread ?k t)))"
    "rt_current_thread k' \<noteq> None"
    by (rule wake_waiter_spec[OF k(1) h k(2)]) (rule that; assumption)
  show ?thesis
    by (rule that[OF k'(1,2) _ _ _ k'(6)]) (use k'(3-5) in \<open>simp_all add: keeps_def cong: list.case_cong\<close>)
qed

definition mq_sent :: "nat \<Rightarrow> (rt_uint8 list \<Rightarrow> rt_uint8 list list) \<Rightarrow> rt_uint32 \<Rightarrow> rt_uint8 list \<Rightarrow> kernel \<Rightarrow> kernel \<Rightarrow> rt_err \<Rightarrow> bool" where
  "mq_sent i place sz buf k k' e \<longleftrightarrow>
     (if unat (mq_msg_size (k_mq k i)) < unat sz then e = - RT_ERROR \<and> k' = k
      else if length (mq_contents (k_mq k i)) = unat (mq_max_msgs (k_mq k i)) then e = - RT_EFULL \<and> k' = k
      else e = RT_EOK \<and> (\<exists>msg. mq_contents (k_mq k' i) = place msg \<and> mq_padded sz buf msg) \<and>
        (\<forall>j. j \<noteq> i \<longrightarrow> k_mq k' j = k_mq k j) \<and>
        tlist_of k' (mq_queue i) = tl (tlist_of k (mq_queue i)) \<and>
        (\<forall>t ts. tlist_of k (mq_queue i) = t # ts \<longrightarrow> thread_state (k_thread k' t) = RT_THREAD_READY))"

lemma mq_send_spec:
  assumes inv: "kinv k" and ok: "mq_ok (k_mq k i)" and cur: "rt_current_thread k \<noteq> None"
    and sz: "sz \<noteq> 0" "unat sz \<le> length buf"
  shows "\<exists>k' e. rt_mq_send i buf sz k = Some (k', e) \<and> kinv k' \<and> mq_ok (k_mq k' i) \<and>
      mq_sent i (\<lambda>msg. mq_contents (k_mq k i) @ [msg]) sz buf k k' e"
    "\<exists>k' e. rt_mq_urgent i buf sz k = Some (k', e) \<and> kinv k' \<and> mq_ok (k_mq k' i) \<and>
      mq_sent i (\<lambda>msg. msg # mq_contents (k_mq k i)) sz buf k k' e"
proof -
  let ?m = "k_mq k i"
  obtain us fs where rep: "mq_rep ?m us fs []" using ok by (auto simp: mq_ok_def)
  have lt: "ucast (mq_msg_size ?m) < sz \<longleftrightarrow> unat (mq_msg_size ?m) < unat sz"
    using unsigned_less[of "mq_msg_size ?m", where 'a = nat]
    by (simp add: word_less_nat_alt unsigned_ucast_eq take_bit_nat_eq_self)
  have "(\<exists>k' e. rt_mq_send i buf sz k = Some (k', e) \<and> kinv k' \<and> mq_ok (k_mq k' i) \<and>
      mq_sent i (\<lambda>msg. mq_contents ?m @ [msg]) sz buf k k' e) \<and>
    (\<exists>k' e. rt_mq_urgent i buf sz k = Some (k', e) \<and> kinv k' \<and> mq_ok (k_mq k' i) \<and>
      mq_sent i (\<lambda>msg. msg # mq_contents ?m) sz buf k k' e)"
  proof (cases "unat (mq_msg_size ?m) < unat sz")
    case True
    then show ?thesis using sz(1) inv ok lt by (simp add: rt_mq_send_def rt_mq_urgent_def mq_sent_def)
  next
    case small: False
    show ?thesis
    proof (cases fs)
      case Nil
      then have "mq_take_block ?m = None" "length (mq_contents ?m) = unat (mq_max_msgs ?m)"
        using mq_take_block_spec(1)[OF rep] mq_full_iff[OF rep] by auto
      then show ?thesis using sz(1) inv ok lt small by (simp add: rt_mq_send_def rt_mq_urgent_def mq_sent_def)
    next
      case (Cons b fs')
      then have nf: "length (mq_contents ?m) \<noteq> unat (mq_max_msgs ?m)" using mq_full_iff[OF rep] by simp
      have le: "unat sz \<le> unat (mq_msg_size ?m)" using small by simp
      obtain m1 where m1: "mq_take_block ?m = Some (b, m1)"
        and T: "let m2 = mq_link_tail b (mq_fill b buf sz (mq_clear_next b m1)) in
          mq_rep m2 (us @ [b]) fs' [] \<and> mq_msg_size m2 = mq_msg_size ?m \<and>
          (\<exists>msg. mq_contents m2 = mq_contents ?m @ [msg] \<and> mq_padded sz buf msg)"
        and H: "let m3 = mq_link_head b (mq_fill b buf sz m1) in
          mq_rep m3 (b # us) fs' [] \<and> mq_msg_size m3 = mq_msg_size ?m \<and>
          (\<exists>msg. mq_contents m3 = msg # mq_contents ?m \<and> mq_padded sz buf msg)"
        using mq_post[OF rep[unfolded Cons] sz(2) le] by auto
      define m2 where "m2 = mq_link_tail b (mq_fill b buf sz (mq_clear_next b m1))"
      define m3 where "m3 = mq_link_head b (mq_fill b buf sz m1)"
      obtain k2 where k2: "wake_waiter (mq_queue i) (upd_mq i (\<lambda>_. m2) k) = Some k2" "kinv k2" "k_mq k2 = (k_mq k)(i := m2)"
        "tlist_of k2 (mq_queue i) = tl (tlist_of k (mq_queue i))"
        "\<And>t ts. tlist_of k (mq_queue i) = t # ts \<Longrightarrow> thread_state (k_thread k2 t) = RT_THREAD_READY"
        by (rule mq_wake[OF inv cur]) (rule that; assumption)
      obtain k3 where k3: "wake_waiter (mq_queue i) (upd_mq i (\<lambda>_. m3) k) = Some k3" "kinv k3" "k_mq k3 = (k_mq k)(i := m3)"
        "tlist_of k3 (mq_queue i) = tl (tlist_of k (mq_queue i))"
        "\<And>t ts. tlist_of k (mq_queue i) = t # ts \<Longrightarrow> thread_state (k_thread k3 t) = RT_THREAD_READY"
        by (rule mq_wake[OF inv cur]) (rule that; assumption)
      have "rt_mq_send i buf sz k = Some (k2, RT_EOK)" "rt_mq_urgent i buf sz k = Some (k3, RT_EOK)"
        using sz(1) lt small m1 k2(1) k3(1) by (simp_all add: rt_mq_send_def rt_mq_urgent_def m2_def m3_def)
      moreover have "mq_ok (k_mq k2 i)" "mq_ok (k_mq k3 i)"
        using T H unfolding m2_def[symmetric] m3_def[symmetric] Let_def mq_ok_def k2(3) k3(3) by auto
      moreover have "mq_sent i (\<lambda>msg. mq_contents ?m @ [msg]) sz buf k k2 RT_EOK"
        "mq_sent i (\<lambda>msg. msg # mq_contents ?m) sz buf k k3 RT_EOK"
        using T H small nf k2(4,5) k3(4,5) unfolding m2_def[symmetric] m3_def[symmetric] Let_def
        by (simp_all add: mq_sent_def k2(3) k3(3))
      ultimately show ?thesis using k2(2) k3(2) by blast
    qed
  qed
  then show "\<exists>k' e. rt_mq_send i buf sz k = Some (k', e) \<and> kinv k' \<and> mq_ok (k_mq k' i) \<and>
      mq_sent i (\<lambda>msg. mq_contents (k_mq k i) @ [msg]) sz buf k k' e"
    "\<exists>k' e. rt_mq_urgent i buf sz k = Some (k', e) \<and> kinv k' \<and> mq_ok (k_mq k' i) \<and>
      mq_sent i (\<lambda>msg. msg # mq_contents (k_mq k i)) sz buf k k' e" by blast+
qed

text \<open>Receiving: the oldest message, cut to the caller's size, or the caller waits.\<close>

lemma mq_recv_message:
  assumes ok: "mq_ok (k_mq k i)" and q: "mq_contents (k_mq k i) = msg # msgs"
  shows "\<exists>m. mq_recv_loop i sz timeout delta self k = Some (upd_mq i (\<lambda>_. m) k, MDone RT_EOK,
      Some (take (min (unat sz) (unat (mq_msg_size (k_mq k i)))) msg)) \<and> mq_ok m \<and> mq_contents m = msgs"
proof -
  let ?m = "k_mq k i"
  obtain us0 fs where rep0: "mq_rep ?m us0 fs []" using ok by (auto simp: mq_ok_def)
  then obtain b us where us: "us0 = b # us" and msg: "msg = mq_data ?m b" "msgs = map (mq_data ?m) us"
    using q mq_contents_rep[OF rep0] by (cases us0) auto
  note rep = rep0[unfolded us]
  obtain m' where m': "mq_unlink ?m = Some (b, m')" "mq_rep m' us fs [b]" "mq_data m' = mq_data ?m"
    "mq_msg_size m' = mq_msg_size ?m"
    using mq_unlink_spec[OF rep] by auto
  have r: "mq_rep (mq_release b m') us (b # fs) []" "mq_data (mq_release b m') = mq_data ?m"
    using mq_release_spec[OF m'(2), of b] m'(3) by simp_all
  have ne: "mq_entry ?m \<noteq> 0" using mq_rep_length(2)[OF rep] by auto
  have len: "mq_copy_len sz m' = min (unat sz) (unat (mq_msg_size ?m))"
    using unsigned_less[of "mq_msg_size ?m", where 'a = nat]
    by (auto simp: mq_copy_len_def m'(4) word_less_nat_alt unsigned_ucast_eq take_bit_nat_eq_self)
  have "mq_recv_loop i sz timeout delta self k = Some (upd_mq i (\<lambda>_. mq_release b m') k, MDone RT_EOK,
      Some (take (min (unat sz) (unat (mq_msg_size ?m))) msg))"
    using ne m'(1) by (simp add: mq_recv_loop_def len m'(3) msg(1))
  moreover have "mq_ok (mq_release b m')" using r(1) by (auto simp: mq_ok_def)
  moreover have "mq_contents (mq_release b m') = msgs" using mq_contents_rep[OF r(1)] r(2) msg(2) by simp
  ultimately show ?thesis by blast
qed

lemma mq_recv_loop_spec:
  assumes inv: "kinv k" and ok: "mq_ok (k_mq k i)" and cb: "can_block t k" and fl: "valid_flag (OMsgQueue i) k"
    and tm: "timeout < 2 ^ 31 - 1"
  shows "\<exists>k' r x. mq_recv_loop i sz timeout delta (Some t) k = Some (k', r, x) \<and> kinv k' \<and> mq_ok (k_mq k' i) \<and>
    (case mq_contents (k_mq k i) of
       msg # msgs \<Rightarrow> r = MDone RT_EOK \<and> x = Some (take (min (unat sz) (unat (mq_msg_size (k_mq k i)))) msg) \<and>
         mq_contents (k_mq k' i) = msgs
     | [] \<Rightarrow> x = None \<and> k_mq k' = k_mq k \<and>
         (if timeout = 0 then r = MDone (- RT_ETIMEOUT) \<and> th_error (k_thread k' t) = - RT_ETIMEOUT
          else r = MWait timeout (if 0 < timeout then rt_tick k else delta) \<and> t \<in> set (tlist_of k' (mq_queue i))))"
proof (cases "mq_contents (k_mq k i)")
  case (Cons msg msgs)
  obtain m where m: "mq_recv_loop i sz timeout delta (Some t) k = Some (upd_mq i (\<lambda>_. m) k, MDone RT_EOK,
      Some (take (min (unat sz) (unat (mq_msg_size (k_mq k i)))) msg))" "mq_ok m" "mq_contents m = msgs"
    using mq_recv_message[OF ok Cons] by blast
  then show ?thesis using Cons inv by (intro exI[of _ "upd_mq i (\<lambda>_. m) k"]) simp
next
  case Nil
  obtain us fs where rep: "mq_rep (k_mq k i) us fs []" using ok by (auto simp: mq_ok_def)
  then have z: "mq_entry (k_mq k i) = 0"
    using Nil mq_contents_rep[OF rep] mq_rep_length(2)[OF rep] by (simp add: unat_eq_zero)
  note c = can_blockD(6)[OF cb]
  show ?thesis
  proof (cases "timeout = 0")
    case True
    let ?k = "set_error t (- RT_ETIMEOUT) (set_error t RT_EOK k)"
    have "kinv ?k" by (rule kinv_set_error[OF kinv_set_error[OF inv]])
    then show ?thesis using True Nil z c ok
      by (intro exI[of _ ?k] exI[of _ "MDone (- RT_ETIMEOUT)"] exI[of _ None]) (simp add: mq_recv_loop_def)
  next
    case False
    have h: "wait_head (mq_queue i)" by simp
    obtain k' where k': "msg_wait (OMsgQueue i) (mq_queue i) timeout delta t (set_error t RT_EOK k)
        = Some (k', MWait timeout (if 0 < timeout then rt_tick k else delta))" "kinv k'" "keeps k k'"
      "tlist_of k' (mq_queue i) = wait_list (obj_ipc_flag (OMsgQueue i) k)
         (\<lambda>s. current_priority (k_thread k s)) t (tlist_of k (mq_queue i))"
      by (rule msg_wait_spec[OF inv cb fl h tm, of delta]) (rule that; assumption)
    have e: "k_mq k' = k_mq k" using k'(3) by (simp add: keeps_def)
    show ?thesis
      using k' False z e Nil c ok
      by (intro exI[of _ k'] exI[of _ "MWait timeout (if 0 < timeout then rt_tick k else delta)"] exI[of _ None])
        (simp add: mq_recv_loop_def)
  qed
qed

text \<open>The reset empties the queue and leaves every block on the free list.\<close>

lemma mq_flush_spec:
  assumes "mq_rep (m\<lparr>mq_entry := of_nat (length us)\<rparr>) us fs []"
  shows "\<exists>m'. mq_flush m = Some m' \<and> mq_rep (m'\<lparr>mq_entry := 0\<rparr>) [] (rev us @ fs) []"
  using assms
proof (induction us arbitrary: m fs)
  case Nil
  then have "mq_flush m = Some m" by (subst mq_flush.simps) (simp add: mq_rep_def)
  then show ?case using Nil by (simp add: mq_rep_def)
next
  case (Cons b us)
  let ?e = "m\<lparr>mq_entry := of_nat (length (b # us))\<rparr>"
  obtain m1 where m1: "mq_unlink ?e = Some (b, m1)" "mq_rep m1 us fs [b]"
    using mq_unlink_spec[OF Cons.prems] by auto
  have r: "mq_rep (mq_release b m1) us (b # fs) []" using mq_release_spec(1)[OF m1(2), of b] by simp
  define m2 where "m2 = (if mq_tail m = Some b then m\<lparr>mq_head := mq_next m b, mq_tail := None\<rparr> else m\<lparr>mq_head := mq_next m b\<rparr>)"
  have hd: "mq_head m = Some b" using Cons.prems by (simp add: mq_rep_def)
  have "m1 = m2\<lparr>mq_entry := of_nat (length us)\<rparr>"
    using m1(1) hd by (auto simp: mq_unlink_def Let_def m2_def)
  then have "mq_release b m1 = (mq_release b m2)\<lparr>mq_entry := of_nat (length us)\<rparr>"
    by (simp add: mq_release_def)
  then obtain m' where m': "mq_flush (mq_release b m2) = Some m'" "mq_rep (m'\<lparr>mq_entry := 0\<rparr>) [] (rev us @ b # fs) []"
    using Cons.IH[of "mq_release b m2" "b # fs"] r by auto
  have "mq_flush m = mq_flush (mq_release b m2)"
    using hd by (subst mq_flush.simps) (simp add: m2_def Let_def)
  then show ?case using m' by simp
qed

lemma mq_reset_spec:
  assumes inv: "kinv k" and ok: "mq_ok (k_mq k i)" and cur: "rt_current_thread k \<noteq> None"
    and idle: "thread_state (k_thread k idle_thread) = RT_THREAD_READY"
  shows "\<exists>k'. rt_mq_control i (RT_IPC_CMD_RESET v) k = Some (k', RT_EOK) \<and> kinv k' \<and> mq_ok (k_mq k' i) \<and>
    mq_contents (k_mq k' i) = [] \<and> tlist_of k' (mq_queue i) = []"
proof -
  obtain k1 where k1: "rt_ipc_list_resume_all (mq_queue i) k = Some k1" "kinv k1" "keeps k k1"
    "tlist_of k1 (mq_queue i) = []"
    "\<forall>t \<in> set (tlist_of k (mq_queue i)). thread_state (k_thread k1 t) = RT_THREAD_READY \<and>
       th_error (k_thread k1 t) = - RT_ERROR"
    "\<forall>t. t \<notin> set (tlist_of k (mq_queue i)) \<longrightarrow> k_thread k1 t = k_thread k t"
    "rt_current_thread k1 = rt_current_thread k"
    using resume_all_spec[OF inv, of "mq_queue i"] by auto
  obtain us fs where rep: "mq_rep (k_mq k i) us fs []" using ok by (auto simp: mq_ok_def)
  have en: "(k_mq k i)\<lparr>mq_entry := of_nat (length us)\<rparr> = k_mq k i"
    using rep by (simp add: mq_rep_def)
  obtain m where m: "mq_flush (k_mq k i) = Some m" "mq_rep (m\<lparr>mq_entry := 0\<rparr>) [] (rev us @ fs) []"
    using mq_flush_spec[of us "k_mq k i" fs] rep unfolding en by blast
  let ?k2 = "upd_mq i (\<lambda>_. m\<lparr>mq_entry := 0\<rparr>) k1"
  have km: "k_mq k1 = k_mq k" using k1(3) by (simp add: keeps_def)
  have inv2: "kinv ?k2" using k1(2) by simp
  have idle2: "thread_state (k_thread ?k2 idle_thread) = RT_THREAD_READY"
    using k1(5,6) idle by (cases "idle_thread \<in> set (tlist_of k (mq_queue i))") auto
  have cur2: "rt_current_thread ?k2 \<noteq> None" using cur k1(7) by simp
  obtain k3 where k3: "rt_schedule ?k2 = Some k3" "kinv k3" "keeps ?k2 k3" "k_tlist k3 = k_tlist ?k2"
    by (rule schedule_ready[OF inv2 idle2 cur2]) (rule that; assumption)
  have e3: "k_mq k3 i = m\<lparr>mq_entry := 0\<rparr>" using k3(3) by (simp add: keeps_def)
  have "rt_mq_control i (RT_IPC_CMD_RESET v) k = Some (k3, RT_EOK)"
    using k1(1) m(1) k3(1) by (simp add: km)
  moreover have "mq_ok (k_mq k3 i)" using m(2) by (auto simp: e3 mq_ok_def)
  moreover have "mq_contents (k_mq k3 i) = []" using mq_contents_rep[OF m(2)] by (simp add: e3)
  ultimately show ?thesis using k3(2,4) k1(4) by (intro exI[of _ k3] conjI) simp_all
qed

section \<open>Initialisation\<close>

lemma mq_free_blocks_frame:
  "mq_msg_size (mq_free_blocks n m) = mq_msg_size m" "mq_max_msgs (mq_free_blocks n m) = mq_max_msgs m"
  "mq_entry (mq_free_blocks n m) = mq_entry m" "mq_head (mq_free_blocks n m) = mq_head m"
  "mq_tail (mq_free_blocks n m) = mq_tail m" "mq_data (mq_free_blocks n m) = mq_data m"
  by (induction n) (simp_all add: Let_def)

lemma mq_free_blocks_chain:
  "mq_free m = None \<Longrightarrow> chain (mq_next (mq_free_blocks n m)) (mq_free (mq_free_blocks n m)) (rev [0..<n])"
  by (induction n) (simp_all add: Let_def)

lemma mq_fresh_rep:
  assumes "\<forall>b < unat maxm. length (payload b) = unat msize"
  shows "mq_rep (mq_fresh msize maxm payload) [] (rev [0..<unat maxm]) []"
  unfolding mq_rep_def mq_fresh_def
  using assms mq_free_blocks_chain by (simp add: mq_free_blocks_frame atLeast0LessThan)

end
