(* ===== verification/Rtt_Examples.thy ===== *)
theory Rtt_Examples
  imports Rtt_Boot Rtt_Sem Rtt_Mutex Rtt_Event Rtt_Mailbox Rtt_Mqueue
begin

text \<open>
  The concrete states the properties are tried on: the two threads of \<open>kernel_two\<close>, and
  the same state after thread 2 blocked on a semaphore.
\<close>

lemma kernel_two_facts:
  "sched_inv kernel_two" "some_ready kernel_two" "rt_current_thread kernel_two = Some 2"
  "rt_scheduler_lock_nest kernel_two = 0" "rt_interrupt_nest kernel_two = 0"
  "thread_state (k_thread kernel_two idle_thread) = RT_THREAD_READY"
  "thread_state (k_thread kernel_two 2) = RT_THREAD_READY"
  "k_sem kernel_two i = 0" "k_event kernel_two i = 0" "obj_flag (k_object kernel_two ob) = 0"
  "tlist_of kernel_two (SuspendQ ob) = []" "owner (k_mutex kernel_two i) = None"
  "mx_value (k_mutex kernel_two i) = 0" "hold (k_mutex kernel_two i) = 0"
proof -
  show "sched_inv kernel_two" by (rule kinvD(1)[OF kinv_two])
  show "some_ready kernel_two"
    by (auto simp: some_ready_def kernel_two_def intro!: exI[of _ 10])
qed (simp_all add: kernel_two_def running_thread_def kernel_zero_def)

text \<open>A state with a waiter: thread 2 blocks on semaphore 0 of \<open>kernel_two\<close>.\<close>

lemma can_block_two: "can_block 2 kernel_two"
  by (simp add: can_block_def kernel_two_facts)

definition kernel_waiting :: kernel where
  "kernel_waiting = fst (the (rt_sem_take 0 5 kernel_two))"

lemma kernel_waiting_facts:
  "kinv kernel_waiting" "rt_current_thread kernel_waiting \<noteq> None" "rt_scheduler_lock_nest kernel_waiting = 0"
  "tlist_of kernel_waiting (SuspendQ (OSem 0)) = [2]"
proof -
  have v: "valid_flag (OSem 0) kernel_two" by (simp add: valid_flag_def obj_ipc_flag_def kernel_two_facts)
  have tm: "(5 :: int) \<noteq> 0" "(5 :: int) < 2 ^ 31 - 1" by simp_all
  obtain k' where k': "rt_sem_take 0 5 kernel_two = Some (k', Wait)" "kinv k'" "keeps kernel_two k'"
    "tlist_of k' (sem_queue 0) = wait_list (obj_ipc_flag (OSem 0) kernel_two)
       (\<lambda>s. current_priority (k_thread kernel_two s)) 2 (tlist_of kernel_two (sem_queue 0))"
    "rt_current_thread k' \<noteq> None"
    by (rule sem_take_block[OF kinv_two can_block_two kernel_two_facts(8) tm v]) (rule that; assumption)
  then have e: "kernel_waiting = k'" by (simp add: kernel_waiting_def)
  show "kinv kernel_waiting" "rt_current_thread kernel_waiting \<noteq> None" "rt_scheduler_lock_nest kernel_waiting = 0"
    "tlist_of kernel_waiting (SuspendQ (OSem 0)) = [2]"
    using k'(2-5) by (simp_all add: e keeps_def kernel_two_facts wait_list_def obj_ipc_flag_def)
qed

text \<open>The same two threads with objects: mailboxes of two mails, queues of two messages of four
  bytes, and mutex 0 held by the idle thread.\<close>

definition kernel_mail :: kernel where
  "kernel_mail = kernel_two\<lparr>k_mb := (\<lambda>_. mb_fresh [0, 0] 2), k_mq := (\<lambda>_. mq_fresh 4 2 (\<lambda>_. [0, 0, 0, 0]))\<rparr>"

lemma kernel_mail_facts:
  "kinv kernel_mail" "can_block 2 kernel_mail" "mb_inv kernel_mail" "mb_size (k_mb kernel_mail i) = 2"
  "mb_contents (k_mb kernel_mail i) = []" "mq_ok (k_mq kernel_mail i)" "mq_contents (k_mq kernel_mail i) = []"
  "valid_flag ob kernel_mail" "rt_thread_self kernel_mail = Some 2" "mq_msg_size (k_mq kernel_mail i) = 4"
  "mq_max_msgs (k_mq kernel_mail i) = 2"
proof -
  have mb: "mb_ok (mb_fresh [0, 0] 2)" "mb_contents (mb_fresh [0, 0] 2) = []" using mb_fresh_ok[of 2 "[0, 0]"] by simp_all
  have rep: "mq_rep (mq_fresh 4 2 (\<lambda>_. [0, 0, 0, 0])) [] (rev [0..<unat (2 :: rt_uint16)]) []"
    by (rule mq_fresh_rep) simp
  show "kinv kernel_mail" by (simp add: kernel_mail_def kinv_two)
  show "can_block 2 kernel_mail" using can_block_two by (simp add: kernel_mail_def can_block_def)
  show "mb_inv kernel_mail" using mb(1) by (simp add: kernel_mail_def mb_inv_def)
  show "mb_size (k_mb kernel_mail i) = 2" by (simp add: kernel_mail_def mb_fresh_def)
  show "mb_contents (k_mb kernel_mail i) = []" using mb(2) by (simp add: kernel_mail_def)
  show "mq_ok (k_mq kernel_mail i)" unfolding mq_ok_def using rep by (auto simp: kernel_mail_def)
  show "mq_contents (k_mq kernel_mail i) = []" using mq_contents_rep[OF rep] by (simp add: kernel_mail_def)
  show "valid_flag ob kernel_mail"
    by (simp add: kernel_mail_def valid_flag_def obj_ipc_flag_def) (simp add: kernel_two_def kernel_zero_def)
  show "rt_thread_self kernel_mail = Some 2" by (simp add: kernel_mail_def rt_thread_self_def kernel_two_facts)
  show "mq_msg_size (k_mq kernel_mail i) = 4" "mq_max_msgs (k_mq kernel_mail i) = 2"
    by (simp_all add: kernel_mail_def mq_fresh_def mq_free_blocks_frame)
qed

definition kernel_mutex :: "tid \<Rightarrow> rt_uint8 \<Rightarrow> kernel" where
  "kernel_mutex t p = kernel_two\<lparr>k_mutex := (k_mutex kernel_two)(0 :=
     \<lparr>mx_value = 0, original_priority = p, hold = 1, owner = Some t\<rparr>)\<rparr>"

lemma kernel_mutex_facts:
  "kinv (kernel_mutex t p)" "can_block 2 (kernel_mutex t p)" "unat p < 32 \<Longrightarrow> mutex_inv (kernel_mutex t p)"
  "mx_value (k_mutex (kernel_mutex t p) 0) = 0" "owner (k_mutex (kernel_mutex t p) 0) = Some t"
  "hold (k_mutex (kernel_mutex t p) 0) = 1" "valid_flag ob (kernel_mutex t p)"
  "original_priority (k_mutex (kernel_mutex t p) 0) = p" "rt_scheduler_lock_nest (kernel_mutex t p) = 0"
proof -
  show "kinv (kernel_mutex t p)" by (simp add: kernel_mutex_def kinv_two)
  show "can_block 2 (kernel_mutex t p)" using can_block_two by (simp add: kernel_mutex_def can_block_def)
  show "mutex_inv (kernel_mutex t p)" if "unat p < 32"
    using that kernel_two_facts by (simp add: kernel_mutex_def mutex_inv_def mutex_ok_def)
  show "valid_flag ob (kernel_mutex t p)"
    by (simp add: kernel_mutex_def valid_flag_def obj_ipc_flag_def) (simp add: kernel_two_def kernel_zero_def)
qed (simp_all add: kernel_mutex_def kernel_two_facts)

text \<open>A state with a suspended thread that waits for nothing, thread 3 of priority 20.\<close>

definition kernel_worker :: kernel where
  "kernel_worker = kernel_two\<lparr>k_thread := (k_thread kernel_two)(3 := (running_thread 20)\<lparr>stat := RT_THREAD_SUSPEND\<rparr>)\<rparr>"

lemma kernel_worker: "kinv kernel_worker" "highest_runs kernel_worker"
proof -
  have "prio_ok ((running_thread 20)\<lparr>stat := RT_THREAD_SUSPEND\<rparr>)" by (simp add: prio_ok_def prio_mask_def running_thread_def)
  then have a: "kinv_but {3} kernel_worker"
    using kinv_upd_thread[OF kinv_two, of "\<lambda>_. (running_thread 20)\<lparr>stat := RT_THREAD_SUSPEND\<rparr>" 3]
    by (simp add: kernel_worker_def kernel_two_def)
  have "place_ok (k_thread kernel_worker 3) (ls_on (k_tlist kernel_worker) 3)" "timer_link_ok kernel_worker 3"
    by (simp_all add: kernel_worker_def kernel_two_def running_thread_def timer_link_ok_def kernel_zero_def ls_empty_def)
  then show "kinv kernel_worker"
    using a unfolding kinv_but_def sched_inv_but_def thread_timers_ok_def by (metis empty_iff singletonD)
  show "highest_runs kernel_worker"
    by (auto simp: highest_runs_def kernel_worker_def kernel_two_def intro!: exI[of _ 10])
qed

end
