(* ===== verification/Rtt_Expiry.thy ===== *)
theory Rtt_Expiry
  imports Rtt_Clock_Inv
begin

text \<open>
  What a tick does beyond keeping the invariant, for callbacks that work on the data of semaphores,
  event sets, mailboxes and message queues: exactly the timers that are due fire, in the order of the list and
  once each. A thread's timer makes its thread ready with a time-out error, a user timer's callback is called,
  a periodic timer is started again and any other is stopped.
\<close>

section \<open>Callbacks with effects\<close>

type_synonym ipc_data =
  "(nat \<Rightarrow> rt_uint16) \<times> (nat \<Rightarrow> rt_uint32) \<times> (nat \<Rightarrow> rt_mailbox) \<times> (nat \<Rightarrow> rt_messagequeue)"

definition ipc_data :: "kernel \<Rightarrow> ipc_data" where
  "ipc_data k = (k_sem k, k_event k, k_mb k, k_mq k)"

definition set_ipc_data :: "ipc_data \<Rightarrow> kernel \<Rightarrow> kernel" where
  "set_ipc_data d k = (case d of (s, e, b, q) \<Rightarrow> k\<lparr>k_sem := s, k_event := e, k_mb := b, k_mq := q\<rparr>)"

text \<open>The callbacks that change this data by \<open>act\<close> and nothing else.\<close>

definition data_callbacks :: "(nat \<Rightarrow> ipc_data \<Rightarrow> ipc_data) \<Rightarrow> callbacks" where
  "data_callbacks act = (\<lambda>n k. Some (set_ipc_data (act n (ipc_data k)) k))"

lemma set_ipc_data_simps [simp]:
  "k_rows (set_ipc_data d k) = k_rows k" "k_thread (set_ipc_data d k) = k_thread k"
  "k_timer (set_ipc_data d k) = k_timer k" "k_object (set_ipc_data d k) = k_object k"
  "k_tlist (set_ipc_data d k) = k_tlist k" "rt_tick (set_ipc_data d k) = rt_tick k"
  "rt_current_thread (set_ipc_data d k) = rt_current_thread k"
  "rt_thread_ready_priority_group (set_ipc_data d k) = rt_thread_ready_priority_group k"
  "ipc_data (set_ipc_data d k) = d"
  by (auto simp: set_ipc_data_def ipc_data_def split: prod.splits)

lemma ipc_data_row_remove [simp]: "ipc_data (row_remove t k) = ipc_data k"
  by (simp add: ipc_data_def row_remove_def)

lemma keeps_ipc_data: "keeps k k' \<Longrightarrow> ipc_data k' = ipc_data k"
  by (simp add: keeps_def ipc_data_def)

lemma has_flag_set_ipc_data [simp]: "has_flag fl t (set_ipc_data d k) = has_flag fl t k"
  by (simp add: has_flag_def)

lemma kinv_set_ipc_data [simp]: "kinv_but X (set_ipc_data d k) = kinv_but X k"
  by (simp add: kinv_but_def sched_inv_but_def bitmap_ok_def rows_inv_def thread_timers_ok_def timer_link_ok_def)

lemma clock_ok_set_ipc_data [simp]: "clock_ok (set_ipc_data d k) = clock_ok k"
  by (simp add: clock_ok_def timers_sorted_def timer_key_def[abs_def])

lemma data_callbacks_ok: "callbacks_ok (data_callbacks act)"
  unfolding callbacks_ok_def
proof (intro allI impI)
  fix n k assume ok: "clock_ok k"
  let ?k = "set_ipc_data (act n (ipc_data k)) k"
  have "hard_due ?k = hard_due k" by (simp add: hard_due_def timer_due_def)
  then show "\<exists>k'. data_callbacks act n k = Some k' \<and> clock_ok k' \<and> rt_tick k' = rt_tick k \<and> hard_due k' \<subseteq> hard_due k \<and>
      (\<forall>t. timeout_func (k_timer k t) = UserTimeout n \<longrightarrow> ls_on (k_rows k) t = None \<longrightarrow>
         ls_on (k_rows k') t = None \<or> has_flag RT_TIMER_FLAG_PERIODIC t k')"
    using ok by (intro exI[of _ ?k]) (simp add: data_callbacks_def)
qed

section \<open>Firing\<close>

definition due :: "kernel \<Rightarrow> timer_ref list" where
  "due k = filter (\<lambda>t. timer_due (rt_tick k) t k) (ls_nodes (k_rows k) HardTimers)"

definition timer_action :: "(nat \<Rightarrow> ipc_data \<Rightarrow> ipc_data) \<Rightarrow> kernel \<Rightarrow> timer_ref \<Rightarrow> ipc_data \<Rightarrow> ipc_data" where
  "timer_action act k t = (case timeout_func (k_timer k t) of ThreadTimeout _ \<Rightarrow> id | UserTimeout n \<Rightarrow> act n)"

abbreviation timed_out :: "rt_thread \<Rightarrow> rt_thread" where
  "timed_out th \<equiv> th\<lparr>th_error := - RT_ETIMEOUT,
     stat := RT_THREAD_READY OR (stat th AND NOT RT_THREAD_STAT_MASK)\<rparr>"

definition fired :: "(nat \<Rightarrow> ipc_data \<Rightarrow> ipc_data) \<Rightarrow> timer_ref list \<Rightarrow> kernel \<Rightarrow> kernel \<Rightarrow> bool" where
  "fired act es k k' \<longleftrightarrow> rt_tick k' = rt_tick k \<and>
     ipc_data k' = fold (timer_action act k) es (ipc_data k) \<and>
     (\<forall>th. k_thread k' th = (if ThreadTimer th \<in> set es then timed_out (k_thread k th) else k_thread k th)) \<and>
     (\<forall>t. ls_on (k_rows k') t = (if t \<notin> set es then ls_on (k_rows k) t
        else if has_flag RT_TIMER_FLAG_PERIODIC t k then Some HardTimers else None)) \<and>
     (\<forall>t. k_timer k' t = (if t \<in> set es \<and> has_flag RT_TIMER_FLAG_PERIODIC t k
        then (k_timer k t)\<lparr>timeout_tick := rt_tick k + tm_init_tick (k_timer k t)\<rparr> else k_timer k t)) \<and>
     (\<forall>t. has_flag RT_TIMER_FLAG_PERIODIC t k' = has_flag RT_TIMER_FLAG_PERIODIC t k \<and>
        has_flag RT_TIMER_FLAG_SOFT_TIMER t k' = has_flag RT_TIMER_FLAG_SOFT_TIMER t k)"

lemma fired_Nil: "fired act [] k k"
  by (simp add: fired_def)

lemma fired_Cons:
  assumes a: "fired act [t] k k1" and b: "fired act es k1 k2" and d: "t \<notin> set es"
  shows "fired act (t # es) k k2"
proof -
  have act: "timer_action act k1 = timer_action act k"
    using a by (auto simp: fired_def timer_action_def fun_eq_iff)
  have "fold (timer_action act k1) es (ipc_data k1) = fold (timer_action act k) (t # es) (ipc_data k)"
    using a by (simp add: act fired_def)
  moreover have "k_thread k2 th = (if ThreadTimer th \<in> set (t # es) then timed_out (k_thread k th) else k_thread k th)" for th
    using a b d by (auto simp: fired_def)
  moreover have "ls_on (k_rows k2) x = (if x \<notin> set (t # es) then ls_on (k_rows k) x
        else if has_flag RT_TIMER_FLAG_PERIODIC x k then Some HardTimers else None)" for x
    using a b d by (auto simp: fired_def)
  moreover have "k_timer k2 x = (if x \<in> set (t # es) \<and> has_flag RT_TIMER_FLAG_PERIODIC x k
        then (k_timer k x)\<lparr>timeout_tick := rt_tick k + tm_init_tick (k_timer k x)\<rparr> else k_timer k x)" for x
    using a b d by (auto simp: fired_def)
  ultimately show ?thesis using a b by (simp add: fired_def)
qed

text \<open>One expired timer.\<close>

lemma rearm_stop:
  assumes "ls_on (k_rows k) t = None" "\<not> has_flag RT_TIMER_FLAG_PERIODIC t k"
  shows "rearm t k = Some (deactivate t k)"
  using assms by (simp add: rearm_def)

lemma deactivate_simps [simp]:
  "k_rows (deactivate t k) = k_rows k" "k_thread (deactivate t k) = k_thread k" "k_timer (deactivate t k) = k_timer k"
  "rt_tick (deactivate t k) = rt_tick k" "ipc_data (deactivate t k) = ipc_data k"
  "has_flag RT_TIMER_FLAG_PERIODIC x (deactivate t k) = has_flag RT_TIMER_FLAG_PERIODIC x k"
  "has_flag RT_TIMER_FLAG_SOFT_TIMER x (deactivate t k) = has_flag RT_TIMER_FLAG_SOFT_TIMER x k"
  by (simp_all add: deactivate_def ipc_data_def has_flag_def)

lemma fire_thread:
  assumes ok: "clock_ok k" and l: "ls_nodes (k_rows k) HardTimers = ThreadTimer th # ts"
  shows "\<exists>k1 k2. run_timeout ucb (ThreadTimer th) (row_remove (ThreadTimer th) k) = Some k1 \<and>
    rearm (ThreadTimer th) k1 = Some k2 \<and> rt_tick k1 = rt_tick k \<and> ls_nodes (k_rows k2) HardTimers = ts \<and>
    fired act [ThreadTimer th] k k2"
proof -
  let ?t = "ThreadTimer th"
  let ?k0 = "row_remove ?t k"
  note c = clock_okD[OF ok] and c0 = clock_okD[OF clock_ok_row_remove[OF ok, of ?t]]
  have on: "ls_on (k_rows k) ?t = Some HardTimers" using ls_wf_on[OF c(3), of ?t HardTimers] l by simp
  have st: "thread_state (k_thread ?k0 th) = RT_THREAD_SUSPEND"
    using kinv_timer_link[OF c(1), of th] on by (simp add: timer_link_ok_def row_remove_def)
  have off: "ls_on (k_rows ?k0) ?t = None" by (simp add: row_remove_def)
  have own: "timeout_func (k_timer k ?t) = ThreadTimeout th" "\<not> has_flag RT_TIMER_FLAG_PERIODIC ?t k"
    using kinvD(3)[OF c(1)] by (simp_all add: thread_timers_ok_def has_flag_def)
  obtain k1 where k1: "rt_thread_timeout th ?k0 = Some k1" "keeps ?k0 k1" "k_rows k1 = k_rows ?k0"
    "k_timer k1 = k_timer ?k0" "k_object k1 = k_object ?k0"
    "k_thread k1 = (k_thread ?k0)(th := timed_out (k_thread ?k0 th))"
    by (rule timeout_suspended[OF c0(1) st off c0(4)]) (rule that; assumption)
  have fl: "has_flag fl x k1 = has_flag fl x k" for fl x by (simp add: has_flag_def k1(5) row_remove_def)
  have "run_timeout ucb ?t ?k0 = Some k1" using k1(1) own(1) by (simp add: run_timeout_def row_remove_def)
  moreover have "rearm ?t k1 = Some (deactivate ?t k1)"
    by (rule rearm_stop) (use off own(2) k1(3) fl in simp_all)
  moreover have "ls_nodes (k_rows k1) HardTimers = ts" using l c(3) by (simp add: k1(3) row_remove_def ls_nodes_remove)
  moreover have tick: "rt_tick k1 = rt_tick k" using k1(2) by (simp add: keeps_def row_remove_def)
  moreover have "ipc_data k1 = ipc_data k" using keeps_ipc_data[OF k1(2)] by simp
  moreover have "k_thread k1 = (k_thread k)(th := timed_out (k_thread k th))" by (simp add: k1(6) row_remove_def)
  moreover have "k_timer k1 = k_timer k" by (simp add: k1(4) row_remove_def)
  moreover have "ls_on (k_rows k1) x = (if x = ?t then None else ls_on (k_rows k) x)" for x
    by (simp add: k1(3) row_remove_def)
  ultimately show ?thesis using own
    by (intro exI[of _ k1] exI[of _ "deactivate ?t k1"]) (simp add: fired_def fl timer_action_def)
qed

lemma fire_user:
  assumes ok: "clock_ok k" and l: "ls_nodes (k_rows k) HardTimers = Timer n # ts"
    and hard: "\<not> has_flag RT_TIMER_FLAG_SOFT_TIMER (Timer n) k"
  shows "\<exists>k1 k2. run_timeout (data_callbacks act) (Timer n) (row_remove (Timer n) k) = Some k1 \<and>
    rearm (Timer n) k1 = Some k2 \<and> rt_tick k1 = rt_tick k \<and>
    (\<exists>P. ls_nodes (k_rows k2) HardTimers = (if has_flag RT_TIMER_FLAG_PERIODIC (Timer n) k
       then takeWhile P ts @ Timer n # dropWhile P ts else ts)) \<and>
    fired act [Timer n] k k2"
proof -
  let ?t = "Timer n"
  let ?k0 = "row_remove ?t k"
  note c = clock_okD[OF ok] and c0 = clock_okD[OF clock_ok_row_remove[OF ok, of ?t]]
  obtain m where m: "timeout_func (k_timer k ?t) = UserTimeout m" using ok by (auto simp: clock_ok_def)
  define k1 where "k1 = set_ipc_data (act m (ipc_data k)) ?k0"
  have run: "run_timeout (data_callbacks act) ?t ?k0 = Some k1"
  proof -
    have "k_timer ?k0 = k_timer k" by (simp add: row_remove_def)
    then show ?thesis using m by (simp add: run_timeout_def data_callbacks_def k1_def)
  qed
  have f1: "k_thread k1 = k_thread k" "k_timer k1 = k_timer k" "rt_tick k1 = rt_tick k" "ls_wf (k_rows k1)"
      "ls_nodes (k_rows k1) HardTimers = ts" "ls_on (k_rows k1) = (ls_on (k_rows k))(?t := None)"
      "ipc_data k1 = act m (ipc_data k)"
    using c0(3) l c(3) by (simp_all add: k1_def row_remove_def ls_nodes_remove)
  have fl: "has_flag fl x k1 = has_flag fl x k" for fl x by (simp add: k1_def has_flag_def row_remove_def)
  have act: "timer_action act k ?t = act m" using m by (simp add: timer_action_def)
  show ?thesis
  proof (cases "has_flag RT_TIMER_FLAG_PERIODIC ?t k")
    case False
    have "rearm ?t k1 = Some (deactivate ?t k1)" by (rule rearm_stop) (use False f1(6) fl in simp_all)
    moreover have "fired act [?t] k (deactivate ?t k1)"
      using False by (simp add: fired_def f1 fl act)
    ultimately show ?thesis using run f1(3,5) False by (intro exI[of _ k1] exI[of _ "deactivate ?t k1"]) simp
  next
    case True
    have "tm_init_tick (k_timer k1 ?t) < RT_TICK_HALF" using ok True by (simp add: clock_ok_def f1(2))
    then obtain k2 where k2: "timer_enqueue ?t k1 = Some k2" using timer_enqueue_total[OF f1(4)] by blast
    note r = timer_enqueue_rows[OF f1(4) k2] and g = timer_enqueue_fields[OF k2] and h = timer_enqueue_flags[OF f1(4) k2]
    have fl2: "has_flag RT_TIMER_FLAG_PERIODIC x k2 = has_flag RT_TIMER_FLAG_PERIODIC x k"
        "has_flag RT_TIMER_FLAG_SOFT_TIMER x k2 = has_flag RT_TIMER_FLAG_SOFT_TIMER x k" for x
      using fl[of RT_TIMER_FLAG_PERIODIC x] fl[of RT_TIMER_FLAG_SOFT_TIMER x] h[of "OTimer x"] by (simp_all add: has_flag_def)
    have active: "has_flag RT_TIMER_FLAG_ACTIVATED ?t k1"
    proof -
      have "?t \<in> set (ls_nodes (k_rows k) HardTimers)" using l by simp
      then have "obj_flag (k_object k (OTimer ?t)) AND RT_TIMER_FLAG_ACTIVATED \<noteq> 0"
        using kinvD(2)[OF c(1)] unfolding rows_inv_def by blast
      then show ?thesis unfolding fl unfolding has_flag_def .
    qed
    have start: "rt_timer_start ?t k1 = Some (k2, RT_EOK)"
      using k2 fl2(2)[of ?t] hard by (simp add: rt_timer_start_def has_flag_def)
    have head: "timer_thead ?t k1 = HardTimers" using hard fl by (simp add: timer_thead_def has_flag_def)
    have "rearm ?t k1 = Some k2"
      using True active fl start by (simp add: rearm_def rt_timer_start_deactivate)
    moreover have "rt_tick k2 = rt_tick k" "ipc_data k2 = act m (ipc_data k)"
      using g(6) keeps_ipc_data[OF g(6)] f1(3,7) by (simp_all add: keeps_def)
    then have "fired act [?t] k k2" using True
      by (simp add: fired_def g(2) f1 fl2 r(1,4) head act)
    moreover have "\<exists>P. ls_nodes (k_rows k2) HardTimers = takeWhile P ts @ ?t # dropWhile P ts"
    proof -
      have "?t \<notin> set ts" using ls_wf_distinct[OF c(3), of HardTimers] l by simp
      then show ?thesis using r(2)[of HardTimers] by (auto simp: head f1(5) Let_def remove1_idem)
    qed
    ultimately show ?thesis using run f1(3) True by (intro exI[of _ k1] exI[of _ k2]) simp
  qed
qed

lemma filter_takeWhile_dropWhile: "filter Q (takeWhile P xs) @ filter Q (dropWhile P xs) = filter Q xs"
  by (simp flip: filter_append)

lemma fire_one:
  assumes ok: "clock_ok k" and l: "ls_nodes (k_rows k) HardTimers = t # ts" and d: "timer_due (rt_tick k) t k"
    and hard: "\<forall>x \<in> set (t # ts). \<not> has_flag RT_TIMER_FLAG_SOFT_TIMER x k"
  shows "\<exists>k1 k2. run_timeout (data_callbacks act) t (row_remove t k) = Some k1 \<and> rearm t k1 = Some k2 \<and>
    rt_tick k1 = rt_tick k \<and> clock_ok k2 \<and> fired act [t] k k2 \<and> due k = t # due k2 \<and>
    set (ls_nodes (k_rows k2) HardTimers) \<subseteq> set (t # ts)"
proof -
  note c = clock_okD[OF ok]
  have t: "t \<in> set (ls_nodes (k_rows k) HardTimers)" using l by simp
  obtain k1 k2 P where r: "run_timeout (data_callbacks act) t (row_remove t k) = Some k1" "rearm t k1 = Some k2"
    "rt_tick k1 = rt_tick k" "fired act [t] k k2"
    "ls_nodes (k_rows k2) HardTimers = (if has_flag RT_TIMER_FLAG_PERIODIC t k then takeWhile P ts @ t # dropWhile P ts else ts)"
  proof (cases t)
    case (ThreadTimer th)
    have "\<not> has_flag RT_TIMER_FLAG_PERIODIC t k"
      using kinvD(3)[OF c(1)] by (simp add: ThreadTimer thread_timers_ok_def has_flag_def)
    then show ?thesis using that fire_thread[where act = act, OF ok l[unfolded ThreadTimer], of "data_callbacks act"]
      unfolding ThreadTimer by (metis (full_types))
  next
    case (Timer n)
    have "\<not> has_flag RT_TIMER_FLAG_SOFT_TIMER (Timer n) k" using hard Timer by simp
    from fire_user[OF ok l[unfolded Timer] this, of act] show ?thesis using that unfolding Timer by blast
  qed
  obtain k1' where a: "run_timeout (data_callbacks act) t (row_remove t k) = Some k1'" "clock_ok k1'"
    "ls_on (k_rows k1') t = None \<or> has_flag RT_TIMER_FLAG_PERIODIC t k1'"
    by (rule run_timeout_spec[OF data_callbacks_ok ok t]) (rule that)
  obtain k2' where b: "rearm t k1' = Some k2'" "clock_ok k2'" by (rule rearm_spec[OF a(2,3)]) (rule that)
  have ok2: "clock_ok k2" using a(1) b r(1,2) by simp
  have same: "timer_due (rt_tick k2) x k2 = timer_due (rt_tick k) x k" if "x \<noteq> t" for x
    using r(4) that by (simp add: fired_def timer_due_def)
  have nt: "t \<notin> set ts" using ls_wf_distinct[OF c(3), of HardTimers] l by simp
  have rest: "filter (\<lambda>x. timer_due (rt_tick k2) x k2) ts = filter (\<lambda>x. timer_due (rt_tick k) x k) ts"
    using same by (intro filter_cong refl) (metis nt)
  have "\<not> timer_due (rt_tick k2) t k2" if p: "has_flag RT_TIMER_FLAG_PERIODIC t k"
    using not_due_after[of "tm_init_tick (k_timer k t)" "rt_tick k"] ok p r(4)
    by (simp add: clock_ok_def fired_def timer_due_def)
  then have "due k2 = filter (\<lambda>x. timer_due (rt_tick k2) x k2) ts"
    by (simp add: due_def r(5) filter_takeWhile_dropWhile)
  then have "due k = t # due k2" using rest d l by (simp add: due_def)
  moreover have "set (ls_nodes (k_rows k2) HardTimers) \<subseteq> set (t # ts)"
    using r(5) by (auto dest: set_takeWhileD set_dropWhileD split: if_splits)
  ultimately show ?thesis using r(1-4) ok2 by blast
qed

lemma due_Nil:
  assumes "clock_ok k" "due k = []"
  shows "timer_check_loop ucb (rt_tick k) k = Some k"
proof (cases "ls_nodes (k_rows k) HardTimers")
  case (Cons t ts)
  then have "\<not> timer_due (rt_tick k) t k" using assms(2) by (auto simp: due_def split: if_splits)
  then show ?thesis using Cons by (simp add: timer_check_loop.simps)
qed (simp add: timer_check_loop.simps)

lemma due_head:
  assumes ok: "clock_ok k" and d: "due k = t # es"
  shows "\<exists>ts. ls_nodes (k_rows k) HardTimers = t # ts \<and> timer_due (rt_tick k) t k"
proof (cases "ls_nodes (k_rows k) HardTimers")
  case Nil
  then show ?thesis using d by (simp add: due_def)
next
  case (Cons x xs)
  have "hard_due k \<noteq> {}" using d by (auto simp: due_def hard_due_def filter_eq_Cons_iff)
  then have "timer_due (rt_tick k) x k" using sorted_none_due[OF clock_okD(2)[OF ok] Cons] by blast
  then show ?thesis using d Cons by (simp add: due_def)
qed

text \<open>The loop fires the timers that are due.\<close>

lemma check_loop_fires:
  assumes "clock_ok k" "\<forall>x \<in> set (ls_nodes (k_rows k) HardTimers). \<not> has_flag RT_TIMER_FLAG_SOFT_TIMER x k"
  shows "\<exists>k'. timer_check_loop (data_callbacks act) (rt_tick k) k = Some k' \<and> fired act (due k) k k'"
  using assms
proof (induction "due k" arbitrary: k)
  case Nil
  then show ?case using due_Nil[OF Nil.prems(1), of "data_callbacks act"] by (simp add: fired_Nil)
next
  case (Cons t es)
  obtain ts where l: "ls_nodes (k_rows k) HardTimers = t # ts" "timer_due (rt_tick k) t k"
    using due_head[OF Cons.prems(1) Cons.hyps(2)[symmetric]] by blast
  obtain k1 k2 where r: "run_timeout (data_callbacks act) t (row_remove t k) = Some k1" "rearm t k1 = Some k2"
    "rt_tick k1 = rt_tick k" "clock_ok k2" "fired act [t] k k2" "due k = t # due k2"
    "set (ls_nodes (k_rows k2) HardTimers) \<subseteq> set (t # ts)"
    using fire_one[OF Cons.prems(1) l Cons.prems(2)[unfolded l(1)], of act] by blast
  have tick: "rt_tick k2 = rt_tick k" using r(5) by (simp add: fired_def)
  have "\<forall>x \<in> set (ls_nodes (k_rows k2) HardTimers). \<not> has_flag RT_TIMER_FLAG_SOFT_TIMER x k2"
    using Cons.prems(2) r(5,7) l(1) by (auto simp: fired_def)
  moreover have "es = due k2" using r(6) Cons.hyps(2) by simp
  ultimately obtain k' where k': "timer_check_loop (data_callbacks act) (rt_tick k2) k2 = Some k'" "fired act (due k2) k2 k'"
    using Cons.hyps(1)[of k2] r(4) by blast
  have "timer_check_loop (data_callbacks act) (rt_tick k) k = Some k'"
    using l r(1-3) k'(1) tick by (subst timer_check_loop.simps) (simp add: rt_tick_get_def Let_def)
  moreover have "distinct (due k)"
    using ls_wf_distinct[OF clock_okD(3)[OF Cons.prems(1)], of HardTimers] by (simp add: due_def)
  then have "t \<notin> set (due k2)" by (simp add: r(6))
  from fired_Cons[OF r(5) k'(2) this] have "fired act (due k) k k'" by (simp add: r(6))
  ultimately show ?case by blast
qed

section \<open>The tick\<close>

definition expired :: "kernel \<Rightarrow> timer_ref list" where
  "expired k = filter (\<lambda>t. timer_due (rt_tick k + 1) t k) (ls_nodes (k_rows k) HardTimers)"

lemma tick_fires:
  assumes inv: "clock_inv k" and hard: "\<forall>x \<in> set (ls_nodes (k_rows k) HardTimers). \<not> has_flag RT_TIMER_FLAG_SOFT_TIMER x k"
  shows "\<exists>k'. rt_tick_increase (data_callbacks act) k = Some k' \<and> clock_inv k' \<and> rt_tick k' = rt_tick k + 1 \<and>
    ipc_data k' = fold (timer_action act k) (expired k) (ipc_data k) \<and>
    (\<forall>th. if ThreadTimer th \<in> set (expired k)
       then thread_state (k_thread k' th) = RT_THREAD_READY \<and> th_error (k_thread k' th) = - RT_ETIMEOUT
       else stat (k_thread k' th) = stat (k_thread k th) \<and> th_error (k_thread k' th) = th_error (k_thread k th)) \<and>
    (\<forall>t. if t \<in> set (expired k) then
         (if has_flag RT_TIMER_FLAG_PERIODIC t k
          then ls_on (k_rows k') t = Some HardTimers \<and> timeout_tick (k_timer k' t) = rt_tick k' + tm_init_tick (k_timer k t)
          else ls_on (k_rows k') t = None)
       else ls_on (k_rows k') t = ls_on (k_rows k) t \<and> k_timer k' t = k_timer k t)"
proof -
  let ?k1 = "k\<lparr>rt_tick := rt_tick k + 1\<rparr>"
  have ok1: "clock_ok ?k1" by (rule clock_ok_tick[OF inv])
  obtain t where t: "rt_current_thread k = Some t" using clock_okD(4)[OF ok1] by auto
  let ?k2 = "upd_thread t (\<lambda>th. th\<lparr>remaining_tick := remaining_tick th - 1\<rparr>) ?k1"
  have ok2: "clock_ok ?k2" by (rule clock_ok_thread[OF ok1]) simp_all
  let ?k3 = "upd_thread t (\<lambda>th. th\<lparr>remaining_tick := init_tick th\<rparr>) ?k2"
  have ok3: "clock_ok ?k3" by (rule clock_ok_thread[OF ok2]) simp_all
  obtain k4 where k4: "(if remaining_tick (k_thread ?k2 t) = 0 then map_option fst (rt_thread_yield ?k3)
      else Some ?k2) = Some k4" "clock_ok k4" "rt_tick k4 = rt_tick k + 1" "k_rows k4 = k_rows k" "k_timer k4 = k_timer k"
      "k_object k4 = k_object k" "ipc_data k4 = ipc_data k"
      "\<And>th. stat (k_thread k4 th) = stat (k_thread k th)" "\<And>th. th_error (k_thread k4 th) = th_error (k_thread k th)"
  proof (cases "remaining_tick (k_thread ?k2 t) = 0")
    case True
    note c3 = clock_okD[OF ok3]
    have t3: "rt_current_thread ?k3 = Some t" using t by simp
    obtain k' where k': "rt_thread_yield ?k3 = Some (k', RT_EOK)" "keeps ?k3 k'" "k_thread k' = k_thread ?k3"
      "k_rows k' = k_rows ?k3" "k_timer k' = k_timer ?k3" "k_object k' = k_object ?k3"
      by (rule yield_spec[OF c3(1) t3 c3(5)]) (rule that; assumption)
    have "clock_ok k'" by (rule clock_ok_yield[OF ok3]) (use k'(1) in auto)
    moreover have "ipc_data k' = ipc_data k" using keeps_ipc_data[OF k'(2)] by (simp add: ipc_data_def)
    moreover have "rt_tick k' = rt_tick k + 1" using k'(2) by (simp add: keeps_def)
    ultimately show ?thesis using that[of k'] True k' by simp
  next
    case False
    then show ?thesis using that[of ?k2] ok2 by (simp add: ipc_data_def)
  qed
  have fl: "has_flag fl x k4 = has_flag fl x k" for fl x by (simp add: has_flag_def k4(6))
  have "\<forall>x \<in> set (ls_nodes (k_rows k4) HardTimers). \<not> has_flag RT_TIMER_FLAG_SOFT_TIMER x k4"
    using hard by (simp add: k4(4) fl)
  then obtain k' where k': "timer_check_loop (data_callbacks act) (rt_tick k4) k4 = Some k'" "fired act (due k4) k4 k'"
    using check_loop_fires[OF k4(2), of act] by blast
  have run: "rt_tick_increase (data_callbacks act) k = Some k'"
    using t k4(1) k'(1)
    by (simp add: rt_tick_increase_def rt_thread_self_def Let_def rt_timer_check_def rt_tick_get_def cong: if_cong)
  have inv': "clock_inv k'" "rt_tick k' = rt_tick k + 1"
    using tick_increase_spec[OF data_callbacks_ok[of act] inv] run by auto
  have e: "due k4 = expired k" by (simp add: due_def expired_def k4(3,4,5) timer_due_def)
  have act: "timer_action act k4 = timer_action act k" by (simp add: timer_action_def k4(5) fun_eq_iff)
  note f = k'(2)[unfolded fired_def e act k4(3-5,7) fl]
  show ?thesis
    using run inv' f by (intro exI[of _ k']) (simp add: k4(8,9))
qed

end
