(* ===== verification/Rtt_Kernel_Props.thy ===== *)
theory Rtt_Kernel_Props
  imports Rtt_Examples Rtt_Expiry Rtt_Ffs Rtt_Kservice
begin

text \<open>
  Properties of the kernel's core: lists, bit search, memory routines, scheduler, threads, timers
  and start-up.
\<close>

section \<open>Scheduling\<close>

text \<open>C4. When \<^verbatim>\<open>rt_schedule\<close> returns with the scheduler unlocked, the running thread
  is the first thread of the highest-priority non-empty ready list.\<close>

theorem schedule_runs_highest:
  assumes "sched_inv k" "some_ready k" "rt_current_thread k \<noteq> None" "rt_scheduler_lock_nest k = 0"
  shows "\<exists>k'. rt_schedule k = Some k' \<and> sched_inv k' \<and> highest_runs k' \<and> k_thread k' = k_thread k"
proof -
  obtain k' where k': "rt_schedule k = Some k'" using rt_schedule_total[OF assms(1-3)] by blast
  have "highest_runs k'" using rt_schedule_runs[OF _ k' assms(4)] assms(1) by (simp add: sched_inv_but_def)
  then show ?thesis using k' rt_schedule_inv[OF assms(1) k'] rt_schedule_frame[OF k'] by auto
qed

theorem schedule_runs_highest_witness:
  "\<exists>k'. rt_schedule kernel_two = Some k' \<and> sched_inv k' \<and> highest_runs k' \<and> k_thread k' = k_thread kernel_two"
  by (rule schedule_runs_highest) (simp_all only: kernel_two_facts option.simps simp_thms)


text \<open>A periodic user timer and the timer of thread 3 expire with the next tick, a second user timer ten
  ticks later.\<close>

definition kernel_ticking :: kernel where
  "kernel_ticking = kernel_worker\<lparr>
     k_rows := \<lparr>ls_nodes = (\<lambda>_. [])(HardTimers := [Timer 0, ThreadTimer 3, Timer 1]),
       ls_on = [Timer 0 \<mapsto> HardTimers, ThreadTimer 3 \<mapsto> HardTimers, Timer 1 \<mapsto> HardTimers]\<rparr>,
     k_object := (k_object kernel_worker)(
       OTimer (Timer 0) := \<lparr>obj_name = [], obj_type = 0, obj_flag = 3\<rparr>,
       OTimer (ThreadTimer 3) := \<lparr>obj_name = [], obj_type = 0, obj_flag = 1\<rparr>,
       OTimer (Timer 1) := \<lparr>obj_name = [], obj_type = 0, obj_flag = 1\<rparr>),
     k_timer := (k_timer kernel_worker)(
       Timer 0 := \<lparr>timeout_func = UserTimeout 0, tm_init_tick = 5, timeout_tick = 1\<rparr>,
       ThreadTimer 3 := \<lparr>timeout_func = ThreadTimeout 3, tm_init_tick = 5, timeout_tick = 1\<rparr>,
       Timer 1 := \<lparr>timeout_func = UserTimeout 1, tm_init_tick = 20, timeout_tick = 11\<rparr>)\<rparr>"

lemma kernel_ticking_fields:
  "k_tlist kernel_ticking = k_tlist kernel_worker" "k_thread kernel_ticking = k_thread kernel_worker"
  "rt_thread_ready_priority_group kernel_ticking = rt_thread_ready_priority_group kernel_worker"
  "rt_current_thread kernel_ticking = Some 2" "rt_tick kernel_ticking = 0" "k_sem kernel_ticking i = 0"
  "ls_nodes (k_rows kernel_ticking) HardTimers = [Timer 0, ThreadTimer 3, Timer 1]"
  "ls_nodes (k_rows kernel_ticking) SoftTimers = []"
  by (simp_all add: kernel_ticking_def kernel_worker_def kernel_two_def kernel_zero_def)

lemma kernel_ticking: "clock_inv kernel_ticking"
proof -
  have w: "sched_inv kernel_worker" using kernel_worker(1) by (simp add: kinv_but_def)
  have "sched_inv kernel_ticking" using w by (simp add: sched_inv_but_def bitmap_ok_def kernel_ticking_fields)
  moreover have "rows_inv kernel_ticking"
    unfolding rows_inv_def
  proof (intro conjI allI)
    show "ls_wf (k_rows kernel_ticking)" by (auto simp: ls_wf_def kernel_ticking_def)
    fix h show "\<forall>t \<in> set (ls_nodes (k_rows kernel_ticking) h). obj_flag (k_object kernel_ticking (OTimer t)) AND RT_TIMER_FLAG_ACTIVATED \<noteq> 0"
      by (cases h) (simp_all add: kernel_ticking_def)
  qed
  moreover have "thread_timers_ok {} kernel_ticking"
    by (auto simp: thread_timers_ok_def timer_link_ok_def kernel_ticking_def kernel_worker_def kernel_two_def running_thread_def
        kernel_zero_def)
  moreover have "timers_sorted HardTimers kernel_ticking"
      "\<forall>t \<in> set (ls_nodes (k_rows kernel_ticking) HardTimers). 0 < timer_key kernel_ticking t"
    by (simp_all add: timers_sorted_def timer_key_def kernel_ticking_fields)
      (simp_all add: kernel_ticking_def)
  moreover have "\<forall>t. has_flag RT_TIMER_FLAG_PERIODIC t kernel_ticking \<longrightarrow>
      0 < tm_init_tick (k_timer kernel_ticking t) \<and> tm_init_tick (k_timer kernel_ticking t) < RT_TICK_HALF"
    by (auto simp: has_flag_def kernel_ticking_def kernel_worker_def kernel_two_def kernel_zero_def)
  moreover have "\<forall>n. \<exists>m. timeout_func (k_timer kernel_ticking (Timer n)) = UserTimeout m"
      "thread_state (k_thread kernel_ticking idle_thread) = RT_THREAD_READY"
    by (auto simp: kernel_ticking_def kernel_worker_def kernel_two_def kernel_zero_def running_thread_def)
  ultimately show ?thesis by (simp add: clock_inv_def clock_ok_def kinv_but_def kernel_ticking_fields)
qed


text \<open>C15. The start-up sequence ends with the main, timer and idle threads ready, the kernel's
  invariant established and the highest of the threads running.\<close>

theorem startup_runs:
  assumes "2 \<le> t"
  shows "\<exists>k. rtthread_startup (Some t) True kernel_zero = Some k \<and> kinv k \<and> highest_runs k \<and>
    (\<forall>s \<in> {idle_thread, timer_thread, t}. thread_state (k_thread k s) = RT_THREAD_READY) \<and>
    rt_tick k = 0 \<and> rt_scheduler_lock_nest k = 0"
  by (rule boot_spec[OF assms])

theorem startup_runs_witness:
  "\<exists>k. rtthread_startup (Some 2) True kernel_zero = Some k \<and> kinv k \<and> highest_runs k"
proof -
  have "(2 :: nat) \<le> 2" by simp
  from startup_runs[OF this] show ?thesis by blast
qed

text \<open>A thread that goes to sleep is suspended with its timer set to the tick it asked for, and
  the highest of the other threads runs.\<close>

theorem sleep_suspends:
  assumes "kinv k" "rt_current_thread k = Some t" "thread_state (k_thread k t) = RT_THREAD_READY"
    "thread_state (k_thread k s) = RT_THREAD_READY" "s \<noteq> t" "tick < RT_TICK_HALF" "rt_scheduler_lock_nest k = 0"
  shows "\<exists>k'. rt_thread_sleep tick k = Some (k', Wait) \<and> kinv k' \<and>
    thread_state (k_thread k' t) = RT_THREAD_SUSPEND \<and> ls_on (k_rows k') (ThreadTimer t) = Some HardTimers \<and>
    timeout_tick (k_timer k' (ThreadTimer t)) = rt_tick k + tick \<and> highest_runs k' \<and>
    (\<forall>u. u \<noteq> t \<longrightarrow> k_thread k' u = k_thread k u)"
proof -
  obtain k' where k': "rt_thread_sleep tick k = Some (k', Wait)" "kinv k'"
    "thread_state (k_thread k' t) = RT_THREAD_SUSPEND" "ls_on (k_rows k') (ThreadTimer t) = Some HardTimers"
    "timeout_tick (k_timer k' (ThreadTimer t)) = rt_tick k + tick" "rt_scheduler_lock_nest k = 0 \<Longrightarrow> highest_runs k'"
    "k_thread k' = (k_thread k)(t := (k_thread k t)
       \<lparr>stat := RT_THREAD_SUSPEND OR (stat (k_thread k t) AND NOT RT_THREAD_STAT_MASK)\<rparr>)"
    by (rule sleep_spec[OF assms(1-6)]) (rule that; assumption)
  then show ?thesis using assms(7) by (intro exI[of _ k']) simp
qed

theorem sleep_suspends_witness:
  "\<exists>k'. rt_thread_sleep 100 kernel_two = Some (k', Wait) \<and> kinv k' \<and>
    thread_state (k_thread k' 2) = RT_THREAD_SUSPEND \<and> ls_on (k_rows k') (ThreadTimer 2) = Some HardTimers \<and>
    timeout_tick (k_timer k' (ThreadTimer 2)) = rt_tick kernel_two + 100 \<and> highest_runs k' \<and>
    (\<forall>u. u \<noteq> 2 \<longrightarrow> k_thread k' u = k_thread kernel_two u)"
  by (rule sleep_suspends[OF kinv_two kernel_two_facts(3,7,6)]) (simp_all add: kernel_two_facts)

text \<open>A thread that exits is closed, leaves every ready list, is queued for the idle thread to
  free unless it is static, and the highest of the other threads runs.\<close>

theorem exit_closes:
  assumes "kinv k" "rt_current_thread k = Some t" "thread_state (k_thread k t) = RT_THREAD_READY"
    "thread_state (k_thread k s) = RT_THREAD_READY" "s \<noteq> t" "rt_scheduler_lock_nest k = 0"
  shows "\<exists>k'. rt_thread_exit k = Some k' \<and> kinv k' \<and> thread_state (k_thread k' t) = RT_THREAD_CLOSE \<and>
    highest_runs k' \<and> (\<forall>r. r \<noteq> t \<longrightarrow> k_thread k' r = k_thread k r) \<and>
    ls_on (k_tlist k') t = (if rt_object_is_systemobject (OThread t) k \<and> \<not> cleanup (k_thread k t)
      then None else Some DefunctQ)"
proof -
  obtain k' where "rt_thread_exit k = Some k'" "kinv k'" "thread_state (k_thread k' t) = RT_THREAD_CLOSE"
    "\<forall>r. r \<noteq> t \<longrightarrow> k_thread k' r = k_thread k r" "rt_scheduler_lock_nest k = 0 \<longrightarrow> highest_runs k'"
    "ls_on (k_tlist k') t = (if rt_object_is_systemobject (OThread t) k \<and> \<not> cleanup (k_thread k t)
       then None else Some DefunctQ)"
    by (rule exit_spec[OF assms(1-5)]) (rule that; assumption)
  then show ?thesis using assms(6) by blast
qed

theorem exit_closes_witness:
  "\<exists>k'. rt_thread_exit kernel_two = Some k' \<and> kinv k' \<and> thread_state (k_thread k' 2) = RT_THREAD_CLOSE \<and>
    highest_runs k' \<and> (\<forall>r. r \<noteq> 2 \<longrightarrow> k_thread k' r = k_thread kernel_two r) \<and>
    ls_on (k_tlist k') 2 = (if rt_object_is_systemobject (OThread 2) kernel_two \<and> \<not> cleanup (k_thread kernel_two 2)
      then None else Some DefunctQ)"
  by (rule exit_closes[OF kinv_two kernel_two_facts(3,7,6)]) (simp_all add: kernel_two_facts)

text \<open>A thread that yields goes to the end of the ready list of its priority, and the first
  thread of the highest priority runs.\<close>

theorem yield_rotates:
  assumes "kinv k" "rt_current_thread k = Some t" "thread_state (k_thread k t) = RT_THREAD_READY"
  shows "\<exists>k'. rt_thread_yield k = Some (k', RT_EOK) \<and> kinv k' \<and> k_thread k' = k_thread k \<and>
    (let h = ReadyQ (unat (current_priority (k_thread k t)))
     in tlist_of k' h = remove1 t (tlist_of k h) @ [t] \<and> (\<forall>g. g \<noteq> h \<longrightarrow> tlist_of k' g = tlist_of k g)) \<and>
    (has_neighbour t k \<and> rt_scheduler_lock_nest k = 0 \<longrightarrow> highest_runs k')"
proof -
  obtain k' where "rt_thread_yield k = Some (k', RT_EOK)" "kinv k'" "k_thread k' = k_thread k"
    "thread_state (k_thread k t) = RT_THREAD_READY \<Longrightarrow> has_neighbour t k \<Longrightarrow> rt_scheduler_lock_nest k = 0 \<Longrightarrow> highest_runs k'"
    "thread_state (k_thread k t) = RT_THREAD_READY \<Longrightarrow> k_tlist k' = ready_rotated t k"
    by (rule yield_spec[OF assms]) (rule that; assumption)
  then show ?thesis using assms(3) by (intro exI[of _ k']) (simp add: ready_rotated_def Let_def)
qed

theorem yield_rotates_witness:
  "\<exists>k'. rt_thread_yield kernel_two = Some (k', RT_EOK) \<and> kinv k' \<and> k_thread k' = k_thread kernel_two"
  using yield_rotates[OF kinv_two kernel_two_facts(3,7)] by blast

section \<open>Intrusive lists\<close>

text \<open>C13. Any sequence of insertions and removals on the pointer lists, from initialised heads and
  nodes, leaves the memory representing the lists of the abstract sequence of operations.\<close>

theorem lists_refined:
  assumes "ls_run ops ls_empty = Some L"
  shows "rep (fold ptr_apply ops lmem_init) L \<and>
    (\<forall>h. rt_list_len (Head h) (fold ptr_apply ops lmem_init) = Some (length (ls_nodes L h))) \<and>
    (\<forall>h. rt_list_isempty (Head h) (fold ptr_apply ops lmem_init) = (ls_nodes L h = []))"
proof -
  have r: "rep (fold ptr_apply ops lmem_init) L" by (rule ptr.run_sim[OF rep_init assms])
  then show ?thesis using ring_len[OF rep_ring[OF r]] ptr.isempty_sim[OF r] by blast
qed

theorem lists_refined_witness:
  "rt_list_len (Head (0 :: nat)) (fold ptr_apply [InsertAfterHead 0 (5 :: nat), InsertBeforeHead 0 7, Remove 5] lmem_init)
     = Some 1"
proof -
  have "ls_run [InsertAfterHead (0 :: nat) (5 :: nat), InsertBeforeHead 0 7, Remove 5] ls_empty
      = Some \<lparr>ls_nodes = (\<lambda>_. [])(0 := [7]), ls_on = [7 \<mapsto> 0]\<rparr>"
    by (simp add: ls_insert_after_head_def ls_insert_before_head_def ls_remove_def ls_empty_def fun_eq_iff)
  from lists_refined[OF this] show ?thesis by simp
qed

section \<open>Bit search\<close>

text \<open>C18. The table lookup of \<^verbatim>\<open>kservice.c\<close> and the instruction sequence of
  \<^verbatim>\<open>cpuport.c\<close> agree: 0 for no bit, otherwise one more than the position of the lowest
  bit.\<close>

theorem ffs_lowest:
  "rt_ffs_arm v = rt_ffs v \<and> (v = 0 \<longrightarrow> rt_ffs v = 0) \<and>
   (v \<noteq> 0 \<longrightarrow> 0 < rt_ffs v \<and> rt_ffs v \<le> 32 \<and> bit v (rt_ffs v - 1) \<and> (\<forall>i < rt_ffs v - 1. \<not> bit v i))"
  using rt_ffs_bounds[of v] by (auto simp: rt_ffs_arm_eq)

theorem ffs_lowest_witness: "rt_ffs_arm 0x80000400 = 11 \<and> bit (0x80000400 :: rt_uint32) (rt_ffs 0x80000400 - 1)"
proof -
  have "rt_ffs 0x80000400 = 11" by code_simp
  then show ?thesis using ffs_lowest[of "0x80000400"] by simp
qed

section \<open>Memory and strings\<close>

text \<open>C19. \<^verbatim>\<open>rt_memmove\<close> copies the source area as it was before the call, also when the
  areas overlap.\<close>

theorem memmove_copies:
  assumes "unat src + unat n < 2 ^ 32" "unat dest + unat n < 2 ^ 32"
  shows "rt_memmove dest src n m = (\<lambda>a. if unat (a - dest) < unat n then m (src + (a - dest)) else m a)"
  using rt_memmove_copy[OF assms] by (simp add: mem_copy_def)

theorem memmove_copies_witness:
  "rt_memmove 0x102 0x100 6 (\<lambda>a. ucast a) 0x105 = 0x03"
proof -
  have "unat (0x100 :: rt_uint32) + unat (6 :: rt_uint32) < 2 ^ 32" "unat (0x102 :: rt_uint32) + unat (6 :: rt_uint32) < 2 ^ 32"
    by simp_all
  from memmove_copies[OF this, of "\<lambda>a. ucast a"] show ?thesis by simp
qed

text \<open>\<^verbatim>\<open>rt_memset\<close>, which stores whole words where it can, is the byte-wise
  fill.\<close>

theorem memset_fills:
  "rt_memset s c n m = (\<lambda>a. if unat (a - s) < unat n then ucast c else m a)"
  by (simp add: rt_memset_fill mem_fill_def)

text \<open>\<^verbatim>\<open>rt_strstr\<close> finds the first place where the second string occurs in the
  first one.\<close>

theorem strstr_first:
  assumes "rt_strlen s1 = Some l1" "rt_strlen s2 = Some l2" "0 < l2"
  shows "rt_strstr s1 s2 = Some (find (\<lambda>i. \<forall>j < l2. s1 (i + j) = s2 j) [0..<Suc l1 - l2])"
  using assms strstr_loop_spec[OF assms(3), of s1 s2 l1 0] by (simp add: rt_strstr_def split: option.split)

lemma cstr_len: "0 \<notin> set bs \<Longrightarrow> rt_strlen (cstr bs) = Some (length bs)"
  by (auto simp: rt_strlen_Some cstr_def dest: nth_mem)

theorem strstr_first_witness: "rt_strstr (cstr [1, 2, 3, 2, 3]) (cstr [2, 3]) = Some (Some 1)"
proof -
  have "rt_strlen (cstr [1, 2, 3, 2, 3]) = Some 5" "rt_strlen (cstr [2, 3]) = Some 2"
    using cstr_len[of "[1, 2, 3, 2, 3]"] cstr_len[of "[2, 3]"] by simp_all
  moreover have "find (\<lambda>i. \<forall>j < 2. cstr [1, 2, 3, 2, 3] (i + j) = cstr [2, 3] j) [0..<Suc 5 - 2] = Some 1"
    by code_simp
  ultimately show ?thesis using strstr_first[of "cstr [1, 2, 3, 2, 3]" 5 "cstr [2, 3]" 2] by simp
qed

section \<open>The object registry\<close>

text \<open>Programs of registry calls; \<open>None\<close> when one of them fails an assertion.\<close>

datatype registry_call =
    CallInit oref rt_uint8 "rt_uint8 list"
  | CallAllocate rt_uint8 "rt_uint8 list" "oref option"
  | CallDetach oref
  | CallDelete oref

fun registry_step :: "registry_call \<Rightarrow> kernel \<Rightarrow> kernel option" where
  "registry_step (CallInit ob ty nm) k = rt_object_init ob ty nm k"
| "registry_step (CallAllocate ty nm mem) k = map_option fst (rt_object_allocate ty nm mem k)"
| "registry_step (CallDetach ob) k = Some (rt_object_detach ob k)"
| "registry_step (CallDelete ob) k = rt_object_delete ob k"

fun registry_run :: "registry_call list \<Rightarrow> kernel \<Rightarrow> kernel option" where
  "registry_run [] k = Some k"
| "registry_run (c # cs) k = Option.bind (registry_step c k) (registry_run cs)"

lemma registry_step_inv: "registry_inv k \<Longrightarrow> registry_step c k = Some k' \<Longrightarrow> registry_inv k'"
  by (cases c) (auto intro: rt_object_init_inv rt_object_allocate_inv rt_object_detach_inv rt_object_delete_inv)

lemma registry_run_inv: "registry_run cs k = Some k' \<Longrightarrow> registry_inv k \<Longrightarrow> registry_inv k'"
  by (induction cs k rule: registry_run.induct) (auto simp: bind_eq_Some_conv intro: registry_step_inv)

lemma registry_inv_empty: "k_containers k = ls_empty \<Longrightarrow> registry_inv k"
  by (simp add: registry_inv_def ls_empty_def ls_wf_def)

lemma container_find_typed:
  assumes "registry_inv k" "container_find c nm k = Some ob"
  shows "obj_type (k_object k ob) AND 0x7f = class_code c"
    "rt_strncmp (cstr (obj_name (k_object k ob))) nm RT_NAME_MAX = 0"
  using assms by (auto simp: container_find_def find_Some_iff registry_inv_def ls_wf_def)

text \<open>C21. Whatever objects were registered and taken out again, \<^verbatim>\<open>rt_object_find\<close> returns
  only objects of the type it was asked for, under the name it was asked for, and finds one when there
  is one.\<close>

theorem registry_typed:
  assumes "k_containers k0 = ls_empty" "registry_run cs k0 = Some k"
    and "rt_object_find (Some nm) ty k = Some (k', r)" "ty \<le> class_code RT_Object_Class_Unknown"
  shows "case r of
      Some ob \<Rightarrow> obj_type (k_object k ob) AND 0x7f = ty \<and>
                 rt_strncmp (cstr (obj_name (k_object k ob))) nm RT_NAME_MAX = 0
    | None \<Rightarrow> \<forall>ob c. ls_on (k_containers k) ob = Some c \<and> class_code c = ty \<longrightarrow>
                 rt_strncmp (cstr (obj_name (k_object k ob))) nm RT_NAME_MAX \<noteq> 0"
proof -
  have inv: "registry_inv k" by (rule registry_run_inv[OF assms(2) registry_inv_empty[OF assms(1)]])
  obtain c where c: "rt_object_get_information ty = Some c" "r = container_find c nm (rt_enter_critical k)"
    using assms(3,4) by (auto simp: rt_object_find_def Let_def bind_eq_Some_conv not_less split: if_splits)
  have r: "r = container_find c nm k" using c(2) by (simp add: container_find_def rt_enter_critical_def)
  have ty: "class_code c = ty" using get_information_Some[OF c(1)] by simp
  show ?thesis
  proof (cases r)
    case (Some ob)
    then show ?thesis using container_find_typed[OF inv, of c nm ob] r ty by simp
  next
    case None
    have "rt_strncmp (cstr (obj_name (k_object k ob))) nm RT_NAME_MAX \<noteq> 0" if "ls_on (k_containers k) ob = Some c" for ob
      using None r that inv by (auto simp: container_find_def find_None_iff registry_inv_def ls_wf_def)
    moreover have "c' = c" if "class_code c' = ty" for c'
      using that ty by (cases c; cases c') simp_all
    ultimately show ?thesis using None by auto
  qed
qed

theorem registry_typed_witness:
  "\<exists>k k' ob. registry_run [CallInit (OSem 0) 1 [115, 49], CallInit (OMutex 0) 2 [115, 49], CallDetach (OMutex 0)]
       (kernel_zero\<lparr>rt_scheduler_lock_nest := 1\<rparr>) = Some k \<and>
     rt_object_find (Some (cstr [115, 49])) 1 k = Some (k', Some ob) \<and> obj_type (k_object k ob) AND 0x7f = 1"
proof -
  let ?k0 = "kernel_zero\<lparr>rt_scheduler_lock_nest := 1\<rparr>"
  let ?cs = "[CallInit (OSem 0) 1 [115, 49], CallInit (OMutex 0) 2 [115, 49], CallDetach (OMutex 0)]"
  have e: "k_containers ?k0 = ls_empty" by (simp add: kernel_zero_def)
  define k where "k = the (registry_run ?cs ?k0)"
  have k: "registry_run ?cs ?k0 = Some k" "rt_scheduler_lock_nest k = 1" "rt_interrupt_nest k = 0"
      "ls_nodes (k_containers k) RT_Object_Class_Semaphore = [OSem 0]"
      "obj_name (k_object k (OSem 0)) = [115, 49, 0, 0, 0, 0, 0, 0]"
    by (simp_all add: k_def kernel_zero_def op_defs numeral_eq_Suc)
  have "rt_strncmp (cstr [115, 49, 0, 0, 0, 0, 0, 0]) (cstr [115, 49]) 8 = 0" by code_simp
  then have "\<exists>k'. rt_object_find (Some (cstr [115, 49])) 1 k = Some (k', Some (OSem 0))"
    using k(2-5) by (simp add: rt_object_find_def rt_object_get_information_def rt_object_container_def
        container_find_def rt_enter_critical_def rt_exit_critical_def word_sle_eq)
  then show ?thesis using registry_typed[OF e k(1)] k(1) by fastforce
qed

end
