(* ===== verification/Rtt_Ipc_Props.thy ===== *)
theory Rtt_Ipc_Props
  imports Rtt_Examples
begin

text \<open>
  Properties of the communication objects: semaphores, mutexes, events, mailboxes and message queues.
\<close>

section \<open>Semaphores\<close>

text \<open>C11. A release of a semaphore with waiters gives it to the first one: the value stays,
  that thread leaves the waiting list, becomes ready and its timer is stopped, and the highest
  ready thread runs.\<close>

theorem sem_release_hands_over:
  assumes "kinv k" "rt_current_thread k \<noteq> None" "rt_scheduler_lock_nest k = 0"
    "tlist_of k (SuspendQ (OSem i)) = t # ts"
  shows "\<exists>k'. rt_sem_release i k = Some (k', RT_EOK) \<and> kinv k' \<and> k_sem k' = k_sem k \<and>
    tlist_of k' (SuspendQ (OSem i)) = ts \<and> thread_state (k_thread k' t) = RT_THREAD_READY \<and>
    ls_on (k_rows k') (ThreadTimer t) = None \<and> highest_runs k'"
proof -
  obtain k' where "rt_sem_release i k = Some (k', RT_EOK)" "kinv k'" "keeps k k'"
    "tlist_of k' (SuspendQ (OSem i)) = ts" "k_thread k' = (k_thread k)(t := readied (k_thread k t))"
    "ls_on (k_rows k') (ThreadTimer t) = None" "rt_scheduler_lock_nest k = 0 \<Longrightarrow> highest_runs k'"
    by (rule sem_release_wake[OF assms(1,4,2)]) (rule that; assumption)
  then show ?thesis using assms(3) by (intro exI[of _ k']) (simp add: keeps_def)
qed

theorem sem_release_hands_over_witness:
  "\<exists>k'. rt_sem_release 0 kernel_waiting = Some (k', RT_EOK) \<and> kinv k' \<and> k_sem k' = k_sem kernel_waiting \<and>
    tlist_of k' (SuspendQ (OSem 0)) = [] \<and> thread_state (k_thread k' 2) = RT_THREAD_READY \<and>
    ls_on (k_rows k') (ThreadTimer 2) = None \<and> highest_runs k'"
  by (rule sem_release_hands_over[OF kernel_waiting_facts])

text \<open>A take of a semaphore either counts it down, or fails at once for a timeout of 0, or
  suspends the caller; no thread ever waits on a semaphore that is available.\<close>

theorem sem_take_cases:
  assumes "kinv k" "sem_inv k" "can_block t k" "valid_flag (OSem i) k" "time < 2 ^ 31 - 1"
  shows "\<exists>k' r. rt_sem_take i time k = Some (k', r) \<and> kinv k' \<and> sem_inv k' \<and>
    (r = Wait \<longrightarrow> k_sem k i = 0 \<and> thread_state (k_thread k' t) = RT_THREAD_SUSPEND) \<and>
    (r = Done RT_EOK \<longrightarrow> k_sem k' i = k_sem k i - 1 \<and> 0 < k_sem k i)"
  using sem_take_inv[OF assms] by blast

theorem sem_take_cases_witness:
  "\<exists>k' r. rt_sem_take 0 5 kernel_two = Some (k', r) \<and> kinv k' \<and> sem_inv k'"
proof -
  have "sem_inv kernel_two" "valid_flag (OSem 0) kernel_two"
    by (simp_all add: sem_inv_def valid_flag_def obj_ipc_flag_def kernel_two_facts)
  from sem_take_cases[OF kinv_two this(1) can_block_two this(2), of 5] show ?thesis by auto
qed

section \<open>Mutexes\<close>

text \<open>C6. Priority inheritance: a thread that has to wait for a mutex raises the owner to its own
  priority if that is higher, and waits; no third thread changes.\<close>

theorem mutex_take_inherits:
  assumes "kinv k" "can_block t k" "mx_value (k_mutex k i) = 0" "owner (k_mutex k i) = Some ow" "ow \<noteq> t"
    "time \<noteq> 0" "time < 2 ^ 31 - 1" "valid_flag (OMutex i) k" "rt_scheduler_lock_nest k = 0"
  shows "\<exists>k'. rt_mutex_take i time k = Some (k', Wait) \<and> kinv k' \<and>
    t \<in> set (tlist_of k' (mutex_queue i)) \<and> thread_state (k_thread k' t) = RT_THREAD_SUSPEND \<and>
    current_priority (k_thread k' ow) = min (current_priority (k_thread k t)) (current_priority (k_thread k ow)) \<and>
    (\<forall>s. s \<noteq> t \<longrightarrow> s \<noteq> ow \<longrightarrow> k_thread k' s = k_thread k s) \<and> highest_runs k'"
proof -
  obtain k' where "rt_mutex_take i time k = Some (k', Wait)" "kinv k'"
    "set (tlist_of k' (mutex_queue i)) = insert t (set (tlist_of k (mutex_queue i)))"
    "current_priority (k_thread k' ow) = min (current_priority (k_thread k t)) (current_priority (k_thread k ow))"
    "thread_state (k_thread k' t) = RT_THREAD_SUSPEND"
    "\<And>s. s \<noteq> t \<Longrightarrow> s \<noteq> ow \<Longrightarrow> k_thread k' s = k_thread k s" "rt_scheduler_lock_nest k = 0 \<Longrightarrow> highest_runs k'"
    by (rule mutex_take_block[OF assms(1-8)]) (rule that; assumption)
  then show ?thesis using assms(9) by blast
qed

theorem mutex_take_inherits_witness:
  "\<exists>k'. rt_mutex_take 0 5 (kernel_mutex 0 31) = Some (k', Wait) \<and> kinv k' \<and> 2 \<in> set (tlist_of k' (mutex_queue 0)) \<and>
    current_priority (k_thread k' 0) = 10"
proof -
  have "(0 :: nat) \<noteq> 2" "(5 :: int) \<noteq> 0" "(5 :: int) < 2 ^ 31 - 1" by simp_all
  from mutex_take_inherits[OF kernel_mutex_facts(1,2,4,5) this(1,2,3) kernel_mutex_facts(7,9)]
  obtain k' where "rt_mutex_take 0 5 (kernel_mutex 0 31) = Some (k', Wait)" "kinv k'" "2 \<in> set (tlist_of k' (mutex_queue 0))"
    "current_priority (k_thread k' 0) = min (current_priority (k_thread (kernel_mutex 0 31) 2)) (current_priority (k_thread (kernel_mutex 0 31) 0))"
    by blast
  moreover have "current_priority (k_thread (kernel_mutex 0 31) 2) = 10" "current_priority (k_thread (kernel_mutex 0 31) 0) = 31"
    by (simp_all add: kernel_mutex_def kernel_two_def running_thread_def)
  ultimately show ?thesis by auto
qed

text \<open>C7. The last release gives the releasing thread its own priority back and hands the mutex to
  the first waiter, or frees it.\<close>

theorem mutex_release_hands_over:
  assumes "kinv k" "mutex_inv k" "can_block t k" "owner (k_mutex k i) = Some t" "hold (k_mutex k i) = 1"
  shows "\<exists>k'. rt_mutex_release i k = Some (k', RT_EOK) \<and> kinv k' \<and> mutex_inv k' \<and>
    current_priority (k_thread k' t) = original_priority (k_mutex k i) \<and>
    (case tlist_of k (mutex_queue i) of
       [] \<Rightarrow> owner (k_mutex k' i) = None \<and> mx_value (k_mutex k' i) = 1
     | w # ws \<Rightarrow> owner (k_mutex k' i) = Some w \<and> hold (k_mutex k' i) = 1 \<and>
         tlist_of k' (mutex_queue i) = ws \<and> thread_state (k_thread k' w) = RT_THREAD_READY \<and>
         original_priority (k_mutex k' i) = current_priority (k_thread k' w))"
  by (rule mutex_release_last[OF assms]) (intro exI conjI; assumption)

theorem mutex_release_hands_over_witness:
  "\<exists>k'. rt_mutex_release 0 (kernel_mutex 2 10) = Some (k', RT_EOK) \<and> owner (k_mutex k' 0) = None"
proof -
  have "mutex_inv (kernel_mutex 2 10)" by (rule kernel_mutex_facts(3)) simp
  moreover have "tlist_of (kernel_mutex 2 10) (mutex_queue 0) = []" by (simp add: kernel_mutex_def kernel_two_facts)
  ultimately show ?thesis
    using mutex_release_hands_over[OF kernel_mutex_facts(1) _ kernel_mutex_facts(2,5,6), of 10] by auto
qed

text \<open>A take keeps the mutex invariant and ends with the caller as owner one level deeper, or
  with the owner unchanged and another thread.\<close>

theorem mutex_take_owner:
  assumes "kinv k" "mutex_inv k" "can_block t k" "valid_flag (OMutex i) k" "time < 2 ^ 31 - 1"
    "mx_value (k_mutex k i) = 1 \<or> owner (k_mutex k i) \<noteq> None" "hold (k_mutex k i) < 255"
  shows "\<exists>k' r. rt_mutex_take i time k = Some (k', r) \<and> kinv k' \<and> mutex_inv k' \<and>
    (r = Done RT_EOK \<longrightarrow> owner (k_mutex k' i) = Some t \<and> hold (k_mutex k' i) = hold (k_mutex k i) + 1) \<and>
    (r \<noteq> Done RT_EOK \<longrightarrow> owner (k_mutex k' i) = owner (k_mutex k i) \<and> owner (k_mutex k i) \<noteq> Some t)"
  by (rule mutex_take_inv[OF assms])

theorem mutex_take_owner_witness:
  "\<exists>k' r. rt_mutex_take 0 5 (kernel_mutex 2 10) = Some (k', r) \<and> mutex_inv k'"
proof -
  have "mutex_inv (kernel_mutex 2 10)" by (rule kernel_mutex_facts(3)) simp
  from mutex_take_owner[OF kernel_mutex_facts(1) this kernel_mutex_facts(2,7), of 5 0] show ?thesis
    by (auto simp: kernel_mutex_facts)
qed

section \<open>Events\<close>

text \<open>C12. A send goes through the waiters in their order with the flags that were set and those it
  adds. A waiter whose wish is met, all of its flags or any of them, becomes ready with the flags it
  receives, leaves the queue and, if it asked for that, takes them away from those behind it; every other waiter
  stays as it was. What is left of the flags is in the event set, and the highest thread runs when one was woken.\<close>

theorem event_send_serves:
  assumes "kinv k" "event_inv k" "rt_current_thread k \<noteq> None" "flags \<noteq> 0"
    "serve (k_thread k) (flag_set (k_event k i) \<union> flag_set flags) (tlist_of k (event_queue i)) = (left, ws)"
  shows "\<exists>k'. rt_event_send i flags k = Some (k', RT_EOK) \<and> kinv k' \<and> event_inv k' \<and>
    flag_set (k_event k' i) = left \<and>
    tlist_of k' (event_queue i) = filter (\<lambda>t. t \<notin> fst ` set ws) (tlist_of k (event_queue i)) \<and>
    (\<forall>(t, got) \<in> set ws. thread_state (k_thread k' t) = RT_THREAD_READY \<and> flag_set (event_set (k_thread k' t)) = got) \<and>
    (\<forall>t. t \<notin> fst ` set ws \<longrightarrow> k_thread k' t = k_thread k t) \<and>
    (ws \<noteq> [] \<and> rt_scheduler_lock_nest k = 0 \<longrightarrow> highest_runs k')"
  by (rule event_send_exact[OF assms])

text \<open>A receive returns the flags it asked for if they are there, and otherwise fails at once or
  waits.\<close>

theorem event_recv_cases:
  assumes "kinv k" "event_inv k" "can_block t k" "valid_event_opt opt" "valid_flag (OEvent i) k" "timeout < 2 ^ 31 - 1"
  shows "\<exists>k' r v. rt_event_recv i want opt timeout k = Some (k', r, v) \<and> kinv k' \<and> event_inv k' \<and>
    (r = Wait \<longrightarrow> \<not> event_ready want opt (k_event k i) \<and> t \<in> set (tlist_of k' (event_queue i))) \<and>
    (r = Done RT_EOK \<longrightarrow> v = Some (k_event k i AND want) \<and> event_ready want opt (k_event k i))"
  using event_recv_inv[OF assms, of want] by blast

lemma event_two: "event_inv kernel_two" "valid_flag (OEvent 0) kernel_two"
  by (simp_all add: event_inv_def valid_flag_def obj_ipc_flag_def kernel_two_facts)

text \<open>Thread 2 waits for flags 2 and 4 of event set 0.\<close>

definition kernel_event :: kernel where
  "kernel_event = (case rt_event_recv 0 6 5 5 kernel_two of Some (k', _) \<Rightarrow> k' | None \<Rightarrow> kernel_two)"

lemma kernel_event_facts:
  "kinv kernel_event" "event_inv kernel_event" "rt_current_thread kernel_event \<noteq> None"
  "tlist_of kernel_event (event_queue 0) = [2]" "k_event kernel_event 0 = 0"
  "event_set (k_thread kernel_event 2) = 6" "event_info (k_thread kernel_event 2) = 5"
proof -
  have opt: "valid_event_opt 5" "(6 :: rt_uint32) \<noteq> 0" "(5 :: int) < 2 ^ 31 - 1" "(5 :: int) \<noteq> 0"
    by (simp_all add: valid_event_opt_def)
  have no: "\<not> event_ready 6 5 (k_event kernel_two 0)" by (simp add: event_ready_def kernel_two_facts)
  obtain k' r v where e: "rt_event_recv 0 6 5 5 kernel_two = Some (k', r, v)" and k': "kinv k'" "event_inv k'" "rt_current_thread k' \<noteq> None"
    using event_recv_inv[OF kinv_two event_two(1) can_block_two opt(1) event_two(2) opt(3), of 6] by blast
  obtain k'' where b: "rt_event_recv 0 6 5 5 kernel_two = Some (k'', Wait, None)" "keeps kernel_two k''"
    "tlist_of k'' (event_queue 0) = wait_list (obj_ipc_flag (OEvent 0) kernel_two)
       (\<lambda>s. current_priority (k_thread kernel_two s)) 2 (tlist_of kernel_two (event_queue 0))"
    "k_thread k'' = (k_thread kernel_two)(2 := suspended ((k_thread kernel_two 2)\<lparr>th_error := RT_EOK, event_set := 6, event_info := 5\<rparr>))"
    by (rule event_recv_block[OF kinv_two can_block_two opt(2,1) no opt(4,3) event_two(2)]) (rule that; assumption)
  have e1: "kernel_event = k'" "k'' = k'" using e b(1) by (simp_all add: kernel_event_def)
  then show "kinv kernel_event" "event_inv kernel_event" "rt_current_thread kernel_event \<noteq> None" using k' by simp_all
  show "tlist_of kernel_event (event_queue 0) = [2]"
    using b(3) e1 by (simp add: kernel_two_facts wait_list_def obj_ipc_flag_def)
  show "k_event kernel_event 0 = 0" using b(2) e1 by (simp add: keeps_def kernel_two_facts)
  show "event_set (k_thread kernel_event 2) = 6" "event_info (k_thread kernel_event 2) = 5" using b(4) e1 by simp_all
qed

text \<open>One of the two flags leaves the thread waiting, both wake it and are cleared.\<close>

theorem event_send_serves_witness:
  "\<exists>k1 k2. rt_event_send 0 2 kernel_event = Some (k1, RT_EOK) \<and> k_event k1 0 = 2 \<and> tlist_of k1 (event_queue 0) = [2] \<and>
    rt_event_send 0 6 kernel_event = Some (k2, RT_EOK) \<and> k_event k2 0 = 0 \<and> tlist_of k2 (event_queue 0) = [] \<and>
    thread_state (k_thread k2 2) = RT_THREAD_READY \<and> event_set (k_thread k2 2) = 6"
proof -
  have "bit (6 :: rt_uint32) 2 \<and> \<not> bit (2 :: rt_uint32) 2" by code_simp
  then have n1: "\<not> flag_set 6 \<subseteq> flag_set 2" unfolding flag_set_def by blast
  have s1: "serve (k_thread kernel_event) (flag_set (k_event kernel_event 0) \<union> flag_set 2) (tlist_of kernel_event (event_queue 0))
      = (flag_set 2, [])"
    using n1 by (simp add: kernel_event_facts wish_met_def flag_set_simps(1))
  have s2: "serve (k_thread kernel_event) (flag_set (k_event kernel_event 0) \<union> flag_set 6) (tlist_of kernel_event (event_queue 0))
      = ({}, [(2, flag_set 6)])"
    by (simp add: kernel_event_facts wish_met_def flag_set_simps(1))
  have z: "(2 :: rt_uint32) \<noteq> 0" "(6 :: rt_uint32) \<noteq> 0" by simp_all
  show ?thesis
    using event_send_serves[OF kernel_event_facts(1-3) z(1) s1] event_send_serves[OF kernel_event_facts(1-3) z(2) s2]
    by (auto simp: kernel_event_facts flag_set_eq flag_set_empty)
qed

theorem event_recv_cases_witness:
  "\<exists>k' r v. rt_event_recv 0 6 5 5 kernel_two = Some (k', r, v) \<and> event_inv k'"
proof -
  have "valid_event_opt 5" "(5 :: int) < 2 ^ 31 - 1" by (simp_all add: valid_event_opt_def)
  from event_recv_cases[OF kinv_two event_two(1) can_block_two this(1) event_two(2) this(2), of 6] show ?thesis by blast
qed

section \<open>Mailboxes\<close>

text \<open>C16. Sending a mail stores it behind the others, or reports a full mailbox for a timeout of 0,
  or waits; a full mailbox is not touched.\<close>

theorem mailbox_send:
  assumes "kinv k" "mb_inv k" "can_block t k" "valid_flag (OMailBox i) k" "timeout < 2 ^ 31 - 1"
    "mb_size (k_mb k i) \<noteq> 0" "rt_thread_self k = Some t"
  shows "\<exists>k' r. rt_mb_send_wait i v timeout k = Some (k', r) \<and> kinv k' \<and> mb_inv k' \<and>
    (case r of MDone e \<Rightarrow> e = RT_EOK \<and> mb_contents (k_mb k' i) = mb_contents (k_mb k i) @ [v] \<or>
        e = - RT_EFULL \<and> timeout = 0 \<and> k_mb k' = k_mb k \<and> mb_entry (k_mb k i) = mb_size (k_mb k i)
      | MWait tmo d \<Rightarrow> tmo = timeout \<and> k_mb k' = k_mb k \<and> mb_entry (k_mb k i) = mb_size (k_mb k i) \<and>
          t \<in> set (tlist_of k' (mb_senders i)))"
proof (cases "mb_entry (k_mb k i) = mb_size (k_mb k i) \<and> timeout = 0")
  case True
  then show ?thesis using assms(1,2) by (simp add: rt_mb_send_wait_def)
next
  case False
  then have "rt_mb_send_wait i v timeout k = mb_send_loop i v timeout 0 (Some t) k"
    by (simp only: rt_mb_send_wait_def if_False assms(7))
  then show ?thesis using mb_send_loop_inv[OF assms(1-6), of v 0] by simp
qed

theorem mailbox_send_witness:
  "\<exists>k' r. rt_mb_send_wait 0 7 5 kernel_mail = Some (k', r) \<and> mb_inv k' \<and>
     (\<exists>e. r = MDone e \<and> e = RT_EOK \<and> mb_contents (k_mb k' 0) = [7])"
proof -
  have h: "(5 :: int) < 2 ^ 31 - 1" "mb_size (k_mb kernel_mail 0) \<noteq> 0" by (simp_all add: kernel_mail_facts)
  obtain k' r where kr: "rt_mb_send_wait 0 7 5 kernel_mail = Some (k', r)" "mb_inv k'"
    and c: "case r of MDone e \<Rightarrow> e = RT_EOK \<and> mb_contents (k_mb k' 0) = mb_contents (k_mb kernel_mail 0) @ [7] \<or>
        e = - RT_EFULL \<and> (5 :: int) = 0 \<and> k_mb k' = k_mb kernel_mail \<and> mb_entry (k_mb kernel_mail 0) = mb_size (k_mb kernel_mail 0)
      | MWait tmo d \<Rightarrow> tmo = 5 \<and> k_mb k' = k_mb kernel_mail \<and> mb_entry (k_mb kernel_mail 0) = mb_size (k_mb kernel_mail 0) \<and>
          2 \<in> set (tlist_of k' (mb_senders 0))"
    using mailbox_send[OF kernel_mail_facts(1,3,2,8) h kernel_mail_facts(9), of 7] by blast
  have "mb_entry (k_mb kernel_mail 0) \<noteq> mb_size (k_mb kernel_mail 0)" by (simp add: kernel_mail_def mb_fresh_def)
  then show ?thesis using kr c by (cases r) (auto simp: kernel_mail_facts)
qed

text \<open>Receiving takes the oldest mail, and from an empty mailbox fails at once or waits.\<close>

theorem mailbox_recv:
  assumes "kinv k" "mb_inv k" "can_block t k" "valid_flag (OMailBox i) k" "timeout < 2 ^ 31 - 1"
    "mb_size (k_mb k i) \<noteq> 0" "rt_thread_self k = Some t"
  shows "\<exists>k' r x. rt_mb_recv i timeout k = Some (k', r, x) \<and> kinv k' \<and> mb_inv k' \<and>
    (case r of MDone e \<Rightarrow> e = RT_EOK \<and> (\<exists>v. x = Some v \<and> mb_contents (k_mb k i) = v # mb_contents (k_mb k' i)) \<or>
        e = - RT_ETIMEOUT \<and> x = None \<and> timeout = 0 \<and> k_mb k' = k_mb k \<and> mb_contents (k_mb k i) = []
      | MWait tmo d \<Rightarrow> x = None \<and> tmo = timeout \<and> k_mb k' = k_mb k \<and> mb_contents (k_mb k i) = [] \<and>
          t \<in> set (tlist_of k' (mb_queue i)))"
proof (cases "mb_entry (k_mb k i) = 0 \<and> timeout = 0")
  case True
  then have "mb_contents (k_mb k i) = []" by (metis length_mb_contents length_0_conv unat_0)
  then show ?thesis using True assms(1,2) by (simp add: rt_mb_recv_def)
next
  case False
  then have "rt_mb_recv i timeout k = mb_recv_loop i timeout 0 (Some t) k"
    by (simp only: rt_mb_recv_def if_False assms(7))
  then show ?thesis using mb_recv_loop_inv[OF assms(1-6), of 0] by simp
qed

theorem mailbox_recv_witness:
  "\<exists>k' r x. rt_mb_recv 0 0 kernel_mail = Some (k', r, x) \<and> mb_inv k'"
proof -
  have "(0 :: int) < 2 ^ 31 - 1" "mb_size (k_mb kernel_mail 0) \<noteq> 0" by (simp_all add: kernel_mail_facts)
  from mailbox_recv[OF kernel_mail_facts(1,3,2,8) this kernel_mail_facts(9)] show ?thesis by blast
qed

section \<open>Message queues\<close>

text \<open>A send appends a copy of the message, an urgent one puts it in front; a message that is
  too long or a queue that is full changes nothing.\<close>

theorem mq_send_appends:
  assumes "kinv k" "mq_ok (k_mq k i)" "rt_current_thread k \<noteq> None" "sz \<noteq> 0" "unat sz \<le> length buf"
  shows "\<exists>k' e. rt_mq_send i buf sz k = Some (k', e) \<and> kinv k' \<and> mq_ok (k_mq k' i) \<and>
    (if unat (mq_msg_size (k_mq k i)) < unat sz then e = - RT_ERROR \<and> k' = k
     else if length (mq_contents (k_mq k i)) = unat (mq_max_msgs (k_mq k i)) then e = - RT_EFULL \<and> k' = k
     else e = RT_EOK \<and> (\<exists>msg. mq_contents (k_mq k' i) = mq_contents (k_mq k i) @ [msg] \<and>
       take (unat sz) msg = take (unat sz) buf))"
proof -
  obtain k' e where "rt_mq_send i buf sz k = Some (k', e)" "kinv k'" "mq_ok (k_mq k' i)"
    "mq_sent i (\<lambda>msg. mq_contents (k_mq k i) @ [msg]) sz buf k k' e"
    using mq_send_spec(1)[OF assms] by blast
  then show ?thesis
    by (intro exI[of _ k'] exI[of _ e]) (simp add: mq_sent_def mq_padded_def split: if_splits)
qed

theorem mq_send_appends_witness:
  "\<exists>k' e. rt_mq_send 0 [1, 2, 3] 3 kernel_mail = Some (k', e) \<and> e = RT_EOK \<and>
     (\<exists>msg. mq_contents (k_mq k' 0) = [msg] \<and> take 3 msg = [1, 2, 3])"
proof -
  have "rt_current_thread kernel_mail \<noteq> None" "(3 :: rt_uint32) \<noteq> 0" "unat (3 :: rt_uint32) \<le> length [1, 2, 3 :: rt_uint8]"
    using kernel_mail_facts(9) by (simp_all add: rt_thread_self_def)
  from mq_send_appends[OF kernel_mail_facts(1,6) this, of 0] show ?thesis by (auto simp: kernel_mail_facts)
qed

text \<open>A receive takes the first message of the queue; from an empty queue it fails at once for a
  timeout of 0 and otherwise waits.\<close>

theorem mq_recv_first:
  assumes "kinv k" "mq_ok (k_mq k i)" "can_block t k" "valid_flag (OMsgQueue i) k" "timeout < 2 ^ 31 - 1"
    "sz \<noteq> 0" "rt_thread_self k = Some t" "mq_contents (k_mq k i) = msg # msgs"
  shows "\<exists>k'. rt_mq_recv i sz timeout k =
      Some (k', MDone RT_EOK, Some (take (min (unat sz) (unat (mq_msg_size (k_mq k i)))) msg)) \<and>
    kinv k' \<and> mq_ok (k_mq k' i) \<and> mq_contents (k_mq k' i) = msgs"
proof -
  have "mq_entry (k_mq k i) \<noteq> 0"
  proof
    assume z: "mq_entry (k_mq k i) = 0"
    have "mq_walk 0 nx p = []" for nx p by (cases p) auto
    then show False using assms(8) by (simp add: mq_contents_def z)
  qed
  then have "rt_mq_recv i sz timeout k = mq_recv_loop i sz timeout 0 (Some t) k"
    using assms(6,7) by (simp add: rt_mq_recv_def RT_ASSERT_def)
  then show ?thesis using mq_recv_loop_spec[OF assms(1-5), of sz 0] assms(8) by auto
qed

text \<open>A reset empties the queue, gives every block back and wakes every waiter.\<close>

theorem mq_reset_empties:
  assumes "kinv k" "mq_ok (k_mq k i)" "rt_current_thread k \<noteq> None" "thread_state (k_thread k idle_thread) = RT_THREAD_READY"
  shows "\<exists>k'. rt_mq_control i (RT_IPC_CMD_RESET v) k = Some (k', RT_EOK) \<and> kinv k' \<and> mq_ok (k_mq k' i) \<and>
    mq_contents (k_mq k' i) = [] \<and> tlist_of k' (mq_queue i) = []"
  by (rule mq_reset_spec[OF assms])

text \<open>Message queue 0 with one message.\<close>

definition kernel_message :: kernel where
  "kernel_message = kernel_mail\<lparr>k_mq := (\<lambda>_.
     \<lparr>mq_msg_size = 4, mq_max_msgs = 2, mq_entry = 1, mq_head = Some 1, mq_tail = Some 1, mq_free = Some 0,
      mq_next = (\<lambda>_. None), mq_data = (\<lambda>_. [1, 2, 3, 4])\<rparr>)\<rparr>"

lemma kernel_message_facts:
  "kinv kernel_message" "mq_ok (k_mq kernel_message i)" "can_block 2 kernel_message" "valid_flag ob kernel_message"
  "rt_thread_self kernel_message = Some 2" "mq_contents (k_mq kernel_message i) = [[1, 2, 3, 4]]"
  "rt_current_thread kernel_message \<noteq> None" "thread_state (k_thread kernel_message idle_thread) = RT_THREAD_READY"
  "mq_msg_size (k_mq kernel_message i) = 4"
proof -
  have "{..<2 :: nat} = {0, 1}" by auto
  then have rep: "mq_rep (k_mq kernel_message i) [1] [0] []"
    by (simp add: mq_rep_def kernel_message_def insert_commute)
  show "mq_ok (k_mq kernel_message i)" unfolding mq_ok_def using rep by blast
  show "mq_contents (k_mq kernel_message i) = [[1, 2, 3, 4]]"
    using mq_contents_rep[OF rep] by (simp add: kernel_message_def)
  show cb: "can_block 2 kernel_message" using kernel_mail_facts(2) by (simp add: kernel_message_def can_block_def)
  show "rt_current_thread kernel_message \<noteq> None" "thread_state (k_thread kernel_message idle_thread) = RT_THREAD_READY"
    using can_blockD(1,5)[OF cb] by simp_all
  show "rt_thread_self kernel_message = Some 2" using can_blockD(1)[OF cb] by (simp add: rt_thread_self_def)
  show "valid_flag ob kernel_message" using kernel_mail_facts(8) by (simp add: kernel_message_def valid_flag_def obj_ipc_flag_def)
qed (simp_all add: kernel_message_def kernel_mail_facts)

theorem mq_recv_first_witness:
  "\<exists>k'. rt_mq_recv 0 3 0 kernel_message = Some (k', MDone RT_EOK, Some [1, 2, 3]) \<and> mq_contents (k_mq k' 0) = []"
proof -
  have "(0 :: int) < 2 ^ 31 - 1" "(3 :: rt_uint32) \<noteq> 0" by simp_all
  from mq_recv_first[OF kernel_message_facts(1-4) this kernel_message_facts(5,6), of 0] show ?thesis
    by (auto simp: kernel_message_facts)
qed

theorem mq_reset_empties_witness:
  "\<exists>k'. rt_mq_control 0 (RT_IPC_CMD_RESET 0) kernel_message = Some (k', RT_EOK) \<and> mq_contents (k_mq k' 0) = []"
  using mq_reset_empties[OF kernel_message_facts(1,2,7,8), of 0] by blast

end
