(* ===== verification/Rtt_Completion.thy ===== *)
theory Rtt_Completion
  imports Rtt_Ipc
begin

text \<open>
  Completions (\<^verbatim>\<open>rt-thread/components/drivers/src/completion.c\<close>): a flag a driver
  sets and one thread waits for. The flags are a map beside the kernel.
  \<open>rt_completion_wait_leave\<close> is what the waiter does when it runs again.
\<close>

section \<open>Model\<close>

abbreviation RT_COMPLETED :: rt_uint32 where "RT_COMPLETED \<equiv> 1"
abbreviation RT_UNCOMPLETED :: rt_uint32 where "RT_UNCOMPLETED \<equiv> 0"

type_synonym completions = "nat \<Rightarrow> rt_uint32"

definition rt_completion_init :: "nat \<Rightarrow> completions \<times> kernel \<Rightarrow> (completions \<times> kernel) option" where
  "rt_completion_init c = (\<lambda>(F, k). do {
     k \<leftarrow> rt_ipc_object_init (CompletionQ c) k;
     Some (F(c := RT_UNCOMPLETED), k)
   })"

definition rt_completion_wait ::
  "nat \<Rightarrow> int \<Rightarrow> completions \<times> kernel \<Rightarrow> ((completions \<times> kernel) \<times> outcome) option" where
  "rt_completion_wait c timeout = (\<lambda>(F, k).
     if F c \<noteq> RT_COMPLETED then do {
       RT_ASSERT (tlist_of k (CompletionQ c) = []);
       (if timeout = 0 then Some ((F, k), Done (- RT_ETIMEOUT))
        else do {
          t \<leftarrow> rt_thread_self k;
          RT_ASSERT (rt_interrupt_nest k = 0);
          let k = set_error t RT_EOK k;
          k \<leftarrow> ipc_wait (CompletionQ c) RT_IPC_FLAG_FIFO timeout t k;
          Some ((F, k), Wait)
        })
     }
     else Some ((F(c := RT_UNCOMPLETED), k), Done RT_EOK))"

definition rt_completion_wait_leave :: "nat \<Rightarrow> tid \<Rightarrow> completions \<times> kernel \<Rightarrow> (completions \<times> kernel) \<times> rt_err" where
  "rt_completion_wait_leave c t = (\<lambda>(F, k). ((F(c := RT_UNCOMPLETED), k), th_error (k_thread k t)))"

definition rt_completion_done :: "nat \<Rightarrow> completions \<times> kernel \<Rightarrow> (completions \<times> kernel) option" where
  "rt_completion_done c = (\<lambda>(F, k).
     if F c = RT_COMPLETED then Some (F, k)
     else map_option (\<lambda>k. (F(c := RT_COMPLETED), k)) (wake_waiter (CompletionQ c) k))"

lemmas completion_defs = rt_completion_init_def rt_completion_wait_def rt_completion_wait_leave_def rt_completion_done_def

declare completion_defs [op_defs]

section \<open>Waiting and completing\<close>

text \<open>At most one thread waits, and none while the flag is set.\<close>

definition completion_inv :: "nat \<Rightarrow> completions \<times> kernel \<Rightarrow> bool" where
  "completion_inv c = (\<lambda>(F, k). kinv k \<and> length (tlist_of k (CompletionQ c)) \<le> 1 \<and>
     (F c = RT_COMPLETED \<longrightarrow> tlist_of k (CompletionQ c) = []))"

lemma completion_done_spec:
  assumes inv: "completion_inv c (F, k)" and cur: "rt_current_thread k \<noteq> None"
  obtains k' where "rt_completion_done c (F, k) = Some (F(c := RT_COMPLETED), k')"
    "completion_inv c (F(c := RT_COMPLETED), k')" "tlist_of k' (CompletionQ c) = []"
    "k_thread k' = (case tlist_of k (CompletionQ c) of [] \<Rightarrow> k_thread k | t # _ \<Rightarrow> (k_thread k)(t := readied (k_thread k t)))"
    "rt_current_thread k' \<noteq> None" "keeps k k'"
    "tlist_of k (CompletionQ c) \<noteq> [] \<Longrightarrow> rt_scheduler_lock_nest k = 0 \<Longrightarrow> highest_runs k'"
proof (cases "F c = RT_COMPLETED")
  case True
  then have "F(c := RT_COMPLETED) = F" by auto
  then show ?thesis using that[of k] True inv cur by (simp add: rt_completion_done_def completion_inv_def)
next
  case False
  have k: "kinv k" and h: "wait_head (CompletionQ c)" using inv by (simp_all add: completion_inv_def)
  obtain k' where k': "wake_waiter (CompletionQ c) k = Some k'" "kinv k'" "keeps k k'"
    "tlist_of k' (CompletionQ c) = tl (tlist_of k (CompletionQ c))"
    "k_thread k' = (case tlist_of k (CompletionQ c) of [] \<Rightarrow> k_thread k | t # _ \<Rightarrow> (k_thread k)(t := readied (k_thread k t)))"
    "rt_current_thread k' \<noteq> None"
    "tlist_of k (CompletionQ c) \<noteq> [] \<Longrightarrow> rt_scheduler_lock_nest k = 0 \<Longrightarrow> highest_runs k'"
    by (rule wake_waiter_spec[OF k h cur]) (rule that; assumption)
  have q: "tlist_of k' (CompletionQ c) = []"
    using inv k'(4) by (cases "tlist_of k (CompletionQ c)") (auto simp: completion_inv_def)
  have run: "rt_completion_done c (F, k) = Some (F(c := RT_COMPLETED), k')"
    using False k'(1) by (simp add: rt_completion_done_def)
  have "completion_inv c (F(c := RT_COMPLETED), k')" using k'(2) q by (simp add: completion_inv_def)
  then show ?thesis by (rule that[OF run _ q k'(5) k'(6) k'(3) k'(7)])
qed

lemma completion_wait_set:
  "F c = RT_COMPLETED \<Longrightarrow> rt_completion_wait c timeout (F, k) = Some ((F(c := RT_UNCOMPLETED), k), Done RT_EOK)"
  by (simp add: rt_completion_wait_def)

lemma completion_wait_block:
  assumes inv: "completion_inv c (F, k)" and cb: "can_block t k" and off: "F c \<noteq> RT_COMPLETED"
    and free: "tlist_of k (CompletionQ c) = []" and tm: "timeout \<noteq> 0" "timeout < 2 ^ 31 - 1"
  obtains k' where "rt_completion_wait c timeout (F, k) = Some ((F, k'), Wait)" "completion_inv c (F, k')"
    "tlist_of k' (CompletionQ c) = [t]" "k_thread k' = (k_thread k)(t := suspended ((k_thread k t)\<lparr>th_error := RT_EOK\<rparr>))"
    "ls_on (k_rows k') (ThreadTimer t) = (if 0 < timeout then Some HardTimers else None)"
    "rt_current_thread k' \<noteq> None" "keeps k k'" "rt_scheduler_lock_nest k = 0 \<Longrightarrow> highest_runs k'"
proof -
  note c = can_blockD[OF cb]
  let ?k = "set_error t RT_EOK k"
  have inv0: "kinv ?k" using inv by (simp only: completion_inv_def prod.case kinv_set_error)
  have cb0: "can_block t ?k" by (simp only: can_block_set_error cb)
  have h: "wait_head (CompletionQ c)" by simp
  obtain k' where k': "ipc_wait (CompletionQ c) RT_IPC_FLAG_FIFO timeout t ?k = Some k'" "kinv k'" "keeps ?k k'"
    "tlist_of k' (CompletionQ c) = wait_list RT_IPC_FLAG_FIFO (\<lambda>s. current_priority (k_thread ?k s)) t (tlist_of ?k (CompletionQ c))"
    "k_thread k' = (k_thread ?k)(t := suspended (k_thread ?k t))"
    "ls_on (k_rows k') (ThreadTimer t) = (if 0 < timeout then Some HardTimers else None)"
    "rt_current_thread k' \<noteq> None" "rt_scheduler_lock_nest ?k = 0 \<Longrightarrow> highest_runs k'"
    by (rule block_spec[OF inv0 cb0 h disjI1[OF refl] tm(2)]) (rule that; assumption)
  have self: "rt_thread_self k = Some t" using c(1) by (simp add: rt_thread_self_def)
  have run: "rt_completion_wait c timeout (F, k) = Some ((F, k'), Wait)"
    using off free tm(1) self c(2) k'(1) by (simp add: rt_completion_wait_def RT_ASSERT_def del: upd_thread_def)
  have q: "tlist_of k' (CompletionQ c) = [t]" using free by (simp add: k'(4) wait_list_def)
  have ci: "completion_inv c (F, k')" using k'(2) q off by (simp add: completion_inv_def)
  show ?thesis
    by (rule that[OF run ci q _ k'(6,7)]) (use k'(3,5,8) in \<open>simp_all\<close>)
qed

end
