(* ===== verification/Rtt_Dataqueue.thy ===== *)
theory Rtt_Dataqueue
  imports Rtt_Ipc
begin

text \<open>
  Data queues (\<^verbatim>\<open>rt-thread/components/drivers/src/dataqueue.c\<close>): a ring of pointers
  with two 16-bit counters that are never reduced, two waiting lists and a callback. The callback
  is code outside the kernel, the argument \<open>ucb\<close> of the operations. \<open>push_loop\<close>
  and \<open>pop_loop\<close> are one time around the loops of the blocking calls.
\<close>

section \<open>Model\<close>

record rt_data_item =
  data_ptr :: rt_uint32
  data_size :: rt_uint32

record rt_data_queue =
  dq_size :: rt_uint16
  dq_lwm :: rt_uint16
  get_index :: rt_uint16
  put_index :: rt_uint16
  dq_queue :: "rt_data_item list"
  evt_notify :: "nat option"

datatype dq_event = RT_DATAQUEUE_EVENT_POP | RT_DATAQUEUE_EVENT_PUSH | RT_DATAQUEUE_EVENT_LWM

type_synonym dqs = "(nat \<Rightarrow> rt_data_queue) \<times> kernel"
type_synonym dq_callback = "nat \<Rightarrow> nat \<Rightarrow> dq_event \<Rightarrow> dqs \<Rightarrow> dqs option"

text \<open>\<open>pool\<close>: what \<^verbatim>\<open>rt_malloc\<close> returns for the ring.\<close>

definition rt_data_queue_init ::
  "nat \<Rightarrow> rt_uint16 \<Rightarrow> rt_uint16 \<Rightarrow> nat option \<Rightarrow> rt_data_item list option \<Rightarrow> dqs \<Rightarrow> (dqs \<times> rt_err) option" where
  "rt_data_queue_init q sz lwm cb pool = (\<lambda>(Q, k). do {
     let d = \<lparr>dq_size = sz, dq_lwm = lwm, get_index = 0, put_index = 0, dq_queue = [], evt_notify = cb\<rparr>;
     k \<leftarrow> rt_ipc_object_init (PushQ q) k;
     k \<leftarrow> rt_ipc_object_init (PopQ q) k;
     (case pool of
        None \<Rightarrow> Some ((Q(q := d), k), - RT_ENOMEM)
      | Some items \<Rightarrow> Some ((Q(q := d\<lparr>dq_queue := items\<rparr>), k), RT_EOK))
   })"

text \<open>The counters are promoted to \<^verbatim>\<open>int\<close> before they are subtracted.\<close>

definition dq_used :: "rt_data_queue \<Rightarrow> int" where
  "dq_used d = uint (put_index d) - uint (get_index d)"

definition dq_slot :: "rt_uint16 \<Rightarrow> rt_data_queue \<Rightarrow> nat option" where
  "dq_slot i d = (if dq_size d = 0 then None else Some (unat (i mod dq_size d)))"

definition dq_store :: "rt_data_item \<Rightarrow> rt_data_queue \<Rightarrow> rt_data_queue option" where
  "dq_store x d = do {
     j \<leftarrow> dq_slot (put_index d) d;
     Some (d\<lparr>dq_queue := (dq_queue d)[j := x], put_index := put_index d + 1\<rparr>)
   }"

definition dq_front :: "rt_data_queue \<Rightarrow> rt_data_item option" where
  "dq_front d = map_option (\<lambda>j. dq_queue d ! j) (dq_slot (get_index d) d)"

definition notify :: "dq_callback \<Rightarrow> nat \<Rightarrow> dq_event \<Rightarrow> dqs \<Rightarrow> dqs option" where
  "notify ucb q e s = (case evt_notify (fst s q) of None \<Rightarrow> Some s | Some f \<Rightarrow> ucb f q e s)"

definition push_loop ::
  "dq_callback \<Rightarrow> nat \<Rightarrow> rt_data_item \<Rightarrow> int \<Rightarrow> tid option \<Rightarrow> dqs \<Rightarrow> (dqs \<times> outcome) option" where
  "push_loop ucb q x timeout self = (\<lambda>(Q, k).
     if dq_used (Q q) = uint (dq_size (Q q)) then
       (if timeout = 0 then Some ((Q, k), Done (- RT_ETIMEOUT))
        else do {
          RT_ASSERT (rt_interrupt_nest k = 0);
          t \<leftarrow> self;
          let k = set_error t RT_EOK k;
          k \<leftarrow> ipc_wait (PushQ q) RT_IPC_FLAG_FIFO timeout t k;
          Some ((Q, k), Wait)
        })
     else do {
       d \<leftarrow> dq_store x (Q q);
       let Q = Q(q := d);
       (if tlist_of k (PopQ q) \<noteq> [] then do {
          k \<leftarrow> wake_waiter (PopQ q) k;
          Some ((Q, k), Done RT_EOK)
        }
        else do {
          s \<leftarrow> notify ucb q RT_DATAQUEUE_EVENT_PUSH (Q, k);
          Some (s, Done RT_EOK)
        })
     })"

definition rt_data_queue_push ::
  "dq_callback \<Rightarrow> nat \<Rightarrow> rt_data_item \<Rightarrow> int \<Rightarrow> dqs \<Rightarrow> (dqs \<times> outcome) option" where
  "rt_data_queue_push ucb q x timeout s = push_loop ucb q x timeout (rt_thread_self (snd s)) s"

text \<open>The timeout is not reduced by the time already waited.\<close>

definition rt_data_queue_push_leave ::
  "dq_callback \<Rightarrow> nat \<Rightarrow> rt_data_item \<Rightarrow> int \<Rightarrow> tid \<Rightarrow> dqs \<Rightarrow> (dqs \<times> outcome) option" where
  "rt_data_queue_push_leave ucb q x timeout t s =
     (if th_error (k_thread (snd s) t) \<noteq> RT_EOK then Some (s, Done (th_error (k_thread (snd s) t)))
      else push_loop ucb q x timeout (Some t) s)"

text \<open>The last component is what \<^verbatim>\<open>*data_ptr\<close> and \<^verbatim>\<open>*size\<close> receive.\<close>

definition pop_loop ::
  "dq_callback \<Rightarrow> nat \<Rightarrow> int \<Rightarrow> tid option \<Rightarrow> dqs \<Rightarrow> (dqs \<times> outcome \<times> rt_data_item option) option" where
  "pop_loop ucb q timeout self = (\<lambda>(Q, k).
     if get_index (Q q) = put_index (Q q) then
       (if timeout = 0 then Some ((Q, k), Done (- RT_ETIMEOUT), None)
        else do {
          RT_ASSERT (rt_interrupt_nest k = 0);
          t \<leftarrow> self;
          let k = set_error t RT_EOK k;
          k \<leftarrow> ipc_wait (PopQ q) RT_IPC_FLAG_FIFO timeout t k;
          Some ((Q, k), Wait, None)
        })
     else do {
       x \<leftarrow> dq_front (Q q);
       let Q = Q(q := (Q q)\<lparr>get_index := get_index (Q q) + 1\<rparr>);
       (if dq_used (Q q) \<le> uint (dq_lwm (Q q)) then do {
          k \<leftarrow> wake_waiter (PushQ q) k;
          s \<leftarrow> notify ucb q RT_DATAQUEUE_EVENT_LWM (Q, k);
          Some (s, Done RT_EOK, Some x)
        }
        else do {
          s \<leftarrow> notify ucb q RT_DATAQUEUE_EVENT_POP (Q, k);
          Some (s, Done RT_EOK, Some x)
        })
     })"

definition rt_data_queue_pop ::
  "dq_callback \<Rightarrow> nat \<Rightarrow> int \<Rightarrow> dqs \<Rightarrow> (dqs \<times> outcome \<times> rt_data_item option) option" where
  "rt_data_queue_pop ucb q timeout s = pop_loop ucb q timeout (rt_thread_self (snd s)) s"

definition rt_data_queue_pop_leave ::
  "dq_callback \<Rightarrow> nat \<Rightarrow> int \<Rightarrow> tid \<Rightarrow> dqs \<Rightarrow> (dqs \<times> outcome \<times> rt_data_item option) option" where
  "rt_data_queue_pop_leave ucb q timeout t s =
     (if th_error (k_thread (snd s) t) \<noteq> RT_EOK then Some (s, Done (th_error (k_thread (snd s) t)), None)
      else pop_loop ucb q timeout (Some t) s)"

definition rt_data_queue_peak :: "nat \<Rightarrow> dqs \<Rightarrow> (rt_err \<times> rt_data_item option) option" where
  "rt_data_queue_peak q s =
     (if get_index (fst s q) = put_index (fst s q) then Some (- RT_EEMPTY, None)
      else map_option (\<lambda>x. (RT_EOK, Some x)) (dq_front (fst s q)))"

text \<open>Only the waiters are affected; the items stay.\<close>

definition rt_data_queue_reset :: "nat \<Rightarrow> dqs \<Rightarrow> dqs option" where
  "rt_data_queue_reset q = (\<lambda>(Q, k). do {
     let k = rt_enter_critical k;
     k \<leftarrow> rt_ipc_list_resume_all (PopQ q) k;
     k \<leftarrow> rt_ipc_list_resume_all (PushQ q) k;
     k \<leftarrow> rt_exit_critical k;
     k \<leftarrow> rt_schedule k;
     Some (Q, k)
   })"

lemmas dq_defs = rt_data_queue_init_def dq_used_def dq_slot_def dq_store_def dq_front_def notify_def push_loop_def
  rt_data_queue_push_def rt_data_queue_push_leave_def pop_loop_def rt_data_queue_pop_def
  rt_data_queue_pop_leave_def rt_data_queue_peak_def rt_data_queue_reset_def

declare dq_defs [op_defs]

section \<open>The ring while the counters have not wrapped around\<close>

definition dq_ok :: "rt_data_queue \<Rightarrow> bool" where
  "dq_ok d \<longleftrightarrow> 0 < dq_size d \<and> length (dq_queue d) = unat (dq_size d) \<and>
     unat (get_index d) \<le> unat (put_index d) \<and> unat (put_index d) \<le> unat (get_index d) + unat (dq_size d)"

definition dq_contents :: "rt_data_queue \<Rightarrow> rt_data_item list" where
  "dq_contents d = map (\<lambda>j. dq_queue d ! (j mod unat (dq_size d))) [unat (get_index d)..<unat (put_index d)]"

lemma dq_used_ok: "dq_ok d \<Longrightarrow> dq_used d = int (length (dq_contents d))"
  by (simp add: dq_ok_def dq_used_def dq_contents_def of_nat_diff del: of_nat_unat) simp

lemma dq_full_iff: "dq_ok d \<Longrightarrow> dq_used d = uint (dq_size d) \<longleftrightarrow> length (dq_contents d) = unat (dq_size d)"
  by (simp only: dq_used_ok uint_nat of_nat_eq_iff)

lemma dq_empty_iff: "dq_ok d \<Longrightarrow> get_index d = put_index d \<longleftrightarrow> dq_contents d = []"
  by (auto simp: dq_ok_def dq_contents_def word_unat_eq_iff)

text \<open>Neighbouring counters below the size of the ring use different slots.\<close>

lemma mod_window:
  assumes "g \<le> (j::nat)" "j < p" "p < g + n" shows "j mod n \<noteq> p mod n"
proof
  assume "j mod n = p mod n"
  then have "n dvd p - j" using assms by (metis mod_eq_dvd_iff_nat less_imp_le_nat)
  moreover have "0 < p - j" "p - j < n" using assms by auto
  ultimately show False using nat_dvd_not_less by blast
qed

lemma dq_store_spec:
  assumes ok: "dq_ok d" and room: "length (dq_contents d) < unat (dq_size d)" and nowrap: "put_index d \<noteq> 0xffff"
  shows "\<exists>d'. dq_store x d = Some d' \<and> dq_ok d' \<and> dq_contents d' = dq_contents d @ [x] \<and> dq_size d' = dq_size d \<and>
    dq_lwm d' = dq_lwm d \<and> evt_notify d' = evt_notify d"
proof -
  let ?n = "unat (dq_size d)" and ?p = "unat (put_index d)" and ?g = "unat (get_index d)"
  have n: "0 < ?n" and gp: "?g \<le> ?p" and len: "length (dq_queue d) = ?n"
    using ok by (auto simp: dq_ok_def unat_gt_0)
  have pg: "?p < ?g + ?n" using room gp by (simp add: dq_contents_def)
  have "?p \<noteq> 65535" using nowrap by (auto simp: word_unat_eq_iff)
  then have p1: "unat (put_index d + 1) = Suc ?p"
    using unsigned_less[of "put_index d", where 'a = nat] by (simp add: unat_word_ariths)
  let ?d = "d\<lparr>dq_queue := (dq_queue d)[?p mod ?n := x], put_index := put_index d + 1\<rparr>"
  have st: "dq_store x d = Some ?d" using n by (auto simp: dq_store_def dq_slot_def unat_mod)
  have "(dq_queue d)[?p mod ?n := x] ! (j mod ?n) = dq_queue d ! (j mod ?n)" if "j \<in> set [?g..<?p]" for j
    using mod_window[of ?g j ?p ?n] that pg by simp
  then have "map (\<lambda>j. (dq_queue d)[?p mod ?n := x] ! (j mod ?n)) [?g..<?p] = dq_contents d"
    by (simp add: dq_contents_def)
  then have c: "dq_contents ?d = dq_contents d @ [x]"
    using gp len n by (simp add: dq_contents_def p1)
  have "dq_ok ?d" using ok pg gp by (simp add: dq_ok_def p1)
  then show ?thesis using st c by simp
qed

lemma dq_front_spec:
  assumes ok: "dq_ok d" and c: "dq_contents d = x # xs"
  shows "dq_front d = Some x" "dq_ok (d\<lparr>get_index := get_index d + 1\<rparr>)"
    "dq_contents (d\<lparr>get_index := get_index d + 1\<rparr>) = xs"
proof -
  let ?n = "unat (dq_size d)" and ?p = "unat (put_index d)" and ?g = "unat (get_index d)"
  have n: "0 < ?n" using ok by (auto simp: dq_ok_def unat_gt_0)
  have "length (dq_contents d) \<noteq> 0" using c by simp
  then have gp: "?g < ?p" by (simp add: dq_contents_def)
  have g1: "unat (get_index d + 1) = Suc ?g"
    using gp unsigned_less[of "put_index d", where 'a = nat] by (simp add: unat_word_ariths)
  have "x = dq_queue d ! (?g mod ?n)" using c gp by (simp add: dq_contents_def upt_conv_Cons)
  then show "dq_front d = Some x" using n by (auto simp: dq_front_def dq_slot_def unat_mod)
  show "dq_ok (d\<lparr>get_index := get_index d + 1\<rparr>)" using ok gp by (simp add: dq_ok_def g1)
  show "dq_contents (d\<lparr>get_index := get_index d + 1\<rparr>) = xs"
    using c gp by (simp add: dq_contents_def g1 upt_conv_Cons)
qed

section \<open>Pushing and popping\<close>

text \<open>A callback that, as documented, is told of the event and leaves the queue alone.\<close>

definition quiet :: "dq_callback \<Rightarrow> bool" where
  "quiet ucb \<longleftrightarrow> (\<forall>f q e s. ucb f q e s = Some s)"

lemma notify_quiet: "quiet ucb \<Longrightarrow> notify ucb q e s = Some s"
  by (cases s) (simp add: quiet_def notify_def split: option.split)

lemma dq_block:
  assumes inv: "kinv k" and cb: "can_block t k" and h: "wait_head h" and tm: "timeout < 2 ^ 31 - 1"
  obtains k' where "ipc_wait h RT_IPC_FLAG_FIFO timeout t (set_error t RT_EOK k) = Some k'" "kinv k'" "keeps k k'"
    "tlist_of k' h = tlist_of k h @ [t]"
    "\<And>g. wait_head g \<Longrightarrow> g \<noteq> h \<Longrightarrow> tlist_of k' g = tlist_of k g"
    "k_thread k' = (k_thread k)(t := suspended ((k_thread k t)\<lparr>th_error := RT_EOK\<rparr>))"
    "ls_on (k_rows k') (ThreadTimer t) = (if 0 < timeout then Some HardTimers else None)"
    "rt_current_thread k' \<noteq> None" "rt_scheduler_lock_nest k = 0 \<Longrightarrow> highest_runs k'"
proof -
  let ?k = "set_error t RT_EOK k"
  have inv0: "kinv ?k" by (rule kinv_set_error[OF inv])
  have cb0: "can_block t ?k" by (simp only: can_block_set_error cb)
  obtain k' where k': "ipc_wait h RT_IPC_FLAG_FIFO timeout t ?k = Some k'" "kinv k'" "keeps ?k k'"
    "tlist_of k' h = wait_list RT_IPC_FLAG_FIFO (\<lambda>s. current_priority (k_thread ?k s)) t (tlist_of ?k h)"
    "\<And>g. wait_head g \<Longrightarrow> g \<noteq> h \<Longrightarrow> tlist_of k' g = tlist_of ?k g"
    "k_thread k' = (k_thread ?k)(t := suspended (k_thread ?k t))"
    "ls_on (k_rows k') (ThreadTimer t) = (if 0 < timeout then Some HardTimers else None)"
    "rt_current_thread k' \<noteq> None" "rt_scheduler_lock_nest ?k = 0 \<Longrightarrow> highest_runs k'"
    by (rule block_spec[OF inv0 cb0 h disjI1[OF refl] tm]) (rule that; assumption)
  show ?thesis
    by (rule that[OF k'(1,2) _ _ _ _ k'(7,8)]) (use k'(3,5,9) in \<open>simp_all add: k'(4,6) wait_list_def\<close>)
qed

text \<open>A push while there is room, and no wrap around: the item is stored, and either the first
  waiting receiver is woken or the callback is told.\<close>

lemma push_room:
  assumes inv: "kinv k" and cb: "quiet ucb" and ok: "dq_ok (Q q)" and room: "length (dq_contents (Q q)) < unat (dq_size (Q q))"
    and nowrap: "put_index (Q q) \<noteq> 0xffff" and cur: "rt_current_thread k \<noteq> None"
  obtains d k' where "push_loop ucb q x timeout self (Q, k) = Some ((Q(q := d), k'), Done RT_EOK)" "dq_ok d"
    "dq_contents d = dq_contents (Q q) @ [x]" "dq_size d = dq_size (Q q)" "kinv k'" "keeps k k'" "tlist_of k' (PopQ q) = tl (tlist_of k (PopQ q))"
    "\<And>g. wait_head g \<Longrightarrow> g \<noteq> PopQ q \<Longrightarrow> tlist_of k' g = tlist_of k g"
    "k_thread k' = (case tlist_of k (PopQ q) of [] \<Rightarrow> k_thread k | t # _ \<Rightarrow> (k_thread k)(t := readied (k_thread k t)))"
    "rt_current_thread k' \<noteq> None"
proof -
  obtain d where d: "dq_store x (Q q) = Some d" "dq_ok d" "dq_contents d = dq_contents (Q q) @ [x]" "dq_size d = dq_size (Q q)"
    using dq_store_spec[OF ok room nowrap] by blast
  have h: "wait_head (PopQ q)" by simp
  obtain k' where k': "wake_waiter (PopQ q) k = Some k'" "kinv k'" "keeps k k'"
    "tlist_of k' (PopQ q) = tl (tlist_of k (PopQ q))"
    "\<And>g. wait_head g \<Longrightarrow> g \<noteq> PopQ q \<Longrightarrow> tlist_of k' g = tlist_of k g"
    "k_thread k' = (case tlist_of k (PopQ q) of [] \<Rightarrow> k_thread k | t # _ \<Rightarrow> (k_thread k)(t := readied (k_thread k t)))"
    "rt_current_thread k' \<noteq> None"
    by (rule wake_waiter_spec[OF inv h cur]) (rule that; assumption)
  have nf: "dq_used (Q q) \<noteq> uint (dq_size (Q q))" using room dq_full_iff[OF ok] by simp
  have "push_loop ucb q x timeout self (Q, k) = Some ((Q(q := d), k'), Done RT_EOK)"
  proof (cases "tlist_of k (PopQ q) = []")
    case True
    then have "k' = k" using k'(1) by (simp add: wake_waiter_def)
    then show ?thesis using True nf d(1) notify_quiet[OF cb] by (simp add: push_loop_def)
  next
    case False
    then show ?thesis using nf d(1) k'(1) by (simp add: push_loop_def)
  qed
  then show ?thesis by (rule that[OF _ d(2-4) k'(2-7)])
qed

lemma pop_item:
  assumes inv: "kinv k" and cb: "quiet ucb" and ok: "dq_ok (Q q)" and c: "dq_contents (Q q) = x # xs"
    and cur: "rt_current_thread k \<noteq> None"
  obtains d k' where "pop_loop ucb q timeout self (Q, k) = Some ((Q(q := d), k'), Done RT_EOK, Some x)" "dq_ok d"
    "dq_contents d = xs" "dq_size d = dq_size (Q q)" "kinv k'" "keeps k k'"
    "tlist_of k' (PushQ q) = (if length xs \<le> unat (dq_lwm (Q q)) then tl (tlist_of k (PushQ q)) else tlist_of k (PushQ q))"
    "\<And>g. wait_head g \<Longrightarrow> g \<noteq> PushQ q \<Longrightarrow> tlist_of k' g = tlist_of k g" "rt_current_thread k' \<noteq> None"
proof -
  let ?d = "(Q q)\<lparr>get_index := get_index (Q q) + 1\<rparr>"
  note f = dq_front_spec[OF ok c]
  have ne: "get_index (Q q) \<noteq> put_index (Q q)" using dq_empty_iff[OF ok] c by simp
  have u: "dq_used ?d \<le> uint (dq_lwm (Q q)) \<longleftrightarrow> length xs \<le> unat (dq_lwm (Q q))"
    by (simp only: dq_used_ok[OF f(2)] f(3) uint_nat of_nat_le_iff)
  have h: "wait_head (PushQ q)" by simp
  obtain k' where k': "wake_waiter (PushQ q) k = Some k'" "kinv k'" "keeps k k'"
    "tlist_of k' (PushQ q) = tl (tlist_of k (PushQ q))"
    "\<And>g. wait_head g \<Longrightarrow> g \<noteq> PushQ q \<Longrightarrow> tlist_of k' g = tlist_of k g"
    "rt_current_thread k' \<noteq> None"
    by (rule wake_waiter_spec[OF inv h cur]) (rule that; assumption)
  show ?thesis
  proof (cases "length xs \<le> unat (dq_lwm (Q q))")
    case True
    then have "pop_loop ucb q timeout self (Q, k) = Some ((Q(q := ?d), k'), Done RT_EOK, Some x)"
      using ne f(1) u k'(1) notify_quiet[OF cb] by (simp add: pop_loop_def)
    then show ?thesis by (rule that[OF _ f(2,3) _ k'(2,3) _ k'(5,6)]) (use True k'(4) in simp_all)
  next
    case False
    then have "pop_loop ucb q timeout self (Q, k) = Some ((Q(q := ?d), k), Done RT_EOK, Some x)"
      using ne f(1) u notify_quiet[OF cb] by (simp add: pop_loop_def)
    then show ?thesis by (rule that[OF _ f(2,3) _ inv _ _ _ cur]) (use False in simp_all)
  qed
qed

text \<open>A push into a full queue and a pop from an empty one wait, in arrival order.\<close>

lemma push_full:
  assumes inv: "kinv k" and cb: "can_block t k" and ok: "dq_ok (Q q)" and full: "length (dq_contents (Q q)) = unat (dq_size (Q q))"
    and tm: "timeout < 2 ^ 31 - 1"
  shows "push_loop ucb q x 0 (Some t) (Q, k) = Some ((Q, k), Done (- RT_ETIMEOUT))"
    "timeout \<noteq> 0 \<Longrightarrow> \<exists>k'. push_loop ucb q x timeout (Some t) (Q, k) = Some ((Q, k'), Wait) \<and> kinv k' \<and> keeps k k' \<and>
       tlist_of k' (PushQ q) = tlist_of k (PushQ q) @ [t]"
proof -
  have f: "dq_used (Q q) = uint (dq_size (Q q))" using full dq_full_iff[OF ok] by simp
  then show "push_loop ucb q x 0 (Some t) (Q, k) = Some ((Q, k), Done (- RT_ETIMEOUT))" by (simp add: push_loop_def)
  have h: "wait_head (PushQ q)" by simp
  show "timeout \<noteq> 0 \<Longrightarrow> \<exists>k'. push_loop ucb q x timeout (Some t) (Q, k) = Some ((Q, k'), Wait) \<and> kinv k' \<and> keeps k k' \<and>
       tlist_of k' (PushQ q) = tlist_of k (PushQ q) @ [t]"
  proof -
    assume "timeout \<noteq> 0"
    obtain k' where "ipc_wait (PushQ q) RT_IPC_FLAG_FIFO timeout t (set_error t RT_EOK k) = Some k'" "kinv k'" "keeps k k'"
      "tlist_of k' (PushQ q) = tlist_of k (PushQ q) @ [t]"
      by (rule dq_block[OF inv cb h tm]) (rule that; assumption)
    then show ?thesis
      using f can_blockD(2)[OF cb] \<open>timeout \<noteq> 0\<close> by (simp add: push_loop_def RT_ASSERT_def del: upd_thread_def)
  qed
qed

lemma pop_empty:
  assumes inv: "kinv k" and cb: "can_block t k" and ok: "dq_ok (Q q)" and empty: "dq_contents (Q q) = []"
    and tm: "timeout < 2 ^ 31 - 1"
  shows "pop_loop ucb q 0 (Some t) (Q, k) = Some ((Q, k), Done (- RT_ETIMEOUT), None)"
    "timeout \<noteq> 0 \<Longrightarrow> \<exists>k'. pop_loop ucb q timeout (Some t) (Q, k) = Some ((Q, k'), Wait, None) \<and> kinv k' \<and> keeps k k' \<and>
       tlist_of k' (PopQ q) = tlist_of k (PopQ q) @ [t]"
proof -
  have f: "get_index (Q q) = put_index (Q q)" using empty dq_empty_iff[OF ok] by simp
  then show "pop_loop ucb q 0 (Some t) (Q, k) = Some ((Q, k), Done (- RT_ETIMEOUT), None)" by (simp add: pop_loop_def)
  have h: "wait_head (PopQ q)" by simp
  show "timeout \<noteq> 0 \<Longrightarrow> \<exists>k'. pop_loop ucb q timeout (Some t) (Q, k) = Some ((Q, k'), Wait, None) \<and> kinv k' \<and> keeps k k' \<and>
       tlist_of k' (PopQ q) = tlist_of k (PopQ q) @ [t]"
  proof -
    assume "timeout \<noteq> 0"
    obtain k' where "ipc_wait (PopQ q) RT_IPC_FLAG_FIFO timeout t (set_error t RT_EOK k) = Some k'" "kinv k'" "keeps k k'"
      "tlist_of k' (PopQ q) = tlist_of k (PopQ q) @ [t]"
      by (rule dq_block[OF inv cb h tm]) (rule that; assumption)
    then show ?thesis
      using f can_blockD(2)[OF cb] \<open>timeout \<noteq> 0\<close> by (simp add: pop_loop_def RT_ASSERT_def del: upd_thread_def)
  qed
qed

text \<open>After the put counter has wrapped around the queue is never full: with the counters at
  \<open>65536 - n\<close> and \<open>0\<close> all \<open>n\<close> slots hold items that have not been
  read, and the next push overwrites the oldest.\<close>

lemma push_wrapped:
  assumes put: "put_index (Q q) = 0" and n: "dq_size (Q q) \<noteq> 0" and get: "get_index (Q q) = 0 - dq_size (Q q)"
    and none: "tlist_of k (PopQ q) = []" "evt_notify (Q q) = None"
  shows "push_loop ucb q x timeout self (Q, k) =
    Some ((Q(q := (Q q)\<lparr>dq_queue := (dq_queue (Q q))[0 := x], put_index := 1\<rparr>), k), Done RT_EOK)"
proof -
  have "uint (get_index (Q q)) \<noteq> 0" using n get by (simp add: uint_0_iff)
  moreover have "dq_used (Q q) = - uint (get_index (Q q))" using put by (simp add: dq_used_def)
  ultimately have "dq_used (Q q) \<noteq> uint (dq_size (Q q))"
    using uint_ge_0[of "get_index (Q q)"] uint_ge_0[of "dq_size (Q q)"] by linarith
  then show ?thesis
    using put n none by (simp add: push_loop_def dq_store_def dq_slot_def notify_def)
qed

lemma data_queue_reset_spec:
  assumes inv: "kinv k" and cur: "rt_current_thread k \<noteq> None" and idle: "thread_state (k_thread k idle_thread) = RT_THREAD_READY"
    and lock: "rt_scheduler_lock_nest k = 0"
  shows "\<exists>k'. rt_data_queue_reset q (Q, k) = Some (Q, k') \<and> kinv k' \<and> tlist_of k' (PopQ q) = [] \<and> tlist_of k' (PushQ q) = [] \<and>
    (\<forall>t \<in> set (tlist_of k (PopQ q)) \<union> set (tlist_of k (PushQ q)).
       thread_state (k_thread k' t) = RT_THREAD_READY \<and> th_error (k_thread k' t) = - RT_ERROR)"
proof -
  let ?k = "rt_enter_critical k"
  have k: "kinv ?k" using inv by (simp add: rt_enter_critical_def)
  have h: "wait_head (PopQ q)" "wait_head (PushQ q)" by simp_all
  obtain k1 where k1: "rt_ipc_list_resume_all (PopQ q) ?k = Some k1" "kinv k1" "keeps ?k k1" "tlist_of k1 (PopQ q) = []"
    "tlist_of k1 (PushQ q) = tlist_of ?k (PushQ q)"
    "\<forall>t \<in> set (tlist_of ?k (PopQ q)). thread_state (k_thread k1 t) = RT_THREAD_READY \<and> th_error (k_thread k1 t) = - RT_ERROR"
    "\<forall>t. t \<notin> set (tlist_of ?k (PopQ q)) \<longrightarrow> k_thread k1 t = k_thread ?k t" "rt_current_thread k1 = rt_current_thread ?k"
    using resume_all_spec[OF k h(1)] h(2) by auto
  obtain k2 where k2: "rt_ipc_list_resume_all (PushQ q) k1 = Some k2" "kinv k2" "keeps k1 k2" "tlist_of k2 (PushQ q) = []"
    "tlist_of k2 (PopQ q) = tlist_of k1 (PopQ q)"
    "\<forall>t \<in> set (tlist_of k1 (PushQ q)). thread_state (k_thread k2 t) = RT_THREAD_READY \<and> th_error (k_thread k2 t) = - RT_ERROR"
    "\<forall>t. t \<notin> set (tlist_of k1 (PushQ q)) \<longrightarrow> k_thread k2 t = k_thread k1 t" "rt_current_thread k2 = rt_current_thread k1"
    using resume_all_spec[OF k1(2) h(2)] h(1) by auto
  have q0: "tlist_of ?k g = tlist_of k g" "k_thread ?k = k_thread k" "rt_current_thread ?k = rt_current_thread k"
    "rt_scheduler_lock_nest ?k = 1" for g
    using lock by (simp_all add: rt_enter_critical_def)
  have lock2: "rt_scheduler_lock_nest k2 = 1" using k1(3) k2(3) q0(4) by (simp add: keeps_def)
  have r2: "thread_state (k_thread k2 t) = RT_THREAD_READY \<and> th_error (k_thread k2 t) = - RT_ERROR"
    if "t \<in> set (tlist_of k (PopQ q)) \<union> set (tlist_of k (PushQ q))" for t
    using that k1(5,6) k2(6,7) q0(1) by (cases "t \<in> set (tlist_of k (PushQ q))") auto
  have idle2: "thread_state (k_thread k2 idle_thread) = RT_THREAD_READY"
    using idle k1(6,7) k2(6,7) q0(1,2) by (metis k1(5))
  let ?k3 = "k2\<lparr>rt_scheduler_lock_nest := 0\<rparr>"
  have inv3: "kinv ?k3" using k2(2) by simp
  have idle3: "thread_state (k_thread ?k3 idle_thread) = RT_THREAD_READY" "rt_current_thread ?k3 \<noteq> None"
    using idle2 cur k1(8) k2(8) q0(3) by simp_all
  obtain k4 where k4: "rt_schedule ?k3 = Some k4" "kinv k4" "rt_current_thread k4 \<noteq> None" "k_tlist k4 = k_tlist ?k3"
    "k_thread k4 = k_thread ?k3"
    by (rule schedule_ready[OF inv3 idle3]) (rule that; assumption)
  have idle4: "thread_state (k_thread k4 idle_thread) = RT_THREAD_READY" using idle3(1) k4(5) by simp
  obtain k5 where k5: "rt_schedule k4 = Some k5" "kinv k5" "k_tlist k5 = k_tlist k4" "k_thread k5 = k_thread k4"
    by (rule schedule_ready[OF k4(2) idle4 k4(3)]) (rule that; assumption)
  have ex: "rt_exit_critical k2 = Some k4" using lock2 k4(1) by (simp add: rt_exit_critical_def Let_def)
  have "rt_data_queue_reset q (Q, k) = Some (Q, k5)"
    using k1(1) k2(1) ex k5(1) by (simp add: rt_data_queue_reset_def Let_def)
  then show ?thesis using k5(2-4) k4(4,5) k2(4,5) k1(4) r2 by (intro exI[of _ k5]) simp
qed

end
