(* ===== verification/Rtt_Workqueue.thy ===== *)
theory Rtt_Workqueue
  imports Rtt_Sem
begin

text \<open>
  Work queues (\<^verbatim>\<open>rt-thread/components/drivers/src/workqueue.c\<close>): a thread that
  runs the works linked to its queue. The work functions are code outside the kernel, the
  argument \<open>work_func\<close>. The thread's endless loop is cut where it can be switched away:
  \<open>workqueue_enter\<close> checks the list and may suspend, \<open>workqueue_work\<close> is the
  rest of one round, \<open>workqueue_thread\<close> puts them together.
\<close>

section \<open>Model\<close>

record workqueues =
  work_list :: "(nat, nat) lstore"
  work_current :: "nat \<Rightarrow> nat option"
  wq_sem :: "nat \<Rightarrow> nat"
  work_thread :: "nat \<Rightarrow> tid"

type_synonym wqs = "workqueues \<times> kernel"

definition upd_current :: "nat \<Rightarrow> nat option \<Rightarrow> workqueues \<Rightarrow> workqueues" where
  "upd_current q w W = W\<lparr>work_current := (work_current W)(q := w)\<rparr>"

definition work_remove :: "nat \<Rightarrow> workqueues \<Rightarrow> workqueues" where
  "work_remove w W = W\<lparr>work_list := ls_remove w (work_list W)\<rparr>"

text \<open>A work that is linked when it is initialised stays on the list with broken links.\<close>

definition rt_work_init :: "nat \<Rightarrow> wqs \<Rightarrow> wqs option" where
  "rt_work_init w s = (if ls_on (work_list (fst s)) w = None then Some s else None)"

partial_function (option) work_ack :: "nat \<Rightarrow> kernel \<Rightarrow> (kernel \<times> rt_err) option" where
  "work_ack i k = Option.bind (rt_sem_trytake i k) (\<lambda>(k, r).
     case r of
       Done e \<Rightarrow>
         if e = - RT_ETIMEOUT then Option.bind (rt_sem_release i k) (\<lambda>(k, _). work_ack i k)
         else if e = RT_EOK then Some (k, RT_EOK)
         else Some (k, - RT_ERROR)
     | Wait \<Rightarrow> None)"

definition workqueue_work_completion :: "nat \<Rightarrow> wqs \<Rightarrow> (wqs \<times> rt_err) option" where
  "workqueue_work_completion q = (\<lambda>(W, k). do {
     (k, result) \<leftarrow> work_ack (wq_sem W q) (rt_enter_critical k);
     k \<leftarrow> rt_exit_critical k;
     Some ((W, k), result)
   })"

definition workqueue_enter :: "nat \<Rightarrow> wqs \<Rightarrow> (wqs \<times> outcome) option" where
  "workqueue_enter q = (\<lambda>(W, k).
     if ls_nodes (work_list W) q = [] then do {
       t \<leftarrow> rt_thread_self k;
       (k, _) \<leftarrow> rt_thread_suspend t k;
       k \<leftarrow> rt_schedule k;
       Some ((W, k), Wait)
     }
     else Some ((W, k), Done RT_EOK))"

text \<open>\<open>None\<close>: the list is empty, and its head is used as a work.\<close>

definition work_take :: "nat \<Rightarrow> workqueues \<Rightarrow> (nat \<times> workqueues) option" where
  "work_take q W =
     (case ls_nodes (work_list W) q of
        [] \<Rightarrow> None
      | w # _ \<Rightarrow> Some (w, upd_current q (Some w) (work_remove w W)))"

definition workqueue_work :: "(nat \<Rightarrow> wqs \<Rightarrow> wqs option) \<Rightarrow> nat \<Rightarrow> wqs \<Rightarrow> wqs option" where
  "workqueue_work work_func q = (\<lambda>(W, k). do {
     (w, W) \<leftarrow> work_take q W;
     (W, k) \<leftarrow> work_func w (W, k);
     map_option fst (workqueue_work_completion q (upd_current q None W, k))
   })"

text \<open>The thread goes on behind the suspension where it left off: the list is not looked at again.\<close>

datatype worker_pc = LoopTop | AfterWait

fun workqueue_thread ::
  "(nat \<Rightarrow> wqs \<Rightarrow> wqs option) \<Rightarrow> nat \<Rightarrow> worker_pc \<Rightarrow> wqs \<Rightarrow> (wqs \<times> worker_pc) option" where
  "workqueue_thread work_func q LoopTop s = do {
     (s, r) \<leftarrow> workqueue_enter q s;
     (case r of
        Wait \<Rightarrow> Some (s, AfterWait)
      | Done _ \<Rightarrow> map_option (\<lambda>s. (s, LoopTop)) (workqueue_work work_func q s))
   }"
| "workqueue_thread work_func q AfterWait s = map_option (\<lambda>s. (s, LoopTop)) (workqueue_work work_func q s)"

text \<open>\<open>mem\<close>: the queue and semaphore \<^verbatim>\<open>RT_KERNEL_MALLOC\<close> gives;
  \<open>thmem\<close>, \<open>stack\<close>: as in \<open>rt_thread_create\<close>.\<close>

definition rt_workqueue_create ::
  "rt_uint8 list \<Rightarrow> rt_uint8 \<Rightarrow> (nat \<times> nat) option \<Rightarrow> tid option \<Rightarrow> bool \<Rightarrow> wqs \<Rightarrow> (wqs \<times> nat option) option" where
  "rt_workqueue_create nm priority mem thmem stack = (\<lambda>(W, k).
     (case mem of
        None \<Rightarrow> Some ((W, k), None)
      | Some (q, i) \<Rightarrow> do {
          RT_ASSERT (ls_nodes (work_list W) q = []);
          let W = upd_current q None (W\<lparr>wq_sem := (wq_sem W)(q := i)\<rparr>);
          (k, _) \<leftarrow> rt_sem_init i [119, 113, 117, 101, 117, 101] 0 RT_IPC_FLAG_FIFO k;
          (k, t) \<leftarrow> rt_thread_create nm priority 10 thmem stack k;
          (case t of
             None \<Rightarrow> Some ((W, k), None)
           | Some t \<Rightarrow> do {
               (k, _) \<leftarrow> rt_thread_startup t k;
               Some ((W\<lparr>work_thread := (work_thread W)(q := t)\<rparr>, k), Some q)
             })
        }))"

definition rt_workqueue_destroy :: "nat \<Rightarrow> wqs \<Rightarrow> (wqs \<times> rt_err) option" where
  "rt_workqueue_destroy q = (\<lambda>(W, k). do {
     (k, _) \<leftarrow> rt_thread_delete (work_thread W q) k;
     Some ((W, k), RT_EOK)
   })"

text \<open>Linking a work behind the last one.\<close>

definition work_append :: "nat \<Rightarrow> nat \<Rightarrow> workqueues \<Rightarrow> workqueues option" where
  "work_append q w W =
     map_option (\<lambda>L. W\<lparr>work_list := L\<rparr>) (ls_insert_before_head q w (ls_remove w (work_list W)))"

definition rt_workqueue_dowork :: "nat \<Rightarrow> nat \<Rightarrow> wqs \<Rightarrow> (wqs \<times> rt_err) option" where
  "rt_workqueue_dowork q w = (\<lambda>(W, k).
     if work_current W q = Some w then Some ((W, k), - RT_EBUSY)
     else do {
       W \<leftarrow> work_append q w W;
       (if work_current W q = None then do {
          (k, _) \<leftarrow> rt_thread_resume (work_thread W q) k;
          k \<leftarrow> rt_schedule k;
          Some ((W, k), RT_EOK)
        }
        else Some ((W, k), RT_EOK))
     })"

definition rt_workqueue_critical_work :: "nat \<Rightarrow> nat \<Rightarrow> wqs \<Rightarrow> (wqs \<times> rt_err) option" where
  "rt_workqueue_critical_work q w = (\<lambda>(W, k).
     if work_current W q = Some w then Some ((W, k), - RT_EBUSY)
     else do {
       W \<leftarrow> work_append q w W;
       (if work_current W q = None then do {
          (k, _) \<leftarrow> rt_thread_resume (work_thread W q) k;
          k \<leftarrow> rt_schedule k;
          Some ((W, k), RT_EOK)
        }
        else Some ((W, k), RT_EOK))
     })"

definition rt_workqueue_cancel_work :: "nat \<Rightarrow> nat \<Rightarrow> wqs \<Rightarrow> wqs \<times> rt_err" where
  "rt_workqueue_cancel_work q w = (\<lambda>(W, k).
     if work_current W q = Some w then ((W, k), - RT_EBUSY)
     else ((work_remove w W, k), RT_EOK))"

text \<open>The result of \<^verbatim>\<open>rt_sem_take\<close> is not looked at.\<close>

definition rt_workqueue_cancel_work_sync :: "nat \<Rightarrow> nat \<Rightarrow> wqs \<Rightarrow> (wqs \<times> outcome) option" where
  "rt_workqueue_cancel_work_sync q w = (\<lambda>(W, k).
     if work_current W q = Some w then do {
       (k, r) \<leftarrow> rt_sem_take (wq_sem W q) (- 1) k;
       Some ((W, k), case r of Done _ \<Rightarrow> Done RT_EOK | Wait \<Rightarrow> Wait)
     }
     else Some ((work_remove w W, k), Done RT_EOK))"

definition rt_workqueue_cancel_all_work :: "nat \<Rightarrow> wqs \<Rightarrow> (wqs \<times> rt_err) option" where
  "rt_workqueue_cancel_all_work q = (\<lambda>(W, k). do {
     let k = rt_enter_critical k;
     let W = fold work_remove (ls_nodes (work_list W) q) W;
     k \<leftarrow> rt_exit_critical k;
     Some ((W, k), RT_EOK)
   })"

lemmas wq_defs = upd_current_def work_remove_def rt_work_init_def workqueue_work_completion_def workqueue_enter_def
  work_take_def workqueue_work_def rt_workqueue_create_def rt_workqueue_destroy_def work_append_def
  rt_workqueue_dowork_def rt_workqueue_critical_work_def rt_workqueue_cancel_work_def
  rt_workqueue_cancel_work_sync_def rt_workqueue_cancel_all_work_def

declare wq_defs [op_defs]

section \<open>The works\<close>

abbreviation works :: "nat \<Rightarrow> workqueues \<Rightarrow> nat list" where
  "works q W \<equiv> ls_nodes (work_list W) q"

text \<open>Works leave in the order they came; one that is submitted again moves to the end.\<close>

lemma work_append_spec:
  assumes wf: "ls_wf (work_list W)"
  shows "\<exists>W'. work_append q w W = Some W' \<and> ls_wf (work_list W') \<and> works q W' = remove1 w (works q W) @ [w] \<and>
    (\<forall>p. p \<noteq> q \<longrightarrow> works p W' = remove1 w (works p W)) \<and> work_current W' = work_current W \<and>
    work_thread W' = work_thread W \<and> wq_sem W' = wq_sem W"
proof -
  let ?L = "ls_remove w (work_list W)"
  have wf1: "ls_wf ?L" by (rule ls_remove_wf[OF wf])
  obtain L where L: "ls_insert_before_head q w ?L = Some L"
    "L = \<lparr>ls_nodes = (ls_nodes ?L)(q := ls_nodes ?L q @ [w]), ls_on = (ls_on ?L)(w \<mapsto> q)\<rparr>"
    by (simp add: ls_insert_before_head_def)
  have "ls_wf L" by (rule ls_insert_before_head_wf[OF wf1 L(1)])
  then show ?thesis by (simp add: work_append_def L ls_nodes_remove[OF wf])
qed

lemma work_take_spec:
  assumes wf: "ls_wf (work_list W)" and q: "works q W = w # ws"
  shows "\<exists>W'. work_take q W = Some (w, W') \<and> ls_wf (work_list W') \<and> works q W' = ws \<and> work_current W' q = Some w \<and>
    (\<forall>p. p \<noteq> q \<longrightarrow> works p W' = works p W)"
proof -
  have d: "distinct (works q W)" by (rule ls_wf_distinct[OF wf])
  have "w \<notin> set (works p W)" if "p \<noteq> q" for p
    using ls_wf_head_unique[OF wf, of w q p] that q by auto
  then show ?thesis
    using q d ls_remove_wf[OF wf, of w]
    by (simp add: work_take_def upd_current_def work_remove_def ls_nodes_remove[OF wf] remove1_idem)
qed

lemma cancel_all_works:
  assumes "ls_wf (work_list W)"
  shows "ls_wf (work_list (fold work_remove ws W)) \<and> works q (fold work_remove ws W) = filter (\<lambda>w. w \<notin> set ws) (works q W)"
  using assms
proof (induction ws arbitrary: W)
  case (Cons w ws)
  have wf: "ls_wf (work_list (work_remove w W))" using ls_remove_wf[OF Cons.prems] by (simp add: work_remove_def)
  have "works q (work_remove w W) = filter (\<lambda>x. x \<noteq> w) (works q W)"
    using ls_wf_distinct[OF Cons.prems, of q]
    by (simp add: work_remove_def ls_nodes_remove[OF Cons.prems] distinct_remove1_removeAll removeAll_filter_not_eq)
      (auto intro: filter_cong)
  then show ?case using Cons.IH[OF wf] by (auto intro!: filter_cong)
qed simp

section \<open>Acknowledging a finished work\<close>

text \<open>Every thread that waits in \<^verbatim>\<open>rt_workqueue_cancel_work_sync\<close> is woken, the loop
  ends, and the semaphore is 0 again.\<close>

lemma work_ack_spec:
  assumes "kinv k" "k_sem k i = 0" "rt_current_thread k \<noteq> None"
  shows "\<exists>k'. work_ack i k = Some (k', RT_EOK) \<and> kinv k' \<and> k_sem k' = k_sem k \<and> tlist_of k' (sem_queue i) = [] \<and>
    (\<forall>t. k_thread k' t = (if t \<in> set (tlist_of k (sem_queue i)) then readied (k_thread k t) else k_thread k t)) \<and>
    rt_current_thread k' \<noteq> None \<and> rt_scheduler_lock_nest k' = rt_scheduler_lock_nest k"
  using assms
proof (induction "tlist_of k (sem_queue i)" arbitrary: k)
  case Nil
  let ?k1 = "set_sem i 1 k"
  have rel: "rt_sem_release i k = Some (?k1, RT_EOK)"
    using sem_release_post[of k i] Nil by simp
  have "rt_sem_trytake i ?k1 = Some (set_sem i 0 ?k1, Done RT_EOK)"
    by (simp add: rt_sem_trytake_def rt_sem_take_def set_sem_def)
  moreover have "set_sem i 0 ?k1 = k" using Nil by (simp add: set_sem_def fun_upd_idem)
  ultimately have one: "work_ack i ?k1 = Some (k, RT_EOK)" by (simp add: work_ack.simps[of i ?k1])
  have "work_ack i k = Some (k, RT_EOK)"
    using Nil rel one by (simp add: work_ack.simps[of i k] rt_sem_trytake_def sem_take_poll)
  then show ?case using Nil by simp
next
  case (Cons t ts)
  obtain k1 where k1: "rt_sem_release i k = Some (k1, RT_EOK)" "kinv k1" "keeps k k1" "tlist_of k1 (sem_queue i) = ts"
    "k_thread k1 = (k_thread k)(t := readied (k_thread k t))" "rt_current_thread k1 \<noteq> None"
    by (rule sem_release_wake[OF Cons.prems(1) Cons.hyps(2)[symmetric] Cons.prems(3)]) (rule that; assumption)
  have s1: "k_sem k1 = k_sem k" "rt_scheduler_lock_nest k1 = rt_scheduler_lock_nest k" using k1(3) by (simp_all add: keeps_def)
  have z1: "k_sem k1 i = 0" using s1 Cons.prems(2) by simp
  obtain k' where k': "work_ack i k1 = Some (k', RT_EOK)" "kinv k'" "k_sem k' = k_sem k1" "tlist_of k' (sem_queue i) = []"
    "\<forall>s. k_thread k' s = (if s \<in> set ts then readied (k_thread k1 s) else k_thread k1 s)"
    "rt_current_thread k' \<noteq> None" "rt_scheduler_lock_nest k' = rt_scheduler_lock_nest k1"
    using Cons.hyps(1)[OF k1(4)[symmetric] k1(2) z1 k1(6)] k1(4) by auto
  have t: "t \<notin> set ts"
    using ls_wf_distinct[OF sched_inv_wf[OF kinvD(1)[OF Cons.prems(1)]], of "sem_queue i"] Cons.hyps(2)[symmetric] by simp
  have "work_ack i k = Some (k', RT_EOK)"
    using Cons.prems(2) k1(1) k'(1) by (simp add: work_ack.simps[of i k] rt_sem_trytake_def sem_take_poll)
  then show ?case using k' s1 t Cons.hyps(2)[symmetric] k1(5) by simp
qed

text \<open>A thread resumed by a more urgent one, or one as urgent, waits its turn.\<close>

lemma resume_behind:
  assumes inv: "kinv k" and top: "highest_runs k" "rt_current_thread k = Some u" "thread_state (k_thread k u) = RT_THREAD_READY"
    and t: "thread_state (k_thread k t) = RT_THREAD_SUSPEND" and p: "current_priority (k_thread k u) \<le> current_priority (k_thread k t)"
    and lock: "rt_scheduler_lock_nest k = 0"
  obtains k1 k2 where "rt_thread_resume t k = Some (k1, RT_EOK)" "rt_schedule k1 = Some k2" "kinv k2"
    "rt_current_thread k2 = Some u" "thread_state (k_thread k2 t) = RT_THREAD_READY"
proof -
  let ?p = "unat (current_priority (k_thread k t))" and ?u = "unat (current_priority (k_thread k u))"
  obtain k1 where k1: "rt_thread_resume t k = Some (k1, RT_EOK)" "kinv k1"
    "\<And>h. tlist_of k1 h = (if h = ReadyQ ?p then tlist_of k h @ [t] else remove1 t (tlist_of k h))"
    "k_thread k1 = (k_thread k)(t := (k_thread k t)\<lparr>stat := RT_THREAD_READY OR (stat (k_thread k t) AND NOT RT_THREAD_STAT_MASK)\<rparr>)"
    "keeps k k1" "rt_current_thread k1 = rt_current_thread k"
    by (rule resume_suspended[OF inv t]) (rule that; assumption)
  have ut: "u \<noteq> t" using top(3) t by auto
  have st: "thread_state (k_thread k1 u) = RT_THREAD_READY" using top(3) ut by (simp add: k1(4))
  have cur: "rt_current_thread k1 \<noteq> None" using k1(6) top(2) by simp
  obtain k2 where k2: "rt_schedule k1 = Some k2" "kinv k2" "k_tlist k2 = k_tlist k1" "k_thread k2 = k_thread k1"
    "rt_scheduler_lock_nest k1 = 0 \<Longrightarrow> highest_runs k2"
    by (rule schedule_ready[OF k1(2) st cur]) (rule that; assumption)
  have hr: "highest_runs k2" using k2(5) k1(5) lock by (simp add: keeps_def)
  have on: "ls_on (k_tlist k) u = Some (ReadyQ ?u)" by (rule ready_place[OF kinvD(1)[OF inv] top(3)])
  have wf: "ls_wf (k_tlist k)" by (rule sched_inv_wf[OF kinvD(1)[OF inv]])
  obtain p0 ts where p0: "tlist_of k (ReadyQ p0) = u # ts" "\<forall>q < p0. tlist_of k (ReadyQ q) = []"
    using top(1,2) by (auto simp: highest_runs_def)
  have "ls_on (k_tlist k) u = Some (ReadyQ p0)" using ls_wf_on[OF wf, of u "ReadyQ p0"] p0(1) by simp
  then have p0u: "p0 = ?u" using on by simp
  have le: "?u \<le> ?p" using p by (simp add: word_le_nat_alt)
  have head: "\<exists>ts'. tlist_of k2 (ReadyQ ?u) = u # ts'"
    using p0(1) p0u ut by (auto simp: k2(3) k1(3))
  moreover have "tlist_of k2 (ReadyQ q) = []" if "q < ?u" for q
    using p0(2) p0u that le by (simp add: k2(3) k1(3))
  ultimately have "rt_current_thread k2 = Some u"
    using hr unfolding highest_runs_def by (metis linorder_neqE_nat list.distinct(1) list.inject)
  then show ?thesis using that[OF k1(1) k2(1,2)] k1(4) k2(4) by simp
qed

end
