(* ===== verification/Rtt_Waitqueue.thy ===== *)
theory Rtt_Waitqueue
  imports Rtt_Ipc Rtt_Thread_Inv Rtt_Clock_Inv
begin

text \<open>
  Wait queues (\<^verbatim>\<open>rt-thread/components/drivers/src/waitqueue.c\<close>): lists of nodes, each
  with the thread to wake and a function that says whether a key concerns it. The lists and
  nodes stand beside the kernel; \<open>rt_wqueue_wait_leave\<close> is what the waiter does when it runs
  again, with the node on its stack.
\<close>

section \<open>Model\<close>

record rt_wqueue_node =
  polling_thread :: tid
  node_wakeup :: "nat \<Rightarrow> int"
  node_key :: rt_uint32

record wqueues =
  wq_list :: "(nat, nat) lstore"
  wq_node :: "nat \<Rightarrow> rt_wqueue_node"

definition rt_wqueue_add :: "nat \<Rightarrow> nat \<Rightarrow> wqueues \<Rightarrow> wqueues option" where
  "rt_wqueue_add q n W = map_option (\<lambda>L. W\<lparr>wq_list := L\<rparr>) (ls_insert_before_head q n (wq_list W))"

definition rt_wqueue_remove :: "nat \<Rightarrow> wqueues \<Rightarrow> wqueues" where
  "rt_wqueue_remove n W = W\<lparr>wq_list := ls_remove n (wq_list W)\<rparr>"

definition wqueue_default_wake :: "nat \<Rightarrow> int" where
  "wqueue_default_wake key = 0"

text \<open>The loop ends at the first node that takes the key.\<close>

fun wakeup_scan :: "nat \<Rightarrow> nat list \<Rightarrow> wqueues \<times> kernel \<Rightarrow> ((wqueues \<times> kernel) \<times> bool) option" where
  "wakeup_scan key [] s = Some (s, False)"
| "wakeup_scan key (n # ns) (W, k) =
     (if node_wakeup (wq_node W n) key = 0
      then map_option (\<lambda>(k, _). ((rt_wqueue_remove n W, k), True)) (rt_thread_resume (polling_thread (wq_node W n)) k)
      else wakeup_scan key ns (W, k))"

definition rt_wqueue_wakeup :: "nat \<Rightarrow> nat \<Rightarrow> wqueues \<times> kernel \<Rightarrow> (wqueues \<times> kernel) option" where
  "rt_wqueue_wakeup q key = (\<lambda>(W, k).
     if ls_nodes (wq_list W) q = [] then Some (W, k)
     else do {
       ((W, k), need_schedule) \<leftarrow> wakeup_scan key (ls_nodes (wq_list W) q) (W, k);
       map_option (Pair W) (if need_schedule then rt_schedule k else Some k)
     })"

definition rt_wqueue_wait :: "nat \<Rightarrow> nat \<Rightarrow> bool \<Rightarrow> int \<Rightarrow> wqueues \<times> kernel \<Rightarrow> ((wqueues \<times> kernel) \<times> outcome) option" where
  "rt_wqueue_wait q n condition msec = (\<lambda>(W, k). do {
     t \<leftarrow> in_thread_context k;
     tick \<leftarrow> rt_tick_from_millisecond msec;
     (if condition \<or> tick = 0 then Some ((W, k), Done RT_EOK)
      else do {
        let W = W\<lparr>wq_node := (wq_node W)(n := \<lparr>polling_thread = t, node_wakeup = wqueue_default_wake, node_key = 0\<rparr>)\<rparr>;
        W \<leftarrow> rt_wqueue_add q n W;
        (k, _) \<leftarrow> rt_thread_suspend t k;
        k \<leftarrow> (if tick \<noteq> - 1
              then map_option fst (rt_timer_start (ThreadTimer t)
                (fst (rt_timer_control (ThreadTimer t) (RT_TIMER_CTRL_SET_TIME (of_int tick)) k)))
              else Some k);
        k \<leftarrow> rt_schedule k;
        Some ((W, k), Wait)
      })
   })"

definition rt_wqueue_wait_leave :: "nat \<Rightarrow> wqueues \<Rightarrow> wqueues" where
  "rt_wqueue_wait_leave n W = rt_wqueue_remove n W"

lemmas wqueue_defs = rt_wqueue_add_def rt_wqueue_remove_def wqueue_default_wake_def rt_wqueue_wakeup_def
  rt_wqueue_wait_def rt_wqueue_wait_leave_def

section \<open>Waiting and waking\<close>

text \<open>A thread that waits hangs on the queue behind the others, suspended, and a ready thread runs.\<close>

lemma wqueue_wait_block:
  assumes inv: "kinv k" "ls_wf (wq_list W)" and cb: "can_block t k" and n: "ls_on (wq_list W) n = None" and ms: "msec < 0"
  obtains W' k' where "rt_wqueue_wait q n False msec (W, k) = Some ((W', k'), Wait)" "kinv k'" "ls_wf (wq_list W')"
    "ls_nodes (wq_list W') q = ls_nodes (wq_list W) q @ [n]"
    "polling_thread (wq_node W' n) = t" "node_wakeup (wq_node W' n) = wqueue_default_wake"
    "\<And>m. m \<noteq> n \<Longrightarrow> wq_node W' m = wq_node W m"
    "k_thread k' = (k_thread k)(t := suspended (k_thread k t))"
    "rt_current_thread k' \<noteq> None" "keeps k k'" "rt_scheduler_lock_nest k = 0 \<Longrightarrow> highest_runs k'"
proof -
  note c = can_blockD[OF cb]
  let ?W = "W\<lparr>wq_node := (wq_node W)(n := \<lparr>polling_thread = t, node_wakeup = wqueue_default_wake, node_key = 0\<rparr>)\<rparr>"
  obtain L where L: "ls_insert_before_head q n (wq_list W) = Some L" "ls_nodes L q = ls_nodes (wq_list W) q @ [n]"
    using n by (simp add: ls_insert_before_head_def)
  have wf: "ls_wf L" by (rule ls_insert_before_head_wf[OF inv(2) L(1)])
  obtain k1 where k1: "rt_thread_suspend t k = Some (k1, RT_EOK)" "kinv k1" "keeps k k1"
    "k_thread k1 = (k_thread k)(t := suspended (k_thread k t))" "rt_current_thread k1 = rt_current_thread k"
    by (rule suspend_ready[OF inv(1) c(3)]) (rule that; assumption)
  have rdy: "thread_state (k_thread k1 idle_thread) = RT_THREAD_READY" using c(4,5) by (simp add: k1(4))
  have cur: "rt_current_thread k1 \<noteq> None" using c(1) k1(5) by simp
  obtain k' where k': "rt_schedule k1 = Some k'" "kinv k'" "keeps k1 k'" "k_thread k' = k_thread k1"
    "rt_current_thread k' \<noteq> None" "rt_scheduler_lock_nest k1 = 0 \<Longrightarrow> highest_runs k'"
    by (rule schedule_ready[OF k1(2) rdy cur]) (rule that; assumption)
  have tick: "rt_tick_from_millisecond msec = Some (- 1)" using ms by (simp add: rt_tick_from_millisecond_def)
  have run: "rt_wqueue_wait q n False msec (W, k) = Some ((?W\<lparr>wq_list := L\<rparr>, k'), Wait)"
    using tick L(1) k1(1) k'(1) by (simp add: rt_wqueue_wait_def c(6) rt_wqueue_add_def)
  show ?thesis
    by (rule that[OF run k'(2)]) (use wf L(2) k1(3,4) k'(3-6) keeps_trans in \<open>auto simp: keeps_def\<close>)
qed

text \<open>A wake-up that finds a node for its key makes the thread of the first one ready and unlinks the
  node.\<close>

lemma wakeup_scan_find:
  "wakeup_scan key ns (W, k) = (case find (\<lambda>n. node_wakeup (wq_node W n) key = 0) ns of
     None \<Rightarrow> Some ((W, k), False)
   | Some n \<Rightarrow> map_option (\<lambda>(k, _). ((rt_wqueue_remove n W, k), True)) (rt_thread_resume (polling_thread (wq_node W n)) k))"
  by (induction key ns "(W, k)" rule: wakeup_scan.induct) auto

lemma wqueue_wakeup_first:
  assumes inv: "kinv k" and cur: "rt_current_thread k \<noteq> None"
    and n: "find (\<lambda>n. node_wakeup (wq_node W n) key = 0) (ls_nodes (wq_list W) q) = Some n"
    and st: "thread_state (k_thread k (polling_thread (wq_node W n))) = RT_THREAD_SUSPEND"
  defines "t \<equiv> polling_thread (wq_node W n)"
  obtains k' where "rt_wqueue_wakeup q key (W, k) = Some (rt_wqueue_remove n W, k')" "kinv k'" "keeps k k'"
    "k_thread k' = (k_thread k)(t := readied (k_thread k t))"
    "rt_current_thread k' \<noteq> None" "rt_scheduler_lock_nest k = 0 \<Longrightarrow> highest_runs k'"
proof -
  have ne: "ls_nodes (wq_list W) q \<noteq> []" using n by auto
  obtain k1 where k1: "rt_thread_resume t k = Some (k1, RT_EOK)" "kinv k1" "keeps k k1"
    "k_thread k1 = (k_thread k)(t := readied (k_thread k t))" "rt_current_thread k1 = rt_current_thread k"
    by (rule resume_suspended[OF inv st[folded t_def]]) (rule that; assumption)
  have rdy: "thread_state (k_thread k1 t) = RT_THREAD_READY" by (simp add: k1(4))
  have cur1: "rt_current_thread k1 \<noteq> None" using cur k1(5) by simp
  obtain k' where k': "rt_schedule k1 = Some k'" "kinv k'" "keeps k1 k'" "k_thread k' = k_thread k1"
    "rt_current_thread k' \<noteq> None" "rt_scheduler_lock_nest k1 = 0 \<Longrightarrow> highest_runs k'"
    by (rule schedule_ready[OF k1(2) rdy cur1]) (rule that; assumption)
  have run: "rt_wqueue_wakeup q key (W, k) = Some (rt_wqueue_remove n W, k')"
    using ne n k1(1) k'(1) by (simp add: rt_wqueue_wakeup_def wakeup_scan_find t_def)
  show ?thesis by (rule that[OF run k'(2)]) (use k1(3,4) k'(3-6) in \<open>auto simp: keeps_def\<close>)
qed

end
