(* ===== verification/Rtt_Driver_Props.thy ===== *)
theory Rtt_Driver_Props
  imports Rtt_Examples Rtt_Completion Rtt_Dataqueue Rtt_Workqueue Rtt_Waitqueue
begin

text \<open>
  Properties of the driver framework's blocking objects: completions, data queues,
  work queues and wait queues.
\<close>

section \<open>Completions\<close>

text \<open>A completion that is done before the wait is not lost, and one done while a thread waits
  wakes it.\<close>

theorem completion_not_lost:
  assumes "completion_inv c (F, k)" "rt_current_thread k \<noteq> None" "rt_scheduler_lock_nest k = 0"
  shows "\<exists>k'. rt_completion_done c (F, k) = Some (F(c := RT_COMPLETED), k') \<and>
    completion_inv c (F(c := RT_COMPLETED), k') \<and> tlist_of k' (CompletionQ c) = [] \<and>
    (\<forall>t ts. tlist_of k (CompletionQ c) = t # ts \<longrightarrow> thread_state (k_thread k' t) = RT_THREAD_READY \<and> highest_runs k') \<and>
    rt_completion_wait c timeout (F(c := RT_COMPLETED), k') = Some ((F(c := RT_UNCOMPLETED), k'), Done RT_EOK)"
proof -
  obtain k' where "rt_completion_done c (F, k) = Some (F(c := RT_COMPLETED), k')"
    "completion_inv c (F(c := RT_COMPLETED), k')" "tlist_of k' (CompletionQ c) = []"
    "k_thread k' = (case tlist_of k (CompletionQ c) of [] \<Rightarrow> k_thread k | t # _ \<Rightarrow> (k_thread k)(t := readied (k_thread k t)))"
    "tlist_of k (CompletionQ c) \<noteq> [] \<Longrightarrow> rt_scheduler_lock_nest k = 0 \<Longrightarrow> highest_runs k'"
    by (rule completion_done_spec[OF assms(1,2)]) (rule that; assumption)
  then show ?thesis
    using completion_wait_set[of "F(c := RT_COMPLETED)" c timeout k'] assms(3) by (intro exI[of _ k']) simp
qed

lemma completion_two: "completion_inv c (\<lambda>_. RT_UNCOMPLETED, kernel_two)"
  by (simp add: completion_inv_def kinv_two) (simp add: kernel_two_def)

theorem completion_not_lost_witness:
  "\<exists>k'. rt_completion_done 0 (\<lambda>_. RT_UNCOMPLETED, kernel_two) = Some ((\<lambda>_. RT_UNCOMPLETED)(0 := RT_COMPLETED), k')"
proof -
  have "rt_current_thread kernel_two \<noteq> None" by (simp add: kernel_two_facts)
  from completion_not_lost[OF completion_two this kernel_two_facts(4), of 0 0] show ?thesis by blast
qed

text \<open>A thread that waits for a completion that is not done is the only waiter and is
  suspended.\<close>

theorem completion_wait_suspends:
  assumes "completion_inv c (F, k)" "can_block t k" "F c \<noteq> RT_COMPLETED" "tlist_of k (CompletionQ c) = []"
    "timeout \<noteq> 0" "timeout < 2 ^ 31 - 1"
  shows "\<exists>k'. rt_completion_wait c timeout (F, k) = Some ((F, k'), Wait) \<and> completion_inv c (F, k') \<and>
    tlist_of k' (CompletionQ c) = [t] \<and> thread_state (k_thread k' t) = RT_THREAD_SUSPEND \<and>
    ls_on (k_rows k') (ThreadTimer t) = (if 0 < timeout then Some HardTimers else None)"
proof -
  obtain k' where "rt_completion_wait c timeout (F, k) = Some ((F, k'), Wait)" "completion_inv c (F, k')"
    "tlist_of k' (CompletionQ c) = [t]" "k_thread k' = (k_thread k)(t := suspended ((k_thread k t)\<lparr>th_error := RT_EOK\<rparr>))"
    "ls_on (k_rows k') (ThreadTimer t) = (if 0 < timeout then Some HardTimers else None)"
    by (rule completion_wait_block[OF assms]) (rule that; assumption)
  then show ?thesis by (intro exI[of _ k']) simp
qed

theorem completion_wait_suspends_witness:
  "\<exists>k'. rt_completion_wait 0 5 (\<lambda>_. RT_UNCOMPLETED, kernel_two) = Some ((\<lambda>_. RT_UNCOMPLETED, k'), Wait) \<and>
     tlist_of k' (CompletionQ 0) = [2]"
proof -
  have "RT_UNCOMPLETED \<noteq> RT_COMPLETED" "tlist_of kernel_two (CompletionQ 0) = []" "(5 :: int) \<noteq> 0" "(5 :: int) < 2 ^ 31 - 1"
    by (simp_all add: kernel_two_def)
  from completion_wait_suspends[OF completion_two can_block_two this] show ?thesis by blast
qed

section \<open>Data queues\<close>

text \<open>Pushing to a data queue with room appends the item and wakes the first waiting reader, as
  long as the 16-bit put counter does not wrap.\<close>

theorem data_queue_push_appends:
  assumes "kinv k" "quiet ucb" "dq_ok (Q q)" "length (dq_contents (Q q)) < unat (dq_size (Q q))"
    "put_index (Q q) \<noteq> 0xffff" "rt_current_thread k \<noteq> None"
  shows "\<exists>d k'. rt_data_queue_push ucb q x timeout (Q, k) = Some ((Q(q := d), k'), Done RT_EOK) \<and> dq_ok d \<and>
    dq_contents d = dq_contents (Q q) @ [x] \<and> dq_size d = dq_size (Q q) \<and> kinv k' \<and>
    tlist_of k' (PopQ q) = tl (tlist_of k (PopQ q)) \<and>
    (\<forall>t ts. tlist_of k (PopQ q) = t # ts \<longrightarrow> thread_state (k_thread k' t) = RT_THREAD_READY)"
proof -
  obtain d k' where "push_loop ucb q x timeout (rt_thread_self k) (Q, k) = Some ((Q(q := d), k'), Done RT_EOK)" "dq_ok d"
    "dq_contents d = dq_contents (Q q) @ [x]" "dq_size d = dq_size (Q q)" "kinv k'"
    "tlist_of k' (PopQ q) = tl (tlist_of k (PopQ q))"
    "k_thread k' = (case tlist_of k (PopQ q) of [] \<Rightarrow> k_thread k | t # _ \<Rightarrow> (k_thread k)(t := readied (k_thread k t)))"
    by (rule push_room[where Q = Q and q = q, OF assms(1-6)]) (rule that; assumption)
  then show ?thesis by (intro exI[of _ d] exI[of _ k']) (simp add: rt_data_queue_push_def)
qed

text \<open>Popping takes the oldest item, and wakes the first waiting writer once no more than the
  low-water mark is left.\<close>

theorem data_queue_pop_first:
  assumes "kinv k" "quiet ucb" "dq_ok (Q q)" "dq_contents (Q q) = x # xs" "rt_current_thread k \<noteq> None"
  shows "\<exists>d k'. rt_data_queue_pop ucb q timeout (Q, k) = Some ((Q(q := d), k'), Done RT_EOK, Some x) \<and> dq_ok d \<and>
    dq_contents d = xs \<and> dq_size d = dq_size (Q q) \<and> kinv k' \<and>
    tlist_of k' (PushQ q) = (if length xs \<le> unat (dq_lwm (Q q)) then tl (tlist_of k (PushQ q)) else tlist_of k (PushQ q))"
proof -
  obtain d k' where "pop_loop ucb q timeout (rt_thread_self k) (Q, k) = Some ((Q(q := d), k'), Done RT_EOK, Some x)" "dq_ok d"
    "dq_contents d = xs" "dq_size d = dq_size (Q q)" "kinv k'"
    "tlist_of k' (PushQ q) = (if length xs \<le> unat (dq_lwm (Q q)) then tl (tlist_of k (PushQ q)) else tlist_of k (PushQ q))"
    by (rule pop_item[where Q = Q and q = q, OF assms]) (rule that; assumption)
  then show ?thesis by (intro exI[of _ d] exI[of _ k']) (simp add: rt_data_queue_pop_def)
qed

text \<open>A queue of two items that holds one, and one whose put counter has wrapped while it is full.\<close>

definition dq_one :: rt_data_queue where
  "dq_one = \<lparr>dq_size = 2, dq_lwm = 1, get_index = 4, put_index = 5,
     dq_queue = [\<lparr>data_ptr = 7, data_size = 1\<rparr>, \<lparr>data_ptr = 8, data_size = 1\<rparr>], evt_notify = None\<rparr>"

definition dq_wrapped :: rt_data_queue where
  "dq_wrapped = dq_one\<lparr>get_index := 0xfffe, put_index := 0\<rparr>"

lemma dq_one_facts: "dq_ok dq_one" "dq_contents dq_one = [\<lparr>data_ptr = 7, data_size = 1\<rparr>]" "put_index dq_one = 5"
  "dq_size dq_one = 2"
  by (simp_all add: dq_one_def dq_ok_def dq_contents_def)

lemma quiet_Some: "quiet (\<lambda>f q e s. Some s)"
  by (simp add: quiet_def)

theorem data_queue_push_appends_witness:
  "\<exists>d k'. rt_data_queue_push (\<lambda>f q e s. Some s) 0 \<lparr>data_ptr = 9, data_size = 1\<rparr> 0 (\<lambda>_. dq_one, kernel_two)
     = Some (((\<lambda>_. dq_one)(0 := d), k'), Done RT_EOK) \<and>
   dq_contents d = [\<lparr>data_ptr = 7, data_size = 1\<rparr>, \<lparr>data_ptr = 9, data_size = 1\<rparr>]"
proof -
  have "length (dq_contents dq_one) < unat (dq_size dq_one)" "put_index dq_one \<noteq> 0xffff" "rt_current_thread kernel_two \<noteq> None"
    by (simp_all add: dq_one_facts kernel_two_facts)
  from data_queue_push_appends[where Q = "\<lambda>_. dq_one" and q = 0, OF kinv_two quiet_Some dq_one_facts(1) this,
      of "\<lparr>data_ptr = 9, data_size = 1\<rparr>" 0]
  show ?thesis by (auto simp: dq_one_facts)
qed

theorem data_queue_pop_first_witness:
  "\<exists>d k'. rt_data_queue_pop (\<lambda>f q e s. Some s) 0 0 (\<lambda>_. dq_one, kernel_two)
     = Some (((\<lambda>_. dq_one)(0 := d), k'), Done RT_EOK, Some \<lparr>data_ptr = 7, data_size = 1\<rparr>) \<and> dq_contents d = []"
proof -
  have "rt_current_thread kernel_two \<noteq> None" by (simp add: kernel_two_facts)
  from data_queue_pop_first[where Q = "\<lambda>_. dq_one" and q = 0, OF kinv_two quiet_Some dq_one_facts(1,2) this, of 0]
  show ?thesis by blast
qed

text \<open>C38. Once the put counter has wrapped to 0 while the queue is full, the test for a full queue
  compares the counters as \<^verbatim>\<open>int\<close> and fails: the push succeeds and overwrites an item that
  was not read. When the size divides \<open>2 ^ 16\<close> that is the oldest item, and the next pop returns the new
  one in its place.\<close>

theorem data_queue_wrap_overwrites:
  assumes "put_index (Q q) = 0" "dq_size (Q q) \<noteq> 0" "get_index (Q q) = 0 - dq_size (Q q)"
    "length (dq_queue (Q q)) = unat (dq_size (Q q))"
    "tlist_of k (PopQ q) = []" "tlist_of k (PushQ q) = []" "evt_notify (Q q) = None"
  shows "\<exists>d i. rt_data_queue_push ucb q x timeout (Q, k) = Some ((Q(q := d), k), Done RT_EOK) \<and>
    i < unat (dq_size (Q q)) \<and>
    dq_queue d = (dq_queue (Q q))[(unat (get_index (Q q)) + i) mod unat (dq_size (Q q)) := x] \<and>
    (unat (dq_size (Q q)) dvd 2 ^ 16 \<longrightarrow> i = 0 \<and>
       (\<exists>s. rt_data_queue_pop ucb q timeout (Q(q := d), k) = Some (s, Done RT_EOK, Some x)))"
proof -
  let ?n = "unat (dq_size (Q q))" and ?g = "unat (get_index (Q q))"
  let ?d = "(Q q)\<lparr>dq_queue := (dq_queue (Q q))[0 := x], put_index := 1\<rparr>"
  have n: "0 < ?n" using assms(2) by (simp add: unat_gt_0)
  have lt: "?n < 2 ^ 16" using unsigned_less[of "dq_size (Q q)", where 'a = nat] by simp
  have g: "?g + ?n = 2 ^ 16" using unat_sub_if'[of 0 "dq_size (Q q)"] n lt assms(3) by (simp add: word_le_nat_alt)
  define i where "i = (?n - ?g mod ?n) mod ?n"
  have "(?g + i) mod ?n = (?g mod ?n + (?n - ?g mod ?n)) mod ?n" by (simp add: i_def mod_add_eq mod_simps)
  also have "\<dots> = 0" using n by simp
  finally have slot: "(?g + i) mod ?n = 0" .
  have push: "rt_data_queue_push ucb q x timeout (Q, k) = Some ((Q(q := ?d), k), Done RT_EOK)"
    using push_wrapped[where Q = Q and q = q, OF assms(1-3,5,7), of ucb x timeout "rt_thread_self k"]
    by (simp add: rt_data_queue_push_def)
  have dvd: "i = 0 \<and> (\<exists>s. rt_data_queue_pop ucb q timeout (Q(q := ?d), k) = Some (s, Done RT_EOK, Some x))" if "?n dvd 2 ^ 16"
  proof -
    have z: "?g mod ?n = 0" using that g by (metis dvd_add_left_iff dvd_refl mod_0_imp_dvd dvd_imp_mod_0)
    have "get_index (Q q) \<noteq> 1"
    proof
      assume "get_index (Q q) = 1"
      then have "?g = 1" by simp
      then show False using z g n lt by (cases "?n = 1") auto
    qed
    moreover have "dq_front ?d = Some x"
      using z assms(2,4) n by (simp add: dq_front_def dq_slot_def unat_mod)
    ultimately have "\<exists>s. rt_data_queue_pop ucb q timeout (Q(q := ?d), k) = Some (s, Done RT_EOK, Some x)"
      using assms(6,7) by (simp add: rt_data_queue_pop_def pop_loop_def notify_def wake_waiter_def Let_def)
    then show ?thesis using z by (simp add: i_def)
  qed
  show ?thesis
    by (rule exI[of _ ?d], rule exI[of _ i]) (use push slot dvd n in \<open>simp add: i_def\<close>)
qed

theorem data_queue_wrap_overwrites_witness:
  "\<exists>d s. rt_data_queue_push (\<lambda>f q e s. Some s) 0 \<lparr>data_ptr = 9, data_size = 1\<rparr> 0 (\<lambda>_. dq_wrapped, kernel_two)
     = Some (((\<lambda>_. dq_wrapped)(0 := d), kernel_two), Done RT_EOK) \<and>
   dq_queue d = [\<lparr>data_ptr = 9, data_size = 1\<rparr>, \<lparr>data_ptr = 8, data_size = 1\<rparr>] \<and>
   rt_data_queue_pop (\<lambda>f q e s. Some s) 0 0 ((\<lambda>_. dq_wrapped)(0 := d), kernel_two)
     = Some (s, Done RT_EOK, Some \<lparr>data_ptr = 9, data_size = 1\<rparr>)"
proof -
  have "put_index dq_wrapped = 0" "dq_size dq_wrapped \<noteq> 0" "get_index dq_wrapped = 0 - dq_size dq_wrapped"
    "length (dq_queue dq_wrapped) = unat (dq_size dq_wrapped)" "tlist_of kernel_two (PopQ 0) = []"
    "tlist_of kernel_two (PushQ 0) = []" "evt_notify dq_wrapped = None"
    by (simp_all add: dq_wrapped_def dq_one_def) (simp_all add: kernel_two_def)
  from data_queue_wrap_overwrites[where Q = "\<lambda>_. dq_wrapped" and q = 0, OF this,
      of "\<lambda>f q e s. Some s" "\<lparr>data_ptr = 9, data_size = 1\<rparr>" 0]
  show ?thesis by (auto simp: dq_wrapped_def dq_one_def)
qed

section \<open>Work queues\<close>

text \<open>C17. The acknowledgement of a finished work ends, wakes every thread that waits for it and
  leaves the semaphore at 0.\<close>

theorem work_ack_wakes_all:
  assumes "kinv k" "k_sem k i = 0" "rt_current_thread k \<noteq> None"
  shows "\<exists>k'. work_ack i k = Some (k', RT_EOK) \<and> kinv k' \<and> k_sem k' i = 0 \<and> tlist_of k' (sem_queue i) = [] \<and>
    (\<forall>t \<in> set (tlist_of k (sem_queue i)). thread_state (k_thread k' t) = RT_THREAD_READY) \<and>
    (\<forall>t. t \<notin> set (tlist_of k (sem_queue i)) \<longrightarrow> k_thread k' t = k_thread k t)"
proof -
  obtain k' where "work_ack i k = Some (k', RT_EOK)" "kinv k'" "k_sem k' = k_sem k" "tlist_of k' (sem_queue i) = []"
    "\<forall>t. k_thread k' t = (if t \<in> set (tlist_of k (sem_queue i)) then readied (k_thread k t) else k_thread k t)"
    using work_ack_spec[OF assms] by blast
  then show ?thesis using assms(2) by (intro exI[of _ k']) simp
qed

theorem work_ack_wakes_all_witness:
  "\<exists>k'. work_ack 0 kernel_waiting = Some (k', RT_EOK) \<and> thread_state (k_thread k' 2) = RT_THREAD_READY"
proof -
  have "k_sem kernel_waiting 0 = 0"
  proof -
    obtain k' where "rt_sem_take 0 5 kernel_two = Some (k', Wait)" "keeps kernel_two k'"
    proof (rule sem_take_block[OF kinv_two can_block_two kernel_two_facts(8), of 5 0])
      show "(5 :: int) \<noteq> 0" "(5 :: int) < 2 ^ 31 - 1" by simp_all
      show "valid_flag (OSem 0) kernel_two" by (simp add: valid_flag_def obj_ipc_flag_def kernel_two_facts)
    qed
    then show ?thesis by (simp add: kernel_waiting_def keeps_def kernel_two_facts)
  qed
  from work_ack_wakes_all[OF kernel_waiting_facts(1) this kernel_waiting_facts(2)] show ?thesis
    by (auto simp: kernel_waiting_facts)
qed

text \<open>C40. The queue's thread does not look at the list again after it was woken. A thread at least as
  urgent submits a work to an idle queue and cancels it at once: the queue's thread is then ready to go on with an
  empty list, and takes the head of the list for a work.\<close>

theorem cancel_races_worker:
  assumes "kinv k" "highest_runs k" "rt_current_thread k = Some u" "thread_state (k_thread k u) = RT_THREAD_READY"
    "rt_scheduler_lock_nest k = 0"
    "thread_state (k_thread k (work_thread W q)) = RT_THREAD_SUSPEND"
    "current_priority (k_thread k u) \<le> current_priority (k_thread k (work_thread W q))"
    "ls_wf (work_list W)" "works q W = []" "work_current W q = None"
  shows "\<exists>s W' k'. rt_workqueue_dowork q w (W, k) = Some (s, RT_EOK) \<and>
    rt_workqueue_cancel_work q w s = ((W', k'), RT_EOK) \<and> rt_current_thread k' = Some u \<and>
    thread_state (k_thread k' (work_thread W q)) = RT_THREAD_READY \<and> works q W' = [] \<and>
    workqueue_thread f q AfterWait (W', k') = None"
proof -
  obtain W1 where W1: "work_append q w W = Some W1" "ls_wf (work_list W1)" "works q W1 = remove1 w (works q W) @ [w]"
    "work_current W1 = work_current W" "work_thread W1 = work_thread W"
    using work_append_spec[OF assms(8), of q w] by blast
  obtain k1 k2 where k2: "rt_thread_resume (work_thread W q) k = Some (k1, RT_EOK)" "rt_schedule k1 = Some k2" "kinv k2"
    "rt_current_thread k2 = Some u" "thread_state (k_thread k2 (work_thread W q)) = RT_THREAD_READY"
    by (rule resume_behind[OF assms(1-4,6,7,5)])
  have "rt_workqueue_dowork q w (W, k) = Some ((W1, k2), RT_EOK)"
    using W1(1,4,5) assms(10) k2(1,2) by (simp add: rt_workqueue_dowork_def)
  moreover have "rt_workqueue_cancel_work q w (W1, k2) = ((work_remove w W1, k2), RT_EOK)"
    using W1(4) assms(10) by (simp add: rt_workqueue_cancel_work_def)
  moreover have empty: "works q (work_remove w W1) = []"
    using W1(2,3) assms(9) by (simp add: work_remove_def ls_nodes_remove)
  moreover have "workqueue_thread f q AfterWait (work_remove w W1, k2) = None"
    using empty by (simp add: workqueue_work_def work_take_def)
  ultimately show ?thesis using k2(4,5) by fastforce
qed

definition works_idle :: workqueues where
  "works_idle = \<lparr>work_list = ls_empty, work_current = (\<lambda>_. None), wq_sem = (\<lambda>_. 0), work_thread = (\<lambda>_. 3)\<rparr>"

theorem cancel_races_worker_witness:
  "\<exists>s W' k'. rt_workqueue_dowork 0 7 (works_idle, kernel_worker) = Some (s, RT_EOK) \<and>
    rt_workqueue_cancel_work 0 7 s = ((W', k'), RT_EOK) \<and> workqueue_thread (\<lambda>w s. Some s) 0 AfterWait (W', k') = None"
proof -
  have "rt_current_thread kernel_worker = Some 2" "thread_state (k_thread kernel_worker 2) = RT_THREAD_READY"
    "rt_scheduler_lock_nest kernel_worker = 0" "thread_state (k_thread kernel_worker (work_thread works_idle 0)) = RT_THREAD_SUSPEND"
    "current_priority (k_thread kernel_worker 2) \<le> current_priority (k_thread kernel_worker (work_thread works_idle 0))"
    "works 0 works_idle = []" "work_current works_idle 0 = None"
    by (simp_all add: kernel_worker_def kernel_two_def works_idle_def running_thread_def kernel_zero_def ls_empty_def)
  moreover have "ls_wf (work_list works_idle)" by (simp add: works_idle_def ls_wf_def ls_empty_def)
  ultimately show ?thesis using cancel_races_worker[OF kernel_worker, of 2 works_idle 0 7 "\<lambda>w s. Some s"] by blast
qed

definition works_one :: workqueues where
  "works_one = \<lparr>work_list = \<lparr>ls_nodes = (\<lambda>_. [])(0 := [3]), ls_on = [3 \<mapsto> 0]\<rparr>, work_current = (\<lambda>_. None),
     wq_sem = (\<lambda>_. 0), work_thread = (\<lambda>_. 2)\<rparr>"

text \<open>A work handed to a queue is linked once, behind the others, and a queue whose thread is idle
  gets it running.\<close>

theorem dowork_queues:
  assumes "kinv k" "ls_wf (work_list W)" "work_current W q \<noteq> Some w" "rt_current_thread k \<noteq> None"
    "thread_state (k_thread k idle_thread) = RT_THREAD_READY" "rt_scheduler_lock_nest k = 0"
  shows "\<exists>W' k' . rt_workqueue_dowork q w (W, k) = Some ((W', k'), RT_EOK) \<and> kinv k' \<and> ls_wf (work_list W') \<and>
    works q W' = remove1 w (works q W) @ [w] \<and> (\<forall>p. p \<noteq> q \<longrightarrow> works p W' = remove1 w (works p W)) \<and>
    (if work_current W q = None then highest_runs k' else k' = k)"
proof -
  obtain W' where W': "work_append q w W = Some W'" "ls_wf (work_list W')" "works q W' = remove1 w (works q W) @ [w]"
    "\<forall>p. p \<noteq> q \<longrightarrow> works p W' = remove1 w (works p W)" "work_current W' = work_current W" "work_thread W' = work_thread W"
    using work_append_spec[OF assms(2), of q w] by blast
  show ?thesis
  proof (cases "work_current W q")
    case None
    obtain k1 e where k1: "rt_thread_resume (work_thread W q) k = Some (k1, e)" "kinv k1"
      "rt_current_thread k1 = rt_current_thread k" "keeps k k1"
      "\<And>s. thread_state (k_thread k s) = RT_THREAD_READY \<Longrightarrow> thread_state (k_thread k1 s) = RT_THREAD_READY"
      by (rule resume_any[OF assms(1), of "work_thread W q"]) (rule that; assumption)
    have c: "rt_current_thread k1 \<noteq> None" using k1(3) assms(4) by simp
    obtain k2 where k2: "rt_schedule k1 = Some k2" "kinv k2" "rt_scheduler_lock_nest k1 = 0 \<Longrightarrow> highest_runs k2"
      by (rule schedule_ready[OF k1(2) k1(5)[OF assms(5)] c]) (rule that; assumption)
    have "rt_workqueue_dowork q w (W, k) = Some ((W', k2), RT_EOK)"
      using W'(1,5,6) None k1(1) k2(1) by (simp add: rt_workqueue_dowork_def)
    then show ?thesis using W' k2(2,3) k1(4) assms(6) None by (intro exI[of _ W'] exI[of _ k2]) (simp add: keeps_def)
  next
    case (Some v)
    then show ?thesis using W' assms(1,3) by (auto simp: rt_workqueue_dowork_def)
  qed
qed

theorem dowork_queues_witness:
  "\<exists>W' k'. rt_workqueue_dowork 0 4 (works_one, kernel_two) = Some ((W', k'), RT_EOK) \<and> works 0 W' = [3, 4]"
proof -
  have "ls_wf (work_list works_one)" "work_current works_one 0 \<noteq> Some 4" "rt_current_thread kernel_two \<noteq> None"
    by (auto simp: works_one_def ls_wf_def kernel_two_facts)
  from dowork_queues[OF kinv_two this kernel_two_facts(6,4)] show ?thesis by (auto simp: works_one_def)
qed

section \<open>Wait queues\<close>

text \<open>A thread that waits on an empty queue is suspended until a wake-up on that queue: then it is ready
  again and its node unlinked, so that the removal when it runs again changes nothing.\<close>

theorem wqueue_round:
  assumes "kinv k" "ls_wf (wq_list W)" "can_block t k" "ls_on (wq_list W) n = None" "ls_nodes (wq_list W) q = []" "msec < 0"
  shows "\<exists>W1 k1 W2 k2. rt_wqueue_wait q n False msec (W, k) = Some ((W1, k1), Wait) \<and>
    thread_state (k_thread k1 t) = RT_THREAD_SUSPEND \<and> ls_nodes (wq_list W1) q = [n] \<and>
    rt_wqueue_wakeup q key (W1, k1) = Some (W2, k2) \<and> thread_state (k_thread k2 t) = RT_THREAD_READY \<and>
    ls_nodes (wq_list W2) q = [] \<and> rt_wqueue_wait_leave n W2 = W2 \<and> kinv k2"
proof -
  obtain W1 k1 where w: "rt_wqueue_wait q n False msec (W, k) = Some ((W1, k1), Wait)" "kinv k1" "ls_wf (wq_list W1)"
    "ls_nodes (wq_list W1) q = ls_nodes (wq_list W) q @ [n]"
    "polling_thread (wq_node W1 n) = t" "node_wakeup (wq_node W1 n) = wqueue_default_wake"
    "k_thread k1 = (k_thread k)(t := suspended (k_thread k t))" "rt_current_thread k1 \<noteq> None"
    by (rule wqueue_wait_block[OF assms(1-4,6)]) (rule that; assumption)
  have q: "ls_nodes (wq_list W1) q = [n]" using w(4) assms(5) by simp
  have f: "find (\<lambda>n. node_wakeup (wq_node W1 n) key = 0) (ls_nodes (wq_list W1) q) = Some n"
    by (simp add: q w(6) wqueue_default_wake_def)
  have st: "thread_state (k_thread k1 (polling_thread (wq_node W1 n))) = RT_THREAD_SUSPEND" by (simp add: w(5,7))
  obtain k2 where k2: "rt_wqueue_wakeup q key (W1, k1) = Some (rt_wqueue_remove n W1, k2)" "kinv k2"
    "k_thread k2 = (k_thread k1)(polling_thread (wq_node W1 n) := readied (k_thread k1 (polling_thread (wq_node W1 n))))"
    by (rule wqueue_wakeup_first[OF w(2,8) f st]) (rule that; assumption)
  have on: "ls_on (wq_list W1) n = Some q" using w(3) q by (simp add: ls_wf_on)
  have off: "ls_on (ls_remove n (wq_list W1)) n = None" by (simp add: ls_remove_def on)
  have "rt_wqueue_wait_leave n (rt_wqueue_remove n W1) = rt_wqueue_remove n W1"
    using off by (simp add: rt_wqueue_wait_leave_def rt_wqueue_remove_def ls_remove_def on)
  moreover have "ls_nodes (wq_list (rt_wqueue_remove n W1)) q = []"
    using on q by (simp add: rt_wqueue_remove_def ls_remove_def)
  moreover have "thread_state (k_thread k2 t) = RT_THREAD_READY" using k2(3) w(5) by simp
  moreover have "thread_state (k_thread k1 t) = RT_THREAD_SUSPEND" using w(7) by simp
  ultimately show ?thesis using w(1) q k2(1,2) by blast
qed

theorem wqueue_round_witness:
  "\<exists>W1 k1 W2 k2. rt_wqueue_wait 0 5 False (- 1) (\<lparr>wq_list = ls_empty, wq_node = (\<lambda>_. \<lparr>polling_thread = 0, node_wakeup = wqueue_default_wake, node_key = 0\<rparr>)\<rparr>, kernel_two) = Some ((W1, k1), Wait) \<and>
    thread_state (k_thread k1 2) = RT_THREAD_SUSPEND \<and>
    rt_wqueue_wakeup 0 7 (W1, k1) = Some (W2, k2) \<and> thread_state (k_thread k2 2) = RT_THREAD_READY"
proof -
  have "kinv kernel_two" "ls_wf (wq_list \<lparr>wq_list = ls_empty, wq_node = (\<lambda>_. \<lparr>polling_thread = 0, node_wakeup = wqueue_default_wake, node_key = 0\<rparr>)\<rparr>)" "can_block 2 kernel_two"
    "ls_on (wq_list \<lparr>wq_list = ls_empty, wq_node = (\<lambda>_. \<lparr>polling_thread = 0, node_wakeup = wqueue_default_wake, node_key = 0\<rparr>)\<rparr>) 5 = None"
    "ls_nodes (wq_list \<lparr>wq_list = ls_empty, wq_node = (\<lambda>_. \<lparr>polling_thread = 0, node_wakeup = wqueue_default_wake, node_key = 0\<rparr>)\<rparr>) 0 = []" "(- 1 :: int) < 0"
    by (simp_all add: kinv_two can_block_two) (simp_all add: ls_empty_def)
  from wqueue_round[OF this, of 7] show ?thesis by blast
qed

end
