(* ===== verification/Rtt_Mempool.thy ===== *)
theory Rtt_Mempool
  imports Rtt_Ipc Rtt_Align Rtt_Chain
begin

text \<open>
  Memory pools (\<^verbatim>\<open>rt-thread/src/mempool.c\<close>): equal blocks, each behind a word that
  holds the next free block or, while the block is handed out, the pool it belongs to. The pools
  and these words are the record \<open>mempools\<close>; the threads and lists are those of the
  kernel, so an operation maps a pair of both. Addresses are 32-bit words.
\<close>

section \<open>Model\<close>

datatype mp_link = NextBlock "rt_uint32 option" | Owner nat

record rt_mempool =
  mp_start :: rt_uint32
  mp_size :: rt_uint32
  mp_block_size :: rt_uint32
  mp_block_list :: "rt_uint32 option"
  mp_total_count :: rt_uint32
  mp_free_count :: rt_uint32
  mp_suspend_count :: rt_uint32

record mempools =
  mp_pool :: "nat \<Rightarrow> rt_mempool"
  mp_mem :: "rt_uint32 \<Rightarrow> mp_link"

abbreviation mp_queue :: "nat \<Rightarrow> qhead" where "mp_queue i \<equiv> SuspendQ (OMemPool i)"

definition upd_mp :: "nat \<Rightarrow> (rt_mempool \<Rightarrow> rt_mempool) \<Rightarrow> mempools \<Rightarrow> mempools" where
  "upd_mp i f P = P\<lparr>mp_pool := (mp_pool P)(i := f (mp_pool P i))\<rparr>"

definition set_link :: "rt_uint32 \<Rightarrow> mp_link \<Rightarrow> mempools \<Rightarrow> mempools" where
  "set_link a l P = P\<lparr>mp_mem := (mp_mem P)(a := l)\<rparr>"

definition mp_addr :: "rt_uint32 \<Rightarrow> rt_uint32 \<Rightarrow> nat \<Rightarrow> rt_uint32" where
  "mp_addr start block_size offset = start + of_nat offset * (block_size + 4)"

text \<open>Every block is linked to the one behind it, then the last one to none. Without any block
  \<^verbatim>\<open>offset - 1\<close> wraps around, and the word in front of the area is written.\<close>

fun mp_link_loop :: "rt_uint32 \<Rightarrow> rt_uint32 \<Rightarrow> nat \<Rightarrow> mempools \<Rightarrow> mempools" where
  "mp_link_loop start bs 0 P = P"
| "mp_link_loop start bs (Suc n) P =
     set_link (mp_addr start bs n) (NextBlock (Some (mp_addr start bs (Suc n)))) (mp_link_loop start bs n P)"

definition mp_link_blocks :: "rt_uint32 \<Rightarrow> rt_uint32 \<Rightarrow> rt_uint32 \<Rightarrow> mempools \<Rightarrow> mempools" where
  "mp_link_blocks start bs cnt P =
     set_link (start + (cnt - 1) * (bs + 4)) (NextBlock None) (mp_link_loop start bs (unat cnt) P)"

text \<open>\<open>None\<close>: the division by \<^verbatim>\<open>block_size + sizeof(rt_uint8_t *)\<close> is by 0.\<close>

definition rt_mp_init ::
  "nat \<Rightarrow> rt_uint8 list \<Rightarrow> rt_uint32 \<Rightarrow> rt_uint32 \<Rightarrow> rt_uint32 \<Rightarrow> mempools \<times> kernel \<Rightarrow>
     ((mempools \<times> kernel) \<times> rt_err) option" where
  "rt_mp_init i nm start sz block_size = (\<lambda>(P, k). do {
     k \<leftarrow> rt_object_init (OMemPool i) (class_code RT_Object_Class_MemPool) nm k;
     let bs = RT_ALIGN block_size 4;
     RT_ASSERT (bs + 4 \<noteq> 0);
     let cnt = RT_ALIGN_DOWN sz 4 div (bs + 4);
     k \<leftarrow> rt_ipc_object_init (mp_queue i) k;
     let P = upd_mp i (\<lambda>_. \<lparr>mp_start = start, mp_size = RT_ALIGN_DOWN sz 4, mp_block_size = bs,
       mp_block_list = Some start, mp_total_count = cnt, mp_free_count = cnt, mp_suspend_count = 0\<rparr>) P;
     Some ((mp_link_blocks start bs cnt P, k), RT_EOK)
   })"

partial_function (option) mp_wake_all :: "nat \<Rightarrow> mempools \<times> kernel \<Rightarrow> (mempools \<times> kernel) option" where
  "mp_wake_all i s =
     (case tlist_of (snd s) (mp_queue i) of
        [] \<Rightarrow> Some s
      | t # _ \<Rightarrow> Option.bind (rt_thread_resume t (upd_thread t (\<lambda>th. th\<lparr>th_error := - RT_ERROR\<rparr>) (snd s)))
          (\<lambda>(k, _). mp_wake_all i (upd_mp i (\<lambda>m. m\<lparr>mp_suspend_count := mp_suspend_count m - 1\<rparr>) (fst s), k)))"

definition rt_mp_detach :: "nat \<Rightarrow> mempools \<times> kernel \<Rightarrow> ((mempools \<times> kernel) \<times> rt_err) option" where
  "rt_mp_detach i s = do {
     (P, k) \<leftarrow> mp_wake_all i s;
     Some ((P, rt_object_detach (OMemPool i) k), RT_EOK)
   }"

text \<open>\<open>mem\<close> and \<open>area\<close>: what the two allocations return.\<close>

definition rt_mp_create ::
  "rt_uint8 list \<Rightarrow> rt_uint32 \<Rightarrow> rt_uint32 \<Rightarrow> nat option \<Rightarrow> rt_uint32 option \<Rightarrow> mempools \<times> kernel \<Rightarrow>
     ((mempools \<times> kernel) \<times> nat option) option" where
  "rt_mp_create nm block_count block_size mem area = (\<lambda>(P, k). do {
     RT_ASSERT (rt_interrupt_nest k = 0);
     (k, _) \<leftarrow> rt_object_allocate (class_code RT_Object_Class_MemPool) nm (map_option OMemPool mem) k;
     (case mem of
        None \<Rightarrow> Some ((P, k), None)
      | Some i \<Rightarrow> do {
          let bs = RT_ALIGN block_size 4;
          let P = upd_mp i (\<lambda>m. m\<lparr>mp_block_size := bs, mp_size := (bs + 4) * block_count\<rparr>) P;
          (case area of
             None \<Rightarrow> map_option (\<lambda>k. ((P, k), None)) (rt_object_delete (OMemPool i) k)
           | Some start \<Rightarrow> do {
               k \<leftarrow> rt_ipc_object_init (mp_queue i) k;
               let P = upd_mp i (\<lambda>m. m\<lparr>mp_start := start, mp_block_list := Some start,
                 mp_total_count := block_count, mp_free_count := block_count, mp_suspend_count := 0\<rparr>) P;
               Some ((mp_link_blocks start bs block_count P, k), Some i)
             })
        })
   })"

definition rt_mp_delete :: "nat \<Rightarrow> mempools \<times> kernel \<Rightarrow> ((mempools \<times> kernel) \<times> rt_err) option" where
  "rt_mp_delete i s = do {
     RT_ASSERT (rt_interrupt_nest (snd s) = 0);
     (P, k) \<leftarrow> mp_wake_all i s;
     map_option (\<lambda>k. ((P, k), RT_EOK)) (rt_object_delete (OMemPool i) k)
   }"

text \<open>Taking the first free block and giving a block back.\<close>

definition mp_take :: "nat \<Rightarrow> mempools \<Rightarrow> (rt_uint32 \<times> mempools) option" where
  "mp_take i P =
     (case mp_block_list (mp_pool P i) of
        None \<Rightarrow> None
      | Some b \<Rightarrow>
          (case mp_mem P b of
             NextBlock p \<Rightarrow> Some (b, set_link b (Owner i) (upd_mp i (\<lambda>m. m\<lparr>mp_free_count := mp_free_count m - 1,
                                 mp_block_list := p\<rparr>) P))
           | Owner _ \<Rightarrow> None))"

definition mp_give :: "nat \<Rightarrow> rt_uint32 \<Rightarrow> mempools \<Rightarrow> mempools" where
  "mp_give i b P =
     upd_mp i (\<lambda>m. m\<lparr>mp_free_count := mp_free_count m + 1, mp_block_list := Some b\<rparr>)
       (set_link b (NextBlock (mp_block_list (mp_pool P i))) P)"

text \<open>One time through the loop of \<^verbatim>\<open>rt_mp_alloc\<close>: an address or
  \<^verbatim>\<open>RT_NULL\<close>, or a wait with the timeout and the tick at its start.\<close>

datatype mp_outcome = MpDone "rt_uint32 option" | MpWait int rt_uint32

definition mp_alloc_loop ::
  "nat \<Rightarrow> int \<Rightarrow> rt_uint32 \<Rightarrow> tid option \<Rightarrow> mempools \<times> kernel \<Rightarrow> ((mempools \<times> kernel) \<times> mp_outcome) option" where
  "mp_alloc_loop i time before self = (\<lambda>(P, k).
     if mp_free_count (mp_pool P i) = 0 then
       (if time = 0 then Some ((P, rt_set_errno (- RT_ETIMEOUT) k), MpDone None)
        else do {
          RT_ASSERT (rt_interrupt_nest k = 0);
          t \<leftarrow> self;
          let k = set_error t RT_EOK k;
          (k, _) \<leftarrow> rt_thread_suspend t k;
          k \<leftarrow> tlist_insert_after (mp_queue i) t k;
          let P = upd_mp i (\<lambda>m. m\<lparr>mp_suspend_count := mp_suspend_count m + 1\<rparr>) P;
          let before = (if 0 < time then rt_tick k else before);
          k \<leftarrow> start_wait_timer t time k;
          k \<leftarrow> rt_schedule k;
          Some ((P, k), MpWait time before)
        })
     else do {
       (b, P) \<leftarrow> mp_take i P;
       Some ((P, k), MpDone (Some (b + 4)))
     })"

definition rt_mp_alloc ::
  "nat \<Rightarrow> int \<Rightarrow> mempools \<times> kernel \<Rightarrow> ((mempools \<times> kernel) \<times> mp_outcome) option" where
  "rt_mp_alloc i time s = mp_alloc_loop i time 0 (rt_thread_self (snd s)) s"

definition rt_mp_alloc_leave ::
  "nat \<Rightarrow> int \<Rightarrow> rt_uint32 \<Rightarrow> tid \<Rightarrow> mempools \<times> kernel \<Rightarrow> ((mempools \<times> kernel) \<times> mp_outcome) option" where
  "rt_mp_alloc_leave i time before t s =
     (if th_error (k_thread (snd s) t) \<noteq> RT_EOK then Some (s, MpDone None)
      else mp_alloc_loop i (if 0 < time then recalc_timeout time (rt_tick (snd s) - before) else time) before (Some t) s)"

text \<open>\<open>None\<close>: the word in front of the block is no pool, or a waiter is counted and the
  head of the empty list is used as a thread.\<close>

definition rt_mp_free :: "rt_uint32 \<Rightarrow> mempools \<times> kernel \<Rightarrow> (mempools \<times> kernel) option" where
  "rt_mp_free block = (\<lambda>(P, k).
     (case mp_mem P (block - 4) of
        NextBlock _ \<Rightarrow> None
      | Owner i \<Rightarrow>
          (let P = mp_give i (block - 4) P
           in if 0 < mp_suspend_count (mp_pool P i) then
                (case tlist_of k (mp_queue i) of
                   [] \<Rightarrow> None
                 | t # _ \<Rightarrow> do {
                     (k, _) \<leftarrow> rt_thread_resume t (set_error t RT_EOK k);
                     let P = upd_mp i (\<lambda>m. m\<lparr>mp_suspend_count := mp_suspend_count m - 1\<rparr>) P;
                     k \<leftarrow> rt_schedule k;
                     Some (P, k)
                   })
              else Some (P, k))))"

lemmas mp_state_defs = upd_mp_def set_link_def mp_take_def mp_give_def
lemmas mp_defs = mp_state_defs mp_addr_def mp_link_blocks_def rt_mp_init_def rt_mp_detach_def rt_mp_create_def
  rt_mp_delete_def mp_alloc_loop_def rt_mp_alloc_def rt_mp_alloc_leave_def rt_mp_free_def

declare mp_defs [op_defs]

section \<open>The free list\<close>

definition mp_next :: "mempools \<Rightarrow> rt_uint32 \<Rightarrow> rt_uint32 option" where
  "mp_next P b = (case mp_mem P b of NextBlock p \<Rightarrow> p | Owner _ \<Rightarrow> None)"

definition mp_blocks :: "rt_mempool \<Rightarrow> rt_uint32 set" where
  "mp_blocks m = mp_addr (mp_start m) (mp_block_size m) ` {..<unat (mp_total_count m)}"

definition mp_used :: "nat \<Rightarrow> mempools \<Rightarrow> rt_uint32 set" where
  "mp_used i P = {b \<in> mp_blocks (mp_pool P i). mp_mem P b = Owner i}"

definition mp_rep :: "nat \<Rightarrow> mempools \<Rightarrow> rt_uint32 list \<Rightarrow> bool" where
  "mp_rep i P fs \<longleftrightarrow> (let m = mp_pool P i in
     chain (mp_next P) (mp_block_list m) fs \<and> distinct fs \<and> set fs \<subseteq> mp_blocks m \<and>
     unat (mp_free_count m) = length fs \<and> card (mp_blocks m) = unat (mp_total_count m) \<and>
     (\<forall>b \<in> set fs. \<exists>p. mp_mem P b = NextBlock p) \<and> (\<forall>b \<in> mp_blocks m - set fs. mp_mem P b = Owner i))"

lemma finite_mp_blocks [simp]: "finite (mp_blocks m)"
  by (simp add: mp_blocks_def)

lemma mp_rep_used:
  assumes "mp_rep i P fs"
  shows "mp_used i P = mp_blocks (mp_pool P i) - set fs"
    "card (mp_used i P) + length fs = unat (mp_total_count (mp_pool P i))"
proof -
  show u: "mp_used i P = mp_blocks (mp_pool P i) - set fs"
    using assms by (fastforce simp: mp_used_def mp_rep_def Let_def)
  have "set fs \<subseteq> mp_blocks (mp_pool P i)" using assms by (simp add: mp_rep_def Let_def)
  then have "card (mp_used i P) + card (set fs) = card (mp_blocks (mp_pool P i))"
    unfolding u by (simp add: card_Diff_subset card_mono)
  then show "card (mp_used i P) + length fs = unat (mp_total_count (mp_pool P i))"
    using assms by (simp add: mp_rep_def Let_def distinct_card)
qed

lemma mp_next_set_link [simp]:
  "mp_next (set_link b l P) = (mp_next P)(b := case l of NextBlock p \<Rightarrow> p | Owner _ \<Rightarrow> None)"
  by (auto simp: mp_next_def set_link_def)

lemma mp_next_upd_mp [simp]: "mp_next (upd_mp i f P) = mp_next P"
  by (auto simp: mp_next_def upd_mp_def)

lemma mp_take_spec:
  assumes rep: "mp_rep i P (b # fs)"
  obtains P' where "mp_take i P = Some (b, P')" "mp_rep i P' fs" "mp_used i P' = insert b (mp_used i P)"
    "b \<notin> mp_used i P" "b \<in> mp_blocks (mp_pool P i)"
    "mp_pool P' = (mp_pool P)(i := (mp_pool P i)\<lparr>mp_free_count := mp_free_count (mp_pool P i) - 1,
       mp_block_list := mp_next P b\<rparr>)"
    "\<And>a. a \<noteq> b \<Longrightarrow> mp_mem P' a = mp_mem P a" "mp_mem P' b = Owner i"
proof -
  let ?m = "mp_pool P i"
  obtain q where q: "mp_mem P b = NextBlock q" using rep by (auto simp: mp_rep_def Let_def)
  have hd: "mp_block_list ?m = Some b" "mp_next P b = q" using rep q by (auto simp: mp_rep_def Let_def mp_next_def)
  let ?P = "set_link b (Owner i) (upd_mp i (\<lambda>m. m\<lparr>mp_free_count := mp_free_count m - 1, mp_block_list := q\<rparr>) P)"
  have t: "mp_take i P = Some (b, ?P)" using hd q by (simp add: mp_take_def)
  have bl: "mp_blocks (mp_pool ?P i) = mp_blocks ?m" by (simp add: mp_blocks_def set_link_def upd_mp_def)
  have ch: "chain (mp_next ?P) q fs"
    using rep hd by (simp add: mp_rep_def Let_def)
  have f: "unat (mp_free_count ?m) = Suc (length fs)" using rep by (simp add: mp_rep_def Let_def)
  then have "mp_free_count ?m \<noteq> 0" by auto
  then have n: "unat (mp_free_count ?m - 1) = length fs" using f by (simp add: unat_minus_one)
  have r: "mp_rep i ?P fs"
    using rep ch n bl by (auto simp: mp_rep_def Let_def set_link_def upd_mp_def)
  have nu: "b \<notin> mp_used i P" using q by (simp add: mp_used_def)
  have bb: "b \<in> mp_blocks ?m" using rep by (simp add: mp_rep_def Let_def)
  have u: "mp_used i ?P = insert b (mp_used i P)"
    using bb by (auto simp: mp_used_def bl) (auto simp: set_link_def upd_mp_def split: if_splits)
  show ?thesis
    by (rule that[OF t r u nu bb]) (simp_all add: set_link_def upd_mp_def hd(2))
qed

lemma mp_give_spec:
  assumes rep: "mp_rep i P fs" and b: "b \<in> mp_used i P"
  shows "mp_rep i (mp_give i b P) (b # fs)" "mp_used i (mp_give i b P) = mp_used i P - {b}"
    "mp_blocks (mp_pool (mp_give i b P) i) = mp_blocks (mp_pool P i)"
proof -
  let ?m = "mp_pool P i" and ?P = "mp_give i b P"
  show bl: "mp_blocks (mp_pool ?P i) = mp_blocks ?m" by (simp add: mp_blocks_def mp_give_def set_link_def upd_mp_def)
  have nin: "b \<notin> set fs" and bb: "b \<in> mp_blocks ?m" using b mp_rep_used(1)[OF rep] by auto
  have "card (set fs) < card (mp_blocks ?m)"
    using nin bb rep by (intro psubset_card_mono) (auto simp: mp_rep_def Let_def)
  then have "length fs < unat (mp_total_count ?m)" using rep by (simp add: mp_rep_def Let_def distinct_card)
  then have n: "unat (mp_free_count ?m + 1) = Suc (length fs)"
    using rep unsigned_less[of "mp_total_count ?m", where 'a = nat] by (simp add: mp_rep_def Let_def unat_word_ariths)
  have ch: "chain (mp_next ?P) (mp_block_list ?m) fs"
    using rep nin by (simp add: mp_rep_def Let_def mp_give_def)
  show "mp_rep i ?P (b # fs)"
  proof -
    have mem: "mp_mem ?P = (mp_mem P)(b := NextBlock (mp_block_list ?m))"
      and pl: "mp_pool ?P i = ?m\<lparr>mp_free_count := mp_free_count ?m + 1, mp_block_list := Some b\<rparr>"
      and nx: "mp_next ?P b = mp_block_list ?m"
      by (simp_all add: mp_give_def mp_next_def set_link_def upd_mp_def)
    show ?thesis using rep ch n bl nin bb by (auto simp: mp_rep_def Let_def mem pl nx split: if_splits)
  qed
  show "mp_used i ?P = mp_used i P - {b}"
    by (auto simp: mp_used_def bl) (auto simp: mp_give_def set_link_def upd_mp_def split: if_splits)
qed

definition mp_ok :: "nat \<Rightarrow> mempools \<Rightarrow> bool" where
  "mp_ok i P \<longleftrightarrow> (\<exists>fs. mp_rep i P fs)"

lemma mp_free_count_used:
  assumes "mp_rep i P fs"
  shows "mp_free_count (mp_pool P i) = 0 \<longleftrightarrow> fs = []" "mp_block_list (mp_pool P i) = None \<longleftrightarrow> fs = []"
  using assms chain_None by (auto simp: mp_rep_def Let_def unat_eq_zero[symmetric])

lemma mp_blocks_cong:
  "mp_start m = mp_start m' \<Longrightarrow> mp_block_size m = mp_block_size m' \<Longrightarrow> mp_total_count m = mp_total_count m' \<Longrightarrow>
     mp_blocks m = mp_blocks m'"
  by (simp add: mp_blocks_def)

interpretation mp: block_alloc "mp_ok i" "mp_used i" "\<lambda>P. unat (mp_total_count (mp_pool P i))" "mp_take i" "mp_give i" for i
proof unfold_locales
  fix P b P'
  assume "mp_ok i P"
  then obtain fs where rep: "mp_rep i P fs" by (auto simp: mp_ok_def)
  note u = mp_rep_used[OF rep]
  show "finite (mp_used i P) \<and> card (mp_used i P) \<le> unat (mp_total_count (mp_pool P i))"
    using u by simp
  show "mp_take i P = None \<longleftrightarrow> card (mp_used i P) = unat (mp_total_count (mp_pool P i))"
  proof (cases fs)
    case Nil
    then show ?thesis using u mp_free_count_used(2)[OF rep] by (simp add: mp_take_def)
  next
    case (Cons b fs')
    have "mp_take i P \<noteq> None" by (rule mp_take_spec[OF rep[unfolded Cons]]) simp
    then show ?thesis using u(2) Cons by simp
  qed
  show "mp_ok i P' \<and> b \<notin> mp_used i P \<and> mp_used i P' = insert b (mp_used i P) \<and>
      unat (mp_total_count (mp_pool P' i)) = unat (mp_total_count (mp_pool P i))" if t: "mp_take i P = Some (b, P')"
  proof (cases fs)
    case Nil
    then show ?thesis using t mp_free_count_used(2)[OF rep] by (simp add: mp_take_def)
  next
    case (Cons b' fs')
    show ?thesis
      by (rule mp_take_spec[OF rep[unfolded Cons]]) (use t in \<open>auto simp: mp_ok_def\<close>)
  qed
  show "mp_ok i (mp_give i b P) \<and> mp_used i (mp_give i b P) = mp_used i P - {b} \<and>
      unat (mp_total_count (mp_pool (mp_give i b P) i)) = unat (mp_total_count (mp_pool P i))" if b: "b \<in> mp_used i P"
    using mp_give_spec[OF rep b] by (auto simp: mp_ok_def) (simp add: mp_give_def upd_mp_def set_link_def)
qed

text \<open>A new pool with room for a block has them all free, in the order of their addresses.\<close>

lemma mp_addr_Suc: "mp_addr start bs (Suc n) = mp_addr start bs n + (bs + 4)"
  by (simp add: mp_addr_def algebra_simps)

lemma mp_addr_inj:
  assumes "cnt * unat (bs + 4) \<le> 2 ^ 32" "bs + 4 \<noteq> 0"
  shows "inj_on (mp_addr start bs) {..<cnt}"
proof (rule inj_onI)
  fix a b assume ab: "a \<in> {..<cnt}" "b \<in> {..<cnt}" and e: "mp_addr start bs a = mp_addr start bs b"
  let ?s = "unat (bs + 4)"
  have pos: "0 < ?s" using assms(2) by (simp add: unat_gt_0)
  have small: "n * ?s < 2 ^ 32" if "n < cnt" for n
    using that pos assms(1) by (meson less_le_trans mult_less_mono1)
  have len32: "LENGTH(32) = 32" by simp
  have u: "unat (of_nat n * (bs + 4) :: rt_uint32) = n * ?s" if "n < cnt" for n
  proof -
    have "of_nat n * (bs + 4) = (of_nat (n * ?s) :: rt_uint32)" by simp
    then have "unat (of_nat n * (bs + 4) :: rt_uint32) = take_bit 32 (n * ?s)"
      by (simp only: unsigned_of_nat len32 of_nat_id)
    then show ?thesis using small[OF that] by (simp add: take_bit_nat_eq_self)
  qed
  have "of_nat a * (bs + 4) = (of_nat b * (bs + 4) :: rt_uint32)" using e by (simp add: mp_addr_def)
  then have "a * ?s = b * ?s" using u ab by (metis lessThan_iff)
  then show "a = b" using pos by simp
qed

lemma mp_link_loop_mem:
  "mp_mem (mp_link_loop start bs n P) a =
     (if a \<in> mp_addr start bs ` {..<n} then NextBlock (Some (a + (bs + 4))) else mp_mem P a)"
  by (induction n) (auto simp: set_link_def mp_addr_Suc lessThan_Suc)

lemma mp_link_loop_pool: "mp_pool (mp_link_loop start bs n P) = mp_pool P"
  by (induction n) (simp_all add: set_link_def)

lemma mp_link_blocks_rep:
  assumes pos: "0 < cnt" and fit: "unat cnt * unat (bs + 4) \<le> 2 ^ 32" "bs + 4 \<noteq> 0"
    and m: "mp_start (mp_pool P i) = start" "mp_block_size (mp_pool P i) = bs" "mp_block_list (mp_pool P i) = Some start"
      "mp_total_count (mp_pool P i) = cnt" "mp_free_count (mp_pool P i) = cnt"
  shows "mp_rep i (mp_link_blocks start bs cnt P) (map (mp_addr start bs) [0..<unat cnt])"
proof -
  let ?a = "mp_addr start bs" and ?n = "unat cnt" and ?P = "mp_link_blocks start bs cnt P"
  note inj = mp_addr_inj[OF fit, of start]
  have n: "0 < ?n" using pos by (simp add: unat_gt_0)
  have c1: "cnt - 1 = of_nat (?n - 1)" using n by (simp add: of_nat_diff)
  have last: "start + (cnt - 1) * (bs + 4) = ?a (?n - 1)" by (simp only: c1 mp_addr_def)
  have mem: "mp_mem ?P (?a j) = NextBlock (if j = ?n - 1 then None else Some (?a (Suc j)))" if "j < ?n" for j
  proof -
    have "?a j = ?a (?n - 1) \<longleftrightarrow> j = ?n - 1" using inj_on_eq_iff[OF inj] that n by simp
    then show ?thesis unfolding mp_link_blocks_def last
      using that by (simp add: set_link_def mp_link_loop_mem mp_addr_Suc)
  qed
  have pool: "mp_pool ?P = mp_pool P" by (simp add: mp_link_blocks_def set_link_def mp_link_loop_pool)
  have bl: "mp_blocks (mp_pool P i) = ?a ` {..<?n}" by (simp add: mp_blocks_def m)
  have ch: "chain (mp_next ?P) (if j = ?n then None else Some (?a j)) (map ?a [j..<?n])" if "j \<le> ?n" for j
    using that
  proof (induction rule: inc_induct)
    case (step k)
    have "mp_next ?P (?a k) = (if Suc k = ?n then None else Some (?a (Suc k)))"
      using step.hyps by (auto simp: mp_next_def mem)
    then show ?case using step by (simp add: upt_conv_Cons)
  qed simp
  have card: "card (?a ` {..<?n}) = ?n" using inj by (simp add: card_image)
  have dist: "distinct (map ?a [0..<?n])" using inj by (simp add: distinct_map lessThan_atLeast0)
  have s0: "?a 0 = start" by (simp add: mp_addr_def)
  show ?thesis
    unfolding mp_rep_def Let_def pool bl m
    using ch[of 0] n card dist s0 mem by (auto simp: image_iff)
qed

section \<open>Waiting for a block\<close>

lemma mp_alloc_block:
  assumes rep: "mp_rep i P (b # fs)"
  shows "\<exists>P'. mp_alloc_loop i time before self (P, k) = Some ((P', k), MpDone (Some (b + 4))) \<and> mp_rep i P' fs \<and>
    mp_used i P' = insert b (mp_used i P) \<and> b \<notin> mp_used i P \<and> b \<in> mp_blocks (mp_pool P i) \<and>
    mp_suspend_count (mp_pool P' i) = mp_suspend_count (mp_pool P i) \<and> mp_mem P' b = Owner i"
proof -
  have ne: "mp_free_count (mp_pool P i) \<noteq> 0" using mp_free_count_used(1)[OF rep] by simp
  show ?thesis by (rule mp_take_spec[OF rep]) (use ne in \<open>simp add: mp_alloc_loop_def\<close>)
qed

text \<open>The caller goes to the front of the waiting list.\<close>

lemma mp_alloc_wait:
  assumes inv: "kinv k" and cb: "can_block t k" and none: "mp_free_count (mp_pool P i) = 0"
    and tm: "time \<noteq> 0" "time < 2 ^ 31 - 1"
  obtains k' where "mp_alloc_loop i time before (Some t) (P, k)
      = Some ((upd_mp i (\<lambda>m. m\<lparr>mp_suspend_count := mp_suspend_count m + 1\<rparr>) P, k'),
          MpWait time (if 0 < time then rt_tick k else before))"
    "kinv k'" "keeps k k'" "tlist_of k' (mp_queue i) = t # tlist_of k (mp_queue i)"
    "k_thread k' = (k_thread k)(t := suspended ((k_thread k t)\<lparr>th_error := RT_EOK\<rparr>))"
    "ls_on (k_rows k') (ThreadTimer t) = (if 0 < time then Some HardTimers else None)"
    "rt_current_thread k' \<noteq> None" "rt_scheduler_lock_nest k = 0 \<Longrightarrow> highest_runs k'"
proof -
  note c = can_blockD[OF cb]
  let ?k = "set_error t RT_EOK k"
  have inv0: "kinv ?k" by (rule kinv_set_error[OF inv])
  have st0: "thread_state (k_thread ?k t) = RT_THREAD_READY" using c(3) by simp
  obtain k1 where k1: "rt_thread_suspend t ?k = Some (k1, RT_EOK)" "kinv k1"
    "ls_on (k_tlist k1) = (ls_on (k_tlist ?k))(t := None)" "\<And>h. tlist_of k1 h = remove1 t (tlist_of ?k h)"
    "k_thread k1 = (k_thread ?k)(t := suspended (k_thread ?k t))"
    "ls_on (k_rows k1) = (ls_on (k_rows ?k))(ThreadTimer t := None)" "keeps ?k k1"
    "rt_current_thread k1 = rt_current_thread ?k"
    by (rule suspend_ready[OF inv0 st0]) (rule that; assumption)
  have nin: "t \<notin> set (tlist_of k (mp_queue i))"
    using waiter_suspended(1)[OF inv, of "mp_queue i" t] c(3) by auto
  let ?xs = "t # tlist_of k (mp_queue i)"
  let ?L = "\<lparr>ls_nodes = (ls_nodes (k_tlist k1))(mp_queue i := ?xs), ls_on = (ls_on (k_tlist k1))(t \<mapsto> mp_queue i)\<rparr>"
  let ?k2 = "k1\<lparr>k_tlist := ?L\<rparr>"
  have off1: "ls_on (k_tlist k1) t = None" by (simp add: k1(3))
  have q1: "tlist_of k1 (mp_queue i) = tlist_of k (mp_queue i)" using nin by (simp add: k1(4) remove1_idem)
  have ins: "tlist_insert_after (mp_queue i) t k1 = Some ?k2"
    using off1 q1 by (simp add: tlist_insert_after_def ls_insert_after_head_def)
  have st1: "thread_state (k_thread k1 t) = RT_THREAD_SUSPEND" by (simp add: k1(5))
  have dist: "distinct ?xs" using nin ls_wf_distinct[OF sched_inv_wf[OF kinvD(1)[OF inv]]] by simp
  have inv2: "kinv ?k2" by (rule kinv_link_waiter[OF k1(2) st1 off1 _ _ dist]) (simp_all add: q1)
  have st2: "thread_state (k_thread ?k2 t) = RT_THREAD_SUSPEND" and off2: "ls_on (k_rows ?k2) (ThreadTimer t) = None"
    using st1 by (simp_all add: k1(6))
  obtain k3 where k3: "start_wait_timer t time ?k2 = Some k3" "kinv k3" "keeps ?k2 k3"
    "k_tlist k3 = k_tlist ?k2" "k_thread k3 = k_thread ?k2" "rt_current_thread k3 = rt_current_thread ?k2"
    "ls_on (k_rows k3) = (ls_on (k_rows ?k2))(ThreadTimer t := if 0 < time then Some HardTimers else None)"
    by (rule start_wait_timer_spec[OF inv2 st2 off2 tm(2)]) (rule that; assumption)
  have st3: "thread_state (k_thread k3 idle_thread) = RT_THREAD_READY" and cur3: "rt_current_thread k3 \<noteq> None"
    using c(1,4,5) by (simp_all add: k3(5,6) k1(5,8))
  obtain k4 where k4: "rt_schedule k3 = Some k4" "kinv k4" "keeps k3 k4" "rt_current_thread k4 \<noteq> None"
    "k_tlist k4 = k_tlist k3" "k_thread k4 = k_thread k3" "k_rows k4 = k_rows k3"
    "rt_scheduler_lock_nest k3 = 0 \<Longrightarrow> highest_runs k4"
    by (rule schedule_ready[OF k3(2) st3 cur3]) (rule that; assumption)
  have kp: "keeps k k3" using keeps_trans[OF k1(7), of k3] k3(3) by simp
  have tick: "rt_tick k1 = rt_tick k" and lock: "rt_scheduler_lock_nest k3 = rt_scheduler_lock_nest k"
    using k1(7) kp by (simp_all add: keeps_def)
  have run: "mp_alloc_loop i time before (Some t) (P, k)
      = Some ((upd_mp i (\<lambda>m. m\<lparr>mp_suspend_count := mp_suspend_count m + 1\<rparr>) P, k4),
          MpWait time (if 0 < time then rt_tick k else before))"
    using none tm c(2) k1(1) ins k3(1) k4(1) tick by (simp add: mp_alloc_loop_def RT_ASSERT_def)
  show ?thesis
    by (rule that[OF run k4(2) keeps_trans[OF kp k4(3)] _ _ _ k4(4)])
      (use lock k4(8) in \<open>simp_all add: k4(5-7) k3(4,5,7) k1(5)\<close>)
qed

text \<open>A block given back while threads wait: the first one is made ready and no longer counted.\<close>

lemma mp_free_wake:
  assumes inv: "kinv k" and rep: "mp_rep i P fs" and b: "b \<in> mp_used i P"
    and q: "tlist_of k (mp_queue i) = t # ts" and n: "mp_suspend_count (mp_pool P i) \<noteq> 0"
    and cur: "rt_current_thread k \<noteq> None"
  obtains k' where "rt_mp_free (b + 4) (P, k)
      = Some (upd_mp i (\<lambda>m. m\<lparr>mp_suspend_count := mp_suspend_count m - 1\<rparr>) (mp_give i b P), k')"
    "kinv k'" "keeps k k'" "tlist_of k' (mp_queue i) = ts"
    "k_thread k' = (k_thread k)(t := readied ((k_thread k t)\<lparr>th_error := RT_EOK\<rparr>))"
    "rt_current_thread k' \<noteq> None" "rt_scheduler_lock_nest k = 0 \<Longrightarrow> highest_runs k'"
proof -
  let ?k = "set_error t RT_EOK k"
  have own: "mp_mem P b = Owner i" using b by (simp add: mp_used_def)
  have inv0: "kinv ?k" by (rule kinv_set_error[OF inv])
  have q0: "tlist_of ?k (mp_queue i) = t # ts" and h: "wait_head (mp_queue i)" using q by simp_all
  obtain k1 where k1: "rt_ipc_list_resume (mp_queue i) ?k = Some k1" "kinv k1" "keeps ?k k1"
    "tlist_of k1 (mp_queue i) = ts" "k_thread k1 = (k_thread ?k)(t := readied (k_thread ?k t))"
    "rt_current_thread k1 = rt_current_thread ?k"
    by (rule list_resume_spec[OF inv0 h q0]) (rule that; assumption)
  obtain e where res: "rt_thread_resume t ?k = Some (k1, e)" using k1(1) q0 by (auto simp: rt_ipc_list_resume_def)
  have st: "thread_state (k_thread k1 t) = RT_THREAD_READY" and cur1: "rt_current_thread k1 \<noteq> None"
    using cur by (simp_all add: k1(5,6))
  obtain k2 where k2: "rt_schedule k1 = Some k2" "kinv k2" "keeps k1 k2" "rt_current_thread k2 \<noteq> None"
    "k_tlist k2 = k_tlist k1" "k_thread k2 = k_thread k1" "rt_scheduler_lock_nest k1 = 0 \<Longrightarrow> highest_runs k2"
    by (rule schedule_ready[OF k1(2) st cur1]) (rule that; assumption)
  have kp: "keeps k k1" using k1(3) by simp
  then have lock: "rt_scheduler_lock_nest k1 = rt_scheduler_lock_nest k" by (simp add: keeps_def)
  have cnt: "mp_suspend_count (mp_pool (mp_give i b P) i) = mp_suspend_count (mp_pool P i)"
    by (simp add: mp_give_def upd_mp_def set_link_def)
  have run: "rt_mp_free (b + 4) (P, k)
      = Some (upd_mp i (\<lambda>m. m\<lparr>mp_suspend_count := mp_suspend_count m - 1\<rparr>) (mp_give i b P), k2)"
    using own q n res k2(1) cnt by (simp add: rt_mp_free_def Let_def word_gt_0 del: upd_thread_def)
  show ?thesis
    by (rule that[OF run k2(2) keeps_trans[OF kp k2(3)] _ _ k2(4)])
      (use lock k2(7) in \<open>simp_all add: k2(5,6) k1(4,5)\<close>)
qed

lemma mp_free_idle:
  assumes "b \<in> mp_used i P" "mp_suspend_count (mp_pool P i) = 0"
  shows "rt_mp_free (b + 4) (P, k) = Some (mp_give i b P, k)"
  using assms by (simp add: rt_mp_free_def mp_used_def mp_give_def upd_mp_def set_link_def)

text \<open>A waiter that timed out is still counted: then the next \<^verbatim>\<open>rt_mp_free\<close> has no
  thread to wake.\<close>

lemma mp_free_stale:
  assumes "b \<in> mp_used i P" "mp_suspend_count (mp_pool P i) \<noteq> 0" "tlist_of k (mp_queue i) = []"
  shows "rt_mp_free (b + 4) (P, k) = None"
  using assms by (simp add: rt_mp_free_def mp_used_def mp_give_def upd_mp_def set_link_def word_gt_0)

text \<open>Waking all waiters when the pool goes away.\<close>

lemma mp_wake_all_spec:
  assumes "kinv k"
  shows "\<exists>k'. mp_wake_all i (P, k) = Some (upd_mp i (\<lambda>m. m\<lparr>mp_suspend_count :=
        mp_suspend_count m - of_nat (length (tlist_of k (mp_queue i)))\<rparr>) P, k') \<and> kinv k' \<and> keeps k k' \<and>
    tlist_of k' (mp_queue i) = [] \<and>
    (\<forall>t \<in> set (tlist_of k (mp_queue i)). thread_state (k_thread k' t) = RT_THREAD_READY \<and>
       th_error (k_thread k' t) = - RT_ERROR)"
proof -
  have h: "wait_head (mp_queue i)" by simp
  have sim: "mp_wake_all i (P, k) = map_option (\<lambda>k'. (upd_mp i (\<lambda>m. m\<lparr>mp_suspend_count :=
        mp_suspend_count m - of_nat (length (tlist_of k (mp_queue i)))\<rparr>) P, k')) (rt_ipc_list_resume_all (mp_queue i) k)"
    using assms
  proof (induction "tlist_of k (mp_queue i)" arbitrary: k P)
    case Nil
    then show ?case by (simp add: mp_wake_all.simps[of i "(P, k)"] rt_ipc_list_resume_all.simps[of _ k] upd_mp_def)
  next
    case (Cons t ts)
    let ?k1 = "set_error t (- RT_ERROR) k"
    have inv1: "kinv ?k1" by (rule kinv_set_error[OF Cons.prems])
    have q1: "tlist_of ?k1 (mp_queue i) = t # ts" using Cons.hyps(2) by simp
    obtain k2 where k2: "rt_ipc_list_resume (mp_queue i) ?k1 = Some k2" "kinv k2" "tlist_of k2 (mp_queue i) = ts"
      by (rule list_resume_spec[OF inv1 h q1]) (rule that; assumption)
    obtain e where res: "rt_thread_resume t ?k1 = Some (k2, e)" using k2(1) q1 by (auto simp: rt_ipc_list_resume_def)
    let ?P = "upd_mp i (\<lambda>m. m\<lparr>mp_suspend_count := mp_suspend_count m - 1\<rparr>) P"
    have c: "mp_suspend_count (mp_pool P i) - 1 - w = mp_suspend_count (mp_pool P i) - (1 + w)" for w by simp
    have "mp_wake_all i (P, k) = mp_wake_all i (?P, k2)"
      using Cons.hyps(2)[symmetric] res by (simp add: mp_wake_all.simps[of i "(P, k)"])
    also have "\<dots> = map_option (\<lambda>k'. (upd_mp i (\<lambda>m. m\<lparr>mp_suspend_count :=
        mp_suspend_count m - of_nat (length (tlist_of k2 (mp_queue i)))\<rparr>) ?P, k')) (rt_ipc_list_resume_all (mp_queue i) k2)"
      by (rule Cons.hyps(1)) (simp_all add: k2)
    also have "rt_ipc_list_resume_all (mp_queue i) k2 = rt_ipc_list_resume_all (mp_queue i) k"
      using Cons.hyps(2)[symmetric] res by (simp add: rt_ipc_list_resume_all.simps[of _ k])
    finally show ?case using Cons.hyps(2)[symmetric] k2(3) by (simp add: upd_mp_def c)
  qed
  show ?thesis using resume_all_spec[OF assms h] unfolding sim by auto
qed

end
