(* ===== verification/Rtt_Memheap.thy ===== *)
theory Rtt_Memheap
  imports Rtt_Sem Rtt_Align
begin

text \<open>
  The memory heap (\<^verbatim>\<open>rt-thread/src/memheap.c\<close>), which is also the system heap
  (\<^verbatim>\<open>RT_USING_MEMHEAP_AS_HEAP\<close>). The headers of the blocks are kept as one map
  from addresses per field; addresses are 32-bit words and \<^verbatim>\<open>RT_NULL\<close> is 0. The
  part of a call that runs while the heap's semaphore is held is a function on this memory alone
  (\<open>alloc_locked\<close>, \<open>free_locked\<close>, \<open>grow_locked\<close>, \<open>shrink_locked\<close>); a call that has to wait for the
  semaphore says where it goes on.
\<close>

section \<open>State\<close>

record rt_memheap =
  start_addr :: rt_uint32
  pool_size :: rt_uint32
  available_size :: rt_uint32
  max_used_size :: rt_uint32
  block_list :: rt_uint32
  free_list :: rt_uint32
  mh_lock :: nat

record memheaps =
  mi_magic :: "rt_uint32 \<Rightarrow> rt_uint32"
  mi_pool :: "rt_uint32 \<Rightarrow> nat"
  mi_next :: "rt_uint32 \<Rightarrow> rt_uint32"
  mi_prev :: "rt_uint32 \<Rightarrow> rt_uint32"
  mi_next_free :: "rt_uint32 \<Rightarrow> rt_uint32"
  mi_prev_free :: "rt_uint32 \<Rightarrow> rt_uint32"
  mi_thread :: "rt_uint32 \<Rightarrow> rt_uint8 list"
  mi_tick :: "rt_uint32 \<Rightarrow> rt_tick"
  mi_byte :: "rt_uint32 \<Rightarrow> rt_uint8"
  mh_heap :: "nat \<Rightarrow> rt_memheap"

text \<open>The header has nine words, as \<^verbatim>\<open>RT_USING_MEMTRACE\<close> is configured.\<close>

abbreviation RT_MEMHEAP_MAGIC :: rt_uint32 where "RT_MEMHEAP_MAGIC \<equiv> 0x1ea01ea0"
abbreviation RT_MEMHEAP_MASK :: rt_uint32 where "RT_MEMHEAP_MASK \<equiv> 0xfffffffe"
abbreviation RT_MEMHEAP_USED :: rt_uint32 where "RT_MEMHEAP_USED \<equiv> 1"
abbreviation RT_MEMHEAP_MINIALLOC :: rt_uint32 where "RT_MEMHEAP_MINIALLOC \<equiv> 12"
abbreviation RT_MEMHEAP_SIZE :: rt_uint32 where "RT_MEMHEAP_SIZE \<equiv> 36"

definition RT_MEMHEAP_IS_USED :: "memheaps \<Rightarrow> rt_uint32 \<Rightarrow> bool" where
  "RT_MEMHEAP_IS_USED M a \<longleftrightarrow> mi_magic M a AND RT_MEMHEAP_USED \<noteq> 0"

definition MEMITEM_SIZE :: "memheaps \<Rightarrow> rt_uint32 \<Rightarrow> rt_uint32" where
  "MEMITEM_SIZE M a = mi_next M a - a - RT_MEMHEAP_SIZE"

definition set_magic :: "rt_uint32 \<Rightarrow> rt_uint32 \<Rightarrow> memheaps \<Rightarrow> memheaps" where
  "set_magic a v M = M\<lparr>mi_magic := (mi_magic M)(a := v)\<rparr>"

definition set_pool :: "rt_uint32 \<Rightarrow> nat \<Rightarrow> memheaps \<Rightarrow> memheaps" where
  "set_pool a v M = M\<lparr>mi_pool := (mi_pool M)(a := v)\<rparr>"

definition set_next :: "rt_uint32 \<Rightarrow> rt_uint32 \<Rightarrow> memheaps \<Rightarrow> memheaps" where
  "set_next a v M = M\<lparr>mi_next := (mi_next M)(a := v)\<rparr>"

definition set_prev :: "rt_uint32 \<Rightarrow> rt_uint32 \<Rightarrow> memheaps \<Rightarrow> memheaps" where
  "set_prev a v M = M\<lparr>mi_prev := (mi_prev M)(a := v)\<rparr>"

definition set_next_free :: "rt_uint32 \<Rightarrow> rt_uint32 \<Rightarrow> memheaps \<Rightarrow> memheaps" where
  "set_next_free a v M = M\<lparr>mi_next_free := (mi_next_free M)(a := v)\<rparr>"

definition set_prev_free :: "rt_uint32 \<Rightarrow> rt_uint32 \<Rightarrow> memheaps \<Rightarrow> memheaps" where
  "set_prev_free a v M = M\<lparr>mi_prev_free := (mi_prev_free M)(a := v)\<rparr>"

definition upd_heap :: "nat \<Rightarrow> (rt_memheap \<Rightarrow> rt_memheap) \<Rightarrow> memheaps \<Rightarrow> memheaps" where
  "upd_heap i f M = M\<lparr>mh_heap := (mh_heap M)(i := f (mh_heap M i))\<rparr>"

text \<open>The name padded with spaces, and the tick.\<close>

definition item_stamp :: "rt_uint8 list \<Rightarrow> rt_tick \<Rightarrow> rt_uint32 \<Rightarrow> memheaps \<Rightarrow> memheaps" where
  "item_stamp nm now a M =
     M\<lparr>mi_thread := (mi_thread M)(a := take 8 (takeWhile (\<lambda>c. c \<noteq> 0) nm @ replicate 8 32)),
       mi_tick := (mi_tick M)(a := now)\<rparr>"

abbreviation four_spaces :: "rt_uint8 list" where "four_spaces \<equiv> [32, 32, 32, 32]"

section \<open>Lists of blocks\<close>

text \<open>Taking a block off the free list, and putting one at its front.\<close>

definition unlink_free :: "rt_uint32 \<Rightarrow> memheaps \<Rightarrow> memheaps" where
  "unlink_free a M =
     (let M = set_prev_free (mi_next_free M a) (mi_prev_free M a) M
      in set_next_free (mi_prev_free M a) (mi_next_free M a) M)"

definition clear_free :: "rt_uint32 \<Rightarrow> memheaps \<Rightarrow> memheaps" where
  "clear_free a M = set_prev_free a 0 (set_next_free a 0 M)"

definition link_free :: "nat \<Rightarrow> rt_uint32 \<Rightarrow> memheaps \<Rightarrow> memheaps" where
  "link_free i a M =
     (let fl = free_list (mh_heap M i);
          M = set_next_free a (mi_next_free M fl) M;
          M = set_prev_free a fl M;
          M = set_prev_free (mi_next_free M fl) a M
      in set_next_free fl a M)"

text \<open>Putting block \<open>n\<close> behind block \<open>a\<close>, and merging the block behind
  \<open>a\<close> into it.\<close>

definition split_block :: "rt_uint32 \<Rightarrow> rt_uint32 \<Rightarrow> memheaps \<Rightarrow> memheaps" where
  "split_block a n M =
     (let M = set_prev n a M;
          M = set_next n (mi_next M a) M;
          M = set_prev (mi_next M a) n M
      in set_next a n M)"

definition merge_next :: "rt_uint32 \<Rightarrow> memheaps \<Rightarrow> memheaps" where
  "merge_next a M =
     (let f = mi_next M a;
          M = set_prev (mi_next M f) a M
      in set_next a (mi_next M f) M)"

definition add_available :: "nat \<Rightarrow> rt_uint32 \<Rightarrow> memheaps \<Rightarrow> memheaps" where
  "add_available i n M = upd_heap i (\<lambda>h. h\<lparr>available_size := available_size h + n\<rparr>) M"

text \<open>Less is available, and the high-water mark follows.\<close>

definition sub_available :: "nat \<Rightarrow> rt_uint32 \<Rightarrow> memheaps \<Rightarrow> memheaps" where
  "sub_available i n M =
     upd_heap i (\<lambda>h. let h = h\<lparr>available_size := available_size h - n\<rparr>
       in if max_used_size h < pool_size h - available_size h
          then h\<lparr>max_used_size := pool_size h - available_size h\<rparr> else h) M"

section \<open>Initialisation\<close>

text \<open>\<open>hdr\<close> is the address of \<^verbatim>\<open>memheap->free_header\<close>.\<close>

definition memheap_item_init :: "nat \<Rightarrow> rt_tick \<Rightarrow> rt_uint32 \<Rightarrow> memheaps \<Rightarrow> memheaps" where
  "memheap_item_init i now a M =
     (let M = set_magic a RT_MEMHEAP_MAGIC M;
          M = set_pool a i M;
          M = set_prev a 0 (set_next a 0 M);
          M = set_prev_free a a (set_next_free a a M)
      in item_stamp [73, 78, 73, 84] now a M)"

definition memheap_setup :: "nat \<Rightarrow> rt_uint32 \<Rightarrow> rt_uint32 \<Rightarrow> rt_uint32 \<Rightarrow> nat \<Rightarrow> rt_tick \<Rightarrow> memheaps \<Rightarrow> memheaps" where
  "memheap_setup i hdr start sz lock now M =
     (let psize = RT_ALIGN_DOWN sz 4;
          avail = psize - 2 * RT_MEMHEAP_SIZE;
          M = upd_heap i (\<lambda>_. \<lparr>start_addr = start, pool_size = psize, available_size = avail,
                max_used_size = psize - avail, block_list = start, free_list = hdr, mh_lock = lock\<rparr>) M;
          M = memheap_item_init i now hdr M;
          M = memheap_item_init i now start M;
          M = set_next start (start + avail + RT_MEMHEAP_SIZE) M;
          M = set_prev start (mi_next M start) M;
          M = link_free i start M;
          t = mi_next M start;
          M = set_magic t (RT_MEMHEAP_MAGIC OR RT_MEMHEAP_USED) M;
          M = set_pool t i M;
          M = set_prev t start (set_next t start M);
          M = set_prev_free t 0 (set_next_free t 0 M)
      in item_stamp [73, 78, 73, 84] now t M)"

type_synonym mhs = "memheaps \<times> kernel"

definition rt_memheap_init ::
  "nat \<Rightarrow> rt_uint8 list \<Rightarrow> rt_uint32 \<Rightarrow> rt_uint32 \<Rightarrow> rt_uint32 \<Rightarrow> nat \<Rightarrow> mhs \<Rightarrow> (mhs \<times> rt_err) option" where
  "rt_memheap_init i nm hdr start sz lock = (\<lambda>(M, k). do {
     k \<leftarrow> rt_object_init (OMemHeap i) (class_code RT_Object_Class_MemHeap) nm k;
     let M = memheap_setup i hdr start sz lock (rt_tick k) M;
     (k, _) \<leftarrow> rt_sem_init lock nm 1 RT_IPC_FLAG_FIFO k;
     Some ((M, k), RT_EOK)
   })"

definition rt_memheap_detach :: "nat \<Rightarrow> mhs \<Rightarrow> mhs \<times> rt_err" where
  "rt_memheap_detach i = (\<lambda>(M, k).
     ((M, rt_object_detach (OMemHeap i) (rt_object_detach (OSem (mh_lock (mh_heap M i))) k)), RT_EOK))"

section \<open>With the lock held\<close>

text \<open>The walk along the free list ends at its header or at the first block that fits.\<close>

partial_function (option) memheap_search ::
  "memheaps \<Rightarrow> rt_uint32 \<Rightarrow> rt_uint32 \<Rightarrow> rt_uint32 \<Rightarrow> rt_uint32 \<Rightarrow> (rt_uint32 \<times> rt_uint32) option" where
  "memheap_search M fl sz h free_size =
     (if h \<noteq> fl \<and> free_size < sz then
        (if MEMITEM_SIZE M h < sz then memheap_search M fl sz (mi_next_free M h) (MEMITEM_SIZE M h)
         else memheap_search M fl sz h (MEMITEM_SIZE M h))
      else Some (h, free_size))"

definition take_split :: "nat \<Rightarrow> rt_uint32 \<Rightarrow> rt_uint32 \<Rightarrow> rt_tick \<Rightarrow> memheaps \<Rightarrow> memheaps" where
  "take_split i h sz now M =
     (let n = h + sz + RT_MEMHEAP_SIZE;
          M = set_magic n RT_MEMHEAP_MAGIC M;
          M = set_pool n i M;
          M = item_stamp four_spaces now n M;
          M = split_block h n M;
          M = clear_free h (unlink_free h M);
          M = link_free i n M
      in sub_available i (sz + RT_MEMHEAP_SIZE) M)"

definition take_whole :: "nat \<Rightarrow> rt_uint32 \<Rightarrow> rt_uint32 \<Rightarrow> memheaps \<Rightarrow> memheaps" where
  "take_whole i h free_size M = clear_free h (unlink_free h (sub_available i free_size M))"

definition alloc_locked ::
  "nat \<Rightarrow> rt_uint32 \<Rightarrow> rt_uint8 list \<Rightarrow> rt_tick \<Rightarrow> memheaps \<Rightarrow> (memheaps \<times> rt_uint32) option" where
  "alloc_locked i sz who now M = do {
     let fl = free_list (mh_heap M i);
     (h, free_size) \<leftarrow> memheap_search M fl sz (mi_next_free M fl) 0;
     (if sz \<le> free_size then do {
        let M = (if sz + RT_MEMHEAP_SIZE + RT_MEMHEAP_MINIALLOC \<le> free_size
                 then take_split i h sz now M else take_whole i h free_size M);
        let M = set_magic h (mi_magic M h OR RT_MEMHEAP_USED) M;
        Some (item_stamp who now h M, h + RT_MEMHEAP_SIZE)
      }
      else Some (M, 0))
   }"

definition free_locked :: "rt_uint32 \<Rightarrow> rt_tick \<Rightarrow> memheaps \<Rightarrow> memheaps" where
  "free_locked h now M =
     (let i = mi_pool M h;
          M = set_magic h (mi_magic M h AND NOT RT_MEMHEAP_USED) M;
          M = item_stamp four_spaces now h M;
          M = add_available i (MEMITEM_SIZE M h) M;
          (h, M, insert_header) =
            (if \<not> RT_MEMHEAP_IS_USED M (mi_prev M h) then
               (let M = add_available i RT_MEMHEAP_SIZE M;
                    M = set_next (mi_prev M h) (mi_next M h) M;
                    M = set_prev (mi_next M h) (mi_prev M h) M
                in (mi_prev M h, M, False))
             else (h, M, True));
          M = (if \<not> RT_MEMHEAP_IS_USED M (mi_next M h) then
                 (let M = add_available i RT_MEMHEAP_SIZE M;
                      n = mi_next M h
                  in unlink_free n (merge_next h M))
               else M)
      in if insert_header then link_free i h M else M)"

text \<open>The part of \<^verbatim>\<open>rt_memheap_realloc\<close> that takes room from a free block behind
  \<open>h\<close>; the flag says whether it did.\<close>

definition grow_locked ::
  "nat \<Rightarrow> rt_uint32 \<Rightarrow> rt_uint32 \<Rightarrow> rt_uint32 \<Rightarrow> rt_tick \<Rightarrow> memheaps \<Rightarrow> (memheaps \<times> bool) option" where
  "grow_locked i h oldsize newsize now M = do {
     let nx = mi_next M h;
     RT_ASSERT (h < nx);
     (if \<not> RT_MEMHEAP_IS_USED M nx \<and> newsize + RT_MEMHEAP_MINIALLOC < MEMITEM_SIZE M nx + oldsize then do {
        let M = sub_available i (newsize - oldsize) M;
        let M = unlink_free nx M;
        let M = set_prev (mi_next M nx) (mi_prev M nx) M;
        let M = set_next (mi_prev M nx) (mi_next M nx) M;
        let n = h + RT_MEMHEAP_SIZE + newsize;
        let M = set_magic n RT_MEMHEAP_MAGIC M;
        let M = set_pool n i M;
        let M = split_block h n M;
        let M = item_stamp four_spaces now h M;
        Some (link_free i n M, True)
      }
      else Some (M, False))
   }"

definition shrink_locked :: "nat \<Rightarrow> rt_uint32 \<Rightarrow> rt_uint32 \<Rightarrow> memheaps \<Rightarrow> memheaps" where
  "shrink_locked i h newsize M =
     (let n = h + newsize + RT_MEMHEAP_SIZE;
          M = set_magic n RT_MEMHEAP_MAGIC M;
          M = set_pool n i M;
          M = split_block h n M;
          M = (if \<not> RT_MEMHEAP_IS_USED M (mi_next M n) then
                 (let f = mi_next M n;
                      M = upd_heap i (\<lambda>hp. hp\<lparr>available_size := available_size hp - MEMITEM_SIZE M f\<rparr>) M
                  in unlink_free f (merge_next n M))
               else M);
          M = link_free i n M
      in add_available i (MEMITEM_SIZE M n) M)"

lemmas mh_set_defs = set_magic_def set_pool_def set_next_def set_prev_def set_next_free_def set_prev_free_def
  upd_heap_def item_stamp_def
lemmas mh_step_defs = unlink_free_def clear_free_def link_free_def split_block_def merge_next_def
  add_available_def sub_available_def memheap_item_init_def

end
