(* ===== verification/Rtt_Memheap_Inv.thy ===== *)
theory Rtt_Memheap_Inv
  imports Rtt_Memheap
begin

text \<open>
  The invariant of a memory heap and the operations under its lock. The blocks tile the pool from
  its start to the used tailer block (\<open>blocks_ok\<close>), the free ones are a ring through the
  heap's header (\<open>free_ok\<close>), no two free blocks are neighbours, and
  \<open>available_size\<close> is what the free blocks hold together (\<open>heap_rep\<close>).
\<close>

section \<open>Doubly linked segments\<close>

fun segs :: "('a \<Rightarrow> 'a) \<Rightarrow> ('a \<Rightarrow> 'a) \<Rightarrow> 'a list \<Rightarrow> 'a \<Rightarrow> bool" where
  "segs nx pv [] t \<longleftrightarrow> True"
| "segs nx pv (x # xs) t \<longleftrightarrow> nx x = hd (xs @ [t]) \<and> pv (hd (xs @ [t])) = x \<and> segs nx pv xs t"

lemma segs_append: "segs nx pv (xs @ ys) t \<longleftrightarrow> segs nx pv xs (hd (ys @ [t])) \<and> segs nx pv ys t"
  by (induction xs) (auto simp: hd_append split: list.split)

lemma segs_nx [simp]: "a \<notin> set xs \<Longrightarrow> segs (nx(a := v)) pv xs t = segs nx pv xs t"
  by (induction xs) auto

lemma hd_snoc_mem: "hd (xs @ [t]) \<in> insert t (set xs)"
  by (cases xs) auto

lemma segs_pv: "a \<notin> set (tl xs) \<Longrightarrow> a \<noteq> t \<Longrightarrow> segs nx (pv(a := v)) xs t = segs nx pv xs t"
proof (induction xs)
  case (Cons x xs)
  then have "hd (xs @ [t]) \<noteq> a" using hd_snoc_mem[of xs t] by auto
  moreover have "a \<notin> set (tl xs)" using Cons.prems(1) by (cases xs) auto
  ultimately show ?case using Cons by simp
qed simp

lemma segs_insert:
  assumes s: "segs nx pv (xs @ a # ys) t" and d: "distinct (xs @ a # ys)" "distinct (tl (xs @ a # ys) @ [t])"
    and n: "n \<notin> set (xs @ a # ys)" "n \<noteq> t"
  shows "segs (nx(n := hd (ys @ [t]), a := n)) (pv(n := a, hd (ys @ [t]) := n)) (xs @ a # n # ys) t"
proof -
  let ?y = "hd (ys @ [t])"
  have y: "?y \<in> insert t (set ys)" by (rule hd_snoc_mem)
  have nt: "n \<notin> set (tl xs)" using n by (cases xs) auto
  have nt2: "n \<notin> set (tl ys)" using n by (cases ys) auto
  note nt = nt nt2
  have yt: "?y \<notin> set (tl xs)" "?y \<noteq> a \<or> xs = []" using d(2) y by (cases xs; auto)+
  have y2: "?y \<notin> set (tl ys)" "ys \<noteq> [] \<Longrightarrow> ?y \<noteq> t" using d(2) by (cases ys; cases xs; auto)+
  have na: "n \<noteq> a" "n \<noteq> ?y" using n y by auto
  have 1: "segs (nx(n := ?y, a := n)) (pv(n := a, ?y := n)) xs a"
    using s d n nt yt na by (cases "xs = []") (auto simp: segs_append segs_pv)
  have 2: "segs (nx(n := ?y, a := n)) (pv(n := a, ?y := n)) ys t"
    using s d n nt y2 by (cases "ys = []") (auto simp: segs_append segs_pv)
  show ?thesis using 1 2 na by (simp add: segs_append)
qed

lemma segs_remove:
  assumes s: "segs nx pv (xs @ a # x # ys) t" and d: "distinct (xs @ a # x # ys)" "distinct (tl (xs @ a # x # ys) @ [t])"
  shows "segs (nx(a := hd (ys @ [t]))) (pv(hd (ys @ [t]) := a)) (xs @ a # ys) t"
    "nx x = hd (ys @ [t])" "pv x = a" "nx a = x"
proof -
  let ?y = "hd (ys @ [t])"
  have y: "?y \<in> insert t (set ys)" by (rule hd_snoc_mem)
  have yt: "?y \<notin> set (tl xs)" "?y \<noteq> a \<or> xs = []" using d(2) y by (cases xs; auto)+
  have y2: "?y \<notin> set (tl ys)" "ys \<noteq> [] \<Longrightarrow> ?y \<noteq> t" using d(2) by (cases ys; cases xs; auto)+
  have 1: "segs (nx(a := ?y)) (pv(?y := a)) xs a"
    using s d yt by (cases "xs = []") (auto simp: segs_append segs_pv)
  have 2: "segs (nx(a := ?y)) (pv(?y := a)) ys t"
    using s d y2 by (cases "ys = []") (auto simp: segs_append segs_pv)
  show "segs (nx(a := ?y)) (pv(?y := a)) (xs @ a # ys) t" using 1 2 by (simp add: segs_append)
  show "nx x = ?y" "pv x = a" "nx a = x" using s by (simp_all add: segs_append)
qed

text \<open>Two neighbours in a ring.\<close>

lemma segs_next: "segs nx pv (xs @ a # ys) t \<Longrightarrow> nx a = hd (ys @ [t])"
  by (simp add: segs_append)

lemma segs_prev: "segs nx pv (xs @ a # ys) t \<Longrightarrow> pv (hd (ys @ [t])) = a"
  by (simp add: segs_append)

section \<open>The invariant\<close>

abbreviation used :: "memheaps \<Rightarrow> rt_uint32 \<Rightarrow> bool" where "used \<equiv> RT_MEMHEAP_IS_USED"

definition bsize :: "memheaps \<Rightarrow> rt_uint32 \<Rightarrow> nat" where
  "bsize M x = unat (mi_next M x) - unat x - 36"

definition gap :: "rt_uint32 \<Rightarrow> rt_uint32 \<Rightarrow> bool" where
  "gap x y \<longleftrightarrow> unat x + 48 \<le> unat y"

definition blocks_ok :: "nat \<Rightarrow> memheaps \<Rightarrow> rt_uint32 list \<Rightarrow> rt_uint32 \<Rightarrow> bool" where
  "blocks_ok i M bs t \<longleftrightarrow> bs \<noteq> [] \<and> segs (mi_next M) (mi_prev M) (bs @ [t]) (hd bs) \<and>
     sorted_wrt gap (bs @ [t]) \<and> (\<forall>x \<in> set bs. mi_magic M x \<in> {RT_MEMHEAP_MAGIC, RT_MEMHEAP_MAGIC OR 1}) \<and>
     mi_magic M t = RT_MEMHEAP_MAGIC OR 1 \<and> (\<forall>x \<in> set bs. mi_pool M x = i) \<and>
     (\<forall>x \<in> set (bs @ [t]). 4 dvd unat x) \<and> unat t + 36 \<le> 2 ^ 32"

definition free_ok :: "nat \<Rightarrow> memheaps \<Rightarrow> rt_uint32 list \<Rightarrow> bool" where
  "free_ok i M fs \<longleftrightarrow> (let hdr = free_list (mh_heap M i) in
     segs (mi_next_free M) (mi_prev_free M) (hdr # fs) hdr \<and> distinct (hdr # fs))"

definition free_sum :: "memheaps \<Rightarrow> rt_uint32 list \<Rightarrow> nat" where
  "free_sum M bs = sum_list (map (\<lambda>x. if used M x then 0 else bsize M x) bs)"

definition heap_q :: "nat \<Rightarrow> memheaps \<Rightarrow> rt_uint32 list \<Rightarrow> rt_uint32 \<Rightarrow> bool" where
  "heap_q i M bs t \<longleftrightarrow> blocks_ok i M bs t \<and>
     (unat (free_list (mh_heap M i)) < unat (hd bs) \<or> unat t < unat (free_list (mh_heap M i))) \<and>
     available_size (mh_heap M i) = of_nat (free_sum M bs) \<and> block_list (mh_heap M i) = hd bs \<and>
     unat t + 36 = unat (hd bs) + unat (pool_size (mh_heap M i))"

definition heap_rep :: "nat \<Rightarrow> memheaps \<Rightarrow> rt_uint32 list \<Rightarrow> rt_uint32 \<Rightarrow> rt_uint32 list \<Rightarrow> bool" where
  "heap_rep i M bs t fs \<longleftrightarrow> heap_q i M bs t \<and> free_ok i M fs \<and> set fs = {x \<in> set bs. \<not> used M x} \<and>
     successively (\<lambda>x y. used M x \<or> used M y) bs"

lemma blocks_okD:
  assumes "blocks_ok i M bs t"
  shows "bs \<noteq> []" "segs (mi_next M) (mi_prev M) (bs @ [t]) (hd bs)" "sorted_wrt gap (bs @ [t])"
    "\<And>x. x \<in> set bs \<Longrightarrow> mi_magic M x = RT_MEMHEAP_MAGIC \<or> mi_magic M x = RT_MEMHEAP_MAGIC OR 1"
    "mi_magic M t = RT_MEMHEAP_MAGIC OR 1" "\<And>x. x \<in> set bs \<Longrightarrow> mi_pool M x = i"
    "\<And>x. x \<in> set (bs @ [t]) \<Longrightarrow> 4 dvd unat x" "unat t + 36 \<le> 2 ^ 32" "used M t"
  using assms by (auto simp: blocks_ok_def RT_MEMHEAP_IS_USED_def)

lemma gap_less: "sorted_wrt gap xs \<Longrightarrow> sorted_wrt (\<lambda>x y. unat x < unat y) xs"
  by (erule sorted_wrt_mono_rel[rotated]) (simp add: gap_def)

lemma gap_distinct: "sorted_wrt gap xs \<Longrightarrow> distinct xs"
proof (induction xs)
  case (Cons x xs)
  then show ?case by (auto simp: gap_def)
qed simp

lemma blocks_distinct: "blocks_ok i M bs t \<Longrightarrow> distinct (bs @ [t])"
  by (rule gap_distinct[OF blocks_okD(3)])

text \<open>Both rings are segments that end where they start; their lists of targets are distinct too.\<close>

lemma ring_targets: "distinct (x # xs) \<Longrightarrow> distinct (tl (x # xs) @ [x])"
  by simp

lemma blocks_targets: "blocks_ok i M bs t \<Longrightarrow> distinct (tl (bs @ [t]) @ [hd bs])"
  using blocks_distinct[of i M bs t] blocks_okD(1)[of i M bs t] by (cases bs) auto

lemma block_next:
  assumes ok: "blocks_ok i M (as @ x # cs) t"
  shows "mi_next M x = hd (cs @ [t])" "gap x (hd (cs @ [t]))" "MEMITEM_SIZE M x = of_nat (bsize M x)"
    "unat (MEMITEM_SIZE M x) = bsize M x" "unat x + 36 + bsize M x = unat (hd (cs @ [t]))" "12 \<le> bsize M x"
    "unat (hd (cs @ [t])) \<le> unat t"
proof -
  have sg: "segs (mi_next M) (mi_prev M) (as @ x # (cs @ [t])) (hd (as @ x # cs))"
    using blocks_okD(2)[OF ok] by simp
  have hd2: "hd ((cs @ [t]) @ [z]) = hd (cs @ [t])" for z by (cases cs) auto
  show nx: "mi_next M x = hd (cs @ [t])" using segs_next[OF sg] by (simp only: hd2)
  show gp: "gap x (hd (cs @ [t]))"
    using blocks_okD(3)[OF ok] hd_snoc_mem[of cs t] by (auto simp: sorted_wrt_append)
  then have le: "unat x + 48 \<le> unat (mi_next M x)" by (simp add: gap_def nx)
  then have "unat (mi_next M x - x) = unat (mi_next M x) - unat x"
    by (simp add: unat_sub word_le_nat_alt)
  moreover from this le have "unat (mi_next M x - x - 36) = unat (mi_next M x - x) - 36"
    by (simp add: unat_sub word_le_nat_alt)
  ultimately show u: "unat (MEMITEM_SIZE M x) = bsize M x" by (simp add: MEMITEM_SIZE_def bsize_def)
  show "MEMITEM_SIZE M x = of_nat (bsize M x)" unfolding u[symmetric] by simp
  show "unat x + 36 + bsize M x = unat (hd (cs @ [t]))" using le by (simp add: bsize_def nx)
  show "12 \<le> bsize M x" using le by (simp add: bsize_def)
  show "unat (hd (cs @ [t])) \<le> unat t"
    using blocks_okD(3)[OF ok] by (cases cs) (auto simp: sorted_wrt_append gap_def)
qed

section \<open>What each step leaves alone\<close>

lemma free_steps_frame [simp]:
  "mi_magic (unlink_free a M) = mi_magic M" "mi_pool (unlink_free a M) = mi_pool M"
  "mi_next (unlink_free a M) = mi_next M" "mi_prev (unlink_free a M) = mi_prev M"
  "mh_heap (unlink_free a M) = mh_heap M" "mi_byte (unlink_free a M) = mi_byte M"
  "mi_magic (clear_free a M) = mi_magic M" "mi_pool (clear_free a M) = mi_pool M"
  "mi_next (clear_free a M) = mi_next M" "mi_prev (clear_free a M) = mi_prev M"
  "mh_heap (clear_free a M) = mh_heap M" "mi_byte (clear_free a M) = mi_byte M"
  "mi_magic (link_free i a M) = mi_magic M" "mi_pool (link_free i a M) = mi_pool M"
  "mi_next (link_free i a M) = mi_next M" "mi_prev (link_free i a M) = mi_prev M"
  "mh_heap (link_free i a M) = mh_heap M" "mi_byte (link_free i a M) = mi_byte M"
  by (simp_all add: mh_step_defs mh_set_defs Let_def)

lemma block_steps_frame [simp]:
  "mi_magic (split_block a n M) = mi_magic M" "mi_pool (split_block a n M) = mi_pool M"
  "mi_next_free (split_block a n M) = mi_next_free M" "mi_prev_free (split_block a n M) = mi_prev_free M"
  "mh_heap (split_block a n M) = mh_heap M" "mi_byte (split_block a n M) = mi_byte M"
  "mi_magic (merge_next a M) = mi_magic M" "mi_pool (merge_next a M) = mi_pool M"
  "mi_next_free (merge_next a M) = mi_next_free M" "mi_prev_free (merge_next a M) = mi_prev_free M"
  "mh_heap (merge_next a M) = mh_heap M" "mi_byte (merge_next a M) = mi_byte M"
  by (simp_all add: mh_step_defs mh_set_defs Let_def)

lemma available_frame [simp]:
  "mi_magic (add_available i n M) = mi_magic M" "mi_pool (add_available i n M) = mi_pool M"
  "mi_next (add_available i n M) = mi_next M" "mi_prev (add_available i n M) = mi_prev M"
  "mi_next_free (add_available i n M) = mi_next_free M" "mi_prev_free (add_available i n M) = mi_prev_free M"
  "mi_byte (add_available i n M) = mi_byte M"
  "mi_magic (sub_available i n M) = mi_magic M" "mi_pool (sub_available i n M) = mi_pool M"
  "mi_next (sub_available i n M) = mi_next M" "mi_prev (sub_available i n M) = mi_prev M"
  "mi_next_free (sub_available i n M) = mi_next_free M" "mi_prev_free (sub_available i n M) = mi_prev_free M"
  "mi_byte (sub_available i n M) = mi_byte M"
  by (simp_all add: mh_step_defs mh_set_defs Let_def)

lemma available_heap [simp]:
  "free_list (mh_heap (add_available i n M) j) = free_list (mh_heap M j)"
  "pool_size (mh_heap (add_available i n M) j) = pool_size (mh_heap M j)"
  "mh_lock (mh_heap (add_available i n M) j) = mh_lock (mh_heap M j)"
  "block_list (mh_heap (add_available i n M) j) = block_list (mh_heap M j)"
  "block_list (mh_heap (sub_available i n M) j) = block_list (mh_heap M j)"
  "available_size (mh_heap (add_available i n M) i) = available_size (mh_heap M i) + n"
  "free_list (mh_heap (sub_available i n M) j) = free_list (mh_heap M j)"
  "pool_size (mh_heap (sub_available i n M) j) = pool_size (mh_heap M j)"
  "mh_lock (mh_heap (sub_available i n M) j) = mh_lock (mh_heap M j)"
  "available_size (mh_heap (sub_available i n M) i) = available_size (mh_heap M i) - n"
  "j \<noteq> i \<Longrightarrow> mh_heap (sub_available i n M) j = mh_heap M j"
  "j \<noteq> i \<Longrightarrow> mh_heap (add_available i n M) j = mh_heap M j"
  by (simp_all add: add_available_def sub_available_def upd_heap_def Let_def)

lemma set_frame [simp]:
  "mi_magic (set_magic a v M) = (mi_magic M)(a := v)" "mi_pool (set_magic a v M) = mi_pool M"
  "mi_next (set_magic a v M) = mi_next M" "mi_prev (set_magic a v M) = mi_prev M"
  "mi_next_free (set_magic a v M) = mi_next_free M" "mi_prev_free (set_magic a v M) = mi_prev_free M"
  "mh_heap (set_magic a v M) = mh_heap M" "mi_byte (set_magic a v M) = mi_byte M"
  "mi_magic (set_pool a j M) = mi_magic M" "mi_pool (set_pool a j M) = (mi_pool M)(a := j)"
  "mi_next (set_pool a j M) = mi_next M" "mi_prev (set_pool a j M) = mi_prev M"
  "mi_next_free (set_pool a j M) = mi_next_free M" "mi_prev_free (set_pool a j M) = mi_prev_free M"
  "mh_heap (set_pool a j M) = mh_heap M" "mi_byte (set_pool a j M) = mi_byte M"
  "mi_magic (item_stamp nm now a M) = mi_magic M" "mi_pool (item_stamp nm now a M) = mi_pool M"
  "mi_next (item_stamp nm now a M) = mi_next M" "mi_prev (item_stamp nm now a M) = mi_prev M"
  "mi_next_free (item_stamp nm now a M) = mi_next_free M" "mi_prev_free (item_stamp nm now a M) = mi_prev_free M"
  "mh_heap (item_stamp nm now a M) = mh_heap M" "mi_byte (item_stamp nm now a M) = mi_byte M"
  by (simp_all add: mh_set_defs)

lemma blocks_ok_frame [simp]:
  "blocks_ok i (unlink_free a M) = blocks_ok i M" "blocks_ok i (clear_free a M) = blocks_ok i M"
  "blocks_ok i (link_free j a M) = blocks_ok i M" "blocks_ok i (add_available j k M) = blocks_ok i M"
  "blocks_ok i (sub_available j k M) = blocks_ok i M" "blocks_ok i (item_stamp nm now a M) = blocks_ok i M"
  by (simp_all add: fun_eq_iff blocks_ok_def)

lemma free_ok_frame [simp]:
  "free_ok i (set_magic a v M) = free_ok i M" "free_ok i (set_pool a j M) = free_ok i M"
  "free_ok i (split_block a n M) = free_ok i M" "free_ok i (merge_next a M) = free_ok i M"
  "free_ok i (add_available j k M) = free_ok i M" "free_ok i (sub_available j k M) = free_ok i M"
  "free_ok i (item_stamp nm now a M) = free_ok i M"
  by (simp_all add: fun_eq_iff free_ok_def)

section \<open>The free list\<close>

lemma unlink_free_ok:
  assumes ok: "free_ok i M (f1 @ x # f2)"
  shows "free_ok i (unlink_free x M) (f1 @ f2)"
proof -
  let ?h = "free_list (mh_heap M i)" and ?y = "hd (f2 @ [free_list (mh_heap M i)])"
  have sg: "segs (mi_next_free M) (mi_prev_free M) (?h # f1 @ x # f2) ?h" and d: "distinct (?h # f1 @ x # f2)"
    using ok by (simp_all only: free_ok_def Let_def)
  obtain xs a where xa: "?h # f1 = xs @ [a]" by (metis neq_Nil_conv rev_exhaust)
  then have e: "?h # f1 @ x # f2 = xs @ a # x # f2" "?h # f1 @ f2 = xs @ a # f2" by (simp_all flip: append_Cons)
  have d2: "distinct (tl (xs @ a # x # f2) @ [?h])" using ring_targets[OF d] by (simp only: e)
  note r = segs_remove[OF sg[unfolded e(1)] d[unfolded e(1)] d2]
  have "?y \<noteq> x" using d hd_snoc_mem[of f2 ?h] by auto
  then have "mi_next_free (unlink_free x M) = (mi_next_free M)(a := ?y)" "mi_prev_free (unlink_free x M) = (mi_prev_free M)(?y := a)"
    using r(2,3) by (simp_all add: unlink_free_def set_prev_free_def set_next_free_def Let_def)
  then have "segs (mi_next_free (unlink_free x M)) (mi_prev_free (unlink_free x M)) (?h # f1 @ f2) ?h"
    using r(1) by (simp only: e(2))
  then show ?thesis using d by (simp add: free_ok_def Let_def del: segs.simps)
qed

lemma clear_free_ok:
  assumes "free_ok i M fs" "x \<notin> set fs" "x \<noteq> free_list (mh_heap M i)"
  shows "free_ok i (clear_free x M) fs"
proof -
  let ?h = "free_list (mh_heap M i)"
  have "segs (mi_next_free (clear_free x M)) (mi_prev_free (clear_free x M)) (?h # fs) ?h"
    using assms segs_pv[of x "?h # fs" ?h] segs_nx[of x "?h # fs"]
    by (simp add: clear_free_def set_prev_free_def set_next_free_def free_ok_def Let_def del: segs.simps)
  then show ?thesis using assms(1) by (simp add: free_ok_def Let_def del: segs.simps)
qed

lemma link_free_ok:
  assumes ok: "free_ok i M fs" and n: "n \<notin> set fs" "n \<noteq> free_list (mh_heap M i)"
  shows "free_ok i (link_free i n M) (n # fs)"
proof -
  let ?h = "free_list (mh_heap M i)" and ?y = "hd (fs @ [free_list (mh_heap M i)])"
  have sg: "segs (mi_next_free M) (mi_prev_free M) ([] @ ?h # fs) ?h" and d: "distinct ([] @ ?h # fs)"
    using ok by (simp_all only: free_ok_def Let_def append_Nil)
  have nin: "n \<notin> set ([] @ ?h # fs)" using n by simp
  have d2: "distinct (tl ([] @ ?h # fs) @ [?h])" using d by simp
  have y: "mi_next_free M ?h = ?y" using sg by simp
  have "mi_next_free (link_free i n M) = (mi_next_free M)(n := ?y, ?h := n)"
    "mi_prev_free (link_free i n M) = (mi_prev_free M)(n := ?h, ?y := n)"
    using n(2) y by (simp_all add: link_free_def set_prev_free_def set_next_free_def Let_def)
  then show ?thesis
    using segs_insert[OF sg d d2 nin n(2)] d n by (simp add: free_ok_def Let_def del: segs.simps)
qed

section \<open>The blocks\<close>

lemma ring_hd: "bs \<noteq> [] \<Longrightarrow> hd (bs @ xs) = hd bs"
  by simp

lemma split_block_ok:
  assumes ok: "blocks_ok i M (as @ h # cs) t" and n: "gap h n" "gap n (hd (cs @ [t]))" "4 dvd unat n"
    and m: "mi_magic M n \<in> {RT_MEMHEAP_MAGIC, RT_MEMHEAP_MAGIC OR 1}" "mi_pool M n = i"
  shows "blocks_ok i (split_block h n M) (as @ h # n # cs) t"
    "mi_next (split_block h n M) = (mi_next M)(n := hd (cs @ [t]), h := n)"
    "n \<notin> set ((as @ h # cs) @ [t])"
proof -
  let ?s = "hd (as @ h # cs)" and ?y = "hd (cs @ [t])"
  note b = blocks_okD[OF ok]
  have sw: "sorted_wrt gap (as @ h # cs @ [t])" using b(3) by simp
  have sw2: "sorted_wrt gap (as @ h # n # cs @ [t])"
    using sw n(1,2) by (cases cs) (auto simp: sorted_wrt_append gap_def)
  have nin: "n \<notin> set (as @ h # cs @ [t])" using gap_distinct[OF sw2] by auto
  then show "n \<notin> set ((as @ h # cs) @ [t])" by simp
  have sg: "segs (mi_next M) (mi_prev M) (as @ h # (cs @ [t])) ?s" using b(2) by simp
  have d: "distinct (as @ h # (cs @ [t]))" by (rule gap_distinct[OF sw])
  have d2: "distinct (tl (as @ h # (cs @ [t])) @ [?s])" using blocks_targets[OF ok] by simp
  have ns: "n \<noteq> ?s" using nin by (cases as) auto
  have hy: "hd ((cs @ [t]) @ [z]) = ?y" for z by (cases cs) auto
  note ins = segs_insert[OF sg d d2 nin ns, unfolded hy]
  have nh: "n \<noteq> h" using nin by auto
  have y: "mi_next M h = ?y" by (rule block_next(1)[OF ok])
  show nx: "mi_next (split_block h n M) = (mi_next M)(n := ?y, h := n)"
    using nh y by (simp add: split_block_def set_prev_def set_next_def Let_def)
  have pv: "mi_prev (split_block h n M) = (mi_prev M)(n := h, ?y := n)"
    using nh y by (simp add: split_block_def set_prev_def set_next_def Let_def)
  have hs: "hd (as @ h # n # cs) = ?s" by (cases as) auto
  have "segs (mi_next (split_block h n M)) (mi_prev (split_block h n M)) ((as @ h # n # cs) @ [t]) ?s"
    using ins by (simp only: nx pv append_assoc append_Cons)
  then show "blocks_ok i (split_block h n M) (as @ h # n # cs) t"
    using ok sw2 n(3) m unfolding blocks_ok_def hs by simp
qed

lemma merge_next_ok:
  assumes ok: "blocks_ok i M (as @ h # x # cs) t"
  shows "blocks_ok i (merge_next h M) (as @ h # cs) t" "mi_next M h = x"
    "mi_next (merge_next h M) = (mi_next M)(h := hd (cs @ [t]))"
    "mi_prev (merge_next h M) = (mi_prev M)(hd (cs @ [t]) := h)"
proof -
  let ?s = "hd (as @ h # x # cs)" and ?y = "hd (cs @ [t])"
  note b = blocks_okD[OF ok]
  have sw: "sorted_wrt gap (as @ h # x # cs @ [t])" using b(3) by simp
  have sw2: "sorted_wrt gap (as @ h # cs @ [t])" using sw by (auto simp: sorted_wrt_append)
  have sg: "segs (mi_next M) (mi_prev M) (as @ h # x # (cs @ [t])) ?s" using b(2) by simp
  have d: "distinct (as @ h # x # (cs @ [t]))" by (rule gap_distinct[OF sw])
  have d2: "distinct (tl (as @ h # x # (cs @ [t])) @ [?s])" using blocks_targets[OF ok] by simp
  have hy: "hd ((cs @ [t]) @ [z]) = ?y" for z by (cases cs) auto
  note rem = segs_remove[OF sg d d2, unfolded hy]
  show x: "mi_next M h = x" by (rule rem(4))
  show nx: "mi_next (merge_next h M) = (mi_next M)(h := ?y)" and pv: "mi_prev (merge_next h M) = (mi_prev M)(?y := h)"
    using rem(2) x by (simp_all add: merge_next_def set_prev_def set_next_def Let_def)
  have hs: "hd (as @ h # cs) = ?s" by (cases as) auto
  have "segs (mi_next (merge_next h M)) (mi_prev (merge_next h M)) ((as @ h # cs) @ [t]) ?s"
    using rem(1) by (simp only: nx pv append_assoc append_Cons)
  then show "blocks_ok i (merge_next h M) (as @ h # cs) t"
    using ok sw2 unfolding blocks_ok_def hs by simp
qed

lemma set_magic_ok:
  assumes "blocks_ok i M bs t" "v \<in> {RT_MEMHEAP_MAGIC, RT_MEMHEAP_MAGIC OR 1}" "h \<noteq> t"
  shows "blocks_ok i (set_magic h v M) bs t"
  using assms by (auto simp: blocks_ok_def)

lemma block_prev:
  assumes ok: "blocks_ok i M (as @ x # cs) t"
  shows "mi_prev M x = last (t # as)"
proof (cases as rule: rev_cases)
  case Nil
  have "segs (mi_next M) (mi_prev M) ((x # cs) @ t # []) x" using blocks_okD(2)[OF ok] Nil by simp
  from segs_prev[OF this] show ?thesis using Nil by simp
next
  case (snoc bs a)
  have "segs (mi_next M) (mi_prev M) (bs @ a # (x # cs @ [t])) (hd (as @ x # cs))"
    using blocks_okD(2)[OF ok] snoc by simp
  from segs_prev[OF this] show ?thesis using snoc by simp
qed

section \<open>Sizes\<close>

lemma used_frame:
  "mi_magic M' = mi_magic M \<Longrightarrow> used M' = used M"
  by (simp add: fun_eq_iff RT_MEMHEAP_IS_USED_def)

lemma bsize_frame: "mi_next M' = mi_next M \<Longrightarrow> bsize M' = bsize M"
  by (simp add: fun_eq_iff bsize_def)

lemma bsize_frames [simp]:
  "bsize (unlink_free a M) = bsize M" "bsize (clear_free a M) = bsize M" "bsize (link_free j a M) = bsize M"
  "bsize (item_stamp nm now a M) = bsize M" "bsize (set_magic a v M) = bsize M" "bsize (set_pool a j M) = bsize M"
  "bsize (add_available j k M) = bsize M" "bsize (sub_available j k M) = bsize M"
  by (simp_all add: fun_eq_iff bsize_def)

lemma heap_q_frame [simp]:
  "heap_q i (unlink_free a M) = heap_q i M" "heap_q i (clear_free a M) = heap_q i M"
  "heap_q i (link_free j a M) = heap_q i M" "heap_q i (item_stamp nm now a M) = heap_q i M"
  by (simp_all add: fun_eq_iff heap_q_def free_sum_def RT_MEMHEAP_IS_USED_def cong: if_cong)

lemma free_sum_append [simp]: "free_sum M (xs @ ys) = free_sum M xs + free_sum M ys"
  by (simp add: free_sum_def)

lemma free_sum_Cons [simp]: "free_sum M (x # xs) = (if used M x then 0 else bsize M x) + free_sum M xs"
  by (simp add: free_sum_def)

lemma free_sum_Nil [simp]: "free_sum M [] = 0"
  by (simp add: free_sum_def)

lemma free_sum_cong:
  assumes "\<And>x. x \<in> set xs \<Longrightarrow> used M' x = used M x \<and> (used M x \<or> mi_next M' x = mi_next M x)"
  shows "free_sum M' xs = free_sum M xs"
proof -
  have "(if used M' x then 0 else bsize M' x) = (if used M x then 0 else bsize M x)" if "x \<in> set xs" for x
    using assms[OF that] by (auto simp only: bsize_def if_True if_False)
  then show ?thesis unfolding free_sum_def by (intro arg_cong[of _ _ sum_list] map_cong) auto
qed

text \<open>The blocks tile the pool, so the free bytes fit in it.\<close>

lemma tiles:
  assumes "blocks_ok i M (as @ cs) t" "cs \<noteq> []"
  shows "sum_list (map (\<lambda>x. bsize M x + 36) cs) = unat t - unat (hd cs)"
  using assms
proof (induction cs arbitrary: as)
  case (Cons x cs)
  note bn = block_next[OF Cons.prems(1)]
  show ?case
  proof (cases "cs = []")
    case True
    then show ?thesis using bn(5) by simp
  next
    case False
    then have "sum_list (map (\<lambda>x. bsize M x + 36) cs) = unat t - unat (hd cs)"
      using Cons.IH[of "as @ [x]"] Cons.prems(1) by simp
    then show ?thesis using bn(5,7) False by simp
  qed
qed simp

lemma free_sum_le:
  assumes ok: "blocks_ok i M bs t"
  shows "free_sum M bs \<le> unat t - unat (hd bs)"
proof -
  have "free_sum M bs \<le> sum_list (map (\<lambda>x. bsize M x + 36) bs)"
    unfolding free_sum_def by (intro sum_list_mono) auto
  then show ?thesis using tiles[of i M "[]" bs t] ok blocks_okD(1)[OF ok] by simp
qed

lemma unat_available:
  assumes q: "heap_q i M bs t"
  shows "unat (available_size (mh_heap M i)) = free_sum M bs"
proof -
  have b: "blocks_ok i M bs t" and e: "available_size (mh_heap M i) = of_nat (free_sum M bs)"
    using q by (simp_all add: heap_q_def)
  have "free_sum M bs < 2 ^ 32" using free_sum_le[OF b] blocks_okD(8)[OF b] by simp
  then show ?thesis unfolding e by (simp add: unsigned_of_nat take_bit_nat_eq_self)
qed

lemma used_set_magic [simp]:
  "used (set_magic a v M) = (used M)(a := v AND 1 \<noteq> 0)"
  by (simp add: fun_eq_iff RT_MEMHEAP_IS_USED_def)

lemma used_merge [simp]: "used (merge_next a M) = used M" "used (split_block a n M) = used M"
  "used (unlink_free a M) = used M" "used (clear_free a M) = used M" "used (link_free i a M) = used M"
  "used (add_available i k M) = used M" "used (sub_available i k M) = used M" "used (item_stamp nm now a M) = used M"
  "used (set_pool a j M) = used M"
  by (simp_all add: fun_eq_iff RT_MEMHEAP_IS_USED_def)

text \<open>Carrying the accounting over a step.\<close>

lemma heap_q_step:
  assumes "heap_q i M bs t" "blocks_ok i M' bs' t" "hd bs' = hd bs"
    "free_list (mh_heap M' i) = free_list (mh_heap M i)" "pool_size (mh_heap M' i) = pool_size (mh_heap M i)" "block_list (mh_heap M' i) = block_list (mh_heap M i)"
    "available_size (mh_heap M' i) = available_size (mh_heap M i) + of_nat n" "free_sum M' bs' = free_sum M bs + n"
  shows "heap_q i M' bs' t"
  using assms(1-7) unfolding heap_q_def assms(8) by (simp add: add.commute)

lemma heap_q_step_sub:
  assumes "heap_q i M bs t" "blocks_ok i M' bs' t" "hd bs' = hd bs"
    "free_list (mh_heap M' i) = free_list (mh_heap M i)" "pool_size (mh_heap M' i) = pool_size (mh_heap M i)" "block_list (mh_heap M' i) = block_list (mh_heap M i)"
    "available_size (mh_heap M' i) = available_size (mh_heap M i) - of_nat n" "free_sum M bs = free_sum M' bs' + n"
  shows "heap_q i M' bs' t"
  using assms(1-7) unfolding heap_q_def assms(8) by simp

section \<open>Merging\<close>

lemma q_merge:
  assumes q: "heap_q i M (as @ h # x # cs) t" and f: "\<not> used M h" "\<not> used M x"
  shows "heap_q i (merge_next h (add_available i 36 M)) (as @ h # cs) t"
    "bsize (merge_next h (add_available i 36 M)) h = bsize M h + 36 + bsize M x"
proof -
  let ?A = "add_available i 36 M" and ?M = "merge_next h (add_available i 36 M)"
  have b: "blocks_ok i M (as @ h # x # cs) t" using q by (simp add: heap_q_def)
  have b0: "blocks_ok i ?A (as @ h # x # cs) t" using b by simp
  note m = merge_next_ok[OF b0]
  note bh = block_next[OF b] and bx = block_next[of i M "as @ [h]" x cs t, simplified, OF b]
  have d: "distinct (as @ h # x # cs @ [t])" using blocks_distinct[OF b] by simp
  have nx: "mi_next ?M = (mi_next M)(h := hd (cs @ [t]))" using m(3) by simp
  have u: "used ?M = used M" by simp
  show size: "bsize ?M h = bsize M h + 36 + bsize M x"
    using bh(5) bx(5) bh(6) bx(6) by (simp add: bsize_def[of ?M] nx)
  have "free_sum ?M as = free_sum M as" "free_sum ?M cs = free_sum M cs"
    using d by (auto intro!: free_sum_cong simp: u nx split: if_splits)
  then have s: "free_sum ?M (as @ h # cs) = free_sum M (as @ h # x # cs) + 36"
    using f size by (simp add: u)
  have hd: "hd (as @ h # cs) = hd (as @ h # x # cs)" by (cases as) auto
  show "heap_q i ?M (as @ h # cs) t" by (rule heap_q_step[OF q m(1) hd _ _ _ _ s]) simp_all
qed

lemma q_release:
  fixes nm :: "rt_uint8 list" and now :: rt_tick
  assumes q: "heap_q i M (as @ x # cs) t" and u: "used M x"
  defines "M1 \<equiv> add_available i (MEMITEM_SIZE M x) (item_stamp nm now x (set_magic x (mi_magic M x AND NOT 1) M))"
  shows "heap_q i M1 (as @ x # cs) t" "used M1 = (used M)(x := False)" "mi_next M1 = mi_next M" "mi_prev M1 = mi_prev M"
    "bsize M1 = bsize M"
proof -
  have b: "blocks_ok i M (as @ x # cs) t" using q by (simp add: heap_q_def)
  have "mi_magic M x \<noteq> RT_MEMHEAP_MAGIC" using u by (auto simp: RT_MEMHEAP_IS_USED_def)
  then have m: "mi_magic M x = RT_MEMHEAP_MAGIC OR 1" using blocks_okD(4)[OF b, of x] by auto
  have v: "mi_magic M x AND NOT 1 = RT_MEMHEAP_MAGIC" unfolding m by simp
  have d: "distinct ((as @ x # cs) @ [t])" by (rule blocks_distinct[OF b])
  have b1: "blocks_ok i M1 (as @ x # cs) t"
    using set_magic_ok[OF b, of RT_MEMHEAP_MAGIC x] d unfolding M1_def v by simp
  show us: "used M1 = (used M)(x := False)" unfolding M1_def v by (simp add: fun_eq_iff)
  show nx: "mi_next M1 = mi_next M" and "mi_prev M1 = mi_prev M" by (simp_all add: M1_def)
  then show "bsize M1 = bsize M" by (simp add: fun_eq_iff bsize_def)
  have "free_sum M1 as = free_sum M as" "free_sum M1 cs = free_sum M cs"
    using d by (auto intro!: free_sum_cong simp: us nx split: if_splits)
  then have s: "free_sum M1 (as @ x # cs) = free_sum M (as @ x # cs) + bsize M x"
    using u by (simp add: us bsize_frame[OF nx])
  have a: "available_size (mh_heap M1 i) = available_size (mh_heap M i) + of_nat (bsize M x)"
    by (simp add: M1_def block_next(3)[OF b])
  show "heap_q i M1 (as @ x # cs) t" by (rule heap_q_step[OF q b1 refl _ _ _ a s]) (simp_all add: M1_def)
qed

end
