(* ===== verification/Rtt_Memheap_Ops.thy ===== *)
theory Rtt_Memheap_Ops
  imports Rtt_Memheap_Inv
begin

text \<open>
  What the operations of the memory heap do under its lock, on the blocks and on the set
  \<open>allocs\<close> of the blocks handed out with their sizes.
\<close>

section \<open>Searching the free list\<close>

lemma memheap_search_step:
  assumes "h \<noteq> fl" "fsz < sz"
  shows "memheap_search M fl sz h fsz =
    (if MEMITEM_SIZE M h < sz then memheap_search M fl sz (mi_next_free M h) (MEMITEM_SIZE M h)
     else Some (h, MEMITEM_SIZE M h))"
  using assms memheap_search.simps[of M fl sz h fsz] memheap_search.simps[of M fl sz h "MEMITEM_SIZE M h"] by auto

lemma memheap_search_walk:
  assumes "segs (mi_next_free M) (mi_prev_free M) (f1 @ f2) fl" "fl \<notin> set f2" "fsz < sz"
  shows "case find (\<lambda>x. sz \<le> MEMITEM_SIZE M x) f2 of
      Some x \<Rightarrow> memheap_search M fl sz (hd (f2 @ [fl])) fsz = Some (x, MEMITEM_SIZE M x)
    | None \<Rightarrow> \<exists>z. memheap_search M fl sz (hd (f2 @ [fl])) fsz = Some (fl, z) \<and> z < sz"
  using assms
proof (induction f2 arbitrary: f1 fsz)
  case Nil
  then show ?case by (simp add: memheap_search.simps)
next
  case (Cons x f2)
  have nx: "mi_next_free M x = hd (f2 @ [fl])" by (rule segs_next[OF Cons.prems(1)])
  have ne: "x \<noteq> fl" using Cons.prems(2) by auto
  note step = memheap_search_step[OF ne Cons.prems(3), of M]
  show ?case
  proof (cases "sz \<le> MEMITEM_SIZE M x")
    case True
    then show ?thesis using step by (simp add: leD)
  next
    case False
    then have lt: "MEMITEM_SIZE M x < sz" by simp
    have sg: "segs (mi_next_free M) (mi_prev_free M) ((f1 @ [x]) @ f2) fl" using Cons.prems(1) by simp
    have eq: "memheap_search M fl sz x fsz = memheap_search M fl sz (hd (f2 @ [fl])) (MEMITEM_SIZE M x)"
      using step lt nx by simp
    show ?thesis using Cons.IH[OF sg _ lt] Cons.prems(2) False unfolding append_Cons list.sel eq by simp
  qed
qed

lemma search_spec:
  assumes "free_ok i M fs" "0 < sz"
  defines "fl \<equiv> free_list (mh_heap M i)"
  shows "case find (\<lambda>x. sz \<le> MEMITEM_SIZE M x) fs of
      Some x \<Rightarrow> memheap_search M fl sz (mi_next_free M fl) 0 = Some (x, MEMITEM_SIZE M x)
    | None \<Rightarrow> \<exists>z. memheap_search M fl sz (mi_next_free M fl) 0 = Some (fl, z) \<and> z < sz"
proof -
  have sg: "segs (mi_next_free M) (mi_prev_free M) ([fl] @ fs) fl" and nin: "fl \<notin> set fs"
    using assms(1) by (simp_all add: free_ok_def Let_def fl_def)
  have nx: "mi_next_free M fl = hd (fs @ [fl])" using sg by simp
  show ?thesis unfolding nx by (rule memheap_search_walk[OF sg nin assms(2)])
qed

section \<open>Blocks handed out\<close>

definition allocs :: "memheaps \<Rightarrow> rt_uint32 list \<Rightarrow> (rt_uint32 \<times> nat) set" where
  "allocs M bs = {(x, bsize M x) | x. x \<in> set bs \<and> used M x}"

lemma heap_repD:
  assumes "heap_rep i M bs t fs"
  shows "heap_q i M bs t" "blocks_ok i M bs t" "free_ok i M fs" "set fs = {x \<in> set bs. \<not> used M x}"
    "successively (\<lambda>x y. used M x \<or> used M y) bs" "distinct fs" "free_list (mh_heap M i) \<notin> set fs"
  using assms by (auto simp: heap_rep_def heap_q_def free_ok_def Let_def)

lemma hdr_outside:
  assumes "heap_q i M bs t" "unat (hd bs) \<le> unat x" "unat x \<le> unat t"
  shows "x \<noteq> free_list (mh_heap M i)"
  using assms by (auto simp: heap_q_def)

lemma block_range:
  assumes ok: "blocks_ok i M bs t" and x: "x \<in> set bs"
  shows "unat (hd bs) \<le> unat x" "unat x < unat t" "x \<noteq> t"
proof -
  obtain b bs' where b: "bs = b # bs'" using blocks_okD(1)[OF ok] by (cases bs) auto
  have s: "sorted_wrt gap (bs @ [t])" by (rule blocks_okD(3)[OF ok])
  show "unat (hd bs) \<le> unat x" using s x by (auto simp: b gap_def)
  show lt: "unat x < unat t" using s x by (auto simp: sorted_wrt_append gap_def)
  then show "x \<noteq> t" by auto
qed

lemma magic_cases:
  assumes "blocks_ok i M bs t" "x \<in> set bs"
  shows "mi_magic M x = (if used M x then RT_MEMHEAP_MAGIC OR 1 else RT_MEMHEAP_MAGIC)"
  using blocks_okD(4)[OF assms] by (auto simp: RT_MEMHEAP_IS_USED_def)

text \<open>Neighbours of a free block are used.\<close>

lemma successively_mid:
  "successively P (as @ x # cs) \<longleftrightarrow> successively P as \<and> successively P cs \<and> (as \<noteq> [] \<longrightarrow> P (last as) x) \<and>
     (cs \<noteq> [] \<longrightarrow> P x (hd cs))"
  by (cases cs) (auto simp: successively_append_iff)

lemma successively_agree:
  "(\<And>x. x \<in> set xs \<Longrightarrow> u' x = u x) \<Longrightarrow> successively (\<lambda>x y. u' x \<or> u' y) xs = successively (\<lambda>x y. u x \<or> u y) xs"
  by (rule successively_cong) auto

lemma take_whole_rep:
  assumes rep: "heap_rep i M (as @ h # cs) t (f1 @ h # f2)"
  defines "M1 \<equiv> take_whole i h (MEMITEM_SIZE M h) M"
  defines "M2 \<equiv> set_magic h (mi_magic M1 h OR 1) M1"
  shows "heap_rep i M2 (as @ h # cs) t (f1 @ f2)" "used M2 = (used M)(h := True)" "bsize M2 = bsize M"
proof -
  note r = heap_repD[OF rep]
  have h: "h \<in> set (as @ h # cs)" by simp
  have free: "\<not> used M h" using r(4) by auto
  have m: "mi_magic M1 h OR 1 = RT_MEMHEAP_MAGIC OR 1"
    using magic_cases[OF r(2) h] free by (simp add: M1_def take_whole_def)
  have d: "distinct (as @ h # cs)" using blocks_distinct[OF r(2)] by simp
  have b2: "blocks_ok i M2 (as @ h # cs) t"
    unfolding M2_def m using r(2) block_range(3)[OF r(2) h] by (intro set_magic_ok) (simp_all add: M1_def take_whole_def)
  show u: "used M2 = (used M)(h := True)"
    unfolding M2_def m by (simp add: M1_def take_whole_def fun_eq_iff)
  show bz: "bsize M2 = bsize M" by (simp add: M2_def M1_def take_whole_def)
  have nx: "mi_next M2 = mi_next M" by (simp add: M2_def M1_def take_whole_def)
  have "free_sum M2 as = free_sum M as" "free_sum M2 cs = free_sum M cs"
    using d by (auto intro!: free_sum_cong simp: u nx split: if_splits)
  then have s: "free_sum M (as @ h # cs) = free_sum M2 (as @ h # cs) + bsize M h" using free by (simp add: u)
  have q2: "heap_q i M2 (as @ h # cs) t"
    by (rule heap_q_step_sub[OF r(1) b2 refl _ _ _ _ s])
      (simp_all add: M2_def M1_def take_whole_def block_next(3)[OF r(2)])
  have nh: "h \<notin> set (f1 @ f2)" "h \<noteq> free_list (mh_heap M i)" using r(6,7) by auto
  have "free_ok i (unlink_free h (sub_available i (MEMITEM_SIZE M h) M)) (f1 @ f2)"
    by (rule unlink_free_ok) (use r(3) in simp)
  then have f2: "free_ok i M2 (f1 @ f2)"
    using nh unfolding M2_def M1_def take_whole_def by (simp add: clear_free_ok)
  have st: "set (f1 @ f2) = {x \<in> set (as @ h # cs). \<not> used M2 x}" using r(4) nh(1) by (auto simp: u)
  have "successively (\<lambda>x y. used M2 x \<or> used M2 y) (as @ h # cs)"
    using r(5) by (rule successively_mono) (auto simp: u)
  then show "heap_rep i M2 (as @ h # cs) t (f1 @ f2)" using q2 f2 st by (simp add: heap_rep_def)
qed

lemma take_split_rep:
  fixes now :: rt_tick
  assumes rep: "heap_rep i M (as @ h # cs) t (f1 @ h # f2)"
    and sz: "unat sz + 48 \<le> bsize M h" "12 \<le> unat sz" "4 dvd unat sz"
  defines "n \<equiv> h + sz + 36" and "M1 \<equiv> take_split i h sz now M"
  defines "M2 \<equiv> set_magic h (mi_magic M1 h OR 1) M1"
  shows "heap_rep i M2 (as @ h # n # cs) t (n # f1 @ f2)" "used M2 = (used M)(n := False, h := True)"
    "bsize M2 h = unat sz" "mi_next M2 = (mi_next M)(n := mi_next M h, h := n)" "n \<notin> set (as @ h # cs)"
    "bsize M2 n + 36 + unat sz = bsize M h"
proof -
  note r = heap_repD[OF rep]
  let ?y = "hd (cs @ [t])"
  have h: "h \<in> set (as @ h # cs)" by simp
  have free: "\<not> used M h" using r(4) by auto
  note bn = block_next[OF r(2)]
  have yt: "unat ?y \<le> unat t" by (rule bn(7))
  have y32: "unat ?y < 2 ^ 32" by (rule less_le_trans[OF unsigned_less]) simp
  have un: "unat n = unat h + unat sz + 36"
    unfolding n_def using bn(5) sz(1) y32 by (simp add: unat_word_ariths)
  have gn: "gap h n" "gap n ?y" using un bn(5) sz(1,2) by (simp_all add: gap_def)
  have n4: "4 dvd unat n" using un sz(3) blocks_okD(7)[OF r(2), of h] by simp
  have nt: "n \<noteq> t" using gn(2) yt by (auto simp: gap_def)
  let ?A = "item_stamp four_spaces now n (set_pool n i (set_magic n RT_MEMHEAP_MAGIC M))"
  have "blocks_ok i (set_magic n RT_MEMHEAP_MAGIC M) (as @ h # cs) t" by (rule set_magic_ok[OF r(2)]) (use nt in simp_all)
  then have bA: "blocks_ok i ?A (as @ h # cs) t" by (auto simp: blocks_ok_def)
  have mA: "mi_magic ?A n \<in> {RT_MEMHEAP_MAGIC, RT_MEMHEAP_MAGIC OR 1}" "mi_pool ?A n = i" by simp_all
  note sp = split_block_ok[OF bA gn n4 mA]
  have nbs: "n \<notin> set (as @ h # cs)" using sp(3) by simp
  then show "n \<notin> set (as @ h # cs)" .
  have nh: "n \<noteq> h" using nbs by simp
  let ?B = "split_block h n ?A"
  have M1: "M1 = sub_available i (sz + 36) (link_free i n (clear_free h (unlink_free h ?B)))"
    by (simp only: M1_def take_split_def Let_def n_def[symmetric])
  have m: "mi_magic M1 h OR 1 = RT_MEMHEAP_MAGIC OR 1"
    using magic_cases[OF r(2) h] free nh by (simp add: M1)
  have b2: "blocks_ok i M2 (as @ h # n # cs) t"
    unfolding M2_def m using sp(1) block_range(3)[OF r(2) h] by (intro set_magic_ok) (simp_all add: M1)
  show u: "used M2 = (used M)(n := False, h := True)"
    unfolding M2_def m by (simp add: M1 fun_eq_iff)
  show nx: "mi_next M2 = (mi_next M)(n := mi_next M h, h := n)"
    using sp(2) by (simp add: M2_def M1 bn(1))
  show bh: "bsize M2 h = unat sz" using un by (simp add: bsize_def nx)
  have bs: "bsize M2 n = bsize M h - unat sz - 36" using un bn(5) nh by (simp add: bsize_def nx bn(1))
  then show "bsize M2 n + 36 + unat sz = bsize M h" using sz(1) by simp
  have d: "distinct (as @ h # cs)" using blocks_distinct[OF r(2)] by simp
  have "free_sum M2 as = free_sum M as" "free_sum M2 cs = free_sum M cs"
    using d nbs by (auto intro!: free_sum_cong simp: u nx split: if_splits)
  then have s: "free_sum M (as @ h # cs) = free_sum M2 (as @ h # n # cs) + (unat sz + 36)"
    using free nh bs sz(1) by (simp add: u)
  have hd: "hd (as @ h # n # cs) = hd (as @ h # cs)" by (cases as) auto
  have q2: "heap_q i M2 (as @ h # n # cs) t"
    by (rule heap_q_step_sub[OF r(1) b2 hd _ _ _ _ s]) (simp_all add: M2_def M1)
  have h1: "h \<notin> set (f1 @ f2)" "h \<noteq> free_list (mh_heap M i)" using r(6,7) by auto
  have "n \<notin> set (f1 @ h # f2)" unfolding r(4) using nbs by blast
  then have n1: "n \<notin> set (f1 @ f2)" by simp
  have "unat (hd (as @ h # cs)) \<le> unat n" using block_range(1)[OF r(2) h] un by simp
  moreover have "unat n \<le> unat t" using gn(2) yt by (simp add: gap_def)
  ultimately have n2: "n \<noteq> free_list (mh_heap M i)" by (rule hdr_outside[OF r(1)])
  have "free_ok i (unlink_free h ?B) (f1 @ f2)" by (rule unlink_free_ok) (use r(3) in simp)
  then have "free_ok i (clear_free h (unlink_free h ?B)) (f1 @ f2)" using h1 by (simp add: clear_free_ok)
  then have "free_ok i (link_free i n (clear_free h (unlink_free h ?B))) (n # f1 @ f2)"
    using n1 n2 by (simp add: link_free_ok)
  then have f2: "free_ok i M2 (n # f1 @ f2)" by (simp add: M2_def M1)
  have st: "set (n # f1 @ f2) = {x \<in> set (as @ h # n # cs). \<not> used M2 x}"
  proof -
    have "set (f1 @ f2) = {x \<in> set (as @ h # cs). \<not> used M x} - {h}" using r(4) h1(1) by auto
    then show ?thesis using nbs nh by (auto simp: u)
  qed
  have sc: "successively (\<lambda>x y. used M x \<or> used M y) as" "successively (\<lambda>x y. used M x \<or> used M y) cs"
    "cs \<noteq> [] \<Longrightarrow> used M (hd cs)"
    using r(5) free by (auto simp: successively_mid)
  have "successively (\<lambda>x y. used M2 x \<or> used M2 y) as" "successively (\<lambda>x y. used M2 x \<or> used M2 y) cs"
    using sc(1,2) d nbs by (subst successively_agree[where u = "used M"]; auto simp: u)+
  moreover have "cs \<noteq> [] \<Longrightarrow> used M2 (hd cs)" using sc(3) nbs by (cases cs) (auto simp: u)
  moreover have "successively (\<lambda>x y. used M2 x \<or> used M2 y) (n # cs)"
    using calculation(2,3) by (cases cs) auto
  ultimately have "successively (\<lambda>x y. used M2 x \<or> used M2 y) (as @ h # n # cs)"
    by (auto simp: successively_mid u)
  then show "heap_rep i M2 (as @ h # n # cs) t (n # f1 @ f2)" using q2 f2 st by (simp add: heap_rep_def)
qed

section \<open>Allocating\<close>

lemma heap_rep_stamp [simp]: "heap_rep i (item_stamp nm now a M) bs t fs = heap_rep i M bs t fs"
  by (simp add: heap_rep_def)

lemma allocs_stamp [simp]: "allocs (item_stamp nm now a M) bs = allocs M bs"
  by (simp add: allocs_def)

lemma allocs_split:
  "allocs M (as @ h # cs) = allocs M (as @ cs) \<union> (if used M h then {(h, bsize M h)} else {})"
  by (auto simp: allocs_def)

lemma allocs_agree:
  assumes "\<And>x. x \<in> set bs \<Longrightarrow> used M' x = used M x \<and> (used M x \<longrightarrow> bsize M' x = bsize M x)"
  shows "allocs M' bs = allocs M bs"
  using assms by (fastforce simp: allocs_def)

lemma alloc_locked_spec:
  assumes rep: "heap_rep i M bs t fs" and sz: "12 \<le> unat sz" "4 dvd unat sz" "unat sz + 48 < 2 ^ 32"
  shows "case find (\<lambda>x. unat sz \<le> bsize M x) fs of
      None \<Rightarrow> alloc_locked i sz who now M = Some (M, 0)
    | Some h \<Rightarrow> (\<exists>M' bs' fs'. alloc_locked i sz who now M = Some (M', h + 36) \<and> heap_rep i M' bs' t fs' \<and>
        hd bs' = hd bs \<and> h \<notin> fst ` allocs M bs \<and> allocs M' bs' = insert (h, bsize M' h) (allocs M bs) \<and>
        unat sz \<le> bsize M' h \<and> bsize M' h < unat sz + 48 \<and> mi_byte M' = mi_byte M \<and>
        (\<exists>as cs. bs = as @ h # cs \<and> (bs' = bs \<or> (\<exists>n. bs' = as @ h # n # cs \<and> \<not> used M' n))))"
proof -
  note r = heap_repD[OF rep]
  let ?fl = "free_list (mh_heap M i)"
  have pos: "0 < sz" using sz(1) by (auto simp: word_gt_0)
  have size: "unat (MEMITEM_SIZE M x) = bsize M x" if x: "x \<in> set fs" for x
  proof -
    have "x \<in> set bs" using x r(4) by auto
    then obtain as cs where bs: "bs = as @ x # cs" by (meson split_list)
    show ?thesis by (rule block_next(4)[of i M as x cs t]) (use r(2) bs in simp)
  qed
  have fnd: "find (\<lambda>x. unat sz \<le> bsize M x) fs = find (\<lambda>x. sz \<le> MEMITEM_SIZE M x) fs"
    using size by (intro find_cong) (auto simp: word_le_nat_alt)
  show ?thesis
  proof (cases "find (\<lambda>x. unat sz \<le> bsize M x) fs")
    case None
    obtain z where "memheap_search M ?fl sz (mi_next_free M ?fl) 0 = Some (?fl, z)" "z < sz"
      using search_spec[OF r(3) pos] None fnd by auto
    moreover from this have "\<not> sz \<le> z" by simp
    ultimately show ?thesis using None by (simp add: alloc_locked_def Let_def)
  next
    case (Some h)
    have srch: "memheap_search M ?fl sz (mi_next_free M ?fl) 0 = Some (h, MEMITEM_SIZE M h)"
      using search_spec[OF r(3) pos] Some fnd by simp
    have hf: "h \<in> set fs" and fit: "unat sz \<le> bsize M h" using Some by (auto simp: find_Some_iff)
    have hb: "h \<in> set bs" and free: "\<not> used M h" using hf r(4) by auto
    obtain as cs where bs: "bs = as @ h # cs" using hb by (meson split_list)
    obtain f1 f2 where fs: "fs = f1 @ h # f2" using hf by (meson split_list)
    note rep' = rep[unfolded bs fs]
    have fit': "sz \<le> MEMITEM_SIZE M h" using fit size[OF hf] by (simp add: word_le_nat_alt)
    have u48: "unat (sz + 36 + 12) = unat sz + 48" using sz(3) by (simp add: unat_word_ariths)
    have d: "distinct (as @ h # cs)" using blocks_distinct[OF r(2)] bs by simp
    have notin: "h \<notin> fst ` allocs M bs" using free by (auto simp: allocs_def)
    show ?thesis
    proof (cases "unat sz + 48 \<le> bsize M h")
      case True
      then have big: "sz + 36 + 12 \<le> MEMITEM_SIZE M h" using u48 size[OF hf] by (simp add: word_le_nat_alt)
      define n where "n = h + sz + 36"
      define M2 where "M2 = set_magic h (mi_magic (take_split i h sz now M) h OR 1) (take_split i h sz now M)"
      note ts = take_split_rep(1-4)[where now = now, OF rep' True sz(1,2)] take_split_rep(5)[OF rep' True sz(1,2)]
      note ts = ts[folded n_def M2_def]
      have nh: "n \<noteq> h" "n \<notin> set as" "n \<notin> set cs" using ts(5) by auto
      have "bsize M2 x = bsize M x" if "x \<noteq> h" "x \<noteq> n" for x unfolding bsize_def ts(4) using that by simp
      then have ag: "allocs M2 (as @ cs) = allocs M (as @ cs)"
        using d nh by (intro allocs_agree) (auto simp: ts(2))
      have al: "allocs M2 (as @ h # n # cs) = insert (h, bsize M2 h) (allocs M bs)"
        using nh ag free allocs_split[of M2 as h "n # cs"] allocs_split[of M2 as n cs]
        unfolding bs by (auto simp: ts(2) allocs_split)
      have "alloc_locked i sz who now M = Some (item_stamp who now h M2, h + 36)"
        using srch fit' big by (simp add: alloc_locked_def Let_def M2_def)
      moreover have "hd (as @ h # n # cs) = hd bs" unfolding bs by (cases as) auto
      moreover have "mi_byte M2 = mi_byte M" by (simp add: M2_def take_split_def Let_def)
      moreover have "\<not> used M2 n" using nh by (simp add: ts(2))
      ultimately show ?thesis unfolding Some option.case using ts(1,3) al notin bs
        by - (rule exI[of _ "item_stamp who now h M2"], rule exI[of _ "as @ h # n # cs"], rule exI[of _ "n # f1 @ f2"], auto)
    next
      case False
      then have small: "\<not> sz + 36 + 12 \<le> MEMITEM_SIZE M h" using u48 size[OF hf] by (simp add: word_le_nat_alt)
      define M2 where "M2 = set_magic h (mi_magic (take_whole i h (MEMITEM_SIZE M h) M) h OR 1)
        (take_whole i h (MEMITEM_SIZE M h) M)"
      note tw = take_whole_rep[OF rep', folded M2_def]
      have ag: "allocs M2 (as @ cs) = allocs M (as @ cs)"
        using d by (intro allocs_agree) (auto simp: tw(2,3))
      have al: "allocs M2 (as @ h # cs) = insert (h, bsize M2 h) (allocs M bs)"
        using ag free unfolding bs by (simp add: allocs_split tw(2))
      have "alloc_locked i sz who now M = Some (item_stamp who now h M2, h + 36)"
        using srch fit' small by (simp add: alloc_locked_def Let_def M2_def)
      moreover have "mi_byte M2 = mi_byte M" by (simp add: M2_def take_whole_def)
      moreover have "bsize M2 h = bsize M h" by (simp add: tw(3))
      ultimately show ?thesis unfolding Some option.case using tw(1) al notin fit False bs
        by - (rule exI[of _ "item_stamp who now h M2"], rule exI[of _ "as @ h # cs"], rule exI[of _ "f1 @ f2"], auto)
    qed
  qed
qed

section \<open>Freeing\<close>

text \<open>Merging with a free block on the right.\<close>

definition free_right :: "nat \<Rightarrow> rt_uint32 \<Rightarrow> memheaps \<Rightarrow> memheaps" where
  "free_right i h M =
     (if \<not> used M (mi_next M h) then
        (let M = add_available i 36 M; n = mi_next M h in unlink_free n (merge_next h M))
      else M)"

lemma free_right_spec:
  assumes q: "heap_q i M (as @ h # cs) t" and fo: "free_ok i M fs" and nu: "\<not> used M h"
    and st: "\<And>y. y \<in> set cs \<Longrightarrow> \<not> used M y \<Longrightarrow> y \<in> set fs"
  defines "r \<equiv> cs \<noteq> [] \<and> \<not> used M (hd cs)"
  shows "heap_q i (free_right i h M) (as @ h # (if r then tl cs else cs)) t"
    "free_ok i (free_right i h M) (if r then remove1 (hd cs) fs else fs)"
    "used (free_right i h M) = used M" "\<And>y. y \<noteq> h \<Longrightarrow> mi_next (free_right i h M) y = mi_next M y"
    "mi_byte (free_right i h M) = mi_byte M" "free_list (mh_heap (free_right i h M) i) = free_list (mh_heap M i)"
proof -
  have b: "blocks_ok i M (as @ h # cs) t" using q by (simp add: heap_q_def)
  note nx = block_next(1)[OF b]
  have "heap_q i (free_right i h M) (as @ h # (if r then tl cs else cs)) t \<and>
    free_ok i (free_right i h M) (if r then remove1 (hd cs) fs else fs) \<and> used (free_right i h M) = used M \<and>
    (\<forall>y. y \<noteq> h \<longrightarrow> mi_next (free_right i h M) y = mi_next M y) \<and> mi_byte (free_right i h M) = mi_byte M \<and>
    free_list (mh_heap (free_right i h M) i) = free_list (mh_heap M i)"
  proof (cases r)
    case True
    then obtain n cs' where cs: "cs = n # cs'" and n: "\<not> used M n" by (cases cs) (auto simp: r_def)
    have e: "free_right i h M = unlink_free n (merge_next h (add_available i 36 M))"
      using nx n cs by (simp add: free_right_def Let_def)
    have q1: "heap_q i M (as @ h # n # cs') t" using q cs by simp
    note m = q_merge(1)[OF q1 nu n]
    have b1: "blocks_ok i (add_available i 36 M) (as @ h # n # cs') t" using b cs by simp
    note mn = merge_next_ok(3)[OF b1]
    obtain f1 f2 where fs: "fs = f1 @ n # f2" using st[of n] n cs by (auto dest: split_list)
    have "distinct fs" using fo by (simp add: free_ok_def Let_def)
    then have r1: "remove1 n fs = f1 @ f2" unfolding fs by (simp add: remove1_append)
    have "free_ok i (unlink_free n (merge_next h (add_available i 36 M))) (f1 @ f2)"
      by (rule unlink_free_ok) (use fo fs in simp)
    then show ?thesis using True m r1 cs mn by (simp add: e)
  next
    case False
    then have "used M (mi_next M h)"
      using blocks_okD(9)[OF b] unfolding nx by (cases cs) (auto simp: r_def)
    then show ?thesis using False q fo by (simp add: free_right_def)
  qed
  then show "heap_q i (free_right i h M) (as @ h # (if r then tl cs else cs)) t"
    "free_ok i (free_right i h M) (if r then remove1 (hd cs) fs else fs)"
    "used (free_right i h M) = used M" "\<And>y. y \<noteq> h \<Longrightarrow> mi_next (free_right i h M) y = mi_next M y"
    "mi_byte (free_right i h M) = mi_byte M" "free_list (mh_heap (free_right i h M) i) = free_list (mh_heap M i)"
    by blast+
qed

lemma free_finish:
  assumes q: "heap_q i M (as @ h # cs) t" and fo: "free_ok i M fs" and nu: "\<not> used M h"
    and st: "set fs - {h} = {y \<in> set (as @ cs). \<not> used M y}" and ins: "ins \<longleftrightarrow> h \<notin> set fs"
    and sc: "successively (\<lambda>x y. used M x \<or> used M y) as" "successively (\<lambda>x y. used M x \<or> used M y) cs"
    and la: "as \<noteq> [] \<Longrightarrow> used M (last as)"
  defines "r \<equiv> cs \<noteq> [] \<and> \<not> used M (hd cs)"
    and "M' \<equiv> (if ins then link_free i h (free_right i h M) else free_right i h M)"
  shows "\<exists>fs'. heap_rep i M' (as @ h # (if r then tl cs else cs)) t fs'" "used M' = used M"
    "\<And>y. y \<noteq> h \<Longrightarrow> mi_next M' y = mi_next M y" "mi_byte M' = mi_byte M"
proof -
  have b: "blocks_ok i M (as @ h # cs) t" using q by (simp add: heap_q_def)
  have d: "distinct (as @ h # cs)" using blocks_distinct[OF b] by simp
  have st': "y \<in> set fs" if "y \<in> set cs" "\<not> used M y" for y using that st by auto
  note fr = free_right_spec[OF q fo nu st', folded r_def]
  show u: "used M' = used M" using fr(3) by (simp add: M'_def)
  show "\<And>y. y \<noteq> h \<Longrightarrow> mi_next M' y = mi_next M y" "mi_byte M' = mi_byte M"
    using fr(4,5) by (simp_all add: M'_def)
  let ?cs = "if r then tl cs else cs" and ?fs = "if r then remove1 (hd cs) fs else fs"
  have sub: "set ?cs \<subseteq> set cs" by (cases cs) auto
  have fh: "h \<in> set ?fs \<longleftrightarrow> h \<in> set fs" using d by (cases cs) (auto simp: r_def)
  have dfs: "distinct fs" using fo by (simp add: free_ok_def Let_def)
  have hr: "h \<noteq> free_list (mh_heap M i)"
    by (rule hdr_outside[OF q]) (use block_range[OF b, of h] in auto)
  let ?fs' = "if ins then h # ?fs else ?fs"
  have "free_ok i M' ?fs'"
    using fr(2) ins fh hr fr(6) by (auto simp: M'_def intro!: link_free_ok)
  moreover have "heap_q i M' (as @ h # ?cs) t" using fr(1) by (simp add: M'_def)
  moreover have "set ?fs' = {y \<in> set (as @ h # ?cs). \<not> used M' y}"
  proof -
    have "set ?fs - {h} = {y \<in> set (as @ ?cs). \<not> used M y}"
    proof (cases r)
      case True
      then obtain n cs' where cs: "cs = n # cs'" and n: "\<not> used M n" by (cases cs) (auto simp: r_def)
      have "n \<notin> set as" "n \<notin> set cs'" using d cs by auto
      then show ?thesis using True st cs dfs by (auto simp: cs set_remove1_eq)
    qed (use st in simp)
    moreover have "set ?fs' = insert h (set ?fs - {h})"
    proof (cases ins)
      case False
      then have "h \<in> set ?fs" using ins fh by blast
      then show ?thesis using False by (simp add: insert_absorb)
    qed simp
    moreover have "{y \<in> set (as @ h # ?cs). \<not> used M' y} = insert h {y \<in> set (as @ ?cs). \<not> used M y}"
      unfolding u set_append list.set using nu by blast
    ultimately show ?thesis by (simp only:)
  qed
  moreover have "successively (\<lambda>x y. used M' x \<or> used M' y) (as @ h # ?cs)"
  proof -
    have "successively (\<lambda>x y. used M x \<or> used M y) ?cs"
      using sc(2) by (cases cs) (auto simp: successively_Cons)
    moreover have "?cs \<noteq> [] \<Longrightarrow> used M (hd ?cs)"
    proof (cases r)
      case True
      then obtain n cs' where cs: "cs = n # cs'" and n: "\<not> used M n" by (cases cs) (auto simp: r_def)
      then show "?cs \<noteq> [] \<Longrightarrow> used M (hd ?cs)" using sc(2) True by (cases cs') (auto simp: cs)
    qed (auto simp: r_def)
    ultimately show ?thesis using sc(1) la unfolding u by (simp add: successively_mid)
  qed
  ultimately show "\<exists>fs'. heap_rep i M' (as @ h # (if r then tl cs else cs)) t fs'"
    unfolding heap_rep_def by blast
qed

definition released :: "nat \<Rightarrow> rt_uint32 \<Rightarrow> rt_tick \<Rightarrow> memheaps \<Rightarrow> memheaps" where
  "released i h now M =
     add_available i (MEMITEM_SIZE M h) (item_stamp four_spaces now h (set_magic h (mi_magic M h AND NOT 1) M))"

lemma released_frame [simp]: "mi_next (released i h now M) = mi_next M" "mi_prev (released i h now M) = mi_prev M"
  by (simp_all add: released_def)

lemma free_locked_alone:
  assumes "mi_pool M h = i" "used (released i h now M) (mi_prev M h)"
  shows "free_locked h now M = link_free i h (free_right i h (released i h now M))"
  using assms by (simp add: free_locked_def free_right_def released_def Let_def MEMITEM_SIZE_def)

lemma free_locked_left:
  assumes i: "mi_pool M h = i" and p: "mi_prev M h = p" "\<not> used (released i h now M) p" "mi_next M p = h" "p \<noteq> h"
  shows "free_locked h now M = free_right i p (merge_next p (add_available i 36 (released i h now M)))"
proof -
  let ?A = "add_available i 36 (released i h now M)"
  have f: "mi_next ?A = mi_next M" "mi_prev ?A = mi_prev M" by (simp_all add: released_def)
  have e: "set_prev (mi_next M h) p (set_next p (mi_next M h) ?A) = merge_next p ?A"
    using p by (simp add: merge_next_def f Let_def set_prev_def set_next_def)
  have n: "mi_next (set_next p (mi_next M h) ?A) h = mi_next M h" "mi_prev (set_next p (mi_next M h) ?A) h = p"
    using p f by (simp_all add: set_next_def)
  have m: "mi_prev (merge_next p ?A) h = p"
    using p f by (simp add: merge_next_def Let_def set_prev_def set_next_def)
  show ?thesis
    using i p(1,2) e n m f unfolding free_locked_def free_right_def
    by (simp add: Let_def released_def MEMITEM_SIZE_def)
qed

lemma free_locked_spec:
  fixes now :: rt_tick
  assumes rep: "heap_rep i M (as @ x # cs) t fs" and u: "used M x"
  defines "l \<equiv> as \<noteq> [] \<and> \<not> used M (last as)" and "r \<equiv> cs \<noteq> [] \<and> \<not> used M (hd cs)"
  defines "bs' \<equiv> (if l then as else as @ [x]) @ (if r then tl cs else cs)" and "M' \<equiv> free_locked x now M"
  shows "\<exists>fs'. heap_rep i M' bs' t fs'" "allocs M' bs' = allocs M (as @ x # cs) - {(x, bsize M x)}"
    "hd bs' = hd (as @ x # cs)" "mi_byte M' = mi_byte M"
proof -
  note rp = heap_repD[OF rep]
  define M1 where "M1 = released i x now M"
  note q1 = q_release[OF rp(1) u, of four_spaces now, folded released_def M1_def]
  have pool: "mi_pool M x = i" using blocks_okD(6)[OF rp(2), of x] by simp
  have prev: "mi_prev M x = last (t # as)" by (rule block_prev[OF rp(2)])
  have d: "distinct (as @ x # cs)" and tn: "t \<notin> set (as @ x # cs)" using blocks_distinct[OF rp(2)] by auto
  have fo1: "free_ok i M1 fs" using rp(3) by (simp add: M1_def released_def)
  have sc: "successively (\<lambda>x y. used M x \<or> used M y) as" "successively (\<lambda>x y. used M x \<or> used M y) cs"
    using rp(5) by (auto simp: successively_mid)
  have ag: "used M1 y = used M y" if "y \<in> set as \<union> set cs" for y using that d by (auto simp: q1(2))
  have sc1: "successively (\<lambda>x y. used M1 x \<or> used M1 y) as" "successively (\<lambda>x y. used M1 x \<or> used M1 y) cs"
    using sc ag by (subst successively_agree[where u = "used M"]; simp)+
  have xf: "x \<notin> set fs" using u rp(4) by auto
  have st1: "set fs - {x} = {y \<in> set (as @ cs). \<not> used M1 y}" using rp(4) xf ag u d by auto
  have r1: "r \<longleftrightarrow> cs \<noteq> [] \<and> \<not> used M1 (hd cs)" using ag by (cases cs) (auto simp: r_def)
  have bytes: "mi_byte M1 = mi_byte M" by (simp add: M1_def released_def)
  have res: "(\<exists>fs'. heap_rep i M' bs' t fs') \<and> used M' = used M1 \<and>
    (\<forall>y. used M1 y \<longrightarrow> y \<in> set bs' \<longrightarrow> mi_next M' y = mi_next M y) \<and> mi_byte M' = mi_byte M \<and>
    {y \<in> set bs'. used M1 y} = {y \<in> set (as @ cs). used M1 y}"
  proof (cases l)
    case False
    then have la: "used M1 (last as)" if "as \<noteq> []" using that ag by (auto simp: l_def)
    have "used M1 (mi_prev M x)"
      unfolding prev using la ag tn blocks_okD(9)[OF rp(2)] by (cases as) (auto simp: q1(2))
    then have e: "M' = link_free i x (free_right i x M1)"
      unfolding M'_def M1_def by (rule free_locked_alone[OF pool])
    have nu: "\<not> used M1 x" by (simp add: q1(2))
    note ff = free_finish[OF q1(1) fo1 nu st1 _ sc1 la, of True, folded r1]
    have bs': "bs' = as @ x # (if r then tl cs else cs)" using False by (simp add: bs'_def)
    have e': "M' = (if True then link_free i x (free_right i x M1) else free_right i x M1)" using e by simp
    have "{y \<in> set bs'. used M1 y} = {y \<in> set (as @ cs). used M1 y}"
      using nu r1 by (cases cs) (auto simp: bs')
    moreover have "mi_next M' y = mi_next M y" if "used M1 y" for y
      using that nu ff(3)[folded e', of y] q1(3) xf by (cases "y = x") auto
    ultimately show ?thesis using ff(1,2,4)[folded e' bs'] xf bytes by auto
  next
    case True
    then obtain as0 p where as: "as = as0 @ [p]" and p: "\<not> used M p" by (cases as rule: rev_cases) (auto simp: l_def)
    have pp: "mi_prev M x = p" using prev as by simp
    have px: "p \<noteq> x" using d as by auto
    have pu: "\<not> used M1 p" using p by (simp add: q1(2))
    have np: "mi_next M p = x" by (rule block_next(1)[of i M as0 p "x # cs" t, simplified]) (use rp(2) as in simp)
    let ?A = "add_available i 36 M1"
    have e: "M' = free_right i p (merge_next p ?A)"
      unfolding M'_def M1_def by (rule free_locked_left[OF pool pp _ np px]) (use pu in \<open>simp add: M1_def\<close>)
    have q0: "heap_q i M1 (as0 @ p # x # cs) t" using q1(1) as by simp
    have xu: "\<not> used M1 x" by (simp add: q1(2))
    note m = q_merge(1)[OF q0 pu xu]
    have bA: "blocks_ok i ?A (as0 @ p # x # cs) t" using q0 by (simp add: heap_q_def)
    note nx = merge_next_ok(3)[OF bA]
    have fo2: "free_ok i (merge_next p ?A) fs" using fo1 by simp
    have pf: "p \<in> set fs" using p rp(4) as by auto
    have st2: "set fs - {p} = {y \<in> set (as0 @ cs). \<not> used (merge_next p ?A) y}"
      using st1 xf pf d as pu by auto
    have la0: "used (merge_next p ?A) (last as0)" if "as0 \<noteq> []"
      using sc1(1) pu that by (simp add: as successively_append_iff)
    have sc2: "successively (\<lambda>x y. used (merge_next p ?A) x \<or> used (merge_next p ?A) y) as0"
      "successively (\<lambda>x y. used (merge_next p ?A) x \<or> used (merge_next p ?A) y) cs"
      using sc1 by (simp_all add: as successively_append_iff)
    have nu: "\<not> used (merge_next p ?A) p" using pu by simp
    have r2: "r \<longleftrightarrow> cs \<noteq> [] \<and> \<not> used (merge_next p ?A) (hd cs)" using r1 by simp
    note ff = free_finish[OF m fo2 nu st2 _ sc2 la0, of False, folded r2]
    have bs': "bs' = as0 @ p # (if r then tl cs else cs)" using True by (simp add: bs'_def as)
    have e': "M' = (if False then link_free i p (free_right i p (merge_next p ?A)) else free_right i p (merge_next p ?A))"
      using e by simp
    have "{y \<in> set bs'. used M1 y} = {y \<in> set (as @ cs). used M1 y}"
      using pu r1 by (cases cs) (auto simp: bs' as)
    moreover have "mi_next M' y = mi_next M y" if "used M1 y" "y \<in> set bs'" for y
      using ff(3)[folded e', of y] that pu pf nx q1(3) by (cases "y = p") auto
    ultimately show ?thesis using ff(1,2,4)[folded e' bs'] pf bytes by auto
  qed
  then show "\<exists>fs'. heap_rep i M' bs' t fs'" and "mi_byte M' = mi_byte M" by blast+
  show "hd bs' = hd (as @ x # cs)" by (cases as) (auto simp: bs'_def l_def)
  have "(y, n) \<in> allocs M' bs' \<longleftrightarrow> (y, n) \<in> allocs M (as @ x # cs) - {(x, bsize M x)}" for y n
  proof -
    have "y \<in> set bs' \<and> used M' y \<longleftrightarrow> y \<in> set (as @ x # cs) \<and> used M y \<and> y \<noteq> x"
      using res d by (auto simp: q1(2))
    moreover have "bsize M' y = bsize M y" if "y \<in> set bs'" "used M' y" using res that by (simp add: bsize_def)
    ultimately show ?thesis unfolding allocs_def by auto
  qed
  then show "allocs M' bs' = allocs M (as @ x # cs) - {(x, bsize M x)}" by auto
qed

end
