(* ===== verification/Rtt_Memheap_Spec.thy ===== *)
theory Rtt_Memheap_Spec
  imports Rtt_Memheap_Ops
begin

text \<open>
  Resizing in place, initialisation, and the contract of the memory heap: the blocks it has
  handed out (\<open>live\<close>) never overlap, an allocation adds one of the size asked for and a
  release takes one away, and a heap with nothing handed out is one free block again.
\<close>

section \<open>Resizing in place\<close>

lemma sub_available_raw:
  "upd_heap i (\<lambda>hp. hp\<lparr>available_size := available_size hp - n\<rparr>) M = add_available i (- n) M"
  by (simp add: add_available_def)

text \<open>Both end with a used block \<open>h\<close> of the new size and a free one behind it.\<close>

lemma resize_rep:
  assumes rep: "heap_rep i M bs t fs" and bs: "bs = as @ h # ds" and hu: "used M h"
    and b': "blocks_ok i M' (as @ h # n # cs) t" and sub: "set cs \<subseteq> set ds" and sc: "successively (\<lambda>x y. used M x \<or> used M y) cs"
    and nx: "\<forall>y. y \<noteq> h \<longrightarrow> y \<noteq> n \<longrightarrow> mi_next M' y = mi_next M y"
    and us: "used M' = (used M)(n := False)" and hc: "cs \<noteq> [] \<longrightarrow> used M (hd cs)"
    and q': "heap_q i M' (as @ h # n # cs) t" and fo: "free_ok i M' (n # fs')"
    and fs': "set fs' = set fs - (set ds - set cs)" and nds: "n \<notin> set bs" and dsc: "\<forall>y \<in> set ds - set cs. \<not> used M y"
  shows "heap_rep i M' (as @ h # n # cs) t (n # fs')"
    "allocs M' (as @ h # n # cs) = insert (h, bsize M' h) (allocs M bs - {(h, bsize M h)})"
proof -
  note r = heap_repD[OF rep]
  have d: "distinct (as @ h # ds)" using blocks_distinct[OF r(2)] bs by simp
  have ag: "used M' y = used M y" if "y \<in> set bs" for y using that nds by (auto simp: us)
  have "set (n # fs') = {x \<in> set (as @ h # n # cs). \<not> used M' x}"
    using r(4) fs' d sub nds bs hu by (auto simp: us)
  moreover have "successively (\<lambda>x y. used M' x \<or> used M' y) (as @ h # n # cs)"
  proof -
    have "successively (\<lambda>x y. used M x \<or> used M y) as" using r(5) bs by (simp add: successively_mid)
    then have "successively (\<lambda>x y. used M' x \<or> used M' y) as"
      by (subst successively_agree[where u = "used M"]) (use ag bs in auto)
    moreover have "successively (\<lambda>x y. used M' x \<or> used M' y) cs"
      using sc by (subst successively_agree[where u = "used M"]) (use ag bs sub in auto)
    moreover have "cs \<noteq> [] \<Longrightarrow> used M' (hd cs)" using hc ag sub bs by (cases cs) auto
    moreover have "used M' h" using hu ag bs by simp
    ultimately show ?thesis by (cases cs) (auto simp: successively_mid)
  qed
  ultimately show "heap_rep i M' (as @ h # n # cs) t (n # fs')"
    using q' fo by (simp add: heap_rep_def)
  have "bsize M' y = bsize M y" if "y \<in> set (as @ cs)" for y
  proof -
    have "y \<noteq> h" "y \<noteq> n" using that d sub nds bs by auto
    then show ?thesis using nx by (simp add: bsize_def)
  qed
  then have "allocs M' (as @ cs) = allocs M (as @ cs)"
    using ag sub bs by (intro allocs_agree) auto
  moreover have "allocs M' (as @ h # n # cs) = insert (h, bsize M' h) (allocs M' (as @ cs))"
  proof -
    have "h \<noteq> n" using nds bs by auto
    then show ?thesis using hu by (auto simp: allocs_def us)
  qed
  moreover have "allocs M (as @ cs) = allocs M (as @ ds)" using sub dsc by (auto simp: allocs_def)
  moreover have "allocs M (as @ ds) = allocs M bs - {(h, bsize M h)}" using d hu unfolding bs by (auto simp: allocs_def)
  ultimately show "allocs M' (as @ h # n # cs) = insert (h, bsize M' h) (allocs M bs - {(h, bsize M h)})" by simp
qed

lemma shrink_locked_spec:
  assumes rep: "heap_rep i M (as @ h # cs) t fs" and hu: "used M h"
    and sz: "12 \<le> unat newsize" "4 dvd unat newsize" "unat newsize + 48 < bsize M h"
  shows "\<exists>M' bs' fs'. shrink_locked i h newsize M = M' \<and> heap_rep i M' bs' t fs' \<and> hd bs' = hd (as @ h # cs) \<and>
    allocs M' bs' = insert (h, unat newsize) (allocs M (as @ h # cs) - {(h, bsize M h)}) \<and> mi_byte M' = mi_byte M"
proof -
  note r = heap_repD[OF rep]
  let ?y = "hd (cs @ [t])"
  define n where "n = h + newsize + 36"
  have h: "h \<in> set (as @ h # cs)" by simp
  note bn = block_next[OF r(2)]
  have y32: "unat ?y < 2 ^ 32" by (rule less_le_trans[OF unsigned_less]) simp
  have un: "unat n = unat h + unat newsize + 36"
    unfolding n_def using bn(5) sz(3) y32 by (simp add: unat_word_ariths)
  have gn: "gap h n" "gap n ?y" using un bn(5) sz by (simp_all add: gap_def)
  have n4: "4 dvd unat n" using un sz(2) blocks_okD(7)[OF r(2), of h] by simp
  have nt: "n \<noteq> t" using gn(2) bn(7) by (auto simp: gap_def)
  define A where "A = set_pool n i (set_magic n RT_MEMHEAP_MAGIC M)"
  have "blocks_ok i (set_magic n RT_MEMHEAP_MAGIC M) (as @ h # cs) t" by (rule set_magic_ok[OF r(2)]) (use nt in simp_all)
  then have bA: "blocks_ok i A (as @ h # cs) t" by (auto simp: blocks_ok_def A_def)
  have mA: "mi_magic A n \<in> {RT_MEMHEAP_MAGIC, RT_MEMHEAP_MAGIC OR 1}" "mi_pool A n = i" by (simp_all add: A_def)
  define B where "B = split_block h n A"
  note sp = split_block_ok[OF bA gn n4 mA, folded B_def]
  have nbs: "n \<notin> set (as @ h # cs)" using sp(3) by simp
  have nh: "n \<noteq> h" using nbs by simp
  have uB: "used B = (used M)(n := False)" by (simp add: B_def A_def fun_eq_iff)
  have nxB: "mi_next B = (mi_next M)(n := ?y, h := n)" using sp(2) by (simp add: A_def)
  have hpB: "mh_heap B = mh_heap M" and foB: "free_ok i B fs" and byB: "mi_byte B = mi_byte M"
    using r(3) by (simp_all add: B_def A_def)
  have bhB: "bsize B h = unat newsize" using un by (simp add: bsize_def nxB)
  have bnB: "bsize B n = bsize M h - unat newsize - 36" using un bn(5) nh by (simp add: bsize_def nxB)
  have d: "distinct (as @ h # cs)" using blocks_distinct[OF r(2)] by simp
  have fsn: "n \<notin> set fs" unfolding r(4) using nbs by blast
  have nr: "unat (hd (as @ h # cs)) \<le> unat n" "unat n \<le> unat t"
    using block_range(1)[OF r(2) h] un gn(2) bn(7) by (simp_all add: gap_def)
  have nhdr: "n \<noteq> free_list (mh_heap M i)" by (rule hdr_outside[OF r(1) nr])
  have hd': "hd (as @ h # n # xs) = hd (as @ h # cs)" for xs by (cases as) auto
  have blk: "mi_next B n = ?y" using nxB nh by simp
  have "free_sum M as = free_sum B as" "free_sum M cs = free_sum B cs"
    using d nbs by (auto intro!: free_sum_cong[symmetric] simp: uB nxB split: if_splits)
  note fsum = this
  have S: "shrink_locked i h newsize M =
      (let M2 = (if \<not> used B ?y then unlink_free ?y (merge_next n (add_available i (- MEMITEM_SIZE B ?y) B)) else B);
           M3 = link_free i n M2 in add_available i (MEMITEM_SIZE M3 n) M3)"
    unfolding shrink_locked_def Let_def n_def[symmetric] A_def[symmetric] B_def[symmetric] sub_available_raw blk
    by (rule refl)
  show ?thesis
  proof (cases "used B ?y")
    case True
    define M' where "M' = add_available i (MEMITEM_SIZE B n) (link_free i n B)"
    have e: "shrink_locked i h newsize M = M'"
      using True by (simp add: S Let_def M'_def MEMITEM_SIZE_def)
    have b': "blocks_ok i M' (as @ h # n # cs) t" using sp(1) by (simp add: M'_def)
    have u': "used M' = (used M)(n := False)" and nx': "mi_next M' = mi_next B" by (simp_all add: M'_def uB)
    have bz': "bsize M' = bsize B" by (simp add: M'_def)
    have bnn: "MEMITEM_SIZE B n = of_nat (bsize B n)"
      by (rule block_next(3)[of i B "as @ [h]" n cs t]) (use sp(1) in simp)
    have "free_sum M' as = free_sum B as" "free_sum M' cs = free_sum B cs"
      by (rule free_sum_cong; simp add: M'_def)+
    then have s: "free_sum M' (as @ h # n # cs) = free_sum M (as @ h # cs) + bsize B n"
      using hu nh by (simp add: fsum u' bz')
    have q': "heap_q i M' (as @ h # n # cs) t"
      by (rule heap_q_step[OF r(1) b' hd' _ _ _ _ s]) (simp_all add: M'_def hpB bnn)
    have fo': "free_ok i M' (n # fs)" using foB fsn nhdr by (simp add: M'_def link_free_ok hpB)
    have sc: "successively (\<lambda>x y. used M x \<or> used M y) cs" using r(5) by (simp add: successively_mid)
    have hc: "cs \<noteq> [] \<longrightarrow> used M (hd cs)" using True nbs by (cases cs) (auto simp: uB split: if_splits)
    note rr = resize_rep[OF rep refl hu b' subset_refl sc _ u' hc q' fo' _ nbs]
    have "heap_rep i M' (as @ h # n # cs) t (n # fs)"
      "allocs M' (as @ h # n # cs) = insert (h, bsize M' h) (allocs M (as @ h # cs) - {(h, bsize M h)})"
      by (rule rr; simp add: nx' nxB)+
    moreover have "mi_byte M' = mi_byte M" using byB by (simp add: M'_def)
    ultimately show ?thesis using e hd'[of cs] bhB bz'
      by - (rule exI[of _ M'], rule exI[of _ "as @ h # n # cs"], rule exI[of _ "n # fs"], simp)
  next
    case False
    then obtain f cs' where cs: "cs = f # cs'" and ff: "\<not> used M f"
      using blocks_okD(9)[OF r(2)] nt nbs by (cases cs) (auto simp: uB split: if_splits)
    have y: "?y = f" by (simp add: cs)
    let ?C = "add_available i (- MEMITEM_SIZE B f) B"
    have bC: "blocks_ok i ?C ((as @ [h]) @ n # f # cs') t" using sp(1) by (simp add: cs)
    note m = merge_next_ok[OF bC]
    define D where "D = unlink_free f (merge_next n ?C)"
    define M' where "M' = add_available i (MEMITEM_SIZE D n) (link_free i n D)"
    have e: "shrink_locked i h newsize M = M'"
      using False by (simp add: S Let_def M'_def D_def y MEMITEM_SIZE_def)
    have okD: "blocks_ok i D (as @ h # n # cs') t" using m(1) by (simp add: D_def)
    then have b': "blocks_ok i M' (as @ h # n # cs') t" by (simp add: M'_def)
    have u': "used M' = (used M)(n := False)" by (simp add: M'_def D_def uB)
    have nx': "mi_next M' = (mi_next B)(n := hd (cs' @ [t]))" using m(3) by (simp add: M'_def D_def)
    have szf: "unat f + 36 + bsize M f = unat (hd (cs' @ [t]))" "12 \<le> bsize M f"
      using block_next(5,6)[of i M "as @ [h]" f cs' t] r(2) cs by simp_all
    have bzn: "bsize M' n = bsize B n + 36 + bsize M f"
      using szf bn(5) un sz bnB by (simp add: bsize_def[of M'] nx' y)
    have bDn: "MEMITEM_SIZE D n = of_nat (bsize D n)"
      by (rule block_next(3)[of i D "as @ [h]" n cs' t]) (use okD in simp)
    have bDM: "bsize D = bsize M'" by (simp add: M'_def)
    have bBf: "MEMITEM_SIZE B f = of_nat (bsize B f)"
      by (rule block_next(3)[of i B "as @ [h, n]" f cs' t]) (use sp(1) cs in simp)
    have fh: "f \<noteq> h" "f \<noteq> n" using d nbs cs by auto
    have bBM: "bsize B f = bsize M f" using fh by (simp add: bsize_def nxB)
    have dd: "distinct (as @ h # f # cs')" using d cs by simp
    have "free_sum M' as = free_sum M as" "free_sum M' cs' = free_sum M cs'"
      using dd nbs cs by (auto intro!: free_sum_cong simp: u' nx' nxB split: if_splits)
    then have s: "free_sum M' (as @ h # n # cs') = free_sum M (as @ h # cs) + (bsize B n + 36)"
      using hu nh ff bzn cs by (simp add: u')
    have av: "available_size (mh_heap M' i) = available_size (mh_heap M i) + of_nat (bsize B n + 36)"
    proof -
      have "available_size (mh_heap M' i) = available_size (mh_heap D i) + MEMITEM_SIZE D n"
        by (simp add: M'_def)
      also have "available_size (mh_heap D i) = available_size (mh_heap M i) - of_nat (bsize M f)"
        by (simp add: D_def bBf bBM hpB)
      also have "MEMITEM_SIZE D n = of_nat (bsize B n + 36) + of_nat (bsize M f)"
        unfolding bDn bDM bzn by simp
      finally show ?thesis by simp
    qed
    have q': "heap_q i M' (as @ h # n # cs') t"
      by (rule heap_q_step[OF r(1) b' hd' _ _ _ av s]) (simp_all add: M'_def D_def hpB)
    have ffs: "f \<in> set fs" using r(4) ff cs by auto
    obtain f1 f2 where fs: "fs = f1 @ f # f2" using ffs by (meson split_list)
    have "free_ok i D (f1 @ f2)" unfolding D_def by (rule unlink_free_ok) (use foB fs in simp)
    moreover have "n \<notin> set (f1 @ f2)" using fsn fs by simp
    ultimately have fo': "free_ok i M' (n # f1 @ f2)" using nhdr by (simp add: M'_def D_def link_free_ok hpB)
    have fs': "set (f1 @ f2) = set fs - (set cs - set cs')" using r(6) dd fs cs by auto
    have sc: "successively (\<lambda>x y. used M x \<or> used M y) cs'" "cs' \<noteq> [] \<longrightarrow> used M (hd cs')"
      using r(5) ff by (auto simp: successively_mid cs successively_Cons)
    have sub: "set cs' \<subseteq> set cs" using cs by auto
    have oth: "\<forall>y. y \<noteq> h \<longrightarrow> y \<noteq> n \<longrightarrow> mi_next M' y = mi_next M y" by (simp add: nx' nxB)
    have dsc: "\<forall>y \<in> set cs - set cs'. \<not> used M y" using cs ff by auto
    note rr = resize_rep[OF rep refl hu b' sub sc(1) oth u' sc(2) q' fo' fs' nbs dsc]
    have bz': "bsize M' h = unat newsize" using bhB nh by (simp add: bsize_def nx')
    have "mi_byte M' = mi_byte M" using byB by (simp add: M'_def D_def)
    then show ?thesis using e rr hd'[of cs'] bz'
      by - (rule exI[of _ M'], rule exI[of _ "as @ h # n # cs'"], rule exI[of _ "n # f1 @ f2"], simp)
  qed
qed

lemma grow_locked_room:
  assumes rep: "heap_rep i M (as @ h # x # cs) t fs" and hu: "used M h" and xf: "\<not> used M x"
    and sz: "12 \<le> unat newsize" "4 dvd unat newsize" "bsize M h < unat newsize" "unat newsize + 12 < bsize M x + bsize M h"
  shows "\<exists>M' bs' fs'. grow_locked i h (MEMITEM_SIZE M h) newsize now M = Some (M', True) \<and> heap_rep i M' bs' t fs' \<and>
    hd bs' = hd (as @ h # x # cs) \<and>
    allocs M' bs' = insert (h, unat newsize) (allocs M (as @ h # x # cs) - {(h, bsize M h)}) \<and> mi_byte M' = mi_byte M"
proof -
  note r = heap_repD[OF rep]
  let ?y = "hd (cs @ [t])" and ?bs = "as @ h # x # cs"
  define n where "n = h + 36 + newsize"
  have h: "h \<in> set ?bs" by simp
  note bh = block_next[OF r(2)]
  have okx: "blocks_ok i M ((as @ [h]) @ x # cs) t" using r(2) by simp
  note bx = block_next[OF okx]
  have nxh: "mi_next M h = x" using bh(1) by simp
  have hx: "unat h + 36 + bsize M h = unat x" using bh(5) by simp
  have y32: "unat ?y < 2 ^ 32" by (rule less_le_trans[OF unsigned_less]) simp
  have un: "unat n = unat h + unat newsize + 36"
    unfolding n_def using hx bx(5) sz(4) y32 by (simp add: unat_word_ariths)
  have dv: "4 dvd unat h" "4 dvd unat x" "4 dvd unat ?y"
    using blocks_okD(7)[OF r(2), of h] blocks_okD(7)[OF r(2), of x] blocks_okD(7)[OF r(2), of ?y] hd_snoc_mem[of cs t] by auto
  have gn: "gap h n" "gap n ?y" using un bx(5) hx sz by (simp_all add: gap_def)
  have n4: "4 dvd unat n" using un sz(2) dv(1) by simp
  have nt: "n \<noteq> t" using gn(2) bx(7) by (auto simp: gap_def)
  define C where "C = unlink_free x (sub_available i (newsize - MEMITEM_SIZE M h) M)"
  have okC: "blocks_ok i C ?bs t" using r(2) by (simp add: C_def)
  note m = merge_next_ok[OF okC]
  define D where "D = merge_next h C"
  have pvx: "mi_prev M x = h"
    using block_prev[OF okx] by simp
  have hxne: "h \<noteq> x" using hx by auto
  have yx: "?y \<noteq> x" using bx(2) by (auto simp: gap_def)
  have mD: "set_next (mi_prev (set_prev (mi_next C x) (mi_prev C x) C) x) (mi_next (set_prev (mi_next C x) (mi_prev C x) C) x)
      (set_prev (mi_next C x) (mi_prev C x) C) = D"
    using nxh pvx hxne yx bx(1) by (simp add: D_def merge_next_def Let_def C_def set_prev_def set_next_def)
  define A where "A = set_pool n i (set_magic n RT_MEMHEAP_MAGIC D)"
  have "blocks_ok i (set_magic n RT_MEMHEAP_MAGIC D) (as @ h # cs) t"
    by (rule set_magic_ok[OF m(1)[folded D_def]]) (use nt in simp_all)
  then have bA: "blocks_ok i A (as @ h # cs) t" by (auto simp: blocks_ok_def A_def)
  have mA: "mi_magic A n \<in> {RT_MEMHEAP_MAGIC, RT_MEMHEAP_MAGIC OR 1}" "mi_pool A n = i" by (simp_all add: A_def)
  define B where "B = split_block h n A"
  note sp = split_block_ok[OF bA gn n4 mA, folded B_def]
  define M' where "M' = link_free i n (item_stamp four_spaces now h B)"
  have lt: "h < x" using hx by (simp add: word_less_nat_alt)
  have fit: "newsize + 12 < MEMITEM_SIZE M x + MEMITEM_SIZE M h"
  proof -
    have "unat (newsize + 12) = unat newsize + 12" using sz(4) hx bx(5) y32 by (simp add: unat_word_ariths)
    moreover have "unat (MEMITEM_SIZE M x + MEMITEM_SIZE M h) = bsize M x + bsize M h"
      using hx bx(5) y32 by (simp add: unat_word_ariths bh(4) bx(4))
    ultimately show ?thesis using sz(4) by (simp add: word_less_nat_alt)
  qed
  have e: "grow_locked i h (MEMITEM_SIZE M h) newsize now M = Some (M', True)"
    using lt xf fit unfolding grow_locked_def nxh Let_def C_def[symmetric] mD n_def[symmetric]
    by (simp add: RT_ASSERT_def A_def[symmetric] B_def[symmetric] M'_def[symmetric])
  have d: "distinct ?bs" using blocks_distinct[OF r(2)] by simp
  have nbs: "n \<notin> set ?bs"
  proof -
    have "n \<noteq> x" using un hx sz(3) by auto
    then show ?thesis using sp(3) by auto
  qed
  have nh: "n \<noteq> h" using nbs by simp
  have u': "used M' = (used M)(n := False)" by (simp add: M'_def B_def A_def D_def C_def fun_eq_iff)
  have nx': "mi_next M' = (mi_next M)(h := n, n := ?y)"
    using sp(2) m(3) nh by (simp add: M'_def A_def D_def C_def fun_eq_iff)
  have b': "blocks_ok i M' (as @ h # n # cs) t" using sp(1) by (simp add: M'_def)
  have hd': "hd (as @ h # n # cs) = hd ?bs" by (cases as) auto
  have bzh: "bsize M' h = unat newsize" using un nh by (simp add: bsize_def nx')
  have bzn: "bsize M' n = bsize M x + bsize M h - unat newsize" using un hx bx(5) by (simp add: bsize_def nx')
  have "free_sum M' as = free_sum M as" "free_sum M' cs = free_sum M cs"
    using d nbs by (auto intro!: free_sum_cong simp: u' nx' split: if_splits)
  then have s: "free_sum M ?bs = free_sum M' (as @ h # n # cs) + (unat newsize - bsize M h)"
    using hu xf nh bzn sz by (simp add: u')
  have av: "available_size (mh_heap M' i) = available_size (mh_heap M i) - of_nat (unat newsize - bsize M h)"
    using sz(3) by (simp add: M'_def B_def A_def D_def C_def bh(3) of_nat_diff)
  have q': "heap_q i M' (as @ h # n # cs) t"
    by (rule heap_q_step_sub[OF r(1) b' hd' _ _ _ av s]) (simp_all add: M'_def B_def A_def D_def C_def)
  have xfs: "x \<in> set fs" using r(4) xf by auto
  obtain f1 f2 where fs: "fs = f1 @ x # f2" using xfs by (meson split_list)
  have "free_ok i C (f1 @ f2)" unfolding C_def by (rule unlink_free_ok) (use r(3) fs in simp)
  moreover have "n \<notin> set fs" unfolding r(4) using nbs by blast
  moreover have "n \<noteq> free_list (mh_heap M i)"
    by (rule hdr_outside[OF r(1)]) (use block_range(1)[OF r(2) h] un gn(2) bx(7) in \<open>simp_all add: gap_def\<close>)
  ultimately have fo': "free_ok i M' (n # f1 @ f2)"
    by (simp add: M'_def B_def A_def D_def link_free_ok C_def fs)
  have fs': "set (f1 @ f2) = set fs - (set (x # cs) - set cs)" using r(6) d fs by auto
  have sc: "successively (\<lambda>x y. used M x \<or> used M y) cs" "cs \<noteq> [] \<longrightarrow> used M (hd cs)"
    using r(5) xf by (auto simp: successively_mid successively_Cons)
  have sub: "set cs \<subseteq> set (x # cs)" by auto
  have oth: "\<forall>y. y \<noteq> h \<longrightarrow> y \<noteq> n \<longrightarrow> mi_next M' y = mi_next M y" by (simp add: nx')
  have dsc: "\<forall>y \<in> set (x # cs) - set cs. \<not> used M y" using xf by auto
  note rr = resize_rep[OF rep refl hu b' sub sc(1) oth u' sc(2) q' fo' fs' nbs dsc]
  have "mi_byte M' = mi_byte M" by (simp add: M'_def B_def A_def D_def C_def)
  then show ?thesis using e rr hd' bzh
    by - (rule exI[of _ M'], rule exI[of _ "as @ h # n # cs"], rule exI[of _ "n # f1 @ f2"], simp)
qed

lemma grow_locked_no_room:
  assumes rep: "heap_rep i M (as @ h # ds) t fs"
    and no: "ds = [] \<or> used M (hd ds) \<or> bsize M (hd ds) + bsize M h \<le> unat newsize + 12"
    and sz: "unat newsize + 12 < 2 ^ 32"
  shows "grow_locked i h (MEMITEM_SIZE M h) newsize now M = Some (M, False)"
proof -
  note r = heap_repD[OF rep]
  note bh = block_next[OF r(2)]
  have lt: "h < hd (ds @ [t])" using bh(2) by (simp add: gap_def word_less_nat_alt)
  have "used M (hd (ds @ [t])) \<or> \<not> newsize + 12 < MEMITEM_SIZE M (hd (ds @ [t])) + MEMITEM_SIZE M h"
  proof (cases ds)
    case Nil
    then show ?thesis using blocks_okD(9)[OF r(2)] by simp
  next
    case (Cons x cs)
    have okx: "blocks_ok i M ((as @ [h]) @ x # cs) t" using r(2) Cons by simp
    note bx = block_next[OF okx]
    have y32: "unat (hd (cs @ [t])) < 2 ^ 32" by (rule less_le_trans[OF unsigned_less]) simp
    have "unat (MEMITEM_SIZE M x + MEMITEM_SIZE M h) = bsize M x + bsize M h"
      using bh(5) Cons bx(5) y32 by (simp add: unat_word_ariths bh(4) bx(4))
    moreover have "unat (newsize + 12) = unat newsize + 12" using sz by (simp add: unat_word_ariths)
    ultimately show ?thesis using no Cons by (auto simp: word_less_nat_alt)
  qed
  then show ?thesis using lt by (auto simp: grow_locked_def bh(1) RT_ASSERT_def)
qed

section \<open>A new heap\<close>

lemma item_init_fields [simp]:
  "mi_next (memheap_item_init i now a M) = (mi_next M)(a := 0)" "mi_prev (memheap_item_init i now a M) = (mi_prev M)(a := 0)"
  "mi_next_free (memheap_item_init i now a M) = (mi_next_free M)(a := a)"
  "mi_prev_free (memheap_item_init i now a M) = (mi_prev_free M)(a := a)"
  "mi_magic (memheap_item_init i now a M) = (mi_magic M)(a := RT_MEMHEAP_MAGIC)"
  "mi_pool (memheap_item_init i now a M) = (mi_pool M)(a := i)" "mh_heap (memheap_item_init i now a M) = mh_heap M"
  by (simp_all add: memheap_item_init_def mh_set_defs Let_def)

lemma set_link_fields [simp]:
  "mi_magic (set_next a v M) = mi_magic M" "mi_pool (set_next a v M) = mi_pool M"
  "mi_next (set_next a v M) = (mi_next M)(a := v)" "mi_prev (set_next a v M) = mi_prev M"
  "mi_next_free (set_next a v M) = mi_next_free M" "mi_prev_free (set_next a v M) = mi_prev_free M"
  "mh_heap (set_next a v M) = mh_heap M"
  "mi_magic (set_prev a v M) = mi_magic M" "mi_pool (set_prev a v M) = mi_pool M"
  "mi_next (set_prev a v M) = mi_next M" "mi_prev (set_prev a v M) = (mi_prev M)(a := v)"
  "mi_next_free (set_prev a v M) = mi_next_free M" "mi_prev_free (set_prev a v M) = mi_prev_free M"
  "mh_heap (set_prev a v M) = mh_heap M"
  "mi_magic (set_next_free a v M) = mi_magic M" "mi_pool (set_next_free a v M) = mi_pool M"
  "mi_next (set_next_free a v M) = mi_next M" "mi_prev (set_next_free a v M) = mi_prev M"
  "mi_next_free (set_next_free a v M) = (mi_next_free M)(a := v)" "mi_prev_free (set_next_free a v M) = mi_prev_free M"
  "mh_heap (set_next_free a v M) = mh_heap M"
  "mi_magic (set_prev_free a v M) = mi_magic M" "mi_pool (set_prev_free a v M) = mi_pool M"
  "mi_next (set_prev_free a v M) = mi_next M" "mi_prev (set_prev_free a v M) = mi_prev M"
  "mi_next_free (set_prev_free a v M) = mi_next_free M" "mi_prev_free (set_prev_free a v M) = (mi_prev_free M)(a := v)"
  "mh_heap (set_prev_free a v M) = mh_heap M"
  by (simp_all add: mh_set_defs)

lemma link_free_fields:
  assumes "a \<noteq> free_list (mh_heap M i)"
  shows "mi_next_free (link_free i a M) = (mi_next_free M)(a := mi_next_free M (free_list (mh_heap M i)),
      free_list (mh_heap M i) := a)"
    "mi_prev_free (link_free i a M) = (mi_prev_free M)(a := free_list (mh_heap M i),
      mi_next_free M (free_list (mh_heap M i)) := a)"
  using assms by (simp_all add: link_free_def Let_def)

lemma memheap_setup_rep:
  fixes M :: memheaps and now :: rt_tick and lock i :: nat
  assumes fit: "84 \<le> unat sz" "unat start + unat (RT_ALIGN_DOWN sz 4) \<le> 2 ^ 32" and al: "4 dvd unat start"
    and hdr: "unat hdr < unat start \<or> unat start + unat (RT_ALIGN_DOWN sz 4) \<le> unat hdr"
  defines "M' \<equiv> memheap_setup i hdr start sz lock now M" and "t \<equiv> start + (RT_ALIGN_DOWN sz 4 - 36)"
  shows "heap_rep i M' [start] t [start]" "allocs M' [start] = {}"
    "available_size (mh_heap M' i) = RT_ALIGN_DOWN sz 4 - 72" "pool_size (mh_heap M' i) = RT_ALIGN_DOWN sz 4"
proof -
  let ?p = "RT_ALIGN_DOWN sz 4"
  have up: "unat ?p = unat sz div 4 * 4" by (simp add: unat_RT_ALIGN_DOWN[OF align4_mask(2)])
  have p84: "84 \<le> unat ?p" using fit(1) unfolding up by presburger
  have p4: "4 dvd unat ?p" unfolding up by simp
  have u36: "unat (?p - 36) = unat ?p - 36" and u72: "unat (?p - 72) = unat ?p - 72"
    using p84 by (simp_all add: unat_sub word_le_nat_alt)
  have ut: "unat t = unat start + unat ?p - 36"
    unfolding t_def using fit(2) p84 u36 by (simp add: unat_word_ariths)
  have t': "start + ?p - 36 = t" by (simp add: t_def)
  have ne: "start \<noteq> t" "hdr \<noteq> start" "hdr \<noteq> t" using ut p84 hdr by auto
  have M': "mi_next M' = (mi_next M)(hdr := 0, start := t, t := start)"
    "mi_prev M' = (mi_prev M)(hdr := 0, start := t, t := start)"
    "mi_next_free M' = (mi_next_free M)(hdr := start, start := hdr, t := 0)"
    "mi_prev_free M' = (mi_prev_free M)(hdr := start, start := hdr, t := 0)"
    "mi_magic M' = (mi_magic M)(hdr := RT_MEMHEAP_MAGIC, start := RT_MEMHEAP_MAGIC, t := RT_MEMHEAP_MAGIC OR 1)"
    "mi_pool M' start = i"
    "mh_heap M' i = \<lparr>start_addr = start, pool_size = ?p, available_size = ?p - 72, max_used_size = 72,
       block_list = start, free_list = hdr, mh_lock = lock\<rparr>"
  proof -
    define A where "A = memheap_item_init i now start (memheap_item_init i now hdr (upd_heap i (\<lambda>_. \<lparr>start_addr = start,
       pool_size = ?p, available_size = ?p - 72, max_used_size = 72,
       block_list = start, free_list = hdr, mh_lock = lock\<rparr>) M))"
    define B where "B = link_free i start (set_prev start t (set_next start t A))"
    have fl: "free_list (mh_heap A i) = hdr" by (simp add: A_def upd_heap_def)
    have tB: "mi_next B start = t" by (simp add: B_def)
    have e: "M' = item_stamp [73, 78, 73, 84] now t (set_next_free t 0 (set_prev_free t 0 (set_next t start (set_prev t start
       (set_pool t i (set_magic t (RT_MEMHEAP_MAGIC OR 1) B))))))"
      unfolding M'_def memheap_setup_def
      by (simp add: Let_def A_def[symmetric] t' B_def[symmetric] tB) (simp add: mh_set_defs)
    have A: "mi_next A = (mi_next M)(hdr := 0, start := 0)" "mi_prev A = (mi_prev M)(hdr := 0, start := 0)"
      "mi_next_free A = (mi_next_free M)(hdr := hdr, start := start)"
      "mi_prev_free A = (mi_prev_free M)(hdr := hdr, start := start)"
      "mi_magic A = (mi_magic M)(hdr := RT_MEMHEAP_MAGIC, start := RT_MEMHEAP_MAGIC)" "mi_pool A start = i"
      by (simp_all add: A_def upd_heap_def)
    have B: "mi_next_free B = (mi_next_free M)(hdr := start, start := hdr)"
      "mi_prev_free B = (mi_prev_free M)(hdr := start, start := hdr)"
      using ne unfolding B_def by (simp_all add: link_free_fields fl A fun_eq_iff)
    show "mi_next M' = (mi_next M)(hdr := 0, start := t, t := start)"
      "mi_prev M' = (mi_prev M)(hdr := 0, start := t, t := start)"
      "mi_next_free M' = (mi_next_free M)(hdr := start, start := hdr, t := 0)"
      "mi_prev_free M' = (mi_prev_free M)(hdr := start, start := hdr, t := 0)"
      "mi_magic M' = (mi_magic M)(hdr := RT_MEMHEAP_MAGIC, start := RT_MEMHEAP_MAGIC, t := RT_MEMHEAP_MAGIC OR 1)"
      "mi_pool M' start = i"
      using ne unfolding e by (simp_all add: B A(1,2,5,6)) (simp_all add: B_def A)
    show "mh_heap M' i = \<lparr>start_addr = start, pool_size = ?p, available_size = ?p - 72, max_used_size = 72,
       block_list = start, free_list = hdr, mh_lock = lock\<rparr>"
      unfolding e by (simp add: B_def A_def upd_heap_def)
  qed
  show "available_size (mh_heap M' i) = ?p - 72" "pool_size (mh_heap M' i) = ?p" by (simp_all add: M'(7))
  have u: "\<not> used M' start" by (simp add: RT_MEMHEAP_IS_USED_def M'(5) ne)
  have bz: "bsize M' start = unat ?p - 72" using ut p84 by (simp add: bsize_def M'(1) ne)
  have ok: "blocks_ok i M' [start] t"
    using ne ut p84 al p4 fit(2) by (simp add: blocks_ok_def M' gap_def dvd_diff_nat)
  have fo: "free_ok i M' [start]" using ne by (simp add: free_ok_def M' Let_def)
  have "heap_q i M' [start] t"
    using ok hdr ut p84 u by (auto simp: heap_q_def M'(7) free_sum_def bz u72[symmetric])
  then show "heap_rep i M' [start] t [start]" using fo u by (auto simp: heap_rep_def)
  show "allocs M' [start] = {}" using u by (auto simp: allocs_def)
qed

section \<open>The blocks as the memory shows them\<close>

fun walk_blocks :: "nat \<Rightarrow> memheaps \<Rightarrow> rt_uint32 \<Rightarrow> rt_uint32 \<Rightarrow> rt_uint32 list" where
  "walk_blocks 0 M x t = []"
| "walk_blocks (Suc n) M x t = (if x = t then [] else x # walk_blocks n M (mi_next M x) t)"

definition heap_blocks :: "nat \<Rightarrow> memheaps \<Rightarrow> rt_uint32 list" where
  "heap_blocks i M = walk_blocks (unat (pool_size (mh_heap M i))) M (block_list (mh_heap M i))
     (mi_prev M (block_list (mh_heap M i)))"

definition live :: "nat \<Rightarrow> memheaps \<Rightarrow> (rt_uint32 \<times> nat) set" where
  "live i M = allocs M (heap_blocks i M)"

definition heap_ok :: "nat \<Rightarrow> memheaps \<Rightarrow> bool" where
  "heap_ok i M \<longleftrightarrow> (\<exists>bs t fs. heap_rep i M bs t fs)"

lemma walk_blocks_seg:
  assumes "segs (mi_next M) pv bs t" "t \<notin> set bs" "length bs \<le> n"
  shows "walk_blocks n M (hd (bs @ [t])) t = bs"
  using assms
proof (induction bs arbitrary: n)
  case Nil
  then show ?case by (cases n) auto
next
  case (Cons b bs)
  then obtain m where "n = Suc m" by (cases n) auto
  then show ?case using Cons by auto
qed

lemma heap_blocks_rep:
  assumes rep: "heap_rep i M bs t fs"
  shows "heap_blocks i M = bs"
proof -
  note r = heap_repD[OF rep]
  obtain b bs' where bs: "bs = b # bs'" using blocks_okD(1)[OF r(2)] by (cases bs) auto
  have bl: "block_list (mh_heap M i) = b" and ps: "unat t + 36 = unat b + unat (pool_size (mh_heap M i))"
    using r(1) bs by (simp_all add: heap_q_def)
  have pv: "mi_prev M b = t" using block_prev[of i M "[]" b bs' t] r(2) bs by simp
  have "sum_list (map (\<lambda>x. bsize M x + 36) bs) = unat t - unat (hd bs)"
    using tiles[of i M "[]" bs t] r(2) bs by simp
  moreover have "length bs \<le> sum_list (map (\<lambda>x. bsize M x + 36) bs)"
    using sum_list_mono[of bs "\<lambda>_. 1" "\<lambda>x. bsize M x + 36"] by (simp add: sum_list_triv)
  ultimately have len: "length bs \<le> unat (pool_size (mh_heap M i))" using ps bs by simp
  have "segs (mi_next M) (mi_prev M) bs t"
    using blocks_okD(2)[OF r(2)] by (simp add: segs_append)
  then have "walk_blocks (unat (pool_size (mh_heap M i))) M (hd (bs @ [t])) t = bs"
    using blocks_distinct[OF r(2)] len by (intro walk_blocks_seg) auto
  then show ?thesis by (simp add: heap_blocks_def bl pv bs)
qed

lemma heap_okE:
  assumes "heap_ok i M"
  obtains bs t fs where "heap_rep i M bs t fs" "heap_blocks i M = bs" "live i M = allocs M bs"
  using assms heap_blocks_rep by (auto simp: heap_ok_def live_def)

lemma heap_okI: "heap_rep i M bs t fs \<Longrightarrow> heap_ok i M \<and> live i M = allocs M bs \<and> heap_blocks i M = bs"
  using heap_blocks_rep by (auto simp: heap_ok_def live_def)

text \<open>Blocks that are handed out do not overlap, not even with each other's headers.\<close>

lemma live_separate:
  assumes "heap_ok i M" "(a, n) \<in> live i M" "(b, m) \<in> live i M" "a \<noteq> b"
  shows "unat a + 36 + n \<le> unat b \<or> unat b + 36 + m \<le> unat a"
proof -
  obtain bs t fs where rep: "heap_rep i M bs t fs" and lv: "live i M = allocs M bs"
    using assms(1) by (rule heap_okE)
  note ok = heap_repD(2)[OF rep]
  have one: "unat x + 36 + bsize M x \<le> unat y" if "bs = as @ x # cs" "y \<in> set cs" for as x cs y
  proof -
    have "unat (hd (cs @ [t])) \<le> unat y"
      using that blocks_okD(3)[OF ok] by (cases cs) (auto simp: sorted_wrt_append gap_def)
    then show ?thesis using block_next(5)[of i M as x cs t] ok that(1) by simp
  qed
  have a: "a \<in> set bs" "n = bsize M a" and b: "b \<in> set bs" "m = bsize M b"
    using assms(2,3) by (auto simp: lv allocs_def)
  obtain as cs where bs: "bs = as @ a # cs" using a(1) by (meson split_list)
  show ?thesis
  proof (cases "b \<in> set cs")
    case True
    then show ?thesis using one[OF bs] a(2) by simp
  next
    case False
    then have "b \<in> set as" using b(1) assms(4) bs by auto
    then obtain as1 as2 where "as = as1 @ b # as2" by (meson split_list)
    then have "bs = as1 @ b # (as2 @ a # cs)" using bs by simp
    then show ?thesis using one[of as1 b "as2 @ a # cs" a] b(2) by simp
  qed
qed

text \<open>With nothing handed out the heap is one free block of all but the two headers.\<close>

lemma no_leak:
  assumes "heap_ok i M" "live i M = {}"
  shows "heap_blocks i M = [block_list (mh_heap M i)]"
    "unat (available_size (mh_heap M i)) + 72 = unat (pool_size (mh_heap M i))"
proof -
  obtain bs t fs where rep: "heap_rep i M bs t fs" and hb: "heap_blocks i M = bs" and lv: "live i M = allocs M bs"
    using assms(1) by (rule heap_okE)
  note r = heap_repD[OF rep]
  have nu: "\<not> used M x" if "x \<in> set bs" for x using assms(2) that by (auto simp: lv allocs_def)
  obtain b where bs: "bs = [b]"
  proof (cases bs)
    case Nil
    then show ?thesis using blocks_okD(1)[OF r(2)] by simp
  next
    case (Cons b cs)
    then show ?thesis using that r(5) nu by (cases cs) auto
  qed
  have q: "block_list (mh_heap M i) = b" "unat t + 36 = unat b + unat (pool_size (mh_heap M i))"
    using r(1) bs by (simp_all add: heap_q_def)
  show "heap_blocks i M = [block_list (mh_heap M i)]" using hb bs q by simp
  have "unat b + 36 + bsize M b = unat t" using block_next(5)[of i M "[]" b "[]" t] r(2) bs by simp
  then show "unat (available_size (mh_heap M i)) + 72 = unat (pool_size (mh_heap M i))"
    using unat_available[OF r(1)] q(2) bs nu by simp
qed

end
