(* ===== verification/Rtt_Allocator.thy ===== *)
theory Rtt_Allocator
  imports Rtt_Prelude
begin

text \<open>
  The contract of an allocator of blocks of any size: \<open>live\<close> is the set of blocks handed
  out with their sizes, \<open>lim\<close> the largest request the contract speaks of. A client is a
  list of requests; it keeps the blocks it got and gives back any of them.
\<close>

datatype heap_op = HAlloc nat | HFree nat

fun heap_run ::
  "(nat \<Rightarrow> 's \<Rightarrow> 's \<times> 'a option) \<Rightarrow> ('a \<Rightarrow> 's \<Rightarrow> 's) \<Rightarrow> heap_op list \<Rightarrow> 's \<times> 'a list \<Rightarrow> 's \<times> 'a list" where
  "heap_run al fr [] (s, held) = (s, held)"
| "heap_run al fr (HAlloc n # ops) (s, held) =
     (case al n s of (s, None) \<Rightarrow> heap_run al fr ops (s, held)
      | (s, Some a) \<Rightarrow> heap_run al fr ops (s, held @ [a]))"
| "heap_run al fr (HFree j # ops) (s, held) =
     (if j < length held then heap_run al fr ops (fr (held ! j) s, take j held @ drop (Suc j) held)
      else heap_run al fr ops (s, held))"

locale allocator =
  fixes ok :: "'s \<Rightarrow> bool" and live :: "'s \<Rightarrow> ('a \<times> nat) set" and lim :: nat
    and al :: "nat \<Rightarrow> 's \<Rightarrow> 's \<times> 'a option" and fr :: "'a \<Rightarrow> 's \<Rightarrow> 's"
  assumes single: "ok s \<Longrightarrow> (a, n) \<in> live s \<Longrightarrow> (a, m) \<in> live s \<Longrightarrow> n = m"
    and al_Some: "ok s \<Longrightarrow> n \<le> lim \<Longrightarrow> al n s = (s', Some a) \<Longrightarrow>
      ok s' \<and> a \<notin> fst ` live s \<and> (\<exists>m \<ge> n. live s' = insert (a, m) (live s))"
    and al_None: "ok s \<Longrightarrow> n \<le> lim \<Longrightarrow> al n s = (s', None) \<Longrightarrow> s' = s"
    and release: "ok s \<Longrightarrow> (a, m) \<in> live s \<Longrightarrow> ok (fr a s) \<and> live (fr a s) = live s - {(a, m)}"
begin

text \<open>The client holds exactly the live blocks, each once.\<close>

definition tracks :: "'s \<times> 'a list \<Rightarrow> bool" where
  "tracks = (\<lambda>(s, held). ok s \<and> distinct held \<and> set held = fst ` live s)"

lemma tracks_alloc:
  assumes "tracks (s, held)" "n \<le> lim" "al n s = (s', Some a)"
  shows "tracks (s', held @ [a])"
proof -
  have t: "ok s" "distinct held" "set held = fst ` live s" using assms(1) by (auto simp: tracks_def)
  from al_Some[OF t(1) assms(2,3)] obtain m where "ok s'" "a \<notin> fst ` live s" "live s' = insert (a, m) (live s)"
    by blast
  then show ?thesis using t(2,3) by (simp add: tracks_def)
qed

lemma tracks_free:
  assumes t: "tracks (s, held)" and j: "j < length held"
  shows "tracks (fr (held ! j) s, take j held @ drop (Suc j) held)"
proof -
  have ok: "ok s" and d: "distinct held" and e: "set held = fst ` live s" using t by (auto simp: tracks_def)
  have "held ! j \<in> fst ` live s" using j e nth_mem by blast
  then obtain m where m: "(held ! j, m) \<in> live s" by force
  note r = release[OF ok m]
  have h: "held = take j held @ held ! j # drop (Suc j) held" using j by (rule id_take_nth_drop)
  define x us vs where "x = held ! j" and "us = take j held" and "vs = drop (Suc j) held"
  have h': "held = us @ x # vs" using h by (simp only: x_def us_def vs_def)
  have m': "(x, m) \<in> live s" and r': "ok (fr x s)" "live (fr x s) = live s - {(x, m)}"
    using m r by (simp_all add: x_def)
  have img: "fst ` (live s - {(x, m)}) = fst ` live s - {x}"
  proof (intro equalityI subsetI)
    fix a assume "a \<in> fst ` (live s - {(x, m)})"
    then obtain k where k: "(a, k) \<in> live s" "(a, k) \<noteq> (x, m)" by force
    have "a \<noteq> x" using k single[OF ok m'] by blast
    then show "a \<in> fst ` live s - {x}" using k(1) by force
  next
    fix a assume "a \<in> fst ` live s - {x}"
    then show "a \<in> fst ` (live s - {(x, m)})" by force
  qed
  have "x \<notin> set us \<union> set vs" "distinct (us @ vs)" using d by (auto simp: h')
  moreover have "set held = insert x (set us \<union> set vs)" by (simp add: h')
  ultimately have "distinct (us @ vs)" "set (us @ vs) = fst ` live (fr x s)"
    using e by (simp_all only: r'(2) img set_append) blast
  then show ?thesis using r'(1) by (simp add: tracks_def x_def us_def vs_def)
qed

lemma run_tracks:
  assumes "tracks (s, held)" "\<forall>n. HAlloc n \<in> set ops \<longrightarrow> n \<le> lim"
  shows "tracks (heap_run al fr ops (s, held))"
  using assms
proof (induction ops arbitrary: s held)
  case (Cons op ops)
  show ?case
  proof (cases op)
    case (HAlloc n)
    then have n: "n \<le> lim" using Cons.prems(2) by simp
    obtain s' r where al: "al n s = (s', r)" by fastforce
    show ?thesis
    proof (cases r)
      case None
      have "s' = s" using al_None[OF _ n] Cons.prems(1) al None by (auto simp: tracks_def)
      then show ?thesis using Cons al None HAlloc by simp
    next
      case (Some a)
      have "tracks (s', held @ [a])" using tracks_alloc[OF Cons.prems(1) n] al Some by simp
      then show ?thesis using Cons al Some HAlloc by simp
    qed
  next
    case (HFree j)
    then show ?thesis using Cons tracks_free[OF Cons.prems(1), of j] by simp
  qed
qed simp

lemma run_all_returned:
  assumes "tracks (s, held)" "\<forall>n. HAlloc n \<in> set ops \<longrightarrow> n \<le> lim" "heap_run al fr ops (s, held) = (s', [])"
  shows "ok s'" "live s' = {}"
  using run_tracks[OF assms(1,2)] assms(3) by (auto simp: tracks_def)

end

end
