(* ===== verification/Rtt_Heap.thy ===== *)
theory Rtt_Heap
  imports Rtt_Memheap_Spec Rtt_Allocator Rtt_Kservice
begin

text \<open>
  The heap's calls (\<^verbatim>\<open>memheap.c\<close>): \<^verbatim>\<open>rt_memheap_alloc\<close>,
  \<^verbatim>\<open>rt_memheap_realloc\<close>, \<^verbatim>\<open>rt_memheap_free\<close> and the system heap's
  \<^verbatim>\<open>rt_malloc\<close>, \<^verbatim>\<open>rt_free\<close>, \<^verbatim>\<open>rt_realloc\<close>,
  \<^verbatim>\<open>rt_calloc\<close>. Each takes the heap's semaphore and may have to wait for it, at
  several points in one call; a call is therefore a computation that returns or is blocked with
  the rest of it, which runs when the thread runs again.
\<close>

section \<open>Calls that can block\<close>

datatype 'a call = Return 'a | Blocked "mhs \<Rightarrow> (mhs \<times> 'a call) option"

type_synonym 'a proc = "mhs \<Rightarrow> (mhs \<times> 'a call) option"

primrec call_then :: "'a call \<Rightarrow> ('a \<Rightarrow> 'b proc) \<Rightarrow> 'b proc" where
  "call_then (Return a) f = f a"
| "call_then (Blocked c) f =
     (\<lambda>s. Some (s, Blocked (\<lambda>s. Option.bind (map_option (map_prod id (\<lambda>r. call_then r f)) (c s)) (\<lambda>(s, g). g s))))"

definition seq :: "'a proc \<Rightarrow> ('a \<Rightarrow> 'b proc) \<Rightarrow> 'b proc" where
  "seq c f = (\<lambda>s. Option.bind (c s) (\<lambda>(s, r). call_then r f s))"

definition give :: "'a \<Rightarrow> 'a proc" where
  "give a = (\<lambda>s. Some (s, Return a))"

text \<open>A part of a call that does not block.\<close>

definition on_memory :: "(rt_tick \<Rightarrow> memheaps \<Rightarrow> (memheaps \<times> 'a) option) \<Rightarrow> 'a proc" where
  "on_memory f = (\<lambda>(M, k). map_option (\<lambda>(M, a). ((M, k), Return a)) (f (rt_tick k) M))"

section \<open>Model\<close>

definition heap_take :: "nat \<Rightarrow> rt_err proc" where
  "heap_take i = (\<lambda>(M, k). do {
     let self = rt_thread_self k;
     (k, r) \<leftarrow> rt_sem_take (mh_lock (mh_heap M i)) (- 1) k;
     (case r of
        Done e \<Rightarrow> Some ((M, k), Return e)
      | Wait \<Rightarrow> do {
          t \<leftarrow> self;
          Some ((M, k), Blocked (\<lambda>(M, k). Some ((M, k), Return (rt_sem_take_leave t k))))
        })
   })"

definition heap_release :: "nat \<Rightarrow> unit proc" where
  "heap_release i = (\<lambda>(M, k). do {
     (k, _) \<leftarrow> rt_sem_release (mh_lock (mh_heap M i)) k;
     Some ((M, k), Return ())
   })"

definition fail_errno :: "rt_err \<Rightarrow> 'a \<Rightarrow> 'a proc" where
  "fail_errno e a = (\<lambda>(M, k). Some ((M, rt_set_errno e k), Return a))"

definition thread_name :: "kernel \<Rightarrow> rt_uint8 list" where
  "thread_name k = (case rt_thread_self k of Some t \<Rightarrow> obj_name (k_object k (OThread t)) | None \<Rightarrow> [78, 79, 78, 69])"

definition align_size :: "rt_uint32 \<Rightarrow> rt_uint32" where
  "align_size n = (let n = RT_ALIGN n 4 in if n < RT_MEMHEAP_MINIALLOC then RT_MEMHEAP_MINIALLOC else n)"

definition rt_memheap_alloc :: "nat \<Rightarrow> rt_uint32 \<Rightarrow> rt_uint32 proc" where
  "rt_memheap_alloc i n = (\<lambda>(M, k).
     let n = align_size n in
     if n < available_size (mh_heap M i) then
       seq (heap_take i) (\<lambda>result.
         if result \<noteq> RT_EOK then fail_errno result 0
         else seq (\<lambda>(M, k). on_memory (alloc_locked i n (thread_name k)) (M, k)) (\<lambda>p.
           seq (heap_release i) (\<lambda>_. give p))) (M, k)
     else Some ((M, k), Return 0))"

definition rt_memheap_free :: "rt_uint32 \<Rightarrow> unit proc" where
  "rt_memheap_free p = (\<lambda>(M, k).
     if p = 0 then Some ((M, k), Return ())
     else do {
       let h = p - RT_MEMHEAP_SIZE;
       RT_ASSERT (mi_magic M h AND RT_MEMHEAP_MASK = RT_MEMHEAP_MAGIC);
       RT_ASSERT (mi_magic M h AND RT_MEMHEAP_USED \<noteq> 0);
       RT_ASSERT (mi_magic M (mi_next M h) AND RT_MEMHEAP_MASK = RT_MEMHEAP_MAGIC);
       let i = mi_pool M h;
       seq (heap_take i) (\<lambda>result.
         if result \<noteq> RT_EOK then fail_errno result ()
         else seq (on_memory (\<lambda>now M. Some (free_locked h now M, ()))) (\<lambda>_. heap_release i)) (M, k)
     })"

definition copy_bytes :: "rt_uint32 \<Rightarrow> rt_uint32 \<Rightarrow> rt_uint32 \<Rightarrow> memheaps \<Rightarrow> memheaps" where
  "copy_bytes d s n M = M\<lparr>mi_byte := rt_memcpy d s n (mi_byte M)\<rparr>"

definition rt_memheap_realloc :: "nat \<Rightarrow> rt_uint32 \<Rightarrow> rt_uint32 \<Rightarrow> rt_uint32 proc" where
  "rt_memheap_realloc i p newsize = (\<lambda>(M, k).
     if newsize = 0 then seq (rt_memheap_free p) (\<lambda>_. give 0) (M, k)
     else let newsize = align_size newsize in
       if p = 0 then rt_memheap_alloc i newsize (M, k)
       else let h = p - RT_MEMHEAP_SIZE; oldsize = MEMITEM_SIZE M h in
         if oldsize < newsize then
           seq (heap_take i) (\<lambda>result.
             if result \<noteq> RT_EOK then fail_errno result 0
             else seq (on_memory (grow_locked i h oldsize newsize)) (\<lambda>done.
               seq (heap_release i) (\<lambda>_.
                 if done then give p
                 else seq (rt_memheap_alloc i newsize) (\<lambda>new_ptr.
                   if new_ptr = 0 then give 0
                   else seq (on_memory (\<lambda>_ M.
                       Some (copy_bytes new_ptr p (if oldsize < newsize then oldsize else newsize) M, ()))) (\<lambda>_.
                     seq (rt_memheap_free p) (\<lambda>_. give new_ptr)))))) (M, k)
         else if oldsize \<le> newsize + RT_MEMHEAP_SIZE + RT_MEMHEAP_MINIALLOC then Some ((M, k), Return p)
         else
           seq (heap_take i) (\<lambda>result.
             if result \<noteq> RT_EOK then fail_errno result 0
             else seq (on_memory (\<lambda>_ M. Some (shrink_locked i h newsize M, ()))) (\<lambda>_.
               seq (heap_release i) (\<lambda>_. give p))) (M, k))"

subsection \<open>The system heap\<close>

text \<open>The system heap is heap 0.\<close>

definition rt_system_heap_init :: "rt_uint32 \<Rightarrow> rt_uint32 \<Rightarrow> rt_uint32 \<Rightarrow> nat \<Rightarrow> mhs \<Rightarrow> mhs option" where
  "rt_system_heap_init hdr begin_addr end_addr lock s =
     map_option fst (rt_memheap_init 0 [104, 101, 97, 112] hdr begin_addr (end_addr - begin_addr) lock s)"

text \<open>The other heaps in the order of the registry. A heap that is registered or detached while the
  call waits for another one is outside the model.\<close>

fun malloc_others :: "oref list \<Rightarrow> oref list \<Rightarrow> rt_uint32 \<Rightarrow> rt_uint32 proc" where
  "malloc_others all [] n = give 0"
| "malloc_others all (ob # obs) n = (\<lambda>s.
     if ls_nodes (k_containers (snd s)) RT_Object_Class_MemHeap \<noteq> all then None
     else case ob of
       OMemHeap j \<Rightarrow>
         if j = 0 then malloc_others all obs n s
         else seq (rt_memheap_alloc j n) (\<lambda>p. if p \<noteq> 0 then give p else malloc_others all obs n) s
     | _ \<Rightarrow> None)"

definition rt_malloc :: "rt_uint32 \<Rightarrow> rt_uint32 proc" where
  "rt_malloc n = seq (rt_memheap_alloc 0 n) (\<lambda>p.
     if p \<noteq> 0 then give p
     else (\<lambda>s. case rt_object_get_information (class_code RT_Object_Class_MemHeap) of
       None \<Rightarrow> None
     | Some c \<Rightarrow> (let all = ls_nodes (k_containers (snd s)) c in malloc_others all all n s)))"

definition rt_free :: "rt_uint32 \<Rightarrow> unit proc" where
  "rt_free p = rt_memheap_free p"

definition rt_realloc :: "rt_uint32 \<Rightarrow> rt_uint32 \<Rightarrow> rt_uint32 proc" where
  "rt_realloc p newsize =
     (if p = 0 then rt_malloc newsize
      else if newsize = 0 then seq (rt_free p) (\<lambda>_. give 0)
      else (\<lambda>(M, k). let h = p - RT_MEMHEAP_SIZE in
        seq (rt_memheap_realloc (mi_pool M h) p newsize) (\<lambda>new_ptr.
          if new_ptr \<noteq> 0 then give new_ptr
          else seq (rt_malloc newsize) (\<lambda>new_ptr.
            if new_ptr = 0 then give 0
            else seq (on_memory (\<lambda>_ M. let oldsize = MEMITEM_SIZE M h in
                Some (copy_bytes new_ptr p (if oldsize < newsize then oldsize else newsize) M, ()))) (\<lambda>_.
              seq (rt_free p) (\<lambda>_. give new_ptr)))) (M, k)))"

definition rt_calloc :: "rt_uint32 \<Rightarrow> rt_uint32 \<Rightarrow> rt_uint32 proc" where
  "rt_calloc count sz =
     (let total_size = count * sz in
      seq (rt_malloc total_size) (\<lambda>p.
        if p = 0 then give 0
        else seq (on_memory (\<lambda>_ M. Some (M\<lparr>mi_byte := rt_memset p 0 total_size (mi_byte M)\<rparr>, ()))) (\<lambda>_. give p)))"

lemmas call_defs = seq_def give_def on_memory_def fail_errno_def

lemma seq_Return: "c s = Some (s', Return a) \<Longrightarrow> seq c f s = f a s'"
  by (simp add: seq_def)

lemma seq_give [simp]: "seq (give a) f = f a"
  by (simp add: seq_def give_def)

lemma on_memory_Some: "f (rt_tick k) M = Some (M', a) \<Longrightarrow> on_memory f (M, k) = Some ((M', k), Return a)"
  by (simp add: on_memory_def)

section \<open>The lock of a heap\<close>

lemma mh_lock_steps [simp]:
  "mh_lock (mh_heap (set_magic a v M) j) = mh_lock (mh_heap M j)" "mh_lock (mh_heap (set_pool a n M) j) = mh_lock (mh_heap M j)"
  "mh_lock (mh_heap (item_stamp nm now a M) j) = mh_lock (mh_heap M j)" "mh_lock (mh_heap (split_block a b M) j) = mh_lock (mh_heap M j)"
  "mh_lock (mh_heap (merge_next a M) j) = mh_lock (mh_heap M j)" "mh_lock (mh_heap (unlink_free a M) j) = mh_lock (mh_heap M j)"
  "mh_lock (mh_heap (clear_free a M) j) = mh_lock (mh_heap M j)" "mh_lock (mh_heap (link_free n a M) j) = mh_lock (mh_heap M j)"
  "mh_lock (mh_heap (add_available n v M) j) = mh_lock (mh_heap M j)" "mh_lock (mh_heap (sub_available n v M) j) = mh_lock (mh_heap M j)"
  by (simp_all add: mh_step_defs mh_set_defs Let_def)

lemma alloc_locked_lock:
  "alloc_locked i n who now M = Some (M', p) \<Longrightarrow> mh_lock (mh_heap M' j) = mh_lock (mh_heap M j)"
  by (auto simp: alloc_locked_def Let_def take_split_def take_whole_def bind_eq_Some_conv split: if_splits prod.splits)

lemma free_locked_lock: "mh_lock (mh_heap (free_locked h now M) j) = mh_lock (mh_heap M j)"
  by (simp add: free_locked_def Let_def split: prod.split)

lemma grow_locked_lock:
  "grow_locked i h os ns now M = Some (M', b) \<Longrightarrow> mh_lock (mh_heap M' j) = mh_lock (mh_heap M j)"
  by (auto simp: grow_locked_def Let_def bind_eq_Some_conv split: if_splits)

lemma shrink_locked_lock: "mh_lock (mh_heap (shrink_locked i h ns M) j) = mh_lock (mh_heap M j)"
  by (simp add: shrink_locked_def Let_def) (simp add: upd_heap_def)

text \<open>Nobody holds the lock and nobody waits for it: the call takes it and gives it back, and the
  kernel is as it was.\<close>

definition heap_idle :: "nat \<Rightarrow> memheaps \<Rightarrow> kernel \<Rightarrow> bool" where
  "heap_idle i M k \<longleftrightarrow> k_sem k (mh_lock (mh_heap M i)) = 1 \<and> tlist_of k (sem_queue (mh_lock (mh_heap M i))) = []"

lemma heap_idle_cong: "mh_lock (mh_heap M' i) = mh_lock (mh_heap M i) \<Longrightarrow> heap_idle i M' k = heap_idle i M k"
  by (simp add: heap_idle_def)

definition held_lock :: "nat \<Rightarrow> memheaps \<Rightarrow> kernel \<Rightarrow> kernel" where
  "held_lock i M k = set_sem (mh_lock (mh_heap M i)) 0 k"

lemma heap_take_idle: "heap_idle i M k \<Longrightarrow> heap_take i (M, k) = Some ((M, held_lock i M k), Return RT_EOK)"
  by (simp add: heap_idle_def heap_take_def sem_take_available held_lock_def)

lemma heap_release_held:
  assumes "heap_idle i M k" "mh_lock (mh_heap M' i) = mh_lock (mh_heap M i)"
  shows "heap_release i (M', held_lock i M k) = Some ((M', k), Return ())"
  using assms by (simp add: heap_release_def rt_sem_release_def heap_idle_def held_lock_def set_sem_def fun_upd_idem)

lemma held_lock_frame [simp]:
  "rt_tick (held_lock i M k) = rt_tick k" "thread_name (held_lock i M k) = thread_name k"
  by (simp_all add: held_lock_def set_sem_def thread_name_def rt_thread_self_def split: option.split)

text \<open>A call that finds the lock taken waits for it and goes on with what it had to do.\<close>

lemma heap_take_busy:
  assumes inv: "kinv k" and cb: "can_block t k" and busy: "k_sem k (mh_lock (mh_heap M i)) = 0"
    and fl: "valid_flag (OSem (mh_lock (mh_heap M i))) k"
  obtains k' where "heap_take i (M, k) = Some ((M, k'), Blocked (\<lambda>(M, k). Some ((M, k), Return (rt_sem_take_leave t k))))"
    "kinv k'" "keeps k k'" "t \<in> set (tlist_of k' (sem_queue (mh_lock (mh_heap M i))))"
proof -
  have c: "rt_current_thread k = Some t" using cb by (simp add: can_block_def)
  obtain k' where k': "rt_sem_take (mh_lock (mh_heap M i)) (- 1) k = Some (k', Wait)" "kinv k'" "keeps k k'"
    "tlist_of k' (sem_queue (mh_lock (mh_heap M i))) = wait_list (obj_ipc_flag (OSem (mh_lock (mh_heap M i))) k)
       (\<lambda>s. current_priority (k_thread k s)) t (tlist_of k (sem_queue (mh_lock (mh_heap M i))))"
    by (rule sem_take_block[OF inv cb busy _ _ fl, of "- 1"]) (simp, simp, rule that)
  show ?thesis
    by (rule that[OF _ k'(2,3)]) (simp_all add: heap_take_def k'(1,4) rt_thread_self_def c)
qed

section \<open>What the calls do\<close>

text \<open>The parts of the calls that run once the lock is held, when it was free.\<close>

lemma memheap_alloc_idle:
  assumes "heap_idle i M k" "align_size n < available_size (mh_heap M i)"
    "alloc_locked i (align_size n) (thread_name k) (rt_tick k) M = Some (M', p)"
  shows "rt_memheap_alloc i n (M, k) = Some ((M', k), Return p)" "heap_idle i M' k"
proof -
  note l = alloc_locked_lock[OF assms(3)]
  have b: "on_memory (alloc_locked i (align_size n) (thread_name k)) (M, held_lock i M k) = Some ((M', held_lock i M k), Return p)"
    using assms(3) by (simp add: on_memory_def)
  show "rt_memheap_alloc i n (M, k) = Some ((M', k), Return p)"
    using assms(2) by (simp add: rt_memheap_alloc_def Let_def seq_def give_def heap_take_idle[OF assms(1)] b
        heap_release_held[OF assms(1) l])
  show "heap_idle i M' k" using assms(1) heap_idle_cong[of M' i M k] l by simp
qed

lemma memheap_alloc_refused:
  "\<not> align_size n < available_size (mh_heap M i) \<Longrightarrow> rt_memheap_alloc i n (M, k) = Some ((M, k), Return 0)"
  by (simp add: rt_memheap_alloc_def Let_def)

lemma align_size_facts:
  assumes "unat n + 3 < 2 ^ 32"
  shows "unat n \<le> unat (align_size n)" "12 \<le> unat (align_size n)" "4 dvd unat (align_size n)"
    "unat (align_size n) < unat n + 4 \<or> align_size n = 12"
proof -
  have u: "unat (RT_ALIGN n 4) = (unat n + 3) div 4 * 4" by (rule unat_RT_ALIGN_4[OF assms])
  have lt: "RT_ALIGN n 4 < 12 \<longleftrightarrow> (unat n + 3) div 4 * 4 < 12" by (simp add: word_less_nat_alt u)
  show "unat n \<le> unat (align_size n)" "12 \<le> unat (align_size n)" "4 dvd unat (align_size n)"
    "unat (align_size n) < unat n + 4 \<or> align_size n = 12"
    using u by (auto simp: align_size_def Let_def lt)
qed

text \<open>A request within 3 of the top of the range is taken as one of 12 bytes.\<close>

lemma align_size_overflow: "2 ^ 32 \<le> unat n + 3 \<Longrightarrow> align_size n = 12"
  by (simp add: align_size_def Let_def RT_ALIGN_4_overflow)

lemma available_room:
  assumes rep: "heap_rep i M bs t fs" and lt: "sz < available_size (mh_heap M i)"
  shows "unat sz + 48 < 2 ^ 32" "unat sz < free_sum M bs"
proof -
  note r = heap_repD[OF rep]
  have a: "unat (available_size (mh_heap M i)) = free_sum M bs" by (rule unat_available[OF r(1)])
  show lt': "unat sz < free_sum M bs" using lt by (simp add: word_less_nat_alt a)
  have "free_sum M bs + 36 * length bs \<le> unat t - unat (hd bs)"
  proof -
    have "sum_list (map (\<lambda>x. (if used M x then 0 else bsize M x) + 36) bs) \<le> sum_list (map (\<lambda>x. bsize M x + 36) bs)"
      by (intro sum_list_mono) auto
    then show ?thesis
      using tiles[of i M "[]" bs t] r(2) blocks_okD(1)[OF r(2)]
      by (simp add: free_sum_def sum_list_addf sum_list_triv)
  qed
  moreover have "1 \<le> length bs" using blocks_okD(1)[OF r(2)] by (cases bs) auto
  ultimately show "unat sz + 48 < 2 ^ 32" using lt' blocks_okD(8)[OF r(2)] by linarith
qed

text \<open>What the callers hold: the addresses behind the headers.\<close>

definition handed_out :: "nat \<Rightarrow> memheaps \<Rightarrow> (rt_uint32 \<times> nat) set" where
  "handed_out i M = (\<lambda>(h, m). (h + RT_MEMHEAP_SIZE, m)) ` live i M"

lemma handed_out_iff [simp]: "(p, m) \<in> handed_out i M \<longleftrightarrow> (p - 36, m) \<in> live i M"
proof
  assume "(p - 36, m) \<in> live i M"
  then have "(\<lambda>(h, m). (h + RT_MEMHEAP_SIZE, m)) (p - 36, m) \<in> handed_out i M" unfolding handed_out_def by (rule imageI)
  then show "(p, m) \<in> handed_out i M" by simp
qed (auto simp: handed_out_def)

lemma handed_out_fst: "p \<in> fst ` handed_out i M \<longleftrightarrow> p - 36 \<in> fst ` live i M"
  by (auto simp: image_iff Bex_def)

lemma handed_out_insert: "live i M' = insert (h, m) (live i M) \<Longrightarrow> handed_out i M' = insert (h + 36, m) (handed_out i M)"
  by (simp add: handed_out_def)

lemma handed_out_delete: "live i M' = live i M - {(h, m)} \<Longrightarrow> handed_out i M' = handed_out i M - {(h + 36, m)}"
  by (auto simp: set_eq_iff)

text \<open>Why an allocation may fail: the heap has no more than that in all, or no free block
  is large enough.\<close>

definition no_room :: "nat \<Rightarrow> memheaps \<Rightarrow> rt_uint32 \<Rightarrow> bool" where
  "no_room i M n \<longleftrightarrow> available_size (mh_heap M i) \<le> align_size n \<or>
     (\<forall>x \<in> set (heap_blocks i M). \<not> used M x \<longrightarrow> bsize M x < unat (align_size n))"

lemma memheap_alloc_cases:
  assumes ok: "heap_ok i M" and idle: "heap_idle i M k" and n: "unat n + 3 < 2 ^ 32"
  obtains "rt_memheap_alloc i n (M, k) = Some ((M, k), Return 0)" "no_room i M n"
  | M' p m where "rt_memheap_alloc i n (M, k) = Some ((M', k), Return p)" "heap_ok i M'" "heap_idle i M' k"
      "p \<noteq> 0" "4 dvd unat p" "unat n \<le> m" "m < unat (align_size n) + 48" "p \<notin> fst ` handed_out i M"
      "handed_out i M' = insert (p, m) (handed_out i M)" "mi_byte M' = mi_byte M"
proof (cases "align_size n < available_size (mh_heap M i)")
  case False
  then show ?thesis using that(1) memheap_alloc_refused[OF False] by (simp add: no_room_def not_less)
next
  case True
  obtain bs t fs where rep: "heap_rep i M bs t fs" and hb: "heap_blocks i M = bs" and lv: "live i M = allocs M bs"
    using ok by (rule heap_okE)
  note r = heap_repD[OF rep] and a = align_size_facts[OF n]
  note sp = alloc_locked_spec[OF rep a(2,3) available_room(1)[OF rep True], of "thread_name k" "rt_tick k"]
  show ?thesis
  proof (cases "find (\<lambda>x. unat (align_size n) \<le> bsize M x) fs")
    case None
    then have "alloc_locked i (align_size n) (thread_name k) (rt_tick k) M = Some (M, 0)" using sp by simp
    moreover have "\<forall>x \<in> set fs. \<not> unat (align_size n) \<le> bsize M x" using None by (simp add: find_None_iff)
    ultimately show ?thesis
      using that(1) memheap_alloc_idle(1)[OF idle True] r(4) hb by (auto simp: no_room_def not_le)
  next
    case (Some h)
    then obtain M' bs' fs' as cs where e: "alloc_locked i (align_size n) (thread_name k) (rt_tick k) M = Some (M', h + 36)"
      and rep': "heap_rep i M' bs' t fs'" and h: "h \<notin> fst ` allocs M bs" "allocs M' bs' = insert (h, bsize M' h) (allocs M bs)"
        "unat (align_size n) \<le> bsize M' h" "bsize M' h < unat (align_size n) + 48" "mi_byte M' = mi_byte M"
        "bs = as @ h # cs"
      using sp by auto
    have l: "live i M' = insert (h, bsize M' h) (live i M)" using heap_okI[OF rep'] h(2) lv by simp
    have "unat h + 36 \<le> unat t" "unat t + 36 \<le> 2 ^ 32"
      using block_next(5,7)[of i M as h cs t] r(2) h(6) blocks_okD(8)[OF r(2)] by auto
    then have p: "unat (h + 36) = unat h + 36" by (simp add: unat_word_ariths)
    then have "h + 36 \<noteq> 0" by (metis add_is_0 unat_0 zero_neq_numeral)
    moreover have "4 dvd unat (h + 36)" using blocks_okD(7)[OF r(2), of h] h(6) p by simp
    moreover have "h + 36 \<notin> fst ` handed_out i M" using h(1) by (simp add: handed_out_fst lv)
    ultimately show ?thesis
      using that(2)[OF memheap_alloc_idle(1)[OF idle True e] _ memheap_alloc_idle(2)[OF idle True e]]
        heap_okI[OF rep'] order_trans[OF a(1) h(3)] h(4,5) handed_out_insert[OF l] by blast
  qed
qed

lemma memheap_free_idle:
  assumes ok: "heap_ok i M" and idle: "heap_idle i M k" and p: "(p, m) \<in> handed_out i M"
  obtains M' where "rt_memheap_free p (M, k) = Some ((M', k), Return ())" "heap_ok i M'" "heap_idle i M' k"
    "handed_out i M' = handed_out i M - {(p, m)}" "mi_byte M' = mi_byte M"
proof -
  obtain bs t fs where rep: "heap_rep i M bs t fs" and hb: "heap_blocks i M = bs" and lv: "live i M = allocs M bs"
    using ok by (rule heap_okE)
  note r = heap_repD[OF rep]
  define h where "h = p - 36"
  have hm: "h \<in> set bs" "used M h" "m = bsize M h" using p lv by (auto simp: h_def allocs_def)
  obtain as cs where bs: "bs = as @ h # cs" using hm(1) by (meson split_list)
  define M' where "M' = free_locked h (rt_tick k) M"
  have rep1: "heap_rep i M (as @ h # cs) t fs" using rep bs by simp
  obtain bs' fs' where rep': "heap_rep i M' bs' t fs'" and al: "allocs M' bs' = allocs M bs - {(h, m)}"
    and byt: "mi_byte M' = mi_byte M"
    using free_locked_spec(1,2,4)[OF rep1 hm(2), where now = "rt_tick k"] hm(3) bs unfolding M'_def by blast
  have "unat h + 36 \<le> unat t" "unat t + 36 \<le> 2 ^ 32" "mi_next M h = hd (cs @ [t])"
    using block_next(1,5,7)[of i M as h cs t] r(2) bs blocks_okD(8)[OF r(2)] by auto
  then have pz: "p \<noteq> 0" and nx: "mi_next M h \<in> insert t (set cs)"
    using hd_snoc_mem[of cs t] by (auto simp: h_def unat_word_ariths)
  have mg: "mi_magic M h = RT_MEMHEAP_MAGIC OR 1"
    using blocks_okD(4)[OF r(2) hm(1)] hm(2) by (auto simp: RT_MEMHEAP_IS_USED_def)
  have mn: "mi_magic M (mi_next M h) = RT_MEMHEAP_MAGIC \<or> mi_magic M (mi_next M h) = RT_MEMHEAP_MAGIC OR 1"
    using nx blocks_okD(4)[OF r(2)] blocks_okD(5)[OF r(2)] bs by auto
  have mgs: "mi_magic M h AND RT_MEMHEAP_MASK = RT_MEMHEAP_MAGIC" "mi_magic M h AND RT_MEMHEAP_USED \<noteq> 0"
    "mi_magic M (mi_next M h) AND RT_MEMHEAP_MASK = RT_MEMHEAP_MAGIC"
    using mg mn by auto
  have pool: "mi_pool M h = i" using blocks_okD(6)[OF r(2) hm(1)] .
  have b: "on_memory (\<lambda>now M. Some (free_locked h now M, ())) (M, held_lock i M k) = Some ((M', held_lock i M k), Return ())"
    by (simp add: on_memory_def M'_def)
  have l: "mh_lock (mh_heap M' i) = mh_lock (mh_heap M i)" by (simp add: M'_def free_locked_lock)
  have "rt_memheap_free p (M, k) = Some ((M', k), Return ())"
    by (simp add: rt_memheap_free_def pz h_def[symmetric] mgs pool seq_def heap_take_idle[OF idle] b
        heap_release_held[OF idle l] Let_def RT_ASSERT_def)
  moreover have "live i M' = live i M - {(h, m)}" using heap_okI[OF rep'] al lv by simp
  note handed_out_delete[OF this]
  ultimately show ?thesis
    using that heap_okI[OF rep'] heap_idle_cong[OF l] idle by (simp add: h_def byt)
qed

lemma memheap_free_null: "rt_memheap_free 0 (M, k) = Some ((M, k), Return ())"
  by (simp add: rt_memheap_free_def)

text \<open>A block lies inside the address range, and two blocks do not overlap.\<close>

lemma handed_out_range:
  assumes ok: "heap_ok i M" and p: "(p, m) \<in> handed_out i M"
  shows "36 \<le> unat p" "unat p + m + 36 \<le> 2 ^ 32" "m = unat (MEMITEM_SIZE M (p - 36))" "12 \<le> m" "mi_pool M (p - 36) = i"
    "p \<noteq> 0"
proof -
  obtain bs t fs where rep: "heap_rep i M bs t fs" and lv: "live i M = allocs M bs" using ok by (rule heap_okE)
  note r = heap_repD[OF rep]
  have h: "p - 36 \<in> set bs" "m = bsize M (p - 36)" using p lv by (auto simp: allocs_def)
  obtain as cs where bs: "bs = as @ (p - 36) # cs" using h(1) by (meson split_list)
  note b = block_next[of i M as "p - 36" cs t]
  have u: "unat (p - 36) + 36 + m \<le> unat t" "unat t + 36 \<le> 2 ^ 32"
    using b(5,7) r(2) bs h(2) blocks_okD(8)[OF r(2)] by auto
  have "unat (p - 36 + 36) = unat (p - 36) + 36" using u by (subst unat_word_ariths) simp
  then have p36: "unat p = unat (p - 36) + 36" by simp
  show "36 \<le> unat p" "unat p + m + 36 \<le> 2 ^ 32" using p36 u by simp_all
  show "p \<noteq> 0" using p36 by auto
  show "m = unat (MEMITEM_SIZE M (p - 36))" "12 \<le> m" using b(4,6) r(2) bs h(2) by simp_all
  show "mi_pool M (p - 36) = i" by (rule blocks_okD(6)[OF r(2) h(1)])
qed

lemma handed_out_separate:
  assumes ok: "heap_ok i M" and p: "(p, m) \<in> handed_out i M" and q: "(q, n) \<in> handed_out i M" and ne: "p \<noteq> q"
  shows "unat p + m \<le> unat q \<or> unat q + n \<le> unat p"
proof -
  have "unat (p - 36) + 36 + m \<le> unat (q - 36) \<or> unat (q - 36) + 36 + n \<le> unat (p - 36)"
    using live_separate[OF ok, of "p - 36" m "q - 36" n] p q ne by simp
  then show ?thesis using handed_out_range(1)[OF ok p] handed_out_range(1)[OF ok q]
    by (auto simp: unat_sub word_le_nat_alt)
qed

lemma handed_out_single: "heap_ok i M \<Longrightarrow> (p, m) \<in> handed_out i M \<Longrightarrow> (p, n) \<in> handed_out i M \<Longrightarrow> m = n"
  using handed_out_range(3) by metis

section \<open>The contract of a heap\<close>

definition heap_serves :: "nat \<Rightarrow> mhs \<Rightarrow> bool" where
  "heap_serves i = (\<lambda>(M, k). heap_ok i M \<and> heap_idle i M k)"

text \<open>The calls as a client sees them that does not have to wait.\<close>

definition heap_get :: "nat \<Rightarrow> nat \<Rightarrow> mhs \<Rightarrow> mhs \<times> rt_uint32 option" where
  "heap_get i n s =
     (case rt_memheap_alloc i (of_nat n) s of
        Some (s', Return p) \<Rightarrow> (s', if p = 0 then None else Some p)
      | _ \<Rightarrow> (s, None))"

definition heap_put :: "rt_uint32 \<Rightarrow> mhs \<Rightarrow> mhs" where
  "heap_put p s = (case rt_memheap_free p s of Some (s', Return _) \<Rightarrow> s' | _ \<Rightarrow> s)"

lemma unat_of_nat32: "n \<le> 2 ^ 32 - 4 \<Longrightarrow> unat (of_nat n :: rt_uint32) = n"
  by (simp add: unsigned_of_nat take_bit_nat_eq_self)

lemma heap_get_cases:
  assumes s: "heap_serves i s" and n: "n \<le> 2 ^ 32 - 4"
  obtains "heap_get i n s = (s, None)" "no_room i (fst s) (of_nat n)"
  | s' p m where "heap_get i n s = (s', Some p)" "heap_serves i s'" "n \<le> m" "p \<notin> fst ` handed_out i (fst s)"
      "handed_out i (fst s') = insert (p, m) (handed_out i (fst s))"
proof -
  obtain M k where s': "s = (M, k)" by (cases s)
  have ok: "heap_ok i M" "heap_idle i M k" using s by (simp_all add: heap_serves_def s')
  have u: "unat (of_nat n :: rt_uint32) = n" by (rule unat_of_nat32[OF n])
  have n3: "unat (of_nat n :: rt_uint32) + 3 < 2 ^ 32" unfolding u using n by simp
  show ?thesis
  proof (rule memheap_alloc_cases[OF ok n3])
    assume "rt_memheap_alloc i (of_nat n) (M, k) = Some ((M, k), Return 0)" "no_room i M (of_nat n)"
    then show ?thesis using that(1) by (simp add: heap_get_def s')
  next
    fix M' p m
    assume a: "rt_memheap_alloc i (of_nat n) (M, k) = Some ((M', k), Return p)" "heap_ok i M'" "heap_idle i M' k" "p \<noteq> 0"
      "unat (of_nat n :: rt_uint32) \<le> m" "p \<notin> fst ` handed_out i M" "handed_out i M' = insert (p, m) (handed_out i M)"
    show ?thesis
      by (rule that(2)[of "(M', k)" p m]) (use a in \<open>simp_all add: heap_get_def s' heap_serves_def u\<close>)
  qed
qed

lemma heap_put_spec:
  assumes "heap_serves i s" "(p, m) \<in> handed_out i (fst s)"
  shows "heap_serves i (heap_put p s) \<and> handed_out i (fst (heap_put p s)) = handed_out i (fst s) - {(p, m)}"
proof -
  obtain M k where s': "s = (M, k)" by (cases s)
  have ok: "heap_ok i M" "heap_idle i M k" and p: "(p, m) \<in> handed_out i M" using assms by (simp_all add: heap_serves_def s')
  obtain M' where "rt_memheap_free p (M, k) = Some ((M', k), Return ())" "heap_ok i M'" "heap_idle i M' k"
    "handed_out i M' = handed_out i M - {(p, m)}"
    by (rule memheap_free_idle[OF ok p])
  then show ?thesis by (simp add: heap_put_def s' heap_serves_def del: handed_out_iff)
qed

interpretation mh: allocator "heap_serves i" "\<lambda>s. handed_out i (fst s)" "2 ^ 32 - 4" "heap_get i" heap_put for i
proof
  fix s a n m assume "heap_serves i s" "(a, n) \<in> handed_out i (fst s)" "(a, m) \<in> handed_out i (fst s)"
  then show "n = m" using handed_out_single by (cases s) (simp only: heap_serves_def split fst_conv, blast)
next
  fix s s' n a assume s: "heap_serves i s" and n: "n \<le> 2 ^ 32 - 4" and g: "heap_get i n s = (s', Some a)"
  show "heap_serves i s' \<and> a \<notin> fst ` handed_out i (fst s) \<and> (\<exists>m\<ge>n. handed_out i (fst s') = insert (a, m) (handed_out i (fst s)))"
    by (rule heap_get_cases[OF s n]) (use g in \<open>auto simp del: handed_out_iff\<close>)
next
  fix s s' n assume s: "heap_serves i s" and n: "n \<le> 2 ^ 32 - 4" and g: "heap_get i n s = (s', None)"
  show "s' = s" by (rule heap_get_cases[OF s n]) (use g in auto)
next
  fix s a m assume "heap_serves i s" "(a, m) \<in> handed_out i (fst s)"
  then show "heap_serves i (heap_put a s) \<and> handed_out i (fst (heap_put a s)) = handed_out i (fst s) - {(a, m)}"
    by (rule heap_put_spec)
qed

text \<open>After any run that gave everything back, the heap is one free block again.\<close>

lemma heap_run_no_leak:
  assumes s: "heap_serves i s" "handed_out i (fst s) = {}" and small: "\<forall>n. HAlloc n \<in> set ops \<longrightarrow> n \<le> 2 ^ 32 - 4"
    and run: "heap_run (heap_get i) heap_put ops (s, []) = (s', [])"
  shows "heap_serves i s'" "heap_blocks i (fst s') = [block_list (mh_heap (fst s') i)]"
    "unat (available_size (mh_heap (fst s') i)) + 72 = unat (pool_size (mh_heap (fst s') i))"
proof -
  have t: "mh.tracks i (s, [])" using s by (simp add: mh.tracks_def)
  have r: "heap_serves i s'" "handed_out i (fst s') = {}" by (rule mh.run_all_returned[OF t small run])+
  show "heap_serves i s'" by (rule r(1))
  have "heap_ok i (fst s')" "live i (fst s') = {}" using r by (auto simp: heap_serves_def handed_out_def split: prod.splits)
  note no_leak[OF this]
  then show "heap_blocks i (fst s') = [block_list (mh_heap (fst s') i)]"
    "unat (available_size (mh_heap (fst s') i)) + 72 = unat (pool_size (mh_heap (fst s') i))" by auto
qed

end
