(* ===== verification/Rtt_Heap_Spec.thy ===== *)
theory Rtt_Heap_Spec
  imports Rtt_Heap
begin

text \<open>
  Properties of the heap's calls beyond allocation and release: initialisation,
  \<^verbatim>\<open>rt_memheap_realloc\<close>, the system heap's calls and \<^verbatim>\<open>rt_calloc\<close>.
\<close>

section \<open>Initialisation\<close>

lemma memheap_init_serves:
  assumes fit: "84 \<le> unat sz" "unat start + unat (RT_ALIGN_DOWN sz 4) \<le> 2 ^ 32" and al: "4 dvd unat start"
    and hdr: "unat hdr < unat start \<or> unat start + unat (RT_ALIGN_DOWN sz 4) \<le> unat hdr"
    and fresh: "ls_on (k_containers k) (OMemHeap i) = None" "ls_on (k_containers k) (OSem lock) = None"
      "tlist_of k (sem_queue lock) = []"
  obtains M' k' where "rt_memheap_init i nm hdr start sz lock (M, k) = Some ((M', k'), RT_EOK)" "heap_serves i (M', k')"
    "handed_out i M' = {}" "available_size (mh_heap M' i) = RT_ALIGN_DOWN sz 4 - 72"
    "k_sem k' lock = 1" "k_thread k' = k_thread k"
proof -
  define M' where "M' = memheap_setup i hdr start sz lock (rt_tick k) M"
  note st = memheap_setup_rep[OF fit al hdr, of i lock "rt_tick k" M, folded M'_def]
  have l: "mh_lock (mh_heap M' i) = lock"
    by (simp add: M'_def memheap_setup_def Let_def) (simp add: upd_heap_def memheap_item_init_def Let_def)
  have ok: "heap_ok i M'" "handed_out i M' = {}" using heap_okI[OF st(1)] st(2) by (simp_all add: handed_out_def)
  have "\<exists>k'. rt_memheap_init i nm hdr start sz lock (M, k) = Some ((M', k'), RT_EOK) \<and> k_sem k' lock = 1 \<and>
      tlist_of k' (sem_queue lock) = [] \<and> k_thread k' = k_thread k"
    using fresh by (auto simp: rt_memheap_init_def rt_object_init_def container_insert_def ls_insert_after_head_def
        rt_sem_init_def rt_ipc_object_init_def set_sem_def set_obj_flag_def M'_def[symmetric] rt_object_get_information_def rt_object_container_def)
  then show ?thesis using that st(3) ok l by (auto simp: heap_serves_def heap_idle_def)
qed

section \<open>Changing the size of a block\<close>

text \<open>The bytes a client wrote are not part of the bookkeeping.\<close>

lemma mi_byte_frame [simp]:
  "mi_magic (M\<lparr>mi_byte := b\<rparr>) = mi_magic M" "mi_next (M\<lparr>mi_byte := b\<rparr>) = mi_next M" "mh_heap (M\<lparr>mi_byte := b\<rparr>) = mh_heap M"
  "RT_MEMHEAP_IS_USED (M\<lparr>mi_byte := b\<rparr>) = RT_MEMHEAP_IS_USED M" "bsize (M\<lparr>mi_byte := b\<rparr>) = bsize M"
  "MEMITEM_SIZE (M\<lparr>mi_byte := b\<rparr>) = MEMITEM_SIZE M"
  by (simp_all add: fun_eq_iff RT_MEMHEAP_IS_USED_def bsize_def MEMITEM_SIZE_def)

lemma heap_rep_byte [simp]: "heap_rep i (M\<lparr>mi_byte := b\<rparr>) bs t fs = heap_rep i M bs t fs"
  by (simp add: heap_rep_def heap_q_def blocks_ok_def free_ok_def free_sum_def cong: if_cong)

lemma heap_ok_byte [simp]: "heap_ok i (M\<lparr>mi_byte := b\<rparr>) = heap_ok i M"
  by (simp add: heap_ok_def)

lemma heap_idle_byte [simp]: "heap_idle i (M\<lparr>mi_byte := b\<rparr>) k = heap_idle i M k"
  by (simp add: heap_idle_def)

lemma walk_blocks_byte [simp]: "walk_blocks n (M\<lparr>mi_byte := b\<rparr>) x t = walk_blocks n M x t"
  by (induction n arbitrary: x) auto

lemma live_byte [simp]: "live i (M\<lparr>mi_byte := b\<rparr>) = live i M"
  by (simp add: live_def heap_blocks_def allocs_def)

lemma handed_out_byte [simp]: "handed_out i (M\<lparr>mi_byte := b\<rparr>) = handed_out i M"
  by (simp add: handed_out_def)

text \<open>The first \<open>n\<close> bytes at \<open>q\<close> are those that were at \<open>p\<close>.\<close>

definition same_bytes :: "mem \<Rightarrow> rt_uint32 \<Rightarrow> mem \<Rightarrow> rt_uint32 \<Rightarrow> nat \<Rightarrow> bool" where
  "same_bytes m' q m p n \<longleftrightarrow> (\<forall>j < n. m' (q + of_nat j) = m (p + of_nat j))"

lemma same_bytes_refl [simp]: "same_bytes m p m p n"
  by (simp add: same_bytes_def)

lemma copy_between_blocks:
  assumes ok: "heap_ok i M" and p: "(p, m) \<in> handed_out i M" and q: "(q, n) \<in> handed_out i M" and ne: "p \<noteq> q"
    and c: "unat c \<le> m" "unat c \<le> n"
  shows "same_bytes (rt_memcpy q p c b) q b p (unat c)"
proof -
  have sep: "unat p + m \<le> unat q \<or> unat q + n \<le> unat p" by (rule handed_out_separate[OF ok p q ne])
  note rp = handed_out_range[OF ok p] and rq = handed_out_range[OF ok q]
  have "unat c \<le> unat (q - p)"
  proof (cases "p \<le> q")
    case True
    then show ?thesis using sep c rp(4) rq(4) by (auto simp: unat_sub word_le_nat_alt)
  next
    case False
    then have "unat (q - p) = 2 ^ 32 + unat q - unat p"
      by (simp add: unat_sub_if_size word_size word_le_nat_alt not_le)
    then show ?thesis using c rp(2) by simp
  qed
  then have e: "rt_memcpy q p c b = mem_copy q p (unat c) b" by (rule rt_memcpy_copy)
  have "unat (of_nat j :: rt_uint32) = j" if "j < unat c" for j
    using that unat32_less[of c] by (simp add: unsigned_of_nat take_bit_nat_eq_self)
  then show ?thesis by (simp add: same_bytes_def e mem_copy_def)
qed

text \<open>The bodies under the lock, in terms of what the clients hold.\<close>

lemma handed_out_split:
  assumes "heap_ok i M" "(p, m) \<in> handed_out i M"
  obtains as cs t fs where "heap_rep i M (as @ (p - 36) # cs) t fs" "used M (p - 36)" "m = bsize M (p - 36)"
    "heap_blocks i M = as @ (p - 36) # cs" "live i M = allocs M (as @ (p - 36) # cs)"
proof -
  obtain bs t fs where r: "heap_rep i M bs t fs" "heap_blocks i M = bs" "live i M = allocs M bs" using assms(1) by (rule heap_okE)
  have h: "p - 36 \<in> set bs" "used M (p - 36)" "m = bsize M (p - 36)" using assms(2) r(3) by (auto simp: allocs_def)
  then obtain as cs where "bs = as @ (p - 36) # cs" by (meson split_list)
  then show ?thesis using that r h by simp
qed

lemma resized_handed_out:
  "live i M' = insert (p - 36, n) (live i M - {(p - 36, m)}) \<Longrightarrow> handed_out i M' = insert (p, n) (handed_out i M - {(p, m)})"
  by (auto simp: set_eq_iff)

lemma shrink_handed_out:
  assumes ok: "heap_ok i M" and p: "(p, m) \<in> handed_out i M" and sz: "12 \<le> unat n" "4 dvd unat n" "unat n + 48 < m"
  shows "heap_ok i (shrink_locked i (p - 36) n M)" "mi_byte (shrink_locked i (p - 36) n M) = mi_byte M"
    "handed_out i (shrink_locked i (p - 36) n M) = insert (p, unat n) (handed_out i M - {(p, m)})"
proof -
  obtain as cs t fs where r: "heap_rep i M (as @ (p - 36) # cs) t fs" "used M (p - 36)" "m = bsize M (p - 36)"
    "live i M = allocs M (as @ (p - 36) # cs)" using ok p by (rule handed_out_split)
  obtain bs' fs' where s: "heap_rep i (shrink_locked i (p - 36) n M) bs' t fs'"
    "allocs (shrink_locked i (p - 36) n M) bs' = insert (p - 36, unat n) (live i M - {(p - 36, m)})"
    "mi_byte (shrink_locked i (p - 36) n M) = mi_byte M"
    using shrink_locked_spec[OF r(1,2) sz(1,2) sz(3)[unfolded r(3)]] r(3,4) by auto
  note o = heap_okI[OF s(1)]
  show "heap_ok i (shrink_locked i (p - 36) n M)" "mi_byte (shrink_locked i (p - 36) n M) = mi_byte M" using o s(3) by simp_all
  show "handed_out i (shrink_locked i (p - 36) n M) = insert (p, unat n) (handed_out i M - {(p, m)})"
    by (rule resized_handed_out) (use o s(2) in simp)
qed

text \<open>Growing in place takes from a free block behind, if that leaves more than the smallest block.\<close>

lemma grow_handed_out:
  assumes ok: "heap_ok i M" and p: "(p, m) \<in> handed_out i M"
    and sz: "12 \<le> unat n" "4 dvd unat n" "m < unat n" "unat n + 12 < 2 ^ 32"
  obtains M' where "grow_locked i (p - 36) (MEMITEM_SIZE M (p - 36)) n now M = Some (M', True)" "heap_ok i M'"
      "handed_out i M' = insert (p, unat n) (handed_out i M - {(p, m)})" "mi_byte M' = mi_byte M"
  | "grow_locked i (p - 36) (MEMITEM_SIZE M (p - 36)) n now M = Some (M, False)"
proof -
  obtain as cs t fs where r: "heap_rep i M (as @ (p - 36) # cs) t fs" "used M (p - 36)" "m = bsize M (p - 36)"
    "live i M = allocs M (as @ (p - 36) # cs)" using ok p by (rule handed_out_split)
  show ?thesis
  proof (cases "cs = [] \<or> used M (hd cs) \<or> bsize M (hd cs) + m \<le> unat n + 12")
    case True
    then show ?thesis using that(2) grow_locked_no_room[OF r(1) _ sz(4)] r(3) by auto
  next
    case False
    then obtain x cs' where cs: "cs = x # cs'" by (cases cs) auto
    have nf: "\<not> used M x" and room: "unat n + 12 < bsize M x + bsize M (p - 36)" using False cs r(3) by auto
    obtain M' bs' fs' where g: "grow_locked i (p - 36) (MEMITEM_SIZE M (p - 36)) n now M = Some (M', True)"
      "heap_rep i M' bs' t fs'" "allocs M' bs' = insert (p - 36, unat n) (live i M - {(p - 36, m)})" "mi_byte M' = mi_byte M"
      using grow_locked_room[OF r(1)[unfolded cs] r(2) nf sz(1,2) sz(3)[unfolded r(3)] room, of now] r(3,4) cs by auto
    note o = heap_okI[OF g(2)]
    have "handed_out i M' = insert (p, unat n) (handed_out i M - {(p, m)})"
      by (rule resized_handed_out) (use o g(3) in simp)
    then show ?thesis using that(1) g o by blast
  qed
qed

lemma on_memory_held:
  "f (rt_tick k) M' = Some (M'', a) \<Longrightarrow> on_memory f (M', held_lock i M k) = Some ((M'', held_lock i M k), Return a)"
  by (simp add: on_memory_def)

text \<open>A locked part of a call, when the lock was free.\<close>

lemma locked_part:
  assumes "heap_idle i M k" "f (rt_tick k) M = Some (M', a)" "mh_lock (mh_heap M' i) = mh_lock (mh_heap M i)"
  shows "seq (heap_take i) (\<lambda>r. if r \<noteq> RT_EOK then fail_errno r z else seq (on_memory f) (\<lambda>a. seq (heap_release i) (\<lambda>_. g a))) (M, k)
     = g a (M', k)"
  using heap_release_held[OF assms(1,3)]
  by (simp add: seq_def heap_take_idle[OF assms(1)] on_memory_held[where f = f, OF assms(2)])

lemma memheap_realloc_cases:
  assumes ok: "heap_ok i M" and idle: "heap_idle i M k" and p: "(p, m) \<in> handed_out i M"
    and n: "n \<noteq> 0" "unat n + 51 < 2 ^ 32"
  obtains "rt_memheap_realloc i p n (M, k) = Some ((M, k), Return 0)" "m < unat (align_size n)" "no_room i M (align_size n)"
  | M' q m' where "rt_memheap_realloc i p n (M, k) = Some ((M', k), Return q)" "heap_ok i M'" "heap_idle i M' k"
      "q \<noteq> 0" "unat n \<le> m'" "handed_out i M' = insert (q, m') (handed_out i M - {(p, m)})"
      "q = p \<or> q \<notin> fst ` handed_out i M" "same_bytes (mi_byte M') q (mi_byte M) p (min m (unat n))"
proof -
  define ns where "ns = align_size n"
  define old where "old = MEMITEM_SIZE M (p - 36)"
  have n3: "unat n + 3 < 2 ^ 32" using n(2) by simp
  note a = align_size_facts[OF n3, folded ns_def] and hr = handed_out_range[OF ok p]
  have nsz: "unat ns + 48 < 2 ^ 32" using a(4) n(2) by auto
  have m: "unat old = m" using hr(3) by (simp add: old_def)
  have lt: "old < ns \<longleftrightarrow> m < unat ns" by (simp add: word_less_nat_alt m)
  have le: "old \<le> 48 + ns \<longleftrightarrow> m \<le> unat ns + 48"
    using nsz by (auto simp: word_le_nat_alt m unat_word_ariths)
  have pn: "p \<noteq> 0" by (rule hr(6))
  define after where "after = (\<lambda>done. if done then give p else seq (rt_memheap_alloc i ns) (\<lambda>new_ptr.
      if new_ptr = 0 then give 0
      else seq (on_memory (\<lambda>_ M. Some (copy_bytes new_ptr p old M, ()))) (\<lambda>_.
        seq (rt_memheap_free p) (\<lambda>_. give new_ptr))))"
  consider "unat ns + 48 < m" | "unat ns \<le> m" "m \<le> unat ns + 48" | "m < unat ns" by linarith
  then show ?thesis
  proof cases
    case 1
    define M' where "M' = shrink_locked i (p - 36) ns M"
    note s = shrink_handed_out[OF ok p a(2,3) 1, folded M'_def]
    have l: "mh_lock (mh_heap M' i) = mh_lock (mh_heap M i)" by (simp add: M'_def shrink_locked_lock)
    have "rt_memheap_realloc i p n (M, k) = Some ((M', k), Return p)"
      using 1 n(1) pn locked_part[OF idle _ l, where f = "\<lambda>_ M. Some (shrink_locked i (p - 36) ns M, ())" and z = 0 and g = "\<lambda>_. give p"]
      by (simp add: rt_memheap_realloc_def Let_def ns_def[symmetric] old_def[symmetric] lt le M'_def give_def)
    then show ?thesis
      using that(2)[of M' p "unat ns"] s a(1) pn heap_idle_cong[OF l] idle by (simp add: same_bytes_def del: handed_out_iff)
  next
    case 2
    have "rt_memheap_realloc i p n (M, k) = Some ((M, k), Return p)"
      using 2 n(1) pn by (simp add: rt_memheap_realloc_def Let_def ns_def[symmetric] old_def[symmetric] lt le)
    then show ?thesis
      using that(2)[of M p m] ok idle p a(1) 2 pn by (auto simp: same_bytes_def insert_absorb simp del: handed_out_iff)
  next
    case 3
    have nsz12: "unat ns + 12 < 2 ^ 32" using nsz by simp
    have cp: "(if old < ns then old else ns) = old" using 3 lt by simp
    have body: "rt_memheap_realloc i p n (M, k) = seq (heap_take i) (\<lambda>r. if r \<noteq> RT_EOK then fail_errno r 0
        else seq (on_memory (grow_locked i (p - 36) old ns)) (\<lambda>a. seq (heap_release i) (\<lambda>_. after a))) (M, k)"
      using 3 n(1) pn cp by (simp add: rt_memheap_realloc_def Let_def ns_def[symmetric] old_def[symmetric] lt after_def cong: if_cong)
    from grow_handed_out[OF ok p a(2,3) 3 nsz12, where now = "rt_tick k", folded old_def]
    show ?thesis
    proof cases
      case (1 M')
      have l: "mh_lock (mh_heap M' i) = mh_lock (mh_heap M i)" by (rule grow_locked_lock[OF 1(1)])
      have "rt_memheap_realloc i p n (M, k) = Some ((M', k), Return p)"
        unfolding body locked_part[OF idle, of "grow_locked i (p - 36) old ns", OF 1(1) l] by (simp add: after_def give_def)
      then show ?thesis
        using that(2)[of M' p "unat ns"] 1 a(1) pn heap_idle_cong[OF l] idle by (simp add: same_bytes_def del: handed_out_iff)
    next
      case 2
      have run: "rt_memheap_realloc i p n (M, k) = seq (rt_memheap_alloc i ns) (\<lambda>new_ptr.
          if new_ptr = 0 then give 0
          else seq (on_memory (\<lambda>_ M. Some (copy_bytes new_ptr p old M, ()))) (\<lambda>_.
            seq (rt_memheap_free p) (\<lambda>_. give new_ptr))) (M, k)"
        unfolding body locked_part[OF idle, of "grow_locked i (p - 36) old ns", OF 2 refl] by (simp add: after_def)
      have ns3: "unat ns + 3 < 2 ^ 32" using nsz by simp
      from memheap_alloc_cases[OF ok idle ns3] show ?thesis
      proof cases
        case 1
        then show ?thesis using that(1) run 3 by (simp add: seq_def give_def ns_def)
      next
        case (2 M1 q m1)
        define M2 where "M2 = M1\<lparr>mi_byte := rt_memcpy q p old (mi_byte M1)\<rparr>"
        have pq: "p \<noteq> q" using 2(8) p by (auto simp: image_iff Bex_def simp del: handed_out_iff)
        have p1: "(p, m) \<in> handed_out i M1" "(q, m1) \<in> handed_out i M1" using p 2(9) by (simp_all del: handed_out_iff)
        have ok2: "heap_ok i M2" "heap_idle i M2 k" "(p, m) \<in> handed_out i M2"
          using 2(2,3) p1 by (simp_all add: M2_def del: handed_out_iff)
        obtain M3 where f: "rt_memheap_free p (M2, k) = Some ((M3, k), Return ())" "heap_ok i M3" "heap_idle i M3 k"
          "handed_out i M3 = handed_out i M2 - {(p, m)}" "mi_byte M3 = mi_byte M2"
          using memheap_free_idle[OF ok2] .
        have "rt_memheap_realloc i p n (M, k) = Some ((M3, k), Return q)"
          using 2(1,4) f(1) unfolding run by (simp add: seq_def on_memory_def copy_bytes_def M2_def give_def)
        moreover have "same_bytes (mi_byte M3) q (mi_byte M) p (min m (unat n))"
          using copy_between_blocks[OF 2(2) p1 pq, of old "mi_byte M1"] m 3 2(6) f(5) 2(10)
          by (simp add: M2_def same_bytes_def)
        moreover have "handed_out i M3 = insert (q, m1) (handed_out i M - {(p, m)})"
          using f(4) 2(9) pq by (auto simp: M2_def simp del: handed_out_iff)
        ultimately show ?thesis
          using that(2)[of M3 q m1] f(2,3) 2(4,6,8) a(1) by simp
      qed
    qed
  qed
qed

text \<open>A request of almost 2^32 bytes wraps in the test for room: the call succeeds when it should
  fail, and the block's size becomes what was asked for.\<close>

lemma memheap_realloc_overflow:
  assumes ok: "heap_ok i M" and idle: "heap_idle i M k" and p: "(p, m) \<in> handed_out i M"
    and free: "\<not> used M (mi_next M (p - 36))"
    and n: "unat n + 3 < 2 ^ 32" "2 ^ 32 \<le> unat (align_size n) + 12"
  obtains M' where "rt_memheap_realloc i p n (M, k) = Some ((M', k), Return p)" "MEMITEM_SIZE M' (p - 36) = align_size n"
proof -
  define ns where "ns = align_size n"
  define old where "old = MEMITEM_SIZE M (p - 36)"
  define x where "x = mi_next M (p - 36)"
  obtain as cs t fs where r: "heap_rep i M (as @ (p - 36) # cs) t fs" "m = bsize M (p - 36)" using ok p by (rule handed_out_split)
  note rr = heap_repD[OF r(1)] and bh = block_next[OF heap_repD(2)[OF r(1)]] and hr = handed_out_range[OF ok p]
  have x: "x = hd (cs @ [t])" using bh(1) by (simp add: x_def)
  obtain cs' where cs: "cs = x # cs'"
  proof (cases cs)
    case Nil
    then show ?thesis using x free blocks_okD(9)[OF rr(2)] by (simp add: x_def)
  qed (use that x in simp)
  have okx: "blocks_ok i M ((as @ [p - 36]) @ x # cs') t" using rr(2) cs by simp
  note bx = block_next[OF okx]
  have m: "unat old = m" using hr(3) by (simp add: old_def)
  have tl: "unat t + 36 \<le> 2 ^ 32" by (rule blocks_okD(8)[OF rr(2)])
  have sizes: "unat (p - 36) + 36 + m = unat x" "unat x + 36 + bsize M x \<le> unat t"
    using bh(5) bx(5,7) cs r(2) by auto
  have lt: "old < ns" using sizes tl n(2) by (simp add: word_less_nat_alt m ns_def)
  have h: "p - 36 < x" using sizes(1) by (simp add: word_less_nat_alt)
  have u: "unat (ns + 12) = unat ns + 12 - 2 ^ 32"
    using n(2) unat32_less[of ns] by (simp add: unat_word_ariths ns_def le_mod_geq)
  have "unat (MEMITEM_SIZE M x + old) = bsize M x + m" using sizes tl by (simp add: unat_word_ariths bx(4) m)
  then have room: "ns + 12 < MEMITEM_SIZE M x + old"
    using u unat32_less[of ns] bx(6) by (simp add: word_less_nat_alt)
  obtain M' where g: "grow_locked i (p - 36) old ns (rt_tick k) M = Some (M', True)" "mi_next M' (p - 36) = p + ns"
    using h room free
    by (simp add: grow_locked_def x_def[symmetric] RT_ASSERT_def Let_def) (simp add: split_block_def Let_def)
  have l: "mh_lock (mh_heap M' i) = mh_lock (mh_heap M i)" by (rule grow_locked_lock[OF g(1)])
  have n0: "n \<noteq> 0" using n by (auto simp: align_size_def Let_def RT_ALIGN_def)
  define after where "after = (\<lambda>done. if done then give p else seq (rt_memheap_alloc i ns) (\<lambda>new_ptr.
      if new_ptr = 0 then give 0
      else seq (on_memory (\<lambda>_ M. Some (copy_bytes new_ptr p old M, ()))) (\<lambda>_.
        seq (rt_memheap_free p) (\<lambda>_. give new_ptr))))"
  have body: "rt_memheap_realloc i p n (M, k) = seq (heap_take i) (\<lambda>r. if r \<noteq> RT_EOK then fail_errno r 0
      else seq (on_memory (grow_locked i (p - 36) old ns)) (\<lambda>a. seq (heap_release i) (\<lambda>_. after a))) (M, k)"
    using n0 hr(6) lt by (simp add: rt_memheap_realloc_def Let_def ns_def[symmetric] old_def[symmetric] after_def cong: if_cong)
  have "rt_memheap_realloc i p n (M, k) = Some ((M', k), Return p)"
    unfolding body locked_part[OF idle, of "grow_locked i (p - 36) old ns", OF g(1) l] by (simp add: after_def give_def)
  then show ?thesis using that g(2) by (simp add: MEMITEM_SIZE_def ns_def)
qed

section \<open>The system heap\<close>

definition heaps_listed :: "kernel \<Rightarrow> nat set" where
  "heaps_listed k = {j. OMemHeap j \<in> set (ls_nodes (k_containers k) RT_Object_Class_MemHeap)}"

definition only_heaps :: "kernel \<Rightarrow> bool" where
  "only_heaps k \<longleftrightarrow> (\<forall>ob \<in> set (ls_nodes (k_containers k) RT_Object_Class_MemHeap). \<exists>j. ob = OMemHeap j)"

text \<open>Memory comes from some heap, and from none only if none has room.\<close>

definition gives :: "nat set \<Rightarrow> memheaps \<Rightarrow> rt_uint32 \<Rightarrow> memheaps \<Rightarrow> rt_uint32 \<Rightarrow> bool" where
  "gives J M n M' p \<longleftrightarrow>
     (if p = 0 then M' = M \<and> (\<forall>j \<in> J. no_room j M n)
      else \<exists>j \<in> J. \<exists>m. heap_ok j M' \<and> unat n \<le> m \<and> m < unat (align_size n) + 48 \<and> p \<notin> fst ` handed_out j M \<and>
        handed_out j M' = insert (p, m) (handed_out j M))"

lemma memheap_alloc_gives:
  assumes "heap_serves j (M, k)" "unat n + 3 < 2 ^ 32"
  obtains M' p where "rt_memheap_alloc j n (M, k) = Some ((M', k), Return p)" "gives {j} M n M' p"
    "mi_byte M' = mi_byte M"
proof -
  have ok: "heap_ok j M" "heap_idle j M k" using assms(1) by (simp_all add: heap_serves_def)
  from memheap_alloc_cases[OF ok assms(2)] show ?thesis
  proof cases
    case 1
    then show ?thesis using that[of M 0] by (simp add: gives_def)
  next
    case (2 M' p m)
    then show ?thesis using that[of M' p] by (auto simp: gives_def simp del: handed_out_iff)
  qed
qed

lemma gives_mono: "gives J M n M' p \<Longrightarrow> p \<noteq> 0 \<Longrightarrow> J \<subseteq> K \<Longrightarrow> gives K M n M' p"
  by (auto simp: gives_def simp del: handed_out_iff)

lemma malloc_others_gives:
  assumes "\<forall>ob \<in> set obs. \<exists>j. ob = OMemHeap j" "\<forall>j. OMemHeap j \<in> set obs \<longrightarrow> heap_serves j (M, k)"
    "unat n + 3 < 2 ^ 32" "ls_nodes (k_containers k) RT_Object_Class_MemHeap = all"
  shows "\<exists>M' p. malloc_others all obs n (M, k) = Some ((M', k), Return p) \<and>
    gives ({j. OMemHeap j \<in> set obs} - {0}) M n M' p \<and> mi_byte M' = mi_byte M"
  using assms(1,2)
proof (induction obs)
  case Nil
  then show ?case by (simp add: give_def gives_def)
next
  case (Cons ob obs)
  obtain j where ob: "ob = OMemHeap j" using Cons.prems(1) by auto
  obtain M' p where ih: "malloc_others all obs n (M, k) = Some ((M', k), Return p)"
    "gives ({j. OMemHeap j \<in> set obs} - {0}) M n M' p" "mi_byte M' = mi_byte M"
    using Cons.IH Cons.prems by auto
  show ?case
  proof (cases "j = 0")
    case True
    have "{i. OMemHeap i \<in> set (ob # obs)} - {0} = {i. OMemHeap i \<in> set obs} - {0}" using True ob by auto
    then show ?thesis using ih assms(4) True ob by simp
  next
    case False
    have sv: "heap_serves j (M, k)" using Cons.prems(2) ob by simp
    have J: "{i. OMemHeap i \<in> set (ob # obs)} - {0} = insert j ({i. OMemHeap i \<in> set obs} - {0})" using False ob by auto
    from memheap_alloc_gives[OF sv assms(3)] obtain M1 p1
      where a: "rt_memheap_alloc j n (M, k) = Some ((M1, k), Return p1)" "gives {j} M n M1 p1" "mi_byte M1 = mi_byte M" .
    show ?thesis
    proof (cases "p1 = 0")
      case True
      then have "M1 = M" "no_room j M n" using a(2) by (simp_all add: gives_def)
      then have "malloc_others all (ob # obs) n (M, k) = Some ((M', k), Return p)"
        using a(1) True ih(1) assms(4) False by (simp add: ob seq_def)
      moreover have "gives (insert j ({i. OMemHeap i \<in> set obs} - {0})) M n M' p"
        using ih(2) \<open>no_room j M n\<close> gives_mono[OF ih(2)] by (cases "p = 0") (auto simp: gives_def simp del: handed_out_iff)
      ultimately show ?thesis unfolding J using ih(3) by blast
    next
      case p1: False
      then have "malloc_others all (ob # obs) n (M, k) = Some ((M1, k), Return p1)"
        using a(1) assms(4) False by (simp add: ob seq_def give_def)
      moreover have "gives (insert j ({i. OMemHeap i \<in> set obs} - {0})) M n M1 p1"
        by (rule gives_mono[OF a(2) p1]) simp
      ultimately show ?thesis unfolding J using a(3) by blast
    qed
  qed
qed

lemma malloc_gives:
  assumes "only_heaps k" "\<forall>j \<in> insert 0 (heaps_listed k). heap_serves j (M, k)" "unat n + 3 < 2 ^ 32"
  obtains M' p where "rt_malloc n (M, k) = Some ((M', k), Return p)" "gives (insert 0 (heaps_listed k)) M n M' p"
    "mi_byte M' = mi_byte M"
proof -
  let ?all = "ls_nodes (k_containers k) RT_Object_Class_MemHeap"
  have s0: "heap_serves 0 (M, k)" using assms(2) by simp
  from memheap_alloc_gives[OF s0 assms(3)] obtain M1 p1
    where a: "rt_memheap_alloc 0 n (M, k) = Some ((M1, k), Return p1)" "gives {0} M n M1 p1" "mi_byte M1 = mi_byte M" .
  show ?thesis
  proof (cases "p1 = 0")
    case True
    then have nr: "M1 = M" "no_room 0 M n" using a(2) by (simp_all add: gives_def)
    obtain M' p where m: "malloc_others ?all ?all n (M, k) = Some ((M', k), Return p)"
      "gives ({j. OMemHeap j \<in> set ?all} - {0}) M n M' p" "mi_byte M' = mi_byte M"
      using malloc_others_gives[of ?all M k n ?all] assms by (auto simp: only_heaps_def heaps_listed_def)
    have "gives (insert 0 (heaps_listed k)) M n M' p"
      using m(2) nr(2) gives_mono[OF m(2), of "insert 0 (heaps_listed k)"]
      by (cases "p = 0") (auto simp: gives_def heaps_listed_def simp del: handed_out_iff)
    moreover have "rt_malloc n (M, k) = Some ((M', k), Return p)"
      using a(1) True nr(1) m(1) by (simp add: rt_malloc_def seq_def rt_object_get_information_def rt_object_container_def)
    ultimately show ?thesis using that m(3) by blast
  next
    case False
    then show ?thesis
      using that[of M1 p1] a gives_mono[OF a(2) False, of "insert 0 (heaps_listed k)"]
      by (simp add: rt_malloc_def seq_def give_def)
  qed
qed

lemma calloc_gives:
  assumes "only_heaps k" "\<forall>j \<in> insert 0 (heaps_listed k). heap_serves j (M, k)" "unat (count * sz) + 3 < 2 ^ 32"
  obtains M' p where "rt_calloc count sz (M, k) = Some ((M', k), Return p)"
    "gives (insert 0 (heaps_listed k)) M (count * sz) M' p"
    "p \<noteq> 0 \<Longrightarrow> \<forall>j < unat (count * sz). mi_byte M' (p + of_nat j) = 0"
proof -
  obtain M1 p where m: "rt_malloc (count * sz) (M, k) = Some ((M1, k), Return p)"
    "gives (insert 0 (heaps_listed k)) M (count * sz) M1 p"
    by (rule malloc_gives[OF assms]) (rule that; assumption)
  define M' where "M' = (if p = 0 then M1 else M1\<lparr>mi_byte := rt_memset p 0 (count * sz) (mi_byte M1)\<rparr>)"
  have "rt_calloc count sz (M, k) = Some ((M', k), Return p)"
    using m(1) by (simp add: rt_calloc_def Let_def seq_def give_def on_memory_def M'_def)
  moreover have "gives (insert 0 (heaps_listed k)) M (count * sz) M' p"
    using m(2) by (auto simp: gives_def M'_def simp del: handed_out_iff split: if_splits)
  moreover have "mi_byte M' (p + of_nat j) = 0" if "p \<noteq> 0" "j < unat (count * sz)" for j
  proof -
    have "unat (of_nat j :: rt_uint32) = j" using that(2) unat32_less[of "count * sz"] by (simp add: unsigned_of_nat take_bit_nat_eq_self)
    then show ?thesis using that by (simp add: M'_def rt_memset_fill mem_fill_def)
  qed
  ultimately show ?thesis using that by blast
qed

end
