(* ===== verification/Rtt_Memory_Props.thy ===== *)
theory Rtt_Memory_Props
  imports Rtt_Examples Rtt_Mempool Rtt_Heap_Spec
begin

text \<open>
  Properties of the allocators: memory heaps and memory pools.
\<close>

section \<open>Memory heaps\<close>

text \<open>A new heap serves requests: nothing is handed out and all but two headers is available.\<close>

theorem heap_init_serves:
  assumes "84 \<le> unat sz" "unat start + unat (RT_ALIGN_DOWN sz 4) \<le> 2 ^ 32" "4 dvd unat start"
    "unat hdr < unat start \<or> unat start + unat (RT_ALIGN_DOWN sz 4) \<le> unat hdr"
    "ls_on (k_containers k) (OMemHeap i) = None" "ls_on (k_containers k) (OSem lock) = None"
    "tlist_of k (sem_queue lock) = []"
  shows "\<exists>M' k'. rt_memheap_init i nm hdr start sz lock (M, k) = Some ((M', k'), RT_EOK) \<and> heap_serves i (M', k') \<and>
    handed_out i M' = {} \<and> available_size (mh_heap M' i) = RT_ALIGN_DOWN sz 4 - 72"
  by (rule memheap_init_serves[OF assms]) (intro exI conjI; assumption)

definition mh_zero :: memheaps where
  "mh_zero = \<lparr>mi_magic = (\<lambda>_. 0), mi_pool = (\<lambda>_. 0), mi_next = (\<lambda>_. 0), mi_prev = (\<lambda>_. 0), mi_next_free = (\<lambda>_. 0),
     mi_prev_free = (\<lambda>_. 0), mi_thread = (\<lambda>_. []), mi_tick = (\<lambda>_. 0), mi_byte = (\<lambda>_. 0),
     mh_heap = (\<lambda>_. \<lparr>start_addr = 0, pool_size = 0, available_size = 0, max_used_size = 0, block_list = 0,
       free_list = 0, mh_lock = 0\<rparr>)\<rparr>"

lemma heap_args:
  "84 \<le> unat (1024 :: rt_uint32)" "RT_ALIGN_DOWN (1024 :: rt_uint32) 4 = 1024" "4 dvd unat (0x1000 :: rt_uint32)"
  "unat (0x1000 :: rt_uint32) + unat (RT_ALIGN_DOWN (1024 :: rt_uint32) 4) \<le> 2 ^ 32"
  "unat (0x100 :: rt_uint32) < unat (0x1000 :: rt_uint32) \<or> unat (0x1000 :: rt_uint32) + unat (RT_ALIGN_DOWN (1024 :: rt_uint32) 4) \<le> unat (0x100 :: rt_uint32)"
  by (simp_all add: RT_ALIGN_DOWN_def)

lemma kernel_two_objects: "ls_on (k_containers kernel_two) ob = None" "tlist_of kernel_two (sem_queue j) = []"
  by (simp_all add: kernel_two_def ls_empty_def)

theorem heap_init_serves_witness:
  "\<exists>M' k'. rt_memheap_init 0 [104] 0x100 0x1000 1024 0 (mh_zero, kernel_two) = Some ((M', k'), RT_EOK) \<and>
     heap_serves 0 (M', k') \<and> available_size (mh_heap M' 0) = 952"
  using heap_init_serves[OF heap_args(1,4,3,5) kernel_two_objects(1,1,2), where i = 0 and nm = "[104]" and M = mh_zero and lock = 0]
  by (auto simp: heap_args(2))

text \<open>A heap of 1024 bytes, and the same one after a request of 100 bytes.\<close>

definition heap_new :: mhs where
  "heap_new = fst (the (rt_memheap_init 0 [104] 0x100 0x1000 1024 0 (mh_zero, kernel_two)))"

lemma heap_new_facts:
  "heap_serves 0 heap_new" "handed_out 0 (fst heap_new) = {}" "available_size (mh_heap (fst heap_new) 0) = 952"
  "heap_ok 0 (fst heap_new)" "heap_idle 0 (fst heap_new) (snd heap_new)"
proof -
  obtain M' k' where i: "rt_memheap_init 0 [104] 0x100 0x1000 1024 0 (mh_zero, kernel_two) = Some ((M', k'), RT_EOK)"
    "heap_serves 0 (M', k')" "handed_out 0 M' = {}" "available_size (mh_heap M' 0) = RT_ALIGN_DOWN 1024 4 - 72"
    by (rule memheap_init_serves[OF heap_args(1,4,3,5) kernel_two_objects(1,1,2), where i = 0 and nm = "[104]" and M = mh_zero and lock = 0]) (rule that; assumption)
  have e: "heap_new = (M', k')" by (simp add: heap_new_def i(1))
  show "heap_serves 0 heap_new" "handed_out 0 (fst heap_new) = {}" "available_size (mh_heap (fst heap_new) 0) = 952"
    "heap_ok 0 (fst heap_new)" "heap_idle 0 (fst heap_new) (snd heap_new)"
    using i(2-4) unfolding e by (simp_all add: heap_args(2) heap_serves_def)
qed

text \<open>C8. A request is answered with a block that no one holds, at least as large as asked for and at
  most 47 bytes larger than the rounded size, or, if no free block is large enough, with
  \<^verbatim>\<open>RT_NULL\<close> and an unchanged heap.\<close>

theorem heap_alloc_fresh:
  assumes "heap_ok i M" "heap_idle i M k" "unat n + 3 < 2 ^ 32"
  shows "\<exists>M' p. rt_memheap_alloc i n (M, k) = Some ((M', k), Return p) \<and> heap_ok i M' \<and> heap_idle i M' k \<and>
    mi_byte M' = mi_byte M \<and>
    (if p = 0 then M' = M \<and> no_room i M n
     else 4 dvd unat p \<and> p \<notin> fst ` handed_out i M \<and> (\<exists>m. unat n \<le> m \<and> m < unat (align_size n) + 48 \<and>
       handed_out i M' = insert (p, m) (handed_out i M)))"
  using memheap_alloc_cases[OF assms]
proof cases
  case 1
  then show ?thesis using assms by (intro exI[of _ M] exI[of _ 0]) simp
next
  case (2 M' p m)
  then show ?thesis by (intro exI[of _ M'] exI[of _ p]) (simp, blast)
qed

theorem heap_alloc_fresh_witness:
  "\<exists>M' p. rt_memheap_alloc 0 100 heap_new = Some ((M', snd heap_new), Return p) \<and> heap_ok 0 M'"
proof -
  have "unat (100 :: rt_uint32) + 3 < 2 ^ 32" by simp
  from heap_alloc_fresh[OF heap_new_facts(4,5) this] show ?thesis by auto
qed

text \<open>A block that is given back is no longer handed out, the others are, and their bytes are
  untouched.\<close>

theorem heap_free_returns:
  assumes "heap_ok i M" "heap_idle i M k" "(p, m) \<in> handed_out i M"
  shows "\<exists>M'. rt_memheap_free p (M, k) = Some ((M', k), Return ()) \<and> heap_ok i M' \<and> heap_idle i M' k \<and>
    handed_out i M' = handed_out i M - {(p, m)} \<and> mi_byte M' = mi_byte M"
  by (rule memheap_free_idle[OF assms]) blast

text \<open>Two blocks that are handed out do not overlap.\<close>

theorem heap_blocks_disjoint:
  assumes "heap_ok i M" "(p, m) \<in> handed_out i M" "(q, n) \<in> handed_out i M" "p \<noteq> q"
  shows "unat p + m \<le> unat q \<or> unat q + n \<le> unat p"
  by (rule handed_out_separate[OF assms])

text \<open>C9. However a client takes and returns blocks, once everything is returned the heap is one
  free block again, of all but the two headers.\<close>

theorem heap_never_leaks:
  assumes "heap_serves i s" "handed_out i (fst s) = {}" "\<forall>n. HAlloc n \<in> set ops \<longrightarrow> n \<le> 2 ^ 32 - 4"
    "heap_run (heap_get i) heap_put ops (s, []) = (s', [])"
  shows "heap_serves i s' \<and> heap_blocks i (fst s') = [block_list (mh_heap (fst s') i)] \<and>
    unat (available_size (mh_heap (fst s') i)) + 72 = unat (pool_size (mh_heap (fst s') i))"
  using heap_run_no_leak[OF assms] by blast

text \<open>C10. \<^verbatim>\<open>rt_memheap_realloc\<close> returns a block of at least the new size with the old
  block's bytes up to the smaller size, in exchange for the old block; or it fails and everything
  is as before.\<close>

theorem heap_realloc_keeps:
  assumes "heap_ok i M" "heap_idle i M k" "(p, m) \<in> handed_out i M" "n \<noteq> 0" "unat n + 51 < 2 ^ 32"
  shows "\<exists>M' q. rt_memheap_realloc i p n (M, k) = Some ((M', k), Return q) \<and> heap_ok i M' \<and> heap_idle i M' k \<and>
    (if q = 0 then M' = M \<and> m < unat (align_size n)
     else (q = p \<or> q \<notin> fst ` handed_out i M) \<and>
       (\<exists>m' \<ge> unat n. handed_out i M' = insert (q, m') (handed_out i M - {(p, m)})) \<and>
       (\<forall>j < min m (unat n). mi_byte M' (q + of_nat j) = mi_byte M (p + of_nat j)))"
  using memheap_realloc_cases[OF assms]
proof cases
  case 1
  then show ?thesis using assms by (intro exI[of _ M] exI[of _ 0]) simp
next
  case (2 M' q m')
  then show ?thesis by (intro exI[of _ M'] exI[of _ q]) (simp add: same_bytes_def, blast)
qed

text \<open>A heap with one block of about 100 bytes handed out.\<close>

lemma heap_one_exists:
  obtains M p m where "heap_ok 0 M" "heap_idle 0 M (snd heap_new)" "handed_out 0 M = {(p, m)}" "100 \<le> m"
    "rt_memheap_alloc 0 100 heap_new = Some ((M, snd heap_new), Return p)" "p \<noteq> 0"
proof -
  have n: "unat (100 :: rt_uint32) + 3 < 2 ^ 32" by simp
  have room: "\<not> no_room 0 (fst heap_new) 100"
  proof -
    have a: "align_size 100 = 100" by (simp add: align_size_def RT_ALIGN_def)
    have l: "live 0 (fst heap_new) = {}" using heap_new_facts(2) by (auto simp: handed_out_def)
    note nl = no_leak[OF heap_new_facts(4) l]
    obtain bs t fs where rep: "heap_rep 0 (fst heap_new) bs t fs" "heap_blocks 0 (fst heap_new) = bs"
      "live 0 (fst heap_new) = allocs (fst heap_new) bs" using heap_new_facts(4) by (rule heap_okE)
    define b where "b = block_list (mh_heap (fst heap_new) 0)"
    have bs: "bs = [b]" using rep(2) nl(1) by (simp add: b_def)
    have nu: "\<not> used (fst heap_new) b" using rep(3) l bs by (auto simp: allocs_def)
    have "free_sum (fst heap_new) bs = 952"
      using unat_available[OF heap_repD(1)[OF rep(1)]] heap_new_facts(3) by simp
    then have "bsize (fst heap_new) b = 952" using nu bs by simp
    then show ?thesis using a rep(2) bs nu heap_new_facts(3) by (simp add: no_room_def)
  qed
  from memheap_alloc_cases[OF heap_new_facts(4,5) n] show ?thesis
  proof cases
    case 1
    then show ?thesis using room by simp
  next
    case (2 M' p m)
    then show ?thesis using that[of M' p m] heap_new_facts(2) by simp
  qed
qed

theorem heap_free_returns_witness:
  "\<exists>M p M'. rt_memheap_alloc 0 100 heap_new = Some ((M, snd heap_new), Return p) \<and> p \<noteq> 0 \<and>
     rt_memheap_free p (M, snd heap_new) = Some ((M', snd heap_new), Return ()) \<and> handed_out 0 M' = {}"
proof -
  obtain M p m where M: "heap_ok 0 M" "heap_idle 0 M (snd heap_new)" "handed_out 0 M = {(p, m)}"
    "rt_memheap_alloc 0 100 heap_new = Some ((M, snd heap_new), Return p)" "p \<noteq> 0" by (rule heap_one_exists)
  have "(p, m) \<in> handed_out 0 M" unfolding M(3) by simp
  from heap_free_returns[OF M(1,2) this] M(3-5) show ?thesis by auto
qed

theorem heap_realloc_keeps_witness:
  "\<exists>M p M' q. rt_memheap_alloc 0 100 heap_new = Some ((M, snd heap_new), Return p) \<and> p \<noteq> 0 \<and>
     rt_memheap_realloc 0 p 20 (M, snd heap_new) = Some ((M', snd heap_new), Return q) \<and> q \<noteq> 0 \<and> heap_ok 0 M'"
proof -
  obtain M p m where M: "heap_ok 0 M" "heap_idle 0 M (snd heap_new)" "handed_out 0 M = {(p, m)}" "100 \<le> m"
    "rt_memheap_alloc 0 100 heap_new = Some ((M, snd heap_new), Return p)" "p \<noteq> 0" by (rule heap_one_exists)
  have h: "(p, m) \<in> handed_out 0 M" "(20 :: rt_uint32) \<noteq> 0" "unat (20 :: rt_uint32) + 51 < 2 ^ 32" unfolding M(3) by simp_all
  have "unat (align_size 20) = 20" by (simp add: align_size_def RT_ALIGN_def)
  with heap_realloc_keeps[OF M(1,2) h] M(4-6) show ?thesis by (auto split: if_splits)
qed

text \<open>Concrete runs are evaluated in the kernel.\<close>

declare memheap_search.simps [code]

definition two_blocks :: "(memheaps \<times> rt_uint32 \<times> rt_uint32) option" where
  "two_blocks = (case rt_memheap_alloc 0 100 heap_new of Some (s, Return p) \<Rightarrow>
     (case rt_memheap_alloc 0 100 s of Some (s', Return q) \<Rightarrow> Some (fst s', p, q) | _ \<Rightarrow> None) | _ \<Rightarrow> None)"

lemma two_blocks_run: "map_option snd two_blocks = Some (0x1024, 0x10ac)"
  by code_simp

lemma two_blocks_facts:
  obtains M m n where "two_blocks = Some (M, 0x1024, 0x10ac)" "heap_ok 0 M" "(0x1024, m) \<in> handed_out 0 M"
    "(0x10ac, n) \<in> handed_out 0 M"
proof -
  have n: "unat (100 :: rt_uint32) + 3 < 2 ^ 32" by simp
  have e: "(fst heap_new, snd heap_new) = heap_new" by simp
  from memheap_alloc_cases[OF heap_new_facts(4,5) n] show ?thesis
  proof cases
    case 1
    then have "two_blocks = (case Some (heap_new, Return 0) of Some (s, Return p) \<Rightarrow>
        (case rt_memheap_alloc 0 100 s of Some (s', Return q) \<Rightarrow> Some (fst s', p, q) | _ \<Rightarrow> None) | _ \<Rightarrow> None)"
      by (simp only: two_blocks_def e)
    then have "map_option snd two_blocks = Some (0, 0)" using 1 by (auto simp: e)
    then show ?thesis using two_blocks_run by simp
  next
    case (2 M p m)
    from memheap_alloc_cases[OF 2(2,3) n] show ?thesis
    proof cases
      case 1
      then have "map_option snd two_blocks = Some (p, 0)" using 2(1) by (simp add: two_blocks_def e)
      then show ?thesis using two_blocks_run by simp
    next
      case second: (2 M' q m')
      have t: "two_blocks = Some (M', p, q)" using 2(1) second(1) by (simp add: two_blocks_def e)
      have "Some (p, q) = Some (0x1024, 0x10ac)" using two_blocks_run unfolding t by (simp only: option.map snd_conv)
      then have "p = 0x1024" "q = 0x10ac" by simp_all
      then show ?thesis
        using that[of M' m m'] t second(2,9) 2(9) by (simp del: handed_out_iff)
    qed
  qed
qed

theorem heap_blocks_disjoint_witness:
  "\<exists>M m n. two_blocks = Some (M, 0x1024, 0x10ac) \<and>
     (unat (0x1024 :: rt_uint32) + m \<le> unat (0x10ac :: rt_uint32) \<or> unat (0x10ac :: rt_uint32) + n \<le> unat (0x1024 :: rt_uint32)) \<and>
     (0x1024, m) \<in> handed_out 0 M"
proof -
  obtain M m n where M: "two_blocks = Some (M, 0x1024, 0x10ac)" "heap_ok 0 M" "(0x1024, m) \<in> handed_out 0 M"
    "(0x10ac, n) \<in> handed_out 0 M" by (rule two_blocks_facts)
  have "(0x1024 :: rt_uint32) \<noteq> 0x10ac" by simp
  from heap_blocks_disjoint[OF M(2-4) this] M(1,3) show ?thesis by blast
qed

definition client_run :: "heap_op list" where
  "client_run = [HAlloc 100, HAlloc 5000, HFree 0]"

theorem heap_never_leaks_witness:
  "\<exists>s. heap_run (heap_get 0) heap_put client_run (heap_new, []) = (s, []) \<and>
     unat (available_size (mh_heap (fst s) 0)) + 72 = unat (pool_size (mh_heap (fst s) 0))"
proof -
  have "snd (heap_run (heap_get 0) heap_put client_run (heap_new, [])) = []" by code_simp
  then have r: "heap_run (heap_get 0) heap_put client_run (heap_new, [])
      = (fst (heap_run (heap_get 0) heap_put client_run (heap_new, [])), [])"
    by (metis prod.collapse)
  have "\<forall>n. HAlloc n \<in> set client_run \<longrightarrow> n \<le> 2 ^ 32 - 4" by (simp add: client_run_def)
  from heap_never_leaks[OF heap_new_facts(1,2) this r] r show ?thesis by blast
qed

text \<open>The rounding of the requested size wraps: a request for almost 2^32 bytes is answered like
  one for 12 bytes.\<close>

theorem heap_alloc_wraps:
  assumes "2 ^ 32 \<le> unat n + 3"
  shows "rt_memheap_alloc i n s = rt_memheap_alloc i 12 s"
proof -
  have "align_size 12 = 12" by (simp add: align_size_def RT_ALIGN_def)
  then show ?thesis using align_size_overflow[OF assms] by (cases s) (simp add: rt_memheap_alloc_def)
qed

theorem heap_alloc_wraps_witness: "rt_memheap_alloc 0 0xffffffff heap_new = rt_memheap_alloc 0 12 heap_new"
  by (rule heap_alloc_wraps) simp

text \<open>C39. The test for room in \<^verbatim>\<open>rt_memheap_realloc\<close> wraps: with a free block behind,
  a request for almost 2^32 bytes succeeds and corrupts the size of the block.\<close>

theorem heap_realloc_wraps:
  assumes "heap_ok i M" "heap_idle i M k" "(p, m) \<in> handed_out i M" "\<not> used M (mi_next M (p - 36))"
    "unat n + 3 < 2 ^ 32" "2 ^ 32 \<le> unat (align_size n) + 12"
  shows "\<exists>M'. rt_memheap_realloc i p n (M, k) = Some ((M', k), Return p) \<and> MEMITEM_SIZE M' (p - 36) = align_size n"
  by (rule memheap_realloc_overflow[OF assms]) blast

theorem heap_realloc_wraps_witness:
  "\<exists>M p M'. rt_memheap_alloc 0 100 heap_new = Some ((M, snd heap_new), Return p) \<and>
     rt_memheap_realloc 0 p 0xfffffff4 (M, snd heap_new) = Some ((M', snd heap_new), Return p)"
proof -
  obtain M p m where M: "heap_ok 0 M" "heap_idle 0 M (snd heap_new)" "handed_out 0 M = {(p, m)}"
    "rt_memheap_alloc 0 100 heap_new = Some ((M, snd heap_new), Return p)" "p \<noteq> 0" by (rule heap_one_exists)
  have "(case rt_memheap_alloc 0 100 heap_new of Some ((M, k), Return p) \<Rightarrow> \<not> used M (mi_next M (p - 36)) | _ \<Rightarrow> False)"
    by code_simp
  then have f: "\<not> used M (mi_next M (p - 36))" by (simp add: M(4))
  have h: "(p, m) \<in> handed_out 0 M" unfolding M(3) by simp
  have n: "unat (0xfffffff4 :: rt_uint32) + 3 < 2 ^ 32" "2 ^ 32 \<le> unat (align_size 0xfffffff4) + 12"
    by (simp_all add: align_size_def RT_ALIGN_def)
  from heap_realloc_wraps[OF M(1,2) h f n] M(4) show ?thesis by blast
qed

text \<open>\<^verbatim>\<open>rt_calloc\<close> takes memory from some heap with room, all of it zeroed, and fails
  only if no heap has room; the number of bytes is the product modulo 2^32.\<close>

theorem calloc_zeroes:
  assumes "only_heaps k" "\<forall>j \<in> insert 0 (heaps_listed k). heap_serves j (M, k)" "unat (count * sz) + 3 < 2 ^ 32"
  shows "\<exists>M' p. rt_calloc count sz (M, k) = Some ((M', k), Return p) \<and>
    (if p = 0 then M' = M \<and> (\<forall>j \<in> insert 0 (heaps_listed k). no_room j M (count * sz))
     else (\<forall>j < unat (count * sz). mi_byte M' (p + of_nat j) = 0) \<and>
       (\<exists>j \<in> insert 0 (heaps_listed k). heap_ok j M' \<and> (\<exists>m \<ge> unat (count * sz).
          handed_out j M' = insert (p, m) (handed_out j M))))"
proof -
  obtain M' p where r: "rt_calloc count sz (M, k) = Some ((M', k), Return p)"
    "gives (insert 0 (heaps_listed k)) M (count * sz) M' p"
    "p \<noteq> 0 \<Longrightarrow> \<forall>j < unat (count * sz). mi_byte M' (p + of_nat j) = 0"
    by (rule calloc_gives[OF assms]) (rule that; assumption)
  show ?thesis
  proof (cases "p = 0")
    case True
    then show ?thesis using r(1,2) by (intro exI[of _ M'] exI[of _ p]) (simp add: gives_def)
  next
    case False
    then obtain j m where "j \<in> insert 0 (heaps_listed k)" "heap_ok j M'" "unat (count * sz) \<le> m"
      "handed_out j M' = insert (p, m) (handed_out j M)" using r(2) by (auto simp: gives_def simp del: handed_out_iff)
    then show ?thesis using False r(1,3) by (intro exI[of _ M'] exI[of _ p]) (simp del: handed_out_iff, blast)
  qed
qed

lemma heap_new_listed: "only_heaps (snd heap_new)" "heaps_listed (snd heap_new) = {0}"
proof -
  have "ls_nodes (k_containers (snd heap_new)) RT_Object_Class_MemHeap = [OMemHeap 0]" by code_simp
  then show "only_heaps (snd heap_new)" "heaps_listed (snd heap_new) = {0}"
    by (simp_all add: only_heaps_def heaps_listed_def)
qed

theorem calloc_zeroes_witness:
  "\<exists>M' p. rt_calloc 10 4 (fst heap_new, snd heap_new) = Some ((M', snd heap_new), Return p) \<and>
     (p \<noteq> 0 \<longrightarrow> (\<forall>j < unat (10 * 4 :: rt_uint32). mi_byte M' (p + of_nat j) = 0))"
proof -
  have "\<forall>j \<in> insert 0 (heaps_listed (snd heap_new)). heap_serves j (fst heap_new, snd heap_new)"
    "unat (10 * 4 :: rt_uint32) + 3 < 2 ^ 32"
    using heap_new_facts(1) by (simp_all add: heap_new_listed(2))
  from calloc_zeroes[OF heap_new_listed(1) this] obtain M' p
    where r: "rt_calloc 10 4 (fst heap_new, snd heap_new) = Some ((M', snd heap_new), Return p)"
      "if p = 0 then M' = fst heap_new \<and> (\<forall>j \<in> insert 0 (heaps_listed (snd heap_new)). no_room j (fst heap_new) (10 * 4))
       else (\<forall>j < unat (10 * 4 :: rt_uint32). mi_byte M' (p + of_nat j) = 0) \<and>
         (\<exists>j \<in> insert 0 (heaps_listed (snd heap_new)). heap_ok j M' \<and> (\<exists>m \<ge> unat (10 * 4 :: rt_uint32).
            handed_out j M' = insert (p, m) (handed_out j (fst heap_new))))" by blast
  show ?thesis
    by (rule exI[of _ M'], rule exI[of _ p], rule conjI[OF r(1)]) (use r(2) in argo)
qed

section \<open>Memory pools\<close>

text \<open>Allocating from a pool without releasing hands out different blocks that were free, all
  of them and no more.\<close>

theorem pool_blocks_distinct:
  assumes "mp_ok i P"
  shows "(let bs = fst (alloc_run (mp_take i) (mp_give i) (\<lambda>b P. b \<in> mp_used i P) (replicate n Alloc) P) in
    distinct bs \<and> set bs \<inter> mp_used i P = {} \<and>
    length bs = min n (unat (mp_total_count (mp_pool P i)) - card (mp_used i P)))"
  using mp.allocs_distinct[OF assms, of n] by (simp only: Let_def)

text \<open>A pool of three blocks of eight bytes at 0x2000.\<close>

definition pool_new :: mempools where
  "pool_new = mp_link_blocks 0x2000 8 3 \<lparr>mp_pool = (\<lambda>_. \<lparr>mp_start = 0x2000, mp_size = 36, mp_block_size = 8,
     mp_block_list = Some 0x2000, mp_total_count = 3, mp_free_count = 3, mp_suspend_count = 0\<rparr>), mp_mem = (\<lambda>_. NextBlock None)\<rparr>"

lemma pool_new_rep: "mp_rep 0 pool_new (map (mp_addr 0x2000 8) [0..<unat (3 :: rt_uint32)])"
  unfolding pool_new_def by (rule mp_link_blocks_rep) simp_all

lemma pool_new_ok: "mp_ok 0 pool_new"
  unfolding mp_ok_def using pool_new_rep by blast

theorem pool_blocks_distinct_witness:
  "distinct (fst (alloc_run (mp_take 0) (mp_give 0) (\<lambda>b P. b \<in> mp_used 0 P) (replicate 5 Alloc) pool_new))"
  using pool_blocks_distinct[OF pool_new_ok, of 5] by (simp only: Let_def)

text \<open>A block that is freed while threads wait for one is linked back and the first of them is made
  ready to take it.\<close>

theorem pool_free_wakes:
  assumes "kinv k" "mp_rep i P fs" "b \<in> mp_used i P" "tlist_of k (mp_queue i) = t # ts"
    "mp_suspend_count (mp_pool P i) \<noteq> 0" "rt_current_thread k \<noteq> None" "rt_scheduler_lock_nest k = 0"
  shows "\<exists>P' k'. rt_mp_free (b + 4) (P, k) = Some (P', k') \<and> kinv k' \<and> mp_ok i P' \<and>
    mp_used i P' = mp_used i P - {b} \<and> mp_suspend_count (mp_pool P' i) = mp_suspend_count (mp_pool P i) - 1 \<and>
    tlist_of k' (mp_queue i) = ts \<and> thread_state (k_thread k' t) = RT_THREAD_READY \<and> highest_runs k'"
proof -
  obtain k' where k': "rt_mp_free (b + 4) (P, k)
      = Some (upd_mp i (\<lambda>m. m\<lparr>mp_suspend_count := mp_suspend_count m - 1\<rparr>) (mp_give i b P), k')"
    "kinv k'" "tlist_of k' (mp_queue i) = ts" "k_thread k' = (k_thread k)(t := readied ((k_thread k t)\<lparr>th_error := RT_EOK\<rparr>))"
    "rt_scheduler_lock_nest k = 0 \<Longrightarrow> highest_runs k'"
    by (rule mp_free_wake[OF assms(1-6)]) (rule that; assumption)
  let ?P = "mp_give i b P" and ?u = "upd_mp i (\<lambda>m. m\<lparr>mp_suspend_count := mp_suspend_count m - 1\<rparr>)"
  have "mp_ok i P" unfolding mp_ok_def using assms(2) by blast
  from mp.release[OF this assms(3)] have g: "mp_ok i ?P" "mp_used i ?P = mp_used i P - {b}" by blast+
  have "mp_next (?u ?P) = mp_next ?P" by (simp add: fun_eq_iff mp_next_def upd_mp_def)
  moreover have "mp_blocks (mp_pool (?u ?P) i) = mp_blocks (mp_pool ?P i)" by (rule mp_blocks_cong) (simp_all add: upd_mp_def)
  ultimately have "mp_ok i (?u ?P)" "mp_used i (?u ?P) = mp_used i ?P"
    using g(1) by (auto simp: mp_ok_def mp_rep_def mp_used_def Let_def upd_mp_def)
  moreover have "mp_suspend_count (mp_pool (?u ?P) i) = mp_suspend_count (mp_pool P i) - 1"
    by (simp add: upd_mp_def mp_give_def set_link_def)
  ultimately show ?thesis using k' g(2) assms(7) by (intro exI[of _ "?u ?P"] exI[of _ k']) simp
qed

text \<open>A thread whose wait for a block times out is still counted: the next
  \<^verbatim>\<open>rt_mp_free\<close> uses the head of the empty waiting list as a thread.\<close>

theorem pool_free_stale_count:
  assumes "b \<in> mp_used i P" "mp_suspend_count (mp_pool P i) \<noteq> 0" "tlist_of k (mp_queue i) = []"
  shows "rt_mp_free (b + 4) (P, k) = None"
  by (rule mp_free_stale[OF assms])

text \<open>A pool whose only block is in use.\<close>

definition pool_full :: mempools where
  "pool_full = \<lparr>mp_pool = (\<lambda>_. \<lparr>mp_start = 0x2000, mp_size = 12, mp_block_size = 8, mp_block_list = None,
     mp_total_count = 1, mp_free_count = 0, mp_suspend_count = 0\<rparr>), mp_mem = (\<lambda>_. Owner 0)\<rparr>"

lemma pool_full_rep: "mp_rep 0 (upd_mp 0 (\<lambda>m. m\<lparr>mp_suspend_count := n\<rparr>) pool_full) []"
  "0x2000 \<in> mp_used 0 (upd_mp 0 (\<lambda>m. m\<lparr>mp_suspend_count := n\<rparr>) pool_full)"
  by (simp_all add: mp_rep_def mp_used_def pool_full_def upd_mp_def mp_blocks_def mp_addr_def lessThan_Suc)

theorem pool_free_wakes_witness:
  "\<exists>P k P' k'. rt_mp_alloc 0 5 (pool_full, kernel_two) = Some ((P, k), MpWait 5 0) \<and>
     rt_mp_free (0x2000 + 4) (P, k) = Some (P', k') \<and> mp_used 0 P' = mp_used 0 P - {0x2000} \<and>
     thread_state (k_thread k' 2) = RT_THREAD_READY"
proof -
  let ?P = "upd_mp 0 (\<lambda>m. m\<lparr>mp_suspend_count := mp_suspend_count m + 1\<rparr>) pool_full"
  have P: "?P = upd_mp 0 (\<lambda>m. m\<lparr>mp_suspend_count := 1\<rparr>) pool_full" by (simp add: upd_mp_def pool_full_def)
  have n: "mp_free_count (mp_pool pool_full 0) = 0" "(5 :: int) \<noteq> 0" "(5 :: int) < 2 ^ 31 - 1" by (simp_all add: pool_full_def)
  obtain k where k: "mp_alloc_loop 0 5 0 (Some 2) (pool_full, kernel_two)
      = Some ((?P, k), MpWait 5 (if 0 < (5 :: int) then rt_tick kernel_two else 0))"
    "kinv k" "keeps kernel_two k" "tlist_of k (mp_queue 0) = 2 # tlist_of kernel_two (mp_queue 0)" "rt_current_thread k \<noteq> None"
    by (rule mp_alloc_wait[OF kinv_two can_block_two n, where before = 0]) (rule that; assumption)
  have t: "rt_tick kernel_two = 0" "rt_thread_self kernel_two = Some 2"
    by (simp_all add: rt_thread_self_def kernel_two_facts) (simp add: kernel_two_def)
  have a: "rt_mp_alloc 0 5 (pool_full, kernel_two) = Some ((?P, k), MpWait 5 0)"
    using k(1) t by (simp add: rt_mp_alloc_def)
  have "tlist_of k (mp_queue 0) = [2]" using k(4) by (simp add: kernel_two_facts)
  moreover have "mp_suspend_count (mp_pool ?P 0) \<noteq> 0" by (simp add: P) (simp add: upd_mp_def)
  moreover have "rt_scheduler_lock_nest k = 0" using k(3) by (simp add: keeps_def kernel_two_facts)
  ultimately obtain P' k' where "rt_mp_free (0x2000 + 4) (?P, k) = Some (P', k')" "mp_used 0 P' = mp_used 0 ?P - {0x2000}"
    "thread_state (k_thread k' 2) = RT_THREAD_READY"
    using pool_free_wakes[OF k(2) pool_full_rep(1)[of 1, folded P] pool_full_rep(2)[of 1, folded P] _ _ k(5)] by blast
  then show ?thesis using a by blast
qed

theorem pool_free_stale_count_witness:
  "rt_mp_free (0x2000 + 4) (upd_mp 0 (\<lambda>m. m\<lparr>mp_suspend_count := 1\<rparr>) pool_full, kernel_two) = None"
  by (rule pool_free_stale_count[OF pool_full_rep(2)]) (simp_all add: upd_mp_def kernel_two_facts)

end
