(* ===== verification/Rtt_Block_Fifo.thy ===== *)
theory Rtt_Block_Fifo
  imports Rtt_Fifo
begin

text \<open>
  The contract of a buffer that is written and read in blocks: a write takes as much of the block
  as there is room for and says how much, a read takes as much as there is, both for blocks of up
  to \<open>lim\<close> elements. Such a buffer, used one element at a time, is a FIFO. Last, the pairs of copies with which
  such buffers write and read around the end of a cyclic array.
\<close>

text \<open>A sequence of calls and what they return, and when the calls of one machine give the
  results of another.\<close>

fun run_calls :: "('c \<Rightarrow> 's \<Rightarrow> 's \<times> 'r) \<Rightarrow> 'c list \<Rightarrow> 's \<Rightarrow> 'r list \<times> 's" where
  "run_calls step [] s = ([], s)"
| "run_calls step (c # cs) s = (let (s, r) = step c s; (rs, s) = run_calls step cs s in (r # rs, s))"

lemma run_calls_refines:
  fixes I :: "'s \<Rightarrow> bool" and f :: "'s \<Rightarrow> 'a"
  assumes step: "\<And>c s. I s \<Longrightarrow> ok c \<Longrightarrow> I (fst (step c s)) \<and> ref c (f s) = map_prod f id (step c s)"
    and "I s" "\<forall>c \<in> set cs. ok c"
  shows "I (snd (run_calls step cs s)) \<and> run_calls ref cs (f s) = map_prod id f (run_calls step cs s)"
  using assms(2,3)
proof (induction cs arbitrary: s)
  case (Cons c cs)
  obtain s1 r where c: "step c s = (s1, r)" by fastforce
  then have "I s1" "ref c (f s) = (f s1, r)" using step[of s c] Cons.prems by auto
  then show ?case using Cons.IH[of s1] Cons.prems(2) c by (auto simp: map_prod_def split: prod.splits)
qed simp

text \<open>Blocks in and out, and the bounded queue of \<open>n\<close> elements they are meant for.\<close>

datatype 'a block_op = Write "'a list" | Read nat

datatype 'a block_result = Written nat | Bytes "'a list"

fun block_step ::
  "('a list \<Rightarrow> 's \<Rightarrow> 's \<times> nat) \<Rightarrow> (nat \<Rightarrow> 's \<Rightarrow> 's \<times> 'a list) \<Rightarrow> 'a block_op \<Rightarrow> 's \<Rightarrow> 's \<times> 'a block_result" where
  "block_step puts gets (Write xs) s = map_prod id Written (puts xs s)"
| "block_step puts gets (Read k) s = map_prod id Bytes (gets k s)"

fun queue_block :: "nat \<Rightarrow> 'a block_op \<Rightarrow> 'a list \<Rightarrow> 'a list \<times> 'a block_result" where
  "queue_block n (Write xs) q = (let k = min (length xs) (n - length q) in (q @ take k xs, Written k))"
| "queue_block n (Read k) q = (drop k q, Bytes (take k q))"

fun block_len :: "'a block_op \<Rightarrow> nat" where
  "block_len (Write xs) = length xs"
| "block_len (Read k) = k"

locale block_fifo =
  fixes inv :: "'s \<Rightarrow> bool" and cap :: "'s \<Rightarrow> nat" and contents :: "'s \<Rightarrow> 'a list"
    and puts :: "'a list \<Rightarrow> 's \<Rightarrow> 's \<times> nat" and gets :: "nat \<Rightarrow> 's \<Rightarrow> 's \<times> 'a list" and lim :: nat
  assumes bound: "inv s \<Longrightarrow> length (contents s) \<le> cap s"
    and lim: "0 < lim"
    and puts: "inv s \<Longrightarrow> length xs \<le> lim \<Longrightarrow> \<exists>s'. puts xs s = (s', min (length xs) (cap s - length (contents s))) \<and>
       inv s' \<and> cap s' = cap s \<and> contents s' = contents s @ take (cap s - length (contents s)) xs"
    and gets: "inv s \<Longrightarrow> k \<le> lim \<Longrightarrow> \<exists>s'. gets k s = (s', take k (contents s)) \<and>
       inv s' \<and> cap s' = cap s \<and> contents s' = drop k (contents s)"
begin

text \<open>Whatever the order and the sizes of the blocks, every call returns what it returns on the
  queue.\<close>

theorem block_refines:
  assumes "inv s" "\<forall>b \<in> set ops. block_len b \<le> lim"
  shows "inv (snd (run_calls (block_step puts gets) ops s)) \<and> cap (snd (run_calls (block_step puts gets) ops s)) = cap s \<and>
    run_calls (queue_block (cap s)) ops (contents s) = map_prod id contents (run_calls (block_step puts gets) ops s)"
proof -
  have "(inv (snd (run_calls (block_step puts gets) ops s)) \<and> cap (snd (run_calls (block_step puts gets) ops s)) = cap s) \<and>
    run_calls (queue_block (cap s)) ops (contents s) = map_prod id contents (run_calls (block_step puts gets) ops s)"
  proof (rule run_calls_refines[where I = "\<lambda>t. inv t \<and> cap t = cap s" and ok = "\<lambda>b :: 'a block_op. block_len b \<le> lim"])
    fix b :: "'a block_op" and t assume t: "inv t \<and> cap t = cap s" and l: "block_len b \<le> lim"
    show "(inv (fst (block_step puts gets b t)) \<and> cap (fst (block_step puts gets b t)) = cap s) \<and>
        queue_block (cap s) b (contents t) = map_prod contents id (block_step puts gets b t)"
    proof (cases b)
      case (Write xs)
      have "length xs \<le> lim" using l Write by simp
      from puts[OF _ this, of t] t show ?thesis by (auto simp: Write min_def Let_def)
    next
      case (Read k)
      have "k \<le> lim" using l Read by simp
      from gets[OF _ this, of t] t show ?thesis by (auto simp: Read)
    qed
  qed (use assms in auto)
  then show ?thesis by blast
qed

text \<open>A block that fits comes out as it went in.\<close>

theorem block_roundtrip:
  assumes "inv s" "contents s = []" "length xs \<le> cap s" "length xs \<le> lim"
  shows "\<exists>s1 s2. puts xs s = (s1, length xs) \<and> gets (length xs) s1 = (s2, xs) \<and> inv s2 \<and> contents s2 = []"
proof -
  from puts[OF assms(1,4)] obtain s1 where s1: "puts xs s = (s1, length xs)" "inv s1" "contents s1 = xs"
    using assms(2,3) by auto
  from gets[OF s1(2) assms(4)] show ?thesis using s1 by auto
qed

end

text \<open>One element at a time.\<close>

definition put_one :: "('a list \<Rightarrow> 's \<Rightarrow> 's \<times> nat) \<Rightarrow> 'a \<Rightarrow> 's \<Rightarrow> 's \<times> bool" where
  "put_one puts x s = (case puts [x] s of (s, k) \<Rightarrow> (s, k \<noteq> 0))"

definition get_one :: "(nat \<Rightarrow> 's \<Rightarrow> 's \<times> 'a list) \<Rightarrow> 's \<Rightarrow> 's \<times> 'a option" where
  "get_one gets s = (case gets 1 s of (s, xs) \<Rightarrow> (s, case xs of [] \<Rightarrow> None | x # _ \<Rightarrow> Some x))"

sublocale block_fifo \<subseteq> single: fifo inv cap contents "put_one puts" "get_one gets"
proof
  fix s :: 's and x :: 'a and xs :: "'a list"
  assume i: "inv s"
  show "length (contents s) \<le> cap s" by (rule bound[OF i])
  have l: "length [x] \<le> lim" "1 \<le> lim" using lim by auto
  show "\<exists>s'. put_one puts x s = (s', True) \<and> inv s' \<and> cap s' = cap s \<and> contents s' = contents s @ [x]"
    if "length (contents s) < cap s"
    using puts[OF i l(1)] that by (auto simp: put_one_def take_Cons')
  show "\<exists>s'. put_one puts x s = (s', False) \<and> inv s' \<and> cap s' = cap s \<and> contents s' = contents s"
    if "length (contents s) = cap s"
    using puts[OF i l(1)] that by (auto simp: put_one_def)
  show "\<exists>s'. get_one gets s = (s', Some x) \<and> inv s' \<and> cap s' = cap s \<and> contents s' = xs" if "contents s = x # xs"
    using gets[OF i l(2)] that by (auto simp: get_one_def)
  show "\<exists>s'. get_one gets s = (s', None) \<and> inv s' \<and> cap s' = cap s \<and> contents s' = []" if "contents s = []"
    using gets[OF i l(2)] that by (auto simp: get_one_def)
qed

section \<open>Two copies\<close>

text \<open>A block copied in two pieces, around the end of a cyclic array.\<close>

lemma put_copies:
  assumes "w < n" "k \<le> length src"
  shows "blit 0 (take (k - min k (n - w)) (drop (min k (n - w)) src)) (blit w (take (min k (n - w)) src) pool)
    = cyc_write n w (take k src) pool"
  using assms by (auto simp: cyc_write_def min_def drop_take)

lemma get_copies:
  assumes "r < n" "k \<le> n" "n \<le> length pool"
  shows "take (min k (n - r)) (drop r pool) @ take (k - min k (n - r)) pool = cyc_list n r k pool"
proof (cases "k \<le> n - r")
  case True
  then have "take k (drop r pool) = cyc_list n r k pool"
    using assms by (intro nth_equalityI) (auto simp: cyc_def)
  then show ?thesis using True by (simp add: min_def)
next
  case False
  then have "take (n - r) (drop r pool) @ take (k - (n - r)) pool = cyc_list n r k pool"
    using assms by (intro nth_equalityI) (auto simp: cyc_def nth_append add.commute)
  then show ?thesis using False by (simp add: min_def)
qed

end
