(* ===== verification/Rtt_Ringbuffer.thy ===== *)
theory Rtt_Ringbuffer
  imports Rtt_Block_Fifo Rtt_Align
begin

text \<open>
  The ring buffer of \<^verbatim>\<open>rt-thread/components/drivers/src/ringbuffer.c\<close>: two 15-bit
  indices with one mirror bit each tell an empty buffer from a full one. \<open>buffer_ptr\<close>
  is the memory the buffer points to; \<open>ptr\<close> arguments are the bytes at the caller's
  pointer. Shown: the operations are those of a bounded FIFO, for blocks and for single
  characters, also when a forced write drops the oldest data; one case of
  \<^verbatim>\<open>rt_ringbuffer_put_force\<close> drops everything.
\<close>

section \<open>Model\<close>

record rt_ringbuffer =
  buffer_ptr :: "rt_uint8 list"
  read_mirror :: "1 word"
  read_index :: "15 word"
  write_mirror :: "1 word"
  write_index :: "15 word"
  buffer_size :: "16 word"

datatype rt_ringbuffer_state = RT_RINGBUFFER_EMPTY | RT_RINGBUFFER_FULL | RT_RINGBUFFER_HALFFULL

definition rt_ringbuffer_status :: "rt_ringbuffer \<Rightarrow> rt_ringbuffer_state" where
  "rt_ringbuffer_status rb =
     (if read_index rb = write_index rb then
        (if read_mirror rb = write_mirror rb then RT_RINGBUFFER_EMPTY else RT_RINGBUFFER_FULL)
      else RT_RINGBUFFER_HALFFULL)"

definition rt_ringbuffer_init :: "rt_uint8 list \<Rightarrow> 16 word \<Rightarrow> rt_ringbuffer option" where
  "rt_ringbuffer_init pool sz = do {
     RT_ASSERT (0 < sint sz);
     Some \<lparr>buffer_ptr = pool, read_mirror = 0, read_index = 0, write_mirror = 0, write_index = 0,
       buffer_size = RT_ALIGN_DOWN sz 4\<rparr>
   }"

definition rt_ringbuffer_data_len :: "rt_ringbuffer \<Rightarrow> rt_uint32" where
  "rt_ringbuffer_data_len rb = (case rt_ringbuffer_status rb of
     RT_RINGBUFFER_EMPTY \<Rightarrow> 0
   | RT_RINGBUFFER_FULL \<Rightarrow> of_int (sint (buffer_size rb))
   | RT_RINGBUFFER_HALFFULL \<Rightarrow>
       (if read_index rb < write_index rb then of_int (uint (write_index rb) - uint (read_index rb))
        else of_int (sint (buffer_size rb) - (uint (read_index rb) - uint (write_index rb)))))"

definition rt_ringbuffer_space_len :: "rt_ringbuffer \<Rightarrow> rt_uint32" where
  "rt_ringbuffer_space_len rb = of_int (sint (buffer_size rb)) - rt_ringbuffer_data_len rb"

definition rt_ringbuffer_get_size :: "rt_ringbuffer \<Rightarrow> rt_uint16" where
  "rt_ringbuffer_get_size rb = buffer_size rb"

text \<open>The block copies of the two put functions: up to the end of the buffer, or around it.
  Third component: whether the write index wrapped.\<close>

definition rb_store :: "rt_uint8 list \<Rightarrow> rt_uint16 \<Rightarrow> rt_ringbuffer \<Rightarrow> rt_ringbuffer \<times> bool" where
  "rb_store ptr len rb =
     (let rest = sint (buffer_size rb) - uint (write_index rb) in
      if uint len < rest then
        (rb\<lparr>buffer_ptr := blit (unat (write_index rb)) (take (unat len) ptr) (buffer_ptr rb),
            write_index := write_index rb + ucast len\<rparr>, False)
      else
        (rb\<lparr>buffer_ptr := blit 0 (take (nat (uint len - rest)) (drop (nat rest) ptr))
              (blit (unat (write_index rb)) (take (nat rest) ptr) (buffer_ptr rb)),
            write_mirror := NOT (write_mirror rb),
            write_index := of_int (uint len - rest)\<rparr>, True))"

definition rt_ringbuffer_put ::
  "rt_uint8 list \<Rightarrow> rt_uint16 \<Rightarrow> rt_ringbuffer \<Rightarrow> rt_ringbuffer \<times> rt_uint32" where
  "rt_ringbuffer_put ptr len rb =
     (let sz = ucast (rt_ringbuffer_space_len rb) :: rt_uint16 in
      if sz = 0 then (rb, 0)
      else (let len = (if sz < len then sz else len)
            in (fst (rb_store ptr len rb), ucast len)))"

definition rt_ringbuffer_put_force ::
  "rt_uint8 list \<Rightarrow> rt_uint16 \<Rightarrow> rt_ringbuffer \<Rightarrow> rt_ringbuffer \<times> rt_uint32" where
  "rt_ringbuffer_put_force ptr len rb =
     (let space_length = ucast (rt_ringbuffer_space_len rb) :: rt_uint16;
          (ptr, len) = (if sint (buffer_size rb) < uint len
            then (drop (nat (uint len - sint (buffer_size rb))) ptr, buffer_size rb) else (ptr, len));
          (rb, wrapped) = rb_store ptr len rb
      in (if space_length < len
          then (if wrapped then rb\<lparr>read_mirror := NOT (read_mirror rb), read_index := write_index rb\<rparr>
                else rb\<lparr>read_index := write_index rb\<rparr>)
          else rb, ucast len))"

text \<open>Second component: the bytes written to \<^verbatim>\<open>ptr\<close>; the code returns their number.\<close>

definition rt_ringbuffer_get :: "rt_uint16 \<Rightarrow> rt_ringbuffer \<Rightarrow> rt_ringbuffer \<times> rt_uint8 list" where
  "rt_ringbuffer_get len rb =
     (let sz = rt_ringbuffer_data_len rb in
      if sz = 0 then (rb, [])
      else
        (let len = (if sz < ucast len then ucast sz else len);
             rest = sint (buffer_size rb) - uint (read_index rb) in
         if uint len < rest then
           (rb\<lparr>read_index := read_index rb + ucast len\<rparr>,
            take (unat len) (drop (unat (read_index rb)) (buffer_ptr rb)))
         else
           (rb\<lparr>read_mirror := NOT (read_mirror rb), read_index := of_int (uint len - rest)\<rparr>,
            take (nat rest) (drop (unat (read_index rb)) (buffer_ptr rb)) @
            take (nat (uint len - rest)) (buffer_ptr rb))))"

definition rt_ringbuffer_putchar :: "rt_uint8 \<Rightarrow> rt_ringbuffer \<Rightarrow> rt_ringbuffer \<times> rt_uint32" where
  "rt_ringbuffer_putchar ch rb =
     (if rt_ringbuffer_space_len rb = 0 then (rb, 0)
      else
        (let rb = rb\<lparr>buffer_ptr := (buffer_ptr rb)[unat (write_index rb) := ch]\<rparr> in
         (if uint (write_index rb) = sint (buffer_size rb) - 1
          then rb\<lparr>write_mirror := NOT (write_mirror rb), write_index := 0\<rparr>
          else rb\<lparr>write_index := write_index rb + 1\<rparr>, 1)))"

definition rt_ringbuffer_putchar_force :: "rt_uint8 \<Rightarrow> rt_ringbuffer \<Rightarrow> rt_ringbuffer \<times> rt_uint32" where
  "rt_ringbuffer_putchar_force ch rb =
     (let old_state = rt_ringbuffer_status rb;
          rb = rb\<lparr>buffer_ptr := (buffer_ptr rb)[unat (write_index rb) := ch]\<rparr> in
      (if uint (write_index rb) = sint (buffer_size rb) - 1
       then (let rb = rb\<lparr>write_mirror := NOT (write_mirror rb), write_index := 0\<rparr> in
             if old_state = RT_RINGBUFFER_FULL
             then rb\<lparr>read_mirror := NOT (read_mirror rb), read_index := write_index rb\<rparr> else rb)
       else (let rb = rb\<lparr>write_index := write_index rb + 1\<rparr> in
             if old_state = RT_RINGBUFFER_FULL then rb\<lparr>read_index := write_index rb\<rparr> else rb), 1))"

definition rt_ringbuffer_getchar :: "rt_ringbuffer \<Rightarrow> rt_ringbuffer \<times> rt_uint8 option" where
  "rt_ringbuffer_getchar rb =
     (if rt_ringbuffer_data_len rb = 0 then (rb, None)
      else
        (if uint (read_index rb) = sint (buffer_size rb) - 1
         then rb\<lparr>read_mirror := NOT (read_mirror rb), read_index := 0\<rparr>
         else rb\<lparr>read_index := read_index rb + 1\<rparr>,
         Some (buffer_ptr rb ! unat (read_index rb))))"

definition rt_ringbuffer_reset :: "rt_ringbuffer \<Rightarrow> rt_ringbuffer" where
  "rt_ringbuffer_reset rb =
     rb\<lparr>read_mirror := 0, read_index := 0, write_mirror := 0, write_index := 0\<rparr>"

text \<open>\<^verbatim>\<open>rt_ringbuffer_create\<close>, when both allocations succeed: \<open>heap n\<close> is
  the block the heap gives for \<open>n\<close> bytes.\<close>

definition rt_ringbuffer_create :: "(rt_uint16 \<Rightarrow> rt_uint8 list) \<Rightarrow> rt_uint16 \<Rightarrow> rt_ringbuffer option" where
  "rt_ringbuffer_create heap sz = do {
     RT_ASSERT (0 < sz);
     let sz = RT_ALIGN_DOWN sz 4;
     rt_ringbuffer_init (heap sz) sz
   }"

lemmas ringbuffer_defs = rt_ringbuffer_status_def rt_ringbuffer_init_def rt_ringbuffer_data_len_def
  rt_ringbuffer_space_len_def rb_store_def rt_ringbuffer_put_def rt_ringbuffer_put_force_def
  rt_ringbuffer_get_def rt_ringbuffer_putchar_def rt_ringbuffer_putchar_force_def
  rt_ringbuffer_getchar_def rt_ringbuffer_reset_def rt_ringbuffer_create_def

declare ringbuffer_defs [op_defs]


section \<open>The buffer as a queue\<close>

definition rb_n :: "rt_ringbuffer \<Rightarrow> nat" where
  "rb_n rb = nat (sint (buffer_size rb))"

definition rb_count :: "rt_ringbuffer \<Rightarrow> nat" where
  "rb_count rb = unat (rt_ringbuffer_data_len rb)"

definition rb_contents :: "rt_ringbuffer \<Rightarrow> rt_uint8 list" where
  "rb_contents rb = cyc_list (rb_n rb) (unat (read_index rb)) (rb_count rb) (buffer_ptr rb)"

text \<open>The indices are inside the buffer, and the mirror bits agree exactly when the writer has
  not gone around once more than the reader.\<close>

definition rb_inv :: "rt_ringbuffer \<Rightarrow> bool" where
  "rb_inv rb \<longleftrightarrow> 0 < rb_n rb \<and> rb_n rb \<le> length (buffer_ptr rb) \<and>
     unat (read_index rb) < rb_n rb \<and> unat (write_index rb) < rb_n rb \<and>
     (read_index rb < write_index rb \<longrightarrow> read_mirror rb = write_mirror rb) \<and>
     (write_index rb < read_index rb \<longrightarrow> read_mirror rb \<noteq> write_mirror rb)"

lemma mirror_flip [simp]: "(NOT (m :: 1 word) = m') \<longleftrightarrow> m \<noteq> m'" "(m' = NOT (m :: 1 word)) \<longleftrightarrow> m \<noteq> m'"
proof -
  have "m = 0 \<or> m = 1" for m :: "1 word"
  proof -
    have "unat m < 2" using unsigned_less[of m] by simp
    then have "unat m = 0 \<or> unat m = 1" by linarith
    then show ?thesis using word_eq_of_unat[of m 0] word_eq_of_unat[of m 1] by auto
  qed
  then have "m = 0 \<or> m = 1" "m' = 0 \<or> m' = 1" by blast+
  then show "(NOT m = m') \<longleftrightarrow> m \<noteq> m'" "(m' = NOT m) \<longleftrightarrow> m \<noteq> m'" by auto
qed

text \<open>What the fields are as numbers.\<close>

lemma rb_size:
  assumes "rb_inv rb"
  shows "sint (buffer_size rb) = int (rb_n rb)" "rb_n rb \<le> 32767" "0 < rb_n rb" "rb_n rb \<le> length (buffer_ptr rb)"
    "unat (read_index rb) < rb_n rb" "unat (write_index rb) < rb_n rb"
proof -
  have "sint (buffer_size rb) < 2 ^ 15" using sint_lt[of "buffer_size rb"] by simp
  then show "sint (buffer_size rb) = int (rb_n rb)" "rb_n rb \<le> 32767"
    using assms by (auto simp: rb_inv_def rb_n_def)
qed (use assms in \<open>auto simp: rb_inv_def\<close>)

lemma unat_ucast_16_32: "unat (ucast (x :: rt_uint16) :: rt_uint32) = unat x"
  using unsigned_less[of x, where 'a = nat] by (simp add: unsigned_ucast_eq take_bit_nat_eq_self)

lemma unat_of_int32: "x = int m \<Longrightarrow> m < 2 ^ 32 \<Longrightarrow> unat (of_int x :: 32 word) = m"
  by (simp add: unat_of_nat)

lemma rb_count:
  assumes "rb_inv rb"
  defines "r \<equiv> unat (read_index rb)" and "w \<equiv> unat (write_index rb)" and "n \<equiv> rb_n rb"
  shows "rb_count rb = (if r < w then w - r else if w < r then n - (r - w)
           else if read_mirror rb = write_mirror rb then 0 else n)"
    "rb_count rb \<le> n" "cyc n r (rb_count rb) = w"
proof -
  note s = rb_size[OF assms(1)]
  have u: "uint (read_index rb) = int r" "uint (write_index rb) = int w" by (simp_all add: r_def w_def)
  have rw: "r < n" "w < n" "n \<le> 32767" using s by (simp_all add: r_def w_def n_def)
  have lt: "read_index rb < write_index rb \<longleftrightarrow> r < w" "read_index rb = write_index rb \<longleftrightarrow> r = w"
    by (simp_all add: r_def w_def word_less_nat_alt word_unat_eq_iff)
  show c: "rb_count rb = (if r < w then w - r else if w < r then n - (r - w)
           else if read_mirror rb = write_mirror rb then 0 else n)"
  proof -
    have "unat (of_int (int w - int r) :: 32 word) = w - r" if "r < w"
      by (rule unat_of_int32) (use rw that in auto)
    moreover have "unat (of_int (int n - (int r - int w)) :: 32 word) = n - (r - w)" if "w < r"
      by (rule unat_of_int32) (use rw that in auto)
    moreover have "unat (of_int (int n) :: 32 word) = n"
      by (rule unat_of_int32) (use rw in auto)
    ultimately show ?thesis
      unfolding rb_count_def rt_ringbuffer_data_len_def rt_ringbuffer_status_def lt u s(1) n_def[symmetric]
      by (simp del: of_int_diff of_int_of_nat_eq)
  qed
  show "rb_count rb \<le> n" "cyc n r (rb_count rb) = w"
    unfolding c using rw by (auto simp: cyc_def)
qed

lemma rb_space:
  assumes "rb_inv rb"
  shows "unat (rt_ringbuffer_space_len rb) = rb_n rb - rb_count rb"
    "unat (ucast (rt_ringbuffer_space_len rb) :: rt_uint16) = rb_n rb - rb_count rb"
proof -
  note s = rb_size[OF assms(1)] and c = rb_count(2)[OF assms]
  have d: "rt_ringbuffer_data_len rb = of_nat (rb_count rb)" by (simp add: rb_count_def)
  have "rt_ringbuffer_space_len rb = of_nat (rb_n rb) - of_nat (rb_count rb)"
    unfolding rt_ringbuffer_space_len_def s(1) d by simp
  then have e: "rt_ringbuffer_space_len rb = of_nat (rb_n rb - rb_count rb)"
    using c by (simp add: of_nat_diff)
  show "unat (rt_ringbuffer_space_len rb) = rb_n rb - rb_count rb"
    "unat (ucast (rt_ringbuffer_space_len rb) :: rt_uint16) = rb_n rb - rb_count rb"
    unfolding e using s(2) by (simp_all add: unat_of_nat unsigned_ucast_eq take_bit_nat_eq_self)
qed

text \<open>The invariant in terms of the number of bytes: the mirrors agree exactly when the data does
  not go around the end.\<close>

lemma rb_mirror:
  assumes "rb_inv rb"
  shows "read_mirror rb = write_mirror rb \<longleftrightarrow> unat (read_index rb) + rb_count rb < rb_n rb"
proof -
  note s = rb_size[OF assms] and c = rb_count(1)[OF assms]
  have "unat (read_index rb) < unat (write_index rb) \<Longrightarrow> read_mirror rb = write_mirror rb"
    "unat (write_index rb) < unat (read_index rb) \<Longrightarrow> read_mirror rb \<noteq> write_mirror rb"
    using assms by (auto simp: rb_inv_def word_less_nat_alt)
  then show ?thesis unfolding c using s(5,6) by auto
qed

lemma rb_invI:
  assumes n: "0 < rb_n rb" "rb_n rb \<le> length (buffer_ptr rb)" "unat (read_index rb) < rb_n rb"
    and c: "c \<le> rb_n rb" "unat (write_index rb) = cyc (rb_n rb) (unat (read_index rb)) c"
    and m: "read_mirror rb = write_mirror rb \<longleftrightarrow> unat (read_index rb) + c < rb_n rb"
  shows "rb_inv rb" "rb_count rb = c"
proof -
  have w: "unat (write_index rb) < rb_n rb" unfolding c(2) by (rule cyc_less[OF n(3) c(1)])
  show inv: "rb_inv rb"
    unfolding rb_inv_def word_less_nat_alt using n c w m by (auto simp: cyc_def split: if_splits)
  show "rb_count rb = c"
    unfolding rb_count(1)[OF inv] using n c w m by (auto simp: cyc_def split: if_splits)
qed

lemma rb_store_spec:
  assumes inv: "rb_inv rb" and len: "unat len \<le> length ptr" "unat len \<le> rb_n rb"
  defines "src \<equiv> take (unat len) ptr" and "n \<equiv> rb_n rb" and "w \<equiv> unat (write_index rb)"
  obtains wi where "rb_store ptr len rb = (rb\<lparr>buffer_ptr := cyc_write n w src (buffer_ptr rb),
      write_mirror := (if w + unat len < n then write_mirror rb else NOT (write_mirror rb)),
      write_index := wi\<rparr>, n \<le> w + unat len)" "unat wi = cyc n w (unat len)"
proof -
  note s = rb_size[OF inv]
  have w: "w < n" "n \<le> 32767" "int n = sint (buffer_size rb)" "uint (write_index rb) = int w"
    using s by (simp_all add: w_def n_def)
  have src: "length src = unat len" using len(1) by (simp add: src_def)
  have lenn: "unat len \<le> n" using len(2) by (simp add: n_def)
  show ?thesis
  proof (cases "w + unat len < n")
    case True
    have "int (unat len) < int n - int w" using True by linarith
    then have lt: "uint len < int n - uint (write_index rb)" by (simp add: w(4))
    have "rb_store ptr len rb = (rb\<lparr>buffer_ptr := cyc_write n w src (buffer_ptr rb),
      write_index := write_index rb + ucast len\<rparr>, False)"
      using True src w lt by (simp add: rb_store_def Let_def w(3)[symmetric] cyc_write_def src_def w_def)
    moreover have "unat (write_index rb + ucast len) = cyc n w (unat len)"
    proof -
      have l: "unat (ucast len :: 15 word) = unat len"
        using True w by (simp add: unsigned_ucast_eq take_bit_nat_eq_self)
      show ?thesis
        using True w by (simp add: unat_word_ariths l w_def[symmetric] cyc_def)
    qed
    ultimately show ?thesis using that True by simp
  next
    case False
    have rest: "int n - int w = int (n - w)" using w by simp
    have l: "uint len - int (n - w) = int (unat len + w - n)" using False w by simp
    have "\<not> int (unat len) < int (n - w)" using False by linarith
    then have nlt: "\<not> uint len < int (n - w)" by simp
    have "rb_store ptr len rb = (rb\<lparr>buffer_ptr := cyc_write n w src (buffer_ptr rb),
      write_mirror := NOT (write_mirror rb), write_index := of_int (int (unat len + w - n))\<rparr>, True)"
      using False src w len nlt
      by (simp add: rb_store_def Let_def w(3)[symmetric] w(4) rest l cyc_write_def src_def w_def[symmetric] drop_take
          min_def nat_diff_distrib del: of_int_of_nat_eq of_nat_diff)
    moreover have "unat (of_int (int (unat len + w - n)) :: 15 word) = cyc n w (unat len)"
      using False w lenn by (simp add: cyc_def unat_of_nat del: of_nat_diff)
    ultimately show ?thesis using that False by simp
  qed
qed

section \<open>The operations\<close>

lemma rb_n_simps [simp]:
  "rb_n (rb\<lparr>buffer_ptr := a\<rparr>) = rb_n rb" "rb_n (rb\<lparr>read_mirror := m\<rparr>) = rb_n rb"
  "rb_n (rb\<lparr>read_index := i\<rparr>) = rb_n rb" "rb_n (rb\<lparr>write_mirror := m\<rparr>) = rb_n rb"
  "rb_n (rb\<lparr>write_index := i\<rparr>) = rb_n rb"
  by (simp_all add: rb_n_def)

text \<open>Writing a block that fits.\<close>

lemma rb_store_fits:
  assumes inv: "rb_inv rb" and len: "unat len \<le> length ptr" "rb_count rb + unat len \<le> rb_n rb"
  defines "rb' \<equiv> fst (rb_store ptr len rb)"
  shows "rb_inv rb'" "rb_n rb' = rb_n rb" "rb_contents rb' = rb_contents rb @ take (unat len) ptr"
proof -
  let ?n = "rb_n rb" and ?r = "unat (read_index rb)" and ?w = "unat (write_index rb)" and ?c = "rb_count rb"
  note s = rb_size[OF inv] and c = rb_count[OF inv] and m = rb_mirror[OF inv]
  have len': "unat len \<le> ?n" using len(2) by simp
  obtain wi where wi: "rb_store ptr len rb = (rb\<lparr>buffer_ptr := cyc_write ?n ?w (take (unat len) ptr) (buffer_ptr rb),
      write_mirror := (if ?w + unat len < ?n then write_mirror rb else NOT (write_mirror rb)),
      write_index := wi\<rparr>, ?n \<le> ?w + unat len)" "unat wi = cyc ?n ?w (unat len)"
    by (rule rb_store_spec[OF inv len(1) len'])
  have src: "length (take (unat len) ptr) = unat len" using len(1) by simp
  have "cyc ?n ?w (unat len) = cyc ?n ?r (?c + unat len)"
    unfolding c(3)[symmetric] using s(5) len(2) by (rule cyc_cyc)
  moreover have "?w + unat len < ?n \<longleftrightarrow> (if ?r + ?c < ?n then ?r + (?c + unat len) < ?n else True)"
    unfolding c(3)[symmetric] using s(5) len(2) by (auto simp: cyc_def)
  ultimately have "rb_inv rb' \<and> rb_count rb' = ?c + unat len"
    unfolding rb'_def wi(1) fst_conv using s len len' src m wi(2)
    by (intro conjI rb_invI) auto
  moreover have "buffer_ptr rb' = cyc_write ?n (cyc ?n ?r ?c) (take (unat len) ptr) (buffer_ptr rb)"
    by (simp add: rb'_def wi(1) c(3))
  moreover have f: "rb_n rb' = ?n" "read_index rb' = read_index rb" by (simp_all add: rb'_def wi(1))
  ultimately show "rb_inv rb'" "rb_n rb' = rb_n rb" "rb_contents rb' = rb_contents rb @ take (unat len) ptr"
    using cyc_list_write[of ?r ?n ?c "take (unat len) ptr" "buffer_ptr rb"] s len src
    by (simp_all add: rb_contents_def)
qed

text \<open>\<open>rt_ringbuffer_put\<close> stores as much of the block as there is room for.\<close>

lemma put_spec:
  assumes inv: "rb_inv rb" and len: "unat len \<le> length ptr"
  defines "k \<equiv> min (unat len) (rb_n rb - length (rb_contents rb))"
  shows "\<exists>rb'. rt_ringbuffer_put ptr len rb = (rb', of_nat k) \<and> rb_inv rb' \<and> rb_n rb' = rb_n rb \<and>
    rb_contents rb' = rb_contents rb @ take k ptr"
proof -
  note sp = rb_space(2)[OF inv] and c = rb_count(2)[OF inv]
  have k: "k = min (unat len) (rb_n rb - rb_count rb)" by (simp add: k_def rb_contents_def)
  show ?thesis
  proof (cases "rb_n rb = rb_count rb")
    case True
    then have "(ucast (rt_ringbuffer_space_len rb) :: rt_uint16) = 0" using sp by (simp add: unat_eq_zero)
    then show ?thesis using inv k True by (simp add: rt_ringbuffer_put_def)
  next
    case False
    let ?sz = "ucast (rt_ringbuffer_space_len rb) :: rt_uint16"
    let ?len = "if ?sz < len then ?sz else len"
    have l: "unat ?len = k" using sp by (auto simp: k word_less_nat_alt)
    have nz: "?sz \<noteq> 0" using sp False c by (auto simp: unat_eq_zero[symmetric] simp del: unat_eq_zero)
    have "unat ?len \<le> length ptr" "rb_count rb + unat ?len \<le> rb_n rb"
      unfolding l using len c by (simp_all add: k)
    note w = rb_store_fits[OF inv this]
    have "(ucast ?len :: rt_uint32) = of_nat k" unfolding l[symmetric] by simp
    then have "rt_ringbuffer_put ptr len rb = (fst (rb_store ptr ?len rb), of_nat k)"
      using nz by (simp add: rt_ringbuffer_put_def Let_def)
    then show ?thesis using w l by auto
  qed
qed

text \<open>Reading a block.\<close>

lemma get_spec:
  assumes inv: "rb_inv rb"
  shows "\<exists>rb'. rt_ringbuffer_get len rb = (rb', take (unat len) (rb_contents rb)) \<and> rb_inv rb' \<and>
    rb_n rb' = rb_n rb \<and> rb_contents rb' = drop (unat len) (rb_contents rb)"
proof -
  let ?n = "rb_n rb" and ?r = "unat (read_index rb)" and ?c = "rb_count rb"
  note s = rb_size[OF inv] and c = rb_count[OF inv] and m = rb_mirror[OF inv]
  show ?thesis
  proof (cases "?c = 0")
    case True
    then have "rt_ringbuffer_data_len rb = 0" by (simp add: rb_count_def unat_eq_zero)
    then show ?thesis using inv True by (simp add: rt_ringbuffer_get_def rb_contents_def)
  next
    case False
    let ?d = "rt_ringbuffer_data_len rb"
    define l where "l = (if ?d < ucast len then ucast ?d else len)"
    define k where "k = unat l"
    have d: "unat ?d = ?c" by (simp add: rb_count_def)
    have k: "k = min (unat len) ?c"
      using s(2) c(2) by (auto simp: k_def l_def word_less_nat_alt d unat_ucast_16_32 unsigned_ucast_eq take_bit_nat_eq_self)
    have nz: "?d \<noteq> 0" using False by (auto simp: rb_count_def)
    have kn: "k \<le> ?c" "k \<le> ?n" using k c(2) by auto
    define rb' where "rb' = (if ?r + k < ?n then rb\<lparr>read_index := read_index rb + ucast l\<rparr>
      else rb\<lparr>read_mirror := NOT (read_mirror rb), read_index := of_int (int (k + ?r - ?n))\<rparr>)"
    have ri: "unat (read_index rb') = cyc ?n ?r k"
    proof (cases "?r + k < ?n")
      case True
      then have "unat (ucast l :: 15 word) = k"
        using s(2) by (simp add: k_def unsigned_ucast_eq take_bit_nat_eq_self)
      then show ?thesis using True s(2) by (simp add: rb'_def unat_word_ariths cyc_def)
    next
      case False
      then show ?thesis using s(2,5) kn by (simp add: rb'_def cyc_def unat_of_nat del: of_nat_diff)
    qed
    have w: "write_index rb' = write_index rb" "buffer_ptr rb' = buffer_ptr rb" "rb_n rb' = ?n" by (simp_all add: rb'_def)
    have wi: "unat (write_index rb') = cyc (rb_n rb') (unat (read_index rb')) (?c - k)"
      unfolding w ri using cyc_cyc[of ?r ?n k "?c - k"] s(5) kn c by simp
    have mm: "(read_mirror rb' = write_mirror rb') = (unat (read_index rb') + (?c - k) < rb_n rb')"
      unfolding w ri using m s(5) kn c(2) by (auto simp: rb'_def cyc_def)
    have inv': "rb_inv rb' \<and> rb_count rb' = ?c - k"
      using rb_invI[of rb' "?c - k", OF _ _ _ _ wi mm] w s kn c(2) cyc_less[OF s(5) kn(2)] by (simp add: ri)
    define out where "out = (if ?r + k < ?n then take k (drop ?r (buffer_ptr rb))
      else take (?n - ?r) (drop ?r (buffer_ptr rb)) @ take (k + ?r - ?n) (buffer_ptr rb))"
    have run: "rt_ringbuffer_get len rb = (rb', out)"
    proof (cases "?r + k < ?n")
      case True
      have "int k < int ?n - int ?r" using True by linarith
      then have "uint l < int ?n - uint (read_index rb)" by (simp add: k_def)
      then show ?thesis
        using True nz s(1) by (simp add: rt_ringbuffer_get_def Let_def l_def[symmetric] rb'_def k_def[symmetric] out_def)
    next
      case False
      have r: "int ?n - uint (read_index rb) = int (?n - ?r)" using s(5) by simp
      have "\<not> int k < int (?n - ?r)" using False by linarith
      then have nl: "\<not> uint l < int (?n - ?r)" by (simp add: k_def)
      have "int k - int (?n - ?r) = int (k + ?r - ?n)" using False s(5) by simp
      then have ov: "uint l - int (?n - ?r) = int (k + ?r - ?n)" by (simp add: k_def)
      have u: "uint (read_index rb) = int ?r" by simp
      have nt: "nat (int k + uint (read_index rb) - int ?n) = k + ?r - ?n"
        unfolding u using False by linarith
      show ?thesis
        using False nz nl unfolding rt_ringbuffer_get_def Let_def l_def[symmetric] s(1) r ov rb'_def out_def
        by (simp add: nt)
    qed
    have "out = take k (rb_contents rb)"
      unfolding rb_contents_def cyc_list_take[OF kn(1)] out_def
      using s(4,5) kn by (intro nth_equalityI) (auto simp: nth_append cyc_def add.commute)
    moreover have "take k (rb_contents rb) = take (unat len) (rb_contents rb)"
      "drop k (rb_contents rb) = drop (unat len) (rb_contents rb)"
      by (simp_all add: k rb_contents_def min_def)
    moreover have "rb_contents rb' = drop k (rb_contents rb)"
      using cyc_list_drop[of ?r ?n k ?c "buffer_ptr rb"] s(5) kn(1) c(2) inv' by (simp add: rb_contents_def w ri)
    ultimately show ?thesis using run inv' w(3) by auto
  qed
qed

text \<open>Single characters.\<close>

lemma rb_space_0: "rb_inv rb \<Longrightarrow> rt_ringbuffer_space_len rb = 0 \<longleftrightarrow> rb_count rb = rb_n rb"
  using rb_space(1) rb_count(2) by (metis diff_is_0_eq' diff_zero nat_less_le unat_eq_zero zero_less_diff le_eq_less_or_eq)

lemma rb_data_0: "rt_ringbuffer_data_len rb = 0 \<longleftrightarrow> rb_count rb = 0"
  unfolding rb_count_def by (rule unat_eq_zero[symmetric])

text \<open>One character is a block of length one.\<close>

lemma rb_store_char:
  assumes "rb_inv rb"
  shows "fst (rb_store [ch] 1 rb) =
    (let rb = rb\<lparr>buffer_ptr := (buffer_ptr rb)[unat (write_index rb) := ch]\<rparr> in
     if uint (write_index rb) = sint (buffer_size rb) - 1
     then rb\<lparr>write_mirror := NOT (write_mirror rb), write_index := 0\<rparr>
     else rb\<lparr>write_index := write_index rb + 1\<rparr>)"
proof -
  note s = rb_size[OF assms]
  have u: "uint (write_index rb) = int (unat (write_index rb))" by simp
  show ?thesis
  proof (cases "uint (write_index rb) = sint (buffer_size rb) - 1")
    case True
    then have "sint (buffer_size rb) - uint (write_index rb) = 1" by simp
    then show ?thesis using True s by (simp add: rb_store_def Let_def blit_one)
  next
    case False
    then have "1 < sint (buffer_size rb) - uint (write_index rb)" using s(1,6) u by linarith
    then show ?thesis using False s by (simp add: rb_store_def Let_def blit_one)
  qed
qed

lemma putchar_ok:
  assumes inv: "rb_inv rb" and room: "length (rb_contents rb) < rb_n rb"
  shows "\<exists>rb'. rt_ringbuffer_putchar ch rb = (rb', 1) \<and> rb_inv rb' \<and> rb_n rb' = rb_n rb \<and>
    rb_contents rb' = rb_contents rb @ [ch]"
proof -
  have r: "rb_count rb + unat (1 :: rt_uint16) \<le> rb_n rb" "unat (1 :: rt_uint16) \<le> length [ch]"
    using room by (simp_all add: rb_contents_def)
  have nz: "rt_ringbuffer_space_len rb \<noteq> 0" using rb_space_0[OF inv] room by (simp add: rb_contents_def)
  have "rt_ringbuffer_putchar ch rb = (fst (rb_store [ch] 1 rb), 1)"
    using nz by (simp add: rt_ringbuffer_putchar_def rb_store_char[OF inv] Let_def)
  then show ?thesis using rb_store_fits[OF inv r(2,1)] by simp
qed

lemma putchar_full:
  assumes "rb_inv rb" "length (rb_contents rb) = rb_n rb"
  shows "rt_ringbuffer_putchar ch rb = (rb, 0)"
  using rb_space_0[OF assms(1)] assms(2) by (simp add: rt_ringbuffer_putchar_def rb_contents_def)

lemma getchar_empty: "rb_contents rb = [] \<Longrightarrow> rt_ringbuffer_getchar rb = (rb, None)"
  using rb_data_0[of rb] by (simp add: rt_ringbuffer_getchar_def rb_contents_def cyc_list_def)

lemma getchar_block:
  assumes inv: "rb_inv rb" and ne: "rb_contents rb \<noteq> []"
  shows "rt_ringbuffer_getchar rb = (fst (rt_ringbuffer_get 1 rb), Some (hd (rb_contents rb)))"
proof -
  note s = rb_size[OF inv]
  have c: "rb_count rb \<noteq> 0"
  proof
    assume "rb_count rb = 0"
    then show False using ne by (simp add: rb_contents_def)
  qed
  then have nz: "rt_ringbuffer_data_len rb \<noteq> 0" by (simp add: rb_data_0)
  have hd: "hd (rb_contents rb) = buffer_ptr rb ! unat (read_index rb)"
    using c s(5) ne by (simp add: hd_conv_nth) (simp add: rb_contents_def cyc_def)
  have "\<not> rt_ringbuffer_data_len rb < 1" using nz by (simp add: word_less_nat_alt unat_eq_zero)
  moreover have u: "uint (read_index rb) = int (unat (read_index rb))" by simp
  ultimately show ?thesis
  proof (cases "uint (read_index rb) = sint (buffer_size rb) - 1")
    case True
    then have "sint (buffer_size rb) - uint (read_index rb) = 1" by simp
    then show ?thesis using True nz hd \<open>\<not> rt_ringbuffer_data_len rb < 1\<close>
      by (simp add: rt_ringbuffer_getchar_def rt_ringbuffer_get_def Let_def)
  next
    case False
    then have "1 < sint (buffer_size rb) - uint (read_index rb)" using s(1,5) u by linarith
    then show ?thesis using False nz hd \<open>\<not> rt_ringbuffer_data_len rb < 1\<close>
      by (simp add: rt_ringbuffer_getchar_def rt_ringbuffer_get_def Let_def)
  qed
qed

lemma getchar_ok:
  assumes inv: "rb_inv rb" and q: "rb_contents rb = ch # chs"
  shows "\<exists>rb'. rt_ringbuffer_getchar rb = (rb', Some ch) \<and> rb_inv rb' \<and> rb_n rb' = rb_n rb \<and> rb_contents rb' = chs"
  using getchar_block[OF inv] get_spec[OF inv, of 1] q by auto

text \<open>The ring buffer is a bounded FIFO of characters.\<close>

interpretation rb: bounded_fifo rb_inv rb_n rb_contents
  "\<lambda>ch rb. case rt_ringbuffer_putchar ch rb of (rb', n) \<Rightarrow> (rb', n \<noteq> 0)" rt_ringbuffer_getchar
proof unfold_locales
  fix s :: rt_ringbuffer and x
  assume inv: "rb_inv s"
  show "length (rb_contents s) \<le> rb_n s" using rb_count(2)[OF inv] by (simp add: rb_contents_def)
  assume "length (rb_contents s) < rb_n s"
  then show "\<exists>s'. (case rt_ringbuffer_putchar x s of (rb', n) \<Rightarrow> (rb', n \<noteq> 0)) = (s', True) \<and> rb_inv s' \<and>
      rb_n s' = rb_n s \<and> rb_contents s' = rb_contents s @ [x]"
    using putchar_ok[OF inv, of x] by auto
next
  fix s s' :: rt_ringbuffer and x
  show "(case rt_ringbuffer_putchar x s of (rb', n) \<Rightarrow> (rb', n \<noteq> 0)) = (s', False) \<Longrightarrow> s' = s"
    "rt_ringbuffer_getchar s = (s', None) \<Longrightarrow> s' = s"
    by (auto simp: rt_ringbuffer_putchar_def rt_ringbuffer_getchar_def Let_def split: if_splits)
qed (auto simp: putchar_full getchar_empty dest: getchar_ok)

text \<open>And a FIFO of blocks, whose lengths have 16 bits.\<close>

definition rb_put_block :: "rt_uint8 list \<Rightarrow> rt_ringbuffer \<Rightarrow> rt_ringbuffer \<times> nat" where
  "rb_put_block xs rb = map_prod id unat (rt_ringbuffer_put xs (of_nat (length xs)) rb)"

definition rb_get_block :: "nat \<Rightarrow> rt_ringbuffer \<Rightarrow> rt_ringbuffer \<times> rt_uint8 list" where
  "rb_get_block k rb = rt_ringbuffer_get (of_nat k) rb"

lemma unat_len16: "k \<le> 2 ^ 16 - 1 \<Longrightarrow> unat (of_nat k :: rt_uint16) = k"
  by (subst unat_of_nat, rule mod_less) simp

interpretation rbb: block_fifo rb_inv rb_n rb_contents rb_put_block rb_get_block "2 ^ 16 - 1"
proof
  fix rb :: rt_ringbuffer and xs :: "rt_uint8 list" and k :: nat
  assume i: "rb_inv rb"
  let ?room = "rb_n rb - length (rb_contents rb)"
  show "length (rb_contents rb) \<le> rb_n rb" using rb_count(2)[OF i] by (simp add: rb_contents_def)
  show "\<exists>rb'. rb_put_block xs rb = (rb', min (length xs) ?room) \<and> rb_inv rb' \<and> rb_n rb' = rb_n rb \<and>
      rb_contents rb' = rb_contents rb @ take ?room xs" if "length xs \<le> 2 ^ 16 - 1"
  proof -
    note l = unat_len16[OF that]
    have "min (length xs) ?room < 2 ^ 32" using that by (simp add: min_less_iff_disj)
    then have u: "unat (of_nat (min (length xs) ?room) :: rt_uint32) = min (length xs) ?room"
      by (subst unat_of_nat, intro mod_less) simp
    show ?thesis using put_spec[OF i, of "of_nat (length xs)" xs] u unfolding l rb_put_block_def
      by (fastforce simp: min_def)
  qed
  show "\<exists>rb'. rb_get_block k rb = (rb', take k (rb_contents rb)) \<and> rb_inv rb' \<and> rb_n rb' = rb_n rb \<and>
      rb_contents rb' = drop k (rb_contents rb)" if "k \<le> 2 ^ 16 - 1"
    using get_spec[OF i, of "of_nat k"] unfolding unat_len16[OF that] rb_get_block_def .
qed simp

text \<open>Forced writes: the last \<open>rb_n\<close> bytes of old and new data stay, unless the data in the
  buffer does not go around the end and the new block does; then the buffer is empty afterwards.\<close>

definition rb_last :: "nat \<Rightarrow> 'a list \<Rightarrow> 'a list" where
  "rb_last n xs = drop (length xs - n) xs"

lemma rb_last_all [simp]: "length xs \<le> n \<Longrightarrow> rb_last n xs = xs"
  by (simp add: rb_last_def)

text \<open>Writing over the oldest data, with the reader moved to the writer.\<close>

lemma rb_overwrite:
  assumes inv: "rb_inv rb" and src: "length src \<le> rb_n rb" "rb_n rb < rb_count rb + length src"
    and wi: "unat wi = cyc (rb_n rb) (unat (write_index rb)) (length src)"
  defines "pool \<equiv> cyc_write (rb_n rb) (unat (write_index rb)) src (buffer_ptr rb)"
  shows "rm \<noteq> wm \<Longrightarrow> rb_inv (rb\<lparr>buffer_ptr := pool, read_mirror := rm, read_index := wi, write_mirror := wm, write_index := wi\<rparr>)"
    "rm \<noteq> wm \<Longrightarrow> rb_contents (rb\<lparr>buffer_ptr := pool, read_mirror := rm, read_index := wi, write_mirror := wm, write_index := wi\<rparr>)
       = rb_last (rb_n rb) (rb_contents rb @ src)"
    "rb_inv (rb\<lparr>buffer_ptr := pool, read_mirror := wm, read_index := wi, write_mirror := wm, write_index := wi\<rparr>)"
    "rb_contents (rb\<lparr>buffer_ptr := pool, read_mirror := wm, read_index := wi, write_mirror := wm, write_index := wi\<rparr>) = []"
proof -
  let ?n = "rb_n rb" and ?w = "unat (write_index rb)"
  let ?rb = "\<lambda>rm. rb\<lparr>buffer_ptr := pool, read_mirror := rm, read_index := wi, write_mirror := wm, write_index := wi\<rparr>"
  note s = rb_size[OF inv] and c = rb_count[OF inv]
  have w': "unat wi < ?n" unfolding wi by (rule cyc_less[OF s(6) src(1)])
  have len: "?n \<le> length pool" using s src by (simp add: pool_def)
  have n: "rb_n (?rb rm) = ?n" for rm by (simp add: rb_n_def)
  have full: "rb_inv (?rb rm) \<and> rb_count (?rb rm) = ?n" if "rm \<noteq> wm" for rm
    using rb_invI[of "?rb rm" ?n] s(3) w' len that by (simp add: n cyc_def)
  have empty: "rb_inv (?rb wm) \<and> rb_count (?rb wm) = 0"
    using rb_invI[of "?rb wm" 0] s(3) w' len by (simp add: n cyc_def)
  have ow: "cyc_list ?n (unat wi) ?n pool = drop (rb_count rb + length src - ?n) (rb_contents rb) @ src"
    unfolding pool_def wi rb_contents_def c(3)[symmetric]
    using s src c(2) by (intro cyc_list_overwrite) auto
  have last: "rb_last ?n (rb_contents rb @ src) = drop (rb_count rb + length src - ?n) (rb_contents rb) @ src"
    using src by (simp add: rb_last_def rb_contents_def)
  show "rm \<noteq> wm \<Longrightarrow> rb_inv (?rb rm)" "rb_inv (?rb wm)" using full empty by auto
  show "rm \<noteq> wm \<Longrightarrow> rb_contents (?rb rm) = rb_last ?n (rb_contents rb @ src)"
  proof -
    assume "rm \<noteq> wm"
    from full[OF this] have "rb_count (?rb rm) = ?n" by simp
    then show ?thesis unfolding rb_contents_def[of "?rb rm"] n last ow[symmetric] by simp
  qed
  show "rb_contents (?rb wm) = []" using empty unfolding rb_contents_def by simp
qed

lemma put_force_spec:
  assumes inv: "rb_inv rb" and len: "unat len \<le> length ptr"
  shows "\<exists>rb'. rt_ringbuffer_put_force ptr len rb = (rb', of_nat (min (unat len) (rb_n rb))) \<and> rb_inv rb' \<and>
    rb_n rb' = rb_n rb \<and> rb_contents rb' =
      (if read_mirror rb = write_mirror rb \<and> rb_n rb < length (rb_contents rb) + min (unat len) (rb_n rb)
       then [] else rb_last (rb_n rb) (rb_contents rb @ take (unat len) ptr))"
proof -
  let ?n = "rb_n rb" and ?c = "rb_count rb" and ?w = "unat (write_index rb)"
  note s = rb_size[OF inv] and c = rb_count[OF inv] and m = rb_mirror[OF inv] and sp = rb_space(2)[OF inv]
  define p where "p = (if ?n < unat len then drop (unat len - ?n) ptr else ptr)"
  define l where "l = (if ?n < unat len then buffer_size rb else len)"
  have "uint (buffer_size rb) = take_bit 16 (int ?n)" using uint_sint[of "buffer_size rb"] s(1) by simp
  also have "\<dots> = int ?n" using s(2) by (simp add: take_bit_int_eq_self)
  finally have bs: "unat (buffer_size rb) = ?n" by (metis nat_int unat_eq_nat_uint)
  have pl: "unat l \<le> length p" "unat l = min (unat len) ?n" "unat l \<le> ?n"
    using len bs by (auto simp: p_def l_def)
  have src: "take (unat l) p = rb_last ?n (take (unat len) ptr)"
    using len bs by (auto simp: p_def l_def rb_last_def take_drop)
  have lastapp: "rb_last ?n (xs @ rb_last ?n ys) = rb_last ?n (xs @ ys)" for xs ys :: "rt_uint8 list"
    by (cases "length ys \<le> ?n") (auto simp: rb_last_def drop_append)
  have lastsrc: "rb_last ?n (rb_contents rb @ take (unat l) p) = rb_last ?n (rb_contents rb @ take (unat len) ptr)"
    unfolding src by (rule lastapp)
  let ?cond = "sint (buffer_size rb) < uint len"
  have cond: "?cond \<longleftrightarrow> ?n < unat len" unfolding s(1) by (metis of_nat_less_iff of_nat_unat)
  have args: "(if ?cond then (drop (nat (uint len - sint (buffer_size rb))) ptr, buffer_size rb) else (ptr, len)) = (p, l)"
    unfolding cond unfolding s(1) p_def l_def by (simp add: nat_diff_distrib')
  obtain wi where wi: "rb_store p l rb = (rb\<lparr>buffer_ptr := cyc_write ?n ?w (take (unat l) p) (buffer_ptr rb),
      write_mirror := (if ?w + unat l < ?n then write_mirror rb else NOT (write_mirror rb)),
      write_index := wi\<rparr>, ?n \<le> ?w + unat l)" "unat wi = cyc ?n ?w (unat l)"
    by (rule rb_store_spec[OF inv pl(1,3)])
  have lu: "(ucast l :: rt_uint32) = of_nat (min (unat len) ?n)" unfolding pl(2)[symmetric] by simp
  have over: "(ucast (rt_ringbuffer_space_len rb) :: rt_uint16) < l \<longleftrightarrow> ?n < ?c + unat l"
    using sp c(2) by (auto simp: word_less_nat_alt)
  have lsrc: "length (take (unat l) p) = unat l" using pl(1) by simp
  show ?thesis
  proof (cases "?n < ?c + unat l")
    case False
    then have "?c + unat l \<le> ?n" by simp
    note f = rb_store_fits[OF inv pl(1) this]
    have "rt_ringbuffer_put_force ptr len rb = (fst (rb_store p l rb), of_nat (min (unat len) ?n))"
      using False over lu unfolding rt_ringbuffer_put_force_def args Let_def prod.case wi(1) by simp
    moreover have "rb_contents rb @ take (unat l) p = rb_last ?n (rb_contents rb @ take (unat len) ptr)"
      unfolding lastsrc[symmetric] using False lsrc by (simp add: rb_contents_def)
    moreover have "length (rb_contents rb) = ?c" by (simp add: rb_contents_def)
    ultimately show ?thesis using f False pl(2) by auto
  next
    case True
    have "?n < ?c + length (take (unat l) p)" "length (take (unat l) p) \<le> ?n"
      "unat wi = cyc ?n ?w (length (take (unat l) p))" using True lsrc pl(3) wi(2) by simp_all
    note ow = rb_overwrite[OF inv this(2,1,3)]
    define rm where "rm = (if ?w + unat l < ?n then read_mirror rb else NOT (read_mirror rb))"
    define wm where "wm = (if ?w + unat l < ?n then write_mirror rb else NOT (write_mirror rb))"
    have "rt_ringbuffer_put_force ptr len rb = (rb\<lparr>buffer_ptr := cyc_write ?n ?w (take (unat l) p) (buffer_ptr rb),
        read_mirror := rm, read_index := wi, write_mirror := wm, write_index := wi\<rparr>, of_nat (min (unat len) ?n))"
      using True over lu unfolding rt_ringbuffer_put_force_def args Let_def prod.case wi(1)
      by (simp add: rm_def wm_def)
    moreover note lastsrc
    moreover have "rm = wm \<longleftrightarrow> read_mirror rb = write_mirror rb" by (simp add: rm_def wm_def)
    moreover have "length (rb_contents rb) = ?c" by (simp add: rb_contents_def)
    ultimately show ?thesis using ow True pl(2) by (cases "rm = wm") simp_all
  qed
qed

lemma putchar_force_spec:
  assumes inv: "rb_inv rb"
  shows "\<exists>rb'. rt_ringbuffer_putchar_force ch rb = (rb', 1) \<and> rb_inv rb' \<and> rb_n rb' = rb_n rb \<and>
    rb_contents rb' = rb_last (rb_n rb) (rb_contents rb @ [ch])"
proof -
  let ?n = "rb_n rb" and ?c = "rb_count rb" and ?w = "unat (write_index rb)"
  note s = rb_size[OF inv] and c = rb_count[OF inv]
  have one: "unat (1 :: rt_uint16) \<le> length [ch]" "unat (1 :: rt_uint16) \<le> ?n" using s(3) by simp_all
  have full: "rt_ringbuffer_status rb = RT_RINGBUFFER_FULL \<longleftrightarrow> ?c = ?n"
    using c(1) s by (auto simp: rt_ringbuffer_status_def word_unat_eq_iff)
  show ?thesis
  proof (cases "?c = ?n")
    case False
    then have "?c + unat (1 :: rt_uint16) \<le> ?n" using c(2) by simp
    note f = rb_store_fits[OF inv one(1) this]
    have "rt_ringbuffer_putchar_force ch rb = (fst (rb_store [ch] 1 rb), 1)"
      using False full by (auto simp: rt_ringbuffer_putchar_force_def rb_store_char[OF inv] Let_def)
    then show ?thesis using f False c(2) by (simp add: rb_contents_def)
  next
    case True
    obtain wi where wi: "rb_store [ch] 1 rb = (rb\<lparr>buffer_ptr := cyc_write ?n ?w (take (unat (1 :: rt_uint16)) [ch]) (buffer_ptr rb),
        write_mirror := (if ?w + unat (1 :: rt_uint16) < ?n then write_mirror rb else NOT (write_mirror rb)),
        write_index := wi\<rparr>, ?n \<le> ?w + unat (1 :: rt_uint16))" "unat wi = cyc ?n ?w (unat (1 :: rt_uint16))"
      by (rule rb_store_spec[OF inv one])
    have o: "?n < ?c + length [ch]" "length [ch] \<le> ?n" "unat wi = cyc ?n ?w (length [ch])"
      using True wi(2) s(3) by simp_all
    note ow = rb_overwrite(1,2)[OF inv o(2,1,3)]
    define rm where "rm = (if ?w + 1 < ?n then read_mirror rb else NOT (read_mirror rb))"
    define wm where "wm = (if ?w + 1 < ?n then write_mirror rb else NOT (write_mirror rb))"
    have "read_mirror rb \<noteq> write_mirror rb" using rb_mirror[OF inv] True by simp
    then have d: "rm \<noteq> wm" by (simp add: rm_def wm_def)
    have e: "uint (write_index rb) = sint (buffer_size rb) - 1 \<longleftrightarrow> \<not> ?w + 1 < ?n"
    proof -
      have "uint (write_index rb) = int ?w" by simp
      then show ?thesis using s(1,6) by linarith
    qed
    have "unat (write_index rb + 1) = ?w + 1" if "?w + 1 < ?n"
      using that s(2) by (simp add: unat_word_ariths)
    then have wi0: "wi = (if ?w + 1 < ?n then write_index rb + 1 else 0)"
      using wi(2) s(6) by (auto simp: cyc_def word_unat_eq_iff)
    have "rt_ringbuffer_putchar_force ch rb = (rb\<lparr>buffer_ptr := cyc_write ?n ?w [ch] (buffer_ptr rb),
        read_mirror := rm, read_index := wi, write_mirror := wm, write_index := wi\<rparr>, 1)"
    proof (rule prod_eqI, rule rt_ringbuffer.equality)
    qed (use True full e wi0 s in \<open>auto simp: rt_ringbuffer_putchar_force_def Let_def rm_def wm_def cyc_write_one\<close>)
    then show ?thesis using ow[OF d] by (simp add: rb_n_def)
  qed
qed

section \<open>Initialisation\<close>

lemma sint_small16: "unat (w :: 16 word) < 2 ^ 15 \<Longrightarrow> sint w = int (unat w)"
proof -
  assume "unat w < 2 ^ 15"
  then have "int (unat w) < 32768" by (simp only: of_nat_less_numeral_iff) simp
  then have lt: "uint w < 2 ^ 15" by simp
  have ge: "- (2 ^ 15) \<le> uint w" using unsigned_greater_eq[of w] by (rule order_trans[rotated]) simp
  have "sint w = signed_take_bit 15 (uint w)" by (simp add: sint_uint)
  also have "\<dots> = uint w" by (rule signed_take_bit_int_eq_self[OF ge lt])
  finally show ?thesis by simp
qed

lemma unat_pos16:
  assumes "0 \<le> sint (w :: 16 word)"
  shows "sint w = int (unat w)" "unat w < 2 ^ 15"
proof -
  have "sint w < 2 ^ 15" using sint_lt[of w] by simp
  then have "uint w = sint w" using assms uint_sint[of w] by (simp add: take_bit_int_eq_self)
  then show e: "sint w = int (unat w)" by simp
  then have "int (unat w) < 32768" using \<open>sint w < 2 ^ 15\<close> by simp
  then have "unat w < 32768" by linarith
  then show "unat w < 2 ^ 15" by simp
qed

lemma init_spec:
  assumes sz: "4 \<le> sint sz" and pool: "nat (sint sz) \<le> length pool"
  shows "\<exists>rb. rt_ringbuffer_init pool sz = Some rb \<and> rb_inv rb \<and> rb_contents rb = [] \<and>
    rb_n rb = nat (sint sz) div 4 * 4"
proof -
  define rb where "rb = \<lparr>buffer_ptr = pool, read_mirror = 0, read_index = 0, write_mirror = 0, write_index = 0,
       buffer_size = RT_ALIGN_DOWN sz 4\<rparr>"
  have u: "sint sz = int (unat sz)" "unat sz < 2 ^ 15" using unat_pos16[of sz] sz by auto
  have d: "unat (RT_ALIGN_DOWN sz 4) = unat sz div 4 * 4" using unat_RT_ALIGN_DOWN[OF align4_mask(1), of sz] by simp
  have le: "unat sz div 4 * 4 \<le> unat sz" by (rule div_times_less_eq_dividend)
  have "unat (RT_ALIGN_DOWN sz 4) < 2 ^ 15" using le u(2) unfolding d by (rule le_less_trans)
  then have n: "rb_n rb = unat sz div 4 * 4" using sint_small16 d by (simp add: rb_n_def rb_def)
  have "4 \<le> unat sz" using sz u(1) by linarith
  then have pos: "0 < rb_n rb" unfolding n by (simp add: div_greater_zero_iff)
  have "rb_n rb \<le> length (buffer_ptr rb)" using le pool u(1) n by (simp add: rb_def)
  then have "rb_inv rb \<and> rb_count rb = 0"
    using rb_invI[of rb 0] pos by (simp add: rb_def cyc_def)
  moreover have "rt_ringbuffer_init pool sz = Some rb" using sz by (simp add: rt_ringbuffer_init_def rb_def)
  ultimately show ?thesis using n u(1) by (auto simp: rb_contents_def)
qed

lemma reset_spec: "rb_inv rb \<Longrightarrow> rb_inv (rt_ringbuffer_reset rb) \<and> rb_contents (rt_ringbuffer_reset rb) = [] \<and>
    rb_n (rt_ringbuffer_reset rb) = rb_n rb"
proof -
  assume inv: "rb_inv rb"
  let ?rb = "rt_ringbuffer_reset rb"
  have n: "rb_n ?rb = rb_n rb" by (simp add: rb_n_def rt_ringbuffer_reset_def)
  have "rb_inv ?rb \<and> rb_count ?rb = 0"
    using rb_invI[of ?rb 0] rb_size[OF inv] n by (simp add: rt_ringbuffer_reset_def cyc_def)
  then show ?thesis using n by (simp add: rb_contents_def)
qed

section \<open>Properties\<close>

text \<open>Calls of the ring buffer and what they return, and the same calls on a queue of at most
  \<open>n\<close> bytes.\<close>

datatype rb_call = PutChar rt_uint8 | PutCharForce rt_uint8 | GetChar | PutBlock "rt_uint8 list" | GetBlock nat
  | DataLen | ResetBuffer

datatype rb_result = Count nat | Byte "rt_uint8 option" | Block "rt_uint8 list"

fun rb_step :: "rb_call \<Rightarrow> rt_ringbuffer \<Rightarrow> rt_ringbuffer \<times> rb_result" where
  "rb_step (PutChar ch) rb = map_prod id (\<lambda>n. Count (unat n)) (rt_ringbuffer_putchar ch rb)"
| "rb_step (PutCharForce ch) rb = map_prod id (\<lambda>n. Count (unat n)) (rt_ringbuffer_putchar_force ch rb)"
| "rb_step GetChar rb = map_prod id Byte (rt_ringbuffer_getchar rb)"
| "rb_step (PutBlock xs) rb = map_prod id Count (rb_put_block xs rb)"
| "rb_step (GetBlock k) rb = map_prod id Block (rb_get_block k rb)"
| "rb_step DataLen rb = (rb, Count (unat (rt_ringbuffer_data_len rb)))"
| "rb_step ResetBuffer rb = (rt_ringbuffer_reset rb, Count 0)"

fun queue_call :: "nat \<Rightarrow> rb_call \<Rightarrow> rt_uint8 list \<Rightarrow> rt_uint8 list \<times> rb_result" where
  "queue_call n (PutChar ch) q = (if length q < n then (q @ [ch], Count 1) else (q, Count 0))"
| "queue_call n (PutCharForce ch) q = ((if length q < n then q else tl q) @ [ch], Count 1)"
| "queue_call n GetChar q = (tl q, Byte (case q of [] \<Rightarrow> None | ch # _ \<Rightarrow> Some ch))"
| "queue_call n (PutBlock xs) q = (let k = min (length xs) (n - length q) in (q @ take k xs, Count k))"
| "queue_call n (GetBlock k) q = (drop k q, Block (take k q))"
| "queue_call n DataLen q = (q, Count (length q))"
| "queue_call n ResetBuffer q = ([], Count 0)"

fun short_call :: "rb_call \<Rightarrow> bool" where
  "short_call (PutBlock xs) \<longleftrightarrow> length xs < 2 ^ 16"
| "short_call (GetBlock k) \<longleftrightarrow> k < 2 ^ 16"
| "short_call _ \<longleftrightarrow> True"

lemma rb_step_spec:
  assumes inv: "rb_inv rb" and c: "short_call c"
  shows "rb_inv (fst (rb_step c rb)) \<and> rb_n (fst (rb_step c rb)) = rb_n rb \<and>
    queue_call (rb_n rb) c (rb_contents rb) = map_prod rb_contents id (rb_step c rb)"
proof (cases c)
  case (PutChar ch)
  have "length (rb_contents rb) = rb_n rb" if "\<not> length (rb_contents rb) < rb_n rb"
    using that rb_count(2)[OF inv] by (simp add: rb_contents_def)
  then show ?thesis
    using putchar_ok[OF inv, of ch] putchar_full[OF inv] inv PutChar by (cases "length (rb_contents rb) < rb_n rb") auto
next
  case (PutCharForce ch)
  have "rb_last (rb_n rb) (rb_contents rb @ [ch]) = (if length (rb_contents rb) < rb_n rb then rb_contents rb else tl (rb_contents rb)) @ [ch]"
    using rb_count(2)[OF inv] rb_size(3)[OF inv]
    by (cases "rb_contents rb") (auto simp: rb_last_def rb_contents_def drop_Suc dest: arg_cong[of _ _ length])
  then show ?thesis using putchar_force_spec[OF inv, of ch] PutCharForce by auto
next
  case GetChar
  then show ?thesis using getchar_empty[of rb] getchar_ok[OF inv] inv by (cases "rb_contents rb") auto
next
  case (PutBlock xs)
  then show ?thesis using rbb.puts[OF inv, of xs] c by (auto simp: min_def Let_def)
next
  case (GetBlock k)
  then show ?thesis using rbb.gets[OF inv, of k] c by auto
next
  case DataLen
  then show ?thesis using inv by (simp add: rb_contents_def rb_count_def)
next
  case ResetBuffer
  then show ?thesis using reset_spec[OF inv] by simp
qed

text \<open>C14. Every sequence of calls of a ring buffer returns what it returns on a queue bounded by the
  size: how much a put accepts, which bytes a get delivers, when the buffer is full and when it is empty; a
  forced character takes the place of the oldest one in a full buffer.\<close>

theorem ringbuffer_is_queue:
  assumes "rb_inv rb" "\<forall>c \<in> set calls. short_call c"
  shows "\<exists>rs rb'. run_calls rb_step calls rb = (rs, rb') \<and> rb_inv rb' \<and> rb_n rb' = rb_n rb \<and>
    run_calls (queue_call (rb_n rb)) calls (rb_contents rb) = (rs, rb_contents rb')"
proof -
  have "(rb_inv (snd (run_calls rb_step calls rb)) \<and> rb_n (snd (run_calls rb_step calls rb)) = rb_n rb) \<and>
    run_calls (queue_call (rb_n rb)) calls (rb_contents rb) = map_prod id rb_contents (run_calls rb_step calls rb)"
    by (rule run_calls_refines[where I = "\<lambda>t. rb_inv t \<and> rb_n t = rb_n rb" and ok = short_call])
      (use assms in \<open>auto dest: rb_step_spec simp del: rb_step.simps queue_call.simps\<close>)
  then show ?thesis by (cases "run_calls rb_step calls rb") simp
qed

definition rb_eight :: rt_ringbuffer where
  "rb_eight = \<lparr>buffer_ptr = replicate 8 0, read_mirror = 0, read_index = 0, write_mirror = 0, write_index = 0,
     buffer_size = 8\<rparr>"

lemma rb_eight_inv: "rb_inv rb_eight" "rb_n rb_eight = 8" "rb_contents rb_eight = []"
  by (simp_all add: rb_eight_def rb_inv_def rb_n_def rb_contents_def rb_count_def rt_ringbuffer_data_len_def
      rt_ringbuffer_status_def)

text \<open>A buffer of eight bytes is filled, refuses a character, has its oldest one overwritten and is read
  until it is empty.\<close>

theorem ringbuffer_is_queue_witness:
  "\<exists>rb'. run_calls rb_step [PutChar 1, PutBlock [2, 3, 4, 5, 6, 7], PutBlock [8, 9, 10], PutChar 11, PutCharForce 12,
       DataLen, GetChar, GetBlock 9, GetChar] rb_eight
     = ([Count 1, Count 6, Count 1, Count 0, Count 1, Count 8, Byte (Some 2), Block [3, 4, 5, 6, 7, 8, 12], Byte None], rb') \<and>
     rb_contents rb' = []"
proof -
  let ?calls = "[PutChar 1, PutBlock [2, 3, 4, 5, 6, 7], PutBlock [8, 9, 10], PutChar 11, PutCharForce 12,
       DataLen, GetChar, GetBlock 9, GetChar]"
  have "run_calls (queue_call 8) ?calls [] =
      ([Count 1, Count 6, Count 1, Count 0, Count 1, Count 8, Byte (Some 2), Block [3, 4, 5, 6, 7, 8, 12], Byte None], [])"
    by code_simp
  moreover have "\<forall>c \<in> set ?calls. short_call c" by simp
  ultimately show ?thesis using ringbuffer_is_queue[OF rb_eight_inv(1), of ?calls] by (simp only: rb_eight_inv) auto
qed

text \<open>A block write stores as much of the block as there is room for, at the end of the data,
  and says how much it stored.\<close>

theorem ringbuffer_put:
  assumes "rb_inv rb" "unat len \<le> length ptr"
  shows "\<exists>rb'. rt_ringbuffer_put ptr len rb = (rb', of_nat (min (unat len) (rb_n rb - length (rb_contents rb)))) \<and>
    rb_inv rb' \<and> rb_contents rb' = rb_contents rb @ take (min (unat len) (rb_n rb - length (rb_contents rb))) ptr"
  using put_spec[OF assms] by blast

theorem ringbuffer_put_witness:
  "\<exists>rb'. rt_ringbuffer_put [1, 2, 3, 4, 5] 5 rb_eight = (rb', 5) \<and> rb_inv rb' \<and> rb_contents rb' = [1, 2, 3, 4, 5]"
  using ringbuffer_put[OF rb_eight_inv(1), of 5 "[1, 2, 3, 4, 5]"] rb_eight_inv by simp

text \<open>C20. A forced block write keeps the last bytes of old and new data, as many as the buffer
  holds, except when it overwrites data that does not go around the end of the buffer: then the
  mirror bits agree afterwards and the buffer is empty.\<close>

theorem ringbuffer_put_force:
  assumes "rb_inv rb" "unat len \<le> length ptr"
  shows "\<exists>rb'. rt_ringbuffer_put_force ptr len rb = (rb', of_nat (min (unat len) (rb_n rb))) \<and> rb_inv rb' \<and>
    rb_contents rb' =
      (if read_mirror rb = write_mirror rb \<and> rb_n rb < length (rb_contents rb) + min (unat len) (rb_n rb)
       then [] else rb_last (rb_n rb) (rb_contents rb @ take (unat len) ptr))"
  using put_force_spec[OF assms] by blast

theorem ringbuffer_put_force_witness:
  "\<exists>rb'. rt_ringbuffer_put_force [1, 2, 3, 4, 5, 6] 6 (fst (rt_ringbuffer_put [7, 8, 9] 3 rb_eight)) = (rb', 6) \<and>
    rb_inv rb' \<and> rb_contents rb' = []"
proof -
  obtain rb where rb: "rt_ringbuffer_put [7, 8, 9] 3 rb_eight = (rb, 3)" "rb_inv rb" "rb_n rb = 8" "rb_contents rb = [7, 8, 9]"
    using put_spec[OF rb_eight_inv(1), of 3 "[7, 8, 9]"] rb_eight_inv by auto
  have "read_mirror (fst (rt_ringbuffer_put [7, 8, 9] 3 rb_eight)) = write_mirror (fst (rt_ringbuffer_put [7, 8, 9] 3 rb_eight))"
    by code_simp
  then show ?thesis using ringbuffer_put_force[OF rb(2), of 6 "[1, 2, 3, 4, 5, 6]"] rb by simp
qed

end
