(* ===== verification/Rtt_Timely.thy ===== *)
theory Rtt_Timely
  imports Rtt_Clock_Inv Rtt_Sem Rtt_Mutex Rtt_Event Rtt_Mailbox
begin

text \<open>
  What every kernel call keeps of the timers and of the object headers: \<open>timers_ok\<close> is the
  part of \<open>clock_inv\<close> that is about timers, \<open>timely\<close> says that a call keeps it and
  changes no header of an object that is not a timer. The lemmas follow the calls from
  \<open>rt_timer_stop\<close> up to the calls of \<^verbatim>\<open>ipc.c\<close>.
\<close>

definition timers_ok :: "kernel \<Rightarrow> bool" where
  "timers_ok k \<longleftrightarrow> rows_inv k \<and> timers_sorted HardTimers k \<and>
     (\<forall>t \<in> set (ls_nodes (k_rows k) HardTimers). 0 < timer_key k t) \<and>
     (\<forall>t. has_flag RT_TIMER_FLAG_PERIODIC t k \<longrightarrow>
        0 < tm_init_tick (k_timer k t) \<and> tm_init_tick (k_timer k t) < RT_TICK_HALF) \<and>
     (\<forall>n. \<exists>m. timeout_func (k_timer k (Timer n)) = UserTimeout m)"

definition timely :: "kernel \<Rightarrow> kernel \<Rightarrow> bool" where
  "timely k k' \<longleftrightarrow> (timers_ok k \<longrightarrow> timers_ok k') \<and>
     (\<forall>ob. (\<forall>t. ob \<noteq> OTimer t) \<longrightarrow> k_object k' ob = k_object k ob)"

lemma clock_inv_alt:
  "clock_inv k \<longleftrightarrow> kinv k \<and> timers_ok k \<and> rt_current_thread k \<noteq> None \<and>
     thread_state (k_thread k idle_thread) = RT_THREAD_READY"
  using kinvD(2) by (auto simp: clock_inv_def clock_ok_def timers_ok_def)

lemma timely_refl [simp, intro]: "timely k k"
  by (simp add: timely_def)

lemma timely_trans [trans]: "timely k k' \<Longrightarrow> timely k' k'' \<Longrightarrow> timely k k''"
  by (simp add: timely_def)

lemma timely_flag: "timely k k' \<Longrightarrow> (\<And>t. ob \<noteq> OTimer t) \<Longrightarrow> obj_ipc_flag ob k' = obj_ipc_flag ob k"
  by (simp add: timely_def obj_ipc_flag_def)

lemma timers_ok_cong:
  "k_rows k' = k_rows k \<Longrightarrow> k_timer k' = k_timer k \<Longrightarrow> k_object k' = k_object k \<Longrightarrow> rt_tick k' = rt_tick k \<Longrightarrow>
   timers_ok k' = timers_ok k"
  by (simp add: timers_ok_def rows_inv_def timers_sorted_def timer_key_def[abs_def] has_flag_def)

lemma timely_cong:
  "k_rows k' = k_rows k \<Longrightarrow> k_timer k' = k_timer k \<Longrightarrow> k_object k' = k_object k \<Longrightarrow> rt_tick k' = rt_tick k \<Longrightarrow>
   timely k k'"
  unfolding timely_def using timers_ok_cong[of k' k] by simp

subsection \<open>Timers and threads\<close>

lemma timely_schedule [frame_simps]: "rt_schedule k = Some k' \<Longrightarrow> timely k k'"
  by (rule timely_cong) (use schedule_fields keeps_schedule in \<open>auto simp: keeps_def\<close>)

lemma timely_timer_stop [frame_simps]: "timely k (fst (rt_timer_stop t k))"
proof -
  let ?k = "fst (rt_timer_stop t k)"
  have tick: "rt_tick ?k = rt_tick k" using keeps_timer_stop[of k t] by (simp add: keeps_def)
  have key: "timer_key ?k x = timer_key k x" for x by (simp add: timer_key_def rt_timer_stop_fields tick)
  have "timers_ok ?k" if "timers_ok k"
    using that rt_timer_stop_rows_inv[of k t] rt_timer_stop_sorted[of k HardTimers t]
      rt_timer_stop_subset[of k t HardTimers] rt_timer_stop_flag(1)[of t k]
    by (auto simp: timers_ok_def key has_flag_def rt_timer_stop_fields rows_inv_def)
  moreover have "k_object ?k ob = k_object k ob" if "\<And>t. ob \<noteq> OTimer t" for ob
    using that[of t] by (simp add: rt_timer_stop_def row_remove_def)
  ultimately show ?thesis by (simp add: timely_def)
qed

lemma timely_remove_thread: "rt_schedule_remove_thread t k = Some k' \<Longrightarrow> timely k k'"
  by (rule timely_cong) (auto simp: rt_schedule_remove_thread_def tlist_remove_def Let_def split: if_splits)

lemma timely_insert_thread: "rt_schedule_insert_thread t k = Some k' \<Longrightarrow> timely k k'"
  by (rule timely_cong) (auto simp: rt_schedule_insert_thread_def tlist_insert_before_def Let_def)

lemma timely_suspend: "rt_thread_suspend t k = Some (k', e) \<Longrightarrow> timely k k'"
proof (cases "thread_state (k_thread k t) = RT_THREAD_READY")
  case True
  assume run: "rt_thread_suspend t k = Some (k', e)"
  let ?k = "upd_thread t (\<lambda>th. th\<lparr>stat := RT_THREAD_SUSPEND OR (stat th AND NOT RT_THREAD_STAT_MASK)\<rparr>) k"
  obtain k1 where k1: "rt_schedule_remove_thread t ?k = Some k1" "k' = fst (rt_timer_stop (ThreadTimer t) k1)"
    using run True by (auto simp: rt_thread_suspend_def Let_def bind_eq_Some_conv)
  have "timely k ?k" by (rule timely_cong) simp_all
  also have "timely ?k k1" by (rule timely_remove_thread[OF k1(1)])
  also have "timely k1 k'" unfolding k1(2) by (rule timely_timer_stop)
  finally show ?thesis .
qed (simp add: rt_thread_suspend_def)

lemma timely_resume: "rt_thread_resume t k = Some (k', e) \<Longrightarrow> timely k k'"
proof (cases "thread_state (k_thread k t) = RT_THREAD_SUSPEND")
  case True
  assume run: "rt_thread_resume t k = Some (k', e)"
  let ?k = "fst (rt_timer_stop (ThreadTimer t) (tlist_remove t k))"
  have k': "rt_schedule_insert_thread t ?k = Some k'"
    using run True by (auto simp: rt_thread_resume_def Let_def bind_eq_Some_conv)
  have "timely k (tlist_remove t k)" by (rule timely_cong) (simp_all add: tlist_remove_def)
  also have "timely (tlist_remove t k) ?k" by (rule timely_timer_stop)
  also have "timely ?k k'" by (rule timely_insert_thread[OF k'])
  finally show ?thesis .
qed (simp add: rt_thread_resume_def)

lemma timely_change_priority: "change_priority t p k = Some k' \<Longrightarrow> timely k k'"
  by (rule timely_cong)
    (auto simp: change_priority_def set_priority_def rt_schedule_remove_thread_def rt_schedule_insert_thread_def
      tlist_remove_def tlist_insert_before_def Let_def bind_eq_Some_conv split: if_splits)

text \<open>Starting the timer of a suspended thread for a positive time: it goes to the hard list.\<close>

lemma timely_start_thread_timer:
  assumes inv: "kinv k" and st: "thread_state (k_thread k t) = RT_THREAD_SUSPEND"
    and off: "ls_on (k_rows k) (ThreadTimer t) = None" and v: "v < RT_TICK_HALF"
    and run: "rt_timer_start (ThreadTimer t) (fst (rt_timer_control (ThreadTimer t) (RT_TIMER_CTRL_SET_TIME v) k)) = Some (k', e)"
  shows "timely k k'"
proof -
  let ?tm = "ThreadTimer t"
  let ?k1 = "upd_timer ?tm (\<lambda>tm. tm\<lparr>tm_init_tick := v\<rparr>) k"
  have inv1: "kinv ?k1" by (rule kinv_set_timer[OF inv]) simp
  have noper: "\<not> has_flag RT_TIMER_FLAG_PERIODIC ?tm k"
    using kinvD(3)[OF inv] by (simp add: thread_timers_ok_def has_flag_def)
  obtain k2 where k2: "timer_enqueue ?tm ?k1 = Some k2" and k': "k_rows k' = k_rows k2" "k_timer k' = k_timer k2"
    "k_object k' = k_object k2" "rt_tick k' = rt_tick k2"
  proof -
    have run1: "rt_timer_start ?tm ?k1 = Some (k', e)" using run by simp
    then obtain k2 where k2: "timer_enqueue ?tm ?k1 = Some k2" by (auto simp: rt_timer_start_def bind_eq_Some_conv)
    have wf: "ls_wf (k_rows ?k1)" using kinvD(2)[OF inv1] by (simp add: rows_inv_def)
    have "obj_flag (k_object ?k1 (OTimer ?tm)) AND RT_TIMER_FLAG_SOFT_TIMER = 0"
      using kinvD(3)[OF inv] by (simp add: thread_timers_ok_def)
    then have "obj_flag (k_object k2 (OTimer ?tm)) AND RT_TIMER_FLAG_SOFT_TIMER = 0"
      using timer_enqueue_flags(2)[OF wf k2, of "OTimer ?tm"] by simp
    then have "k' = k2" using run1 k2 by (simp add: rt_timer_start_def)
    then show ?thesis using that k2 by blast
  qed
  have r1: "rows_inv ?k1" and wf: "ls_wf (k_rows ?k1)" using kinvD(2)[OF inv1] by (simp_all add: rows_inv_def)
  note r = timer_enqueue_rows[OF wf k2]
  have tick: "rt_tick k2 = rt_tick k" using timer_enqueue_fields(6)[OF k2] by (simp add: keeps_def)
  have out: "?tm \<notin> set (ls_nodes (k_rows k) h)" for h
    using off wf by (auto simp: ls_wf_unlinked)
  have th: "timer_thead ?tm ?k1 = HardTimers" by (rule timer_thead_thread[OF kinvD(3)[OF inv1]])
  have tms: "k_timer k2 = (k_timer k)(?tm := (k_timer k ?tm)\<lparr>tm_init_tick := v, timeout_tick := rt_tick k + v\<rparr>)"
    using r(4) by simp
  have set2: "set (ls_nodes (k_rows k2) HardTimers) = insert ?tm (set (ls_nodes (k_rows k) HardTimers))"
    using set_timer_enqueue[OF wf k2, of HardTimers] th out by auto
  have per: "has_flag RT_TIMER_FLAG_PERIODIC x k2 = has_flag RT_TIMER_FLAG_PERIODIC x k" for x
    using timer_enqueue_flags(1)[OF wf k2, of "OTimer x"] by (simp add: has_flag_def)
  have "timers_ok k2" if ok: "timers_ok k"
  proof -
    have "timer_key ?k1 = timer_key k" by (rule ext) (simp add: timer_key_def)
    moreover have "ls_nodes (k_rows ?k1) HardTimers = ls_nodes (k_rows k) HardTimers" by simp
    ultimately have "timers_sorted HardTimers ?k1"
      using ok unfolding timers_ok_def timers_sorted_def by (simp only:) blast
    then have "timers_sorted HardTimers k2" by (rule timer_enqueue_sorted[OF r1 _ k2])
    moreover have "rows_inv k2" by (rule timer_enqueue_rows_inv[OF r1 k2])
    moreover have "0 < timer_key k2 x" if "x \<in> set (ls_nodes (k_rows k2) HardTimers)" for x
    proof (cases "x = ?tm")
      case True
      have "v + 1 \<noteq> 0"
      proof
        assume "v + 1 = 0"
        then have "v = - 1" by (simp add: eq_neg_iff_add_eq_0)
        then show False using v word_order.extremum_strict by metis
      qed
      then show ?thesis using True by (simp add: timer_key_def tms tick unat_gt_0)
    next
      case False
      then have "x \<in> set (ls_nodes (k_rows k) HardTimers)" using that set2 by simp
      moreover have "timer_key k2 x = timer_key k x" using False by (simp add: timer_key_def tms tick)
      ultimately show ?thesis using ok by (simp add: timers_ok_def)
    qed
    ultimately show ?thesis
      using ok noper by (auto simp: timers_ok_def per tms)
  qed
  moreover have "k_object k2 ob = k_object k ob" if "\<And>x. ob \<noteq> OTimer x" for ob
    using k2 that[of ?tm]
    by (auto simp: timer_enqueue_def row_remove_def row_insert_after_def Let_def bind_eq_Some_conv split: option.splits if_splits)
  ultimately have "timely k k2" by (auto simp: timely_def)
  moreover have "timely k2 k'" by (rule timely_cong) (simp_all add: k')
  ultimately show ?thesis by (rule timely_trans)
qed

subsection \<open>Waiting and waking\<close>

lemma timely_start_wait_timer:
  assumes inv: "kinv k" and st: "thread_state (k_thread k t) = RT_THREAD_SUSPEND"
    and off: "ls_on (k_rows k) (ThreadTimer t) = None" and time: "time < 2 ^ 31 - 1"
    and run: "start_wait_timer t time k = Some k'"
  shows "timely k k'"
proof (cases "0 < time")
  case True
  have u: "unat (of_int time :: rt_uint32) = nat time"
    using True time by (simp add: unat_eq_nat_uint uint_word_of_int)
  have v: "(of_int time :: rt_uint32) < RT_TICK_HALF"
    using True time by (simp add: word_less_nat_alt u)
  obtain e where "rt_timer_start (ThreadTimer t) (fst (rt_timer_control (ThreadTimer t)
      (RT_TIMER_CTRL_SET_TIME (of_int time)) k)) = Some (k', e)"
    using run True unfolding start_wait_timer_def by (auto simp del: rt_timer_control.simps)
  then show ?thesis by (rule timely_start_thread_timer[OF inv st off v])
qed (use run in \<open>simp add: start_wait_timer_def\<close>)

lemma timely_list_suspend: "rt_ipc_list_suspend h t flag k = Some k' \<Longrightarrow> timely k k'"
proof -
  assume run: "rt_ipc_list_suspend h t flag k = Some k'"
  obtain k1 e where k1: "rt_thread_suspend t k = Some (k1, e)" and k': "k_rows k' = k_rows k1" "k_timer k' = k_timer k1"
    "k_object k' = k_object k1" "rt_tick k' = rt_tick k1"
    using run by (auto simp: rt_ipc_list_suspend_def tlist_insert_before_def tlist_insert_before_thread_def
        bind_eq_Some_conv Let_def split: if_splits option.splits)
  have "timely k k1" by (rule timely_suspend[OF k1])
  also have "timely k1 k'" by (rule timely_cong[OF k'])
  finally show ?thesis .
qed

lemma timely_ipc_wait:
  assumes inv: "kinv k" and st: "thread_state (k_thread k t) = RT_THREAD_READY"
    and h: "wait_head h" and fl: "flag = RT_IPC_FLAG_FIFO \<or> flag = RT_IPC_FLAG_PRIO"
    and time: "time < 2 ^ 31 - 1" and run: "ipc_wait h flag time t k = Some k'"
  shows "timely k k'"
proof -
  obtain k1 where k1: "rt_ipc_list_suspend h t flag k = Some k1" "kinv k1"
    "ls_on (k_tlist k1) = (ls_on (k_tlist k))(t \<mapsto> h)"
    "ls_on (k_rows k1) = (ls_on (k_rows k))(ThreadTimer t := None)"
    by (rule list_suspend_spec[OF inv st h fl]) (rule that; assumption)
  have "t \<in> set (tlist_of k1 h)"
    using k1(3) ls_wf_on[OF sched_inv_wf[OF kinvD(1)[OF k1(2)]], of t h] by simp
  then have st1: "thread_state (k_thread k1 t) = RT_THREAD_SUSPEND" by (rule waiter_suspended(1)[OF k1(2) h])
  have off: "ls_on (k_rows k1) (ThreadTimer t) = None" by (simp add: k1(4))
  obtain k2 where k2: "start_wait_timer t time k1 = Some k2" "rt_schedule k2 = Some k'"
    using run k1(1) by (auto simp: ipc_wait_def bind_eq_Some_conv)
  have "timely k k1" by (rule timely_list_suspend[OF k1(1)])
  also have "timely k1 k2" by (rule timely_start_wait_timer[OF k1(2) st1 off time k2(1)])
  also have "timely k2 k'" by (rule timely_schedule[OF k2(2)])
  finally show ?thesis .
qed

lemma timely_list_resume: "rt_ipc_list_resume h k = Some k' \<Longrightarrow> timely k k'"
  using timely_resume by (auto simp: rt_ipc_list_resume_def split: list.splits)

lemma timely_wake_waiter: "wake_waiter h k = Some k' \<Longrightarrow> timely k k'"
  using timely_list_resume timely_schedule timely_trans
  by (fastforce simp: wake_waiter_def bind_eq_Some_conv split: list.splits if_splits)

lemma timely_msg_wait:
  assumes inv: "kinv k" and cb: "can_block t k" and fl: "valid_flag ob k" and h: "wait_head h"
    and tm: "timeout < 2 ^ 31 - 1" and run: "msg_wait ob h timeout delta t k = Some (k', r)"
  shows "timely k k'"
proof -
  have "ipc_wait h (obj_ipc_flag ob k) timeout t k = Some k'"
    using run by (auto simp: msg_wait_def bind_eq_Some_conv Let_def)
  then show ?thesis
    by (rule timely_ipc_wait[OF inv can_blockD(3)[OF cb] h fl[unfolded valid_flag_def] tm])
qed

lemma timely_upd:
  "timely k (upd_thread t f k)" "timely k (upd_mutex i g k)" "timely k (set_sem i v k)"
  "timely k (set_event i w k)" "timely k (upd_mb i u k)" "timely k (upd_mq i q k)"
  by (rule timely_cong; simp add: set_sem_def set_event_def)+

lemma timely_raise_owner: "raise_owner ow p k = Some k' \<Longrightarrow> timely k k'"
  using timely_change_priority by (auto simp: raise_owner_def split: if_splits)

lemma timely_restore_priority: "restore_priority t p k = Some k' \<Longrightarrow> timely k k'"
  using timely_change_priority by (auto simp: restore_priority_def split: if_splits)

end
