(* ===== verification/Rtt_Flight.thy ===== *)
theory Rtt_Flight
  imports Rtt_Mqueue
begin

text \<open>
  Message blocks in flight. Between the critical sections of a send or a receive the block belongs
  to the thread alone, and other threads and interrupts use the same queue. \<open>mq_holds m W\<close>
  says that \<open>W\<close> are the blocks in nobody's list; \<open>mq_shift A B\<close> that a step gives up the
  blocks \<open>A\<close>, gets the blocks \<open>B\<close> and touches no other block in flight, whoever holds it.
\<close>

definition mq_holds :: "rt_messagequeue \<Rightarrow> nat set \<Rightarrow> bool" where
  "mq_holds m W \<longleftrightarrow> (\<exists>us fs ws. mq_rep m us fs ws \<and> set ws = W)"

definition mq_shift :: "nat set \<Rightarrow> nat set \<Rightarrow> rt_messagequeue \<Rightarrow> rt_messagequeue \<Rightarrow> bool" where
  "mq_shift A B m m' \<longleftrightarrow> mq_msg_size m' = mq_msg_size m \<and>
     (\<forall>W. A \<subseteq> W \<longrightarrow> mq_holds m W \<longrightarrow> (W - A) \<inter> B = {} \<and> mq_holds m' (W - A \<union> B) \<and>
        (\<forall>b \<in> W - A. mq_data m' b = mq_data m b \<and> mq_next m' b = mq_next m b))"

lemma mq_ok_holds: "mq_ok m \<longleftrightarrow> mq_holds m {}"
  by (simp add: mq_ok_def mq_holds_def)

lemma mq_shiftI:
  assumes "mq_msg_size m' = mq_msg_size m"
    "\<And>us fs ws. mq_rep m us fs ws \<Longrightarrow> A \<subseteq> set ws \<Longrightarrow> \<exists>us' fs' ws'. mq_rep m' us' fs' ws' \<and> set ws' = set ws - A \<union> B \<and>
       (set ws - A) \<inter> B = {} \<and> (\<forall>b \<in> set ws - A. mq_data m' b = mq_data m b \<and> mq_next m' b = mq_next m b)"
  shows "mq_shift A B m m'"
  unfolding mq_shift_def mq_holds_def using assms by (intro conjI allI impI; blast)

lemma mq_shiftD:
  assumes "mq_shift A B m m'" "A \<subseteq> W" "mq_holds m W"
  shows "(W - A) \<inter> B = {}" "mq_holds m' (W - A \<union> B)" "b \<in> W - A \<Longrightarrow> mq_data m' b = mq_data m b"
    "b \<in> W - A \<Longrightarrow> mq_next m' b = mq_next m b"
  using assms unfolding mq_shift_def by blast+

lemma mq_shift_size: "mq_shift A B m m' \<Longrightarrow> mq_msg_size m' = mq_msg_size m"
  by (simp add: mq_shift_def)

lemma mq_shift_refl [simp, intro]: "mq_shift {} {} m m"
  by (simp add: mq_shift_def)

lemma mq_shift_trans [trans]:
  assumes "mq_shift A B m m'" "mq_shift B C m' m''"
  shows "mq_shift A C m m''"
  unfolding mq_shift_def
proof (intro conjI allI impI)
  show "mq_msg_size m'' = mq_msg_size m" using assms by (simp add: mq_shift_def)
  fix W assume W: "A \<subseteq> W" "mq_holds m W"
  note s = mq_shiftD[OF assms(1) W]
  have B: "B \<subseteq> W - A \<union> B" by simp
  note r = mq_shiftD[OF assms(2) B s(2)]
  have e: "W - A \<union> B - B = W - A" using s(1) by blast
  show "(W - A) \<inter> C = {}" "mq_holds m'' (W - A \<union> C)" using r(1,2) unfolding e by simp_all
  show "\<forall>b \<in> W - A. mq_data m'' b = mq_data m b \<and> mq_next m'' b = mq_next m b"
    using r(3,4) s(3,4) unfolding e by simp
qed

subsection \<open>The steps of a send\<close>

lemma take_shift:
  assumes "mq_take_block m = Some (b, m')"
  shows "mq_shift {} {b} m m'"
proof (rule mq_shiftI)
  show "mq_msg_size m' = mq_msg_size m" using assms by (auto simp: mq_take_block_def split: option.splits)
  fix us fs ws assume rep: "mq_rep m us fs ws"
  then obtain c fs' where fs: "fs = c # fs'" using assms mq_take_block_spec(1)[OF rep] by (cases fs) auto
  then have c: "c = b" "mq_rep m' us fs' (b # ws)" "mq_data m' = mq_data m"
    using assms mq_take_block_spec(2)[OF rep fs] by auto
  have "mq_next m' = mq_next m" using assms by (auto simp: mq_take_block_def split: option.splits)
  moreover have "b \<notin> set ws" using mq_rep_disj(3)[OF c(2)] by simp
  ultimately show "\<exists>us' fs' ws'. mq_rep m' us' fs' ws' \<and> set ws' = set ws - {} \<union> {b} \<and> (set ws - {}) \<inter> {b} = {} \<and>
      (\<forall>b \<in> set ws - {}. mq_data m' b = mq_data m b \<and> mq_next m' b = mq_next m b)"
    using c(2,3) by (intro exI[of _ us] exI[of _ fs'] exI[of _ "b # ws"]) simp
qed

lemma fill_shift:
  assumes "unat sz \<le> length buf" "unat sz \<le> unat (mq_msg_size m)"
  shows "mq_shift {b} {b} m (mq_fill b buf sz m)"
proof (rule mq_shiftI)
  show "mq_msg_size (mq_fill b buf sz m) = mq_msg_size m" by (simp add: mq_fill_def)
  fix us fs ws assume rep: "mq_rep m us fs ws" and b: "{b} \<subseteq> set ws"
  then have "mq_rep (mq_fill b buf sz m) us fs ws" using mq_fill_spec(1)[OF rep _ assms] by simp
  then show "\<exists>us' fs' ws'. mq_rep (mq_fill b buf sz m) us' fs' ws' \<and> set ws' = set ws - {b} \<union> {b} \<and> (set ws - {b}) \<inter> {b} = {} \<and>
      (\<forall>c \<in> set ws - {b}. mq_data (mq_fill b buf sz m) c = mq_data m c \<and> mq_next (mq_fill b buf sz m) c = mq_next m c)"
    using b by (intro exI[of _ us] exI[of _ fs] exI[of _ ws]) (auto simp: mq_fill_def)
qed

lemma clear_shift: "mq_shift {b} {b} m (mq_clear_next b m)"
proof (rule mq_shiftI)
  show "mq_msg_size (mq_clear_next b m) = mq_msg_size m" by (simp add: mq_clear_next_def)
  fix us fs ws assume rep: "mq_rep m us fs ws" and b: "{b} \<subseteq> set ws"
  then have "mq_rep (mq_clear_next b m) us fs ws" using mq_clear_next_spec(1)[OF rep] by simp
  then show "\<exists>us' fs' ws'. mq_rep (mq_clear_next b m) us' fs' ws' \<and> set ws' = set ws - {b} \<union> {b} \<and> (set ws - {b}) \<inter> {b} = {} \<and>
      (\<forall>c \<in> set ws - {b}. mq_data (mq_clear_next b m) c = mq_data m c \<and> mq_next (mq_clear_next b m) c = mq_next m c)"
    using b by (intro exI[of _ us] exI[of _ fs] exI[of _ ws]) (auto simp: mq_clear_next_def)
qed

text \<open>What links a held block into one of the lists changes no other held block: the lists and
  the blocks in flight are disjoint.\<close>

lemma linked_shift:
  assumes size: "mq_msg_size m' = mq_msg_size m" and data: "mq_data m' = mq_data m"
    and rep: "\<And>us fs ws. mq_rep m us fs ws \<Longrightarrow> b \<in> set ws \<Longrightarrow> \<exists>us' fs'. mq_rep m' us' fs' (remove1 b ws)"
    and nxt: "\<And>us fs ws c. mq_rep m us fs ws \<Longrightarrow> c \<in> set ws \<Longrightarrow> c \<noteq> b \<Longrightarrow> mq_next m' c = mq_next m c"
  shows "mq_shift {b} {} m m'"
proof (rule mq_shiftI)
  fix us fs ws assume r: "mq_rep m us fs ws" and b: "{b} \<subseteq> set ws"
  obtain us' fs' where r': "mq_rep m' us' fs' (remove1 b ws)" using rep[OF r] b by auto
  have d: "distinct ws" by (rule mq_rep_disj(3)[OF r])
  have n: "mq_next m' c = mq_next m c" if "c \<in> set ws - {b}" for c using nxt[OF r] that by simp
  have "mq_rep m' us' fs' (remove1 b ws) \<and> set (remove1 b ws) = set ws - {b} \<union> {} \<and> (set ws - {b}) \<inter> {} = {} \<and>
      (\<forall>c \<in> set ws - {b}. mq_data m' c = mq_data m c \<and> mq_next m' c = mq_next m c)"
    using r' d n by (simp add: data)
  then show "\<exists>us' fs' ws'. mq_rep m' us' fs' ws' \<and> set ws' = set ws - {b} \<union> {} \<and> (set ws - {b}) \<inter> {} = {} \<and>
      (\<forall>c \<in> set ws - {b}. mq_data m' c = mq_data m c \<and> mq_next m' c = mq_next m c)" by blast
qed (rule size)

lemma link_tail_shift:
  assumes "mq_next m b = None"
  shows "mq_shift {b} {} m (mq_link_tail b m)"
proof (rule linked_shift)
  fix us fs ws assume rep: "mq_rep m us fs ws"
  {
    assume b: "b \<in> set ws"
    show "\<exists>us' fs'. mq_rep (mq_link_tail b m) us' fs' (remove1 b ws)"
      using mq_link_tail_spec(1)[OF rep b assms] by blast
  }
  fix c assume c: "c \<in> set ws" "c \<noteq> b"
  have "c \<noteq> last us" if "us \<noteq> []" using mq_rep_disj(5)[OF rep] c(1) last_in_set[OF that] by blast
  then show "mq_next (mq_link_tail b m) c = mq_next m c"
    using rep by (auto simp: mq_link_tail_def Let_def mq_rep_def split: if_splits)
qed (auto simp: mq_link_tail_def Let_def split: option.split)

lemma link_head_shift: "mq_shift {b} {} m (mq_link_head b m)"
proof (rule linked_shift)
  fix us fs ws assume rep: "mq_rep m us fs ws" and b: "b \<in> set ws"
  show "\<exists>us' fs'. mq_rep (mq_link_head b m) us' fs' (remove1 b ws)"
    using mq_link_head_spec(1)[OF rep b] by blast
qed (auto simp: mq_link_head_def Let_def)

subsection \<open>The steps of a receive\<close>

lemma unlink_shift:
  assumes "mq_unlink m = Some (b, m')"
  shows "mq_shift {} {b} m m'"
proof (rule mq_shiftI)
  show "mq_msg_size m' = mq_msg_size m" using assms by (auto simp: mq_unlink_def Let_def split: option.splits)
  fix us fs ws assume rep: "mq_rep m us fs ws"
  have nx: "mq_next m' = mq_next m" using assms by (auto simp: mq_unlink_def Let_def split: option.splits)
  have "us \<noteq> []" using rep assms by (auto simp: mq_unlink_def mq_rep_def)
  then obtain c us' where us: "us = c # us'" by (cases us) auto
  have c: "c = b" "mq_rep m' us' fs (b # ws)" "mq_data m' = mq_data m"
    using mq_unlink_spec[OF rep[unfolded us]] assms by auto
  have "b \<notin> set ws" using mq_rep_disj(3)[OF c(2)] by simp
  then show "\<exists>us' fs' ws'. mq_rep m' us' fs' ws' \<and> set ws' = set ws - {} \<union> {b} \<and> (set ws - {}) \<inter> {b} = {} \<and>
      (\<forall>b \<in> set ws - {}. mq_data m' b = mq_data m b \<and> mq_next m' b = mq_next m b)"
    using c(2,3) nx by (intro exI[of _ us'] exI[of _ fs] exI[of _ "b # ws"]) simp
qed

lemma release_shift: "mq_shift {b} {} m (mq_release b m)"
proof (rule linked_shift)
  fix us fs ws assume rep: "mq_rep m us fs ws" and b: "b \<in> set ws"
  show "\<exists>us' fs'. mq_rep (mq_release b m) us' fs' (remove1 b ws)"
    using mq_release_spec(1)[OF rep b] by blast
qed (auto simp: mq_release_def)

text \<open>A queue that holds something has a first message to unlink.\<close>

lemma holds_unlink:
  assumes "mq_holds m W" "mq_entry m \<noteq> 0"
  shows "\<exists>b m'. mq_unlink m = Some (b, m')"
proof -
  obtain us fs ws where rep: "mq_rep m us fs ws" using assms(1) by (auto simp: mq_holds_def)
  have "us \<noteq> []" using rep assms(2) by (auto simp: mq_rep_def)
  then obtain c us' where "us = c # us'" by (cases us) auto
  then show ?thesis using mq_unlink_spec[of m c us' fs ws] rep by auto
qed

text \<open>A send that nobody interrupts holds nothing before and after.\<close>

lemma send_shift:
  assumes take: "mq_take_block m = Some (b, m1)" and sz: "unat sz \<le> length buf" "unat sz \<le> unat (mq_msg_size m)"
  shows "mq_shift {} {} m (mq_link_tail b (mq_fill b buf sz (mq_clear_next b m1)))"
    "mq_shift {} {} m (mq_link_head b (mq_fill b buf sz m1))"
proof -
  note t = take_shift[OF take]
  have sz1: "unat sz \<le> unat (mq_msg_size m1)" "unat sz \<le> unat (mq_msg_size (mq_clear_next b m1))"
    using sz(2) mq_shift_size[OF t] by (simp_all add: mq_clear_next_def)
  have nx: "mq_next (mq_fill b buf sz (mq_clear_next b m1)) b = None" by (simp add: mq_fill_def mq_clear_next_def)
  show "mq_shift {} {} m (mq_link_tail b (mq_fill b buf sz (mq_clear_next b m1)))"
    by (rule mq_shift_trans[OF mq_shift_trans[OF mq_shift_trans[OF t clear_shift] fill_shift[OF sz(1) sz1(2)]] link_tail_shift[OF nx]])
  show "mq_shift {} {} m (mq_link_head b (mq_fill b buf sz m1))"
    by (rule mq_shift_trans[OF mq_shift_trans[OF t fill_shift[OF sz(1) sz1(1)]] link_head_shift])
qed

end
