(* ===== verification/Rtt_Served.thy ===== *)
theory Rtt_Served
  imports Rtt_Timely Rtt_Flight
begin

text \<open>
  What one kernel call on one object leaves alone: \<open>served ob\<close> says that the waiting lists
  and the contents of every other object, the sizes of the mailboxes and messages, the conditions of the
  threads waiting for events and the nesting counters are kept, that timers and object headers
  are as \<open>timely\<close> says, that no thread is told it was interrupted, and that a ready idle
  thread stays ready. It is reflexive and transitive, so a call serves its object when each of
  the steps it is made of does.
\<close>

fun waits :: "oref \<Rightarrow> qhead set" where
  "waits (OMailBox i) = {SuspendQ (OMailBox i), SenderQ i}"
| "waits ob = {SuspendQ ob}"

definition served :: "oref \<Rightarrow> kernel \<Rightarrow> kernel \<Rightarrow> bool" where
  "served ob k k' \<longleftrightarrow> timely k k' \<and>
     rt_interrupt_nest k' = rt_interrupt_nest k \<and> rt_scheduler_lock_nest k' = rt_scheduler_lock_nest k \<and>
     (\<forall>g. wait_head g \<longrightarrow> g \<notin> waits ob \<longrightarrow> tlist_of k' g = tlist_of k g) \<and>
     (\<forall>j. OSem j \<noteq> ob \<longrightarrow> k_sem k' j = k_sem k j) \<and>
     (\<forall>j. OMutex j \<noteq> ob \<longrightarrow> k_mutex k' j = k_mutex k j) \<and>
     (\<forall>j. OEvent j \<noteq> ob \<longrightarrow> k_event k' j = k_event k j) \<and>
     (\<forall>j. OMailBox j \<noteq> ob \<longrightarrow> k_mb k' j = k_mb k j) \<and>
     (\<forall>j. mb_size (k_mb k' j) = mb_size (k_mb k j)) \<and>
     (\<forall>j. OMsgQueue j \<noteq> ob \<longrightarrow> k_mq k' j = k_mq k j) \<and>
     (\<forall>j. mq_msg_size (k_mq k' j) = mq_msg_size (k_mq k j)) \<and>
     ((\<forall>i. ob \<noteq> OEvent i) \<longrightarrow> (\<forall>s. event_set (k_thread k' s) = event_set (k_thread k s) \<and>
        event_info (k_thread k' s) = event_info (k_thread k s))) \<and>
     (\<forall>s. th_error (k_thread k' s) = - RT_EINTR \<longrightarrow> th_error (k_thread k s) = - RT_EINTR) \<and>
     (thread_state (k_thread k idle_thread) = RT_THREAD_READY \<longrightarrow>
        thread_state (k_thread k' idle_thread) = RT_THREAD_READY)"

lemma served_refl [simp, intro]: "served ob k k"
  by (simp add: served_def)

lemma servedD:
  assumes "served ob k k'"
  shows "timely k k'" "rt_interrupt_nest k' = rt_interrupt_nest k" "rt_scheduler_lock_nest k' = rt_scheduler_lock_nest k"
    "x \<noteq> ob \<Longrightarrow> tlist_of k' (SuspendQ x) = tlist_of k (SuspendQ x)"
    "OSem j \<noteq> ob \<Longrightarrow> k_sem k' j = k_sem k j" "OMutex j \<noteq> ob \<Longrightarrow> k_mutex k' j = k_mutex k j"
    "OEvent j \<noteq> ob \<Longrightarrow> k_event k' j = k_event k j" "OMailBox j \<noteq> ob \<Longrightarrow> k_mb k' j = k_mb k j"
    "mb_size (k_mb k' j) = mb_size (k_mb k j)"
    "(\<And>i. ob \<noteq> OEvent i) \<Longrightarrow> event_set (k_thread k' s) = event_set (k_thread k s)"
    "(\<And>i. ob \<noteq> OEvent i) \<Longrightarrow> event_info (k_thread k' s) = event_info (k_thread k s)"
    "th_error (k_thread k' s) = - RT_EINTR \<Longrightarrow> th_error (k_thread k s) = - RT_EINTR"
    "thread_state (k_thread k idle_thread) = RT_THREAD_READY \<Longrightarrow> thread_state (k_thread k' idle_thread) = RT_THREAD_READY"
    "OMsgQueue j \<noteq> ob \<Longrightarrow> k_mq k' j = k_mq k j" "mq_msg_size (k_mq k' j) = mq_msg_size (k_mq k j)"
  using assms by (cases ob; simp add: served_def)+

lemma served_trans [trans]: "served ob k k' \<Longrightarrow> served ob k' k'' \<Longrightarrow> served ob k k''"
  using timely_trans by (auto simp: served_def)

text \<open>A step that keeps the objects and changes threads in the ways listed.\<close>

lemma served_keeps:
  assumes "keeps k k'" "timely k k'" "\<And>g. wait_head g \<Longrightarrow> g \<notin> waits ob \<Longrightarrow> tlist_of k' g = tlist_of k g"
    "\<And>s. event_set (k_thread k' s) = event_set (k_thread k s)" "\<And>s. event_info (k_thread k' s) = event_info (k_thread k s)"
    "\<And>s. th_error (k_thread k' s) = - RT_EINTR \<Longrightarrow> th_error (k_thread k s) = - RT_EINTR"
    "thread_state (k_thread k idle_thread) = RT_THREAD_READY \<Longrightarrow> thread_state (k_thread k' idle_thread) = RT_THREAD_READY"
  shows "served ob k k'"
  using assms by (simp add: served_def keeps_def)

lemma served_schedule: "rt_schedule k = Some k' \<Longrightarrow> served ob k k'"
  by (rule served_keeps) (simp_all add: keeps_schedule timely_schedule schedule_fields)

lemma served_set_error: "e \<noteq> - RT_EINTR \<Longrightarrow> served ob k (set_error t e k)"
  by (rule served_keeps[OF _ timely_upd(1)]) (auto simp: keeps_def split: if_splits)

lemma served_set_sem: "served (OSem i) k (set_sem i v k)"
  using timely_upd(3)[of k i v] by (auto simp: served_def set_sem_def)

lemma served_upd_mutex: "served (OMutex i) k (upd_mutex i f k)"
  using timely_upd(2)[of k i f] by (auto simp: served_def)

lemma served_set_event: "served (OEvent i) k (set_event i v k)"
  using timely_upd(4)[of k i v] by (auto simp: served_def set_event_def)

lemma served_upd_mb: "mb_size (f (k_mb k i)) = mb_size (k_mb k i) \<Longrightarrow> served (OMailBox i) k (upd_mb i f k)"
  using timely_upd(5)[of k i f] by (auto simp: served_def)

lemma served_upd_mq: "mq_msg_size (f (k_mq k i)) = mq_msg_size (k_mq k i) \<Longrightarrow> served (OMsgQueue i) k (upd_mq i f k)"
  using timely_upd(6)[of k i f] by (auto simp: served_def)

lemma served_list_resume:
  assumes inv: "kinv k" and h: "wait_head h" "h \<in> waits ob" and run: "rt_ipc_list_resume h k = Some k'"
  shows "served ob k k'"
proof -
  obtain t ts where q: "tlist_of k h = t # ts" using run by (auto simp: rt_ipc_list_resume_def split: list.splits)
  obtain k1 where k1: "rt_ipc_list_resume h k = Some k1" "keeps k k1"
    "\<And>g. wait_head g \<Longrightarrow> g \<noteq> h \<Longrightarrow> tlist_of k1 g = tlist_of k g"
    "k_thread k1 = (k_thread k)(t := readied (k_thread k t))"
    by (rule list_resume_spec[OF inv h(1) q]) (rule that; assumption)
  have e: "k1 = k'" using run k1(1) by simp
  note f = k1(2-4)[unfolded e]
  have q: "tlist_of k' g = tlist_of k g" if "wait_head g" "g \<notin> waits ob" for g using f(2)[of g] that h(2) by auto
  show ?thesis by (rule served_keeps[OF f(1) timely_list_resume[OF run] q]) (auto simp: f(3) split: if_splits)
qed

lemma served_wake_waiter:
  assumes inv: "kinv k" and h: "wait_head h" "h \<in> waits ob" and run: "wake_waiter h k = Some k'"
  shows "served ob k k'"
proof (cases "tlist_of k h = []")
  case False
  then obtain k1 where k1: "rt_ipc_list_resume h k = Some k1" "rt_schedule k1 = Some k'"
    using run by (auto simp: wake_waiter_def bind_eq_Some_conv)
  show ?thesis by (rule served_trans[OF served_list_resume[OF inv h k1(1)] served_schedule[OF k1(2)]])
qed (use run in \<open>simp add: wake_waiter_def\<close>)

lemma served_ipc_wait:
  assumes inv: "kinv k" and cb: "can_block t k" and h: "wait_head h" "h \<in> waits ob"
    and fl: "flag = RT_IPC_FLAG_FIFO \<or> flag = RT_IPC_FLAG_PRIO" and tm: "time < 2 ^ 31 - 1"
    and run: "ipc_wait h flag time t k = Some k'"
  shows "served ob k k'"
proof -
  obtain k1 where k1: "ipc_wait h flag time t k = Some k1" "keeps k k1"
    "\<And>g. wait_head g \<Longrightarrow> g \<noteq> h \<Longrightarrow> tlist_of k1 g = tlist_of k g"
    "k_thread k1 = (k_thread k)(t := suspended (k_thread k t))"
    by (rule block_spec[OF inv cb h(1) fl tm]) (rule that; assumption)
  have e: "k1 = k'" using run k1(1) by simp
  note f = k1(2-4)[unfolded e]
  have q: "tlist_of k' g = tlist_of k g" if "wait_head g" "g \<notin> waits ob" for g using f(2)[of g] that h(2) by auto
  show ?thesis
    by (rule served_keeps[OF f(1) timely_ipc_wait[OF inv can_blockD(3)[OF cb] h(1) fl tm run] q])
      (use can_blockD(4)[OF cb] in \<open>auto simp: f(3) split: if_splits\<close>)
qed

lemma change_priority_event_fields:
  assumes "change_priority t p k = Some k'"
  shows "event_set (k_thread k' s) = event_set (k_thread k s)" "event_info (k_thread k' s) = event_info (k_thread k s)"
  using assms
  by (auto simp: change_priority_def set_priority_def rt_schedule_remove_thread_def rt_schedule_insert_thread_def
      tlist_remove_def tlist_insert_before_def Let_def bind_eq_Some_conv split: if_splits)

lemma served_change_priority:
  assumes inv: "kinv k" and p: "unat p < 32" and run: "change_priority t p k = Some k'"
  shows "served ob k k'"
proof -
  obtain k1 where k1: "change_priority t p k = Some k1" "keeps k k1"
    "\<forall>s. s \<noteq> t \<longrightarrow> k_thread k1 s = k_thread k s"
    "thread_state (k_thread k1 t) = thread_state (k_thread k t)"
    "th_error (k_thread k1 t) = th_error (k_thread k t)"
    "\<forall>h. (\<forall>q. h \<noteq> ReadyQ q) \<longrightarrow> tlist_of k1 h = tlist_of k h"
    by (rule change_priority_spec[OF inv p]) (rule that; assumption)
  have e: "k1 = k'" using run k1(1) by simp
  have th: "th_error (k_thread k' s) = th_error (k_thread k s)"
    "thread_state (k_thread k' s) = thread_state (k_thread k s)" for s
    using k1(3-5) by (cases "s = t"; simp add: e)+
  have q: "tlist_of k' g = tlist_of k g" if "wait_head g" for g
    using k1(6) that by (cases g) (auto simp: e)
  show ?thesis
    using k1(2) by (intro served_keeps timely_change_priority[OF run] q) (auto simp: e th change_priority_event_fields[OF run])
qed

subsection \<open>The running thread is ready\<close>

definition cur_ready :: "kernel \<Rightarrow> bool" where
  "cur_ready k \<longleftrightarrow> (\<exists>t. rt_current_thread k = Some t \<and> thread_state (k_thread k t) = RT_THREAD_READY)"

lemma highest_cur_ready:
  assumes "kinv k" "highest_runs k" shows "cur_ready k"
proof -
  obtain p t ts where t: "rt_current_thread k = Some t" "tlist_of k (ReadyQ p) = t # ts"
    using assms(2) by (auto simp: highest_runs_def)
  note s = kinvD(1)[OF assms(1)]
  have "ls_on (k_tlist k) t = Some (ReadyQ p)" using t(2) ls_wf_on[OF sched_inv_wf[OF s], of t "ReadyQ p"] by simp
  then have "thread_state (k_thread k t) = RT_THREAD_READY" using sched_inv_place[OF s, of t] by simp
  then show ?thesis using t(1) by (simp add: cur_ready_def)
qed

lemma schedule_cur_ready:
  assumes "kinv k" "thread_state (k_thread k s) = RT_THREAD_READY" "rt_current_thread k \<noteq> None"
    "rt_scheduler_lock_nest k = 0" "rt_schedule k = Some k'"
  shows "cur_ready k'"
proof -
  obtain k1 where "rt_schedule k = Some k1" "kinv k1" "rt_scheduler_lock_nest k = 0 \<Longrightarrow> highest_runs k1"
    by (rule schedule_ready[OF assms(1-3)]) (rule that; assumption)
  then show ?thesis using assms(4,5) highest_cur_ready by auto
qed

lemma cur_ready_keep:
  "cur_ready k \<Longrightarrow> rt_current_thread k' = rt_current_thread k \<Longrightarrow>
   (\<And>s. thread_state (k_thread k s) = RT_THREAD_READY \<Longrightarrow> thread_state (k_thread k' s) = RT_THREAD_READY) \<Longrightarrow> cur_ready k'"
  by (auto simp: cur_ready_def)

end
