(* ===== verification/Rtt_Syscalls.thy ===== *)
theory Rtt_Syscalls
  imports Rtt_Served
begin

text \<open>
  The invariant of the whole kernel, and that every system call a thread may make returns or
  waits with the invariant kept.
\<close>

definition sys_ok :: "kernel \<Rightarrow> bool" where
  "sys_ok k \<longleftrightarrow> clock_inv k \<and> sem_inv k \<and> mutex_inv k \<and> event_inv k \<and> mb_inv k \<and>
     rt_interrupt_nest k = 0 \<and> rt_scheduler_lock_nest k = 0 \<and> cur_ready k \<and>
     (\<forall>s. th_error (k_thread k s) \<noteq> - RT_EINTR)"

lemma sys_okD:
  assumes "sys_ok k"
  shows "kinv k" "timers_ok k" "rt_current_thread k \<noteq> None" "thread_state (k_thread k idle_thread) = RT_THREAD_READY"
    "sem_inv k" "mutex_inv k" "event_inv k" "mb_inv k" "rt_interrupt_nest k = 0" "rt_scheduler_lock_nest k = 0"
    "cur_ready k" "th_error (k_thread k s) \<noteq> - RT_EINTR"
  using assms by (simp_all add: sys_ok_def clock_inv_alt)

lemma sys_ok_can_block: "sys_ok k \<Longrightarrow> rt_current_thread k = Some t \<Longrightarrow> t \<noteq> idle_thread \<Longrightarrow> can_block t k"
  using sys_okD(4,9,11)[of k] by (simp add: can_block_def cur_ready_def)

lemma sys_ok_served:
  assumes ok: "sys_ok k" and inv: "kinv k'" and sv: "served ob k k'" and cur: "cur_ready k'"
    and own: "\<And>i. ob = OSem i \<Longrightarrow> sem_inv k'" "\<And>i. ob = OMutex i \<Longrightarrow> mutex_inv k'"
      "\<And>i. ob = OEvent i \<Longrightarrow> event_inv k'" "\<And>i. ob = OMailBox i \<Longrightarrow> mb_inv k'"
  shows "sys_ok k'"
proof -
  note o = sys_okD[OF ok]
  note f = servedD[OF sv]
  have "sem_inv k'"
  proof (cases "\<exists>i. ob = OSem i")
    case False
    then have n: "OSem i \<noteq> ob" for i by metis
    have "k_sem k' i = k_sem k i" "tlist_of k' (sem_queue i) = tlist_of k (sem_queue i)" for i
      using f(4)[OF n] f(5)[OF n] by blast+
    then show ?thesis using o(5) by (simp add: sem_inv_def)
  qed (use own(1) in auto)
  moreover have "mutex_inv k'"
  proof (cases "\<exists>i. ob = OMutex i")
    case False
    then have n: "OMutex i \<noteq> ob" for i by metis
    have "k_mutex k' i = k_mutex k i" "tlist_of k' (mutex_queue i) = tlist_of k (mutex_queue i)" for i
      using f(4)[OF n] f(6)[OF n] by blast+
    then show ?thesis using o(6) by (simp add: mutex_inv_def)
  qed (use own(2) in auto)
  moreover have "event_inv k'"
  proof (cases "\<exists>i. ob = OEvent i")
    case False
    then have n: "OEvent i \<noteq> ob" for i by metis
    have "k_event k' i = k_event k i" "tlist_of k' (event_queue i) = tlist_of k (event_queue i)" for i
      using f(4)[OF n] f(7)[OF n] by blast+
    moreover have "event_set (k_thread k' s) = event_set (k_thread k s)" "event_info (k_thread k' s) = event_info (k_thread k s)" for s
      using f(10,11) n by metis+
    ultimately show ?thesis using o(7) by (simp add: event_inv_def)
  qed (use own(3) in auto)
  moreover have "mb_inv k'"
  proof (cases "\<exists>i. ob = OMailBox i")
    case False
    then have n: "OMailBox i \<noteq> ob" for i by metis
    have "k_mb k' i = k_mb k i" for i by (rule f(8)[OF n])
    then show ?thesis using o(8) by (simp add: mb_inv_def)
  qed (use own(4) in auto)
  moreover have "clock_inv k'"
    using o(2) inv cur f(13)[OF o(4)] f(1) by (auto simp: clock_inv_alt timely_def cur_ready_def)
  moreover have "th_error (k_thread k' s) \<noteq> - RT_EINTR" for s
    using f(12)[of s] o(12)[of s] by blast
  ultimately show ?thesis using o(9,10) f(2,3) cur by (simp add: sys_ok_def)
qed

subsection \<open>Semaphores\<close>

lemma sem_take_sys:
  assumes ok: "sys_ok k" and cb: "can_block t k" and fl: "valid_flag (OSem i) k" and tm: "time < 2 ^ 31 - 1"
  shows "\<exists>k' r. rt_sem_take i time k = Some (k', r) \<and> sys_ok k' \<and> served (OSem i) k k'"
proof -
  note o = sys_okD[OF ok]
  obtain k' r where k': "rt_sem_take i time k = Some (k', r)" "kinv k'" "sem_inv k'"
    using sem_take_inv[OF o(1,5) cb fl tm] by blast
  consider "0 < k_sem k i" | "k_sem k i = 0" "time = 0" | "k_sem k i = 0" "time \<noteq> 0" by (cases "k_sem k i = 0") (auto simp: word_gt_0)
  then have "served (OSem i) k k' \<and> cur_ready k'"
  proof cases
    case 1
    then have "k' = set_sem i (k_sem k i - 1) k" using k'(1) sem_take_available[OF 1] by simp
    then show ?thesis using o(11) served_set_sem by (auto simp: cur_ready_def set_sem_def)
  next
    case 2
    then have "k' = k" using k'(1) sem_take_poll by simp
    then show ?thesis using o(11) by simp
  next
    case 3
    let ?k = "set_error t RT_EOK k"
    have w: "ipc_wait (sem_queue i) (obj_ipc_flag (OSem i) ?k) time t ?k = Some k'"
      using k'(1) 3 can_blockD(6)[OF cb] by (auto simp: rt_sem_take_def Let_def bind_eq_Some_conv)
    have cb1: "can_block t ?k" and inv1: "kinv ?k" using cb o(1) by (simp_all add: kinv_set_error del: upd_thread_def)
    have fl1: "valid_flag (OSem i) ?k" using fl by (simp add: valid_flag_def obj_ipc_flag_def)
    have "served (OSem i) k ?k" by (rule served_set_error) simp
    also have "served (OSem i) ?k k'"
      by (rule served_ipc_wait[OF inv1 cb1 _ _ fl1[unfolded valid_flag_def] tm w]) simp_all
    finally have "served (OSem i) k k'" .
    moreover have "cur_ready k'"
    proof -
      obtain k1 where "rt_sem_take i time k = Some (k1, Wait)" "kinv k1" "rt_scheduler_lock_nest k = 0 \<Longrightarrow> highest_runs k1"
        by (rule sem_take_block[OF o(1) cb 3 tm fl]) (rule that; assumption)
      then show ?thesis using k'(1) o(10) highest_cur_ready by auto
    qed
    ultimately show ?thesis ..
  qed
  then show ?thesis using k' sys_ok_served[OF ok k'(2), of "OSem i"] by auto
qed

lemma sem_release_sys:
  assumes ok: "sys_ok k"
  shows "\<exists>k'. rt_sem_release i k = Some (k', RT_EOK) \<and> sys_ok k' \<and> served (OSem i) k k'"
proof -
  note o = sys_okD[OF ok]
  obtain k' where k': "rt_sem_release i k = Some (k', RT_EOK)" "kinv k'" "sem_inv k'"
    using sem_release_inv[OF o(1,5,3)] by blast
  have "served (OSem i) k k' \<and> cur_ready k'"
  proof (cases "tlist_of k (sem_queue i)")
    case Nil
    then have "k' = set_sem i (k_sem k i + 1) k" using k'(1) sem_release_post by simp
    then show ?thesis using o(11) served_set_sem by (auto simp: cur_ready_def set_sem_def)
  next
    case (Cons w ws)
    then obtain k1 where k1: "rt_ipc_list_resume (sem_queue i) k = Some k1" "rt_schedule k1 = Some k'"
      using k'(1) by (auto simp: rt_sem_release_def bind_eq_Some_conv)
    obtain k2 where "rt_sem_release i k = Some (k2, RT_EOK)" "kinv k2" "rt_scheduler_lock_nest k = 0 \<Longrightarrow> highest_runs k2"
      by (rule sem_release_wake[OF o(1) Cons o(3)]) (rule that; assumption)
    then have "cur_ready k'" using k'(1) o(10) highest_cur_ready by auto
    moreover have "served (OSem i) k k'"
      by (rule served_trans[OF served_list_resume[OF o(1) _ _ k1(1)] served_schedule[OF k1(2)]]) simp_all
    ultimately show ?thesis by blast
  qed
  then show ?thesis using k' sys_ok_served[OF ok k'(2), of "OSem i"] by auto
qed

subsection \<open>Mutexes\<close>

lemma ipc_wait_cur_ready:
  assumes inv: "kinv k" and cb: "can_block t k" and h: "wait_head h"
    and fl: "flag = RT_IPC_FLAG_FIFO \<or> flag = RT_IPC_FLAG_PRIO" and tm: "time < 2 ^ 31 - 1"
    and lock: "rt_scheduler_lock_nest k = 0" and run: "ipc_wait h flag time t k = Some k'"
  shows "cur_ready k'"
proof -
  obtain k1 where "ipc_wait h flag time t k = Some k1" "kinv k1" "rt_scheduler_lock_nest k = 0 \<Longrightarrow> highest_runs k1"
    by (rule block_spec[OF inv cb h fl tm]) (rule that; assumption)
  then show ?thesis using run lock highest_cur_ready by auto
qed

lemma mutex_try_served:
  assumes inv: "kinv k" and cb: "can_block t k" and fl: "valid_flag (OMutex i) k" and tm: "time < 2 ^ 31 - 1"
    and lock: "rt_scheduler_lock_nest k = 0" and ow: "owner (k_mutex k i) \<noteq> Some t" and cur: "cur_ready k"
    and run: "mutex_try i time t k = Some (k', r)"
  shows "served (OMutex i) k k' \<and> cur_ready k'"
proof -
  let ?p = "current_priority (k_thread k t)"
  consider "0 < mx_value (k_mutex k i)" | "mx_value (k_mutex k i) = 0" "time = 0" | "mx_value (k_mutex k i) = 0" "time \<noteq> 0"
    by (cases "mx_value (k_mutex k i) = 0") (auto simp: word_gt_0)
  then show ?thesis
  proof cases
    case 1
    then have k': "k' = upd_mutex i (\<lambda>m. acquire t ?p (m\<lparr>mx_value := mx_value m - 1\<rparr>)) k"
      using run by (simp add: mutex_try_def del: upd_mutex_def)
    show ?thesis unfolding k' using served_upd_mutex cur by (auto simp: cur_ready_def)
  next
    case 2
    then have k': "k' = set_error t (- RT_ETIMEOUT) k" using run by (simp add: mutex_try_def del: upd_thread_def)
    have "served (OMutex i) k k'" unfolding k' by (rule served_set_error) simp
    moreover have "cur_ready k'" by (rule cur_ready_keep[OF cur]) (auto simp: k')
    ultimately show ?thesis ..
  next
    case 3
    then obtain o1 k1 where o1: "owner (k_mutex k i) = Some o1" and k1: "raise_owner o1 ?p k = Some k1"
      and w: "ipc_wait (mutex_queue i) (obj_ipc_flag (OMutex i) k1) time t k1 = Some k'"
      using run by (auto simp: mutex_try_def bind_eq_Some_conv Let_def)
    have ne: "o1 \<noteq> t" using ow o1 by simp
    obtain k2 where k2: "raise_owner o1 ?p k = Some k2" "kinv k2" "keeps k k2" "can_block t k2" "k_object k2 = k_object k"
      by (rule inherit_spec[OF inv cb ne]) (rule that; assumption)
    have e: "k2 = k1" using k1 k2(1) by simp
    note f = k2(2-5)[unfolded e]
    have fl1: "obj_ipc_flag (OMutex i) k1 = RT_IPC_FLAG_FIFO \<or> obj_ipc_flag (OMutex i) k1 = RT_IPC_FLAG_PRIO"
      using fl f(4) by (simp add: valid_flag_def obj_ipc_flag_def)
    have p: "unat ?p < 32" using sched_inv_prio[OF kinvD(1)[OF inv], of t] by (simp add: prio_ok_def)
    have "served (OMutex i) k k1"
      using k1 served_change_priority[OF inv p] by (auto simp: raise_owner_def split: if_splits)
    also have "served (OMutex i) k1 k'" by (rule served_ipc_wait[OF f(1,3) _ _ fl1 tm w]) simp_all
    finally have "served (OMutex i) k k'" .
    moreover have "cur_ready k'"
      by (rule ipc_wait_cur_ready[OF f(1,3) _ fl1 tm _ w]) (use f(2) lock in \<open>simp_all add: keeps_def\<close>)
    ultimately show ?thesis ..
  qed
qed

lemma mutex_take_sys:
  assumes ok: "sys_ok k" and cb: "can_block t k" and fl: "valid_flag (OMutex i) k" and tm: "time < 2 ^ 31 - 1"
    and init: "mx_value (k_mutex k i) = 1 \<or> owner (k_mutex k i) \<noteq> None" and nest: "hold (k_mutex k i) < 255"
  shows "\<exists>k' r. rt_mutex_take i time k = Some (k', r) \<and> sys_ok k' \<and> served (OMutex i) k k'"
proof -
  note o = sys_okD[OF ok]
  obtain k' r where k': "rt_mutex_take i time k = Some (k', r)" "kinv k'" "mutex_inv k'"
    using mutex_take_inv[OF o(1,6) cb fl tm init nest] by blast
  let ?k = "set_error t RT_EOK k"
  have sv: "served (OMutex i) k ?k" by (rule served_set_error) simp
  have cb1: "can_block t ?k" and inv1: "kinv ?k" using cb o(1) by (simp_all add: kinv_set_error del: upd_thread_def)
  have fl1: "valid_flag (OMutex i) ?k" using fl by (simp add: valid_flag_def obj_ipc_flag_def)
  have cur1: "cur_ready ?k" by (rule cur_ready_keep[OF o(11)]) auto
  have run: "(if owner (k_mutex ?k i) = Some t
      then Some (upd_mutex i (\<lambda>m. m\<lparr>hold := hold m + 1\<rparr>) ?k, Done RT_EOK)
      else mutex_try i time t ?k) = Some (k', r)"
    using k'(1) can_blockD(6)[OF cb] unfolding rt_mutex_take_def Let_def by (simp only: bind.bind_lunit)
  have "served (OMutex i) ?k k' \<and> cur_ready k'"
  proof (cases "owner (k_mutex ?k i) = Some t")
    case True
    then have e: "k' = upd_mutex i (\<lambda>m. m\<lparr>hold := hold m + 1\<rparr>) ?k" using run by simp
    have "cur_ready k'" by (rule cur_ready_keep[OF cur1]) (simp_all add: e)
    then show ?thesis using served_upd_mutex unfolding e by blast
  next
    case False
    then have "mutex_try i time t ?k = Some (k', r)" using run by (simp only: if_False)
    then show ?thesis by (rule mutex_try_served[OF inv1 cb1 fl1 tm _ False cur1, rotated]) (use o(10) in simp)
  qed
  then have "served (OMutex i) k k'" "cur_ready k'" using served_trans[OF sv] by blast+
  then show ?thesis using k' sys_ok_served[OF ok k'(2), of "OMutex i"] by auto
qed

lemma change_priority_sys:
  assumes inv: "kinv k" and p: "unat p < 32" and run: "change_priority t p k = Some k'"
  shows "kinv k'" "served ob k k'" "rt_current_thread k' = rt_current_thread k"
    "thread_state (k_thread k' s) = thread_state (k_thread k s)"
proof -
  obtain k1 where k1: "change_priority t p k = Some k1" "kinv k1"
    "\<forall>s. s \<noteq> t \<longrightarrow> k_thread k1 s = k_thread k s" "thread_state (k_thread k1 t) = thread_state (k_thread k t)"
    "rt_current_thread k1 = rt_current_thread k"
    by (rule change_priority_spec[OF inv p]) (rule that; assumption)
  have e: "k1 = k'" using run k1(1) by simp
  show "kinv k'" "rt_current_thread k' = rt_current_thread k" using k1(2,5) by (simp_all add: e)
  show "thread_state (k_thread k' s) = thread_state (k_thread k s)" using k1(3,4) by (cases "s = t") (simp_all add: e)
  show "served ob k k'" by (rule served_change_priority[OF inv p run])
qed

lemma restore_priority_sys:
  assumes inv: "kinv k" and p: "unat p < 32" and cur: "cur_ready k" and run: "restore_priority t p k = Some k'"
  shows "kinv k'" "served ob k k'" "cur_ready k'"
proof -
  have "kinv k' \<and> served ob k k' \<and> cur_ready k'"
  proof (cases "p = current_priority (k_thread k t)")
    case False
    then have c: "change_priority t p k = Some k'" using run by (auto simp: restore_priority_def)
    note s = change_priority_sys[OF inv p c]
    have "cur_ready k'" by (rule cur_ready_keep[OF cur s(3)]) (simp add: s(4))
    then show ?thesis using s(1) s(2)[of ob] by simp
  qed (use run inv cur in \<open>simp add: restore_priority_def\<close>)
  then show "kinv k'" "served ob k k'" "cur_ready k'" by blast+
qed

lemma mutex_release_sys:
  assumes ok: "sys_ok k" and cb: "can_block t k"
  shows "\<exists>k' e. rt_mutex_release i k = Some (k', e) \<and> sys_ok k' \<and> served (OMutex i) k k'"
proof -
  note o = sys_okD[OF ok] and c = can_blockD[OF cb]
  let ?k = "upd_mutex i (\<lambda>m. m\<lparr>hold := hold m - 1\<rparr>) k"
  have cur1: "cur_ready ?k" by (rule cur_ready_keep[OF o(11)]) auto
  consider "owner (k_mutex k i) \<noteq> Some t" | "owner (k_mutex k i) = Some t" "hold (k_mutex k i) \<noteq> 1"
    | "owner (k_mutex k i) = Some t" "hold (k_mutex k i) = 1" by blast
  then show ?thesis
  proof cases
    case 1
    let ?k' = "set_error t (- RT_ERROR) k"
    have "served (OMutex i) k ?k'" by (rule served_set_error) simp
    moreover have "cur_ready ?k'" by (rule cur_ready_keep[OF o(11)]) auto
    moreover have "mutex_inv ?k'" using o(6) by (simp add: mutex_inv_def)
    moreover have "kinv ?k'" by (rule kinv_set_error[OF o(1)])
    ultimately have "sys_ok ?k'" "served (OMutex i) k ?k'" using sys_ok_served[OF ok, of ?k' "OMutex i"] by auto
    then show ?thesis using mutex_release_not_owner[OF cb 1] by blast
  next
    case 2
    have "mutex_ok (k_mutex k i) (tlist_of k (mutex_queue i))" using o(6) by (simp add: mutex_inv_def)
    then have "mutex_ok (k_mutex ?k i) (tlist_of ?k (mutex_queue i))"
      using 2 by (auto simp: mutex_ok_def unat_gt_0 word_gt_0)
    then have "mutex_inv ?k" by (intro mutex_inv_step[OF o(6)]) auto
    moreover have "kinv ?k" using o(1) by (simp del: upd_mutex_def)
    ultimately have "sys_ok ?k" using sys_ok_served[OF ok _ served_upd_mutex cur1] by blast
    then show ?thesis using mutex_release_nested[OF cb 2] served_upd_mutex by blast
  next
    case 3
    obtain k' where k': "rt_mutex_release i k = Some (k', RT_EOK)" "kinv k'" "mutex_inv k'"
      by (rule mutex_release_last[OF o(1,6) cb 3]) (rule that)
    let ?p = "original_priority (k_mutex k i)"
    have inv1: "kinv ?k" using o(1) by (simp del: upd_mutex_def)
    have p: "unat ?p < 32" using o(6) 3(1) by (force simp: mutex_inv_def mutex_ok_def split: option.splits)
    obtain k1 where k1: "restore_priority t ?p ?k = Some k1"
      and run: "(case tlist_of k1 (mutex_queue i) of
              w # _ \<Rightarrow> Option.bind (rt_ipc_list_resume (mutex_queue i)
                 (upd_mutex i (acquire w (current_priority (k_thread k1 w))) k1))
                 (\<lambda>k. Option.bind (rt_schedule k) (\<lambda>k. Some (k, RT_EOK)))
            | [] \<Rightarrow> Some (upd_mutex i (\<lambda>m. m\<lparr>mx_value := mx_value m + 1, owner := None,
                            original_priority := 0xff\<rparr>) k1, RT_EOK)) = Some (k', RT_EOK)"
      using k'(1) 3 c(6) by (auto simp: rt_mutex_release_def bind_eq_Some_conv Let_def cong: list.case_cong)
    note r = restore_priority_sys[OF inv1 p cur1 k1]
    have "served (OMutex i) k k1" by (rule served_trans[OF served_upd_mutex r(2)])
    moreover have "served (OMutex i) k1 k' \<and> cur_ready k'"
    proof (cases "tlist_of k1 (mutex_queue i)")
      case Nil
      then have e: "k' = upd_mutex i (\<lambda>m. m\<lparr>mx_value := mx_value m + 1, owner := None, original_priority := 0xff\<rparr>) k1"
        using run by (simp del: upd_mutex_def)
      have "cur_ready k'" by (rule cur_ready_keep[OF r(3)]) (auto simp: e)
      then show ?thesis using served_upd_mutex unfolding e by blast
    next
      case (Cons w ws)
      let ?k2 = "upd_mutex i (acquire w (current_priority (k_thread k1 w))) k1"
      have inv2: "kinv ?k2" using r(1) by (simp del: upd_mutex_def)
      obtain k3 where k3: "rt_ipc_list_resume (mutex_queue i) ?k2 = Some k3" "rt_schedule k3 = Some k'"
        using run Cons by (auto simp: bind_eq_Some_conv simp del: upd_mutex_def)
      have h: "wait_head (mutex_queue i)" "mutex_queue i \<in> waits (OMutex i)" by simp_all
      have q: "tlist_of ?k2 (mutex_queue i) = w # ws" using Cons by simp
      obtain k4 where k4: "rt_ipc_list_resume (mutex_queue i) ?k2 = Some k4" "kinv k4"
        "k_thread k4 = (k_thread ?k2)(w := readied (k_thread ?k2 w))" "rt_current_thread k4 = rt_current_thread ?k2"
        by (rule list_resume_spec[OF inv2 h(1) q]) (rule that; assumption)
      have e: "k4 = k3" using k4(1) k3(1) by simp
      have sv3: "served (OMutex i) ?k2 k3" by (rule served_list_resume[OF inv2 h k3(1)])
      have "served (OMutex i) k1 k'"
        by (rule served_trans[OF served_upd_mutex served_trans[OF sv3 served_schedule[OF k3(2)]]])
      moreover have "cur_ready k'"
      proof (rule schedule_cur_ready[OF _ _ _ _ k3(2)])
        show "kinv k3" "thread_state (k_thread k3 w) = RT_THREAD_READY" using k4(2,3) by (simp_all add: e)
        show "rt_current_thread k3 \<noteq> None" using k4(4) r(3) by (auto simp: e cur_ready_def)
        show "rt_scheduler_lock_nest k3 = 0" using servedD(3)[OF sv3] servedD(3)[OF r(2)] o(10) by simp
      qed
      ultimately show ?thesis ..
    qed
    ultimately have "served (OMutex i) k k'" "cur_ready k'" using served_trans by blast+
    then show ?thesis using k'(1) sys_ok_served[OF ok k'(2), of "OMutex i"] k'(3) by auto
  qed
qed

subsection \<open>Events\<close>

lemma resume_error:
  "rt_thread_resume t k = Some (k', e) \<Longrightarrow> th_error (k_thread k' s) = th_error (k_thread k s)"
  by (auto simp: rt_thread_resume_def rt_schedule_insert_thread_def tlist_insert_before_def tlist_remove_def
      rt_timer_stop_fields Let_def bind_eq_Some_conv split: if_splits)

lemma event_scan_served:
  assumes "kinv k" "set ts \<subseteq> set (tlist_of k (event_queue i))" "distinct ts" "event_scan i ts need k = Some (need', k')"
  shows "served (OEvent i) k k'"
  using assms
proof (induction ts arbitrary: k need)
  case (Cons t ts)
  let ?th = "k_thread k t"
  obtain m got where m: "event_match (event_info ?th) (event_set ?th) (k_event k i) = (m, got)" by fastforce
  show ?case
  proof (cases m)
    case False
    then have "event_scan i ts need k = Some (need', k')" using Cons.prems(4) m by simp
    then show ?thesis using Cons.IH[OF Cons.prems(1)] Cons.prems(2,3) by simp
  next
    case True
    let ?u = "upd_thread t (\<lambda>th. th\<lparr>event_set := got\<rparr>) k"
    let ?k0 = "if event_info ?th AND RT_EVENT_FLAG_CLEAR \<noteq> 0 then set_event i (k_event k i AND NOT got) ?u else ?u"
    have t: "t \<in> set (tlist_of k (event_queue i))" using Cons.prems(2) by simp
    have mt: "event_match (event_info ?th) (event_set ?th) (k_event k i) = (True, got)" using m True by simp
    obtain k1 where k1: "rt_thread_resume t ?k0 = Some (k1, RT_EOK)" "kinv k1" "event_frame i k k1"
      "tlist_of k1 (event_queue i) = remove1 t (tlist_of k (event_queue i))"
      "\<And>s. s \<noteq> t \<Longrightarrow> k_thread k1 s = k_thread k s" "thread_state (k_thread k1 t) = RT_THREAD_READY"
      by (rule event_wake[OF Cons.prems(1) t mt]) (rule that; assumption)
    have rest: "event_scan i ts True k1 = Some (need', k')"
      using Cons.prems(4) mt k1(1) by (simp add: Let_def cong: if_cong)
    have "timely k ?u" by (rule timely_upd(1))
    also have "timely ?u ?k0" using timely_upd(4) by simp
    also have "timely ?k0 k1" by (rule timely_resume[OF k1(1)])
    finally have tm: "timely k k1" .
    have er: "th_error (k_thread k1 s) = th_error (k_thread k s)" for s
      using resume_error[OF k1(1), of s] by (simp add: set_event_def)
    have "served (OEvent i) k k1"
      using k1(3) tm er k1(5,6)
      by (cases "t = idle_thread") (auto simp: served_def event_frame_def keeps_def)
    also have "served (OEvent i) k1 k'"
      by (rule Cons.IH[OF k1(2) _ _ rest])
        (use Cons.prems(2,3) k1(4) in \<open>auto simp: set_remove1_eq[OF ls_wf_distinct[OF sched_inv_wf[OF kinvD(1)[OF Cons.prems(1)]]]]\<close>)
    finally show ?thesis .
  qed
qed simp

lemma event_send_sys:
  assumes ok: "sys_ok k"
  shows "\<exists>k' e. rt_event_send i flags k = Some (k', e) \<and> sys_ok k' \<and> served (OEvent i) k k'"
proof (cases "flags = 0")
  case True
  then show ?thesis using ok by (simp add: rt_event_send_def)
next
  case False
  note o = sys_okD[OF ok]
  obtain k' where k': "rt_event_send i flags k = Some (k', RT_EOK)" "kinv k'" "event_inv k'"
    by (rule event_send_spec[OF o(1,7,3) False]) (rule that)
  let ?k = "set_event i (k_event k i OR flags) k"
  let ?ts = "tlist_of k (event_queue i)"
  have q: "tlist_of ?k (event_queue i) = ?ts" by (simp add: set_event_def)
  have inv1: "kinv ?k" using o(1) by simp
  have sub: "set ?ts \<subseteq> set (tlist_of ?k (event_queue i))" using q by simp
  have dist: "distinct ?ts" by (rule ls_wf_distinct[OF sched_inv_wf[OF kinvD(1)[OF o(1)]]])
  obtain need k1 where k1: "event_scan i ?ts False ?k = Some (need, k1)" "kinv k1" "event_frame i ?k k1"
    "\<forall>t. t \<notin> set ?ts \<longrightarrow> k_thread k1 t = k_thread ?k t"
    using event_scan_spec[OF inv1 sub dist, of False] by blast
  have run: "(if need then map_option (\<lambda>k. (k, RT_EOK)) (rt_schedule k1) else Some (k1, RT_EOK)) = Some (k', RT_EOK)"
    using k'(1) False k1(1) q by (simp add: rt_event_send_def Let_def)
  have sv1: "served (OEvent i) k k1"
    by (rule served_trans[OF served_set_event event_scan_served[OF inv1 sub dist k1(1)]])
  have sv: "served (OEvent i) k k'"
    using run sv1 served_trans[OF sv1 served_schedule] by (auto split: if_splits)
  have out: "t \<notin> set ?ts" if "thread_state (k_thread k t) = RT_THREAD_READY" for t
    using waiter_suspended(1)[OF o(1), of "event_queue i" t] that by auto
  have cur1: "rt_current_thread k1 = rt_current_thread k" using k1(3) by (simp add: event_frame_def set_event_def)
  have rdy1: "thread_state (k_thread k1 t) = RT_THREAD_READY" if "thread_state (k_thread k t) = RT_THREAD_READY" for t
    using k1(4) out[OF that] that by (simp add: set_event_def)
  have "cur_ready k'"
  proof (cases need)
    case True
    then have s: "rt_schedule k1 = Some k'" using run by auto
    show ?thesis
      by (rule schedule_cur_ready[OF k1(2) rdy1[OF o(4)] _ _ s]) (use o(3,10) cur1 servedD(3)[OF sv1] in simp_all)
  next
    case False
    then have "k1 = k'" using run by simp
    then show ?thesis using cur_ready_keep[OF o(11) cur1 rdy1] by simp
  qed
  then show ?thesis using k' sv sys_ok_served[OF ok k'(2) sv] by auto
qed

lemma event_recv_sys:
  assumes ok: "sys_ok k" and cb: "can_block t k" and opt: "valid_event_opt opt"
    and fl: "valid_flag (OEvent i) k" and tm: "timeout < 2 ^ 31 - 1"
  shows "\<exists>k' r v. rt_event_recv i want opt timeout k = Some (k', r, v) \<and> sys_ok k' \<and> served (OEvent i) k k'"
proof -
  note o = sys_okD[OF ok] and c = can_blockD[OF cb]
  obtain k' r v where k': "rt_event_recv i want opt timeout k = Some (k', r, v)" "kinv k'" "event_inv k'"
    using event_recv_inv[OF o(1,7) cb opt fl tm] by blast
  let ?e = "set_error t RT_EOK k"
  have sv_e: "served (OEvent i) k (set_error t e k)" if "e \<noteq> - RT_EINTR" for e by (rule served_set_error[OF that])
  have cur_e: "cur_ready (set_error t e k)" for e by (rule cur_ready_keep[OF o(11)]) auto
  consider "want = 0" | "want \<noteq> 0" "event_ready want opt (k_event k i)"
    | "want \<noteq> 0" "\<not> event_ready want opt (k_event k i)" "timeout = 0"
    | "want \<noteq> 0" "\<not> event_ready want opt (k_event k i)" "timeout \<noteq> 0" by blast
  then have "served (OEvent i) k k' \<and> cur_ready k'"
  proof cases
    case 1
    then have "k' = k" using k'(1) c(6) by (simp add: rt_event_recv_def)
    then show ?thesis using o(11) by simp
  next
    case 2
    let ?k = "set_event i (k_event k i AND NOT want) ?e"
    have "k' = (if opt AND RT_EVENT_FLAG_CLEAR \<noteq> 0 then ?k else ?e)"
      using k'(1) event_recv_ready[OF c(6) 2(1) opt 2(2), of timeout] by (simp del: upd_thread_def)
    moreover have "served (OEvent i) k ?k" by (rule served_trans[OF sv_e served_set_event]) simp
    moreover have "cur_ready ?k" by (rule cur_ready_keep[OF cur_e[of RT_EOK]]) (auto simp: set_event_def)
    ultimately show ?thesis using sv_e[of RT_EOK] cur_e by (simp del: upd_thread_def)
  next
    case 3
    then have "k' = set_error t (- RT_ETIMEOUT) ?e"
      using k'(1) event_recv_poll[OF c(6) 3(1) opt 3(2)] by (simp del: upd_thread_def)
    then have e: "k' = set_error t (- RT_ETIMEOUT) k" by simp
    show ?thesis unfolding e using sv_e cur_e by (auto simp del: upd_thread_def)
  next
    case 4
    let ?w = "upd_thread t (\<lambda>th. th\<lparr>event_set := want, event_info := opt\<rparr>) ?e"
    have w: "ipc_wait (event_queue i) (obj_ipc_flag (OEvent i) ?w) timeout t ?w = Some k'"
      using k'(1) 4 c(6) opt
      by (auto simp: rt_event_recv_def event_ready_def valid_event_opt_def Let_def bind_eq_Some_conv split: if_splits)
    have fl1: "obj_ipc_flag (OEvent i) ?w = RT_IPC_FLAG_FIFO \<or> obj_ipc_flag (OEvent i) ?w = RT_IPC_FLAG_PRIO"
      using fl by (simp add: valid_flag_def obj_ipc_flag_def)
    have cbw: "can_block t ?w" using cb by (simp add: can_block_def)
    have invw: "kinv ?w"
      by (rule kinv_upd_thread_same[OF kinv_set_error[OF o(1)]]) simp_all
    have "served (OEvent i) ?w k'" by (rule served_ipc_wait[OF invw cbw _ _ fl1 tm w]) simp_all
    moreover have "cur_ready k'" by (rule ipc_wait_cur_ready[OF invw cbw _ fl1 tm _ w]) (use o(10) in simp_all)
    moreover have "served (OEvent i) ?e ?w" using timely_upd(1)[of ?e t "\<lambda>th. th\<lparr>event_set := want, event_info := opt\<rparr>"]
      by (auto simp: served_def)
    moreover have "served (OEvent i) k ?e" by (rule sv_e) simp
    ultimately show ?thesis using served_trans by blast
  qed
  then show ?thesis using k' sys_ok_served[OF ok k'(2), of "OEvent i"] by auto
qed

subsection \<open>Mailboxes\<close>

lemma wake_waiter_cur_ready:
  assumes inv: "kinv k" and h: "wait_head h" and cur: "cur_ready k" and lock: "rt_scheduler_lock_nest k = 0"
    and run: "wake_waiter h k = Some k'"
  shows "cur_ready k'"
proof (cases "tlist_of k h = []")
  case False
  have "rt_current_thread k \<noteq> None" using cur by (auto simp: cur_ready_def)
  then obtain k1 where "wake_waiter h k = Some k1" "kinv k1"
    "tlist_of k h \<noteq> [] \<Longrightarrow> rt_scheduler_lock_nest k = 0 \<Longrightarrow> highest_runs k1"
    by (rule wake_waiter_spec[OF inv h]) (rule that; assumption)
  then show ?thesis using run False lock highest_cur_ready by auto
qed (use run cur in \<open>simp add: wake_waiter_def\<close>)

lemma msg_wait_sys:
  assumes ok: "sys_ok k" and cb: "can_block t k" and fl: "valid_flag ob k" and h: "h \<in> waits ob" "wait_head h"
    and nt: "\<And>u. ob \<noteq> OTimer u" and tm: "timeout < 2 ^ 31 - 1"
    and run: "msg_wait ob h timeout delta t (set_error t RT_EOK k) = Some (k', r)"
  shows "served ob k k'" "cur_ready k'"
proof -
  note o = sys_okD[OF ok]
  let ?k = "set_error t RT_EOK k"
  have cb1: "can_block t ?k" and inv1: "kinv ?k" using cb o(1) by (simp_all add: kinv_set_error del: upd_thread_def)
  have fl1: "obj_ipc_flag ob ?k = RT_IPC_FLAG_FIFO \<or> obj_ipc_flag ob ?k = RT_IPC_FLAG_PRIO"
    using fl by (simp add: valid_flag_def obj_ipc_flag_def)
  have w: "ipc_wait h (obj_ipc_flag ob ?k) timeout t ?k = Some k'"
    using run by (auto simp: msg_wait_def bind_eq_Some_conv Let_def)
  have "served ob k ?k" by (rule served_set_error) simp
  also have "served ob ?k k'" by (rule served_ipc_wait[OF inv1 cb1 h(2) h(1) fl1 tm w])
  finally show "served ob k k'" .
  show "cur_ready k'" by (rule ipc_wait_cur_ready[OF inv1 cb1 h(2) fl1 tm _ w]) (use o(10) in simp)
qed

text \<open>Putting a mail or taking one, then waking a thread on the other side.\<close>

lemma mb_move_sys:
  assumes ok: "sys_ok k" and h: "h \<in> waits (OMailBox i)" and sz: "mb_size (f (k_mb k i)) = mb_size (k_mb k i)"
    and run: "wake_waiter h (upd_mb i f k) = Some k'"
  shows "served (OMailBox i) k k'" "cur_ready k'"
proof -
  note o = sys_okD[OF ok]
  let ?k = "upd_mb i f k"
  have inv1: "kinv ?k" using o(1) by (simp del: upd_mb_def)
  have wh: "wait_head h" using h by auto
  have "served (OMailBox i) k ?k" by (rule served_upd_mb) (rule sz)
  also have "served (OMailBox i) ?k k'" by (rule served_wake_waiter[OF inv1 wh h run])
  finally show "served (OMailBox i) k k'" .
  have "cur_ready ?k" by (rule cur_ready_keep[OF o(11)]) auto
  then show "cur_ready k'" by (rule wake_waiter_cur_ready[OF inv1 wh _ _ run]) (use o(10) in simp)
qed

lemma mb_send_loop_sys:
  assumes ok: "sys_ok k" and cb: "can_block t k" and fl: "valid_flag (OMailBox i) k"
    and tm: "timeout < 2 ^ 31 - 1" and init: "mb_size (k_mb k i) \<noteq> 0"
  shows "\<exists>k' r. mb_send_loop i v timeout delta (Some t) k = Some (k', r) \<and> sys_ok k' \<and> served (OMailBox i) k k' \<and>
    (\<forall>tmo d. r = MWait tmo d \<longrightarrow> tmo = timeout)"
proof -
  note o = sys_okD[OF ok]
  obtain k' r where k': "mb_send_loop i v timeout delta (Some t) k = Some (k', r)" "kinv k'" "mb_inv k'"
    "\<forall>tmo d. r = MWait tmo d \<longrightarrow> tmo = timeout"
    using mb_send_loop_inv[OF o(1,8) cb fl tm init, where delta = delta and v = v] by (force split: msg_outcome.splits)
  consider "mb_entry (k_mb k i) \<noteq> mb_size (k_mb k i)" | "mb_entry (k_mb k i) = mb_size (k_mb k i)" "timeout = 0"
    | "mb_entry (k_mb k i) = mb_size (k_mb k i)" "timeout \<noteq> 0" by blast
  then have "served (OMailBox i) k k' \<and> cur_ready k'"
  proof cases
    case 1
    then have run: "wake_waiter (mb_queue i) (upd_mb i (mb_put v) k) = Some k'"
      using k'(1) by (auto simp: mb_send_loop_def bind_eq_Some_conv Let_def simp del: upd_mb_def)
    show ?thesis using mb_move_sys[OF ok _ _ run] by (simp add: mb_put_def)
  next
    case 2
    then have e: "k' = set_error t RT_EOK k"
      using k'(1) by (auto simp: mb_send_loop_def Let_def simp del: upd_thread_def)
    have "cur_ready k'" by (rule cur_ready_keep[OF o(11)]) (auto simp: e)
    then show ?thesis using served_set_error[of RT_EOK] by (simp add: e del: upd_thread_def)
  next
    case 3
    then have run: "msg_wait (OMailBox i) (mb_senders i) timeout delta t (set_error t RT_EOK k) = Some (k', r)"
      using k'(1) by (auto simp: mb_send_loop_def Let_def simp del: upd_thread_def)
    show ?thesis using msg_wait_sys[OF ok cb fl _ _ _ tm run] by simp
  qed
  then show ?thesis using k' sys_ok_served[OF ok k'(2), of "OMailBox i"] by auto
qed

lemma mb_recv_loop_sys:
  assumes ok: "sys_ok k" and cb: "can_block t k" and fl: "valid_flag (OMailBox i) k"
    and tm: "timeout < 2 ^ 31 - 1" and init: "mb_size (k_mb k i) \<noteq> 0"
  shows "\<exists>k' r x. mb_recv_loop i timeout delta (Some t) k = Some (k', r, x) \<and> sys_ok k' \<and> served (OMailBox i) k k' \<and>
    (\<forall>tmo d. r = MWait tmo d \<longrightarrow> tmo = timeout)"
proof -
  note o = sys_okD[OF ok]
  obtain k' r x where k': "mb_recv_loop i timeout delta (Some t) k = Some (k', r, x)" "kinv k'" "mb_inv k'"
    "\<forall>tmo d. r = MWait tmo d \<longrightarrow> tmo = timeout"
    using mb_recv_loop_inv[OF o(1,8) cb fl tm init, where delta = delta] by (force split: msg_outcome.splits)
  consider "mb_entry (k_mb k i) \<noteq> 0" | "mb_entry (k_mb k i) = 0" "timeout = 0"
    | "mb_entry (k_mb k i) = 0" "timeout \<noteq> 0" by blast
  then have "served (OMailBox i) k k' \<and> cur_ready k'"
  proof cases
    case 1
    then have run: "wake_waiter (mb_senders i) (upd_mb i (\<lambda>_. fst (mb_get (k_mb k i))) k) = Some k'"
      using k'(1) by (auto simp: mb_recv_loop_def bind_eq_Some_conv Let_def split: prod.splits simp del: upd_mb_def)
    show ?thesis using mb_move_sys[OF ok _ _ run] by (simp add: mb_get_def Let_def)
  next
    case 2
    then have "k' = set_error t (- RT_ETIMEOUT) (set_error t RT_EOK k)"
      using k'(1) by (auto simp: mb_recv_loop_def Let_def simp del: upd_thread_def)
    then have e: "k' = set_error t (- RT_ETIMEOUT) k" by simp
    have "cur_ready k'" by (rule cur_ready_keep[OF o(11)]) (auto simp: e)
    then show ?thesis using served_set_error[of "- RT_ETIMEOUT"] by (simp add: e del: upd_thread_def)
  next
    case 3
    then have run: "msg_wait (OMailBox i) (mb_queue i) timeout delta t (set_error t RT_EOK k) = Some (k', r)"
      using k'(1) by (auto simp: mb_recv_loop_def Let_def simp del: upd_thread_def)
    show ?thesis using msg_wait_sys[OF ok cb fl _ _ _ tm run] by simp
  qed
  then show ?thesis using k' sys_ok_served[OF ok k'(2), of "OMailBox i"] by auto
qed

subsection \<open>Message queues\<close>

text \<open>The steps on the lists of blocks; a thread is woken after a message was linked.\<close>

lemma mq_upd_sys:
  assumes ok: "sys_ok k" and sz: "mq_msg_size (f (k_mq k i)) = mq_msg_size (k_mq k i)"
  shows "sys_ok (upd_mq i f k)" "served (OMsgQueue i) k (upd_mq i f k)"
proof -
  note o = sys_okD[OF ok]
  show sv: "served (OMsgQueue i) k (upd_mq i f k)" by (rule served_upd_mq) (rule sz)
  have "cur_ready (upd_mq i f k)" by (rule cur_ready_keep[OF o(11)]) auto
  then show "sys_ok (upd_mq i f k)" using sys_ok_served[OF ok _ sv] o(1) by (simp del: upd_mq_def)
qed

lemma mq_wake_sys:
  assumes ok: "sys_ok k" and sz: "mq_msg_size m = mq_msg_size (k_mq k i)"
  obtains k' where "wake_waiter (mq_queue i) (upd_mq i (\<lambda>_. m) k) = Some k'" "sys_ok k'" "served (OMsgQueue i) k k'"
    "k_mq k' = (k_mq k)(i := m)"
proof -
  note o = sys_okD[OF ok]
  let ?k = "upd_mq i (\<lambda>_. m) k"
  obtain k' where k': "wake_waiter (mq_queue i) ?k = Some k'" "kinv k'" "k_mq k' = (k_mq k)(i := m)"
    by (rule mq_wake[OF o(1,3)]) (rule that; assumption)
  have ok1: "sys_ok ?k" and sv1: "served (OMsgQueue i) k ?k" using mq_upd_sys[OF ok, of "\<lambda>_. m"] sz by blast+
  note o1 = sys_okD[OF ok1]
  have "served (OMsgQueue i) ?k k'" by (rule served_wake_waiter[OF o1(1) _ _ k'(1)]) simp_all
  then have sv: "served (OMsgQueue i) k k'" by (rule served_trans[OF sv1])
  have "cur_ready k'" by (rule wake_waiter_cur_ready[OF o1(1) _ o1(11,10) k'(1)]) simp
  then have "sys_ok k'" using sys_ok_served[OF ok k'(2) sv] by simp
  then show ?thesis using that k'(1,3) sv by blast
qed

lemma mq_recv_empty_sys:
  assumes ok: "sys_ok k" and cb: "can_block t k" and fl: "valid_flag (OMsgQueue i) k" and tm: "timeout < 2 ^ 31 - 1"
    and empty: "mq_entry (k_mq k i) = 0"
  obtains k' r where "mq_recv_loop i sz timeout delta (Some t) k = Some (k', r, None)" "sys_ok k'" "served (OMsgQueue i) k k'"
    "k_mq k' = k_mq k" "\<forall>tmo d. r = MWait tmo d \<longrightarrow> tmo = timeout"
proof (cases "timeout = 0")
  case True
  note o = sys_okD[OF ok]
  let ?k = "set_error t (- RT_ETIMEOUT) k"
  have "mq_recv_loop i sz timeout delta (Some t) k = Some (?k, MDone (- RT_ETIMEOUT), None)"
    using True empty can_blockD(6)[OF cb] by (simp add: mq_recv_loop_def)
  moreover have sv: "served (OMsgQueue i) k ?k" by (rule served_set_error) simp
  moreover have "cur_ready ?k" by (rule cur_ready_keep[OF o(11)]) auto
  then have "sys_ok ?k" using sys_ok_served[OF ok _ sv] kinv_set_error[OF o(1)] by simp
  ultimately show ?thesis using that[of ?k "MDone (- RT_ETIMEOUT)"] by simp
next
  case False
  note o = sys_okD[OF ok]
  have h: "wait_head (mq_queue i)" by simp
  let ?r = "MWait timeout (if 0 < timeout then rt_tick k else delta)"
  obtain k' where k': "msg_wait (OMsgQueue i) (mq_queue i) timeout delta t (set_error t RT_EOK k) = Some (k', ?r)" "kinv k'" "keeps k k'"
    by (rule msg_wait_spec[OF o(1) cb fl h tm, of delta]) (rule that; assumption)
  have run: "mq_recv_loop i sz timeout delta (Some t) k = Some (k', ?r, None)"
    using k'(1) False empty can_blockD(6)[OF cb] by (simp add: mq_recv_loop_def)
  have sv: "served (OMsgQueue i) k k'" "cur_ready k'" using msg_wait_sys[OF ok cb fl _ _ _ tm k'(1)] by simp_all
  have "sys_ok k'" using sys_ok_served[OF ok k'(2) sv] by simp
  then show ?thesis using that[OF run _ sv(1)] k'(3) by (simp add: keeps_def)
qed

text \<open>A whole send, as an interrupt does it.\<close>

lemma mq_send_sys:
  assumes ok: "sys_ok k" and len: "unat sz \<le> length buf" and run: "rt_mq_send i buf sz k = Some (k', e)"
  shows "sys_ok k'" "served (OMsgQueue i) k k'" "mq_shift {} {} (k_mq k j) (k_mq k' j)"
proof -
  have "sys_ok k' \<and> served (OMsgQueue i) k k' \<and> (\<forall>j. mq_shift {} {} (k_mq k j) (k_mq k' j))"
  proof (cases "ucast (mq_msg_size (k_mq k i)) < sz")
    case True
    then have "k' = k" using run by (simp add: rt_mq_send_def split: if_splits)
    then show ?thesis using ok by simp
  next
    case small: False
    show ?thesis
    proof (cases "mq_take_block (k_mq k i)")
      case None
      then have "k' = k" using run small by (simp add: rt_mq_send_def split: if_splits)
      then show ?thesis using ok by simp
    next
      case (Some bm)
      obtain b m1 where bm: "mq_take_block (k_mq k i) = Some (b, m1)" using Some by (cases bm) auto
      let ?m = "mq_link_tail b (mq_fill b buf sz (mq_clear_next b m1))"
      have le: "unat sz \<le> unat (mq_msg_size (k_mq k i))"
        using small unsigned_less[of "mq_msg_size (k_mq k i)", where 'a = nat]
        by (simp add: word_less_nat_alt unsigned_ucast_eq take_bit_nat_eq_self)
      have sh: "mq_shift {} {} (k_mq k i) ?m" by (rule send_shift(1)[OF bm len le])
      have sz0: "sz \<noteq> 0" using run by (auto simp: rt_mq_send_def)
      have "wake_waiter (mq_queue i) (upd_mq i (\<lambda>_. ?m) k) = Some k'"
        using run bm small sz0 by (auto simp: rt_mq_send_def bind_eq_Some_conv Let_def simp del: upd_mq_def)
      moreover obtain k1 where "wake_waiter (mq_queue i) (upd_mq i (\<lambda>_. ?m) k) = Some k1" "sys_ok k1"
        "served (OMsgQueue i) k k1" "k_mq k1 = (k_mq k)(i := ?m)"
        by (rule mq_wake_sys[OF ok mq_shift_size[OF sh]]) (rule that; assumption)
      ultimately show ?thesis using sh by auto
    qed
  qed
  then show "sys_ok k'" "served (OMsgQueue i) k k'" "mq_shift {} {} (k_mq k j) (k_mq k' j)" by blast+
qed

subsection \<open>Sleeping and yielding\<close>

text \<open>These calls serve no object; any thread stands for one.\<close>

lemma sleep_sys:
  assumes ok: "sys_ok k" and cb: "can_block t k" and small: "tick < RT_TICK_HALF"
  shows "\<exists>k' r. rt_thread_sleep tick k = Some (k', r) \<and> sys_ok k' \<and> served (OThread t) k k'"
proof -
  note o = sys_okD[OF ok] and c = can_blockD[OF cb]
  obtain k' where k': "rt_thread_sleep tick k = Some (k', Wait)" "kinv k'" "keeps k k'"
    "rt_scheduler_lock_nest k = 0 \<Longrightarrow> highest_runs k'"
    "k_thread k' = (k_thread k)(t := suspended (k_thread k t))"
    by (rule sleep_spec[OF o(1) c(1,3,5,4) small]) (rule that; assumption)
  obtain k1 where k1: "rt_thread_suspend t k = Some (k1, RT_EOK)" "kinv k1"
    "\<And>h. tlist_of k1 h = remove1 t (tlist_of k h)"
    "k_thread k1 = (k_thread k)(t := suspended (k_thread k t))"
    "ls_on (k_rows k1) = (ls_on (k_rows k))(ThreadTimer t := None)"
    by (rule suspend_ready[OF o(1) c(3)]) (rule that; assumption)
  obtain k2 e where k2: "rt_timer_start (ThreadTimer t) (fst (rt_timer_control (ThreadTimer t) (RT_TIMER_CTRL_SET_TIME tick) k1)) = Some (k2, e)"
    "rt_schedule k2 = Some k'"
    using k'(1) k1(1) c(1) by (auto simp: rt_thread_sleep_def Let_def bind_eq_Some_conv simp del: rt_timer_control.simps)
  have st1: "thread_state (k_thread k1 t) = RT_THREAD_SUSPEND" and off1: "ls_on (k_rows k1) (ThreadTimer t) = None"
    by (simp_all add: k1(4,5))
  have "timely k k1" by (rule timely_suspend[OF k1(1)])
  also have "timely k1 k2" by (rule timely_start_thread_timer[OF k1(2) st1 off1 small k2(1)])
  also have "timely k2 k'" by (rule timely_schedule[OF k2(2)])
  finally have tmy: "timely k k'" .
  have q: "tlist_of k' g = tlist_of k g" if "wait_head g" for g
  proof -
    have "k_tlist k' = k_tlist k2" using schedule_fields(1)[OF k2(2)] .
    also have "k_tlist k2 = k_tlist k1"
    proof -
      let ?k = "upd_timer (ThreadTimer t) (\<lambda>tm. tm\<lparr>tm_init_tick := tick\<rparr>) k1"
      have invk: "kinv ?k" by (rule kinv_set_timer[OF k1(2)]) simp
      obtain k3 where "rt_timer_start (ThreadTimer t) ?k = Some (k3, RT_EOK)" "k_tlist k3 = k_tlist ?k"
        by (rule start_thread_timer[OF invk, of t]) (use st1 small that in auto)
      then show ?thesis using k2(1) by simp
    qed
    finally have "tlist_of k' g = remove1 t (tlist_of k g)" using k1(3) by simp
    moreover have "t \<notin> set (tlist_of k g)"
      using waiter_suspended(1)[OF o(1) that, of t] c(3) by auto
    ultimately show ?thesis by (simp add: remove1_idem)
  qed
  have sv: "served (OThread t) k k'"
    by (rule served_keeps[OF k'(3) tmy q]) (use c(4) in \<open>auto simp: k'(5) split: if_splits\<close>)
  have "cur_ready k'" by (rule highest_cur_ready[OF k'(2) k'(4)[OF o(10)]])
  then show ?thesis using k'(1) sv sys_ok_served[OF ok k'(2) sv] by auto
qed

lemma yield_frame:
  assumes inv: "kinv k" and cur: "cur_ready k" and lock: "rt_scheduler_lock_nest k = 0"
  obtains k' where "rt_thread_yield k = Some (k', RT_EOK)" "kinv k'" "keeps k k'" "cur_ready k'"
    "k_thread k' = k_thread k" "k_rows k' = k_rows k" "k_timer k' = k_timer k" "k_object k' = k_object k"
    "\<And>g. wait_head g \<Longrightarrow> tlist_of k' g = tlist_of k g"
proof -
  obtain t where t: "rt_current_thread k = Some t" and st: "thread_state (k_thread k t) = RT_THREAD_READY"
    using cur by (auto simp: cur_ready_def)
  obtain k' where k': "rt_thread_yield k = Some (k', RT_EOK)" "kinv k'" "keeps k k'" "rt_current_thread k' \<noteq> None"
    "k_thread k' = k_thread k" "k_rows k' = k_rows k" "k_timer k' = k_timer k" "k_object k' = k_object k"
    "thread_state (k_thread k t) = RT_THREAD_READY \<Longrightarrow> has_neighbour t k \<Longrightarrow> rt_scheduler_lock_nest k = 0 \<Longrightarrow> highest_runs k'"
    "thread_state (k_thread k t) = RT_THREAD_READY \<Longrightarrow> k_tlist k' = ready_rotated t k"
    by (rule yield_spec[OF inv t st]) (rule that; assumption)
  have q: "tlist_of k' g = tlist_of k g" if "wait_head g" for g
    using k'(10)[OF st] that by (cases g) (auto simp: ready_rotated_def Let_def)
  have "cur_ready k'"
  proof (cases "has_neighbour t k")
    case True
    then show ?thesis using highest_cur_ready[OF k'(2)] k'(9)[OF st] lock by blast
  next
    case False
    then have "k' = k" using k'(1) t by (simp add: rt_thread_yield_def)
    then show ?thesis using cur by simp
  qed
  then show ?thesis using that k'(1-3,5-8) q by blast
qed

lemma yield_sys:
  assumes ok: "sys_ok k"
  shows "\<exists>k'. rt_thread_yield k = Some (k', RT_EOK) \<and> sys_ok k' \<and> served (OThread x) k k'"
proof -
  note o = sys_okD[OF ok]
  obtain k' where k': "rt_thread_yield k = Some (k', RT_EOK)" "kinv k'" "keeps k k'" "cur_ready k'"
    "k_thread k' = k_thread k" "k_rows k' = k_rows k" "k_timer k' = k_timer k" "k_object k' = k_object k"
    "\<And>g. wait_head g \<Longrightarrow> tlist_of k' g = tlist_of k g"
    by (rule yield_frame[OF o(1,11,10)]) (rule that; assumption)
  have tmy: "timely k k'" by (rule timely_cong) (use k'(3) in \<open>simp_all add: k'(6-8) keeps_def\<close>)
  have sv: "served (OThread x) k k'"
    by (rule served_keeps[OF k'(3) tmy k'(9)]) (simp_all add: k'(5))
  then show ?thesis using k'(1,4) sys_ok_served[OF ok k'(2) sv] by auto
qed

end
