(* ===== verification/Rtt_Irq.thy ===== *)
theory Rtt_Irq
  imports Rtt_Syscalls
begin

text \<open>
  The clock interrupt keeps the invariant of the whole kernel. Inside the interrupt timers may be
  due, so the invariant is split: \<open>clock_ok\<close> for the timers and \<open>ipc_ok\<close> for the rest.
  Expired thread timers only take threads out of waiting lists, which \<open>shrinks\<close> expresses.
\<close>

definition ipc_ok :: "kernel \<Rightarrow> bool" where
  "ipc_ok k \<longleftrightarrow> sem_inv k \<and> mutex_inv k \<and> event_inv k \<and> mb_inv k \<and>
     rt_interrupt_nest k = 0 \<and> rt_scheduler_lock_nest k = 0 \<and> cur_ready k \<and>
     (\<forall>s. th_error (k_thread k s) \<noteq> - RT_EINTR)"

lemma sys_ok_alt: "sys_ok k \<longleftrightarrow> clock_inv k \<and> ipc_ok k"
  by (auto simp: sys_ok_def ipc_ok_def)

text \<open>What the threads that are inside a call rely on: object headers and the sizes of mails and
  messages (\<open>headers\<close>), and that nobody else touches the message blocks they hold.\<close>

definition headers :: "kernel \<Rightarrow> kernel \<Rightarrow> bool" where
  "headers k k' \<longleftrightarrow> (\<forall>ob. (\<forall>t. ob \<noteq> OTimer t) \<longrightarrow> k_object k' ob = k_object k ob) \<and>
     (\<forall>j. mb_size (k_mb k' j) = mb_size (k_mb k j)) \<and> (\<forall>j. mq_msg_size (k_mq k' j) = mq_msg_size (k_mq k j))"

definition stable :: "kernel \<Rightarrow> kernel \<Rightarrow> bool" where
  "stable k k' \<longleftrightarrow> headers k k' \<and> (\<forall>j. mq_shift {} {} (k_mq k j) (k_mq k' j))"

lemma headers_refl [simp, intro]: "headers k k"
  by (simp add: headers_def)

lemma stable_refl [simp, intro]: "stable k k"
  by (simp add: stable_def)

lemma stable_trans [trans]: "stable k k' \<Longrightarrow> stable k' k'' \<Longrightarrow> stable k k''"
  unfolding stable_def headers_def using mq_shift_trans[of "{}" "{}" _ _ "{}"] by simp blast

lemma served_headers: "served ob k k' \<Longrightarrow> headers k k'"
  by (simp add: served_def headers_def timely_def)

lemma served_stable: "served ob k k' \<Longrightarrow> (\<And>i. ob \<noteq> OMsgQueue i) \<Longrightarrow> stable k k'"
  using served_headers[of ob k k'] servedD(14)[of ob k k'] by (metis mq_shift_refl stable_def)

text \<open>The contract of the callbacks of user timers.\<close>

definition callbacks_sys :: "callbacks \<Rightarrow> bool" where
  "callbacks_sys ucb \<longleftrightarrow> callbacks_ok ucb \<and>
     (\<forall>n k k'. clock_ok k \<longrightarrow> ipc_ok k \<longrightarrow> ucb n k = Some k' \<longrightarrow> ipc_ok k' \<and> stable k k')"

subsection \<open>Waking without a call\<close>

definition shrinks :: "kernel \<Rightarrow> kernel \<Rightarrow> bool" where
  "shrinks k k' \<longleftrightarrow> keeps k k' \<and>
     (\<forall>g. wait_head g \<longrightarrow> set (tlist_of k' g) \<subseteq> set (tlist_of k g)) \<and>
     (\<forall>s. event_set (k_thread k' s) = event_set (k_thread k s) \<and>
        event_info (k_thread k' s) = event_info (k_thread k s)) \<and>
     (\<forall>s. th_error (k_thread k' s) = - RT_EINTR \<longrightarrow> th_error (k_thread k s) = - RT_EINTR) \<and>
     (\<forall>ob. (\<forall>t. ob \<noteq> OTimer t) \<longrightarrow> k_object k' ob = k_object k ob)"

lemma shrinks_refl [simp, intro]: "shrinks k k"
  by (simp add: shrinks_def)

lemma shrinks_trans [trans]: "shrinks k k' \<Longrightarrow> shrinks k' k'' \<Longrightarrow> shrinks k k''"
proof -
  assume a: "shrinks k k'" "shrinks k' k''"
  have "keeps k k''" using a keeps_trans by (simp add: shrinks_def) blast
  moreover have "set (tlist_of k'' g) \<subseteq> set (tlist_of k g)" if "wait_head g" for g
    using a that by (simp add: shrinks_def) blast
  ultimately show ?thesis using a by (simp add: shrinks_def)
qed

lemma shrinks_stable: "shrinks k k' \<Longrightarrow> stable k k'"
  by (simp add: shrinks_def stable_def headers_def keeps_def)

lemma shrinks_ipc:
  assumes ok: "ipc_ok k" and sh: "shrinks k k'" and cur: "cur_ready k'"
  shows "ipc_ok k'"
proof -
  have eq: "k_sem k' = k_sem k" "k_mutex k' = k_mutex k" "k_event k' = k_event k" "k_mb k' = k_mb k"
    "rt_interrupt_nest k' = rt_interrupt_nest k" "rt_scheduler_lock_nest k' = rt_scheduler_lock_nest k"
    and ev: "event_set (k_thread k' s) = event_set (k_thread k s)" "event_info (k_thread k' s) = event_info (k_thread k s)"
    and er: "th_error (k_thread k' s) = - RT_EINTR \<Longrightarrow> th_error (k_thread k s) = - RT_EINTR" for s
    using sh by (auto simp: shrinks_def keeps_def)
  have q: "set (tlist_of k' (SuspendQ ob)) \<subseteq> set (tlist_of k (SuspendQ ob))" for ob
    using sh by (simp add: shrinks_def)
  have e: "tlist_of k' (SuspendQ ob) = []" if "tlist_of k (SuspendQ ob) = []" for ob using q[of ob] that by simp
  have "sem_inv k'" using ok e by (auto simp: ipc_ok_def sem_inv_def eq)
  moreover have "mutex_inv k'"
  proof -
    have "mutex_ok (k_mutex k i) (tlist_of k' (mutex_queue i))" if "mutex_ok (k_mutex k i) (tlist_of k (mutex_queue i))" for i
      using that e[of "OMutex i"] q[of "OMutex i"] by (auto simp: mutex_ok_def split: option.splits)
    then show ?thesis using ok by (simp add: ipc_ok_def mutex_inv_def eq)
  qed
  moreover have "event_inv k'"
    using ok q by (fastforce simp: ipc_ok_def event_inv_def eq ev)
  moreover have "mb_inv k'" using ok by (simp add: ipc_ok_def mb_inv_def eq)
  ultimately show ?thesis using ok cur er by (auto simp: ipc_ok_def eq)
qed

lemma shrinks_schedule: "rt_schedule k = Some k' \<Longrightarrow> shrinks k k'"
  by (simp add: shrinks_def keeps_schedule schedule_fields)

lemma shrinks_resume:
  assumes inv: "kinv k" and run: "rt_thread_resume t k = Some (k', e)"
  shows "shrinks k k'"
proof (cases "thread_state (k_thread k t) = RT_THREAD_SUSPEND")
  case True
  obtain k1 where k1: "rt_thread_resume t k = Some (k1, RT_EOK)" "keeps k k1"
    "\<And>h. tlist_of k1 h = (if h = ReadyQ (unat (current_priority (k_thread k t))) then tlist_of k h @ [t] else remove1 t (tlist_of k h))"
    "k_thread k1 = (k_thread k)(t := readied (k_thread k t))"
    by (rule resume_suspended[OF inv True]) (rule that; assumption)
  have e: "k1 = k'" using run k1(1) by simp
  note f = k1(2-4)[unfolded e]
  have "set (tlist_of k' g) \<subseteq> set (tlist_of k g)" if "wait_head g" for g
    using that set_remove1_subset[of t "tlist_of k g"] by (cases g) (simp_all add: f(2))
  then show ?thesis
    using f(1) timely_resume[OF run] by (auto simp: shrinks_def timely_def f(3) split: if_splits)
qed (use run in \<open>simp add: rt_thread_resume_def\<close>)

lemma shrinks_timer_enqueue:
  assumes run: "timer_enqueue t k = Some k'"
  shows "shrinks k k'"
proof -
  note f = timer_enqueue_fields[OF run]
  have "k_object k' ob = k_object k ob" if "\<And>x. ob \<noteq> OTimer x" for ob
    using run that[of t]
    by (auto simp: timer_enqueue_def row_remove_def row_insert_after_def Let_def bind_eq_Some_conv split: option.splits if_splits)
  then show ?thesis by (simp add: shrinks_def f)
qed

lemma timer_start_ipc:
  assumes inv: "kinv k" and ok: "ipc_ok k" and idle: "thread_state (k_thread k idle_thread) = RT_THREAD_READY"
    and own: "\<And>t. tm = ThreadTimer t \<Longrightarrow> thread_state (k_thread k t) = RT_THREAD_SUSPEND"
    and run: "rt_timer_start tm k = Some (k', e)"
  shows "ipc_ok k' \<and> stable k k'"
proof -
  obtain k1 where k1: "timer_enqueue tm k = Some k1" using run by (auto simp: rt_timer_start_def bind_eq_Some_conv)
  have inv1: "kinv k1" by (rule kinv_timer_enqueue[OF inv k1]) (use own in auto)
  note f1 = timer_enqueue_fields[OF k1]
  have sh1: "shrinks k k1" by (rule shrinks_timer_enqueue[OF k1])
  have cur1: "cur_ready k1" using ok f1(2,3) by (simp add: ipc_ok_def cur_ready_def)
  have "shrinks k k' \<and> cur_ready k'"
  proof (cases "obj_flag (k_object k1 (OTimer tm)) AND RT_TIMER_FLAG_SOFT_TIMER \<noteq> 0 \<and>
         thread_state (k_thread k1 timer_thread) \<noteq> RT_THREAD_READY")
    case False
    then have "k' = k1" using run k1 by (auto simp: rt_timer_start_def split: if_splits)
    then show ?thesis using sh1 cur1 by simp
  next
    case True
    obtain k2 e2 where k2: "rt_thread_resume timer_thread k1 = Some (k2, e2)" "kinv k2" "keeps k1 k2"
      "rt_current_thread k2 = rt_current_thread k1"
      "\<And>s. thread_state (k_thread k1 s) = RT_THREAD_READY \<Longrightarrow> thread_state (k_thread k2 s) = RT_THREAD_READY"
      by (rule resume_any[OF inv1, of timer_thread]) (rule that; assumption)
    have s: "rt_schedule k2 = Some k'" using run k1 True k2(1) by (auto simp: rt_timer_start_def bind_eq_Some_conv)
    have "shrinks k k'"
      by (rule shrinks_trans[OF sh1 shrinks_trans[OF shrinks_resume[OF inv1 k2(1)] shrinks_schedule[OF s]]])
    moreover have "cur_ready k'"
      by (rule schedule_cur_ready[OF k2(2) k2(5)[of idle_thread] _ _ s])
        (use idle f1(2,6) k2(3,4) cur1 ok in \<open>auto simp: keeps_def ipc_ok_def cur_ready_def\<close>)
    ultimately show ?thesis ..
  qed
  then show ?thesis using shrinks_ipc[OF ok] shrinks_stable by blast
qed

subsection \<open>Expired timers\<close>

lemma row_remove_ipc: "ipc_ok k \<Longrightarrow> ipc_ok (row_remove t k) \<and> stable k (row_remove t k)"
proof -
  assume ok: "ipc_ok k"
  have sh: "shrinks k (row_remove t k)" by (simp add: shrinks_def row_remove_def)
  moreover have "cur_ready (row_remove t k)" using ok by (simp add: ipc_ok_def cur_ready_def row_remove_def)
  ultimately show ?thesis using shrinks_ipc[OF ok] shrinks_stable by blast
qed

lemma run_timeout_ipc:
  assumes cb: "callbacks_sys ucb" and ok: "clock_ok k" and ipc: "ipc_ok k"
    and t: "t \<in> set (ls_nodes (k_rows k) HardTimers)" and run: "run_timeout ucb t (row_remove t k) = Some k1"
  shows "ipc_ok k1 \<and> stable k k1"
proof -
  let ?k0 = "row_remove t k"
  note c = clock_okD[OF ok] and ok0 = clock_ok_row_remove[OF ok, of t] and i0 = row_remove_ipc[OF ipc, of t]
  note c0 = clock_okD[OF ok0]
  show ?thesis
  proof (cases t)
    case (Timer n)
    obtain m where m: "timeout_func (k_timer ?k0 t) = UserTimeout m"
      using ok Timer by (auto simp: clock_ok_def row_remove_def)
    then have "ucb m ?k0 = Some k1" using run by (simp add: run_timeout_def)
    then have "ipc_ok k1 \<and> stable ?k0 k1" using cb ok0 i0 unfolding callbacks_sys_def by blast
    then show ?thesis using i0 stable_trans by blast
  next
    case (ThreadTimer th)
    have "ls_on (k_rows k) t = Some HardTimers" using t c(3) by (simp add: ls_wf_on)
    then have st: "thread_state (k_thread ?k0 th) = RT_THREAD_SUSPEND"
      using kinv_timer_link[OF c(1), of th] ThreadTimer by (simp add: timer_link_ok_def row_remove_def)
    have off: "ls_on (k_rows ?k0) (ThreadTimer th) = None" by (simp add: row_remove_def ThreadTimer)
    have fn: "timeout_func (k_timer ?k0 t) = ThreadTimeout th"
      using kinvD(3)[OF c(1)] by (simp add: ThreadTimer row_remove_def thread_timers_ok_def)
    have run': "rt_thread_timeout th ?k0 = Some k1" using run fn by (simp add: run_timeout_def)
    obtain k2 where k2: "rt_thread_timeout th ?k0 = Some k2" "kinv k2" "keeps ?k0 k2" "k_object k2 = k_object ?k0"
      "\<And>h. tlist_of k2 h = (if h = ReadyQ (unat (current_priority (k_thread ?k0 th))) then tlist_of ?k0 h @ [th]
         else remove1 th (tlist_of ?k0 h))"
      "k_thread k2 = (k_thread ?k0)(th := (k_thread ?k0 th)\<lparr>th_error := - RT_ETIMEOUT,
         stat := RT_THREAD_READY OR (stat (k_thread ?k0 th) AND NOT RT_THREAD_STAT_MASK)\<rparr>)"
      by (rule timeout_suspended[OF c0(1) st off c0(4)]) (rule that; assumption)
    have e: "k2 = k1" using k2(1) run' by simp
    note f = k2(2-6)[unfolded e]
    have "set (tlist_of k1 g) \<subseteq> set (tlist_of ?k0 g)" if "wait_head g" for g
      using that set_remove1_subset[of th "tlist_of ?k0 g"] by (cases g) (simp_all add: f(4))
    then have sh: "shrinks ?k0 k1" using f(2) by (auto simp: shrinks_def f(3,5) split: if_splits)
    obtain k3 where k3: "rt_schedule_insert_thread th (tlist_remove th (upd_thread th (\<lambda>x. x\<lparr>th_error := - RT_ETIMEOUT\<rparr>) ?k0)) = Some k3"
      "rt_schedule k3 = Some k1"
      using run' st by (auto simp: rt_thread_timeout_def bind_eq_Some_conv Let_def split: if_splits simp del: upd_thread_def)
    have cur3: "rt_current_thread k3 = rt_current_thread ?k0"
      using k3(1) by (auto simp: rt_schedule_insert_thread_def tlist_insert_before_def tlist_remove_def Let_def)
    have inv3: "kinv k3"
    proof -
      obtain p t' where "k1 = k3\<lparr>rt_current_priority := p, rt_current_thread := t'\<rparr>"
        using rt_schedule_frame[OF k3(2)] by blast
      then show ?thesis
        using f(1) by (simp add: kinv_but_def sched_inv_but_def bitmap_ok_def rows_inv_def thread_timers_ok_def timer_link_ok_def)
    qed
    have "k_thread k3 = k_thread k1" using schedule_fields(2)[OF k3(2)] by simp
    then have "thread_state (k_thread k3 th) = RT_THREAD_READY" by (simp add: f(5))
    moreover have "rt_scheduler_lock_nest k3 = 0"
      using keeps_schedule[OF k3(2)] f(2) i0 by (simp add: keeps_def ipc_ok_def)
    ultimately have "cur_ready k1" using schedule_cur_ready[OF inv3 _ _ _ k3(2)] cur3 c0(4) by simp
    moreover have "ipc_ok ?k0" "stable k ?k0" using i0 by simp_all
    ultimately show ?thesis using shrinks_ipc[OF _ sh] shrinks_stable[OF sh] stable_trans by blast
  qed
qed

lemma deactivate_ipc: "ipc_ok k \<Longrightarrow> ipc_ok (deactivate t k) \<and> stable k (deactivate t k)"
proof -
  assume ok: "ipc_ok k"
  have sh: "shrinks k (deactivate t k)" by (simp add: shrinks_def deactivate_def)
  moreover have "cur_ready (deactivate t k)" using ok by (simp add: ipc_ok_def cur_ready_def deactivate_def)
  ultimately show ?thesis using shrinks_ipc[OF ok] shrinks_stable by blast
qed

lemma rearm_ipc:
  assumes ok: "clock_ok k" and ipc: "ipc_ok k" and run: "rearm t k = Some k'"
  shows "ipc_ok k' \<and> stable k k'"
proof (cases "has_flag RT_TIMER_FLAG_PERIODIC t k \<and> has_flag RT_TIMER_FLAG_ACTIVATED t k")
  case False
  then have "k' = deactivate t k" using run by (auto simp: rearm_def)
  then show ?thesis using deactivate_ipc[OF ipc] by simp
next
  case True
  note c = clock_okD[OF ok]
  have "rt_timer_start t (deactivate t k) = rt_timer_start t k" by (rule rt_timer_start_deactivate)
  then obtain e where r: "rt_timer_start t k = Some (k', e)" using run True by (auto simp: rearm_def)
  have own: "thread_state (k_thread k th) = RT_THREAD_SUSPEND" if "t = ThreadTimer th" for th
    using kinvD(3)[OF c(1)] True that by (simp add: thread_timers_ok_def has_flag_def)
  show ?thesis by (rule timer_start_ipc[OF c(1) ipc c(5) own r])
qed

lemma timer_check_loop_ipc:
  assumes "timer_check_loop ucb c k = Some k'" "callbacks_sys ucb" "clock_ok k" "c = rt_tick k" "ipc_ok k"
  shows "ipc_ok k' \<and> stable k k'"
proof -
  have "callbacks_sys ucb \<longrightarrow> clock_ok k \<longrightarrow> c = rt_tick k \<longrightarrow> ipc_ok k \<longrightarrow> ipc_ok k' \<and> stable k k'"
    using assms(1)
  proof (rule timer_check_loop.raw_induct[of "\<lambda>ucb c k k'. callbacks_sys ucb \<longrightarrow> clock_ok k \<longrightarrow> c = rt_tick k \<longrightarrow>
      ipc_ok k \<longrightarrow> ipc_ok k' \<and> stable k k'", rotated], goal_cases)
    case (1 loop ucb c k k')
    note IH = 1(1) and run = 1(2)
    show ?case
    proof (intro impI)
      assume cb: "callbacks_sys ucb" and ok: "clock_ok k" and c: "c = rt_tick k" and ipc: "ipc_ok k"
      show "ipc_ok k' \<and> stable k k'"
      proof (cases "ls_nodes (k_rows k) HardTimers")
        case Nil
        then show ?thesis using run ipc by simp
      next
        case (Cons t ts)
        show ?thesis
        proof (cases "timer_due c t k")
          case False
          then show ?thesis using run ipc Cons by simp
        next
          case True
          have t: "t \<in> set (ls_nodes (k_rows k) HardTimers)" using Cons by simp
          have cbo: "callbacks_ok ucb" using cb by (simp add: callbacks_sys_def)
          obtain k1 where k1: "run_timeout ucb t (row_remove t k) = Some k1" "clock_ok k1" "rt_tick k1 = rt_tick k"
            "ls_on (k_rows k1) t = None \<or> has_flag RT_TIMER_FLAG_PERIODIC t k1"
            by (rule run_timeout_spec[OF cbo ok t]) (rule that)
          have i1: "ipc_ok k1 \<and> stable k k1" by (rule run_timeout_ipc[OF cb ok ipc t k1(1)])
          obtain k2 where k2: "rearm t k1 = Some k2" "clock_ok k2" "rt_tick k2 = rt_tick k1"
            by (rule rearm_spec[OF k1(2,4)]) (rule that)
          have i2: "ipc_ok k2 \<and> stable k1 k2" using rearm_ipc[OF k1(2) _ k2(1)] i1 by blast
          have "loop ucb (rt_tick k1) k2 = Some k'"
            using run Cons True k1(1) k2(1) by (simp add: rt_tick_get_def Let_def)
          then have "ipc_ok k' \<and> stable k2 k'" using IH cb k2 i2 by metis
          then show ?thesis using i1 i2 stable_trans by blast
        qed
      qed
    qed
  qed
  then show ?thesis using assms(2-5) by blast
qed

subsection \<open>The interrupt\<close>

lemma tick_sys:
  assumes cb: "callbacks_sys ucb" and ok: "sys_ok k"
  shows "\<exists>k'. rt_tick_increase ucb k = Some k' \<and> sys_ok k' \<and> stable k k' \<and> rt_tick k' = rt_tick k + 1"
proof -
  have inv: "clock_inv k" and ipc: "ipc_ok k" using ok by (simp_all add: sys_ok_alt)
  have cbo: "callbacks_ok ucb" using cb by (simp add: callbacks_sys_def)
  obtain k' where k': "rt_tick_increase ucb k = Some k'" "clock_inv k'" "rt_tick k' = rt_tick k + 1"
    using tick_increase_spec[OF cbo inv] by blast
  let ?k1 = "k\<lparr>rt_tick := rt_tick k + 1\<rparr>"
  have ok1: "clock_ok ?k1" by (rule clock_ok_tick[OF inv])
  have upd_ok: "clock_ok (upd_thread t f j) \<and> ipc_ok (upd_thread t f j) \<and> stable j (upd_thread t f j)"
    if "clock_ok j" "ipc_ok j" "f = (\<lambda>th. th\<lparr>remaining_tick := v th\<rparr>)" for t f v j
  proof -
    have "clock_ok (upd_thread t f j)" by (rule clock_ok_thread[OF that(1)]) (simp_all add: that(3))
    moreover have "shrinks j (upd_thread t f j)" by (auto simp: shrinks_def that(3))
    moreover have "cur_ready (upd_thread t f j)" using that(2) by (auto simp: ipc_ok_def cur_ready_def that(3))
    ultimately show ?thesis using shrinks_ipc[OF that(2)] shrinks_stable by blast
  qed
  have ipc1: "ipc_ok ?k1" using ipc
    by (simp add: ipc_ok_def sem_inv_def mutex_inv_def event_inv_def mb_inv_def cur_ready_def)
  have st1: "stable k ?k1" by (simp add: stable_def headers_def)
  obtain t where t: "rt_current_thread k = Some t" using clock_okD(4)[OF ok1] by auto
  let ?k2 = "upd_thread t (\<lambda>th. th\<lparr>remaining_tick := remaining_tick th - 1\<rparr>) ?k1"
  let ?k3 = "upd_thread t (\<lambda>th. th\<lparr>remaining_tick := init_tick th\<rparr>) ?k2"
  note o2 = upd_ok[OF ok1 ipc1 refl, of t "\<lambda>th. remaining_tick th - 1"]
  have o3: "clock_ok ?k3 \<and> ipc_ok ?k3 \<and> stable ?k2 ?k3"
    using upd_ok[of ?k2 _ init_tick t, OF _ _ refl] o2 by blast
  obtain k4 where k4: "(if remaining_tick (k_thread ?k2 t) = 0 then map_option fst (rt_thread_yield ?k3) else Some ?k2) = Some k4"
    and run: "timer_check_loop ucb (rt_tick k4) k4 = Some k'"
    using k'(1) t
    by (auto simp: rt_tick_increase_def rt_thread_self_def bind_eq_Some_conv Let_def rt_timer_check_def rt_tick_get_def
        simp del: upd_thread_def cong: if_cong)
  have "clock_ok k4 \<and> ipc_ok k4 \<and> stable ?k2 k4"
  proof (cases "remaining_tick (k_thread ?k2 t) = 0")
    case False
    then show ?thesis using k4 o2 by (simp del: upd_thread_def)
  next
    case True
    then obtain e where y: "rt_thread_yield ?k3 = Some (k4, e)" using k4 by (auto simp del: upd_thread_def)
    obtain k5 where k5: "rt_thread_yield ?k3 = Some (k5, RT_EOK)" "clock_ok k5" by (rule clock_ok_yield[of ?k3]) (use o3 in blast)+
    have i3: "ipc_ok ?k3" and inv3: "kinv ?k3" and st3: "stable ?k2 ?k3" using o3 clock_okD(1) by blast+
    then have cl: "cur_ready ?k3" "rt_scheduler_lock_nest ?k3 = 0" by (simp_all add: ipc_ok_def del: upd_thread_def)
    obtain k6 where k6: "rt_thread_yield ?k3 = Some (k6, RT_EOK)" "keeps ?k3 k6" "cur_ready k6"
      "k_thread k6 = k_thread ?k3" "k_object k6 = k_object ?k3" "\<And>g. wait_head g \<Longrightarrow> tlist_of k6 g = tlist_of ?k3 g"
      by (rule yield_frame[OF inv3 cl]) (rule that; assumption)
    have e: "k5 = k4" "k6 = k4" using y k5(1) k6(1) by simp_all
    have sh: "shrinks ?k3 k4" using k6(2) by (simp add: shrinks_def k6(4-6)[unfolded e] e del: upd_thread_def)
    have "ipc_ok k4" by (rule shrinks_ipc[OF i3 sh k6(3)[unfolded e]])
    moreover have "stable ?k2 k4" by (rule stable_trans[OF st3 shrinks_stable[OF sh]])
    ultimately show ?thesis using k5(2) by (simp only: e simp_thms)
  qed
  then have 4: "clock_ok k4" "ipc_ok k4" "stable ?k2 k4" by blast+
  have 5: "ipc_ok k'" "stable k4 k'" using timer_check_loop_ipc[OF run cb 4(1) refl 4(2)] by blast+
  have "stable ?k1 ?k2" using o2 by blast
  then have "stable k k'" using stable_trans[OF st1] stable_trans[OF 4(3) 5(2)] stable_trans by blast
  moreover have "sys_ok k'" using k'(2) 5(1) by (simp only: sys_ok_alt simp_thms)
  ultimately show ?thesis using k'(1,3) by blast
qed

end
