(* ===== verification/Rtt_System.thy ===== *)
theory Rtt_System
  imports Rtt_Irq Rtt_Examples
begin

text \<open>
  The kernel as a whole: threads that make system calls, are put to sleep in the middle of them
  and go on when they are scheduled again, and interrupts between any two of these steps. A state
  is the kernel together with, for every thread, the point it has reached. \<open>start_call\<close> runs
  a call up to its end or to its \<^verbatim>\<open>rt_schedule()\<close>, \<open>finish_call\<close> what the same call
  does when its thread runs again; both are the definitions of the component theories. A send to a
  message queue and a receive from it give up the processor's protection between their critical
  sections while they own a message block, so each critical section is a step of its own.
\<close>

datatype request =
  SemTake nat int | SemRelease nat
| MutexTake nat int | MutexRelease nat
| EventSend nat rt_uint32 | EventRecv nat rt_uint32 rt_uint8 int
| MbSend nat rt_uint32 int | MbRecv nat int
| MqSend nat "rt_uint8 list" rt_uint32 | MqUrgent nat "rt_uint8 list" rt_uint32 | MqRecv nat rt_uint32 int
| Sleep rt_tick | Yield

text \<open>Where a thread is: outside the kernel, with the result of its last call; waiting; or between
  two critical sections of a message queue, about to fill a block, to link it (at the front or not), or to
  copy it out.\<close>

datatype point =
  Returned rt_err
| InSemTake | InMutexTake nat int | InEventRecv
| InMbSend nat rt_uint32 int rt_uint32 | InMbRecv nat int rt_uint32 | InSleep
| MqFilling bool nat nat "rt_uint8 list" rt_uint32 | MqLinking bool nat nat "rt_uint8 list" rt_uint32
| MqCopying nat nat rt_uint32 | InMqRecv nat rt_uint32 int rt_uint32

type_synonym system = "kernel \<times> (tid \<Rightarrow> point)"

fun after_call :: "point \<Rightarrow> outcome \<Rightarrow> point" where
  "after_call p (Done e) = Returned e" | "after_call p Wait = p"

fun after_msg :: "(int \<Rightarrow> rt_uint32 \<Rightarrow> point) \<Rightarrow> msg_outcome \<Rightarrow> point" where
  "after_msg p (MDone e) = Returned e" | "after_msg p (MWait timeout delta) = p timeout delta"

definition mq_begin_send :: "bool \<Rightarrow> nat \<Rightarrow> rt_uint8 list \<Rightarrow> rt_uint32 \<Rightarrow> kernel \<Rightarrow> (kernel \<times> point) option" where
  "mq_begin_send front i buf sz k = do {
     RT_ASSERT (sz \<noteq> 0);
     (if ucast (mq_msg_size (k_mq k i)) < sz then Some (k, Returned (- RT_ERROR))
      else case mq_take_block (k_mq k i) of
        None \<Rightarrow> Some (k, Returned (- RT_EFULL))
      | Some (b, m) \<Rightarrow> Some (upd_mq i (\<lambda>_. m) k, MqFilling front i b buf sz))
   }"

definition mq_begin_recv :: "nat \<Rightarrow> rt_uint32 \<Rightarrow> int \<Rightarrow> rt_uint32 \<Rightarrow> tid option \<Rightarrow> kernel \<Rightarrow> (kernel \<times> point) option" where
  "mq_begin_recv i sz timeout delta self k =
     (if mq_entry (k_mq k i) = 0
      then map_option (\<lambda>(k, r, _). (k, after_msg (InMqRecv i sz) r)) (mq_recv_loop i sz timeout delta self k)
      else do {
        (b, m) \<leftarrow> mq_unlink (k_mq k i);
        Some (upd_mq i (\<lambda>_. m) k, MqCopying i b sz)
      })"

fun start_call :: "request \<Rightarrow> kernel \<Rightarrow> (kernel \<times> point) option" where
  "start_call (SemTake i time) k = map_option (\<lambda>(k, r). (k, after_call InSemTake r)) (rt_sem_take i time k)"
| "start_call (SemRelease i) k = map_option (\<lambda>(k, e). (k, Returned e)) (rt_sem_release i k)"
| "start_call (MutexTake i time) k =
     map_option (\<lambda>(k, r). (k, after_call (InMutexTake i time) r)) (rt_mutex_take i time k)"
| "start_call (MutexRelease i) k = map_option (\<lambda>(k, e). (k, Returned e)) (rt_mutex_release i k)"
| "start_call (EventSend i flags) k = map_option (\<lambda>(k, e). (k, Returned e)) (rt_event_send i flags k)"
| "start_call (EventRecv i want opt timeout) k =
     map_option (\<lambda>(k, r, _). (k, after_call InEventRecv r)) (rt_event_recv i want opt timeout k)"
| "start_call (MbSend i v timeout) k =
     map_option (\<lambda>(k, r). (k, after_msg (InMbSend i v) r)) (rt_mb_send_wait i v timeout k)"
| "start_call (MbRecv i timeout) k =
     map_option (\<lambda>(k, r, _). (k, after_msg (InMbRecv i) r)) (rt_mb_recv i timeout k)"
| "start_call (MqSend i buf sz) k = mq_begin_send False i buf sz k"
| "start_call (MqUrgent i buf sz) k = mq_begin_send True i buf sz k"
| "start_call (MqRecv i sz timeout) k = do {
     RT_ASSERT (sz \<noteq> 0);
     (if mq_entry (k_mq k i) = 0 \<and> timeout = 0 then Some (k, Returned (- RT_ETIMEOUT))
      else mq_begin_recv i sz timeout 0 (rt_thread_self k) k)
   }"
| "start_call (Sleep tick) k = map_option (\<lambda>(k, r). (k, after_call InSleep r)) (rt_thread_sleep tick k)"
| "start_call Yield k = map_option (\<lambda>(k, e). (k, Returned e)) (rt_thread_yield k)"

fun finish_call :: "point \<Rightarrow> tid \<Rightarrow> kernel \<Rightarrow> (kernel \<times> point) option" where
  "finish_call (Returned e) t k = None"
| "finish_call InSemTake t k = Some (k, Returned (rt_sem_take_leave t k))"
| "finish_call (InMutexTake i time) t k =
     map_option (\<lambda>(k, r). (k, after_call (InMutexTake i time) r)) (rt_mutex_take_leave i time t k)"
| "finish_call InEventRecv t k = Some (k, Returned (fst (rt_event_recv_leave t k)))"
| "finish_call (InMbSend i v timeout delta) t k =
     map_option (\<lambda>(k, r). (k, after_msg (InMbSend i v) r)) (rt_mb_send_leave i v timeout delta t k)"
| "finish_call (InMbRecv i timeout delta) t k =
     map_option (\<lambda>(k, r, _). (k, after_msg (InMbRecv i) r)) (rt_mb_recv_leave i timeout delta t k)"
| "finish_call (MqFilling front i b buf sz) t k =
     Some (upd_mq i (\<lambda>m. mq_fill b buf sz (if front then m else mq_clear_next b m)) k, MqLinking front i b buf sz)"
| "finish_call (MqLinking front i b buf sz) t k =
     map_option (\<lambda>k. (k, Returned RT_EOK))
       (wake_waiter (mq_queue i) (upd_mq i (\<lambda>_. (if front then mq_link_head else mq_link_tail) b (k_mq k i)) k))"
| "finish_call (MqCopying i b sz) t k = Some (upd_mq i (mq_release b) k, Returned RT_EOK)"
| "finish_call (InMqRecv i sz timeout delta) t k =
     (if th_error (k_thread k t) \<noteq> RT_EOK then Some (k, Returned (th_error (k_thread k t)))
      else if 0 < timeout then
        (let delta = rt_tick k - delta
         in mq_begin_recv i sz (recalc_timeout timeout delta) delta (Some t) k)
      else mq_begin_recv i sz timeout delta (Some t) k)"
| "finish_call InSleep t k = (let (k, e) = rt_thread_sleep_leave t k in Some (k, Returned e))"

text \<open>What the kernel asks of its callers: objects that are initialised, timeouts the timers can
  hold, a recursion depth of mutexes that its counter can hold, and an idle thread that never
  waits.\<close>

fun legal :: "request \<Rightarrow> tid \<Rightarrow> kernel \<Rightarrow> bool" where
  "legal (SemTake i time) t k \<longleftrightarrow> t \<noteq> idle_thread \<and> valid_flag (OSem i) k \<and> time < 2 ^ 31 - 1"
| "legal (SemRelease i) t k \<longleftrightarrow> True"
| "legal (MutexTake i time) t k \<longleftrightarrow> t \<noteq> idle_thread \<and> valid_flag (OMutex i) k \<and> time < 2 ^ 31 - 1 \<and>
     (mx_value (k_mutex k i) = 1 \<or> owner (k_mutex k i) \<noteq> None) \<and> hold (k_mutex k i) < 255"
| "legal (MutexRelease i) t k \<longleftrightarrow> t \<noteq> idle_thread"
| "legal (EventSend i flags) t k \<longleftrightarrow> True"
| "legal (EventRecv i want opt timeout) t k \<longleftrightarrow>
     t \<noteq> idle_thread \<and> valid_flag (OEvent i) k \<and> valid_event_opt opt \<and> timeout < 2 ^ 31 - 1"
| "legal (MbSend i v timeout) t k \<longleftrightarrow>
     t \<noteq> idle_thread \<and> valid_flag (OMailBox i) k \<and> mb_size (k_mb k i) \<noteq> 0 \<and> timeout < 2 ^ 31 - 1"
| "legal (MbRecv i timeout) t k \<longleftrightarrow>
     t \<noteq> idle_thread \<and> valid_flag (OMailBox i) k \<and> mb_size (k_mb k i) \<noteq> 0 \<and> timeout < 2 ^ 31 - 1"
| "legal (MqSend i buf sz) t k \<longleftrightarrow> sz \<noteq> 0 \<and> unat sz \<le> length buf"
| "legal (MqUrgent i buf sz) t k \<longleftrightarrow> sz \<noteq> 0 \<and> unat sz \<le> length buf"
| "legal (MqRecv i sz timeout) t k \<longleftrightarrow>
     t \<noteq> idle_thread \<and> valid_flag (OMsgQueue i) k \<and> sz \<noteq> 0 \<and> timeout < 2 ^ 31 - 1"
| "legal (Sleep tick) t k \<longleftrightarrow> t \<noteq> idle_thread \<and> tick < RT_TICK_HALF"
| "legal Yield t k \<longleftrightarrow> True"

text \<open>A thread that waited in a mailbox or message queue computes how long it still may wait; after 2 to the 31
  ticks in a ready list that computation wraps, and this step is not taken.\<close>

fun in_time :: "point \<Rightarrow> kernel \<Rightarrow> bool" where
  "in_time (InMbSend i v timeout delta) k \<longleftrightarrow> timeout \<le> 0 \<or> recalc_timeout timeout (rt_tick k - delta) < 2 ^ 31 - 1"
| "in_time (InMbRecv i timeout delta) k \<longleftrightarrow> timeout \<le> 0 \<or> recalc_timeout timeout (rt_tick k - delta) < 2 ^ 31 - 1"
| "in_time (InMqRecv i sz timeout delta) k \<longleftrightarrow> timeout \<le> 0 \<or> recalc_timeout timeout (rt_tick k - delta) < 2 ^ 31 - 1"
| "in_time _ k \<longleftrightarrow> True"

inductive sys_step :: "callbacks \<Rightarrow> system \<Rightarrow> system \<Rightarrow> bool" for ucb where
  tick: "rt_tick_increase ucb k = Some k' \<Longrightarrow> sys_step ucb (k, P) (k', P)"
| irq_release: "rt_sem_release i k = Some (k', e) \<Longrightarrow> sys_step ucb (k, P) (k', P)"
| irq_send: "rt_event_send i flags k = Some (k', e) \<Longrightarrow> sys_step ucb (k, P) (k', P)"
| irq_message: "rt_mq_send i buf sz k = Some (k', e) \<Longrightarrow> unat sz \<le> length buf \<Longrightarrow> sys_step ucb (k, P) (k', P)"
| call: "rt_current_thread k = Some t \<Longrightarrow> P t = Returned e \<Longrightarrow> legal r t k \<Longrightarrow>
     start_call r k = Some (k', p) \<Longrightarrow> sys_step ucb (k, P) (k', P(t := p))"
| return: "rt_current_thread k = Some t \<Longrightarrow> in_time (P t) k \<Longrightarrow> finish_call (P t) t k = Some (k', p) \<Longrightarrow>
     sys_step ucb (k, P) (k', P(t := p))"

inductive_cases sys_stepE: "sys_step ucb (k, P) s"

inductive sys_reach :: "callbacks \<Rightarrow> system \<Rightarrow> system \<Rightarrow> bool" for ucb s0 where
  start: "sys_reach ucb s0 s0"
| step: "sys_reach ucb s0 s \<Longrightarrow> sys_step ucb s s' \<Longrightarrow> sys_reach ucb s0 s'"

subsection \<open>Steps without interruption\<close>

text \<open>The steps of a call on a message queue, done one after the other, are the call.\<close>

definition uninterrupted :: "tid \<Rightarrow> kernel \<times> point \<Rightarrow> (kernel \<times> point) option" where
  "uninterrupted t s = (case snd s of
     MqFilling front i b buf sz \<Rightarrow> finish_call (snd s) t (fst s) \<bind> (\<lambda>s. finish_call (snd s) t (fst s))
   | MqCopying i b sz \<Rightarrow> finish_call (snd s) t (fst s)
   | _ \<Rightarrow> Some s)"

lemma mq_send_steps:
  "map_option (\<lambda>(k, e). (k, Returned e)) (rt_mq_send i buf sz k) = start_call (MqSend i buf sz) k \<bind> uninterrupted t"
  "map_option (\<lambda>(k, e). (k, Returned e)) (rt_mq_urgent i buf sz k) = start_call (MqUrgent i buf sz) k \<bind> uninterrupted t"
  by (cases "sz = 0"; cases "mq_take_block (k_mq k i)";
      auto simp: rt_mq_send_def rt_mq_urgent_def mq_begin_send_def uninterrupted_def Let_def option.map_comp comp_def map_option_bind)+

lemma mq_recv_steps:
  assumes "mq_entry (k_mq k i) \<noteq> 0"
  shows "map_option (\<lambda>(k, r, _). (k, after_msg (InMqRecv i sz) r)) (rt_mq_recv i sz timeout k) =
    start_call (MqRecv i sz timeout) k \<bind> uninterrupted t"
  using assms by (cases "sz = 0"; cases "mq_unlink (k_mq k i)")
    (auto simp: rt_mq_recv_def mq_recv_loop_def mq_begin_recv_def uninterrupted_def Let_def)

end
