(* ===== verification/Rtt_System_Inv.thy ===== *)
theory Rtt_System_Inv
  imports Rtt_System
begin

text \<open>
  The invariant of the whole system: the kernel's own, what every thread inside a call relies on,
  and that each block of a message queue is in its queue, on its free list, or held by exactly one
  thread. Every step keeps it, and in every state that has it the running thread can go on.
\<close>

subsection \<open>The invariant\<close>

text \<open>The message block a thread holds.\<close>

fun held_by :: "point \<Rightarrow> (nat \<times> nat) option" where
  "held_by (MqFilling front i b buf sz) = Some (i, b)"
| "held_by (MqLinking front i b buf sz) = Some (i, b)"
| "held_by (MqCopying i b sz) = Some (i, b)"
| "held_by _ = None"

definition blocks_of :: "point \<Rightarrow> nat \<Rightarrow> nat set" where
  "blocks_of p i = {b. held_by p = Some (i, b)}"

definition held :: "(tid \<Rightarrow> point) \<Rightarrow> nat \<Rightarrow> nat set" where
  "held P i = {b. \<exists>t. held_by (P t) = Some (i, b)}"

text \<open>What a thread inside a call still has to find when it goes on.\<close>

fun point_ok :: "kernel \<Rightarrow> point \<Rightarrow> bool" where
  "point_ok k (InMbSend i v timeout delta) \<longleftrightarrow>
     valid_flag (OMailBox i) k \<and> mb_size (k_mb k i) \<noteq> 0 \<and> timeout < 2 ^ 31 - 1"
| "point_ok k (InMbRecv i timeout delta) \<longleftrightarrow>
     valid_flag (OMailBox i) k \<and> mb_size (k_mb k i) \<noteq> 0 \<and> timeout < 2 ^ 31 - 1"
| "point_ok k (InMqRecv i sz timeout delta) \<longleftrightarrow> valid_flag (OMsgQueue i) k \<and> timeout < 2 ^ 31 - 1"
| "point_ok k (MqFilling front i b buf sz) \<longleftrightarrow> unat sz \<le> length buf \<and> unat sz \<le> unat (mq_msg_size (k_mq k i))"
| "point_ok k (MqLinking front i b buf sz) \<longleftrightarrow>
     take (unat sz) (mq_data (k_mq k i) b) = take (unat sz) buf \<and> (front \<or> mq_next (k_mq k i) b = None)"
| "point_ok k _ \<longleftrightarrow> True"

text \<open>The idle thread never waits, but it may be interrupted in the middle of a send.\<close>

fun awake :: "point \<Rightarrow> bool" where
  "awake (Returned e) \<longleftrightarrow> True"
| "awake (MqFilling front i b buf sz) \<longleftrightarrow> True"
| "awake (MqLinking front i b buf sz) \<longleftrightarrow> True"
| "awake _ \<longleftrightarrow> False"

definition blocks_owned :: "kernel \<Rightarrow> (tid \<Rightarrow> point) \<Rightarrow> bool" where
  "blocks_owned k P \<longleftrightarrow> (\<forall>i. mq_holds (k_mq k i) (held P i)) \<and>
     (\<forall>s t. s \<noteq> t \<longrightarrow> held_by (P s) \<noteq> None \<longrightarrow> held_by (P s) \<noteq> held_by (P t))"

fun system_inv :: "system \<Rightarrow> bool" where
  "system_inv (k, P) \<longleftrightarrow> sys_ok k \<and> (\<forall>t. point_ok k (P t)) \<and> awake (P idle_thread) \<and> blocks_owned k P"

subsection \<open>Moves\<close>

text \<open>A thread that goes from one point to another gives up and gets its blocks.\<close>

definition mq_moves :: "kernel \<Rightarrow> point \<Rightarrow> kernel \<Rightarrow> point \<Rightarrow> bool" where
  "mq_moves k p k' p' \<longleftrightarrow> (\<forall>i. mq_shift (blocks_of p i) (blocks_of p' i) (k_mq k i) (k_mq k' i))"

lemma stable_moves: "stable k k' \<Longrightarrow> held_by p = None \<Longrightarrow> held_by p' = None \<Longrightarrow> mq_moves k p k' p'"
  by (simp add: stable_def mq_moves_def blocks_of_def)

lemma moves_one:
  assumes "k_mq k' = (k_mq k)(i := m)" "mq_shift A B (k_mq k i) m" "\<And>j. blocks_of p j = (if j = i then A else {})"
    "\<And>j. blocks_of p' j = (if j = i then B else {})"
  shows "mq_moves k p k' p'"
  using assms by (simp add: mq_moves_def)

lemma point_ok_headers: "headers k k' \<Longrightarrow> held_by p = None \<Longrightarrow> point_ok k p \<Longrightarrow> point_ok k' p"
  by (cases p) (simp_all add: headers_def valid_flag_def obj_ipc_flag_def)

lemma point_ok_held:
  assumes "headers k k'" "point_ok k p" "\<And>i b. held_by p = Some (i, b) \<Longrightarrow>
    mq_data (k_mq k' i) b = mq_data (k_mq k i) b \<and> mq_next (k_mq k' i) b = mq_next (k_mq k i) b"
  shows "point_ok k' p"
  using assms point_ok_headers[OF assms(1) _ assms(2)] by (cases p) (simp_all add: headers_def)

lemma after_msg_ok:
  assumes "stable k k'" "\<forall>tmo d. r = MWait tmo d \<longrightarrow> point_ok k (p tmo d)" "\<forall>tmo d. held_by (p tmo d) = None"
  shows "point_ok k' (after_msg p r)"
  using assms point_ok_headers[of k k'] by (cases r) (simp_all add: stable_def)

lemma others_blocks:
  assumes "blocks_owned k P" "s \<noteq> t" "held_by (P s) = Some (i, b)"
  shows "b \<in> held P i - blocks_of (P t) i"
  using assms by (force simp: blocks_owned_def held_def blocks_of_def)

lemma system_inv_move:
  assumes inv: "system_inv (k, P)" and ok: "sys_ok k'" and hd: "headers k k'" and mv: "mq_moves k (P t) k' p"
    and p: "point_ok k' p" and idle: "t = idle_thread \<Longrightarrow> awake p"
  shows "system_inv (k', P(t := p))"
proof -
  have own: "blocks_owned k P" using inv by simp
  have sub: "blocks_of (P t) i \<subseteq> held P i" for i by (auto simp: blocks_of_def held_def)
  note sh = mq_shiftD[OF mv[unfolded mq_moves_def, rule_format] sub]
  have h: "mq_holds (k_mq k i) (held P i)" for i using own by (simp add: blocks_owned_def)
  have held': "held (P(t := p)) i = held P i - blocks_of (P t) i \<union> blocks_of p i" for i
  proof -
    have o: "b \<in> held (P(t := p)) i \<longleftrightarrow> (\<exists>s. s \<noteq> t \<and> held_by (P s) = Some (i, b)) \<or> b \<in> blocks_of p i" for b
      by (auto simp: held_def blocks_of_def)
    have "(\<exists>s. s \<noteq> t \<and> held_by (P s) = Some (i, b)) \<longleftrightarrow> b \<in> held P i - blocks_of (P t) i" for b
    proof
      assume "b \<in> held P i - blocks_of (P t) i"
      then obtain s where "held_by (P s) = Some (i, b)" "held_by (P t) \<noteq> Some (i, b)" by (auto simp: held_def blocks_of_def)
      then show "\<exists>s. s \<noteq> t \<and> held_by (P s) = Some (i, b)" by metis
    qed (use others_blocks[OF own] in blast)
    then show ?thesis using o by blast
  qed
  have "point_ok k' (P s)" if "s \<noteq> t" for s
    by (rule point_ok_held[OF hd]) (use inv others_blocks[OF own that] sh(3,4)[OF h] in auto)
  moreover have "awake ((P(t := p)) idle_thread)" using inv idle by simp
  moreover have "held_by ((P(t := p)) r) \<noteq> held_by ((P(t := p)) s)"
    if rs: "r \<noteq> s" and r: "held_by ((P(t := p)) r) \<noteq> None" for r s
  proof -
    have new: "held_by p \<noteq> Some (i, b)" if "s \<noteq> t" "held_by (P s) = Some (i, b)" for s i b
      using others_blocks[OF own that] sh(1)[OF h, of i] by (auto simp: blocks_of_def)
    obtain i b where ib: "held_by ((P(t := p)) r) = Some (i, b)" using r by auto
    consider "r = t" | "s = t" | "r \<noteq> t" "s \<noteq> t" by blast
    then show ?thesis
    proof cases
      case 1
      then show ?thesis using ib new[of s i b] rs by auto
    next
      case 2
      then show ?thesis using ib new[of r i b] rs by auto
    next
      case 3
      then show ?thesis using own rs r by (auto simp: blocks_owned_def)
    qed
  qed
  ultimately show ?thesis using ok p sh(2)[OF h] by (auto simp: blocks_owned_def held')
qed

text \<open>A step that is no thread's own.\<close>

lemma system_inv_stable:
  assumes inv: "system_inv (k, P)" and ok: "sys_ok k'" and st: "stable k k'"
  shows "system_inv (k', P)"
proof -
  have own: "blocks_owned k P" using inv by simp
  have h: "mq_holds (k_mq k i) (held P i)" for i using own by (simp add: blocks_owned_def)
  have m: "mq_shift {} {} (k_mq k i) (k_mq k' i)" for i using st by (simp add: stable_def)
  note sh = mq_shiftD[OF m _ h, simplified]
  have "point_ok k' (P s)" for s
  proof (rule point_ok_held)
    show "headers k k'" using st by (simp add: stable_def)
    show "point_ok k (P s)" using inv by simp
    fix i b assume "held_by (P s) = Some (i, b)"
    then have "b \<in> held P i" by (auto simp: held_def)
    then show "mq_data (k_mq k' i) b = mq_data (k_mq k i) b \<and> mq_next (k_mq k' i) b = mq_next (k_mq k i) b"
      using sh(3,4) by simp
  qed
  then show ?thesis using inv ok sh(2) by (simp add: blocks_owned_def)
qed

subsection \<open>Calls\<close>

text \<open>Every legal call runs, ends or waits, and keeps the invariant: first those on other objects.\<close>

fun on_queue :: "request \<Rightarrow> bool" where
  "on_queue (MqSend i buf sz) \<longleftrightarrow> True"
| "on_queue (MqUrgent i buf sz) \<longleftrightarrow> True"
| "on_queue (MqRecv i sz timeout) \<longleftrightarrow> True"
| "on_queue _ \<longleftrightarrow> False"

lemma start_call_quiet:
  assumes ok: "sys_ok k" and cur: "rt_current_thread k = Some t" and legal: "legal r t k" and nq: "\<not> on_queue r"
  shows "\<exists>k' p. start_call r k = Some (k', p) \<and> sys_ok k' \<and> stable k k' \<and> point_ok k' p \<and>
    (t = idle_thread \<longrightarrow> (\<exists>e. p = Returned e))"
proof -
  have cb: "can_block t k" if "t \<noteq> idle_thread" by (rule sys_ok_can_block[OF ok cur that])
  have self: "rt_thread_self k = Some t" using cur by (simp add: rt_thread_self_def)
  have mb: "point_ok k' (after_msg p r)"
    if "stable k k'" "\<forall>tmo d. r = MWait tmo d \<longrightarrow> point_ok k (p tmo d)" "\<forall>tmo d. held_by (p tmo d) = None" for k' p r
    using that after_msg_ok by blast
  show ?thesis
  proof (cases r)
    case (MqSend i buf sz)
    then show ?thesis using nq by simp
  next
    case (MqUrgent i buf sz)
    then show ?thesis using nq by simp
  next
    case (MqRecv i sz timeout)
    then show ?thesis using nq by simp
  next
    case (SemTake i time)
    have c: "can_block t k" "valid_flag (OSem i) k" "time < 2 ^ 31 - 1" using legal SemTake cb by auto
    obtain k' o1 where "rt_sem_take i time k = Some (k', o1)" "sys_ok k'" "served (OSem i) k k'"
      using sem_take_sys[OF ok c] by blast
    then show ?thesis using SemTake legal served_stable by (cases o1) auto
  next
    case (SemRelease i)
    then show ?thesis using sem_release_sys[OF ok, of i] served_stable by force
  next
    case (MutexTake i time)
    have c: "can_block t k" "valid_flag (OMutex i) k" "time < 2 ^ 31 - 1"
      "mx_value (k_mutex k i) = 1 \<or> owner (k_mutex k i) \<noteq> None" "hold (k_mutex k i) < 255" using legal MutexTake cb by auto
    obtain k' o1 where "rt_mutex_take i time k = Some (k', o1)" "sys_ok k'" "served (OMutex i) k k'"
      using mutex_take_sys[OF ok c] by blast
    then show ?thesis using MutexTake legal served_stable by (cases o1) auto
  next
    case (MutexRelease i)
    then have "can_block t k" using legal cb by simp
    then show ?thesis using MutexRelease mutex_release_sys[OF ok, of t i] served_stable by force
  next
    case (EventSend i flags)
    then show ?thesis using event_send_sys[OF ok, of i flags] served_stable by force
  next
    case (EventRecv i want opt timeout)
    have c: "can_block t k" "valid_event_opt opt" "valid_flag (OEvent i) k" "timeout < 2 ^ 31 - 1" using legal EventRecv cb by auto
    obtain k' o1 v where "rt_event_recv i want opt timeout k = Some (k', o1, v)" "sys_ok k'" "served (OEvent i) k k'"
      using event_recv_sys[OF ok c] by blast
    then show ?thesis using EventRecv legal served_stable by (cases o1) auto
  next
    case (MbSend i v timeout)
    have c: "can_block t k" "valid_flag (OMailBox i) k" "timeout < 2 ^ 31 - 1" "mb_size (k_mb k i) \<noteq> 0" "t \<noteq> idle_thread"
      using legal MbSend cb by auto
    obtain k' o1 where k': "rt_mb_send_wait i v timeout k = Some (k', o1)" "sys_ok k'" "stable k k'"
      "\<forall>tmo d. o1 = MWait tmo d \<longrightarrow> tmo = timeout"
    proof (cases "mb_entry (k_mb k i) = mb_size (k_mb k i) \<and> timeout = 0")
      case True
      then show ?thesis using that[of k "MDone (- RT_EFULL)"] ok by (simp add: rt_mb_send_wait_def)
    next
      case False
      obtain k' o1 where "mb_send_loop i v timeout 0 (Some t) k = Some (k', o1)" "sys_ok k'" "served (OMailBox i) k k'"
        "\<forall>tmo d. o1 = MWait tmo d \<longrightarrow> tmo = timeout"
        using mb_send_loop_sys[OF ok c(1-4)] by blast
      then show ?thesis using that[of k' o1] False self served_stable by (auto simp: rt_mb_send_wait_def)
    qed
    have "point_ok k' (after_msg (InMbSend i v) o1)" by (rule mb[OF k'(3)]) (use k'(4) c in fastforce)+
    then show ?thesis using MbSend k' c(5) by simp
  next
    case (MbRecv i timeout)
    have c: "can_block t k" "valid_flag (OMailBox i) k" "timeout < 2 ^ 31 - 1" "mb_size (k_mb k i) \<noteq> 0" "t \<noteq> idle_thread"
      using legal MbRecv cb by auto
    obtain k' o1 x where k': "rt_mb_recv i timeout k = Some (k', o1, x)" "sys_ok k'" "stable k k'"
      "\<forall>tmo d. o1 = MWait tmo d \<longrightarrow> tmo = timeout"
    proof (cases "mb_entry (k_mb k i) = 0 \<and> timeout = 0")
      case True
      then show ?thesis using that[of k "MDone (- RT_ETIMEOUT)" None] ok by (simp add: rt_mb_recv_def)
    next
      case False
      obtain k' o1 x where "mb_recv_loop i timeout 0 (Some t) k = Some (k', o1, x)" "sys_ok k'" "served (OMailBox i) k k'"
        "\<forall>tmo d. o1 = MWait tmo d \<longrightarrow> tmo = timeout"
        using mb_recv_loop_sys[OF ok c(1-4)] by blast
      then show ?thesis using that[of k' o1 x] False self served_stable by (auto simp: rt_mb_recv_def)
    qed
    have "point_ok k' (after_msg (InMbRecv i) o1)" by (rule mb[OF k'(3)]) (use k'(4) c in fastforce)+
    then show ?thesis using MbRecv k' c(5) by simp
  next
    case (Sleep tick)
    have c: "can_block t k" "tick < RT_TICK_HALF" using legal Sleep cb by auto
    obtain k' o1 where "rt_thread_sleep tick k = Some (k', o1)" "sys_ok k'" "served (OThread t) k k'"
      using sleep_sys[OF ok c] by blast
    then show ?thesis using Sleep legal served_stable by (cases o1) auto
  next
    case Yield
    then show ?thesis using yield_sys[OF ok, of t] served_stable by force
  qed
qed

text \<open>Every thread that waited and runs again goes on, ends or waits again.\<close>

lemma finish_call_quiet:
  assumes ok: "sys_ok k" and cur: "rt_current_thread k = Some t" and p: "point_ok k p" "\<And>e. p \<noteq> Returned e"
    and nq: "held_by p = None" "\<And>i sz timeout delta. p \<noteq> InMqRecv i sz timeout delta"
    and idle: "t \<noteq> idle_thread" and tm: "in_time p k"
  shows "\<exists>k' p'. finish_call p t k = Some (k', p') \<and> sys_ok k' \<and> stable k k' \<and> point_ok k' p'"
proof -
  note o = sys_okD[OF ok]
  have cb: "can_block t k" by (rule sys_ok_can_block[OF ok cur idle])
  show ?thesis
  proof (cases p)
    case (Returned e)
    then show ?thesis using p(2) by blast
  next
    case (InMutexTake i time)
    then show ?thesis using ok o(12)[of t] by (auto simp: rt_mutex_take_leave_def Let_def)
  next
    case (InMbSend i v timeout delta)
    let ?d = "if 0 < timeout then rt_tick k - delta else delta"
    let ?tmo = "if 0 < timeout then recalc_timeout timeout (rt_tick k - delta) else timeout"
    have c: "valid_flag (OMailBox i) k" "?tmo < 2 ^ 31 - 1" "mb_size (k_mb k i) \<noteq> 0"
      using p(1) tm by (auto simp: InMbSend)
    obtain k' r where k': "mb_send_loop i v ?tmo ?d (Some t) k = Some (k', r)" "sys_ok k'" "served (OMailBox i) k k'"
      "\<forall>tmo d. r = MWait tmo d \<longrightarrow> tmo = ?tmo"
      using mb_send_loop_sys[OF ok cb c] by blast
    have "stable k k'" by (rule served_stable[OF k'(3)]) simp
    then have "point_ok k' (after_msg (InMbSend i v) r)" by (rule after_msg_ok) (use k'(4) c in fastforce)+
    then show ?thesis using k' ok served_stable by (auto simp: InMbSend rt_mb_send_leave_def Let_def split: if_splits)
  next
    case (InMbRecv i timeout delta)
    let ?d = "if 0 < timeout then rt_tick k - delta else delta"
    let ?tmo = "if 0 < timeout then recalc_timeout timeout (rt_tick k - delta) else timeout"
    have c: "valid_flag (OMailBox i) k" "?tmo < 2 ^ 31 - 1" "mb_size (k_mb k i) \<noteq> 0"
      using p(1) tm by (auto simp: InMbRecv)
    obtain k' r x where k': "mb_recv_loop i ?tmo ?d (Some t) k = Some (k', r, x)" "sys_ok k'" "served (OMailBox i) k k'"
      "\<forall>tmo d. r = MWait tmo d \<longrightarrow> tmo = ?tmo"
      using mb_recv_loop_sys[OF ok cb c] by blast
    have "stable k k'" by (rule served_stable[OF k'(3)]) simp
    then have "point_ok k' (after_msg (InMbRecv i) r)" by (rule after_msg_ok) (use k'(4) c in fastforce)+
    then show ?thesis using k' ok served_stable by (auto simp: InMbRecv rt_mb_recv_leave_def Let_def split: if_splits)
  next
    case InSleep
    let ?k = "set_error t RT_EOK k"
    have sv: "served (OThread t) k ?k" by (rule served_set_error) simp
    have "cur_ready ?k" by (rule cur_ready_keep[OF o(11)]) auto
    then have "sys_ok ?k" using sys_ok_served[OF ok kinv_set_error[OF o(1)] sv] by simp
    moreover have "stable k ?k" by (rule served_stable[OF sv]) simp
    ultimately show ?thesis using ok by (auto simp: InSleep rt_thread_sleep_leave_def Let_def simp del: upd_thread_def)
  qed (use ok nq in auto)
qed


text \<open>Calls on message queues: each critical section on its own.\<close>

lemma start_call_held: "start_call r k = Some (k', p) \<Longrightarrow> \<not> on_queue r \<Longrightarrow> held_by p = None"
proof -
  have o: "held_by (after_call p r) = None" if "held_by p = None" for p r using that by (cases r) auto
  have m: "held_by (after_msg f r) = None" if "\<And>tmo d. held_by (f tmo d) = None" for f r using that by (cases r) auto
  show "start_call r k = Some (k', p) \<Longrightarrow> \<not> on_queue r \<Longrightarrow> held_by p = None"
    by (cases r) (auto simp: o m)
qed

text \<open>What a step of a thread that was at \<open>p\<close> has to show.\<close>

definition moved :: "tid \<Rightarrow> kernel \<Rightarrow> point \<Rightarrow> kernel \<times> point \<Rightarrow> bool" where
  "moved t k p s' \<longleftrightarrow> (case s' of (k', p') \<Rightarrow>
     sys_ok k' \<and> headers k k' \<and> mq_moves k p k' p' \<and> point_ok k' p' \<and> (t = idle_thread \<longrightarrow> awake p'))"

lemma moved_stable:
  assumes "sys_ok k'" "stable k k'" "point_ok k' p'" "held_by p = None" "held_by p' = None" "t = idle_thread \<Longrightarrow> awake p'"
  shows "moved t k p (k', p')"
  using assms stable_moves[OF assms(2,4,5)] by (simp add: moved_def stable_def)

lemma moved_inv: "system_inv (k, P) \<Longrightarrow> moved t k (P t) (k', p) \<Longrightarrow> system_inv (k', P(t := p))"
  using system_inv_move[of k P k' t p] by (simp add: moved_def)

lemma begin_send_ok:
  assumes ok: "sys_ok k" and sz: "sz \<noteq> 0" "unat sz \<le> length buf"
  shows "\<exists>s'. mq_begin_send front i buf sz k = Some s' \<and> moved t k (Returned e) s'"
proof (cases "ucast (mq_msg_size (k_mq k i)) < sz \<or> mq_take_block (k_mq k i) = None")
  case True
  then obtain e' where run: "mq_begin_send front i buf sz k = Some (k, Returned e')" using sz(1)
    by (cases "ucast (mq_msg_size (k_mq k i)) < sz") (auto simp: mq_begin_send_def)
  have "moved t k (Returned e) (k, Returned e')" by (rule moved_stable[OF ok stable_refl]) simp_all
  then show ?thesis using run by blast
next
  case False
  then obtain b m where bm: "mq_take_block (k_mq k i) = Some (b, m)" by auto
  let ?k = "upd_mq i (\<lambda>_. m) k"
  have le: "unat sz \<le> unat (mq_msg_size (k_mq k i))"
    using False unsigned_less[of "mq_msg_size (k_mq k i)", where 'a = nat]
    by (simp add: word_less_nat_alt unsigned_ucast_eq take_bit_nat_eq_self)
  note sh = take_shift[OF bm]
  note size = mq_shift_size[OF sh]
  have run: "mq_begin_send front i buf sz k = Some (?k, MqFilling front i b buf sz)"
    using False sz(1) bm by (auto simp: mq_begin_send_def)
  have sv: "sys_ok ?k" "served (OMsgQueue i) k ?k" using mq_upd_sys[OF ok, of "\<lambda>_. m"] size by blast+
  have "mq_moves k (Returned e) ?k (MqFilling front i b buf sz)"
    by (rule moves_one[where i = i and m = m, OF _ sh]) (auto simp: blocks_of_def)
  then have "moved t k (Returned e) (?k, MqFilling front i b buf sz)"
    using sv served_headers[OF sv(2)] sz(2) le size by (simp add: moved_def)
  then show ?thesis using run by blast
qed

lemma begin_recv_ok:
  assumes ok: "sys_ok k" and cb: "can_block t k" and fl: "valid_flag (OMsgQueue i) k" and tm: "timeout < 2 ^ 31 - 1"
    and holds: "mq_holds (k_mq k i) W" and idle: "t \<noteq> idle_thread" and p: "held_by p = None"
  shows "\<exists>s'. mq_begin_recv i sz timeout delta (Some t) k = Some s' \<and> moved t k p s'"
proof (cases "mq_entry (k_mq k i) = 0")
  case True
  obtain k' r where k': "mq_recv_loop i sz timeout delta (Some t) k = Some (k', r, None)" "sys_ok k'" "served (OMsgQueue i) k k'"
    "k_mq k' = k_mq k" "\<forall>tmo d. r = MWait tmo d \<longrightarrow> tmo = timeout"
    by (rule mq_recv_empty_sys[OF ok cb fl tm True]) (rule that; assumption)
  have st: "stable k k'" using served_headers[OF k'(3)] k'(4) by (simp add: stable_def)
  have "point_ok k' (after_msg (InMqRecv i sz) r)" by (rule after_msg_ok[OF st]) (use k'(5) fl tm in fastforce)+
  moreover have "held_by (after_msg (InMqRecv i sz) r) = None" by (cases r) simp_all
  ultimately have "moved t k p (k', after_msg (InMqRecv i sz) r)"
    by (rule moved_stable[OF k'(2) st _ p]) (use idle in simp)
  then show ?thesis using k'(1) True by (simp add: mq_begin_recv_def)
next
  case False
  obtain b m where bm: "mq_unlink (k_mq k i) = Some (b, m)" using holds_unlink[OF holds False] by blast
  let ?k = "upd_mq i (\<lambda>_. m) k"
  note sh = unlink_shift[OF bm]
  have sv: "sys_ok ?k" "served (OMsgQueue i) k ?k" using mq_upd_sys[OF ok, of "\<lambda>_. m"] mq_shift_size[OF sh] by blast+
  have run: "mq_begin_recv i sz timeout delta (Some t) k = Some (?k, MqCopying i b sz)"
    using False bm by (simp add: mq_begin_recv_def)
  have "mq_moves k p ?k (MqCopying i b sz)"
    by (rule moves_one[where i = i and m = m, OF _ sh]) (auto simp: blocks_of_def p)
  then have "moved t k p (?k, MqCopying i b sz)" using sv served_headers[OF sv(2)] idle by (simp add: moved_def)
  then show ?thesis using run by blast
qed

lemma start_call_ok:
  assumes ok: "sys_ok k" and cur: "rt_current_thread k = Some t" and legal: "legal r t k"
    and holds: "\<And>i. \<exists>W. mq_holds (k_mq k i) W"
  shows "\<exists>s'. start_call r k = Some s' \<and> moved t k (Returned e) s'"
proof (cases "on_queue r")
  case False
  obtain k' p where k': "start_call r k = Some (k', p)" "sys_ok k'" "stable k k'" "point_ok k' p"
    "t = idle_thread \<longrightarrow> (\<exists>e. p = Returned e)"
    using start_call_quiet[OF ok cur legal False] by blast
  have "moved t k (Returned e) (k', p)"
    by (rule moved_stable[OF k'(2-4) _ start_call_held[OF k'(1) False]]) (use k'(5) in auto)
  then show ?thesis using k'(1) by blast
next
  case True
  then consider i buf sz where "r = MqSend i buf sz" | i buf sz where "r = MqUrgent i buf sz"
    | i sz timeout where "r = MqRecv i sz timeout" by (cases r) auto
  then show ?thesis
  proof cases
    case (3 i sz timeout)
    have l: "t \<noteq> idle_thread" "valid_flag (OMsgQueue i) k" "sz \<noteq> 0" "timeout < 2 ^ 31 - 1" using legal 3 by simp_all
    obtain W where W: "mq_holds (k_mq k i) W" using holds by blast
    have self: "rt_thread_self k = Some t" using cur by (simp add: rt_thread_self_def)
    show ?thesis
    proof (cases "mq_entry (k_mq k i) = 0 \<and> timeout = 0")
      case True
      have "moved t k (Returned e) (k, Returned (- RT_ETIMEOUT))" by (rule moved_stable[OF ok stable_refl]) simp_all
      then show ?thesis using True l(3) 3 by simp
    next
      case False
      obtain s' where "mq_begin_recv i sz timeout 0 (Some t) k = Some s'" "moved t k (Returned e) s'"
        using begin_recv_ok[OF ok sys_ok_can_block[OF ok cur l(1)] l(2,4) W l(1), of "Returned e" sz 0] by auto
      moreover have "start_call r k = mq_begin_recv i sz timeout 0 (Some t) k" using False l(3) 3 self by auto
      ultimately show ?thesis by metis
    qed
  qed (use begin_send_ok[OF ok] legal in auto)
qed

text \<open>A thread that is inside a call and runs goes on; the running thread finds its blocks as it
  left them.\<close>

lemma upd_mq_moved:
  assumes ok: "sys_ok k" and sh: "mq_shift A B (k_mq k i) (f (k_mq k i))"
    and A: "\<And>j. blocks_of p j = (if j = i then A else {})" and B: "\<And>j. blocks_of p' j = (if j = i then B else {})"
    and p: "point_ok (upd_mq i f k) p'" "awake p'"
  shows "moved t k p (upd_mq i f k, p')"
proof -
  have sv: "sys_ok (upd_mq i f k)" "served (OMsgQueue i) k (upd_mq i f k)" using mq_upd_sys[where f = f and i = i, OF ok mq_shift_size[OF sh]] by blast+
  have "mq_moves k p (upd_mq i f k) p'" by (rule moves_one[where i = i, OF _ sh A B]) simp
  then show ?thesis using sv served_headers[OF sv(2)] p by (simp add: moved_def)
qed

lemma finish_queue_ok:
  assumes ok: "sys_ok k" and p: "point_ok k p" "held_by p \<noteq> None"
  shows "\<exists>s'. finish_call p t k = Some s' \<and> moved t k p s'"
proof -
  consider front i b buf sz where "p = MqFilling front i b buf sz" | front i b buf sz where "p = MqLinking front i b buf sz"
    | i b sz where "p = MqCopying i b sz" using p(2) by (cases p) auto
  then show ?thesis
  proof cases
    case (1 front i b buf sz)
    let ?f = "\<lambda>m. mq_fill b buf sz (if front then m else mq_clear_next b m)" and ?m = "k_mq k i"
    have le: "unat sz \<le> length buf" "unat sz \<le> unat (mq_msg_size ?m)" using p(1) 1 by simp_all
    have le': "unat sz \<le> unat (mq_msg_size (mq_clear_next b ?m))" using le(2) by (simp add: mq_clear_next_def)
    have sh: "mq_shift {b} {b} ?m (?f ?m)"
      using fill_shift[OF le] mq_shift_trans[OF clear_shift fill_shift[OF le(1) le']] by simp
    have "moved t k p (upd_mq i ?f k, MqLinking front i b buf sz)"
      by (rule upd_mq_moved[where f = ?f and i = i, OF ok sh]) (use le(1) in \<open>auto simp: 1 blocks_of_def mq_fill_def mq_clear_next_def\<close>)
    then show ?thesis using 1 by (simp del: upd_mq_def)
  next
    case (2 front i b buf sz)
    let ?m = "(if front then mq_link_head else mq_link_tail) b (k_mq k i)"
    have sh: "mq_shift {b} {} (k_mq k i) ?m"
      using p(1) 2 link_tail_shift[of "k_mq k i" b] link_head_shift[of b "k_mq k i"] by (cases front) simp_all
    obtain k' where k': "wake_waiter (mq_queue i) (upd_mq i (\<lambda>_. ?m) k) = Some k'" "sys_ok k'" "served (OMsgQueue i) k k'"
      "k_mq k' = (k_mq k)(i := ?m)"
      by (rule mq_wake_sys[OF ok mq_shift_size[OF sh]]) (rule that; assumption)
    have "mq_moves k p k' (Returned RT_EOK)" by (rule moves_one[OF k'(4) sh]) (auto simp: 2 blocks_of_def)
    then have "moved t k p (k', Returned RT_EOK)" using k'(2) served_headers[OF k'(3)] by (simp add: moved_def)
    then show ?thesis using 2 k'(1) by (simp del: upd_mq_def)
  next
    case (3 i b sz)
    have "moved t k p (upd_mq i (mq_release b) k, Returned RT_EOK)"
      by (rule upd_mq_moved[where f = "mq_release b" and i = i, OF ok release_shift]) (auto simp: 3 blocks_of_def)
    then show ?thesis using 3 by (simp del: upd_mq_def)
  qed
qed

lemma finish_call_ok:
  assumes ok: "sys_ok k" and cur: "rt_current_thread k = Some t" and p: "point_ok k p" "\<And>e. p \<noteq> Returned e"
    and idle: "t = idle_thread \<Longrightarrow> awake p" and tm: "in_time p k" and holds: "\<And>i. \<exists>W. mq_holds (k_mq k i) W"
  shows "\<exists>s'. finish_call p t k = Some s' \<and> moved t k p s'"
proof (cases "held_by p = None")
  case False
  show ?thesis by (rule finish_queue_ok[OF ok p(1) False])
next
  case free: True
  have "\<not> awake p" using free p(2) by (cases p) auto
  then have t: "t \<noteq> idle_thread" using idle by blast
  show ?thesis
  proof (cases "\<exists>i sz timeout delta. p = InMqRecv i sz timeout delta")
    case True
    then obtain i sz timeout delta where q: "p = InMqRecv i sz timeout delta" by blast
    let ?d = "if 0 < timeout then rt_tick k - delta else delta"
    let ?tmo = "if 0 < timeout then recalc_timeout timeout (rt_tick k - delta) else timeout"
    have c: "valid_flag (OMsgQueue i) k" "?tmo < 2 ^ 31 - 1" using p(1) tm by (auto simp: q)
    obtain W where W: "mq_holds (k_mq k i) W" using holds by blast
    show ?thesis
    proof (cases "th_error (k_thread k t) = RT_EOK")
      case True
      then show ?thesis
        using begin_recv_ok[OF ok sys_ok_can_block[OF ok cur t] c W t free, of sz ?d] by (simp add: q Let_def split: if_splits)
    next
      case False
      have "moved t k p (k, Returned (th_error (k_thread k t)))" by (rule moved_stable[OF ok stable_refl _ free]) simp_all
      then show ?thesis using False by (simp add: q)
    qed
  next
    case False
    obtain k' p' where k': "finish_call p t k = Some (k', p')" "sys_ok k'" "stable k k'" "point_ok k' p'"
      using finish_call_quiet[OF ok cur p free _ t tm] False by blast
    have o: "held_by (after_call q r) = None" if "held_by q = None" for q r using that by (cases r) auto
    have m: "held_by (after_msg f r) = None" if "\<And>tmo d. held_by (f tmo d) = None" for f r using that by (cases r) auto
    have "held_by p' = None" using k'(1) free False by (cases "rt_thread_sleep_leave t k"; cases p) (auto simp: o m)
    then have "moved t k p (k', p')" by (rule moved_stable[OF k'(2-4) free]) (use t in simp)
    then show ?thesis using k'(1) by blast
  qed
qed

subsection \<open>Steps and runs\<close>

lemma system_inv_holds: "system_inv (k, P) \<Longrightarrow> \<exists>W. mq_holds (k_mq k i) W"
  by (auto simp: blocks_owned_def)

lemma sys_step_inv:
  assumes cb: "callbacks_sys ucb" and step: "sys_step ucb s s'" and inv: "system_inv s"
  shows "system_inv s'"
  using step inv
proof (induction rule: sys_step.induct)
  case (tick k k' P)
  have ok: "sys_ok k" using tick.prems by simp
  have "sys_ok k'" "stable k k'" using tick_sys[OF cb ok] tick.hyps by auto
  then show ?case by (rule system_inv_stable[OF tick.prems])
next
  case (irq_release i k k' e P)
  have ok: "sys_ok k" using irq_release.prems by simp
  have sv: "sys_ok k'" "served (OSem i) k k'" using sem_release_sys[OF ok, of i] irq_release.hyps by auto
  have "stable k k'" by (rule served_stable[OF sv(2)]) simp
  then show ?case by (rule system_inv_stable[OF irq_release.prems sv(1)])
next
  case (irq_send i flags k k' e P)
  have ok: "sys_ok k" using irq_send.prems by simp
  have sv: "sys_ok k'" "served (OEvent i) k k'" using event_send_sys[OF ok, of i flags] irq_send.hyps by auto
  have "stable k k'" by (rule served_stable[OF sv(2)]) simp
  then show ?case by (rule system_inv_stable[OF irq_send.prems sv(1)])
next
  case (irq_message i buf sz k k' e P)
  have ok: "sys_ok k" using irq_message.prems by simp
  note m = mq_send_sys[OF ok irq_message.hyps(2,1)]
  have "stable k k'" using served_headers[OF m(2)] m(3) by (simp add: stable_def)
  then show ?case by (rule system_inv_stable[OF irq_message.prems m(1)])
next
  case (call k t P e r k' p)
  have ok: "sys_ok k" using call.prems by simp
  obtain s' where "start_call r k = Some s'" "moved t k (Returned e) s'"
    using start_call_ok[OF ok call.hyps(1,3) system_inv_holds[OF call.prems], of e] by auto
  then have "moved t k (P t) (k', p)" using call.hyps(2,4) by simp
  then show ?case by (rule moved_inv[OF call.prems])
next
  case (return k t P k' p)
  have ok: "sys_ok k" "point_ok k (P t)" and aw: "t = idle_thread \<Longrightarrow> awake (P t)" using return.prems by auto
  have ret: "P t \<noteq> Returned e" for e using return.hyps(3) by (cases "P t") auto
  obtain s' where "finish_call (P t) t k = Some s'" "moved t k (P t) s'"
    using finish_call_ok[OF ok(1) return.hyps(1) ok(2) ret aw return.hyps(2) system_inv_holds[OF return.prems]] by auto
  then have "moved t k (P t) (k', p)" using return.hyps(3) by simp
  then show ?case by (rule moved_inv[OF return.prems])
qed

lemma sys_reach_inv:
  assumes "sys_reach ucb s0 s" "callbacks_sys ucb" "system_inv s0"
  shows "system_inv s"
  using assms(1) by (induction rule: sys_reach.induct) (use assms(2,3) sys_step_inv in auto)

end
