(* ===== verification/Rtt_System_Props.thy ===== *)
theory Rtt_System_Props
  imports Rtt_System_Inv
begin

text \<open>
  Properties of the kernel as a whole, and of a release that should have switched threads.
\<close>

text \<open>C1. In every state threads and interrupts can reach, whatever the order of their calls, no
  thread waits for an available semaphore or for an event it has, the holder of a mutex does not
  wait for it, every mailbox is well formed, every block of a message queue is in the queue, on its
  free list, or held by exactly one thread in the middle of a send or a receive, a thread that is
  ready runs, no timer is overdue and the invariant of scheduler, threads and timers holds.\<close>

theorem system_invariant:
  assumes "sys_reach ucb s0 (k, P)" "callbacks_sys ucb" "system_inv s0"
  shows "kinv k \<and> cur_ready k \<and>
    (\<forall>i. 0 < k_sem k i \<longrightarrow> tlist_of k (sem_queue i) = []) \<and>
    (\<forall>i t. owner (k_mutex k i) = Some t \<longrightarrow> t \<notin> set (tlist_of k (mutex_queue i)) \<and> 0 < hold (k_mutex k i)) \<and>
    (\<forall>i. owner (k_mutex k i) = None \<longrightarrow> tlist_of k (mutex_queue i) = []) \<and>
    (\<forall>i. \<forall>t \<in> set (tlist_of k (event_queue i)). \<not> satisfied (k_thread k t) (k_event k i)) \<and>
    mb_inv k \<and> clock_inv k \<and>
    (\<forall>i. \<exists>us fs ws. mq_rep (k_mq k i) us fs ws \<and> set ws = {b. \<exists>t. held_by (P t) = Some (i, b)}) \<and>
    (\<forall>s t i b. held_by (P s) = Some (i, b) \<longrightarrow> held_by (P t) = Some (i, b) \<longrightarrow> s = t)"
proof -
  have "sys_ok k" and own: "blocks_owned k P" using sys_reach_inv[OF assms] by simp_all
  note o = sys_okD[OF this(1)]
  have "\<exists>us fs ws. mq_rep (k_mq k i) us fs ws \<and> set ws = {b. \<exists>t. held_by (P t) = Some (i, b)}" for i
    using own by (simp add: blocks_owned_def mq_holds_def held_def)
  moreover have "s = t" if "held_by (P s) = Some (i, b)" "held_by (P t) = Some (i, b)" for s t i b
    using own that unfolding blocks_owned_def by (metis option.distinct(1))
  moreover have m: "mutex_ok (k_mutex k i) (tlist_of k (mutex_queue i))" for i using o(6) by (simp add: mutex_inv_def)
  moreover have "t \<notin> set (tlist_of k (mutex_queue i)) \<and> 0 < hold (k_mutex k i)" if "owner (k_mutex k i) = Some t" for i t
    using m[of i] that by (simp add: mutex_ok_def)
  moreover have "tlist_of k (mutex_queue i) = []" if "owner (k_mutex k i) = None" for i
    using m[of i] that by (simp add: mutex_ok_def)
  ultimately show ?thesis
    using o(1-8,11) by (auto simp: sem_inv_def event_inv_def clock_inv_alt)
qed

lemma callbacks_sys_none: "callbacks_sys (\<lambda>n k. Some k)"
  by (simp add: callbacks_sys_def callbacks_ok_def)

lemma system_two: "system_inv (kernel_two, \<lambda>_. Returned 0)"
proof -
  note f = kernel_two_facts
  have "mutex_ok (k_mutex kernel_two i) (tlist_of kernel_two (mutex_queue i))" for i
    by (simp add: mutex_ok_def f)
  moreover have mq: "mq_holds (k_mq kernel_two i) {}" for i
    unfolding mq_holds_def
    by (intro exI[of _ "[]"]) (simp add: mq_rep_def kernel_two_def kernel_zero_def)
  moreover have "mb_size (k_mb kernel_two i) = 0" for i by (simp add: kernel_two_def kernel_zero_def)
  moreover have "th_error (k_thread kernel_two s) = 0" for s by (simp add: kernel_two_def kernel_zero_def running_thread_def)
  ultimately have "sys_ok kernel_two"
    using clock_inv_two by (simp add: sys_ok_def sem_inv_def mutex_inv_def event_inv_def mb_inv_def cur_ready_def f)
  then show ?thesis using mq by (simp add: blocks_owned_def held_def)
qed

text \<open>Thread 2 waits for semaphore 0 of \<open>kernel_two\<close>.\<close>

lemma reach_waiting:
  "\<exists>k. sys_reach (\<lambda>n k. Some k) (kernel_two, \<lambda>_. Returned 0) (k, (\<lambda>_. Returned 0)(2 := InSemTake))"
proof -
  have v: "valid_flag (OSem 0) kernel_two" by (simp add: valid_flag_def obj_ipc_flag_def kernel_two_facts)
  have tm: "(5 :: int) \<noteq> 0" "(5 :: int) < 2 ^ 31 - 1" by simp_all
  obtain k' where "rt_sem_take 0 5 kernel_two = Some (k', Wait)"
    by (rule sem_take_block[OF kinv_two can_block_two kernel_two_facts(8) tm v]) (rule that)
  then have c: "start_call (SemTake 0 5) kernel_two = Some (k', InSemTake)" by simp
  have "sys_step (\<lambda>n k. Some k) (kernel_two, \<lambda>_. Returned 0) (k', (\<lambda>_. Returned 0)(2 := InSemTake))"
    by (rule sys_step.call[where r = "SemTake 0 5" and e = 0, OF kernel_two_facts(3) _ _ c]) (use v in simp_all)
  then show ?thesis using sys_reach.step[OF sys_reach.start] by blast
qed

theorem system_invariant_witness:
  "\<exists>k P. sys_reach (\<lambda>n k. Some k) (kernel_two, \<lambda>_. Returned 0) (k, P) \<and> P 2 = InSemTake \<and> cur_ready k \<and> clock_inv k"
proof -
  obtain k where r: "sys_reach (\<lambda>n k. Some k) (kernel_two, \<lambda>_. Returned 0) (k, (\<lambda>_. Returned 0)(2 := InSemTake))"
    using reach_waiting by blast
  have "cur_ready k \<and> clock_inv k"
    using system_invariant[OF r callbacks_sys_none system_two] by (elim conjE) (intro conjI)
  then show ?thesis using r by (intro exI[of _ k] exI[of _ "(\<lambda>_. Returned 0)(2 := InSemTake)"]) simp
qed

text \<open>C2. No reachable state is stuck: the clock interrupt returns, the running thread exists, every
  call it may make ends or waits without failing an assertion, and a thread that waited and runs
  again goes on with its call.\<close>

theorem system_progress:
  assumes "sys_reach ucb s0 (k, P)" "callbacks_sys ucb" "system_inv s0"
  shows "(\<exists>k'. rt_tick_increase ucb k = Some k') \<and>
    (\<exists>t. rt_current_thread k = Some t \<and>
      (\<forall>e r. P t = Returned e \<longrightarrow> legal r t k \<longrightarrow> start_call r k \<noteq> None) \<and>
      ((\<forall>e. P t \<noteq> Returned e) \<longrightarrow> in_time (P t) k \<longrightarrow> finish_call (P t) t k \<noteq> None))"
proof -
  have inv: "system_inv (k, P)" by (rule sys_reach_inv[OF assms])
  then have ok: "sys_ok k" by simp
  obtain t where t: "rt_current_thread k = Some t" using sys_okD(3)[OF ok] by blast
  note h = system_inv_holds[OF inv]
  have "finish_call (P t) t k \<noteq> None" if "\<forall>e. P t \<noteq> Returned e" "in_time (P t) k"
  proof -
    have "point_ok k (P t)" "t = idle_thread \<Longrightarrow> awake (P t)" using inv by auto
    then show ?thesis using finish_call_ok[OF ok t, of "P t"] that h by blast
  qed
  moreover have "start_call r k \<noteq> None" if "legal r t k" for r using start_call_ok[OF ok t that h, of 0] by force
  ultimately show ?thesis using t tick_sys[OF assms(2) ok] by blast
qed

theorem system_progress_witness:
  "\<exists>k P. sys_reach (\<lambda>n k. Some k) (kernel_two, \<lambda>_. Returned 0) (k, P) \<and> P 2 = InSemTake \<and>
     (\<exists>k'. rt_tick_increase (\<lambda>n k. Some k) k = Some k')"
proof -
  obtain k where r: "sys_reach (\<lambda>n k. Some k) (kernel_two, \<lambda>_. Returned 0) (k, (\<lambda>_. Returned 0)(2 := InSemTake))"
    using reach_waiting by blast
  then show ?thesis using system_progress[OF r callbacks_sys_none system_two] by fastforce
qed

subsection \<open>Messages under interleaving\<close>

text \<open>C3. A message arrives whole whatever the other threads and the interrupts do while the sender
  fills its block: when the sender links the block, the queue gets one message more, at the end or for
  an urgent message at the front, and it begins with the sender's bytes.\<close>

theorem message_linked_whole:
  assumes "sys_reach ucb s0 (k, P)" "callbacks_sys ucb" "system_inv s0" "P t = MqLinking front i b buf sz"
  shows "\<exists>k' msg. finish_call (P t) t k = Some (k', Returned RT_EOK) \<and> take (unat sz) msg = take (unat sz) buf \<and>
    mq_contents (k_mq k' i) = (if front then msg # mq_contents (k_mq k i) else mq_contents (k_mq k i) @ [msg]) \<and>
    (\<forall>j. j \<noteq> i \<longrightarrow> k_mq k' j = k_mq k j)"
proof -
  have inv: "system_inv (k, P)" by (rule sys_reach_inv[OF assms(1-3)])
  have ok: "sys_ok k" and pt: "point_ok k (P t)" and own: "blocks_owned k P" using inv by simp_all
  obtain us fs ws where rep: "mq_rep (k_mq k i) us fs ws" and ws: "set ws = held P i"
    using own unfolding blocks_owned_def mq_holds_def by blast
  have b: "b \<in> set ws" using assms(4) by (auto simp: ws held_def) (metis held_by.simps(2))
  let ?m = "(if front then mq_link_head else mq_link_tail) b (k_mq k i)" and ?msg = "mq_data (k_mq k i) b"
  have data: "take (unat sz) ?msg = take (unat sz) buf" and nx: "\<not> front \<Longrightarrow> mq_next (k_mq k i) b = None"
    using pt by (auto simp: assms(4))
  note h = mq_link_head_spec[OF rep b] and l = mq_link_tail_spec[OF rep b]
  have size: "mq_msg_size ?m = mq_msg_size (k_mq k i)" using h(3) l(3)[OF nx] by (cases front) simp_all
  have new: "mq_contents ?m = (if front then ?msg # mq_contents (k_mq k i) else mq_contents (k_mq k i) @ [?msg])"
    using mq_contents_rep[OF h(1)] h(2) mq_contents_rep[OF l(1)[OF nx]] l(2)[OF nx] mq_contents_rep[OF rep]
    by (cases front) simp_all
  obtain k' where k': "wake_waiter (mq_queue i) (upd_mq i (\<lambda>_. ?m) k) = Some k'" "k_mq k' = (k_mq k)(i := ?m)"
    by (rule mq_wake_sys[OF ok size]) (rule that; assumption)
  then have "finish_call (P t) t k = Some (k', Returned RT_EOK)" by (simp add: assms(4) del: upd_mq_def)
  then show ?thesis using data new k'(2) by (intro exI[of _ k'] exI[of _ ?msg]) simp
qed

lemma system_mail: "system_inv (kernel_mail, \<lambda>_. Returned 0)"
proof -
  note m = kernel_mail_facts
  have ok: "sys_ok kernel_two" using system_two by simp
  have "clock_inv kernel_mail" using clock_inv_two m(1) timers_ok_cong[of kernel_mail kernel_two]
    by (simp add: clock_inv_alt kernel_mail_def)
  then have "sys_ok kernel_mail"
    using ok m(3) by (simp add: sys_ok_def kernel_mail_def sem_inv_def mutex_inv_def event_inv_def cur_ready_def)
  then show ?thesis using m(6) by (simp add: blocks_owned_def held_def mq_ok_holds)
qed

text \<open>Thread 2 sends two bytes to queue 0 and has taken a block; before it fills and links it, an
  interrupt sends three bytes to the same queue.\<close>

lemma reach_sending:
  "\<exists>k. sys_reach (\<lambda>n k. Some k) (kernel_mail, \<lambda>_. Returned 0) (k, (\<lambda>_. Returned 0)(2 := MqLinking False 0 1 [1, 2] 2)) \<and>
    mq_contents (k_mq k 0) = [[7, 8, 9, 0]]"
proof -
  let ?P = "(\<lambda>_. Returned 0) :: tid \<Rightarrow> point" and ?ucb = "\<lambda>n k. Some k" and ?z = "[0, 0, 0, 0] :: rt_uint8 list"
  let ?m = "mq_fresh 4 2 (\<lambda>_. ?z)"
  have m: "?m = \<lparr>mq_msg_size = 4, mq_max_msgs = 2, mq_entry = 0, mq_head = None, mq_tail = None,
      mq_free = Some 1, mq_next = (\<lambda>_. None)(1 := Some 0), mq_data = (\<lambda>_. ?z)\<rparr>"
  proof -
    have u: "unat (2 :: rt_uint16) = Suc (Suc 0)" by simp
    show ?thesis unfolding mq_fresh_def u by (simp add: Let_def fun_eq_iff)
  qed
  have km: "k_mq kernel_mail 0 = ?m" and q: "tlist_of kernel_mail (mq_queue 0) = []"
    and t: "rt_current_thread kernel_mail = Some 2"
    by (simp_all add: kernel_mail_def kernel_two_facts)
  obtain k1 where k1: "start_call (MqSend 0 [1, 2] 2) kernel_mail = Some (k1, MqFilling False 0 1 [1, 2] 2)"
    "k1 = upd_mq 0 (\<lambda>_. ?m\<lparr>mq_free := Some 0\<rparr>) kernel_mail"
    by (simp add: mq_begin_send_def km m mq_take_block_def)
  have "sys_step ?ucb (kernel_mail, ?P) (k1, ?P(2 := MqFilling False 0 1 [1, 2] 2))"
    by (rule sys_step.call[where r = "MqSend 0 [1, 2] 2" and e = 0, OF t _ _ k1(1)]) simp_all
  then have r1: "sys_reach ?ucb (kernel_mail, ?P) (k1, ?P(2 := MqFilling False 0 1 [1, 2] 2))"
    using sys_reach.step[OF sys_reach.start] by blast
  let ?m2 = "?m\<lparr>mq_entry := 1, mq_head := Some 0, mq_tail := Some 0, mq_free := None, mq_data := (\<lambda>_. ?z)(0 := [7, 8, 9, 0])\<rparr>"
  obtain k2 where k2: "rt_mq_send 0 [7, 8, 9] 3 k1 = Some (k2, RT_EOK)" "k2 = upd_mq 0 (\<lambda>_. ?m2) kernel_mail"
    by (simp add: k1(2) m rt_mq_send_def mq_step_defs wake_waiter_def q Let_def fun_upd_idem)
  have "sys_step ?ucb (k1, ?P(2 := MqFilling False 0 1 [1, 2] 2)) (k2, ?P(2 := MqFilling False 0 1 [1, 2] 2))"
    by (rule sys_step.irq_message[OF k2(1)]) simp
  then have r2: "sys_reach ?ucb (kernel_mail, ?P) (k2, ?P(2 := MqFilling False 0 1 [1, 2] 2))"
    by (rule sys_reach.step[OF r1])
  let ?P1 = "?P(2 := MqFilling False 0 1 [1, 2] 2)"
  let ?f = "\<lambda>m. mq_fill 1 [1, 2] 2 (mq_clear_next 1 m)"
  have f: "finish_call (?P1 2) 2 k2 = Some (upd_mq 0 ?f k2, MqLinking False 0 1 [1, 2] 2)" by simp
  have t2: "rt_current_thread k2 = Some 2" using t by (simp add: k2(2))
  have "sys_step ?ucb (k2, ?P1) (upd_mq 0 ?f k2, ?P1(2 := MqLinking False 0 1 [1, 2] 2))"
    by (rule sys_step.return[where P = ?P1, OF t2 _ f]) simp
  then have "sys_reach ?ucb (kernel_mail, ?P) (upd_mq 0 ?f k2, ?P(2 := MqLinking False 0 1 [1, 2] 2))"
    using sys_reach.step[OF r2] by simp
  moreover have "mq_contents (k_mq (upd_mq 0 ?f k2) 0) = [[7, 8, 9, 0]]"
    by (simp add: k2(2) mq_contents_def mq_fill_def mq_clear_next_def)
  ultimately show ?thesis by blast
qed

theorem message_linked_whole_witness:
  "\<exists>k k' msg. sys_reach (\<lambda>n k. Some k) (kernel_mail, \<lambda>_. Returned 0) (k, (\<lambda>_. Returned 0)(2 := MqLinking False 0 1 [1, 2] 2)) \<and>
     finish_call (MqLinking False 0 1 [1, 2] 2) 2 k = Some (k', Returned RT_EOK) \<and>
     mq_contents (k_mq k' 0) = [[7, 8, 9, 0], msg] \<and> take 2 msg = [1, 2]"
proof -
  let ?P = "(\<lambda>_. Returned 0)(2 := MqLinking False 0 1 [1, 2] 2)"
  obtain k where k: "sys_reach (\<lambda>n k. Some k) (kernel_mail, \<lambda>_. Returned 0) (k, ?P)" "mq_contents (k_mq k 0) = [[7, 8, 9, 0]]"
    using reach_sending by blast
  have p: "?P 2 = MqLinking False 0 1 [1, 2] 2" by simp
  obtain k' msg where "finish_call (?P 2) 2 k = Some (k', Returned RT_EOK)" "take (unat (2 :: rt_uint32)) msg = take (unat (2 :: rt_uint32)) [1, 2]"
    "mq_contents (k_mq k' 0) = mq_contents (k_mq k 0) @ [msg]"
    using message_linked_whole[OF k(1) callbacks_sys_none system_mail p] by auto
  then show ?thesis using k by (intro exI[of _ k] exI[of _ k'] exI[of _ msg]) simp
qed

subsection \<open>A release that does not switch\<close>

lemma restore_priority_frame:
  assumes inv: "kinv k" and p: "unat p < 32" and run: "restore_priority t p k = Some k'"
  shows "rt_current_thread k' = rt_current_thread k" "s \<noteq> t \<Longrightarrow> k_thread k' s = k_thread k s"
    "wait_head g \<Longrightarrow> tlist_of k' g = tlist_of k g"
proof -
  have "rt_current_thread k' = rt_current_thread k \<and> (\<forall>s. s \<noteq> t \<longrightarrow> k_thread k' s = k_thread k s) \<and>
    (\<forall>h. (\<forall>q. h \<noteq> ReadyQ q) \<longrightarrow> tlist_of k' h = tlist_of k h)"
  proof (cases "p = current_priority (k_thread k t)")
    case False
    then have r: "change_priority t p k = Some k'" using run by (auto simp: restore_priority_def)
    obtain j where "change_priority t p k = Some j" "\<forall>s. s \<noteq> t \<longrightarrow> k_thread j s = k_thread k s"
      "rt_current_thread j = rt_current_thread k" "\<forall>h. (\<forall>q. h \<noteq> ReadyQ q) \<longrightarrow> tlist_of j h = tlist_of k h"
      by (rule change_priority_spec[OF inv p]) (rule that; assumption)
    then show ?thesis using r by simp
  qed (use run in \<open>simp add: restore_priority_def\<close>)
  then show "rt_current_thread k' = rt_current_thread k" "s \<noteq> t \<Longrightarrow> k_thread k' s = k_thread k s"
    "wait_head g \<Longrightarrow> tlist_of k' g = tlist_of k g"
    by (simp, simp, cases g, auto)
qed

text \<open>C37. The last release of a mutex gives the holder its own priority back, and calls the scheduler
  only when it hands the mutex over. When the thread that had lent its priority is no longer
  waiting for the mutex, the holder goes on although a more urgent thread is ready.\<close>

theorem mutex_release_no_switch:
  assumes "kinv k" "mutex_inv k" "can_block t k" "owner (k_mutex k i) = Some t" "hold (k_mutex k i) = 1"
    "tlist_of k (mutex_queue i) = []" "s \<noteq> t" "thread_state (k_thread k s) = RT_THREAD_READY"
    "current_priority (k_thread k s) < original_priority (k_mutex k i)"
  shows "\<exists>k'. rt_mutex_release i k = Some (k', RT_EOK) \<and> kinv k' \<and> rt_current_thread k' = Some t \<and>
    thread_state (k_thread k' s) = RT_THREAD_READY \<and>
    current_priority (k_thread k' s) < current_priority (k_thread k' t) \<and> \<not> highest_runs k'"
proof -
  note c = can_blockD[OF assms(3)]
  let ?k = "upd_mutex i (\<lambda>m. m\<lparr>hold := hold m - 1\<rparr>) k" and ?p = "original_priority (k_mutex k i)"
  have inv1: "kinv ?k" using assms(1) by (simp del: upd_mutex_def)
  have p: "unat ?p < 32" using assms(2,4) by (force simp: mutex_inv_def mutex_ok_def split: option.splits)
  obtain k' where k': "rt_mutex_release i k = Some (k', RT_EOK)" "kinv k'" "current_priority (k_thread k' t) = ?p"
    by (rule mutex_release_last[OF assms(1-5)]) (rule that; assumption)
  obtain k1 where k1: "restore_priority t ?p ?k = Some k1" and run: "rt_mutex_release i k = (case tlist_of k1 (mutex_queue i) of
      w # _ \<Rightarrow> Option.bind (rt_ipc_list_resume (mutex_queue i) (upd_mutex i (acquire w (current_priority (k_thread k1 w))) k1))
        (\<lambda>k. Option.bind (rt_schedule k) (\<lambda>k. Some (k, RT_EOK)))
    | [] \<Rightarrow> Some (upd_mutex i (\<lambda>m. m\<lparr>mx_value := mx_value m + 1, owner := None, original_priority := 0xff\<rparr>) k1, RT_EOK))"
    using k'(1) assms(4,5) c(6) by (auto simp: rt_mutex_release_def bind_eq_Some_conv Let_def cong: list.case_cong)
  note f = restore_priority_frame[OF inv1 p k1]
  have "tlist_of k1 (mutex_queue i) = []" using f(3)[of "mutex_queue i"] assms(6) by simp
  then have e: "k_thread k' = k_thread k1" "rt_current_thread k' = rt_current_thread k1" using run k'(1) by auto
  have other: "k_thread k1 s = k_thread k s" and cur: "rt_current_thread k1 = Some t"
    using f(1) f(2)[OF assms(7)] c(1) by simp_all
  have st: "thread_state (k_thread k' s) = RT_THREAD_READY" and lt: "current_priority (k_thread k' s) < current_priority (k_thread k' t)"
    using other assms(8,9) k'(3) by (simp_all add: e(1))
  have "\<not> highest_runs k'"
  proof
    assume "highest_runs k'"
    then obtain q ts where q: "tlist_of k' (ReadyQ q) = t # ts" "\<forall>r < q. tlist_of k' (ReadyQ r) = []"
      using cur by (auto simp: highest_runs_def e(2))
    note sv = kinvD(1)[OF k'(2)]
    have on: "ls_on (k_tlist k') t = Some (ReadyQ q)" using q(1) ls_wf_on[OF sched_inv_wf[OF sv], of t "ReadyQ q"] by simp
    have "unat (current_priority (k_thread k' t)) = q" using sched_inv_place[OF sv, of t] on by simp
    moreover have "tlist_of k' (ReadyQ (unat (current_priority (k_thread k' s)))) \<noteq> []"
      using ready_place[OF sv st] ls_wf_on[OF sched_inv_wf[OF sv], of s] by force
    ultimately show False using q(2) lt by (auto simp: word_less_nat_alt)
  qed
  then show ?thesis using k'(1,2) st lt cur by (simp add: e(2))
qed

text \<open>Mutex 0 is held by thread 2, which has priority 10 and will get 31 back; thread 0 is ready
  with priority 20.\<close>

definition kernel_lent :: kernel where
  "kernel_lent = the (change_priority 0 20 (kernel_mutex 2 31))"

theorem mutex_release_no_switch_witness:
  "\<exists>k'. rt_mutex_release 0 kernel_lent = Some (k', RT_EOK) \<and> rt_current_thread k' = Some 2 \<and>
     current_priority (k_thread k' 0) < current_priority (k_thread k' 2) \<and> \<not> highest_runs k'"
proof -
  let ?k = "kernel_mutex 2 31"
  note m = kernel_mutex_facts[where t = 2 and p = 31]
  have m3: "mutex_inv ?k" using m(3) by simp
  have p: "unat (20 :: rt_uint8) < 32" by simp
  obtain k where k: "change_priority 0 20 ?k = Some k" "kinv k" "keeps ?k k" "current_priority (k_thread k 0) = 20"
    "\<forall>s. s \<noteq> 0 \<longrightarrow> k_thread k s = k_thread ?k s" "thread_state (k_thread k 0) = thread_state (k_thread ?k 0)"
    "rt_current_thread k = rt_current_thread ?k" "\<forall>h. (\<forall>q. h \<noteq> ReadyQ q) \<longrightarrow> tlist_of k h = tlist_of ?k h"
    by (rule change_priority_spec[OF m(1) p]) (rule that; assumption)
  have e: "kernel_lent = k" by (simp add: kernel_lent_def k(1))
  have km: "k_mutex k = k_mutex ?k" and nest: "rt_interrupt_nest k = rt_interrupt_nest ?k" using k(3) by (simp_all add: keeps_def)
  have q: "tlist_of k (mutex_queue i) = []" for i
    using k(8) kernel_two_facts(11) by (simp add: kernel_mutex_def)
  have rdy: "thread_state (k_thread k 0) = RT_THREAD_READY" using k(6) kernel_two_facts(6) by (simp add: kernel_mutex_def)
  have inv: "mutex_inv k"
    using m3 k(8) by (simp add: mutex_inv_def km)
  have cb: "can_block 2 k"
    using m(2) rdy k(5) by (simp add: can_block_def k(7) nest)
  have "\<exists>k'. rt_mutex_release 0 k = Some (k', RT_EOK) \<and> kinv k' \<and> rt_current_thread k' = Some 2 \<and>
    thread_state (k_thread k' 0) = RT_THREAD_READY \<and>
    current_priority (k_thread k' 0) < current_priority (k_thread k' 2) \<and> \<not> highest_runs k'"
    by (rule mutex_release_no_switch[OF k(2) inv cb]) (use m(5,6,8) q rdy k(4) in \<open>simp_all add: km\<close>)
  then show ?thesis unfolding e by blast
qed

end
