(* ===== verification/Rtt_Kprintf.thy ===== *)
theory Rtt_Kprintf
  imports Rtt_Kservice
begin

text \<open>
  Formatted output (\<^verbatim>\<open>kservice.c\<close>): \<^verbatim>\<open>divide\<close>,
  \<^verbatim>\<open>skip_atoi\<close>, \<^verbatim>\<open>print_number\<close>,
  \<^verbatim>\<open>rt_vsnprintf\<close> and its variants, with \<^verbatim>\<open>RT_PRINTF_PRECISION\<close>
  defined and the other two options not, as the file has it. A format is the list of its bytes
  without the terminator; what is left of it stands for the pointer \<^verbatim>\<open>fmt\<close>. The
  destination is the memory of \<open>Rtt_Kservice\<close>. Arguments are words or strings;
  \<open>None\<close> when an argument is missing or of the other kind, or when a width does not fit an
  \<^verbatim>\<open>int\<close>, which C leaves undefined.
\<close>

section \<open>Model\<close>

datatype arg = ArgWord rt_uint32 | ArgStr "cstring option"

abbreviation (input) ZEROPAD :: rt_uint8 where "ZEROPAD \<equiv> 0x01"
abbreviation (input) SIGN :: rt_uint8 where "SIGN \<equiv> 0x02"
abbreviation (input) PLUS :: rt_uint8 where "PLUS \<equiv> 0x04"
abbreviation (input) SPACE :: rt_uint8 where "SPACE \<equiv> 0x08"
abbreviation (input) LEFT :: rt_uint8 where "LEFT \<equiv> 0x10"
abbreviation (input) SPECIAL :: rt_uint8 where "SPECIAL \<equiv> 0x20"
abbreviation (input) LARGE :: rt_uint8 where "LARGE \<equiv> 0x40"

abbreviation chr :: "char \<Rightarrow> rt_uint8" where "chr c \<equiv> of_nat (of_char c)"

text \<open>The head of the rest of a string, 0 at its end.\<close>

fun peek :: "rt_uint8 list \<Rightarrow> rt_uint8" where
  "peek [] = 0" | "peek (c # _) = c"

definition isdigit :: "rt_uint8 \<Rightarrow> bool" where
  "isdigit c \<longleftrightarrow> (ucast c :: rt_uint32) - ucast (chr CHR ''0'') < 10"

definition divide :: "rt_uint32 \<Rightarrow> nat \<Rightarrow> rt_uint32 \<times> rt_uint32" where
  "divide n base = (if base = 10 then (n mod 10, n div 10) else (n mod 16, n div 16))"

fun skip_atoi_from :: "int \<Rightarrow> rt_uint8 list \<Rightarrow> int \<times> rt_uint8 list" where
  "skip_atoi_from i (c # s) =
     (if isdigit c then skip_atoi_from (i * 10 + uint c - uint (chr CHR ''0'')) s else (i, c # s))"
| "skip_atoi_from i [] = (i, [])"

definition skip_atoi :: "rt_uint8 list \<Rightarrow> int \<times> rt_uint8 list" where
  "skip_atoi s = skip_atoi_from 0 s"

text \<open>\<^verbatim>\<open>if (str <= end) *str = c; ++ str;\<close> The pair is \<^verbatim>\<open>str\<close>
  and the memory.\<close>

type_synonym out = "rt_uint32 \<times> mem"

fun put :: "rt_uint32 \<Rightarrow> rt_uint8 \<Rightarrow> out \<Rightarrow> out" where
  "put e c (p, m) = (p + 1, if p \<le> e then m(p := c) else m)"

text \<open>The padding loops: \<^verbatim>\<open>while (size-- > 0)\<close>,
  \<^verbatim>\<open>while (--field_width > 0)\<close> and \<^verbatim>\<open>while (len < field_width--)\<close>.\<close>

function pad :: "rt_uint32 \<Rightarrow> rt_uint8 \<Rightarrow> int \<Rightarrow> out \<Rightarrow> int \<times> out" where
  "pad e c sz o1 = (if 0 < sz then pad e c (sz - 1) (put e c o1) else (sz - 1, o1))"
  by pat_completeness auto
termination by (relation "measure (\<lambda>(_, _, sz, _). nat sz)") auto

function pad_pre :: "rt_uint32 \<Rightarrow> int \<Rightarrow> out \<Rightarrow> int \<times> out" where
  "pad_pre e width o1 =
     (if 0 < width - 1 then pad_pre e (width - 1) (put e (chr CHR '' '') o1) else (width - 1, o1))"
  by pat_completeness auto
termination by (relation "measure (\<lambda>(_, width, _). nat width)") auto

function pad_len :: "rt_uint32 \<Rightarrow> rt_uint8 \<Rightarrow> int \<Rightarrow> int \<Rightarrow> out \<Rightarrow> int \<times> out" where
  "pad_len e c len width o1 =
     (if len < width then pad_len e c len (width - 1) (put e c o1) else (width - 1, o1))"
  by pat_completeness auto
termination by (relation "measure (\<lambda>(_, _, len, width, _). nat (width - len))") auto

declare pad.simps [simp del] pad_pre.simps [simp del] pad_len.simps [simp del]

definition small_digits :: "rt_uint8 list" where
  "small_digits = map chr ''0123456789abcdef''"

definition large_digits :: "rt_uint8 list" where
  "large_digits = map chr ''0123456789ABCDEF''"

lemma divide_less: "num \<noteq> 0 \<Longrightarrow> unat (snd (divide num base)) < unat num"
  by (simp add: divide_def unat_div unat_gt_0)

text \<open>\<^verbatim>\<open>tmp\<close> after the loop that divides: the digits, least significant first.\<close>

function digit_loop :: "rt_uint8 list \<Rightarrow> nat \<Rightarrow> rt_uint32 \<Rightarrow> rt_uint8 list" where
  "digit_loop digits base num =
     (if num \<noteq> 0 then digits ! unat (fst (divide num base)) # digit_loop digits base (snd (divide num base)) else [])"
  by pat_completeness auto
termination by (relation "measure (\<lambda>(_, _, num). unat num)") (auto simp: divide_less)

declare digit_loop.simps [simp del]

fun put_all :: "rt_uint32 \<Rightarrow> rt_uint8 list \<Rightarrow> out \<Rightarrow> out" where
  "put_all e [] o1 = o1"
| "put_all e (c # cs) o1 = put_all e cs (put e c o1)"

text \<open>The sign character (0: none) and the magnitude.\<close>

definition number_sign :: "rt_uint8 \<Rightarrow> rt_uint32 \<Rightarrow> rt_uint8 \<times> rt_uint32" where
  "number_sign ty num =
     (if ty AND SIGN \<noteq> 0 then
        (if sint num < 0 then (chr CHR ''-'', - num)
         else if ty AND PLUS \<noteq> 0 then (chr CHR ''+'', num)
         else if ty AND SPACE \<noteq> 0 then (chr CHR '' '', num)
         else (0, num))
      else (0, num))"

text \<open>The output part of \<^verbatim>\<open>print_number\<close>: padding, sign, zeros, the digits of
  \<^verbatim>\<open>tmp\<close> and padding again.\<close>

definition number_fill ::
  "rt_uint32 \<Rightarrow> rt_uint8 \<Rightarrow> rt_uint8 \<Rightarrow> rt_uint8 \<Rightarrow> int \<Rightarrow> int \<Rightarrow> rt_uint8 list \<Rightarrow> out \<Rightarrow> out" where
  "number_fill e ty c sign sz precision tmp o1 =
     (let (sz, o1) = (if ty AND (ZEROPAD OR LEFT) = 0
                      then pad e (chr CHR '' '') (if sign \<noteq> 0 \<and> 0 < sz then sz - 1 else sz) o1 else (sz, o1));
          (sz, o1) = (if sign \<noteq> 0 then (if fst o1 \<le> e then sz - 1 else sz, put e sign o1) else (sz, o1));
          (sz, o1) = (if ty AND LEFT = 0 then pad e c sz o1 else (sz, o1));
          o1 = snd (pad_len e (chr CHR ''0'') (int (length tmp)) precision o1);
          o1 = put_all e (rev tmp) o1
      in snd (pad e (chr CHR '' '') sz o1))"

definition print_number :: "rt_uint32 \<Rightarrow> rt_uint32 \<Rightarrow> nat \<Rightarrow> int \<Rightarrow> int \<Rightarrow> rt_uint8 \<Rightarrow> out \<Rightarrow> out" where
  "print_number e num base s precision ty o1 =
     (let digits = (if ty AND LARGE \<noteq> 0 then large_digits else small_digits);
          ty = (if ty AND LEFT \<noteq> 0 then ty AND NOT ZEROPAD else ty);
          c = (if ty AND ZEROPAD \<noteq> 0 then chr CHR ''0'' else chr CHR '' '');
          (sign, num) = number_sign ty num;
          tmp = (if num = 0 then [chr CHR ''0''] else digit_loop digits base num);
          precision = (if precision < int (length tmp) then int (length tmp) else precision)
      in number_fill e ty c sign (s - precision) precision tmp o1)"

subsection \<open>rt_vsnprintf\<close>

text \<open>The flags after a percent sign; \<open>s\<close> is what follows it.\<close>

fun flags_loop :: "rt_uint8 \<Rightarrow> rt_uint8 list \<Rightarrow> rt_uint8 \<times> rt_uint8 list" where
  "flags_loop fl (c # s) =
     (if c = chr CHR ''-'' then flags_loop (fl OR LEFT) s
      else if c = chr CHR ''+'' then flags_loop (fl OR PLUS) s
      else if c = chr CHR '' '' then flags_loop (fl OR SPACE) s
      else if c = chr CHR ''#'' then flags_loop (fl OR SPECIAL) s
      else if c = chr CHR ''0'' then flags_loop (fl OR ZEROPAD) s
      else (fl, c # s))"
| "flags_loop fl [] = (fl, [])"

text \<open>\<^verbatim>\<open>va_arg(args, int)\<close> and a decimal that has to fit an \<^verbatim>\<open>int\<close>.\<close>

fun next_word :: "arg list \<Rightarrow> (rt_uint32 \<times> arg list) option" where
  "next_word (ArgWord w # args) = Some (w, args)" | "next_word _ = None"

definition small_atoi :: "rt_uint8 list \<Rightarrow> (int \<times> rt_uint8 list) option" where
  "small_atoi s = (let (i, s) = skip_atoi s in if i < 2 ^ 31 then Some (i, s) else None)"

definition field_width :: "rt_uint8 \<Rightarrow> rt_uint8 list \<Rightarrow> arg list \<Rightarrow> (int \<times> rt_uint8 \<times> rt_uint8 list \<times> arg list) option" where
  "field_width fl s args =
     (if isdigit (peek s) then map_option (\<lambda>(i, s). (i, fl, s, args)) (small_atoi s)
      else if peek s = chr CHR ''*'' then do {
        (w, args) \<leftarrow> next_word args;
        (if sint w = - (2 ^ 31) then None
         else if sint w < 0 then Some (- sint w, fl OR LEFT, tl s, args)
         else Some (sint w, fl, tl s, args))
      }
      else Some (- 1, fl, s, args))"

definition get_precision :: "rt_uint8 list \<Rightarrow> arg list \<Rightarrow> (int \<times> rt_uint8 list \<times> arg list) option" where
  "get_precision s args =
     (if peek s = chr CHR ''.'' then do {
        let s = tl s;
        (p, s, args) \<leftarrow> (if isdigit (peek s) then map_option (\<lambda>(i, s). (i, s, args)) (small_atoi s)
                         else if peek s = chr CHR ''*'' then
                           map_option (\<lambda>(w, args). (sint w, tl s, args)) (next_word args)
                         else Some (- 1, s, args));
        Some (if p < 0 then 0 else p, s, args)
      }
      else Some (- 1, s, args))"

text \<open>The conversions of one character and of a string.\<close>

definition print_char :: "rt_uint32 \<Rightarrow> rt_uint8 \<Rightarrow> int \<Rightarrow> rt_uint8 \<Rightarrow> out \<Rightarrow> out" where
  "print_char e fl width c o1 =
     (let (width, o1) = (if fl AND LEFT = 0 then pad_pre e width o1 else (width, o1));
          o1 = put e c o1
      in snd (pad_pre e width o1))"

definition print_string :: "rt_uint32 \<Rightarrow> rt_uint8 \<Rightarrow> int \<Rightarrow> int \<Rightarrow> cstring option \<Rightarrow> out \<Rightarrow> out option" where
  "print_string e fl width precision s o1 = do {
     let s = (case s of None \<Rightarrow> (\<lambda>i. (map chr ''(NULL)'' @ [0]) ! i) | Some s \<Rightarrow> s);
     n \<leftarrow> rt_strlen s;
     let len = (if 0 < precision \<and> precision < int n then precision else int n);
     let (width, o1) = (if fl AND LEFT = 0 then pad_len e (chr CHR '' '') len width o1 else (width, o1));
     let o1 = put_all e (map s [0..<nat len]) o1;
     Some (snd (pad_len e (chr CHR '' '') len width o1))
   }"

text \<open>The number an integer conversion prints; \<open>q\<close> is the qualifier.\<close>

definition number_arg :: "rt_uint8 \<Rightarrow> rt_uint8 \<Rightarrow> rt_uint32 \<Rightarrow> rt_uint32" where
  "number_arg q fl w =
     (if q = chr CHR ''h'' then (if fl AND SIGN \<noteq> 0 then scast (ucast w :: 16 word) else ucast (ucast w :: 16 word))
      else w)"

definition print_integer ::
  "rt_uint32 \<Rightarrow> rt_uint8 \<Rightarrow> rt_uint8 \<Rightarrow> nat \<Rightarrow> int \<Rightarrow> int \<Rightarrow> arg list \<Rightarrow> out \<Rightarrow> (out \<times> arg list) option" where
  "print_integer e q fl base width precision args o1 = do {
     (w, args) \<leftarrow> next_word args;
     Some (print_number e (number_arg q fl w) base width precision fl o1, args)
   }"

definition print_conversion ::
  "rt_uint32 \<Rightarrow> rt_uint8 \<Rightarrow> rt_uint8 \<Rightarrow> int \<Rightarrow> int \<Rightarrow> rt_uint8 list \<Rightarrow> arg list \<Rightarrow> out \<Rightarrow>
     (out \<times> rt_uint8 list \<times> arg list) option" where
  "print_conversion e q fl width precision s args o1 =
     (let c = peek s; rest = (\<lambda>(o1, args). (o1, tl s, args)) in
      if c = chr CHR ''c'' then
        map_option (\<lambda>(w, args). rest (print_char e fl width (ucast w) o1, args)) (next_word args)
      else if c = chr CHR ''s'' then
        (case args of
           ArgStr str # args \<Rightarrow> map_option (\<lambda>o1. rest (o1, args)) (print_string e fl width precision str o1)
         | _ \<Rightarrow> None)
      else if c = chr CHR ''p'' then
        (let (width, fl) = (if width = - 1 then (8, fl OR ZEROPAD) else (width, fl)) in
         map_option (\<lambda>(w, args). rest (print_number e w 16 width precision fl o1, args)) (next_word args))
      else if c = chr CHR ''%'' then Some (rest (put e (chr CHR ''%'') o1, args))
      else if c = chr CHR ''o'' then map_option rest (print_integer e q fl 8 width precision args o1)
      else if c = chr CHR ''X'' then map_option rest (print_integer e q (fl OR LARGE) 16 width precision args o1)
      else if c = chr CHR ''x'' then map_option rest (print_integer e q fl 16 width precision args o1)
      else if c = chr CHR ''d'' \<or> c = chr CHR ''i'' then
        map_option rest (print_integer e q (fl OR SIGN) 10 width precision args o1)
      else if c = chr CHR ''u'' then map_option rest (print_integer e q fl 10 width precision args o1)
      else Some (rest (if s \<noteq> [] then put e c (put e (chr CHR ''%'') o1) else put e (chr CHR ''%'') o1, args)))"

text \<open>What follows a percent sign, up to and with the conversion character.\<close>

definition print_directive ::
  "rt_uint32 \<Rightarrow> rt_uint8 list \<Rightarrow> arg list \<Rightarrow> out \<Rightarrow> (out \<times> rt_uint8 list \<times> arg list) option" where
  "print_directive e s args o1 = do {
     let (fl, s) = flags_loop 0 s;
     (width, fl, s, args) \<leftarrow> field_width fl s args;
     (precision, s, args) \<leftarrow> get_precision s args;
     let (q, s) = (if peek s = chr CHR ''h'' \<or> peek s = chr CHR ''l'' then (peek s, tl s) else (0, s));
     print_conversion e q fl width precision s args o1
   }"

lemma skip_atoi_shorter: "skip_atoi_from i s = (j, s') \<Longrightarrow> length s' \<le> length s"
  by (induction i s rule: skip_atoi_from.induct) (auto split: if_splits)

lemma flags_loop_shorter: "flags_loop fl s = (fl', s') \<Longrightarrow> length s' \<le> length s"
  by (induction fl s rule: flags_loop.induct) (auto split: if_splits)

lemma small_atoi_shorter: "small_atoi s = Some (i, s') \<Longrightarrow> length s' \<le> length s"
  by (auto simp: small_atoi_def skip_atoi_def Let_def split: prod.splits if_splits dest: skip_atoi_shorter)

lemma field_width_shorter: "field_width fl s args = Some (w, fl', s', args') \<Longrightarrow> length s' \<le> length s"
  by (auto simp: field_width_def bind_eq_Some_conv split: if_splits dest: small_atoi_shorter)

lemma get_precision_shorter: "get_precision s args = Some (p, s', args') \<Longrightarrow> length s' \<le> length s"
  by (fastforce simp: get_precision_def bind_eq_Some_conv Let_def split: if_splits dest: small_atoi_shorter)

lemma print_conversion_shorter:
  "print_conversion e q fl w p s args o1 = Some (o2, s', args') \<Longrightarrow> length s' \<le> length s"
  by (auto simp: print_conversion_def Let_def split: if_splits list.splits arg.splits)

lemma print_directive_shorter:
  assumes "print_directive e s args o1 = Some (o2, s', args')" shows "length s' \<le> length s"
proof -
  obtain fl s1 where 1: "flags_loop 0 s = (fl, s1)" by fastforce
  obtain w fl2 s2 a2 where 2: "field_width fl s1 args = Some (w, fl2, s2, a2)"
    using assms 1 by (auto simp: print_directive_def bind_eq_Some_conv)
  obtain p s3 a3 where 3: "get_precision s2 a2 = Some (p, s3, a3)"
    using assms 1 2 by (auto simp: print_directive_def bind_eq_Some_conv)
  obtain q s4 where 4: "(if peek s3 = chr CHR ''h'' \<or> peek s3 = chr CHR ''l'' then (peek s3, tl s3) else (0, s3)) = (q, s4)"
    by fastforce
  have "print_conversion e q fl2 w p s4 a3 o1 = Some (o2, s', args')"
    using assms 1 2 3 4 by (simp add: print_directive_def)
  then have "length s' \<le> length s4" by (rule print_conversion_shorter)
  also have "length s4 \<le> length s3" using 4 by (auto split: if_splits)
  finally show ?thesis
    using flags_loop_shorter[OF 1] field_width_shorter[OF 2] get_precision_shorter[OF 3] by simp
qed

function format_loop :: "rt_uint32 \<Rightarrow> rt_uint8 list \<Rightarrow> arg list \<Rightarrow> out \<Rightarrow> out option" where
  "format_loop e [] args o1 = Some o1"
| "format_loop e (c # s) args o1 =
     (if c \<noteq> chr CHR ''%'' then format_loop e s args (put e c o1)
      else Option.bind (print_directive e s args o1) (\<lambda>(o1, s, args). format_loop e s args o1))"
  by pat_completeness auto
termination
  by (relation "measure (\<lambda>(_, s, _, _). length s)") (auto dest: print_directive_shorter)

text \<open>\<open>limit\<close> is \<^verbatim>\<open>end\<close>: the last byte of the buffer, or of the memory when the
  size is 0 or wraps. The result is the memory and the length of the text.\<close>

definition limit :: "rt_uint32 \<Rightarrow> rt_uint32 \<Rightarrow> rt_uint32" where
  "limit buf sz = (let e = buf + sz - 1 in if e < buf then - 1 else e)"

definition rt_vsnprintf :: "rt_uint32 \<Rightarrow> rt_uint32 \<Rightarrow> rt_uint8 list \<Rightarrow> arg list \<Rightarrow> mem \<Rightarrow> (mem \<times> rt_uint32) option" where
  "rt_vsnprintf buf sz fmt args m = do {
     let e = limit buf sz;
     (str, m) \<leftarrow> format_loop e fmt args (buf, m);
     let m = (if str \<le> e then m(str := 0) else m(e := 0));
     Some (m, str - buf)
   }"

definition rt_snprintf :: "rt_uint32 \<Rightarrow> rt_uint32 \<Rightarrow> rt_uint8 list \<Rightarrow> arg list \<Rightarrow> mem \<Rightarrow> (mem \<times> rt_uint32) option" where
  "rt_snprintf buf sz fmt args m = rt_vsnprintf buf sz fmt args m"

definition rt_vsprintf :: "rt_uint32 \<Rightarrow> rt_uint8 list \<Rightarrow> arg list \<Rightarrow> mem \<Rightarrow> (mem \<times> rt_uint32) option" where
  "rt_vsprintf buf fmt args m = rt_vsnprintf buf (- 1) fmt args m"

definition rt_sprintf :: "rt_uint32 \<Rightarrow> rt_uint8 list \<Rightarrow> arg list \<Rightarrow> mem \<Rightarrow> (mem \<times> rt_uint32) option" where
  "rt_sprintf buf fmt args m = rt_vsprintf buf fmt args m"

text \<open>\<^verbatim>\<open>rt_kprintf\<close>: the bytes handed to the console device, from the static
  buffer at \<open>log\<close>.\<close>

abbreviation (input) RT_CONSOLEBUF_SIZE :: rt_uint32 where "RT_CONSOLEBUF_SIZE \<equiv> 128"

definition rt_kprintf :: "rt_uint32 \<Rightarrow> rt_uint8 list \<Rightarrow> arg list \<Rightarrow> mem \<Rightarrow> (mem \<times> rt_uint8 list) option" where
  "rt_kprintf log fmt args m = do {
     (m, length) \<leftarrow> rt_vsnprintf log (RT_CONSOLEBUF_SIZE - 1) fmt args m;
     let length = (if RT_CONSOLEBUF_SIZE - 1 < length then RT_CONSOLEBUF_SIZE - 1 else length);
     Some (m, map (\<lambda>j. m (log + of_nat j)) [0..<unat length])
   }"

section \<open>Where the output goes\<close>

text \<open>Everything is written through \<open>put\<close>, the padding loops included.\<close>

lemma put_all_append: "put_all e (xs @ ys) o1 = put_all e ys (put_all e xs o1)"
  by (induction xs arbitrary: o1) auto

lemma pad_puts: "pad e c n o1 = (if 0 < n then - 1 else n - 1, put_all e (replicate (nat n) c) o1)"
proof (induction e c n o1 rule: pad.induct)
  case (1 e c n o1)
  show ?case
  proof (cases "0 < n")
    case True
    then have "nat n = Suc (nat (n - 1))" by simp
    then show ?thesis using True 1 by (subst pad.simps) auto
  qed (subst pad.simps, simp)
qed

lemma pad_pre_puts: "pad_pre e w o1 = (if 1 < w then 0 else w - 1, put_all e (replicate (nat (w - 1)) (chr CHR '' '')) o1)"
proof (induction e w o1 rule: pad_pre.induct)
  case (1 e w o1)
  show ?case
  proof (cases "0 < w - 1")
    case True
    then have "nat (w - 1) = Suc (nat (w - 1 - 1))" by simp
    then show ?thesis using True 1 by (subst pad_pre.simps) auto
  qed (subst pad_pre.simps, simp)
qed

lemma pad_len_puts:
  "pad_len e c len w o1 = (if len < w then len - 1 else w - 1, put_all e (replicate (nat (w - len)) c) o1)"
proof (induction e c len w o1 rule: pad_len.induct)
  case (1 e c len w o1)
  show ?case
  proof (cases "len < w")
    case True
    then have "nat (w - len) = Suc (nat (w - 1 - len))" by simp
    then show ?thesis using True 1 by (subst pad_len.simps) auto
  qed (subst pad_len.simps, simp)
qed

lemma put_one: "put e c o1 = put_all e [c] o1"
  by simp

lemma put_all_ptr: "fst (put_all e cs (p, m)) = p + of_nat (length cs)"
  by (induction cs arbitrary: p m) (simp_all add: algebra_simps)

lemma put_all_mem:
  assumes "unat p + length cs \<le> 2 ^ 32"
  shows "snd (put_all e cs (p, m)) = (\<lambda>a. if unat (a - p) < length cs \<and> a \<le> e then cs ! unat (a - p) else m a)"
  using assms
proof (induction cs arbitrary: p m)
  case (Cons c cs)
  show ?case
  proof (cases "cs = []")
    case True
    then show ?thesis by (auto simp: fun_eq_iff unat_eq_0)
  next
    case False
    then obtain k where "length cs = Suc k" by (cases cs) auto
    then have "unat p + 1 < 2 ^ 32" using Cons.prems by simp
    then have p1: "unat (p + 1) = unat p + 1" by (simp add: unat_word_ariths)
    have IH: "snd (put_all e cs (p + 1, m')) = (\<lambda>a. if unat (a - (p + 1)) < length cs \<and> a \<le> e then cs ! unat (a - (p + 1)) else m' a)" for m'
      by (rule Cons.IH) (use Cons.prems p1 in simp)
    show ?thesis
    proof
      fix a
      show "snd (put_all e (c # cs) (p, m)) a = (if unat (a - p) < length (c # cs) \<and> a \<le> e then (c # cs) ! unat (a - p) else m a)"
      proof (cases "a = p")
        case True
        have "unat (p - (p + 1)) = 2 ^ 32 - 1" by (simp add: unsigned_minus_1_eq_mask mask_eq_exp_minus_1)
        then have "\<not> unat (p - (p + 1)) < length cs" using Cons.prems by simp
        then show ?thesis using True by (simp add: IH)
      next
        case False
        then have "a - p \<noteq> 0" by simp
        then have "unat (a - p - 1) = unat (a - p) - 1" "0 < unat (a - p)"
          by (simp_all add: unat_minus_one unat_gt_0 word_neq_0_conv del: right_minus_eq diff_gt_0_iff_gt)
        then have "unat (a - p) = Suc (unat (a - (p + 1)))" by (simp only: diff_diff_eq[symmetric])
        then show ?thesis using False by (simp add: IH)
      qed
    qed
  qed
qed simp

text \<open>The limit of a buffer that lies in the memory.\<close>

lemma limit_in: "0 < sz \<Longrightarrow> unat buf + unat sz \<le> 2 ^ 32 \<Longrightarrow> unat (limit buf sz) = unat buf + unat sz - 1"
proof -
  assume a: "0 < sz" "unat buf + unat sz \<le> 2 ^ 32"
  have z: "0 < unat sz" using a(1) by (simp add: unat_gt_0)
  have "buf + sz - 1 = of_nat (unat buf + unat sz - 1)" using z by (simp add: of_nat_diff)
  moreover have "unat (of_nat (unat buf + unat sz - 1) :: rt_uint32) = unat buf + unat sz - 1"
    by (subst unat_of_nat, rule mod_less) (use a(2) z in simp)
  ultimately have e: "unat (buf + sz - 1) = unat buf + unat sz - 1" by (simp only:)
  then have "\<not> buf + sz - 1 < buf" using z by (simp only: word_less_nat_alt not_less)
  then show ?thesis using e by (simp add: limit_def Let_def)
qed

text \<open>The memory after \<open>cs\<close> went out and the string is closed: what fits, then the
  terminator, and nothing else.\<close>

definition text_written :: "rt_uint32 \<Rightarrow> rt_uint32 \<Rightarrow> rt_uint8 list \<Rightarrow> mem \<Rightarrow> mem" where
  "text_written buf sz cs m =
     (let k = min (length cs) (unat sz - 1) in
      (\<lambda>a. if unat (a - buf) < k then cs ! unat (a - buf) else if unat (a - buf) = k then 0 else m a))"

lemma closed_text:
  assumes t: "put_all (limit buf sz) cs (buf, m) = (str, m1)"
    and z: "0 < unat sz" and bnd: "unat buf + unat sz \<le> 2 ^ 32" and fit: "unat buf + length cs < 2 ^ 32"
  shows "(if str \<le> limit buf sz then m1(str := 0) else m1(limit buf sz := 0)) = text_written buf sz cs m"
    (is "?closed = _")
proof -
  let ?e = "limit buf sz" and ?k = "min (length cs) (unat sz - 1)"
  let ?new = "\<lambda>a. if unat (a - buf) < ?k then cs ! unat (a - buf) else if unat (a - buf) = ?k then 0 else m a"
  have p: "str = buf + of_nat (length cs)" using t put_all_ptr[of ?e cs buf m] by (metis fst_conv)
  have e: "unat ?e = unat buf + unat sz - 1" by (rule limit_in) (use z bnd in \<open>simp_all add: unat_gt_0 word_neq_0_conv\<close>)
  have "?closed = ?new"
  proof
  fix a
    have off: "unat (buf + d) = unat buf + unat d" if "unat buf + unat d < 2 ^ 32" for d
      using that by (simp add: unat_word_ariths)
    have len: "unat (of_nat (length cs) :: rt_uint32) = length cs" using fit by (simp add: unat_of_nat)
    then have str: "unat str = unat buf + length cs" using p off[of "of_nat (length cs)"] fit by simp
    have dist: "unat (b - buf) = unat b - unat buf" if "unat buf \<le> unat b" for b
      using that by (simp add: unat_sub word_le_nat_alt)
    have same: "unat (a - buf) = unat (b - buf) \<longleftrightarrow> a = b" for b by (simp add: word_unat_eq_iff[symmetric])
    have m1: "m1 a = (if unat (a - buf) < length cs \<and> a \<le> ?e then cs ! unat (a - buf) else m a)"
      using put_all_mem[of buf cs ?e m] fit t by (metis (no_types, lifting) less_imp_le snd_conv)
    have le: "a \<le> ?e \<longleftrightarrow> unat (a - buf) \<le> unat sz - 1" if "unat (a - buf) < length cs"
    proof -
      have "unat a = unat buf + unat (a - buf)" using off[of "a - buf"] fit that by simp
      then show ?thesis using e z by (simp add: word_le_nat_alt) linarith
    qed
    show "?closed a = ?new a"
    proof (cases "str \<le> ?e")
      case True
      then have k: "length cs \<le> unat sz - 1" "?k = length cs" using e str z by (simp_all add: word_le_nat_alt)
      have "a = str \<longleftrightarrow> unat (a - buf) = length cs" using same[of str] p len by simp
      then show ?thesis using True m1 le k by (auto simp: fun_upd_def)
    next
      case False
      then have k: "unat sz \<le> length cs" "?k = unat sz - 1" using e str z by (simp_all add: word_le_nat_alt)
      have "a = ?e \<longleftrightarrow> unat (a - buf) = unat sz - 1" using same[of ?e] dist[of ?e] e z by simp
      then show ?thesis using False m1 le k z by (auto simp: fun_upd_def)
    qed
  qed
  then show ?thesis unfolding text_written_def Let_def .
qed

text \<open>When the text does not depend on where it is cut off.\<close>

lemma rt_vsnprintf_put_all:
  assumes "\<And>e o1. format_loop e fmt args o1 = Some (put_all e cs o1)"
    and "0 < unat sz" "unat buf + unat sz \<le> 2 ^ 32" "unat buf + length cs < 2 ^ 32"
  shows "rt_vsnprintf buf sz fmt args m = Some (text_written buf sz cs m, of_nat (length cs))"
proof -
  obtain str m1 where t: "put_all (limit buf sz) cs (buf, m) = (str, m1)" by fastforce
  moreover have "str - buf = of_nat (length cs)" using t put_all_ptr[of "limit buf sz" cs buf m] by simp
  ultimately show ?thesis using closed_text[OF t assms(2-4)] by (simp add: rt_vsnprintf_def assms(1))
qed

text \<open>The bytes of a buffer.\<close>

definition bytes_at :: "mem \<Rightarrow> rt_uint32 \<Rightarrow> nat \<Rightarrow> rt_uint8 list" where
  "bytes_at m p n = map (\<lambda>j. m (p + of_nat j)) [0..<n]"

lemma text_written_prefix:
  assumes "0 < unat sz"
  shows "bytes_at (text_written buf sz cs m) buf (min (length cs) (unat sz - 1)) = take (unat sz - 1) cs"
    "text_written buf sz cs m (buf + of_nat (min (length cs) (unat sz - 1))) = 0"
proof -
  have "unat sz < 2 ^ 32" using unsigned_less[where 'a = nat, of sz] by simp
  then have len: "unat (of_nat j :: rt_uint32) = j" if "j \<le> unat sz - 1" for j
    using that by (simp add: unat_of_nat)
  show "bytes_at (text_written buf sz cs m) buf (min (length cs) (unat sz - 1)) = take (unat sz - 1) cs"
    "text_written buf sz cs m (buf + of_nat (min (length cs) (unat sz - 1))) = 0"
    by (auto simp: bytes_at_def text_written_def Let_def len intro!: nth_equalityI)
qed

lemma text_written_frame: "0 < unat sz \<Longrightarrow> unat sz \<le> unat (a - buf) \<Longrightarrow> text_written buf sz cs m a = m a"
  by (auto simp: text_written_def Let_def)

lemma text_written_bytes:
  assumes "length cs < unat sz"
  shows "bytes_at (text_written buf sz cs m) buf (length cs) = cs"
    "text_written buf sz cs m (buf + of_nat (length cs)) = 0"
proof -
  have k: "min (length cs) (unat sz - 1) = length cs" "take (unat sz - 1) cs = cs" "0 < unat sz" using assms by auto
  show "bytes_at (text_written buf sz cs m) buf (length cs) = cs"
    "text_written buf sz cs m (buf + of_nat (length cs)) = 0"
    using text_written_prefix[OF k(3), of buf cs m] k(1,2) by simp_all
qed

section \<open>Decimal numbers\<close>

lemma digit_read:
  assumes "r < (10 :: rt_uint32)"
  shows "isdigit (small_digits ! unat r)" "uint (small_digits ! unat r) = 48 + uint r"
proof -
  have "isdigit (small_digits ! k) \<and> uint (small_digits ! k) = 48 + int k" if "k < 10" for k
  proof -
    have "k = 0 \<or> k = 1 \<or> k = 2 \<or> k = 3 \<or> k = 4 \<or> k = 5 \<or> k = 6 \<or> k = 7 \<or> k = 8 \<or> k = 9"
      using that by presburger
    then show ?thesis by (auto simp: small_digits_def isdigit_def)
  qed
  moreover have "unat r < 10" using assms by (simp add: word_less_nat_alt)
  ultimately show "isdigit (small_digits ! unat r)" "uint (small_digits ! unat r) = 48 + uint r"
    by (simp_all only: uint_nat)
qed

lemma uint_zero_char: "uint (chr CHR ''0'') = 48"
  by simp

lemma skip_atoi_digits:
  "skip_atoi_from i (rev (digit_loop small_digits 10 num) @ s) =
     skip_atoi_from (i * 10 ^ length (digit_loop small_digits 10 num) + uint num) s"
proof (induction "small_digits" "10 :: nat" num arbitrary: i s rule: digit_loop.induct)
  case (1 num)
  show ?case
  proof (cases "num = 0")
    case True
    then show ?thesis by (simp add: digit_loop.simps)
  next
    case False
    let ?q = "num div 10" and ?r = "num mod 10"
    have u: "digit_loop small_digits 10 num = small_digits ! unat ?r # digit_loop small_digits 10 ?q"
      using False by (subst digit_loop.simps) (simp add: divide_def)
    have r: "?r < 10" by (simp add: word_less_nat_alt unat_mod)
    have IH: "skip_atoi_from j (rev (digit_loop small_digits 10 ?q) @ t) =
        skip_atoi_from (j * 10 ^ length (digit_loop small_digits 10 ?q) + uint ?q) t" for j t
      using 1[OF False] by (simp add: divide_def)
    have "uint num = uint ?q * 10 + uint ?r" by (simp add: uint_div uint_mod)
    then show ?thesis using digit_read[OF r]
      by (simp only: u rev.simps append.simps append_assoc IH skip_atoi_from.simps if_True uint_zero_char)
        (simp add: algebra_simps)
  qed
qed

lemma digit_loop_length: "unat num < 10 ^ k \<Longrightarrow> length (digit_loop digits 10 num) \<le> k"
proof (induction k arbitrary: num)
  case 0
  then show ?case by (simp add: digit_loop.simps unat_eq_0)
next
  case (Suc k)
  have "unat (num div 10) < 10 ^ k" using Suc.prems by (simp add: unat_div div_less_iff_less_mult mult.commute)
  then have "length (digit_loop digits 10 (num div 10)) \<le> k" by (rule Suc.IH)
  then show ?case by (subst digit_loop.simps) (simp add: divide_def)
qed

text \<open>A conversion with neither flags nor width nor precision prints the sign and the digits.\<close>

definition decimal :: "rt_uint32 \<Rightarrow> rt_uint8 list" where
  "decimal num = (if num = 0 then [chr CHR ''0''] else rev (digit_loop small_digits 10 num))"

lemma skip_atoi_decimal: "skip_atoi (decimal num) = (uint num, [])"
  using skip_atoi_digits[of 0 num "[]"]
  by (simp add: skip_atoi_def decimal_def isdigit_def)

lemma decimal_length: "length (decimal num) \<le> 10" "decimal num \<noteq> []"
proof -
  have "unat num < 10 ^ 10" using unsigned_less[where 'a = nat, of num] by simp
  then show "length (decimal num) \<le> 10" using digit_loop_length by (auto simp: decimal_def)
  show "decimal num \<noteq> []" by (subst decimal_def, subst digit_loop.simps) simp
qed

lemma print_number_plain:
  assumes "ty AND (ZEROPAD OR LEFT) = 0" "ty AND LARGE = 0"
  shows "print_number e num 10 (- 1) (- 1) ty o1 =
    (let (sign, n) = number_sign ty num in put_all e ((if sign \<noteq> 0 then [sign] else []) @ decimal n) o1)"
proof -
  obtain sign n where sn: "number_sign ty num = (sign, n)" by fastforce
  have "ty AND LEFT = (ty AND (ZEROPAD OR LEFT)) AND LEFT" by (simp add: and.assoc)
  then have L: "ty AND LEFT = 0" using assms(1) by simp
  have len: "0 < length (decimal n)" using decimal_length(2) by auto
  have t: "(if n = 0 then [chr CHR ''0''] else digit_loop small_digits 10 n) = rev (decimal n)"
    by (simp add: decimal_def)
  show ?thesis
    by (cases o1; cases "sign = 0")
      (simp_all add: print_number_def number_fill_def sn Let_def assms L t len pad_puts pad_len_puts put_one
        del: put_all.simps cong: if_cong flip: put_all_append, simp_all add: decimal_def)
qed

lemma uint_of_sint: "uint (of_int k :: rt_uint32) = k mod 2 ^ 32"
  by (rule trans[OF uint_word_of_int]) simp

lemma uint_neg:
  assumes "sint (w :: rt_uint32) < 0" shows "uint (- w) = - sint w"
proof -
  have "- w = of_int (- sint w)" by simp
  then have "uint (- w) = - sint w mod 2 ^ 32" by (simp only: uint_of_sint)
  then show ?thesis using assms sint_ge[of w] by simp
qed

lemma uint_nonneg:
  assumes "0 \<le> sint (w :: rt_uint32)" shows "uint w = sint w"
proof -
  have "w = of_int (sint w)" by simp
  then have "uint w = sint w mod 2 ^ 32" by (metis uint_of_sint)
  then show ?thesis using assms sint_lt[of w] by simp
qed

lemma print_d: "format_loop e [chr CHR ''%'', chr CHR ''d''] (ArgWord w # args) o1 =
    Some (let (sign, n) = number_sign SIGN w in put_all e ((if sign \<noteq> 0 then [sign] else []) @ decimal n) o1)"
  by (simp add: print_directive_def field_width_def get_precision_def print_conversion_def print_integer_def
      number_arg_def isdigit_def print_number_plain)

lemma print_u: "format_loop e [chr CHR ''%'', chr CHR ''u''] (ArgWord w # args) o1 = Some (put_all e (decimal w) o1)"
  by (simp add: print_directive_def field_width_def get_precision_def print_conversion_def print_integer_def
      number_arg_def isdigit_def print_number_plain number_sign_def)

section \<open>Properties\<close>

text \<open>Numbers printed in decimal are read back by \<^verbatim>\<open>skip_atoi\<close>, the scanner
  of widths.\<close>

theorem print_scan_u:
  assumes "10 < unat sz" "unat buf + unat sz \<le> 2 ^ 32"
  shows "\<exists>m' n. rt_snprintf buf sz (map chr ''%u'') [ArgWord w] m = Some (m', n) \<and>
    skip_atoi (bytes_at m' buf (unat n)) = (uint w, []) \<and> m' (buf + n) = 0"
proof -
  have len: "length (decimal w) \<le> 10" by (rule decimal_length)
  then have n: "unat (of_nat (length (decimal w)) :: rt_uint32) = length (decimal w)" by (simp add: unat_of_nat)
  have "rt_snprintf buf sz (map chr ''%u'') [ArgWord w] m =
      Some (text_written buf sz (decimal w) m, of_nat (length (decimal w)))"
    unfolding rt_snprintf_def list.map by (rule rt_vsnprintf_put_all[OF print_u]) (use assms len in simp_all)
  then show ?thesis using text_written_bytes[of "decimal w" sz buf m] assms(1) len n
    by (simp add: skip_atoi_decimal)
qed

text \<open>And \<^verbatim>\<open>%d\<close>, with the sign in front.\<close>

theorem print_scan_d:
  assumes "11 < unat sz" "unat buf + unat sz \<le> 2 ^ 32"
  shows "\<exists>m' n bs. rt_snprintf buf sz (map chr ''%d'') [ArgWord w] m = Some (m', n) \<and>
    bs = bytes_at m' buf (unat n) \<and> m' (buf + n) = 0 \<and>
    (if sint w < 0 then hd bs = chr CHR ''-'' \<and> skip_atoi (tl bs) = (- sint w, []) else skip_atoi bs = (sint w, []))"
proof -
  define cs where "cs = (if sint w < 0 then chr CHR ''-'' # decimal (- w) else decimal w)"
  have len: "length cs \<le> 11" using decimal_length(1)[of w] decimal_length(1)[of "- w"] by (simp add: cs_def)
  then have n: "unat (of_nat (length cs) :: rt_uint32) = length cs" by (simp add: unat_of_nat)
  have f: "format_loop e (map chr ''%d'') [ArgWord w] o1 = Some (put_all e cs o1)" for e o1
    unfolding list.map by (subst print_d) (simp add: number_sign_def cs_def)
  have "rt_snprintf buf sz (map chr ''%d'') [ArgWord w] m = Some (text_written buf sz cs m, of_nat (length cs))"
    unfolding rt_snprintf_def by (rule rt_vsnprintf_put_all[OF f]) (use assms len in simp_all)
  moreover have "if sint w < 0 then hd cs = chr CHR ''-'' \<and> skip_atoi (tl cs) = (- sint w, [])
      else skip_atoi cs = (sint w, [])"
    using uint_neg[of w] uint_nonneg[of w] by (simp add: cs_def skip_atoi_decimal)
  moreover have "bytes_at (text_written buf sz cs m) buf (length cs) = cs"
      "text_written buf sz cs m (buf + of_nat (length cs)) = 0"
    using text_written_bytes[of cs sz buf m] assms(1) len by simp_all
  ultimately show ?thesis
    by (intro exI[of _ "text_written buf sz cs m"] exI[of _ "of_nat (length cs)"] exI[of _ cs]) (simp only: n)
qed

theorem print_scan_d_witness:
  "\<exists>m' n bs. rt_snprintf 0x1000 16 (map chr ''%d'') [ArgWord (- 7)] (\<lambda>_. 0) = Some (m', n) \<and>
     bs = bytes_at m' 0x1000 (unat n) \<and> hd bs = chr CHR ''-'' \<and> skip_atoi (tl bs) = (7, [])"
  using print_scan_d[where sz = 16 and buf = "0x1000" and w = "- 7" and m = "\<lambda>_. 0"] by auto

text \<open>\<^verbatim>\<open>%o\<close> prints in base 16: \<^verbatim>\<open>divide\<close> knows the bases 10
  and 16 only.\<close>

theorem octal_prints_hex:
  "rt_snprintf buf sz (map chr ''%o'') args m = rt_snprintf buf sz (map chr ''%x'') args m"
proof -
  have d: "divide num 8 = divide num 16" for num by (simp add: divide_def)
  have "digit_loop ds 8 num = digit_loop ds 16 num" for ds num
    by (induction ds "8 :: nat" num rule: digit_loop.induct) (subst (1 2) digit_loop.simps, simp add: d)
  then have "print_number e num 8 = print_number e num 16" for e num
    by (simp only: print_number_def fun_eq_iff simp_thms)
  then have "print_integer e q fl 8 w p a o1 = print_integer e q fl 16 w p a o1" for e q fl w p a o1
    by (simp add: print_integer_def)
  then have "format_loop e (map chr ''%o'') args o1 = format_loop e (map chr ''%x'') args o1" for e o1
    by (simp add: print_directive_def field_width_def get_precision_def isdigit_def print_conversion_def)
  then show ?thesis by (simp add: rt_snprintf_def rt_vsnprintf_def)
qed

text \<open>A number cut off in front of its sign is one column too wide: the width is reduced only when the
  sign fits, so the length returned for a short buffer is not the one of the whole text.\<close>

theorem truncated_length:
  "map_option snd (rt_snprintf 0x1000 1 (map chr ''ab%05d'') [ArgWord (- 3)] m) = Some 8 \<and>
   map_option snd (rt_snprintf 0x1000 32 (map chr ''ab%05d'') [ArgWord (- 3)] m) = Some 7"
  by code_simp

end
