(* ===== verification/Rtt_Format_Text.thy ===== *)
theory Rtt_Format_Text
  imports Rtt_Kprintf
begin

text \<open>
  The text of a format, with no memory and no end of a buffer in it, and the proof that
  \<^verbatim>\<open>rt_vsnprintf\<close> (\<^verbatim>\<open>kservice.c\<close>) writes it. The flags, the width and the
  precision of a directive are read by the functions of \<open>Rtt_Kprintf\<close>; what is printed is said here
  anew: a sign, zeros up to the precision, the numeral, and padding to the width. As in the code a base other than
  10 is 16.
\<close>

section \<open>The text\<close>

function numeral_text :: "rt_uint8 list \<Rightarrow> nat \<Rightarrow> nat \<Rightarrow> rt_uint8 list" where
  "numeral_text ds base n =
     (if base < 2 \<or> n < base then [ds ! n] else numeral_text ds base (n div base) @ [ds ! (n mod base)])"
  by pat_completeness auto
termination by (relation "measure (\<lambda>(_, _, n). n)") auto

declare numeral_text.simps [simp del]

definition sign_text :: "rt_uint8 \<Rightarrow> rt_uint32 \<Rightarrow> rt_uint8 list" where
  "sign_text ty num =
     (if ty AND SIGN = 0 then []
      else if sint num < 0 then [chr CHR ''-'']
      else if ty AND PLUS \<noteq> 0 then [chr CHR ''+'']
      else if ty AND SPACE \<noteq> 0 then [chr CHR '' ''] else [])"

definition number_text :: "nat \<Rightarrow> int \<Rightarrow> int \<Rightarrow> rt_uint8 \<Rightarrow> rt_uint32 \<Rightarrow> rt_uint8 list" where
  "number_text base width precision ty num =
     (let sign = sign_text ty num;
          magnitude = (if ty AND SIGN \<noteq> 0 \<and> sint num < 0 then nat (- sint num) else unat num);
          numeral = numeral_text (if ty AND LARGE \<noteq> 0 then large_digits else small_digits) (if base = 10 then 10 else 16) magnitude;
          body = replicate (nat precision - length numeral) (chr CHR ''0'') @ numeral;
          gap = nat width - length (sign @ body)
      in if ty AND LEFT \<noteq> 0 then sign @ body @ replicate gap (chr CHR '' '')
         else if ty AND ZEROPAD \<noteq> 0 then sign @ replicate gap (chr CHR ''0'') @ body
         else replicate gap (chr CHR '' '') @ sign @ body)"

text \<open>A text of its own, padded.\<close>

definition padded :: "rt_uint8 \<Rightarrow> int \<Rightarrow> rt_uint8 list \<Rightarrow> rt_uint8 list" where
  "padded fl width cs =
     (let gap = replicate (nat width - length cs) (chr CHR '' '') in if fl AND LEFT \<noteq> 0 then cs @ gap else gap @ cs)"

definition string_text :: "rt_uint8 \<Rightarrow> int \<Rightarrow> int \<Rightarrow> cstring option \<Rightarrow> rt_uint8 list option" where
  "string_text fl width precision s = do {
     let s = (case s of None \<Rightarrow> (\<lambda>i. (map chr ''(NULL)'' @ [0]) ! i) | Some s \<Rightarrow> s);
     n \<leftarrow> rt_strlen s;
     Some (padded fl width (map s [0..<if 0 < precision then min n (nat precision) else n]))
   }"

definition integer_text ::
  "rt_uint8 \<Rightarrow> rt_uint8 \<Rightarrow> nat \<Rightarrow> int \<Rightarrow> int \<Rightarrow> arg list \<Rightarrow> (rt_uint8 list \<times> arg list) option" where
  "integer_text q fl base width precision args = do {
     (w, args) \<leftarrow> next_word args;
     Some (number_text base width precision fl (number_arg q fl w), args)
   }"

text \<open>The result is the text, the rest of the format and the arguments that are left.\<close>

definition conversion_text ::
  "rt_uint8 \<Rightarrow> rt_uint8 \<Rightarrow> int \<Rightarrow> int \<Rightarrow> rt_uint8 list \<Rightarrow> arg list \<Rightarrow>
     (rt_uint8 list \<times> rt_uint8 list \<times> arg list) option" where
  "conversion_text q fl width precision s args =
     (let c = peek s; rest = (\<lambda>(cs, args). (cs, tl s, args)) in
      if c = chr CHR ''c'' then
        map_option (\<lambda>(w, args). rest (padded fl width [ucast w], args)) (next_word args)
      else if c = chr CHR ''s'' then
        (case args of
           ArgStr str # args \<Rightarrow> map_option (\<lambda>cs. rest (cs, args)) (string_text fl width precision str)
         | _ \<Rightarrow> None)
      else if c = chr CHR ''p'' then
        (let (width, fl) = (if width = - 1 then (8, fl OR ZEROPAD) else (width, fl)) in
         map_option (\<lambda>(w, args). rest (number_text 16 width precision fl w, args)) (next_word args))
      else if c = chr CHR ''%'' then Some (rest ([chr CHR ''%''], args))
      else if c = chr CHR ''o'' then map_option rest (integer_text q fl 8 width precision args)
      else if c = chr CHR ''X'' then map_option rest (integer_text q (fl OR LARGE) 16 width precision args)
      else if c = chr CHR ''x'' then map_option rest (integer_text q fl 16 width precision args)
      else if c = chr CHR ''d'' \<or> c = chr CHR ''i'' then
        map_option rest (integer_text q (fl OR SIGN) 10 width precision args)
      else if c = chr CHR ''u'' then map_option rest (integer_text q fl 10 width precision args)
      else Some (rest (if s \<noteq> [] then [chr CHR ''%'', c] else [chr CHR ''%''], args)))"

definition directive_text :: "rt_uint8 list \<Rightarrow> arg list \<Rightarrow> (rt_uint8 list \<times> rt_uint8 list \<times> arg list) option" where
  "directive_text s args = do {
     let (fl, s) = flags_loop 0 s;
     (width, fl, s, args) \<leftarrow> field_width fl s args;
     (precision, s, args) \<leftarrow> get_precision s args;
     let (q, s) = (if peek s = chr CHR ''h'' \<or> peek s = chr CHR ''l'' then (peek s, tl s) else (0, s));
     conversion_text q fl width precision s args
   }"

section \<open>Output that is cut off\<close>

text \<open>How many bytes still fit, and what it means that a text is shown: it was put out, or it does not
  fit and what was put out instead agrees with it as far as there is room and is at most \<open>k\<close> longer.\<close>

definition room :: "rt_uint32 \<Rightarrow> out \<Rightarrow> nat" where
  "room e o1 = unat e + 1 - unat (fst o1)"

definition shown :: "rt_uint32 \<Rightarrow> nat \<Rightarrow> rt_uint8 list \<Rightarrow> out \<Rightarrow> out \<Rightarrow> bool" where
  "shown e k cs o1 o2 \<longleftrightarrow> (\<exists>xs. o2 = put_all e xs o1 \<and>
     (xs = cs \<or> room e o1 < length cs \<and> take (room e o1) xs = take (room e o1) cs \<and>
        length cs \<le> length xs \<and> length xs \<le> length cs + k))"

lemma shown_exact [simp, intro]: "shown e k cs o1 (put_all e cs o1)"
  by (auto simp: shown_def)

lemma shown_mono: "shown e k cs o1 o2 \<Longrightarrow> k \<le> l \<Longrightarrow> shown e l cs o1 o2"
  by (fastforce simp: shown_def)

lemma put_all_pos:
  assumes "unat (fst o1) + length xs < 2 ^ 32"
  shows "unat (fst (put_all e xs o1)) = unat (fst o1) + length xs"
proof -
  obtain p m where o1: "o1 = (p, m)" by fastforce
  have l: "unat (of_nat (length xs) :: rt_uint32) = length xs" using assms by (simp add: unat_of_nat)
  then show ?thesis using assms by (simp add: o1 put_all_ptr unat_word_ariths)
qed

lemma shown_trans:
  assumes a: "shown e k cs o1 o2" and b: "shown e l ds o2 o3" and fit: "unat (fst o1) + length cs + k < 2 ^ 32"
  shows "shown e (k + l) (cs @ ds) o1 o3" "unat (fst o2) \<le> unat (fst o1) + length cs + k"
proof -
  let ?r = "room e o1"
  obtain xs where xs: "o2 = put_all e xs o1" "xs = cs \<or> ?r < length cs \<and> take ?r xs = take ?r cs \<and>
        length cs \<le> length xs \<and> length xs \<le> length cs + k" using a by (auto simp: shown_def)
  obtain ys where ys: "o3 = put_all e ys o2" "ys = ds \<or> room e o2 < length ds \<and> take (room e o2) ys = take (room e o2) ds \<and>
        length ds \<le> length ys \<and> length ys \<le> length ds + l" using b by (auto simp: shown_def)
  have lx: "length cs \<le> length xs" "length xs \<le> length cs + k" using xs(2) by auto
  have ly: "length ds \<le> length ys" "length ys \<le> length ds + l" using ys(2) by auto
  have pos: "unat (fst o2) = unat (fst o1) + length xs" unfolding xs(1) by (rule put_all_pos) (use lx fit in simp)
  then show "unat (fst o2) \<le> unat (fst o1) + length cs + k" using lx by simp
  have r2: "room e o2 = ?r - length xs" by (simp add: room_def pos)
  have o3: "o3 = put_all e (xs @ ys) o1" by (simp add: ys(1) xs(1) put_all_append)
  show "shown e (k + l) (cs @ ds) o1 o3"
  proof (cases "xs = cs")
    case True
    then show ?thesis using o3 ys(2) unfolding shown_def r2 by (intro exI[of _ "xs @ ys"]) auto
  next
    case False
    then have c: "?r < length cs" "take ?r xs = take ?r cs" using xs(2) by auto
    then have "take ?r (xs @ ys) = take ?r (cs @ ds)" using lx by simp
    then show ?thesis using o3 c lx ly unfolding shown_def by (intro exI[of _ "xs @ ys"]) simp
  qed
qed


section \<open>Numbers\<close>

lemma numeral_digits:
  assumes "ds ! 0 = chr CHR ''0''" "b = (if base = 10 then 10 else 16 :: nat)"
  shows "numeral_text ds b (unat num) = (if num = 0 then [chr CHR ''0''] else rev (digit_loop ds base num))"
  using assms
proof (induction ds base num rule: digit_loop.induct)
  case (1 ds base num)
  let ?d = "divide num base"
  have b: "\<not> b < 2" using 1 by simp
  have d: "unat (snd ?d) = unat num div b" "unat (fst ?d) = unat num mod b"
    using 1 by (simp_all add: divide_def unat_div unat_mod)
  show ?case
  proof (cases "num = 0")
    case True
    then show ?thesis using 1 by (subst numeral_text.simps) simp
  next
    case False
    then have u: "digit_loop ds base num = ds ! unat (fst ?d) # digit_loop ds base (snd ?d)" by (subst digit_loop.simps) simp
    show ?thesis
    proof (cases "unat num < b")
      case True
      then have "snd ?d = 0" using d(1) by (simp flip: unat_eq_0)
      then have "digit_loop ds base (snd ?d) = []" by (simp add: digit_loop.simps)
      then show ?thesis using True False b d(2) u by (subst numeral_text.simps) simp
    next
      case big: False
      then have "snd ?d \<noteq> 0" using b d(1) by (simp add: div_eq_0_iff flip: unat_eq_0)
      then show ?thesis using 1(1)[OF False _ _] 1(2,3) False big b u d by (subst numeral_text.simps) simp
    qed
  qed
qed

text \<open>What the three ways of filling a field put out.\<close>

definition sign_list :: "rt_uint8 \<Rightarrow> rt_uint8 list" where
  "sign_list sign = (if sign \<noteq> 0 then [sign] else [])"

lemma number_fill_left:
  assumes "ty AND LEFT \<noteq> 0"
  shows "number_fill e ty c sign sz p tmp o1 = put_all e (sign_list sign @
    replicate (nat (p - int (length tmp))) (chr CHR ''0'') @ rev tmp @
    replicate (nat (if sign \<noteq> 0 \<and> fst o1 \<le> e then sz - 1 else sz)) (chr CHR '' '')) o1"
proof -
  have "ty AND (ZEROPAD OR LEFT) \<noteq> 0"
    using assms by (simp only: bit.conj_disj_distrib or_eq_0_iff simp_thms not_False_eq_True)
  then show ?thesis using assms
    by (cases "sign = 0")
      (simp_all add: number_fill_def sign_list_def pad_puts pad_len_puts put_all_append)
qed

lemma number_fill_zeros:
  assumes "ty AND LEFT = 0" "ty AND ZEROPAD \<noteq> 0"
  shows "number_fill e ty c sign sz p tmp o1 = put_all e (sign_list sign @
    replicate (nat (if sign \<noteq> 0 \<and> fst o1 \<le> e then sz - 1 else sz)) c @
    replicate (nat (p - int (length tmp))) (chr CHR ''0'') @ rev tmp) o1"
proof -
  have "ty AND (ZEROPAD OR LEFT) \<noteq> 0"
    using assms(2) by (simp only: bit.conj_disj_distrib or_eq_0_iff simp_thms)
  then show ?thesis using assms
    by (cases "sign = 0")
      (simp_all add: number_fill_def sign_list_def pad_puts pad_len_puts put_all_append)
qed

lemma number_fill_spaces:
  assumes "ty AND LEFT = 0" "ty AND ZEROPAD = 0"
  shows "number_fill e ty c sign sz p tmp o1 = put_all e (
    replicate (nat (if sign \<noteq> 0 then sz - 1 else sz)) (chr CHR '' '') @ sign_list sign @
    replicate (nat (p - int (length tmp))) (chr CHR ''0'') @ rev tmp) o1"
proof -
  have "ty AND (ZEROPAD OR LEFT) = 0"
    using assms by (simp only: bit.conj_disj_distrib or_eq_0_iff simp_thms)
  then show ?thesis using assms
    by (cases "sign = 0")
      (simp_all add: number_fill_def sign_list_def pad_puts pad_len_puts put_all_append)
qed

lemma number_sign_text:
  assumes "number_sign ty num = (sign, mag)"
  shows "sign_text ty num = sign_list sign"
    "unat mag = (if ty AND SIGN \<noteq> 0 \<and> sint num < 0 then nat (- sint num) else unat num)"
proof -
  have "unat (- num) = nat (- sint num)" if "sint num < 0" using uint_neg[OF that] by (simp add: unat_eq_nat_uint)
  then show "unat mag = (if ty AND SIGN \<noteq> 0 \<and> sint num < 0 then nat (- sint num) else unat num)"
    using assms by (auto simp: number_sign_def split: if_splits)
  show "sign_text ty num = sign_list sign"
    using assms by (auto simp: number_sign_def sign_text_def sign_list_def split: if_splits)
qed

lemma shown_beyond:
  assumes "\<not> fst o1 \<le> e" "cs \<noteq> []" "length cs \<le> length xs" "length xs \<le> length cs + 1"
  shows "shown e 1 cs o1 (put_all e xs o1)"
proof -
  have "room e o1 = 0" using assms(1) by (simp add: room_def word_le_nat_alt)
  then show ?thesis using assms by (auto simp: shown_def)
qed

lemma fill_shown:
  assumes ty: "ty' = (if ty AND LEFT \<noteq> 0 then ty AND NOT ZEROPAD else ty)"
    and c: "c = (if ty' AND ZEROPAD \<noteq> 0 then chr CHR ''0'' else chr CHR '' '')"
    and tmp: "rev tmp = ns" and p: "p = max precision (int (length tmp))"
    and body: "body = replicate (nat precision - length ns) (chr CHR ''0'') @ ns"
    and gap: "gap = nat width - length (sign_list sign @ body)"
  shows "shown e 1
    (if ty AND LEFT \<noteq> 0 then sign_list sign @ body @ replicate gap (chr CHR '' '')
     else if ty AND ZEROPAD \<noteq> 0 then sign_list sign @ replicate gap (chr CHR ''0'') @ body
     else replicate gap (chr CHR '' '') @ sign_list sign @ body)
    o1 (number_fill e ty' c sign (width - p) p tmp o1)"
proof -
  have n: "length ns = length tmp" using tmp by (metis length_rev)
  have z: "nat (p - int (length tmp)) = nat precision - length ns" using p n by simp
  have g: "gap = nat (if sign \<noteq> 0 then width - p - 1 else width - p)"
  proof -
    have "int (nat precision - length tmp + length tmp) = p" using p by (simp add: max_def)
    then have "nat (width - p) = nat width - (nat precision - length tmp + length tmp)"
      "nat (width - p - 1) = nat width - Suc (nat precision - length tmp + length tmp)" by linarith+
    then show ?thesis unfolding gap body using n by (simp add: sign_list_def)
  qed
  have one: "sign_list sign \<noteq> []" if "sign \<noteq> 0" using that by (simp add: sign_list_def)
  consider (L) "ty AND LEFT \<noteq> 0" | (Z) "ty AND LEFT = 0" "ty AND ZEROPAD \<noteq> 0" | (S) "ty AND LEFT = 0" "ty AND ZEROPAD = 0"
    by blast
  then show ?thesis
  proof cases
    case L
    then have L': "ty' AND LEFT \<noteq> 0" using ty by (simp add: and.assoc)
    have f: "number_fill e ty' c sign (width - p) p tmp o1 = put_all e (sign_list sign @ body @
        replicate (nat (if sign \<noteq> 0 \<and> fst o1 \<le> e then width - p - 1 else width - p)) (chr CHR '' '')) o1"
      by (simp only: number_fill_left[OF L'] z tmp body append_assoc)
    show ?thesis
    proof (cases "sign \<noteq> 0 \<and> \<not> fst o1 \<le> e")
      case True
      then show ?thesis unfolding f using L one
        by (simp add: g del: One_nat_def) (rule shown_beyond; simp del: One_nat_def; linarith)
    next
      case False
      then have "nat (if sign \<noteq> 0 \<and> fst o1 \<le> e then width - p - 1 else width - p) = gap" using g by auto
      then show ?thesis using L f by simp
    qed
  next
    case Z
    then have ty': "ty' = ty" and c: "c = chr CHR ''0''" using ty c by simp_all
    have f: "number_fill e ty' c sign (width - p) p tmp o1 = put_all e (sign_list sign @
        replicate (nat (if sign \<noteq> 0 \<and> fst o1 \<le> e then width - p - 1 else width - p)) (chr CHR ''0'') @ body) o1"
      unfolding ty' c by (simp only: number_fill_zeros[OF Z] z tmp body append_assoc)
    show ?thesis
    proof (cases "sign \<noteq> 0 \<and> \<not> fst o1 \<le> e")
      case True
      then show ?thesis unfolding f using Z one
        by (simp add: g del: One_nat_def) (rule shown_beyond; simp del: One_nat_def; linarith)
    next
      case False
      then have "nat (if sign \<noteq> 0 \<and> fst o1 \<le> e then width - p - 1 else width - p) = gap" using g by auto
      then show ?thesis using Z f by simp
    qed
  next
    case S
    then have ty': "ty' = ty" using ty by simp
    have "number_fill e ty' c sign (width - p) p tmp o1 = put_all e (replicate gap (chr CHR '' '') @ sign_list sign @ body) o1"
      unfolding ty' by (simp only: number_fill_spaces[OF S] z tmp body g append_assoc)
    then show ?thesis using S by simp
  qed
qed

lemma print_number_shown: "shown e 1 (number_text base width precision ty num) o1 (print_number e num base width precision ty o1)"
proof -
  let ?ds = "if ty AND LARGE \<noteq> 0 then large_digits else small_digits"
  obtain sign mag where s: "number_sign ty num = (sign, mag)" by fastforce
  have s': "number_sign (if ty AND LEFT \<noteq> 0 then ty AND NOT ZEROPAD else ty) num = (sign, mag)"
  proof -
    have "(if ty AND LEFT \<noteq> 0 then ty AND NOT ZEROPAD else ty) AND SIGN = ty AND SIGN"
      "(if ty AND LEFT \<noteq> 0 then ty AND NOT ZEROPAD else ty) AND PLUS = ty AND PLUS"
      "(if ty AND LEFT \<noteq> 0 then ty AND NOT ZEROPAD else ty) AND SPACE = ty AND SPACE" by (simp_all add: and.assoc)
    then show ?thesis using s unfolding number_sign_def by (simp only:)
  qed
  note sg = number_sign_text[OF s]
  let ?tmp = "if mag = 0 then [chr CHR ''0''] else digit_loop ?ds base mag"
  have "?ds ! 0 = chr CHR ''0''" by (simp add: small_digits_def large_digits_def)
  note nm = numeral_digits[OF this refl, of base mag]
  have tmp: "rev ?tmp = numeral_text ?ds (if base = 10 then 10 else 16) (unat mag)" by (simp add: nm)
  have p: "(if precision < int (length ?tmp) then int (length ?tmp) else precision) = max precision (int (length ?tmp))"
    by (simp only: max_def not_le[symmetric] if_not_P) auto
  show ?thesis
    unfolding print_number_def number_text_def Let_def s' sg(1) prod.case p sg(2)[symmetric]
    by (rule fill_shown) (rule refl tmp)+
qed


section \<open>Conversions and directives\<close>

lemma print_char_text: "print_char e fl width c o1 = put_all e (padded fl width [c]) o1"
proof -
  have "nat width - Suc 0 = nat (width - 1)" by simp
  then show ?thesis by (simp add: print_char_def padded_def pad_pre_puts put_all_append del: put.simps)
qed

lemma print_string_text:
  assumes "string_text fl width precision s = Some cs"
  shows "print_string e fl width precision s o1 = Some (put_all e cs o1)"
proof -
  define t where "t = (case s of None \<Rightarrow> (\<lambda>i. (map chr ''(NULL)'' @ [0]) ! i) | Some s \<Rightarrow> s)"
  define k where "k len = (if 0 < precision then min len (nat precision) else len)" for len
  obtain len where n: "rt_strlen t = Some len" "cs = padded fl width (map t [0..<k len])"
    using assms by (auto simp: string_text_def Let_def bind_eq_Some_conv t_def k_def)
  have l: "(if 0 < precision \<and> precision < int len then precision else int len) = int (k len)" by (auto simp: k_def)
  have "nat width - k len = nat (width - int (k len))" by simp
  then show ?thesis
    unfolding print_string_def Let_def t_def[symmetric] n Option.bind_lunit l
    by (simp add: padded_def pad_len_puts put_all_append)
qed

lemma print_integer_text:
  "integer_text q fl base width precision args = Some (cs, args') \<Longrightarrow>
     \<exists>o2. print_integer e q fl base width precision args o1 = Some (o2, args') \<and> shown e 1 cs o1 o2"
  by (cases "next_word args")
    (auto simp: integer_text_def print_integer_def print_number_shown simp del: One_nat_def split_paired_Ex)

lemma put_shown: "shown e k [c] o1 (put e c o1)"
  unfolding put_one by (rule shown_exact)

lemma print_conversion_text:
  assumes "conversion_text q fl w p s args = Some (cs, s', args')"
  shows "\<exists>o2. print_conversion e q fl w p s args o1 = Some (o2, s', args') \<and> shown e 1 cs o1 o2"
proof -
  have int: "\<exists>o2. map_option (\<lambda>(o1, args). (o1, tl s, args)) (print_integer e q fl' base w p args o1) = Some (o2, s', args') \<and>
      shown e 1 cs o1 o2"
    if "map_option (\<lambda>(cs, args). (cs, tl s, args)) (integer_text q fl' base w p args) = Some (cs, s', args')" for fl' base
  proof -
    have "integer_text q fl' base w p args = Some (cs, args')" "s' = tl s" using that by auto
    then show ?thesis using print_integer_text[of q fl' base w p args cs args' e o1] by fastforce
  qed
  consider (c) "peek s = chr CHR ''c''" | (s) "peek s = chr CHR ''s''" | (p) "peek s = chr CHR ''p''"
    | (percent) "peek s = chr CHR ''%''" | (o) "peek s = chr CHR ''o''" | (X) "peek s = chr CHR ''X''"
    | (x) "peek s = chr CHR ''x''" | (d) "peek s = chr CHR ''d'' \<or> peek s = chr CHR ''i''" | (u) "peek s = chr CHR ''u''"
    | (other) "peek s \<notin> set (map chr ''csp%oXxdiu'')"
    by auto
  then show ?thesis
  proof cases
    case c
    then show ?thesis using assms 
      by (auto simp: conversion_text_def print_conversion_def print_char_text simp del: split_paired_Ex)
  next
    case s
    then show ?thesis using assms
      by (auto simp: conversion_text_def print_conversion_def print_string_text simp del: split_paired_Ex split: list.splits arg.splits)
  next
    case p
    then show ?thesis using assms
      by (auto simp: conversion_text_def print_conversion_def Let_def print_number_shown
          simp del: One_nat_def split_paired_Ex split: if_splits)
  next
    case percent
    then show ?thesis using assms
      by (auto simp: conversion_text_def print_conversion_def put_shown simp del: put.simps split_paired_Ex)
  next
    case o
    then show ?thesis using assms int by (simp add: conversion_text_def print_conversion_def)
  next
    case X
    then show ?thesis using assms int by (simp add: conversion_text_def print_conversion_def)
  next
    case x
    then show ?thesis using assms int by (simp add: conversion_text_def print_conversion_def)
  next
    case d
    then show ?thesis using assms int by (auto simp: conversion_text_def print_conversion_def)
  next
    case u
    then show ?thesis using assms int by (simp add: conversion_text_def print_conversion_def)
  next
    case other
    have two: "shown e 1 [37, peek s] o1 (put e (peek s) (put e 37 o1))"
      using shown_exact[of e 1 "[37, peek s]" o1] by simp
    show ?thesis using other assms
      by (auto simp: conversion_text_def print_conversion_def put_shown two
          simp del: One_nat_def put.simps put_all.simps split_paired_Ex split: if_splits)
  qed
qed

lemma print_directive_text:
  assumes "directive_text s args = Some (cs, s', args')"
  shows "\<exists>o2. print_directive e s args o1 = Some (o2, s', args') \<and> shown e 1 cs o1 o2"
proof -
  obtain fl s1 where 1: "flags_loop 0 s = (fl, s1)" by fastforce
  obtain w fl2 s2 a2 where 2: "field_width fl s1 args = Some (w, fl2, s2, a2)"
    using assms 1 by (auto simp: directive_text_def bind_eq_Some_conv)
  obtain p s3 a3 where 3: "get_precision s2 a2 = Some (p, s3, a3)"
    using assms 1 2 by (auto simp: directive_text_def bind_eq_Some_conv)
  obtain q s4 where 4: "(if peek s3 = chr CHR ''h'' \<or> peek s3 = chr CHR ''l'' then (peek s3, tl s3) else (0, s3)) = (q, s4)"
    by fastforce
  have "conversion_text q fl2 w p s4 a3 = Some (cs, s', args')"
    using assms 1 2 3 4 by (simp add: directive_text_def)
  then show ?thesis using print_conversion_text 1 2 3 4 by (simp add: print_directive_def)
qed

section \<open>Whole formats\<close>

lemma directive_text_shorter: "directive_text s args = Some (cs, s', args') \<Longrightarrow> length s' \<le> length s"
  using print_directive_text print_directive_shorter by meson

function format_text :: "rt_uint8 list \<Rightarrow> arg list \<Rightarrow> rt_uint8 list option" where
  "format_text [] args = Some []"
| "format_text (c # s) args =
     (if c \<noteq> chr CHR ''%'' then map_option (Cons c) (format_text s args)
      else Option.bind (directive_text s args) (\<lambda>(cs, s, args). map_option ((@) cs) (format_text s args)))"
  by pat_completeness auto
termination
  by (relation "measure (\<lambda>(s, _). length s)") (auto dest: directive_text_shorter)

lemma format_loop_text:
  "format_text fmt args = Some cs \<Longrightarrow> unat (fst o1) + length cs + length fmt < 2 ^ 32 \<Longrightarrow>
     \<exists>o2. format_loop e fmt args o1 = Some o2 \<and> shown e (length fmt) cs o1 o2"
proof (induction fmt args arbitrary: cs o1 rule: format_text.induct)
  case (1 args)
  then show ?case using shown_exact[of e 0 "[]" o1] by simp
next
  case (2 c s args)
  show ?case
  proof (cases "c = chr CHR ''%''")
    case False
    then obtain ds where ds: "format_text s args = Some ds" "cs = c # ds" using 2(3) by auto
    have c: "shown e 0 [c] o1 (put e c o1)" by (rule put_shown)
    have pos: "unat (fst (put e c o1)) \<le> unat (fst o1) + 1" unfolding put_one using 2(4) ds(2) by (subst put_all_pos) simp_all
    obtain o2 where o2: "format_loop e s args (put e c o1) = Some o2" "shown e (length s) ds (put e c o1) o2"
      using 2(1)[OF False ds(1), of "put e c o1"] 2(4) pos ds(2) by auto
    have "shown e (0 + length s) ([c] @ ds) o1 o2" by (rule shown_trans(1)[OF c o2(2)]) (use 2(4) ds(2) in simp)
    then show ?thesis using False o2(1) ds(2) by (auto intro: shown_mono)
  next
    case True
    then obtain ds s' args' es where d: "directive_text s args = Some (ds, s', args')" "format_text s' args' = Some es" "cs = ds @ es"
      using 2(3) by (auto simp: bind_eq_Some_conv)
    have l: "length s' \<le> length s" by (rule directive_text_shorter[OF d(1)])
    obtain o2 where o2: "print_directive e s args o1 = Some (o2, s', args')" "shown e 1 ds o1 o2"
      using print_directive_text[OF d(1)] by blast
    have fit: "unat (fst o1) + length ds + 1 < 2 ^ 32"
      and "unat (fst o1) + length ds + 1 + length es + length s' < 2 ^ 32" using 2(4) d(3) l by simp_all
    moreover have "unat (fst o2) \<le> unat (fst o1) + length ds + 1" by (rule shown_trans(2)[OF o2(2) shown_exact[of e 0 "[]"] fit])
    ultimately obtain o3 where o3: "format_loop e s' args' o2 = Some o3" "shown e (length s') es o2 o3"
      using 2(2)[OF _ d(1) refl refl d(2), of o2] True by auto
    have "shown e (1 + length s') (ds @ es) o1 o3" by (rule shown_trans(1)[OF o2(2) o3(2) fit])
    then show ?thesis using True o2(1) o3(1) d(3) l by (auto intro: shown_mono)
  qed
qed


lemma text_written_cut:
  assumes "take (unat sz - 1) xs = take (unat sz - 1) cs" "unat sz \<le> length xs" "unat sz \<le> length cs"
  shows "text_written buf sz xs m = text_written buf sz cs m"
proof -
  have k: "min (length xs) (unat sz - 1) = unat sz - 1" "min (length cs) (unat sz - 1) = unat sz - 1" using assms by simp_all
  have "xs ! i = cs ! i" if "i < unat sz - 1" for i using assms(1) that by (metis nth_take)
  then show ?thesis unfolding text_written_def Let_def k by (auto simp: fun_eq_iff)
qed

lemma format_written:
  assumes "format_text fmt args = Some cs" "0 < unat sz" "unat buf + unat sz \<le> 2 ^ 32"
    and fit: "unat buf + length cs + length fmt < 2 ^ 32"
  obtains n where "rt_vsnprintf buf sz fmt args m = Some (text_written buf sz cs m, n)"
    "length cs \<le> unat n" "unat n \<le> length cs + length fmt" "length cs \<le> unat sz \<Longrightarrow> unat n = length cs"
proof -
  let ?e = "limit buf sz"
  obtain str m1 where f: "format_loop ?e fmt args (buf, m) = Some (str, m1)"
      "shown ?e (length fmt) cs (buf, m) (str, m1)"
    using format_loop_text[OF assms(1), of "(buf, m)" ?e] fit by auto
  have "0 < sz" using assms(2) by (simp add: unat_gt_0 word_neq_0_conv)
  then have r: "room ?e (buf, m) = unat sz" using limit_in[OF _ assms(3)] assms(2) by (simp add: room_def)
  obtain xs where t: "put_all ?e xs (buf, m) = (str, m1)"
      "xs = cs \<or> unat sz < length cs \<and> take (unat sz) xs = take (unat sz) cs \<and>
         length cs \<le> length xs \<and> length xs \<le> length cs + length fmt"
    using f(2) r by (auto simp: shown_def)
  have l: "length cs \<le> length xs" "length xs \<le> length cs + length fmt" "unat buf + length xs < 2 ^ 32"
    using t(2) fit by auto
  have "str - buf = of_nat (length xs)" using t(1) put_all_ptr[of ?e xs buf m] by simp
  then have n: "unat (str - buf) = length xs" using l(3) by (simp add: unat_of_nat)
  have same: "text_written buf sz xs m = text_written buf sz cs m"
  proof (cases "xs = cs")
    case False
    then have "take (unat sz) xs = take (unat sz) cs" "unat sz < length cs" using t(2) by auto
    moreover from this have "take (unat sz - 1) xs = take (unat sz - 1) cs"
      by (metis diff_le_self min.absorb1 take_take)
    ultimately show ?thesis using l(1) by (intro text_written_cut) simp_all
  qed simp
  show thesis
  proof (rule that[of "str - buf"])
    show "rt_vsnprintf buf sz fmt args m = Some (text_written buf sz cs m, str - buf)"
      using closed_text[OF t(1) assms(2,3) l(3)] by (simp add: rt_vsnprintf_def f(1) same)
    show "unat (str - buf) = length cs" if "length cs \<le> unat sz" using n t(2) that by auto
  qed (use n l in simp_all)
qed

text \<open>C22. \<^verbatim>\<open>rt_vsnprintf\<close> writes the text of its format and nothing else. When the
  arguments fit the format and the text does not run around the end of the address space, the call
  returns; as much of the text as leaves room for one more byte is in the buffer with a terminator
  behind it, and every other byte of the memory is as it was. The length returned is that of the text when
  the text fits the buffer without the terminator; otherwise it is at least that and at most the length of the
  format more, because a number cut off in front of its sign is padded one column too far.\<close>

theorem snprintf_formats:
  assumes "format_text fmt args = Some cs" "0 < unat sz" "unat buf + unat sz \<le> 2 ^ 32"
    and "unat buf + length cs + length fmt < 2 ^ 32"
  shows "\<exists>m' n. rt_vsnprintf buf sz fmt args m = Some (m', n) \<and>
    (let k = min (length cs) (unat sz - 1) in
       bytes_at m' buf k = take (unat sz - 1) cs \<and> m' (buf + of_nat k) = 0 \<and>
       (\<forall>a. k < unat (a - buf) \<longrightarrow> m' a = m a)) \<and>
    length cs \<le> unat n \<and> unat n \<le> length cs + length fmt \<and> (length cs \<le> unat sz \<longrightarrow> unat n = length cs)"
proof -
  let ?m = "text_written buf sz cs m" and ?k = "min (length cs) (unat sz - 1)"
  obtain n where n: "rt_vsnprintf buf sz fmt args m = Some (?m, n)" "length cs \<le> unat n"
      "unat n \<le> length cs + length fmt" "length cs \<le> unat sz \<Longrightarrow> unat n = length cs"
    by (rule format_written[OF assms]) blast
  have "?m a = m a" if "?k < unat (a - buf)" for a using that unfolding text_written_def Let_def by auto
  then show ?thesis using n text_written_prefix[OF assms(2), of buf cs m]
    by (intro exI[of _ ?m] exI[of _ n]) (simp add: Let_def)
qed

theorem snprintf_formats_witness:
  "\<exists>m' n. rt_vsnprintf 0x1000 8 (map chr ''%05d|%-4u|%x'') [ArgWord (- 3), ArgWord 7, ArgWord 255] (\<lambda>_. 0) = Some (m', n) \<and>
     bytes_at m' 0x1000 7 = map chr ''-0003|7'' \<and> m' 0x1007 = 0 \<and> 13 \<le> unat n"
proof -
  have f: "format_text (map chr ''%05d|%-4u|%x'') [ArgWord (- 3), ArgWord 7, ArgWord 255] = Some (map chr ''-0003|7   |ff'')"
    by code_simp
  have k: "min (length (map chr ''-0003|7   |ff'')) (unat (8 :: rt_uint32) - 1) = 7"
    "take (unat (8 :: rt_uint32) - 1) (map chr ''-0003|7   |ff'') = map chr ''-0003|7''"
    "length (map chr ''-0003|7   |ff'') = 13" "0x1000 + of_nat 7 = (0x1007 :: rt_uint32)"
    by code_simp+
  show ?thesis
    using snprintf_formats[OF f, where sz = 8 and buf = "0x1000" and m = "\<lambda>_. 0", unfolded Let_def k] by force
qed

end
