(* ===== verification/Rtt_Device.thy ===== *)
theory Rtt_Device
  imports Rtt_Ipc Rtt_Clock
begin

text \<open>
  The device layer (\<^verbatim>\<open>rt-thread/src/device.c\<close>). Devices are numbered; their
  structures stand beside the kernel in the record \<open>devices\<close>, which a driver extends by its
  own state. The driver, \<^verbatim>\<open>dev->ops\<close>, is a parameter: a table of optional functions
  that may change everything. \<open>None\<close>, as elsewhere, for an assertion that fails; also when a
  driver has to wait, which this layer does not see. Messages to the console are left out.
\<close>

section \<open>Model\<close>

abbreviation (input) RT_DEVICE_FLAG_RDWR :: rt_uint16 where "RT_DEVICE_FLAG_RDWR \<equiv> 0x003"
abbreviation (input) RT_DEVICE_FLAG_REMOVABLE :: rt_uint16 where "RT_DEVICE_FLAG_REMOVABLE \<equiv> 0x004"
abbreviation (input) RT_DEVICE_FLAG_STANDALONE :: rt_uint16 where "RT_DEVICE_FLAG_STANDALONE \<equiv> 0x008"
abbreviation (input) RT_DEVICE_FLAG_ACTIVATED :: rt_uint16 where "RT_DEVICE_FLAG_ACTIVATED \<equiv> 0x010"
abbreviation (input) RT_DEVICE_OFLAG_CLOSE :: rt_uint16 where "RT_DEVICE_OFLAG_CLOSE \<equiv> 0x000"
abbreviation (input) RT_DEVICE_OFLAG_OPEN :: rt_uint16 where "RT_DEVICE_OFLAG_OPEN \<equiv> 0x008"
abbreviation (input) RT_DEVICE_OFLAG_MASK :: rt_uint16 where "RT_DEVICE_OFLAG_MASK \<equiv> 0xf0f"

text \<open>Indication functions are named by numbers.\<close>

record rt_device =
  dev_type :: nat
  dev_flag :: rt_uint16
  open_flag :: rt_uint16
  ref_count :: rt_uint8
  rx_indicate :: "nat option"
  tx_complete :: "nat option"

record devices =
  dv_kernel :: kernel
  dv_dev :: "nat \<Rightarrow> rt_device"

definition upd_dev :: "nat \<Rightarrow> (rt_device \<Rightarrow> rt_device) \<Rightarrow> 'a devices_scheme \<Rightarrow> 'a devices_scheme" where
  "upd_dev d f s = s\<lparr>dv_dev := (dv_dev s)(d := f (dv_dev s d))\<rparr>"

text \<open>\<^verbatim>\<open>struct rt_device_ops\<close> for a state \<open>'s\<close>; what \<^verbatim>\<open>read\<close> puts
  in the buffer and \<^verbatim>\<open>write\<close> takes from it are lists of bytes.\<close>

record 's device_ops =
  device_init :: "(nat \<Rightarrow> 's \<Rightarrow> ('s \<times> rt_err) option) option"
  device_open :: "(nat \<Rightarrow> rt_uint16 \<Rightarrow> 's \<Rightarrow> ('s \<times> rt_err) option) option"
  device_close :: "(nat \<Rightarrow> 's \<Rightarrow> ('s \<times> rt_err) option) option"
  device_read :: "(nat \<Rightarrow> int \<Rightarrow> rt_uint32 \<Rightarrow> 's \<Rightarrow> ('s \<times> rt_uint8 list) option) option"
  device_write :: "(nat \<Rightarrow> int \<Rightarrow> rt_uint8 list \<Rightarrow> 's \<Rightarrow> ('s \<times> rt_uint32) option) option"
  device_control :: "(nat \<Rightarrow> int \<Rightarrow> rt_uint32 \<Rightarrow> 's \<Rightarrow> ('s \<times> rt_err) option) option"

definition rt_device_find :: "cstring \<Rightarrow> 'a devices_scheme \<Rightarrow> ('a devices_scheme \<times> oref option) option" where
  "rt_device_find nm s = do {
     let k = dv_kernel s;
     let k = (if rt_thread_self k \<noteq> None then rt_enter_critical k else k);
     c \<leftarrow> rt_object_get_information (class_code RT_Object_Class_Device);
     let r = container_find c nm k;
     map_option (\<lambda>k. (s\<lparr>dv_kernel := k\<rparr>, r)) (if rt_thread_self k \<noteq> None then rt_exit_critical k else Some k)
   }"

definition rt_device_register ::
  "nat option \<Rightarrow> rt_uint8 list \<Rightarrow> rt_uint16 \<Rightarrow> 'a devices_scheme \<Rightarrow> ('a devices_scheme \<times> rt_err) option" where
  "rt_device_register dev nm flags s =
     (case dev of
        None \<Rightarrow> Some (s, - RT_ERROR)
      | Some d \<Rightarrow> do {
          (s, r) \<leftarrow> rt_device_find (cstr nm) s;
          (if r \<noteq> None then Some (s, - RT_ERROR)
           else do {
             k \<leftarrow> rt_object_init (ODevice d) (class_code RT_Object_Class_Device) nm (dv_kernel s);
             Some (upd_dev d (\<lambda>x. x\<lparr>dev_flag := flags, ref_count := 0, open_flag := 0\<rparr>) (s\<lparr>dv_kernel := k\<rparr>), RT_EOK)
           })
        })"

definition rt_device_unregister :: "nat \<Rightarrow> 'a devices_scheme \<Rightarrow> 'a devices_scheme \<times> rt_err" where
  "rt_device_unregister d s = (s\<lparr>dv_kernel := rt_object_detach (ODevice d) (dv_kernel s)\<rparr>, RT_EOK)"

text \<open>\<open>mem\<close>: the structure the heap gives.\<close>

definition rt_device_create :: "nat \<Rightarrow> nat option \<Rightarrow> 'a devices_scheme \<Rightarrow> 'a devices_scheme \<times> nat option" where
  "rt_device_create ty mem s =
     (case mem of
        None \<Rightarrow> (s, None)
      | Some d \<Rightarrow> (upd_dev d (\<lambda>_. \<lparr>dev_type = ty, dev_flag = 0, open_flag = 0, ref_count = 0,
                     rx_indicate = None, tx_complete = None\<rparr>) s, Some d))"

definition rt_device_init ::
  "(nat \<Rightarrow> ('a devices_scheme) device_ops) \<Rightarrow> nat \<Rightarrow> 'a devices_scheme \<Rightarrow> ('a devices_scheme \<times> rt_err) option" where
  "rt_device_init ops d s =
     (case device_init (ops d) of
        None \<Rightarrow> Some (s, RT_EOK)
      | Some f \<Rightarrow>
          if dev_flag (dv_dev s d) AND RT_DEVICE_FLAG_ACTIVATED = 0 then do {
            (s, result) \<leftarrow> f d s;
            (if result \<noteq> RT_EOK then Some (s, result)
             else Some (upd_dev d (\<lambda>x. x\<lparr>dev_flag := dev_flag x OR RT_DEVICE_FLAG_ACTIVATED\<rparr>) s, result))
          }
          else Some (s, RT_EOK))"

text \<open>The two halves of \<^verbatim>\<open>rt_device_open\<close>: the initialisation, with \<^verbatim>\<open>result\<close>
  and whether the function goes on, and the opening.\<close>

definition open_activate ::
  "(nat \<Rightarrow> ('a devices_scheme) device_ops) \<Rightarrow> nat \<Rightarrow> 'a devices_scheme \<Rightarrow> ('a devices_scheme \<times> rt_err) option" where
  "open_activate ops d s =
     (if dev_flag (dv_dev s d) AND RT_DEVICE_FLAG_ACTIVATED = 0 then do {
        (s, result) \<leftarrow> (case device_init (ops d) of None \<Rightarrow> Some (s, RT_EOK) | Some f \<Rightarrow> f d s);
        (if result \<noteq> RT_EOK then Some (s, result)
         else Some (upd_dev d (\<lambda>x. x\<lparr>dev_flag := dev_flag x OR RT_DEVICE_FLAG_ACTIVATED\<rparr>) s, RT_EOK))
      }
      else Some (s, RT_EOK))"

definition open_device ::
  "(nat \<Rightarrow> ('a devices_scheme) device_ops) \<Rightarrow> nat \<Rightarrow> rt_uint16 \<Rightarrow> 'a devices_scheme \<Rightarrow> ('a devices_scheme \<times> rt_err) option" where
  "open_device ops d oflag s = do {
     (s, result) \<leftarrow> (case device_open (ops d) of
          Some f \<Rightarrow> f d oflag s
        | None \<Rightarrow> Some (upd_dev d (\<lambda>x. x\<lparr>open_flag := oflag AND RT_DEVICE_OFLAG_MASK\<rparr>) s, RT_EOK));
     (if result = RT_EOK \<or> result = - RT_ENOSYS then do {
        let s = upd_dev d (\<lambda>x. x\<lparr>open_flag := open_flag x OR RT_DEVICE_OFLAG_OPEN, ref_count := ref_count x + 1\<rparr>) s;
        RT_ASSERT (ref_count (dv_dev s d) \<noteq> 0);
        Some (s, result)
      }
      else Some (s, result))
   }"

definition rt_device_open ::
  "(nat \<Rightarrow> ('a devices_scheme) device_ops) \<Rightarrow> nat \<Rightarrow> rt_uint16 \<Rightarrow> 'a devices_scheme \<Rightarrow> ('a devices_scheme \<times> rt_err) option" where
  "rt_device_open ops d oflag s = do {
     (s, result) \<leftarrow> open_activate ops d s;
     (if result \<noteq> RT_EOK then Some (s, result)
      else if dev_flag (dv_dev s d) AND RT_DEVICE_FLAG_STANDALONE \<noteq> 0 \<and>
              open_flag (dv_dev s d) AND RT_DEVICE_OFLAG_OPEN \<noteq> 0 then Some (s, - RT_EBUSY)
      else open_device ops d oflag s)
   }"

definition rt_device_close ::
  "(nat \<Rightarrow> ('a devices_scheme) device_ops) \<Rightarrow> nat \<Rightarrow> 'a devices_scheme \<Rightarrow> ('a devices_scheme \<times> rt_err) option" where
  "rt_device_close ops d s =
     (if ref_count (dv_dev s d) = 0 then Some (s, - RT_ERROR)
      else
        let s = upd_dev d (\<lambda>x. x\<lparr>ref_count := ref_count x - 1\<rparr>) s in
        if ref_count (dv_dev s d) \<noteq> 0 then Some (s, RT_EOK)
        else do {
          (s, result) \<leftarrow> (case device_close (ops d) of Some f \<Rightarrow> f d s | None \<Rightarrow> Some (s, RT_EOK));
          Some (if result = RT_EOK \<or> result = - RT_ENOSYS
                then upd_dev d (\<lambda>x. x\<lparr>open_flag := RT_DEVICE_OFLAG_CLOSE\<rparr>) s else s, result)
        })"

definition rt_device_read ::
  "(nat \<Rightarrow> ('a devices_scheme) device_ops) \<Rightarrow> nat \<Rightarrow> int \<Rightarrow> rt_uint32 \<Rightarrow> 'a devices_scheme \<Rightarrow>
     ('a devices_scheme \<times> rt_uint8 list) option" where
  "rt_device_read ops d pos sz s =
     (if ref_count (dv_dev s d) = 0 then Some (s\<lparr>dv_kernel := rt_set_errno (- RT_ERROR) (dv_kernel s)\<rparr>, [])
      else case device_read (ops d) of
        Some f \<Rightarrow> f d pos sz s
      | None \<Rightarrow> Some (s\<lparr>dv_kernel := rt_set_errno (- RT_ENOSYS) (dv_kernel s)\<rparr>, []))"

definition rt_device_write ::
  "(nat \<Rightarrow> ('a devices_scheme) device_ops) \<Rightarrow> nat \<Rightarrow> int \<Rightarrow> rt_uint8 list \<Rightarrow> 'a devices_scheme \<Rightarrow>
     ('a devices_scheme \<times> rt_uint32) option" where
  "rt_device_write ops d pos data s =
     (if ref_count (dv_dev s d) = 0 then Some (s\<lparr>dv_kernel := rt_set_errno (- RT_ERROR) (dv_kernel s)\<rparr>, 0)
      else case device_write (ops d) of
        Some f \<Rightarrow> f d pos data s
      | None \<Rightarrow> Some (s\<lparr>dv_kernel := rt_set_errno (- RT_ENOSYS) (dv_kernel s)\<rparr>, 0))"

definition rt_device_control ::
  "(nat \<Rightarrow> ('a devices_scheme) device_ops) \<Rightarrow> nat \<Rightarrow> int \<Rightarrow> rt_uint32 \<Rightarrow> 'a devices_scheme \<Rightarrow>
     ('a devices_scheme \<times> rt_err) option" where
  "rt_device_control ops d cmd arg s =
     (case device_control (ops d) of Some f \<Rightarrow> f d cmd arg s | None \<Rightarrow> Some (s, - RT_ENOSYS))"

definition rt_device_set_rx_indicate :: "nat \<Rightarrow> nat option \<Rightarrow> 'a devices_scheme \<Rightarrow> 'a devices_scheme \<times> rt_err" where
  "rt_device_set_rx_indicate d rx_ind s = (upd_dev d (\<lambda>x. x\<lparr>rx_indicate := rx_ind\<rparr>) s, RT_EOK)"

definition rt_device_set_tx_complete :: "nat \<Rightarrow> nat option \<Rightarrow> 'a devices_scheme \<Rightarrow> 'a devices_scheme \<times> rt_err" where
  "rt_device_set_tx_complete d tx_done s = (upd_dev d (\<lambda>x. x\<lparr>tx_complete := tx_done\<rparr>) s, RT_EOK)"

text \<open>The block itself goes back to the heap.\<close>

definition rt_device_destroy :: "nat \<Rightarrow> 'a devices_scheme \<Rightarrow> 'a devices_scheme" where
  "rt_device_destroy d s = fst (rt_device_unregister d s)"

declare upd_dev_def [simp]

section \<open>Opening and closing\<close>

abbreviation is_open :: "rt_device \<Rightarrow> bool" where
  "is_open x \<equiv> open_flag x AND RT_DEVICE_OFLAG_OPEN \<noteq> 0"

abbreviation is_fine :: "rt_err \<Rightarrow> bool" where
  "is_fine r \<equiv> r = RT_EOK \<or> r = - RT_ENOSYS"

text \<open>A driver is quiet when it leaves the bookkeeping of the layer alone: the reference counts, the
  open bits and the flags.\<close>

definition quiet :: "'a devices_scheme \<Rightarrow> 'a devices_scheme \<Rightarrow> bool" where
  "quiet s s' \<longleftrightarrow> (\<forall>d. ref_count (dv_dev s' d) = ref_count (dv_dev s d) \<and>
     is_open (dv_dev s' d) = is_open (dv_dev s d) \<and> dev_flag (dv_dev s' d) = dev_flag (dv_dev s d))"

lemma quiet_refl [simp, intro]: "quiet s s"
  by (simp add: quiet_def)

locale quiet_driver =
  fixes ops :: "nat \<Rightarrow> ('a devices_scheme) device_ops"
  assumes init_quiet: "device_init (ops d) = Some fi \<Longrightarrow> fi d s = Some (s', r) \<Longrightarrow> quiet s s'"
    and open_quiet: "device_open (ops d) = Some fo \<Longrightarrow> fo d oflag s = Some (s', r) \<Longrightarrow> quiet s s'"
    and close_quiet: "device_close (ops d) = Some fc \<Longrightarrow> fc d s = Some (s', r) \<Longrightarrow> quiet s s'"
    and read_quiet: "device_read (ops d) = Some fr \<Longrightarrow> fr d pos sz s = Some (s', bs) \<Longrightarrow> quiet s s'"
    and write_quiet: "device_write (ops d) = Some fw \<Longrightarrow> fw d pos data s = Some (s', n) \<Longrightarrow> quiet s s'"
    and control_quiet: "device_control (ops d) = Some fx \<Longrightarrow> fx d cmd arg s = Some (s', r) \<Longrightarrow> quiet s s'"

text \<open>Calls on one device, and how each changes the number of times it is open.\<close>

datatype dev_call = Open rt_uint16 | Close | Read int rt_uint32 | Write int "rt_uint8 list" | Control int rt_uint32

fun dev_step ::
  "(nat \<Rightarrow> ('a devices_scheme) device_ops) \<Rightarrow> nat \<Rightarrow> dev_call \<Rightarrow> 'a devices_scheme \<Rightarrow> ('a devices_scheme \<times> int) option" where
  "dev_step ops d (Open oflag) s = map_option (map_prod id (\<lambda>r. if is_fine r then 1 else 0)) (rt_device_open ops d oflag s)"
| "dev_step ops d Close s = map_option (map_prod id (\<lambda>r. if is_fine r then - 1 else 0)) (rt_device_close ops d s)"
| "dev_step ops d (Read pos sz) s = map_option (map_prod id (\<lambda>_. 0)) (rt_device_read ops d pos sz s)"
| "dev_step ops d (Write pos bs) s = map_option (map_prod id (\<lambda>_. 0)) (rt_device_write ops d pos bs s)"
| "dev_step ops d (Control cmd arg) s = map_option (map_prod id (\<lambda>_. 0)) (rt_device_control ops d cmd arg s)"

fun dev_run ::
  "(nat \<Rightarrow> ('a devices_scheme) device_ops) \<Rightarrow> nat \<Rightarrow> dev_call list \<Rightarrow> 'a devices_scheme \<Rightarrow> ('a devices_scheme \<times> int) option" where
  "dev_run ops d [] s = Some (s, 0)"
| "dev_run ops d (c # cs) s = do {
     (s, n) \<leftarrow> dev_step ops d c s;
     (s, m) \<leftarrow> dev_run ops d cs s;
     Some (s, n + m)
   }"

text \<open>The reference count is the number of times the device is open, and the open bit says whether it
  is open at all.\<close>

definition counted :: "nat \<Rightarrow> int \<Rightarrow> 'a devices_scheme \<Rightarrow> bool" where
  "counted d n s \<longleftrightarrow> uint (ref_count (dv_dev s d)) = n \<and> is_open (dv_dev s d) = (0 < n)"

lemma counted_quiet: "quiet s s' \<Longrightarrow> counted d n s \<Longrightarrow> counted d n s'"
  by (simp add: counted_def quiet_def)

lemma counted_kernel: "counted d n s \<Longrightarrow> counted d n (s\<lparr>dv_kernel := k\<rparr>)"
  by (simp add: counted_def)

lemma open_bit [simp]: "(x OR RT_DEVICE_OFLAG_OPEN) AND RT_DEVICE_OFLAG_OPEN = RT_DEVICE_OFLAG_OPEN" for x :: rt_uint16
  by (rule bit_word_eqI) (auto simp: bit_simps)

lemma uint_plus_one:
  assumes "(x :: rt_uint8) + 1 \<noteq> 0" shows "uint (x + 1) = uint x + 1"
proof -
  have "uint (x + 1) = (uint x + 1) mod 256" by (simp add: uint_word_ariths)
  moreover have "uint (x + 1) \<noteq> 0" using assms by (simp add: unsigned_eq_0_iff del: uint_word_ariths)
  moreover have "0 \<le> uint x" "uint x < 256" using uint_lt2p[of x] by simp_all
  ultimately show ?thesis by (cases "uint x = 255") simp_all
qed

lemma uint_minus_one:
  assumes "(x :: rt_uint8) \<noteq> 0" shows "uint (x - 1) = uint x - 1" "0 < uint x"
proof -
  have x: "uint x \<noteq> 0" "0 \<le> uint x" "uint x < 256" using assms uint_lt2p[of x] by (simp_all add: unsigned_eq_0_iff)
  moreover have "uint (x - 1) = (uint x - 1) mod 256" by (simp add: uint_word_ariths)
  moreover have "(uint x - 1) mod 256 = uint x - 1" by (rule mod_pos_pos_trivial) (use x in linarith)+
  ultimately show "uint (x - 1) = uint x - 1" by simp
  show "0 < uint x" using x(1,2) by linarith
qed

context quiet_driver
begin

lemma open_activate_quiet:
  assumes "open_activate ops d s = Some (s', r)"
  shows "ref_count (dv_dev s' d) = ref_count (dv_dev s d)" "is_open (dv_dev s' d) = is_open (dv_dev s d)"
  using assms init_quiet[of d _ s]
  by (auto simp: open_activate_def bind_eq_Some_conv quiet_def split: if_splits option.splits)

lemma open_counted:
  assumes "counted d n s" "rt_device_open ops d oflag s = Some (s', r)"
    and init: "\<And>f s s' r. device_init (ops d) = Some f \<Longrightarrow> f d s = Some (s', r) \<Longrightarrow> r \<noteq> - RT_ENOSYS"
  shows "counted d (n + (if is_fine r then 1 else 0)) s'"
proof -
  obtain s1 r1 where a: "open_activate ops d s = Some (s1, r1)" using assms(2) by (auto simp: rt_device_open_def bind_eq_Some_conv)
  have c1: "counted d n s1" using assms(1) open_activate_quiet(1,2)[OF a] by (simp add: counted_def)
  have e: "rt_device_open ops d oflag s = (if r1 \<noteq> RT_EOK then Some (s1, r1)
      else if dev_flag (dv_dev s1 d) AND RT_DEVICE_FLAG_STANDALONE \<noteq> 0 \<and> is_open (dv_dev s1 d) then Some (s1, - RT_EBUSY)
      else open_device ops d oflag s1)"
    by (simp add: rt_device_open_def a)
  consider (err) "r1 \<noteq> RT_EOK" "s' = s1" "r = r1"
    | (busy) "s' = s1" "r = - RT_EBUSY" | (op) "open_device ops d oflag s1 = Some (s', r)"
    using assms(2)[unfolded e] by (metis option.inject prod.inject)
  then show ?thesis
  proof cases
    case err
    then have "r \<noteq> - RT_ENOSYS" using a init[of _ s] by (auto simp: open_activate_def bind_eq_Some_conv split: if_splits option.splits)
    then show ?thesis using c1 err by simp
  next
    case busy
    then show ?thesis using c1 by simp
  next
    case op
    obtain s2 r2 where o2: "(case device_open (ops d) of Some f \<Rightarrow> f d oflag s1
        | None \<Rightarrow> Some (upd_dev d (\<lambda>x. x\<lparr>open_flag := oflag AND RT_DEVICE_OFLAG_MASK\<rparr>) s1, RT_EOK)) = Some (s2, r2)"
      using op unfolding open_device_def by (auto simp only: bind_eq_Some_conv prod.case)
    have u: "uint (ref_count (dv_dev s2 d)) = n"
      using o2 c1 open_quiet[of d _ oflag s1] by (auto simp: counted_def quiet_def split: option.splits)
    show ?thesis
    proof (cases "is_fine r2")
      case True
      then have "ref_count (dv_dev s2 d) + 1 \<noteq> 0" "r = r2"
          "s' = upd_dev d (\<lambda>x. x\<lparr>open_flag := open_flag x OR RT_DEVICE_OFLAG_OPEN, ref_count := ref_count x + 1\<rparr>) s2"
        using op o2 by (simp_all add: open_device_def)
      moreover have "0 \<le> n" using u uint_ge_0[of "ref_count (dv_dev s2 d)"] by linarith
      ultimately show ?thesis using u True uint_plus_one[of "ref_count (dv_dev s2 d)"] by (simp add: counted_def)
    next
      case False
      then have "s' = s2" "r = r2" "device_open (ops d) \<noteq> None" using op o2 by (auto simp: open_device_def split: option.splits)
      then show ?thesis using False o2 counted_quiet[OF open_quiet c1] by (auto split: option.splits)
    qed
  qed
qed

lemma close_counted:
  assumes "counted d n s" "rt_device_close ops d s = Some (s', r)"
    and fine: "\<And>f s s' r. device_close (ops d) = Some f \<Longrightarrow> f d s = Some (s', r) \<Longrightarrow> is_fine r"
  shows "counted d (n + (if is_fine r then - 1 else 0)) s'"
proof (cases "ref_count (dv_dev s d) = 0")
  case True
  then show ?thesis using assms(1,2) by (simp add: rt_device_close_def)
next
  case False
  let ?s1 = "upd_dev d (\<lambda>x. x\<lparr>ref_count := ref_count x - 1\<rparr>) s"
  have u: "uint (ref_count (dv_dev ?s1 d)) = n - 1" "0 < n"
    using assms(1) uint_minus_one[OF False] by (simp_all add: counted_def)
  show ?thesis
  proof (cases "ref_count (dv_dev ?s1 d) = 0")
    case False
    have "s' = ?s1" "r = RT_EOK" using assms(2) False \<open>ref_count (dv_dev s d) \<noteq> 0\<close> by (simp_all add: rt_device_close_def)
    moreover have "0 < n - 1" using uint_minus_one(2)[OF False] u by simp
    ultimately show ?thesis using u assms(1) by (simp add: counted_def)
  next
    case True
    obtain s2 where s2: "(case device_close (ops d) of Some f \<Rightarrow> f d ?s1 | None \<Rightarrow> Some (?s1, RT_EOK)) = Some (s2, r)"
        "s' = (if is_fine r then upd_dev d (\<lambda>x. x\<lparr>open_flag := RT_DEVICE_OFLAG_CLOSE\<rparr>) s2 else s2)"
      using assms(2) True \<open>ref_count (dv_dev s d) \<noteq> 0\<close>
      by (auto simp: rt_device_close_def Let_def bind_eq_Some_conv simp del: upd_dev_def)
    have "is_fine r" "quiet ?s1 s2" using s2(1) fine close_quiet[of d _ ?s1] by (auto split: option.splits)
    then show ?thesis using u True s2(2) by (simp add: counted_def quiet_def)
  qed
qed

lemma step_counted:
  assumes "counted d n s" "dev_step ops d c s = Some (s', m)"
    and fine: "\<And>f s s' r. device_close (ops d) = Some f \<Longrightarrow> f d s = Some (s', r) \<Longrightarrow> is_fine r"
    and init: "\<And>f s s' r. device_init (ops d) = Some f \<Longrightarrow> f d s = Some (s', r) \<Longrightarrow> r \<noteq> - RT_ENOSYS"
  shows "counted d (n + m) s'"
proof (cases c)
  case (Open oflag)
  then show ?thesis using assms(2) open_counted[OF assms(1) _ init] by (auto simp del: upd_dev_def)
next
  case Close
  then show ?thesis using assms(2) close_counted[OF assms(1) _ fine] by auto
next
  case (Read pos sz)
  then have "counted d n s' \<and> m = 0"
    using assms(2) counted_kernel[OF assms(1)] counted_quiet[OF read_quiet assms(1)]
    by (auto simp: rt_device_read_def split: if_splits option.splits)
  then show ?thesis by simp
next
  case (Write pos bs)
  then have "counted d n s' \<and> m = 0"
    using assms(2) counted_kernel[OF assms(1)] counted_quiet[OF write_quiet assms(1)]
    by (auto simp: rt_device_write_def split: if_splits option.splits)
  then show ?thesis by simp
next
  case (Control cmd arg)
  then have "counted d n s' \<and> m = 0"
    using assms(1,2) counted_quiet[OF control_quiet assms(1)]
    by (auto simp: rt_device_control_def split: option.splits)
  then show ?thesis by simp
qed

lemma run_counted:
  assumes "counted d n s" "dev_run ops d cs s = Some (s', m)"
    and fine: "\<And>f s s' r. device_close (ops d) = Some f \<Longrightarrow> f d s = Some (s', r) \<Longrightarrow> is_fine r"
    and init: "\<And>f s s' r. device_init (ops d) = Some f \<Longrightarrow> f d s = Some (s', r) \<Longrightarrow> r \<noteq> - RT_ENOSYS"
  shows "counted d (n + m) s'"
  using assms(1,2)
proof (induction cs arbitrary: s n m)
  case (Cons c cs)
  obtain s1 n1 m1 where r: "dev_step ops d c s = Some (s1, n1)" "dev_run ops d cs s1 = Some (s', m1)" "m = n1 + m1"
    using Cons.prems(2) by (auto simp: bind_eq_Some_conv)
  show ?case using Cons.IH[OF step_counted[OF Cons.prems(1) r(1) fine init] r(2)] r(3) by (simp add: add.assoc)
qed simp

end

section \<open>Properties\<close>

text \<open>C31. However a device is used, its reference count is the number of opens less the number of
  closes that succeeded, and it is marked open exactly when that is not zero; for quiet drivers
  whose initialisation does not fail with the code for a missing function and whose closing succeeds.\<close>

theorem device_counted:
  assumes "quiet_driver ops" "ref_count (dv_dev s d) = 0" "open_flag (dv_dev s d) = 0"
    and "\<And>f s s' r. device_init (ops d) = Some f \<Longrightarrow> f d s = Some (s', r) \<Longrightarrow> r \<noteq> - RT_ENOSYS"
    and "\<And>f s s' r. device_close (ops d) = Some f \<Longrightarrow> f d s = Some (s', r) \<Longrightarrow> is_fine r"
    and "dev_run ops d cs s = Some (s', n)"
  shows "uint (ref_count (dv_dev s' d)) = n \<and> is_open (dv_dev s' d) = (0 < n)"
  using quiet_driver.run_counted[OF assms(1), of d 0 s cs s' n] assms(2-6) by (fastforce simp: counted_def)

definition no_driver :: "nat \<Rightarrow> devices device_ops" where
  "no_driver d = \<lparr>device_init = None, device_open = None, device_close = None, device_read = None,
     device_write = None, device_control = None\<rparr>"

definition devices_zero :: devices where
  "devices_zero = \<lparr>dv_kernel = kernel_zero, dv_dev = (\<lambda>_. \<lparr>dev_type = 0, dev_flag = 0, open_flag = 0,
     ref_count = 0, rx_indicate = None, tx_complete = None\<rparr>)\<rparr>"

lemma no_driver_quiet: "quiet_driver no_driver"
  by unfold_locales (simp_all add: no_driver_def)

theorem device_counted_witness:
  "\<exists>s'. dev_run no_driver 0 [Open 3, Close, Close, Open 1, Open 3] devices_zero = Some (s', 2) \<and>
     uint (ref_count (dv_dev s' 0)) = 2 \<and> is_open (dv_dev s' 0)"
proof -
  obtain s' where s': "dev_run no_driver 0 [Open 3, Close, Close, Open 1, Open 3] devices_zero = Some (s', 2)"
    by (simp add: rt_device_open_def open_activate_def open_device_def rt_device_close_def no_driver_def devices_zero_def)
  have "uint (ref_count (dv_dev s' 0)) = 2 \<and> is_open (dv_dev s' 0) = ((0 :: int) < 2)"
    by (rule device_counted[OF no_driver_quiet _ _ _ _ s']) (simp_all add: no_driver_def devices_zero_def)
  then show ?thesis using s' by (intro exI[of _ s'] conjI) (simp_all del: dev_run.simps)
qed

text \<open>C32. When closing fails, the count is gone but the device stays marked open: a stand-alone device can
  then neither be opened nor closed any more.\<close>

theorem device_stuck:
  assumes "quiet_driver ops" "ref_count (dv_dev s d) = 1" "is_open (dv_dev s d)"
    and "dev_flag (dv_dev s d) AND RT_DEVICE_FLAG_ACTIVATED \<noteq> 0" "dev_flag (dv_dev s d) AND RT_DEVICE_FLAG_STANDALONE \<noteq> 0"
    and "rt_device_close ops d s = Some (s', r)" "\<not> is_fine r"
  shows "rt_device_open ops d oflag s' = Some (s', - RT_EBUSY) \<and> rt_device_close ops d s' = Some (s', - RT_ERROR)"
proof -
  let ?s1 = "upd_dev d (\<lambda>x. x\<lparr>ref_count := ref_count x - 1\<rparr>) s"
  obtain f where f: "device_close (ops d) = Some f" "f d ?s1 = Some (s', r)"
    using assms(2,6,7)
    by (cases "device_close (ops d)") (auto simp: rt_device_close_def Let_def bind_eq_Some_conv split: if_splits)
  have "quiet ?s1 s'" by (rule quiet_driver.close_quiet[OF assms(1) f])
  then have "ref_count (dv_dev s' d) = 0" "is_open (dv_dev s' d)" "dev_flag (dv_dev s' d) = dev_flag (dv_dev s d)"
    using assms(2,3) by (simp_all add: quiet_def)
  then show ?thesis using assms(4,5) by (simp add: rt_device_open_def open_activate_def rt_device_close_def)
qed

definition bad_close :: "nat \<Rightarrow> devices device_ops" where
  "bad_close d = (no_driver d)\<lparr>device_close := Some (\<lambda>d s. Some (s, - RT_ERROR))\<rparr>"

lemma bad_close_quiet: "quiet_driver bad_close"
  by unfold_locales (auto simp: no_driver_def bad_close_def)

theorem device_stuck_witness:
  "\<exists>s s' r. rt_device_open bad_close 0 3 (upd_dev 0 (\<lambda>x. x\<lparr>dev_flag := RT_DEVICE_FLAG_STANDALONE\<rparr>) devices_zero) = Some (s, RT_EOK) \<and>
     rt_device_close bad_close 0 s = Some (s', r) \<and> rt_device_open bad_close 0 3 s' = Some (s', - RT_EBUSY) \<and>
     rt_device_close bad_close 0 s' = Some (s', - RT_ERROR)"
proof -
  obtain s where s: "rt_device_open bad_close 0 3 (upd_dev 0 (\<lambda>x. x\<lparr>dev_flag := RT_DEVICE_FLAG_STANDALONE\<rparr>) devices_zero) = Some (s, RT_EOK)"
      "ref_count (dv_dev s 0) = 1" "is_open (dv_dev s 0)" "dev_flag (dv_dev s 0) = 0x18"
    by (simp add: rt_device_open_def open_activate_def open_device_def bad_close_def no_driver_def devices_zero_def)
  obtain s' where c: "rt_device_close bad_close 0 s = Some (s', - RT_ERROR)"
    using s(2) by (simp add: rt_device_close_def bad_close_def no_driver_def)
  show ?thesis using device_stuck[OF bad_close_quiet s(2,3) _ _ c, of 3] s(1,4) c by auto
qed

end
