(* ===== verification/Rtt_Locked.thy ===== *)
theory Rtt_Locked
  imports Rtt_Mutex
begin

text \<open>
  Sections between taking a mutex forever and releasing it, where the running thread can have the
  mutex at once: it is free and nobody waits for it, or the thread holds it already.
\<close>

definition lock_free :: "nat \<Rightarrow> kernel \<Rightarrow> bool" where
  "lock_free i k \<longleftrightarrow> rt_interrupt_nest k = 0 \<and> rt_current_thread k \<noteq> None \<and> mx_value (k_mutex k i) = 1 \<and>
     owner (k_mutex k i) = None \<and> hold (k_mutex k i) = 0 \<and> tlist_of k (mutex_queue i) = []"

definition lock_mine :: "nat \<Rightarrow> kernel \<Rightarrow> bool" where
  "lock_mine i k \<longleftrightarrow> rt_interrupt_nest k = 0 \<and> rt_current_thread k \<noteq> None \<and>
     owner (k_mutex k i) = rt_current_thread k \<and> hold (k_mutex k i) \<noteq> 0 \<and> hold (k_mutex k i) + 1 \<noteq> 0"

definition can_lock :: "nat \<Rightarrow> kernel \<Rightarrow> bool" where
  "can_lock i k \<longleftrightarrow> lock_free i k \<or> lock_mine i k"

text \<open>Inside such a section.\<close>

definition lock_held :: "nat \<Rightarrow> kernel \<Rightarrow> bool" where
  "lock_held i k \<longleftrightarrow> rt_interrupt_nest k = 0 \<and>
     (\<exists>t. rt_current_thread k = Some t \<and> owner (k_mutex k i) = Some t \<and>
        (hold (k_mutex k i) = 1 \<and> mx_value (k_mutex k i) = 0 \<and> tlist_of k (mutex_queue i) = [] \<and>
           original_priority (k_mutex k i) = current_priority (k_thread k t) \<or>
         hold (k_mutex k i) \<noteq> 0 \<and> hold (k_mutex k i) - 1 \<noteq> 0))"

text \<open>A mutex that can be had is taken and given back without a switch; it leaves a trace only in the
  error of the running thread.\<close>

lemma lock_take:
  assumes "can_lock i k"
  obtains k' where "rt_mutex_take i (- 1) k = Some (k', Done RT_EOK)" "lock_held i k'"
proof (cases "lock_free i k")
  case True
  then obtain t where f: "rt_interrupt_nest k = 0" "rt_current_thread k = Some t" "mx_value (k_mutex k i) = 1"
      "owner (k_mutex k i) = None" "hold (k_mutex k i) = 0" "tlist_of k (mutex_queue i) = []"
    by (auto simp: lock_free_def)
  let ?k = "upd_mutex i (\<lambda>m. acquire t (current_priority (k_thread k t)) (m\<lparr>mx_value := mx_value m - 1\<rparr>)) (set_error t RT_EOK k)"
  have "rt_mutex_take i (- 1) k = Some (?k, Done RT_EOK)"
    using f by (simp add: rt_mutex_take_def mutex_try_def in_thread_context_def rt_thread_self_def)
  moreover have "lock_held i ?k" using f by (simp add: lock_held_def acquire_def)
  ultimately show ?thesis by (rule that)
next
  case False
  then obtain t where f: "rt_interrupt_nest k = 0" "rt_current_thread k = Some t" "owner (k_mutex k i) = Some t"
      "hold (k_mutex k i) \<noteq> 0" "hold (k_mutex k i) + 1 \<noteq> 0"
    using assms by (auto simp: can_lock_def lock_mine_def)
  let ?k = "upd_mutex i (\<lambda>m. m\<lparr>hold := hold m + 1\<rparr>) (set_error t RT_EOK k)"
  have "rt_mutex_take i (- 1) k = Some (?k, Done RT_EOK)"
    using f by (simp add: rt_mutex_take_def in_thread_context_def rt_thread_self_def)
  moreover have "lock_held i ?k" using f by (simp add: lock_held_def)
  ultimately show ?thesis by (rule that)
qed

lemma lock_release:
  assumes "lock_held i k"
  obtains k' where "rt_mutex_release i k = Some (k', RT_EOK)" "can_lock i k'" "hold (k_mutex k i) = 1 \<Longrightarrow> lock_free i k'"
proof -
  obtain t where f: "rt_interrupt_nest k = 0" "rt_current_thread k = Some t" "owner (k_mutex k i) = Some t"
      "hold (k_mutex k i) = 1 \<and> mx_value (k_mutex k i) = 0 \<and> tlist_of k (mutex_queue i) = [] \<and>
        original_priority (k_mutex k i) = current_priority (k_thread k t) \<or>
       hold (k_mutex k i) \<noteq> 0 \<and> hold (k_mutex k i) - 1 \<noteq> 0"
    using assms by (auto simp: lock_held_def)
  let ?k = "upd_mutex i (\<lambda>m. m\<lparr>hold := hold m - 1\<rparr>) k"
  show ?thesis
  proof (cases "hold (k_mutex k i) = 1")
    case True
    let ?k1 = "upd_mutex i (\<lambda>m. m\<lparr>mx_value := mx_value m + 1, owner := None, original_priority := 0xff\<rparr>) ?k"
    have "rt_mutex_release i k = Some (?k1, RT_EOK)"
      using f True by (simp add: rt_mutex_release_def in_thread_context_def rt_thread_self_def restore_priority_def)
    moreover have "lock_free i ?k1" using f True by (simp add: lock_free_def)
    ultimately show ?thesis using that[of ?k1] unfolding can_lock_def by blast
  next
    case False
    have "rt_mutex_release i k = Some (?k, RT_EOK)"
      using f False by (simp add: rt_mutex_release_def in_thread_context_def rt_thread_self_def)
    moreover have "can_lock i ?k" using f False by (simp add: can_lock_def lock_mine_def)
    ultimately show ?thesis using that[of ?k] False by simp
  qed
qed

lemma lock_held_can: "lock_held i k \<Longrightarrow> hold (k_mutex k i) + 1 \<noteq> 0 \<Longrightarrow> can_lock i k"
  by (auto simp: lock_held_def can_lock_def lock_mine_def)

lemma lock_held_set_error [simp]: "lock_held i (set_error t e k) = lock_held i k"
  by (auto simp: lock_held_def)

lemma can_lock_set_error [simp]: "can_lock i (set_error t e k) = can_lock i k"
  by (auto simp: can_lock_def lock_free_def lock_mine_def)

lemma lock_set_errno [simp]:
  "lock_held i (rt_set_errno e k) = lock_held i k" "can_lock i (rt_set_errno e k) = can_lock i k"
  by (auto simp: rt_set_errno_def lock_held_def can_lock_def lock_free_def lock_mine_def split: option.splits)

text \<open>The whole round of a free mutex.\<close>

lemma lock_round:
  assumes "lock_free i k"
  obtains k1 k2 where "rt_mutex_take i (- 1) k = Some (k1, Done RT_EOK)" "rt_mutex_release i k1 = Some (k2, RT_EOK)" "lock_free i k2"
proof -
  obtain k1 where k1: "rt_mutex_take i (- 1) k = Some (k1, Done RT_EOK)" "lock_held i k1"
    using lock_take[of i k] assms by (auto simp: can_lock_def)
  have "hold (k_mutex k1 i) = 1"
    using k1(1) assms by (auto simp: rt_mutex_take_def mutex_try_def acquire_def lock_free_def Let_def split: if_splits)
  then show ?thesis using lock_release[OF k1(2)] that k1(1) by metis
qed

end
