(* ===== verification/Rtt_Pipe.thy ===== *)
theory Rtt_Pipe
  imports Rtt_Device Rtt_Locked Rtt_Ringbuffer
begin

text \<open>
  Pipes as devices (\<^verbatim>\<open>rt-thread/components/drivers/src/pipe.c\<close>): a ring buffer behind
  a mutex, and the driver functions of the device layer; the POSIX functions of the same file belong
  to the file system and are left out. \<open>None\<close> also when the mutex is held by another thread:
  the caller waits then, which \<open>Rtt_Mutex\<close> has. \<open>heap\<close> gives the blocks
  of the ring buffers.
\<close>

section \<open>Model\<close>

abbreviation (input) RT_Device_Class_Pipe :: nat where "RT_Device_Class_Pipe \<equiv> 16"
abbreviation (input) ENODEV :: rt_err where "ENODEV \<equiv> 19"

record rt_pipe_device =
  fifo :: "rt_ringbuffer option"
  bufsz :: rt_uint16
  lock :: nat

record pipes = devices +
  pp_pipe :: "nat \<Rightarrow> rt_pipe_device"

definition upd_fifo :: "nat \<Rightarrow> rt_ringbuffer option \<Rightarrow> pipes \<Rightarrow> pipes" where
  "upd_fifo d rb s = s\<lparr>pp_pipe := (pp_pipe s)(d := (pp_pipe s d)\<lparr>fifo := rb\<rparr>)\<rparr>"

text \<open>A section between \<^verbatim>\<open>rt_mutex_take\<close> with \<^verbatim>\<open>RT_WAITING_FOREVER\<close> and
  \<^verbatim>\<open>rt_mutex_release\<close>; their results are not looked at.\<close>

definition pipe_locked :: "nat \<Rightarrow> (pipes \<Rightarrow> (pipes \<times> 'r) option) \<Rightarrow> pipes \<Rightarrow> (pipes \<times> 'r) option" where
  "pipe_locked d body s = do {
     (k, r) \<leftarrow> rt_mutex_take (lock (pp_pipe s d)) (- 1) (dv_kernel s);
     RT_ASSERT (r \<noteq> Wait);
     (s, x) \<leftarrow> body (s\<lparr>dv_kernel := k\<rparr>);
     (k, _) \<leftarrow> rt_mutex_release (lock (pp_pipe s d)) (dv_kernel s);
     Some (s\<lparr>dv_kernel := k\<rparr>, x)
   }"

definition rt_pipe_open :: "(rt_uint16 \<Rightarrow> rt_uint8 list) \<Rightarrow> nat \<Rightarrow> rt_uint16 \<Rightarrow> pipes \<Rightarrow> (pipes \<times> rt_err) option" where
  "rt_pipe_open heap d oflag = pipe_locked d (\<lambda>s.
     if fifo (pp_pipe s d) = None
     then map_option (\<lambda>rb. (upd_fifo d (Some rb) s, RT_EOK)) (rt_ringbuffer_create heap (bufsz (pp_pipe s d)))
     else Some (s, RT_EOK))"

text \<open>\<^verbatim>\<open>rt_ringbuffer_destroy\<close> asserts that there is a buffer, and frees it.\<close>

definition rt_pipe_close :: "nat \<Rightarrow> pipes \<Rightarrow> (pipes \<times> rt_err) option" where
  "rt_pipe_close d = pipe_locked d (\<lambda>s.
     if ref_count (dv_dev s d) = 1
     then (case fifo (pp_pipe s d) of None \<Rightarrow> None | Some _ \<Rightarrow> Some (upd_fifo d None s, RT_EOK))
     else Some (s, RT_EOK))"

text \<open>The loops; \<open>left\<close> is \<^verbatim>\<open>count - read_bytes\<close>, \<open>data\<close> what is still to be
  written. The ring buffer takes lengths of 16 bits.\<close>

partial_function (option) pipe_read_loop :: "rt_uint32 \<Rightarrow> rt_ringbuffer \<Rightarrow> (rt_ringbuffer \<times> rt_uint8 list) option" where
  "pipe_read_loop left rb =
     (if left = 0 then Some (rb, [])
      else case rt_ringbuffer_get (ucast left) rb of (rb, bs) \<Rightarrow>
        if bs = [] then Some (rb, [])
        else Option.bind (pipe_read_loop (left - of_nat (length bs)) rb) (\<lambda>(rb, cs). Some (rb, bs @ cs)))"

partial_function (option) pipe_write_loop :: "rt_uint8 list \<Rightarrow> rt_ringbuffer \<Rightarrow> (rt_ringbuffer \<times> rt_uint32) option" where
  "pipe_write_loop data rb =
     (if data = [] then Some (rb, 0)
      else case rt_ringbuffer_put data (of_nat (length data)) rb of (rb, len) \<Rightarrow>
        if sint len \<le> 0 then Some (rb, 0)
        else Option.bind (pipe_write_loop (drop (unat len) data) rb) (\<lambda>(rb, n). Some (rb, len + n)))"

definition rt_pipe_read :: "nat \<Rightarrow> int \<Rightarrow> rt_uint32 \<Rightarrow> pipes \<Rightarrow> (pipes \<times> rt_uint8 list) option" where
  "rt_pipe_read d pos count s =
     (if count = 0 then Some (s, [])
      else pipe_locked d (\<lambda>s. do {
        rb \<leftarrow> fifo (pp_pipe s d);
        (rb, bs) \<leftarrow> pipe_read_loop count rb;
        Some (upd_fifo d (Some rb) s, bs)
      }) s)"

definition rt_pipe_write :: "nat \<Rightarrow> int \<Rightarrow> rt_uint8 list \<Rightarrow> pipes \<Rightarrow> (pipes \<times> rt_uint32) option" where
  "rt_pipe_write d pos data s =
     (if data = [] then Some (s, 0)
      else pipe_locked d (\<lambda>s. do {
        rb \<leftarrow> fifo (pp_pipe s d);
        (rb, n) \<leftarrow> pipe_write_loop data rb;
        Some (upd_fifo d (Some rb) s, n)
      }) s)"

definition rt_pipe_control :: "nat \<Rightarrow> int \<Rightarrow> rt_uint32 \<Rightarrow> pipes \<Rightarrow> (pipes \<times> rt_err) option" where
  "rt_pipe_control d cmd arg s = Some (s, RT_EOK)"

definition pipe_ops :: "(rt_uint16 \<Rightarrow> rt_uint8 list) \<Rightarrow> nat \<Rightarrow> pipes device_ops" where
  "pipe_ops heap d = \<lparr>device_init = None, device_open = Some (rt_pipe_open heap), device_close = Some rt_pipe_close,
     device_read = Some rt_pipe_read, device_write = Some rt_pipe_write, device_control = Some rt_pipe_control\<rparr>"

text \<open>\<open>mem\<close>: the structure the heap gives, with its mutex.\<close>

definition rt_pipe_create :: "rt_uint8 list \<Rightarrow> int \<Rightarrow> (nat \<times> nat) option \<Rightarrow> pipes \<Rightarrow> (pipes \<times> nat option) option" where
  "rt_pipe_create nm sz mem s =
     (case mem of
        None \<Rightarrow> Some (s, None)
      | Some (d, l) \<Rightarrow> do {
          (k, _) \<leftarrow> rt_mutex_init l nm RT_IPC_FLAG_FIFO (dv_kernel s);
          RT_ASSERT (sz < 0xFFFF);
          let s = s\<lparr>dv_kernel := k, pp_pipe := (pp_pipe s)(d := \<lparr>fifo = None, bufsz = of_int sz, lock = l\<rparr>)\<rparr>;
          let s = fst (rt_device_create RT_Device_Class_Pipe (Some d) s);
          (s, r) \<leftarrow> rt_device_register (Some d) nm (RT_DEVICE_FLAG_RDWR OR RT_DEVICE_FLAG_REMOVABLE) s;
          Some (s, if r \<noteq> 0 then None else Some d)
        })"

definition rt_pipe_delete :: "cstring \<Rightarrow> pipes \<Rightarrow> (pipes \<times> rt_err) option" where
  "rt_pipe_delete nm s = do {
     (s, device) \<leftarrow> rt_device_find nm s;
     (case device of
        Some (ODevice d) \<Rightarrow>
          if dev_type (dv_dev s d) = RT_Device_Class_Pipe then
            if ref_count (dv_dev s d) \<noteq> 0 then Some (s, - RT_EBUSY)
            else do {
              (k, _) \<leftarrow> rt_mutex_detach (lock (pp_pipe s d)) (dv_kernel s);
              let s = fst (rt_device_unregister d (s\<lparr>dv_kernel := k\<rparr>));
              Some (upd_fifo d None s, 0)
            }
          else Some (s, - ENODEV)
      | _ \<Rightarrow> Some (s, - ENODEV))
   }"

declare upd_fifo_def [simp]

section \<open>The driver is quiet\<close>

lemma pipe_locked_keeps:
  assumes "pipe_locked d body s = Some (s', x)"
    and "\<And>k s1. body (s\<lparr>dv_kernel := k\<rparr>) = Some (s1, x) \<Longrightarrow> P (dv_dev s1) (pp_pipe s1)"
  shows "P (dv_dev s') (pp_pipe s')"
  using assms by (auto simp: pipe_locked_def bind_eq_Some_conv)

lemma pipe_driver_dev:
  "rt_pipe_open heap d oflag s = Some (s', r) \<Longrightarrow> dv_dev s' = dv_dev s"
  "rt_pipe_close d s = Some (s', r) \<Longrightarrow> dv_dev s' = dv_dev s"
  "rt_pipe_read d pos count s = Some (s', bs) \<Longrightarrow> dv_dev s' = dv_dev s"
  "rt_pipe_write d pos data s = Some (s', n) \<Longrightarrow> dv_dev s' = dv_dev s"
  "rt_pipe_control d cmd arg s = Some (s', r) \<Longrightarrow> dv_dev s' = dv_dev s"
  by (auto simp: rt_pipe_open_def rt_pipe_close_def rt_pipe_read_def rt_pipe_write_def rt_pipe_control_def
      bind_eq_Some_conv split: if_splits option.splits elim!: pipe_locked_keeps[where P = "\<lambda>x _. x = _"])

interpretation pipe: quiet_driver "pipe_ops heap" for heap
  by unfold_locales (auto simp: pipe_ops_def quiet_def pipe_driver_dev)

section \<open>Reading and writing\<close>

lemma unat_ucast16: "unat w < 2 ^ 16 \<Longrightarrow> unat (ucast (w :: 32 word) :: 16 word) = unat w"
  by (simp add: unsigned_ucast_eq take_bit_eq_mod)

lemma sint_small32: "n < 2 ^ 31 \<Longrightarrow> sint (of_nat n :: rt_uint32) = int n"
  by (simp add: signed_of_nat signed_take_bit_int_eq_self)

lemma read_loop_empty:
  assumes "rb_inv rb" "rb_contents rb = []"
  shows "\<exists>rb'. pipe_read_loop left rb = Some (rb', []) \<and> rb_inv rb' \<and> rb_n rb' = rb_n rb \<and> rb_contents rb' = []"
  using get_spec[OF assms(1), of "ucast left"] assms by (subst pipe_read_loop.simps) auto

lemma read_loop_spec:
  assumes inv: "rb_inv rb" and small: "unat count < 2 ^ 16"
  shows "\<exists>rb'. pipe_read_loop count rb = Some (rb', take (unat count) (rb_contents rb)) \<and> rb_inv rb' \<and>
    rb_n rb' = rb_n rb \<and> rb_contents rb' = drop (unat count) (rb_contents rb)"
proof -
  let ?c = "ucast count :: rt_uint16" and ?bs = "take (unat count) (rb_contents rb)"
  have c: "unat ?c = unat count" by (rule unat_ucast16[OF small])
  obtain rb1 where g: "rt_ringbuffer_get ?c rb = (rb1, ?bs)" "rb_inv rb1"
      "rb_n rb1 = rb_n rb" "rb_contents rb1 = drop (unat count) (rb_contents rb)"
    using get_spec[OF inv, of ?c] unfolding c by blast
  show ?thesis
  proof (cases "count = 0 \<or> rb_contents rb = []")
    case True
    then show ?thesis using read_loop_empty[OF inv] inv by (auto simp: pipe_read_loop.simps[of 0])
  next
    case False
    let ?left = "count - of_nat (length ?bs)"
    have bs: "?bs \<noteq> []" using False by (simp add: unat_eq_0)
    have "\<exists>rb'. pipe_read_loop ?left rb1 = Some (rb', []) \<and> rb_inv rb' \<and> rb_n rb' = rb_n rb1 \<and> rb_contents rb' = rb_contents rb1"
    proof (cases "unat count \<le> length (rb_contents rb)")
      case True
      then have "?left = 0" by (simp add: min_def)
      then show ?thesis using g(2) by (simp add: pipe_read_loop.simps)
    next
      case F: False
      then have e: "rb_contents rb1 = []" using g(4) by simp
      show ?thesis using read_loop_empty[OF g(2) e] e by auto
    qed
    then obtain rb' where "pipe_read_loop ?left rb1 = Some (rb', [])" "rb_inv rb'" "rb_n rb' = rb_n rb1"
        "rb_contents rb' = rb_contents rb1" by blast
    moreover have "pipe_read_loop count rb = Option.bind (pipe_read_loop ?left rb1) (\<lambda>(rb, cs). Some (rb, ?bs @ cs))"
      using False bs g(1) by (subst pipe_read_loop.simps) simp
    ultimately show ?thesis using g by simp
  qed
qed

lemma write_loop_spec:
  assumes inv: "rb_inv rb" and small: "length data < 2 ^ 15"
  defines "n \<equiv> min (length data) (rb_n rb - length (rb_contents rb))"
  shows "\<exists>rb'. pipe_write_loop data rb = Some (rb', of_nat n) \<and> rb_inv rb' \<and> rb_n rb' = rb_n rb \<and>
    rb_contents rb' = rb_contents rb @ take n data"
proof -
  have l: "unat (of_nat (length data) :: rt_uint16) = length data" using small by (simp add: unat_of_nat)
  obtain rb1 where p: "rt_ringbuffer_put data (of_nat (length data)) rb = (rb1, of_nat n)" "rb_inv rb1" "rb_n rb1 = rb_n rb"
      "rb_contents rb1 = rb_contents rb @ take n data"
    using put_spec[OF inv, of "of_nat (length data)" data] unfolding l n_def by auto
  have n: "sint (of_nat n :: rt_uint32) = int n" "unat (of_nat n :: rt_uint32) = n"
    using small by (simp_all add: n_def unat_of_nat sint_small32)
  show ?thesis
  proof (cases "n = 0")
    case True
    show ?thesis
    proof (cases "data = []")
      case True
      then show ?thesis using inv by (simp add: pipe_write_loop.simps n_def)
    next
      case False
      have "rt_ringbuffer_put data (of_nat (length data)) rb = (rb1, 0)" using p(1) unfolding \<open>n = 0\<close> by simp
      with False have "pipe_write_loop data rb = Some (rb1, 0)" by (subst pipe_write_loop.simps) simp
      then show ?thesis using p(2-4) \<open>n = 0\<close> by simp
    qed
  next
    case False
    let ?rest = "drop n data"
    have dne: "data \<noteq> []" using False by (auto simp: n_def)
    have "\<exists>rb'. pipe_write_loop ?rest rb1 = Some (rb', 0) \<and> rb_inv rb' \<and> rb_n rb' = rb_n rb1 \<and> rb_contents rb' = rb_contents rb1"
    proof (cases "?rest = []")
      case True
      then show ?thesis using p(2) by (simp add: pipe_write_loop.simps)
    next
      case F: False
      have "n = rb_n rb - length (rb_contents rb)" using F by (simp add: n_def)
      then have full: "rb_n rb1 - length (rb_contents rb1) = 0" using p(3,4) F by simp
      have lr: "unat (of_nat (length ?rest) :: rt_uint16) = length ?rest" using small by (simp add: unat_of_nat)
      show ?thesis using put_spec[OF p(2), of "of_nat (length ?rest)" ?rest] F full unfolding lr
        by (subst pipe_write_loop.simps) auto
    qed
    then obtain rb' where "pipe_write_loop ?rest rb1 = Some (rb', 0)" "rb_inv rb'" "rb_n rb' = rb_n rb1"
        "rb_contents rb' = rb_contents rb1" by blast
    moreover have "pipe_write_loop data rb = Option.bind (pipe_write_loop ?rest rb1) (\<lambda>(rb, m). Some (rb, of_nat n + m))"
      using False dne p(1) n by (subst pipe_write_loop.simps) simp
    ultimately show ?thesis using p by simp
  qed
qed

section \<open>The lock of a pipe\<close>

lemma locked_free:
  assumes free: "lock_free (lock (pp_pipe s d)) (dv_kernel s)"
    and run: "\<And>k. body (s\<lparr>dv_kernel := k\<rparr>) = Some (s1\<lparr>dv_kernel := k\<rparr>, x)"
    and same: "lock (pp_pipe s1 d) = lock (pp_pipe s d)"
  shows "\<exists>k'. pipe_locked d body s = Some (s1\<lparr>dv_kernel := k'\<rparr>, x) \<and> lock_free (lock (pp_pipe s d)) k'"
proof -
  obtain k1 k2 where k: "rt_mutex_take (lock (pp_pipe s d)) (- 1) (dv_kernel s) = Some (k1, Done RT_EOK)"
      "rt_mutex_release (lock (pp_pipe s d)) k1 = Some (k2, RT_EOK)" "lock_free (lock (pp_pipe s d)) k2"
    by (rule lock_round[OF free])
  then show ?thesis using run[of k1] same by (intro exI[of _ k2]) (simp add: pipe_locked_def)
qed

lemma pipe_write_free:
  assumes "lock_free (lock (pp_pipe s d)) (dv_kernel s)" "fifo (pp_pipe s d) = Some rb" "rb_inv rb" "length data < 2 ^ 15"
  defines "n \<equiv> min (length data) (rb_n rb - length (rb_contents rb))"
  shows "\<exists>s' rb'. rt_pipe_write d pos data s = Some (s', of_nat n) \<and> fifo (pp_pipe s' d) = Some rb' \<and> rb_inv rb' \<and>
    rb_contents rb' = rb_contents rb @ take n data \<and> lock_free (lock (pp_pipe s' d)) (dv_kernel s') \<and> dv_dev s' = dv_dev s"
proof (cases "data = []")
  case True
  then show ?thesis using assms by (simp add: rt_pipe_write_def)
next
  case False
  obtain rb' where w: "pipe_write_loop data rb = Some (rb', of_nat n)" "rb_inv rb'" "rb_contents rb' = rb_contents rb @ take n data"
    using write_loop_spec[OF assms(3,4)] unfolding n_def by blast
  let ?body = "\<lambda>s. do { rb \<leftarrow> fifo (pp_pipe s d); (rb, n) \<leftarrow> pipe_write_loop data rb; Some (upd_fifo d (Some rb) s, n) }"
  have run: "?body (s\<lparr>dv_kernel := k\<rparr>) = Some ((upd_fifo d (Some rb') s)\<lparr>dv_kernel := k\<rparr>, of_nat n)" for k
    using assms(2) w(1) by simp
  obtain k' where "pipe_locked d ?body s = Some ((upd_fifo d (Some rb') s)\<lparr>dv_kernel := k'\<rparr>, of_nat n)"
      "lock_free (lock (pp_pipe s d)) k'"
    using locked_free[OF assms(1) run] by auto
  then show ?thesis using False w(2,3) by (simp add: rt_pipe_write_def)
qed

lemma pipe_read_free:
  assumes "lock_free (lock (pp_pipe s d)) (dv_kernel s)" "fifo (pp_pipe s d) = Some rb"
    and "pipe_read_loop count rb = Some (rb', bs)" "count = 0 \<Longrightarrow> bs = []"
  shows "\<exists>s'. rt_pipe_read d pos count s = Some (s', bs)"
proof (cases "count = 0")
  case True
  then show ?thesis using assms(4) by (simp add: rt_pipe_read_def)
next
  case False
  let ?body = "\<lambda>s. do { rb \<leftarrow> fifo (pp_pipe s d); (rb, bs) \<leftarrow> pipe_read_loop count rb; Some (upd_fifo d (Some rb) s, bs) }"
  have run: "?body (s\<lparr>dv_kernel := k\<rparr>) = Some ((upd_fifo d (Some rb') s)\<lparr>dv_kernel := k\<rparr>, bs)" for k
    using assms(2,3) by simp
  show ?thesis using locked_free[OF assms(1) run] False by (auto simp: rt_pipe_read_def)
qed

section \<open>The buffer over closing and opening\<close>

lemma close_keeps_fifo:
  assumes "rt_device_close (pipe_ops heap) d s = Some (s', r)" "fifo (pp_pipe s d) = Some rb"
  shows "fifo (pp_pipe s' d) = Some rb"
proof (cases "ref_count (dv_dev s d) = 0 \<or> ref_count (dv_dev s d) - 1 \<noteq> 0")
  case True
  then show ?thesis using assms by (auto simp: rt_device_close_def split: if_splits)
next
  case False
  let ?s1 = "upd_dev d (\<lambda>x. x\<lparr>ref_count := ref_count x - 1\<rparr>) s"
  obtain s2 where c: "rt_pipe_close d ?s1 = Some (s2, r)" "pp_pipe s' = pp_pipe s2"
    using assms(1) False by (auto simp: rt_device_close_def pipe_ops_def Let_def bind_eq_Some_conv)
  have "fifo (pp_pipe s2 d) = Some rb"
    using c(1) False assms(2) unfolding rt_pipe_close_def
    by (rule_tac pipe_locked_keeps[where P = "\<lambda>_ x. fifo (x d) = Some rb"]) (auto split: if_splits)
  then show ?thesis using c(2) by simp
qed

lemma open_keeps_fifo:
  assumes "rt_device_open (pipe_ops heap) d oflag s = Some (s', r)" "fifo (pp_pipe s d) = Some rb"
  shows "fifo (pp_pipe s' d) = Some rb"
proof -
  have drv: "fifo (pp_pipe s2 d) = Some rb" if "rt_pipe_open heap d oflag s1 = Some (s2, r)" "fifo (pp_pipe s1 d) = Some rb" for s1 s2 r
    using that unfolding rt_pipe_open_def
    by (rule_tac pipe_locked_keeps[where P = "\<lambda>_ x. fifo (x d) = Some rb"]) (auto split: if_splits)
  show ?thesis
    using assms
    by (auto simp: rt_device_open_def open_activate_def open_device_def pipe_ops_def bind_eq_Some_conv
        split: if_splits dest!: drv)
qed

section \<open>An open pipe\<close>

definition pipe_one :: "rt_ringbuffer \<Rightarrow> pipes" where
  "pipe_one rb = \<lparr>dv_kernel = kernel_zero\<lparr>rt_current_thread := Some 1, k_mutex := \<lambda>_. fresh_mutex\<rparr>,
     dv_dev = (\<lambda>_. \<lparr>dev_type = RT_Device_Class_Pipe, dev_flag = 0x13, open_flag = 0xb, ref_count = 1,
       rx_indicate = None, tx_complete = None\<rparr>),
     pp_pipe = (\<lambda>_. \<lparr>fifo = Some rb, bufsz = 8, lock = 0\<rparr>)\<rparr>"

lemma pipe_one_facts:
  "lock_free (lock (pp_pipe (pipe_one rb) d)) (dv_kernel (pipe_one rb))" "fifo (pp_pipe (pipe_one rb) d) = Some rb"
  "ref_count (dv_dev (pipe_one rb) d) = 1"
  by (simp_all add: pipe_one_def lock_free_def kernel_zero_def fresh_mutex_def ls_empty_def)

section \<open>Properties\<close>

text \<open>C33. What is written to an open pipe, as far as there is room, is read from it, behind what was in it
  before.\<close>

theorem pipe_write_read:
  assumes "lock_free (lock (pp_pipe s d)) (dv_kernel s)" "ref_count (dv_dev s d) \<noteq> 0"
    and "fifo (pp_pipe s d) = Some rb" "rb_inv rb" "length data < 2 ^ 15"
  defines "n \<equiv> min (length data) (rb_n rb - length (rb_contents rb))"
  shows "\<exists>s1 s2. rt_device_write (pipe_ops heap) d 0 data s = Some (s1, of_nat n) \<and>
    rt_device_read (pipe_ops heap) d 0 (of_nat (length (rb_contents rb) + n)) s1 = Some (s2, rb_contents rb @ take n data)"
proof -
  obtain s1 rb1 where w: "rt_pipe_write d 0 data s = Some (s1, of_nat n)" "fifo (pp_pipe s1 d) = Some rb1" "rb_inv rb1"
      "rb_contents rb1 = rb_contents rb @ take n data" "lock_free (lock (pp_pipe s1 d)) (dv_kernel s1)" "dv_dev s1 = dv_dev s"
    using pipe_write_free[OF assms(1,3,4,5)] unfolding n_def by blast
  let ?c = "of_nat (length (rb_contents rb) + n) :: rt_uint32"
  have le: "length (rb_contents rb) \<le> rb_n rb" "rb_n rb \<le> 32767" using rb_count(2)[OF assms(4)] rb_size(2)[OF assms(4)] by (simp_all add: rb_contents_def)
  then have lt: "length (rb_contents rb) + n < 2 ^ 16" by (simp add: n_def)
  then have c: "unat ?c = length (rb_contents rb) + n" by (subst unat_of_nat) simp
  have nl: "n \<le> length data" by (simp add: n_def)
  obtain rb2 where "pipe_read_loop ?c rb1 = Some (rb2, rb_contents rb @ take n data)"
    using read_loop_spec[OF w(3), of ?c] lt w(4) nl unfolding c by auto
  then obtain s2 where "rt_pipe_read d 0 ?c s1 = Some (s2, rb_contents rb @ take n data)"
    using pipe_read_free[OF w(5,2), of ?c rb2 "rb_contents rb @ take n data" 0] c by fastforce
  then show ?thesis using w(1,6) assms(2) by (simp add: rt_device_write_def rt_device_read_def pipe_ops_def)
qed

theorem pipe_write_read_witness:
  "\<exists>s1 s2. rt_device_write (pipe_ops (\<lambda>_. [])) 0 0 [1, 2, 3] (pipe_one rb_eight) = Some (s1, 3) \<and>
     rt_device_read (pipe_ops (\<lambda>_. [])) 0 0 3 s1 = Some (s2, [1, 2, 3])"
  using pipe_write_read[of "pipe_one rb_eight" 0 rb_eight "[1, 2, 3]" "\<lambda>_. []"]
  by (simp add: pipe_one_facts rb_eight_inv)

text \<open>Closing a pipe through the device layer never frees its buffer: the layer counts the reference down
  before it calls the driver, which looks for the last reference. Whoever opens the pipe again
  finds what was left in it.\<close>

theorem pipe_reopen_stale:
  assumes "dev_run (pipe_ops heap) d cs s = Some (s', n)" "\<forall>c \<in> set cs. c = Close \<or> (\<exists>oflag. c = Open oflag)"
    and "fifo (pp_pipe s d) = Some rb"
  shows "fifo (pp_pipe s' d) = Some rb"
  using assms
proof (induction cs arbitrary: s n)
  case (Cons c cs)
  obtain s1 n1 m1 where r: "dev_step (pipe_ops heap) d c s = Some (s1, n1)" "dev_run (pipe_ops heap) d cs s1 = Some (s', m1)"
    using Cons.prems(1) by (auto simp: bind_eq_Some_conv)
  have "fifo (pp_pipe s1 d) = Some rb"
    using r(1) Cons.prems(2) close_keeps_fifo[OF _ Cons.prems(3)] open_keeps_fifo[OF _ Cons.prems(3)] by auto
  then show ?case using Cons.IH[OF r(2)] Cons.prems(2) by simp
qed simp

theorem pipe_reopen_stale_witness:
  "\<exists>s'. dev_run (pipe_ops (\<lambda>_. [])) 0 [Close, Open 3] (pipe_one (fst (rt_ringbuffer_put [7] 1 rb_eight))) = Some (s', 0) \<and>
     fifo (pp_pipe s' 0) = Some (fst (rt_ringbuffer_put [7] 1 rb_eight))"
proof -
  let ?rb = "fst (rt_ringbuffer_put [7] 1 rb_eight)"
  obtain s' where s': "dev_run (pipe_ops (\<lambda>_. [])) 0 [Close, Open 3] (pipe_one ?rb) = Some (s', 0)"
    by (simp add: rt_device_close_def rt_device_open_def open_activate_def open_device_def pipe_ops_def rt_pipe_close_def
        rt_pipe_open_def pipe_locked_def pipe_one_def kernel_zero_def fresh_mutex_def rt_mutex_take_def mutex_try_def
        in_thread_context_def rt_thread_self_def rt_mutex_release_def acquire_def restore_priority_def ls_empty_def)
  have "\<forall>c \<in> set [Close, Open 3]. c = Close \<or> (\<exists>oflag. c = Open oflag)" by simp
  from pipe_reopen_stale[OF s' this pipe_one_facts(2)] s' show ?thesis by blast
qed

text \<open>A read of 64 KB reads nothing at all: the ring buffer takes lengths of 16 bits.\<close>

theorem pipe_big_read:
  assumes "lock_free (lock (pp_pipe s d)) (dv_kernel s)" "ref_count (dv_dev s d) \<noteq> 0"
    and "fifo (pp_pipe s d) = Some rb" "rb_inv rb"
  shows "\<exists>s1. rt_device_read (pipe_ops heap) d 0 0x10000 s = Some (s1, [])"
proof -
  have z: "(65536 :: rt_uint16) = 0" by simp
  obtain rb1 where "rt_ringbuffer_get 0 rb = (rb1, [])" using get_spec[OF assms(4), of 0] by auto
  then have "pipe_read_loop 0x10000 rb = Some (rb1, [])" by (subst pipe_read_loop.simps) (simp add: z)
  then show ?thesis using pipe_read_free[OF assms(1,3)] assms(2) by (simp add: rt_device_read_def pipe_ops_def)
qed

theorem pipe_big_read_witness: "\<exists>s1. rt_device_read (pipe_ops (\<lambda>_. [])) 0 0 0x10000 (pipe_one (fst (rt_ringbuffer_put [7] 1 rb_eight))) = Some (s1, [])"
proof -
  let ?rb = "fst (rt_ringbuffer_put [7] 1 rb_eight)"
  have "rb_inv ?rb" using put_spec[OF rb_eight_inv(1), of 1 "[7]"] by auto
  moreover have "ref_count (dv_dev (pipe_one ?rb) 0) \<noteq> 0" by (simp add: pipe_one_facts)
  ultimately show ?thesis using pipe_big_read[OF pipe_one_facts(1) _ pipe_one_facts(2)] by blast
qed

end
