(* ===== verification/Rtt_Path.thy ===== *)
theory Rtt_Path
  imports Rtt_Prelude "HOL-Library.Sublist"
begin

text \<open>
  Path names in the device file system (\<^verbatim>\<open>rt-thread/components/dfs/src/dfs.c\<close>). The
  normalisation works in place on a block from the heap, read here by the offset from its start; the
  byte at \<open>- 1\<close> belongs to the header of the block. The specification resolves
  the names of a path on a stack.
\<close>

section \<open>Model\<close>

type_synonym block = "int \<Rightarrow> char"

abbreviation (input) NUL :: char where "NUL \<equiv> CHR 0x00"

text \<open>\<^verbatim>\<open>while (*src == '/') src ++\<close>\<close>

partial_function (option) skip_slashes :: "int \<Rightarrow> block \<Rightarrow> int option" where
  "skip_slashes src m = (if m src = CHR ''/'' then skip_slashes (src + 1) m else Some src)"

text \<open>Copying up to the next slash; the character that ended the copy comes last.\<close>

partial_function (option) copy_component :: "int \<Rightarrow> int \<Rightarrow> block \<Rightarrow> (int \<times> int \<times> block \<times> char) option" where
  "copy_component src dst m =
     (let c = m src; src = src + 1 in
      if c \<noteq> NUL \<and> c \<noteq> CHR ''/'' then copy_component src (dst + 1) (m(dst := c)) else Some (src, dst, m, c))"

text \<open>\<^verbatim>\<open>while (dst0 < dst && dst[-1] != '/') dst --\<close>\<close>

partial_function (option) drop_name :: "int \<Rightarrow> block \<Rightarrow> int option" where
  "drop_name dst m = (if 0 < dst \<and> m (dst - 1) \<noteq> CHR ''/'' then drop_name (dst - 1) m else Some dst)"

text \<open>What the tests for dots decide: to start again, to go up or to copy.\<close>

datatype dots_action = Again int | Up int | Copy int

definition dots :: "int \<Rightarrow> block \<Rightarrow> dots_action option" where
  "dots src m =
     (if m src = CHR ''.'' then
        if m (src + 1) = NUL then Some (Copy (src + 1))
        else if m (src + 1) = CHR ''/'' then map_option Again (skip_slashes (src + 2) m)
        else if m (src + 1) = CHR ''.'' then
          if m (src + 2) = NUL then Some (Up (src + 2))
          else if m (src + 2) = CHR ''/'' then map_option Up (skip_slashes (src + 3) m)
          else Some (Copy src)
        else Some (Copy src)
      else Some (Copy src))"

text \<open>The loop; the inner option is \<open>None\<close> when it gives up and returns the null pointer.\<close>

partial_function (option) normalize_loop :: "int \<Rightarrow> int \<Rightarrow> block \<Rightarrow> (int \<times> block) option option" where
  "normalize_loop src dst m = Option.bind (dots src m) (\<lambda>a.
     case a of
       Again src \<Rightarrow> normalize_loop src dst m
     | Up src \<Rightarrow>
         (let dst = dst - 1 in
          if dst < 0 then Some None
          else Option.bind (drop_name dst m) (\<lambda>dst. normalize_loop src dst m))
     | Copy src \<Rightarrow> Option.bind (copy_component src dst m) (\<lambda>(src, dst, m, c).
         if c = CHR ''/'' then
           let m = m(dst := CHR ''/'') in
           Option.bind (skip_slashes src m) (\<lambda>src. normalize_loop src (dst + 1) m)
         else Some (Some (dst, m))))"

definition normalize_block :: "block \<Rightarrow> block option option" where
  "normalize_block m = Option.bind (normalize_loop 0 0 m) (\<lambda>r.
     case r of
       None \<Rightarrow> Some None
     | Some (dst, m) \<Rightarrow>
         let m = m(dst := NUL);
             dst = dst - 1;
             m = (if dst \<noteq> 0 \<and> m dst = CHR ''/'' then m(dst := NUL) else m);
             m = (if m 0 = NUL then m(0 := CHR ''/'', 1 := NUL) else m)
         in Some (Some m))"

text \<open>Writing and reading a string at the start of a block.\<close>

definition put_string :: "string \<Rightarrow> block \<Rightarrow> block" where
  "put_string s m = (\<lambda>i. if 0 \<le> i \<and> i < int (length s) then s ! nat i else if i = int (length s) then NUL else m i)"

partial_function (option) string_at :: "int \<Rightarrow> block \<Rightarrow> string option" where
  "string_at p m = (if m p = NUL then Some [] else Option.bind (string_at (p + 1) m) (\<lambda>s. Some (m p # s)))"

definition is_absolute :: "string \<Rightarrow> bool" where
  "is_absolute s \<longleftrightarrow> s \<noteq> [] \<and> hd s = CHR ''/''"

definition full_name :: "string \<Rightarrow> string \<Rightarrow> string" where
  "full_name directory filename =
     (if \<not> is_absolute filename then directory @ ''/'' @ filename else filename)"

text \<open>\<open>mem\<close>: the block that \<^verbatim>\<open>rt_malloc\<close> or \<^verbatim>\<open>rt_strdup\<close> gives; \<open>wd\<close>: the
  working directory.\<close>

definition dfs_normalize_path :: "block option \<Rightarrow> string \<Rightarrow> string option \<Rightarrow> string \<Rightarrow> string option option" where
  "dfs_normalize_path mem wd directory filename =
     (let directory = (case directory of None \<Rightarrow> wd | Some d \<Rightarrow> d) in
      case mem of
        None \<Rightarrow> Some None
      | Some m \<Rightarrow> Option.bind (normalize_block (put_string (full_name directory filename) m)) (\<lambda>r.
          case r of None \<Rightarrow> Some None | Some m \<Rightarrow> map_option Some (string_at 0 m)))"

text \<open>\<^verbatim>\<open>dfs_subdir\<close>: \<^verbatim>\<open>filename\<close> from behind \<^verbatim>\<open>directory\<close>, with the
  slash before it. The caller gives a directory that is a prefix.\<close>

definition dfs_subdir :: "string \<Rightarrow> string \<Rightarrow> string option" where
  "dfs_subdir directory filename =
     (if length directory = length filename then None
      else let dir = length directory in
        Some (if (filename @ [NUL]) ! dir \<noteq> CHR ''/'' \<and> dir \<noteq> 0 then drop (dir - 1) filename else drop dir filename))"

section \<open>Specification\<close>

fun split_slash :: "string \<Rightarrow> string list" where
  "split_slash [] = [[]]"
| "split_slash (c # cs) =
     (if c = CHR ''/'' then [] # split_slash cs
      else case split_slash cs of n # ns \<Rightarrow> (c # n) # ns | [] \<Rightarrow> [[c]])"

definition path_names :: "string \<Rightarrow> string list" where
  "path_names s = filter (\<lambda>n. n \<noteq> [] \<and> n \<noteq> ''.'') (split_slash s)"

text \<open>Resolving names from a stack of directories. Going up from the root loses the root; going up from
  there fails.\<close>

fun resolve :: "bool \<Rightarrow> string list \<Rightarrow> string list \<Rightarrow> (bool \<times> string list) option" where
  "resolve rooted st [] = Some (rooted, rev st)"
| "resolve rooted st (n # ns) =
     (if n = ''..'' then
        (case st of _ # st' \<Rightarrow> resolve rooted st' ns
                  | [] \<Rightarrow> if rooted then resolve False [] ns else None)
      else resolve rooted (n # st) ns)"

fun join_names :: "string list \<Rightarrow> string" where
  "join_names [] = []"
| "join_names [n] = n"
| "join_names (n # ns) = n @ ''/'' @ join_names ns"

definition show_path :: "bool \<Rightarrow> string list \<Rightarrow> string" where
  "show_path rooted ns = (if ns = [] then ''/'' else (if rooted then ''/'' else []) @ join_names ns)"

text \<open>The text of a stack while it is being written.\<close>

definition written :: "bool \<Rightarrow> string list \<Rightarrow> string" where
  "written rooted ns = (if rooted then ''/'' else []) @ concat (map (\<lambda>n. n @ ''/'') ns)"

section \<open>Blocks\<close>

fun holds :: "block \<Rightarrow> int \<Rightarrow> string \<Rightarrow> bool" where
  "holds m p [] = True"
| "holds m p (c # cs) = (m p = c \<and> holds m (p + 1) cs)"

lemma holds_append [simp]: "holds m p (s @ t) = (holds m p s \<and> holds m (p + int (length s)) t)"
  by (induction s arbitrary: p) (simp_all add: algebra_simps)

lemma holds_cong:
  "(\<And>i. p \<le> i \<Longrightarrow> i < p + int (length s) \<Longrightarrow> m' i = m i) \<Longrightarrow> holds m' p s = holds m p s"
  by (induction s arbitrary: p) simp_all

lemma holds_outside [simp]: "i < p \<or> p + int (length s) \<le> i \<Longrightarrow> holds (m(i := c)) p s = holds m p s"
  by (rule holds_cong) auto

lemma holds_put: "holds (put_string s m) 0 (s @ [NUL])"
proof -
  have "holds f p s" if "\<And>i. i < length s \<Longrightarrow> f (p + int i) = s ! i" for f p
    using that
  proof (induction s arbitrary: p)
    case (Cons c s)
    have "f (p + 1 + int i) = s ! i" if "i < length s" for i
      using Cons.prems[of "Suc i"] that by (simp add: algebra_simps)
    then show ?case using Cons.IH[of "p + 1"] Cons.prems[of 0] by simp
  qed simp
  then show ?thesis by (simp add: put_string_def)
qed

lemma string_at_holds: "holds m p (s @ [NUL]) \<Longrightarrow> NUL \<notin> set s \<Longrightarrow> string_at p m = Some s"
  by (induction s arbitrary: p) (subst string_at.simps; force)+

lemma skip_spec:
  "holds m p (replicate k (CHR ''/'') @ [c]) \<Longrightarrow> c \<noteq> CHR ''/'' \<Longrightarrow> skip_slashes p m = Some (p + int k)"
  by (induction k arbitrary: p) (subst skip_slashes.simps; simp add: algebra_simps)+

lemma drop_name_spec:
  assumes "holds m 0 w" "w = u @ n" "u = [] \<or> last u = CHR ''/''" "CHR ''/'' \<notin> set n"
  shows "drop_name (int (length w)) m = Some (int (length u))"
  using assms
proof (induction n arbitrary: w rule: rev_induct)
  case Nil
  show ?case
  proof (cases u rule: rev_cases)
    case Nil
    then show ?thesis using Nil.prems by (simp add: drop_name.simps)
  next
    case (snoc v c)
    then show ?thesis using Nil.prems by (simp add: drop_name.simps)
  qed
next
  case (snoc c n)
  then have "m (int (length u + length n)) \<noteq> CHR ''/''" by auto
  moreover have "drop_name (int (length (u @ n))) m = Some (int (length u))"
    by (rule snoc.IH[OF _ refl snoc.prems(3)]) (use snoc.prems in simp_all)
  ultimately show ?case unfolding snoc.prems(2) by (subst drop_name.simps) simp
qed

lemma copy_spec:
  assumes "holds m src (n @ [e])" "NUL \<notin> set n" "CHR ''/'' \<notin> set n" "e = NUL \<or> e = CHR ''/''" "dst \<le> src"
  shows "\<exists>m'. copy_component src dst m = Some (src + int (length n) + 1, dst + int (length n), m', e) \<and>
    holds m' dst n \<and> (\<forall>i. i < dst \<or> dst + int (length n) \<le> i \<longrightarrow> m' i = m i)"
  using assms
proof (induction n arbitrary: src dst m)
  case Nil
  then show ?case by (subst copy_component.simps) auto
next
  case (Cons c n)
  have c: "c \<noteq> NUL" "c \<noteq> CHR ''/''" "m src = c" using Cons.prems by auto
  have "holds (m(dst := c)) (src + 1) (n @ [e])"
    using Cons.prems(1,5) by simp
  then have "\<exists>m'. copy_component (src + 1) (dst + 1) (m(dst := c)) =
      Some (src + 1 + int (length n) + 1, dst + 1 + int (length n), m', e) \<and> holds m' (dst + 1) n \<and>
      (\<forall>i. i < dst + 1 \<or> dst + 1 + int (length n) \<le> i \<longrightarrow> m' i = (m(dst := c)) i)"
    by (rule Cons.IH) (use Cons.prems(2-5) in simp_all)
  then obtain m' where m': "copy_component (src + 1) (dst + 1) (m(dst := c)) =
      Some (src + 1 + int (length n) + 1, dst + 1 + int (length n), m', e)"
      "holds m' (dst + 1) n" "\<And>i. i < dst + 1 \<or> dst + 1 + int (length n) \<le> i \<Longrightarrow> m' i = (m(dst := c)) i"
    by blast
  have "copy_component src dst m = copy_component (src + 1) (dst + 1) (m(dst := c))"
    using c by (subst copy_component.simps) simp
  moreover have "\<forall>i. i < dst \<or> dst + int (length (c # n)) \<le> i \<longrightarrow> m' i = m i" using m'(3) by auto
  ultimately show ?case using m'(1,2) m'(3)[of dst] by (intro exI[of _ m']) (simp add: algebra_simps)
qed

section \<open>Names\<close>

lemma split_slash_name [simp]: "CHR ''/'' \<notin> set n \<Longrightarrow> split_slash n = [n]"
  by (induction n) auto

lemma split_slash_append: "CHR ''/'' \<notin> set n \<Longrightarrow> split_slash (n @ CHR ''/'' # s) = n # split_slash s"
  by (induction n) auto

lemma path_names_Nil [simp]: "path_names [] = []"
  by (simp add: path_names_def)

lemma path_names_name:
  "CHR ''/'' \<notin> set n \<Longrightarrow> path_names n = (if n = [] \<or> n = ''.'' then [] else [n])"
  by (simp add: path_names_def)

lemma path_names_slash [simp]: "path_names (CHR ''/'' # s) = path_names s"
  by (simp add: path_names_def)

lemma path_names_slashes [simp]: "path_names (replicate k (CHR ''/'') @ s) = path_names s"
  by (induction k) simp_all

lemma path_names_append:
  "CHR ''/'' \<notin> set n \<Longrightarrow>
     path_names (n @ CHR ''/'' # s) = (if n = [] \<or> n = ''.'' then path_names s else n # path_names s)"
  by (simp add: path_names_def split_slash_append)

text \<open>A path is a name, or a name, slashes and a path that does not start with one.\<close>

abbreviation no_slash :: "string \<Rightarrow> bool" where "no_slash r \<equiv> r = [] \<or> hd r \<noteq> CHR ''/''"

lemma leading_slashes: "\<exists>k r'. s = replicate k (CHR ''/'') @ r' \<and> no_slash r'"
proof (induction s)
  case (Cons c s)
  then obtain k r' where "s = replicate k (CHR ''/'') @ r'" "no_slash r'" by blast
  then show ?case by (cases "c = CHR ''/''") (auto intro: exI[of _ "Suc k"] exI[of _ 0])
qed simp

lemma path_cases:
  obtains (name) "CHR ''/'' \<notin> set r"
  | (dir) n k r' where "r = n @ CHR ''/'' # replicate k (CHR ''/'') @ r'" "CHR ''/'' \<notin> set n" "no_slash r'"
proof (cases "CHR ''/'' \<in> set r")
  case True
  then obtain n s where "r = n @ CHR ''/'' # s" "CHR ''/'' \<notin> set n" by (meson split_list_first)
  then show ?thesis using leading_slashes[of s] dir by blast
qed (rule name)

section \<open>One round of the loop\<close>

lemma skip_to:
  assumes "holds m p (replicate k (CHR ''/'') @ r @ [NUL])" "no_slash r"
  shows "skip_slashes p m = Some (p + int k)"
proof (cases r)
  case Nil
  then show ?thesis using assms(1) by (intro skip_spec[of _ _ _ NUL]) simp_all
next
  case (Cons c cs)
  then show ?thesis using assms by (intro skip_spec[of _ _ _ c]) simp_all
qed

lemma dots_name:
  assumes "holds m src (n @ [e])" "e = NUL \<or> e = CHR ''/''" "CHR ''/'' \<notin> set n" "NUL \<notin> set n" "n \<noteq> ''.''" "n \<noteq> ''..''"
  shows "dots src m = Some (Copy src)"
proof (cases n)
  case Nil
  then show ?thesis using assms(1,2) by (auto simp: dots_def)
next
  case (Cons a n1)
  show ?thesis
  proof (cases n1)
    case Nil
    then show ?thesis using assms(1,5) Cons by (auto simp: dots_def)
  next
    case C1: (Cons b n2)
    then show ?thesis using assms Cons by (cases n2) (auto simp: dots_def algebra_simps)
  qed
qed

lemma dots_dot:
  "holds m src (''.'' @ [NUL]) \<Longrightarrow> dots src m = Some (Copy (src + 1))"
  "holds m src (''..'' @ [NUL]) \<Longrightarrow> dots src m = Some (Up (src + 2))"
  by (simp_all add: dots_def algebra_simps)

lemma dots_dir:
  assumes "no_slash r"
  shows "holds m src (''.'' @ CHR ''/'' # replicate k (CHR ''/'') @ r @ [NUL]) \<Longrightarrow> dots src m = Some (Again (src + 2 + int k))"
    "holds m src (''..'' @ CHR ''/'' # replicate k (CHR ''/'') @ r @ [NUL]) \<Longrightarrow> dots src m = Some (Up (src + 3 + int k))"
  using skip_to[OF _ assms, of m "src + 2" k] skip_to[OF _ assms, of m "src + 3" k]
  by (simp_all add: dots_def algebra_simps)

text \<open>A name is copied behind what was written.\<close>

lemma name_end:
  assumes "holds m 0 w" "holds m src (n @ [NUL])" "int (length w) \<le> src" "NUL \<notin> set n" "CHR ''/'' \<notin> set n" "n \<noteq> ''..''"
  obtains m' where "normalize_loop src (int (length w)) m = Some (Some (int (length (w @ (if n = ''.'' then [] else n))), m'))"
    "holds m' 0 (w @ (if n = ''.'' then [] else n))" "\<And>i. i < 0 \<or> src + int (length n) \<le> i \<Longrightarrow> m' i = m i"
proof (cases "n = ''.''")
  case True
  then have "copy_component (src + 1) (int (length w)) m = Some (src + 2, int (length w), m, NUL)"
    using assms(2) by (subst copy_component.simps) simp
  then have "normalize_loop src (int (length w)) m = Some (Some (int (length w), m))"
    using dots_dot(1)[of m src] True assms(2) by (subst normalize_loop.simps) simp
  then show ?thesis using that[of m] True assms(1) by simp
next
  case False
  obtain m' where "copy_component src (int (length w)) m = Some (src + int (length n) + 1, int (length w) + int (length n), m', NUL)"
      "holds m' (int (length w)) n" "\<forall>i. i < int (length w) \<or> int (length w) + int (length n) \<le> i \<longrightarrow> m' i = m i"
    using copy_spec[OF assms(2,4,5) _ assms(3)] by auto
  moreover have "dots src m = Some (Copy src)" by (rule dots_name[OF assms(2) _ assms(5,4) False assms(6)]) simp
  moreover have "holds m' 0 w" using calculation(3) holds_cong[of 0 w m' m] assms(1) by simp
  moreover have "normalize_loop src (int (length w)) m = Some (Some (int (length w) + int (length n), m'))"
    using calculation(1,4) by (subst normalize_loop.simps) simp
  moreover have "m' i = m i" if "i < 0 \<or> src + int (length n) \<le> i" for i
  proof -
    have "i < int (length w) \<or> int (length w) + int (length n) \<le> i" using that assms(3) by linarith
    then show ?thesis using calculation(3) by blast
  qed
  ultimately show ?thesis using that[of m'] False by simp
qed

lemma name_dir:
  assumes "holds m 0 w" "holds m src (n @ CHR ''/'' # replicate k (CHR ''/'') @ r @ [NUL])" "int (length w) \<le> src"
    and "NUL \<notin> set n" "CHR ''/'' \<notin> set n" "n \<noteq> ''.''" "n \<noteq> ''..''" "no_slash r"
  obtains m' where "normalize_loop src (int (length w)) m =
      normalize_loop (src + int (length n) + 1 + int k) (int (length (w @ n @ ''/''))) m'"
    "holds m' 0 (w @ n @ ''/'')" "holds m' (src + int (length n) + 1 + int k) (r @ [NUL])"
    "\<And>i. i < 0 \<or> src + int (length n) < i \<Longrightarrow> m' i = m i"
proof -
  let ?d = "int (length w) + int (length n)" and ?s = "src + int (length n) + 1"
  have h: "holds m src (n @ ''/'')" "holds m ?s (replicate k (CHR ''/'') @ r @ [NUL])" using assms(2) by (simp_all add: algebra_simps)
  obtain m1 where m1: "copy_component src (int (length w)) m = Some (?s, ?d, m1, CHR ''/'')"
      "holds m1 (int (length w)) n" "\<forall>i. i < int (length w) \<or> ?d \<le> i \<longrightarrow> m1 i = m i"
    using copy_spec[OF h(1) assms(4,5) _ assms(3)] by auto
  let ?m = "m1(?d := CHR ''/'')"
  have far: "?m i = m i" if "i < int (length w) \<or> ?d < i" for i using m1(3) that by auto
  have "holds ?m ?s (replicate k (CHR ''/'') @ r @ [NUL]) = holds m ?s (replicate k (CHR ''/'') @ r @ [NUL])"
    by (rule holds_cong, rule far) (use assms(3) in linarith)
  then have h2: "holds ?m ?s (replicate k (CHR ''/'') @ r @ [NUL])" using h(2) by blast
  have "holds m1 0 w" using m1(3) holds_cong[of 0 w m1 m] assms(1) by simp
  then have w: "holds ?m 0 (w @ n @ ''/'')" using m1(2) by simp
  have "dots src m = Some (Copy src)" by (rule dots_name[OF h(1) _ assms(5,4,6,7)]) simp
  then have "normalize_loop src (int (length w)) m = normalize_loop (?s + int k) (?d + 1) ?m"
    using m1(1) skip_to[OF h2 assms(8)] by (subst normalize_loop.simps) simp
  moreover have "int (length (w @ n @ ''/'')) = ?d + 1" by simp
  moreover have "holds ?m (?s + int k) (r @ [NUL])" using h2 by (simp only: holds_append length_replicate)
  moreover have "?m i = m i" if "i < 0 \<or> src + int (length n) < i" for i
    by (rule far) (use that assms(3) in linarith)
  ultimately show ?thesis using that[of ?m] w by (simp only:)
qed

text \<open>Going up removes the last name, then the root.\<close>

lemma up_written:
  assumes "holds m 0 (written rooted (ns @ [n]))" "CHR ''/'' \<notin> set n" "\<forall>n \<in> set ns. n \<noteq> []"
  shows "drop_name (int (length (written rooted (ns @ [n]))) - 1) m = Some (int (length (written rooted ns)))"
proof -
  let ?u = "written rooted ns"
  have e: "written rooted (ns @ [n]) = (?u @ n) @ ''/''" by (simp add: written_def)
  have "last ?u = CHR ''/''" if "?u \<noteq> []"
    using that by (cases ns rule: rev_cases) (auto simp: written_def split: if_splits)
  then have "drop_name (int (length (?u @ n))) m = Some (int (length ?u))"
    using assms(1) by (intro drop_name_spec[OF _ refl _ assms(2)]) (auto simp: e)
  then show ?thesis by (simp add: e)
qed

lemma up_step:
  assumes "dots src m = Some (Up src')" "holds m 0 (written rooted (rev st))" "\<forall>n \<in> set st. n \<noteq> [] \<and> CHR ''/'' \<notin> set n"
  shows "normalize_loop src (int (length (written rooted (rev st)))) m =
    (case st of _ # st' \<Rightarrow> normalize_loop src' (int (length (written rooted (rev st')))) m
     | [] \<Rightarrow> if rooted then normalize_loop src' 0 m else Some None)"
proof (cases st)
  case Nil
  have "drop_name 0 m = Some 0" by (subst drop_name.simps) simp
  then show ?thesis using Nil assms(1) by (subst normalize_loop.simps) (simp add: written_def)
next
  case (Cons n st')
  have "drop_name (int (length (written rooted (rev st))) - 1) m = Some (int (length (written rooted (rev st'))))"
    using up_written[of m rooted "rev st'" n] assms(2,3) Cons by simp
  moreover have "0 < int (length (written rooted (rev st)))" using Cons assms(3) by (simp add: written_def)
  ultimately show ?thesis using Cons assms(1) by (subst normalize_loop.simps) simp
qed

section \<open>The loop\<close>

text \<open>The text in front of the result may lack its last slash; everything outside the path is unchanged.\<close>

fun loop_post :: "int \<Rightarrow> block \<Rightarrow> (bool \<times> string list) option \<Rightarrow> (int \<times> block) option \<Rightarrow> bool" where
  "loop_post e m None x \<longleftrightarrow> x = None"
| "loop_post e m (Some (ro, ns)) x \<longleftrightarrow> (\<exists>w m'. x = Some (int (length w), m') \<and> holds m' 0 w \<and> int (length w) \<le> e \<and>
     (w = written ro ns \<or> ns \<noteq> [] \<and> w @ ''/'' = written ro ns) \<and> (\<forall>i. i < 0 \<or> e \<le> i \<longrightarrow> m' i = m i))"

lemma loop_post_mono:
  "loop_post e m1 res x \<Longrightarrow> e \<le> e' \<Longrightarrow> (\<And>i. i < 0 \<or> e' \<le> i \<Longrightarrow> m1 i = m i) \<Longrightarrow> loop_post e' m res x"
  by (cases "(e, m1, res, x)" rule: loop_post.cases) fastforce+

lemma loop_spec:
  assumes "holds m 0 (written rooted (rev st))" "holds m src (r @ [NUL])" "int (length (written rooted (rev st))) \<le> src"
    and "NUL \<notin> set r" "no_slash r" "\<forall>n \<in> set st. n \<noteq> [] \<and> CHR ''/'' \<notin> set n"
  shows "\<exists>x. normalize_loop src (int (length (written rooted (rev st)))) m = Some x \<and>
    loop_post (src + int (length r)) m (resolve rooted st (path_names r)) x"
  using assms
proof (induction "length r" arbitrary: src r m rooted st rule: less_induct)
  case less
  let ?w = "written rooted (rev st)"
  have up: "\<exists>x. normalize_loop src (int (length ?w)) m = Some x \<and>
      loop_post (src + int (length r)) m (resolve rooted st (''..'' # path_names r')) x"
    if d: "dots src m = Some (Up src')" and h: "holds m src' (r' @ [NUL])" and r': "length r' < length r" "src \<le> src'"
      "src' + int (length r') = src + int (length r)" "NUL \<notin> set r'" "no_slash r'" for src' r'
  proof (cases st)
    case Nil
    show ?thesis
    proof (cases rooted)
      case True
      have "\<exists>x. normalize_loop src' (int (length (written False (rev [])))) m = Some x \<and>
          loop_post (src' + int (length r')) m (resolve False [] (path_names r')) x"
        by (rule less.hyps[OF r'(1) _ h]) (use less.prems(3) r' in \<open>simp_all add: written_def\<close>)
      then show ?thesis using up_step[OF d less.prems(1,6)] Nil True r'(3) by (simp add: written_def)
    next
      case False
      then show ?thesis using up_step[OF d less.prems(1,6)] Nil by simp
    qed
  next
    case (Cons n st')
    have w: "?w = written rooted (rev st') @ n @ ''/''" using Cons by (simp add: written_def)
    have "\<exists>x. normalize_loop src' (int (length (written rooted (rev st')))) m = Some x \<and>
        loop_post (src' + int (length r')) m (resolve rooted st' (path_names r')) x"
      by (rule less.hyps[OF r'(1) _ h]) (use less.prems(1,3,6) r' w Cons in simp_all)
    then show ?thesis using up_step[OF d less.prems(1,6)] Cons r'(3) by simp
  qed
  show ?case
  proof (cases r rule: path_cases)
    case name
    show ?thesis
    proof (cases "r = ''..''")
      case True
      have "dots src m = Some (Up (src + 2))" using dots_dot(2) less.prems(2) True by blast
      moreover have "holds m (src + 2) ([] @ [NUL])" using less.prems(2) True by (simp add: add.commute)
      ultimately show ?thesis using up[of "src + 2" "[]"] True by (simp add: path_names_name)
    next
      case False
      obtain m' where m': "normalize_loop src (int (length ?w)) m = Some (Some (int (length (?w @ (if r = ''.'' then [] else r))), m'))"
          "holds m' 0 (?w @ (if r = ''.'' then [] else r))" "\<And>i. i < 0 \<or> src + int (length r) \<le> i \<Longrightarrow> m' i = m i"
        by (rule name_end[OF less.prems(1-4) name False]) (rule that; assumption)
      let ?v = "?w @ (if r = ''.'' then [] else r)"
      define ns where "ns = rev st @ (if r = [] \<or> r = ''.'' then [] else [r])"
      have ns: "resolve rooted st (path_names r) = Some (rooted, ns)"
          "?v = written rooted ns \<or> ns \<noteq> [] \<and> ?v @ ''/'' = written rooted ns"
        using name False by (auto simp: path_names_name written_def ns_def)
      have "int (length ?v) \<le> src + int (length r)" using less.prems(3) by simp
      then have "loop_post (src + int (length r)) m (Some (rooted, ns)) (Some (int (length ?v), m'))"
        unfolding loop_post.simps using m'(2,3) ns(2) by blast
      then show ?thesis unfolding ns(1) using m'(1) by blast
    qed
  next
    case (dir n k r')
    have r: "holds m src (n @ CHR ''/'' # replicate k (CHR ''/'') @ r' @ [NUL])" "length r' < length r" "NUL \<notin> set n" "NUL \<notin> set r'"
        "int (length r) = int (length n) + 1 + int k + int (length r')"
      using less.prems(2,4) dir(1) by simp_all
    have ne: "n \<noteq> []"
    proof
      assume "n = []"
      then show False using less.prems(5) dir(1) by simp
    qed
    have pn: "path_names r = (if n = ''.'' then path_names r' else n # path_names r')"
      unfolding dir(1) using path_names_append[OF dir(2)] ne by simp
    consider "n = ''.''" | "n = ''..''" | "n \<noteq> ''.''" "n \<noteq> ''..''" by blast
    then show ?thesis
    proof cases
      case 1
      then have d: "dots src m = Some (Again (src + 2 + int k))" using dots_dir(1)[OF dir(3)] r(1) by simp
      have "\<exists>x. normalize_loop (src + 2 + int k) (int (length ?w)) m = Some x \<and>
          loop_post (src + 2 + int k + int (length r')) m (resolve rooted st (path_names r')) x"
        by (rule less.hyps[OF r(2) less.prems(1)]) (use r(1,4) 1 less.prems(3,6) dir(3) in \<open>simp_all add: algebra_simps\<close>)
      then show ?thesis using d 1 r(5) by (subst normalize_loop.simps) (simp add: pn algebra_simps)
    next
      case 2
      then have "dots src m = Some (Up (src + 3 + int k))" using dots_dir(2)[OF dir(3)] r(1) by simp
      then show ?thesis using up[of "src + 3 + int k" r'] r 2 dir(3) by (simp add: pn algebra_simps)
    next
      case 3
      obtain m' where m': "normalize_loop src (int (length ?w)) m =
            normalize_loop (src + int (length n) + 1 + int k) (int (length (?w @ n @ ''/''))) m'"
          "holds m' 0 (?w @ n @ ''/'')" "holds m' (src + int (length n) + 1 + int k) (r' @ [NUL])"
          "\<And>i. i < 0 \<or> src + int (length n) < i \<Longrightarrow> m' i = m i"
        by (rule name_dir[OF less.prems(1) r(1) less.prems(3) r(3) dir(2) 3 dir(3)]) (rule that; assumption)
      have w: "?w @ n @ ''/'' = written rooted (rev (n # st))" by (simp add: written_def)
      have "\<exists>x. normalize_loop (src + int (length n) + 1 + int k) (int (length (written rooted (rev (n # st))))) m' = Some x \<and>
          loop_post (src + int (length n) + 1 + int k + int (length r')) m' (resolve rooted (n # st) (path_names r')) x"
        by (rule less.hyps[OF r(2) m'(2)[unfolded w] m'(3)])
          (use r ne dir less.prems(3,6) w[THEN arg_cong[where f = length]] in simp_all)
      then obtain x where x: "normalize_loop src (int (length ?w)) m = Some x"
          "loop_post (src + int (length n) + 1 + int k + int (length r')) m' (resolve rooted (n # st) (path_names r')) x"
        using m'(1) unfolding w by auto
      have "loop_post (src + int (length r)) m (resolve rooted (n # st) (path_names r')) x"
        by (rule loop_post_mono[OF x(2)]) (use r(5) m'(4) in auto)
      then show ?thesis using x(1) 3 by (auto simp: pn)
    qed
  qed
qed

section \<open>The result\<close>

lemma resolve_names: "resolve rooted st ns = Some (ro, ns') \<Longrightarrow> set ns' \<subseteq> set st \<union> set ns"
  by (induction rooted st ns rule: resolve.induct) (auto split: if_splits list.splits)

lemma split_slash_sets: "n \<in> set (split_slash s) \<Longrightarrow> CHR ''/'' \<notin> set n \<and> set n \<subseteq> set s"
proof (induction s arbitrary: n)
  case (Cons c s)
  then show ?case by (auto split: if_splits list.splits) (metis list.set_intros(1) subsetD)+
qed simp

lemma path_names_sets: "n \<in> set (path_names s) \<Longrightarrow> n \<noteq> [] \<and> n \<noteq> ''.'' \<and> CHR ''/'' \<notin> set n \<and> set n \<subseteq> set s"
  by (auto simp: path_names_def dest: split_slash_sets)

lemma join_names_written: "ns \<noteq> [] \<Longrightarrow> written rooted ns = (if rooted then ''/'' else []) @ join_names ns @ ''/''"
  by (induction ns rule: join_names.induct) (simp_all add: written_def)

lemma last_neq: "c \<notin> set n \<Longrightarrow> n \<noteq> [] \<Longrightarrow> last n \<noteq> c"
  using last_in_set by fastforce

lemma join_names_last:
  "ns \<noteq> [] \<Longrightarrow> \<forall>n \<in> set ns. n \<noteq> [] \<and> CHR ''/'' \<notin> set n \<Longrightarrow> join_names ns \<noteq> [] \<and> last (join_names ns) \<noteq> CHR ''/''"
  by (induction ns rule: join_names.induct) (auto simp: last_neq)

lemma join_names_set: "set (join_names ns) \<subseteq> insert (CHR ''/'') (\<Union>(set ` set ns))"
  by (induction ns rule: join_names.induct) auto

text \<open>The block after the end of the loop: where the text is empty, the byte in front of it is read, and
  cleared when it is a slash.\<close>

lemma finish_spec:
  assumes "holds m 0 w" "NUL \<notin> set w" "w = written ro ns \<or> ns \<noteq> [] \<and> w @ ''/'' = written ro ns"
    and "\<forall>n \<in> set ns. n \<noteq> [] \<and> CHR ''/'' \<notin> set n"
  shows "\<exists>m'. (let m = m(int (length w) := NUL); dst = int (length w) - 1;
                 m = (if dst \<noteq> 0 \<and> m dst = CHR ''/'' then m(dst := NUL) else m)
             in (if m 0 = NUL then m(0 := CHR ''/'', 1 := NUL) else m)) = m' \<and>
           holds m' 0 (show_path ro ns @ [NUL]) \<and>
           (\<forall>i. i < - 1 \<or> 1 < i \<and> int (length w) < i \<longrightarrow> m' i = m i) \<and>
           m' (- 1) = (if \<not> ro \<and> ns = [] \<and> m (- 1) = CHR ''/'' then NUL else m (- 1))"
proof (cases "ns = []")
  case True
  then have "w = written ro []" using assms(3) by simp
  then show ?thesis using True assms(1) by (cases ro) (auto simp: written_def show_path_def)
next
  case False
  obtain v where v: "v \<noteq> []" "last v \<noteq> CHR ''/''" "show_path ro ns = v" "w = v @ ''/'' \<or> w = v"
  proof (rule that)
    let ?v = "(if ro then ''/'' else []) @ join_names ns"
    show "?v \<noteq> []" "last ?v \<noteq> CHR ''/''" "show_path ro ns = ?v"
      using join_names_last[OF False assms(4)] False by (auto simp: show_path_def)
    show "w = ?v @ ''/'' \<or> w = ?v" using assms(3) join_names_written[OF False, of ro] by auto
  qed
  obtain c0 v0 u c where u: "v = c0 # v0" "v = u @ [c]" "c \<noteq> CHR ''/''"
    using v(1,2) by (metis append_butlast_last_id list.exhaust)
  have m0: "m 0 \<noteq> NUL" using assms(1,2) v(4) u(1) by auto
  from v(4) show ?thesis
  proof
    assume w: "w = v @ ''/''"
    then have "m (int (length v)) = CHR ''/''" "holds m 0 v" "0 < length v" using assms(1) v(1) by auto
    then show ?thesis using w m0 v(3) False by (auto simp: Let_def)
  next
    assume w: "w = v"
    then have "m (int (length w) - 1) \<noteq> CHR ''/''" "0 < length w" using assms(1) u(2,3) by auto
    then show ?thesis using w m0 v(3) False assms(1) by (auto simp: Let_def)
  qed
qed

lemma put_string_outside [simp]: "i < 0 \<or> int (length s) < i \<Longrightarrow> put_string s m i = m i"
  by (auto simp: put_string_def)

lemma loop_start:
  assumes "holds m 0 (full @ [NUL])" "NUL \<notin> set full"
  shows "\<exists>x. normalize_loop 0 0 m = Some x \<and>
    loop_post (int (length full)) m (resolve (is_absolute full) [] (path_names full)) x"
proof (cases "is_absolute full")
  case False
  then show ?thesis using loop_spec[of m False "[]" 0 full] assms by (auto simp: written_def is_absolute_def)
next
  case True
  then obtain s where "full = CHR ''/'' # s" by (auto simp: is_absolute_def neq_Nil_conv)
  then obtain k r where full: "full = [] @ CHR ''/'' # replicate k (CHR ''/'') @ r" "no_slash r"
    using leading_slashes[of s] by auto
  obtain m' where m': "normalize_loop 0 0 m = normalize_loop (1 + int k) 1 m'"
      "holds m' 0 ''/''" "holds m' (1 + int k) (r @ [NUL])" "\<And>i. i < 0 \<or> 0 < i \<Longrightarrow> m' i = m i"
    using name_dir[of m "[]" 0 "[]" k r] full assms by (auto simp: algebra_simps)
  have "\<exists>x. normalize_loop (1 + int k) (int (length (written True (rev [])))) m' = Some x \<and>
      loop_post (1 + int k + int (length r)) m' (resolve True [] (path_names r)) x"
    by (rule loop_spec) (use m' full assms(2) in \<open>simp_all add: written_def\<close>)
  then obtain x where x: "normalize_loop 0 0 m = Some x" "loop_post (1 + int k + int (length r)) m' (resolve True [] (path_names r)) x"
    using m'(1) by (auto simp: written_def)
  have "loop_post (int (length full)) m (resolve True [] (path_names r)) x"
    by (rule loop_post_mono[OF x(2)]) (use full(1) m'(4) in auto)
  then show ?thesis using x(1) True full(1) by simp
qed

theorem normalize_block_resolves:
  assumes "NUL \<notin> set full" "full \<noteq> []"
  shows "case resolve (is_absolute full) [] (path_names full) of
      None \<Rightarrow> normalize_block (put_string full m) = Some None
    | Some (ro, ns) \<Rightarrow> \<exists>m'. normalize_block (put_string full m) = Some (Some m') \<and>
        holds m' 0 (show_path ro ns @ [NUL]) \<and> (\<forall>i. i < - 1 \<or> int (length full) < i \<longrightarrow> m' i = m i) \<and>
        m' (- 1) = (if \<not> ro \<and> ns = [] \<and> m (- 1) = CHR ''/'' then NUL else m (- 1))"
proof -
  let ?m = "put_string full m"
  obtain x where x: "normalize_loop 0 0 ?m = Some x"
      "loop_post (int (length full)) ?m (resolve (is_absolute full) [] (path_names full)) x"
    using loop_start[OF holds_put assms(1)] by blast
  show ?thesis
  proof (cases "resolve (is_absolute full) [] (path_names full)")
    case None
    then show ?thesis using x by (simp add: normalize_block_def)
  next
    case (Some p)
    obtain ro ns where p: "p = (ro, ns)" by force
    have sets: "n \<noteq> [] \<and> CHR ''/'' \<notin> set n \<and> NUL \<notin> set n" if "n \<in> set ns" for n
      using resolve_names[OF Some[unfolded p]] path_names_sets[of n full] that assms(1) by auto
    obtain w m1 where w: "x = Some (int (length w), m1)" "holds m1 0 w" "int (length w) \<le> int (length full)"
        "w = written ro ns \<or> ns \<noteq> [] \<and> w @ ''/'' = written ro ns" "\<And>i. i < 0 \<or> int (length full) \<le> i \<Longrightarrow> m1 i = ?m i"
      using x(2)[unfolded Some p loop_post.simps] by blast
    have "NUL \<notin> set (written ro ns)" using sets by (auto simp: written_def)
    moreover have "set w \<subseteq> set (written ro ns)" using w(4) by (metis Un_upper1 set_append subset_refl)
    ultimately have nul: "NUL \<notin> set w" by blast
    obtain m' where m': "normalize_block ?m = Some (Some m')" "holds m' 0 (show_path ro ns @ [NUL])"
        "\<And>i. i < - 1 \<or> 1 < i \<and> int (length w) < i \<Longrightarrow> m' i = m1 i"
        "m' (- 1) = (if \<not> ro \<and> ns = [] \<and> m1 (- 1) = CHR ''/'' then NUL else m1 (- 1))"
      using finish_spec[OF w(2) nul w(4)] sets x(1) w(1) by (auto simp: normalize_block_def Let_def)
    have "m' i = m i" if "i < - 1 \<or> int (length full) < i" for i
    proof -
      have "0 < length full" using assms(2) by simp
      then have "i < - 1 \<or> 1 < i \<and> int (length w) < i" "i < 0 \<or> int (length full) \<le> i" using that w(3) by linarith+
      then show ?thesis using m'(3)[of i] w(5)[of i] that by auto
    qed
    then show ?thesis using m' w(5)[of "- 1"] by (auto simp: Some p)
  qed
qed

section \<open>Properties\<close>

lemma resolves_aux:
  assumes "NUL \<notin> set (full_name directory filename)"
  shows "dfs_normalize_path (Some m) wd (Some directory) filename =
    Some (map_option (\<lambda>(ro, ns). show_path ro ns)
      (resolve (is_absolute (full_name directory filename)) [] (path_names (full_name directory filename))))"
proof -
  let ?f = "full_name directory filename"
  have ne: "?f \<noteq> []" by (auto simp: full_name_def is_absolute_def)
  show ?thesis
  proof (cases "resolve (is_absolute ?f) [] (path_names ?f)")
    case None
    then show ?thesis using normalize_block_resolves[OF assms ne, of m] by (simp add: dfs_normalize_path_def)
  next
    case (Some p)
    obtain ro ns where p: "p = (ro, ns)" by force
    obtain m' where m': "normalize_block (put_string ?f m) = Some (Some m')" "holds m' 0 (show_path ro ns @ [NUL])"
      using normalize_block_resolves[OF assms ne, of m] unfolding Some p by auto
    have "NUL \<notin> set n" if "n \<in> set ns" for n
      using resolve_names[OF Some[unfolded p]] path_names_sets[of n ?f] that assms by auto
    then have "NUL \<notin> set (show_path ro ns)" using join_names_set[of ns] by (auto simp: show_path_def)
    then show ?thesis using m' string_at_holds[OF m'(2)] Some by (simp add: dfs_normalize_path_def p)
  qed
qed

lemma normalize_pathE:
  assumes "NUL \<notin> set (full_name d filename)" "dfs_normalize_path (Some m) wd (Some d) filename = Some (Some p)"
  obtains ro ns where "resolve (is_absolute (full_name d filename)) [] (path_names (full_name d filename)) = Some (ro, ns)"
    "p = show_path ro ns"
  using resolves_aux[OF assms(1), of m wd] assms(2) that
  by (cases "resolve (is_absolute (full_name d filename)) [] (path_names (full_name d filename))") auto

text \<open>C27. What \<^verbatim>\<open>dfs_normalize_path\<close> returns, for every directory and file name: the null pointer
  when the path goes up twice from the root, otherwise the names that are left, behind a slash
  unless the path went up from the root once.\<close>

theorem normalize_path_resolves:
  assumes "NUL \<notin> set (full_name directory filename)"
  shows "dfs_normalize_path (Some m) wd (Some directory) filename =
    Some (map_option (\<lambda>(ro, ns). show_path ro ns)
      (resolve (is_absolute (full_name directory filename)) [] (path_names (full_name directory filename))))"
  by (rule resolves_aux[OF assms])

theorem normalize_path_resolves_witness:
  "dfs_normalize_path (Some (\<lambda>_. NUL)) ''/'' (Some ''/sd'') ''a//./b/../c/'' = Some (Some ''/sd/a/c'')"
  using normalize_path_resolves[of "''/sd''" "''a//./b/../c/''" "\<lambda>_. NUL" "''/''"]
  by (simp add: full_name_def is_absolute_def path_names_def show_path_def)

text \<open>The normalisation changes a byte outside its block exactly when the path goes up once from the root
  and ends there and the last byte of the header of the block is a slash: it clears that byte.\<close>

theorem normalize_block_inside:
  assumes "NUL \<notin> set full" "full \<noteq> []" "normalize_block (put_string full m) = Some (Some m')"
  shows "(\<exists>i. (i < 0 \<or> int (length full) < i) \<and> m' i \<noteq> m i) \<longleftrightarrow>
    resolve (is_absolute full) [] (path_names full) = Some (False, []) \<and> m (- 1) = CHR ''/''"
proof (cases "resolve (is_absolute full) [] (path_names full)")
  case None
  then show ?thesis using normalize_block_resolves[OF assms(1,2), of m] assms(3) by simp
next
  case (Some p)
  obtain ro ns where p: "p = (ro, ns)" by force
  have m': "\<And>i. i < - 1 \<or> int (length full) < i \<Longrightarrow> m' i = m i"
      "m' (- 1) = (if \<not> ro \<and> ns = [] \<and> m (- 1) = CHR ''/'' then NUL else m (- 1))"
    using normalize_block_resolves[OF assms(1,2), of m] assms(3) unfolding Some p by auto
  have "(\<exists>i. (i < 0 \<or> int (length full) < i) \<and> m' i \<noteq> m i) \<longleftrightarrow> m' (- 1) \<noteq> m (- 1)" (is "?l \<longleftrightarrow> _")
  proof
    assume ?l
    then obtain i where i: "i < 0 \<or> int (length full) < i" "m' i \<noteq> m i" by blast
    then have "i = - 1" using m'(1)[of i] by linarith
    then show "m' (- 1) \<noteq> m (- 1)" using i(2) by simp
  qed (intro exI[of _ "- 1"], simp)
  then show ?thesis using m'(2) by (auto simp: Some p)
qed

theorem normalize_block_inside_witness:
  "\<exists>m'. normalize_block (put_string ''/..'' (\<lambda>_. CHR ''/'')) = Some (Some m') \<and> (\<exists>i. (i < 0 \<or> 3 < i) \<and> m' i \<noteq> CHR ''/'')"
proof -
  obtain m' where "normalize_block (put_string ''/..'' (\<lambda>_. CHR ''/'')) = Some (Some m')"
    using normalize_block_resolves[of "''/..''" "\<lambda>_. CHR ''/''"] by (auto simp: is_absolute_def path_names_def)
  then show ?thesis
    using normalize_block_inside[of "''/..''" "\<lambda>_. CHR ''/''" m'] by (simp add: is_absolute_def path_names_def)
qed

text \<open>Of an absolute name it returns a path without a slash in front exactly when names follow a
  step up from the root.\<close>

lemma join_names_start:
  "ns \<noteq> [] \<Longrightarrow> \<forall>n \<in> set ns. n \<noteq> [] \<and> CHR ''/'' \<notin> set n \<Longrightarrow> \<not> is_absolute (join_names ns)"
  by (cases ns rule: join_names.cases) (auto simp: is_absolute_def hd_append dest: hd_in_set)

theorem normalize_path_relative:
  assumes "NUL \<notin> set filename" "is_absolute filename" "dfs_normalize_path (Some m) wd (Some d) filename = Some (Some p)"
  shows "\<not> is_absolute p \<longleftrightarrow> (\<exists>ns. ns \<noteq> [] \<and> resolve True [] (path_names filename) = Some (False, ns))"
proof -
  have f: "full_name d filename = filename" using assms(2) by (simp add: full_name_def)
  obtain ro ns where r: "resolve True [] (path_names filename) = Some (ro, ns)" "p = show_path ro ns"
    using normalize_pathE[of d filename m wd p] assms unfolding f by auto
  have "\<forall>n \<in> set ns. n \<noteq> [] \<and> CHR ''/'' \<notin> set n"
    using resolve_names[OF r(1)] path_names_sets[of _ filename] by auto
  then show ?thesis using r join_names_start[of ns] by (auto simp: show_path_def is_absolute_def)
qed

theorem normalize_path_relative_witness:
  "\<exists>p. dfs_normalize_path (Some (\<lambda>_. NUL)) ''/'' (Some ''/'') ''/../a'' = Some (Some p) \<and> \<not> is_absolute p"
proof -
  obtain p where p: "dfs_normalize_path (Some (\<lambda>_. NUL)) ''/'' (Some ''/'') ''/../a'' = Some (Some p)"
    using resolves_aux[of "''/''" "''/../a''" "\<lambda>_. NUL" "''/''"]
    by (simp add: full_name_def is_absolute_def path_names_def)
  then show ?thesis
    using normalize_path_relative[of "''/../a''" "\<lambda>_. NUL" "''/''" "''/''" p] by (simp add: is_absolute_def path_names_def)
qed

text \<open>The names of a normalised path are the names it was made of, so that normalising again changes
  nothing.\<close>

lemma path_names_show:
  "\<forall>n \<in> set ns. n \<noteq> [] \<and> n \<noteq> ''.'' \<and> CHR ''/'' \<notin> set n \<Longrightarrow> path_names (show_path ro ns) = ns"
proof -
  assume "\<forall>n \<in> set ns. n \<noteq> [] \<and> n \<noteq> ''.'' \<and> CHR ''/'' \<notin> set n"
  then have "path_names (join_names ns) = ns"
    by (induction ns rule: join_names.induct) (simp_all add: path_names_name path_names_append)
  then show ?thesis by (simp add: show_path_def)
qed

lemma resolve_plain: "''..'' \<notin> set ns \<Longrightarrow> resolve ro st ns = Some (ro, rev st @ ns)"
  by (induction ns arbitrary: st) auto

lemma resolve_no_dots: "resolve ro st ns = Some (ro', ns') \<Longrightarrow> ''..'' \<notin> set st \<Longrightarrow> ''..'' \<notin> set ns'"
  by (induction ro st ns rule: resolve.induct) (auto split: if_splits list.splits)

theorem normalize_path_idempotent:
  assumes "NUL \<notin> set (full_name d filename)" "dfs_normalize_path (Some m) wd (Some d) filename = Some (Some p)" "is_absolute p"
  shows "dfs_normalize_path (Some m') wd' (Some d') p = Some (Some p)"
proof -
  let ?f = "full_name d filename"
  obtain ro ns where r: "resolve (is_absolute ?f) [] (path_names ?f) = Some (ro, ns)" "p = show_path ro ns"
    by (rule normalize_pathE[OF assms(1,2)])
  have n: "n \<noteq> [] \<and> n \<noteq> ''.'' \<and> CHR ''/'' \<notin> set n \<and> NUL \<notin> set n" if "n \<in> set ns" for n
    using resolve_names[OF r(1)] path_names_sets[of n ?f] that assms(1) by auto
  have "NUL \<notin> set p" using n join_names_set[of ns] by (auto simp: r(2) show_path_def)
  moreover have "full_name d' p = p" using assms(3) by (simp add: full_name_def)
  moreover have "path_names p = ns" using n unfolding r(2) by (intro path_names_show) blast
  moreover have "resolve True [] ns = Some (True, ns)" using resolve_no_dots[OF r(1)] by (simp add: resolve_plain)
  moreover have "show_path True ns = p"
    using assms(3) join_names_start[of ns] n by (cases ro) (auto simp: r(2) show_path_def split: if_splits)
  ultimately show ?thesis using resolves_aux[of d' p m' wd'] assms(3) by simp
qed

theorem normalize_path_idempotent_witness:
  "dfs_normalize_path (Some (\<lambda>_. NUL)) ''/'' (Some ''/x'') ''/sd/c'' = Some (Some ''/sd/c'')"
proof (rule normalize_path_idempotent)
  show "dfs_normalize_path (Some (\<lambda>_. NUL)) ''/'' (Some ''/sd'') ''a/../c'' = Some (Some ''/sd/c'')"
    using resolves_aux[of "''/sd''" "''a/../c''" "\<lambda>_. NUL" "''/''"]
    by (simp add: full_name_def is_absolute_def path_names_def show_path_def)
qed (simp_all add: full_name_def is_absolute_def)

end
