(* ===== verification/Rtt_Dfs.thy ===== *)
theory Rtt_Dfs
  imports Rtt_Device Rtt_Locked Rtt_Path
begin

text \<open>
  The tables of the device file system (\<^verbatim>\<open>rt-thread/components/dfs/src/dfs.c\<close>, \<^verbatim>\<open>dfs_fs.c\<close>):
  registered file systems, mounted file systems and file descriptors, beside the devices. File
  systems are a parameter, tables of optional functions that may change everything; structures are
  referred to by numbers. The answers of the heap to the allocations of a call are in a record. Every
  section under the lock of the file system takes its mutex; \<open>None\<close> also where the caller would
  have to wait for it. Error numbers are those of \<^verbatim>\<open>libc_errno.h\<close>.
\<close>

section \<open>State\<close>

abbreviation (input) ENOENT :: int where "ENOENT \<equiv> 2"
abbreviation (input) EIO :: int where "EIO \<equiv> 5"
abbreviation (input) ENXIO :: int where "ENXIO \<equiv> 6"
abbreviation (input) EBADF :: int where "EBADF \<equiv> 9"
abbreviation (input) ENOMEM :: int where "ENOMEM \<equiv> 12"
abbreviation (input) EBUSY :: int where "EBUSY \<equiv> 16"
abbreviation (input) EEXIST :: int where "EEXIST \<equiv> 17"
abbreviation (input) EXDEV :: int where "EXDEV \<equiv> 18"
abbreviation (input) ENODEV :: int where "ENODEV \<equiv> 19"
abbreviation (input) ENOTDIR :: int where "ENOTDIR \<equiv> 20"
abbreviation (input) EINVAL :: int where "EINVAL \<equiv> 22"
abbreviation (input) ENOSPC :: int where "ENOSPC \<equiv> 28"
abbreviation (input) ENOSYS :: int where "ENOSYS \<equiv> 38"

abbreviation (input) DFS_FILESYSTEMS_MAX :: nat where "DFS_FILESYSTEMS_MAX \<equiv> 4"
abbreviation (input) DFS_FILESYSTEM_TYPES_MAX :: nat where "DFS_FILESYSTEM_TYPES_MAX \<equiv> 4"
abbreviation (input) DFS_FD_MAX :: nat where "DFS_FD_MAX \<equiv> 16"
abbreviation (input) DFS_FD_OFFSET :: int where "DFS_FD_OFFSET \<equiv> 3"
abbreviation (input) DFS_FD_MAGIC :: rt_uint16 where "DFS_FD_MAGIC \<equiv> 0xfdfd"
abbreviation (input) DFS_PATH_MAX :: nat where "DFS_PATH_MAX \<equiv> 256"

text \<open>The private data of a mounted file system belongs to its driver. The \<^verbatim>\<open>data\<close> of a descriptor
  points to its file system until the driver puts something else there: the device file system a
  device, or the devices its directory lists, with the position reached.\<close>

datatype fd_data = OfMount nat | OfDevice nat | OfDevices "oref list" nat

record dfs_filesystem =
  dev_id :: "nat option"
  fs_path :: "string option"
  fs_ops :: "nat option"

record dfs_fd =
  magic :: rt_uint16
  fd_type :: rt_uint16
  fd_path :: "string option"
  fd_ref :: int
  fd_fops :: "nat option"
  fd_flags :: rt_uint32
  fd_size :: rt_uint32
  fd_pos :: int
  fd_data :: "fd_data option"

definition zero_fd :: dfs_fd where
  "zero_fd = \<lparr>magic = 0, fd_type = 0, fd_path = None, fd_ref = 0, fd_fops = None, fd_flags = 0,
     fd_size = 0, fd_pos = 0, fd_data = None\<rparr>"

definition empty_fs :: dfs_filesystem where
  "empty_fs = \<lparr>dev_id = None, fs_path = None, fs_ops = None\<rparr>"

text \<open>\<open>fds\<close> has \<^verbatim>\<open>maxfd\<close> entries; \<open>fd_mem\<close> are the allocated descriptors.\<close>

record dfs = devices +
  fslock :: nat
  working_directory :: string
  filesystem_operation_table :: "nat option list"
  filesystem_table :: "dfs_filesystem list"
  fds :: "nat option list"
  fd_mem :: "nat \<Rightarrow> dfs_fd option"

definition upd_fd :: "nat \<Rightarrow> (dfs_fd \<Rightarrow> dfs_fd) \<Rightarrow> 'a dfs_scheme \<Rightarrow> 'a dfs_scheme" where
  "upd_fd p f s = s\<lparr>fd_mem := (fd_mem s)(p := map_option f (fd_mem s p))\<rparr>"

definition set_errno :: "int \<Rightarrow> 'a dfs_scheme \<Rightarrow> 'a dfs_scheme" where
  "set_errno e s = s\<lparr>dv_kernel := rt_set_errno e (dv_kernel s)\<rparr>"

text \<open>The fields that are set of \<^verbatim>\<open>struct stat\<close>, which the C library defines.\<close>

record stat =
  st_mode :: rt_uint32
  st_size :: rt_uint32
  st_mtime :: rt_uint32

record statfs =
  f_bsize :: rt_uint32
  f_blocks :: rt_uint32
  f_bfree :: rt_uint32

text \<open>\<^verbatim>\<open>struct dfs_filesystem_ops\<close> and \<^verbatim>\<open>struct dfs_file_ops\<close>; the first argument is the
  number of the entry in the table of mounted file systems, or of the descriptor. Buffers that are
  filled are passed and returned.\<close>

record 's dfs_filesystem_ops =
  fo_name :: string
  fo_flags :: rt_uint32
  fo_fops :: nat
  fo_mount :: "(nat \<Rightarrow> rt_uint32 \<Rightarrow> nat \<Rightarrow> 's \<Rightarrow> ('s \<times> int) option) option"
  fo_unmount :: "(nat \<Rightarrow> 's \<Rightarrow> ('s \<times> int) option) option"
  fo_mkfs :: "(nat \<Rightarrow> 's \<Rightarrow> ('s \<times> int) option) option"
  fo_statfs :: "(nat \<Rightarrow> 's \<Rightarrow> ('s \<times> int \<times> statfs) option) option"
  fo_unlink :: "(nat \<Rightarrow> string \<Rightarrow> 's \<Rightarrow> ('s \<times> int) option) option"
  fo_stat :: "(nat \<Rightarrow> string \<Rightarrow> 's \<Rightarrow> ('s \<times> int \<times> stat) option) option"
  fo_rename :: "(nat \<Rightarrow> string option \<Rightarrow> string option \<Rightarrow> 's \<Rightarrow> ('s \<times> int) option) option"

record 's dfs_file_ops =
  f_open :: "(nat \<Rightarrow> 's \<Rightarrow> ('s \<times> int) option) option"
  f_close :: "(nat \<Rightarrow> 's \<Rightarrow> ('s \<times> int) option) option"
  f_ioctl :: "(nat \<Rightarrow> int \<Rightarrow> rt_uint32 \<Rightarrow> 's \<Rightarrow> ('s \<times> int) option) option"
  f_read :: "(nat \<Rightarrow> rt_uint32 \<Rightarrow> 's \<Rightarrow> ('s \<times> int \<times> rt_uint8 list) option) option"
  f_write :: "(nat \<Rightarrow> rt_uint8 list \<Rightarrow> 's \<Rightarrow> ('s \<times> int) option) option"
  f_flush :: "(nat \<Rightarrow> 's \<Rightarrow> ('s \<times> int) option) option"
  f_lseek :: "(nat \<Rightarrow> int \<Rightarrow> 's \<Rightarrow> ('s \<times> int) option) option"
  f_getdents :: "(nat \<Rightarrow> rt_uint8 list \<Rightarrow> 's \<Rightarrow> ('s \<times> int \<times> rt_uint8 list) option) option"

record 's drivers =
  dv_ops :: "nat \<Rightarrow> 's device_ops"
  fs_type :: "nat \<Rightarrow> 's dfs_filesystem_ops"
  file_ops :: "nat \<Rightarrow> 's dfs_file_ops"

text \<open>What the heap gives: whether the table of descriptors can grow, a new descriptor, blocks for paths
  in the order of the allocations, and whether a path can be copied.\<close>

record answers =
  grow :: bool
  cell :: "nat option"
  blocks :: "nat \<Rightarrow> block option"
  dup :: bool

section \<open>The lock\<close>

partial_function (option) dfs_lock :: "'a dfs_scheme \<Rightarrow> 'a dfs_scheme option" where
  "dfs_lock s = Option.bind (rt_mutex_take (fslock s) (- 1) (dv_kernel s)) (\<lambda>(k, r).
     if r = Done (- RT_EBUSY) then dfs_lock (s\<lparr>dv_kernel := k\<rparr>)
     else Option.bind (RT_ASSERT (r = Done RT_EOK)) (\<lambda>_. Some (s\<lparr>dv_kernel := k\<rparr>)))"

definition dfs_unlock :: "'a dfs_scheme \<Rightarrow> 'a dfs_scheme option" where
  "dfs_unlock s = map_option (\<lambda>(k, _). s\<lparr>dv_kernel := k\<rparr>) (rt_mutex_release (fslock s) (dv_kernel s))"

definition dfs_locked :: "('a dfs_scheme \<Rightarrow> ('a dfs_scheme \<times> 'r) option) \<Rightarrow> 'a dfs_scheme \<Rightarrow> ('a dfs_scheme \<times> 'r) option" where
  "dfs_locked body s = do { s \<leftarrow> dfs_lock s; (s, x) \<leftarrow> body s; s \<leftarrow> dfs_unlock s; Some (s, x) }"

section \<open>File systems\<close>

text \<open>The scan of \<^verbatim>\<open>dfs_register\<close>: the first free entry before the one with the name, if any, and
  whether there is one.\<close>

fun register_scan :: "(nat \<Rightarrow> string) \<Rightarrow> string \<Rightarrow> nat \<Rightarrow> nat option list \<Rightarrow> nat option \<Rightarrow> nat option \<times> bool" where
  "register_scan name nm i [] entry = (entry, False)"
| "register_scan name nm i (None # xs) entry =
     register_scan name nm (Suc i) xs (if entry = None then Some i else entry)"
| "register_scan name nm i (Some t # xs) entry =
     (if name t = nm then (entry, True) else register_scan name nm (Suc i) xs entry)"

definition dfs_register :: "('a dfs_scheme) drivers \<Rightarrow> nat \<Rightarrow> 'a dfs_scheme \<Rightarrow> ('a dfs_scheme \<times> int) option" where
  "dfs_register D ops = dfs_locked (\<lambda>s.
     let (entry, found) = register_scan (\<lambda>t. fo_name (fs_type D t)) (fo_name (fs_type D ops)) 0 (filesystem_operation_table s) None;
         s = (if found then set_errno (- EEXIST) s else s);
         ret = (if found then - 1 else RT_EOK)
     in case entry of
          None \<Rightarrow> Some (set_errno (- ENOSPC) s, - 1)
        | Some i \<Rightarrow>
            if ret = RT_EOK then Some (s\<lparr>filesystem_operation_table := (filesystem_operation_table s)[i := Some ops]\<rparr>, ret)
            else Some (s, ret))"

text \<open>The scan of \<^verbatim>\<open>dfs_filesystem_lookup\<close>, with \<^verbatim>\<open>fs\<close> and \<^verbatim>\<open>prefixlen\<close>.\<close>

fun lookup_scan :: "string \<Rightarrow> nat \<Rightarrow> dfs_filesystem list \<Rightarrow> nat option \<Rightarrow> nat \<Rightarrow> nat option" where
  "lookup_scan path i [] fs prefixlen = fs"
| "lookup_scan path i (x # xs) fs prefixlen =
     (case fs_path x of
        None \<Rightarrow> lookup_scan path (Suc i) xs fs prefixlen
      | Some p \<Rightarrow>
          let fspath = length p in
          if fs_ops x = None then lookup_scan path (Suc i) xs fs prefixlen
          else if fspath < prefixlen \<or> take fspath path \<noteq> p then lookup_scan path (Suc i) xs fs prefixlen
          else if fspath > 1 \<and> length path > fspath \<and> path ! fspath \<noteq> CHR ''/'' then lookup_scan path (Suc i) xs fs prefixlen
          else lookup_scan path (Suc i) xs (Some i) fspath)"

definition dfs_filesystem_lookup :: "string \<Rightarrow> 'a dfs_scheme \<Rightarrow> ('a dfs_scheme \<times> nat option) option" where
  "dfs_filesystem_lookup path = dfs_locked (\<lambda>s. Some (s, lookup_scan path 0 (filesystem_table s) None 0))"

definition dfs_filesystem_get_mounted_path :: "nat option \<Rightarrow> 'a dfs_scheme \<Rightarrow> ('a dfs_scheme \<times> string option) option" where
  "dfs_filesystem_get_mounted_path device = dfs_locked (\<lambda>s.
     Some (s, case find (\<lambda>x. fs_ops x \<noteq> None \<and> dev_id x = device) (filesystem_table s) of
        None \<Rightarrow> None | Some x \<Rightarrow> fs_path x))"

section \<open>Descriptors\<close>

fun fd_scan :: "(nat \<Rightarrow> dfs_fd option) \<Rightarrow> nat option list \<Rightarrow> nat \<Rightarrow> nat option" where
  "fd_scan m [] i = Some i"
| "fd_scan m (None # xs) i = Some i"
| "fd_scan m (Some p # xs) i = do { d \<leftarrow> m p; (if fd_ref d = 0 then Some i else fd_scan m xs (Suc i)) }"

definition fd_alloc :: "answers \<Rightarrow> nat \<Rightarrow> 'a dfs_scheme \<Rightarrow> ('a dfs_scheme \<times> nat) option" where
  "fd_alloc h startfd s = do {
     idx \<leftarrow> fd_scan (fd_mem s) (drop startfd (fds s)) startfd;
     let maxfd = length (fds s);
     (if idx = maxfd \<and> maxfd < DFS_FD_MAX \<and> \<not> grow h then Some (s, idx)
      else
        let s = (if idx = maxfd \<and> maxfd < DFS_FD_MAX
                 then s\<lparr>fds := fds s @ replicate (min (maxfd + 4) DFS_FD_MAX - maxfd) None\<rparr> else s)
        in if idx < length (fds s) \<and> fds s ! idx = None then
             (case cell h of
                None \<Rightarrow> Some (s, length (fds s))
              | Some p \<Rightarrow> Some (s\<lparr>fds := (fds s)[idx := Some p], fd_mem := (fd_mem s)(p \<mapsto> zero_fd)\<rparr>, idx))
           else Some (s, idx))
   }"

definition fd_new :: "answers \<Rightarrow> 'a dfs_scheme \<Rightarrow> ('a dfs_scheme \<times> int) option" where
  "fd_new h = dfs_locked (\<lambda>s. do {
     (s, idx) \<leftarrow> fd_alloc h 0 s;
     (if idx = length (fds s) then Some (s, - (1 + DFS_FD_OFFSET) + DFS_FD_OFFSET)
      else do {
        p \<leftarrow> fds s ! idx;
        d \<leftarrow> fd_mem s p;
        Some (upd_fd p (\<lambda>d. d\<lparr>fd_ref := 1, magic := DFS_FD_MAGIC\<rparr>) s, int idx + DFS_FD_OFFSET)
      })
   })"

definition fd_get :: "int \<Rightarrow> 'a dfs_scheme \<Rightarrow> ('a dfs_scheme \<times> nat option) option" where
  "fd_get fd s =
     (let fd = fd - DFS_FD_OFFSET in
      if fd < 0 \<or> fd \<ge> int (length (fds s)) then Some (s, None)
      else dfs_locked (\<lambda>s. do {
        p \<leftarrow> fds s ! nat fd;
        d \<leftarrow> fd_mem s p;
        (if magic d \<noteq> DFS_FD_MAGIC then Some (s, None)
         else Some (upd_fd p (\<lambda>d. d\<lparr>fd_ref := fd_ref d + 1\<rparr>) s, Some p))
      }) s)"

fun fd_clear :: "nat \<Rightarrow> nat option list \<Rightarrow> nat option list" where
  "fd_clear p [] = []"
| "fd_clear p (x # xs) = (if x = Some p then None # xs else x # fd_clear p xs)"

definition fd_put :: "nat option \<Rightarrow> 'a dfs_scheme \<Rightarrow> ('a dfs_scheme \<times> unit) option" where
  "fd_put fd s = do {
     RT_ASSERT (fd \<noteq> None);
     p \<leftarrow> fd;
     dfs_locked (\<lambda>s. do {
       d \<leftarrow> fd_mem s p;
       let s = upd_fd p (\<lambda>d. d\<lparr>fd_ref := fd_ref d - 1\<rparr>) s;
       Some (if fd_ref d - 1 = 0 \<and> Some p \<in> set (fds s)
             then s\<lparr>fds := fd_clear p (fds s), fd_mem := (fd_mem s)(p := None)\<rparr> else s, ())
     }) s
   }"

text \<open>The search of \<^verbatim>\<open>fd_is_open\<close>.\<close>

fun open_scan :: "(nat \<Rightarrow> dfs_fd option) \<Rightarrow> nat option list \<Rightarrow> nat \<Rightarrow> string \<Rightarrow> bool option" where
  "open_scan m [] fops mountpath = Some False"
| "open_scan m (None # xs) fops mountpath = open_scan m xs fops mountpath"
| "open_scan m (Some p # xs) fops mountpath = do {
     d \<leftarrow> m p;
     (if fd_fops d = None \<or> fd_path d = None then open_scan m xs fops mountpath
      else if fd_fops d = Some fops \<and> fd_path d = Some mountpath then Some True
      else open_scan m xs fops mountpath)
   }"

definition normalize :: "block option \<Rightarrow> string \<Rightarrow> 'a dfs_scheme \<Rightarrow> string option option" where
  "normalize mem path s = dfs_normalize_path mem (working_directory s) None path"

definition fd_is_open :: "('a dfs_scheme) drivers \<Rightarrow> block option \<Rightarrow> string \<Rightarrow> 'a dfs_scheme \<Rightarrow> ('a dfs_scheme \<times> int) option" where
  "fd_is_open D mem pathname s = do {
     r \<leftarrow> normalize mem pathname s;
     (case r of
        None \<Rightarrow> Some (s, - 1)
      | Some fullpath \<Rightarrow> do {
          (s, fs) \<leftarrow> dfs_filesystem_lookup fullpath s;
          (case fs of
             None \<Rightarrow> Some (s, - 1)
           | Some i \<Rightarrow> do {
               p \<leftarrow> fs_path (filesystem_table s ! i);
               ops \<leftarrow> fs_ops (filesystem_table s ! i);
               let mountpath = (if p = ''/'' then fullpath else drop (length p) fullpath);
               dfs_locked (\<lambda>s. do {
                 found \<leftarrow> open_scan (fd_mem s) (fds s) (fo_fops (fs_type D ops)) mountpath;
                 Some (s, if found then 0 else - 1)
               }) s
             })
        })
   }"

declare upd_fd_def [simp] set_errno_def [simp]

section \<open>Sections under the lock\<close>

abbreviation dfs_ready :: "'a dfs_scheme \<Rightarrow> bool" where
  "dfs_ready s \<equiv> can_lock (fslock s) (dv_kernel s)"

lemma dfs_locked_general:
  assumes "dfs_ready s"
    and "\<And>k. lock_held (fslock s) k \<Longrightarrow> \<exists>s1. body (s\<lparr>dv_kernel := k\<rparr>) = Some (s1, x) \<and> lock_held (fslock s1) (dv_kernel s1) \<and>
           (\<forall>k. P (s1\<lparr>dv_kernel := k\<rparr>))"
  shows "\<exists>s'. dfs_locked body s = Some (s', x) \<and> dfs_ready s' \<and> P s'"
proof -
  obtain k1 where k1: "rt_mutex_take (fslock s) (- 1) (dv_kernel s) = Some (k1, Done RT_EOK)" "lock_held (fslock s) k1"
    by (rule lock_take[OF assms(1)])
  obtain s1 where s1: "body (s\<lparr>dv_kernel := k1\<rparr>) = Some (s1, x)" "lock_held (fslock s1) (dv_kernel s1)" "\<forall>k. P (s1\<lparr>dv_kernel := k\<rparr>)"
    using assms(2)[OF k1(2)] by blast
  obtain k2 where k2: "rt_mutex_release (fslock s1) (dv_kernel s1) = Some (k2, RT_EOK)" "can_lock (fslock s1) k2"
    by (rule lock_release[OF s1(2)]) (rule that; assumption)
  have "dfs_lock s = Some (s\<lparr>dv_kernel := k1\<rparr>)" using k1(1) by (subst dfs_lock.simps) simp
  then show ?thesis using s1 k2 by (intro exI[of _ "s1\<lparr>dv_kernel := k2\<rparr>"]) (simp add: dfs_locked_def dfs_unlock_def)
qed

text \<open>Where the section leaves the kernel alone.\<close>

definition same_tables :: "'a dfs_scheme \<Rightarrow> 'a dfs_scheme \<Rightarrow> bool" where
  "same_tables s s' \<longleftrightarrow> (\<exists>k. s' = s\<lparr>dv_kernel := k\<rparr>)"

lemma dfs_locked_run:
  assumes "dfs_ready s" "\<And>k. body (s\<lparr>dv_kernel := k\<rparr>) = Some (s1\<lparr>dv_kernel := k\<rparr>, x)" "fslock s1 = fslock s"
  shows "\<exists>s'. dfs_locked body s = Some (s', x) \<and> dfs_ready s' \<and> same_tables s1 s'"
  by (rule dfs_locked_general[OF assms(1)]) (use assms(2,3) in \<open>auto simp: same_tables_def\<close>)

lemma dfs_locked_None:
  assumes "dfs_ready s" "\<And>k. body (s\<lparr>dv_kernel := k\<rparr>) = None"
  shows "dfs_locked body s = None"
proof -
  obtain k1 where k1: "rt_mutex_take (fslock s) (- 1) (dv_kernel s) = Some (k1, Done RT_EOK)" "lock_held (fslock s) k1"
    by (rule lock_take[OF assms(1)])
  have "dfs_lock s = Some (s\<lparr>dv_kernel := k1\<rparr>)" using k1(1) by (subst dfs_lock.simps) simp
  then show ?thesis using assms(2)[of k1] by (simp add: dfs_locked_def)
qed

lemma same_tablesD:
  "same_tables s s' \<Longrightarrow> dv_dev s' = dv_dev s \<and> fslock s' = fslock s \<and> working_directory s' = working_directory s \<and>
     filesystem_operation_table s' = filesystem_operation_table s \<and> filesystem_table s' = filesystem_table s \<and>
     fds s' = fds s \<and> fd_mem s' = fd_mem s \<and> dfs.more s' = dfs.more s"
  by (auto simp: same_tables_def)

section \<open>Mounted file systems\<close>

definition covers :: "string \<Rightarrow> string \<Rightarrow> bool" where
  "covers p path \<longleftrightarrow> take (length p) path = p \<and> (1 < length p \<and> length p < length path \<longrightarrow> path ! length p = CHR ''/'')"

lemma lookup_scan_spec:
  fixes cov :: "dfs_filesystem \<Rightarrow> string \<Rightarrow> bool" and path :: string
  defines "cov x p \<equiv> fs_path x = Some p \<and> fs_ops x \<noteq> None \<and> covers p path"
  shows "lookup_scan path i xs fs n = fs \<and> (\<forall>x \<in> set xs. \<forall>p. cov x p \<longrightarrow> length p < n) \<or>
    (\<exists>j p. lookup_scan path i xs fs n = Some (i + j) \<and> j < length xs \<and> cov (xs ! j) p \<and> n \<le> length p \<and>
       (\<forall>x \<in> set xs. \<forall>q. cov x q \<longrightarrow> length q \<le> length p))"
proof (induction xs arbitrary: i fs n)
  case (Cons x xs)
  show ?case
  proof (cases "\<exists>p. cov x p \<and> n \<le> length p")
    case False
    then have e: "lookup_scan path i (x # xs) fs n = lookup_scan path (Suc i) xs fs n"
      by (auto simp: cov_def covers_def Let_def not_le split: option.split)
    have l: "\<forall>p. cov x p \<longrightarrow> length p < n" using False by auto
    from Cons.IH[of "Suc i" fs n] show ?thesis
    proof
      assume "lookup_scan path (Suc i) xs fs n = fs \<and> (\<forall>x \<in> set xs. \<forall>p. cov x p \<longrightarrow> length p < n)"
      then show ?thesis unfolding e using l by simp
    next
      assume "\<exists>j p. lookup_scan path (Suc i) xs fs n = Some (Suc i + j) \<and> j < length xs \<and> cov (xs ! j) p \<and>
        n \<le> length p \<and> (\<forall>x \<in> set xs. \<forall>q. cov x q \<longrightarrow> length q \<le> length p)"
      then obtain j p where j: "lookup_scan path (Suc i) xs fs n = Some (Suc i + j)" "j < length xs" "cov (xs ! j) p"
          "n \<le> length p" "\<forall>x \<in> set xs. \<forall>q. cov x q \<longrightarrow> length q \<le> length p" by blast
      have "\<forall>q. cov x q \<longrightarrow> length q \<le> length p" using l j(4) by (meson le_trans less_imp_le)
      then show ?thesis unfolding e using j by (intro disjI2 exI[of _ "Suc j"] exI[of _ p]) simp
    qed
  next
    case True
    then obtain p where p: "cov x p" "n \<le> length p" by blast
    then have e: "lookup_scan path i (x # xs) fs n = lookup_scan path (Suc i) xs (Some i) (length p)"
      by (auto simp: cov_def covers_def Let_def split: option.split)
    have u: "q = p" if "cov x q" for q using that p(1) by (simp add: cov_def)
    from Cons.IH[of "Suc i" "Some i" "length p"] show ?thesis
    proof
      assume a: "lookup_scan path (Suc i) xs (Some i) (length p) = Some i \<and> (\<forall>x \<in> set xs. \<forall>q. cov x q \<longrightarrow> length q < length p)"
      moreover have "\<forall>r. cov x r \<longrightarrow> length r \<le> length p" using u by blast
      ultimately show ?thesis unfolding e using p by (intro disjI2 exI[of _ 0] exI[of _ p]) (simp add: less_imp_le)
    next
      assume "\<exists>j q. lookup_scan path (Suc i) xs (Some i) (length p) = Some (Suc i + j) \<and> j < length xs \<and> cov (xs ! j) q \<and>
        length p \<le> length q \<and> (\<forall>x \<in> set xs. \<forall>r. cov x r \<longrightarrow> length r \<le> length q)"
      then obtain j q where j: "lookup_scan path (Suc i) xs (Some i) (length p) = Some (Suc i + j)" "j < length xs" "cov (xs ! j) q"
          "length p \<le> length q" "\<forall>x \<in> set xs. \<forall>r. cov x r \<longrightarrow> length r \<le> length q" by blast
      have "\<forall>r. cov x r \<longrightarrow> length r \<le> length q" using u j(4) by blast
      then show ?thesis unfolding e using j p(2) by (intro disjI2 exI[of _ "Suc j"] exI[of _ q]) simp
    qed
  qed
qed simp

text \<open>The path of the root directory of a file system, and of the files below it.\<close>

definition names_ok :: "string list \<Rightarrow> bool" where
  "names_ok ns \<longleftrightarrow> (\<forall>n \<in> set ns. n \<noteq> [] \<and> n \<noteq> ''.'' \<and> n \<noteq> ''..'' \<and> CHR ''/'' \<notin> set n \<and> NUL \<notin> set n)"

abbreviation path_of :: "string list \<Rightarrow> string" where "path_of \<equiv> show_path True"

lemma path_of_concat: "ns \<noteq> [] \<Longrightarrow> path_of ns = concat (map (\<lambda>n. CHR ''/'' # n) ns)"
  by (induction ns rule: join_names.induct) (simp_all add: show_path_def)

lemma path_of_append: "ns \<noteq> [] \<Longrightarrow> ks \<noteq> [] \<Longrightarrow> path_of (ns @ ks) = path_of ns @ path_of ks"
  by (simp add: path_of_concat)

lemma path_of_simps [simp]: "path_of [] = ''/''" "path_of ns \<noteq> []" "hd (path_of ns) = CHR ''/''"
  by (simp_all add: show_path_def)

lemma path_names_of: "names_ok ns \<Longrightarrow> path_names (path_of ns) = ns"
  by (rule path_names_show) (simp add: names_ok_def)

lemma path_of_longer: "names_ok ns \<Longrightarrow> ns \<noteq> [] \<Longrightarrow> 1 < length (path_of ns)"
  by (cases ns) (auto simp: path_of_concat names_ok_def)

lemma path_of_mono: "names_ok (ns @ ks) \<Longrightarrow> ks \<noteq> [] \<Longrightarrow> length (path_of ns) < length (path_of (ns @ ks))"
  using path_of_longer[of ks] by (cases "ns = []") (simp_all add: path_of_append)

lemma path_names_join: "path_names (s @ CHR ''/'' # t) = path_names s @ path_names t"
proof (induction "length s" arbitrary: s rule: less_induct)
  case less
  show ?case
  proof (cases s rule: path_cases)
    case name
    then show ?thesis by (simp add: path_names_append path_names_name)
  next
    case (dir n k r')
    have "path_names ((replicate k (CHR ''/'') @ r') @ CHR ''/'' # t) = path_names (replicate k (CHR ''/'') @ r') @ path_names t"
      by (rule less.hyps) (simp add: dir(1))
    then show ?thesis using dir(2) unfolding dir(1) by (simp add: path_names_append)
  qed
qed

lemma covers_iff_prefix:
  assumes "names_ok ns" "names_ok ms"
  shows "covers (path_of ns) (path_of ms) \<longleftrightarrow> prefix ns ms"
proof
  assume c: "covers (path_of ns) (path_of ms)"
  show "prefix ns ms"
  proof (cases "ns = []")
    case False
    let ?p = "path_of ns" and ?q = "path_of ms"
    have q: "?q = ?p @ drop (length ?p) ?q" using c by (metis append_take_drop_id covers_def)
    show ?thesis
    proof (cases "length ?p < length ?q")
      case True
      then have "?q ! length ?p = CHR ''/''" using c path_of_longer[OF assms(1) False] by (simp add: covers_def)
      then obtain t where "?q = ?p @ CHR ''/'' # t" using q True by (metis Cons_nth_drop_Suc)
      then have "path_names ?q = path_names ?p @ path_names t" by (simp only: path_names_join)
      then show ?thesis by (simp add: path_names_of assms)
    next
      case False
      then have "?q = ?p" using q by (metis append_Nil2 drop_all not_less)
      then have "path_names ?q = path_names ?p" by (rule arg_cong)
      then show ?thesis by (simp add: path_names_of assms)
    qed
  qed simp
next
  assume "prefix ns ms"
  then obtain ks where ks: "ms = ns @ ks" by (auto elim: prefixE)
  show "covers (path_of ns) (path_of ms)"
  proof (cases "ns = [] \<or> ks = []")
    case True
    then show ?thesis
    proof
      assume "ns = []"
      moreover have "take 1 (path_of ms) = ''/''" by (metis One_nat_def list.collapse path_of_simps(2,3) take0 take_Suc)
      ultimately show ?thesis by (simp add: covers_def)
    qed (simp add: ks covers_def)
  next
    case False
    then have "path_of ms = path_of ns @ path_of ks" by (simp add: ks path_of_append)
    moreover have "path_of ks ! 0 = CHR ''/''" by (metis hd_conv_nth path_of_simps(2,3))
    ultimately show ?thesis by (simp add: covers_def nth_append)
  qed
qed

text \<open>\<open>mounted s j ns\<close>: entry \<open>j\<close> is a file system on the directory with the names \<open>ns\<close>.\<close>

definition mounted :: "'a dfs_scheme \<Rightarrow> nat \<Rightarrow> string list \<Rightarrow> bool" where
  "mounted s j ns \<longleftrightarrow> j < length (filesystem_table s) \<and> fs_ops (filesystem_table s ! j) \<noteq> None \<and>
     fs_path (filesystem_table s ! j) = Some (path_of ns) \<and> names_ok ns"

definition mounts_ok :: "'a dfs_scheme \<Rightarrow> bool" where
  "mounts_ok s \<longleftrightarrow> (\<forall>j < length (filesystem_table s). fs_ops (filesystem_table s ! j) \<noteq> None \<longrightarrow> (\<exists>ns. mounted s j ns))"

lemma mounted_same: "same_tables s s' \<Longrightarrow> mounted s' j ns = mounted s j ns"
  by (simp add: mounted_def same_tablesD)

lemma mounted_unique: "mounted s j ns \<Longrightarrow> mounted s j ks \<Longrightarrow> ks = ns"
  unfolding mounted_def by (metis option.inject path_names_of)

lemma prefix_longer:
  assumes "names_ok ms" "prefix ks ms" "prefix ns ms" "length (path_of ks) \<le> length (path_of ns)"
  shows "length ks \<le> length ns"
proof (rule ccontr)
  assume a: "\<not> length ks \<le> length ns"
  then have "prefix ns ks" using prefix_same_cases[OF assms(2,3)] prefix_length_le by fastforce
  then obtain us where us: "ks = ns @ us" by (auto elim: prefixE)
  have "names_ok ks" using assms(1) set_mono_prefix[OF assms(2)] by (auto simp: names_ok_def)
  then have "length (path_of ns) < length (path_of ks)" unfolding us by (rule path_of_mono) (use a us in auto)
  then show False using assms(4) by simp
qed

text \<open>The scan finds the file system with the most names in front of the path.\<close>

definition longest_mount :: "'a dfs_scheme \<Rightarrow> string list \<Rightarrow> nat option \<Rightarrow> bool" where
  "longest_mount s ms r \<longleftrightarrow>
     (case r of
        None \<Rightarrow> \<forall>j ns. mounted s j ns \<longrightarrow> \<not> prefix ns ms
      | Some j \<Rightarrow> \<exists>ns. mounted s j ns \<and> prefix ns ms \<and> (\<forall>i ks. mounted s i ks \<longrightarrow> prefix ks ms \<longrightarrow> length ks \<le> length ns))"

lemma lookup_scan_longest:
  assumes "mounts_ok s" "names_ok ms"
  shows "longest_mount s ms (lookup_scan (path_of ms) 0 (filesystem_table s) None 0)"
proof -
  let ?t = "filesystem_table s" and ?path = "path_of ms"
  have cov: "prefix ns ms" if "mounted s j ks" "fs_path (?t ! j) = Some p" "covers p ?path" "ns = ks" for j ns ks p
    using that covers_iff_prefix[OF _ assms(2), of ks] by (simp add: mounted_def)
  have mount_cov: "?t ! j \<in> set ?t \<and> fs_path (?t ! j) = Some (path_of ns) \<and> fs_ops (?t ! j) \<noteq> None \<and> covers (path_of ns) ?path"
    if "mounted s j ns" "prefix ns ms" for j ns
    using that covers_iff_prefix[OF _ assms(2), of ns] by (simp add: mounted_def)
  from lookup_scan_spec[of ?path 0 ?t None 0] show ?thesis
  proof
    assume "lookup_scan ?path 0 ?t None 0 = None \<and>
      (\<forall>x \<in> set ?t. \<forall>p. fs_path x = Some p \<and> fs_ops x \<noteq> None \<and> covers p ?path \<longrightarrow> length p < 0)"
    then show ?thesis using mount_cov unfolding longest_mount_def by fastforce
  next
    assume "\<exists>j p. lookup_scan ?path 0 ?t None 0 = Some (0 + j) \<and> j < length ?t \<and>
      (fs_path (?t ! j) = Some p \<and> fs_ops (?t ! j) \<noteq> None \<and> covers p ?path) \<and> 0 \<le> length p \<and>
      (\<forall>x \<in> set ?t. \<forall>q. fs_path x = Some q \<and> fs_ops x \<noteq> None \<and> covers q ?path \<longrightarrow> length q \<le> length p)"
    then obtain j p where j: "lookup_scan ?path 0 ?t None 0 = Some j" "j < length ?t" "fs_path (?t ! j) = Some p"
        "fs_ops (?t ! j) \<noteq> None" "covers p ?path"
        "\<And>x q. x \<in> set ?t \<Longrightarrow> fs_path x = Some q \<Longrightarrow> fs_ops x \<noteq> None \<Longrightarrow> covers q ?path \<Longrightarrow> length q \<le> length p"
      by auto
    obtain ns where ns: "mounted s j ns" using assms(1) j(2,4) by (auto simp: mounts_ok_def)
    have p: "p = path_of ns" using ns j(3) by (simp add: mounted_def)
    have pre: "prefix ns ms" by (rule cov[OF ns j(3,5) refl])
    have "length ks \<le> length ns" if "mounted s i ks" "prefix ks ms" for i ks
      using mount_cov[OF that] j(6) prefix_longer[OF assms(2) that(2) pre] unfolding p by blast
    then show ?thesis unfolding longest_mount_def j(1) using ns pre by auto
  qed
qed

lemma lookup_run:
  assumes "dfs_ready s"
  shows "\<exists>s'. dfs_filesystem_lookup path s = Some (s', lookup_scan path 0 (filesystem_table s) None 0) \<and> dfs_ready s' \<and> same_tables s s'"
  unfolding dfs_filesystem_lookup_def by (rule dfs_locked_run[OF assms]) simp_all

section \<open>The table of descriptors\<close>

text \<open>Allocated entries are different descriptors in use; \<open>fd_count\<close> is how often.\<close>

definition in_use :: "(nat \<Rightarrow> dfs_fd option) \<Rightarrow> nat \<Rightarrow> bool" where
  "in_use m p \<longleftrightarrow> (\<exists>d. m p = Some d \<and> magic d = DFS_FD_MAGIC \<and> 0 < fd_ref d)"

definition fd_inv :: "'a dfs_scheme \<Rightarrow> bool" where
  "fd_inv s \<longleftrightarrow> length (fds s) \<le> DFS_FD_MAX \<and>
     (\<forall>i p. i < length (fds s) \<longrightarrow> fds s ! i = Some p \<longrightarrow> in_use (fd_mem s) p) \<and>
     (\<forall>i j p. i < length (fds s) \<longrightarrow> j < length (fds s) \<longrightarrow> fds s ! i = Some p \<longrightarrow> fds s ! j = Some p \<longrightarrow> j = i)"

fun ref_of :: "(nat \<Rightarrow> dfs_fd option) \<Rightarrow> nat option \<Rightarrow> int" where
  "ref_of m None = 0"
| "ref_of m (Some p) = (case m p of None \<Rightarrow> 0 | Some d \<Rightarrow> fd_ref d)"

definition fd_count :: "'a dfs_scheme \<Rightarrow> nat \<Rightarrow> int" where
  "fd_count s i = (if i < length (fds s) then ref_of (fd_mem s) (fds s ! i) else 0)"

lemma fd_inv_same: "same_tables s s' \<Longrightarrow> fd_inv s' = fd_inv s"
  by (simp add: fd_inv_def same_tablesD)

lemma fd_count_same: "same_tables s s' \<Longrightarrow> fd_count s' = fd_count s"
  by (simp add: fd_count_def same_tablesD fun_eq_iff)

lemma fd_invD:
  assumes "fd_inv s"
  shows "length (fds s) \<le> DFS_FD_MAX" "i < length (fds s) \<Longrightarrow> fds s ! i = Some p \<Longrightarrow> in_use (fd_mem s) p"
    "i < length (fds s) \<Longrightarrow> j < length (fds s) \<Longrightarrow> fds s ! i = Some p \<Longrightarrow> fds s ! j = Some p \<Longrightarrow> j = i"
  using assms unfolding fd_inv_def by blast+

lemma fd_count_entry:
  assumes "fd_inv s" "i < length (fds s)" "fds s ! i = Some p"
  shows "0 < fd_count s i"
  using fd_invD(2)[OF assms] assms(2,3) by (auto simp: in_use_def fd_count_def)

lemma fd_inv_used:
  assumes "fd_inv s" "0 < fd_count s i"
  obtains p d where "i < length (fds s)" "fds s ! i = Some p" "fd_mem s p = Some d" "magic d = DFS_FD_MAGIC" "fd_ref d = fd_count s i"
proof -
  have i: "i < length (fds s)" using assms(2) by (simp add: fd_count_def split: if_splits)
  obtain p where p: "fds s ! i = Some p" using assms(2) i by (cases "fds s ! i") (simp_all add: fd_count_def)
  obtain d where d: "fd_mem s p = Some d" "magic d = DFS_FD_MAGIC"
    using fd_invD(2)[OF assms(1) i p] by (auto simp: in_use_def)
  then have "fd_ref d = fd_count s i" using i p by (simp add: fd_count_def)
  then show ?thesis by (rule that[OF i p d])
qed

lemma fd_free_iff:
  assumes "fd_inv s" "i < length (fds s)"
  shows "fds s ! i = None \<longleftrightarrow> fd_count s i = 0"
  using fd_count_entry[OF assms] assms(2) by (cases "fds s ! i") (simp_all add: fd_count_def)

lemma fd_count_outside [simp]: "length (fds s) \<le> i \<Longrightarrow> fd_count s i = 0"
  by (simp add: fd_count_def)

text \<open>The search stops at the first free entry.\<close>

lemma fd_scan_spec:
  assumes "\<And>j p. j < length xs \<Longrightarrow> xs ! j = Some p \<Longrightarrow> \<exists>d. m p = Some d \<and> 0 < fd_ref d"
  shows "\<exists>j. fd_scan m xs i = Some (i + j) \<and> j \<le> length xs \<and> (\<forall>l < j. xs ! l \<noteq> None) \<and> (j < length xs \<longrightarrow> xs ! j = None)"
  using assms
proof (induction xs arbitrary: i)
  case (Cons x xs)
  show ?case
  proof (cases x)
    case (Some p)
    obtain d where d: "m p = Some d" "0 < fd_ref d" using Cons.prems[of 0 p] Some by auto
    have "\<exists>j. fd_scan m xs (Suc i) = Some (Suc i + j) \<and> j \<le> length xs \<and> (\<forall>l < j. xs ! l \<noteq> None) \<and> (j < length xs \<longrightarrow> xs ! j = None)"
      by (rule Cons.IH) (use Cons.prems[of "Suc _"] in auto)
    then obtain j where "fd_scan m xs (Suc i) = Some (Suc i + j)" "j \<le> length xs" "\<forall>l < j. xs ! l \<noteq> None"
        "j < length xs \<longrightarrow> xs ! j = None" by blast
    then show ?thesis using Some d by (intro exI[of _ "Suc j"]) (auto simp: nth_Cons split: nat.split)
  qed (auto intro: exI[of _ 0])
qed simp

lemma fd_inv_scan:
  assumes "fd_inv s"
  obtains i where "fd_scan (fd_mem s) (fds s) 0 = Some i" "i \<le> length (fds s)" "\<And>j. j < i \<Longrightarrow> 0 < fd_count s j" "fd_count s i = 0"
proof -
  have "\<exists>j. fd_scan (fd_mem s) (fds s) 0 = Some (0 + j) \<and> j \<le> length (fds s) \<and> (\<forall>l < j. fds s ! l \<noteq> None) \<and>
      (j < length (fds s) \<longrightarrow> fds s ! j = None)"
    by (rule fd_scan_spec) (use fd_invD(2)[OF assms] in \<open>unfold in_use_def, blast\<close>)
  then obtain j where j: "fd_scan (fd_mem s) (fds s) 0 = Some j" "j \<le> length (fds s)" "\<forall>l < j. fds s ! l \<noteq> None"
      "j < length (fds s) \<longrightarrow> fds s ! j = None" by auto
  have "0 < fd_count s l" if l: "l < j" for l
  proof -
    obtain p where "fds s ! l = Some p" using j(3) l by blast
    then show ?thesis by (rule fd_count_entry[OF assms, rotated]) (use l j(2) in simp)
  qed
  moreover have "fd_count s j = 0" using j(4) by (simp add: fd_count_def)
  ultimately show ?thesis using that j(1,2) by blast
qed

text \<open>A descriptor put into a free entry, or changed.\<close>

lemma fd_inv_insert:
  assumes inv: "fd_inv s" and i: "i < length (fds s)" and p: "fds s ! i = None \<and> fd_mem s p = None \<or> fds s ! i = Some p"
    and d: "magic d = DFS_FD_MAGIC" "0 < fd_ref d"
  defines "s' \<equiv> s\<lparr>fds := (fds s)[i := Some p], fd_mem := (fd_mem s)(p \<mapsto> d)\<rparr>"
  shows "fd_inv s'" "fd_count s' = (fd_count s)(i := fd_ref d)"
proof -
  have ne: "q \<noteq> p" if "j < length (fds s)" "fds s ! j = Some q" "j \<noteq> i" for j q
  proof
    assume "q = p"
    then have "fds s ! i = Some p" using p fd_invD(2)[OF inv that(1,2)] by (auto simp: in_use_def)
    then show False using fd_invD(3)[OF inv i that(1)] that(2,3) \<open>q = p\<close> by blast
  qed
  have e: "fds s' ! j = (if j = i then Some p else fds s ! j)" if "j < length (fds s)" for j
    using that by (simp add: s'_def nth_list_update)
  have len: "length (fds s') = length (fds s)" by (simp add: s'_def)
  have use: "in_use (fd_mem s') q" if "j < length (fds s)" "fds s' ! j = Some q" for j q
    using that e[OF that(1)] d fd_invD(2)[OF inv that(1), of q] ne[OF that(1), of q]
    by (cases "j = i") (auto simp: in_use_def s'_def)
  have uniq: "l = j" if "j < length (fds s)" "l < length (fds s)" "fds s' ! j = Some q" "fds s' ! l = Some q" for j l q
    using that(3,4) e[OF that(1)] e[OF that(2)] ne[OF that(1), of q] ne[OF that(2), of q] fd_invD(3)[OF inv that(1,2), of q]
    by (cases "j = i"; cases "l = i") auto
  show "fd_inv s'" unfolding fd_inv_def len using fd_invD(1)[OF inv] use uniq by blast
  have "fd_count s' j = ((fd_count s)(i := fd_ref d)) j" for j
  proof (cases "j < length (fds s)")
    case True
    show ?thesis
    proof (cases "j = i")
      case False
      have "ref_of (fd_mem s') (fds s ! j) = ref_of (fd_mem s) (fds s ! j)"
        using ne[OF True _ False] by (cases "fds s ! j") (auto simp: s'_def)
      then show ?thesis using e[OF True] False True by (simp add: fd_count_def len)
    qed (use e[OF i] i in \<open>simp add: fd_count_def s'_def\<close>)
  qed (use i in \<open>simp add: fd_count_def s'_def\<close>)
  then show "fd_count s' = (fd_count s)(i := fd_ref d)" by blast
qed

lemma nth_append_None: "(xs @ replicate n None) ! i = (if i < length xs then xs ! i else None)" if "i < length xs + n"
  using that by (simp add: nth_append)

lemma fd_inv_grow:
  assumes "fd_inv s" "length (fds s) + n \<le> DFS_FD_MAX"
  shows "fd_inv (s\<lparr>fds := fds s @ replicate n None\<rparr>)" "fd_count (s\<lparr>fds := fds s @ replicate n None\<rparr>) = fd_count s"
proof -
  have e: "(fds s @ replicate n None) ! i = Some p \<longleftrightarrow> i < length (fds s) \<and> fds s ! i = Some p" if "i < length (fds s) + n" for i p
    using that by (simp add: nth_append_None)
  show "fd_inv (s\<lparr>fds := fds s @ replicate n None\<rparr>)"
    unfolding fd_inv_def using assms(2) fd_invD(2,3)[OF assms(1)] by (simp add: e) blast
  show "fd_count (s\<lparr>fds := fds s @ replicate n None\<rparr>) = fd_count s"
    by (auto simp: fun_eq_iff fd_count_def nth_append_None)
qed

lemma fd_clear_entry:
  "i < length xs \<Longrightarrow> xs ! i = Some p \<Longrightarrow> (\<And>j. j < i \<Longrightarrow> xs ! j \<noteq> Some p) \<Longrightarrow> fd_clear p xs = xs[i := None]"
proof (induction xs arbitrary: i)
  case (Cons x xs)
  show ?case
  proof (cases i)
    case (Suc l)
    have "x \<noteq> Some p" using Cons.prems(3)[of 0] Suc by simp
    moreover have "fd_clear p xs = xs[l := None]"
      by (rule Cons.IH) (use Cons.prems(1,2) Cons.prems(3)[of "Suc _"] Suc in auto)
    ultimately show ?thesis using Suc by simp
  qed (use Cons.prems in simp)
qed simp

lemma fd_inv_remove:
  assumes inv: "fd_inv s" and i: "i < length (fds s)" "fds s ! i = Some p"
  defines "s' \<equiv> s\<lparr>fds := (fds s)[i := None], fd_mem := (fd_mem s)(p := None)\<rparr>"
  shows "fd_inv s'" "fd_count s' = (fd_count s)(i := 0)"
proof -
  have ne: "q \<noteq> p" if "j < length (fds s)" "fds s ! j = Some q" "j \<noteq> i" for j q
    using fd_invD(3)[OF inv i(1) that(1) i(2)] that(2,3) by blast
  have e: "fds s' ! j = (if j = i then None else fds s ! j)" if "j < length (fds s)" for j
    using that by (simp add: s'_def nth_list_update)
  have len: "length (fds s') = length (fds s)" by (simp add: s'_def)
  have use: "in_use (fd_mem s') q" if "j < length (fds s)" "fds s' ! j = Some q" for j q
    using that e[OF that(1)] fd_invD(2)[OF inv that(1), of q] ne[OF that(1), of q]
    by (cases "j = i") (auto simp: in_use_def s'_def)
  have uniq: "l = j" if "j < length (fds s)" "l < length (fds s)" "fds s' ! j = Some q" "fds s' ! l = Some q" for j l q
    using that(3,4) e[OF that(1)] e[OF that(2)] fd_invD(3)[OF inv that(1,2), of q]
    by (cases "j = i"; cases "l = i") auto
  show "fd_inv s'" unfolding fd_inv_def len using fd_invD(1)[OF inv] use uniq by blast
  have "fd_count s' j = ((fd_count s)(i := 0)) j" for j
  proof (cases "j < length (fds s)")
    case True
    show ?thesis
    proof (cases "j = i")
      case False
      have "ref_of (fd_mem s') (fds s ! j) = ref_of (fd_mem s) (fds s ! j)"
        using ne[OF True _ False] by (cases "fds s ! j") (auto simp: s'_def)
      then show ?thesis using e[OF True] False True by (simp add: fd_count_def len)
    qed (use e[OF i(1)] i in \<open>simp add: fd_count_def s'_def\<close>)
  qed (use i in \<open>simp add: fd_count_def s'_def\<close>)
  then show "fd_count s' = (fd_count s)(i := 0)" by blast
qed

section \<open>The calls\<close>

text \<open>Everything but the table of descriptors and the kernel is unchanged.\<close>

definition same_mounts :: "'a dfs_scheme \<Rightarrow> 'a dfs_scheme \<Rightarrow> bool" where
  "same_mounts s s' \<longleftrightarrow> (\<exists>k xs m. s' = s\<lparr>dv_kernel := k, fds := xs, fd_mem := m\<rparr>)"

lemma same_mountsD:
  "same_mounts s s' \<Longrightarrow> dv_dev s' = dv_dev s \<and> fslock s' = fslock s \<and> working_directory s' = working_directory s \<and>
     filesystem_operation_table s' = filesystem_operation_table s \<and> filesystem_table s' = filesystem_table s \<and>
     dfs.more s' = dfs.more s"
  by (auto simp: same_mounts_def)

lemma same_mounts_tables: "same_tables s s' \<Longrightarrow> same_mounts s s'"
  unfolding same_tables_def same_mounts_def
  by (elim exE) (rule exI, rule exI[of _ "fds s"], rule exI[of _ "fd_mem s"], simp)

lemma same_mounts_trans: "same_mounts s s' \<Longrightarrow> same_mounts s' s'' \<Longrightarrow> same_mounts s s''"
  unfolding same_mounts_def by (elim exE, hypsubst) (intro exI, simp)

lemma same_mounts_upd [simp]: "same_mounts s (s\<lparr>fds := xs, fd_mem := m\<rparr>)" "same_mounts s (s\<lparr>fd_mem := m\<rparr>)"
  unfolding same_mounts_def
  by (rule exI[of _ "dv_kernel s"], rule exI[of _ xs], rule exI[of _ m], simp)
    (rule exI[of _ "dv_kernel s"], rule exI[of _ "fds s"], rule exI[of _ m], simp)

abbreviation new_fd :: dfs_fd where
  "new_fd \<equiv> zero_fd\<lparr>fd_ref := 1, magic := DFS_FD_MAGIC\<rparr>"

text \<open>\<^verbatim>\<open>fd_new\<close> takes the first free descriptor below the bound, if the heap lets it.\<close>

lemma fd_new_run:
  assumes ready: "dfs_ready s" and inv: "fd_inv s" and fresh: "\<And>p. cell h = Some p \<Longrightarrow> fd_mem s p = None"
  shows "\<exists>s' r. fd_new h s = Some (s', r) \<and> dfs_ready s' \<and> fd_inv s' \<and> same_mounts s s' \<and>
    (r = - 1 \<and> fd_count s' = fd_count s \<and> ((\<forall>i < DFS_FD_MAX. 0 < fd_count s i) \<or> \<not> grow h \<or> cell h = None) \<or>
     (\<exists>i p. r = int i + DFS_FD_OFFSET \<and> cell h = Some p \<and> i < DFS_FD_MAX \<and> fd_count s i = 0 \<and> (\<forall>j < i. 0 < fd_count s j) \<and>
        fd_count s' = (fd_count s)(i := 1) \<and> i < length (fds s') \<and> fds s' ! i = Some p \<and>
        fd_mem s' = (fd_mem s)(p \<mapsto> new_fd)))"
proof -
  obtain i where i: "fd_scan (fd_mem s) (fds s) 0 = Some i" "i \<le> length (fds s)" "\<And>j. j < i \<Longrightarrow> 0 < fd_count s j" "fd_count s i = 0"
    using fd_inv_scan[OF inv] by blast
  define full where "full \<longleftrightarrow> i = length (fds s) \<and> length (fds s) < DFS_FD_MAX"
  define n where "n = (if full then min (length (fds s) + 4) DFS_FD_MAX - length (fds s) else 0)"
  define s0 where "s0 = s\<lparr>fds := fds s @ replicate n None\<rparr>"
  have len: "length (fds s) + n \<le> DFS_FD_MAX" using fd_invD(1)[OF inv] by (auto simp: n_def full_def)
  have inv0: "fd_inv s0" and count0: "fd_count s0 = fd_count s" unfolding s0_def using fd_inv_grow[OF inv len] by blast+
  have s0: "fd_mem s0 = fd_mem s" "fslock s0 = fslock s" by (simp_all add: s0_def)
  have m0: "same_mounts s s0"
    unfolding same_mounts_def s0_def by (rule exI[of _ "dv_kernel s"], rule exI, rule exI[of _ "fd_mem s"], simp)
  have alloc: "fd_alloc h 0 (s\<lparr>dv_kernel := k\<rparr>) =
      (if full \<and> \<not> grow h then Some (s\<lparr>dv_kernel := k\<rparr>, i)
       else if i < length (fds s0) \<and> fds s0 ! i = None then
         (case cell h of
            None \<Rightarrow> Some (s0\<lparr>dv_kernel := k\<rparr>, length (fds s0))
          | Some p \<Rightarrow> Some (s0\<lparr>dv_kernel := k, fds := (fds s0)[i := Some p], fd_mem := (fd_mem s0)(p \<mapsto> zero_fd)\<rparr>, i))
       else Some (s0\<lparr>dv_kernel := k\<rparr>, i))" for k
    using i(1) by (auto simp: fd_alloc_def s0_def n_def full_def Let_def split: option.split)
  have fail: ?thesis if s1: "s1 = s \<or> s1 = s0" and run: "\<And>k. fd_alloc h 0 (s\<lparr>dv_kernel := k\<rparr>) = Some (s1\<lparr>dv_kernel := k\<rparr>, length (fds s1))"
    and why: "(\<forall>i < DFS_FD_MAX. 0 < fd_count s i) \<or> \<not> grow h \<or> cell h = None" for s1
  proof -
    have "\<exists>s'. fd_new h s = Some (s', - 1) \<and> dfs_ready s' \<and> same_tables s1 s'"
      unfolding fd_new_def by (rule dfs_locked_run[OF ready]) (use run s1 s0 in auto)
    then obtain s' where s': "fd_new h s = Some (s', - 1)" "dfs_ready s'" "same_tables s1 s'" by blast
    have "fd_inv s'" "fd_count s' = fd_count s"
      using s1 inv inv0 count0 fd_inv_same[OF s'(3)] fd_count_same[OF s'(3)] by auto
    moreover have "same_mounts s s'" using s1 same_mounts_tables[OF s'(3)] same_mounts_trans[OF m0, of s'] by blast
    ultimately show ?thesis using s' why by blast
  qed
  show ?thesis
  proof (cases "full \<and> \<not> grow h")
    case True
    then show ?thesis by (intro fail[of s]) (auto simp: alloc full_def)
  next
    case g: False
    show ?thesis
    proof (cases "i < length (fds s0)")
      case False
      then have e: "i = length (fds s0)" "n = 0" using i(2) by (auto simp: s0_def)
      have "length (fds s) = DFS_FD_MAX" using e g i(2) fd_invD(1)[OF inv] by (auto simp: n_def full_def s0_def split: if_splits)
      then show ?thesis using i(3) e g False by (intro fail[of s0]) (auto simp: alloc s0_def)
    next
      case True
      have free: "fds s0 ! i = None" using fd_free_iff[OF inv0 True] i(4) count0 by simp
      show ?thesis
      proof (cases "cell h")
        case None
        then show ?thesis using g True free by (intro fail[of s0]) (auto simp: alloc)
      next
        case (Some p)
        define s1 where "s1 = s0\<lparr>fds := (fds s0)[i := Some p], fd_mem := (fd_mem s0)(p \<mapsto> new_fd)\<rparr>"
        have "fd_alloc h 0 (s\<lparr>dv_kernel := k\<rparr>) =
            Some (s0\<lparr>dv_kernel := k, fds := (fds s0)[i := Some p], fd_mem := (fd_mem s0)(p \<mapsto> zero_fd)\<rparr>, i)" for k
          using g True free Some by (auto simp: alloc)
        then have "\<exists>s'. fd_new h s = Some (s', int i + DFS_FD_OFFSET) \<and> dfs_ready s' \<and> same_tables s1 s'"
          unfolding fd_new_def by (intro dfs_locked_run[OF ready]) (use True s0 in \<open>simp_all add: s1_def\<close>)
        then obtain s' where s': "fd_new h s = Some (s', int i + DFS_FD_OFFSET)" "dfs_ready s'" "same_tables s1 s'" by blast
        have ins: "fd_inv s1" "fd_count s1 = (fd_count s0)(i := 1)"
          unfolding s1_def using fd_inv_insert[OF inv0 True, of p new_fd] free fresh[OF Some] s0(1) by simp_all
        have "same_mounts s s'" using same_mounts_trans[OF m0 same_mounts_trans[OF _ same_mounts_tables[OF s'(3)]]] by (simp add: s1_def)
        moreover have "fd_inv s'" "fd_count s' = (fd_count s)(i := 1)" "i < length (fds s')" "fds s' ! i = Some p"
            "fd_mem s' = (fd_mem s)(p \<mapsto> new_fd)"
          using ins count0 fd_inv_same[OF s'(3)] fd_count_same[OF s'(3)] same_tablesD[OF s'(3)] True s0(1) by (simp_all add: s1_def)
        moreover have "i < DFS_FD_MAX" using True len by (simp add: s0_def)
        ultimately show ?thesis using s'(1,2) Some i(3,4) by blast
      qed
    qed
  qed
qed

text \<open>\<^verbatim>\<open>fd_get\<close> and \<^verbatim>\<open>fd_put\<close> on a descriptor in use.\<close>

lemma fd_get_run:
  assumes ready: "dfs_ready s" and inv: "fd_inv s" and use: "0 < fd_count s i"
  shows "\<exists>s' p d. fd_get (int i + DFS_FD_OFFSET) s = Some (s', Some p) \<and> dfs_ready s' \<and> fd_inv s' \<and> same_mounts s s' \<and>
    i < length (fds s) \<and> fds s ! i = Some p \<and> fds s' = fds s \<and> fd_mem s p = Some d \<and> magic d = DFS_FD_MAGIC \<and> fd_ref d = fd_count s i \<and>
    fd_mem s' = (fd_mem s)(p \<mapsto> d\<lparr>fd_ref := fd_ref d + 1\<rparr>) \<and> fd_count s' = (fd_count s)(i := fd_count s i + 1)"
proof -
  obtain p d where p: "i < length (fds s)" "fds s ! i = Some p" "fd_mem s p = Some d" "magic d = DFS_FD_MAGIC" "fd_ref d = fd_count s i"
    by (rule fd_inv_used[OF inv use])
  let ?d = "d\<lparr>fd_ref := fd_ref d + 1\<rparr>"
  define s1 where "s1 = s\<lparr>fd_mem := (fd_mem s)(p \<mapsto> ?d)\<rparr>"
  have e: "s1 = s\<lparr>fds := (fds s)[i := Some p], fd_mem := (fd_mem s)(p \<mapsto> ?d)\<rparr>" using p(2) by (simp add: s1_def flip: p(2))
  have "\<exists>s'. fd_get (int i + DFS_FD_OFFSET) s = Some (s', Some p) \<and> dfs_ready s' \<and> same_tables s1 s'"
    unfolding fd_get_def using p(1) by (simp add: Let_def) (rule dfs_locked_run[OF ready], use p in \<open>simp_all add: s1_def\<close>)
  then obtain s' where s': "fd_get (int i + DFS_FD_OFFSET) s = Some (s', Some p)" "dfs_ready s'" "same_tables s1 s'" by blast
  have "fd_inv s1" "fd_count s1 = (fd_count s)(i := fd_count s i + 1)"
    unfolding e using fd_inv_insert[OF inv p(1), of p ?d] p use by simp_all
  moreover have "same_mounts s s'" using same_mounts_trans[OF _ same_mounts_tables[OF s'(3)]] by (simp add: s1_def)
  ultimately show ?thesis
    using s' p same_tablesD[OF s'(3)] fd_inv_same[OF s'(3)] fd_count_same[OF s'(3)]
    by (intro exI[of _ s'] exI[of _ p] exI[of _ d]) (simp add: s1_def)
qed

lemma fd_put_run:
  assumes ready: "dfs_ready s" and inv: "fd_inv s" and p: "i < length (fds s)" "fds s ! i = Some p"
  shows "\<exists>s' d. fd_put (Some p) s = Some (s', ()) \<and> dfs_ready s' \<and> fd_inv s' \<and> same_mounts s s' \<and>
    fd_count s' = (fd_count s)(i := fd_count s i - 1) \<and> fd_mem s p = Some d \<and> fd_ref d = fd_count s i \<and>
    fds s' = (if fd_count s i = 1 then (fds s)[i := None] else fds s) \<and>
    fd_mem s' = (fd_mem s)(p := if fd_count s i = 1 then None else Some (d\<lparr>fd_ref := fd_ref d - 1\<rparr>))"
proof -
  have use: "0 < fd_count s i" by (rule fd_count_entry[OF inv p])
  obtain d where d: "fd_mem s p = Some d" "magic d = DFS_FD_MAGIC" "fd_ref d = fd_count s i"
    using fd_inv_used[OF inv use] p(2) by (metis option.inject)
  let ?d = "d\<lparr>fd_ref := fd_ref d - 1\<rparr>"
  define s1 where "s1 = (if fd_count s i = 1 then s\<lparr>fds := (fds s)[i := None], fd_mem := (fd_mem s)(p := None)\<rparr>
    else s\<lparr>fd_mem := (fd_mem s)(p \<mapsto> ?d)\<rparr>)"
  have mem: "Some p \<in> set (fds s)" using p by (metis nth_mem)
  have cl: "fd_clear p (fds s) = (fds s)[i := None]"
  proof (rule fd_clear_entry[OF p])
    show "fds s ! j \<noteq> Some p" if "j < i" for j
      using fd_invD(3)[OF inv, of j i p] that p by auto
  qed
  have "\<exists>s'. fd_put (Some p) s = Some (s', ()) \<and> dfs_ready s' \<and> same_tables s1 s'"
    unfolding fd_put_def by simp (rule dfs_locked_run[OF ready], use d mem cl in \<open>simp_all add: s1_def\<close>)
  then obtain s' where s': "fd_put (Some p) s = Some (s', ())" "dfs_ready s'" "same_tables s1 s'" by blast
  have "fd_inv s1 \<and> fd_count s1 = (fd_count s)(i := fd_count s i - 1)"
  proof (cases "fd_count s i = 1")
    case True
    then show ?thesis using fd_inv_remove[OF inv p] by (simp add: s1_def)
  next
    case False
    have e: "s1 = s\<lparr>fds := (fds s)[i := Some p], fd_mem := (fd_mem s)(p \<mapsto> ?d)\<rparr>"
      using p(2) False by (simp add: s1_def flip: p(2))
    show ?thesis unfolding e using fd_inv_insert[OF inv p(1), of p ?d] p d use False by simp
  qed
  moreover have "same_mounts s s'" using same_mounts_trans[OF _ same_mounts_tables[OF s'(3)]] by (simp add: s1_def)
  ultimately show ?thesis
    using s' d same_tablesD[OF s'(3)] fd_inv_same[OF s'(3)] fd_count_same[OF s'(3)]
    by (intro exI[of _ s'] exI[of _ d]) (simp add: s1_def)
qed

lemma fd_get_outside: "fd < DFS_FD_OFFSET \<or> int (length (fds s)) + DFS_FD_OFFSET \<le> fd \<Longrightarrow> fd_get fd s = Some (s, None)"
  by (auto simp: fd_get_def Let_def)

lemma fd_get_free:
  assumes "dfs_ready s" "i < length (fds s)" "fds s ! i = None"
  shows "fd_get (int i + DFS_FD_OFFSET) s = None"
  unfolding fd_get_def using assms(2) by (simp add: Let_def) (rule dfs_locked_None[OF assms(1)], use assms in simp)

text \<open>Sequences of calls, and what they do to the counts.\<close>

datatype fd_call = NewFd answers | GetFd int | PutFd nat

fun fd_step :: "fd_call \<Rightarrow> 'a dfs_scheme \<Rightarrow> ('a dfs_scheme \<times> int) option" where
  "fd_step (NewFd h) s = fd_new h s"
| "fd_step (GetFd fd) s = map_option (\<lambda>(s, p). (s, if p = None then - 1 else 0)) (fd_get fd s)"
| "fd_step (PutFd i) s = map_option (\<lambda>(s, _). (s, 0)) (fd_put (fds s ! i) s)"

fun fd_run :: "fd_call list \<Rightarrow> 'a dfs_scheme \<Rightarrow> ('a dfs_scheme \<times> int list) option" where
  "fd_run [] s = Some (s, [])"
| "fd_run (c # cs) s = do { (s, r) \<leftarrow> fd_step c s; (s, rs) \<leftarrow> fd_run cs s; Some (s, r # rs) }"

text \<open>Callers may not use a descriptor that is free, and the heap gives new memory.\<close>

fun fd_legal :: "fd_call \<Rightarrow> 'a dfs_scheme \<Rightarrow> bool" where
  "fd_legal (NewFd h) s \<longleftrightarrow> (case cell h of None \<Rightarrow> True | Some p \<Rightarrow> fd_mem s p = None)"
| "fd_legal (GetFd fd) s \<longleftrightarrow> fd < DFS_FD_OFFSET \<or> int (length (fds s)) + DFS_FD_OFFSET \<le> fd \<or> 0 < fd_count s (nat (fd - DFS_FD_OFFSET))"
| "fd_legal (PutFd i) s \<longleftrightarrow> 0 < fd_count s i"

fun fd_legal_run :: "fd_call list \<Rightarrow> 'a dfs_scheme \<Rightarrow> bool" where
  "fd_legal_run [] s \<longleftrightarrow> True"
| "fd_legal_run (c # cs) s \<longleftrightarrow> fd_legal c s \<and> (case fd_step c s of None \<Rightarrow> True | Some (s, _) \<Rightarrow> fd_legal_run cs s)"

fun count_step :: "fd_call \<Rightarrow> (nat \<Rightarrow> int) \<Rightarrow> int \<Rightarrow> (nat \<Rightarrow> int) \<Rightarrow> bool" where
  "count_step (NewFd h) a r a' \<longleftrightarrow>
     r = - 1 \<and> a' = a \<and> ((\<forall>i < DFS_FD_MAX. 0 < a i) \<or> \<not> grow h \<or> cell h = None) \<or>
     (\<exists>i < DFS_FD_MAX. r = int i + DFS_FD_OFFSET \<and> a i = 0 \<and> (\<forall>j < i. 0 < a j) \<and> a' = a(i := 1))"
| "count_step (GetFd fd) a r a' \<longleftrightarrow>
     (let i = nat (fd - DFS_FD_OFFSET) in
      if DFS_FD_OFFSET \<le> fd \<and> 0 < a i then r = 0 \<and> a' = a(i := a i + 1) else r = - 1 \<and> a' = a)"
| "count_step (PutFd i) a r a' \<longleftrightarrow> r = 0 \<and> a' = a(i := a i - 1)"

fun count_run :: "fd_call list \<Rightarrow> (nat \<Rightarrow> int) \<Rightarrow> int list \<Rightarrow> (nat \<Rightarrow> int) \<Rightarrow> bool" where
  "count_run [] a rs a' \<longleftrightarrow> rs = [] \<and> a' = a"
| "count_run (c # cs) a rs a' \<longleftrightarrow> (\<exists>r rs' b. rs = r # rs' \<and> count_step c a r b \<and> count_run cs b rs' a')"

lemma fd_step_counts:
  assumes "dfs_ready s" "fd_inv s" "fd_legal c s"
  shows "\<exists>s' r. fd_step c s = Some (s', r) \<and> dfs_ready s' \<and> fd_inv s' \<and> count_step c (fd_count s) r (fd_count s')"
proof (cases c)
  case (NewFd h)
  have "fd_mem s p = None" if "cell h = Some p" for p using assms(3) NewFd that by simp
  from fd_new_run[OF assms(1,2) this] show ?thesis unfolding NewFd fd_step.simps count_step.simps by blast
next
  case (GetFd fd)
  let ?i = "nat (fd - DFS_FD_OFFSET)"
  show ?thesis
  proof (cases "DFS_FD_OFFSET \<le> fd \<and> 0 < fd_count s ?i")
    case True
    then have "int ?i + DFS_FD_OFFSET = fd" by simp
    then obtain s' p where g: "fd_get fd s = Some (s', Some p)" "dfs_ready s'" "fd_inv s'"
        "fd_count s' = (fd_count s)(?i := fd_count s ?i + 1)"
      using fd_get_run[OF assms(1,2), of ?i] True by metis
    have "fd_step c s = Some (s', 0)" using g(1) GetFd by simp
    moreover have "count_step c (fd_count s) 0 (fd_count s')" unfolding GetFd using g(4) True by (simp add: Let_def)
    ultimately show ?thesis using g(2,3) by blast
  next
    case False
    then have "fd < DFS_FD_OFFSET \<or> int (length (fds s)) + DFS_FD_OFFSET \<le> fd" using assms(3) GetFd by auto
    then show ?thesis using fd_get_outside[of fd s] assms(1,2) False unfolding GetFd by (auto simp: Let_def)
  qed
next
  case (PutFd i)
  obtain p where p: "i < length (fds s)" "fds s ! i = Some p"
    using fd_inv_used[OF assms(2), of i] assms(3) unfolding PutFd by auto
  show ?thesis using fd_put_run[OF assms(1,2) p] p unfolding PutFd by auto
qed

section \<open>Properties\<close>

text \<open>C35. For canonical paths, \<^verbatim>\<open>dfs_filesystem_lookup\<close> finds the file system mounted deepest on the way to
  the path, and none exactly when no file system is mounted on the way.\<close>

theorem lookup_finds_deepest:
  assumes "dfs_ready s" "mounts_ok s" "names_ok ms"
  shows "\<exists>s' r. dfs_filesystem_lookup (path_of ms) s = Some (s', r) \<and> same_tables s s' \<and> longest_mount s ms r"
  using lookup_run[OF assms(1)] lookup_scan_longest[OF assms(2,3)] by blast


text \<open>Asking for a descriptor inside the table that is not in use reads through the null pointer.\<close>

theorem fd_get_reads_null:
  assumes "dfs_ready s" "fd_inv s" "i < length (fds s)" "fd_count s i = 0"
  shows "fd_get (int i + DFS_FD_OFFSET) s = None"
  using fd_get_free[OF assms(1,3)] fd_free_iff[OF assms(2,3)] assms(4) by simp

section \<open>Examples\<close>

definition dfs_example :: "dfs_filesystem list \<Rightarrow> nat option list \<Rightarrow> (nat \<Rightarrow> dfs_fd option) \<Rightarrow> dfs" where
  "dfs_example fs xs m = \<lparr>dv_kernel = kernel_zero\<lparr>rt_current_thread := Some 1, k_mutex := \<lambda>_. fresh_mutex\<rparr>,
     dv_dev = (\<lambda>_. \<lparr>dev_type = 0, dev_flag = 0, open_flag = 0, ref_count = 0, rx_indicate = None, tx_complete = None\<rparr>),
     fslock = 0, working_directory = ''/'', filesystem_operation_table = [Some 0, Some 1, None, None],
     filesystem_table = fs, fds = xs, fd_mem = m\<rparr>"

lemma dfs_example_ready [simp]: "dfs_ready (dfs_example fs xs m)"
  by (simp add: dfs_example_def can_lock_def lock_free_def kernel_zero_def fresh_mutex_def ls_empty_def)

lemma dfs_example_simps [simp]:
  "fds (dfs_example fs xs m) = xs" "fd_mem (dfs_example fs xs m) = m" "filesystem_table (dfs_example fs xs m) = fs"
  "working_directory (dfs_example fs xs m) = ''/''"
  by (simp_all add: dfs_example_def)

definition two_mounts :: "dfs_filesystem list" where
  "two_mounts = [\<lparr>dev_id = None, fs_path = Some ''/'', fs_ops = Some 0\<rparr>,
     \<lparr>dev_id = None, fs_path = Some ''/dev'', fs_ops = Some 1\<rparr>, empty_fs, empty_fs]"

lemma two_mounts_entries:
  "mounted (dfs_example two_mounts xs m) 0 []" "mounted (dfs_example two_mounts xs m) (Suc 0) [''dev'']"
  by (simp_all add: mounted_def two_mounts_def names_ok_def show_path_def)

lemma two_mounts_cases:
  assumes "j < length two_mounts" "fs_ops (two_mounts ! j) \<noteq> None"
  shows "j = 0 \<or> j = Suc 0"
  using assms by (auto simp: two_mounts_def empty_fs_def less_Suc_eq numeral_eq_Suc)

lemma two_mounts_mounted:
  "mounted (dfs_example two_mounts xs m) j ns \<longleftrightarrow> j = 0 \<and> ns = [] \<or> j = Suc 0 \<and> ns = [''dev'']"
proof
  assume a: "mounted (dfs_example two_mounts xs m) j ns"
  then have "j = 0 \<or> j = Suc 0" using two_mounts_cases[of j] by (simp add: mounted_def)
  then show "j = 0 \<and> ns = [] \<or> j = Suc 0 \<and> ns = [''dev'']"
    using a mounted_unique[OF two_mounts_entries(1)] mounted_unique[OF two_mounts_entries(2)] by blast
qed (use two_mounts_entries in blast)

lemma two_mounts_ok: "mounts_ok (dfs_example two_mounts xs m)"
  using two_mounts_cases by (auto simp: mounts_ok_def two_mounts_mounted)

theorem lookup_finds_deepest_witness:
  "\<exists>s'. dfs_filesystem_lookup ''/dev/uart'' (dfs_example two_mounts [] (\<lambda>_. None)) = Some (s', Some 1)"
proof -
  let ?s = "dfs_example two_mounts [] (\<lambda>_. None)" and ?ms = "[''dev'', ''uart'']"
  have m: "path_of ?ms = ''/dev/uart''" by (simp add: show_path_def)
  obtain s' r where r: "dfs_filesystem_lookup (path_of ?ms) ?s = Some (s', r)" "longest_mount ?s ?ms r"
    using lookup_finds_deepest[OF _ two_mounts_ok, of "[]" "\<lambda>_. None" ?ms] by (auto simp: names_ok_def)
  have "r = Some 1" using r(2) by (auto simp: longest_mount_def two_mounts_mounted split: option.splits)
  then show ?thesis using r(1) unfolding m by blast
qed

lemma no_fds_inv: "fd_inv (dfs_example fs [] m)" "fd_count (dfs_example fs [] m) = (\<lambda>_. 0)"
  by (simp_all add: fd_inv_def fd_count_def fun_eq_iff)

abbreviation heap_fine :: "nat \<Rightarrow> answers" where
  "heap_fine p \<equiv> \<lparr>grow = True, cell = Some p, blocks = (\<lambda>_. Some (\<lambda>_. NUL)), dup = True\<rparr>"


theorem fd_get_reads_null_witness:
  "fd_get 4 (dfs_example two_mounts [Some 7, None, None, None] [7 \<mapsto> new_fd]) = None"
  using fd_get_reads_null[of "dfs_example two_mounts [Some 7, None, None, None] [7 \<mapsto> new_fd]" 1]
  by (simp add: fd_inv_def fd_count_def in_use_def nth_Cons split: nat.splits)

end
