(* ===== verification/Rtt_Dfs_File.thy ===== *)
theory Rtt_Dfs_File
  imports Rtt_Dfs
begin

text \<open>
  Files (\<^verbatim>\<open>rt-thread/components/dfs/src/dfs_file.c\<close>) and mounting (\<^verbatim>\<open>dfs_fs.c\<close>,
  \<^verbatim>\<open>dfs_init\<close> of \<^verbatim>\<open>dfs.c\<close>). Of the shell commands in these files nothing is modelled.
\<close>

section \<open>Files\<close>

abbreviation (input) DFS_FS_FLAG_FULLPATH :: rt_uint32 where "DFS_FS_FLAG_FULLPATH \<equiv> 0x01"
abbreviation (input) FT_REGULAR :: rt_uint16 where "FT_REGULAR \<equiv> 0"
abbreviation (input) FT_DIRECTORY :: rt_uint16 where "FT_DIRECTORY \<equiv> 2"
abbreviation (input) DFS_F_OPEN :: rt_uint32 where "DFS_F_OPEN \<equiv> 0x01000000"
abbreviation (input) DFS_F_DIRECTORY :: rt_uint32 where "DFS_F_DIRECTORY \<equiv> 0x02000000"
abbreviation (input) DFS_F_EOF :: rt_uint32 where "DFS_F_EOF \<equiv> 0x04000000"
abbreviation (input) O_RDONLY :: rt_uint32 where "O_RDONLY \<equiv> 0"
abbreviation (input) O_CREAT :: rt_uint32 where "O_CREAT \<equiv> 0x40"
abbreviation (input) O_APPEND :: rt_uint32 where "O_APPEND \<equiv> 0x400"
abbreviation (input) O_NONBLOCK :: rt_uint32 where "O_NONBLOCK \<equiv> 0x800"
abbreviation (input) O_DIRECTORY :: rt_uint32 where "O_DIRECTORY \<equiv> 0x10000"
abbreviation (input) F_GETFL :: int where "F_GETFL \<equiv> 3"
abbreviation (input) F_SETFL :: int where "F_SETFL \<equiv> 4"

text \<open>The path a file system is given: below its root, or the full path when it asks for that.\<close>

definition path_below :: "rt_uint32 \<Rightarrow> string \<Rightarrow> string \<Rightarrow> string" where
  "path_below fl root fullpath =
     (if fl AND DFS_FS_FLAG_FULLPATH = 0 then (case dfs_subdir root fullpath of None \<Rightarrow> ''/'' | Some x \<Rightarrow> x) else fullpath)"

text \<open>What \<^verbatim>\<open>dfs_file_open\<close> puts into the descriptor before it calls the driver, and after.\<close>

definition begin_open :: "nat \<Rightarrow> rt_uint32 \<Rightarrow> nat \<Rightarrow> string option \<Rightarrow> dfs_fd \<Rightarrow> dfs_fd" where
  "begin_open fops flags i path d = d\<lparr>fd_fops := Some fops, fd_type := FT_REGULAR, fd_flags := flags, fd_size := 0,
     fd_pos := 0, fd_data := Some (OfMount i), fd_path := path\<rparr>"

definition end_open :: "rt_uint32 \<Rightarrow> dfs_fd \<Rightarrow> dfs_fd" where
  "end_open flags d =
     (let d = d\<lparr>fd_flags := fd_flags d OR DFS_F_OPEN\<rparr> in
      if flags AND O_DIRECTORY \<noteq> 0 then d\<lparr>fd_type := FT_DIRECTORY, fd_flags := fd_flags d OR DFS_F_DIRECTORY\<rparr> else d)"

definition dfs_file_open ::
  "('a dfs_scheme) drivers \<Rightarrow> answers \<Rightarrow> nat option \<Rightarrow> string \<Rightarrow> rt_uint32 \<Rightarrow> 'a dfs_scheme \<Rightarrow> ('a dfs_scheme \<times> int) option" where
  "dfs_file_open D h fd path flags s =
     (case fd of
        None \<Rightarrow> Some (s, - EINVAL)
      | Some p \<Rightarrow> do {
          r \<leftarrow> normalize (blocks h 0) path s;
          (case r of
             None \<Rightarrow> Some (s, - ENOMEM)
           | Some fullpath \<Rightarrow> do {
               (s, isopen) \<leftarrow> fd_is_open D (blocks h 1) fullpath s;
               (if isopen = 0 then Some (s, - EBUSY)
                else do {
                  (s, fs) \<leftarrow> dfs_filesystem_lookup fullpath s;
                  (case fs of
                     None \<Rightarrow> Some (s, - ENOENT)
                   | Some i \<Rightarrow> do {
                       ops \<leftarrow> fs_ops (filesystem_table s ! i);
                       root \<leftarrow> fs_path (filesystem_table s ! i);
                       _ \<leftarrow> fd_mem s p;
                       let t = fs_type D ops;
                       let copy = (if fo_flags t AND DFS_FS_FLAG_FULLPATH = 0 \<and> \<not> dup h then None
                                   else Some (path_below (fo_flags t) root fullpath));
                       let s = upd_fd p (begin_open (fo_fops t) flags i copy) s;
                       (case f_open (file_ops D (fo_fops t)) of
                          None \<Rightarrow> Some (upd_fd p (\<lambda>d. d\<lparr>fd_path := None\<rparr>) s, - ENOSYS)
                        | Some f \<Rightarrow> do {
                            (s, result) \<leftarrow> f p s;
                            _ \<leftarrow> fd_mem s p;
                            (if result < 0 then Some (upd_fd p (\<lambda>d. d\<lparr>fd_path := None\<rparr>) s, result)
                             else Some (upd_fd p (end_open flags) s, 0))
                          })
                     })
                })
             })
        })"

text \<open>The operations a descriptor has.\<close>

definition ops_of :: "('a dfs_scheme) drivers \<Rightarrow> nat \<Rightarrow> 'a dfs_scheme \<Rightarrow> ('a dfs_scheme) dfs_file_ops option" where
  "ops_of D p s = do { d \<leftarrow> fd_mem s p; map_option (file_ops D) (fd_fops d) }"

definition dfs_file_close ::
  "('a dfs_scheme) drivers \<Rightarrow> nat option \<Rightarrow> 'a dfs_scheme \<Rightarrow> ('a dfs_scheme \<times> int) option" where
  "dfs_file_close D fd s =
     (case fd of
        None \<Rightarrow> Some (s, - ENXIO)
      | Some p \<Rightarrow> do {
          ops \<leftarrow> ops_of D p s;
          (s, result) \<leftarrow> (case f_close ops of None \<Rightarrow> Some (s, 0) | Some f \<Rightarrow> f p s);
          (if result < 0 then Some (s, result)
           else do { _ \<leftarrow> fd_mem s p; Some (upd_fd p (\<lambda>d. d\<lparr>fd_path := None\<rparr>) s, result) })
        })"

definition dfs_file_ioctl ::
  "('a dfs_scheme) drivers \<Rightarrow> nat option \<Rightarrow> int \<Rightarrow> rt_uint32 \<Rightarrow> 'a dfs_scheme \<Rightarrow> ('a dfs_scheme \<times> int) option" where
  "dfs_file_ioctl D fd cmd args s =
     (case fd of
        None \<Rightarrow> Some (s, - EINVAL)
      | Some p \<Rightarrow> do {
          d \<leftarrow> fd_mem s p;
          (if fd_type d = FT_REGULAR \<and> cmd = F_GETFL then Some (s, sint (fd_flags d))
           else if fd_type d = FT_REGULAR \<and> cmd = F_SETFL then
             let mask = O_NONBLOCK OR O_APPEND; flags = args AND mask;
                 s = upd_fd p (\<lambda>d. d\<lparr>fd_flags := fd_flags d AND mask\<rparr>) s
             in Some (upd_fd p (\<lambda>d. d\<lparr>fd_flags := fd_flags d OR flags\<rparr>) s, 0)
           else do {
             ops \<leftarrow> ops_of D p s;
             (case f_ioctl ops of Some f \<Rightarrow> f p cmd args s | None \<Rightarrow> Some (s, - ENOSYS))
           })
        })"

definition dfs_file_read ::
  "('a dfs_scheme) drivers \<Rightarrow> nat option \<Rightarrow> rt_uint32 \<Rightarrow> 'a dfs_scheme \<Rightarrow> ('a dfs_scheme \<times> int \<times> rt_uint8 list) option" where
  "dfs_file_read D fd len s =
     (case fd of
        None \<Rightarrow> Some (s, - EINVAL, [])
      | Some p \<Rightarrow> do {
          ops \<leftarrow> ops_of D p s;
          (case f_read ops of
             None \<Rightarrow> Some (s, - ENOSYS, [])
           | Some f \<Rightarrow> do {
               (s, result, bs) \<leftarrow> f p len s;
               Some (if result < 0 then upd_fd p (\<lambda>d. d\<lparr>fd_flags := fd_flags d OR DFS_F_EOF\<rparr>) s else s, result, bs)
             })
        })"

definition dfs_file_getdents ::
  "('a dfs_scheme) drivers \<Rightarrow> nat option \<Rightarrow> rt_uint8 list \<Rightarrow> 'a dfs_scheme \<Rightarrow> ('a dfs_scheme \<times> int \<times> rt_uint8 list) option" where
  "dfs_file_getdents D fd dirp s =
     (case fd of
        None \<Rightarrow> Some (s, - EINVAL, dirp)
      | Some p \<Rightarrow> do {
          d \<leftarrow> fd_mem s p;
          (if fd_type d \<noteq> FT_DIRECTORY then Some (s, - EINVAL, dirp)
           else do {
             ops \<leftarrow> ops_of D p s;
             (case f_getdents ops of Some f \<Rightarrow> f p dirp s | None \<Rightarrow> Some (s, - ENOSYS, dirp))
           })
        })"

definition dfs_file_write ::
  "('a dfs_scheme) drivers \<Rightarrow> nat option \<Rightarrow> rt_uint8 list \<Rightarrow> 'a dfs_scheme \<Rightarrow> ('a dfs_scheme \<times> int) option" where
  "dfs_file_write D fd buf s =
     (case fd of
        None \<Rightarrow> Some (s, - EINVAL)
      | Some p \<Rightarrow> do {
          ops \<leftarrow> ops_of D p s;
          (case f_write ops of None \<Rightarrow> Some (s, - ENOSYS) | Some f \<Rightarrow> f p buf s)
        })"

definition dfs_file_flush :: "('a dfs_scheme) drivers \<Rightarrow> nat option \<Rightarrow> 'a dfs_scheme \<Rightarrow> ('a dfs_scheme \<times> int) option" where
  "dfs_file_flush D fd s =
     (case fd of
        None \<Rightarrow> Some (s, - EINVAL)
      | Some p \<Rightarrow> do {
          ops \<leftarrow> ops_of D p s;
          (case f_flush ops of None \<Rightarrow> Some (s, - ENOSYS) | Some f \<Rightarrow> f p s)
        })"

definition dfs_file_lseek ::
  "('a dfs_scheme) drivers \<Rightarrow> nat option \<Rightarrow> int \<Rightarrow> 'a dfs_scheme \<Rightarrow> ('a dfs_scheme \<times> int) option" where
  "dfs_file_lseek D fd offset s =
     (case fd of
        None \<Rightarrow> Some (s, - EINVAL)
      | Some p \<Rightarrow> do {
          ops \<leftarrow> ops_of D p s;
          (case f_lseek ops of
             None \<Rightarrow> Some (s, - ENOSYS)
           | Some f \<Rightarrow> do {
               (s, result) \<leftarrow> f p offset s;
               Some (if result \<ge> 0 then upd_fd p (\<lambda>d. d\<lparr>fd_pos := result\<rparr>) s else s, result)
             })
        })"

definition dfs_file_unlink ::
  "('a dfs_scheme) drivers \<Rightarrow> answers \<Rightarrow> string \<Rightarrow> 'a dfs_scheme \<Rightarrow> ('a dfs_scheme \<times> int) option" where
  "dfs_file_unlink D h path s = do {
     r \<leftarrow> normalize (blocks h 0) path s;
     (case r of
        None \<Rightarrow> Some (s, - EINVAL)
      | Some fullpath \<Rightarrow> do {
          (s, fs) \<leftarrow> dfs_filesystem_lookup fullpath s;
          (case fs of
             None \<Rightarrow> Some (s, - ENOENT)
           | Some i \<Rightarrow> do {
               (s, isopen) \<leftarrow> fd_is_open D (blocks h 1) fullpath s;
               (if isopen = 0 then Some (s, - EBUSY)
                else do {
                  ops \<leftarrow> fs_ops (filesystem_table s ! i);
                  root \<leftarrow> fs_path (filesystem_table s ! i);
                  (case fo_unlink (fs_type D ops) of
                     Some f \<Rightarrow> f i (path_below (fo_flags (fs_type D ops)) root fullpath) s
                   | None \<Rightarrow> Some (s, - ENOSYS))
                })
             })
        })
   }"

text \<open>\<^verbatim>\<open>S_IFDIR\<close> and the permissions of everybody.\<close>

definition root_stat :: stat where
  "root_stat = \<lparr>st_mode = 0x41FF, st_size = 0, st_mtime = 0\<rparr>"

definition dfs_file_stat ::
  "('a dfs_scheme) drivers \<Rightarrow> answers \<Rightarrow> string \<Rightarrow> stat \<Rightarrow> 'a dfs_scheme \<Rightarrow> ('a dfs_scheme \<times> int \<times> stat) option" where
  "dfs_file_stat D h path buf s = do {
     r \<leftarrow> normalize (blocks h 0) path s;
     (case r of
        None \<Rightarrow> Some (s, - 1, buf)
      | Some fullpath \<Rightarrow> do {
          (s, fs) \<leftarrow> dfs_filesystem_lookup fullpath s;
          (case fs of
             None \<Rightarrow> Some (s, - ENOENT, buf)
           | Some i \<Rightarrow> do {
               ops \<leftarrow> fs_ops (filesystem_table s ! i);
               root \<leftarrow> fs_path (filesystem_table s ! i);
               (if fullpath = ''/'' \<or> dfs_subdir root fullpath = None then Some (s, RT_EOK, root_stat)
                else case fo_stat (fs_type D ops) of
                  None \<Rightarrow> Some (s, - ENOSYS, buf)
                | Some f \<Rightarrow> f i (path_below (fo_flags (fs_type D ops)) root fullpath) s)
             })
        })
   }"

text \<open>A rename inside one file system; where no file system is found for either path the code follows a
  null pointer.\<close>

definition dfs_file_rename ::
  "('a dfs_scheme) drivers \<Rightarrow> answers \<Rightarrow> string \<Rightarrow> string \<Rightarrow> 'a dfs_scheme \<Rightarrow> ('a dfs_scheme \<times> int) option" where
  "dfs_file_rename D h oldpath newpath s = do {
     r \<leftarrow> normalize (blocks h 0) oldpath s;
     (case r of
        None \<Rightarrow> Some (s, - ENOENT)
      | Some oldfull \<Rightarrow> do {
          r \<leftarrow> normalize (blocks h 1) newpath s;
          (case r of
             None \<Rightarrow> Some (s, - ENOENT)
           | Some newfull \<Rightarrow> do {
               (s, oldfs) \<leftarrow> dfs_filesystem_lookup oldfull s;
               (s, newfs) \<leftarrow> dfs_filesystem_lookup newfull s;
               (if oldfs = newfs then do {
                  i \<leftarrow> oldfs;
                  ops \<leftarrow> fs_ops (filesystem_table s ! i);
                  root \<leftarrow> fs_path (filesystem_table s ! i);
                  let t = fs_type D ops;
                  (case fo_rename t of
                     None \<Rightarrow> Some (s, - ENOSYS)
                   | Some f \<Rightarrow>
                       if fo_flags t AND DFS_FS_FLAG_FULLPATH \<noteq> 0 then f i (Some oldfull) (Some newfull) s
                       else f i (dfs_subdir root oldfull) (dfs_subdir root newfull) s)
                }
                else Some (s, - EXDEV))
             })
        })
   }"

section \<open>Mounting\<close>

text \<open>The scan of \<^verbatim>\<open>dfs_mount\<close>: the first free entry, or whether the path is mounted.\<close>

fun mount_scan :: "string \<Rightarrow> nat \<Rightarrow> dfs_filesystem list \<Rightarrow> nat option \<Rightarrow> (bool \<times> nat option) option" where
  "mount_scan path i [] fs = Some (False, fs)"
| "mount_scan path i (x # xs) fs =
     (if fs_ops x = None then mount_scan path (Suc i) xs (if fs = None then Some i else fs)
      else case fs_path x of
        None \<Rightarrow> None
      | Some p \<Rightarrow> if p = path then Some (True, fs) else mount_scan path (Suc i) xs fs)"

definition set_fs :: "nat \<Rightarrow> dfs_filesystem \<Rightarrow> 'a dfs_scheme \<Rightarrow> 'a dfs_scheme" where
  "set_fs i x s = s\<lparr>filesystem_table := (filesystem_table s)[i := x]\<rparr>"

text \<open>The descriptor \<^verbatim>\<open>fd\<close> on the stack of \<^verbatim>\<open>dfs_mount\<close>: its address and what is there.\<close>

definition is_directory ::
  "('a dfs_scheme) drivers \<Rightarrow> answers \<Rightarrow> nat \<times> dfs_fd \<Rightarrow> string \<Rightarrow> 'a dfs_scheme \<Rightarrow> ('a dfs_scheme \<times> bool) option" where
  "is_directory D h frame fullpath s = do {
     let (p, d) = frame;
     let s = s\<lparr>fd_mem := (fd_mem s)(p \<mapsto> d)\<rparr>;
     (s, r) \<leftarrow> dfs_file_open D h (Some p) fullpath (O_RDONLY OR O_DIRECTORY) s;
     s \<leftarrow> (if r < 0 then Some s else map_option fst (dfs_file_close D (Some p) s));
     Some (s\<lparr>fd_mem := (fd_mem s)(p := None)\<rparr>, \<not> r < 0)
   }"

definition reserve_entry ::
  "string \<Rightarrow> string \<Rightarrow> nat \<Rightarrow> nat option \<Rightarrow> 'a dfs_scheme \<Rightarrow> ('a dfs_scheme \<times> nat option) option" where
  "reserve_entry path fullpath ops dev = dfs_locked (\<lambda>s. do {
     (found, fs) \<leftarrow> mount_scan path 0 (filesystem_table s) None;
     (if found then Some (set_errno (- EINVAL) s, None)
      else case fs of
        None \<Rightarrow> Some (set_errno (- ENOSPC) s, None)
      | Some i \<Rightarrow> Some (set_fs i \<lparr>dev_id = dev, fs_path = Some fullpath, fs_ops = Some ops\<rparr> s, Some i))
   })"

definition clear_entry :: "nat \<Rightarrow> 'a dfs_scheme \<Rightarrow> ('a dfs_scheme \<times> unit) option" where
  "clear_entry i = dfs_locked (\<lambda>s. Some (set_fs i empty_fs s, ()))"

text \<open>From the reservation of the entry on.\<close>

definition mount_entry ::
  "('a dfs_scheme) drivers \<Rightarrow> (nat \<Rightarrow> rt_uint32 \<Rightarrow> nat \<Rightarrow> 'a dfs_scheme \<Rightarrow> ('a dfs_scheme \<times> int) option) \<Rightarrow>
     string \<Rightarrow> string \<Rightarrow> nat \<Rightarrow> nat option \<Rightarrow> rt_uint32 \<Rightarrow> nat \<Rightarrow> 'a dfs_scheme \<Rightarrow> ('a dfs_scheme \<times> int) option" where
  "mount_entry D mount path fullpath ops dev rwflag data s = do {
     (s, entry) \<leftarrow> reserve_entry path fullpath ops dev s;
     (case entry of
        None \<Rightarrow> Some (s, - 1)
      | Some i \<Rightarrow> do {
          (s, r) \<leftarrow> (case dev of None \<Rightarrow> Some (s, RT_EOK) | Some d \<Rightarrow> rt_device_open (dv_ops D) d RT_DEVICE_FLAG_RDWR s);
          (if r \<noteq> RT_EOK then do { (s, _) \<leftarrow> clear_entry i s; Some (s, - 1) }
           else do {
             (s, r) \<leftarrow> mount i rwflag data s;
             (if r < 0 then do {
                s \<leftarrow> (case dev of None \<Rightarrow> Some s | Some d \<Rightarrow> map_option fst (rt_device_close (dv_ops D) d s));
                (s, _) \<leftarrow> clear_entry i s;
                Some (s, - 1)
              }
              else Some (s, 0))
           })
        })
   }"

text \<open>Finding a device by the name in a string; \<open>None\<close> inside when there is none.\<close>

definition find_device :: "string \<Rightarrow> 'a dfs_scheme \<Rightarrow> ('a dfs_scheme \<times> nat option) option" where
  "find_device nm s = do {
     (s, r) \<leftarrow> rt_device_find (cstr (map of_char nm)) s;
     Some (s, case r of Some (ODevice d) \<Rightarrow> Some d | _ \<Rightarrow> None)
   }"

definition later :: "nat \<Rightarrow> answers \<Rightarrow> answers" where
  "later n h = h\<lparr>blocks := \<lambda>i. blocks h (n + i)\<rparr>"

definition dfs_mount ::
  "('a dfs_scheme) drivers \<Rightarrow> answers \<Rightarrow> nat \<times> dfs_fd \<Rightarrow> string option \<Rightarrow> string \<Rightarrow> string \<Rightarrow> rt_uint32 \<Rightarrow> nat \<Rightarrow>
     'a dfs_scheme \<Rightarrow> ('a dfs_scheme \<times> int) option" where
  "dfs_mount D h frame device_name path filesystemtype rwflag data s = do {
     (s, dev) \<leftarrow> (case device_name of None \<Rightarrow> Some (s, None) | Some nm \<Rightarrow> find_device nm s);
     (if device_name \<noteq> None \<and> dev = None then Some (set_errno (- ENODEV) s, - 1)
      else do {
        (s, ops) \<leftarrow> dfs_locked (\<lambda>s. Some (s, find (\<lambda>x. map_option (\<lambda>t. fo_name (fs_type D t)) x = Some filesystemtype)
                        (filesystem_operation_table s))) s;
        (case ops of
           Some (Some ops) \<Rightarrow>
             (case fo_mount (fs_type D ops) of
                None \<Rightarrow> Some (set_errno (- ENOSYS) s, - 1)
              | Some mount \<Rightarrow> do {
                  r \<leftarrow> normalize (blocks h 0) path s;
                  (case r of
                     None \<Rightarrow> Some (set_errno (- ENOTDIR) s, - 1)
                   | Some fullpath \<Rightarrow> do {
                       (s, exists) \<leftarrow> (if fullpath \<noteq> ''/'' \<and> fullpath \<noteq> ''/dev'' then is_directory D (later 1 h) frame fullpath s
                                      else Some (s, True));
                       (if \<not> exists then Some (set_errno (- ENOTDIR) s, - 1)
                        else mount_entry D mount path fullpath ops dev rwflag data s)
                     })
                })
         | _ \<Rightarrow> Some (set_errno (- ENODEV) s, - 1))
      })
   }"

definition dfs_unmount ::
  "('a dfs_scheme) drivers \<Rightarrow> answers \<Rightarrow> string \<Rightarrow> 'a dfs_scheme \<Rightarrow> ('a dfs_scheme \<times> int) option" where
  "dfs_unmount D h specialfile s = do {
     r \<leftarrow> normalize (blocks h 0) specialfile s;
     (case r of
        None \<Rightarrow> Some (set_errno (- ENOTDIR) s, - 1)
      | Some fullpath \<Rightarrow> dfs_locked (\<lambda>s.
          case List.extract (\<lambda>x. fs_path x = Some fullpath) (filesystem_table s) of
            None \<Rightarrow> Some (s, - 1)
          | Some (before, x, _) \<Rightarrow> do {
              let i = length before;
              ops \<leftarrow> fs_ops x;
              (case fo_unmount (fs_type D ops) of
                 None \<Rightarrow> Some (s, - 1)
               | Some f \<Rightarrow> do {
                   (s, r) \<leftarrow> f i s;
                   (if r < 0 then Some (s, - 1)
                    else do {
                      s \<leftarrow> (case dev_id (filesystem_table s ! i) of
                          None \<Rightarrow> Some s
                        | Some d \<Rightarrow> map_option fst (rt_device_close (dv_ops D) d s));
                      Some (set_fs i empty_fs s, 0)
                    })
                 })
            }) s)
   }"

text \<open>The loop of \<^verbatim>\<open>dfs_mkfs\<close> runs to \<^verbatim>\<open>DFS_FILESYSTEM_TYPES_MAX\<close> inclusive: it reads behind the
  table when no entry has the name.\<close>

fun mkfs_scan :: "(nat \<Rightarrow> string) \<Rightarrow> string \<Rightarrow> nat option list \<Rightarrow> nat option" where
  "mkfs_scan name nm [] = None"
| "mkfs_scan name nm (x # xs) = (if map_option name x = Some nm then x else mkfs_scan name nm xs)"

definition dfs_mkfs ::
  "('a dfs_scheme) drivers \<Rightarrow> string \<Rightarrow> string option \<Rightarrow> 'a dfs_scheme \<Rightarrow> ('a dfs_scheme \<times> int) option" where
  "dfs_mkfs D fs_name device_name s = do {
     (s, dev) \<leftarrow> (case device_name of None \<Rightarrow> Some (s, None) | Some nm \<Rightarrow> find_device nm s);
     (case dev of
        None \<Rightarrow> Some (set_errno (- ENODEV) s, - 1)
      | Some d \<Rightarrow> do {
          (s, ops) \<leftarrow> dfs_locked (\<lambda>s. do {
            ops \<leftarrow> mkfs_scan (\<lambda>t. fo_name (fs_type D t)) fs_name (filesystem_operation_table s);
            Some (s, ops)
          }) s;
          (case fo_mkfs (fs_type D ops) of
             None \<Rightarrow> Some (set_errno (- ENOSYS) s, - 1)
           | Some f \<Rightarrow> f d s)
        })
   }"

definition dfs_statfs ::
  "('a dfs_scheme) drivers \<Rightarrow> string \<Rightarrow> statfs \<Rightarrow> 'a dfs_scheme \<Rightarrow> ('a dfs_scheme \<times> int \<times> statfs) option" where
  "dfs_statfs D path buffer s = do {
     (s, fs) \<leftarrow> dfs_filesystem_lookup path s;
     (case fs of
        None \<Rightarrow> Some (s, - 1, buffer)
      | Some i \<Rightarrow> do {
          ops \<leftarrow> fs_ops (filesystem_table s ! i);
          (case fo_statfs (fs_type D ops) of None \<Rightarrow> Some (s, - 1, buffer) | Some f \<Rightarrow> f i s)
        })
   }"

text \<open>A partition of a boot sector: type, offset and size; the message to the console is left out.\<close>

definition word_at :: "(nat \<Rightarrow> rt_uint8) \<Rightarrow> nat \<Rightarrow> rt_uint32" where
  "word_at b i = ucast (b i) OR push_bit 8 (ucast (b (i + 1))) OR push_bit 16 (ucast (b (i + 2))) OR push_bit 24 (ucast (b (i + 3)))"

definition dfs_filesystem_get_partition :: "(nat \<Rightarrow> rt_uint8) \<Rightarrow> nat \<Rightarrow> int \<times> (rt_uint8 \<times> rt_uint32 \<times> rt_uint32) option" where
  "dfs_filesystem_get_partition buf pindex =
     (let dpt = 0x1be + pindex * 16 in
      if buf dpt \<noteq> 0x80 \<and> buf dpt \<noteq> 0x00 then (- EIO, None)
      else if buf (dpt + 4) = 0 then (- EIO, None)
      else (RT_EOK, Some (buf (dpt + 4), word_at buf (dpt + 8), word_at buf (dpt + 12))))"

text \<open>\<^verbatim>\<open>dfs_init\<close>; \<open>devfs\<close> is the device file system, which \<^verbatim>\<open>devfs_init\<close> registers.\<close>

definition dfs_init ::
  "('a dfs_scheme) drivers \<Rightarrow> answers \<Rightarrow> nat \<times> dfs_fd \<Rightarrow> nat \<Rightarrow> bool \<Rightarrow> 'a dfs_scheme \<Rightarrow> ('a dfs_scheme \<times> bool \<times> int) option" where
  "dfs_init D h frame devfs init_ok s =
     (if init_ok then Some (s, init_ok, 0)
      else do {
        let s = s\<lparr>filesystem_operation_table := replicate DFS_FILESYSTEM_TYPES_MAX None,
                  filesystem_table := replicate DFS_FILESYSTEMS_MAX empty_fs, fds := []\<rparr>;
        (k, _) \<leftarrow> rt_mutex_init (fslock s) (map of_char ''fslock'') RT_IPC_FLAG_FIFO (dv_kernel s);
        let s = s\<lparr>dv_kernel := k, working_directory := ''/''\<rparr>;
        (s, _) \<leftarrow> dfs_register D devfs s;
        (s, _) \<leftarrow> dfs_mount D h frame None ''/dev'' ''devfs'' 0 0 s;
        Some (s, True, 0)
      })"

end
