(* ===== verification/Rtt_Dfs_Spec.thy ===== *)
theory Rtt_Dfs_Spec
  imports Rtt_Dfs_File
begin

text \<open>
  What the calls of the device file system do on canonical paths: the file system a path leads to, the
  name a file has there, and the consequences for mounting and for files that are open.
\<close>

section \<open>Paths\<close>

text \<open>\<open>leads_to wd path ms\<close>: the path, from the working directory, has the names \<open>ms\<close> from the
  root.\<close>

definition leads_to :: "string \<Rightarrow> string \<Rightarrow> string list \<Rightarrow> bool" where
  "leads_to wd path ms \<longleftrightarrow> NUL \<notin> set (full_name wd path) \<and>
     resolve (is_absolute (full_name wd path)) [] (path_names (full_name wd path)) = Some (True, ms)"

lemma leads_to_names: "leads_to wd path ms \<Longrightarrow> names_ok ms"
  using resolve_names[of True "[]" _ True ms] path_names_sets resolve_no_dots
  unfolding leads_to_def names_ok_def
  by (fastforce dest: resolve_names resolve_no_dots path_names_sets)

lemma normalize_leads_to: "leads_to (working_directory s) path ms \<Longrightarrow> normalize (Some m) path s = Some (Some (path_of ms))"
  using resolves_aux[of "working_directory s" path m "working_directory s"]
  by (simp add: normalize_def leads_to_def dfs_normalize_path_def)

lemma path_of_no_NUL: "names_ok ms \<Longrightarrow> NUL \<notin> set (path_of ms)"
  using join_names_set[of ms] by (auto simp: show_path_def names_ok_def)

lemma path_of_absolute [simp]: "is_absolute (path_of ms)"
  by (simp add: is_absolute_def)

lemma path_of_leads_to: "names_ok ms \<Longrightarrow> leads_to wd (path_of ms) ms"
  using resolve_plain[of ms True "[]"]
  by (auto simp: leads_to_def full_name_def path_of_no_NUL path_names_of names_ok_def)

lemma path_below_names:
  assumes "names_ok (ns @ ks)" "fl AND DFS_FS_FLAG_FULLPATH = 0"
  shows "path_below fl (path_of ns) (path_of (ns @ ks)) = path_of ks"
proof -
  have sl: "path_of ks ! 0 = CHR ''/''" by (metis hd_conv_nth path_of_simps(2,3))
  have "dfs_subdir (path_of ns) (path_of (ns @ ks)) = (if ks = [] then None else Some (path_of ks))"
  proof (cases "ks = []")
    case False
    have len: "length (path_of ns) < length (path_of (ns @ ks))" by (rule path_of_mono[OF assms(1) False])
    show ?thesis
    proof (cases "ns = []")
      case True
      obtain k ks' where ks: "ks = k # ks'" using False by (cases ks) auto
      obtain c cs where k: "k = c # cs" "c \<noteq> CHR ''/''" using assms(1) ks True by (cases k) (auto simp: names_ok_def)
      have "path_of ks = CHR ''/'' # c # cs @ concat (map (\<lambda>n. CHR ''/'' # n) ks')" by (simp add: path_of_concat ks k(1))
      then show ?thesis using True False k(2) len by (simp add: dfs_subdir_def)
    next
      case F: False
      then have "path_of (ns @ ks) = path_of ns @ path_of ks" using False by (rule path_of_append)
      then show ?thesis using False len sl by (simp add: dfs_subdir_def nth_append)
    qed
  qed (simp add: dfs_subdir_def)
  then show ?thesis using assms(2) by (simp add: path_below_def)
qed

text \<open>The name that \<^verbatim>\<open>fd_is_open\<close> looks for.\<close>

definition open_name :: "string list \<Rightarrow> string list \<Rightarrow> string" where
  "open_name ns ks = (if ns \<noteq> [] \<and> ks = [] then [] else path_of ks)"

lemma open_name_eq:
  "(if path_of ns = ''/'' then path_of (ns @ ks) else drop (length (path_of ns)) (path_of (ns @ ks))) = open_name ns ks"
  if "names_ok ns"
proof (cases "ns = []")
  case False
  then have "path_of ns \<noteq> ''/''" using path_of_longer[OF that False] by auto
  then show ?thesis using False path_of_append[OF False, of ks] by (cases "ks = []") (simp_all add: open_name_def)
qed (simp add: open_name_def)

section \<open>The way of a path\<close>

text \<open>File system \<open>j\<close>, mounted on \<open>ns\<close>, is the only one that deep on the way.\<close>

definition deepest :: "'a dfs_scheme \<Rightarrow> nat \<Rightarrow> string list \<Rightarrow> string list \<Rightarrow> bool" where
  "deepest s j ns ms \<longleftrightarrow> mounted s j ns \<and> prefix ns ms \<and>
     (\<forall>i xs. mounted s i xs \<longrightarrow> prefix xs ms \<longrightarrow> i = j \<or> length xs < length ns)"

lemma deepest_same: "same_tables s s' \<Longrightarrow> deepest s' j ns ms = deepest s j ns ms"
  by (simp add: deepest_def mounted_same)

lemma lookup_deepest:
  assumes "mounts_ok s" "names_ok ms" "deepest s j ns ms"
  shows "lookup_scan (path_of ms) 0 (filesystem_table s) None 0 = Some j"
proof -
  have d: "mounted s j ns" "prefix ns ms" "\<And>i xs. mounted s i xs \<Longrightarrow> prefix xs ms \<Longrightarrow> i = j \<or> length xs < length ns"
    using assms(3) by (auto simp: deepest_def)
  have "longest_mount s ms (lookup_scan (path_of ms) 0 (filesystem_table s) None 0)" by (rule lookup_scan_longest[OF assms(1,2)])
  then show ?thesis
  proof (cases "lookup_scan (path_of ms) 0 (filesystem_table s) None 0")
    case (Some i)
    then obtain xs where i: "mounted s i xs" "prefix xs ms" "length ns \<le> length xs"
      using \<open>longest_mount _ _ _\<close> d(1,2) by (auto simp: longest_mount_def)
    then show ?thesis using d(3)[OF i(1,2)] Some by auto
  qed (use d in \<open>auto simp: longest_mount_def\<close>)
qed

lemma lookup_deepest_run:
  assumes "dfs_ready s" "mounts_ok s" "names_ok ms" "deepest s j ns ms"
  obtains s' where "dfs_filesystem_lookup (path_of ms) s = Some (s', Some j)" "dfs_ready s'" "same_tables s s'"
  using lookup_run[OF assms(1), of "path_of ms"] lookup_deepest[OF assms(2-4)] by auto

text \<open>A descriptor in the table is open with these operations and this name.\<close>

definition opened :: "'a dfs_scheme \<Rightarrow> nat \<Rightarrow> string \<Rightarrow> bool" where
  "opened s fops q \<longleftrightarrow> (\<exists>p d. Some p \<in> set (fds s) \<and> fd_mem s p = Some d \<and> fd_fops d = Some fops \<and> fd_path d = Some q)"

lemma open_scan_spec:
  assumes "\<And>p. Some p \<in> set xs \<Longrightarrow> m p \<noteq> None"
  shows "open_scan m xs fops q = Some (\<exists>p d. Some p \<in> set xs \<and> m p = Some d \<and> fd_fops d = Some fops \<and> fd_path d = Some q)"
  using assms
proof (induction m xs fops q rule: open_scan.induct)
  case (3 m p xs fops q)
  obtain d where d: "m p = Some d" using "3.prems"[of p] by auto
  have ih: "open_scan m xs fops q = Some (\<exists>p d. Some p \<in> set xs \<and> m p = Some d \<and> fd_fops d = Some fops \<and> fd_path d = Some q)"
    if "fd_fops d = None \<or> fd_path d = None \<or> \<not> (fd_fops d = Some fops \<and> fd_path d = Some q)"
    using "3.IH"(1)[OF d] "3.IH"(2)[OF d] "3.prems" that by (cases "fd_fops d = None \<or> fd_path d = None") auto
  show ?case
  proof (cases "fd_fops d = Some fops \<and> fd_path d = Some q")
    case True
    then show ?thesis using d by auto
  next
    case False
    then show ?thesis using d ih by auto
  qed
qed auto

lemma fd_inv_allocated: "fd_inv s \<Longrightarrow> Some p \<in> set (fds s) \<Longrightarrow> fd_mem s p \<noteq> None"
  using fd_invD(2)[of s _ p] by (auto simp: in_set_conv_nth in_use_def)

lemma is_open_run:
  assumes "dfs_ready s" "mounts_ok s" "leads_to (working_directory s) path (ns @ ks)" "deepest s j ns (ns @ ks)"
    and "fs_ops (filesystem_table s ! j) = Some ops" "\<And>p. Some p \<in> set (fds s) \<Longrightarrow> fd_mem s p \<noteq> None"
  shows "\<exists>s'. fd_is_open D (Some m) path s =
      Some (s', if opened s (fo_fops (fs_type D ops)) (open_name ns ks) then 0 else - 1) \<and> dfs_ready s' \<and> same_tables s s'"
proof -
  have n: "names_ok (ns @ ks)" by (rule leads_to_names[OF assms(3)])
  then have nn: "names_ok ns" by (simp add: names_ok_def)
  obtain s1 where s1: "dfs_filesystem_lookup (path_of (ns @ ks)) s = Some (s1, Some j)" "dfs_ready s1" "same_tables s s1"
    by (rule lookup_deepest_run[OF assms(1,2) n assms(4)])
  have p: "fs_path (filesystem_table s ! j) = Some (path_of ns)" using assms(4) by (simp add: deepest_def mounted_def)
  note same = same_tablesD[OF s1(3)]
  let ?o = "opened s (fo_fops (fs_type D ops)) (open_name ns ks)"
  have scan: "open_scan (fd_mem s) (fds s) (fo_fops (fs_type D ops)) (open_name ns ks) = Some ?o"
    unfolding opened_def by (rule open_scan_spec[OF assms(6)])
  let ?body = "\<lambda>s. do { found \<leftarrow> open_scan (fd_mem s) (fds s) (fo_fops (fs_type D ops)) (open_name ns ks);
                 Some (s, if found then 0 else - 1 :: int) }"
  have "\<exists>s'. dfs_locked ?body s1 = Some (s', if ?o then 0 else - 1) \<and> dfs_ready s' \<and> same_tables s1 s'"
    by (rule dfs_locked_run[OF s1(2)]) (use same scan in simp_all)
  then obtain s2 where s2: "dfs_locked ?body s1 = Some (s2, if ?o then 0 else - 1)" "dfs_ready s2" "same_tables s1 s2" by blast
  have "same_tables s s2" using s1(3) s2(3) by (auto simp: same_tables_def)
  then show ?thesis
    using s1 s2 same p assms(5) normalize_leads_to[OF assms(3), of m] open_name_eq[OF nn, of ks]
    by (intro exI[of _ s2]) (simp add: fd_is_open_def Let_def)
qed

section \<open>Opening\<close>

lemma same_tables_upd_fd:
  assumes "same_tables s s'" shows "same_tables (upd_fd p f s) (upd_fd p f s')"
proof -
  obtain k where "s' = s\<lparr>dv_kernel := k\<rparr>" using assms by (auto simp: same_tables_def)
  then have "upd_fd p f s' = (upd_fd p f s)\<lparr>dv_kernel := k\<rparr>" by simp
  then show ?thesis unfolding same_tables_def by blast
qed

text \<open>The part of \<^verbatim>\<open>dfs_file_open\<close> from the call of the driver on.\<close>

definition driver_open ::
  "(nat \<Rightarrow> 'a dfs_scheme \<Rightarrow> ('a dfs_scheme \<times> int) option) option \<Rightarrow> nat \<Rightarrow> rt_uint32 \<Rightarrow> 'a dfs_scheme \<Rightarrow>
     ('a dfs_scheme \<times> int) option" where
  "driver_open fopen p flags s =
     (case fopen of
        None \<Rightarrow> Some (upd_fd p (\<lambda>d. d\<lparr>fd_path := None\<rparr>) s, - ENOSYS)
      | Some f \<Rightarrow> do {
          (s, result) \<leftarrow> f p s;
          _ \<leftarrow> fd_mem s p;
          (if result < 0 then Some (upd_fd p (\<lambda>d. d\<lparr>fd_path := None\<rparr>) s, result)
           else Some (upd_fd p (end_open flags) s, 0))
        })"

text \<open>A state in which a path can be opened: the heap gives what is asked for, and the way leads to file
  system \<open>j\<close>.\<close>

definition can_open ::
  "('a dfs_scheme) drivers \<Rightarrow> answers \<Rightarrow> 'a dfs_scheme \<Rightarrow> string \<Rightarrow> nat \<Rightarrow> nat \<Rightarrow> string list \<Rightarrow> string list \<Rightarrow> bool" where
  "can_open D h s path j ops ns ks \<longleftrightarrow> dfs_ready s \<and> mounts_ok s \<and> leads_to (working_directory s) path (ns @ ks) \<and>
     deepest s j ns (ns @ ks) \<and> fs_ops (filesystem_table s ! j) = Some ops \<and>
     (\<forall>p. Some p \<in> set (fds s) \<longrightarrow> fd_mem s p \<noteq> None) \<and> blocks h 0 \<noteq> None \<and> blocks h 1 \<noteq> None \<and> dup h \<and>
     fo_flags (fs_type D ops) AND DFS_FS_FLAG_FULLPATH = 0"

lemma open_busy:
  assumes "can_open D h s path j ops ns ks" "opened s (fo_fops (fs_type D ops)) (open_name ns ks)"
  shows "\<exists>s'. dfs_file_open D h (Some p) path flags s = Some (s', - EBUSY) \<and> same_tables s s'"
proof -
  obtain m0 m1 where h: "blocks h 0 = Some m0" "blocks h 1 = Some m1" using assms(1) by (auto simp: can_open_def)
  have lead: "leads_to (working_directory s) path (ns @ ks)" using assms(1) by (simp add: can_open_def)
  then have "leads_to (working_directory s) (path_of (ns @ ks)) (ns @ ks)" by (intro path_of_leads_to leads_to_names)
  then obtain s1 where "fd_is_open D (Some m1) (path_of (ns @ ks)) s = Some (s1, 0)" "same_tables s s1"
    using is_open_run[of s "path_of (ns @ ks)" ns ks j ops D m1] assms by (auto simp: can_open_def)
  then show ?thesis using normalize_leads_to[OF lead, of m0] h by (simp add: dfs_file_open_def)
qed

lemma open_run:
  assumes "can_open D h s path j ops ns ks" "\<not> opened s (fo_fops (fs_type D ops)) (open_name ns ks)" "fd_mem s p \<noteq> None"
  shows "\<exists>s1. same_tables (upd_fd p (begin_open (fo_fops (fs_type D ops)) flags j (Some (path_of ks))) s) s1 \<and> dfs_ready s1 \<and>
    dfs_file_open D h (Some p) path flags s = driver_open (f_open (file_ops D (fo_fops (fs_type D ops)))) p flags s1"
proof -
  let ?t = "fs_type D ops"
  obtain m0 m1 where h: "blocks h 0 = Some m0" "blocks h 1 = Some m1" "dup h" using assms(1) by (auto simp: can_open_def)
  have lead: "leads_to (working_directory s) path (ns @ ks)" and d: "deepest s j ns (ns @ ks)" "mounts_ok s"
      "fs_ops (filesystem_table s ! j) = Some ops" "fo_flags ?t AND DFS_FS_FLAG_FULLPATH = 0" using assms(1) by (simp_all add: can_open_def)
  have n: "names_ok (ns @ ks)" by (rule leads_to_names[OF lead])
  then have "leads_to (working_directory s) (path_of (ns @ ks)) (ns @ ks)" by (rule path_of_leads_to)
  then obtain s1 where s1: "fd_is_open D (Some m1) (path_of (ns @ ks)) s = Some (s1, - 1)" "dfs_ready s1" "same_tables s s1"
    using is_open_run[of s "path_of (ns @ ks)" ns ks j ops D m1] assms by (auto simp: can_open_def)
  have "mounts_ok s1" using d(2) same_tablesD[OF s1(3)] mounted_same[OF s1(3)] by (simp add: mounts_ok_def)
  then obtain s2 where s2: "dfs_filesystem_lookup (path_of (ns @ ks)) s1 = Some (s2, Some j)" "dfs_ready s2" "same_tables s1 s2"
    by (rule lookup_deepest_run[OF s1(2) _ n]) (use d(1) deepest_same[OF s1(3)] in blast)+
  have same: "same_tables s s2" using s1(3) s2(3) by (auto simp: same_tables_def)
  note f = same_tablesD[OF same]
  have root: "fs_path (filesystem_table s ! j) = Some (path_of ns)" using d(1) by (simp add: deepest_def mounted_def)
  let ?fresh = "begin_open (fo_fops ?t) flags j (Some (path_of ks))"
  have "dfs_file_open D h (Some p) path flags s = driver_open (f_open (file_ops D (fo_fops ?t))) p flags (upd_fd p ?fresh s2)"
    using normalize_leads_to[OF lead, of m0] h s1(1) s2(1) f d(3,4) root assms(3) path_below_names[OF n d(4)]
    by (auto simp: dfs_file_open_def driver_open_def Let_def split: option.split)
  moreover have "same_tables (upd_fd p ?fresh s) (upd_fd p ?fresh s2)" by (rule same_tables_upd_fd[OF same])
  moreover have "dfs_ready (upd_fd p ?fresh s2)" using s2(2) by simp
  ultimately show ?thesis by blast
qed

section \<open>Mounting\<close>

lemma mount_scan_free:
  assumes "\<And>x. x \<in> set xs \<Longrightarrow> fs_ops x \<noteq> None \<Longrightarrow> fs_path x \<noteq> None \<and> fs_path x \<noteq> Some path"
  shows "mount_scan path i xs fs = Some (False, case fs of Some _ \<Rightarrow> fs
     | None \<Rightarrow> (case List.extract (\<lambda>x. fs_ops x = None) xs of None \<Rightarrow> None | Some (b, _, _) \<Rightarrow> Some (i + length b)))"
  using assms
proof (induction xs arbitrary: i fs)
  case (Cons x xs)
  have ih: "mount_scan path j xs gs = Some (False, case gs of Some _ \<Rightarrow> gs
     | None \<Rightarrow> (case List.extract (\<lambda>x. fs_ops x = None) xs of None \<Rightarrow> None | Some (b, _, _) \<Rightarrow> Some (j + length b)))" for j gs
    by (rule Cons.IH) (use Cons.prems in auto)
  show ?case
  proof (cases "fs_ops x")
    case None
    then show ?thesis by (simp add: ih extract_Cons_code split: option.split)
  next
    case (Some ops)
    then obtain p where "fs_path x = Some p" "p \<noteq> path" using Cons.prems[of x] by auto
    then show ?thesis using Some by (simp add: ih extract_Cons_code split: option.split)
  qed
qed (simp add: extract_Nil_code split: option.split)

lemma set_fs_simps [simp]:
  "filesystem_table (set_fs i x s) = (filesystem_table s)[i := x]" "dv_kernel (set_fs i x s) = dv_kernel s"
  "fslock (set_fs i x s) = fslock s" "working_directory (set_fs i x s) = working_directory s" "fds (set_fs i x s) = fds s"
  "fd_mem (set_fs i x s) = fd_mem s" "filesystem_operation_table (set_fs i x s) = filesystem_operation_table s"
  by (simp_all add: set_fs_def)

lemma set_fs_kernel: "set_fs i x (s\<lparr>dv_kernel := k\<rparr>) = (set_fs i x s)\<lparr>dv_kernel := k\<rparr>"
  by (simp add: set_fs_def)

definition entry_for :: "string list \<Rightarrow> nat \<Rightarrow> dfs_filesystem" where
  "entry_for ns ops = \<lparr>dev_id = None, fs_path = Some (path_of ns), fs_ops = Some ops\<rparr>"

lemma reserve_run:
  assumes "dfs_ready s" "mount_scan path 0 (filesystem_table s) None = Some (False, Some i)"
  shows "\<exists>s'. reserve_entry path (path_of ns) ops None s = Some (s', Some i) \<and> dfs_ready s' \<and> same_tables (set_fs i (entry_for ns ops) s) s'"
  unfolding reserve_entry_def
  by (rule dfs_locked_run[OF assms(1)]) (use assms(2) in \<open>simp_all add: set_fs_kernel entry_for_def\<close>)

lemma reserve_refused:
  assumes "dfs_ready s" "mount_scan path 0 (filesystem_table s) None = Some (True, fs)"
  shows "\<exists>s'. reserve_entry path full ops dev s = Some (s', None) \<and> dfs_ready s' \<and> same_tables s s'"
  unfolding reserve_entry_def
  by (rule dfs_locked_general[OF assms(1)]) (use assms(2) in \<open>auto simp: same_tables_def\<close>)

text \<open>The part of \<^verbatim>\<open>dfs_mount\<close> in front of the table: for the root and the device directory the path
  is not looked at.\<close>

lemma mount_to_entry:
  assumes "dfs_ready s" "leads_to (working_directory s) path ns" "ns = [] \<or> ns = [''dev'']" "blocks h 0 \<noteq> None"
    and "find (\<lambda>x. map_option (\<lambda>t. fo_name (fs_type D t)) x = Some ty) (filesystem_operation_table s) = Some (Some ops)"
    and "fo_mount (fs_type D ops) = Some mount"
  shows "\<exists>s1. dfs_ready s1 \<and> same_tables s s1 \<and>
    dfs_mount D h frame None path ty rwflag data s = mount_entry D mount path (path_of ns) ops None rwflag data s1"
proof -
  obtain m where m: "blocks h 0 = Some m" using assms(4) by blast
  let ?body = "\<lambda>s. Some (s, find (\<lambda>x. map_option (\<lambda>t. fo_name (fs_type D t)) x = Some ty) (filesystem_operation_table s))"
  have "\<exists>s'. dfs_locked ?body s = Some (s', Some (Some ops)) \<and> dfs_ready s' \<and> same_tables s s'"
    by (rule dfs_locked_run[OF assms(1)]) (use assms(5) in simp_all)
  then obtain s1 where s1: "dfs_locked ?body s = Some (s1, Some (Some ops))" "dfs_ready s1" "same_tables s s1" by blast
  have "leads_to (working_directory s1) path ns" using assms(2) same_tablesD[OF s1(3)] by simp
  then have nm: "normalize (Some m) path s1 = Some (Some (path_of ns))" by (rule normalize_leads_to)
  have special: "path_of ns = ''/'' \<or> path_of ns = ''/dev''" using assms(3) by (auto simp: show_path_def)
  have "dfs_mount D h frame None path ty rwflag data s = mount_entry D mount path (path_of ns) ops None rwflag data s1"
    using s1(1) assms(6) m nm special by (auto simp: dfs_mount_def)
  then show ?thesis using s1(2,3) by blast
qed

lemma mounted_set_fs:
  assumes "i < length (filesystem_table s)" "names_ok ns"
  shows "mounted (set_fs i (entry_for ns ops) s) j ks = (if j = i then ks = ns else mounted s j ks)"
proof (cases "j = i")
  case True
  have "mounted (set_fs i (entry_for ns ops) s) i ks \<longleftrightarrow> path_of ns = path_of ks \<and> names_ok ks"
    using assms(1) by (simp add: mounted_def entry_for_def)
  also have "\<dots> \<longleftrightarrow> ks = ns" using path_names_of assms(2) by metis
  finally show ?thesis using True by simp
qed (simp add: mounted_def)

lemma mounts_entry:
  assumes "mounts_ok s" "x \<in> set (filesystem_table s)" "fs_ops x \<noteq> None"
  obtains j ns where "mounted s j ns" "filesystem_table s ! j = x" "fs_path x = Some (path_of ns)"
proof -
  obtain j where j: "j < length (filesystem_table s)" "filesystem_table s ! j = x" using assms(2) by (auto simp: in_set_conv_nth)
  then obtain ns where "mounted s j ns" using assms(1,3) by (auto simp: mounts_ok_def)
  then show ?thesis using that[of j ns] j(2) by (simp add: mounted_def)
qed

text \<open>A free entry, and no entry with the path as it is written.\<close>

lemma mount_scan_found:
  assumes "mounts_ok s" "\<And>j ns. mounted s j ns \<Longrightarrow> path \<noteq> path_of ns" "l < length (filesystem_table s)" "fs_ops (filesystem_table s ! l) = None"
  obtains i where "mount_scan path 0 (filesystem_table s) None = Some (False, Some i)" "i < length (filesystem_table s)"
    "fs_ops (filesystem_table s ! i) = None"
proof -
  let ?t = "filesystem_table s"
  have "\<exists>x \<in> set ?t. fs_ops x = None" using assms(3,4) by (metis nth_mem)
  then obtain b x a where e: "List.extract (\<lambda>x. fs_ops x = None) ?t = Some (b, x, a)"
    by (cases "List.extract (\<lambda>x. fs_ops x = None) ?t") (auto simp: extract_None_iff)
  then have t: "?t = b @ x # a" "fs_ops x = None" by (auto dest: extract_SomeE)
  have "fs_path x \<noteq> None \<and> fs_path x \<noteq> Some path" if x: "x \<in> set ?t" "fs_ops x \<noteq> None" for x
    by (rule mounts_entry[OF assms(1) x]) (use assms(2) in auto)
  then have "mount_scan path 0 ?t None = Some (False, Some (length b))" using mount_scan_free[of ?t path 0 None] e by simp
  then show ?thesis using that[of "length b"] t by simp
qed

lemma mount_scan_finds:
  "\<forall>x \<in> set xs. fs_ops x \<noteq> None \<longrightarrow> fs_path x \<noteq> None \<Longrightarrow> \<exists>x \<in> set xs. fs_ops x \<noteq> None \<and> fs_path x = Some path \<Longrightarrow>
     \<exists>gs. mount_scan path i xs fs = Some (True, gs)"
proof (induction xs arbitrary: i fs)
  case (Cons x xs)
  show ?case
  proof (cases "fs_ops x \<noteq> None \<and> fs_path x = Some path")
    case False
    then have "\<exists>y \<in> set xs. fs_ops y \<noteq> None \<and> fs_path y = Some path" using Cons.prems(2) by auto
    then have ih: "\<exists>gs. mount_scan path j xs fs' = Some (True, gs)" for j fs' using Cons.IH Cons.prems(1) by simp
    show ?thesis
    proof (cases "fs_ops x = None")
      case True
      then show ?thesis using ih by simp
    next
      case F: False
      then obtain p where "fs_path x = Some p" "p \<noteq> path" using Cons.prems(1) False by auto
      then show ?thesis using F ih by simp
    qed
  qed auto
qed simp

lemma mount_scan_refused:
  assumes "mounts_ok s" "mounted s j ns"
  shows "\<exists>fs. mount_scan (path_of ns) 0 (filesystem_table s) None = Some (True, fs)"
proof (rule mount_scan_finds)
  show "\<exists>x \<in> set (filesystem_table s). fs_ops x \<noteq> None \<and> fs_path x = Some (path_of ns)"
    using assms(2) by (intro bexI[of _ "filesystem_table s ! j"]) (auto simp: mounted_def)
  show "\<forall>x \<in> set (filesystem_table s). fs_ops x \<noteq> None \<longrightarrow> fs_path x \<noteq> None"
    using mounts_entry[OF assms(1)] by (metis option.distinct(1))
qed

section \<open>Properties\<close>

text \<open>When a path leads to one file system and is not open there, \<^verbatim>\<open>dfs_file_open\<close> calls the driver of that
  file system on the descriptor, with the rest of the path as its name.\<close>

theorem open_reaches_driver:
  assumes "can_open D h s path j ops ns ks" "\<not> opened s (fo_fops (fs_type D ops)) (open_name ns ks)" "fd_mem s p \<noteq> None"
  shows "\<exists>s1. same_tables (upd_fd p (begin_open (fo_fops (fs_type D ops)) flags j (Some (path_of ks))) s) s1 \<and>
    dfs_file_open D h (Some p) path flags s = driver_open (f_open (file_ops D (fo_fops (fs_type D ops)))) p flags s1"
  using open_run[OF assms] by blast

text \<open>A file is taken for open when a file of the same name is open on another file system of the same
  type.\<close>

theorem open_busy_elsewhere:
  assumes "can_open D h s path j ops ns ks" "ks \<noteq> []" "Some q \<in> set (fds s)"
    and "fd_mem s q = Some d" "fd_data d = Some (OfMount i)" "i \<noteq> j"
    and "fd_fops d = Some (fo_fops (fs_type D ops))" "fd_path d = Some (path_of ks)"
  shows "\<exists>s'. dfs_file_open D h (Some p) path flags s = Some (s', - EBUSY)"
proof -
  have "opened s (fo_fops (fs_type D ops)) (open_name ns ks)"
    using assms(2-4,7,8) by (auto simp: opened_def open_name_def)
  then show ?thesis using open_busy[OF assms(1)] by blast
qed

text \<open>Mounting on the root or the device directory: refused when a file system is mounted there and the path
  is spelled like its entry, but done a second time when the path is spelled in another way.\<close>

theorem mount_spelling:
  assumes "dfs_ready s" "mounts_ok s" "mounted s j ns" "leads_to (working_directory s) path ns" "ns = [] \<or> ns = [''dev'']"
    and "blocks h 0 \<noteq> None"
    and "find (\<lambda>x. map_option (\<lambda>t. fo_name (fs_type D t)) x = Some ty) (filesystem_operation_table s) = Some (Some ops)"
    and "fo_mount (fs_type D ops) = Some (\<lambda>_ _ _ s. Some (s, 0))"
    and "l < length (filesystem_table s)" "fs_ops (filesystem_table s ! l) = None"
  shows "\<exists>s'. if path = path_of ns then dfs_mount D h frame None path ty rwflag data s = Some (s', - 1) \<and> same_tables s s'
    else dfs_mount D h frame None path ty rwflag data s = Some (s', 0) \<and> (\<exists>i. i \<noteq> j \<and> mounted s' i ns \<and> mounted s' j ns)"
proof -
  obtain s1 where s1: "dfs_ready s1" "same_tables s s1"
      "dfs_mount D h frame None path ty rwflag data s = mount_entry D (\<lambda>_ _ _ s. Some (s, 0)) path (path_of ns) ops None rwflag data s1"
    using mount_to_entry[OF assms(1,4-8)] by blast
  note f = same_tablesD[OF s1(2)]
  have m1: "mounts_ok s1" "mounted s1 j ns" using assms(2,3) f mounted_same[OF s1(2)] by (simp_all add: mounts_ok_def)
  show ?thesis
  proof (cases "path = path_of ns")
    case True
    obtain fs where "mount_scan path 0 (filesystem_table s1) None = Some (True, fs)"
      using mount_scan_refused[OF m1] True by blast
    then obtain s2 where "reserve_entry path (path_of ns) ops None s1 = Some (s2, None)" "same_tables s1 s2"
      using reserve_refused[OF s1(1)] by blast
    then show ?thesis using True s1(2,3) by (auto simp: mount_entry_def same_tables_def)
  next
    case False
    have ne: "path \<noteq> path_of ks" if "mounted s1 k ks" for k ks
    proof
      assume e: "path = path_of ks"
      have "leads_to (working_directory s) path ks" unfolding e using that by (intro path_of_leads_to) (simp add: mounted_def)
      then have "ks = ns" using assms(4) by (simp add: leads_to_def)
      then show False using e False by simp
    qed
    have free: "l < length (filesystem_table s1)" "fs_ops (filesystem_table s1 ! l) = None" using assms(9,10) f by simp_all
    obtain i where i: "mount_scan path 0 (filesystem_table s1) None = Some (False, Some i)" "i < length (filesystem_table s1)"
        "fs_ops (filesystem_table s1 ! i) = None"
      by (rule mount_scan_found[OF m1(1) ne free])
    then obtain s2 where s2: "reserve_entry path (path_of ns) ops None s1 = Some (s2, Some i)"
        "same_tables (set_fs i (entry_for ns ops) s1) s2"
      using reserve_run[OF s1(1) i(1)] by blast
    have "i \<noteq> j" using i(3) m1(2) by (auto simp: mounted_def)
    moreover have "names_ok ns" using assms(3) by (simp add: mounted_def)
    ultimately have "mounted s2 i ns" "mounted s2 j ns"
      using m1(2) mounted_set_fs[OF i(2)] mounted_same[OF s2(2)] by auto
    moreover have "dfs_mount D h frame None path ty rwflag data s = Some (s2, 0)"
      unfolding s1(3) mount_entry_def using s2(1) by simp
    ultimately show ?thesis using False \<open>i \<noteq> j\<close> by auto
  qed
qed

text \<open>Asked to make a file system of a type that is not registered, \<^verbatim>\<open>dfs_mkfs\<close> reads behind the end of the
  table of types.\<close>

theorem mkfs_reads_behind:
  assumes "find_device nm s = Some (s1, Some d)" "dfs_ready s1"
    and "\<And>t. Some t \<in> set (filesystem_operation_table s1) \<Longrightarrow> fo_name (fs_type D t) \<noteq> ty"
  shows "dfs_mkfs D ty (Some nm) s = None"
proof -
  have "mkfs_scan (\<lambda>t. fo_name (fs_type D t)) ty xs = None"
    if "\<And>t. Some t \<in> set xs \<Longrightarrow> fo_name (fs_type D t) \<noteq> ty" for xs
    using that by (induction xs) auto
  then have scan: "mkfs_scan (\<lambda>t. fo_name (fs_type D t)) ty (filesystem_operation_table s1) = None" using assms(3) .
  let ?body = "\<lambda>s. do { ops \<leftarrow> mkfs_scan (\<lambda>t. fo_name (fs_type D t)) ty (filesystem_operation_table s); Some (s, ops) }"
  have "dfs_locked ?body s1 = None" by (rule dfs_locked_None[OF assms(2)]) (use scan in simp)
  then show ?thesis using assms(1) by (simp add: dfs_mkfs_def)
qed

text \<open>The first call of \<^verbatim>\<open>dfs_init\<close> leaves one file system, the device file system on \<^verbatim>\<open>/dev\<close>, an empty
  table of descriptors and a free lock.\<close>

lemma init_lock:
  assumes "rt_interrupt_nest k = 0" "rt_current_thread k \<noteq> None" "ls_on (k_containers k) (OMutex i) = None" "tlist_of k (mutex_queue i) = []"
  shows "\<exists>k' r. rt_mutex_init i nm fl k = Some (k', r) \<and> lock_free i k'"
  using assms
  by (auto simp: rt_mutex_init_def rt_object_init_def rt_object_get_information_def rt_object_container_def container_insert_def
      ls_insert_after_head_def rt_ipc_object_init_def set_obj_flag_def lock_free_def fresh_mutex_def)

lemma no_mounts: "\<not> mounted s j ns" if "filesystem_table s = replicate n empty_fs"
  using that by (simp add: mounted_def empty_fs_def)

theorem init_mounts_devices:
  assumes "rt_interrupt_nest (dv_kernel s) = 0" "rt_current_thread (dv_kernel s) \<noteq> None"
    and "ls_on (k_containers (dv_kernel s)) (OMutex (fslock s)) = None" "tlist_of (dv_kernel s) (mutex_queue (fslock s)) = []"
    and "blocks h 0 \<noteq> None" "fo_name (fs_type D devfs) = ''devfs''" "fo_mount (fs_type D devfs) = Some (\<lambda>_ _ _ s. Some (s, 0))"
  shows "\<exists>s'. dfs_init D h frame devfs False s = Some (s', True, 0) \<and> dfs_ready s' \<and> mounts_ok s' \<and> fd_inv s' \<and>
    (\<forall>j ns. mounted s' j ns \<longleftrightarrow> j = 0 \<and> ns = [''dev'']) \<and> (\<forall>i. fd_count s' i = 0)"
proof -
  define s0 where "s0 = s\<lparr>filesystem_operation_table := replicate DFS_FILESYSTEM_TYPES_MAX None,
    filesystem_table := replicate DFS_FILESYSTEMS_MAX empty_fs, fds := []\<rparr>"
  obtain k r where k: "rt_mutex_init (fslock s) (map of_char ''fslock'') RT_IPC_FLAG_FIFO (dv_kernel s) = Some (k, r)" "lock_free (fslock s) k"
    using init_lock[OF assms(1-4)] by blast
  define s1 where "s1 = s0\<lparr>dv_kernel := k, working_directory := ''/''\<rparr>"
  have r1: "dfs_ready s1" using k(2) by (simp add: s1_def s0_def can_lock_def)
  define s2 where "s2 = s1\<lparr>filesystem_operation_table := [Some devfs, None, None, None]\<rparr>"
  have "\<exists>s'. dfs_register D devfs s1 = Some (s', RT_EOK) \<and> dfs_ready s' \<and> same_tables s2 s'"
    unfolding dfs_register_def
    by (rule dfs_locked_run[OF r1]) (simp_all add: s2_def s1_def s0_def numeral_eq_Suc)
  then obtain s3 where s3: "dfs_register D devfs s1 = Some (s3, RT_EOK)" "dfs_ready s3" "same_tables s2 s3" by blast
  note f3 = same_tablesD[OF s3(3)]
  have t3: "filesystem_table s3 = replicate 4 empty_fs" "fds s3 = []" "working_directory s3 = ''/''"
      "filesystem_operation_table s3 = [Some devfs, None, None, None]"
    using f3 by (simp_all add: s2_def s1_def s0_def)
  have lead: "leads_to (working_directory s3) ''/dev'' [''dev'']"
    using path_of_leads_to[of "[''dev'']"] by (simp add: names_ok_def show_path_def)
  obtain s4 where s4: "dfs_ready s4" "same_tables s3 s4"
      "dfs_mount D h frame None ''/dev'' ''devfs'' 0 0 s3 = mount_entry D (\<lambda>_ _ _ s. Some (s, 0)) ''/dev'' (path_of [''dev'']) devfs None 0 0 s4"
    using mount_to_entry[OF s3(2) lead _ assms(5), where D = D and ty = "''devfs''" and ops = devfs and
        mount = "\<lambda>_ _ _ s. Some (s, 0)" and frame = frame and rwflag = 0 and data = 0] assms(6,7) t3(4) by auto
  have t4: "filesystem_table s4 = replicate 4 empty_fs" "fds s4 = []" using same_tablesD[OF s4(2)] t3 by simp_all
  have "mount_scan ''/dev'' 0 (filesystem_table s4) None = Some (False, Some 0)" by (simp add: t4 empty_fs_def numeral_eq_Suc)
  then obtain s5 where s5: "reserve_entry ''/dev'' (path_of [''dev'']) devfs None s4 = Some (s5, Some 0)" "dfs_ready s5"
      "same_tables (set_fs 0 (entry_for [''dev''] devfs) s4) s5"
    using reserve_run[OF s4(1)] by blast
  have mount: "dfs_mount D h frame None ''/dev'' ''devfs'' 0 0 s3 = Some (s5, 0)"
    unfolding s4(3) mount_entry_def using s5(1) by simp
  have run: "dfs_init D h frame devfs False s = Some (s5, True, 0)"
    using k(1) s3(1) mount by (simp add: dfs_init_def s1_def s0_def)
  have m: "mounted s5 j ns \<longleftrightarrow> j = 0 \<and> ns = [''dev'']" for j ns
    using mounted_same[OF s5(3), of j ns] mounted_set_fs[of 0 s4 "[''dev'']" devfs j ns] no_mounts[OF t4(1), of j ns] t4(1)
    by (auto simp: names_ok_def)
  have "j = 0" if "j < length (filesystem_table s5)" "fs_ops (filesystem_table s5 ! j) \<noteq> None" for j
    using that same_tablesD[OF s5(3)] t4(1) by (cases j) (auto simp: empty_fs_def)
  then have "mounts_ok s5" using m by (auto simp: mounts_ok_def)
  moreover have "fd_inv s5" "fd_count s5 i = 0" for i using same_tablesD[OF s5(3)] t4(2) by (simp_all add: fd_inv_def fd_count_def)
  ultimately show ?thesis using run s5(2) m by blast
qed

section \<open>Examples\<close>

text \<open>A file system type that does nothing, for the entries of the examples.\<close>

definition plain_fs :: "('s drivers)" where
  "plain_fs = \<lparr>
     dv_ops = (\<lambda>_. \<lparr>device_init = None, device_open = None, device_close = None, device_read = None, device_write = None, device_control = None\<rparr>),
     fs_type = (\<lambda>t. \<lparr>fo_name = (if t = 0 then ''elm'' else ''devfs''), fo_flags = 0, fo_fops = t,
       fo_mount = Some (\<lambda>_ _ _ s. Some (s, 0)), fo_unmount = None, fo_mkfs = None, fo_statfs = None, fo_unlink = None,
       fo_stat = None, fo_rename = None\<rparr>),
     file_ops = (\<lambda>_. \<lparr>f_open = None, f_close = None, f_ioctl = None, f_read = None, f_write = None, f_flush = None,
       f_lseek = None, f_getdents = None\<rparr>)\<rparr>"

lemma plain_fs_simps [simp]:
  "fo_name (fs_type plain_fs t) = (if t = 0 then ''elm'' else ''devfs'')" "fo_flags (fs_type plain_fs t) = 0" "fo_fops (fs_type plain_fs t) = t"
  "fo_mount (fs_type plain_fs t) = Some (\<lambda>_ _ _ s. Some (s, 0))" "f_open (file_ops plain_fs t) = None"
  by (simp_all add: plain_fs_def)

lemma leads_example: "names_ok ms \<Longrightarrow> leads_to (working_directory (dfs_example fs xs m)) (path_of ms) ms"
  by (rule path_of_leads_to)

theorem open_reaches_driver_witness:
  "\<exists>s1. dfs_file_open plain_fs (heap_fine 9) (Some 7) ''/dev/uart'' 0 (dfs_example two_mounts [Some 7] [7 \<mapsto> new_fd]) =
     driver_open None 7 0 s1 \<and> map_option fd_path (fd_mem s1 7) = Some (Some ''/uart'')"
proof -
  let ?s = "dfs_example two_mounts [Some 7] [7 \<mapsto> new_fd]"
  have p: "path_of [''dev'', ''uart''] = ''/dev/uart''" "path_of [''uart''] = ''/uart''" by (simp_all add: show_path_def)
  have "deepest ?s 1 [''dev''] ([''dev''] @ [''uart''])" by (auto simp: deepest_def two_mounts_mounted)
  moreover have "leads_to (working_directory ?s) ''/dev/uart'' ([''dev''] @ [''uart''])"
    using leads_example[of "[''dev'', ''uart'']"] p(1) by (simp add: names_ok_def)
  ultimately have c: "can_open plain_fs (heap_fine 9) ?s ''/dev/uart'' 1 1 [''dev''] [''uart'']"
    using two_mounts_ok by (simp add: can_open_def) (simp add: two_mounts_def)
  have "\<not> opened ?s 1 (open_name [''dev''] [''uart''])" by (simp add: opened_def zero_fd_def)
  then obtain s1 where s1: "same_tables (upd_fd 7 (begin_open 1 0 1 (Some ''/uart'')) ?s) s1"
      "dfs_file_open plain_fs (heap_fine 9) (Some 7) ''/dev/uart'' 0 ?s = driver_open None 7 0 s1"
    using open_reaches_driver[OF c, of 7 0] p(2) by auto
  have "map_option fd_path (fd_mem s1 7) = Some (Some ''/uart'')" using same_tablesD[OF s1(1)] by (simp add: begin_open_def)
  then show ?thesis using s1(2) by blast
qed

definition twin_mounts :: "dfs_filesystem list" where
  "twin_mounts = [\<lparr>dev_id = None, fs_path = Some ''/'', fs_ops = Some 0\<rparr>,
     \<lparr>dev_id = None, fs_path = Some ''/sd'', fs_ops = Some 0\<rparr>]"

lemma twin_mounts_mounted: "mounted (dfs_example twin_mounts xs m) j ns \<longleftrightarrow> j = 0 \<and> ns = [] \<or> j = Suc 0 \<and> ns = [''sd'']"
proof
  have b: "mounted (dfs_example twin_mounts xs m) 0 []" "mounted (dfs_example twin_mounts xs m) (Suc 0) [''sd'']"
    by (simp_all add: mounted_def twin_mounts_def names_ok_def show_path_def)
  assume a: "mounted (dfs_example twin_mounts xs m) j ns"
  then have "j = 0 \<or> j = Suc 0" by (auto simp: mounted_def twin_mounts_def less_Suc_eq)
  then show "j = 0 \<and> ns = [] \<or> j = Suc 0 \<and> ns = [''sd'']" using a mounted_unique[OF b(1)] mounted_unique[OF b(2)] by blast
qed (auto simp: mounted_def twin_mounts_def names_ok_def show_path_def)

text \<open>\<^verbatim>\<open>/a\<close> is open on the root file system; \<^verbatim>\<open>/sd/a\<close> cannot be opened.\<close>

theorem open_busy_elsewhere_witness:
  "\<exists>s'. dfs_file_open plain_fs (heap_fine 9) (Some 8) ''/sd/a'' 0
     (dfs_example twin_mounts [Some 7] [7 \<mapsto> begin_open 0 0 0 (Some ''/a'') new_fd]) = Some (s', - EBUSY)"
proof -
  let ?d = "begin_open 0 0 0 (Some ''/a'') new_fd"
  let ?s = "dfs_example twin_mounts [Some 7] [7 \<mapsto> ?d]"
  have p: "path_of [''sd'', ''a''] = ''/sd/a''" "path_of [''a''] = ''/a''" by (simp_all add: show_path_def)
  have "mounts_ok ?s" by (auto simp: mounts_ok_def twin_mounts_mounted) (auto simp: twin_mounts_def less_Suc_eq)
  moreover have "deepest ?s 1 [''sd''] ([''sd''] @ [''a''])" by (auto simp: deepest_def twin_mounts_mounted)
  moreover have "leads_to (working_directory ?s) ''/sd/a'' ([''sd''] @ [''a''])"
    using leads_example[of "[''sd'', ''a'']"] p(1) by (simp add: names_ok_def)
  ultimately have c: "can_open plain_fs (heap_fine 9) ?s ''/sd/a'' 1 0 [''sd''] [''a'']"
    by (simp add: can_open_def) (simp add: twin_mounts_def)
  show ?thesis by (rule open_busy_elsewhere[OF c, of 7 ?d 0]) (simp_all add: begin_open_def p)
qed

theorem mount_spelling_witness:
  "\<exists>s' i. dfs_mount plain_fs (heap_fine 9) (8, zero_fd) None ''/dev/'' ''devfs'' 0 0 (dfs_example two_mounts [] (\<lambda>_. None)) = Some (s', 0) \<and>
     i \<noteq> 1 \<and> mounted s' i [''dev''] \<and> mounted s' 1 [''dev'']"
proof -
  let ?s = "dfs_example two_mounts [] (\<lambda>_. None)"
  have "leads_to (working_directory ?s) ''/dev/'' [''dev'']" by (simp add: leads_to_def full_name_def is_absolute_def path_names_def)
  moreover have "find (\<lambda>x. map_option (\<lambda>t. fo_name (fs_type plain_fs t)) x = Some ''devfs'') (filesystem_operation_table ?s) = Some (Some 1)"
    by (simp add: dfs_example_def)
  moreover have "mounted ?s 1 [''dev'']" "''/dev/'' \<noteq> path_of [''dev'']" by (simp_all add: two_mounts_mounted show_path_def)
  moreover have "2 < length (filesystem_table ?s)" "fs_ops (filesystem_table ?s ! 2) = None" by (simp_all add: two_mounts_def empty_fs_def)
  ultimately show ?thesis
    using mount_spelling[of ?s 1 "[''dev'']" "''/dev/''" "heap_fine 9" plain_fs "''devfs''" 1 2 "(8, zero_fd)" 0 0] two_mounts_ok by auto
qed

theorem init_mounts_devices_witness:
  "\<exists>s'. dfs_init plain_fs (heap_fine 9) (8, zero_fd) 1 False (dfs_example [] [] (\<lambda>_. None)) = Some (s', True, 0) \<and> mounted s' 0 [''dev'']"
proof -
  have "rt_interrupt_nest (dv_kernel (dfs_example [] [] (\<lambda>_. None))) = 0" "rt_current_thread (dv_kernel (dfs_example [] [] (\<lambda>_. None))) \<noteq> None"
      "ls_on (k_containers (dv_kernel (dfs_example [] [] (\<lambda>_. None)))) (OMutex (fslock (dfs_example [] [] (\<lambda>_. None)))) = None"
      "tlist_of (dv_kernel (dfs_example [] [] (\<lambda>_. None))) (mutex_queue (fslock (dfs_example [] [] (\<lambda>_. None)))) = []"
    by (simp_all add: dfs_example_def kernel_zero_def ls_empty_def)
  from init_mounts_devices[OF this, of "heap_fine 9" plain_fs 1 "(8, zero_fd)"] show ?thesis by auto
qed

definition card_device :: "kernel \<Rightarrow> kernel" where
  "card_device k = k\<lparr>rt_scheduler_lock_nest := 1, k_containers := \<lparr>ls_nodes = (\<lambda>_. [])(RT_Object_Class_Device := [ODevice 5]),
       ls_on = [ODevice 5 \<mapsto> RT_Object_Class_Device]\<rparr>,
     k_object := (k_object k)(ODevice 5 := \<lparr>obj_name = [0x73, 0x64, 0x30, 0, 0, 0, 0, 0],
       obj_type = class_code RT_Object_Class_Device, obj_flag = 0\<rparr>)\<rparr>"

theorem mkfs_reads_behind_witness:
  "dfs_mkfs plain_fs ''uffs'' (Some ''sd0'')
     (dfs_example [] [] (\<lambda>_. None) \<lparr>dv_kernel := card_device (dv_kernel (dfs_example [] [] (\<lambda>_. None)))\<rparr>) = None"
proof -
  let ?s = "dfs_example [] [] (\<lambda>_. None) \<lparr>dv_kernel := card_device (dv_kernel (dfs_example [] [] (\<lambda>_. None)))\<rparr>"
  have "rt_strncmp (cstr [0x73, 0x64, 0x30, 0, 0, 0, 0, 0]) (cstr (map of_char ''sd0'')) 8 = 0" by code_simp
  then have found: "find_device ''sd0'' ?s = Some (?s, Some 5)"
    by (simp add: find_device_def rt_device_find_def rt_thread_self_def rt_object_get_information_def
        rt_object_container_def container_find_def rt_enter_critical_def rt_exit_critical_def word_sle_eq
        card_device_def dfs_example_def kernel_zero_def)
  have "dfs_ready ?s"
    by (simp add: dfs_example_def card_device_def can_lock_def lock_free_def kernel_zero_def fresh_mutex_def ls_empty_def)
  then show ?thesis by (rule mkfs_reads_behind[OF found]) (auto simp: dfs_example_def split: if_splits)
qed

end
