(* ===== verification/Rtt_Slist.thy ===== *)
theory Rtt_Slist
  imports Rtt_Chain
begin

text \<open>
  The intrusive singly linked list of \<^verbatim>\<open>rt-thread/include/rtservice.h\<close>: a memory of
  \<^verbatim>\<open>next\<close> fields over the addresses of heads and nodes, \<open>None\<close> for the null pointer. The
  list of a head \<open>l\<close> is the chain from its \<^verbatim>\<open>next\<close> field.
\<close>

section \<open>Model\<close>

type_synonym 'a smem = "'a \<Rightarrow> 'a option"

definition rt_slist_init :: "'a \<Rightarrow> 'a smem \<Rightarrow> 'a smem" where
  "rt_slist_init l m = m(l := None)"

text \<open>The walk to the last node; it does not end on a list that runs into itself.\<close>

partial_function (option) slist_last :: "'a \<Rightarrow> 'a smem \<Rightarrow> 'a option" where
  "slist_last node m = (case m node of None \<Rightarrow> Some node | Some x \<Rightarrow> slist_last x m)"

definition rt_slist_append :: "'a \<Rightarrow> 'a \<Rightarrow> 'a smem \<Rightarrow> 'a smem option" where
  "rt_slist_append l n m = do {
     node \<leftarrow> slist_last l m;
     Some ((m(node := Some n))(n := None))
   }"

definition rt_slist_insert :: "'a \<Rightarrow> 'a \<Rightarrow> 'a smem \<Rightarrow> 'a smem" where
  "rt_slist_insert l n m = (let m = m(n := m l) in m(l := Some n))"

partial_function (option) slist_len_from :: "'a option \<Rightarrow> nat \<Rightarrow> 'a smem \<Rightarrow> nat option" where
  "slist_len_from p len m = (case p of None \<Rightarrow> Some len | Some x \<Rightarrow> slist_len_from (m x) (Suc len) m)"

definition rt_slist_len :: "'a \<Rightarrow> 'a smem \<Rightarrow> nat option" where
  "rt_slist_len l m = slist_len_from (m l) 0 m"

text \<open>The node before \<open>n\<close>, or the last one.\<close>

partial_function (option) slist_before :: "'a \<Rightarrow> 'a \<Rightarrow> 'a smem \<Rightarrow> 'a option" where
  "slist_before n node m =
     (case m node of None \<Rightarrow> Some node | Some x \<Rightarrow> if x = n then Some node else slist_before n x m)"

definition rt_slist_remove :: "'a \<Rightarrow> 'a \<Rightarrow> 'a smem \<Rightarrow> 'a smem option" where
  "rt_slist_remove l n m = do {
     node \<leftarrow> slist_before n l m;
     Some (case m node of None \<Rightarrow> m | Some x \<Rightarrow> m(node := m x))
   }"

definition rt_slist_first :: "'a \<Rightarrow> 'a smem \<Rightarrow> 'a option" where "rt_slist_first l m = m l"

definition rt_slist_next :: "'a \<Rightarrow> 'a smem \<Rightarrow> 'a option" where "rt_slist_next n m = m n"

definition rt_slist_isempty :: "'a \<Rightarrow> 'a smem \<Rightarrow> bool" where "rt_slist_isempty l m \<longleftrightarrow> m l = None"

section \<open>Lists\<close>

definition slist :: "'a smem \<Rightarrow> 'a \<Rightarrow> 'a list \<Rightarrow> bool" where
  "slist m l ns \<longleftrightarrow> chain m (m l) ns \<and> distinct (l # ns)"

lemma slist_last_chain: "chain m (m p) ns \<Longrightarrow> slist_last p m = Some (last (p # ns))"
proof (induction ns arbitrary: p)
  case Nil
  then show ?case by (subst slist_last.simps) simp
next
  case (Cons n ns)
  then show ?case by (subst slist_last.simps) simp
qed

lemma slist_len_chain: "chain m p ns \<Longrightarrow> slist_len_from p k m = Some (k + length ns)"
proof (induction ns arbitrary: p k)
  case Nil
  then show ?case by (subst slist_len_from.simps) simp
next
  case (Cons n ns)
  then show ?case by (subst slist_len_from.simps) simp
qed

lemma slist_before_chain:
  "chain m (m p) ns \<Longrightarrow> distinct (p # ns) \<Longrightarrow>
    slist_before n p m = Some (last (p # takeWhile (\<lambda>x. x \<noteq> n) ns))"
proof (induction ns arbitrary: p)
  case Nil
  then show ?case by (subst slist_before.simps) simp
next
  case (Cons a ns)
  then show ?case by (subst slist_before.simps) auto
qed

text \<open>Appending at the end of the chain that starts behind \<open>p\<close>.\<close>

lemma chain_append_last:
  "chain m (m p) ns \<Longrightarrow> distinct (p # ns) \<Longrightarrow> n \<notin> set (p # ns) \<Longrightarrow>
    chain ((m(last (p # ns) := Some n))(n := None)) (((m(last (p # ns) := Some n))(n := None)) p) (ns @ [n])"
proof (induction ns arbitrary: p)
  case Nil
  then show ?case by auto
next
  case (Cons a ns)
  define q where "q = last (a # ns)"
  have q: "q \<in> set (a # ns)" unfolding q_def by (rule last_in_set) simp
  define m' where "m' = (m(q := Some n))(n := None)"
  have d: "distinct (a # ns)" "n \<notin> set (a # ns)" "chain m (m a) ns" using Cons.prems by simp_all
  have "chain m' (m' a) (ns @ [n])" unfolding m'_def q_def by (rule Cons.IH[OF d(3,1,2)])
  moreover have "m' p = Some a" using Cons.prems q by (auto simp: m'_def)
  moreover have "last (p # a # ns) = q" by (simp add: q_def)
  ultimately show ?case unfolding m'_def[symmetric] by (simp only: m'_def[symmetric] append_Cons chain.simps)
qed

lemma chain_remove:
  "chain m (m p) ns \<Longrightarrow> distinct (p # ns) \<Longrightarrow> n \<in> set ns \<Longrightarrow>
    q = last (p # takeWhile (\<lambda>x. x \<noteq> n) ns) \<Longrightarrow>
    m q = Some n \<and> chain (m(q := m n)) ((m(q := m n)) p) (remove1 n ns)"
proof (induction ns arbitrary: p)
  case (Cons a ns)
  have p: "m p = Some a" "chain m (m a) ns" "p \<noteq> a" "p \<notin> set ns" "distinct (a # ns)" using Cons.prems(1,2) by auto
  show ?case
  proof (cases "a = n")
    case True
    then have q: "q = p" using Cons.prems(4) by simp
    have "chain (m(p := m n)) (m n) ns" using p(2,4) True by simp
    moreover have "m p = Some n" using p(1) True by simp
    ultimately show ?thesis unfolding q True remove1.simps by (simp only: if_True fun_upd_same simp_thms)
  next
    case False
    have q: "q = last (a # takeWhile (\<lambda>x. x \<noteq> n) ns)" using Cons.prems(4) False by simp
    have n: "n \<in> set ns" using Cons.prems(3) False by simp
    note ih = Cons.IH[OF p(2,5) n q]
    have "q \<in> set (a # takeWhile (\<lambda>x. x \<noteq> n) ns)" unfolding q by (rule last_in_set) simp
    then have "q \<in> set (a # ns)" using set_takeWhileD[of q "\<lambda>x. x \<noteq> n" ns] by auto
    then have "p \<noteq> q" using p(3,4) by auto
    then have "(m(q := m n)) p = Some a" using p(1) by simp
    then show ?thesis using ih not_sym[OF False] by (simp only: remove1.simps if_False chain.simps simp_thms)
  qed
qed simp

text \<open>Every operation is that of a list: the walks end, appending and inserting add the node at the end and at
  the front, and removing takes it out, or does nothing when it is not there.\<close>

theorem slist_operations:
  assumes sl: "slist m l ns"
  shows "n \<notin> set (l # ns) \<Longrightarrow> \<exists>m'. rt_slist_append l n m = Some m' \<and> slist m' l (ns @ [n])"
    and "n \<notin> set (l # ns) \<Longrightarrow> slist (rt_slist_insert l n m) l (n # ns)"
    and "\<exists>m'. rt_slist_remove l n m = Some m' \<and> slist m' l (remove1 n ns)"
    and "rt_slist_len l m = Some (length ns)"
    and "rt_slist_isempty l m \<longleftrightarrow> ns = []"
    and "rt_slist_first l m = (case ns of [] \<Rightarrow> None | x # _ \<Rightarrow> Some x)"
proof -
  have c: "chain m (m l) ns" and d: "distinct (l # ns)" using sl by (simp_all add: slist_def)
  show "\<exists>m'. rt_slist_append l n m = Some m' \<and> slist m' l (ns @ [n])" if n: "n \<notin> set (l # ns)"
  proof -
    have "rt_slist_append l n m = Some ((m(last (l # ns) := Some n))(n := None))"
      using slist_last_chain[OF c] by (simp add: rt_slist_append_def del: last.simps)
    moreover have "distinct (l # ns @ [n])" using d n by auto
    ultimately show ?thesis using chain_append_last[OF c d n] unfolding slist_def by blast
  qed
  show "slist (rt_slist_insert l n m) l (n # ns)" if n: "n \<notin> set (l # ns)"
    using c d n by (auto simp: rt_slist_insert_def slist_def Let_def)
  show "rt_slist_len l m = Some (length ns)" using slist_len_chain[OF c, of 0] by (simp add: rt_slist_len_def)
  show "rt_slist_isempty l m \<longleftrightarrow> ns = []" using chain_None[OF c] by (simp add: rt_slist_isempty_def)
  show "rt_slist_first l m = (case ns of [] \<Rightarrow> None | x # _ \<Rightarrow> Some x)"
    using c by (cases ns) (simp_all add: rt_slist_first_def)
  show "\<exists>m'. rt_slist_remove l n m = Some m' \<and> slist m' l (remove1 n ns)"
  proof (cases "n \<in> set ns")
    case True
    note b = slist_before_chain[OF c d, of n] and r = chain_remove[OF c d True refl]
    have "distinct (l # remove1 n ns)" using d by (auto dest: in_set_remove1[THEN iffD1, rotated] notin_set_remove1)
    then show ?thesis using b r by (simp add: rt_slist_remove_def slist_def)
  next
    case False
    have w: "takeWhile (\<lambda>x. x \<noteq> n) ns = ns" using False by (induction ns) auto
    have "m (last (l # ns)) = None" using c by (induction ns arbitrary: l) auto
    then show ?thesis using slist_before_chain[OF c d, of n] w sl False
      by (simp add: rt_slist_remove_def remove1_idem)
  qed
qed

text \<open>Head 0 and nodes 1 and 2.\<close>

definition two_slist :: "nat smem" where "two_slist = (\<lambda>_. None)(0 := Some 1, 1 := Some 2)"

lemma two_slist_rep: "slist two_slist 0 [1, 2]"
  by (simp add: slist_def two_slist_def)

theorem slist_operations_witness:
  "\<exists>m'. rt_slist_append 0 3 two_slist = Some m' \<and> slist m' 0 [1, 2, 3]"
  using slist_operations(1)[OF two_slist_rep, of 3] by simp

end
