(* ===== verification/Beken_List.thy ===== *)
theory Beken_List
  imports Rtt_List
begin

text \<open>
  The doubly linked list of the Beken side (\<^verbatim>\<open>beken378/common/doubly_list.h\<close>), on the memory of
  \<^verbatim>\<open>Rtt_List\<close>: its operations keep the contract \<open>list_impl\<close> as well, a move is a removal
  and an insertion, and a splice puts one list in front of another.
\<close>

section \<open>Model\<close>

definition INIT_LIST_HEAD :: "('h, 'n) addr \<Rightarrow> ('h, 'n) lmem \<Rightarrow> ('h, 'n) lmem" where
  "INIT_LIST_HEAD p m = set_prv p p (set_nxt p p m)"

text \<open>\<^verbatim>\<open>__list_add\<close> and \<^verbatim>\<open>__list_del\<close>.\<close>

definition list_add_between ::
  "('h, 'n) addr \<Rightarrow> ('h, 'n) addr \<Rightarrow> ('h, 'n) addr \<Rightarrow> ('h, 'n) lmem \<Rightarrow> ('h, 'n) lmem" where
  "list_add_between new_node before after m =
     (let m = set_prv after new_node m;
          m = set_nxt new_node after m;
          m = set_prv new_node before m
      in set_nxt before new_node m)"

definition list_add_head :: "('h, 'n) addr \<Rightarrow> ('h, 'n) addr \<Rightarrow> ('h, 'n) lmem \<Rightarrow> ('h, 'n) lmem" where
  "list_add_head new_node head m = list_add_between new_node head (nxt m head) m"

definition list_add_tail :: "('h, 'n) addr \<Rightarrow> ('h, 'n) addr \<Rightarrow> ('h, 'n) lmem \<Rightarrow> ('h, 'n) lmem" where
  "list_add_tail new_node head m = list_add_between new_node (prv m head) head m"

definition list_del_between :: "('h, 'n) addr \<Rightarrow> ('h, 'n) addr \<Rightarrow> ('h, 'n) lmem \<Rightarrow> ('h, 'n) lmem" where
  "list_del_between before after m = set_nxt before after (set_prv after before m)"

definition list_del :: "('h, 'n) addr \<Rightarrow> ('h, 'n) lmem \<Rightarrow> ('h, 'n) lmem" where
  "list_del e m = list_del_between (prv m e) (nxt m e) m"

definition list_del_init :: "('h, 'n) addr \<Rightarrow> ('h, 'n) lmem \<Rightarrow> ('h, 'n) lmem" where
  "list_del_init e m = INIT_LIST_HEAD e (list_del_between (prv m e) (nxt m e) m)"

definition list_move :: "('h, 'n) addr \<Rightarrow> ('h, 'n) addr \<Rightarrow> ('h, 'n) lmem \<Rightarrow> ('h, 'n) lmem" where
  "list_move e head m = list_add_head e head (list_del_between (prv m e) (nxt m e) m)"

definition list_move_tail :: "('h, 'n) addr \<Rightarrow> ('h, 'n) addr \<Rightarrow> ('h, 'n) lmem \<Rightarrow> ('h, 'n) lmem" where
  "list_move_tail e head m = list_add_tail e head (list_del_between (prv m e) (nxt m e) m)"

definition list_empty :: "('h, 'n) addr \<Rightarrow> ('h, 'n) lmem \<Rightarrow> bool" where
  "list_empty head m \<longleftrightarrow> nxt m head = head"

text \<open>\<^verbatim>\<open>__list_splice\<close>: the three pointers are read before anything is changed.\<close>

definition list_splice_rings :: "('h, 'n) addr \<Rightarrow> ('h, 'n) addr \<Rightarrow> ('h, 'n) lmem \<Rightarrow> ('h, 'n) lmem" where
  "list_splice_rings l head m =
     (let first = nxt m l; final = prv m l; at = nxt m head;
          m = set_prv first head m;
          m = set_nxt head first m;
          m = set_nxt final at m
      in set_prv at final m)"

definition list_splice :: "('h, 'n) addr \<Rightarrow> ('h, 'n) addr \<Rightarrow> ('h, 'n) lmem \<Rightarrow> ('h, 'n) lmem" where
  "list_splice l head m = (if \<not> list_empty l m then list_splice_rings l head m else m)"

definition list_splice_init :: "('h, 'n) addr \<Rightarrow> ('h, 'n) addr \<Rightarrow> ('h, 'n) lmem \<Rightarrow> ('h, 'n) lmem" where
  "list_splice_init l head m = (if \<not> list_empty l m then INIT_LIST_HEAD l (list_splice_rings l head m) else m)"

text \<open>The loop of \<^verbatim>\<open>list_size\<close>.\<close>

partial_function (option) list_size_from ::
  "('h, 'n) addr \<Rightarrow> ('h, 'n) addr \<Rightarrow> nat \<Rightarrow> ('h, 'n) lmem \<Rightarrow> nat option" where
  "list_size_from l pos num m = (if pos \<noteq> l then list_size_from l (nxt m pos) (Suc num) m else Some num)"

definition list_size :: "('h, 'n) addr \<Rightarrow> ('h, 'n) lmem \<Rightarrow> nat option" where
  "list_size l m = list_size_from l (nxt m l) 0 m"

lemmas dl_defs = INIT_LIST_HEAD_def list_add_between_def list_add_head_def list_add_tail_def list_del_between_def
  list_del_init_def list_move_def list_move_tail_def list_splice_rings_def

section \<open>The same effect as the kernel's list\<close>

lemma lmem_eqI: "nxt m = nxt m' \<Longrightarrow> prv m = prv m' \<Longrightarrow> m = (m' :: ('h, 'n) lmem)"
  by simp

lemma add_head_eq: "list_add_head n l m = rt_list_insert_after l n m"
  by (rule lmem_eqI) (simp_all add: dl_defs ptr_defs)

lemma add_tail_eq: "prv m l \<noteq> n \<Longrightarrow> n \<noteq> l \<Longrightarrow> list_add_tail n l m = rt_list_insert_before l n m"
  by (rule lmem_eqI) (auto simp: dl_defs ptr_defs fun_eq_iff)

lemma del_init_eq: "list_del_init n m = rt_list_remove n m"
  by (rule lmem_eqI) (simp_all add: dl_defs ptr_defs)

lemma empty_eq: "list_empty l m \<longleftrightarrow> rt_list_isempty l m"
  by (simp add: list_empty_def rt_list_isempty_def)

text \<open>A node that hangs on no list is nobody's neighbour.\<close>

lemma rep_prv_head:
  assumes "rep m L" "ls_on L n = None"
  shows "prv m (Head h) \<noteq> Node n"
  using ring_prv_head(1)[OF rep_ring[OF assms(1), of h]] ls_wf_unlinked[OF rep_wf[OF assms(1)] assms(2), of h]
  by (auto simp: at_end_def)

lemma rep_prv_node:
  assumes "rep m L" "ls_on L n = None" "ls_on L x = Some h"
  shows "prv m (Node x) \<noteq> Node n" "x \<noteq> n"
proof -
  note wf = rep_wf[OF assms(1)]
  have x: "x \<in> set (ls_nodes L h)" using wf assms(3) by (simp add: ls_wf_on)
  show "prv m (Node x) \<noteq> Node n"
    using ring_nbrs(1)[OF rep_ring[OF assms(1)] x ls_wf_distinct[OF wf]] ls_wf_unlinked[OF wf assms(2), of h] by auto
  show "x \<noteq> n" using assms(2,3) by auto
qed

fun dl_apply :: "('h, 'n) list_op \<Rightarrow> ('h, 'n) lmem \<Rightarrow> ('h, 'n) lmem" where
  "dl_apply (InsertAfterHead h n) m = list_add_head (Node n) (Head h) m"
| "dl_apply (InsertBeforeHead h n) m = list_add_tail (Node n) (Head h) m"
| "dl_apply (InsertBeforeNode x n) m = list_add_tail (Node n) (Node x) m"
| "dl_apply (InsertAfterNode x n) m = list_add_head (Node n) (Node x) m"
| "dl_apply (Remove n) m = list_del_init (Node n) m"

lemma dl_apply_eq:
  assumes "rep m L" "ls_apply op L = Some L'"
  shows "dl_apply op m = ptr_apply op m"
proof (cases op)
  case (InsertBeforeHead h n)
  then have n: "ls_on L n = None" using assms(2) by (simp add: ls_insert_before_head_def split: if_splits)
  show ?thesis using add_tail_eq[OF rep_prv_head[OF assms(1) n]] by (simp add: InsertBeforeHead)
next
  case (InsertBeforeNode x n)
  then obtain h where n: "ls_on L n = None" "ls_on L x = Some h"
    using assms(2) by (auto simp: ls_insert_before_node_def split: option.splits if_splits)
  show ?thesis using add_tail_eq[OF rep_prv_node(1)[OF assms(1) n]] rep_prv_node(2)[OF assms(1) n]
    by (simp add: InsertBeforeNode)
qed (simp_all add: add_head_eq del_init_eq)

interpretation dl: list_impl rep dl_apply "\<lambda>h. list_empty (Head h)"
  by unfold_locales (simp_all add: dl_apply_eq ptr_apply_sim empty_eq ring_isempty[OF rep_ring])

text \<open>Any sequence of operations on any number of these lists is the sequence on lists; a test for
  emptiness tells the truth.\<close>

theorem dlist_refined:
  assumes "rep m L" "ls_run ops L = Some L'"
  shows "rep (fold dl_apply ops m) L' \<and> (list_empty (Head h) (fold dl_apply ops m) \<longleftrightarrow> ls_nodes L' h = [])"
  using dl.run_sim[OF assms] dl.run_isempty[OF assms] by blast

section \<open>Moving and splicing\<close>

lemma move_eq: "e \<noteq> head \<Longrightarrow> list_move e head m = list_add_head e head (list_del_init e m)"
  by (rule lmem_eqI) (auto simp: dl_defs set_nxt_def set_prv_def Let_def fun_eq_iff)

lemma move_tail_eq:
  "e \<noteq> head \<Longrightarrow> prv (list_del_init e m) head \<noteq> e \<Longrightarrow> list_move_tail e head m = list_add_tail e head (list_del_init e m)"
  by (rule lmem_eqI) (auto simp: dl_defs set_nxt_def set_prv_def Let_def fun_eq_iff split: if_splits)

theorem dlist_move:
  assumes rep: "rep m L" and on: "ls_on L n = Some g"
  shows "rep (list_move (Node n) (Head h) m) (the (ls_insert_after_head h n (ls_remove n L)))"
    "rep (list_move_tail (Node n) (Head h) m) (the (ls_insert_before_head h n (ls_remove n L)))"
proof -
  have off: "ls_on (ls_remove n L) n = None" using on by (simp add: ls_remove_def)
  have r: "rep (list_del_init (Node n) m) (ls_remove n L)" unfolding del_init_eq by (rule rep_remove[OF rep])
  obtain L1 where L1: "ls_insert_after_head h n (ls_remove n L) = Some L1" using off by (simp add: ls_insert_after_head_def)
  obtain L2 where L2: "ls_insert_before_head h n (ls_remove n L) = Some L2" using off by (simp add: ls_insert_before_head_def)
  show "rep (list_move (Node n) (Head h) m) (the (ls_insert_after_head h n (ls_remove n L)))"
    using rep_insert_after_head[OF r L1] by (simp add: move_eq add_head_eq L1)
  have ne: "prv (list_del_init (Node n) m) (Head h) \<noteq> Node n" by (rule rep_prv_head[OF r off])
  show "rep (list_move_tail (Node n) (Head h) m) (the (ls_insert_before_head h n (ls_remove n L)))"
    using rep_insert_before_head[OF r L2] by (simp add: move_tail_eq[OF _ ne] add_tail_eq[OF ne] L2)
qed

text \<open>A segment that is given another end.\<close>

lemma seg_relink:
  assumes "seg m a us b" "distinct (a # us)" "nxt m' (last (a # us)) = c" "prv m' c = last (a # us)"
    "\<And>x. x \<in> set (butlast (a # us)) \<Longrightarrow> nxt m' x = nxt m x" "\<And>x. x \<in> set us \<Longrightarrow> prv m' x = prv m x"
  shows "seg m' a us c"
  using assms by (induction us arbitrary: a) auto

definition ls_splice :: "'h \<Rightarrow> 'h \<Rightarrow> ('h, 'n) lstore \<Rightarrow> ('h, 'n) lstore" where
  "ls_splice l head L =
     \<lparr>ls_nodes = (ls_nodes L)(head := ls_nodes L l @ ls_nodes L head, l := []),
      ls_on = (\<lambda>n. if n \<in> set (ls_nodes L l) then Some head else ls_on L n)\<rparr>"

lemma ls_splice_wf:
  assumes wf: "ls_wf L" and ne: "l \<noteq> head"
  shows "ls_wf (ls_splice l head L)"
proof -
  have "set (ls_nodes L l) \<inter> set (ls_nodes L head) = {}" using ls_wf_head_unique[OF wf] ne by blast
  then have "distinct (ls_nodes (ls_splice l head L) h)" for h
    using ls_wf_distinct[OF wf] ne by (simp add: ls_splice_def)
  moreover have "ls_on (ls_splice l head L) n = Some h \<longleftrightarrow> n \<in> set (ls_nodes (ls_splice l head L) h)" for n h
    using ls_wf_on[OF wf, of n] ls_wf_head_unique[OF wf, of n l h] ne by (auto simp: ls_splice_def)
  ultimately show ?thesis by (simp add: ls_wf_def)
qed

lemma splice_fields:
  assumes "\<not> list_empty l m"
  shows "nxt (list_splice_init l head m) = (nxt m)(head := nxt m l, prv m l := nxt m head, l := l)"
    "prv (list_splice_init l head m) = (prv m)(nxt m l := head, nxt m head := prv m l, l := l)"
  using assms by (simp_all add: list_splice_init_def dl_defs set_nxt_def set_prv_def Let_def)

theorem dlist_splice:
  assumes rep: "rep m L" and ne: "l \<noteq> head"
  shows "rep (list_splice_init (Head l) (Head head) m) (ls_splice l head L)"
proof (cases "ls_nodes L l")
  case Nil
  then have "list_empty (Head l) m" using ring_isempty[OF rep_ring[OF rep, of l]] by (simp add: empty_eq)
  moreover have "ls_splice l head L = L"
    by (rule lstore.equality) (simp_all add: ls_splice_def Nil fun_upd_idem)
  ultimately show ?thesis using rep by (simp add: list_splice_init_def)
next
  case (Cons x xs)
  note wf = rep_wf[OF rep]
  let ?m = "list_splice_init (Head l) (Head head) m" and ?ys = "ls_nodes L head"
  define z where "z = last (Node x # map Node xs :: ('a, 'b) addr list)"
  define c where "c = hd (map Node ?ys @ [Head head :: ('a, 'b) addr])"
  have rl: "seg m (Head l) (Node x # map Node xs) (Head l)" using rep_ring[OF rep, of l] by (simp add: ring_def Cons)
  have rh: "seg m (Head head) (map Node ?ys) (Head head)" using rep_ring[OF rep, of head] by (simp add: ring_def)
  have e: "\<not> list_empty (Head l) m" using rl by (simp add: list_empty_def)
  have ends: "nxt m (Head l) = Node x" "prv m (Head l) = z" "nxt m (Head head) = c"
    using rl seg_nxt_last[OF rl] seg_nxt_first[OF rh] by (simp_all add: z_def c_def)
  note f = splice_fields[OF e, of "Head head", unfolded ends]
  have dl: "distinct (x # xs)" using ls_wf_distinct[OF wf, of l] by (simp add: Cons)
  have dh: "distinct ?ys" by (rule ls_wf_distinct[OF wf])
  have disj: "set (x # xs) \<inter> set ?ys = {}" using ls_wf_head_unique[OF wf, of _ l head] ne Cons by fastforce
  have z: "z \<in> Node ` set (x # xs)" using last_in_set[of "Node x # map Node xs"] by (auto simp: z_def)
  have c: "c \<in> insert (Head head) (Node ` set ?ys)" by (cases ?ys) (simp_all add: c_def)
  have czx: "c \<noteq> Node x" "c \<noteq> Head l" "z \<noteq> Head head" "z \<noteq> Head l" using z c disj ne by auto
  have first: "nxt ?m (Head head) = Node x" "prv ?m (Node x) = Head head"
    using czx ne by (auto simp: f)
  have "seg ?m (Node x) (map Node xs) c"
  proof (rule seg_relink)
    show "seg m (Node x) (map Node xs) (Head l)" using rl by simp
    show "distinct (Node x # map Node xs)" using dl by (auto simp: distinct_map inj_on_def)
    show "nxt ?m (last (Node x # map Node xs)) = c" "prv ?m c = last (Node x # map Node xs)"
      unfolding z_def[symmetric] using czx by (auto simp: f)
    show "nxt ?m u = nxt m u" if "u \<in> set (butlast (Node x # map Node xs))" for u
    proof -
      have "distinct (butlast (Node x # map Node xs) @ [z])"
        using dl unfolding z_def by (subst append_butlast_last_id) (auto simp: distinct_map inj_on_def)
      then have "u \<noteq> z" using that by auto
      moreover have "u \<in> Node ` set (x # xs)" using in_set_butlastD[OF that] by auto
      ultimately show ?thesis by (auto simp: f)
    qed
    show "prv ?m u = prv m u" if "u \<in> set (map Node xs)" for u
      using that dl c disj by (auto simp: f)
  qed
  then have front: "seg ?m (Head head) (Node x # map Node xs) c" using first by simp
  have rest: "seg ?m c (map Node (tl ?ys)) (Head head)" if yn: "?ys \<noteq> []"
  proof -
    obtain y ys' where y: "?ys = y # ys'" using yn by (cases ?ys) auto
    have s: "seg m (Node y) (map Node ys') (Head head)" using rh by (simp add: y)
    have "seg ?m (Node y) (map Node ys') (Head head) = seg m (Node y) (map Node ys') (Head head)"
      by (rule seg_cong) (use z disj dh ne in \<open>auto simp: f y c_def\<close>)
    then show ?thesis using s by (simp add: y c_def)
  qed
  have "ring ?m head (x # xs @ ?ys)"
    using front rest seg_append[of ?m "Head head" "Node x # map Node xs" c "map Node (tl ?ys)" "Head head"]
    by (cases ?ys) (simp_all add: ring_def c_def)
  moreover have "ring ?m l []" by (simp add: ring_def f)
  moreover have "ring ?m h (ls_nodes L h)" if h: "h \<noteq> l" "h \<noteq> head" for h
  proof -
    have d: "set (ls_nodes L h) \<inter> set (x # xs) = {}" "set (ls_nodes L h) \<inter> set ?ys = {}"
      using ls_wf_head_unique[OF wf, of _ h] h Cons by fastforce+
    have "seg ?m (Head h) (map Node (ls_nodes L h)) (Head h) = seg m (Head h) (map Node (ls_nodes L h)) (Head h)"
      by (rule seg_cong) (use z c d h in \<open>auto simp: f\<close>)
    then show ?thesis using rep_ring[OF rep, of h] by (simp add: ring_def)
  qed
  moreover have "self_linked ?m n" if n: "ls_on (ls_splice l head L) n = None" for n
  proof -
    have o: "n \<notin> set (x # xs)" "ls_on L n = None" using n by (auto simp: ls_splice_def Cons split: if_splits)
    have "n \<notin> set ?ys" by (rule ls_wf_unlinked[OF wf o(2)])
    then show ?thesis using rep_self[OF rep o(2)] o(1) z c by (auto simp: self_linked_def f)
  qed
  ultimately show ?thesis
    using ls_splice_wf[OF wf ne] ne by (simp add: rep_def ls_splice_def Cons)
qed

text \<open>The length is counted around the ring.\<close>

lemma list_size_seg:
  "seg m a (map Node xs) (Head h) \<Longrightarrow> list_size_from (Head h) (nxt m a) k m = Some (k + length xs)"
  by (induction xs arbitrary: a k) (subst list_size_from.simps, simp)+

theorem dlist_size: "rep m L \<Longrightarrow> list_size (Head h) m = Some (length (ls_nodes L h))"
  using list_size_seg[of m "Head h" "ls_nodes L h" h 0] rep_ring[of m L h] by (simp add: list_size_def ring_def)

section \<open>Applied\<close>

definition three_linked :: "(bool, nat) lmem" where
  "three_linked = fold dl_apply [InsertBeforeHead True 3, InsertBeforeHead True 4, InsertBeforeHead False 5] lmem_init"

definition three_listed :: "(bool, nat) lstore" where
  "three_listed = the (ls_run [InsertBeforeHead True 3, InsertBeforeHead True 4, InsertBeforeHead False 5] ls_empty)"

lemma three_run: "ls_run [InsertBeforeHead True 3, InsertBeforeHead True 4, InsertBeforeHead False (5 :: nat)] ls_empty = Some three_listed"
  by (simp add: three_listed_def ls_insert_before_head_def ls_empty_def)

lemma three_nodes: "ls_nodes three_listed True = [3, 4]" "ls_nodes three_listed False = [5]" "ls_on three_listed 3 = Some True"
  by (simp_all add: three_listed_def ls_insert_before_head_def ls_empty_def)

theorem dlist_refined_witness: "rep three_linked three_listed \<and> \<not> list_empty (Head True) three_linked"
  using dlist_refined[OF rep_init three_run, of True] three_nodes(1) by (simp add: three_linked_def)

lemma three_rep: "rep three_linked three_listed"
  using dl.run_sim[OF rep_init three_run] by (simp add: three_linked_def)

theorem dlist_move_witness:
  "\<exists>L. rep (list_move (Node 3) (Head False) three_linked) L \<and> ls_nodes L False = [3, 5] \<and> ls_nodes L True = [4]"
  using dlist_move(1)[OF three_rep three_nodes(3), of False] three_nodes
  by (intro exI[of _ "the (ls_insert_after_head False 3 (ls_remove 3 three_listed))"])
    (simp add: ls_insert_after_head_def ls_remove_def)

theorem dlist_splice_witness:
  "\<exists>L. rep (list_splice_init (Head True) (Head False) three_linked) L \<and> ls_nodes L False = [3, 4, 5] \<and> ls_nodes L True = []"
  using dlist_splice[OF three_rep, of True False] three_nodes
  by (intro exI[of _ "ls_splice True False three_listed"]) (simp add: ls_splice_def)

theorem dlist_size_witness: "list_size (Head True) three_linked = Some 2"
  using dlist_size[OF three_rep, of True] three_nodes(1) by simp

end
