(* ===== verification/Beken_Button.thy ===== *)
theory Beken_Button
  imports Rtt_Chain
begin

text \<open>
  The button driver of the Beken side (\<^verbatim>\<open>beken378/func/key/multi_button.c\<close>): every 5 ms
  the level of each button is read, debounced and fed to a state machine that tells clicks,
  double clicks and long presses apart. What the pin reads is an argument; the callbacks are
  named by numbers, and the model lists the points where one is called. The bit fields have their
  widths. The mutex around the list of buttons is left out.
\<close>

section \<open>Model\<close>

abbreviation (input) DEBOUNCE_TICKS :: nat where "DEBOUNCE_TICKS \<equiv> 6"
abbreviation (input) SHORT_TICKS :: nat where "SHORT_TICKS \<equiv> 80"
abbreviation (input) LONG_TICKS :: nat where "LONG_TICKS \<equiv> 200"

datatype PRESS_EVT = PRESS_DOWN | PRESS_UP | PRESS_REPEAT | SINGLE_CLICK | DOUBLE_CLICK
  | LONG_PRESS_START | LONG_PRESS_HOLD | number_of_event | NONE_PRESS

record BUTTON_S =
  ticks :: "16 word"
  repeat :: "4 word"
  event :: PRESS_EVT
  state :: "3 word"
  debounce_cnt :: "3 word"
  active_level :: "1 word"
  button_level :: "1 word"
  user_data :: nat
  cb :: "PRESS_EVT \<Rightarrow> nat option"
  next_button :: "nat option"

text \<open>\<open>level\<close> is what the pin reads at the end of \<^verbatim>\<open>button_init\<close>.\<close>

definition button_init :: "rt_uint8 \<Rightarrow> rt_uint8 \<Rightarrow> nat \<Rightarrow> BUTTON_S" where
  "button_init level active data =
     \<lparr>ticks = 0, repeat = 0, event = NONE_PRESS, state = 0, debounce_cnt = 0, active_level = ucast active,
      button_level = ucast level, user_data = data, cb = (\<lambda>_. None), next_button = None\<rparr>"

definition button_attach :: "PRESS_EVT \<Rightarrow> nat \<Rightarrow> BUTTON_S \<Rightarrow> BUTTON_S" where
  "button_attach ev f b = b\<lparr>cb := (cb b)(ev \<mapsto> f)\<rparr>"

definition button_get_event :: "BUTTON_S \<Rightarrow> PRESS_EVT" where
  "button_get_event b = event b"

definition debounce :: "rt_uint8 \<Rightarrow> BUTTON_S \<Rightarrow> BUTTON_S" where
  "debounce level b =
     (if level \<noteq> ucast (button_level b) then
        (let b = b\<lparr>debounce_cnt := debounce_cnt b + 1\<rparr> in
         if DEBOUNCE_TICKS \<le> unat (debounce_cnt b) then b\<lparr>button_level := ucast level, debounce_cnt := 0\<rparr> else b)
      else b\<lparr>debounce_cnt := 0\<rparr>)"

text \<open>The second component: the events \<^verbatim>\<open>EVENT_CB\<close> is used with, in order.\<close>

definition button_machine :: "BUTTON_S \<Rightarrow> BUTTON_S \<times> PRESS_EVT list" where
  "button_machine b =
     (if state b = 0 then
        (if button_level b = active_level b
         then (b\<lparr>event := PRESS_DOWN, ticks := 0, repeat := 1, state := 1\<rparr>, [PRESS_DOWN])
         else (b\<lparr>event := NONE_PRESS\<rparr>, []))
      else if state b = 1 then
        (if button_level b \<noteq> active_level b then (b\<lparr>event := PRESS_UP, ticks := 0, state := 2\<rparr>, [PRESS_UP])
         else if LONG_TICKS < unat (ticks b) then (b\<lparr>event := LONG_PRESS_START, state := 5\<rparr>, [LONG_PRESS_START])
         else (b, []))
      else if state b = 2 then
        (if button_level b = active_level b then
           (let b = b\<lparr>event := PRESS_DOWN, repeat := repeat b + 1\<rparr> in
            (b\<lparr>ticks := 0, state := 3\<rparr>,
             [PRESS_DOWN] @ (if repeat b = 2 then [DOUBLE_CLICK] else []) @ [PRESS_REPEAT]))
         else if SHORT_TICKS < unat (ticks b) then
           (if repeat b = 1 then (b\<lparr>event := SINGLE_CLICK, state := 0\<rparr>, [SINGLE_CLICK])
            else if repeat b = 2 then (b\<lparr>event := DOUBLE_CLICK, state := 0\<rparr>, [])
            else (b\<lparr>state := 0\<rparr>, []))
         else (b, []))
      else if state b = 3 then
        (if button_level b \<noteq> active_level b then
           (let b = b\<lparr>event := PRESS_UP\<rparr> in
            (if unat (ticks b) < SHORT_TICKS then b\<lparr>ticks := 0, state := 2\<rparr> else b\<lparr>state := 0\<rparr>, [PRESS_UP]))
         else (b, []))
      else if state b = 5 then
        (if button_level b = active_level b then (b\<lparr>event := LONG_PRESS_HOLD\<rparr>, [LONG_PRESS_HOLD])
         else (b\<lparr>event := PRESS_UP, state := 0\<rparr>, [PRESS_UP]))
      else (b, []))"

definition button_handler :: "rt_uint8 \<Rightarrow> BUTTON_S \<Rightarrow> BUTTON_S \<times> PRESS_EVT list" where
  "button_handler level b =
     (let b = (if 0 < state b then b\<lparr>ticks := ticks b + 1\<rparr> else b)
      in button_machine (debounce level b))"

text \<open>The callbacks that are called at these points.\<close>

definition button_calls :: "BUTTON_S \<Rightarrow> PRESS_EVT list \<Rightarrow> nat list" where
  "button_calls b es = List.map_filter (cb b) es"

subsection \<open>The list of buttons\<close>

record buttons =
  btn :: "nat \<Rightarrow> BUTTON_S"
  head_handle :: "nat option"

abbreviation next_of :: "buttons \<Rightarrow> nat \<Rightarrow> nat option" where
  "next_of S h \<equiv> next_button (btn S h)"

definition upd_btn :: "nat \<Rightarrow> (BUTTON_S \<Rightarrow> BUTTON_S) \<Rightarrow> buttons \<Rightarrow> buttons" where
  "upd_btn h f S = S\<lparr>btn := (btn S)(h := f (btn S h))\<rparr>"

partial_function (option) start_walk :: "buttons \<Rightarrow> nat \<Rightarrow> nat option \<Rightarrow> bool option" where
  "start_walk S h target =
     (case target of None \<Rightarrow> Some False | Some x \<Rightarrow> if x = h then Some True else start_walk S h (next_of S x))"

definition button_start :: "nat \<Rightarrow> buttons \<Rightarrow> (buttons \<times> int) option" where
  "button_start h S = do {
     found \<leftarrow> start_walk S h (head_handle S);
     Some (if found then (S, - 1)
           else ((upd_btn h (\<lambda>b. b\<lparr>next_button := head_handle S\<rparr>) S)\<lparr>head_handle := Some h\<rparr>, 0))
   }"

text \<open>\<open>place\<close> is \<^verbatim>\<open>curr\<close>, the place of the pointer looked at: \<^verbatim>\<open>head_handle\<close> or the
  \<^verbatim>\<open>next\<close> of a button.\<close>

definition read_place :: "nat option \<Rightarrow> buttons \<Rightarrow> nat option" where
  "read_place place S = (case place of None \<Rightarrow> head_handle S | Some x \<Rightarrow> next_of S x)"

definition write_place :: "nat option \<Rightarrow> nat option \<Rightarrow> buttons \<Rightarrow> buttons" where
  "write_place place p S = (case place of None \<Rightarrow> S\<lparr>head_handle := p\<rparr> | Some x \<Rightarrow> upd_btn x (\<lambda>b. b\<lparr>next_button := p\<rparr>) S)"

partial_function (option) stop_walk :: "nat \<Rightarrow> nat option \<Rightarrow> buttons \<Rightarrow> buttons option" where
  "stop_walk h place S =
     (case read_place place S of
        None \<Rightarrow> Some S
      | Some entry \<Rightarrow> if entry = h then stop_walk h place (write_place place (next_of S entry) S)
                      else stop_walk h (Some entry) S)"

definition button_stop :: "nat \<Rightarrow> buttons \<Rightarrow> buttons option" where
  "button_stop h S = stop_walk h None S"

partial_function (option) find_walk :: "buttons \<Rightarrow> nat \<Rightarrow> nat option \<Rightarrow> nat option option" where
  "find_walk S data entry =
     (case entry of None \<Rightarrow> Some None
      | Some x \<Rightarrow> if user_data (btn S x) = data then Some (Some x) else find_walk S data (next_of S x))"

definition button_find_with_user_data :: "nat \<Rightarrow> buttons \<Rightarrow> nat option option" where
  "button_find_with_user_data data S = find_walk S data (head_handle S)"

text \<open>\<open>pin\<close>: what each button reads in this round.\<close>

partial_function (option) ticks_walk :: "(nat \<Rightarrow> rt_uint8) \<Rightarrow> nat option \<Rightarrow> buttons \<Rightarrow> (buttons \<times> (nat \<times> PRESS_EVT list) list) option" where
  "ticks_walk pin target S =
     (case target of None \<Rightarrow> Some (S, [])
      | Some x \<Rightarrow>
          let (b, es) = button_handler (pin x) (btn S x); S = S\<lparr>btn := (btn S)(x := b)\<rparr> in
          Option.bind (ticks_walk pin (next_of S x) S) (\<lambda>(S, ess). Some (S, (x, es) # ess)))"

definition button_ticks :: "(nat \<Rightarrow> rt_uint8) \<Rightarrow> buttons \<Rightarrow> (buttons \<times> (nat \<times> PRESS_EVT list) list) option" where
  "button_ticks pin S = ticks_walk pin (head_handle S) S"

section \<open>Clicks and long presses\<close>

text \<open>A run over a list of readings, and the events of all of them.\<close>

fun button_run :: "rt_uint8 list \<Rightarrow> BUTTON_S \<Rightarrow> BUTTON_S \<times> PRESS_EVT list" where
  "button_run [] b = (b, [])"
| "button_run (x # xs) b =
     (let (b, es) = button_handler x b; (b, fs) = button_run xs b in (b, es @ fs))"

lemma button_run_append:
  "button_run (xs @ ys) b = (let (b, es) = button_run xs b; (b, fs) = button_run ys b in (b, es @ fs))"
  by (induction xs arbitrary: b) (auto simp: split_beta Let_def)

text \<open>The readings of a pressed and of a released button.\<close>

definition pressed :: "BUTTON_S \<Rightarrow> rt_uint8" where "pressed b = ucast (active_level b)"
definition released :: "BUTTON_S \<Rightarrow> rt_uint8" where "released b = ucast (NOT (active_level b))"

definition idle :: "BUTTON_S \<Rightarrow> bool" where
  "idle b \<longleftrightarrow> state b = 0 \<and> button_level b = NOT (active_level b) \<and> debounce_cnt b = 0"

abbreviation one_tick :: "BUTTON_S \<Rightarrow> 16 word" where
  "one_tick b \<equiv> (if 0 < state b then ticks b + 1 else ticks b)"

lemma handler_same:
  "level = ucast (button_level b) \<Longrightarrow>
     button_handler level b = button_machine (b\<lparr>ticks := one_tick b, debounce_cnt := 0\<rparr>)"
  by (simp add: button_handler_def debounce_def)

lemma one_bit: "(x :: 1 word) = 0 \<or> x = 1"
proof -
  have "unat x < 2" using unsigned_less[where 'a = nat, of x] by simp
  then have "unat x = 0 \<or> unat x = 1" by linarith
  then show ?thesis using word_eq_of_unat[of x 0] word_eq_of_unat[of x 1] by auto
qed

lemma one_bit_not [simp]: "NOT (x :: 1 word) \<noteq> x" "x \<noteq> NOT x" "ucast (ucast x :: rt_uint8) = x"
  "(ucast x :: rt_uint8) = ucast y \<longleftrightarrow> x = y"
  using one_bit[of x] one_bit[of y] by auto

lemma press_six:
  assumes "idle b"
  shows "button_run (replicate 6 (pressed b)) b =
    (b\<lparr>button_level := active_level b, event := PRESS_DOWN, ticks := 0, repeat := 1, state := 1\<rparr>, [PRESS_DOWN])"
proof -
  have "replicate 6 (pressed b) = [pressed b, pressed b, pressed b, pressed b, pressed b, pressed b]"
    by (simp add: numeral_eq_Suc)
  then show ?thesis using assms
    by (simp add: idle_def pressed_def button_handler_def debounce_def button_machine_def)
qed


lemma six: "replicate 6 x = [x, x, x, x, x, x]"
  by (simp add: numeral_eq_Suc)

lemma ticks_plus: "unat (t :: 16 word) + k < 2 ^ 16 \<Longrightarrow> unat (t + of_nat k) = unat t + k"
  by (simp add: unat_word_ariths unat_of_nat)

lemma level_simps [simp]: "pressed (b\<lparr>ticks := t\<rparr>) = pressed b" "released (b\<lparr>ticks := t\<rparr>) = released b"
  "released (b\<lparr>event := e\<rparr>) = released b" "pressed (b\<lparr>event := e\<rparr>) = pressed b"
  "released (b\<lparr>debounce_cnt := c\<rparr>) = released b" "pressed (b\<lparr>debounce_cnt := c\<rparr>) = pressed b"
  by (simp_all add: pressed_def released_def)

lemma hold_one:
  assumes "state b = 1" "button_level b = active_level b" "debounce_cnt b = 0" "unat (ticks b) + j \<le> LONG_TICKS"
  shows "button_run (replicate j (pressed b)) b = (b\<lparr>ticks := ticks b + of_nat j\<rparr>, [])"
  using assms
proof (induction j arbitrary: b)
  case (Suc j)
  have u: "unat (ticks b + 1) = unat (ticks b) + 1" using ticks_plus[of "ticks b" 1] Suc.prems(4) by simp
  have "button_handler (pressed b) b = (b\<lparr>ticks := ticks b + 1\<rparr>, [])"
    using Suc.prems u by (simp add: handler_same pressed_def button_machine_def)
  then show ?case using Suc.IH[of "b\<lparr>ticks := ticks b + 1\<rparr>"] Suc.prems u by (simp add: algebra_simps)
qed simp

lemma wait_two:
  assumes "state b = 2" "button_level b = NOT (active_level b)" "debounce_cnt b = 0" "unat (ticks b) + j \<le> SHORT_TICKS"
  shows "button_run (replicate j (released b)) b = (b\<lparr>ticks := ticks b + of_nat j\<rparr>, [])"
  using assms
proof (induction j arbitrary: b)
  case (Suc j)
  have u: "unat (ticks b + 1) = unat (ticks b) + 1" using ticks_plus[of "ticks b" 1] Suc.prems(4) by simp
  have "button_handler (released b) b = (b\<lparr>ticks := ticks b + 1\<rparr>, [])"
    using Suc.prems u by (simp add: handler_same released_def button_machine_def)
  then show ?case using Suc.IH[of "b\<lparr>ticks := ticks b + 1\<rparr>"] Suc.prems u by (simp add: algebra_simps)
qed simp

lemma rest_zero: "idle b \<Longrightarrow> \<exists>e. button_run (replicate j (released b)) b = (b\<lparr>event := e\<rparr>, [])"
proof (induction j arbitrary: b)
  case 0
  then show ?case by (intro exI[of _ "event b"]) simp
next
  case (Suc j)
  have "button_handler (released b) b = (b\<lparr>event := NONE_PRESS\<rparr>, [])"
    using Suc.prems by (simp add: idle_def handler_same released_def button_machine_def)
  moreover have "idle (b\<lparr>event := NONE_PRESS\<rparr>)" using Suc.prems by (simp add: idle_def)
  ultimately show ?case using Suc.IH[of "b\<lparr>event := NONE_PRESS\<rparr>"] by auto
qed

lemma hold_five:
  assumes "state b = 5" "button_level b = active_level b" "debounce_cnt b = 0"
  shows "\<exists>e t. button_run (replicate j (pressed b)) b = (b\<lparr>ticks := t, event := e\<rparr>, replicate j LONG_PRESS_HOLD)"
  using assms
proof (induction j arbitrary: b)
  case 0
  then show ?case by (intro exI[of _ "event b"] exI[of _ "ticks b"]) simp
next
  case (Suc j)
  have "button_handler (pressed b) b = (b\<lparr>ticks := ticks b + 1, event := LONG_PRESS_HOLD\<rparr>, [LONG_PRESS_HOLD])"
    using Suc.prems by (simp add: handler_same pressed_def button_machine_def)
  moreover obtain e t where "button_run (replicate j (pressed b)) (b\<lparr>ticks := ticks b + 1, event := LONG_PRESS_HOLD\<rparr>) =
      (b\<lparr>ticks := t, event := e\<rparr>, replicate j LONG_PRESS_HOLD)"
    using Suc.IH[of "b\<lparr>ticks := ticks b + 1, event := LONG_PRESS_HOLD\<rparr>"] Suc.prems by auto
  ultimately show ?case by (intro exI[of _ e] exI[of _ t]) simp
qed

text \<open>Up to five readings of the other level count up; the sixth changes the level.\<close>

lemma handler_count:
  assumes "level = ucast (NOT (button_level b))" "unat (debounce_cnt b) < 5"
  shows "button_handler level b = button_machine (b\<lparr>ticks := one_tick b, debounce_cnt := debounce_cnt b + 1\<rparr>)"
    "unat (debounce_cnt b + 1) = unat (debounce_cnt b) + 1"
proof -
  show u: "unat (debounce_cnt b + 1) = unat (debounce_cnt b) + 1" using assms(2) by (simp add: unat_word_ariths)
  show "button_handler level b = button_machine (b\<lparr>ticks := one_tick b, debounce_cnt := debounce_cnt b + 1\<rparr>)"
    using assms u by (simp add: button_handler_def debounce_def)
qed

lemma handler_flip:
  assumes "level = ucast (NOT (button_level b))" "unat (debounce_cnt b) = 5"
  shows "button_handler level b =
    button_machine (b\<lparr>ticks := one_tick b, button_level := NOT (button_level b), debounce_cnt := 0\<rparr>)"
proof -
  have "unat (debounce_cnt b + 1) = 6" using assms(2) by (simp add: unat_word_ariths)
  then show ?thesis using assms by (simp add: button_handler_def debounce_def)
qed

lemma bounce_one:
  assumes "state b = 1" "button_level b = active_level b" "unat (debounce_cnt b) + k \<le> 5" "unat (ticks b) + k \<le> LONG_TICKS"
  shows "button_run (replicate k (released b)) b =
    (b\<lparr>ticks := ticks b + of_nat k, debounce_cnt := debounce_cnt b + of_nat k\<rparr>, [])"
  using assms
proof (induction k arbitrary: b)
  case (Suc k)
  have u: "unat (ticks b + 1) = unat (ticks b) + 1" using ticks_plus[of "ticks b" 1] Suc.prems(4) by simp
  have l: "released b = ucast (NOT (button_level b))" "unat (debounce_cnt b) < 5" using Suc.prems by (simp_all add: released_def)
  have "button_handler (released b) b = (b\<lparr>ticks := ticks b + 1, debounce_cnt := debounce_cnt b + 1\<rparr>, [])"
    unfolding handler_count(1)[OF l] using Suc.prems u by (simp add: button_machine_def)
  then show ?case
    using Suc.IH[of "b\<lparr>ticks := ticks b + 1, debounce_cnt := debounce_cnt b + 1\<rparr>"] Suc.prems u handler_count(2)[OF l]
    by (simp add: algebra_simps)
qed simp

lemma bounce_five:
  assumes "state b = 5" "button_level b = active_level b" "unat (debounce_cnt b) + k \<le> 5"
  shows "\<exists>e t. button_run (replicate k (released b)) b =
    (b\<lparr>ticks := t, debounce_cnt := debounce_cnt b + of_nat k, event := e\<rparr>, replicate k LONG_PRESS_HOLD)"
  using assms
proof (induction k arbitrary: b)
  case 0
  then show ?case by (intro exI[of _ "event b"] exI[of _ "ticks b"]) simp
next
  case (Suc k)
  let ?b = "b\<lparr>ticks := ticks b + 1, debounce_cnt := debounce_cnt b + 1, event := LONG_PRESS_HOLD\<rparr>"
  have l: "released b = ucast (NOT (button_level b))" "unat (debounce_cnt b) < 5" using Suc.prems by (simp_all add: released_def)
  have h: "button_handler (released b) b = (?b, [LONG_PRESS_HOLD])"
    unfolding handler_count(1)[OF l] using Suc.prems by (simp add: button_machine_def)
  obtain e t where "button_run (replicate k (released b)) ?b =
      (?b\<lparr>ticks := t, debounce_cnt := debounce_cnt b + 1 + of_nat k, event := e\<rparr>, replicate k LONG_PRESS_HOLD)"
    using Suc.IH[of ?b] Suc.prems handler_count(2)[OF l] by auto
  then show ?case using h by (intro exI[of _ e] exI[of _ t]) (simp add: algebra_simps)
qed

lemma release_one:
  assumes "state b = 1" "button_level b = active_level b" "debounce_cnt b = 0" "unat (ticks b) + 5 \<le> LONG_TICKS"
  shows "button_run (replicate 6 (released b)) b =
    (b\<lparr>button_level := NOT (active_level b), event := PRESS_UP, ticks := 0, state := 2\<rparr>, [PRESS_UP])"
proof -
  let ?b = "b\<lparr>ticks := ticks b + 5, debounce_cnt := 5\<rparr>"
  have five: "button_run (replicate 5 (released b)) b = (?b, [])" using bounce_one[of b 5] assms by simp
  have flip: "button_handler (released b) ?b =
      (b\<lparr>button_level := NOT (active_level b), event := PRESS_UP, ticks := 0, state := 2\<rparr>, [PRESS_UP])"
    using handler_flip[of "released b" ?b] assms by (simp add: released_def button_machine_def)
  have "replicate 6 (released b) = replicate 5 (released b) @ [released b]" by (simp add: numeral_eq_Suc)
  then show ?thesis by (simp only: button_run_append five) (simp add: flip)
qed

lemma release_five:
  assumes "state b = 5" "button_level b = active_level b" "debounce_cnt b = 0"
  shows "\<exists>t. button_run (replicate 6 (released b)) b =
    (b\<lparr>button_level := NOT (active_level b), event := PRESS_UP, ticks := t, state := 0\<rparr>,
     replicate 5 LONG_PRESS_HOLD @ [PRESS_UP])"
proof -
  obtain e t where five: "button_run (replicate 5 (released b)) b =
      (b\<lparr>ticks := t, debounce_cnt := 5, event := e\<rparr>, replicate 5 LONG_PRESS_HOLD)"
    using bounce_five[of b 5] assms by auto
  let ?b = "b\<lparr>ticks := t, debounce_cnt := 5, event := e\<rparr>"
  have flip: "button_handler (released b) ?b =
      (b\<lparr>button_level := NOT (active_level b), event := PRESS_UP, ticks := t + 1, state := 0\<rparr>, [PRESS_UP])"
    using handler_flip[of "released b" ?b] assms by (simp add: released_def button_machine_def)
  have "replicate 6 (released b) = replicate 5 (released b) @ [released b]" by (simp add: numeral_eq_Suc)
  then show ?thesis by (intro exI[of _ "t + 1"]) (simp only: button_run_append five, simp add: flip)
qed

section \<open>Properties\<close>

text \<open>C34. A press held for 6 to 201 readings (up to about a second) and released for long enough is one
  click, after which the button is idle again.\<close>

theorem button_single_click:
  assumes "idle b" "6 \<le> n" "n \<le> 201" "87 \<le> m"
  shows "\<exists>b'. button_run (replicate n (pressed b) @ replicate m (released b)) b =
    (b', [PRESS_DOWN, PRESS_UP, SINGLE_CLICK]) \<and> idle b'"
proof -
  let ?p = "pressed b" and ?r = "released b"
  let ?b1 = "b\<lparr>button_level := active_level b, event := PRESS_DOWN, ticks := 0, repeat := 1, state := 1\<rparr>"
  let ?b2 = "?b1\<lparr>ticks := of_nat (n - 6)\<rparr>"
  let ?b3 = "?b2\<lparr>button_level := NOT (active_level b), event := PRESS_UP, ticks := 0, state := 2\<rparr>"
  let ?b4 = "?b3\<lparr>ticks := 80\<rparr>"
  let ?b5 = "?b4\<lparr>ticks := 81, event := SINGLE_CLICK, state := 0\<rparr>"
  have cnt: "debounce_cnt b = 0" using assms(1) by (simp add: idle_def)
  have k: "unat (of_nat (n - 6) :: 16 word) = n - 6" using assms(3) by (simp add: unat_of_nat)
  have r1: "button_run (replicate 6 ?p) b = (?b1, [PRESS_DOWN])" by (rule press_six[OF assms(1)])
  have r2: "button_run (replicate (n - 6) ?p) ?b1 = (?b2, [])"
    using hold_one[of ?b1 "n - 6"] cnt assms(3) by (simp add: pressed_def)
  have r3: "button_run (replicate 6 ?r) ?b2 = (?b3, [PRESS_UP])"
    using release_one[of ?b2] cnt assms(2,3) k by (simp add: released_def)
  have r4: "button_run (replicate 80 ?r) ?b3 = (?b4, [])"
    using wait_two[of ?b3 80] cnt by (simp add: released_def)
  have r5: "button_run [?r] ?b4 = (?b5, [SINGLE_CLICK])"
    using cnt by (simp add: handler_same released_def button_machine_def)
  have i5: "idle ?b5" using cnt by (simp add: idle_def)
  obtain e where r6: "button_run (replicate (m - 87) ?r) ?b5 = (?b5\<lparr>event := e\<rparr>, [])"
    using rest_zero[OF i5, of "m - 87"] by (auto simp: released_def)
  have "idle (?b5\<lparr>event := e\<rparr>)" using cnt by (simp add: idle_def)
  moreover have "replicate n ?p = replicate 6 ?p @ replicate (n - 6) ?p"
    using assms(2) by (simp flip: replicate_add)
  moreover have "replicate m ?r = replicate 6 ?r @ replicate 80 ?r @ [?r] @ replicate (m - 87) ?r"
  proof -
    have "replicate (6 + (80 + (1 + (m - 87)))) ?r = replicate 6 ?r @ replicate 80 ?r @ [?r] @ replicate (m - 87) ?r"
      by (simp only: replicate_add) simp
    then show ?thesis using assms(4) by simp
  qed
  ultimately show ?thesis
    using r1 r2 r3 r4 r5 r6 by (simp only: append_assoc button_run_append Let_def prod.case) simp
qed

lemma levels_init: "pressed (button_init l 0 data) = 0" "released (button_init l 0 data) = 1"
proof -
  have "NOT (0 :: 1 word) = 1" using one_bit[of "NOT 0"] by auto
  then show "pressed (button_init l 0 data) = 0" "released (button_init l 0 data) = 1"
    by (simp_all add: pressed_def released_def button_init_def del: bit.compl_zero)
qed

lemma idle_init: "idle (button_init 1 0 data)"
  by (simp add: idle_def button_init_def)

theorem button_single_click_witness:
  "\<exists>b'. button_run (replicate 20 0 @ replicate 90 1) (button_init 1 0 7) = (b', [PRESS_DOWN, PRESS_UP, SINGLE_CLICK]) \<and> idle b'"
  using button_single_click[OF idle_init, of 20 90 7] by (simp add: levels_init)

text \<open>A press held for at least 207 readings is a long press: it starts after a second, holds until the
  release, and ends without a click.\<close>

theorem button_long_press:
  assumes "idle b" "207 \<le> n" "6 \<le> m"
  shows "\<exists>b'. button_run (replicate n (pressed b) @ replicate m (released b)) b =
    (b', [PRESS_DOWN, LONG_PRESS_START] @ replicate (n - 202) LONG_PRESS_HOLD @ [PRESS_UP]) \<and> idle b'"
proof -
  let ?p = "pressed b" and ?r = "released b"
  let ?b1 = "b\<lparr>button_level := active_level b, event := PRESS_DOWN, ticks := 0, repeat := 1, state := 1\<rparr>"
  let ?b2 = "?b1\<lparr>ticks := 200\<rparr>"
  let ?b3 = "?b2\<lparr>ticks := 201, event := LONG_PRESS_START, state := 5\<rparr>"
  have cnt: "debounce_cnt b = 0" using assms(1) by (simp add: idle_def)
  have r1: "button_run (replicate 6 ?p) b = (?b1, [PRESS_DOWN])" by (rule press_six[OF assms(1)])
  have r2: "button_run (replicate 200 ?p) ?b1 = (?b2, [])"
    using hold_one[of ?b1 200] cnt by (simp add: pressed_def)
  have r3: "button_run [?p] ?b2 = (?b3, [LONG_PRESS_START])"
    using cnt by (simp add: handler_same pressed_def button_machine_def)
  obtain e t where r4: "button_run (replicate (n - 207) ?p) ?b3 = (?b3\<lparr>ticks := t, event := e\<rparr>, replicate (n - 207) LONG_PRESS_HOLD)"
    using hold_five[of ?b3 "n - 207"] cnt by (auto simp: pressed_def)
  let ?b4 = "?b3\<lparr>ticks := t, event := e\<rparr>"
  obtain t' where r5: "button_run (replicate 6 ?r) ?b4 =
      (?b4\<lparr>button_level := NOT (active_level b), event := PRESS_UP, ticks := t', state := 0\<rparr>, replicate 5 LONG_PRESS_HOLD @ [PRESS_UP])"
    using release_five[of ?b4] cnt by (auto simp: released_def)
  let ?b5 = "?b4\<lparr>button_level := NOT (active_level b), event := PRESS_UP, ticks := t', state := 0\<rparr>"
  have i5: "idle ?b5" using cnt by (simp add: idle_def)
  obtain e' where r6: "button_run (replicate (m - 6) ?r) ?b5 = (?b5\<lparr>event := e'\<rparr>, [])"
    using rest_zero[OF i5, of "m - 6"] by (auto simp: released_def)
  have "idle (?b5\<lparr>event := e'\<rparr>)" using cnt by (simp add: idle_def)
  moreover have "replicate n ?p = replicate 6 ?p @ replicate 200 ?p @ [?p] @ replicate (n - 207) ?p"
  proof -
    have "replicate (6 + (200 + (1 + (n - 207)))) ?p = replicate 6 ?p @ replicate 200 ?p @ [?p] @ replicate (n - 207) ?p"
      by (simp only: replicate_add) simp
    then show ?thesis using assms(2) by simp
  qed
  moreover have "replicate m ?r = replicate 6 ?r @ replicate (m - 6) ?r" using assms(3) by (simp flip: replicate_add)
  moreover have "replicate (n - 207) LONG_PRESS_HOLD @ replicate 5 LONG_PRESS_HOLD = replicate (n - 202) LONG_PRESS_HOLD"
    using assms(2) by (simp flip: replicate_add)
  ultimately show ?thesis
    using r1 r2 r3 r4 r5 r6 by (simp only: append_assoc button_run_append Let_def prod.case) simp
qed

theorem button_long_press_witness:
  "\<exists>b'. button_run (replicate 209 0 @ replicate 6 1) (button_init 1 0 7) =
     (b', [PRESS_DOWN, LONG_PRESS_START] @ replicate 7 LONG_PRESS_HOLD @ [PRESS_UP]) \<and> idle b'"
  using button_long_press[OF idle_init, of 209 6 7] by (simp add: levels_init)

section \<open>Presses and releases alternate\<close>

text \<open>The states the machine uses, and in which of them the button counts as pressed.\<close>

definition machine_ok :: "BUTTON_S \<Rightarrow> bool" where
  "machine_ok b \<longleftrightarrow> state b \<in> {0, 1, 2, 3, 5} \<and> unat (debounce_cnt b) < DEBOUNCE_TICKS"

definition held :: "BUTTON_S \<Rightarrow> bool" where
  "held b \<longleftrightarrow> state b \<in> {1, 3, 5}"

text \<open>A press only when the button is not held, a release only when it is; \<open>h\<close>: held.\<close>

fun alternates :: "bool \<Rightarrow> PRESS_EVT list \<Rightarrow> bool" where
  "alternates h [] = True"
| "alternates h (e # es) =
     (if e = PRESS_DOWN then \<not> h \<and> alternates True es
      else if e = PRESS_UP then h \<and> alternates False es
      else alternates h es)"

fun held_after :: "bool \<Rightarrow> PRESS_EVT list \<Rightarrow> bool" where
  "held_after h [] = h"
| "held_after h (e # es) = held_after (if e = PRESS_DOWN then True else if e = PRESS_UP then False else h) es"

lemma alternates_append: "alternates h (xs @ ys) \<longleftrightarrow> alternates h xs \<and> alternates (held_after h xs) ys"
  by (induction xs arbitrary: h) auto

lemma held_after_append: "held_after h (xs @ ys) = held_after (held_after h xs) ys"
  by (induction xs arbitrary: h) auto

lemma debounce_ok:
  assumes "machine_ok b"
  shows "machine_ok (debounce level (b\<lparr>ticks := t\<rparr>))" "state (debounce level (b\<lparr>ticks := t\<rparr>)) = state b"
  using assms by (auto simp: machine_ok_def debounce_def Let_def)

lemma machine_step_ok:
  assumes "machine_ok b" "button_machine b = (b', es)"
  shows "machine_ok b'" "alternates (held b) es" "held b' = held_after (held b) es"
  using assms by (auto simp: machine_ok_def held_def button_machine_def Let_def split: if_splits)

text \<open>Whatever the pin reads, the machine stays in its five states and a press is never reported twice
  without a release in between.\<close>

theorem button_alternates:
  assumes "machine_ok b" "button_run xs b = (b', es)"
  shows "machine_ok b' \<and> alternates (held b) es \<and> held b' = held_after (held b) es"
  using assms
proof (induction xs arbitrary: b es)
  case (Cons x xs)
  obtain b1 es1 where h: "button_handler x b = (b1, es1)" by fastforce
  obtain b2 es2 where r: "button_run xs b1 = (b2, es2)" by fastforce
  have bb: "b\<lparr>ticks := ticks b\<rparr> = b" by simp
  have m: "button_machine (debounce x (b\<lparr>ticks := one_tick b\<rparr>)) = (b1, es1)"
    using h by (simp add: button_handler_def bb split: if_splits)
  have ok: "machine_ok b1" "alternates (held b) es1" "held b1 = held_after (held b) es1"
    using machine_step_ok[OF debounce_ok(1)[OF Cons.prems(1)] m] debounce_ok(2)[OF Cons.prems(1)] by (simp_all add: held_def)
  have e: "es = es1 @ es2" and r': "button_run xs b1 = (b', es2)" using Cons.prems(2) h r by auto
  show ?case using Cons.IH[OF ok(1) r'] ok e by (simp add: alternates_append held_after_append)
qed simp

theorem button_alternates_witness:
  "\<exists>b' es. button_run (replicate 6 0 @ [1, 0, 1]) (button_init 1 0 7) = (b', es) \<and> machine_ok b' \<and> alternates False es"
proof -
  obtain b' es where r: "button_run (replicate 6 0 @ [1, 0, 1]) (button_init 1 0 7) = (b', es)" by fastforce
  have "machine_ok (button_init 1 0 7)" "held (button_init 1 0 7) = False"
    by (simp_all add: machine_ok_def held_def button_init_def)
  then show ?thesis using button_alternates[OF _ r] r by auto
qed

section \<open>The list of buttons\<close>

abbreviation on_list :: "buttons \<Rightarrow> nat list \<Rightarrow> bool" where
  "on_list S hs \<equiv> chain (next_of S) (head_handle S) hs \<and> distinct hs"

lemma start_walk_chain: "chain (next_of S) p hs \<Longrightarrow> start_walk S h p = Some (h \<in> set hs)"
  by (induction hs arbitrary: p) (subst start_walk.simps, auto)+

lemma find_walk_chain: "chain (next_of S) p hs \<Longrightarrow> find_walk S data p = Some (find (\<lambda>x. user_data (btn S x) = data) hs)"
  by (induction hs arbitrary: p) (subst find_walk.simps, auto)+

lemma chain_last: "chain nx p (xs @ ys) \<Longrightarrow> xs \<noteq> [] \<Longrightarrow> nx (last xs) = (case ys of [] \<Rightarrow> None | y # _ \<Rightarrow> Some y)"
  by (induction xs arbitrary: p) (auto split: list.split if_splits elim: chain.elims)

lemma chain_splice:
  "chain nx p (xs @ y # ys) \<Longrightarrow> distinct (xs @ y # ys) \<Longrightarrow> xs \<noteq> [] \<Longrightarrow> chain (nx(last xs := nx y)) p (xs @ ys)"
proof (induction xs arbitrary: p)
  case (Cons x xs)
  show ?case
  proof (cases "xs = []")
    case True
    then show ?thesis using Cons.prems chain_upd[of x ys nx "nx y" "nx y"] by (auto simp: fun_upd_def)
  next
    case False
    then have "last xs \<noteq> x" using Cons.prems(2) by (metis append_Cons distinct.simps(2) in_set_conv_decomp last_in_set Un_iff set_append)
    then show ?thesis using Cons False by simp
  qed
qed simp

lemma start_chain:
  assumes "on_list S hs"
  shows "\<exists>S'. button_start h S = Some (S', if h \<in> set hs then - 1 else 0) \<and>
    on_list S' (if h \<in> set hs then hs else h # hs)"
proof (cases "h \<in> set hs")
  case True
  then have "start_walk S h (head_handle S) = Some True" using assms start_walk_chain by fastforce
  then show ?thesis using assms True by (simp add: button_start_def)
next
  case False
  let ?S = "(upd_btn h (\<lambda>b. b\<lparr>next_button := head_handle S\<rparr>) S)\<lparr>head_handle := Some h\<rparr>"
  have n: "next_of ?S = (next_of S)(h := head_handle S)" by (auto simp: upd_btn_def)
  have "on_list ?S (h # hs)" using assms False unfolding n by (simp add: upd_btn_def)
  moreover have "start_walk S h (head_handle S) = Some False" using assms False start_walk_chain by fastforce
  ultimately show ?thesis using False by (simp add: button_start_def)
qed

text \<open>The walk of \<^verbatim>\<open>button_stop\<close> from a place on the list: \<open>xs\<close> is in front of it,
  \<open>ys\<close> behind it.\<close>

lemma stop_walk_chain:
  assumes "on_list S (xs @ ys)" "h \<notin> set xs"
  shows "\<exists>S'. stop_walk h (if xs = [] then None else Some (last xs)) S = Some S' \<and> on_list S' (remove1 h (xs @ ys)) \<and>
    (\<forall>x. (btn S' x)\<lparr>next_button := None\<rparr> = (btn S x)\<lparr>next_button := None\<rparr>)"
  using assms
proof (induction ys arbitrary: xs S)
  case Nil
  have "read_place (if xs = [] then None else Some (last xs)) S = None"
    using Nil.prems(1) chain_last[of "next_of S" "head_handle S" xs "[]"] by (cases "xs = []") (simp_all add: read_place_def)
  then show ?case using Nil by (subst stop_walk.simps) (simp add: remove1_idem)
next
  case (Cons y ys)
  let ?place = "if xs = [] then None else Some (last xs)"
  have rd: "read_place ?place S = Some y"
    using Cons.prems(1) chain_last[of "next_of S" "head_handle S" xs "y # ys"] by (cases "xs = []") (simp_all add: read_place_def)
  show ?case
  proof (cases "y = h")
    case False
    have "\<exists>S'. stop_walk h (if xs @ [y] = [] then None else Some (last (xs @ [y]))) S = Some S' \<and>
      on_list S' (remove1 h ((xs @ [y]) @ ys)) \<and> (\<forall>x. (btn S' x)\<lparr>next_button := None\<rparr> = (btn S x)\<lparr>next_button := None\<rparr>)"
      by (rule Cons.IH) (use Cons.prems False in auto)
    then show ?thesis using rd False by (subst stop_walk.simps) simp
  next
    case True
    let ?S = "write_place ?place (next_of S y) S"
    have on: "on_list ?S (xs @ ys)"
    proof (cases "xs = []")
      case True
      then show ?thesis using Cons.prems(1) by (simp add: write_place_def)
    next
      case False
      have "next_of ?S = (next_of S)(last xs := next_of S y)" using False by (auto simp: write_place_def upd_btn_def)
      moreover have "head_handle ?S = head_handle S" using False by (simp add: write_place_def upd_btn_def)
      ultimately show ?thesis using chain_splice[of "next_of S" "head_handle S" xs y ys] Cons.prems(1) False by simp
    qed
    have fr: "(btn ?S x)\<lparr>next_button := None\<rparr> = (btn S x)\<lparr>next_button := None\<rparr>" for x
      by (simp add: write_place_def upd_btn_def)
    have "h \<notin> set (xs @ ys)" using Cons.prems True by auto
    then have same: "remove1 h (xs @ ys) = xs @ ys" "remove1 h (xs @ y # ys) = xs @ ys"
      using True by (simp_all add: remove1_idem remove1_append)
    obtain S' where S': "stop_walk h ?place ?S = Some S'" "on_list S' (remove1 h (xs @ ys))"
        "\<forall>x. (btn S' x)\<lparr>next_button := None\<rparr> = (btn ?S x)\<lparr>next_button := None\<rparr>"
      using Cons.IH[OF on Cons.prems(2)] by blast
    have "stop_walk h ?place S = Some S'" using rd True S'(1) by (subst stop_walk.simps) (simp del: if_split)
    then show ?thesis using S'(2,3) fr same by auto
  qed
qed

lemma handler_next: "next_button (fst (button_handler level b)) = next_button b"
  by (simp add: button_handler_def button_machine_def debounce_def Let_def)

lemma ticks_walk_chain:
  "chain (next_of S) p hs \<Longrightarrow> distinct hs \<Longrightarrow>
     \<exists>S'. ticks_walk pin p S = Some (S', map (\<lambda>x. (x, snd (button_handler (pin x) (btn S x)))) hs) \<and>
       next_of S' = next_of S \<and> head_handle S' = head_handle S"
proof (induction hs arbitrary: p S)
  case Nil
  then show ?case by (subst ticks_walk.simps) simp
next
  case (Cons x hs)
  obtain b es where h: "button_handler (pin x) (btn S x) = (b, es)" by fastforce
  let ?S = "S\<lparr>btn := (btn S)(x := b)\<rparr>"
  have nb: "next_button b = next_of S x" using handler_next[of "pin x" "btn S x"] h by simp
  then have n: "next_of ?S = next_of S" by (auto simp: fun_eq_iff)
  have "chain (next_of ?S) (next_of S x) hs" "distinct hs" using Cons.prems unfolding n by simp_all
  then obtain S' where S': "ticks_walk pin (next_of S x) ?S =
      Some (S', map (\<lambda>y. (y, snd (button_handler (pin y) (btn ?S y)))) hs)" "next_of S' = next_of ?S" "head_handle S' = head_handle ?S"
    using Cons.IH[of ?S "next_of S x"] by blast
  have m: "map (\<lambda>y. (y, snd (button_handler (pin y) (btn ?S y)))) hs = map (\<lambda>y. (y, snd (button_handler (pin y) (btn S y)))) hs"
    using Cons.prems(2) by auto
  have "p = Some x" using Cons.prems(1) by simp
  then have "ticks_walk pin p S = Some (S', (x, es) # map (\<lambda>y. (y, snd (button_handler (pin y) (btn ?S y)))) hs)"
    using S'(1) nb by (subst ticks_walk.simps) (simp add: h)
  then show ?case using S'(2,3) n h unfolding m by simp
qed

text \<open>The pointers in the buttons make a list, and the operations are those of a list: a button is
  entered in front unless it is there already, taken out, found, and served once in every round.\<close>

theorem button_list:
  assumes "on_list S hs"
  shows "(\<exists>S'. button_start h S = Some (S', if h \<in> set hs then - 1 else 0) \<and> on_list S' (if h \<in> set hs then hs else h # hs)) \<and>
    (\<exists>S'. button_stop h S = Some S' \<and> on_list S' (remove1 h hs)) \<and>
    button_find_with_user_data data S = Some (find (\<lambda>x. user_data (btn S x) = data) hs) \<and>
    (\<exists>S'. button_ticks pin S = Some (S', map (\<lambda>x. (x, snd (button_handler (pin x) (btn S x)))) hs) \<and> on_list S' hs)"
proof (intro conjI)
  show "\<exists>S'. button_start h S = Some (S', if h \<in> set hs then - 1 else 0) \<and> on_list S' (if h \<in> set hs then hs else h # hs)"
    by (rule start_chain[OF assms])
  show "\<exists>S'. button_stop h S = Some S' \<and> on_list S' (remove1 h hs)"
    using stop_walk_chain[of S "[]" hs h] assms by (auto simp: button_stop_def)
  show "button_find_with_user_data data S = Some (find (\<lambda>x. user_data (btn S x) = data) hs)"
    using assms by (simp add: button_find_with_user_data_def find_walk_chain)
  show "\<exists>S'. button_ticks pin S = Some (S', map (\<lambda>x. (x, snd (button_handler (pin x) (btn S x)))) hs) \<and> on_list S' hs"
    using ticks_walk_chain[of S "head_handle S" hs pin] assms by (auto simp: button_ticks_def)
qed

definition two_buttons :: buttons where
  "two_buttons = \<lparr>btn = (\<lambda>x. (button_init 1 0 x)\<lparr>next_button := if x = 0 then Some 1 else None\<rparr>), head_handle = Some 0\<rparr>"

theorem button_list_witness:
  "\<exists>S'. button_start 5 two_buttons = Some (S', 0) \<and> on_list S' [5, 0, 1]"
proof -
  have "on_list two_buttons [0, 1]" by (simp add: two_buttons_def)
  from button_list[OF this, of 5 0 "\<lambda>_. 0"] show ?thesis by simp
qed

end
