(* ===== verification/Beken_Fifo.thy ===== *)
theory Beken_Fifo
  imports Rtt_Block_Fifo Rtt_Ffs
begin

text \<open>
  The byte FIFO of the Beken side (\<^verbatim>\<open>beken378/common/fifo.h\<close>), which the serial
  driver puts between its interrupt and its users. The two indices run freely through 32 bits and
  wrap; the size is a power of two and the position in the buffer is the index under a mask.
  \<open>kf_buffer\<close> is the memory the FIFO points to; a function that writes to a caller's
  pointer returns the bytes written. Shown: the FIFO is a bounded queue of bytes, across the
  wrap-around of both the buffer and the indices.
\<close>

section \<open>Model\<close>

record kfifo =
  kf_in :: rt_uint32
  kf_out :: rt_uint32
  kf_mask :: rt_uint32
  kf_size :: rt_uint32
  kf_buffer :: "rt_uint8 list"

text \<open>\<open>mem\<close>: whether the allocation of the structure succeeds. A size that is not a power
  of two fails the check.\<close>

definition kfifo_init :: "bool \<Rightarrow> rt_uint8 list \<Rightarrow> rt_uint32 \<Rightarrow> kfifo option option" where
  "kfifo_init mem buffer sz = do {
     RT_ASSERT (sz AND (sz - 1) = 0);
     Some (if \<not> mem then None
       else Some \<lparr>kf_in = 0, kf_out = 0, kf_mask = sz - 1, kf_size = sz, kf_buffer = buffer\<rparr>)
   }"

text \<open>\<open>block\<close>: the buffer the heap gives, if any.\<close>

definition kfifo_alloc :: "rt_uint8 list option \<Rightarrow> bool \<Rightarrow> rt_uint32 \<Rightarrow> kfifo option option" where
  "kfifo_alloc block mem sz = (case block of None \<Rightarrow> Some None | Some buffer \<Rightarrow> kfifo_init mem buffer sz)"

definition kfifo_put :: "rt_uint8 list \<Rightarrow> rt_uint32 \<Rightarrow> kfifo \<Rightarrow> kfifo \<times> rt_uint32" where
  "kfifo_put src len f =
     (let len = min len (kf_size f - kf_in f + kf_out f);
          pos = kf_in f AND (kf_size f - 1);
          l = min len (kf_size f - pos);
          buf = blit (unat pos) (take (unat l) src) (kf_buffer f);
          buf = blit 0 (take (unat (len - l)) (drop (unat l) src)) buf
      in (f\<lparr>kf_buffer := buf, kf_in := kf_in f + len\<rparr>, len))"

definition kfifo_get :: "rt_uint32 \<Rightarrow> kfifo \<Rightarrow> kfifo \<times> rt_uint8 list" where
  "kfifo_get len f =
     (let len = min len (kf_in f - kf_out f);
          pos = kf_out f AND (kf_size f - 1);
          l = min len (kf_size f - pos)
      in (f\<lparr>kf_out := kf_out f + len\<rparr>,
          take (unat l) (drop (unat pos) (kf_buffer f)) @ take (unat (len - l)) (kf_buffer f)))"

definition kfifo_data_size :: "kfifo \<Rightarrow> rt_uint32" where
  "kfifo_data_size f = kf_in f - kf_out f"

definition kfifo_unused :: "kfifo \<Rightarrow> rt_uint32" where
  "kfifo_unused f = (kf_mask f + 1) - (kf_in f - kf_out f)"

definition kfifo_copy_out :: "kfifo \<Rightarrow> rt_uint32 \<Rightarrow> rt_uint32 \<Rightarrow> rt_uint8 list" where
  "kfifo_copy_out f len off =
     (let sz = kf_mask f + 1; off = off AND kf_mask f; l = min len (sz - off)
      in take (unat l) (drop (unat off) (kf_buffer f)) @ take (unat (len - l)) (kf_buffer f))"

definition kfifo_out_peek :: "rt_uint32 \<Rightarrow> kfifo \<Rightarrow> rt_uint8 list" where
  "kfifo_out_peek len f =
     (let l = kf_in f - kf_out f; len = (if l < len then l else len)
      in kfifo_copy_out f len (kf_out f))"

section \<open>The FIFO as a queue\<close>

definition kf_n :: "kfifo \<Rightarrow> nat" where
  "kf_n f = unat (kf_size f)"

definition kf_count :: "kfifo \<Rightarrow> nat" where
  "kf_count f = unat (kf_in f - kf_out f)"

definition kf_pos :: "kfifo \<Rightarrow> nat" where
  "kf_pos f = unat (kf_out f) mod kf_n f"

definition kf_contents :: "kfifo \<Rightarrow> rt_uint8 list" where
  "kf_contents f = cyc_list (kf_n f) (kf_pos f) (kf_count f) (kf_buffer f)"

text \<open>The size is a power of two, the buffer has it, and the indices are no further apart.\<close>

definition kf_inv :: "kfifo \<Rightarrow> bool" where
  "kf_inv f \<longleftrightarrow> kf_size f \<noteq> 0 \<and> kf_size f AND (kf_size f - 1) = 0 \<and> kf_mask f = kf_size f - 1 \<and>
     kf_n f \<le> length (kf_buffer f) \<and> kf_count f \<le> kf_n f"

text \<open>A word without a bit in common with its predecessor is a power of two.\<close>

lemma and_minus_1_power:
  fixes w :: rt_uint32
  assumes "w \<noteq> 0" "w AND (w - 1) = 0"
  obtains k where "k < 32" "w = 2 ^ k" "w - 1 = mask k"
proof -
  have "\<not> (bit w i \<and> bit (w - 1) i)" for i
    using arg_cong[OF assms(2), of "\<lambda>v. bit v i"] by (simp add: bit_and_iff)
  then have "w = w AND NOT (w - 1)" by (intro bit_word_eqI) (auto simp: bit_and_iff bit_not_iff)
  also have "\<dots> = (0 - w) AND w" by (simp add: minus_eq_not_minus_1 and.commute)
  also have "\<dots> = push_bit (rt_ffs w - 1) 1" by (rule isolate_lowest[OF assms(1)])
  finally have "w = 2 ^ (rt_ffs w - 1)" by (simp add: push_bit_of_1)
  moreover from this have "w - 1 = mask (rt_ffs w - 1)" by (metis mask_eq_decr_exp)
  moreover have "rt_ffs w - 1 < 32" using rt_ffs_bounds(1,2)[OF assms(1)] by linarith
  ultimately show ?thesis using that by blast
qed

lemma kf_mask_mod:
  assumes "kf_inv f"
  shows "unat (w AND (kf_size f - 1)) = unat w mod kf_n f" "0 < kf_n f" "kf_n f dvd 2 ^ 32"
proof -
  obtain k where k: "k < 32" "kf_size f = 2 ^ k" "kf_size f - 1 = mask k"
    using assms and_minus_1_power unfolding kf_inv_def by blast
  have "(2 :: nat) ^ k < 2 ^ 32" using k(1) by (intro power_strict_increasing) auto
  then have "unat (of_nat (2 ^ k) :: rt_uint32) = 2 ^ k" by (subst unat_of_nat, intro mod_less) simp
  then have n: "kf_n f = 2 ^ k" using k(2) by (simp add: kf_n_def)
  show "unat (w AND (kf_size f - 1)) = unat w mod kf_n f"
    unfolding k(3) n take_bit_eq_mask[symmetric] unsigned_take_bit_eq by (rule take_bit_nat_def)
  show "0 < kf_n f" using n by simp
  show "kf_n f dvd 2 ^ 32" unfolding n by (rule le_imp_power_dvd) (use k(1) in simp)
qed


lemma kf_sizes:
  assumes "kf_inv f"
  shows "kf_pos f < kf_n f" "kf_count f \<le> kf_n f" "kf_n f \<le> length (kf_buffer f)" "kf_n f < 2 ^ 32"
    "unat (kf_size f) = kf_n f"
    "unat (kf_out f AND (kf_size f - 1)) = kf_pos f"
    "unat (kf_in f AND (kf_size f - 1)) = cyc (kf_n f) (kf_pos f) (kf_count f)"
    "unat (kf_size f - kf_in f + kf_out f) = kf_n f - kf_count f"
proof -
  note m = kf_mask_mod[OF assms]
  show "kf_pos f < kf_n f" using m(2) by (simp add: kf_pos_def)
  show c: "kf_count f \<le> kf_n f" "kf_n f \<le> length (kf_buffer f)" using assms by (auto simp: kf_inv_def)
  show "kf_n f < 2 ^ 32" unfolding kf_n_def by (rule unat32_less)
  show "unat (kf_size f) = kf_n f" by (simp add: kf_n_def)
  show "unat (kf_out f AND (kf_size f - 1)) = kf_pos f" by (simp add: m(1) kf_pos_def)
  have "unat (kf_out f + (kf_in f - kf_out f)) = (unat (kf_out f) + kf_count f) mod 2 ^ 32"
    unfolding kf_count_def unat_word_ariths(1) by simp
  then have "unat (kf_in f) mod kf_n f = (unat (kf_out f) + kf_count f) mod 2 ^ 32 mod kf_n f" by simp
  also have "\<dots> = (unat (kf_out f) + kf_count f) mod kf_n f" by (rule mod_mod_cancel[OF m(3)])
  also have "\<dots> = (kf_pos f + kf_count f) mod kf_n f" by (simp add: kf_pos_def mod_add_left_eq)
  also have "\<dots> = cyc (kf_n f) (kf_pos f) (kf_count f)" by (rule cyc_mod[symmetric]) fact+
  finally show "unat (kf_in f AND (kf_size f - 1)) = cyc (kf_n f) (kf_pos f) (kf_count f)" by (simp add: m(1))
  have "kf_in f - kf_out f \<le> kf_size f" using c(1) by (simp add: word_le_nat_alt kf_n_def kf_count_def)
  then have "unat (kf_size f - (kf_in f - kf_out f)) = kf_n f - kf_count f"
    by (simp add: unat_sub kf_n_def kf_count_def)
  then show "unat (kf_size f - kf_in f + kf_out f) = kf_n f - kf_count f" by (simp add: algebra_simps)
qed

lemma unat_min: "unat (min a b :: 'a::len word) = min (unat a) (unat b)"
  by (simp add: min_def word_le_nat_alt)

lemma kf_invI:
  assumes "kf_inv f" "kf_size g = kf_size f" "kf_mask g = kf_mask f" "length (kf_buffer g) = length (kf_buffer f)"
    "kf_count g \<le> kf_n f"
  shows "kf_inv g"
  using assms by (simp add: kf_inv_def kf_n_def)

lemma kfifo_put_spec:
  assumes inv: "kf_inv f" and len: "unat len \<le> length src"
  defines "k \<equiv> min (unat len) (kf_n f - length (kf_contents f))"
  shows "\<exists>g. kfifo_put src len f = (g, of_nat k) \<and> kf_inv g \<and> kf_n g = kf_n f \<and>
    kf_contents g = kf_contents f @ take k src"
proof -
  note z = kf_sizes[OF inv]
  let ?n = "kf_n f" and ?c = "kf_count f" and ?w = "cyc (kf_n f) (kf_pos f) (kf_count f)"
  have k: "k = min (unat len) (?n - ?c)" "k \<le> length src" "?c + k \<le> ?n"
    using len z(2) by (auto simp: k_def kf_contents_def)
  define m where "m = min len (kf_size f - kf_in f + kf_out f)"
  have m: "unat m = k" by (simp add: m_def unat_min z(8) k(1))
  have w: "?w < ?n" using z(1,2) by (rule cyc_less)
  let ?pos = "kf_in f AND (kf_size f - 1)"
  have l: "unat (min m (kf_size f - ?pos)) = min k (?n - ?w)"
    using w by (simp add: unat_min m unat_sub word_le_nat_alt z(5,7))
  have r: "unat (m - min m (kf_size f - ?pos)) = k - min k (?n - ?w)"
    by (subst unat_sub) (simp_all add: l m del: min_less_iff_conj)
  define g where "g = f\<lparr>kf_buffer := cyc_write ?n ?w (take k src) (kf_buffer f), kf_in := kf_in f + m\<rparr>"
  have "kfifo_put src len f = (g, m)"
    unfolding kfifo_put_def Let_def m_def[symmetric] l r z(7) put_copies[OF w k(2)] g_def by (rule refl)
  moreover have "m = of_nat k" using m by (rule word_eq_of_unat)
  moreover have cg: "kf_count g = ?c + k"
  proof -
    have "kf_count g = unat ((kf_in f - kf_out f) + m)" by (simp add: kf_count_def g_def algebra_simps)
    also have "\<dots> = unat (kf_in f - kf_out f) + unat m"
      using k(3) z(4) m by (intro unat_add_lem[THEN iffD1]) (simp add: kf_count_def)
    finally show ?thesis by (simp add: kf_count_def m)
  qed
  moreover have n: "kf_n g = ?n" "kf_pos g = kf_pos f" by (simp_all add: kf_n_def kf_pos_def g_def)
  moreover have "kf_inv g"
    by (rule kf_invI[OF inv]) (use k z(3) w cg in \<open>simp_all add: g_def\<close>)
  moreover have "kf_contents g = kf_contents f @ take k src"
    using cyc_list_write[OF z(1), of ?c "take k src" "kf_buffer f"] k z(3) unfolding kf_contents_def n cg
    by (simp add: g_def)
  ultimately show ?thesis by blast
qed

lemma kfifo_get_spec:
  assumes inv: "kf_inv f"
  shows "\<exists>g. kfifo_get len f = (g, take (unat len) (kf_contents f)) \<and> kf_inv g \<and> kf_n g = kf_n f \<and>
    kf_contents g = drop (unat len) (kf_contents f)"
proof -
  note z = kf_sizes[OF inv]
  let ?n = "kf_n f" and ?c = "kf_count f" and ?r = "kf_pos f"
  define m where "m = min len (kf_in f - kf_out f)"
  define k where "k = min (unat len) ?c"
  have m: "unat m = k" by (simp add: m_def unat_min k_def kf_count_def)
  have k: "k \<le> ?n" "k \<le> ?c" using z(2) by (auto simp: k_def)
  let ?pos = "kf_out f AND (kf_size f - 1)"
  have l: "unat (min m (kf_size f - ?pos)) = min k (?n - ?r)"
    using z(1) by (simp add: unat_min m unat_sub word_le_nat_alt z(5,6))
  have r: "unat (m - min m (kf_size f - ?pos)) = k - min k (?n - ?r)"
    by (subst unat_sub) (simp_all add: l m del: min_less_iff_conj)
  define g where "g = f\<lparr>kf_out := kf_out f + m\<rparr>"
  have "kfifo_get len f = (g, cyc_list ?n ?r k (kf_buffer f))"
    unfolding kfifo_get_def Let_def m_def[symmetric] l r z(6) get_copies[OF z(1) k(1) z(3)] g_def by (rule refl)
  moreover have "cyc_list ?n ?r k (kf_buffer f) = take (unat len) (kf_contents f)"
    unfolding kf_contents_def by (subst cyc_list_take[OF k(2), symmetric]) (simp add: k_def min_def)
  moreover have cg: "kf_count g = ?c - k"
  proof -
    have "m \<le> kf_in f - kf_out f" by (simp add: m_def)
    moreover have "kf_count g = unat ((kf_in f - kf_out f) - m)" by (simp add: kf_count_def g_def algebra_simps)
    ultimately show ?thesis by (simp add: unat_sub m kf_count_def)
  qed
  moreover have n: "kf_n g = ?n" by (simp add: kf_n_def g_def)
  moreover have pg: "kf_pos g = cyc ?n ?r k"
  proof -
    have "unat (kf_out f + m) mod ?n = (unat (kf_out f) + k) mod 2 ^ 32 mod ?n"
      unfolding unat_word_ariths(1) m by simp
    also have "\<dots> = (unat (kf_out f) + k) mod ?n" by (rule mod_mod_cancel[OF kf_mask_mod(3)[OF inv]])
    also have "\<dots> = (?r + k) mod ?n" by (simp add: kf_pos_def mod_add_left_eq)
    finally show ?thesis using cyc_mod[OF z(1) k(1)] n by (simp add: kf_pos_def g_def)
  qed
  moreover have "kf_inv g"
    by (rule kf_invI[OF inv]) (use z(2) cg in \<open>simp_all add: g_def\<close>)
  moreover have "kf_contents g = drop (unat len) (kf_contents f)"
  proof -
    have "kf_contents g = drop k (kf_contents f)"
      unfolding kf_contents_def n cg pg cyc_list_drop[OF z(1) k(2) z(2)] by (simp add: g_def)
    then show ?thesis by (simp add: k_def min_def kf_contents_def)
  qed
  ultimately show ?thesis by metis
qed

lemma kf_contents_length: "length (kf_contents f) = kf_count f"
  by (simp add: kf_contents_def)

lemma kfifo_put_full:
  assumes "kf_inv f" "length (kf_contents f) = kf_n f"
  shows "kfifo_put src len f = (f, 0)"
proof -
  have "unat (kf_size f - kf_in f + kf_out f) = 0" using kf_sizes(8)[OF assms(1)] assms(2) by (simp add: kf_contents_length)
  then have "kf_size f - kf_in f + kf_out f = 0" by (simp add: unat_eq_zero)
  then show ?thesis by (simp add: kfifo_put_def Let_def)
qed

lemma kfifo_get_empty: "kf_contents f = [] \<Longrightarrow> kfifo_get len f = (f, [])"
proof -
  assume "kf_contents f = []"
  then have "kf_in f - kf_out f = 0" using kf_contents_length[of f] by (simp add: kf_count_def unat_eq_zero)
  then show ?thesis by (simp add: kfifo_get_def Let_def)
qed

section \<open>The contract\<close>

definition kf_write :: "rt_uint8 list \<Rightarrow> kfifo \<Rightarrow> kfifo \<times> nat" where
  "kf_write xs f = map_prod id unat (kfifo_put xs (of_nat (length xs)) f)"

definition kf_read :: "nat \<Rightarrow> kfifo \<Rightarrow> kfifo \<times> rt_uint8 list" where
  "kf_read k f = kfifo_get (of_nat k) f"

lemma unat_len32: "k < 2 ^ 32 \<Longrightarrow> unat (of_nat k :: rt_uint32) = k"
  by (subst unat_of_nat, rule mod_less) simp

interpretation kf: block_fifo kf_inv kf_n kf_contents kf_write kf_read "2 ^ 32 - 1"
proof
  fix f :: kfifo and xs :: "rt_uint8 list" and k :: nat
  assume i: "kf_inv f"
  show "length (kf_contents f) \<le> kf_n f" using kf_sizes(2)[OF i] by (simp add: kf_contents_length)
  show "\<exists>g. kf_write xs f = (g, min (length xs) (kf_n f - length (kf_contents f))) \<and> kf_inv g \<and> kf_n g = kf_n f \<and>
      kf_contents g = kf_contents f @ take (kf_n f - length (kf_contents f)) xs" if "length xs \<le> 2 ^ 32 - 1"
  proof -
    let ?k = "min (length xs) (kf_n f - length (kf_contents f))"
    have u: "unat (of_nat (length xs) :: rt_uint32) = length xs" "unat (of_nat ?k :: rt_uint32) = ?k"
      using that by (intro unat_len32, simp)+
    show ?thesis using kfifo_put_spec[OF i, of "of_nat (length xs)" xs] u
      by (fastforce simp: kf_write_def min_def)
  qed
  show "\<exists>g. kf_read k f = (g, take k (kf_contents f)) \<and> kf_inv g \<and> kf_n g = kf_n f \<and> kf_contents g = drop k (kf_contents f)"
    if "k \<le> 2 ^ 32 - 1"
    using kfifo_get_spec[OF i, of "of_nat k"] that unat_len32[of k] by (simp add: kf_read_def)
qed simp

section \<open>Properties\<close>

text \<open>A FIFO of a size that is a power of two is created empty; any other size fails the check.\<close>

theorem kfifo_init_ok:
  assumes "0 < unat sz" "unat sz \<le> length buffer"
  shows "kfifo_init True buffer sz = None \<or>
    (\<exists>f. kfifo_init True buffer sz = Some (Some f) \<and> kf_inv f \<and> kf_n f = unat sz \<and> kf_contents f = [])"
  using assms by (auto simp: kfifo_init_def kf_inv_def kf_n_def kf_count_def kf_contents_def RT_ASSERT_def)

text \<open>C26. Whatever blocks are put and got, in whatever order, every put accepts and every get
  returns exactly what it would on a queue bounded by the size, also when an index runs past 32 bits.\<close>

theorem kfifo_is_queue:
  assumes "kf_inv f" "\<forall>b \<in> set ops. block_len b \<le> 2 ^ 32 - 1"
  shows "\<exists>rs g. run_calls (block_step kf_write kf_read) ops f = (rs, g) \<and> kf_inv g \<and> kf_n g = kf_n f \<and>
    run_calls (queue_block (kf_n f)) ops (kf_contents f) = (rs, kf_contents g)"
  using kf.block_refines[OF assms] by (cases "run_calls (block_step kf_write kf_read) ops f") simp

text \<open>A FIFO of eight bytes whose indices are about to wrap.\<close>

definition kf_eight :: kfifo where
  "kf_eight = \<lparr>kf_in = 0xfffffffe, kf_out = 0xfffffffe, kf_mask = 7, kf_size = 8, kf_buffer = replicate 8 0\<rparr>"

lemma kf_eight: "kf_inv kf_eight" "kf_n kf_eight = 8" "kf_contents kf_eight = []"
  by (simp_all add: kf_inv_def kf_n_def kf_contents_def kf_count_def kf_eight_def)

text \<open>A put into the empty FIFO, one that finds only part of the room it wants, one that finds none, and
  gets until it is empty; the indices wrap in between.\<close>

theorem kfifo_is_queue_witness:
  "\<exists>g. run_calls (block_step kf_write kf_read)
       [Write [1, 2, 3, 4, 5], Write [6, 7, 8, 9, 10], Write [11], Read 3, Read 9, Read 1] kf_eight
     = ([Written 5, Written 3, Written 0, Bytes [1, 2, 3], Bytes [4, 5, 6, 7, 8], Bytes []], g) \<and> kf_contents g = []"
proof -
  let ?ops = "[Write [1, 2, 3, 4, 5], Write [6, 7, 8, 9, 10], Write [11], Read 3, Read 9, Read 1] :: rt_uint8 block_op list"
  have "run_calls (queue_block 8) ?ops [] =
      ([Written 5, Written 3, Written 0, Bytes [1, 2, 3], Bytes [4, 5, 6, 7, 8], Bytes []], [])"
    by code_simp
  moreover have "\<forall>b \<in> set ?ops. block_len b \<le> 2 ^ 32 - 1" by simp
  ultimately show ?thesis using kfifo_is_queue[OF kf_eight(1), of ?ops] by (simp only: kf_eight) auto
qed

text \<open>A peek returns what a get of the same length would, for every length.\<close>

theorem kfifo_peek_get:
  assumes "kf_inv f"
  shows "kfifo_out_peek len f = snd (kfifo_get len f)"
proof -
  have m: "kf_mask f = kf_size f - 1" using assms by (simp add: kf_inv_def)
  have "(if kf_in f - kf_out f < len then kf_in f - kf_out f else len) = min len (kf_in f - kf_out f)"
    by (auto simp: min_def not_less)
  then show ?thesis by (simp add: kfifo_out_peek_def kfifo_copy_out_def kfifo_get_def Let_def m)
qed

theorem kfifo_peek_get_witness:
  "kfifo_out_peek 5 (fst (kf_write [1, 2, 3] kf_eight)) = [1, 2, 3]"
proof -
  let ?f = "fst (kf_write [1, 2, 3] kf_eight)"
  have "kf_inv ?f" using kf.puts[OF kf_eight(1), of "[1, 2, 3]"] by auto
  moreover have "snd (kfifo_get 5 ?f) = [1, 2, 3]" by code_simp
  ultimately show ?thesis using kfifo_peek_get[of ?f 5] by simp
qed

text \<open>What is stored and what is free make up the size.\<close>

theorem kfifo_room:
  assumes "kf_inv f"
  shows "unat (kfifo_data_size f) = length (kf_contents f) \<and>
    unat (kfifo_unused f) = kf_n f - length (kf_contents f)"
proof -
  have "kfifo_unused f = kf_size f - kf_in f + kf_out f"
    using assms by (simp add: kfifo_unused_def kf_inv_def)
  then show ?thesis using kf_sizes(8)[OF assms] by (simp add: kfifo_data_size_def kf_contents_length kf_count_def)
qed

theorem kfifo_room_witness: "unat (kfifo_unused kf_eight) = 8"
  using kfifo_room[OF kf_eight(1)] kf_eight by simp

end
