(* ===== verification/Beken_Ring.thy ===== *)
theory Beken_Ring
  imports Rtt_Block_Fifo
begin

text \<open>
  The ring buffer of the audio driver (\<^verbatim>\<open>beken378/driver/audio/ring_buffer.c\<close>): a
  read and a write position that never meet from behind, because a write leaves
  \<^verbatim>\<open>RWP_SAFE_INTERVAL\<close> bytes free. A write is all or nothing. \<open>address\<close> is the memory
  the buffer points to; a read returns the bytes it copies to the caller. Shown: the buffer is a
  queue of bytes with room for its capacity less the interval, and what a reader sees that
  interrupts a write between its two copies.
\<close>

section \<open>Model\<close>

record rb_st =
  address :: "rt_uint8 list"
  capacity :: rt_uint32
  wp :: rt_uint32
  rp :: rt_uint32

definition RWP_SAFE_INTERVAL :: rt_uint32 where "RWP_SAFE_INTERVAL = 4"

definition rb_init :: "rt_uint8 list \<Rightarrow> rt_uint32 \<Rightarrow> rb_st" where
  "rb_init addr cap = \<lparr>address = addr, capacity = cap, wp = 0, rp = 0\<rparr>"

definition rb_clear :: "rb_st \<Rightarrow> rb_st" where
  "rb_clear rb = rb\<lparr>wp := 0, rp := 0\<rparr>"

text \<open>\<^verbatim>\<open>n\<close> bytes from position \<^verbatim>\<open>i\<close>.\<close>

definition rb_bytes :: "rb_st \<Rightarrow> rt_uint32 \<Rightarrow> rt_uint32 \<Rightarrow> rt_uint8 list" where
  "rb_bytes rb i n = take (unat n) (drop (unat i) (address rb))"

definition rb_read :: "rt_uint32 \<Rightarrow> rt_uint32 \<Rightarrow> rb_st \<Rightarrow> rb_st \<times> rt_uint8 list" where
  "rb_read sz count rb =
     (let required = sz * count; w = wp rb in
      if required = 0 then (rb, [])
      else if rp rb \<le> w then
        (let remain = w - rp rb in
         if remain < required then (rb\<lparr>rp := rp rb + remain\<rparr>, rb_bytes rb (rp rb) remain)
         else (rb\<lparr>rp := rp rb + required\<rparr>, rb_bytes rb (rp rb) required))
      else
        (let remain = capacity rb - rp rb in
         if remain < required then
           (if w < required - remain
            then (rb\<lparr>rp := w\<rparr>, rb_bytes rb (rp rb) remain @ rb_bytes rb 0 w)
            else (rb\<lparr>rp := required - remain\<rparr>, rb_bytes rb (rp rb) remain @ rb_bytes rb 0 (required - remain)))
         else (rb\<lparr>rp := rp rb + required\<rparr>, rb_bytes rb (rp rb) required)))"

text \<open>A write up to where its position is moved: \<open>None\<close> when it is refused, else the
  buffer and the bytes still to be copied to its start. The copy of the rest and the move of a
  position at the end to the start follow.\<close>

definition rb_write_head :: "rt_uint8 list \<Rightarrow> rt_uint32 \<Rightarrow> rb_st \<Rightarrow> (rb_st \<times> rt_uint8 list) option" where
  "rb_write_head src n rb =
     (let r = rp rb; w = wp rb in
      if r \<le> w then
        (if n + RWP_SAFE_INTERVAL \<le> capacity rb - w + r then
           (let remain = capacity rb - w in
            if n \<le> remain
            then Some (rb\<lparr>address := blit (unat w) (take (unat n) src) (address rb), wp := w + n\<rparr>, [])
            else Some (rb\<lparr>address := blit (unat w) (take (unat remain) src) (address rb), wp := n - remain\<rparr>,
                       take (unat (n - remain)) (drop (unat remain) src)))
         else None)
      else if n + RWP_SAFE_INTERVAL \<le> r - w
        then Some (rb\<lparr>address := blit (unat w) (take (unat n) src) (address rb), wp := w + n\<rparr>, [])
        else None)"

definition rb_write_tail :: "rt_uint8 list \<Rightarrow> rb_st \<Rightarrow> rb_st" where
  "rb_write_tail rest rb =
     (let rb = rb\<lparr>address := blit 0 rest (address rb)\<rparr> in
      if capacity rb \<le> wp rb \<and> rp rb \<noteq> 0 then rb\<lparr>wp := 0\<rparr> else rb)"

definition rb_write :: "rt_uint8 list \<Rightarrow> rt_uint32 \<Rightarrow> rt_uint32 \<Rightarrow> rb_st \<Rightarrow> rb_st \<times> rt_uint32" where
  "rb_write src sz count rb =
     (let n = sz * count in
      if n = 0 then (rb, 0)
      else (case rb_write_head src n rb of None \<Rightarrow> (rb, 0)
        | Some (rb, rest) \<Rightarrow> (rb_write_tail rest rb, n)))"

definition rb_get_fill_size :: "rb_st \<Rightarrow> rt_uint32" where
  "rb_get_fill_size rb = (if rp rb \<le> wp rb then wp rb - rp rb else capacity rb - rp rb + wp rb)"

definition rb_get_free_size :: "rb_st \<Rightarrow> rt_uint32" where
  "rb_get_free_size rb =
     (let free = (if rp rb \<le> wp rb then capacity rb - wp rb + rp rb else rp rb - wp rb)
      in if RWP_SAFE_INTERVAL < free then free - RWP_SAFE_INTERVAL else 0)"

section \<open>The buffer as a queue\<close>

definition ar_n :: "rb_st \<Rightarrow> nat" where
  "ar_n rb = unat (capacity rb)"

definition ar_fill :: "rb_st \<Rightarrow> nat" where
  "ar_fill rb = (if rp rb \<le> wp rb then unat (wp rb) - unat (rp rb) else ar_n rb - unat (rp rb) + unat (wp rb))"

text \<open>The read position may be at the end.\<close>

definition ar_pos :: "rb_st \<Rightarrow> nat" where
  "ar_pos rb = (if unat (rp rb) = ar_n rb then 0 else unat (rp rb))"

definition ar_contents :: "rb_st \<Rightarrow> rt_uint8 list" where
  "ar_contents rb = cyc_list (ar_n rb) (ar_pos rb) (ar_fill rb) (address rb)"

definition ar_inv :: "rb_st \<Rightarrow> bool" where
  "ar_inv rb \<longleftrightarrow> 4 < ar_n rb \<and> ar_n rb \<le> length (address rb) \<and> unat (wp rb) < ar_n rb \<and>
     unat (rp rb) \<le> ar_n rb \<and> ar_fill rb + 4 \<le> ar_n rb"

lemma ar_simps [simp]:
  "ar_n (rb\<lparr>address := a\<rparr>) = ar_n rb" "ar_n (rb\<lparr>wp := w\<rparr>) = ar_n rb" "ar_n (rb\<lparr>rp := r\<rparr>) = ar_n rb"
  by (simp_all add: ar_n_def)

lemma length_ar_contents [simp]: "length (ar_contents rb) = ar_fill rb"
  by (simp add: ar_contents_def)

lemma wadd: "unat a + unat b < 2 ^ 32 \<Longrightarrow> unat (a + b :: rt_uint32) = unat a + unat b"
  using unat_add_lem[of a b] by simp

lemma ar_facts:
  assumes "ar_inv rb"
  shows "ar_pos rb < ar_n rb" "ar_fill rb \<le> ar_n rb" "ar_n rb \<le> length (address rb)" "ar_n rb < 2 ^ 32"
    "unat (capacity rb) = ar_n rb" "cyc (ar_n rb) (ar_pos rb) (ar_fill rb) = unat (wp rb)"
proof -
  show "ar_pos rb < ar_n rb" "ar_fill rb \<le> ar_n rb" "ar_n rb \<le> length (address rb)"
    "cyc (ar_n rb) (ar_pos rb) (ar_fill rb) = unat (wp rb)"
    using assms by (auto simp: ar_inv_def ar_pos_def ar_fill_def cyc_def word_le_nat_alt)
  show "ar_n rb < 2 ^ 32" unfolding ar_n_def by (rule unat32_less)
qed (simp add: ar_n_def)

lemma fill_size:
  assumes "ar_inv rb"
  shows "unat (rb_get_fill_size rb) = ar_fill rb" "unat (rb_get_free_size rb) = ar_n rb - 4 - ar_fill rb"
    "rp rb \<le> wp rb \<Longrightarrow> unat (capacity rb - wp rb + rp rb) = ar_n rb - ar_fill rb"
    "\<not> rp rb \<le> wp rb \<Longrightarrow> unat (rp rb - wp rb) = ar_n rb - ar_fill rb"
proof -
  note f = ar_facts[OF assms]
  have i: "unat (wp rb) < ar_n rb" "unat (rp rb) \<le> ar_n rb" using assms by (auto simp: ar_inv_def)
  have s: "unat (capacity rb - rp rb) = ar_n rb - unat (rp rb)" "unat (capacity rb - wp rb) = ar_n rb - unat (wp rb)"
    using i by (simp_all add: unat_sub word_le_nat_alt f(5))
  show "unat (rb_get_fill_size rb) = ar_fill rb"
    using i f(4) s by (auto simp: rb_get_fill_size_def ar_fill_def unat_sub word_le_nat_alt wadd)
  show a: "unat (capacity rb - wp rb + rp rb) = ar_n rb - ar_fill rb" if "rp rb \<le> wp rb"
    using that i f(4) s by (subst wadd) (auto simp: ar_fill_def word_le_nat_alt)
  show b: "unat (rp rb - wp rb) = ar_n rb - ar_fill rb" if "\<not> rp rb \<le> wp rb"
    using that i by (subst unat_sub) (auto simp: ar_fill_def word_le_nat_alt)
  define free where "free = (if rp rb \<le> wp rb then capacity rb - wp rb + rp rb else rp rb - wp rb)"
  have "unat free = ar_n rb - ar_fill rb" using a b by (simp add: free_def)
  then show "unat (rb_get_free_size rb) = ar_n rb - 4 - ar_fill rb"
    unfolding rb_get_free_size_def free_def[symmetric] Let_def RWP_SAFE_INTERVAL_def
    by (auto simp: unat_sub word_le_nat_alt word_less_nat_alt)
qed

text \<open>A buffer whose positions tell the same queue.\<close>

lemma ar_read_from:
  assumes inv: "ar_inv rb" and k: "k \<le> ar_fill rb" and g: "g = rb\<lparr>rp := r\<rparr>"
    and m: "m = (if unat (rp rb) \<le> unat (wp rb) \<or> k \<le> ar_n rb - unat (rp rb) then unat (rp rb) + k
      else k - (ar_n rb - unat (rp rb)))"
    and r: "unat r = m \<or> m = ar_n rb \<and> unat r = 0"
  shows "ar_inv g \<and> ar_n g = ar_n rb \<and> ar_contents g = drop k (ar_contents rb)"
proof -
  note f = ar_facts[OF inv]
  have i: "unat (wp rb) < ar_n rb" "unat (rp rb) \<le> ar_n rb" "ar_fill rb + 4 \<le> ar_n rb" "4 < ar_n rb" using inv by (auto simp: ar_inv_def)
  have fg: "ar_fill g = ar_fill rb - k"
    using i k m r by (auto simp: g ar_fill_def word_le_nat_alt split: if_splits)
  have pg: "ar_pos g = cyc (ar_n rb) (ar_pos rb) k"
    using i k m r by (auto simp: g ar_fill_def ar_pos_def cyc_def word_le_nat_alt split: if_splits)
  have "unat r \<le> ar_n rb" using i k m r by (auto simp: ar_fill_def word_le_nat_alt split: if_splits)
  then have "ar_inv g" using i f(3) fg by (auto simp: ar_inv_def g)
  moreover have "ar_contents g = drop k (ar_contents rb)"
    unfolding ar_contents_def fg pg cyc_list_drop[OF f(1) k f(2)] by (simp add: g)
  ultimately show ?thesis by (simp add: g)
qed

lemma ar_bytes:
  assumes inv: "ar_inv rb" and k: "k \<le> ar_fill rb"
  shows "unat (rp rb) \<le> unat (wp rb) \<or> k \<le> ar_n rb - unat (rp rb) \<Longrightarrow>
      take k (drop (unat (rp rb)) (address rb)) = take k (ar_contents rb)"
    "\<not> (unat (rp rb) \<le> unat (wp rb) \<or> k \<le> ar_n rb - unat (rp rb)) \<Longrightarrow>
      take (ar_n rb - unat (rp rb)) (drop (unat (rp rb)) (address rb)) @ take (k - (ar_n rb - unat (rp rb))) (address rb)
        = take k (ar_contents rb)"
proof -
  note f = ar_facts[OF inv]
  have i: "unat (wp rb) < ar_n rb" "unat (rp rb) \<le> ar_n rb" using inv by (auto simp: ar_inv_def)
  have e: "take k (ar_contents rb) = cyc_list (ar_n rb) (ar_pos rb) k (address rb)"
    unfolding ar_contents_def by (rule cyc_list_take[OF k])
  have kn: "k \<le> ar_n rb" using k f(2) by linarith
  {
    assume "unat (rp rb) \<le> unat (wp rb) \<or> k \<le> ar_n rb - unat (rp rb)"
    then have r: "unat (rp rb) + k \<le> ar_n rb" using i k by (auto simp: ar_fill_def word_le_nat_alt split: if_splits)
    show "take k (drop (unat (rp rb)) (address rb)) = take k (ar_contents rb)"
      unfolding e using r f(3) by (intro nth_equalityI) (auto simp: cyc_def ar_pos_def)
  }
  assume "\<not> (unat (rp rb) \<le> unat (wp rb) \<or> k \<le> ar_n rb - unat (rp rb))"
  then show "take (ar_n rb - unat (rp rb)) (drop (unat (rp rb)) (address rb)) @ take (k - (ar_n rb - unat (rp rb))) (address rb)
      = take k (ar_contents rb)"
    unfolding e using i kn f(3)
    by (intro nth_equalityI) (auto simp: cyc_def ar_pos_def nth_append add.commute)
qed

lemma rb_read_spec:
  assumes inv: "ar_inv rb"
  shows "\<exists>g. rb_read sz count rb = (g, take (unat (sz * count)) (ar_contents rb)) \<and> ar_inv g \<and> ar_n g = ar_n rb \<and>
    ar_contents g = drop (unat (sz * count)) (ar_contents rb)"
proof -
  note f = ar_facts[OF inv]
  define q where "q = sz * count"
  let ?n = "ar_n rb" and ?r = "unat (rp rb)" and ?w = "unat (wp rb)"
  define k where "k = min (unat q) (ar_fill rb)"
  have i: "?w < ?n" "?r \<le> ?n" "?n < 2 ^ 32" using inv f(4) by (auto simp: ar_inv_def)
  have tk: "take (unat q) (ar_contents rb) = take k (ar_contents rb)" "drop (unat q) (ar_contents rb) = drop k (ar_contents rb)"
    by (auto simp: k_def min_def)
  have kf: "k \<le> ar_fill rb" by (simp add: k_def)
  note b = ar_bytes[OF inv kf]
  have rem: "unat (capacity rb - rp rb) = ?n - ?r" using i(2) by (simp add: unat_sub word_le_nat_alt f(5))
  let ?m = "if ?r \<le> ?w \<or> k \<le> ?n - ?r then ?r + k else k - (?n - ?r)"
  have fwd: "\<exists>r. (rb\<lparr>rp := rp rb + x\<rparr>, rb_bytes rb (rp rb) x) = (rb\<lparr>rp := r\<rparr>, take k (ar_contents rb)) \<and>
      (unat r = ?m \<or> ?m = ?n \<and> unat r = 0)" if "unat x = k" "?r \<le> ?w \<or> k \<le> ?n - ?r" for x
  proof -
    have "?r + k \<le> ?n" using that(2) i(1,2) kf by (auto simp: ar_fill_def word_le_nat_alt split: if_splits)
    then have "unat (rp rb + x) = ?r + k" using i(3) that(1) by (subst wadd) auto
    then show ?thesis using that b(1) by (auto simp: rb_bytes_def)
  qed
  have "\<exists>r. rb_read sz count rb = (rb\<lparr>rp := r\<rparr>, take k (ar_contents rb)) \<and>
      (unat r = ?m \<or> ?m = ?n \<and> unat r = 0)"
  proof (cases "q = 0")
    case True
    then have "rb_read sz count rb = (rb\<lparr>rp := rp rb\<rparr>, take k (ar_contents rb))"
      by (simp add: rb_read_def q_def[symmetric] k_def)
    then show ?thesis using True i(2) by (intro exI[of _ "rp rb"]) (auto simp: k_def)
  next
    case nz: False
    show ?thesis
    proof (cases "rp rb \<le> wp rb")
      case le: True
      then have "unat (wp rb - rp rb) = ar_fill rb" by (simp add: unat_sub ar_fill_def)
      then have "unat (if wp rb - rp rb < q then wp rb - rp rb else q) = k"
        by (auto simp: k_def word_less_nat_alt)
      note f = fwd[OF this]
      have "?r \<le> ?w" using le by (simp add: word_le_nat_alt)
      then show ?thesis using f nz le by (simp add: rb_read_def q_def[symmetric] Let_def split: if_splits)
    next
      case gt: False
      then have fl: "ar_fill rb = ?n - ?r + ?w" "\<not> ?r \<le> ?w" by (auto simp: ar_fill_def word_le_nat_alt)
      show ?thesis
      proof (cases "capacity rb - rp rb < q")
        case False
        then have "unat q = k" "k \<le> ?n - ?r" using rem fl by (auto simp: k_def word_less_nat_alt)
        then show ?thesis using fwd[of q] False nz gt by (simp add: rb_read_def q_def[symmetric] Let_def)
      next
        case True
        then have lt: "?n - ?r < unat q" using rem by (simp add: word_less_nat_alt)
        have qr: "unat (q - (capacity rb - rp rb)) = unat q - (?n - ?r)"
          using True by (simp add: unat_sub rem)
        have e: "rb_read sz count rb = (let y = (if wp rb < q - (capacity rb - rp rb) then wp rb else q - (capacity rb - rp rb))
            in (rb\<lparr>rp := y\<rparr>, take (?n - ?r) (drop ?r (address rb)) @ take (unat y) (address rb)))"
          using nz gt True by (simp add: rb_read_def q_def[symmetric] Let_def rb_bytes_def rem)
        define y where "y = (if wp rb < q - (capacity rb - rp rb) then wp rb else q - (capacity rb - rp rb))"
        have y: "unat y = k - (?n - ?r)" "?n - ?r \<le> k"
          using fl lt qr by (auto simp: y_def k_def word_less_nat_alt)
        show ?thesis
        proof (cases "k = ?n - ?r")
          case True
          then have "unat y = 0" using y by simp
          then show ?thesis using True b(1) i(2) unfolding e y_def[symmetric] Let_def by (intro exI[of _ y]) auto
        next
          case False
          then show ?thesis using b(2) y fl(2) unfolding e y_def[symmetric] Let_def by (intro exI[of _ y]) auto
        qed
      qed
    qed
  qed
  then show ?thesis using ar_read_from[OF inv kf refl refl] unfolding q_def[symmetric] tk by metis
qed

lemma ar_write_to:
  assumes inv: "ar_inv rb" and src: "length src + 4 + ar_fill rb \<le> ar_n rb"
    and g: "g = rb\<lparr>address := cyc_write (ar_n rb) (unat (wp rb)) src (address rb), wp := w\<rparr>"
    and w: "unat w = cyc (ar_n rb) (unat (wp rb)) (length src)"
  shows "ar_inv g \<and> ar_n g = ar_n rb \<and> ar_contents g = ar_contents rb @ src"
proof -
  note f = ar_facts[OF inv]
  have i: "unat (wp rb) < ar_n rb" "unat (rp rb) \<le> ar_n rb" "ar_fill rb + 4 \<le> ar_n rb" "4 < ar_n rb" using inv by (auto simp: ar_inv_def)
  have fg: "ar_fill g = ar_fill rb + length src" "ar_pos g = ar_pos rb"
    using i w src by (auto simp: g ar_fill_def ar_pos_def cyc_def word_le_nat_alt split: if_splits)
  have wn: "unat w < ar_n rb" unfolding w using i(1) src by (intro cyc_less) auto
  have "ar_inv g" using i f(3) fg wn src by (auto simp: ar_inv_def g)
  moreover have "ar_contents g = ar_contents rb @ src"
    using cyc_list_write[OF f(1), of "ar_fill rb" src "address rb"] src f(3)
    unfolding ar_contents_def fg f(6) by (simp add: g)
  ultimately show ?thesis by (simp add: g)
qed

lemma rb_write_head_spec:
  assumes inv: "ar_inv rb" and ov: "unat q + 4 < 2 ^ 32"
  defines "n \<equiv> ar_n rb" and "w \<equiv> unat (wp rb)"
  shows "if unat q + 4 + ar_fill rb \<le> n then
      \<exists>h. rb_write_head src q rb =
          Some (rb\<lparr>address := blit w (take (min (unat q) (n - w)) src) (address rb), wp := h\<rparr>,
                take (unat q - (n - w)) (drop (n - w) src)) \<and>
        unat h = (if unat q \<le> n - w then w + unat q else unat q - (n - w)) \<and>
        (unat h = n \<longrightarrow> rp rb \<noteq> 0)
    else rb_write_head src q rb = None"
proof -
  note f = ar_facts[OF inv]
  have i: "w < n" "unat (rp rb) \<le> n" "ar_fill rb \<le> n" using inv f(2) by (auto simp: ar_inv_def n_def w_def)
  have q4: "unat (q + RWP_SAFE_INTERVAL) = unat q + 4"
    unfolding RWP_SAFE_INTERVAL_def using ov by (subst wadd) simp_all
  have rem: "unat (capacity rb - wp rb) = n - w"
    using i by (simp add: unat_sub word_le_nat_alt f(5) n_def w_def)
  have wq: "unat (wp rb + q) = w + unat q" if "w + unat q \<le> n"
    using that f(4) by (subst wadd) (simp_all add: w_def n_def)
  show ?thesis
  proof (cases "rp rb \<le> wp rb")
    case le: True
    have g: "q + RWP_SAFE_INTERVAL \<le> capacity rb - wp rb + rp rb \<longleftrightarrow> unat q + 4 + ar_fill rb \<le> n"
      unfolding word_le_nat_alt q4 fill_size(3)[OF inv le] using i(3) by (simp add: n_def) linarith
    have lw: "unat (rp rb) \<le> w" and fl: "ar_fill rb = w - unat (rp rb)" using le by (auto simp: word_le_nat_alt w_def ar_fill_def)
    show ?thesis
    proof (cases "unat q \<le> n - w")
      case True
      then have "q \<le> capacity rb - wp rb" "w + unat q \<le> n" using rem i(1) by (auto simp: word_le_nat_alt)
      moreover have "rp rb \<noteq> 0" if "w + unat q = n" "unat q + 4 + ar_fill rb \<le> n" using that fl by auto
      ultimately show ?thesis using le g True wq
        by (auto simp: rb_write_head_def Let_def w_def[symmetric] intro!: exI[of _ "wp rb + q"])
    next
      case False
      then have "\<not> q \<le> capacity rb - wp rb" "capacity rb - wp rb \<le> q" using rem by (auto simp: word_le_nat_alt)
      moreover from this have "unat (q - (capacity rb - wp rb)) = unat q - (n - w)" by (simp add: unat_sub rem)
      moreover have "unat q - (n - w) \<noteq> n" if "unat q + 4 + ar_fill rb \<le> n" using that i(1) False by linarith
      ultimately show ?thesis using le g False rem
        by (auto simp: rb_write_head_def Let_def w_def[symmetric] min_def intro!: exI[of _ "q - (capacity rb - wp rb)"])
    qed
  next
    case gt: False
    have g: "q + RWP_SAFE_INTERVAL \<le> rp rb - wp rb \<longleftrightarrow> unat q + 4 + ar_fill rb \<le> n"
      unfolding word_le_nat_alt q4 fill_size(4)[OF inv gt] using i(3) by (simp add: n_def) linarith
    have "w < unat (rp rb)" and "ar_fill rb = n - unat (rp rb) + w" using gt by (auto simp: word_le_nat_alt w_def ar_fill_def n_def)
    then have "w + unat q < n \<and> unat q \<le> n - w" if "unat q + 4 + ar_fill rb \<le> n" using that i by linarith
    then show ?thesis using gt g wq by (auto simp: rb_write_head_def Let_def w_def[symmetric])
  qed
qed

lemma rb_write_spec:
  assumes inv: "ar_inv rb" and len: "unat (sz * count) \<le> length src" and ov: "unat (sz * count) + 4 < 2 ^ 32"
  shows "if unat (sz * count) + 4 + ar_fill rb \<le> ar_n rb then
      \<exists>g. rb_write src sz count rb = (g, sz * count) \<and> ar_inv g \<and> ar_n g = ar_n rb \<and>
        ar_contents g = ar_contents rb @ take (unat (sz * count)) src
    else rb_write src sz count rb = (rb, 0)"
proof -
  note f = ar_facts[OF inv]
  define q where "q = sz * count"
  let ?n = "ar_n rb" and ?w = "unat (wp rb)"
  have w: "?w < ?n" using inv by (simp add: ar_inv_def)
  note h = rb_write_head_spec[OF inv ov[folded q_def], of src]
  show ?thesis
  proof (cases "q = 0")
    case True
    moreover have "4 + ar_fill rb \<le> ?n" using inv by (simp add: ar_inv_def)
    ultimately show ?thesis using inv by (auto simp: rb_write_def q_def[symmetric])
  next
    case nz: False
    show ?thesis
    proof (cases "unat q + 4 + ar_fill rb \<le> ?n")
      case False
      then show ?thesis using h nz by (simp add: rb_write_def q_def[symmetric])
    next
      case True
      then obtain h where h: "rb_write_head src q rb =
          Some (rb\<lparr>address := blit ?w (take (min (unat q) (?n - ?w)) src) (address rb), wp := h\<rparr>,
                take (unat q - (?n - ?w)) (drop (?n - ?w) src))"
        "unat h = (if unat q \<le> ?n - ?w then ?w + unat q else unat q - (?n - ?w))" "unat h = ?n \<Longrightarrow> rp rb \<noteq> 0"
        using h by auto
      let ?src = "take (unat q) src"
      have lsrc: "length ?src = unat q" using len by (simp add: q_def)
      define v where "v = (if unat h = ?n then 0 else h)"
      have "rb_write src sz count rb =
          (rb\<lparr>address := cyc_write ?n ?w ?src (address rb), wp := v\<rparr>, q)"
      proof -
        have "blit 0 (take (unat q - (?n - ?w)) (drop (?n - ?w) src)) (blit ?w (take (min (unat q) (?n - ?w)) src) (address rb))
          = cyc_write ?n ?w ?src (address rb)"
          using put_copies[OF w, of "unat q" src "address rb"] len by (cases "unat q \<le> ?n - ?w") (auto simp: q_def min_def)
        moreover have "unat h \<le> ?n" using h(2) True w by auto
        then have "capacity rb \<le> h \<longleftrightarrow> unat h = ?n" by (auto simp: word_le_nat_alt f(5))
        ultimately show ?thesis using nz h(1,3) by (auto simp: rb_write_def q_def[symmetric] rb_write_tail_def Let_def v_def)
      qed
      moreover have "unat v = cyc ?n ?w (length ?src)"
        using h(2) True w unfolding v_def lsrc by (auto simp: cyc_def)
      ultimately show ?thesis using ar_write_to[OF inv _ refl, of ?src v] True lsrc by (simp add: q_def)
    qed
  qed
qed

lemma rb_write_cases:
  assumes "ar_inv rb" "unat (sz * count) \<le> length src" "unat (sz * count) + 4 < 2 ^ 32"
  obtains g where "unat (sz * count) + 4 + ar_fill rb \<le> ar_n rb" "rb_write src sz count rb = (g, sz * count)"
    "ar_inv g" "ar_n g = ar_n rb" "ar_contents g = ar_contents rb @ take (unat (sz * count)) src"
  | "\<not> unat (sz * count) + 4 + ar_fill rb \<le> ar_n rb" "rb_write src sz count rb = (rb, 0)"
  using rb_write_spec[OF assms] by (cases "unat (sz * count) + 4 + ar_fill rb \<le> ar_n rb") auto

section \<open>The contract\<close>

definition ar_put :: "rt_uint8 \<Rightarrow> rb_st \<Rightarrow> rb_st \<times> bool" where
  "ar_put x rb = (case rb_write [x] 1 1 rb of (rb, n) \<Rightarrow> (rb, n \<noteq> 0))"

definition ar_get :: "rb_st \<Rightarrow> rb_st \<times> rt_uint8 option" where
  "ar_get rb = (case rb_read 1 1 rb of (rb, xs) \<Rightarrow> (rb, case xs of [] \<Rightarrow> None | x # _ \<Rightarrow> Some x))"

interpretation ar: fifo ar_inv "\<lambda>rb. ar_n rb - 4" ar_contents ar_put ar_get
proof
  fix rb :: rb_st and x :: rt_uint8 and xs
  assume i: "ar_inv rb"
  have f: "ar_fill rb + 4 \<le> ar_n rb" using i by (simp add: ar_inv_def)
  have one: "unat (1 * 1 :: rt_uint32) \<le> length [x]" "unat (1 * 1 :: rt_uint32) + 4 < 2 ^ 32" by simp_all
  note r = rb_read_spec[OF i, of 1 1]
  show "length (ar_contents rb) \<le> ar_n rb - 4" using f by simp
  show "\<exists>g. ar_put x rb = (g, True) \<and> ar_inv g \<and> ar_n g - 4 = ar_n rb - 4 \<and> ar_contents g = ar_contents rb @ [x]"
    if "length (ar_contents rb) < ar_n rb - 4"
    by (rule rb_write_cases[OF i one]) (use that in \<open>auto simp: ar_put_def\<close>)
  show "\<exists>g. ar_put x rb = (g, False) \<and> ar_inv g \<and> ar_n g - 4 = ar_n rb - 4 \<and> ar_contents g = ar_contents rb"
    if "length (ar_contents rb) = ar_n rb - 4"
    by (rule rb_write_cases[OF i one]) (use that i f in \<open>auto simp: ar_put_def\<close>)
  show "\<exists>g. ar_get rb = (g, Some x) \<and> ar_inv g \<and> ar_n g - 4 = ar_n rb - 4 \<and> ar_contents g = xs"
    if "ar_contents rb = x # xs"
    using r that by (auto simp: ar_get_def)
  show "\<exists>g. ar_get rb = (g, None) \<and> ar_inv g \<and> ar_n g - 4 = ar_n rb - 4 \<and> ar_contents g = []"
    if "ar_contents rb = []"
    using r that by (auto simp: ar_get_def)
qed

section \<open>Properties\<close>

text \<open>A write stores the whole block behind the data when it fits and leaves
  \<^verbatim>\<open>RWP_SAFE_INTERVAL\<close> bytes free, and else nothing.\<close>

theorem audio_write:
  assumes "ar_inv rb" "unat (sz * count) \<le> length src" "unat (sz * count) + 4 < 2 ^ 32"
  shows "if unat (sz * count) \<le> unat (rb_get_free_size rb) then
      \<exists>g. rb_write src sz count rb = (g, sz * count) \<and> ar_inv g \<and> ar_contents g = ar_contents rb @ take (unat (sz * count)) src
    else rb_write src sz count rb = (rb, 0)"
proof -
  have "ar_fill rb + 4 \<le> ar_n rb" using assms(1) by (simp add: ar_inv_def)
  then have "unat (sz * count) \<le> unat (rb_get_free_size rb) \<longleftrightarrow> unat (sz * count) + 4 + ar_fill rb \<le> ar_n rb"
    unfolding fill_size(2)[OF assms(1)] by linarith
  note e = this
  show ?thesis
  proof (rule rb_write_cases[OF assms])
    fix g
    assume "unat (sz * count) + 4 + ar_fill rb \<le> ar_n rb" "rb_write src sz count rb = (g, sz * count)"
      "ar_inv g" "ar_contents g = ar_contents rb @ take (unat (sz * count)) src"
    then show ?thesis unfolding e by simp
  qed (simp add: e)
qed

text \<open>A buffer of sixteen bytes whose positions are near the end.\<close>

definition ar_sixteen :: rb_st where
  "ar_sixteen = \<lparr>address = replicate 16 0, capacity = 16, wp = 13, rp = 13\<rparr>"

lemma ar_sixteen: "ar_inv ar_sixteen" "ar_n ar_sixteen = 16" "ar_contents ar_sixteen = []"
  by (simp_all add: ar_inv_def ar_n_def ar_contents_def ar_fill_def ar_sixteen_def)

theorem audio_write_witness:
  "\<exists>g. rb_write [1, 2, 3, 4, 5, 6] 2 3 ar_sixteen = (g, 6) \<and> ar_inv g \<and> ar_contents g = [1, 2, 3, 4, 5, 6]"
proof -
  have "unat (rb_get_free_size ar_sixteen) = 12" by code_simp
  then show ?thesis using audio_write[OF ar_sixteen(1), of 2 3 "[1, 2, 3, 4, 5, 6]"] ar_sixteen(3) by simp
qed

text \<open>A read takes as much as was asked for and is there, from the front.\<close>

theorem audio_read:
  assumes "ar_inv rb"
  shows "\<exists>g. rb_read sz count rb = (g, take (unat (sz * count)) (ar_contents rb)) \<and> ar_inv g \<and>
    ar_contents g = drop (unat (sz * count)) (ar_contents rb)"
  using rb_read_spec[OF assms] by blast

theorem audio_read_witness:
  "\<exists>g. rb_read 1 4 (fst (rb_write [1, 2, 3, 4, 5, 6] 2 3 ar_sixteen)) = (g, [1, 2, 3, 4]) \<and> ar_contents g = [5, 6]"
proof -
  obtain rb where rb: "rb_write [1, 2, 3, 4, 5, 6] 2 3 ar_sixteen = (rb, 6)" "ar_inv rb" "ar_contents rb = [1, 2, 3, 4, 5, 6]"
  proof (rule rb_write_cases[OF ar_sixteen(1), of 2 3 "[1, 2, 3, 4, 5, 6]"])
  qed (use that ar_sixteen in \<open>simp_all add: ar_fill_def ar_sixteen_def\<close>)
  show ?thesis using audio_read[OF rb(2), of 1 4] rb by auto
qed

text \<open>A write that goes around the end moves its position before it copies the second part: a
  reader that comes between finds the old bytes of the start of the buffer in place of it.\<close>

theorem audio_write_overtaken:
  assumes "ar_inv rb" "unat n \<le> length src" "unat n + 4 + ar_fill rb \<le> ar_n rb"
    and "ar_n rb - unat (wp rb) < unat n"
  shows "\<exists>h rest. rb_write_head src n rb = Some (h, rest) \<and>
    ar_contents h = ar_contents rb @ take (ar_n rb - unat (wp rb)) src @
      take (unat n - (ar_n rb - unat (wp rb))) (address rb)"
proof -
  note f = ar_facts[OF assms(1)]
  let ?n = "ar_n rb" and ?w = "unat (wp rb)"
  let ?old = "take (unat n - (?n - ?w)) (address rb)" and ?new = "take (?n - ?w) src"
  have w: "?w < ?n" using assms(1) by (simp add: ar_inv_def)
  have "unat n + 4 < 2 ^ 32" using assms(3) f(4) by linarith
  from rb_write_head_spec[OF assms(1) this, of src] obtain h where
    h: "rb_write_head src n rb = Some (rb\<lparr>address := blit ?w ?new (address rb), wp := h\<rparr>, take (unat n - (?n - ?w)) (drop (?n - ?w) src))"
      "unat h = unat n - (?n - ?w)"
    using assms(3,4) by (auto simp: min_def)
  let ?src = "?new @ ?old"
  have l: "length ?old = unat n - (?n - ?w)" "length ?new = ?n - ?w" "length ?src = unat n"
    using assms(2,3,4) f(3) w by auto
  have "take (unat n - (?n - ?w)) (blit ?w ?new (address rb)) = ?old"
    using assms(3,4) f(3) w by (simp add: blit_def)
  then have "blit 0 ?old (blit ?w ?new (address rb)) = blit ?w ?new (address rb)"
    using l(1) by (metis append_take_drop_id append_Nil blit_def take_0 add_0)
  then have e: "cyc_write ?n ?w ?src (address rb) = blit ?w ?new (address rb)"
    using l(2,3) assms(4) by (simp add: cyc_write_def)
  have "unat h = cyc ?n ?w (length ?src)" unfolding l(3) using h(2) assms(4) w by (auto simp: cyc_def add.commute)
  then show ?thesis using ar_write_to[OF assms(1) _ refl, of ?src h] l(3) assms(3) h(1) by (simp add: e)
qed

theorem audio_write_overtaken_witness:
  "\<exists>h rest. rb_write_head [1, 2, 3, 4, 5, 6] 6 ar_sixteen = Some (h, rest) \<and> ar_contents h = [1, 2, 3] @ replicate 3 0"
proof -
  have "ar_fill ar_sixteen = 0" "wp ar_sixteen = 13" "address ar_sixteen = replicate 16 0"
    by (simp_all add: ar_fill_def ar_sixteen_def)
  then show ?thesis using audio_write_overtaken[OF ar_sixteen(1), of 6 "[1, 2, 3, 4, 5, 6]"] ar_sixteen
    by simp
qed

end
