(* ===== verification/Beken_Base64.thy ===== *)
theory Beken_Base64
  imports Rtt_Prelude
begin

text \<open>
  Base64 (\<^verbatim>\<open>beken378/func/base64/base_64.c\<close>). A buffer is the list of its bytes;
  \<open>out\<close> says whether the caller gave one to write to. Shown: decoding an encoded block
  gives the block back, and the length computed beforehand is enough for the encoding.
\<close>

section \<open>Encoding\<close>

definition base_64_table :: "rt_uint8 list" where
  "base_64_table = map of_char ''ABCDEFGHIJKLMNOPQRSTUVWXYZabcdefghijklmnopqrstuvwxyz0123456789+/''"

abbreviation (input) PAD :: rt_uint8 where "PAD \<equiv> 61"
abbreviation (input) NL :: rt_uint8 where "NL \<equiv> 10"

definition base64_calc_encode_length :: "rt_uint32 \<Rightarrow> rt_uint32" where
  "base64_calc_encode_length src_len =
     (let enc_len = src_len * 4 div 3 + 4; enc_len = enc_len + enc_len div 72 in enc_len + 1)"

definition digit64 :: "rt_uint8 \<Rightarrow> rt_uint8" where
  "digit64 v = base_64_table ! unat v"

text \<open>The loop over the blocks of three bytes, the block of one or two at the end, and the line
  feeds; the argument is \<^verbatim>\<open>line_len\<close>.\<close>

fun encode_loop :: "nat \<Rightarrow> rt_uint8 list \<Rightarrow> rt_uint8 list" where
  "encode_loop line_len (a # b # c # rest) =
     [digit64 (drop_bit 2 a), digit64 (push_bit 4 (a AND 3) OR drop_bit 4 b),
      digit64 (push_bit 2 (b AND 15) OR drop_bit 6 c), digit64 (c AND 63)] @
     (if 72 \<le> line_len + 4 then NL # encode_loop 0 rest else encode_loop (line_len + 4) rest)"
| "encode_loop line_len [a, b] =
     [digit64 (drop_bit 2 a), digit64 (push_bit 4 (a AND 3) OR drop_bit 4 b),
      digit64 (push_bit 2 (b AND 15)), PAD, NL]"
| "encode_loop line_len [a] = [digit64 (drop_bit 2 a), digit64 (push_bit 4 (a AND 3)), PAD, PAD, NL]"
| "encode_loop line_len [] = (if line_len \<noteq> 0 then [NL] else [])"

text \<open>What is written to the buffer, the terminator included, and the length reported.\<close>

definition base64_encode :: "bool \<Rightarrow> rt_uint8 list \<Rightarrow> (rt_uint8 list \<times> nat) option" where
  "base64_encode out src =
     (if \<not> out then None else (let text = encode_loop 0 src in Some (text @ [0], length text)))"

section \<open>Decoding\<close>

definition dtable :: "rt_uint8 list" where
  "dtable = (fold (\<lambda>i d. d[unat (base_64_table ! i) := of_nat i]) [0..<64] (replicate 256 0x80))[unat PAD := 0]"

definition value64 :: "rt_uint8 \<Rightarrow> rt_uint8" where
  "value64 c = dtable ! unat c"

definition count_valid :: "rt_uint8 list \<Rightarrow> nat" where
  "count_valid src = length (filter (\<lambda>c. value64 c \<noteq> 0x80) src)"

text \<open>\<open>mem\<close>: whether the table can be allocated.\<close>

definition base64_calc_decode_length :: "bool \<Rightarrow> rt_uint8 list \<Rightarrow> nat" where
  "base64_calc_decode_length mem src =
     (if \<not> mem then 0 else if count_valid src mod 4 \<noteq> 0 then 0 else count_valid src)"

record decoder =
  d_in :: "rt_uint8 list"
  d_block :: "rt_uint8 list"
  d_count :: nat
  d_out :: "rt_uint8 list"

definition decode_step :: "rt_uint8 \<Rightarrow> decoder \<Rightarrow> decoder" where
  "decode_step c d =
     (let tmp = value64 c in
      if tmp = 0x80 then d
      else
        (let d = d\<lparr>d_in := (d_in d)[d_count d := c], d_block := (d_block d)[d_count d := tmp],
               d_count := d_count d + 1\<rparr>; b = d_block d in
         if d_count d = 4
         then d\<lparr>d_out := d_out d @ [push_bit 2 (b ! 0) OR drop_bit 4 (b ! 1),
                  push_bit 4 (b ! 1) OR drop_bit 2 (b ! 2), push_bit 6 (b ! 2) OR b ! 3],
                d_count := 0\<rparr>
         else d))"

definition decode_finish :: "decoder \<Rightarrow> rt_uint8 list" where
  "decode_finish d =
     (if d_out d = [] then []
      else if d_in d ! 2 = PAD then take (length (d_out d) - 2) (d_out d)
      else if d_in d ! 3 = PAD then take (length (d_out d) - 1) (d_out d)
      else d_out d)"

text \<open>The value returned, what is stored in \<^verbatim>\<open>*out_len\<close>, if anything, and the bytes
  the caller gets. The arrays \<^verbatim>\<open>in\<close> and \<^verbatim>\<open>block\<close> start undefined and are not
  read before they are filled.\<close>

definition base64_decode :: "bool \<Rightarrow> bool \<Rightarrow> rt_uint8 list \<Rightarrow> nat \<times> nat option \<times> rt_uint8 list" where
  "base64_decode mem out src =
     (if \<not> mem then (0, Some 0, [])
      else if count_valid src mod 4 \<noteq> 0 then (0, None, [])
      else if \<not> out then (0, Some (count_valid src * 3 div 4), [])
      else
        (let d = fold decode_step src \<lparr>d_in = replicate 4 0, d_block = replicate 4 0, d_count = 0, d_out = []\<rparr>;
             bytes = decode_finish d
         in (1, Some (length bytes), bytes)))"

section \<open>The digits\<close>

text \<open>The digits of a block are kept as the code writes them.\<close>

declare push_bit_and [simp del] push_bit_or [simp del] drop_bit_and [simp del] drop_bit_or [simp del]

lemma table_eq: "base_64_table =
     [65, 66, 67, 68, 69, 70, 71, 72, 73, 74, 75, 76, 77, 78, 79, 80, 81, 82, 83, 84, 85, 86,
      87, 88, 89, 90, 97, 98, 99, 100, 101, 102, 103, 104, 105, 106, 107, 108, 109, 110, 111,
      112, 113, 114, 115, 116, 117, 118, 119, 120, 121, 122, 48, 49, 50, 51, 52, 53, 54, 55, 56,
      57, 43, 47]"
  unfolding base_64_table_def by code_simp

lemma table_facts: "length base_64_table = 64" "distinct base_64_table" "PAD \<notin> set base_64_table" "NL \<notin> set base_64_table"
  unfolding table_eq by simp_all

definition fill_table :: "nat \<Rightarrow> rt_uint8 list" where
  "fill_table n = fold (\<lambda>i d. d[unat (base_64_table ! i) := of_nat i]) [0..<n] (replicate 256 0x80)"

lemma fill_table_Suc: "fill_table (Suc n) = (fill_table n)[unat (base_64_table ! n) := of_nat n]"
  by (simp add: fill_table_def)

lemma length_fill_table [simp]: "length (fill_table n) = 256"
  by (induction n) (simp_all add: fill_table_Suc, simp add: fill_table_def)

lemma unat8: "unat (c :: rt_uint8) < 256"
  using unsigned_less[of c] by simp

lemma fill_table_at: "i < n \<Longrightarrow> n \<le> 64 \<Longrightarrow> fill_table n ! unat (base_64_table ! i) = of_nat i"
proof (induction n)
  case (Suc n)
  have "base_64_table ! n = base_64_table ! i \<longleftrightarrow> n = i"
    using Suc.prems table_facts(1,2) by (simp add: nth_eq_iff_index_eq)
  then show ?case using Suc unat8 by (cases "i = n") (auto simp: fill_table_Suc nth_list_update word_unat_eq_iff)
qed simp

lemma fill_table_other: "c \<notin> set base_64_table \<Longrightarrow> n \<le> 64 \<Longrightarrow> fill_table n ! unat c = 0x80"
proof (induction n)
  case 0
  then show ?case using unat8 by (simp add: fill_table_def)
next
  case (Suc n)
  then have "base_64_table ! n \<noteq> c" using table_facts(1) by (metis Suc_le_eq nth_mem)
  then show ?case using Suc by (simp add: fill_table_Suc nth_list_update word_unat_eq_iff)
qed

lemma value64_fill: "value64 c = (if c = PAD then 0 else fill_table 64 ! unat c)"
proof -
  have d: "dtable = (fill_table 64)[unat PAD := 0]" by (simp add: dtable_def fill_table_def)
  show ?thesis unfolding value64_def d using unat8[of c] by (auto simp: nth_list_update word_unat_eq_iff)
qed

lemma digit_value:
  assumes "unat v < 64"
  shows "value64 (digit64 v) = v" "digit64 v \<noteq> PAD"
proof -
  show p: "digit64 v \<noteq> PAD" unfolding digit64_def using assms table_facts(1,3) by (metis nth_mem)
  then show "value64 (digit64 v) = v" using fill_table_at[OF assms] by (simp add: value64_fill digit64_def)
qed

lemma special_values: "value64 PAD = 0" "value64 NL = 0x80"
  using fill_table_other[OF table_facts(4)] by (simp_all add: value64_fill)

lemma value_valid:
  assumes "unat v < 64"
  shows "value64 (digit64 v) \<noteq> 0x80"
proof
  assume "value64 (digit64 v) = 0x80"
  then have "unat v = 128" by (simp add: digit_value(1)[OF assms])
  then show False using assms by simp
qed

lemma small_digits [simp]:
  "unat (drop_bit 2 (a :: rt_uint8)) < 64" "unat (push_bit 4 (a AND 3) OR drop_bit 4 (b :: rt_uint8)) < 64"
  "unat (push_bit 2 (b AND 15) OR drop_bit 6 (c :: rt_uint8)) < 64" "unat (c AND 63) < 64"
  "unat (push_bit 4 (a AND 3)) < 64" "unat (push_bit 2 (b AND 15)) < 64"
proof -
  have less: "unat v < 64" if "\<And>i. bit v i \<Longrightarrow> i < 6" for v :: rt_uint8
  proof -
    have "v = take_bit 6 v" by (rule bit_word_eqI) (auto simp: bit_simps dest: that)
    then have "unat v = unat (take_bit 6 v)" by (rule arg_cong)
    also have "\<dots> = take_bit 6 (unat v)" by (rule unsigned_take_bit_eq)
    also have "\<dots> < 2 ^ 6" by (rule take_bit_nat_less_exp)
    finally show ?thesis by simp
  qed
  have m: "(3 :: rt_uint8) = mask 2" "(15 :: rt_uint8) = mask 4" "(63 :: rt_uint8) = mask 6"
    by (simp_all add: mask_eq_exp_minus_1)
  show "unat (drop_bit 2 (a :: rt_uint8)) < 64" "unat (push_bit 4 (a AND 3) OR drop_bit 4 (b :: rt_uint8)) < 64"
    "unat (push_bit 2 (b AND 15) OR drop_bit 6 (c :: rt_uint8)) < 64" "unat (c AND 63) < 64"
    "unat (push_bit 4 (a AND 3)) < 64" "unat (push_bit 2 (b AND 15)) < 64"
    unfolding m by (rule less, auto simp: bit_simps dest: bit_imp_le_length)+
qed

lemma small_not [simp]: "drop_bit 2 (a :: rt_uint8) \<noteq> 128" "push_bit 4 (a AND 3) OR drop_bit 4 (b :: rt_uint8) \<noteq> 128"
  "push_bit 2 (b AND 15) OR drop_bit 6 (c :: rt_uint8) \<noteq> 128" "c AND 63 \<noteq> 128"
  "push_bit 4 (a AND 3) \<noteq> 128" "push_bit 2 (b AND 15) \<noteq> 128"
  using value_valid digit_value(1) small_digits by metis+

text \<open>The bytes of a block from its digits.\<close>

lemma byte_eqI:
  fixes x y :: rt_uint8
  assumes "bit x 0 = bit y 0" "bit x 1 = bit y 1" "bit x 2 = bit y 2" "bit x 3 = bit y 3"
    "bit x 4 = bit y 4" "bit x 5 = bit y 5" "bit x 6 = bit y 6" "bit x 7 = bit y 7"
  shows "x = y"
proof (rule bit_word_eqI)
  fix n assume "n < LENGTH(8)"
  then have "n = 0 \<or> n = 1 \<or> n = 2 \<or> n = 3 \<or> n = 4 \<or> n = 5 \<or> n = 6 \<or> n = 7" by auto
  then show "bit x n = bit y n" using assms by fastforce
qed

lemma digits_bytes:
  fixes a b c :: rt_uint8
  shows "push_bit 2 (drop_bit 2 a) OR drop_bit 4 (push_bit 4 (a AND 3) OR drop_bit 4 b) = a"
    "push_bit 4 (push_bit 4 (a AND 3) OR drop_bit 4 b) OR drop_bit 2 (push_bit 2 (b AND 15) OR drop_bit 6 c) = b"
    "push_bit 6 (push_bit 2 (b AND 15) OR drop_bit 6 c) OR (c AND 63) = c"
    "push_bit 2 (drop_bit 2 a) OR drop_bit 4 (push_bit 4 (a AND 3)) = a"
    "push_bit 4 (push_bit 4 (a AND 3) OR drop_bit 4 b) OR drop_bit 2 (push_bit 2 (b AND 15)) = b"
proof -
  have m: "(3 :: rt_uint8) = mask 2" "(15 :: rt_uint8) = mask 4" "(63 :: rt_uint8) = mask 6"
    by (simp_all add: mask_eq_exp_minus_1)
  have o: "\<not> bit (v :: rt_uint8) n" if "8 \<le> n" for v n using that by (auto dest: bit_imp_le_length)
  show "push_bit 2 (drop_bit 2 a) OR drop_bit 4 (push_bit 4 (a AND 3) OR drop_bit 4 b) = a"
    "push_bit 4 (push_bit 4 (a AND 3) OR drop_bit 4 b) OR drop_bit 2 (push_bit 2 (b AND 15) OR drop_bit 6 c) = b"
    "push_bit 6 (push_bit 2 (b AND 15) OR drop_bit 6 c) OR (c AND 63) = c"
    "push_bit 2 (drop_bit 2 a) OR drop_bit 4 (push_bit 4 (a AND 3)) = a"
    "push_bit 4 (push_bit 4 (a AND 3) OR drop_bit 4 b) OR drop_bit 2 (push_bit 2 (b AND 15)) = b"
    unfolding m by (rule byte_eqI, simp_all add: bit_simps o)+
qed

section \<open>The round trip\<close>

text \<open>Every digit and the pad count, the line feed does not.\<close>

lemma count_valid_simps [simp]:
  "count_valid [] = 0" "count_valid (PAD # cs) = Suc (count_valid cs)" "count_valid (NL # cs) = count_valid cs"
  "unat v < 64 \<Longrightarrow> count_valid (digit64 v # cs) = Suc (count_valid cs)"
  by (simp_all add: count_valid_def special_values value_valid)

lemma blocks_Suc: "(length (a # b # c # rest) + 2) div 3 = Suc ((length rest + 2) div 3)"
  by simp

lemma count_encode: "count_valid (encode_loop l src) = 4 * ((length src + 2) div 3)"
proof (induction l src rule: encode_loop.induct)
  case (1 l a b c rest)
  then show ?case unfolding blocks_Suc by simp
qed simp_all

text \<open>Four characters are a block.\<close>

lemma decode_block:
  assumes "d_count d = 0" "length (d_in d) = 4" "length (d_block d) = 4"
    "value64 p \<noteq> 0x80" "value64 q \<noteq> 0x80" "value64 r \<noteq> 0x80" "value64 t \<noteq> 0x80"
  shows "fold decode_step [p, q, r, t] d =
    d\<lparr>d_in := [p, q, r, t], d_block := [value64 p, value64 q, value64 r, value64 t], d_count := 0,
      d_out := d_out d @ [push_bit 2 (value64 p) OR drop_bit 4 (value64 q),
        push_bit 4 (value64 q) OR drop_bit 2 (value64 r), push_bit 6 (value64 r) OR value64 t]\<rparr>"
proof -
  obtain x0 x1 x2 x3 where x: "d_in d = [x0, x1, x2, x3]" using assms(2) by (auto simp: length_Suc_conv eval_nat_numeral)
  obtain y0 y1 y2 y3 where y: "d_block d = [y0, y1, y2, y3]" using assms(3) by (auto simp: length_Suc_conv eval_nat_numeral)
  show ?thesis using assms(1,4-7) x y by (simp add: decode_step_def Let_def eval_nat_numeral)
qed

lemma decode_newline: "decode_step NL d = d"
  by (simp add: decode_step_def special_values)

lemma fold_newline: "fold decode_step [NL] d = d"
  by (simp add: decode_newline)

definition at_block :: "decoder \<Rightarrow> bool" where
  "at_block d \<longleftrightarrow> d_count d = 0 \<and> length (d_in d) = 4 \<and> length (d_block d) = 4 \<and>
     (d_out d = [] \<or> d_in d ! 2 \<noteq> PAD \<and> d_in d ! 3 \<noteq> PAD)"

lemma decode_encode_loop:
  "at_block d \<Longrightarrow> decode_finish (fold decode_step (encode_loop l src) d) = d_out d @ src"
proof (induction l src arbitrary: d rule: encode_loop.induct)
  case (1 l a b c rest)
  let ?quad = "[digit64 (drop_bit 2 a), digit64 (push_bit 4 (a AND 3) OR drop_bit 4 b),
      digit64 (push_bit 2 (b AND 15) OR drop_bit 6 c), digit64 (c AND 63)]"
  let ?d = "fold decode_step ?quad d"
  note q = decode_block[of d "digit64 (drop_bit 2 a)" "digit64 (push_bit 4 (a AND 3) OR drop_bit 4 b)"
      "digit64 (push_bit 2 (b AND 15) OR drop_bit 6 c)" "digit64 (c AND 63)"]
  have d: "d_out ?d = d_out d @ [a, b, c]" "at_block ?d"
    using q 1(3) by (simp_all add: at_block_def value_valid digit_value digits_bytes del: fold.simps)
  show ?case
  proof (cases "72 \<le> l + 4")
    case True
    then have "encode_loop l (a # b # c # rest) = ?quad @ NL # encode_loop 0 rest" by simp
    then show ?thesis using 1(1)[OF True d(2)] d(1) by (simp only: fold_append fold.simps comp_def decode_newline) simp
  next
    case False
    then have "encode_loop l (a # b # c # rest) = ?quad @ encode_loop (l + 4) rest" by simp
    then show ?thesis using 1(2)[OF False d(2)] d(1) by (simp only: fold_append comp_def) simp
  qed
next
  case (2 l a b)
  note q = decode_block[of d "digit64 (drop_bit 2 a)" "digit64 (push_bit 4 (a AND 3) OR drop_bit 4 b)"
      "digit64 (push_bit 2 (b AND 15))" PAD]
  have "encode_loop l [a, b] = [digit64 (drop_bit 2 a), digit64 (push_bit 4 (a AND 3) OR drop_bit 4 b),
      digit64 (push_bit 2 (b AND 15)), PAD] @ [NL]" by simp
  then show ?case
    using q 2 by (simp only: fold_append) (simp add: at_block_def value_valid digit_value digits_bytes special_values
      fold_newline decode_finish_def del: fold.simps(2))
next
  case (3 l a)
  note q = decode_block[of d "digit64 (drop_bit 2 a)" "digit64 (push_bit 4 (a AND 3))" PAD PAD]
  have "encode_loop l [a] = [digit64 (drop_bit 2 a), digit64 (push_bit 4 (a AND 3)), PAD, PAD] @ [NL]" by simp
  then show ?case
    using q 3 by (simp only: fold_append) (simp add: at_block_def value_valid digit_value digits_bytes special_values
      fold_newline decode_finish_def del: fold.simps(2))
next
  case (4 l)
  then show ?case by (auto simp: at_block_def decode_finish_def decode_newline)
qed

section \<open>Properties\<close>

text \<open>C30. Decoding an encoded block gives the block back, whatever its length.\<close>

theorem base64_roundtrip:
  "\<exists>text. base64_encode True src = Some (text @ [0], length text) \<and>
     base64_decode True True text = (1, Some (length src), src)"
proof -
  let ?d = "\<lparr>d_in = replicate 4 0, d_block = replicate 4 0, d_count = 0, d_out = []\<rparr>"
  have "at_block ?d" by (simp add: at_block_def)
  then have "decode_finish (fold decode_step (encode_loop 0 src) ?d) = src" using decode_encode_loop by simp
  then show ?thesis by (simp add: base64_encode_def base64_decode_def count_encode Let_def)
qed

text \<open>The length of an encoding.\<close>

lemma length_encode_loop:
  "l mod 4 = 0 \<Longrightarrow> l < 72 \<Longrightarrow> length (encode_loop l src) = (let q = 4 * ((length src + 2) div 3) in q + (l + q + 71) div 72)"
proof (induction l src rule: encode_loop.induct)
  case (1 l a b c rest)
  have s: "4 * ((length (a # b # c # rest) + 2) div 3) = 4 + 4 * ((length rest + 2) div 3)" unfolding blocks_Suc by simp
  show ?case
  proof (cases "72 \<le> l + 4")
    case True
    then have "l = 68" using 1(3,4) by presburger
    then show ?thesis using 1(1) True unfolding s by (simp add: Let_def)
  next
    case False
    then have "(l + 4) mod 4 = 0" using 1(3) by presburger
    then show ?thesis using 1(2) False unfolding s by (simp add: Let_def add.assoc)
  qed
next
  case (2 l a b)
  then have "l \<le> 68" by presburger
  then have "(75 + l) div 72 = 1" by (intro div_nat_eqI) simp_all
  then show ?case by (simp add: Let_def)
next
  case (3 l a)
  then have "l \<le> 68" by presburger
  then have "(75 + l) div 72 = 1" by (intro div_nat_eqI) simp_all
  then show ?case by (simp add: Let_def)
next
  case (4 l)
  then have "0 < l \<Longrightarrow> (l + 71) div 72 = 1" by (intro div_nat_eqI) simp_all
  then show ?case by (simp add: Let_def)
qed

lemma unat_calc_length:
  assumes "n < 2 ^ 30"
  shows "unat (base64_calc_encode_length (of_nat n)) = (n * 4 div 3 + 4) + (n * 4 div 3 + 4) div 72 + 1"
proof -
  have add: "unat (x + y :: rt_uint32) = unat x + unat y" if "unat x + unat y < 2 ^ 32" for x y
    using that unat_add_lem[of x y] by simp
  let ?e = "n * 4 div 3 + 4"
  have n: "unat (of_nat n :: rt_uint32) = n" using assms by (subst unat_of_nat, intro mod_less) simp
  have le: "n * 4 div 3 \<le> 2 * n" by presburger
  have "unat (of_nat n * 4 :: rt_uint32) = n * 4"
    using assms n unat_mult_lem[of "of_nat n :: rt_uint32" 4] by simp
  then have d: "unat (of_nat n * 4 div 3 :: rt_uint32) = n * 4 div 3" by (simp add: unat_div)
  have e: "unat (of_nat n * 4 div 3 + 4 :: rt_uint32) = ?e" using assms le d by (subst add) simp_all
  have f: "unat ((of_nat n * 4 div 3 + 4) div 72 :: rt_uint32) = ?e div 72" using e by (simp add: unat_div)
  have g: "unat (of_nat n * 4 div 3 + 4 + (of_nat n * 4 div 3 + 4) div 72 :: rt_uint32) = ?e + ?e div 72"
    using assms le e f by (subst add) simp_all
  have "?e div 72 \<le> ?e" by simp
  then have "?e + ?e div 72 + 1 < 2 ^ 32" using assms le by simp
  then show ?thesis unfolding base64_calc_encode_length_def Let_def using g by (subst add) simp_all
qed

text \<open>The length computed beforehand is enough for the encoding with its line feeds and its
  terminator, for blocks of less than 2 to the power of 30 bytes.\<close>

theorem base64_length_enough:
  assumes "length src < 2 ^ 30"
  shows "\<exists>bytes n. base64_encode True src = Some (bytes, n) \<and>
    length bytes \<le> unat (base64_calc_encode_length (of_nat (length src)))"
proof -
  let ?q = "4 * ((length src + 2) div 3)" and ?e = "length src * 4 div 3 + 4"
  have "length (encode_loop 0 src) = ?q + (?q + 71) div 72" by (simp add: length_encode_loop Let_def)
  moreover have "?q + 1 \<le> ?e" by presburger
  then have "(?q + 71) div 72 \<le> (?e + 72) div 72" by (intro div_le_mono) simp
  then have "(?q + 71) div 72 \<le> ?e div 72 + 1" by simp
  ultimately show ?thesis unfolding unat_calc_length[OF assms] base64_encode_def Let_def
    using \<open>?q + 1 \<le> ?e\<close> by simp
qed

theorem base64_length_enough_witness:
  "\<exists>bytes n. base64_encode True [1, 2, 3, 4] = Some (bytes, n) \<and> length bytes \<le> 11"
proof -
  have "unat (base64_calc_encode_length (of_nat (length [1, 2, 3, 4 :: rt_uint8]))) = 10" by code_simp
  then show ?thesis using base64_length_enough[of "[1, 2, 3, 4]"] by fastforce
qed

end
