(* ===== verification/Beken_Utf8.thy ===== *)
theory Beken_Utf8
  imports Rtt_Prelude
begin

text \<open>
  Conversion between GB2312 and UTF-8 (\<^verbatim>\<open>beken378/func/utf8/conv_utf8.c\<close>). The two tables of
  \<^verbatim>\<open>conv_utf8_gb2312_table.h\<close> are arguments: \<open>t_gb\<close> with the three bytes of each
  character in the order of the GB2312 codes, \<open>t_uni\<close> with pairs of a Unicode and a GB2312 code, sorted
  by the first. A C string is the list of its bytes before the terminator. \<open>None\<close> is a read outside a
  table or a string, or a write outside the buffer; \<open>mem\<close> says whether the buffer can be
  allocated. Shown: the binary search finds what the table has; each conversion writes
  outside its buffer for exactly the texts the theorems name; otherwise the results are those of a
  reading character by character, and converting to UTF-8 and back gives the text.
\<close>

section \<open>From GB2312 to UTF-8\<close>

definition gb_index :: "rt_uint8 \<Rightarrow> rt_uint8 \<Rightarrow> rt_uint16" where
  "gb_index hi_bits low_bit =
     (let gb_code = push_bit 8 (ucast hi_bits) + ucast low_bit;
          dist_cnt = ucast (hi_bits - 0xB0);
          dist_cnt = dist_cnt * (0xA1 + 0x01)
      in gb_code - 0xB0A1 - dist_cnt)"

definition gb_lead :: "rt_uint8 \<Rightarrow> rt_uint8 \<Rightarrow> bool" where
  "gb_lead hi_bits low_bit \<longleftrightarrow> \<not> (hi_bits < 0xB0 \<or> 0xF7 < hi_bits) \<and> \<not> (low_bit < 0xA1 \<or> 0xFE < low_bit)"

text \<open>The result of the test, with the bytes to be copied when it is 1.\<close>

definition conv_utf8_for_gb2312 :: "rt_uint8 list list \<Rightarrow> rt_uint8 \<Rightarrow> rt_uint8 \<Rightarrow> rt_uint8 list option option" where
  "conv_utf8_for_gb2312 t_gb hi_bits low_bit =
     (if \<not> gb_lead hi_bits low_bit then Some None
      else if unat (gb_index hi_bits low_bit) < length t_gb then Some (Some (t_gb ! unat (gb_index hi_bits low_bit)))
      else None)"

text \<open>The loop: \<open>out\<close> is what was written to the buffer of \<open>len\<close> bytes.\<close>

function conv_loop :: "rt_uint8 list list \<Rightarrow> nat \<Rightarrow> rt_uint8 list \<Rightarrow> rt_uint8 list \<Rightarrow> rt_uint8 list option" where
  "conv_loop t_gb len out [] = (if length out < len then Some out else None)"
| "conv_loop t_gb len out (c # cs) = do {
     r \<leftarrow> conv_utf8_for_gb2312 t_gb c (if cs = [] then 0 else hd cs);
     (case r of
        Some us \<Rightarrow> if length out + 3 \<le> len then conv_loop t_gb len (out @ us) (tl cs) else None
      | None \<Rightarrow> if length out < len then conv_loop t_gb len (out @ [c]) cs else None)
   }"
  by pat_completeness auto
termination by (relation "measure (\<lambda>(_, _, _, cs). length cs)") auto

definition conv_utf8 :: "rt_uint8 list list \<Rightarrow> bool \<Rightarrow> rt_uint8 list \<Rightarrow> rt_uint8 list option option" where
  "conv_utf8 t_gb mem input =
     (let len = (length input div 2) * 3 + 1
      in if \<not> mem then Some None else map_option Some (conv_loop t_gb len [] input))"

section \<open>From UTF-8 to GB2312\<close>

function search_loop :: "(rt_uint16 \<times> rt_uint16) list \<Rightarrow> rt_uint16 \<Rightarrow> int \<Rightarrow> int \<Rightarrow> rt_uint16" where
  "search_loop t_uni unicodeKey first stop =
     (if first \<le> stop then
        (let mid = (first + stop) div 2
         in if fst (t_uni ! nat mid) = unicodeKey then snd (t_uni ! nat mid)
            else if unicodeKey < fst (t_uni ! nat mid) then search_loop t_uni unicodeKey first (mid - 1)
            else search_loop t_uni unicodeKey (mid + 1) stop)
      else 0)"
  by auto
termination by (relation "measure (\<lambda>(_, _, first, stop). nat (stop + 1 - first))") auto

declare search_loop.simps [simp del]

definition SearchCodeTable :: "(rt_uint16 \<times> rt_uint16) list \<Rightarrow> rt_uint16 \<Rightarrow> rt_uint16" where
  "SearchCodeTable t_uni unicodeKey = search_loop t_uni unicodeKey 0 (int (length t_uni) - 1)"

function count_loop :: "rt_uint8 \<Rightarrow> rt_uint8 \<Rightarrow> nat \<Rightarrow> nat" where
  "count_loop temp firstCh num = (if temp AND firstCh \<noteq> 0 then count_loop (drop_bit 1 temp) firstCh (num + 1) else num)"
  by auto
termination
proof (relation "measure (\<lambda>(temp, _, _). unat temp)")
  fix temp firstCh :: rt_uint8 and num :: nat
  assume "temp AND firstCh \<noteq> 0"
  then have "unat temp \<noteq> 0" by (auto simp: unat_eq_zero)
  moreover have "unat (drop_bit 1 temp) = drop_bit 1 (unat temp)" by (rule unat_drop_bit_eq)
  moreover have "drop_bit 1 (unat temp) = unat temp div 2" by (simp add: drop_bit_eq_div)
  ultimately have "unat (drop_bit 1 temp) < unat temp" by linarith
  then show "((drop_bit 1 temp, firstCh, num + 1), temp, firstCh, num) \<in> measure (\<lambda>(temp, _, _). unat temp)"
    by (simp only: in_measure prod.case)
qed simp

declare count_loop.simps [simp del]

definition GetUtf8ByteNumForWord :: "rt_uint8 \<Rightarrow> nat" where
  "GetUtf8ByteNumForWord firstCh = count_loop 0x80 firstCh 0"

text \<open>A byte of the string or its terminator, and a write to the buffer.\<close>

definition char_at :: "rt_uint8 list \<Rightarrow> nat \<Rightarrow> rt_uint8 option" where
  "char_at s i = (if i < length s then Some (s ! i) else if i = length s then Some 0 else None)"

definition buf_set :: "nat \<Rightarrow> rt_uint8 \<Rightarrow> rt_uint8 list \<Rightarrow> rt_uint8 list option" where
  "buf_set j v temp = (if j < length temp then Some (temp[j := v]) else None)"

text \<open>One turn of the loop: the bytes read and the new \<^verbatim>\<open>temp\<close> and \<^verbatim>\<open>j\<close>.\<close>

definition utf8_char ::
  "(rt_uint16 \<times> rt_uint16) list \<Rightarrow> rt_uint8 list \<Rightarrow> nat \<Rightarrow> rt_uint8 list \<Rightarrow> nat \<Rightarrow> (nat \<times> rt_uint8 list \<times> nat) option" where
  "utf8_char t_uni utf8 i temp j = do {
     c \<leftarrow> char_at utf8 i;
     let nbyte = GetUtf8ByteNumForWord c;
     (if nbyte = 0 then do {
        temp \<leftarrow> buf_set j c temp;
        Some (1, temp, j + 1)
      }
      else if nbyte = 2 then do {
        temp \<leftarrow> buf_set j c temp;
        d \<leftarrow> char_at utf8 (i + 1);
        temp \<leftarrow> buf_set (j + 1) d temp;
        Some (2, temp, j + 2)
      }
      else if nbyte = 3 then do {
        d \<leftarrow> char_at utf8 (i + 1);
        temp \<leftarrow> buf_set (j + 1) (push_bit 4 (c AND 0x0F) OR (drop_bit 2 d AND 0x0F)) temp;
        e \<leftarrow> char_at utf8 (i + 2);
        temp \<leftarrow> buf_set j (push_bit 6 (d AND 0x03) + (e AND 0x3F)) temp;
        let unicodeKey = ucast (temp ! j) OR push_bit 8 (ucast (temp ! (j + 1)));
        let gbKey = SearchCodeTable t_uni unicodeKey;
        temp \<leftarrow> buf_set j (ucast (drop_bit 8 (gbKey AND 0xff00))) temp;
        temp \<leftarrow> buf_set (j + 1) (ucast (gbKey AND 0x00ff)) temp;
        Some (3, temp, j + 2)
      }
      else if nbyte = 4 \<or> nbyte = 5 \<or> nbyte = 6 then Some (nbyte, temp, j)
      else Some (1, temp, j))
   }"

lemma utf8_char_moves: "utf8_char t_uni utf8 i temp j = Some (n, temp', j') \<Longrightarrow> 0 < n"
  by (auto simp: utf8_char_def Let_def bind_eq_Some_conv split: if_splits)

function utf8_loop ::
  "(rt_uint16 \<times> rt_uint16) list \<Rightarrow> rt_uint8 list \<Rightarrow> nat \<Rightarrow> rt_uint8 list \<Rightarrow> nat \<Rightarrow> (rt_uint8 list \<times> nat) option" where
  "utf8_loop t_uni utf8 i temp j =
     (if i < length utf8 then
        (case utf8_char t_uni utf8 i temp j of
           None \<Rightarrow> None
         | Some (byteCount, temp, j) \<Rightarrow> utf8_loop t_uni utf8 (i + byteCount) temp j)
      else Some (temp, j))"
  by auto
termination by (relation "measure (\<lambda>(_, utf8, i, _, _). length utf8 - i)") (auto dest!: utf8_char_moves)

declare utf8_loop.simps [simp del]

text \<open>\<open>undef\<close> is what the buffer holds when it is allocated. The result is the new content of the
  argument, up to and with the terminator; the copy back fits, the buffer being as long as the text.\<close>

definition Utf8ToGb2312 ::
  "(rt_uint16 \<times> rt_uint16) list \<Rightarrow> bool \<Rightarrow> (nat \<Rightarrow> rt_uint8) \<Rightarrow> rt_uint8 list \<Rightarrow> rt_uint8 list option option" where
  "Utf8ToGb2312 t_uni mem undef utf8 =
     (if utf8 = [] \<or> \<not> mem then Some None
      else do {
        (temp, j) \<leftarrow> utf8_loop t_uni utf8 0 (map undef [0..<length utf8]) 0;
        temp \<leftarrow> buf_set j 0 temp;
        Some (Some (take (j + 1) temp))
      })"

section \<open>The index into the table\<close>

lemma gb_index_uint:
  assumes "gb_lead hi lo"
  shows "uint (gb_index hi lo) = 94 * (uint hi - 0xB0) + (uint lo - 0xA1)"
proof -
  have h: "0xB0 \<le> uint hi" "uint hi \<le> 0xF7" and l: "0xA1 \<le> uint lo" "uint lo \<le> 0xFE"
    using assms by (auto simp: gb_lead_def word_less_def word_le_def not_less)
  have d: "uint (hi - 0xB0) = uint hi - 0xB0" using h by (simp add: uint_word_ariths take_bit_int_eq_self)
  have u: "(ucast w :: rt_uint16) = word_of_int (uint w)" for w :: rt_uint8 by (rule ucast_eq)
  have p: "push_bit 8 (word_of_int a :: rt_uint16) = word_of_int (256 * a)" for a
    by (simp only: push_bit_eq_mult of_int_mult) simp
  have n: "(0xB0A1 :: rt_uint16) = word_of_int 0xB0A1" "(0xA1 + 0x01 :: rt_uint16) = word_of_int 0xA2" by simp_all
  have "gb_index hi lo = word_of_int (256 * uint hi + uint lo - 0xB0A1 - (uint hi - 0xB0) * 0xA2)"
    unfolding gb_index_def Let_def u d p n by (simp only: of_int_add of_int_diff of_int_mult)
  also have "256 * uint hi + uint lo - 0xB0A1 - (uint hi - 0xB0) * 0xA2 = 94 * (uint hi - 0xB0) + (uint lo - 0xA1)" by simp
  finally have r: "gb_index hi lo = word_of_int (94 * (uint hi - 0xB0) + (uint lo - 0xA1))" .
  show ?thesis unfolding r uint_word_of_int by (rule mod_pos_pos_trivial) (use h l in simp_all)
qed

lemma gb_lead_zero: "\<not> gb_lead c 0"
  by (simp add: gb_lead_def)

section \<open>Converting to UTF-8\<close>

text \<open>The text read character by character; how many of its characters are single bytes; and that the table has
  all the others.\<close>

fun gb_decode :: "rt_uint8 list list \<Rightarrow> rt_uint8 list \<Rightarrow> rt_uint8 list" where
  "gb_decode t_gb (c # d # cs) =
     (if gb_lead c d then t_gb ! unat (gb_index c d) @ gb_decode t_gb cs else c # gb_decode t_gb (d # cs))"
| "gb_decode t_gb cs = cs"

fun singles :: "rt_uint8 list \<Rightarrow> nat" where
  "singles (c # d # cs) = (if gb_lead c d then singles cs else singles (d # cs) + 1)"
| "singles cs = length cs"

fun covered :: "rt_uint8 list list \<Rightarrow> rt_uint8 list \<Rightarrow> bool" where
  "covered t_gb (c # d # cs) \<longleftrightarrow>
     (if gb_lead c d then unat (gb_index c d) < length t_gb \<and> covered t_gb cs else covered t_gb (d # cs))"
| "covered t_gb cs \<longleftrightarrow> True"

lemma conv_loop_spec:
  assumes "covered t_gb cs" "\<forall>e \<in> set t_gb. length e = 3"
  shows "conv_loop t_gb len out cs =
    (if length out + length (gb_decode t_gb cs) < len then Some (out @ gb_decode t_gb cs) else None)"
  using assms
proof (induction t_gb cs arbitrary: out rule: gb_decode.induct)
  case (1 t_gb c d cs)
  show ?case
  proof (cases "gb_lead c d")
    case True
    then have l: "length (t_gb ! unat (gb_index c d)) = 3" using 1(3,4) by simp
    show ?thesis using True 1(1)[OF True] 1(3,4) l by (simp add: conv_utf8_for_gb2312_def)
  next
    case False
    have "conv_loop t_gb len out (c # d # cs) = (if length out < len then conv_loop t_gb len (out @ [c]) (d # cs) else None)"
      by (subst conv_loop.simps(2)) (simp add: False conv_utf8_for_gb2312_def del: conv_loop.simps)
    also have "\<dots> = (if length out + length (gb_decode t_gb (c # d # cs)) < len
        then Some (out @ gb_decode t_gb (c # d # cs)) else None)"
      using 1(2)[OF False, of "out @ [c]"] 1(3,4) False by (simp del: conv_loop.simps)
    finally show ?thesis .
  qed
qed (simp_all add: conv_utf8_for_gb2312_def gb_lead_zero)

lemma length_gb_decode:
  assumes "covered t_gb cs" "\<forall>e \<in> set t_gb. length e = 3"
  shows "2 * length (gb_decode t_gb cs) + singles cs = 3 * length cs"
  using assms by (induction t_gb cs rule: gb_decode.induct) auto

lemma singles_le: "singles cs \<le> length cs" "even (length cs - singles cs)"
  by (induction cs rule: singles.induct) auto

text \<open>C29. The buffer is computed from the number of bytes halved: it is too small by one exactly when one single
  character stands among pairs.\<close>

theorem conv_utf8_overflows:
  assumes "covered t_gb input" "\<forall>e \<in> set t_gb. length e = 3"
  shows "conv_utf8 t_gb True input = (if singles input = 1 then None else Some (Some (gb_decode t_gb input)))"
proof -
  let ?n = "length input" and ?s = "singles input" and ?l = "length (gb_decode t_gb input)"
  have l: "2 * ?l + ?s = 3 * ?n" by (rule length_gb_decode[OF assms])
  obtain p where p: "?n = ?s + 2 * p" using singles_le[of input] by (metis dvdE le_add_diff_inverse)
  then have "?l = ?s + 3 * p" using l by simp
  moreover have "?n div 2 = p + ?s div 2" using p by simp
  moreover have "?s = 2 * (?s div 2) + ?s mod 2" "?s mod 2 < 2" by simp_all
  ultimately have "?l < ?n div 2 * 3 + 1 \<longleftrightarrow> ?s \<noteq> 1"
    by (cases "?s div 2 = 0"; cases "?s mod 2 = 0") linarith+
  then show ?thesis using conv_loop_spec[OF assms] by (simp add: conv_utf8_def Let_def)
qed

text \<open>The table ends where its last character stands when the five unassigned codes of row 0xD7 are
  left out, but the index counts them.\<close>

theorem conv_utf8_reads_past:
  assumes "length t_gb = 6763" "0xFA \<le> lo" "lo \<le> 0xFE"
  shows "conv_utf8 t_gb True [0xF7, lo] = None"
proof -
  have g: "gb_lead 0xF7 lo" using assms(2,3) by (auto simp: gb_lead_def word_le_nat_alt word_less_nat_alt)
  have "6763 \<le> uint (gb_index 0xF7 lo)"
    using gb_index_uint[OF g] assms(2) by (simp add: word_le_def)
  then have "nat 6763 \<le> nat (uint (gb_index 0xF7 lo))" by (rule nat_mono)
  then have "length t_gb \<le> unat (gb_index 0xF7 lo)" by (simp only: assms(1) unat_eq_nat_uint nat_numeral)
  then show ?thesis using g by (simp add: conv_utf8_def conv_utf8_for_gb2312_def Let_def)
qed

section \<open>The binary search\<close>

lemma sorted_keys:
  fixes t_uni :: "(rt_uint16 \<times> rt_uint16) list"
  assumes "sorted_wrt (<) (map fst t_uni)" "i < length t_uni" "j < length t_uni"
  shows "fst (t_uni ! i) < fst (t_uni ! j) \<longleftrightarrow> i < j"
proof -
  have lt: "fst (t_uni ! a) < fst (t_uni ! b)" if "a < b" "b < length t_uni" for a b
  proof -
    have "map fst t_uni ! a < map fst t_uni ! b" by (rule sorted_wrt_nth_less[OF assms(1) that(1)]) (simp add: that(2))
    moreover have "a < length t_uni" using that by (rule less_trans)
    ultimately show ?thesis using that(2) by (simp only: nth_map)
  qed
  show ?thesis
  proof (cases i j rule: linorder_cases)
    case less
    then show ?thesis using lt[OF less assms(3)] by blast
  next
    case greater
    then show ?thesis using lt[OF greater assms(2)] by (meson less_asym)
  qed simp
qed

lemma search_loop_spec:
  fixes t_uni :: "(rt_uint16 \<times> rt_uint16) list"
  assumes srt: "sorted_wrt (<) (map fst t_uni)"
  shows "0 \<le> first \<Longrightarrow> stop < int (length t_uni) \<Longrightarrow>
    (\<forall>i. i < length t_uni \<longrightarrow> fst (t_uni ! i) = key \<longrightarrow> first \<le> int i \<and> int i \<le> stop) \<Longrightarrow>
    search_loop t_uni key first stop = (case map_of t_uni key of Some v \<Rightarrow> v | None \<Rightarrow> 0)"
  using srt
proof (induction t_uni key first stop rule: search_loop.induct)
  case (1 t key first stop)
  note srt = 1(6) and all = 1(5)
  define mid where "mid = (first + stop) div 2"
  have dist: "distinct (map fst t)" using srt strict_sorted_iff by blast
  show ?case
  proof (cases "first \<le> stop")
    case False
    then have "fst (t ! i) \<noteq> key" if "i < length t" for i using all that by fastforce
    then have "map_of t key = None" unfolding map_of_eq_None_iff by (metis (no_types, lifting) image_iff in_set_conv_nth)
    then show ?thesis using False by (subst search_loop.simps) simp
  next
    case True
    have mid: "first \<le> mid" "mid \<le> stop" using True by (simp_all add: mid_def)
    have n: "nat mid < length t" "int (nat mid) = mid" using mid 1(3,4) by simp_all
    note cmp = sorted_keys[OF srt _ n(1)] and cmp' = sorted_keys[OF srt n(1)]
    consider "fst (t ! nat mid) = key" | "key < fst (t ! nat mid)" | "fst (t ! nat mid) < key" by (meson linorder_less_linear)
    then show ?thesis
    proof cases
      case 1
      then have "map_of t key = Some (snd (t ! nat mid))"
        using map_of_is_SomeI[OF dist, of key "snd (t ! nat mid)"] nth_mem[OF n(1)] by (metis prod.collapse)
      then show ?thesis using 1 True by (subst search_loop.simps) (simp add: mid_def Let_def)
    next
      case 2
      have "\<forall>i. i < length t \<longrightarrow> fst (t ! i) = key \<longrightarrow> first \<le> int i \<and> int i \<le> mid - 1"
        using all cmp 2 n(2) by fastforce
      then have "search_loop t key first (mid - 1) = (case map_of t key of Some v \<Rightarrow> v | None \<Rightarrow> 0)"
        using "1.IH"(1)[OF True mid_def] 2 "1.prems"(1,2) srt mid(2) by simp
      then show ?thesis using less_imp_neq[OF 2] 2 True by (subst search_loop.simps) (simp add: mid_def Let_def)
    next
      case 3
      have "\<forall>i. i < length t \<longrightarrow> fst (t ! i) = key \<longrightarrow> mid + 1 \<le> int i \<and> int i \<le> stop"
        using all cmp' 3 n(2) by fastforce
      then have "search_loop t key (mid + 1) stop = (case map_of t key of Some v \<Rightarrow> v | None \<Rightarrow> 0)"
        using "1.IH"(2)[OF True mid_def] 3 "1.prems"(1,2) srt mid(1) by simp
      then show ?thesis using less_imp_neq[OF 3] less_not_sym[OF 3] True by (subst search_loop.simps) (simp add: mid_def Let_def)
    qed
  qed
qed

text \<open>On a sorted table the search finds what the table has, and 0 for anything else.\<close>

theorem search_code_table:
  assumes "sorted_wrt (<) (map fst t_uni)"
  shows "SearchCodeTable t_uni key = (case map_of t_uni key of Some v \<Rightarrow> v | None \<Rightarrow> 0)"
  unfolding SearchCodeTable_def by (rule search_loop_spec[OF assms]) auto

section \<open>The number of bytes of a character\<close>

lemma leading_ones:
  "GetUtf8ByteNumForWord c = length (takeWhile (\<lambda>i. bit c i) [7, 6, 5, 4, 3, 2, 1, 0])"
proof -
  have all: "list_all (\<lambda>n. GetUtf8ByteNumForWord (of_nat n) =
      length (takeWhile (\<lambda>i. bit (of_nat n :: rt_uint8) i) [7, 6, 5, 4, 3, 2, 1, 0])) [0..<256]" by code_simp
  have "unat c < 256" using unsigned_less[of c, where 'a = nat] by simp
  then show ?thesis using all[unfolded list_all_iff, rule_format, of "unat c"] by simp
qed

lemma leading_values:
  "c < 0x80 \<Longrightarrow> GetUtf8ByteNumForWord c = 0"
  "0xC0 \<le> c \<Longrightarrow> c < 0xE0 \<Longrightarrow> GetUtf8ByteNumForWord c = 2"
  "0xE0 \<le> c \<Longrightarrow> c < 0xF0 \<Longrightarrow> GetUtf8ByteNumForWord c = 3"
proof -
  have all: "\<forall>n \<in> set [0..<0x80]. GetUtf8ByteNumForWord (of_nat n) = 0"
    "\<forall>n \<in> set [0xC0..<0xE0]. GetUtf8ByteNumForWord (of_nat n) = 2"
    "\<forall>n \<in> set [0xE0..<0xF0]. GetUtf8ByteNumForWord (of_nat n) = 3" by code_simp+
  have e: "(of_nat (unat c) :: rt_uint8) = c" by simp
  show "GetUtf8ByteNumForWord c = 0" if "c < 0x80"
  proof -
    have "unat c \<in> set [0..<0x80]" unfolding set_upt atLeastLessThan_iff using that by (simp add: word_less_nat_alt word_le_nat_alt)
    from bspec[OF all(1) this] show ?thesis unfolding e .
  qed
  show "GetUtf8ByteNumForWord c = 2" if "0xC0 \<le> c" "c < 0xE0"
  proof -
    have "unat c \<in> set [0xC0..<0xE0]" unfolding set_upt atLeastLessThan_iff using that by (simp add: word_less_nat_alt word_le_nat_alt)
    from bspec[OF all(2) this] show ?thesis unfolding e .
  qed
  show "GetUtf8ByteNumForWord c = 3" if "0xE0 \<le> c" "c < 0xF0"
  proof -
    have "unat c \<in> set [0xE0..<0xF0]" unfolding set_upt atLeastLessThan_iff using that by (simp add: word_less_nat_alt word_le_nat_alt)
    from bspec[OF all(3) this] show ?thesis unfolding e .
  qed
qed

section \<open>Converting to GB2312\<close>

datatype uchar = One rt_uint8 | Two rt_uint8 rt_uint8 | Three rt_uint8 rt_uint8 rt_uint8

fun uchar_ok :: "uchar \<Rightarrow> bool" where
  "uchar_ok (One a) \<longleftrightarrow> a < 0x80"
| "uchar_ok (Two a b) \<longleftrightarrow> 0xC0 \<le> a \<and> a < 0xE0"
| "uchar_ok (Three a b c) \<longleftrightarrow> 0xE0 \<le> a \<and> a < 0xF0"

fun utf8_of :: "uchar \<Rightarrow> rt_uint8 list" where
  "utf8_of (One a) = [a]" | "utf8_of (Two a b) = [a, b]" | "utf8_of (Three a b c) = [a, b, c]"

definition unicode_of :: "rt_uint8 \<Rightarrow> rt_uint8 \<Rightarrow> rt_uint8 \<Rightarrow> rt_uint16" where
  "unicode_of a b c = ucast (push_bit 6 (b AND 0x03) + (c AND 0x3F)) OR
     push_bit 8 (ucast (push_bit 4 (a AND 0x0F) OR (drop_bit 2 b AND 0x0F)))"

definition gb_bytes :: "rt_uint16 \<Rightarrow> rt_uint8 list" where
  "gb_bytes g = [ucast (drop_bit 8 (g AND 0xff00)), ucast (g AND 0x00ff)]"

fun gb_of :: "(rt_uint16 \<times> rt_uint16) list \<Rightarrow> uchar \<Rightarrow> rt_uint8 list" where
  "gb_of t_uni (One a) = [a]"
| "gb_of t_uni (Two a b) = [a, b]"
| "gb_of t_uni (Three a b c) = gb_bytes (SearchCodeTable t_uni (unicode_of a b c))"

lemma char_at_append: "char_at (pre @ s) (length pre + i) = char_at s i"
  by (simp add: char_at_def nth_append)

lemma list_update_at: "j = length us \<Longrightarrow> (us @ v # ws)[j := w] = us @ w # ws"
  by simp

text \<open>One turn writes the character behind what was written before.\<close>

lemma utf8_char_spec:
  assumes ok: "uchar_ok u" and len: "length (utf8_of u) \<le> length rest"
  shows "\<exists>rest'. utf8_char t_uni (pre @ utf8_of u @ post) (length pre) (out @ rest) (length out) =
      Some (length (utf8_of u), out @ gb_of t_uni u @ rest', length out + length (gb_of t_uni u)) \<and>
      length rest' = length rest - length (gb_of t_uni u)"
proof (cases u)
  case (One a)
  obtain r rs where r: "rest = r # rs" using len One by (cases rest) auto
  show ?thesis using ok char_at_append[of pre "[a] @ post" 0] leading_values(1)[of a]
    by (simp add: One r utf8_char_def char_at_def buf_set_def list_update_at nth_append)
next
  case (Two a b)
  obtain r1 r2 rs where r: "rest = r1 # r2 # rs" using len Two by (cases rest; cases "tl rest") auto
  have c: "char_at (pre @ a # b # post) (length pre) = Some a" "char_at (pre @ a # b # post) (length pre + 1) = Some b"
    using char_at_append[of pre "a # b # post" 0] char_at_append[of pre "a # b # post" 1] by (simp_all add: char_at_def)
  have n: "GetUtf8ByteNumForWord a = 2" using ok leading_values(2) by (simp add: Two)
  have w: "(out @ a # r2 # rs)[length out + 1 := b] = out @ a # b # rs"
    using list_update_at[of "length out + 1" "out @ [a]" r2 rs b] by simp
  show ?thesis using c n w by (simp add: Two r utf8_char_def buf_set_def list_update_at)
next
  case (Three a b c)
  obtain r1 r2 r3 rs where r: "rest = r1 # r2 # r3 # rs"
    using len Three by (cases rest; cases "tl rest"; cases "tl (tl rest)") auto
  have ch: "char_at (pre @ a # b # c # post) (length pre) = Some a" "char_at (pre @ a # b # c # post) (length pre + 1) = Some b"
    "char_at (pre @ a # b # c # post) (length pre + 2) = Some c"
    using char_at_append[of pre "a # b # c # post" 0] char_at_append[of pre "a # b # c # post" 1]
      char_at_append[of pre "a # b # c # post" 2] by (simp_all add: char_at_def)
  have n: "GetUtf8ByteNumForWord a = 3" using ok leading_values(3) by (simp add: Three)
  have w: "(out @ x # y # z)[Suc (length out) := v] = out @ x # v # z" "(out @ x # z)[length out := v] = out @ v # z"
    "(out @ x # y # z) ! Suc (length out) = y" for x y z v
    using list_update_at[of "length out + 1" "out @ [x]" y z v] by (simp_all add: nth_append)
  show ?thesis
    using ch n by (simp add: Three r utf8_char_def buf_set_def w Let_def gb_bytes_def unicode_of_def)
qed

lemma utf8_of_longer: "length (gb_of t_uni u) \<le> length (utf8_of u)"
  by (cases u) (simp_all add: gb_bytes_def)

lemma utf8_loop_spec:
  assumes "list_all uchar_ok us" "length out \<le> length pre" "length out + length rest = length pre + length (concat (map utf8_of us))"
  shows "\<exists>rest'. utf8_loop t_uni (pre @ concat (map utf8_of us)) (length pre) (out @ rest) (length out) =
      Some (out @ concat (map (gb_of t_uni) us) @ rest', length out + length (concat (map (gb_of t_uni) us))) \<and>
      length rest' = length rest - length (concat (map (gb_of t_uni) us))"
  using assms
proof (induction us arbitrary: pre out rest)
  case Nil
  then show ?case by (subst utf8_loop.simps) simp
next
  case (Cons u us)
  let ?s = "pre @ utf8_of u @ concat (map utf8_of us)" and ?g = "gb_of t_uni u"
  have ok: "uchar_ok u" "list_all uchar_ok us" using Cons.prems(1) by simp_all
  have pos: "0 < length (utf8_of u)" by (cases u) simp_all
  obtain r where r: "utf8_char t_uni ?s (length pre) (out @ rest) (length out) =
      Some (length (utf8_of u), out @ ?g @ r, length out + length ?g)" "length r = length rest - length ?g"
    using utf8_char_spec[OF ok(1), of rest t_uni pre "concat (map utf8_of us)" out] Cons.prems(2,3) by auto
  note sh = utf8_of_longer[of t_uni u]
  have step: "utf8_loop t_uni ?s (length pre) (out @ rest) (length out) =
      utf8_loop t_uni ?s (length pre + length (utf8_of u)) (out @ ?g @ r) (length out + length ?g)"
    using pos r(1) by (subst utf8_loop.simps) simp
  have c: "length (out @ ?g) \<le> length (pre @ utf8_of u)"
    "length (out @ ?g) + length r = length (pre @ utf8_of u) + length (concat (map utf8_of us))"
    using Cons.prems(2,3) sh r(2) by simp_all
  obtain r' where "utf8_loop t_uni ((pre @ utf8_of u) @ concat (map utf8_of us)) (length (pre @ utf8_of u)) ((out @ ?g) @ r) (length (out @ ?g)) =
      Some ((out @ ?g) @ concat (map (gb_of t_uni) us) @ r', length (out @ ?g) + length (concat (map (gb_of t_uni) us)))"
    "length r' = length r - length (concat (map (gb_of t_uni) us))"
    using Cons.IH[OF ok(2) c] by blast
  then show ?case using step r(2) by (intro exI[of _ r']) simp
qed

fun is_three :: "uchar \<Rightarrow> bool" where
  "is_three (Three a b c) \<longleftrightarrow> True" | "is_three _ \<longleftrightarrow> False"

lemma gb_shorter:
  "length (concat (map (gb_of t_uni) us)) + length (filter is_three us) = length (concat (map utf8_of us))"
proof (induction us)
  case (Cons u us)
  then show ?case by (cases u) (simp_all add: gb_bytes_def)
qed simp

text \<open>The buffer has the length of the text: without a character of three bytes there is no room for
  the terminator. Otherwise every such character becomes its code and the rest is copied.\<close>

theorem utf8_to_gb2312:
  assumes "us \<noteq> []" "list_all uchar_ok us"
  shows "Utf8ToGb2312 t_uni True undef (concat (map utf8_of us)) =
    (if list_ex is_three us then Some (Some (concat (map (gb_of t_uni) us) @ [0])) else None)"
proof -
  let ?s = "concat (map utf8_of us)" and ?g = "concat (map (gb_of t_uni) us)"
  have ne: "?s \<noteq> []" using assms(1) by (cases us; cases "hd us") simp_all
  obtain r where r: "utf8_loop t_uni ?s 0 (map undef [0..<length ?s]) 0 = Some (?g @ r, length ?g)"
    "length r = length ?s - length ?g"
    using utf8_loop_spec[OF assms(2), of "[]" "[]" "map undef [0..<length ?s]" t_uni] by auto
  have sh: "length ?g + length (filter is_three us) = length ?s" by (rule gb_shorter)
  have ex: "list_ex is_three us \<longleftrightarrow> filter is_three us \<noteq> []" by (induction us) auto
  show ?thesis
  proof (cases r)
    case Nil
    then have "length ?s - length ?g = 0" using r(2) by simp
    then have "length (filter is_three us) = 0" using sh by linarith
    then have "\<not> list_ex is_three us" using ex by simp
    then show ?thesis using r ne sh Nil by (simp add: Utf8ToGb2312_def buf_set_def)
  next
    case (Cons x xs)
    then have "\<not> length ?s - length ?g = 0" using r(2) by simp
    then have "filter is_three us \<noteq> []" using sh by auto
    moreover have "(?g @ x # xs)[length ?g := 0] = ?g @ 0 # xs" by (rule list_update_at) simp
    ultimately show ?thesis using r(1) ne ex Cons by (simp add: Utf8ToGb2312_def buf_set_def)
  qed
qed

section \<open>There and back\<close>

text \<open>The characters of a GB2312 text in UTF-8, and that the tables agree on each of them.\<close>

fun gb_chars :: "rt_uint8 list list \<Rightarrow> rt_uint8 list \<Rightarrow> uchar list" where
  "gb_chars t_gb (c # d # cs) =
     (if gb_lead c d
      then (let e = t_gb ! unat (gb_index c d) in Three (e ! 0) (e ! 1) (e ! 2)) # gb_chars t_gb cs
      else One c # gb_chars t_gb (d # cs))"
| "gb_chars t_gb [c] = [One c]"
| "gb_chars t_gb [] = []"

definition tables_agree :: "rt_uint8 list list \<Rightarrow> (rt_uint16 \<times> rt_uint16) list \<Rightarrow> rt_uint8 \<Rightarrow> rt_uint8 \<Rightarrow> bool" where
  "tables_agree t_gb t_uni hi lo \<longleftrightarrow> (let e = t_gb ! unat (gb_index hi lo) in
     0xE0 \<le> e ! 0 \<and> e ! 0 < 0xF0 \<and>
     map_of t_uni (unicode_of (e ! 0) (e ! 1) (e ! 2)) = Some (push_bit 8 (ucast hi) + ucast lo))"

fun convertible :: "rt_uint8 list list \<Rightarrow> (rt_uint16 \<times> rt_uint16) list \<Rightarrow> rt_uint8 list \<Rightarrow> bool" where
  "convertible t_gb t_uni (c # d # cs) \<longleftrightarrow>
     (if gb_lead c d then tables_agree t_gb t_uni c d \<and> convertible t_gb t_uni cs
      else c < 0x80 \<and> convertible t_gb t_uni (d # cs))"
| "convertible t_gb t_uni [c] \<longleftrightarrow> c < 0x80"
| "convertible t_gb t_uni [] \<longleftrightarrow> True"

lemma gb_bytes_code: "gb_bytes (push_bit 8 (ucast hi) + ucast lo) = [hi, lo]" for hi lo :: rt_uint8
proof -
  have d: "push_bit 8 (ucast hi) AND ucast lo = (0 :: rt_uint16)"
    by (rule bit_eqI) (auto simp: bit_simps dest: bit_imp_le_length)
  then have e: "push_bit 8 (ucast hi) + ucast lo = (push_bit 8 (ucast hi) OR ucast lo :: rt_uint16)"
    by (rule disjunctive_add_eq_or)
  have m: "(0x00ff :: rt_uint16) = mask 8" "(0xff00 :: rt_uint16) = push_bit 8 (mask 8)"
    by (simp_all add: mask_eq_exp_minus_1 push_bit_eq_mult)
  have "ucast (drop_bit 8 ((push_bit 8 (ucast hi) OR ucast lo :: rt_uint16) AND push_bit 8 (mask 8))) = hi"
    by (rule bit_eqI) (auto simp: bit_simps dest: bit_imp_le_length)
  moreover have "ucast ((push_bit 8 (ucast hi) OR ucast lo :: rt_uint16) AND mask 8) = lo"
    by (rule bit_eqI) (auto simp: bit_simps)
  ultimately show ?thesis by (simp only: gb_bytes_def e m)
qed

lemma gb_chars_utf8:
  assumes "\<forall>e \<in> set t_gb. length e = 3" "covered t_gb cs"
  shows "concat (map utf8_of (gb_chars t_gb cs)) = gb_decode t_gb cs"
  using assms
proof (induction t_gb cs rule: gb_chars.induct)
  case (1 t_gb c d cs)
  show ?case
  proof (cases "gb_lead c d")
    case True
    then have "length (t_gb ! unat (gb_index c d)) = 3" using 1(3,4) by simp
    then have "[t_gb ! unat (gb_index c d) ! 0, t_gb ! unat (gb_index c d) ! 1, t_gb ! unat (gb_index c d) ! 2] = t_gb ! unat (gb_index c d)"
      by (intro nth_equalityI) (auto simp: less_Suc_eq numeral_eq_Suc)
    then show ?thesis using True 1 by (simp add: Let_def)
  qed (use 1 in simp)
qed simp_all

lemma gb_chars_back:
  assumes "convertible t_gb t_uni cs" "sorted_wrt (<) (map fst t_uni)"
  shows "list_all uchar_ok (gb_chars t_gb cs)" "concat (map (gb_of t_uni) (gb_chars t_gb cs)) = cs"
  using assms
  by (induction t_gb cs rule: gb_chars.induct)
    (auto simp: Let_def tables_agree_def search_code_table gb_bytes_code)

lemma singles_three: "length cs \<noteq> singles cs \<Longrightarrow> list_ex is_three (gb_chars t_gb cs)"
  by (induction t_gb cs rule: gb_chars.induct) (auto simp: Let_def split: if_splits)

text \<open>C28. Converting a text to UTF-8 and back gives the text, when it has a character of two bytes and
  not exactly one single byte.\<close>

theorem utf8_roundtrip:
  assumes "\<forall>e \<in> set t_gb. length e = 3" "sorted_wrt (<) (map fst t_uni)" "covered t_gb text1"
    "convertible t_gb t_uni text1" "singles text1 \<noteq> 1" "singles text1 < length text1"
  shows "\<exists>u. conv_utf8 t_gb True text1 = Some (Some u) \<and> Utf8ToGb2312 t_uni True undef u = Some (Some (text1 @ [0]))"
proof -
  let ?us = "gb_chars t_gb text1"
  note b = gb_chars_back[OF assms(4,2)]
  have three: "list_ex is_three ?us" by (rule singles_three) (use assms(6) in simp)
  then have "?us \<noteq> []" by auto
  from utf8_to_gb2312[OF this b(1), of t_uni undef]
  have "Utf8ToGb2312 t_uni True undef (gb_decode t_gb text1) = Some (Some (text1 @ [0]))"
    using three b(2) by (simp add: gb_chars_utf8[OF assms(1,3)])
  then show ?thesis using conv_utf8_overflows[OF assms(3,1)] assms(5) by simp
qed

text \<open>The first character of the table, and the text of it and a letter.\<close>

definition first_gb :: "rt_uint8 list list" where "first_gb = [[0xE5, 0x95, 0x8A]]"

definition first_uni :: "(rt_uint16 \<times> rt_uint16) list" where "first_uni = [(0x554A, 0xB0A1)]"

lemma first_gb_facts:
  "gb_lead 0xB0 0xA1" "gb_index 0xB0 0xA1 = 0" "\<forall>e \<in> set first_gb. length e = 3" "covered first_gb [0xB0, 0xA1, 97]"
  "singles [0xB0, 0xA1, 97] = 1" "covered first_gb [0xB0, 0xA1]" "singles [0xB0, 0xA1] = 0"
  by (simp_all add: gb_lead_def gb_index_def first_gb_def)

theorem conv_utf8_overflows_witness: "conv_utf8 first_gb True [0xB0, 0xA1, 97] = None"
  using conv_utf8_overflows[OF first_gb_facts(4,3)] first_gb_facts(5) by simp

theorem conv_utf8_reads_past_witness:
  "conv_utf8 (replicate 6763 [0xE9, 0xBD, 0x84]) True [0xF7, 0xFE] = None"
  by (rule conv_utf8_reads_past) (simp_all only: length_replicate, simp_all)

theorem search_code_table_witness: "SearchCodeTable first_uni 0x554A = 0xB0A1"
  using search_code_table[of first_uni "0x554A"] by (simp add: first_uni_def)

theorem utf8_to_gb2312_witness: "Utf8ToGb2312 first_uni True (\<lambda>_. 0) [97, 98] = None"
  using utf8_to_gb2312[of "[One 97, One 98]" first_uni "\<lambda>_. 0"] by simp

theorem utf8_roundtrip_witness:
  "\<exists>u. conv_utf8 first_gb True [0xB0, 0xA1] = Some (Some u) \<and>
     Utf8ToGb2312 first_uni True (\<lambda>_. 0) u = Some (Some [0xB0, 0xA1, 0])"
proof -
  have s: "sorted_wrt (<) (map fst first_uni)" by (simp add: first_uni_def)
  have c: "convertible first_gb first_uni [0xB0, 0xA1]"
    using first_gb_facts(1,2) by (simp add: tables_agree_def first_gb_def first_uni_def unicode_of_def)
  show ?thesis using utf8_roundtrip[OF first_gb_facts(3) s first_gb_facts(6) c, of "\<lambda>_. 0"] first_gb_facts(7) by simp
qed

end
