(* ===== verification/Beken_Rtos.thy ===== *)
theory Beken_Rtos
  imports Rtt_Sem Rtt_Mutex Rtt_Mailbox Rtt_Mempool Rtt_Clock Rtt_Examples
begin

text \<open>
  The operating-system interface of the Beken side (\<^verbatim>\<open>beken378/rttos/source/rtos_pub.c\<close>)
  on top of the kernel: threads, semaphores, mutexes, message queues made of a mailbox of pointers
  and a memory pool, and timers. A pointer to a handle is the handle; \<open>mem\<close> arguments are what
  the allocations return; the payload of a pool block is kept under the address handed out. As in
  the kernel theories a call that waits ends with a value that says where, and a function whose
  name ends in \<open>leave\<close> is the rest of the call. \<open>rtos_get_free_mem\<close> needs
  \<^verbatim>\<open>rt_memory_info\<close>, which the configured allocator does not have.
\<close>

section \<open>State\<close>

type_synonym OSStatus = int

abbreviation (input) kNoErr :: OSStatus where "kNoErr \<equiv> 0"
abbreviation (input) kGeneralErr :: OSStatus where "kGeneralErr \<equiv> - 1"
abbreviation (input) kTimeoutErr :: OSStatus where "kTimeoutErr \<equiv> - 6722"
abbreviation (input) BEKEN_WAIT_FOREVER :: rt_uint32 where "BEKEN_WAIT_FOREVER \<equiv> 0xffffffff"
abbreviation (input) BEKEN_MAGIC_WORD :: rt_uint32 where "BEKEN_MAGIC_WORD \<equiv> 0xbaba7231"

record rtos =
  r_pools :: mempools
  r_kernel :: kernel
  r_data :: "rt_uint32 \<Rightarrow> rt_uint8 list"
  rtos_sem_cnt :: rt_uint32
  rtos_mutex_cnt :: rt_uint32

record beken_queue =
  handle :: "nat option"
  mp :: "nat option"
  message_size :: rt_uint32
  number_of_messages :: rt_uint32

definition on_kernel :: "(kernel \<Rightarrow> (kernel \<times> 'a) option) \<Rightarrow> rtos \<Rightarrow> (rtos \<times> 'a) option" where
  "on_kernel f s = map_option (\<lambda>(k, x). (s\<lparr>r_kernel := k\<rparr>, x)) (f (r_kernel s))"

definition on_pools ::
  "(mempools \<times> kernel \<Rightarrow> ((mempools \<times> kernel) \<times> 'a) option) \<Rightarrow> rtos \<Rightarrow> (rtos \<times> 'a) option" where
  "on_pools f s = map_option (\<lambda>((P, k), x). (s\<lparr>r_pools := P, r_kernel := k\<rparr>, x)) (f (r_pools s, r_kernel s))"

definition mp_free :: "rt_uint32 \<Rightarrow> rtos \<Rightarrow> (rtos \<times> unit) option" where
  "mp_free b = on_pools (\<lambda>s. map_option (\<lambda>s. (s, ())) (rt_mp_free b s))"

text \<open>A 32-bit argument passed where the callee takes an \<^verbatim>\<open>int\<close>.\<close>

definition ticks :: "rt_uint32 \<Rightarrow> int option" where
  "ticks ms = rt_tick_from_millisecond (sint ms)"

definition ascii :: "string \<Rightarrow> rt_uint8 list" where
  "ascii s = map of_char s"

section \<open>Threads\<close>

definition rtos_create_thread ::
  "rt_uint8 list \<Rightarrow> rt_uint8 \<Rightarrow> tid option \<Rightarrow> bool \<Rightarrow> rtos \<Rightarrow> (rtos \<times> tid option \<times> OSStatus) option" where
  "rtos_create_thread nm priority mem stack s = do {
     (s, t) \<leftarrow> on_kernel (rt_thread_create nm priority 5 mem stack) s;
     (case t of
        None \<Rightarrow> Some (s, None, kGeneralErr)
      | Some t \<Rightarrow> map_option (\<lambda>(s, _). (s, Some t, kNoErr)) (on_kernel (rt_thread_startup t) s))
   }"

text \<open>\<open>None\<close>: a null pointer, which does not delete the calling thread.\<close>

definition rtos_delete_thread :: "tid option \<Rightarrow> rtos \<Rightarrow> (rtos \<times> OSStatus) option" where
  "rtos_delete_thread thread s = (case thread of
     None \<Rightarrow> Some (s, kGeneralErr)
   | Some t \<Rightarrow> map_option (\<lambda>(s, _). (s, kNoErr)) (on_kernel (rt_thread_delete t) s))"

definition rtos_is_current_thread :: "tid option \<Rightarrow> rtos \<Rightarrow> bool" where
  "rtos_is_current_thread t s \<longleftrightarrow> rt_thread_self (r_kernel s) = t"

definition rtos_thread_sleep :: "rt_uint32 \<Rightarrow> rtos \<Rightarrow> (rtos \<times> outcome) option" where
  "rtos_thread_sleep seconds s = do {
     tick \<leftarrow> ticks (seconds * 1000);
     on_kernel (rt_thread_delay (of_int tick)) s
   }"

definition rtos_delay_milliseconds :: "rt_uint32 \<Rightarrow> rtos \<Rightarrow> (rtos \<times> outcome) option" where
  "rtos_delay_milliseconds num_ms s = do {
     tick \<leftarrow> ticks num_ms;
     (s, r) \<leftarrow> on_kernel (rt_thread_delay (of_int tick)) s;
     Some (s, case r of Wait \<Rightarrow> Wait | Done _ \<Rightarrow> Done kNoErr)
   }"

definition rtos_get_time :: "rtos \<Rightarrow> rt_tick" where
  "rtos_get_time s = rt_tick_get (r_kernel s)"

section \<open>Semaphores\<close>

definition status_of :: "'a option \<Rightarrow> OSStatus" where
  "status_of h = (if h \<noteq> None then kNoErr else kGeneralErr)"

definition rtos_init_semaphore_ex ::
  "rt_uint8 list \<Rightarrow> int \<Rightarrow> int \<Rightarrow> nat option \<Rightarrow> rtos \<Rightarrow> (rtos \<times> nat option \<times> OSStatus) option" where
  "rtos_init_semaphore_ex nm max_count init_count mem s = do {
     (s, h) \<leftarrow> on_kernel (rt_sem_create nm (of_int init_count) RT_IPC_FLAG_FIFO mem) s;
     Some (s\<lparr>rtos_sem_cnt := rtos_sem_cnt s + 1\<rparr>, h, status_of h)
   }"

definition rtos_init_semaphore_adv ::
  "int \<Rightarrow> int \<Rightarrow> nat option \<Rightarrow> rtos \<Rightarrow> (rtos \<times> nat option \<times> OSStatus) option" where
  "rtos_init_semaphore_adv max_count init_count mem s = do {
     (s, h) \<leftarrow> on_kernel (rt_sem_create (ascii ''rtos_sem'') (of_int init_count) RT_IPC_FLAG_FIFO mem) s;
     Some (s\<lparr>rtos_sem_cnt := rtos_sem_cnt s + 1\<rparr>, h, status_of h)
   }"

definition rtos_init_semaphore :: "int \<Rightarrow> nat option \<Rightarrow> rtos \<Rightarrow> (rtos \<times> nat option \<times> OSStatus) option" where
  "rtos_init_semaphore max_count mem s = do {
     (s, h) \<leftarrow> on_kernel (rt_sem_create (ascii ''rtos_sem'') 0 RT_IPC_FLAG_FIFO mem) s;
     Some (s\<lparr>rtos_sem_cnt := rtos_sem_cnt s + 1\<rparr>, h, status_of h)
   }"

definition sem_status :: "rt_err \<Rightarrow> OSStatus" where
  "sem_status e = (if e = RT_EOK then kNoErr else kTimeoutErr)"

definition rtos_get_semaphore :: "nat \<Rightarrow> rt_uint32 \<Rightarrow> rtos \<Rightarrow> (rtos \<times> outcome) option" where
  "rtos_get_semaphore sem timeout_ms s = do {
     tick \<leftarrow> ticks timeout_ms;
     (s, r) \<leftarrow> on_kernel (rt_sem_take sem tick) s;
     Some (s, case r of Wait \<Rightarrow> Wait | Done e \<Rightarrow> Done (sem_status e))
   }"

definition rtos_get_semaphore_leave :: "tid \<Rightarrow> rtos \<Rightarrow> OSStatus" where
  "rtos_get_semaphore_leave t s = sem_status (rt_sem_take_leave t (r_kernel s))"

definition rtos_get_sema_count :: "nat \<Rightarrow> rtos \<Rightarrow> int" where
  "rtos_get_sema_count sem s = uint (k_sem (r_kernel s) sem)"

definition rtos_set_semaphore :: "nat \<Rightarrow> rtos \<Rightarrow> (rtos \<times> OSStatus) option" where
  "rtos_set_semaphore sem s = do {
     (s, e) \<leftarrow> on_kernel (rt_sem_release sem) s;
     Some (s, if e \<noteq> RT_EOK then kGeneralErr else kNoErr)
   }"

text \<open>The handle is tested by the kernel only; the third component is what it becomes.\<close>

definition rtos_deinit_semaphore :: "nat option \<Rightarrow> rtos \<Rightarrow> (rtos \<times> nat option \<times> OSStatus) option" where
  "rtos_deinit_semaphore semaphore s = do {
     sem \<leftarrow> semaphore;
     (s, _) \<leftarrow> on_kernel (rt_sem_delete sem) s;
     Some (s\<lparr>rtos_sem_cnt := rtos_sem_cnt s - 1\<rparr>, None, kNoErr)
   }"

section \<open>Mutexes\<close>

definition rtos_init_mutex :: "nat option \<Rightarrow> rtos \<Rightarrow> (rtos \<times> nat option \<times> OSStatus) option" where
  "rtos_init_mutex mem s = do {
     (s, h) \<leftarrow> on_kernel (rt_mutex_create (ascii ''rtos_mutex'') RT_IPC_FLAG_PRIO mem) s;
     (if h = None then Some (s, h, kGeneralErr)
      else Some (s\<lparr>rtos_mutex_cnt := rtos_mutex_cnt s + 1\<rparr>, h, kNoErr))
   }"

definition rtos_lock_mutex :: "nat \<Rightarrow> rtos \<Rightarrow> (rtos \<times> outcome) option" where
  "rtos_lock_mutex mutex s = do {
     (s, r) \<leftarrow> on_kernel (rt_mutex_take mutex (sint BEKEN_WAIT_FOREVER)) s;
     Some (s, case r of Wait \<Rightarrow> Wait | Done _ \<Rightarrow> Done RT_EOK)
   }"

definition rtos_lock_mutex_leave :: "nat \<Rightarrow> tid \<Rightarrow> rtos \<Rightarrow> (rtos \<times> outcome) option" where
  "rtos_lock_mutex_leave mutex t s = do {
     (s, r) \<leftarrow> on_kernel (rt_mutex_take_leave mutex (sint BEKEN_WAIT_FOREVER) t) s;
     Some (s, case r of Wait \<Rightarrow> Wait | Done _ \<Rightarrow> Done RT_EOK)
   }"

definition rtos_unlock_mutex :: "nat \<Rightarrow> rtos \<Rightarrow> (rtos \<times> OSStatus) option" where
  "rtos_unlock_mutex mutex s = map_option (\<lambda>(s, _). (s, RT_EOK)) (on_kernel (rt_mutex_release mutex) s)"

definition rtos_deinit_mutex :: "nat option \<Rightarrow> rtos \<Rightarrow> (rtos \<times> nat option \<times> OSStatus) option" where
  "rtos_deinit_mutex mutex s = (case mutex of
     None \<Rightarrow> Some (s, None, RT_EOK)
   | Some m \<Rightarrow> map_option (\<lambda>(s, _). (s\<lparr>rtos_mutex_cnt := rtos_mutex_cnt s - 1\<rparr>, None, RT_EOK))
       (on_kernel (rt_mutex_delete m) s))"

section \<open>Message queues\<close>

text \<open>\<open>node\<close>: whether the queue itself can be allocated; the other arguments are what the
  allocations of the mailbox and of the pool return. On failure the caller keeps a pointer to the
  freed queue, if there was one.\<close>

definition rtos_init_queue ::
  "rt_uint32 \<Rightarrow> rt_uint32 \<Rightarrow> bool \<Rightarrow> nat option \<Rightarrow> rt_uint32 list option \<Rightarrow> nat option \<Rightarrow> rt_uint32 option \<Rightarrow>
     rtos \<Rightarrow> (rtos \<times> beken_queue option \<times> OSStatus) option" where
  "rtos_init_queue msg_size num node mb_obj mb_area mp_obj mp_area s =
     (if \<not> node then Some (s, None, kGeneralErr)
      else do {
        (s, h) \<leftarrow> on_kernel (rt_mb_create (ascii ''rtos_queue'') num RT_IPC_FLAG_FIFO mb_obj mb_area) s;
        (case h of
           None \<Rightarrow> Some (s, None, kGeneralErr)
         | Some i \<Rightarrow> do {
             (s, p) \<leftarrow> on_pools (rt_mp_create (ascii ''rtos_queue'') num msg_size mp_obj mp_area) s;
             (case p of
                None \<Rightarrow> map_option (\<lambda>(s, _). (s, None, kGeneralErr)) (on_kernel (rt_mb_delete i) s)
              | Some j \<Rightarrow> Some (s, Some \<lparr>handle = Some i, mp = Some j, message_size = msg_size,
                  number_of_messages = num\<rparr>, kNoErr))
           })
      })"

text \<open>A push waits for a block, or with the block at \<open>b\<close> for room in the mailbox.\<close>

datatype push_outcome = PushDone OSStatus | PushAlloc int rt_uint32 | PushSend rt_uint32 int rt_uint32

definition push_sent :: "rt_uint32 \<Rightarrow> rtos \<Rightarrow> msg_outcome \<Rightarrow> (rtos \<times> push_outcome) option" where
  "push_sent b s r = (case r of
     MWait time delta \<Rightarrow> Some (s, PushSend b time delta)
   | MDone e \<Rightarrow>
       (if e \<noteq> RT_EOK then map_option (\<lambda>(s, _). (s, PushDone kGeneralErr)) (mp_free b s)
        else Some (s, PushDone kNoErr)))"

definition push_alloced ::
  "beken_queue \<Rightarrow> rt_uint8 list \<Rightarrow> int \<Rightarrow> rtos \<Rightarrow> mp_outcome \<Rightarrow> (rtos \<times> push_outcome) option" where
  "push_alloced q msg tick s r = (case r of
     MpWait time before \<Rightarrow> Some (s, PushAlloc time before)
   | MpDone None \<Rightarrow> Some (s, PushDone kGeneralErr)
   | MpDone (Some b) \<Rightarrow> do {
       h \<leftarrow> handle q;
       let s = s\<lparr>r_data := (r_data s)(b := take (unat (message_size q)) msg)\<rparr>;
       (s, r) \<leftarrow> on_kernel (rt_mb_send_wait h b tick) s;
       push_sent b s r
     })"

definition rtos_push_to_queue ::
  "beken_queue \<Rightarrow> rt_uint8 list \<Rightarrow> rt_uint32 \<Rightarrow> rtos \<Rightarrow> (rtos \<times> push_outcome) option" where
  "rtos_push_to_queue q msg timeout_ms s = do {
     tick \<leftarrow> ticks timeout_ms;
     i \<leftarrow> mp q;
     (s, r) \<leftarrow> on_pools (rt_mp_alloc i tick) s;
     push_alloced q msg tick s r
   }"

definition rtos_push_alloc_leave ::
  "beken_queue \<Rightarrow> rt_uint8 list \<Rightarrow> rt_uint32 \<Rightarrow> int \<Rightarrow> rt_uint32 \<Rightarrow> tid \<Rightarrow> rtos \<Rightarrow> (rtos \<times> push_outcome) option" where
  "rtos_push_alloc_leave q msg timeout_ms time before t s = do {
     tick \<leftarrow> ticks timeout_ms;
     i \<leftarrow> mp q;
     (s, r) \<leftarrow> on_pools (rt_mp_alloc_leave i time before t) s;
     push_alloced q msg tick s r
   }"

definition rtos_push_send_leave ::
  "beken_queue \<Rightarrow> rt_uint32 \<Rightarrow> int \<Rightarrow> rt_uint32 \<Rightarrow> tid \<Rightarrow> rtos \<Rightarrow> (rtos \<times> push_outcome) option" where
  "rtos_push_send_leave q b time delta t s = do {
     h \<leftarrow> handle q;
     (s, r) \<leftarrow> on_kernel (rt_mb_send_leave h b time delta t) s;
     push_sent b s r
   }"

definition rtos_push_to_queue_front :: "beken_queue \<Rightarrow> rt_uint8 list \<Rightarrow> rt_uint32 \<Rightarrow> OSStatus" where
  "rtos_push_to_queue_front q msg timeout_ms = kGeneralErr"

text \<open>A pop is done, with the bytes of the message when there is one, or waits.\<close>

datatype pop_outcome = PopDone OSStatus "rt_uint8 list option" | PopWait int rt_uint32

definition pop_received ::
  "beken_queue \<Rightarrow> rtos \<Rightarrow> msg_outcome \<times> rt_uint32 option \<Rightarrow> (rtos \<times> pop_outcome) option" where
  "pop_received q s = (\<lambda>(r, value). case r of
     MWait time delta \<Rightarrow> Some (s, PopWait time delta)
   | MDone e \<Rightarrow>
       (if e \<noteq> RT_EOK then Some (s, PopDone kGeneralErr None)
        else (case value of
            None \<Rightarrow> None
          | Some b \<Rightarrow>
              (if b = 0 then Some (s, PopDone kGeneralErr None)
               else map_option (\<lambda>(s', _). (s', PopDone kNoErr (Some (take (unat (message_size q)) (r_data s b)))))
                 (mp_free b s)))))"

definition rtos_pop_from_queue :: "beken_queue \<Rightarrow> rt_uint32 \<Rightarrow> rtos \<Rightarrow> (rtos \<times> pop_outcome) option" where
  "rtos_pop_from_queue q timeout_ms s = do {
     tick \<leftarrow> ticks timeout_ms;
     h \<leftarrow> handle q;
     (s, r) \<leftarrow> on_kernel (rt_mb_recv h tick) s;
     pop_received q s r
   }"

definition rtos_pop_leave ::
  "beken_queue \<Rightarrow> int \<Rightarrow> rt_uint32 \<Rightarrow> tid \<Rightarrow> rtos \<Rightarrow> (rtos \<times> pop_outcome) option" where
  "rtos_pop_leave q time delta t s = do {
     h \<leftarrow> handle q;
     (s, r) \<leftarrow> on_kernel (rt_mb_recv_leave h time delta t) s;
     pop_received q s r
   }"

definition rtos_deinit_queue :: "beken_queue \<Rightarrow> rtos \<Rightarrow> (rtos \<times> OSStatus) option" where
  "rtos_deinit_queue q s = do {
     s \<leftarrow> (case handle q of None \<Rightarrow> Some s | Some i \<Rightarrow> map_option fst (on_kernel (rt_mb_delete i) s));
     s \<leftarrow> (case mp q of None \<Rightarrow> Some s | Some i \<Rightarrow> map_option fst (on_pools (rt_mp_delete i) s));
     Some (s, kNoErr)
   }"

definition rtos_is_queue_empty :: "beken_queue \<Rightarrow> rtos \<Rightarrow> (rtos \<times> bool) option" where
  "rtos_is_queue_empty q s = do {
     h \<leftarrow> handle q;
     on_kernel (\<lambda>k. let k = rt_enter_critical k; b = (mb_entry (k_mb k h) = 0)
       in map_option (\<lambda>k. (k, b)) (rt_exit_critical k)) s
   }"

definition rtos_is_queue_full :: "beken_queue \<Rightarrow> rtos \<Rightarrow> (rtos \<times> bool) option" where
  "rtos_is_queue_full q s = do {
     h \<leftarrow> handle q;
     on_kernel (\<lambda>k. let k = rt_enter_critical k; b = (mb_entry (k_mb k h) = mb_size (k_mb k h))
       in map_option (\<lambda>k. (k, b)) (rt_exit_critical k)) s
   }"

section \<open>Timers\<close>

text \<open>The functions a timer calls are named by numbers; a call is the function with its
  arguments. \<open>cb\<close> names the callback of the kernel timer, with the timer as its parameter.\<close>

record beken2_timer =
  t2_handle :: "timer_ref option"
  t2_function :: "nat option"
  left_arg :: rt_uint32
  right_arg :: rt_uint32
  beken_magic :: rt_uint32

record beken_timer =
  tm_handle :: "timer_ref option"
  tm_function :: "nat option"
  tm_arg :: rt_uint32

definition timer_oneshot_callback :: "beken2_timer \<Rightarrow> (nat \<times> rt_uint32 \<times> rt_uint32) option" where
  "timer_oneshot_callback tm =
     (if beken_magic tm \<noteq> BEKEN_MAGIC_WORD then None
      else map_option (\<lambda>f. (f, left_arg tm, right_arg tm)) (t2_function tm))"

definition timer_period_callback :: "beken_timer \<Rightarrow> (nat \<times> rt_uint32) option" where
  "timer_period_callback tm = map_option (\<lambda>f. (f, tm_arg tm)) (tm_function tm)"

definition start_handle :: "timer_ref option \<Rightarrow> rtos \<Rightarrow> (rtos \<times> OSStatus) option" where
  "start_handle h s = (case h of
     None \<Rightarrow> Some (s, RT_ERROR)
   | Some t \<Rightarrow> map_option (\<lambda>(s, _). (s, RT_EOK)) (on_kernel (rt_timer_start t) s))"

definition stop_handle :: "OSStatus \<Rightarrow> timer_ref option \<Rightarrow> rtos \<Rightarrow> rtos \<times> OSStatus" where
  "stop_handle failed h s = (case h of
     None \<Rightarrow> (s, failed)
   | Some t \<Rightarrow> (s\<lparr>r_kernel := fst (rt_timer_stop t (r_kernel s))\<rparr>, kNoErr))"

definition handle_running :: "timer_ref option \<Rightarrow> rtos \<Rightarrow> bool option" where
  "handle_running h s = map_option (\<lambda>t. obj_flag (k_object (r_kernel s) (OTimer t)) AND RT_TIMER_FLAG_ACTIVATED \<noteq> 0) h"

text \<open>Both branches start the timer again.\<close>

definition reload_handle :: "timer_ref option \<Rightarrow> rtos \<Rightarrow> (rtos \<times> OSStatus) option" where
  "reload_handle h s = do {
     running \<leftarrow> handle_running h s;
     t \<leftarrow> h;
     (if running then map_option (\<lambda>(s, _). (s, kNoErr)) (on_kernel (rt_timer_start t) s)
      else map_option (\<lambda>(s, _). (s, kNoErr)) (on_kernel (rt_timer_start t) s))
   }"

definition rtos_start_oneshot_timer :: "beken2_timer \<Rightarrow> rtos \<Rightarrow> (rtos \<times> OSStatus) option" where
  "rtos_start_oneshot_timer tm = start_handle (t2_handle tm)"

definition rtos_stop_oneshot_timer :: "beken2_timer \<Rightarrow> rtos \<Rightarrow> rtos \<times> OSStatus" where
  "rtos_stop_oneshot_timer tm = stop_handle kGeneralErr (t2_handle tm)"

definition rtos_is_oneshot_timer_init :: "beken2_timer \<Rightarrow> bool" where
  "rtos_is_oneshot_timer_init tm \<longleftrightarrow> t2_handle tm \<noteq> None"

definition rtos_is_oneshot_timer_running :: "beken2_timer \<Rightarrow> rtos \<Rightarrow> bool option" where
  "rtos_is_oneshot_timer_running tm = handle_running (t2_handle tm)"

definition rtos_oneshot_reload_timer :: "beken2_timer \<Rightarrow> rtos \<Rightarrow> (rtos \<times> OSStatus) option" where
  "rtos_oneshot_reload_timer tm = reload_handle (t2_handle tm)"

definition rtos_init_oneshot_timer ::
  "rt_uint32 \<Rightarrow> nat option \<Rightarrow> rt_uint32 \<Rightarrow> rt_uint32 \<Rightarrow> nat \<Rightarrow> timer_ref option \<Rightarrow> rtos \<Rightarrow>
     (rtos \<times> beken2_timer \<times> OSStatus) option" where
  "rtos_init_oneshot_timer time_ms fn larg rarg cb mem s = do {
     tick \<leftarrow> ticks time_ms;
     (s, h) \<leftarrow> on_kernel (rt_timer_create (ascii ''rtos_oneshot_time'') (UserTimeout cb) (of_int tick)
       RT_TIMER_FLAG_SOFT_TIMER mem) s;
     Some (s, \<lparr>t2_handle = h, t2_function = fn, left_arg = larg, right_arg = rarg, beken_magic = BEKEN_MAGIC_WORD\<rparr>,
           if h = None then kGeneralErr else kNoErr)
   }"

definition rtos_deinit_free_beken_timer :: "beken2_timer \<Rightarrow> beken2_timer" where
  "rtos_deinit_free_beken_timer tm =
     tm\<lparr>t2_handle := None, t2_function := None, left_arg := 0, right_arg := 0, beken_magic := 0\<rparr>"

text \<open>A timer whose callback runs is only marked; the timer thread deletes it afterwards.\<close>

definition rtos_deinit_oneshot_timer :: "beken2_timer \<Rightarrow> rtos \<Rightarrow> (rtos \<times> beken2_timer \<times> OSStatus) option" where
  "rtos_deinit_oneshot_timer tm s = do {
     t \<leftarrow> t2_handle tm;
     (if obj_flag (k_object (r_kernel s) (OTimer t)) AND RT_TIMER_FLAG_RUNNING \<noteq> 0
      then Some (s\<lparr>r_kernel := upd_flag (OTimer t) (\<lambda>f. f OR RT_TIMER_FLAG_FREE_PENDING) (r_kernel s)\<rparr>,
                 tm\<lparr>t2_handle := None, beken_magic := 0\<rparr>, kNoErr)
      else do {
        (s, e) \<leftarrow> on_kernel (rt_timer_delete t) s;
        Some (s, if e \<noteq> RT_EOK then tm else rtos_deinit_free_beken_timer tm, if e \<noteq> RT_EOK then RT_ERROR else kNoErr)
      })
   }"

definition rtos_start_timer :: "beken_timer \<Rightarrow> rtos \<Rightarrow> (rtos \<times> OSStatus) option" where
  "rtos_start_timer tm = start_handle (tm_handle tm)"

definition rtos_stop_timer :: "beken_timer \<Rightarrow> rtos \<Rightarrow> rtos \<times> OSStatus" where
  "rtos_stop_timer tm = stop_handle RT_ERROR (tm_handle tm)"

definition rtos_is_timer_init :: "beken_timer \<Rightarrow> bool" where
  "rtos_is_timer_init tm \<longleftrightarrow> tm_handle tm \<noteq> None"

definition rtos_is_timer_running :: "beken_timer \<Rightarrow> rtos \<Rightarrow> bool option" where
  "rtos_is_timer_running tm = handle_running (tm_handle tm)"

definition rtos_reload_timer :: "beken_timer \<Rightarrow> rtos \<Rightarrow> (rtos \<times> OSStatus) option" where
  "rtos_reload_timer tm = reload_handle (tm_handle tm)"

definition rtos_change_period :: "beken_timer \<Rightarrow> rt_uint32 \<Rightarrow> rtos \<Rightarrow> (rtos \<times> OSStatus) option" where
  "rtos_change_period tm time_ms s = do {
     tick \<leftarrow> ticks time_ms;
     t \<leftarrow> tm_handle tm;
     let s = s\<lparr>r_kernel := fst (rt_timer_control t (RT_TIMER_CTRL_SET_TIME (of_int tick)) (r_kernel s))\<rparr>;
     map_option (\<lambda>(s, _). (s, kNoErr)) (on_kernel (rt_timer_start t) s)
   }"

definition rtos_init_timer_ex ::
  "rt_uint8 list \<Rightarrow> rt_uint32 \<Rightarrow> nat option \<Rightarrow> rt_uint32 \<Rightarrow> nat \<Rightarrow> timer_ref option \<Rightarrow> rtos \<Rightarrow>
     (rtos \<times> beken_timer \<times> OSStatus) option" where
  "rtos_init_timer_ex nm time_ms fn arg cb mem s = do {
     tick \<leftarrow> ticks time_ms;
     (s, h) \<leftarrow> on_kernel (rt_timer_create nm (UserTimeout cb) (of_int tick)
       (RT_TIMER_FLAG_PERIODIC OR RT_TIMER_FLAG_SOFT_TIMER) mem) s;
     Some (s, \<lparr>tm_handle = h, tm_function = fn, tm_arg = arg\<rparr>, if h = None then kNoErr else kNoErr)
   }"

definition rtos_init_timer ::
  "rt_uint32 \<Rightarrow> nat option \<Rightarrow> rt_uint32 \<Rightarrow> nat \<Rightarrow> timer_ref option \<Rightarrow> rtos \<Rightarrow> (rtos \<times> beken_timer \<times> OSStatus) option" where
  "rtos_init_timer time_ms fn arg cb mem s = do {
     tick \<leftarrow> ticks time_ms;
     (s, h) \<leftarrow> on_kernel (rt_timer_create (ascii ''rtos_period_time'') (UserTimeout cb) (of_int tick)
       (RT_TIMER_FLAG_PERIODIC OR RT_TIMER_FLAG_SOFT_TIMER) mem) s;
     Some (s, \<lparr>tm_handle = h, tm_function = fn, tm_arg = arg\<rparr>, if h = None then kNoErr else kNoErr)
   }"

definition rtos_deinit_timer :: "beken_timer \<Rightarrow> rtos \<Rightarrow> (rtos \<times> beken_timer \<times> OSStatus) option" where
  "rtos_deinit_timer tm s = do {
     t \<leftarrow> tm_handle tm;
     (s, e) \<leftarrow> on_kernel (rt_timer_delete t) s;
     Some (s, if e \<noteq> RT_EOK then tm else \<lparr>tm_handle = None, tm_function = None, tm_arg = 0\<rparr>,
           if e \<noteq> RT_EOK then kGeneralErr else kNoErr)
   }"

definition rtos_get_timer_expiry_time :: "beken_timer \<Rightarrow> rt_uint32" where
  "rtos_get_timer_expiry_time tm = 0"

section \<open>A queue of messages\<close>

text \<open>What a queue holds: the payloads of the blocks in the mailbox, in order. The blocks in use
  are those in the mailbox, and nobody is counted as waiting for one.\<close>

definition queue_messages :: "beken_queue \<Rightarrow> rtos \<Rightarrow> rt_uint8 list list" where
  "queue_messages q s = map (r_data s) (mb_contents (k_mb (r_kernel s) (the (handle q))))"

definition queue_ok :: "beken_queue \<Rightarrow> rtos \<Rightarrow> bool" where
  "queue_ok q s \<longleftrightarrow> (\<exists>h i. handle q = Some h \<and> mp q = Some i \<and> kinv (r_kernel s) \<and>
     rt_current_thread (r_kernel s) \<noteq> None \<and> mb_ok (k_mb (r_kernel s) h) \<and> mp_ok i (r_pools s) \<and>
     mp_suspend_count (mp_pool (r_pools s) i) = 0 \<and>
     unat (mb_size (k_mb (r_kernel s) h)) = unat (number_of_messages q) \<and>
     mp_total_count (mp_pool (r_pools s) i) = number_of_messages q \<and>
     distinct (mb_contents (k_mb (r_kernel s) h)) \<and>
     set (mb_contents (k_mb (r_kernel s) h)) = (\<lambda>b. b + 4) ` mp_used i (r_pools s) \<and>
     (\<forall>b \<in> mp_blocks (mp_pool (r_pools s) i). b + 4 \<noteq> 0) \<and>
     (\<forall>b \<in> mp_used i (r_pools s). length (r_data s (b + 4)) = unat (message_size q)))"

lemma inj_add4: "inj_on (\<lambda>b :: rt_uint32. b + 4) A"
  by (auto simp: inj_on_def)

lemma queue_free:
  assumes "distinct cs" "set cs = (\<lambda>b. b + 4) ` mp_used i P" "mp_rep i P fs"
    "unat (mp_total_count (mp_pool P i)) = n"
  shows "length cs + length fs = n"
proof -
  have "length cs = card (mp_used i P)"
    using assms(1,2) distinct_card[of cs] card_image[OF inj_add4, of "mp_used i P"] by simp
  then show ?thesis using mp_rep_used(2)[OF assms(3)] assms(4) by simp
qed

lemma push_spec:
  assumes ok: "queue_ok q s" and room: "length (queue_messages q s) < unat (number_of_messages q)"
    and tick: "ticks timeout_ms = Some tick" and msg: "unat (message_size q) \<le> length msg"
  shows "\<exists>s'. rtos_push_to_queue q msg timeout_ms s = Some (s', PushDone kNoErr) \<and> queue_ok q s' \<and>
    queue_messages q s' = queue_messages q s @ [take (unat (message_size q)) msg]"
proof -
  obtain P k where P: "P = r_pools s" and k: "k = r_kernel s" by simp
  obtain h i where q: "handle q = Some h" "mp q = Some i" "kinv k" "rt_current_thread k \<noteq> None" "mb_ok (k_mb k h)"
    "mp_ok i P" "mp_suspend_count (mp_pool P i) = 0" "unat (mb_size (k_mb k h)) = unat (number_of_messages q)"
    "mp_total_count (mp_pool P i) = number_of_messages q" "distinct (mb_contents (k_mb k h))"
    "set (mb_contents (k_mb k h)) = (\<lambda>b. b + 4) ` mp_used i P" "\<forall>b \<in> mp_blocks (mp_pool P i). b + 4 \<noteq> 0"
    "\<forall>b \<in> mp_used i P. length (r_data s (b + 4)) = unat (message_size q)"
    using ok unfolding queue_ok_def P k by blast
  let ?cs = "mb_contents (k_mb k h)"
  have len: "length ?cs < unat (number_of_messages q)" using room by (simp add: queue_messages_def q(1) k[symmetric])
  obtain fs where rep: "mp_rep i P fs" using q(6) by (auto simp: mp_ok_def)
  then obtain b fs' where fs: "fs = b # fs'"
    using queue_free[OF q(10,11) rep] q(9) len by (cases fs) auto
  obtain P' where t: "mp_take i P = Some (b, P')" "mp_rep i P' fs'" "mp_used i P' = insert b (mp_used i P)"
    "b \<notin> mp_used i P" "b \<in> mp_blocks (mp_pool P i)"
    "mp_pool P' = (mp_pool P)(i := (mp_pool P i)\<lparr>mp_free_count := mp_free_count (mp_pool P i) - 1,
       mp_block_list := mp_next P b\<rparr>)"
    by (rule mp_take_spec[OF rep[unfolded fs]]) (rule that; assumption)
  have alloc: "rt_mp_alloc i tick (P, k) = Some ((P', k), MpDone (Some (b + 4)))"
    using t(1) mp_free_count_used(1)[OF rep] fs by (simp add: rt_mp_alloc_def mp_alloc_loop_def)
  have ne: "mb_entry (k_mb k h) \<noteq> mb_size (k_mb k h)" using len q(8) by auto
  obtain k' where k': "mb_send_loop h (b + 4) tick 0 (rt_thread_self k) k = Some (k', MDone RT_EOK)" "kinv k'"
    "k_mb k' = (k_mb k)(h := mb_put (b + 4) (k_mb k h))" "rt_current_thread k' \<noteq> None"
    by (rule mb_send_room[OF q(3,5) ne q(4)]) (rule that; assumption)
  define s' where "s' = s\<lparr>r_pools := P', r_kernel := k', r_data := (r_data s)(b + 4 := take (unat (message_size q)) msg)\<rparr>"
  have "rtos_push_to_queue q msg timeout_ms s = Some (s', PushDone kNoErr)"
    using tick q(1,2) alloc k'(1) ne
    by (simp add: rtos_push_to_queue_def on_pools_def on_kernel_def P[symmetric] k[symmetric] push_alloced_def
        push_sent_def rt_mb_send_wait_def s'_def)
  moreover note m = mb_put_spec[OF q(5) ne, of "b + 4"]
  have c: "b + 4 \<notin> set ?cs" using t(4) q(11) by auto
  have bl: "mp_blocks (mp_pool P' i) = mp_blocks (mp_pool P i)"
    by (rule mp_blocks_cong) (simp_all add: t(6))
  have "queue_ok q s'"
    unfolding queue_ok_def
    using q t(2,3,6) k' m c bl msg
    by (intro exI[of _ h] exI[of _ i]) (auto simp: s'_def mp_ok_def)
  moreover have "queue_messages q s' = queue_messages q s @ [take (unat (message_size q)) msg]"
    using c by (auto simp: queue_messages_def q(1) k[symmetric] s'_def k'(3) m(2))
  ultimately show ?thesis by blast
qed

lemma pop_spec:
  assumes ok: "queue_ok q s" and ms: "queue_messages q s = m # ms" and tick: "ticks timeout_ms = Some tick"
  shows "\<exists>s'. rtos_pop_from_queue q timeout_ms s = Some (s', PopDone kNoErr (Some m)) \<and> queue_ok q s' \<and>
    queue_messages q s' = ms"
proof -
  obtain P k where P: "P = r_pools s" and k: "k = r_kernel s" by simp
  obtain h i where q: "handle q = Some h" "mp q = Some i" "kinv k" "rt_current_thread k \<noteq> None" "mb_ok (k_mb k h)"
    "mp_ok i P" "mp_suspend_count (mp_pool P i) = 0" "unat (mb_size (k_mb k h)) = unat (number_of_messages q)"
    "mp_total_count (mp_pool P i) = number_of_messages q" "distinct (mb_contents (k_mb k h))"
    "set (mb_contents (k_mb k h)) = (\<lambda>b. b + 4) ` mp_used i P" "\<forall>b \<in> mp_blocks (mp_pool P i). b + 4 \<noteq> 0"
    "\<forall>b \<in> mp_used i P. length (r_data s (b + 4)) = unat (message_size q)"
    using ok unfolding queue_ok_def P k by blast
  let ?cs = "mb_contents (k_mb k h)"
  have cs: "map (r_data s) ?cs = m # ms" using ms by (simp add: queue_messages_def q(1) k[symmetric])
  have "unat (mb_entry (k_mb k h)) = Suc (length ms)" using arg_cong[OF cs, of length] by simp
  then have ne: "mb_entry (k_mb k h) \<noteq> 0" by auto
  note g = mb_get_spec[OF q(5) ne]
  obtain k' where k': "mb_recv_loop h tick 0 (rt_thread_self k) k = Some (k', MDone RT_EOK, Some (hd ?cs))" "kinv k'"
    "k_mb k' = (k_mb k)(h := fst (mb_get (k_mb k h)))" "rt_current_thread k' \<noteq> None"
    by (rule mb_recv_mail[OF q(3,5) ne q(4)]) (rule that; assumption)
  define c where "c = snd (mb_get (k_mb k h))"
  have cc: "?cs = c # mb_contents (fst (mb_get (k_mb k h)))" using g(2) by (simp add: c_def)
  have "c \<in> set ?cs" unfolding cc by simp
  then obtain b where b: "c = b + 4" "b \<in> mp_used i P" unfolding q(11) by blast
  have bb: "b \<in> mp_blocks (mp_pool P i)" using b(2) by (simp add: mp_used_def)
  obtain fs where rep: "mp_rep i P fs" using q(6) by (auto simp: mp_ok_def)
  note gv = mp_give_spec[OF rep b(2)]
  define s' where "s' = s\<lparr>r_pools := mp_give i b P, r_kernel := k'\<rparr>"
  have md: "m = r_data s c" "ms = map (r_data s) (mb_contents (fst (mb_get (k_mb k h))))" using cs unfolding cc by simp_all
  have lm: "take (unat (message_size q)) (r_data s c) = m" using q(13) b md(1) by simp
  have run: "rtos_pop_from_queue q timeout_ms s = Some (s', PopDone kNoErr (Some m))"
    using tick q(1) k'(1) ne cc b q(12) bb lm mp_free_idle[OF b(2) q(7), of k']
    by (simp add: rtos_pop_from_queue_def on_kernel_def k[symmetric] rt_mb_recv_def pop_received_def mp_free_def
        on_pools_def P[symmetric] s'_def)
  have tot: "mp_total_count (mp_pool (mp_give i b P) i) = mp_total_count (mp_pool P i)"
    "mp_suspend_count (mp_pool (mp_give i b P) i) = mp_suspend_count (mp_pool P i)"
    by (simp_all add: mp_give_def upd_mp_def set_link_def)
  have "set (mb_contents (fst (mb_get (k_mb k h)))) = set ?cs - {c}" using q(10) unfolding cc by auto
  also have "\<dots> = (\<lambda>b. b + 4) ` (mp_used i P - {b})" unfolding q(11) b(1) by auto
  finally have "set (mb_contents (fst (mb_get (k_mb k h)))) = (\<lambda>b. b + 4) ` (mp_used i P - {b})" .
  moreover have "distinct (mb_contents (fst (mb_get (k_mb k h))))" using q(10) unfolding cc by simp
  moreover have "mp_ok i (mp_give i b P)" using gv(1) unfolding mp_ok_def by blast
  ultimately have "queue_ok q s'"
    unfolding queue_ok_def
    by (intro exI[of _ h] exI[of _ i]) (simp add: s'_def q(1,2,7-9,12,13) k'(2-4) g(1,3) gv(2,3) tot)
  moreover have "queue_messages q s' = ms"
    by (simp add: queue_messages_def q(1) s'_def k'(3) md(2))
  ultimately show ?thesis by (intro exI[of _ s'] conjI run)
qed

section \<open>Properties\<close>

text \<open>C23. A push to a queue with room appends the message, as many bytes of it as the queue's
  messages have, whatever the time-out.\<close>

theorem queue_push:
  assumes "queue_ok q s" "length (queue_messages q s) < unat (number_of_messages q)"
    "ticks timeout_ms = Some tick" "unat (message_size q) \<le> length msg"
  shows "\<exists>s'. rtos_push_to_queue q msg timeout_ms s = Some (s', PushDone kNoErr) \<and> queue_ok q s' \<and>
    queue_messages q s' = queue_messages q s @ [take (unat (message_size q)) msg]"
  by (rule push_spec[OF assms])

text \<open>C24. A pop returns the oldest message, byte for byte, and frees its block.\<close>

theorem queue_pop:
  assumes "queue_ok q s" "queue_messages q s = m # ms" "ticks timeout_ms = Some tick"
  shows "\<exists>s'. rtos_pop_from_queue q timeout_ms s = Some (s', PopDone kNoErr (Some m)) \<and> queue_ok q s' \<and>
    queue_messages q s' = ms"
  by (rule pop_spec[OF assms])

text \<open>Without waiting, a push to a full queue and a pop from an empty one fail and leave the messages.\<close>

theorem queue_bounds:
  assumes "queue_ok q s"
  shows "(length (queue_messages q s) = unat (number_of_messages q) \<longrightarrow>
      (\<exists>s'. rtos_push_to_queue q msg 0 s = Some (s', PushDone kGeneralErr) \<and> queue_messages q s' = queue_messages q s)) \<and>
    (queue_messages q s = [] \<longrightarrow> rtos_pop_from_queue q 0 s = Some (s, PopDone kGeneralErr None))"
proof -
  have t0: "ticks 0 = Some 0" by (simp add: ticks_def rt_tick_from_millisecond_def)
  obtain h i where q: "handle q = Some h" "mp q = Some i" "mp_ok i (r_pools s)"
    "mp_total_count (mp_pool (r_pools s) i) = number_of_messages q" "distinct (mb_contents (k_mb (r_kernel s) h))"
    "set (mb_contents (k_mb (r_kernel s) h)) = (\<lambda>b. b + 4) ` mp_used i (r_pools s)"
    using assms unfolding queue_ok_def by blast
  obtain fs where rep: "mp_rep i (r_pools s) fs" using q(3) by (auto simp: mp_ok_def)
  have "mp_free_count (mp_pool (r_pools s) i) = 0" if "length (queue_messages q s) = unat (number_of_messages q)"
  proof -
    have "fs = []" using queue_free[OF q(5,6) rep] q(4) that by (simp add: queue_messages_def q(1))
    then show ?thesis using mp_free_count_used(1)[OF rep] by simp
  qed
  moreover have "mb_entry (k_mb (r_kernel s) h) = 0" if "queue_messages q s = []"
  proof -
    have "length (mb_contents (k_mb (r_kernel s) h)) = 0" using that by (simp add: queue_messages_def q(1))
    then show ?thesis by (simp add: unat_eq_zero)
  qed
  moreover have "k_mb (rt_set_errno e k) = k_mb k" for e k
    by (auto simp: rt_set_errno_def split: option.split)
  ultimately show ?thesis
    using t0 q(1,2) by (auto simp: rtos_push_to_queue_def on_pools_def rt_mp_alloc_def mp_alloc_loop_def push_alloced_def
        queue_messages_def rtos_pop_from_queue_def on_kernel_def rt_mb_recv_def pop_received_def)
qed

text \<open>C25. A push that waits for a block of a full queue and times out is still counted as waiting:
  the next pop frees a block, finds the count above zero and uses the head of the empty waiting
  list as a thread.\<close>

theorem queue_timeout_breaks_pop:
  assumes ok: "queue_ok q s" and full: "length (queue_messages q s) = unat (number_of_messages q)"
    and n: "number_of_messages q \<noteq> 0" and cb: "can_block t (r_kernel s)"
    and tick: "ticks timeout_ms = Some tick" "0 < tick" "tick < 2 ^ 31 - 1"
    and nobody: "tlist_of (r_kernel s) (mp_queue (the (mp q))) = []"
  shows "\<exists>s1 before k2 s3. rtos_push_to_queue q msg timeout_ms s = Some (s1, PushAlloc tick before) \<and>
    rt_thread_timeout t (row_remove (ThreadTimer t) (r_kernel s1)) = Some k2 \<and>
    rtos_push_alloc_leave q msg timeout_ms tick before t (s1\<lparr>r_kernel := k2\<rparr>) = Some (s3, PushDone kGeneralErr) \<and>
    queue_messages q s3 = queue_messages q s \<and> rtos_pop_from_queue q 0 s3 = None"
proof -
  obtain P k where P: "P = r_pools s" and k: "k = r_kernel s" by simp
  obtain h i where q: "handle q = Some h" "mp q = Some i" "kinv k" "mb_ok (k_mb k h)" "mp_ok i P"
    "mp_suspend_count (mp_pool P i) = 0" "mp_total_count (mp_pool P i) = number_of_messages q"
    "distinct (mb_contents (k_mb k h))" "set (mb_contents (k_mb k h)) = (\<lambda>b. b + 4) ` mp_used i P"
    "\<forall>b \<in> mp_blocks (mp_pool P i). b + 4 \<noteq> 0"
    using ok unfolding queue_ok_def P k by blast
  let ?cs = "mb_contents (k_mb k h)"
  have len: "length ?cs = unat (number_of_messages q)" using full by (simp add: queue_messages_def q(1) k[symmetric])
  obtain fs where rep: "mp_rep i P fs" using q(5) by (auto simp: mp_ok_def)
  have "fs = []" using queue_free[OF q(8,9) rep] q(7) len by simp
  then have none: "mp_free_count (mp_pool P i) = 0" using mp_free_count_used(1)[OF rep] by simp
  have self: "rt_thread_self k = Some t" using cb by (simp add: can_block_def rt_thread_self_def k)
  have nz: "tick \<noteq> 0" using tick(2) by simp
  let ?P = "upd_mp i (\<lambda>m. m\<lparr>mp_suspend_count := mp_suspend_count m + 1\<rparr>) P"
  obtain k1 where k1: "mp_alloc_loop i tick 0 (Some t) (P, k) = Some ((?P, k1), MpWait tick (if 0 < tick then rt_tick k else 0))"
    "kinv k1" "keeps k k1" "tlist_of k1 (mp_queue i) = t # tlist_of k (mp_queue i)"
    "k_thread k1 = (k_thread k)(t := suspended ((k_thread k t)\<lparr>th_error := RT_EOK\<rparr>))" "rt_current_thread k1 \<noteq> None"
    by (rule mp_alloc_wait[OF q(3) cb[folded k] none nz tick(3), where before = 0]) (rule that; assumption)
  let ?k0 = "row_remove (ThreadTimer t) k1"
  have st: "thread_state (k_thread ?k0 t) = RT_THREAD_SUSPEND" by (simp add: row_remove_def k1(5))
  have off: "ls_on (k_rows ?k0) (ThreadTimer t) = None" and cur: "rt_current_thread ?k0 \<noteq> None"
    using k1(6) by (simp_all add: row_remove_def)
  obtain k2 where k2: "rt_thread_timeout t ?k0 = Some k2" "kinv k2" "keeps ?k0 k2" "rt_current_thread k2 \<noteq> None"
    "\<And>h. tlist_of k2 h = (if h = ReadyQ (unat (current_priority (k_thread ?k0 t))) then tlist_of ?k0 h @ [t]
      else remove1 t (tlist_of ?k0 h))"
    "k_thread k2 = (k_thread ?k0)(t := (k_thread ?k0 t)\<lparr>th_error := - RT_ETIMEOUT,
       stat := RT_THREAD_READY OR (stat (k_thread ?k0 t) AND NOT RT_THREAD_STAT_MASK)\<rparr>)"
    by (rule timeout_suspended[OF kinv_row_remove[OF k1(2)] st off cur]) (rule that; assumption)
  have mb2: "k_mb k2 = k_mb k" using k1(3) k2(3) by (simp add: keeps_def row_remove_def)
  have nobody2: "tlist_of k2 (mp_queue i) = []"
    using nobody by (simp add: k2(5) row_remove_def k1(4) q(2) k[symmetric])
  define s1 where "s1 = s\<lparr>r_pools := ?P, r_kernel := k1\<rparr>"
  define s3 where "s3 = s1\<lparr>r_kernel := k2\<rparr>"
  have push: "rtos_push_to_queue q msg timeout_ms s = Some (s1, PushAlloc tick (rt_tick k))"
    using tick(1,2) q(2) k1(1) self
    by (simp add: rtos_push_to_queue_def on_pools_def P[symmetric] k[symmetric] rt_mp_alloc_def push_alloced_def s1_def)
  have leave: "rtos_push_alloc_leave q msg timeout_ms tick (rt_tick k) t (s1\<lparr>r_kernel := k2\<rparr>) = Some (s3, PushDone kGeneralErr)"
    using tick(1) q(2) k2(6)
    by (simp add: rtos_push_alloc_leave_def on_pools_def rt_mp_alloc_leave_def push_alloced_def s1_def s3_def)
  have "length ?cs \<noteq> 0" using len n by (simp add: unat_eq_zero)
  then have ne: "mb_entry (k_mb k h) \<noteq> 0" by auto
  then have ne2: "mb_entry (k_mb k2 h) \<noteq> 0" "mb_ok (k_mb k2 h)" using q(4) mb2 by simp_all
  obtain k' where k': "mb_recv_loop h 0 0 (rt_thread_self k2) k2 = Some (k', MDone RT_EOK, Some (hd (mb_contents (k_mb k2 h))))"
    "\<And>g. wait_head g \<Longrightarrow> g \<noteq> mb_senders h \<Longrightarrow> tlist_of k' g = tlist_of k2 g"
    by (rule mb_recv_mail[OF k2(2) ne2(2,1) k2(4)]) (rule that; assumption)
  obtain b where b: "hd ?cs = b + 4" "b \<in> mp_used i P" "b + 4 \<noteq> 0"
  proof -
    have "hd ?cs \<in> set ?cs" using \<open>length ?cs \<noteq> 0\<close> by (metis list.set_sel(1) list.size(3))
    then obtain b where "hd ?cs = b + 4" "b \<in> mp_used i P" using q(9) by auto
    then show ?thesis using that q(10) by (auto simp: mp_used_def)
  qed
  have stale: "rt_mp_free (b + 4) (?P, k') = None"
  proof (rule mp_free_stale)
    show "b \<in> mp_used i ?P" using b(2) by (simp add: mp_used_def upd_mp_def mp_blocks_def)
    show "mp_suspend_count (mp_pool ?P i) \<noteq> 0" using q(6) by (simp add: upd_mp_def)
    show "tlist_of k' (mp_queue i) = []" using k'(2)[of "mp_queue i"] nobody2 by simp
  qed
  have t0: "ticks 0 = Some 0" by (simp add: ticks_def rt_tick_from_millisecond_def)
  have "rtos_pop_from_queue q 0 s3 = None"
    using t0 q(1) k'(1) ne2 stale b mb2
    by (simp add: rtos_pop_from_queue_def on_kernel_def rt_mb_recv_def pop_received_def mp_free_def on_pools_def s3_def s1_def)
  moreover have "queue_messages q s3 = queue_messages q s"
    by (simp add: queue_messages_def s3_def s1_def q(1) mb2 k)
  moreover have "r_kernel s1 = k1" by (simp add: s1_def)
  ultimately show ?thesis using push leave k2(1) by metis
qed

text \<open>A timer that is deinitialised calls nobody any more, also when its callback is running and
  the kernel timer is only marked.\<close>

theorem oneshot_deinit_silent:
  assumes "rtos_deinit_oneshot_timer tm s = Some (s', tm', kNoErr)"
  shows "timer_oneshot_callback tm' = None \<and> \<not> rtos_is_oneshot_timer_init tm'"
  using assms by (auto simp: rtos_deinit_oneshot_timer_def timer_oneshot_callback_def rtos_is_oneshot_timer_init_def
      rtos_deinit_free_beken_timer_def split: if_splits)

text \<open>Initialising a periodic timer reports success also when no timer could be allocated.\<close>

theorem init_timer_never_fails:
  assumes "rtos_init_timer time_ms fn arg cb None s = Some (s', tm, e)"
  shows "e = kNoErr \<and> \<not> rtos_is_timer_init tm"
  using assms by (auto simp: rtos_init_timer_def on_kernel_def rt_timer_create_def rtos_is_timer_init_def
      bind_eq_Some_conv)

section \<open>Witnesses\<close>

text \<open>A queue of two messages of four bytes on mailbox 0 and a pool of two blocks.\<close>

definition pool_two :: mempools where
  "pool_two = mp_link_blocks 0x2000 4 2 \<lparr>mp_pool = (\<lambda>_. \<lparr>mp_start = 0x2000, mp_size = 16, mp_block_size = 4,
     mp_block_list = Some 0x2000, mp_total_count = 2, mp_free_count = 2, mp_suspend_count = 0\<rparr>), mp_mem = (\<lambda>_. NextBlock None)\<rparr>"

definition rtos_two :: rtos where
  "rtos_two = \<lparr>r_pools = pool_two, r_kernel = kernel_mail, r_data = (\<lambda>_. []), rtos_sem_cnt = 0, rtos_mutex_cnt = 0\<rparr>"

definition queue_two :: beken_queue where
  "queue_two = \<lparr>handle = Some 0, mp = Some 0, message_size = 4, number_of_messages = 2\<rparr>"

lemma pool_two: "mp_ok 0 pool_two" "mp_pool pool_two 0 = \<lparr>mp_start = 0x2000, mp_size = 16, mp_block_size = 4,
     mp_block_list = Some 0x2000, mp_total_count = 2, mp_free_count = 2, mp_suspend_count = 0\<rparr>"
  "mp_used 0 pool_two = {}"
proof -
  have rep: "mp_rep 0 pool_two (map (mp_addr 0x2000 4) [0..<unat (2 :: rt_uint32)])"
    unfolding pool_two_def by (rule mp_link_blocks_rep) simp_all
  then show "mp_ok 0 pool_two" unfolding mp_ok_def by blast
  have "card (mp_used 0 pool_two) + length (map (mp_addr 0x2000 4) [0..<unat (2 :: rt_uint32)]) = unat (2 :: rt_uint32)"
    using mp_rep_used(2)[OF rep] by (simp add: pool_two_def mp_link_blocks_def mp_link_loop_pool set_link_def)
  then have "card (mp_used 0 pool_two) = 0" by simp
  then show "mp_used 0 pool_two = {}" by (simp add: mp_used_def)
qed (simp add: pool_two_def mp_link_blocks_def mp_link_loop_pool set_link_def)

lemma queue_two: "queue_ok queue_two rtos_two" "queue_messages queue_two rtos_two = []"
proof -
  note k = kernel_mail_facts
  have mb: "mb_ok (k_mb kernel_mail 0)" using k(3,4) by (simp add: mb_inv_def)
  have cur: "rt_current_thread kernel_mail \<noteq> None" using k(2) by (simp add: can_block_def)
  have "\<forall>b \<in> mp_blocks (mp_pool pool_two 0). b + 4 \<noteq> 0"
  proof -
    have "{..<unat (2 :: rt_uint32)} = {0, 1}" by auto
    then show ?thesis by (simp add: mp_blocks_def pool_two(2) mp_addr_def)
  qed
  then show "queue_ok queue_two rtos_two"
    unfolding queue_ok_def
    by (intro exI[of _ 0] exI[of _ 0]) (simp add: queue_two_def rtos_two_def k(1,4,5) mb cur pool_two)
  show "queue_messages queue_two rtos_two = []" by (simp add: queue_messages_def queue_two_def rtos_two_def k(5))
qed

lemma ticks_small: "ticks 0 = Some 0" "ticks 5 = Some 5"
  by (simp_all add: ticks_def rt_tick_from_millisecond_def)

lemma queue_two_filled:
  obtains s1 s2 where "rtos_push_to_queue queue_two [1, 2, 3, 4] 0 rtos_two = Some (s1, PushDone kNoErr)"
    "rtos_push_to_queue queue_two [5, 6, 7, 8] 0 s1 = Some (s2, PushDone kNoErr)" "queue_ok queue_two s1"
    "queue_ok queue_two s2" "queue_messages queue_two s1 = [[1, 2, 3, 4]]"
    "queue_messages queue_two s2 = [[1, 2, 3, 4], [5, 6, 7, 8]]"
proof -
  have n: "unat (number_of_messages queue_two) = 2" "unat (message_size queue_two) = 4" by (simp_all add: queue_two_def)
  obtain s1 where s1: "rtos_push_to_queue queue_two [1, 2, 3, 4] 0 rtos_two = Some (s1, PushDone kNoErr)"
    "queue_ok queue_two s1" "queue_messages queue_two s1 = [[1, 2, 3, 4]]"
    using push_spec[OF queue_two(1) _ ticks_small(1), of "[1, 2, 3, 4]"] n queue_two(2) by auto
  obtain s2 where "rtos_push_to_queue queue_two [5, 6, 7, 8] 0 s1 = Some (s2, PushDone kNoErr)"
    "queue_ok queue_two s2" "queue_messages queue_two s2 = [[1, 2, 3, 4], [5, 6, 7, 8]]"
    using push_spec[OF s1(2) _ ticks_small(1), of "[5, 6, 7, 8]"] n s1(3) by auto
  then show ?thesis using that s1 by blast
qed

theorem queue_push_witness:
  "\<exists>s'. rtos_push_to_queue queue_two [1, 2, 3, 4, 9] 5 rtos_two = Some (s', PushDone kNoErr) \<and>
     queue_messages queue_two s' = [[1, 2, 3, 4]]"
proof -
  have "unat (number_of_messages queue_two) = 2" "unat (message_size queue_two) = 4" by (simp_all add: queue_two_def)
  then show ?thesis
    using queue_push[OF queue_two(1) _ ticks_small(2), of "[1, 2, 3, 4, 9]"] queue_two(2) by auto
qed

theorem queue_pop_witness:
  "\<exists>s s'. rtos_pop_from_queue queue_two 0 s = Some (s', PopDone kNoErr (Some [1, 2, 3, 4])) \<and>
     queue_messages queue_two s' = [[5, 6, 7, 8]]"
proof -
  obtain s1 s2 where s: "queue_ok queue_two s2" "queue_messages queue_two s2 = [[1, 2, 3, 4], [5, 6, 7, 8]]"
    by (rule queue_two_filled)
  show ?thesis using queue_pop[OF s ticks_small(1)] by blast
qed

theorem queue_bounds_witness: "rtos_pop_from_queue queue_two 0 rtos_two = Some (rtos_two, PopDone kGeneralErr None)"
  using queue_bounds[OF queue_two(1)] queue_two(2) by blast

text \<open>A queue whose only block holds a message.\<close>

definition rtos_full :: rtos where
  "rtos_full = \<lparr>r_pools = \<lparr>mp_pool = (\<lambda>_. \<lparr>mp_start = 0x2000, mp_size = 8, mp_block_size = 4, mp_block_list = None,
     mp_total_count = 1, mp_free_count = 0, mp_suspend_count = 0\<rparr>), mp_mem = (\<lambda>_. Owner 0)\<rparr>,
     r_kernel = kernel_two\<lparr>k_mb := (\<lambda>_. mb_put 0x2004 (mb_fresh [0] 1))\<rparr>,
     r_data = (\<lambda>_. [1, 2, 3, 4]), rtos_sem_cnt = 0, rtos_mutex_cnt = 0\<rparr>"

definition queue_one :: beken_queue where
  "queue_one = \<lparr>handle = Some 0, mp = Some 0, message_size = 4, number_of_messages = 1\<rparr>"

lemma queue_one:
  "queue_ok queue_one rtos_full" "queue_messages queue_one rtos_full = [[1, 2, 3, 4]]" "can_block 2 (r_kernel rtos_full)"
  "tlist_of (r_kernel rtos_full) (mp_queue 0) = []"
proof -
  let ?m = "mb_put 0x2004 (mb_fresh [0] 1)"
  have f: "mb_ok (mb_fresh [0] 1)" "mb_contents (mb_fresh [0] 1) = []" "mb_entry (mb_fresh [0] 1) \<noteq> mb_size (mb_fresh [0] 1)"
    using mb_fresh_ok[of 1 "[0]"] by (simp_all add: mb_fresh_def)
  note m = mb_put_spec[OF f(1,3), where v = "0x2004"]
  have sz: "mb_size ?m = 1" by (simp add: m(3)) (simp add: mb_fresh_def)
  let ?P = "r_pools rtos_full"
  have pool: "mp_pool ?P 0 = \<lparr>mp_start = 0x2000, mp_size = 8, mp_block_size = 4, mp_block_list = None,
     mp_total_count = 1, mp_free_count = 0, mp_suspend_count = 0\<rparr>" "mp_mem ?P b = Owner 0" for b
    by (simp_all add: rtos_full_def)
  have bl: "mp_blocks (mp_pool ?P 0) = {0x2000}" by (simp add: mp_blocks_def pool(1) mp_addr_def lessThan_Suc)
  have used: "mp_used 0 ?P = {0x2000}" by (simp add: mp_used_def bl pool(2))
  have "mp_rep 0 ?P []" unfolding mp_rep_def Let_def bl pool(2) by (simp add: pool(1))
  then have ok: "mp_ok 0 ?P" unfolding mp_ok_def by blast
  have k: "kinv (r_kernel rtos_full)" "rt_current_thread (r_kernel rtos_full) \<noteq> None" "k_mb (r_kernel rtos_full) 0 = ?m"
    by (simp_all add: rtos_full_def kinv_two kernel_two_facts)
  have d: "r_data rtos_full b = [1, 2, 3, 4]" for b by (simp add: rtos_full_def)
  show "queue_ok queue_one rtos_full"
    unfolding queue_ok_def
    by (intro exI[of _ 0] exI[of _ 0])
      (simp add: queue_one_def k(1,3) k(2)[simplified] m(1,2) sz f(2) ok used bl[unfolded pool(1)] pool(1) d)
  show "queue_messages queue_one rtos_full = [[1, 2, 3, 4]]"
    by (simp add: queue_messages_def queue_one_def k(3) m(2) f(2)) (simp add: rtos_full_def)
  show "can_block 2 (r_kernel rtos_full)" using can_block_two by (simp add: rtos_full_def can_block_def)
  show "tlist_of (r_kernel rtos_full) (mp_queue 0) = []" by (simp add: rtos_full_def kernel_two_facts)
qed

theorem queue_timeout_breaks_pop_witness:
  "\<exists>s1 before k2 s3. rtos_push_to_queue queue_one [5, 6, 7, 8] 5 rtos_full = Some (s1, PushAlloc 5 before) \<and>
     rt_thread_timeout 2 (row_remove (ThreadTimer 2) (r_kernel s1)) = Some k2 \<and>
     rtos_push_alloc_leave queue_one [5, 6, 7, 8] 5 5 before 2 (s1\<lparr>r_kernel := k2\<rparr>) = Some (s3, PushDone kGeneralErr) \<and>
     queue_messages queue_one s3 = [[1, 2, 3, 4]] \<and> rtos_pop_from_queue queue_one 0 s3 = None"
  using queue_timeout_breaks_pop[OF queue_one(1) _ _ queue_one(3) ticks_small(2), of "[5, 6, 7, 8]"] queue_one(2,4)
  by (simp add: queue_one_def)

theorem oneshot_deinit_silent_witness:
  "\<exists>s' tm'. rtos_deinit_oneshot_timer
       \<lparr>t2_handle = Some (Timer 0), t2_function = Some 3, left_arg = 1, right_arg = 2, beken_magic = BEKEN_MAGIC_WORD\<rparr>
       (rtos_two\<lparr>r_kernel := upd_flag (OTimer (Timer 0)) (\<lambda>_. RT_TIMER_FLAG_RUNNING) kernel_mail\<rparr>) = Some (s', tm', kNoErr) \<and>
     timer_oneshot_callback tm' = None"
proof -
  let ?t = "\<lparr>t2_handle = Some (Timer 0), t2_function = Some 3, left_arg = 1, right_arg = 2, beken_magic = BEKEN_MAGIC_WORD\<rparr>"
  let ?s = "rtos_two\<lparr>r_kernel := upd_flag (OTimer (Timer 0)) (\<lambda>_. RT_TIMER_FLAG_RUNNING) kernel_mail\<rparr>"
  have "\<exists>s' tm'. rtos_deinit_oneshot_timer ?t ?s = Some (s', tm', kNoErr)"
    by (simp add: rtos_deinit_oneshot_timer_def)
  then show ?thesis using oneshot_deinit_silent by blast
qed

theorem init_timer_never_fails_witness:
  "\<exists>s' tm. rtos_init_timer 5 (Some 3) 0 7 None rtos_two = Some (s', tm, kNoErr) \<and> \<not> rtos_is_timer_init tm"
proof -
  have "\<exists>s' tm e. rtos_init_timer 5 (Some 3) 0 7 None rtos_two = Some (s', tm, e)"
    by (simp add: rtos_init_timer_def ticks_small on_kernel_def rt_timer_create_def rt_object_allocate_def Let_def
        rtos_two_def kernel_mail_def kernel_two_facts)
  then show ?thesis using init_timer_never_fails by metis
qed

end
