(* ===== verification/Spec2Isabelle.thy ===== *)
theory Spec2Isabelle
  imports Rtt_Kernel_Props Rtt_Ipc_Props Rtt_Driver_Props Rtt_Memory_Props Rtt_Ringbuffer Rtt_System_Props Rtt_Format_Text Rtt_Pipe
    Rtt_Dfs_Spec Rtt_Slist
    Beken_List Beken_Button Beken_Fifo Beken_Ring Beken_Base64 Beken_Utf8 Beken_Rtos
begin

text \<open>
  The RT-Thread kernel and the Beken code around it, as shipped in the Beken BDK.

  The repository is the firmware kit of the Beken BK72xx wireless chips. Its own core is a real
  time kernel (\<^verbatim>\<open>rt-thread/src\<close>, \<^verbatim>\<open>rt-thread/include\<close>), the driver framework on
  top of it (\<^verbatim>\<open>rt-thread/components/drivers/src\<close>) and Beken's self-contained code
  (\<^verbatim>\<open>beken378\<close>). Threads run one at a time, by priority. They wait for each other on
  semaphores, mutexes, event sets, mailboxes and message queues, all of which keep their waiters
  on lists of threads and give up the processor through \<^verbatim>\<open>rt_schedule\<close>. A clock
  interrupt advances time, and a timer embedded in every thread ends its wait. Memory comes from
  heaps and pools that serialise their callers with a semaphore or a waiting list. The drivers'
  completions, data queues, work queues and wait queues are built on the same suspend and
  resume; devices and pipes sit on the object registry, mutexes and ring buffers. The device file system
  (\<^verbatim>\<open>rt-thread/components/dfs\<close>) gives devices and mounted file systems one tree of
  names and a table of descriptors. Beken's
  operating-system interface renames all of this for the wireless and application code.

  The configuration is the one the build selects, \<^verbatim>\<open>config/rtconfig/rtconfig_bk7231n.h\<close>:
  32 priorities, hooks unset, one skip list level, software timers, the memory heap as system
  heap with memory tracing, no signals and no modules.
\<close>

section \<open>How the model corresponds to the code\<close>

text \<open>
  State. The functions of the kernel share one record \<open>kernel\<close> (\<^verbatim>\<open>Rtt_State\<close>): the
  scheduler's variables, the tick, and one map per kind of object. Objects are named by references
  (\<open>tid\<close>, \<open>timer_ref\<close>, \<open>oref\<close>) in place of pointers. What the C code reaches through
  embedded list nodes is kept in three stores of disjoint circular lists, for threads, timers
  and object headers. These stores are not an idealisation by decree: \<^verbatim>\<open>Rtt_List\<close>
  models the inline functions of \<^verbatim>\<open>rtservice.h\<close> on a memory of nodes with
  \<^verbatim>\<open>next\<close> and \<^verbatim>\<open>prev\<close> fields and proves that they are refined by the list
  operations the rest of the development uses. Singly linked structures whose links carry meaning
  of their own (free lists of message queues and pools, the block headers of a heap, the list of
  buttons) stay pointer structures in the model.

  Integers. Every field has the width of the C type (\<open>rt_uint8\<close>, \<open>rt_uint16\<close>,
  \<open>rt_uint32\<close>, \<open>rt_tick\<close>; words of \<^verbatim>\<open>HOL-Library.Word\<close>), so sums wrap as in C. Error
  codes and signed time-outs are \<open>int\<close>, the library's memory areas are functions from
  addresses to bytes.

  Failure. A result \<open>None\<close> stands for a run that does not come back with a defined result: a
  failed \<^verbatim>\<open>RT_ASSERT\<close>, a loop that does not end, an access to an object that is not
  there. Error codes are ordinary results. Theorems that a call works therefore state that its
  result is \<open>Some\<close>.

  Waiting. A call that puts its thread to sleep is cut at its \<^verbatim>\<open>rt_schedule()\<close>. The first
  part says how it ended (\<open>outcome\<close>, \<open>msg_outcome\<close>: done with an error code, or waiting),
  and what the code does when the thread runs again is a definition of its own, named after the call
  with a suffix such as \<^verbatim>\<open>_leave\<close> or \<^verbatim>\<open>_loop\<close>. Anything may happen in between.

  Loops. Loops over structures whose length is known are structural recursion. Loops that end only
  when the structure is well formed (walks along links, waking all waiters, the timer check, reading
  a C string) are \<^theory_text>\<open>partial_function (option)\<close>, so that not ending is \<open>None\<close>; that they
  end is proved from the invariant of the structure. No definition has a fuel argument: the
  invariants give the measures (number of waiters, blocks, buttons, timers due).

  Arguments for what is not in the source. Work functions, timer callbacks, driver functions, file systems and
  the wake functions of wait queues are parameters (\<open>callbacks\<close>, \<open>rt_device_ops\<close> and others),
  and theorems that depend on them name what they assume. Results of \<^verbatim>\<open>rt_malloc\<close> in
  functions that only test them are boolean arguments. The context switch is assembly; the model
  has its effect, the change of the running thread.
\<close>

section \<open>The theories\<close>

text \<open>
  The kernel.
  \<^item> \<^verbatim>\<open>Rtt_Prelude\<close>: integer types and constants of \<^verbatim>\<open>rtdef.h\<close>, collections of
    rewrite rules, shared lemmas on lists, words and options.
  \<^item> \<^verbatim>\<open>Rtt_List\<close> (\<^verbatim>\<open>rtservice.h\<close>): intrusive lists on pointers, sets of lists, the
    locale \<open>list_impl\<close> and its interpretation \<open>ptr\<close>; \<^verbatim>\<open>Rtt_Slist\<close> has the singly linked lists
    of the same header.
  \<^item> \<^verbatim>\<open>Rtt_State\<close>, \<^verbatim>\<open>Rtt_Object\<close> (\<^verbatim>\<open>rtdef.h\<close>, \<^verbatim>\<open>object.c\<close>): the
    kernel record and the object registry.
  \<^item> \<^verbatim>\<open>Rtt_Ffs\<close>, \<^verbatim>\<open>Rtt_Kservice\<close>, \<^verbatim>\<open>Rtt_Kprintf\<close> (\<^verbatim>\<open>kservice.c\<close>, and the
    bit search of the ARM port): find first set, memory and string routines, formatted output;
    \<^verbatim>\<open>Rtt_Format_Text\<close> says which text a format stands for.
  \<^item> \<^verbatim>\<open>Rtt_Timer\<close>, \<^verbatim>\<open>Rtt_Clock\<close>, \<^verbatim>\<open>Rtt_Clock_Inv\<close> (\<^verbatim>\<open>timer.c\<close>,
    \<^verbatim>\<open>clock.c\<close>, \<^verbatim>\<open>idle.c\<close>): starting and stopping timers, the tick interrupt, the
    timer and idle threads, and the invariant across an interrupt; \<^verbatim>\<open>Rtt_Expiry\<close> has what an
    interrupt does to the timers that are due and to their threads.
  \<^item> \<^verbatim>\<open>Rtt_Scheduler\<close>, \<^verbatim>\<open>Rtt_Thread\<close>, \<^verbatim>\<open>Rtt_Thread_Inv\<close>, \<^verbatim>\<open>Rtt_Boot\<close>
    (\<^verbatim>\<open>scheduler.c\<close>, \<^verbatim>\<open>thread.c\<close>, \<^verbatim>\<open>components.c\<close>): ready lists and priority
    bitmap, thread life cycle, the invariant \<open>kinv\<close>, start-up.
  \<^item> \<^verbatim>\<open>Rtt_Ipc\<close>, \<^verbatim>\<open>Rtt_Sem\<close>, \<^verbatim>\<open>Rtt_Mutex\<close>, \<^verbatim>\<open>Rtt_Event\<close>,
    \<^verbatim>\<open>Rtt_Mailbox\<close>, \<^verbatim>\<open>Rtt_Mqueue\<close> (\<^verbatim>\<open>ipc.c\<close>): waiting lists and the five
    communication objects.
  \<^item> \<^verbatim>\<open>Rtt_Chain\<close>, \<^verbatim>\<open>Rtt_Mempool\<close> (\<^verbatim>\<open>mempool.c\<close>): chains of numbered blocks and
    memory pools.
  \<^item> \<^verbatim>\<open>Rtt_Align\<close>, \<^verbatim>\<open>Rtt_Memheap\<close> with its \<^verbatim>\<open>_Inv\<close>, \<^verbatim>\<open>_Ops\<close> and
    \<^verbatim>\<open>_Spec\<close>, \<^verbatim>\<open>Rtt_Heap\<close>, \<^verbatim>\<open>Rtt_Heap_Spec\<close> (\<^verbatim>\<open>memheap.c\<close>): the
    operations under the lock of a heap, the invariant, the calls with their waiting, the system
    heap over several heaps.
  \<^item> \<^verbatim>\<open>Rtt_Timely\<close>, \<^verbatim>\<open>Rtt_Served\<close>, \<^verbatim>\<open>Rtt_Syscalls\<close>, \<^verbatim>\<open>Rtt_Irq\<close>,
    \<^verbatim>\<open>Rtt_Flight\<close>, \<^verbatim>\<open>Rtt_System\<close>, \<^verbatim>\<open>Rtt_System_Inv\<close>: what every call keeps, up to the
    whole system; \<^verbatim>\<open>Rtt_Examples\<close>
    holds the concrete states the properties are tried on.

  The driver framework: \<^verbatim>\<open>Rtt_Completion\<close>, \<^verbatim>\<open>Rtt_Dataqueue\<close>,
  \<^verbatim>\<open>Rtt_Workqueue\<close>, \<^verbatim>\<open>Rtt_Waitqueue\<close>, \<^verbatim>\<open>Rtt_Ringbuffer\<close>, \<^verbatim>\<open>Rtt_Pipe\<close>
  (the files of these names) and \<^verbatim>\<open>Rtt_Device\<close> (\<^verbatim>\<open>rt-thread/src/device.c\<close>);
  \<^verbatim>\<open>Rtt_Locked\<close> has what sections under a mutex share.

  The device file system: \<^verbatim>\<open>Rtt_Path\<close> (the normalisation of paths in \<^verbatim>\<open>dfs.c\<close>),
  \<^verbatim>\<open>Rtt_Dfs\<close> (the tables of types, mounts and descriptors, \<^verbatim>\<open>dfs.c\<close>,
  \<^verbatim>\<open>dfs_fs.c\<close>), \<^verbatim>\<open>Rtt_Dfs_File\<close> (files and mounting, \<^verbatim>\<open>dfs_file.c\<close>,
  \<^verbatim>\<open>dfs_fs.c\<close>) and \<^verbatim>\<open>Rtt_Dfs_Spec\<close> (what the calls do on the names of a path).

  The Beken side: \<^verbatim>\<open>Beken_List\<close> (\<^verbatim>\<open>doubly_list.h\<close>), \<^verbatim>\<open>Beken_Button\<close> (\<^verbatim>\<open>multi_button.c\<close>), \<^verbatim>\<open>Beken_Fifo\<close>
  (\<^verbatim>\<open>fifo.h\<close>), \<^verbatim>\<open>Beken_Ring\<close> (\<^verbatim>\<open>ring_buffer.c\<close> of the audio driver),
  \<^verbatim>\<open>Beken_Base64\<close> (\<^verbatim>\<open>base_64.c\<close>),
  \<^verbatim>\<open>Beken_Utf8\<close> (\<^verbatim>\<open>conv_utf8.c\<close>) and \<^verbatim>\<open>Beken_Rtos\<close> (\<^verbatim>\<open>rtos_pub.c\<close>).

  The properties stand with their components or, where several components take part, in the theories
  ending in \<^verbatim>\<open>_Props\<close>.
\<close>

section \<open>The interfaces\<close>

text \<open>
  \<^item> \<open>list_impl\<close> (\<^verbatim>\<open>Rtt_List\<close>): a representation of a set of lists with insertion, removal
    and the test for emptiness; provided by the pointer
    operations of \<^verbatim>\<open>rtservice.h\<close> and by those of \<^verbatim>\<open>doubly_list.h\<close>.
  \<^item> \<open>fifo\<close> and its extension \<open>bounded_fifo\<close> (\<^verbatim>\<open>Rtt_Fifo\<close>): one element in, one
    out, in order, with a bound; every run of puts and gets is that of a list. Provided by the ring
    buffer, the mailbox and the audio ring.
  \<^item> \<open>block_fifo\<close> (\<^verbatim>\<open>Rtt_Block_Fifo\<close>): the same in blocks, with \<open>fifo\<close> as a
    sublocale for blocks of one element; every run of calls gives
    the results of a queue. Provided by the ring buffer and the byte FIFO.
  \<^item> \<open>block_alloc\<close> (\<^verbatim>\<open>Rtt_Chain\<close>): blocks of one size, at most so many; provided by
    the memory pools.
  \<^item> \<open>allocator\<close> (\<^verbatim>\<open>Rtt_Allocator\<close>): blocks of any size that never overlap; provided by
    the calls of the memory heap.
  \<^item> \<open>quiet_driver\<close> (\<^verbatim>\<open>Rtt_Device\<close>): what the device layer needs of a driver; provided
    by the pipe.
\<close>

section \<open>What is proved\<close>

text \<open>
  The whole system (\<^verbatim>\<open>Rtt_System\<close>). A state is the kernel together with, for every thread,
  the point it has reached: outside the kernel, waiting inside a call, or between two critical
  sections of a call on a message queue. The step relation \<open>sys_step\<close> has the clock interrupt,
  interrupts that release a semaphore, send events or send a message, new
  calls of the running thread (\<open>legal\<close> ones: on initialised objects, with time-outs the
  timers can hold, and never a call that may wait from the idle thread), and calls that go on after
  a wait or after a critical section. \<open>in_time\<close> leaves out the resumption of a mailbox or message
  queue call after 2 to the 31 ticks in a
  ready list, where the code's own computation of the remaining time wraps; timer callbacks are a
  parameter that keeps the invariant (\<open>callbacks_sys\<close>). The invariant \<open>system_inv\<close> joins
  those of scheduler, timers and communication objects and says that each block of a message
  queue is in the queue, on the free list or held by one thread; it holds in every reachable state.
  In each of them the interrupt returns and every call ends or waits, so no assertion of the modelled
  calls can fail, and a message that is linked is the one its sender was given, whatever happened in between
  (\<^verbatim>\<open>Rtt_Flight\<close> has the contract of the steps on the blocks). The other
  operations of \<^verbatim>\<open>ipc.c\<close>, memory and drivers are not part of this step relation; they
  are proved correct one by one, on the same kernel state.

  The kernel's core. The scheduler runs the first thread of the highest non-empty ready list, with
  both implementations of the bit search equal to a reference. The tick interrupt fires exactly the
  timers that are due, calls their functions in order and stops or restarts them. The start-up sequence reaches a state with the invariant. The registry finds an object by
  its name and type. The memory routines equal their specifications, overlap included; formatted
  output writes the text of its format, cut to the buffer, and nothing else, and its numbers read back.

  Communication. Semaphores are handed to the first waiter; mutexes raise and restore the priority of
  the owner; events wake exactly the waiters whose wish the flags meet and clear what these
  ask for; mailboxes and message queues keep
  order and count.

  Memory. The blocks of a heap tile its pool, free neighbours are merged, blocks handed out never
  overlap, a pool of which every block was returned is one free block again, and reallocation keeps
  contents. Blocks of a pool are handed out once.

  The device file system. A path is resolved by its names; the lookup finds the deepest mount; descriptors
  are counted; an open reaches the driver of the file system with the rest of the path.

  Drivers and the Beken side. Buffers behave, result by result, as bounded queues of bytes across every
  wrap-around; the reference
  count of a device is the number of opens less the number of closes; a press of a button of each
  length gives the documented events; Base64 and the character conversion round trip, the conversion
  for the texts its buffer has room for; a queue of
  the operating-system interface is first in, first out.

  Faults. Where the code does not do what it means to, the theorem says what it does: the wrap in the
  room test of \<^verbatim>\<open>rt_memheap_realloc\<close>, the missing reschedule after the release of a mutex,
  a data queue whose counters wrap, cancelling a work before the woken worker runs,
  a device that cannot be closed, a queue that still counts a waiter after its time-out,
  a reader overtaking an audio write, a path that goes up from the root, a directory mounted twice under two
  spellings, buffers of the character conversion that are one byte too short.
\<close>

section \<open>Not modelled\<close>

text \<open>
  Context switch and interrupt entry (assembly of \<^verbatim>\<open>rt-thread/libcpu\<close>), stacks, names of
  threads, output to the console. \<^verbatim>\<open>signal.c\<close>, \<^verbatim>\<open>mem.c\<close> and \<^verbatim>\<open>slab.c\<close>
  are not compiled in this configuration. The POSIX side of
  \<^verbatim>\<open>pipe.c\<close>, \<^verbatim>\<open>dfs_posix.c\<close> and the drivers of the file systems are left out; a
  wait for the mutex of a pipe or for the lock of the file system is outside the model. The variants of the audio ring that read a DMA position depend on a register.
  \<^verbatim>\<open>rtos_get_free_mem\<close> calls a function the configured allocator does not define. Changes to the
  set of heaps while a call waits for the lock of one are excluded.

  The rest of the repository is third-party code (wolfSSL, mbedTLS, wpa_supplicant, lwIP, FatFs,
  audio codecs, packages), the shell, the closed wireless library's interface, drivers that write registers whose
  behaviour is not in the repository, and applications and samples that call what is
  modelled here.
\<close>

end
